(* ===== verification/Prelude.thy ===== *)
theory Prelude imports Main "HOL-Library.Word" "HOL-Library.Monad_Syntax" begin

text \<open>
  What the components share: the machine integers and byte strings of the Rust code, its
  panicking accesses as the \<open>option\<close> type (\<open>None\<close> is a panic), the big- and little-endian
  conversions of the standard library, and the interface of a component that is run
  over a sequence of events.
\<close>

unbundle bit_operations_syntax

section \<open>Machine integers and byte strings\<close>

type_synonym u8 = "8 word"
type_synonym u16 = "16 word"
type_synonym u32 = "32 word"
type_synonym u64 = "64 word"
type_synonym bytes = "u8 list"

text \<open>Rewrite rules for lengths and values of encoded fields, and for bounded reads.\<close>

named_theorems bytes_simps
named_theorems read_simps

section \<open>Panicking accesses\<close>

text \<open>
  \<open>xs[i]\<close> and \<open>xs[a..b]\<close> of Rust panic outside the slice; a write \<open>xs[i] = v\<close> does too.
\<close>

definition idx :: "'a list \<Rightarrow> nat \<Rightarrow> 'a option" where
  "idx xs i = (if i < length xs then Some (xs ! i) else None)"

definition slice :: "'a list \<Rightarrow> nat \<Rightarrow> nat \<Rightarrow> 'a list option" where
  "slice xs a b = (if a \<le> b \<and> b \<le> length xs then Some (take (b - a) (drop a xs)) else None)"

definition put :: "'a list \<Rightarrow> nat \<Rightarrow> 'a \<Rightarrow> 'a list option" where
  "put xs i v = (if i < length xs then Some (xs[i := v]) else None)"

lemma idx_Some [read_simps]: "i < length xs \<Longrightarrow> idx xs i = Some (xs ! i)"
  by (simp add: idx_def)

lemma idx_eq_Some_iff: "idx xs i = Some v \<longleftrightarrow> i < length xs \<and> v = xs ! i"
  by (auto simp: idx_def)

lemma idx_append [simp]: "i < length xs \<Longrightarrow> idx (xs @ ys) i = idx xs i"
  by (simp add: idx_def nth_append)

lemma idx_append_right: "length xs \<le> i \<Longrightarrow> idx (xs @ ys) i = idx ys (i - length xs)"
  by (auto simp: idx_def nth_append)

lemma slice_Some [read_simps]:
  "a \<le> b \<Longrightarrow> b \<le> length xs \<Longrightarrow> slice xs a b = Some (take (b - a) (drop a xs))"
  by (simp add: slice_def)

lemma slice_length: "slice xs a b = Some ys \<Longrightarrow> length ys = b - a"
  by (auto simp: slice_def split: if_splits)

lemma slice_middle: "slice (xs @ ys @ zs) (length xs) (length xs + length ys) = Some ys"
  by (simp add: slice_def)

lemma put_Some [read_simps]: "i < length xs \<Longrightarrow> put xs i v = Some (xs[i := v])"
  by (simp add: put_def)

lemma put_length: "put xs i v = Some ys \<Longrightarrow> length ys = length xs"
  by (auto simp: put_def split: if_splits)

section \<open>Big- and little-endian conversions\<close>

definition to_be16 :: "u16 \<Rightarrow> bytes" where
  "to_be16 x = [ucast (drop_bit 8 x), ucast x]"

definition from_be16 :: "u8 \<Rightarrow> u8 \<Rightarrow> u16" where
  "from_be16 a b = push_bit 8 (ucast a) OR ucast b"

definition to_be32 :: "u32 \<Rightarrow> bytes" where
  "to_be32 x = [ucast (drop_bit 24 x), ucast (drop_bit 16 x), ucast (drop_bit 8 x), ucast x]"

definition from_be32 :: "u8 \<Rightarrow> u8 \<Rightarrow> u8 \<Rightarrow> u8 \<Rightarrow> u32" where
  "from_be32 a b c d =
     push_bit 24 (ucast a) OR push_bit 16 (ucast b) OR push_bit 8 (ucast c) OR ucast d"

definition to_le32 :: "u32 \<Rightarrow> bytes" where
  "to_le32 x = [ucast x, ucast (drop_bit 8 x), ucast (drop_bit 16 x), ucast (drop_bit 24 x)]"

definition from_le32 :: "u8 \<Rightarrow> u8 \<Rightarrow> u8 \<Rightarrow> u8 \<Rightarrow> u32" where
  "from_le32 a b c d = from_be32 d c b a"

definition to_be64 :: "u64 \<Rightarrow> bytes" where
  "to_be64 x = to_be32 (ucast (drop_bit 32 x)) @ to_be32 (ucast x)"

definition to_le64 :: "u64 \<Rightarrow> bytes" where
  "to_le64 x = to_le32 (ucast x) @ to_le32 (ucast (drop_bit 32 x))"

lemma length_to_be16 [simp, bytes_simps]: "length (to_be16 x) = 2"
  by (simp add: to_be16_def)

lemma length_to_be32 [simp, bytes_simps]: "length (to_be32 x) = 4"
  by (simp add: to_be32_def)

lemma length_to_le32 [simp, bytes_simps]: "length (to_le32 x) = 4"
  by (simp add: to_le32_def)

lemma length_to_be64 [simp, bytes_simps]: "length (to_be64 x) = 8"
  by (simp add: to_be64_def)

lemma length_to_le64 [simp, bytes_simps]: "length (to_le64 x) = 8"
  by (simp add: to_le64_def)

lemma from_be16_to_be16 [simp, bytes_simps]:
  "from_be16 (to_be16 x ! 0) (to_be16 x ! 1) = x"
  by (rule bit_word_eqI) (auto simp: to_be16_def from_be16_def bit_simps)

lemma from_be16_parts [simp]: "from_be16 (ucast (drop_bit 8 x)) (ucast x) = x"
  by (rule bit_word_eqI) (auto simp: from_be16_def bit_simps)

lemma octet_cases:
  assumes "n < (32 :: nat)"
  obtains "n < 8" | k where "n = 8 + k" "k < 8" | k where "n = 16 + k" "k < 8"
    | k where "n = 24 + k" "k < 8"
proof -
  from assms have "n < 8 \<or> (n = 8 + (n - 8) \<and> n - 8 < 8) \<or> (n = 16 + (n - 16) \<and> n - 16 < 8)
      \<or> (n = 24 + (n - 24) \<and> n - 24 < 8)" by presburger
  then show ?thesis using that by blast
qed

lemma bit_u8_high [simp]: "bit (b :: u8) (8 + n) = False" "bit (b :: u8) (16 + n) = False"
  "bit (b :: u8) (24 + n) = False"
  by (auto dest: bit_imp_le_length)

lemma from_be32_parts [simp]:
  "from_be32 (ucast (drop_bit 24 x)) (ucast (drop_bit 16 x)) (ucast (drop_bit 8 x)) (ucast x) = x"
proof (rule bit_word_eqI)
  fix n assume "n < LENGTH(32)"
  then have "n < 32" by simp
  then show "bit (from_be32 (ucast (drop_bit 24 x)) (ucast (drop_bit 16 x))
      (ucast (drop_bit 8 x)) (ucast x)) n = bit x n"
    by (cases rule: octet_cases) (auto simp: from_be32_def bit_simps)
qed

lemma to_be16_from_be16 [simp]: "to_be16 (from_be16 a b) = [a, b]"
  by (auto simp: to_be16_def from_be16_def intro!: bit_word_eqI) (auto simp: bit_simps)

lemma from_be16_inj: "from_be16 a b = from_be16 c d \<longleftrightarrow> a = c \<and> b = d"
proof
  assume "from_be16 a b = from_be16 c d"
  then have "to_be16 (from_be16 a b) = to_be16 (from_be16 c d)" by simp
  then show "a = c \<and> b = d" by simp
qed simp

lemma octet_mask: "(0xff :: 'a::len word) = mask 8"
  by (simp add: mask_eq_exp_minus_1)

lemma ucast_low_octet16 [simp]: "(ucast ((x :: u16) AND 0xff) :: u8) = ucast x"
  unfolding octet_mask by (rule bit_word_eqI) (simp add: bit_simps)

lemma ucast_low_octet32 [simp]: "(ucast ((x :: u32) AND 0xff) :: u8) = ucast x"
  unfolding octet_mask by (rule bit_word_eqI) (simp add: bit_simps)

lemma ucast_octet_up [simp]: "(ucast (ucast (b :: u8) :: u16) :: u8) = b"
  "(ucast (ucast (b :: u8) :: u32) :: u8) = b"
  by (rule bit_word_eqI; simp add: bit_simps)+

lemma mod_down_add: "(256 :: int) dvd m \<Longrightarrow> (x mod m + y mod m) mod 256 = (x + y) mod 256"
  by (metis mod_add_eq mod_mod_cancel)

lemma ucast_add_octet: "(ucast ((x :: u32) + y) :: u8) = ucast x + ucast y"
  by transfer (simp add: take_bit_eq_mod mod_down_add mod_mod_cancel)

section \<open>Loops whose body may panic\<close>

fun for_each :: "('i \<Rightarrow> 'b \<Rightarrow> 'b option) \<Rightarrow> 'i list \<Rightarrow> 'b \<Rightarrow> 'b option" where
  "for_each f [] b = Some b"
| "for_each f (i # is) b = (case f i b of None \<Rightarrow> None | Some b' \<Rightarrow> for_each f is b')"

lemma for_each_append:
  "for_each f (is @ js) b = (case for_each f is b of None \<Rightarrow> None | Some b' \<Rightarrow> for_each f js b')"
  by (induction "is" arbitrary: b) (auto split: option.splits)

lemma for_each_invariant:
  assumes "for_each f is b = Some b'" and "P b"
    and "\<And>i b b'. i \<in> set is \<Longrightarrow> P b \<Longrightarrow> f i b = Some b' \<Longrightarrow> P b'"
  shows "P b'"
  using assms
proof (induction "is" arbitrary: b)
  case (Cons i "is")
  then obtain c where "f i b = Some c" "for_each f is c = Some b'"
    by (auto split: option.splits)
  with Cons.prems(2,3) show ?case by (intro Cons.IH [of c]) auto
qed simp

text \<open>A loop panics as soon as one of its iterations does, whatever the others did to the state.\<close>

lemma for_each_panics:
  assumes "i \<in> set is" and "P b" and "\<And>b. P b \<Longrightarrow> f i b = None"
    and "\<And>j b b'. P b \<Longrightarrow> f j b = Some b' \<Longrightarrow> P b'"
  shows "for_each f is b = None"
  using assms(1,2)
proof (induction "is" arbitrary: b)
  case (Cons j "is")
  show ?case
  proof (cases "f j b")
    case (Some c)
    with Cons.prems assms(3) [of b] have "i \<in> set is" by auto
    with Some show ?thesis using Cons.IH [of c] assms(4) [OF Cons.prems(2) Some] by simp
  qed simp
qed simp

text \<open>
  A loop of writes at distinct positions is a simultaneous update: it never panics when the
  positions are in range, and each cell holds what the iteration that owns it wrote.
\<close>

definition puts :: "(nat \<times> 'a) list \<Rightarrow> 'a list \<Rightarrow> 'a list option" where
  "puts ws b = for_each (\<lambda>(p, v) b. put b p v) ws b"

lemma puts_single [simp]: "puts [(p, v)] b = put b p v"
  by (auto simp: puts_def split: option.splits)

lemma puts_pair: "puts [(p, v), (q, w)] b = Option.bind (put b p v) (\<lambda>b. put b q w)"
  by (auto simp: puts_def split: option.splits Option.bind_splits)

lemma puts_distinct:
  assumes "distinct (map fst ws)" and "\<forall>p \<in> fst ` set ws. p < length b"
  shows "\<exists>b'. puts ws b = Some b' \<and> length b' = length b \<and>
    (\<forall>(p, v) \<in> set ws. b' ! p = v) \<and> (\<forall>k. k \<notin> fst ` set ws \<longrightarrow> b' ! k = b ! k)"
  using assms
proof (induction ws arbitrary: b)
  case (Cons w ws)
  obtain p v where w: "w = (p, v)" by fastforce
  have p: "p < length b" "p \<notin> fst ` set ws" using Cons.prems w by auto
  obtain c where c: "puts ws (b[p := v]) = Some c" "length c = length b"
      "\<forall>(q, u) \<in> set ws. c ! q = u" "\<forall>k. k \<notin> fst ` set ws \<longrightarrow> c ! k = b[p := v] ! k"
    using Cons.IH [of "b[p := v]"] Cons.prems by auto
  have "puts (w # ws) b = Some c" using c(1) p(1) w by (simp add: puts_def put_def)
  moreover have "\<forall>(q, u) \<in> set (w # ws). c ! q = u" using c(3,4) p w by auto
  moreover have "\<forall>k. k \<notin> fst ` set (w # ws) \<longrightarrow> c ! k = b ! k" using c(4) w by auto
  ultimately show ?case using c(2) by blast
qed (simp add: puts_def)

lemma for_each_puts:
  assumes "\<And>i b. i \<in> set is \<Longrightarrow> length b = n \<Longrightarrow> f i b = puts (ws i) b" and "length b = n"
  shows "for_each f is b = puts (concat (map ws is)) b"
  using assms
proof (induction "is" arbitrary: b)
  case (Cons i "is")
  have len: "length c = n" if "puts (ws i) b = Some c" for c
    using for_each_invariant [of _ "ws i" b c "\<lambda>b. length b = n"] that Cons.prems(2)
    by (fastforce simp: puts_def dest: put_length)
  show ?case
    using Cons len by (auto simp: puts_def for_each_append split: option.splits)
qed (simp add: puts_def)

lemma distinct_two_families:
  assumes "distinct is" "inj_on p (set is)" "inj_on q (set is)"
    "\<And>i j. i \<in> set is \<Longrightarrow> j \<in> set is \<Longrightarrow> p i \<noteq> q j"
  shows "distinct (map fst (concat (map (\<lambda>i. [(p i, v i), (q i, w i)]) is)))"
  using assms
proof (induction "is")
  case (Cons i "is")
  have fresh: "p i \<notin> p ` set is" "q i \<notin> q ` set is" "p i \<notin> q ` set is" "q i \<notin> p ` set is"
    using Cons.prems by (auto simp: inj_on_def) metis
  have "distinct (map fst (concat (map (\<lambda>i. [(p i, v i), (q i, w i)]) is)))"
    using Cons by (auto simp: inj_on_def)
  with fresh Cons.prems(4) [of i i] show ?case by (auto simp: image_iff)
qed simp

lemma distinct_one_family:
  assumes "distinct is" "inj_on p (set is)"
  shows "distinct (map fst (concat (map (\<lambda>i. [(p i, v i)]) is)))"
proof -
  have "map fst (concat (map (\<lambda>i. [(p i, v i)]) is)) = map p is" by (induction "is") auto
  with assms show ?thesis by (simp add: distinct_map o_def)
qed

lemma fill_one:
  assumes "\<And>i b. i \<in> set is \<Longrightarrow> f i b = put b (p i) (v i)"
    and "distinct is" "inj_on p (set is)" and range: "\<And>i. i \<in> set is \<Longrightarrow> p i < length b"
  shows "\<exists>b'. for_each f is b = Some b' \<and> length b' = length b \<and> (\<forall>i \<in> set is. b' ! p i = v i)"
proof -
  have run: "for_each f is b = puts (concat (map (\<lambda>i. [(p i, v i)]) is)) b"
    by (rule for_each_puts [OF _ refl]) (simp add: assms(1))
  have "\<forall>k \<in> fst ` set (concat (map (\<lambda>i. [(p i, v i)]) is)). k < length b"
    using range by auto
  from puts_distinct [OF distinct_one_family [OF assms(2,3)] this] show ?thesis
    unfolding run by force
qed

lemma fill_two:
  assumes body: "\<And>i b. i \<in> set is \<Longrightarrow> f i b = puts [(p i, v i), (q i, w i)] b"
    and d: "distinct is" "inj_on p (set is)" "inj_on q (set is)"
      "\<And>i j. i \<in> set is \<Longrightarrow> j \<in> set is \<Longrightarrow> p i \<noteq> q j"
    and range: "\<And>i. i \<in> set is \<Longrightarrow> p i < length b \<and> q i < length b"
  shows "\<exists>b'. for_each f is b = Some b' \<and> length b' = length b
    \<and> (\<forall>i \<in> set is. b' ! p i = v i \<and> b' ! q i = w i)
    \<and> (\<forall>k. k \<notin> p ` set is \<union> q ` set is \<longrightarrow> b' ! k = b ! k)"
proof -
  let ?ws = "concat (map (\<lambda>i. [(p i, v i), (q i, w i)]) is)"
  have run: "for_each f is b = puts ?ws b"
    by (rule for_each_puts [OF _ refl]) (simp add: body)
  have "\<forall>k \<in> fst ` set ?ws. k < length b" using range by auto
  from puts_distinct [OF distinct_two_families [OF d] this] obtain b' where b':
      "puts ?ws b = Some b'" "length b' = length b" "\<forall>(k, x) \<in> set ?ws. b' ! k = x"
      "\<forall>k. k \<notin> fst ` set ?ws \<longrightarrow> b' ! k = b ! k" by blast
  have "fst ` set ?ws = p ` set is \<union> q ` set is" by force
  with b' show ?thesis unfolding run by force
qed

section \<open>Row major cells\<close>

lemma cell_less: "r < h \<Longrightarrow> c < w \<Longrightarrow> r * w + c < h * (w :: nat)"
proof -
  assume "r < h" "c < w"
  then have "r * w + c < Suc r * w" by simp
  also have "\<dots> \<le> h * w" using \<open>r < h\<close> by (intro mult_le_mono1) simp
  finally show ?thesis .
qed

lemma cell_inj:
  assumes w: "c < w" "c' < (w :: nat)"
  shows "r * w + c = r' * w + c' \<longleftrightarrow> r = r' \<and> c = c'"
proof
  assume eq: "r * w + c = r' * w + c'"
  from w have "(r * w + c) div w = r" "(r' * w + c') div w = r'" by simp_all
  with eq show "r = r' \<and> c = c'" by simp
qed simp

section \<open>The last event that satisfies a predicate\<close>

definition last_such :: "('a \<Rightarrow> bool) \<Rightarrow> 'a list \<Rightarrow> 'a option" where
  "last_such P xs = (let ys = filter P xs in if ys = [] then None else Some (last ys))"

lemma last_such_Nil [simp]: "last_such P [] = None"
  by (simp add: last_such_def)

lemma last_such_snoc [simp]:
  "last_such P (xs @ [x]) = (if P x then Some x else last_such P xs)"
  by (simp add: last_such_def Let_def)

section \<open>Components run over a sequence of events\<close>

text \<open>
  A component with a deterministic step is run over a list of events by \<open>foldl\<close>. The
  interface: a step that keeps an invariant; its clients get the invariant for every run.
\<close>

locale stepper =
  fixes step :: "'s \<Rightarrow> 'e \<Rightarrow> 's" and good :: "'s \<Rightarrow> bool"
  assumes step_good: "good s \<Longrightarrow> good (step s e)"
begin

lemma run_good: "good s \<Longrightarrow> good (foldl step s es)"
  by (induction es arbitrary: s) (auto intro: step_good)

lemma run_prefix_good: "good s \<Longrightarrow> good (foldl step s (take n es))"
  by (rule run_good)

end

end
