(* ===== verification/Hid.thy ===== *)
theory Hid imports Prelude begin

text \<open>
  \<open>agent/src/hid.rs\<close>: the eight byte control frames that arrive over the data channel and
  what they make the agent write: keyboard and mouse reports of the USB gadget, the serial
  packets of the CH9329 fallback, and the video control commands of both modes. A device
  is modelled by the sequence of reports handed to its \<open>write_all\<close>; a failed write is only
  logged by the code, so it changes nothing here.
\<close>

section \<open>Frames and state\<close>

definition HID_STATUS_KEYBOARD :: u8 where "HID_STATUS_KEYBOARD = 0x01"
definition HID_STATUS_MOUSE :: u8 where "HID_STATUS_MOUSE = 0x02"

definition TYPE_KEYBOARD :: u8 where "TYPE_KEYBOARD = 0x01"
definition TYPE_MOUSE_MOVE :: u8 where "TYPE_MOUSE_MOVE = 0x02"
definition TYPE_MOUSE_BTN :: u8 where "TYPE_MOUSE_BTN = 0x03"
definition TYPE_MOUSE_WHEEL :: u8 where "TYPE_MOUSE_WHEEL = 0x04"
definition TYPE_CONTROL :: u8 where "TYPE_CONTROL = 0x10"

lemmas frame_types = TYPE_KEYBOARD_def TYPE_MOUSE_MOVE_def TYPE_MOUSE_BTN_def
  TYPE_MOUSE_WHEEL_def TYPE_CONTROL_def

datatype video_control = ChangeResolution u32 u32 | ChangeFps u32

record gadget =
  kbd :: bool
  mouse :: bool
  video_ctrl :: bool
  last_x :: u16
  last_y :: u16
  last_buttons :: u8
  kbd_out :: "bytes list"
  mouse_out :: "bytes list"
  ctrl_out :: "video_control list"

definition make_abs_mouse_report :: "u8 \<Rightarrow> u16 \<Rightarrow> u16 \<Rightarrow> u8 \<Rightarrow> bytes" where
  "make_abs_mouse_report buttons x y wheel =
     [buttons,
      ucast (x AND 0xff),
      ucast (drop_bit 8 x AND 0xff),
      ucast (y AND 0xff),
      ucast (drop_bit 8 y AND 0xff),
      wheel]"

text \<open>The control subtypes, the same match in both modes (\<open>frame[1]\<close> is the subtype).\<close>

definition control_cmd :: "bytes \<Rightarrow> video_control option" where
  "control_cmd frame =
     (if frame ! 1 = 0x01 then
        Some (ChangeResolution (ucast (from_be16 (frame ! 2) (frame ! 3)))
                               (ucast (from_be16 (frame ! 4) (frame ! 5))))
      else if frame ! 1 = 0x02 then Some (ChangeFps (ucast (frame ! 2)))
      else None)"

section \<open>USB gadget mode\<close>

text \<open>Opening the two devices: the outcome of each \<open>open\<close> is an argument.\<close>

definition gadget_open :: "bool \<Rightarrow> bool \<Rightarrow> bool \<Rightarrow> gadget \<times> u8" where
  "gadget_open kbd_ok mouse_ok ctrl =
     (let status = (0 :: u8);
          status = (if kbd_ok then status OR HID_STATUS_KEYBOARD else status);
          status = (if mouse_ok then status OR HID_STATUS_MOUSE else status)
      in (\<lparr>kbd = kbd_ok, mouse = mouse_ok, video_ctrl = ctrl,
           last_x = 0x3fff, last_y = 0x3fff, last_buttons = 0,
           kbd_out = [], mouse_out = [], ctrl_out = []\<rparr>, status))"

definition write_mouse :: "gadget \<Rightarrow> u8 \<Rightarrow> gadget" where
  "write_mouse s wheel =
     (if mouse s then
        s\<lparr>mouse_out := mouse_out s @
            [make_abs_mouse_report (last_buttons s) (last_x s) (last_y s) wheel]\<rparr>
      else s)"

definition send_ctrl :: "gadget \<Rightarrow> bytes \<Rightarrow> gadget" where
  "send_ctrl s frame =
     (if video_ctrl s then
        (case control_cmd frame of
           Some c \<Rightarrow> s\<lparr>ctrl_out := ctrl_out s @ [c]\<rparr>
         | None \<Rightarrow> s)
      else s)"

definition gadget_step :: "gadget \<Rightarrow> bytes \<Rightarrow> gadget" where
  "gadget_step s frame =
     (if length frame < 8 then s
      else if frame ! 0 = TYPE_KEYBOARD then
        (if kbd s then
           s\<lparr>kbd_out := kbd_out s @ [[frame ! 1, 0x00, frame ! 2, frame ! 3,
                                      frame ! 4, frame ! 5, frame ! 6, frame ! 7]]\<rparr>
         else s)
      else if frame ! 0 = TYPE_MOUSE_MOVE then
        write_mouse (s\<lparr>last_buttons := frame ! 1,
                       last_x := from_be16 (frame ! 2) (frame ! 3),
                       last_y := from_be16 (frame ! 4) (frame ! 5)\<rparr>) 0
      else if frame ! 0 = TYPE_MOUSE_BTN then
        write_mouse (s\<lparr>last_buttons := frame ! 1\<rparr>) 0
      else if frame ! 0 = TYPE_MOUSE_WHEEL then write_mouse s (frame ! 1)
      else if frame ! 0 = TYPE_CONTROL then send_ctrl s frame
      else s)"

definition run_gadget :: "bool \<Rightarrow> bool \<Rightarrow> bool \<Rightarrow> bytes list \<Rightarrow> gadget \<times> u8" where
  "run_gadget kbd_ok mouse_ok ctrl frames =
     (let (s, status) = gadget_open kbd_ok mouse_ok ctrl
      in (foldl gadget_step s frames, status))"

section \<open>CH9329 serial mode\<close>

record ch9329 =
  ch_ctrl :: bool
  ch_x :: u16
  ch_y :: u16
  port_out :: "bytes list"
  ch_ctrl_out :: "video_control list"

definition ch9329_frame :: "u8 \<Rightarrow> bytes \<Rightarrow> bytes" where
  "ch9329_frame cmd data =
     (let frame = [0x57, 0xAB, 0x00, cmd, of_nat (length data)] @ data;
          sum = (sum_list (map ucast frame) :: u32)
      in frame @ [ucast (sum AND 0xff)])"

definition ch9329_keyboard :: "u8 \<Rightarrow> bytes \<Rightarrow> bytes" where
  "ch9329_keyboard modifier ks =
     ch9329_frame 0x02 [modifier, 0x00, ks ! 0, ks ! 1, ks ! 2, ks ! 3, ks ! 4, ks ! 5]"

definition ch9329_abs_mouse :: "u8 \<Rightarrow> u16 \<Rightarrow> u16 \<Rightarrow> bytes" where
  "ch9329_abs_mouse buttons x y =
     ch9329_frame 0x04
       [buttons,
        ucast (x AND 0xff), ucast (drop_bit 8 x AND 0xff),
        ucast (y AND 0xff), ucast (drop_bit 8 y AND 0xff),
        0x00]"

definition ch9329_open :: "bool \<Rightarrow> ch9329 \<times> u8" where
  "ch9329_open ctrl =
     (\<lparr>ch_ctrl = ctrl, ch_x = 0x3fff, ch_y = 0x3fff, port_out = [], ch_ctrl_out = []\<rparr>,
      HID_STATUS_KEYBOARD OR HID_STATUS_MOUSE)"

definition write_port :: "ch9329 \<Rightarrow> bytes \<Rightarrow> ch9329" where
  "write_port s packet = s\<lparr>port_out := port_out s @ [packet]\<rparr>"

definition ch9329_step :: "ch9329 \<Rightarrow> bytes \<Rightarrow> ch9329" where
  "ch9329_step s frame =
     (if length frame < 8 then s
      else if frame ! 0 = TYPE_KEYBOARD then
        write_port s (ch9329_keyboard (frame ! 1) (take 6 (drop 2 frame)))
      else if frame ! 0 = TYPE_MOUSE_MOVE then
        (let x = from_be16 (frame ! 2) (frame ! 3); y = from_be16 (frame ! 4) (frame ! 5)
         in write_port (s\<lparr>ch_x := x, ch_y := y\<rparr>) (ch9329_abs_mouse (frame ! 1) x y))
      else if frame ! 0 = TYPE_MOUSE_BTN then
        write_port s (ch9329_abs_mouse (frame ! 1) (ch_x s) (ch_y s))
      else if frame ! 0 = TYPE_MOUSE_WHEEL then
        write_port s (ch9329_abs_mouse 0 (ch_x s) (ch_y s))
      else if frame ! 0 = TYPE_CONTROL then
        (if ch_ctrl s then
           (case control_cmd frame of
              Some c \<Rightarrow> s\<lparr>ch_ctrl_out := ch_ctrl_out s @ [c]\<rparr>
            | None \<Rightarrow> s)
         else s)
      else s)"

definition run_ch9329 :: "bool \<Rightarrow> bytes list \<Rightarrow> ch9329 \<times> u8" where
  "run_ch9329 ctrl frames =
     (let (s, status) = ch9329_open ctrl in (foldl ch9329_step s frames, status))"

section \<open>Mode dispatch\<close>

datatype hid_error = NotCompiledIn | UnknownMode string | CannotOpenPort

datatype hid_end = GadgetEnd gadget u8 | SerialEnd ch9329 u8

text \<open>
  \<open>run\<close>: \<open>feature\<close> is the compile time feature \<open>ch9329\<close>, \<open>port_ok\<close> the outcome of
  opening the serial port. The result is the state when the frame channel closes.
\<close>

definition hid_run ::
  "bool \<Rightarrow> string \<Rightarrow> bool \<Rightarrow> bool \<Rightarrow> bool \<Rightarrow> bool \<Rightarrow> bytes list \<Rightarrow> hid_error + hid_end" where
  "hid_run feature mode kbd_ok mouse_ok port_ok ctrl frames =
     (if mode = ''gadget'' then
        (let (s, st) = run_gadget kbd_ok mouse_ok ctrl frames in Inr (GadgetEnd s st))
      else if mode = ''ch9329'' then
        (if feature then
           (if port_ok then (let (s, st) = run_ch9329 ctrl frames in Inr (SerialEnd s st))
            else Inl CannotOpenPort)
         else Inl NotCompiledIn)
      else Inl (UnknownMode mode))"

section \<open>What the two modes deliver\<close>

text \<open>
  The abstract side: which frames are well formed frames of a type, and the pointer they
  describe. Nothing here is a step: the pointer is read off the whole history.
\<close>

definition is_frame :: "u8 \<Rightarrow> bytes \<Rightarrow> bool" where
  "is_frame ty f \<longleftrightarrow> 8 \<le> length f \<and> f ! 0 = ty"

definition pressed :: "bytes list \<Rightarrow> u8" where
  "pressed fs = (case last_such (\<lambda>f. is_frame TYPE_MOUSE_MOVE f \<or> is_frame TYPE_MOUSE_BTN f) fs of
     None \<Rightarrow> 0 | Some f \<Rightarrow> f ! 1)"

definition pointer_x :: "bytes list \<Rightarrow> u16" where
  "pointer_x fs = (case last_such (is_frame TYPE_MOUSE_MOVE) fs of
     None \<Rightarrow> 0x3fff | Some f \<Rightarrow> from_be16 (f ! 2) (f ! 3))"

definition pointer_y :: "bytes list \<Rightarrow> u16" where
  "pointer_y fs = (case last_such (is_frame TYPE_MOUSE_MOVE) fs of
     None \<Rightarrow> 0x3fff | Some f \<Rightarrow> from_be16 (f ! 4) (f ! 5))"

definition is_mouse_frame :: "bytes \<Rightarrow> bool" where
  "is_mouse_frame f \<longleftrightarrow> is_frame TYPE_MOUSE_MOVE f \<or> is_frame TYPE_MOUSE_BTN f
     \<or> is_frame TYPE_MOUSE_WHEEL f"

definition mouse_reports :: "bytes list \<Rightarrow> bytes list" where
  "mouse_reports fs =
     map (\<lambda>i. let past = take (Suc i) fs
               in make_abs_mouse_report (pressed past) (pointer_x past) (pointer_y past)
                    (if is_frame TYPE_MOUSE_WHEEL (fs ! i) then fs ! i ! 1 else 0))
         (filter (\<lambda>i. is_mouse_frame (fs ! i)) [0..<length fs])"

definition key_reports :: "bytes list \<Rightarrow> bytes list" where
  "key_reports fs = map (\<lambda>f. f ! 1 # 0x00 # take 6 (drop 2 f)) (filter (is_frame TYPE_KEYBOARD) fs)"

definition commands :: "bytes list \<Rightarrow> video_control list" where
  "commands fs = List.map_filter control_cmd (filter (is_frame TYPE_CONTROL) fs)"

lemma length_make_abs_mouse_report [simp]: "length (make_abs_mouse_report b x y w) = 6"
  by (simp add: make_abs_mouse_report_def)

lemma mouse_reports_Nil [simp]: "mouse_reports [] = []"
  by (simp add: mouse_reports_def)

lemma mouse_reports_snoc:
  "mouse_reports (fs @ [f]) = mouse_reports fs @
     (if is_mouse_frame f then
        [make_abs_mouse_report (pressed (fs @ [f])) (pointer_x (fs @ [f])) (pointer_y (fs @ [f]))
           (if is_frame TYPE_MOUSE_WHEEL f then f ! 1 else 0)] else [])"
proof -
  let ?r = "\<lambda>gs i. let past = take (Suc i) gs in
      make_abs_mouse_report (pressed past) (pointer_x past) (pointer_y past)
        (if is_frame TYPE_MOUSE_WHEEL (gs ! i) then gs ! i ! 1 else 0)"
  have old: "map (?r (fs @ [f])) (filter (\<lambda>i. is_mouse_frame ((fs @ [f]) ! i)) [0..<length fs])
      = map (?r fs) (filter (\<lambda>i. is_mouse_frame (fs ! i)) [0..<length fs])"
    by (auto simp: nth_append Let_def intro!: map_cong filter_cong)
  show ?thesis
    using old by (simp add: mouse_reports_def Let_def)
qed

lemma key_report_eq:
  "\<not> length f < 8 \<Longrightarrow>
     take 6 (drop 2 f) = [f ! 2, f ! 3, f ! 4, f ! 5, f ! 6, f ! 7]"
  by (auto simp: numeral_eq_Suc Suc_le_length_iff not_less)

lemma pressed_snoc:
  "pressed (fs @ [f]) =
     (if is_frame TYPE_MOUSE_MOVE f \<or> is_frame TYPE_MOUSE_BTN f then f ! 1 else pressed fs)"
  by (simp add: pressed_def)

lemma pointer_snoc:
  "pointer_x (fs @ [f]) =
     (if is_frame TYPE_MOUSE_MOVE f then from_be16 (f ! 2) (f ! 3) else pointer_x fs)"
  "pointer_y (fs @ [f]) =
     (if is_frame TYPE_MOUSE_MOVE f then from_be16 (f ! 4) (f ! 5) else pointer_y fs)"
  by (simp_all add: pointer_x_def pointer_y_def)

lemma key_reports_snoc:
  "key_reports (fs @ [f]) = key_reports fs @
     (if is_frame TYPE_KEYBOARD f then [f ! 1 # 0x00 # take 6 (drop 2 f)] else [])"
  by (simp add: key_reports_def)

lemma commands_snoc:
  "commands (fs @ [f]) = commands fs @
     (if is_frame TYPE_CONTROL f then (case control_cmd f of Some c \<Rightarrow> [c] | None \<Rightarrow> []) else [])"
  by (simp add: commands_def map_filter_def split: option.splits)

lemmas history_snoc = pressed_snoc pointer_snoc key_reports_snoc commands_snoc mouse_reports_snoc

lemma history_Nil:
  "pressed [] = 0" "pointer_x [] = 0x3fff" "pointer_y [] = 0x3fff" "key_reports [] = []"
  "commands [] = []"
  by (simp_all add: pressed_def pointer_x_def pointer_y_def key_reports_def commands_def
      map_filter_def)

definition gadget_agrees :: "bool \<Rightarrow> bool \<Rightarrow> bool \<Rightarrow> bytes list \<Rightarrow> gadget \<Rightarrow> bool" where
  "gadget_agrees k m c fs s \<longleftrightarrow>
     kbd s = k \<and> mouse s = m \<and> video_ctrl s = c \<and>
     last_x s = pointer_x fs \<and> last_y s = pointer_y fs \<and> last_buttons s = pressed fs \<and>
     kbd_out s = (if k then key_reports fs else []) \<and>
     mouse_out s = (if m then mouse_reports fs else []) \<and>
     ctrl_out s = (if c then commands fs else [])"

lemma gadget_agrees_open: "gadget_agrees k m c [] (fst (gadget_open k m c))"
  by (simp add: gadget_agrees_def gadget_open_def Let_def history_Nil)

lemma gadget_agrees_step:
  assumes "gadget_agrees k m c fs s"
  shows "gadget_agrees k m c (fs @ [f]) (gadget_step s f)"
proof (cases "length f < 8")
  case True
  then show ?thesis using assms
    by (simp add: gadget_agrees_def gadget_step_def history_snoc is_frame_def is_mouse_frame_def)
next
  case False
  then have ty: "is_frame ty f \<longleftrightarrow> f ! 0 = ty" for ty by (simp add: is_frame_def)
  show ?thesis using assms False
    by (auto simp: gadget_agrees_def gadget_step_def history_snoc is_mouse_frame_def ty
        key_report_eq frame_types write_mouse_def send_ctrl_def split: option.splits)
qed

lemma gadget_agrees_run: "gadget_agrees k m c fs (foldl gadget_step (fst (gadget_open k m c)) fs)"
  by (induction fs rule: rev_induct) (auto simp: gadget_agrees_open gadget_agrees_step)

text \<open>C4. For every outcome of opening the devices and every sequence of frames, the gadget mode
  writes exactly the reports the frame history describes: key reports for the keyboard
  frames, one absolute mouse report per mouse frame carrying the buttons and position last
  sent, and one video command per recognised control frame; a missing device only
  suppresses its own reports.\<close>

theorem gadget_refines_history:
  "\<exists>s. run_gadget k m c fs = (s, (if k then HID_STATUS_KEYBOARD else 0) OR (if m then HID_STATUS_MOUSE else 0))
     \<and> kbd_out s = (if k then key_reports fs else [])
     \<and> mouse_out s = (if m then mouse_reports fs else [])
     \<and> ctrl_out s = (if c then commands fs else [])"
  using gadget_agrees_run [of k m c fs]
  by (auto simp: run_gadget_def gadget_agrees_def gadget_open_def Let_def)

section \<open>Shape of the reports, for any start state\<close>

definition reports_ok :: "gadget \<Rightarrow> bool" where
  "reports_ok s \<longleftrightarrow>
     (\<forall>r \<in> set (kbd_out s). length r = 8 \<and> r ! 1 = 0 \<and> kbd s) \<and>
     (\<forall>r \<in> set (mouse_out s). length r = 6 \<and> mouse s) \<and>
     (ctrl_out s \<noteq> [] \<longrightarrow> video_ctrl s)"

lemma reports_ok_step: "reports_ok s \<Longrightarrow> reports_ok (gadget_step s f)"
  by (auto simp: reports_ok_def gadget_step_def write_mouse_def send_ctrl_def split: option.splits)

interpretation hid: stepper gadget_step reports_ok
  by unfold_locales (rule reports_ok_step)

lemma reports_ok_open: "reports_ok (fst (gadget_open k m c))"
  by (simp add: reports_ok_def gadget_open_def Let_def)

text \<open>Whatever bytes arrive, every keyboard report has eight bytes with a zero reserved
  byte, every mouse report has six bytes, and a device that did not open is never
  written.\<close>

theorem gadget_reports_wellformed:
  "reports_ok (fst (run_gadget k m c frames))"
  using hid.run_good [OF reports_ok_open, of k m c frames]
  by (simp add: run_gadget_def case_prod_beta)

section \<open>Report and packet encodings\<close>

text \<open>The gadget's mouse report determines buttons, position and wheel: reading it back
  as the HID descriptor lays it out (buttons, x and y little endian, wheel) gives the
  values that were sent.\<close>

theorem mouse_report_roundtrip:
  "make_abs_mouse_report b x y w ! 0 = b
   \<and> from_be16 (make_abs_mouse_report b x y w ! 2) (make_abs_mouse_report b x y w ! 1) = x
   \<and> from_be16 (make_abs_mouse_report b x y w ! 4) (make_abs_mouse_report b x y w ! 3) = y
   \<and> make_abs_mouse_report b x y w ! 5 = w"
  by (simp add: make_abs_mouse_report_def)

text \<open>What a CH9329 accepts: the header, a length byte that counts the data, and the sum of
  all bytes before it as the last byte.\<close>

definition ch9329_accepts :: "bytes \<Rightarrow> bool" where
  "ch9329_accepts p \<longleftrightarrow>
     6 \<le> length p \<and> take 3 p = [0x57, 0xAB, 0x00] \<and>
     unat (p ! 4) + 6 = length p \<and> last p = sum_list (butlast p)"

lemma ucast_sum_list: "(ucast (sum_list (map ucast (xs :: bytes)) :: u32) :: u8) = sum_list xs"
  by (induction xs) (simp_all add: ucast_add_octet)

lemma ch9329_frame_accepted:
  assumes "length data \<le> 255"
  shows "ch9329_accepts (ch9329_frame cmd data)"
  using assms ucast_sum_list [of "[0x57, 0xAB, 0x00, cmd, of_nat (length data)] @ data"]
  by (simp add: ch9329_accepts_def ch9329_frame_def Let_def unat_of_nat butlast_append)

lemma port_accepted_step:
  "(\<forall>p \<in> set (port_out s). ch9329_accepts p) \<Longrightarrow>
   (\<forall>p \<in> set (port_out (ch9329_step s f)). ch9329_accepts p)"
  by (auto simp: ch9329_step_def write_port_def ch9329_keyboard_def ch9329_abs_mouse_def
      Let_def intro!: ch9329_frame_accepted split: option.splits)

interpretation serial: stepper ch9329_step "\<lambda>s. \<forall>p \<in> set (port_out s). ch9329_accepts p"
  by unfold_locales (rule port_accepted_step)

text \<open>Every packet the CH9329 mode writes to the serial port is one the chip accepts: right
  header, right length byte, right checksum, whatever frames arrived.\<close>

theorem ch9329_packets_accepted:
  "list_all ch9329_accepts (port_out (fst (run_ch9329 ctrl frames)))"
proof -
  have "\<forall>p \<in> set (port_out (foldl ch9329_step (fst (ch9329_open ctrl)) frames)). ch9329_accepts p"
    by (rule serial.run_good) (simp add: ch9329_open_def)
  then show ?thesis by (simp add: run_ch9329_def case_prod_beta list_all_iff)
qed

section \<open>The serial mode follows the same history\<close>

text \<open>
  The packets the CH9329 mode writes, read off the frame history as for the gadget: a
  wheel frame moves nothing and carries no buttons.
\<close>

definition serial_packets :: "bytes list \<Rightarrow> bytes list" where
  "serial_packets fs =
     map (\<lambda>i. let f = fs ! i; past = take (Suc i) fs
               in if is_frame TYPE_KEYBOARD f then ch9329_keyboard (f ! 1) (take 6 (drop 2 f))
                  else ch9329_abs_mouse (if is_frame TYPE_MOUSE_WHEEL f then 0 else pressed past)
                         (pointer_x past) (pointer_y past))
         (filter (\<lambda>i. is_frame TYPE_KEYBOARD (fs ! i) \<or> is_mouse_frame (fs ! i)) [0..<length fs])"

lemma serial_packets_Nil [simp]: "serial_packets [] = []"
  by (simp add: serial_packets_def)

lemma serial_packets_snoc:
  "serial_packets (fs @ [f]) = serial_packets fs @
     (if is_frame TYPE_KEYBOARD f then [ch9329_keyboard (f ! 1) (take 6 (drop 2 f))]
      else if is_mouse_frame f then
        [ch9329_abs_mouse (if is_frame TYPE_MOUSE_WHEEL f then 0 else pressed (fs @ [f]))
           (pointer_x (fs @ [f])) (pointer_y (fs @ [f]))]
      else [])"
proof -
  let ?r = "\<lambda>gs i. let f = gs ! i; past = take (Suc i) gs
      in if is_frame TYPE_KEYBOARD f then ch9329_keyboard (f ! 1) (take 6 (drop 2 f))
         else ch9329_abs_mouse (if is_frame TYPE_MOUSE_WHEEL f then 0 else pressed past)
                (pointer_x past) (pointer_y past)"
  let ?sel = "\<lambda>gs i. is_frame TYPE_KEYBOARD (gs ! i) \<or> is_mouse_frame (gs ! i)"
  have "map (?r (fs @ [f])) (filter (?sel (fs @ [f])) [0..<length fs])
      = map (?r fs) (filter (?sel fs) [0..<length fs])"
    by (auto simp: nth_append Let_def intro!: map_cong filter_cong)
  then show ?thesis by (simp add: serial_packets_def Let_def)
qed

definition serial_agrees :: "bool \<Rightarrow> bytes list \<Rightarrow> ch9329 \<Rightarrow> bool" where
  "serial_agrees c fs s \<longleftrightarrow>
     ch_ctrl s = c \<and> ch_x s = pointer_x fs \<and> ch_y s = pointer_y fs \<and>
     port_out s = serial_packets fs \<and> ch_ctrl_out s = (if c then commands fs else [])"

lemma serial_agrees_step:
  assumes "serial_agrees c fs s"
  shows "serial_agrees c (fs @ [f]) (ch9329_step s f)"
proof (cases "length f < 8")
  case True
  then show ?thesis using assms
    by (simp add: serial_agrees_def ch9329_step_def history_snoc serial_packets_snoc
        is_frame_def is_mouse_frame_def)
next
  case False
  then have ty: "is_frame ty f \<longleftrightarrow> f ! 0 = ty" for ty by (simp add: is_frame_def)
  show ?thesis using assms False
    by (auto simp: serial_agrees_def ch9329_step_def history_snoc serial_packets_snoc
        is_mouse_frame_def ty frame_types write_port_def Let_def split: option.splits)
qed

lemma serial_agrees_run: "serial_agrees c fs (foldl ch9329_step (fst (ch9329_open c)) fs)"
proof (induction fs rule: rev_induct)
  case Nil
  show ?case by (simp add: serial_agrees_def ch9329_open_def history_Nil)
next
  case (snoc f fs)
  then show ?case by (simp add: serial_agrees_step)
qed

text \<open>The two modes keep the same pointer position and forward the same video commands for
  every frame sequence, and the serial packets are those of the frame history.\<close>

theorem serial_matches_gadget:
  "let g = fst (run_gadget k m c fs); s = fst (run_ch9329 c fs)
   in ch_x s = last_x g \<and> ch_y s = last_y g \<and> ch_ctrl_out s = ctrl_out g
      \<and> port_out s = serial_packets fs"
  using gadget_agrees_run [of k m c fs] serial_agrees_run [of c fs]
  by (simp add: run_gadget_def run_ch9329_def gadget_agrees_def serial_agrees_def
      case_prod_beta Let_def)

text \<open>With the buttons \<open>b\<close> held, a wheel frame makes the gadget report \<open>b\<close> again, while the
  CH9329 mode sends a packet with no button pressed: scrolling there releases a drag.\<close>

theorem wheel_releases_buttons_on_serial:
  assumes "mouse g" and "last_buttons g = b" and "8 \<le> length f" and "f ! 0 = TYPE_MOUSE_WHEEL"
  shows "last (mouse_out (gadget_step g f)) ! 0 = b
    \<and> last (mouse_out (gadget_step g f)) ! 5 = f ! 1
    \<and> last (port_out (ch9329_step s f)) ! 5 = 0
    \<and> last (port_out (ch9329_step s f)) = ch9329_abs_mouse 0 (ch_x s) (ch_y s)"
  using assms
  by (simp add: gadget_step_def ch9329_step_def frame_types write_mouse_def write_port_def
      make_abs_mouse_report_def ch9329_abs_mouse_def ch9329_frame_def Let_def)

definition dragging :: gadget where
  "dragging = (fst (gadget_open True True False))\<lparr>last_buttons := 1\<rparr>"

theorem wheel_releases_buttons_on_serial_witness:
  "last (mouse_out (gadget_step dragging [0x04, 3, 0, 0, 0, 0, 0, 0])) ! 0 = 1
   \<and> last (port_out (ch9329_step (fst (ch9329_open False)) [0x04, 3, 0, 0, 0, 0, 0, 0])) ! 5 = 0"
proof -
  let ?f = "[0x04, 3, 0, 0, 0, 0, 0, 0] :: bytes"
  have h: "mouse dragging" "last_buttons dragging = 1" "8 \<le> length ?f" "?f ! 0 = TYPE_MOUSE_WHEEL"
    by (simp_all add: dragging_def gadget_open_def Let_def frame_types)
  show ?thesis
    using wheel_releases_buttons_on_serial [OF h, of "fst (ch9329_open False)"] by blast
qed

end
