(* ===== verification/Text.thy ===== *)
theory Text imports Prelude begin

text \<open>
  The string operations of the standard library that the agent relies on: decimal printing
  of unsigned integers, \<open>parse::<u32>\<close>, \<open>split\<close> by a character, \<open>contains\<close>, \<open>split\<close> by a
  string and \<open>strip_prefix\<close>.
\<close>

section \<open>Decimal numbers\<close>

definition digit_char :: "nat \<Rightarrow> char" where
  "digit_char d = char_of (48 + d)"

definition char_digit :: "char \<Rightarrow> nat option" where
  "char_digit c = (let k = (of_char c :: nat) in if 48 \<le> k \<and> k \<le> 57 then Some (k - 48) else None)"

fun decimal :: "nat \<Rightarrow> string" where
  "decimal n = (if n < 10 then [digit_char n] else decimal (n div 10) @ [digit_char (n mod 10)])"

declare decimal.simps [simp del]

fun digits_value :: "nat \<Rightarrow> string \<Rightarrow> nat option" where
  "digits_value acc [] = Some acc"
| "digits_value acc (c # cs) =
     (case char_digit c of None \<Rightarrow> None | Some d \<Rightarrow> digits_value (acc * 10 + d) cs)"

text \<open>\<open>str::parse::<u32>\<close>: an optional plus sign, then at least one digit, within 32 bits.\<close>

definition parse_u32 :: "string \<Rightarrow> u32 option" where
  "parse_u32 s =
     (let t = (case s of c # cs \<Rightarrow> if c = CHR ''+'' then cs else s | [] \<Rightarrow> s)
      in if t = [] then None
         else case digits_value 0 t of
                None \<Rightarrow> None
              | Some n \<Rightarrow> if n < 2 ^ 32 then Some (of_nat n) else None)"

lemma char_digit_digit_char: "d < 10 \<Longrightarrow> char_digit (digit_char d) = Some d"
  by (simp add: char_digit_def digit_char_def of_char_of Let_def)

lemma digits_value_append:
  "digits_value acc (xs @ ys) =
     (case digits_value acc xs of None \<Rightarrow> None | Some a \<Rightarrow> digits_value a ys)"
  by (induction xs arbitrary: acc) (auto split: option.splits)

lemma digits_value_decimal: "digits_value 0 (decimal n) = Some n"
proof (induction n rule: decimal.induct)
  case (1 n)
  show ?case
  proof (cases "n < 10")
    case True
    then show ?thesis by (subst decimal.simps) (simp add: char_digit_digit_char)
  next
    case False
    with 1 show ?thesis
      by (subst decimal.simps) (simp add: digits_value_append char_digit_digit_char)
  qed
qed

lemma decimal_chars: "c \<in> set (decimal n) \<Longrightarrow> char_digit c \<noteq> None"
proof (induction n rule: decimal.induct)
  case (1 n)
  show ?case
  proof (cases "n < 10")
    case True
    with "1.prems" show ?thesis
      by (subst (asm) decimal.simps) (simp add: char_digit_digit_char)
  next
    case False
    with 1 show ?thesis
      by (subst (asm) (2) decimal.simps) (auto simp: char_digit_digit_char)
  qed
qed

lemma decimal_nonempty [simp]: "decimal n \<noteq> []"
  by (subst decimal.simps) simp

lemma decimal_no_sign: "CHR ''+'' \<notin> set (decimal n)" "CHR '':'' \<notin> set (decimal n)"
    "CHR ''v'' \<notin> set (decimal n)"
  using decimal_chars [of "CHR ''+''" n] decimal_chars [of "CHR '':''" n]
    decimal_chars [of "CHR ''v''" n]
  by (auto simp: char_digit_def Let_def)

lemma parse_u32_decimal [simp]: "parse_u32 (decimal (unat x)) = Some x"
proof -
  obtain c cs where d: "decimal (unat x) = c # cs" by (cases "decimal (unat x)") auto
  have "digits_value 0 (c # cs) = Some (unat x)"
    using digits_value_decimal [of "unat x"] by (simp only: d)
  moreover have "c \<noteq> CHR ''+''" using decimal_no_sign(1) [of "unat x"] by (auto simp: d)
  moreover have "unat x < 2 ^ 32" using unsigned_less [of x] by simp
  ultimately show ?thesis by (simp add: parse_u32_def d Let_def del: digits_value.simps)
qed

section \<open>Splitting\<close>

fun split_on :: "char \<Rightarrow> string \<Rightarrow> string list" where
  "split_on c [] = [[]]"
| "split_on c (x # xs) =
     (if x = c then [] # split_on c xs
      else case split_on c xs of [] \<Rightarrow> [[x]] | p # ps \<Rightarrow> (x # p) # ps)"

lemma split_on_nonempty [simp]: "split_on c s \<noteq> []"
  by (cases s) (auto split: list.splits)

lemma split_on_plain: "c \<notin> set xs \<Longrightarrow> split_on c xs = [xs]"
  by (induction xs) auto

lemma split_on_sep: "c \<notin> set xs \<Longrightarrow> split_on c (xs @ c # ys) = xs # split_on c ys"
  by (induction xs) auto

definition strip_prefix :: "string \<Rightarrow> string \<Rightarrow> string option" where
  "strip_prefix p s = (if take (length p) s = p then Some (drop (length p) s) else None)"

lemma strip_prefix_append [simp]: "strip_prefix p (p @ s) = Some s"
  by (simp add: strip_prefix_def)

lemma strip_prefix_Some: "strip_prefix p s = Some t \<longleftrightarrow> s = p @ t"
  by (auto simp: strip_prefix_def split: if_splits) (metis append_take_drop_id)

text \<open>The text before and after the first occurrence of a pattern.\<close>

fun cut :: "string \<Rightarrow> string \<Rightarrow> (string \<times> string) option" where
  "cut pat [] = (if pat = [] then Some ([], []) else None)"
| "cut pat (x # xs) =
     (case strip_prefix pat (x # xs) of
        Some rest \<Rightarrow> Some ([], rest)
      | None \<Rightarrow> (case cut pat xs of None \<Rightarrow> None | Some (a, b) \<Rightarrow> Some (x # a, b)))"

definition contains :: "string \<Rightarrow> string \<Rightarrow> bool" where
  "contains s pat \<longleftrightarrow> cut pat s \<noteq> None"

text \<open>\<open>s.split(pat).nth(1)\<close>\<close>

definition split_nth1 :: "string \<Rightarrow> string \<Rightarrow> string option" where
  "split_nth1 pat s =
     (case cut pat s of
        None \<Rightarrow> None
      | Some (_, rest) \<Rightarrow> Some (case cut pat rest of None \<Rightarrow> rest | Some (a, _) \<Rightarrow> a))"

lemma cut_prefix: "cut pat (pat @ s) = Some ([], s)"
proof (cases "pat @ s")
  case (Cons x xs)
  then have "strip_prefix pat (x # xs) = Some s" by (metis strip_prefix_append)
  then show ?thesis by (simp add: Cons)
qed simp

lemma cut_absent: "c \<in> set pat \<Longrightarrow> c \<notin> set s \<Longrightarrow> cut pat s = None"
proof (induction s)
  case (Cons x xs)
  have "strip_prefix pat (x # xs) = None"
  proof (rule ccontr)
    assume "strip_prefix pat (x # xs) \<noteq> None"
    then have "take (length pat) (x # xs) = pat" by (simp add: strip_prefix_def split: if_splits)
    then have "c \<in> set (x # xs)" using Cons.prems(1) in_set_takeD [of c "length pat" "x # xs"] by simp
    with Cons.prems(2) show False by simp
  qed
  with Cons show ?case by simp
qed auto

section \<open>UTF-8\<close>

text \<open>\<open>str::from_utf8\<close> accepts exactly the well-formed sequences of the Unicode standard (table 3-7).\<close>

definition octet_in :: "nat \<Rightarrow> nat \<Rightarrow> u8 \<Rightarrow> bool" where
  "octet_in lo hi b \<longleftrightarrow> lo \<le> unat b \<and> unat b \<le> hi"

fun continues :: "(nat \<times> nat) list \<Rightarrow> bytes \<Rightarrow> bool" where
  "continues [] bs = True"
| "continues ((lo, hi) # rs) (b # bs) = (octet_in lo hi b \<and> continues rs bs)"
| "continues (r # rs) [] = False"

definition trail :: "nat \<times> nat" where "trail = (0x80, 0xBF)"

definition utf8_class :: "u8 \<Rightarrow> (nat \<times> nat) list option" where
  "utf8_class b =
     (let n = unat b in
      if n \<le> 0x7F then Some []
      else if n < 0xC2 then None
      else if n \<le> 0xDF then Some [trail]
      else if n = 0xE0 then Some [(0xA0, 0xBF), trail]
      else if n = 0xED then Some [(0x80, 0x9F), trail]
      else if n \<le> 0xEF then Some [trail, trail]
      else if n = 0xF0 then Some [(0x90, 0xBF), trail, trail]
      else if n \<le> 0xF3 then Some [trail, trail, trail]
      else if n = 0xF4 then Some [(0x80, 0x8F), trail, trail]
      else None)"

function utf8_ok :: "bytes \<Rightarrow> bool" where
  "utf8_ok [] = True"
| "utf8_ok (b # bs) =
     (case utf8_class b of
        None \<Rightarrow> False
      | Some rs \<Rightarrow> continues rs bs \<and> utf8_ok (drop (length rs) bs))"
  by pat_completeness auto
termination by (relation "measure length") auto

lemma utf8_ok_ascii: "\<forall>b \<in> set bs. unat b \<le> 0x7F \<Longrightarrow> utf8_ok bs"
  by (induction bs) (auto simp: utf8_class_def)

end
