(* ===== verification/YuvConv.thy ===== *)
theory YuvConv imports Prelude begin

text \<open>
  \<open>agent/src/video.rs\<close>, the pixel conversions: packed YUYV, BGRA screen shots and decoded
  JPEG pictures become planar YUV 4:2:0, scaled by nearest neighbour in 16.16 fixed point.
  A result \<open>None\<close> is a panic (an index outside its buffer, or \<open>0 - 1\<close> in a size). The sizes
  are unbounded naturals; sample values are \<open>i32\<close> in the code and never leave its range.
\<close>

section \<open>Colour conversion\<close>

definition clamp_u8 :: "int \<Rightarrow> u8" where
  "clamp_u8 x = word_of_int (max 0 (min 255 x))"

text \<open>\<open>>> 8\<close> on \<open>i32\<close> is the arithmetic shift, which is \<open>div 256\<close> on integers.\<close>

definition luma :: "int \<Rightarrow> int \<Rightarrow> int \<Rightarrow> int" where
  "luma r g b = (66 * r + 129 * g + 25 * b + 128) div 256 + 16"

definition chroma_u :: "int \<Rightarrow> int \<Rightarrow> int \<Rightarrow> int" where
  "chroma_u r g b = (-38 * r - 74 * g + 112 * b + 128) div 256 + 128"

definition chroma_v :: "int \<Rightarrow> int \<Rightarrow> int \<Rightarrow> int" where
  "chroma_v r g b = (112 * r - 94 * g - 18 * b + 128) div 256 + 128"

section \<open>Nearest neighbour scaling\<close>

definition scale_of :: "nat \<Rightarrow> nat \<Rightarrow> nat option" where
  "scale_of src dst =
     (if dst > 1 then (if src = 0 then None else Some (((src - 1) * 65536) div (dst - 1)))
      else Some 0)"

definition source_of :: "nat \<Rightarrow> nat \<Rightarrow> nat \<Rightarrow> nat option" where
  "source_of src scale d =
     (if src = 0 then None else Some (min ((d * scale) div 65536) (src - 1)))"

section \<open>The plane loops\<close>

text \<open>
  The pixel loops of \<open>bgra_to_yuv420\<close> and \<open>mjpeg_to_yuv420\<close> are the same; they differ in how
  the source pixel at \<open>(sy, sx)\<close> is read, which is the argument \<open>px\<close>.
\<close>

type_synonym rgb = "int \<times> int \<times> int"

definition even_upto :: "nat \<Rightarrow> nat list" where
  "even_upto n = filter even [0..<n]"

definition y_body ::
  "(nat \<Rightarrow> nat \<Rightarrow> rgb option) \<Rightarrow> nat \<Rightarrow> nat \<Rightarrow> nat \<Rightarrow> nat \<Rightarrow> nat \<Rightarrow> nat \<times> nat \<Rightarrow> bytes \<Rightarrow> bytes option" where
  "y_body px src_w src_h scale_x scale_y dst_w = (\<lambda>(dy, dx) yuv. do {
     sy \<leftarrow> source_of src_h scale_y dy;
     sx \<leftarrow> source_of src_w scale_x dx;
     (r, g, b) \<leftarrow> px sy sx;
     put yuv (dy * dst_w + dx) (clamp_u8 (luma r g b))
   })"

definition uv_body ::
  "(nat \<Rightarrow> nat \<Rightarrow> rgb option) \<Rightarrow> nat \<Rightarrow> nat \<Rightarrow> nat \<Rightarrow> nat \<Rightarrow> nat \<Rightarrow> nat \<Rightarrow> nat \<times> nat \<Rightarrow> bytes \<Rightarrow> bytes option" where
  "uv_body px src_w src_h scale_x scale_y dst_w frame_size = (\<lambda>(dy, dx) yuv. do {
     sy \<leftarrow> source_of src_h scale_y dy;
     sx \<leftarrow> source_of src_w scale_x dx;
     (r, g, b) \<leftarrow> px sy sx;
     let i = (dy div 2) * (dst_w div 2) + dx div 2;
     yuv \<leftarrow> put yuv (frame_size + i) (clamp_u8 (chroma_u r g b));
     put yuv (frame_size + frame_size div 4 + i) (clamp_u8 (chroma_v r g b))
   })"

definition rgb_to_planes ::
  "(nat \<Rightarrow> nat \<Rightarrow> rgb option) \<Rightarrow> nat \<Rightarrow> nat \<Rightarrow> nat \<Rightarrow> nat \<Rightarrow> bytes option" where
  "rgb_to_planes px src_w src_h dst_w dst_h = do {
     let frame_size = dst_w * dst_h;
     let yuv = replicate (frame_size * 3 div 2) 0;
     scale_x \<leftarrow> scale_of src_w dst_w;
     scale_y \<leftarrow> scale_of src_h dst_h;
     yuv \<leftarrow> for_each (y_body px src_w src_h scale_x scale_y dst_w)
              (List.product [0..<dst_h] [0..<dst_w]) yuv;
     for_each (uv_body px src_w src_h scale_x scale_y dst_w frame_size)
       (List.product (even_upto dst_h) (even_upto dst_w)) yuv
   }"

section \<open>Screen capture\<close>

definition bgra_pixel :: "bytes \<Rightarrow> nat \<Rightarrow> nat \<Rightarrow> nat \<Rightarrow> rgb option" where
  "bgra_pixel frame stride sy sx = do {
     let i = sy * stride + sx * 4;
     b \<leftarrow> idx frame i;
     g \<leftarrow> idx frame (i + 1);
     r \<leftarrow> idx frame (i + 2);
     Some (uint r, uint g, uint b)
   }"

definition bgra_to_yuv420 :: "bytes \<Rightarrow> nat \<Rightarrow> nat \<Rightarrow> nat \<Rightarrow> nat \<Rightarrow> nat \<Rightarrow> bytes option" where
  "bgra_to_yuv420 frame stride src_w src_h dst_w dst_h =
     rgb_to_planes (bgra_pixel frame stride) src_w src_h dst_w dst_h"

section \<open>Decoded JPEG pictures\<close>

datatype pixel_format = L8 | L16 | RGB24 | CMYK32

record jpeg_info =
  ji_width :: u16
  ji_height :: u16
  ji_format :: pixel_format

datatype video_error = JpegDecodeFailed | UnsupportedFormat pixel_format
  | BufferTooSmall nat nat

definition bytes_per_pixel :: "pixel_format \<Rightarrow> nat option" where
  "bytes_per_pixel f = (case f of RGB24 \<Rightarrow> Some 3 | L8 \<Rightarrow> Some 1 | CMYK32 \<Rightarrow> Some 4 | L16 \<Rightarrow> None)"

definition jpeg_pixel :: "bytes \<Rightarrow> pixel_format \<Rightarrow> nat \<Rightarrow> nat \<Rightarrow> nat \<Rightarrow> nat \<Rightarrow> rgb option" where
  "jpeg_pixel pixels format bpp src_w sy sx = (
     let i = (sy * src_w + sx) * bpp
     in case format of
          RGB24 \<Rightarrow> do {
            r \<leftarrow> idx pixels i;
            g \<leftarrow> idx pixels (i + 1);
            b \<leftarrow> idx pixels (i + 2);
            Some (uint r, uint g, uint b) }
        | L8 \<Rightarrow> do { l \<leftarrow> idx pixels i; Some (uint l, uint l, uint l) }
        | _ \<Rightarrow> Some (0, 0, 0))"

text \<open>
  The JPEG decoder is a third party crate: \<open>decode\<close> stands for it, \<open>None\<close> when it reports an
  error.
\<close>

definition mjpeg_to_yuv420 ::
  "(bytes \<Rightarrow> (bytes \<times> jpeg_info) option) \<Rightarrow> bytes \<Rightarrow> nat \<Rightarrow> nat \<Rightarrow> (video_error + bytes) option" where
  "mjpeg_to_yuv420 decode jpeg_data w h =
     (case decode jpeg_data of
        None \<Rightarrow> Some (Inl JpegDecodeFailed)
      | Some (pixels, info) \<Rightarrow>
          let src_w = unat (ji_width info); src_h = unat (ji_height info)
          in case bytes_per_pixel (ji_format info) of
               None \<Rightarrow> Some (Inl (UnsupportedFormat (ji_format info)))
             | Some bpp \<Rightarrow>
                 let expected = src_w * src_h * bpp
                 in if length pixels < expected
                    then Some (Inl (BufferTooSmall (length pixels) expected))
                    else map_option Inr
                           (rgb_to_planes (jpeg_pixel pixels (ji_format info) bpp src_w)
                              src_w src_h w h))"

section \<open>YUYV frames\<close>

definition yuyv_y_body :: "bytes \<Rightarrow> nat \<Rightarrow> nat \<times> nat \<Rightarrow> bytes \<Rightarrow> bytes option" where
  "yuyv_y_body src w = (\<lambda>(row, col) yuv. do {
     y \<leftarrow> idx src ((row * w + col) * 2);
     put yuv (row * w + col) y
   })"

definition yuyv_uv_body :: "bytes \<Rightarrow> nat \<Rightarrow> nat \<Rightarrow> nat \<times> nat \<Rightarrow> bytes \<Rightarrow> bytes option" where
  "yuyv_uv_body src w frame_size = (\<lambda>(row, col) yuv. do {
     let i = (row * w + col) * 2;
     u \<leftarrow> idx src (i + 1);
     v \<leftarrow> idx src (i + 3);
     let uv_idx = (row div 2) * (w div 2) + col div 2;
     yuv \<leftarrow> put yuv (frame_size + uv_idx) u;
     put yuv (frame_size + frame_size div 4 + uv_idx) v
   })"

definition yuyv_to_yuv420 :: "bytes \<Rightarrow> nat \<Rightarrow> nat \<Rightarrow> bytes option" where
  "yuyv_to_yuv420 src w h = do {
     let frame_size = w * h;
     let yuv = replicate (frame_size * 3 div 2) 0;
     yuv \<leftarrow> for_each (yuyv_y_body src w) (List.product [0..<h] [0..<w]) yuv;
     for_each (yuyv_uv_body src w frame_size) (List.product (even_upto h) (even_upto w)) yuv
   }"

section \<open>The planes that the loops write\<close>

lemma set_even_upto [simp]: "set (even_upto n) = {i. even i \<and> i < n}"
  by (auto simp: even_upto_def)

lemma distinct_even_upto [simp]: "distinct (even_upto n)"
  by (simp add: even_upto_def)

text \<open>
  Both kinds of conversion write one luma cell per pixel and one cell of each chroma plane
  per two by two block. With even sizes the cells are distinct and inside the buffer, so
  the result is read off the bodies.
\<close>

lemma planes_written:
  fixes w h :: nat
  defines "fs \<equiv> w * h"
  assumes even: "even w" "even h"
    and yb: "\<And>r c b. r < h \<Longrightarrow> c < w \<Longrightarrow> yb (r, c) b = put b (r * w + c) (yv r c)"
    and uvb: "\<And>r c b. r < h \<Longrightarrow> c < w \<Longrightarrow> even r \<Longrightarrow> even c \<Longrightarrow>
       uvb (r, c) b = puts [(fs + ((r div 2) * (w div 2) + c div 2), uv r c),
                            (fs + fs div 4 + ((r div 2) * (w div 2) + c div 2), vv r c)] b"
    and len: "length (b :: bytes) = fs * 3 div 2"
  shows "\<exists>yuv. Option.bind (for_each yb (List.product [0..<h] [0..<w]) b)
            (for_each uvb (List.product (even_upto h) (even_upto w))) = Some yuv
    \<and> length yuv = fs * 3 div 2
    \<and> (\<forall>r < h. \<forall>c < w. yuv ! (r * w + c) = yv r c)
    \<and> (\<forall>r < h div 2. \<forall>c < w div 2.
          yuv ! (fs + (r * (w div 2) + c)) = uv (2 * r) (2 * c)
          \<and> yuv ! (fs + fs div 4 + (r * (w div 2) + c)) = vv (2 * r) (2 * c))"
proof -
  obtain m n where m: "w = 2 * m" and n: "h = 2 * n" using even by (auto elim!: evenE)
  have fs: "fs = 4 * (n * m)" "fs * 3 div 2 = 6 * (n * m)" "fs div 4 = n * m" "h * w = fs"
    by (simp_all add: fs_def m n)
  have fl: "h * w \<le> length b" using fs by (simp add: len)
  have half: "w div 2 = m" "h div 2 = n" by (simp_all add: m n)
  let ?ypix = "List.product [0..<h] [0..<w]"
  let ?pix = "List.product (even_upto h) (even_upto w)"
  let ?cell = "\<lambda>x. (fst x div 2) * m + snd x div 2"
  have "\<exists>b1. for_each yb ?ypix b = Some b1 \<and> length b1 = length b
      \<and> (\<forall>x \<in> set ?ypix. b1 ! (fst x * w + snd x) = yv (fst x) (snd x))"
  proof (rule fill_one)
    show "fst x * w + snd x < length b" if "x \<in> set ?ypix" for x
      using that cell_less [of "fst x" h "snd x" w] fl by auto
  qed (auto simp: yb distinct_product inj_on_def cell_inj)
  then obtain b1 where b1: "for_each yb ?ypix b = Some b1" "length b1 = 6 * (n * m)"
      "\<forall>x \<in> set ?ypix. b1 ! (fst x * w + snd x) = yv (fst x) (snd x)"
    using len fs(2) by auto
  have cell: "?cell x < n * m" if "x \<in> set ?pix" for x
    using that cell_less [of "fst x div 2" n "snd x div 2" m] by (auto simp: m n)
  have cinj: "x = y" if "x \<in> set ?pix" "y \<in> set ?pix" "?cell x = ?cell y" for x y
    using that cell_inj [of "snd x div 2" m "snd y div 2" "fst x div 2" "fst y div 2"]
    by (auto simp: m n prod_eq_iff elim!: evenE)
  have "\<exists>b2. for_each uvb ?pix b1 = Some b2 \<and> length b2 = length b1
      \<and> (\<forall>x \<in> set ?pix. b2 ! (fs + ?cell x) = uv (fst x) (snd x)
             \<and> b2 ! (fs + n * m + ?cell x) = vv (fst x) (snd x))
      \<and> (\<forall>k. k \<notin> (\<lambda>x. fs + ?cell x) ` set ?pix \<union> (\<lambda>x. fs + n * m + ?cell x) ` set ?pix
             \<longrightarrow> b2 ! k = b1 ! k)"
  proof (rule fill_two)
    show "fs + ?cell x < length b1 \<and> fs + n * m + ?cell x < length b1" if "x \<in> set ?pix" for x
      using cell [OF that] unfolding b1(2) fs(1) by linarith
    show "fs + ?cell x \<noteq> fs + n * m + ?cell y" if "x \<in> set ?pix" "y \<in> set ?pix" for x y
      using cell [OF that(1)] by simp
    show "inj_on (\<lambda>x. fs + ?cell x) (set ?pix)" "inj_on (\<lambda>x. fs + n * m + ?cell x) (set ?pix)"
      using cinj by (auto simp: inj_on_def)
  qed (auto simp: uvb half fs(3) distinct_product)
  then obtain b2 where b2: "for_each uvb ?pix b1 = Some b2" "length b2 = 6 * (n * m)"
      "\<forall>x \<in> set ?pix. b2 ! (fs + ?cell x) = uv (fst x) (snd x)
             \<and> b2 ! (fs + n * m + ?cell x) = vv (fst x) (snd x)"
    and other: "\<forall>k. k \<notin> (\<lambda>x. fs + ?cell x) ` set ?pix \<union> (\<lambda>x. fs + n * m + ?cell x) ` set ?pix
             \<longrightarrow> b2 ! k = b1 ! k"
    unfolding b1(2) by blast
  have low: "b2 ! k = b1 ! k" if "k < fs" for k
    by (rule other [rule_format]) (use that in auto)
  have "b2 ! (r * w + c) = yv r c" if "r < h" "c < w" for r c
    using b1(3) low [of "r * w + c"] cell_less [OF that] that by (auto simp: fs(4))
  moreover have "b2 ! (fs + (r * m + c)) = uv (2 * r) (2 * c)
      \<and> b2 ! (fs + n * m + (r * m + c)) = vv (2 * r) (2 * c)" if "r < n" "c < m" for r c
    using b2(3) [THEN bspec, of "(2 * r, 2 * c)"] that by (simp add: m n)
  ultimately show ?thesis
    unfolding half fs(2,3) b1(1) Option.bind.bind_lunit using b2(1,2) by blast
qed

section \<open>YUYV frames\<close>

text \<open>For even sizes and a buffer that holds the frame, the YUYV conversion does not panic and
  returns the planar picture: every luma sample in place, and the chroma samples of each
  two by two block taken from its upper left pixel pair.\<close>

theorem yuyv_to_yuv420_planes:
  assumes "even w" "even h" "2 * (w * h) \<le> length src"
  shows "\<exists>yuv. yuyv_to_yuv420 src w h = Some yuv \<and> length yuv = w * h * 3 div 2
    \<and> (\<forall>r < h. \<forall>c < w. yuv ! (r * w + c) = src ! (2 * (r * w + c)))
    \<and> (\<forall>r < h div 2. \<forall>c < w div 2.
          yuv ! (w * h + (r * (w div 2) + c)) = src ! (2 * (2 * r * w + 2 * c) + 1)
          \<and> yuv ! (w * h + w * h div 4 + (r * (w div 2) + c)) = src ! (2 * (2 * r * w + 2 * c) + 3))"
proof -
  have y: "idx src ((r * w + c) * 2) = Some (src ! (2 * (r * w + c)))" if "r < h" "c < w" for r c
    using cell_less [OF that] assms(3) by (simp add: idx_def mult.commute)
  have uv: "idx src ((r * w + c) * 2 + 1) = Some (src ! (2 * (r * w + c) + 1))"
      "idx src ((r * w + c) * 2 + 3) = Some (src ! (2 * (r * w + c) + 3))"
    if "r < h" "c < w" "even c" for r c
  proof -
    have "Suc c < w" using that assms(1) by (auto elim!: evenE)
    then have "r * w + c + 1 < w * h" using cell_less [OF that(1), of "Suc c" w] by (simp add: mult.commute)
    then show "idx src ((r * w + c) * 2 + 1) = Some (src ! (2 * (r * w + c) + 1))"
      "idx src ((r * w + c) * 2 + 3) = Some (src ! (2 * (r * w + c) + 3))"
      using assms(3) by (simp_all add: idx_def mult.commute)
  qed
  have yb: "yuyv_y_body src w (r, c) b = put b (r * w + c) (src ! (2 * (r * w + c)))"
    if "r < h" "c < w" for r c b
    unfolding yuyv_y_body_def prod.case y [OF that] by simp
  have uvb: "yuyv_uv_body src w (w * h) (r, c) b =
      puts [(w * h + ((r div 2) * (w div 2) + c div 2), src ! (2 * (r * w + c) + 1)),
            (w * h + w * h div 4 + ((r div 2) * (w div 2) + c div 2), src ! (2 * (r * w + c) + 3))] b"
    if "r < h" "c < w" "even r" "even c" for r c b
    unfolding yuyv_uv_body_def prod.case Let_def puts_pair
      uv(1) [OF that(1,2,4)] uv(2) [OF that(1,2,4)] by simp
  show ?thesis
    using planes_written [OF assms(1,2) yb uvb length_replicate]
    unfolding yuyv_to_yuv420_def Let_def by simp
qed

theorem yuyv_to_yuv420_planes_witness:
  "(\<exists>yuv. yuyv_to_yuv420 [1, 2, 3, 4, 5, 6, 7, 8] 2 2 = Some yuv \<and> length yuv = 2 * 2 * 3 div 2)
   \<and> yuyv_to_yuv420 [1, 2, 3, 4, 5, 6, 7, 8] 2 2 = Some [1, 3, 5, 7, 2, 4]"
proof
  have h: "even (2 :: nat)" "even (2 :: nat)" "2 * (2 * 2) \<le> length [1, 2, 3, 4, 5, 6, 7, 8 :: u8]"
    by simp_all
  show "\<exists>yuv. yuyv_to_yuv420 [1, 2, 3, 4, 5, 6, 7, 8] 2 2 = Some yuv \<and> length yuv = 2 * 2 * 3 div 2"
    using yuyv_to_yuv420_planes [OF h] by blast
  show "yuyv_to_yuv420 [1, 2, 3, 4, 5, 6, 7, 8] 2 2 = Some [1, 3, 5, 7, 2, 4]"
    by code_simp
qed

section \<open>Scaled pictures\<close>

definition nearest :: "nat \<Rightarrow> nat \<Rightarrow> nat \<Rightarrow> nat" where
  "nearest src dst d =
     min ((d * (if dst > 1 then ((src - 1) * 65536) div (dst - 1) else 0)) div 65536) (src - 1)"

lemma nearest_less: "0 < src \<Longrightarrow> nearest src dst d < src"
  by (auto simp: nearest_def)

lemma nearest_same: "d < n \<Longrightarrow> nearest n n d = d"
  by (cases "n = 1") (auto simp: nearest_def)

lemma scale_source:
  assumes "0 < src" and "scale_of src dst = Some scale"
  shows "source_of src scale d = Some (nearest src dst d)"
  using assms by (auto simp: scale_of_def source_of_def nearest_def split: if_splits)

lemma scale_of_Some: "0 < src \<Longrightarrow> \<exists>scale. scale_of src dst = Some scale"
  by (simp add: scale_of_def)

text \<open>
  What a conversion must produce: \<open>col\<close> gives the colour of a source pixel, and the planes
  hold the converted colours of the nearest source pixels.
\<close>

definition planes_of ::
  "(nat \<Rightarrow> nat \<Rightarrow> rgb) \<Rightarrow> nat \<Rightarrow> nat \<Rightarrow> nat \<Rightarrow> nat \<Rightarrow> bytes \<Rightarrow> bool" where
  "planes_of col src_w src_h w h yuv \<longleftrightarrow>
     length yuv = w * h * 3 div 2
     \<and> (\<forall>y < h. \<forall>x < w. yuv ! (y * w + x) =
          (case col (nearest src_h h y) (nearest src_w w x) of (r, g, b) \<Rightarrow> clamp_u8 (luma r g b)))
     \<and> (\<forall>y < h div 2. \<forall>x < w div 2.
          yuv ! (w * h + (y * (w div 2) + x)) =
            (case col (nearest src_h h (2 * y)) (nearest src_w w (2 * x)) of
               (r, g, b) \<Rightarrow> clamp_u8 (chroma_u r g b))
          \<and> yuv ! (w * h + w * h div 4 + (y * (w div 2) + x)) =
            (case col (nearest src_h h (2 * y)) (nearest src_w w (2 * x)) of
               (r, g, b) \<Rightarrow> clamp_u8 (chroma_v r g b)))"

lemma rgb_to_planes_ok:
  assumes even: "even w" "even h" and src: "0 < src_w" "0 < src_h"
    and px: "\<And>sy sx. sy < src_h \<Longrightarrow> sx < src_w \<Longrightarrow> px sy sx = Some (col sy sx)"
  shows "\<exists>yuv. rgb_to_planes px src_w src_h w h = Some yuv \<and> planes_of col src_w src_h w h yuv"
proof -
  obtain sx sy where sx: "scale_of src_w w = Some sx" and sy: "scale_of src_h h = Some sy"
    using scale_of_Some src by blast
  let ?col = "\<lambda>y x. col (nearest src_h h y) (nearest src_w w x)"
  have at: "px (nearest src_h h y) (nearest src_w w x) = Some (?col y x)" for y x
    by (rule px) (simp_all add: nearest_less src)
  note pos = scale_source [OF src(1) sx] scale_source [OF src(2) sy]
  have yb: "y_body px src_w src_h sx sy w (y, x) b =
      put b (y * w + x) (case ?col y x of (r, g, b) \<Rightarrow> clamp_u8 (luma r g b))" for y x b
    by (simp add: y_body_def pos at split: prod.splits)
  have uvb: "uv_body px src_w src_h sx sy w (w * h) (y, x) b =
      puts [(w * h + ((y div 2) * (w div 2) + x div 2),
               case ?col y x of (r, g, b) \<Rightarrow> clamp_u8 (chroma_u r g b)),
            (w * h + w * h div 4 + ((y div 2) * (w div 2) + x div 2),
               case ?col y x of (r, g, b) \<Rightarrow> clamp_u8 (chroma_v r g b))] b" for y x b
    by (simp add: uv_body_def pos at puts_pair Let_def split: prod.splits)
  show ?thesis
    using planes_written [OF even yb uvb length_replicate]
    unfolding rgb_to_planes_def Let_def sx sy Option.bind.bind_lunit planes_of_def by blast
qed

lemma bgra_pixel_in_frame:
  assumes "4 * src_w \<le> stride" "stride * src_h \<le> length frame" "sy < src_h" "sx < src_w"
  shows "bgra_pixel frame stride sy sx =
    Some (uint (frame ! (sy * stride + sx * 4 + 2)), uint (frame ! (sy * stride + sx * 4 + 1)),
          uint (frame ! (sy * stride + sx * 4)))"
proof -
  have "sy * stride + (sx * 4 + 3) < src_h * stride"
    by (rule cell_less) (use assms in simp_all)
  then show ?thesis using assms(2) by (simp add: bgra_pixel_def idx_def mult.commute Let_def)
qed

text \<open>For an even output size and a screen shot that holds its rows, the BGRA conversion does
  not panic and returns the planes of the nearest neighbour scaled picture.\<close>

theorem bgra_to_yuv420_planes:
  assumes "even w" "even h" "0 < src_w" "0 < src_h" "4 * src_w \<le> stride"
    "stride * src_h \<le> length frame"
  shows "\<exists>yuv. bgra_to_yuv420 frame stride src_w src_h w h = Some yuv
    \<and> planes_of (\<lambda>sy sx. (uint (frame ! (sy * stride + sx * 4 + 2)),
          uint (frame ! (sy * stride + sx * 4 + 1)), uint (frame ! (sy * stride + sx * 4))))
        src_w src_h w h yuv"
  unfolding bgra_to_yuv420_def
  by (rule rgb_to_planes_ok [OF assms(1-4) bgra_pixel_in_frame [OF assms(5,6)]])

theorem bgra_to_yuv420_planes_witness:
  "\<exists>yuv. bgra_to_yuv420 (replicate 16 255) 8 2 2 2 2 = Some yuv \<and> length yuv = 2 * 2 * 3 div 2"
proof -
  have h: "even (2 :: nat)" "even (2 :: nat)" "0 < (2 :: nat)" "0 < (2 :: nat)" "4 * 2 \<le> (8 :: nat)"
    "8 * 2 \<le> length (replicate 16 255 :: bytes)" by simp_all
  show ?thesis using bgra_to_yuv420_planes [OF h] unfolding planes_of_def by blast
qed

section \<open>JPEG pictures\<close>

lemma jpeg_pixel_in_frame:
  assumes "bytes_per_pixel f = Some bpp" "src_w * src_h * bpp \<le> length pixels"
    "sy < src_h" "sx < src_w"
  shows "jpeg_pixel pixels f bpp src_w sy sx \<noteq> None"
proof -
  have "sy * src_w + sx + 1 \<le> src_h * src_w" using cell_less [OF assms(3,4)] by simp
  then have "(sy * src_w + sx + 1) * bpp \<le> src_w * src_h * bpp"
    by (simp only: mult.commute [of src_w src_h] mult_le_mono1)
  then have "(sy * src_w + sx) * bpp + bpp \<le> length pixels"
    using assms(2) by (simp add: algebra_simps)
  then show ?thesis
    using assms(1) by (cases f) (auto simp: jpeg_pixel_def bytes_per_pixel_def idx_def Let_def)
qed

text \<open>Whatever the camera delivers and whatever the JPEG decoder makes of it, as long as the
  decoded picture has a pixel the MJPEG conversion to an even size never panics: it returns
  an error, or planes of the right length.\<close>

theorem mjpeg_to_yuv420_never_panics:
  assumes "even w" "even h"
    and "\<And>pixels info. decode jpeg = Some (pixels, info) \<Longrightarrow> ji_width info \<noteq> 0 \<and> ji_height info \<noteq> 0"
  shows "\<exists>r. mjpeg_to_yuv420 decode jpeg w h = Some r
    \<and> (\<forall>yuv. r = Inr yuv \<longrightarrow> length yuv = w * h * 3 div 2)"
proof (cases "decode jpeg")
  case None
  then show ?thesis by (simp add: mjpeg_to_yuv420_def)
next
  case (Some d)
  obtain pixels info where d: "d = (pixels, info)" by fastforce
  let ?w = "unat (ji_width info)" and ?h = "unat (ji_height info)" and ?f = "ji_format info"
  have pos: "0 < ?w" "0 < ?h" using assms(3) Some d by (auto simp: unat_gt_0)
  show ?thesis
  proof (cases "bytes_per_pixel ?f")
    case (Some bpp)
    note bpp = Some
    show ?thesis
    proof (cases "length pixels < ?w * ?h * bpp")
      case False
      let ?px = "jpeg_pixel pixels ?f bpp ?w"
      have "?px sy sx = Some (the (?px sy sx))" if "sy < ?h" "sx < ?w" for sy sx
        using jpeg_pixel_in_frame [OF bpp _ that, of pixels] False by auto
      from rgb_to_planes_ok [OF assms(1,2) pos, of ?px "\<lambda>sy sx. the (?px sy sx)", OF this]
      obtain yuv where
          "rgb_to_planes ?px ?w ?h w h = Some yuv" "length yuv = w * h * 3 div 2"
        unfolding planes_of_def by blast
      then show ?thesis using \<open>decode jpeg = Some d\<close> bpp False
        by (simp add: mjpeg_to_yuv420_def d Let_def)
    qed (use \<open>decode jpeg = Some d\<close> bpp in \<open>simp add: mjpeg_to_yuv420_def d Let_def\<close>)
  qed (use \<open>decode jpeg = Some d\<close> in \<open>simp add: mjpeg_to_yuv420_def d Let_def\<close>)
qed

definition one_gray_pixel :: "bytes \<Rightarrow> (bytes \<times> jpeg_info) option" where
  "one_gray_pixel jpeg = (if jpeg = [] then None
     else Some ([hd jpeg], \<lparr>ji_width = 1, ji_height = 1, ji_format = L8\<rparr>))"

theorem mjpeg_to_yuv420_never_panics_witness:
  "\<exists>r. mjpeg_to_yuv420 one_gray_pixel [128] 2 2 = Some r
    \<and> (\<forall>yuv. r = Inr yuv \<longrightarrow> length yuv = 2 * 2 * 3 div 2)"
proof (rule mjpeg_to_yuv420_never_panics)
  show "ji_width info \<noteq> 0 \<and> ji_height info \<noteq> 0"
    if "one_gray_pixel [128] = Some (pixels, info)" for pixels info
    using that by (auto simp: one_gray_pixel_def)
qed simp_all

section \<open>Limited range\<close>

lemma luma_range:
  assumes "0 \<le> r" "r \<le> 255" "0 \<le> g" "g \<le> 255" "0 \<le> b" "b \<le> 255"
  shows "16 \<le> luma r g b \<and> luma r g b \<le> 235"
proof -
  have "0 \<le> 66 * r + 129 * g + 25 * b" "66 * r + 129 * g + 25 * b \<le> 56100"
    using assms by linarith+
  then show ?thesis unfolding luma_def by linarith
qed

lemma chroma_range:
  assumes "0 \<le> r" "r \<le> 255" "0 \<le> g" "g \<le> 255" "0 \<le> b" "b \<le> 255"
  shows "16 \<le> chroma_u r g b \<and> chroma_u r g b \<le> 240 \<and> 16 \<le> chroma_v r g b \<and> chroma_v r g b \<le> 240"
proof -
  have "-28560 \<le> -38 * r - 74 * g + 112 * b" "-38 * r - 74 * g + 112 * b \<le> 28560"
    "-28560 \<le> 112 * r - 94 * g - 18 * b" "112 * r - 94 * g - 18 * b \<le> 28560"
    using assms by linarith+
  then show ?thesis unfolding chroma_u_def chroma_v_def by linarith
qed

lemma uint_clamp_u8: "0 \<le> x \<Longrightarrow> x \<le> 255 \<Longrightarrow> uint (clamp_u8 x) = x"
  by (simp add: clamp_u8_def uint_word_of_int)

lemma u8_range: "0 \<le> uint (x :: u8)" "uint (x :: u8) \<le> 255"
  using uint_bounded [of x] by simp_all

text \<open>The colour conversion never saturates: for every pixel the fixed point results are
  already in the BT.601 limited range (luma 16 to 235, chroma 16 to 240), so the clamp to a
  byte keeps their value.\<close>

theorem colours_in_limited_range:
  "let y = clamp_u8 (luma (uint r) (uint g) (uint b));
       u = clamp_u8 (chroma_u (uint r) (uint g) (uint b));
       v = clamp_u8 (chroma_v (uint r) (uint g) (uint b))
   in uint y = luma (uint (r :: u8)) (uint (g :: u8)) (uint (b :: u8))
      \<and> uint u = chroma_u (uint r) (uint g) (uint b) \<and> uint v = chroma_v (uint r) (uint g) (uint b)
      \<and> uint y \<in> {16..235} \<and> uint u \<in> {16..240} \<and> uint v \<in> {16..240}"
proof -
  note range = u8_range [of r] u8_range [of g] u8_range [of b]
  show ?thesis
    using luma_range [OF range] chroma_range [OF range] by (simp add: Let_def uint_clamp_u8)
qed

section \<open>Odd sizes\<close>

lemma odd_chroma_cell_outside:
  assumes "odd w" "odd h" "h \<le> (w :: nat)"
  shows "w * h * 3 div 2 \<le> w * h + w * h div 4 + ((h - 1) div 2 * (w div 2) + (w - 1) div 2)"
proof -
  obtain a b where a: "w = 2 * a + 1" and b: "h = 2 * b + 1" using assms by (auto elim!: oddE)
  have fs: "w * h = 4 * (b * a) + 2 * a + 2 * b + 1" by (simp add: a b algebra_simps)
  have half: "(h - 1) div 2 = b" "w div 2 = a" "(w - 1) div 2 = a" by (simp_all add: a b)
  have "b \<le> a" using assms(3) by (simp add: a b)
  then have "(4 * b + 1) div 4 \<le> (2 * a + 2 * b + 1) div 4" by (intro div_le_mono) simp
  then have "b \<le> (2 * a + 2 * b + 1) div 4" by simp
  moreover have "(4 * c + 2 * a + 2 * b + 1) div 4 = c + (2 * a + 2 * b + 1) div 4" for c
    using div_mult_self3 [of 4 c "2 * a + 2 * b + 1"] by (simp add: ac_simps)
  moreover have "(4 * c + 2 * a + 2 * b + 1) * 3 div 2 = 6 * c + 3 * a + 3 * b + 1" for c :: nat
    by simp
  ultimately show ?thesis unfolding fs half by simp
qed

lemma uv_body_length: "uv_body px sw sh kx ky w fs i b = Some b' \<Longrightarrow> length b' = length b"
  by (auto simp: uv_body_def Let_def bind_eq_Some_conv split: prod.splits dest!: put_length)

lemma y_body_length: "y_body px sw sh kx ky w i b = Some b' \<Longrightarrow> length b' = length b"
  by (auto simp: y_body_def bind_eq_Some_conv split: prod.splits dest!: put_length)

text \<open>A screen capture encoded at an odd width and odd height, not taller than wide, panics
  whatever the screen shows: the last chroma sample lies behind the end of the buffer. The
  browser can request such a size with a resolution control frame.\<close>

theorem bgra_odd_size_panics:
  assumes "odd w" "odd h" "h \<le> w"
  shows "bgra_to_yuv420 frame stride src_w src_h w h = None"
proof -
  let ?fs = "w * h" and ?px = "bgra_pixel frame stride"
  have panics: "for_each (uv_body ?px src_w src_h kx ky w ?fs)
      (List.product (even_upto h) (even_upto w)) b = None" if "length b = ?fs * 3 div 2" for kx ky b
  proof (rule for_each_panics [where i = "(h - 1, w - 1)" and P = "\<lambda>b. length b = ?fs * 3 div 2"])
    show "(h - 1, w - 1) \<in> set (List.product (even_upto h) (even_upto w))"
      using assms by (auto elim!: oddE)
    show "uv_body ?px src_w src_h kx ky w ?fs (h - 1, w - 1) c = None"
      if len: "length c = ?fs * 3 div 2" for c
      using odd_chroma_cell_outside [OF assms]
      by (auto simp: uv_body_def Let_def put_def len bind_eq_None_conv split: prod.splits)
  qed (auto simp: that dest: uv_body_length)
  have ylen: "length b' = ?fs * 3 div 2"
    if "for_each (y_body ?px src_w src_h kx ky w) is (replicate (?fs * 3 div 2) 0) = Some b'"
    for kx ky "is" b'
    by (rule for_each_invariant [OF that]) (auto dest: y_body_length)
  then show ?thesis
    by (auto simp: bgra_to_yuv420_def rgb_to_planes_def Let_def intro!: panics intro: ylen
        split: Option.bind_splits)
qed

theorem bgra_odd_size_panics_witness:
  "bgra_to_yuv420 (replicate 36 0) 12 3 3 3 3 = None"
  by (rule bgra_odd_size_panics) simp_all

end
