(* ===== verification/VideoCtl.thy ===== *)
theory VideoCtl imports Text Hid YuvConv begin

text \<open>
  \<open>agent/src/video.rs\<close>, the control side: the capture loops, the video commands they poll and
  the outer loop that restarts a capture with new settings. What the devices, the encoder,
  the frame channel and the command channel do at each iteration is an argument.
\<close>

section \<open>Configuration and commands\<close>

record video_cfg =
  source :: string
  width :: u32
  height :: u32
  fps :: u32
  bitrate_kbps :: u32
  hw_encode :: bool

text \<open>
  \<open>check_video_ctrl\<close> drains the pending commands; \<open>None\<close> is an agent without a control channel.
\<close>

fun check_one :: "video_control \<Rightarrow> video_cfg \<times> bool \<Rightarrow> video_cfg \<times> bool" where
  "check_one (ChangeResolution w h) (cfg, restart) =
     (if w \<noteq> width cfg \<or> h \<noteq> height cfg then (cfg\<lparr>width := w, height := h\<rparr>, True)
      else (cfg, restart))"
| "check_one (ChangeFps f) (cfg, restart) =
     (if f \<noteq> fps cfg then (cfg\<lparr>fps := f\<rparr>, True) else (cfg, restart))"

definition check_video_ctrl :: "video_control list option \<Rightarrow> video_cfg \<Rightarrow> video_cfg \<times> bool" where
  "check_video_ctrl pending cfg =
     (case pending of None \<Rightarrow> (cfg, False) | Some cmds \<Rightarrow> fold check_one cmds (cfg, False))"

section \<open>The restart message\<close>

text \<open>A capture asks for a restart with the error \<open>video_restart:W:H:FPS\<close>.\<close>

definition restart_tag :: string where
  "restart_tag = ''video_restart:''"

definition restart_msg :: "video_cfg \<Rightarrow> string" where
  "restart_msg cfg = restart_tag @ decimal (unat (width cfg)) @ '':'' @
     decimal (unat (height cfg)) @ '':'' @ decimal (unat (fps cfg))"

definition set_if :: "(u32 \<Rightarrow> video_cfg \<Rightarrow> video_cfg) \<Rightarrow> string \<Rightarrow> video_cfg \<Rightarrow> video_cfg" where
  "set_if upd s cfg = (case parse_u32 s of Some v \<Rightarrow> upd v cfg | None \<Rightarrow> cfg)"

definition apply_restart :: "string \<Rightarrow> video_cfg \<Rightarrow> video_cfg" where
  "apply_restart msg cfg =
     (let payload = (case split_nth1 restart_tag msg of Some p \<Rightarrow> p | None \<Rightarrow> []);
          parts = split_on (CHR '':'') payload
      in if 3 \<le> length parts then
           set_if (\<lambda>v c. c\<lparr>fps := v\<rparr>) (parts ! 2)
             (set_if (\<lambda>v c. c\<lparr>height := v\<rparr>) (parts ! 1)
               (set_if (\<lambda>v c. c\<lparr>width := v\<rparr>) (parts ! 0) cfg))
         else cfg)"

fun drain_one :: "video_control \<Rightarrow> video_cfg \<Rightarrow> video_cfg" where
  "drain_one (ChangeResolution w h) cfg = cfg\<lparr>width := w, height := h\<rparr>"
| "drain_one (ChangeFps f) cfg = cfg\<lparr>fps := f\<rparr>"

section \<open>The capture loops\<close>

datatype send_result = SendOk | SendFull | SendClosed

definition try_send_frame :: "send_result \<Rightarrow> bool" where
  "try_send_frame r = (case r of SendOk \<Rightarrow> True | SendFull \<Rightarrow> True | SendClosed \<Rightarrow> False)"

text \<open>
  One iteration as the outside world answers it: the pending commands, whether the frame
  channel has room, what the device delivers, the value \<open>keyframe_flag.swap(false)\<close> takes out,
  what the encoder makes of a picture when an IDR frame is forced or not (\<open>None\<close> is an error)
  and how the channel takes the frame.
\<close>

datatype grab = Frame bytes | WouldBlock | GrabError string

record tick =
  t_ctrl :: "video_control list option"
  t_room :: bool
  t_grab :: grab
  t_key :: bool
  t_encode :: "bool \<Rightarrow> bytes \<Rightarrow> bytes option"
  t_send :: send_result

datatype loop_end = Running | Panicked | Done "string + unit"

definition took :: "tick \<Rightarrow> bytes \<Rightarrow> bytes list" where
  "took t frame = (case t_send t of SendOk \<Rightarrow> [frame] | _ \<Rightarrow> [])"

text \<open>
  What the capture paths ask of a V4L2 device: the answer to \<open>set_format\<close> with a FourCC (the
  format and size in force, or an error), and whether the frame interval, the buffers and the
  encoder can be set up.
\<close>

record v4l_dev =
  d_set_format :: "string \<Rightarrow> string + string \<times> nat \<times> nat"
  d_start :: "string + unit"

definition negotiate :: "v4l_dev \<Rightarrow> string \<Rightarrow> string \<Rightarrow> string + nat \<times> nat" where
  "negotiate dev fourcc err =
     (case d_set_format dev fourcc of
        Inl e \<Rightarrow> Inl e
      | Inr (actual, w, h) \<Rightarrow>
          if actual \<noteq> fourcc then Inl err
          else case d_start dev of Inl e \<Rightarrow> Inl e | Inr _ \<Rightarrow> Inr (w, h))"

text \<open>The frames the channel took, and how the loop ended (\<open>Running\<close> when the answers run out).\<close>

fun hw_loop :: "video_cfg \<Rightarrow> tick list \<Rightarrow> bytes list \<times> loop_end" where
  "hw_loop cfg [] = ([], Running)"
| "hw_loop cfg (t # ts) =
     (let (cfg, restart) = check_video_ctrl (t_ctrl t) cfg
      in if restart then ([], Done (Inl (restart_msg cfg)))
         else if \<not> t_room t then hw_loop cfg ts
         else case t_grab t of
                GrabError e \<Rightarrow> ([], Done (Inl e))
              | WouldBlock \<Rightarrow> ([], Done (Inl ''would block''))
              | Frame buf \<Rightarrow>
                  if try_send_frame (t_send t)
                  then (let (out, r) = hw_loop cfg ts in (took t buf @ out, r))
                  else ([], Done (Inr ())))"

definition try_hw_h264 :: "v4l_dev \<Rightarrow> video_cfg \<Rightarrow> tick list \<Rightarrow> bytes list \<times> loop_end" where
  "try_hw_h264 dev cfg ts =
     (case negotiate dev ''H264'' ''device does not support H264 output format'' of
        Inl e \<Rightarrow> ([], Done (Inl e))
      | Inr _ \<Rightarrow> hw_loop cfg ts)"

text \<open>
  The software paths: \<open>convert\<close> is the conversion of the captured buffer, \<open>None\<close> when it
  panics and \<open>Inl\<close> when it reports an error, which only skips the frame. The encoder remembers
  a forced IDR frame (\<open>force\<close>) until it encodes. An encoder error ends the loop; an empty
  encoded frame is not sent.
\<close>

fun sw_loop ::
  "(bytes \<Rightarrow> (video_error + bytes) option) \<Rightarrow> bool \<Rightarrow> video_cfg \<Rightarrow> tick list \<Rightarrow> bytes list \<times> loop_end" where
  "sw_loop convert force cfg [] = ([], Running)"
| "sw_loop convert force cfg (t # ts) =
     (let (cfg, restart) = check_video_ctrl (t_ctrl t) cfg
      in if restart then ([], Done (Inl (restart_msg cfg)))
         else if \<not> t_room t then sw_loop convert force cfg ts
         else case t_grab t of
                GrabError e \<Rightarrow> ([], Done (Inl e))
              | WouldBlock \<Rightarrow> ([], Done (Inl ''would block''))
              | Frame buf \<Rightarrow>
                  (let force = force \<or> t_key t in
                   case convert buf of
                     None \<Rightarrow> ([], Panicked)
                   | Some (Inl _) \<Rightarrow> sw_loop convert force cfg ts
                   | Some (Inr yuv) \<Rightarrow>
                       (case t_encode t force yuv of
                          None \<Rightarrow> ([], Done (Inl ''openh264 encode error''))
                        | Some encoded \<Rightarrow>
                            if encoded = [] then sw_loop convert False cfg ts
                            else if try_send_frame (t_send t)
                            then (let (out, r) = sw_loop convert False cfg ts in (took t encoded @ out, r))
                            else ([], Done (Inr ())))))"

definition run_sw_h264 :: "v4l_dev \<Rightarrow> video_cfg \<Rightarrow> tick list \<Rightarrow> bytes list \<times> loop_end" where
  "run_sw_h264 dev cfg ts =
     (case negotiate dev ''YUYV'' ''device does not support YUYV for software encoding'' of
        Inl e \<Rightarrow> ([], Done (Inl e))
      | Inr (w, h) \<Rightarrow> sw_loop (\<lambda>buf. map_option Inr (yuyv_to_yuv420 buf w h)) False cfg ts)"

definition run_mjpeg_h264 ::
  "(bytes \<Rightarrow> (bytes \<times> jpeg_info) option) \<Rightarrow> v4l_dev \<Rightarrow> video_cfg \<Rightarrow> tick list \<Rightarrow> bytes list \<times> loop_end" where
  "run_mjpeg_h264 decode dev cfg ts =
     (case negotiate dev ''MJPG'' ''device does not support MJPEG format'' of
        Inl e \<Rightarrow> ([], Done (Inl e))
      | Inr (w, h) \<Rightarrow> sw_loop (\<lambda>buf. mjpeg_to_yuv420 decode buf w h) False cfg ts)"

text \<open>
  Screen capture: the encoder size is the configured one, or the display's where that is 0;
  the frame interval divides by the frame rate. \<open>WouldBlock\<close> only waits.
\<close>

definition frame_interval :: "video_cfg \<Rightarrow> nat option" where
  "frame_interval cfg = (if fps cfg = 0 then None else Some (1000000000 div unat (fps cfg)))"

definition screen_size :: "u32 \<Rightarrow> nat \<Rightarrow> nat" where
  "screen_size configured native = (if 0 < configured then unat configured else native)"

fun screen_loop ::
  "(bytes \<Rightarrow> bytes option) \<Rightarrow> bool \<Rightarrow> video_cfg \<Rightarrow> tick list \<Rightarrow> bytes list \<times> loop_end" where
  "screen_loop convert force cfg [] = ([], Running)"
| "screen_loop convert force cfg (t # ts) =
     (let (cfg, restart) = check_video_ctrl (t_ctrl t) cfg
      in if restart then ([], Done (Inl (restart_msg cfg)))
         else case t_grab t of
                GrabError e \<Rightarrow> ([], Done (Inl e))
              | WouldBlock \<Rightarrow> screen_loop convert force cfg ts
              | Frame raw \<Rightarrow>
                  if \<not> t_room t then screen_loop convert force cfg ts
                  else (let force = force \<or> t_key t in
                        case convert raw of
                          None \<Rightarrow> ([], Panicked)
                        | Some yuv \<Rightarrow>
                            (case t_encode t force yuv of
                               None \<Rightarrow> ([], Done (Inl ''openh264 encode error''))
                             | Some encoded \<Rightarrow>
                                 if encoded = [] then screen_loop convert False cfg ts
                                 else if try_send_frame (t_send t)
                                 then (let (out, r) = screen_loop convert False cfg ts
                                       in (took t encoded @ out, r))
                                 else ([], Done (Inr ())))))"

definition run_screen_capture ::
  "nat \<Rightarrow> nat \<Rightarrow> video_cfg \<Rightarrow> tick list \<Rightarrow> bytes list \<times> loop_end" where
  "run_screen_capture disp_w disp_h cfg ts =
     (case frame_interval cfg of
        None \<Rightarrow> ([], Panicked)
      | Some _ \<Rightarrow>
          screen_loop (\<lambda>raw. if disp_h = 0 then None
                             else bgra_to_yuv420 raw (length raw div disp_h) disp_w disp_h
                                    (screen_size (width cfg) disp_w)
                                    (screen_size (height cfg) disp_h)) False cfg ts)"

section \<open>The outer loop\<close>

text \<open>
  One round of \<open>run_with_ctrl\<close>: how each capture path would end when started with a
  configuration (\<open>Inl\<close> carries the error message), and the commands still pending when a
  restart is taken. Both capture features are compiled in, as in the default build.
\<close>

record round =
  r_open :: "string + unit"
  r_hw :: "video_cfg \<Rightarrow> string + unit"
  r_sw :: "video_cfg \<Rightarrow> string + unit"
  r_mjpeg :: "video_cfg \<Rightarrow> string + unit"
  r_screen :: "video_cfg \<Rightarrow> string + unit"
  r_drain :: "video_control list"

definition is_ok :: "string + unit \<Rightarrow> bool" where
  "is_ok r = (case r of Inl _ \<Rightarrow> False | Inr _ \<Rightarrow> True)"

definition capture_round :: "round \<Rightarrow> video_cfg \<Rightarrow> string + unit" where
  "capture_round e cfg =
     (if source cfg = ''screen'' then r_screen e cfg
      else case r_open e of
             Inl m \<Rightarrow> Inl m
           | Inr _ \<Rightarrow>
               (let hw_ok = hw_encode cfg \<and> is_ok (r_hw e cfg)
                in if \<not> hw_ok then
                     (case r_sw e cfg of Inl _ \<Rightarrow> r_mjpeg e cfg | Inr _ \<Rightarrow> Inr ())
                   else Inr ()))"

text \<open>The configuration in force and the return value, \<open>None\<close> while it keeps running.\<close>

fun run_with_ctrl :: "round list \<Rightarrow> video_cfg \<Rightarrow> video_cfg \<times> (string + unit) option" where
  "run_with_ctrl [] cfg = (cfg, None)"
| "run_with_ctrl (e # es) cfg =
     (case capture_round e cfg of
        Inr _ \<Rightarrow> (cfg, Some (Inr ()))
      | Inl msg \<Rightarrow>
          if contains msg restart_tag
          then run_with_ctrl es (fold drain_one (r_drain e) (apply_restart msg cfg))
          else (cfg, Some (Inl msg)))"

text \<open>
  The video task of \<open>main.rs\<close>: when the configured source fails, the screen is tried, without a
  control channel. \<open>rounds\<close> and \<open>screen\<close> are what the two runs meet.
\<close>

definition video_task :: "round list \<Rightarrow> round list \<Rightarrow> video_cfg \<Rightarrow> (string + unit) option \<times> (string + unit) option" where
  "video_task rounds screen cfg =
     (case snd (run_with_ctrl rounds cfg) of
        Some (Inl e) \<Rightarrow>
          (Some (Inl e),
           if source cfg \<noteq> ''screen'' then snd (run_with_ctrl screen (cfg\<lparr>source := ''screen''\<rparr>)) else None)
      | r \<Rightarrow> (r, None))"

section \<open>Restart messages carry the settings\<close>

lemma split_nth1_restart_msg:
  "split_nth1 restart_tag (restart_msg cfg) = Some (decimal (unat (width cfg)) @ '':'' @
     decimal (unat (height cfg)) @ '':'' @ decimal (unat (fps cfg)))"
proof -
  have "CHR ''v'' \<in> set restart_tag" by (simp add: restart_tag_def)
  then have "cut restart_tag (decimal (unat (width cfg)) @ '':'' @
      decimal (unat (height cfg)) @ '':'' @ decimal (unat (fps cfg))) = None"
    by (rule cut_absent) (simp add: decimal_no_sign)
  then show ?thesis by (simp add: split_nth1_def restart_msg_def cut_prefix)
qed

lemma contains_restart_msg: "contains (restart_msg cfg) restart_tag"
  by (simp add: contains_def restart_msg_def cut_prefix)

lemma apply_restart_msg:
  "apply_restart (restart_msg new) cfg = cfg\<lparr>width := width new, height := height new, fps := fps new\<rparr>"
  by (simp add: apply_restart_def split_nth1_restart_msg split_on_sep split_on_plain
      decimal_no_sign set_if_def Let_def)

text \<open>The settings survive the trip through the error message: what the outer loop parses
  out of \<open>video_restart:W:H:FPS\<close> are the width, height and rate that were printed into it.\<close>

theorem restart_msg_roundtrip:
  "contains (restart_msg new) restart_tag
   \<and> apply_restart (restart_msg new) cfg = cfg\<lparr>width := width new, height := height new, fps := fps new\<rparr>"
  by (simp add: contains_restart_msg apply_restart_msg)

section \<open>What the commands do to the settings\<close>

lemma check_one_drain: "fst (check_one c s) = drain_one c (fst s)"
  by (cases c; cases s) auto

lemma fst_fold_check: "fst (fold check_one cmds s) = fold drain_one cmds (fst s)"
  by (induction cmds arbitrary: s) (simp_all add: check_one_drain)

lemma fold_check_kept:
  "\<not> snd (fold check_one cmds s) \<Longrightarrow> \<not> snd s \<and> fold check_one cmds s = s"
proof (induction cmds arbitrary: s)
  case (Cons c cmds)
  from Cons.prems have "\<not> snd (check_one c s) \<and> fold check_one cmds (check_one c s) = check_one c s"
    using Cons.IH by simp
  then show ?case by (cases c; cases s) (auto split: if_splits)
qed simp

definition is_resolution :: "video_control \<Rightarrow> bool" where
  "is_resolution c = (case c of ChangeResolution _ _ \<Rightarrow> True | ChangeFps _ \<Rightarrow> False)"

lemma fold_drain_spec:
  "fold drain_one cmds cfg = cfg\<lparr>
     width := (case last_such is_resolution cmds of Some (ChangeResolution w _) \<Rightarrow> w | _ \<Rightarrow> width cfg),
     height := (case last_such is_resolution cmds of Some (ChangeResolution _ h) \<Rightarrow> h | _ \<Rightarrow> height cfg),
     fps := (case last_such (Not \<circ> is_resolution) cmds of Some (ChangeFps f) \<Rightarrow> f | _ \<Rightarrow> fps cfg)\<rparr>"
proof (induction cmds rule: rev_induct)
  case (snoc c cmds)
  then show ?case by (cases c) (simp_all add: is_resolution_def)
qed simp

text \<open>Polling the commands leaves the settings of the last resolution and the last rate
  command (or the old ones), as draining them at a restart does; and when no restart is
  signalled, the settings are the ones the capture already runs with.\<close>

theorem check_video_ctrl_spec:
  "let (new, restart) = check_video_ctrl (Some cmds) cfg
   in new = fold drain_one cmds cfg
      \<and> new = cfg\<lparr>
          width := (case last_such is_resolution cmds of Some (ChangeResolution w _) \<Rightarrow> w | _ \<Rightarrow> width cfg),
          height := (case last_such is_resolution cmds of Some (ChangeResolution _ h) \<Rightarrow> h | _ \<Rightarrow> height cfg),
          fps := (case last_such (Not \<circ> is_resolution) cmds of Some (ChangeFps f) \<Rightarrow> f | _ \<Rightarrow> fps cfg)\<rparr>
      \<and> (new \<noteq> cfg \<longrightarrow> restart)"
proof (cases "fold check_one cmds (cfg, False)")
  case (Pair new restart)
  then show ?thesis
    using fst_fold_check [of cmds "(cfg, False)"] fold_check_kept [of cmds "(cfg, False)"]
    by (auto simp: check_video_ctrl_def fold_drain_spec [symmetric])
qed

theorem check_video_ctrl_spec_witness:
  "let (new, restart) = check_video_ctrl (Some [ChangeFps 5])
         \<lparr>source = ''screen'', width = 8, height = 8, fps = 30, bitrate_kbps = 1, hw_encode = False\<rparr>
   in fps new = 5 \<and> restart"
  using check_video_ctrl_spec [of "[ChangeFps 5]"
      "\<lparr>source = ''screen'', width = 8, height = 8, fps = 30, bitrate_kbps = 1, hw_encode = False\<rparr>"]
  by (simp add: check_video_ctrl_def)

section \<open>The capture loops stop for new settings\<close>

text \<open>An iteration that neither changes the settings nor ends the hardware loop.\<close>

definition hw_quiet :: "video_cfg \<Rightarrow> tick \<Rightarrow> bool" where
  "hw_quiet cfg t \<longleftrightarrow> check_video_ctrl (t_ctrl t) cfg = (cfg, False)
     \<and> (t_room t \<longrightarrow> (\<exists>buf. t_grab t = Frame buf) \<and> t_send t \<noteq> SendClosed)"

definition grabbed :: "tick \<Rightarrow> bytes list" where
  "grabbed t = (if t_room t \<and> t_send t = SendOk then (case t_grab t of Frame buf \<Rightarrow> [buf] | _ \<Rightarrow> []) else [])"

lemma hw_loop_quiet:
  "hw_quiet cfg t \<Longrightarrow> hw_loop cfg (t # ts) = (let (out, r) = hw_loop cfg ts in (grabbed t @ out, r))"
  by (auto simp: hw_quiet_def grabbed_def took_def try_send_frame_def Let_def
      split: send_result.splits prod.splits)

text \<open>The hardware capture loop forwards the frames it grabs, in order, dropping one only when
  the channel is full, and the first command that changes the settings ends it with the
  restart message for exactly those settings.\<close>

theorem hw_loop_until_restart:
  assumes "\<forall>t \<in> set quiet. hw_quiet cfg t" and "check_video_ctrl (t_ctrl t) cfg = (new, True)"
  shows "hw_loop cfg (quiet @ t # ts) = (concat (map grabbed quiet), Done (Inl (restart_msg new)))"
  using assms(1)
proof (induction quiet)
  case Nil
  then show ?case using assms(2) by (simp add: Let_def)
next
  case (Cons q quiet)
  then show ?case by (simp add: hw_loop_quiet del: hw_loop.simps)
qed

definition calm :: tick where
  "calm = \<lparr>t_ctrl = None, t_room = True, t_grab = Frame [1], t_key = False, t_encode = (\<lambda>_. Some), t_send = SendOk\<rparr>"

definition cfg30 :: video_cfg where
  "cfg30 = \<lparr>source = ''screen'', width = 8, height = 8, fps = 30, bitrate_kbps = 1, hw_encode = False\<rparr>"

theorem hw_loop_until_restart_witness:
  "hw_loop cfg30 ([calm, calm] @ calm\<lparr>t_ctrl := Some [ChangeFps 5]\<rparr> # [])
   = (concat (map grabbed [calm, calm]), Done (Inl (restart_msg (cfg30\<lparr>fps := 5\<rparr>))))"
  by (rule hw_loop_until_restart)
    (simp_all add: hw_quiet_def calm_def cfg30_def check_video_ctrl_def)

section \<open>Restarts that are lost, and one that crashes\<close>

definition loop_result :: "bytes list \<times> loop_end \<Rightarrow> string + unit" where
  "loop_result x = (case snd x of Done r \<Rightarrow> r | _ \<Rightarrow> Inr ())"

text \<open>On a V4L2 device without MJPEG, a command that changes the settings while the YUYV
  capture runs does not restart it: the restart request is taken for a YUYV failure, the
  MJPEG path is tried with the old settings, and its error ends the video module.\<close>

theorem yuyv_restart_is_lost:
  assumes "source cfg \<noteq> ''screen''" "r_open e = Inr ()" "\<not> (hw_encode cfg \<and> is_ok (r_hw e cfg))"
    and "r_sw e = (\<lambda>c. loop_result (run_sw_h264 dev c (t # ts)))" and "d_start dev = Inr ()"
    and "d_set_format dev ''YUYV'' = Inr (''YUYV'', w, h)"
    and "check_video_ctrl (t_ctrl t) cfg = (new, True)"
    and "r_mjpeg e cfg = Inl ''device does not support MJPEG format''"
  shows "run_with_ctrl (e # es) cfg = (cfg, Some (Inl ''device does not support MJPEG format''))"
proof -
  have "r_sw e cfg = Inl (restart_msg new)"
    using assms(4-7) by (simp add: run_sw_h264_def negotiate_def loop_result_def Let_def)
  then have "capture_round e cfg = Inl ''device does not support MJPEG format''"
    using assms(1-3,8) by (auto simp: capture_round_def)
  moreover have "cut restart_tag ''device does not support MJPEG format'' = None"
    by (rule cut_absent [of "CHR '':''"]) (simp_all add: restart_tag_def)
  then have "\<not> contains ''device does not support MJPEG format'' restart_tag"
    by (simp only: contains_def) simp
  ultimately show ?thesis by simp
qed

definition yuyv_only :: v4l_dev where
  "yuyv_only = \<lparr>d_set_format = (\<lambda>f. Inr (''YUYV'', 2, 2)), d_start = Inr ()\<rparr>"

definition yuyv_device :: round where
  "yuyv_device = \<lparr>r_open = Inr (), r_hw = (\<lambda>_. Inl ''no H264''),
     r_sw = (\<lambda>c. loop_result (run_sw_h264 yuyv_only c (calm\<lparr>t_ctrl := Some [ChangeFps 5]\<rparr> # []))),
     r_mjpeg = (\<lambda>_. Inl ''device does not support MJPEG format''),
     r_screen = (\<lambda>_. Inr ()), r_drain = []\<rparr>"

theorem yuyv_restart_is_lost_witness:
  "run_with_ctrl [yuyv_device] (cfg30\<lparr>source := ''v4l2''\<rparr>)
   = (cfg30\<lparr>source := ''v4l2''\<rparr>, Some (Inl ''device does not support MJPEG format''))"
  by (rule yuyv_restart_is_lost [where dev = yuyv_only and w = 2 and h = 2 and t = "calm\<lparr>t_ctrl := Some [ChangeFps 5]\<rparr>"
        and ts = "[]" and new = "cfg30\<lparr>source := ''v4l2'', fps := 5\<rparr>"])
    (simp_all add: yuyv_device_def yuyv_only_def cfg30_def calm_def check_video_ctrl_def)

text \<open>A single control frame that asks for zero frames per second stops the screen capture
  with a restart request, and the restarted capture panics on the division by the rate.\<close>

theorem zero_fps_frame_panics_screen_capture:
  assumes "8 \<le> length f" "f ! 0 = TYPE_CONTROL" "f ! 1 = 0x02" "f ! 2 = 0"
    and "fps cfg \<noteq> 0" and "t_ctrl t = Some (commands [f])"
  shows "\<exists>msg. run_screen_capture dw dh cfg (t # ts) = ([], Done (Inl msg))
    \<and> contains msg restart_tag
    \<and> run_screen_capture dw dh (apply_restart msg cfg) ts' = ([], Panicked)"
proof (rule exI [of _ "restart_msg (cfg\<lparr>fps := 0\<rparr>)"], intro conjI)
  have "commands [f] = [ChangeFps 0]"
    using assms(1-4) by (simp add: commands_def is_frame_def control_cmd_def map_filter_def)
  then show "run_screen_capture dw dh cfg (t # ts) = ([], Done (Inl (restart_msg (cfg\<lparr>fps := 0\<rparr>))))"
    using assms(5,6) by (simp add: run_screen_capture_def frame_interval_def check_video_ctrl_def Let_def)
  show "contains (restart_msg (cfg\<lparr>fps := 0\<rparr>)) restart_tag" by (rule contains_restart_msg)
  have "fps (apply_restart (restart_msg (cfg\<lparr>fps := 0\<rparr>)) cfg) = 0"
    by (simp add: apply_restart_msg)
  then show "run_screen_capture dw dh (apply_restart (restart_msg (cfg\<lparr>fps := 0\<rparr>)) cfg) ts' = ([], Panicked)"
    by (simp add: run_screen_capture_def frame_interval_def)
qed

theorem zero_fps_frame_panics_screen_capture_witness:
  "\<exists>msg. run_screen_capture 8 8 cfg30
        (calm\<lparr>t_ctrl := Some (commands [[0x10, 0x02, 0, 0, 0, 0, 0, 0]])\<rparr> # []) = ([], Done (Inl msg))
    \<and> contains msg restart_tag
    \<and> run_screen_capture 8 8 (apply_restart msg cfg30) [] = ([], Panicked)"
  by (rule zero_fps_frame_panics_screen_capture)
    (simp_all add: TYPE_CONTROL_def cfg30_def)

section \<open>Forced key frames\<close>

text \<open>A tick that grabs a frame the encoder does not see: the conversion reports an error.\<close>

definition undecodable :: "(bytes \<Rightarrow> (video_error + bytes) option) \<Rightarrow> video_cfg \<Rightarrow> tick \<Rightarrow> bool" where
  "undecodable convert cfg t \<longleftrightarrow> check_video_ctrl (t_ctrl t) cfg = (cfg, False) \<and>
     (\<not> t_room t \<or> (\<exists>buf e. t_grab t = Frame buf \<and> convert buf = Some (Inl e)))"

lemma sw_loop_undecodable:
  "\<forall>t \<in> set ts. undecodable convert cfg t \<Longrightarrow>
     sw_loop convert force cfg (ts @ rest) = sw_loop convert (force \<or> (\<exists>t \<in> set ts. t_room t \<and> t_key t)) cfg rest"
proof (induction ts arbitrary: force)
  case (Cons t ts)
  then show ?case by (auto simp: undecodable_def Let_def disj_assoc)
qed simp

text \<open>A key frame request survives frames that cannot be decoded: whichever iteration took the
  request out of the shared flag, the next picture that reaches the encoder is encoded as an IDR
  frame, and the picture after it no longer is forced.\<close>

theorem keyframe_request_reaches_encoder:
  assumes "\<forall>s \<in> set ts. undecodable convert cfg s" and "\<exists>s \<in> set ts. t_room s \<and> t_key s"
    and "check_video_ctrl (t_ctrl t) cfg = (cfg, False)" "t_room t" "t_grab t = Frame buf"
    and "convert buf = Some (Inr yuv)" "t_encode t True yuv = Some encoded" "encoded \<noteq> []" "t_send t = SendOk"
  shows "sw_loop convert False cfg (ts @ t # rest) =
    (let (out, r) = sw_loop convert False cfg rest in (encoded # out, r))"
  unfolding sw_loop_undecodable [OF assms(1)] using assms(2-9)
  by (auto simp: Let_def took_def try_send_frame_def split: prod.splits)

lemma keyframe_request_reaches_encoder_witness:
  "sw_loop (\<lambda>b. if b = [] then Some (Inl JpegDecodeFailed) else Some (Inr b)) False cfg30
     ([calm\<lparr>t_grab := Frame [], t_key := True\<rparr>] @ calm\<lparr>t_encode := (\<lambda>f y. Some (if f then [0x65] else [0x41]))\<rparr> # [])
   = ([[0x65]], Running)"
proof -
  let ?convert = "\<lambda>b :: bytes. if b = [] then Some (Inl JpegDecodeFailed) else Some (Inr b)"
  let ?ts = "[calm\<lparr>t_grab := Frame [], t_key := True\<rparr>]"
  let ?t = "calm\<lparr>t_encode := (\<lambda>f y. Some (if f then [0x65 :: u8] else [0x41]))\<rparr>"
  have "\<forall>s \<in> set ?ts. undecodable ?convert cfg30 s" "\<exists>s \<in> set ?ts. t_room s \<and> t_key s"
    "check_video_ctrl (t_ctrl ?t) cfg30 = (cfg30, False)" "t_room ?t" "t_grab ?t = Frame [1]"
    "?convert [1] = Some (Inr [1])" "t_encode ?t True [1] = Some [0x65]" "[0x65 :: u8] \<noteq> []" "t_send ?t = SendOk"
    by (simp_all add: undecodable_def calm_def check_video_ctrl_def)
  from keyframe_request_reaches_encoder [OF this, of "[]"] show ?thesis by simp
qed

end
