(* ===== verification/Audio.thy ===== *)
theory Audio imports Prelude begin

text \<open>
  \<open>agent/src/audio.rs\<close>: the capture loop, from the PCM device to the frame channel. What ALSA
  delivers, the Opus encoder and whether the channel is open are arguments.
\<close>

section \<open>Configuration and loop\<close>

type_synonym i16 = "16 word"

record audio_cfg =
  device :: string
  sample_rate :: u32
  channels :: u32
  a_bitrate_kbps :: u32
  enabled :: bool

definition FRAME_SAMPLES :: nat where "FRAME_SAMPLES = 960"

text \<open>\<open>set_bitrate\<close> gets \<open>(bitrate_kbps * 1000) as i32\<close>, which wraps.\<close>

definition opus_bitrate :: "audio_cfg \<Rightarrow> int" where
  "opus_bitrate cfg = sint (a_bitrate_kbps cfg * 1000)"

text \<open>One iteration: an ALSA error (recovered, counts as 0 frames) or the samples read, and
  whether the receiver still takes frames.\<close>

datatype pcm_read = AlsaError | Samples "i16 list"

text \<open>\<open>readi\<close> overwrites the front of the buffer.\<close>

definition readi :: "i16 list \<Rightarrow> pcm_read \<Rightarrow> nat \<Rightarrow> i16 list \<times> nat" where
  "readi pcm_buf r ch =
     (case r of AlsaError \<Rightarrow> (pcm_buf, 0) | Samples xs \<Rightarrow> (xs @ drop (length xs) pcm_buf, length xs div ch))"

datatype audio_end = Listening | EncodeError | ReceiverGone

fun audio_loop ::
  "(i16 list \<Rightarrow> bytes option) \<Rightarrow> nat \<Rightarrow> i16 list \<Rightarrow> (pcm_read \<times> bool) list \<Rightarrow> bytes list \<times> audio_end" where
  "audio_loop encode ch pcm_buf [] = ([], Listening)"
| "audio_loop encode ch pcm_buf ((r, ok) # rs) =
     (let (pcm_buf, read) = readi pcm_buf r ch in
      if read = 0 then audio_loop encode ch pcm_buf rs
      else let filled = read * ch;
               pcm_buf = (if filled < length pcm_buf
                          then take filled pcm_buf @ replicate (length pcm_buf - filled) 0 else pcm_buf)
           in case encode (take (read * ch) pcm_buf) of
                None \<Rightarrow> ([], EncodeError)
              | Some frame \<Rightarrow>
                  if ok then (let (out, e) = audio_loop encode ch pcm_buf rs in (frame # out, e))
                  else ([], ReceiverGone))"

definition run_audio :: "(i16 list \<Rightarrow> bytes option) \<Rightarrow> audio_cfg \<Rightarrow> (pcm_read \<times> bool) list \<Rightarrow> bytes list \<times> audio_end" where
  "run_audio encode cfg =
     audio_loop encode (unat (channels cfg)) (replicate (FRAME_SAMPLES * unat (channels cfg)) 0)"

section \<open>The encoder sees what was read\<close>

text \<open>A read ALSA can deliver: whole frames, at most a buffer of them.\<close>

definition legal_read :: "nat \<Rightarrow> pcm_read \<times> bool \<Rightarrow> bool" where
  "legal_read ch r = (case fst r of AlsaError \<Rightarrow> True
     | Samples xs \<Rightarrow> ch dvd length xs \<and> length xs \<le> FRAME_SAMPLES * ch)"

fun encoded_reads ::
  "(i16 list \<Rightarrow> bytes option) \<Rightarrow> (pcm_read \<times> bool) list \<Rightarrow> bytes list \<times> audio_end" where
  "encoded_reads encode [] = ([], Listening)"
| "encoded_reads encode ((AlsaError, ok) # rs) = encoded_reads encode rs"
| "encoded_reads encode ((Samples xs, ok) # rs) =
     (if xs = [] then encoded_reads encode rs
      else case encode xs of
             None \<Rightarrow> ([], EncodeError)
           | Some frame \<Rightarrow>
               if ok then (let (out, e) = encoded_reads encode rs in (frame # out, e)) else ([], ReceiverGone))"

lemma audio_loop_reads:
  "0 < ch \<Longrightarrow> list_all (legal_read ch) rs \<Longrightarrow> length pcm = FRAME_SAMPLES * ch \<Longrightarrow>
     audio_loop encode ch pcm rs = encoded_reads encode rs"
proof (induction rs arbitrary: pcm)
  case (Cons r rs)
  obtain p ok where r: "r = (p, ok)" by fastforce
  show ?case
  proof (cases p)
    case AlsaError
    with Cons r show ?thesis by (simp add: readi_def)
  next
    case (Samples xs)
    with Cons.prems r have xs: "length xs div ch * ch = length xs" "length xs \<le> FRAME_SAMPLES * ch"
      by (auto simp: legal_read_def)
    have zero: "length xs div ch = 0 \<longleftrightarrow> xs = []"
    proof
      assume "length xs div ch = 0"
      with xs(1) show "xs = []" by simp
    qed simp
    have IH: "length pcm' = FRAME_SAMPLES * ch \<Longrightarrow> audio_loop encode ch pcm' rs = encoded_reads encode rs" for pcm'
      using Cons by simp
    show ?thesis
      using xs Cons.prems(3) by (simp add: r Samples readi_def zero IH Let_def split: option.splits)
  qed
qed simp

text \<open>Each Opus packet is the encoding of exactly the samples of one read, never of samples left
  over from an earlier one, and reads that fail produce nothing.\<close>

theorem audio_frames_are_reads:
  assumes "0 < channels cfg" and "list_all (legal_read (unat (channels cfg))) rs"
  shows "run_audio encode cfg rs = encoded_reads encode rs"
  unfolding run_audio_def using assms by (intro audio_loop_reads) (simp_all add: word_less_nat_alt)

definition mono_cfg :: audio_cfg where
  "mono_cfg = \<lparr>device = ''hw:0'', sample_rate = 48000, channels = 1, a_bitrate_kbps = 64, enabled = True\<rparr>"

lemma audio_frames_are_reads_witness:
  "run_audio (\<lambda>xs. Some [of_nat (length xs)]) mono_cfg [(AlsaError, True), (Samples [1, 2, 3], True)] = ([[3]], Listening)"
proof -
  have "0 < channels mono_cfg"
    "list_all (legal_read (unat (channels mono_cfg))) [(AlsaError, True), (Samples [1, 2, 3], True)]"
    by (simp_all add: mono_cfg_def legal_read_def FRAME_SAMPLES_def)
  from audio_frames_are_reads [OF this, of "\<lambda>xs. Some [of_nat (length xs)]"] show ?thesis by simp
qed

text \<open>A short read ends the audio module: the encoder is given only the samples read, not the
  zero-filled frame, and an encoder that takes only Opus frame sizes refuses them.\<close>

theorem short_read_ends_audio:
  assumes "\<forall>xs. encode xs \<noteq> None \<longrightarrow> length xs div unat (channels cfg) \<in> {120, 240, 480, 960, 1920, 2880}"
    and "0 < channels cfg" and "list_all (legal_read (unat (channels cfg))) ((Samples xs, ok) # rs)"
    and "xs \<noteq> []" and "length xs div unat (channels cfg) \<notin> {120, 240, 480, 960, 1920, 2880}"
  shows "run_audio encode cfg ((Samples xs, ok) # rs) = ([], EncodeError)"
proof -
  have "encode xs = None" using assms(1,5) by blast
  then show ?thesis
    unfolding run_audio_def using assms(2-4)
    by (subst audio_loop_reads) (simp_all add: word_less_nat_alt)
qed

lemma short_read_ends_audio_witness:
  "run_audio (\<lambda>xs. if length xs = 960 then Some [1] else None) mono_cfg [(Samples [1, 2, 3], True)] = ([], EncodeError)"
  by (rule short_read_ends_audio) (simp_all add: mono_cfg_def legal_read_def FRAME_SAMPLES_def)

end
