(* ===== verification/Backoff.thy ===== *)
theory Backoff imports Prelude begin

text \<open>
  Delays between retries. Both reconnecting loops of the agent (\<open>signal_client.rs\<close> and
  \<open>main.rs\<close>) start from an initial delay and let it grow up to a cap; the contract they share
  is a locale. Durations are in nanoseconds, as \<open>std::time::Duration\<close> counts them.
\<close>

definition second :: nat where
  "second = 1000000000"

locale backoff =
  fixes grow :: "nat \<Rightarrow> nat" and first_delay :: nat and cap :: nat
  assumes first_le_cap: "first_delay \<le> cap"
    and grow_le_cap: "grow d \<le> cap"
    and grow_increases: "first_delay \<le> d \<Longrightarrow> d < cap \<Longrightarrow> d < grow d"
    and grow_at_cap: "grow cap = cap"
begin

definition delay :: "nat \<Rightarrow> nat" where
  "delay n = (grow ^^ n) first_delay"

lemma delay_0 [simp]: "delay 0 = first_delay"
  by (simp add: delay_def)

lemma delay_Suc: "delay (Suc n) = grow (delay n)"
  by (simp add: delay_def)

lemma grow_keeps_range: "first_delay \<le> d \<Longrightarrow> d \<le> cap \<Longrightarrow> first_delay \<le> grow d \<and> grow d \<le> cap"
  using grow_increases [of d] grow_at_cap grow_le_cap [of d] by (cases "d = cap") auto

lemma delay_range: "first_delay \<le> delay n \<and> delay n \<le> cap"
  by (induction n) (use first_le_cap grow_keeps_range in \<open>auto simp: delay_Suc\<close>)

lemma delay_mono_step: "delay n \<le> delay (Suc n)"
  using delay_range [of n] grow_increases [of "delay n"] grow_at_cap
  by (cases "delay n = cap") (auto simp: delay_Suc)

lemma delay_mono: "m \<le> n \<Longrightarrow> delay m \<le> delay n"
  by (rule lift_Suc_mono_le [of delay]) (rule delay_mono_step)

lemma delay_stays: "delay n = cap \<Longrightarrow> n \<le> m \<Longrightarrow> delay m = cap"
  using delay_mono [of n m] delay_range [of m] by simp

lemma delay_reaches_cap: "\<exists>n. delay n = cap"
proof -
  have "delay n = cap \<or> first_delay + n \<le> delay n" for n
  proof (induction n)
    case (Suc n)
    then show ?case
      using delay_stays [of n "Suc n"] delay_range [of n] grow_increases [of "delay n"]
      by (cases "delay n = cap") (auto simp: delay_Suc)
  qed simp
  from this [of "Suc cap"] show ?thesis using delay_range [of "Suc cap"] by auto
qed

end

end
