(* ===== verification/Signal.thy ===== *)
theory Signal imports Text Backoff begin

text \<open>
  The signalling client of \<open>agent/src/signal_client.rs\<close>: one WebSocket session, the messages it
  forwards, and the loop that connects again. What the socket and the local candidate channel
  deliver is an input; what the client sends and forwards is recorded as a list of effects. The
  JSON parser (serde_json) and the URL encoding are arguments.
\<close>

section \<open>Messages\<close>

datatype json = JNull | JBool bool | JNum int | JStr string | JArr "json list"
  | JObj "(string \<times> json) list"

record signal_msg =
  msg_type :: string
  payload :: json

fun json_get :: "string \<Rightarrow> json \<Rightarrow> json option" where
  "json_get k (JObj kvs) = map_of kvs k"
| "json_get k _ = None"

fun as_str :: "json \<Rightarrow> string option" where
  "as_str (JStr s) = Some s"
| "as_str _ = None"

definition str_field :: "string \<Rightarrow> json \<Rightarrow> string option" where
  "str_field k v = Option.bind (json_get k v) as_str"

datatype ws_message = WsText json | WsPong bytes

datatype effect = Answer string | RemoteCand string | WsSend ws_message

definition handle_incoming :: "(string \<Rightarrow> signal_msg option) \<Rightarrow> string \<Rightarrow> effect list" where
  "handle_incoming from_str raw =
     (case from_str raw of
        None \<Rightarrow> []
      | Some msg \<Rightarrow>
          if msg_type msg = ''answer'' then
            (case str_field ''sdp'' (payload msg) of Some sdp \<Rightarrow> [Answer sdp] | None \<Rightarrow> [])
          else if msg_type msg = ''candidate'' then
            (case str_field ''candidate'' (payload msg) of Some c \<Rightarrow> [RemoteCand c] | None \<Rightarrow> [])
          else [])"

definition offer_msg :: "string \<Rightarrow> json" where
  "offer_msg offer_sdp = JObj [(''type'', JStr ''offer''),
     (''payload'', JObj [(''type'', JStr ''offer''), (''sdp'', JStr offer_sdp)])]"

definition candidate_msg :: "string \<Rightarrow> json" where
  "candidate_msg c = JObj [(''type'', JStr ''candidate''),
     (''payload'', JObj [(''candidate'', JStr c), (''sdpMid'', JStr ''0''), (''sdpMLineIndex'', JNum 0)])]"

section \<open>One session\<close>

text \<open>
  An input of the session loop: what the socket yields (\<open>StreamEnd\<close> is \<open>None\<close>), or a local
  candidate. The flag says whether a write at that point succeeds.
\<close>

datatype ws_in = StreamEnd | StreamErr string | Text string | Ping bytes | Close | OtherMsg
  | LocalCand string | LocalClosed

datatype session_end = Open | Ended | Failed string

fun session_loop ::
  "(string \<Rightarrow> signal_msg option) \<Rightarrow> (ws_in \<times> bool) list \<Rightarrow> effect list \<times> session_end" where
  "session_loop from_str [] = ([], Open)"
| "session_loop from_str ((StreamEnd, w) # ins) = ([], Ended)"
| "session_loop from_str ((StreamErr e, w) # ins) = ([], Failed e)"
| "session_loop from_str ((Text raw, w) # ins) =
     (let (out, r) = session_loop from_str ins in (handle_incoming from_str raw @ out, r))"
| "session_loop from_str ((Ping data, w) # ins) =
     (let (out, r) = session_loop from_str ins in ((if w then [WsSend (WsPong data)] else []) @ out, r))"
| "session_loop from_str ((Close, w) # ins) = ([], Ended)"
| "session_loop from_str ((OtherMsg, w) # ins) = session_loop from_str ins"
| "session_loop from_str ((LocalCand c, w) # ins) =
     (if w then (let (out, r) = session_loop from_str ins in (WsSend (WsText (candidate_msg c)) # out, r))
      else ([], Failed ''send candidate''))"
| "session_loop from_str ((LocalClosed, w) # ins) = session_loop from_str ins"

definition session ::
  "(string \<Rightarrow> signal_msg option) \<Rightarrow> string \<Rightarrow> bool \<Rightarrow> (ws_in \<times> bool) list \<Rightarrow> effect list \<times> session_end" where
  "session from_str offer_sdp offer_ok ins =
     (if offer_ok
      then (let (out, r) = session_loop from_str ins in (WsSend (WsText (offer_msg offer_sdp)) # out, r))
      else ([], Failed ''send offer''))"

section \<open>The reconnecting loop\<close>

definition signal_url :: "(string \<Rightarrow> string) \<Rightarrow> string \<Rightarrow> string \<Rightarrow> string" where
  "signal_url encode url room_id =
     url @ ''?room='' @ encode room_id @ ''&role=device&name='' @ encode room_id"

datatype attempt = Refused string | Opened bool "(ws_in \<times> bool) list"

datatype action = Connect string | Effect effect | Sleep nat

definition grow_signal :: "nat \<Rightarrow> nat" where
  "grow_signal d = min (d * 2) (60 * second)"

fun run_loop ::
  "(string \<Rightarrow> signal_msg option) \<Rightarrow> string \<Rightarrow> string \<Rightarrow> nat \<Rightarrow> attempt list \<Rightarrow> action list \<times> session_end" where
  "run_loop from_str url offer_sdp delay [] = ([], Open)"
| "run_loop from_str url offer_sdp delay (Refused e # as) =
     (let (acts, r) = run_loop from_str url offer_sdp (grow_signal delay) as
      in (Connect url # Sleep delay # acts, r))"
| "run_loop from_str url offer_sdp delay (Opened offer_ok ins # as) =
     (case session from_str offer_sdp offer_ok ins of
        (out, Ended) \<Rightarrow> (Connect url # map Effect out, Ended)
      | (out, Open) \<Rightarrow> (Connect url # map Effect out, Open)
      | (out, Failed e) \<Rightarrow>
          (let (acts, r) = run_loop from_str url offer_sdp (grow_signal second) as
           in (Connect url # map Effect out @ Sleep second # acts, r)))"

text \<open>\<open>run\<close>: the offer is awaited first; a closed offer channel is an error.\<close>

definition run_signal ::
  "(string \<Rightarrow> signal_msg option) \<Rightarrow> (string \<Rightarrow> string) \<Rightarrow> string \<Rightarrow> string \<Rightarrow> string option \<Rightarrow> attempt list
     \<Rightarrow> action list \<times> session_end" where
  "run_signal from_str encode url room_id offer as =
     (case offer of
        None \<Rightarrow> ([], Failed ''webrtc offer channel closed'')
      | Some offer_sdp \<Rightarrow> run_loop from_str (signal_url encode url room_id) offer_sdp second as)"

section \<open>A session answers each input until the one that ends it\<close>

fun ends_session :: "ws_in \<times> bool \<Rightarrow> bool" where
  "ends_session (StreamEnd, w) = True"
| "ends_session (Close, w) = True"
| "ends_session (StreamErr e, w) = True"
| "ends_session (LocalCand c, w) = (\<not> w)"
| "ends_session _ = False"

fun input_effects :: "(string \<Rightarrow> signal_msg option) \<Rightarrow> ws_in \<times> bool \<Rightarrow> effect list" where
  "input_effects from_str (Text raw, w) = handle_incoming from_str raw"
| "input_effects from_str (Ping data, True) = [WsSend (WsPong data)]"
| "input_effects from_str (LocalCand c, w) = [WsSend (WsText (candidate_msg c))]"
| "input_effects _ _ = []"

fun end_of :: "(ws_in \<times> bool) list \<Rightarrow> session_end" where
  "end_of [] = Open"
| "end_of ((StreamErr e, w) # _) = Failed e"
| "end_of ((LocalCand c, w) # _) = Failed ''send candidate''"
| "end_of _ = Ended"

lemma session_loop_effects:
  "session_loop from_str ins =
    (concat (map (input_effects from_str) (takeWhile (\<lambda>i. \<not> ends_session i) ins)),
     end_of (dropWhile (\<lambda>i. \<not> ends_session i) ins))"
proof (induction ins)
  case (Cons i ins)
  obtain x w where "i = (x, w)" by fastforce
  then show ?case by (cases x; cases w) (simp_all add: Cons.IH)
qed simp

text \<open>A signalling session whose offer could be written sends the offer first, then answers
  each input on its own: answers and candidates are forwarded in the order they came, a ping is
  answered with its data, and local candidates are sent, up to the first input that ends the
  session. How the session ends depends on that input only.\<close>

theorem session_answers_inputs:
  "session from_str offer_sdp True ins =
    (WsSend (WsText (offer_msg offer_sdp)) #
       concat (map (input_effects from_str) (takeWhile (\<lambda>i. \<not> ends_session i) ins)),
     end_of (dropWhile (\<lambda>i. \<not> ends_session i) ins))"
  by (simp add: session_def session_loop_effects)

section \<open>The delays between attempts\<close>

interpretation signal: backoff grow_signal second "60 * second"
  by unfold_locales (auto simp: grow_signal_def second_def)

lemma signal_delay: "signal.delay n = min (2 ^ n * second) (60 * second)"
proof (induction n)
  case (Suc n)
  have "grow_signal (min (2 ^ n * second) (60 * second)) = min (2 ^ Suc n * second) (60 * second)"
    by (simp add: grow_signal_def second_def min_def)
  then show ?case by (simp only: signal.delay_Suc Suc)
qed (simp only: signal.delay_0, simp add: second_def)

fun refused :: "attempt \<Rightarrow> bool" where
  "refused (Refused e) = True"
| "refused (Opened ok ins) = False"

definition sleeps :: "action list \<Rightarrow> nat list" where
  "sleeps acts = concat (map (\<lambda>a. case a of Sleep d \<Rightarrow> [d] | _ \<Rightarrow> []) acts)"

lemma sleeps_simps [simp]:
  "sleeps [] = []" "sleeps (Sleep d # acts) = d # sleeps acts" "sleeps (Connect u # acts) = sleeps acts"
  "sleeps (Effect x # acts) = sleeps acts" "sleeps (map Effect out) = []" "sleeps (acts @ acts') = sleeps acts @ sleeps acts'"
  by (simp_all add: sleeps_def o_def)

definition failures :: "attempt list \<Rightarrow> nat" where
  "failures as = length (takeWhile refused (rev as))"

lemma sleeps_of_run:
  assumes "i < length (sleeps (fst (run_loop from_str url offer_sdp (signal.delay n) as)))"
  shows "i < length as \<and> sleeps (fst (run_loop from_str url offer_sdp (signal.delay n) as)) ! i =
    signal.delay (if list_all refused (take (Suc i) as) then n + i else failures (take (Suc i) as))"
  using assms
proof (induction as arbitrary: n i)
  case (Cons a as)
  show ?case
  proof (cases a)
    case (Refused e)
    show ?thesis
    proof (cases i)
      case 0
      with Refused show ?thesis by (simp add: case_prod_beta)
    next
      case (Suc j)
      have "j < length (sleeps (fst (run_loop from_str url offer_sdp (signal.delay (Suc n)) as)))"
        using Cons.prems Refused Suc by (simp add: case_prod_beta signal.delay_Suc)
      from Cons.IH [OF this] show ?thesis
        by (auto simp: Refused Suc case_prod_beta signal.delay_Suc [symmetric] failures_def
            takeWhile_append list_all_iff)
    qed
  next
    case (Opened ok ins)
    obtain out r where s: "session from_str offer_sdp ok ins = (out, r)" by fastforce
    with Cons.prems Opened obtain e where r: "r = Failed e"
      by (cases r) simp_all
    show ?thesis
    proof (cases i)
      case 0
      with Opened s r show ?thesis using signal.delay_0 by (simp add: case_prod_beta failures_def)
    next
      case (Suc j)
      have d1: "grow_signal second = signal.delay (Suc 0)"
        by (simp add: signal.delay_Suc)
      have "j < length (sleeps (fst (run_loop from_str url offer_sdp (signal.delay (Suc 0)) as)))"
        using Cons.prems Opened s r Suc d1 by (simp add: case_prod_beta)
      from Cons.IH [OF this] show ?thesis
        by (auto simp: Opened s r Suc d1 case_prod_beta failures_def takeWhile_append list_all_iff)
    qed
  qed
qed simp

text \<open>The delay after an attempt doubles from one second up to a minute: after the i-th
  attempt the client sleeps \<open>min 60 (2 ^ k)\<close> seconds, where k is the number of connections
  refused in a row since the last one that was opened (or, before any was, the number of earlier
  attempts).\<close>

theorem signal_delays:
  assumes "i < length (sleeps (fst (run_signal from_str encode url room (Some offer_sdp) as)))"
  shows "sleeps (fst (run_signal from_str encode url room (Some offer_sdp) as)) ! i =
    min (2 ^ (if list_all refused (take (Suc i) as) then i else failures (take (Suc i) as)) * second)
      (60 * second)"
  using sleeps_of_run [of i from_str "signal_url encode url room" offer_sdp 0 as] assms
  by (simp add: run_signal_def signal_delay)

lemma signal_delays_witness:
  "sleeps (fst (run_signal (\<lambda>s. None) (\<lambda>s. s) ''ws://h'' ''r'' (Some ''v=0'')
     [Refused ''a'', Refused ''b'', Opened True [(StreamErr ''c'', True)], Refused ''d''])) ! 3 = 2 * second"
proof -
  have "3 < length (sleeps (fst (run_signal (\<lambda>s. None) (\<lambda>s. s) ''ws://h'' ''r'' (Some ''v=0'')
     [Refused ''a'', Refused ''b'', Opened True [(StreamErr ''c'', True)], Refused ''d''])))"
    by (simp add: run_signal_def session_def case_prod_beta)
  from signal_delays [OF this] show ?thesis by (simp add: failures_def second_def)
qed

section \<open>When the client gives up\<close>

definition attempt_fails :: "(string \<Rightarrow> signal_msg option) \<Rightarrow> string \<Rightarrow> attempt \<Rightarrow> bool" where
  "attempt_fails from_str offer_sdp a =
     (case a of Refused e \<Rightarrow> True
      | Opened ok ins \<Rightarrow> (case snd (session from_str offer_sdp ok ins) of Failed e \<Rightarrow> True | _ \<Rightarrow> False))"

text \<open>After any number of failed attempts the client still tries again, with the same offer.
  But a server that closes the connection, or a stream that just ends, is not a failure: the
  client returns and makes no further attempt, whatever connections would have been possible.\<close>

theorem signal_stops_on_server_close:
  assumes "\<forall>a \<in> set as. attempt_fails from_str offer_sdp a"
    and "x = StreamEnd \<or> x = Close" and "list_all (\<lambda>i. \<not> ends_session i) ins"
  shows "run_loop from_str url offer_sdp d (as @ Opened True (ins @ [(x, w)]) # bs)
      = run_loop from_str url offer_sdp d (as @ [Opened True (ins @ [(x, w)])])
    \<and> snd (run_loop from_str url offer_sdp d (as @ Opened True (ins @ [(x, w)]) # bs)) = Ended"
  using assms(1)
proof (induction as arbitrary: d)
  case Nil
  have "snd (session from_str offer_sdp True (ins @ [(x, w)])) = Ended"
    using assms(2,3) by (auto simp: session_def session_loop_effects list_all_iff)
  then show ?case by (auto split: prod.splits session_end.splits)
next
  case (Cons a as)
  have "\<forall>a \<in> set as. attempt_fails from_str offer_sdp a" using Cons.prems by simp
  note both = Cons.IH [OF this]
  have IH: "run_loop from_str url offer_sdp d' (as @ Opened True (ins @ [(x, w)]) # bs)
      = run_loop from_str url offer_sdp d' (as @ [Opened True (ins @ [(x, w)])])"
    and ends: "snd (run_loop from_str url offer_sdp d' (as @ [Opened True (ins @ [(x, w)])])) = Ended" for d'
    using both [of d'] by (blast, metis both)
  show ?case
  proof (cases a)
    case (Refused e)
    with IH [of "grow_signal d"] ends [of "grow_signal d"] show ?thesis by (simp add: case_prod_beta)
  next
    case (Opened ok js)
    with Cons.prems obtain out e where "session from_str offer_sdp ok js = (out, Failed e)"
      by (cases "session from_str offer_sdp ok js")
        (auto simp: attempt_fails_def split: session_end.splits)
    with Opened IH [of "grow_signal second"] ends [of "grow_signal second"] show ?thesis by (simp add: case_prod_beta)
  qed
qed

lemma signal_stops_on_server_close_witness:
  "snd (run_loop (\<lambda>s. None) ''ws://h'' ''v=0'' second
     ([Refused ''x''] @ Opened True ([(Ping [1], True)] @ [(Close, True)]) # [Opened True []])) = Ended"
proof -
  have "\<forall>a \<in> set [Refused ''x'']. attempt_fails (\<lambda>s. None) ''v=0'' a"
    "Close = StreamEnd \<or> Close = Close" "list_all (\<lambda>i. \<not> ends_session i) [(Ping [1], True)]"
    by (simp_all add: attempt_fails_def)
  from signal_stops_on_server_close [OF this] show ?thesis by blast
qed

end
