(* ===== verification/Supervisor.thy ===== *)
theory Supervisor imports Backoff "HOL-Library.Multiset" begin

text \<open>
  \<open>agent/src/main.rs\<close>: the bridge tasks that carry encoded frames from a capture module to the
  current session, and the loop that starts a WebRTC and a signalling task per round and waits
  between rounds. The scheduler's choices are the list of events a task sees.
\<close>

section \<open>A bridge task\<close>

text \<open>
  Where the task is: at the head of its loop, or in \<open>recv().await\<close>. \<open>sent\<close> is what it put on the
  broadcast channel.
\<close>

datatype bridge_pc = Head | Receiving | Stopped

record 'f bridge =
  queue :: "'f list"
  closed :: bool
  peer :: bool
  was_idle :: bool
  pc :: bridge_pc
  sent :: "'f list"

text \<open>
  The events: the capture module offers a frame (the channel holds \<open>cap\<close> frames; a full one
  takes no more, so the module drops the frame or waits), it ends, the session sets
  \<open>peer_connected\<close>, or the bridge is scheduled.
\<close>

datatype 'f bridge_event = Produce 'f | CloseSender | SetPeer bool | Sched

fun bridge_turn :: "'f bridge \<Rightarrow> 'f bridge" where
  "bridge_turn b = (case pc b of
     Head \<Rightarrow>
       if \<not> peer b then b\<lparr>was_idle := True\<rparr>
       else if was_idle b then b\<lparr>was_idle := False, queue := [], pc := Receiving\<rparr>
       else b\<lparr>pc := Receiving\<rparr>
   | Receiving \<Rightarrow>
       (case queue b of
          frame # rest \<Rightarrow> b\<lparr>queue := rest, sent := sent b @ [frame], pc := Head\<rparr>
        | [] \<Rightarrow> if closed b then b\<lparr>pc := Stopped\<rparr> else b)
   | Stopped \<Rightarrow> b)"

fun bridge_step :: "nat \<Rightarrow> 'f bridge \<Rightarrow> 'f bridge_event \<Rightarrow> 'f bridge" where
  "bridge_step cap b (Produce f) =
     (if closed b \<or> pc b = Stopped \<or> cap \<le> length (queue b) then b else b\<lparr>queue := queue b @ [f]\<rparr>)"
| "bridge_step cap b CloseSender = b\<lparr>closed := True\<rparr>"
| "bridge_step cap b (SetPeer p) = b\<lparr>peer := p\<rparr>"
| "bridge_step cap b Sched = bridge_turn b"

definition run_bridge :: "nat \<Rightarrow> 'f bridge \<Rightarrow> 'f bridge_event list \<Rightarrow> 'f bridge" where
  "run_bridge cap = foldl (bridge_step cap)"

definition bridge_start :: "'f bridge" where
  "bridge_start = \<lparr>queue = [], closed = False, peer = False, was_idle = True, pc = Head, sent = []\<rparr>"

section \<open>The supervising loop\<close>

datatype module_kind = WebRtc | SignalClient

datatype round_end = EndedBy module_kind | CtrlC

datatype sup_action = Start module_kind | Finished module_kind | Abort module_kind | ClearPeer | Wait nat | Return

definition grow_reconnect :: "nat \<Rightarrow> nat" where
  "grow_reconnect d = min (d * 3 div 2) (30 * second)"

fun other :: "module_kind \<Rightarrow> module_kind" where
  "other WebRtc = SignalClient"
| "other SignalClient = WebRtc"

definition next_delay :: "nat \<Rightarrow> nat \<Rightarrow> nat" where
  "next_delay delay elapsed =
     (if 10 * second < elapsed then 3 * second else grow_reconnect delay)"

text \<open>A round: how it ends and how long it lasted; \<open>Finished\<close> marks the task that ended it. The list ends where the program is observed.\<close>

fun supervise :: "nat \<Rightarrow> (round_end \<times> nat) list \<Rightarrow> sup_action list" where
  "supervise delay [] = []"
| "supervise delay ((CtrlC, elapsed) # rs) =
     [Start WebRtc, Start SignalClient, Abort WebRtc, Abort SignalClient, Return]"
| "supervise delay ((EndedBy m, elapsed) # rs) =
     [Start WebRtc, Start SignalClient, Finished m, Abort (other m), ClearPeer, Wait (next_delay delay elapsed)]
       @ supervise (next_delay delay elapsed) rs"

definition main_loop :: "(round_end \<times> nat) list \<Rightarrow> sup_action list" where
  "main_loop = supervise (3 * second)"

section \<open>What crosses the bridge\<close>

lemma bridge_bounded_step: "length (queue b) \<le> cap \<Longrightarrow> length (queue (bridge_step cap b e)) \<le> cap"
  by (cases e) (auto split: bridge_pc.splits list.splits)

interpretation bridge: stepper "bridge_step cap" "\<lambda>b. length (queue b) \<le> cap" for cap
  by unfold_locales (rule bridge_bounded_step)

lemma bridge_bounded: "length (queue (run_bridge cap bridge_start es)) \<le> cap"
  unfolding run_bridge_def by (rule bridge.run_good) (simp add: bridge_start_def)

lemma run_bridge_simps [simp]:
  "run_bridge cap b [] = b" "run_bridge cap b (e # es) = run_bridge cap (bridge_step cap b e) es"
  "run_bridge cap b (es @ es') = run_bridge cap (run_bridge cap b es) es'"
  by (simp_all add: run_bridge_def)












section \<open>Rounds\<close>

interpretation reconnect: backoff grow_reconnect "3 * second" "30 * second"
  by unfold_locales (auto simp: grow_reconnect_def second_def)

definition waits :: "sup_action list \<Rightarrow> nat list" where
  "waits acts = concat (map (\<lambda>a. case a of Wait d \<Rightarrow> [d] | _ \<Rightarrow> []) acts)"

lemma waits_simps [simp]:
  "waits [] = []" "waits (Wait d # acts) = d # waits acts" "waits (Start m # acts) = waits acts"
  "waits (Finished m # acts) = waits acts" "waits (Abort m # acts) = waits acts" "waits (ClearPeer # acts) = waits acts"
  "waits (Return # acts) = waits acts"
  by (simp_all add: waits_def)

text \<open>The short rounds in a row that end at the last of \<open>rs\<close>.\<close>

definition short :: "round_end \<times> nat \<Rightarrow> bool" where
  "short r \<longleftrightarrow> snd r \<le> 10 * second"

definition short_rounds :: "(round_end \<times> nat) list \<Rightarrow> nat" where
  "short_rounds rs = length (takeWhile short (rev rs))"

lemma short_rounds_Cons: "short_rounds (r # rs) =
    (if list_all short rs then length rs + (if short r then 1 else 0) else short_rounds rs)"
proof (cases "list_all short rs")
  case True
  then have "takeWhile short (rev rs) = rev rs" by (simp add: list_all_iff)
  with True show ?thesis by (simp add: short_rounds_def list_all_iff takeWhile_append)
qed (auto simp: short_rounds_def takeWhile_append list_all_iff)

lemma short_rounds_all: "list_all short rs \<Longrightarrow> short_rounds rs = length rs"
  by (simp add: short_rounds_def list_all_iff takeWhile_eq_all_conv [THEN iffD2])

lemma waits_of_rounds:
  assumes "i < length (waits (supervise (reconnect.delay n) rs))"
  shows "i < length rs \<and> waits (supervise (reconnect.delay n) rs) ! i =
    reconnect.delay ((if list_all short (take (Suc i) rs) then n else 0)
      + short_rounds (take (Suc i) rs))"
  using assms
proof (induction rs arbitrary: n i)
  case (Cons r rs)
  obtain e elapsed where r: "r = (e, elapsed)" by fastforce
  with Cons.prems obtain m where e: "e = EndedBy m" by (cases e) simp_all
  define k where "k = (if short r then Suc n else 0)"
  have k: "next_delay (reconnect.delay n) elapsed = reconnect.delay k"
    by (simp add: k_def next_delay_def reconnect.delay_Suc short_def r)
  show ?case
  proof (cases i)
    case 0
    then show ?thesis by (simp add: r e k) (simp add: k_def short_rounds_def r e)
  next
    case (Suc j)
    have "j < length (waits (supervise (reconnect.delay k) rs))"
      using Cons.prems by (simp add: r e k Suc)
    from Cons.IH [OF this] show ?thesis
      by (simp add: r e k Suc) (simp add: k_def short_rounds_Cons short_rounds_all r e)
  qed
qed simp

text \<open>The wait after a round is between 3 and 30 seconds: 3 seconds after a round of more than
  10 seconds, and grown by half, to at most 30 seconds, once for each short round in a row. The
  first wait after a short round is therefore 4.5 seconds.\<close>

theorem reconnect_waits:
  assumes "i < length (waits (main_loop rs))"
  shows "waits (main_loop rs) ! i = (grow_reconnect ^^ short_rounds (take (Suc i) rs)) (3 * second)
    \<and> 3 * second \<le> waits (main_loop rs) ! i \<and> waits (main_loop rs) ! i \<le> 30 * second"
proof -
  have "i < length (waits (supervise (reconnect.delay 0) rs))"
    using assms by (simp add: main_loop_def)
  from waits_of_rounds [OF this]
  have "waits (main_loop rs) ! i = reconnect.delay (short_rounds (take (Suc i) rs))"
    by (simp add: main_loop_def)
  then show ?thesis using reconnect.delay_range by (simp add: reconnect.delay_def)
qed

lemma reconnect_waits_witness:
  "waits (main_loop [(EndedBy WebRtc, 0), (EndedBy SignalClient, 0), (EndedBy WebRtc, 20 * second)]) ! 1
     = 6750000000"
proof -
  have "1 < length (waits (main_loop [(EndedBy WebRtc, 0), (EndedBy SignalClient, 0), (EndedBy WebRtc, 20 * second)]))"
    by (simp add: main_loop_def)
  from reconnect_waits [OF this, THEN conjunct1] show ?thesis
    by (simp add: short_rounds_def short_def grow_reconnect_def second_def take_Cons')
qed

section \<open>One session at a time\<close>

text \<open>The tasks alive after an action, and what has to hold along a trace.\<close>

fun alive :: "sup_action \<Rightarrow> module_kind multiset \<Rightarrow> module_kind multiset" where
  "alive (Start m) ms = ms + {#m#}"
| "alive (Finished m) ms = ms - {#m#}"
| "alive (Abort m) ms = ms - {#m#}"
| "alive _ ms = ms"

fun one_session :: "module_kind multiset \<Rightarrow> bool \<Rightarrow> sup_action list \<Rightarrow> bool" where
  "one_session ms cleared [] = True"
| "one_session ms cleared (a # acts) =
     ((case a of Start m \<Rightarrow> m \<notin># ms | Wait d \<Rightarrow> ms = {#} \<and> cleared | Return \<Rightarrow> ms = {#} | _ \<Rightarrow> True)
      \<and> one_session (alive a ms) (a = ClearPeer \<or> (cleared \<and> (\<forall>m. a \<noteq> Start m))) acts)"

text \<open>The rounds never overlap: a task is started only when no task of its kind is alive, and
  whenever the agent waits for the next round both tasks of the last one have ended or been
  aborted and \<open>peer_connected\<close> has been cleared since they were started. On Ctrl-C it returns
  with no task left.\<close>

theorem rounds_do_not_overlap: "one_session {#} False (main_loop rs)"
proof -
  have "one_session {#} c (supervise d rs)" for c d
  proof (induction rs arbitrary: c d)
    case (Cons r rs)
    obtain e elapsed where "r = (e, elapsed)" by fastforce
    then show ?case
    proof (cases e)
      case (EndedBy m)
      then show ?thesis using Cons \<open>r = _\<close> by (cases m) simp_all
    qed simp
  qed simp
  then show ?thesis by (simp add: main_loop_def)
qed

end
