(* ===== verification/Net.thy ===== *)
theory Net imports Prelude begin

text \<open>
  Addresses, as \<open>std::net\<close> has them: an IPv4 address is 32 bits, an IPv6 address its 16 octets.
  The agent and the WebRTC library share these types.
\<close>

datatype ip_addr = V4 u32 | V6 bytes

record sock_addr =
  sa_ip :: ip_addr
  sa_port :: u16

definition is_loopback :: "ip_addr \<Rightarrow> bool" where
  "is_loopback ip = (case ip of V4 a \<Rightarrow> drop_bit 24 a = 127 | V6 os \<Rightarrow> os = replicate 15 0 @ [1])"

definition is_unspecified :: "ip_addr \<Rightarrow> bool" where
  "is_unspecified ip = (case ip of V4 a \<Rightarrow> a = 0 | V6 os \<Rightarrow> os = replicate 16 0)"

end
