(* ===== verification/Digest.thy ===== *)
theory Digest imports Text begin

text \<open>
  The message digests of \<open>agent/src/webrtc.rs\<close>: MD5 for the long-term credential key of TURN,
  SHA-1 and HMAC-SHA1 for the message integrity attribute. The loops over bytes, words and
  rounds are kept as the code has them.
\<close>

section \<open>Padding and blocks\<close>

text \<open>The loop that appends zeros until the length is 56 modulo 64.\<close>

function pad_loop :: "bytes \<Rightarrow> bytes" where
  "pad_loop padded = (if length padded mod 64 \<noteq> 56 then pad_loop (padded @ [0]) else padded)"
  by pat_completeness auto
termination
  by (relation "measure (\<lambda>p. if length p mod 64 < 57 then 56 - length p mod 64 else 120 - length p mod 64)") (auto simp: mod_Suc split: if_splits)

declare pad_loop.simps [simp del]

definition pad_with :: "(u64 \<Rightarrow> bytes) \<Rightarrow> bytes \<Rightarrow> bytes" where
  "pad_with encode_len data = pad_loop (data @ [0x80]) @ encode_len (of_nat (length data) * 8)"

function chunks :: "nat \<Rightarrow> 'a list \<Rightarrow> 'a list list" where
  "chunks n xs = (if n = 0 \<or> xs = [] then [] else take n xs # chunks n (drop n xs))"
  by pat_completeness auto
termination by (relation "measure (length \<circ> snd)") auto

declare chunks.simps [simp del]

text \<open>\<open>u32::rotate_left\<close>, for the rotation counts below 32 that occur here.\<close>

definition rotate_left :: "nat \<Rightarrow> u32 \<Rightarrow> u32" where
  "rotate_left n x = push_bit n x OR drop_bit (32 - n) x"

section \<open>MD5\<close>

definition md5_S :: "nat list list" where
  "md5_S = [[7, 12, 17, 22], [5, 9, 14, 20], [4, 11, 16, 23], [6, 10, 15, 21]]"

definition md5_K :: "u32 list" where
  "md5_K = [
     0xd76aa478, 0xe8c7b756, 0x242070db, 0xc1bdceee,
     0xf57c0faf, 0x4787c62a, 0xa8304613, 0xfd469501,
     0x698098d8, 0x8b44f7af, 0xffff5bb1, 0x895cd7be,
     0x6b901122, 0xfd987193, 0xa679438e, 0x49b40821,
     0xf61e2562, 0xc040b340, 0x265e5a51, 0xe9b6c7aa,
     0xd62f105d, 0x02441453, 0xd8a1e681, 0xe7d3fbc8,
     0x21e1cde6, 0xc33707d6, 0xf4d50d87, 0x455a14ed,
     0xa9e3e905, 0xfcefa3f8, 0x676f02d9, 0x8d2a4c8a,
     0xfffa3942, 0x8771f681, 0x6d9d6122, 0xfde5380c,
     0xa4beea44, 0x4bdecfa9, 0xf6bb4b60, 0xbebfbc70,
     0x289b7ec6, 0xeaa127fa, 0xd4ef3085, 0x04881d05,
     0xd9d4d039, 0xe6db99e5, 0x1fa27cf8, 0xc4ac5665,
     0xf4292244, 0x432aff97, 0xab9423a7, 0xfc93a039,
     0x655b59c3, 0x8f0ccc92, 0xffeff47d, 0x85845dd1,
     0x6fa87e4f, 0xfe2ce6e0, 0xa3014314, 0x4e0811a1,
     0xf7537e82, 0xbd3af235, 0x2ad7d2bb, 0xeb86d391]"

type_synonym md5_state = "u32 \<times> u32 \<times> u32 \<times> u32"

definition md5_fg :: "nat \<Rightarrow> u32 \<Rightarrow> u32 \<Rightarrow> u32 \<Rightarrow> u32 \<times> nat" where
  "md5_fg i b c d =
     (if i \<le> 15 then ((b AND c) OR ((NOT b) AND d), i)
      else if i \<le> 31 then ((d AND b) OR ((NOT d) AND c), (5 * i + 1) mod 16)
      else if i \<le> 47 then (b XOR c XOR d, (3 * i + 5) mod 16)
      else (c XOR (b OR (NOT d)), (7 * i) mod 16))"

fun md5_round :: "u32 list \<Rightarrow> nat \<Rightarrow> md5_state \<Rightarrow> md5_state" where
  "md5_round m i (a, b, c, d) =
     (let (f, g) = md5_fg i b c d
      in (d,
          b + rotate_left (md5_S ! (i div 16) ! (i mod 4)) (a + f + md5_K ! i + m ! g),
          b, c))"

definition le_words :: "bytes \<Rightarrow> u32 list" where
  "le_words chunk = map (\<lambda>i. from_le32 (chunk ! (i * 4)) (chunk ! (i * 4 + 1))
     (chunk ! (i * 4 + 2)) (chunk ! (i * 4 + 3))) [0..<16]"

fun md5_chunk :: "bytes \<Rightarrow> md5_state \<Rightarrow> md5_state" where
  "md5_chunk chunk (s0, s1, s2, s3) =
     (let (a, b, c, d) = fold (md5_round (le_words chunk)) [0..<64] (s0, s1, s2, s3)
      in (s0 + a, s1 + b, s2 + c, s3 + d))"

definition md5_init :: md5_state where
  "md5_init = (0x67452301, 0xefcdab89, 0x98badcfe, 0x10325476)"

fun md5_out :: "md5_state \<Rightarrow> bytes" where
  "md5_out (s0, s1, s2, s3) = to_le32 s0 @ to_le32 s1 @ to_le32 s2 @ to_le32 s3"

definition md5_hash :: "bytes \<Rightarrow> bytes" where
  "md5_hash data = md5_out (fold md5_chunk (chunks 64 (pad_with to_le64 data)) md5_init)"

section \<open>SHA-1\<close>

type_synonym sha1_state = "u32 \<times> u32 \<times> u32 \<times> u32 \<times> u32"

definition be_words :: "bytes \<Rightarrow> u32 list" where
  "be_words chunk = map (\<lambda>i. from_be32 (chunk ! (i * 4)) (chunk ! (i * 4 + 1))
     (chunk ! (i * 4 + 2)) (chunk ! (i * 4 + 3))) [0..<16]"

definition sha1_expand :: "nat \<Rightarrow> u32 list \<Rightarrow> u32 list" where
  "sha1_expand i w =
     w[i := rotate_left 1 (w ! (i - 3) XOR w ! (i - 8) XOR w ! (i - 14) XOR w ! (i - 16))]"

definition sha1_schedule :: "bytes \<Rightarrow> u32 list" where
  "sha1_schedule chunk = fold sha1_expand [16..<80] (be_words chunk @ replicate 64 0)"

definition sha1_fk :: "nat \<Rightarrow> u32 \<Rightarrow> u32 \<Rightarrow> u32 \<Rightarrow> u32 \<times> u32" where
  "sha1_fk i b c d =
     (if i \<le> 19 then ((b AND c) OR ((NOT b) AND d), 0x5A827999)
      else if i \<le> 39 then (b XOR c XOR d, 0x6ED9EBA1)
      else if i \<le> 59 then ((b AND c) OR (b AND d) OR (c AND d), 0x8F1BBCDC)
      else (b XOR c XOR d, 0xCA62C1D6))"

fun sha1_round :: "u32 list \<Rightarrow> nat \<Rightarrow> sha1_state \<Rightarrow> sha1_state" where
  "sha1_round w i (a, b, c, d, e) =
     (let (f, k) = sha1_fk i b c d;
          temp = rotate_left 5 a + f + e + k + w ! i
      in (temp, a, rotate_left 30 b, c, d))"

fun sha1_chunk :: "bytes \<Rightarrow> sha1_state \<Rightarrow> sha1_state" where
  "sha1_chunk chunk (h0, h1, h2, h3, h4) =
     (let (a, b, c, d, e) = fold (sha1_round (sha1_schedule chunk)) [0..<80] (h0, h1, h2, h3, h4)
      in (h0 + a, h1 + b, h2 + c, h3 + d, h4 + e))"

definition sha1_init :: sha1_state where
  "sha1_init = (0x67452301, 0xEFCDAB89, 0x98BADCFE, 0x10325476, 0xC3D2E1F0)"

fun sha1_out :: "sha1_state \<Rightarrow> bytes" where
  "sha1_out (h0, h1, h2, h3, h4) =
     to_be32 h0 @ to_be32 h1 @ to_be32 h2 @ to_be32 h3 @ to_be32 h4"

definition sha1_hash :: "bytes \<Rightarrow> bytes" where
  "sha1_hash data = sha1_out (fold sha1_chunk (chunks 64 (pad_with to_be64 data)) sha1_init)"

section \<open>HMAC-SHA1 and the credential key\<close>

definition hmac_sha1 :: "bytes \<Rightarrow> bytes \<Rightarrow> bytes" where
  "hmac_sha1 key data =
     (let k = (if 64 < length key then sha1_hash key @ replicate 44 0
               else key @ replicate (64 - length key) 0);
          ipad = map (\<lambda>i. 0x36 XOR k ! i) [0..<64];
          opad = map (\<lambda>i. 0x5c XOR k ! i) [0..<64];
          inner_hash = sha1_hash (ipad @ data)
      in sha1_hash (opad @ inner_hash))"

definition ascii :: "string \<Rightarrow> bytes" where
  "ascii s = map (\<lambda>c. of_nat (of_char c)) s"


text \<open>\<open>md5_key\<close>: a realm that is not UTF-8 counts as empty.\<close>

definition md5_key :: "bytes \<Rightarrow> bytes \<Rightarrow> bytes \<Rightarrow> bytes" where
  "md5_key username realm password =
     (let realm_str = (if utf8_ok realm then realm else [])
      in md5_hash (username @ [0x3a] @ realm_str @ [0x3a] @ password))"

section \<open>The padding, once for both digests\<close>

lemma pad_loop_zeros: "\<exists>n < 64. pad_loop p = p @ replicate n 0 \<and> (length p + n) mod 64 = 56"
proof (induction p rule: pad_loop.induct)
  case (1 p)
  show ?case
  proof (cases "length p mod 64 = 56")
    case True
    then show ?thesis by (subst pad_loop.simps) (auto intro: exI [of _ 0])
  next
    case False
    then obtain n where n: "n < 64" "pad_loop (p @ [0]) = (p @ [0]) @ replicate n 0"
        "(length p + 1 + n) mod 64 = 56" using 1 by auto
    have "n \<noteq> 63"
    proof
      assume "n = 63"
      with n(3) have "(length p + 64) mod 64 = 56" by simp
      with False show False by simp
    qed
    with n have "Suc n < 64" "pad_loop p = p @ replicate (Suc n) 0" "(length p + Suc n) mod 64 = 56"
      using False by (auto simp: pad_loop.simps [of p] replicate_append_same)
    then show ?thesis by blast
  qed
qed

lemma pad_tail_unique:
  assumes "x @ 0x80 # replicate m 0 = y @ (0x80 :: u8) # replicate n 0"
  shows "x = y"
proof -
  have "rev (x @ 0x80 # replicate m 0) = rev (y @ 0x80 # replicate n 0)" using assms by simp
  then have *: "replicate m (0 :: u8) @ 0x80 # rev x = replicate n 0 @ 0x80 # rev y" by simp
  then have "m = n"
  proof (induction m arbitrary: n)
    case 0
    then show ?case by (cases n) auto
  next
    case (Suc m)
    then show ?case by (cases n) auto
  qed
  with * show ?thesis by simp
qed

text \<open>
  The interface of an iterated digest: a length encoding of eight bytes, a compression of
  one block, and an output of fixed length. Both digests of the agent provide it.
\<close>

locale block_digest =
  fixes enc :: "u64 \<Rightarrow> bytes" and block :: "bytes \<Rightarrow> 's \<Rightarrow> 's" and init :: 's
    and out :: "'s \<Rightarrow> bytes" and size_out :: nat and hash :: "bytes \<Rightarrow> bytes"
  assumes enc_length: "length (enc x) = 8"
    and enc_inj: "enc x = enc y \<Longrightarrow> x = y"
    and out_length: "length (out s) = size_out"
    and hash_blocks: "hash d = out (fold block (chunks 64 (pad_with enc d)) init)"
begin

lemma digest_length: "length (hash d) = size_out"
  by (simp add: hash_blocks out_length)

lemma padded_form:
  "\<exists>n < 64. pad_with enc d = d @ 0x80 # replicate n 0 @ enc (of_nat (length d) * 8)
     \<and> length (pad_with enc d) mod 64 = 0"
proof -
  obtain n where n: "n < 64" "pad_loop (d @ [0x80]) = (d @ [0x80]) @ replicate n 0"
      "(length (d @ [0x80]) + n) mod 64 = 56" using pad_loop_zeros by blast
  have "(length d + 1 + n + 8) mod 64 = 0"
    using n(3) mod_add_left_eq [of "length (d @ [0x80]) + n" 64 8] by simp
  with n show ?thesis by (intro exI [of _ n]) (simp add: pad_with_def enc_length add_ac)
qed

lemma padding_injective:
  assumes "pad_with enc a = pad_with enc b"
  shows "a = b"
proof -
  obtain m n where m: "pad_with enc a = (a @ 0x80 # replicate m 0) @ enc (of_nat (length a) * 8)"
      and n: "pad_with enc b = (b @ 0x80 # replicate n 0) @ enc (of_nat (length b) * 8)"
    using padded_form [of a] padded_form [of b] by auto
  have "(a @ 0x80 # replicate m 0) @ enc (of_nat (length a) * 8)
      = (b @ 0x80 # replicate n 0) @ enc (of_nat (length b) * 8)"
    using assms unfolding m n .
  then have "a @ 0x80 # replicate m 0 = b @ 0x80 # replicate n 0"
    by (rule append_eq_append_conv [THEN iffD1, THEN conjunct1, rotated]) (simp add: enc_length)
  then show ?thesis by (rule pad_tail_unique)
qed

end

lemma from_be32_to_be32:
  "from_be32 (to_be32 x ! 0) (to_be32 x ! 1) (to_be32 x ! 2) (to_be32 x ! 3) = x"
  by (simp add: to_be32_def)

lemma to_be32_inj: "to_be32 x = to_be32 y \<Longrightarrow> x = y"
  by (metis from_be32_to_be32)

lemma to_le32_rev: "to_le32 x = rev (to_be32 x)"
  by (simp add: to_le32_def to_be32_def)

lemma ucast_halves:
  assumes "(ucast (x :: u64) :: u32) = ucast y"
    and "(ucast (drop_bit 32 x) :: u32) = ucast (drop_bit 32 y)"
  shows "x = y"
proof (rule bit_word_eqI)
  fix n assume "n < LENGTH(64)"
  show "bit x n = bit y n"
  proof (cases "n < 32")
    case True
    have "bit (ucast x :: u32) n = bit (ucast y :: u32) n" using assms(1) by simp
    with True show ?thesis by (simp add: bit_simps)
  next
    case False
    with \<open>n < LENGTH(64)\<close> have k: "n = 32 + (n - 32)" "n - 32 < 32" by simp_all
    have "bit (ucast (drop_bit 32 x) :: u32) (n - 32) = bit (ucast (drop_bit 32 y) :: u32) (n - 32)"
      using assms(2) by simp
    with k show ?thesis by (simp add: bit_simps)
  qed
qed

lemma to_be64_inj: "to_be64 x = to_be64 y \<Longrightarrow> x = y"
  by (rule ucast_halves) (auto simp: to_be64_def dest: to_be32_inj)

lemma to_le64_inj: "to_le64 x = to_le64 y \<Longrightarrow> x = y"
  by (rule ucast_halves) (auto simp: to_le64_def to_le32_rev dest: to_be32_inj)

interpretation md5: block_digest to_le64 md5_chunk md5_init md5_out 16 md5_hash
proof unfold_locales
  show "length (md5_out s) = 16" for s by (cases s) simp
qed (auto simp: md5_hash_def dest: to_le64_inj)

interpretation sha1: block_digest to_be64 sha1_chunk sha1_init sha1_out 20 sha1_hash
proof unfold_locales
  show "length (sha1_out s) = 20" for s by (cases s) simp
qed (auto simp: sha1_hash_def dest: to_be64_inj)

text \<open>Both digests have their fixed length, and both paddings are injective and fill whole
  64 byte blocks, for messages of any length: two messages are hashed alike only through
  the compression function.\<close>

theorem digests_pad_injectively:
  "length (md5_hash d) = 16 \<and> length (sha1_hash d) = 20
   \<and> length (pad_with to_le64 d) mod 64 = 0 \<and> length (pad_with to_be64 d) mod 64 = 0
   \<and> inj (pad_with to_le64) \<and> inj (pad_with to_be64)"
  using md5.padded_form [of d] sha1.padded_form [of d]
  by (auto simp: md5.digest_length sha1.digest_length intro: injI md5.padding_injective
      sha1.padding_injective)

section \<open>SHA-1 against the standard\<close>

text \<open>
  FIPS 180-4: the message schedule as a recurrence, the round functions Ch, Parity and Maj,
  and the computation of one block.
\<close>

fun fips_W :: "bytes \<Rightarrow> nat \<Rightarrow> u32" where
  "fips_W chunk t =
     (if t < 16 then from_be32 (chunk ! (4 * t)) (chunk ! (4 * t + 1))
                       (chunk ! (4 * t + 2)) (chunk ! (4 * t + 3))
      else word_rotl 1 (fips_W chunk (t - 3) XOR fips_W chunk (t - 8) XOR
                        fips_W chunk (t - 14) XOR fips_W chunk (t - 16)))"

declare fips_W.simps [simp del]

definition fips_f :: "nat \<Rightarrow> u32 \<Rightarrow> u32 \<Rightarrow> u32 \<Rightarrow> u32" where
  "fips_f t x y z =
     (if t < 20 then (x AND y) XOR (NOT x AND z)
      else if t < 40 then x XOR y XOR z
      else if t < 60 then (x AND y) XOR (x AND z) XOR (y AND z)
      else x XOR y XOR z)"

definition fips_K :: "nat \<Rightarrow> u32" where
  "fips_K t = (if t < 20 then 0x5a827999 else if t < 40 then 0x6ed9eba1
     else if t < 60 then 0x8f1bbcdc else 0xca62c1d6)"

fun fips_step :: "bytes \<Rightarrow> nat \<Rightarrow> sha1_state \<Rightarrow> sha1_state" where
  "fips_step chunk t (a, b, c, d, e) =
     (word_rotl 5 a + fips_f t b c d + e + fips_K t + fips_W chunk t, a, word_rotl 30 b, c, d)"

fun fips_block :: "bytes \<Rightarrow> sha1_state \<Rightarrow> sha1_state" where
  "fips_block chunk (h0, h1, h2, h3, h4) =
     (case fold (fips_step chunk) [0..<80] (h0, h1, h2, h3, h4) of
        (a, b, c, d, e) \<Rightarrow> (a + h0, b + h1, c + h2, d + h3, e + h4))"

lemma rotate_left_rotl:
  assumes "n < 32"
  shows "rotate_left n x = word_rotl n x"
proof (rule bit_word_eqI)
  fix i assume "i < LENGTH(32)"
  then have i: "i < 32" by simp
  have rot: "bit (word_rotl n x) i = bit x ((i + (32 - n)) mod 32)"
    using assms i by (simp add: bit_word_rotl_iff)
  have left: "bit (rotate_left n x) i = ((n \<le> i \<and> bit x (i - n)) \<or> bit x (32 - n + i))"
    using i by (simp add: rotate_left_def bit_simps)
  show "bit (rotate_left n x) i = bit (word_rotl n x) i"
  proof (cases "i < n")
    case True
    then show ?thesis using assms by (simp add: left rot add.commute)
  next
    case False
    then have "\<not> bit x (32 - n + i)" using assms by (auto dest: bit_imp_le_length)
    moreover have "(i + (32 - n)) mod 32 = i - n"
      using False assms i by (simp add: mod_if)
    ultimately show ?thesis using False by (simp add: left rot)
  qed
qed

lemma sha1_fk_fips: "sha1_fk t b c d = (fips_f t b c d, fips_K t)"
proof -
  have ch: "(b AND c) OR (NOT b AND d) = (b AND c) XOR (NOT b AND d)"
    by (rule bit_word_eqI) (auto simp: bit_simps)
  have maj: "(b AND c) OR (b AND d) OR (c AND d) = (b AND c) XOR (b AND d) XOR (c AND d)"
    by (rule bit_word_eqI) (auto simp: bit_simps)
  show ?thesis
    by (simp add: sha1_fk_def fips_f_def fips_K_def ch maj less_Suc_eq_le [symmetric] numeral_eq_Suc)
qed

lemma schedule_prefix:
  assumes "n \<le> 64"
  shows "length (fold sha1_expand [16..<16 + n] (be_words chunk @ replicate 64 0)) = 80
    \<and> (\<forall>t < 16 + n. fold sha1_expand [16..<16 + n] (be_words chunk @ replicate 64 0) ! t = fips_W chunk t)"
  using assms
proof (induction n)
  case 0
  show ?case by (auto simp: be_words_def nth_append fips_W.simps mult.commute)
next
  case (Suc n)
  define w where "w = fold sha1_expand [16..<16 + n] (be_words chunk @ replicate 64 0)"
  have IH: "length w = 80" "\<And>t. t < 16 + n \<Longrightarrow> w ! t = fips_W chunk t"
    using Suc by (simp_all add: w_def)
  have next_word: "fips_W chunk (16 + n) = rotate_left 1 (w ! (16 + n - 3) XOR w ! (16 + n - 8)
      XOR w ! (16 + n - 14) XOR w ! (16 + n - 16))"
    using IH(2) by (simp add: fips_W.simps [of chunk "16 + n"] rotate_left_rotl)
  have step: "fold sha1_expand [16..<16 + Suc n] (be_words chunk @ replicate 64 0)
      = w[16 + n := fips_W chunk (16 + n)]"
    unfolding next_word w_def add_Suc_right upt_Suc_append [OF le_add1]
    by (simp add: sha1_expand_def)
  show ?case
    unfolding step using IH Suc.prems by (auto simp: nth_list_update less_Suc_eq)
qed

lemma schedule_fips: "t < 80 \<Longrightarrow> sha1_schedule chunk ! t = fips_W chunk t"
  using schedule_prefix [of 64 chunk] by (simp add: sha1_schedule_def)

lemma sha1_round_fips: "t < 80 \<Longrightarrow> sha1_round (sha1_schedule chunk) t = fips_step chunk t"
proof (rule ext)
  fix s assume "t < 80"
  then show "sha1_round (sha1_schedule chunk) t s = fips_step chunk t s"
    by (cases s) (simp add: sha1_fk_fips schedule_fips rotate_left_rotl add_ac Let_def)
qed

text \<open>The block function of \<open>sha1_hash\<close> is the one of FIPS 180-4: the in-place schedule holds
  the message schedule words, and the rounds use the standard's functions and constants.\<close>

theorem sha1_chunk_is_fips: "sha1_chunk chunk h = fips_block chunk h"
proof -
  have "fold (sha1_round (sha1_schedule chunk)) [0..<80] s = fold (fips_step chunk) [0..<80] s" for s
    by (rule fold_cong) (simp_all add: sha1_round_fips)
  then show ?thesis by (cases h) (simp add: add_ac split: prod.splits)
qed

section \<open>MD5 test vectors, and HMAC keys\<close>

text \<open>\<open>md5_hash\<close> gives the digests of the RFC 1321 test suite for the empty message, \<open>abc\<close> and
  \<open>message digest\<close>.\<close>

theorem md5_test_suite:
  "md5_hash [] = [0xd4, 0x1d, 0x8c, 0xd9, 0x8f, 0x00, 0xb2, 0x04,
                  0xe9, 0x80, 0x09, 0x98, 0xec, 0xf8, 0x42, 0x7e]
   \<and> md5_hash (ascii ''abc'') = [0x90, 0x01, 0x50, 0x98, 0x3c, 0xd2, 0x4f, 0xb0,
                  0xd6, 0x96, 0x3f, 0x7d, 0x28, 0xe1, 0x7f, 0x72]
   \<and> md5_hash (ascii ''message digest'') = [0xf9, 0x6b, 0x69, 0x7d, 0x7c, 0xb7, 0x93, 0x8d,
                  0x52, 0x5a, 0x2f, 0x31, 0xaa, 0xf1, 0x61, 0xd0]"
  by (intro conjI; code_simp)

text \<open>
  RFC 2104 over any digest with 64 byte blocks: the key, hashed when it is longer than a
  block, is zero filled to a block and masked into the inner and the outer key.
\<close>

definition rfc2104 :: "(bytes \<Rightarrow> bytes) \<Rightarrow> bytes \<Rightarrow> bytes \<Rightarrow> bytes" where
  "rfc2104 H key text =
     (let key = (if length key > 64 then H key else key);
          key0 = key @ replicate (64 - length key) 0
      in H (map (\<lambda>b. b XOR 0x5c) key0 @ H (map (\<lambda>b. b XOR 0x36) key0 @ text)))"

text \<open>\<open>hmac_sha1\<close> is the RFC 2104 construction over the digest of this module, for keys of
  every length, and always returns 20 bytes.\<close>

theorem hmac_sha1_is_rfc2104:
  "hmac_sha1 key data = rfc2104 sha1_hash key data \<and> length (hmac_sha1 key data) = 20"
proof -
  have mask: "map (\<lambda>i. m XOR k ! i) [0..<64] = map (\<lambda>b. b XOR m) k" if "length k = 64"
    for k :: bytes and m
    using that by (intro nth_equalityI) (simp_all add: xor.commute)
  show ?thesis
  proof (cases "64 < length key")
    case True
    have "length (sha1_hash key @ replicate 44 0) = 64" by (simp add: sha1.digest_length)
    then show ?thesis
      using True by (simp add: hmac_sha1_def rfc2104_def Let_def mask sha1.digest_length del: map_append)
  next
    case False
    then have "length (key @ replicate (64 - length key) 0) = 64" by simp
    then show ?thesis
      using False by (simp add: hmac_sha1_def rfc2104_def Let_def mask sha1.digest_length del: map_append)
  qed
qed

end
