(* ===== verification/Stun.thy ===== *)
theory Stun imports Net Digest begin

text \<open>
  The STUN and TURN client of \<open>agent/src/webrtc.rs\<close>: building requests, the message integrity
  of authenticated requests, and the parsers for what arrives from the network. A result
  \<open>None\<close> is a panic; \<open>Some (Inl e)\<close> is an error the code returns.
\<close>

section \<open>Messages\<close>

definition STUN_MAGIC :: u32 where "STUN_MAGIC = 0x2112A442"

definition magic_port :: u16 where "magic_port = ucast (drop_bit 16 STUN_MAGIC)"

datatype stun_error = TooShort | BadCookie | BadType u16 | NoAddress | AddressTooShort
  | BadFamily u8 | MissingRealmOrNonce | AllocateError | UnexpectedType u16 | NoRelayedAddress

definition stun_header :: "u16 \<Rightarrow> u16 \<Rightarrow> bytes \<Rightarrow> bytes" where
  "stun_header msg_type msg_len txn_id =
     to_be16 msg_type @ to_be16 msg_len @ to_be32 STUN_MAGIC @ txn_id"

definition append_attr :: "bytes \<Rightarrow> u16 \<Rightarrow> bytes \<Rightarrow> bytes" where
  "append_attr buf attr_type value =
     buf @ to_be16 attr_type @ to_be16 (of_nat (length value)) @ value
         @ replicate ((4 - length value mod 4) mod 4) 0"

text \<open>
  A message: the header with the length of the attributes, then the attributes. The code
  writes the length field twice, with the same value.
\<close>

definition stun_message :: "u16 \<Rightarrow> bytes \<Rightarrow> bytes \<Rightarrow> bytes" where
  "stun_message msg_type txn attrs = stun_header msg_type (of_nat (length attrs)) txn @ attrs"

section \<open>Reading\<close>

definition read16 :: "bytes \<Rightarrow> nat \<Rightarrow> u16 option" where
  "read16 d i = do { a \<leftarrow> idx d i; b \<leftarrow> idx d (i + 1); Some (from_be16 a b) }"

definition read32 :: "bytes \<Rightarrow> nat \<Rightarrow> u32 option" where
  "read32 d i = do { a \<leftarrow> idx d i; b \<leftarrow> idx d (i + 1); c \<leftarrow> idx d (i + 2); e \<leftarrow> idx d (i + 3);
     Some (from_be32 a b c e) }"

definition parse_xor_mapped :: "bytes \<Rightarrow> (stun_error + sock_addr) option" where
  "parse_xor_mapped val =
     (if length val < 8 then Some (Inl AddressTooShort)
      else do {
        family \<leftarrow> idx val 1;
        x_port \<leftarrow> read16 val 2;
        if family = 0x01 then do {
          x_addr \<leftarrow> read32 val 4;
          Some (Inr \<lparr>sa_ip = V4 (x_addr XOR STUN_MAGIC), sa_port = x_port XOR magic_port\<rparr>)
        } else Some (Inl (BadFamily family))
      })"

definition parse_mapped :: "bytes \<Rightarrow> (stun_error + sock_addr) option" where
  "parse_mapped val =
     (if length val < 8 then Some (Inl AddressTooShort)
      else do {
        port \<leftarrow> read16 val 2;
        family \<leftarrow> idx val 1;
        if family = 0x01 then do {
          addr \<leftarrow> read32 val 4;
          Some (Inr \<lparr>sa_ip = V4 addr, sa_port = port\<rparr>)
        } else Some (Inl (BadFamily family))
      })"

text \<open>
  The attribute loop, the same in all four parsers: \<open>visit\<close> is the body for one attribute,
  given its type and the value slice; it goes on with a new state (\<open>Inl\<close>) or returns from
  the parser (\<open>Inr\<close>). \<open>(attr_len + 3) & !3\<close> rounds up to a multiple of four.
\<close>

definition align4 :: "nat \<Rightarrow> nat" where
  "align4 n = (n + 3) div 4 * 4"

function attr_loop ::
  "bytes \<Rightarrow> nat \<Rightarrow> (u16 \<Rightarrow> bytes \<Rightarrow> 's \<Rightarrow> ('s + 'r) option) \<Rightarrow> nat \<Rightarrow> 's \<Rightarrow> ('s + 'r) option" where
  "attr_loop data lim visit pos s =
     (if pos + 4 \<le> lim then
        (case (read16 data pos, read16 data (pos + 2)) of
           (Some attr_type, Some attr_len) \<Rightarrow>
             if pos + 4 + unat attr_len > length data then Some (Inl s)
             else (case slice data (pos + 4) (pos + 4 + unat attr_len) of
                     None \<Rightarrow> None
                   | Some val \<Rightarrow>
                       (case visit attr_type val s of
                          None \<Rightarrow> None
                        | Some (Inr r) \<Rightarrow> Some (Inr r)
                        | Some (Inl s') \<Rightarrow>
                            attr_loop data lim visit (pos + (4 + align4 (unat attr_len))) s'))
         | _ \<Rightarrow> None)
      else Some (Inl s))"
  by pat_completeness auto
termination by (relation "measure (\<lambda>(data, lim, visit, pos, s). lim - pos)") auto

declare attr_loop.simps [simp del]

definition msg_end :: "bytes \<Rightarrow> nat option" where
  "msg_end data = map_option (\<lambda>l. min (20 + unat l) (length data)) (read16 data 2)"

section \<open>The parsers\<close>

definition stun_visit :: "u16 \<Rightarrow> bytes \<Rightarrow> unit \<Rightarrow> (unit + (stun_error + sock_addr)) option" where
  "stun_visit attr_type val s =
     (if attr_type = 0x0020 then map_option Inr (parse_xor_mapped val)
      else if attr_type = 0x0001 then map_option Inr (parse_mapped val)
      else Some (Inl ()))"

definition parse_stun_response :: "bytes \<Rightarrow> (stun_error + sock_addr) option" where
  "parse_stun_response data =
     (if length data < 20 then Some (Inl TooShort)
      else do {
        cookie \<leftarrow> read32 data 4;
        if cookie \<noteq> STUN_MAGIC then Some (Inl BadCookie)
        else do {
          msg_type \<leftarrow> read16 data 0;
          if msg_type \<noteq> 0x0101 then Some (Inl (BadType msg_type))
          else do {
            e \<leftarrow> msg_end data;
            r \<leftarrow> attr_loop data e stun_visit 20 ();
            Some (case r of Inr result \<Rightarrow> result | Inl _ \<Rightarrow> Inl NoAddress)
          }
        }
      })"

definition realm_visit ::
  "u16 \<Rightarrow> bytes \<Rightarrow> bytes option \<times> bytes option \<Rightarrow> ((bytes option \<times> bytes option) + unit) option" where
  "realm_visit attr_type val = (\<lambda>(realm, nonce).
     Some (Inl (if attr_type = 0x0014 then (Some val, nonce)
                else if attr_type = 0x0015 then (realm, Some val)
                else (realm, nonce))))"

definition parse_turn_error_401 :: "bytes \<Rightarrow> (stun_error + bytes \<times> bytes) option" where
  "parse_turn_error_401 data =
     (if length data < 20 then Some (Inl TooShort)
      else do {
        e \<leftarrow> msg_end data;
        r \<leftarrow> attr_loop data e realm_visit 20 (None, None);
        Some (case r of Inl (Some realm, Some nonce) \<Rightarrow> Inr (realm, nonce)
              | _ \<Rightarrow> Inl MissingRealmOrNonce)
      })"

definition target_visit :: "u16 \<Rightarrow> u16 \<Rightarrow> bytes \<Rightarrow> unit \<Rightarrow> (unit + bytes) option" where
  "target_visit target attr_type val s = Some (if attr_type = target then Inr val else Inl ())"

definition parse_stun_attr :: "bytes \<Rightarrow> u16 \<Rightarrow> bytes option option" where
  "parse_stun_attr data target =
     (if length data < 20 then Some None
      else do {
        e \<leftarrow> msg_end data;
        r \<leftarrow> attr_loop data e (target_visit target) 20 ();
        Some (case r of Inr val \<Rightarrow> Some val | Inl _ \<Rightarrow> None)
      })"

definition turn_visit ::
  "u16 \<Rightarrow> bytes \<Rightarrow> sock_addr option \<times> bytes option \<Rightarrow> ((sock_addr option \<times> bytes option) + unit) option" where
  "turn_visit attr_type val = (\<lambda>(peer, payload).
     if attr_type = 0x0012 then
       map_option (\<lambda>r. Inl (case r of Inr addr \<Rightarrow> (Some addr, payload) | Inl _ \<Rightarrow> (peer, payload)))
         (parse_xor_mapped val)
     else if attr_type = 0x0013 then Some (Inl (peer, Some val))
     else Some (Inl (peer, payload)))"

definition parse_turn_data :: "bytes \<Rightarrow> (sock_addr \<times> bytes) option option" where
  "parse_turn_data pkt =
     (if length pkt < 20 then Some None
      else do {
        msg_type \<leftarrow> read16 pkt 0;
        if msg_type \<noteq> 0x0017 then Some None
        else do {
          cookie \<leftarrow> read32 pkt 4;
          if cookie \<noteq> STUN_MAGIC then Some None
          else do {
            e \<leftarrow> msg_end pkt;
            r \<leftarrow> attr_loop pkt e turn_visit 20 (None, None);
            Some (case r of Inl (Some addr, Some val) \<Rightarrow> Some (addr, val) | _ \<Rightarrow> None)
          }
        }
      })"

text \<open>The answer to an authenticated Allocate request: it reads two bytes unguarded.\<close>

definition allocate_response :: "bytes \<Rightarrow> (stun_error + sock_addr) option" where
  "allocate_response resp = do {
     msg_type \<leftarrow> read16 resp 0;
     if msg_type \<noteq> 0x0103 then
       Some (Inl (if msg_type = 0x0113 then AllocateError else UnexpectedType msg_type))
     else do {
       attr \<leftarrow> parse_stun_attr resp 0x0016;
       (case attr of
          None \<Rightarrow> Some (Inl NoRelayedAddress)
        | Some val \<Rightarrow> map_option (\<lambda>r. case r of Inr a \<Rightarrow> Inr a | Inl _ \<Rightarrow> Inl NoRelayedAddress)
                        (parse_xor_mapped val))
     }
   }"

section \<open>The requests\<close>

record turn_state =
  turn_addr :: sock_addr
  realm :: bytes
  nonce :: bytes
  username :: bytes
  password :: bytes

definition append_auth :: "bytes \<Rightarrow> bytes \<Rightarrow> turn_state \<Rightarrow> bytes" where
  "append_auth buf header ts =
     (let buf = append_attr buf 0x0006 (username ts);
          buf = append_attr buf 0x0014 (realm ts);
          buf = append_attr buf 0x0015 (nonce ts);
          msg_len = of_nat (length buf) + 24;
          header = take 2 header @ to_be16 msg_len @ drop 4 header;
          key = md5_key (username ts) (realm ts) (password ts);
          hmac = hmac_sha1 key (header @ buf)
      in append_attr buf 0x0008 hmac)"

definition xor_address :: "u16 \<Rightarrow> u32 \<Rightarrow> bytes" where
  "xor_address port ip = [0, 0x01] @ to_be16 (port XOR magic_port) @ to_be32 (ip XOR STUN_MAGIC)"

definition allocate_request1 :: "bytes \<Rightarrow> bytes" where
  "allocate_request1 txn = stun_message 0x0003 txn (append_attr [] 0x0019 (to_be32 0x11000000))"

definition allocate_request2 :: "bytes \<Rightarrow> turn_state \<Rightarrow> bytes" where
  "allocate_request2 txn ts = stun_message 0x0003 txn
     (append_auth (append_attr [] 0x0019 (to_be32 0x11000000)) (stun_header 0x0003 0 txn) ts)"

definition create_permission_request ::
  "bytes \<Rightarrow> turn_state \<Rightarrow> ip_addr \<Rightarrow> bytes" where
  "create_permission_request txn ts peer_ip =
     (let attrs = (case peer_ip of V4 ip \<Rightarrow> append_attr [] 0x0012 (xor_address 0 ip) | V6 _ \<Rightarrow> [])
      in stun_message 0x0008 txn (append_auth attrs (stun_header 0x0008 0 txn) ts))"

definition refresh_request :: "bytes \<Rightarrow> turn_state \<Rightarrow> bytes" where
  "refresh_request txn ts = stun_message 0x0004 txn
     (append_auth (append_attr [] 0x000D (to_be32 600)) (stun_header 0x0004 0 txn) ts)"

definition build_turn_send_indication :: "bytes \<Rightarrow> sock_addr \<Rightarrow> bytes \<Rightarrow> bytes" where
  "build_turn_send_indication txn peer data =
     (let attrs = (case sa_ip peer of
                     V4 ip \<Rightarrow> append_attr [] 0x0012 (xor_address (sa_port peer) ip)
                   | V6 _ \<Rightarrow> []);
          attrs = append_attr attrs 0x0013 data
      in stun_message 0x0016 txn attrs)"

definition binding_request :: "u64 \<Rightarrow> bytes" where
  "binding_request nanos =
     [0x00, 0x01, 0x00, 0x00] @ to_be32 STUN_MAGIC @ to_be64 nanos @ [0xAB, 0xCD, 0xEF, 0x01]"

definition gen_txn_id :: "128 word \<Rightarrow> bytes" where
  "gen_txn_id nanos = to_be64 (ucast nanos) @ to_be32 (ucast (drop_bit 64 nanos))"

definition server_host_port :: "string \<Rightarrow> string \<Rightarrow> string" where
  "server_host_port scheme url =
     (let addr = (case strip_prefix scheme url of Some s \<Rightarrow> s | None \<Rightarrow> url)
      in if CHR '':'' \<in> set addr then addr else addr @ '':3478'')"

section \<open>No packet makes a parser panic\<close>

lemma read16_Some [read_simps]:
  "i + 1 < length d \<Longrightarrow> read16 d i = Some (from_be16 (d ! i) (d ! (i + 1)))"
  by (simp add: read16_def read_simps)

lemma read32_Some [read_simps]:
  "i + 3 < length d \<Longrightarrow>
     read32 d i = Some (from_be32 (d ! i) (d ! (i + 1)) (d ! (i + 2)) (d ! (i + 3)))"
  by (simp add: read32_def read_simps)

lemma parse_mapped_total: "parse_xor_mapped val \<noteq> None" "parse_mapped val \<noteq> None"
  by (simp_all add: parse_xor_mapped_def parse_mapped_def read_simps)

lemma attr_loop_unfold:
  assumes "pos + 4 \<le> lim" and "lim \<le> length data"
    and "l = unat (from_be16 (data ! (pos + 2)) (data ! (pos + 3)))"
  shows "attr_loop data lim visit pos s =
    (if length data < pos + 4 + l then Some (Inl s)
     else (case visit (from_be16 (data ! pos) (data ! (pos + 1))) (take l (drop (pos + 4) data)) s of
             None \<Rightarrow> None
           | Some (Inr r) \<Rightarrow> Some (Inr r)
           | Some (Inl s') \<Rightarrow> attr_loop data lim visit (pos + (4 + align4 l)) s'))"
proof -
  have "read16 data pos = Some (from_be16 (data ! pos) (data ! (pos + 1)))"
    "read16 data (pos + 2) = Some (from_be16 (data ! (pos + 2)) (data ! (pos + 3)))"
    using assms(1,2) by (simp_all add: read_simps numeral_3_eq_3)
  then show ?thesis
    using assms(1)
    by (subst attr_loop.simps) (simp add: assms(3) read_simps split: option.splits sum.splits)
qed

lemma attr_loop_total:
  assumes "\<And>t v s. visit t v s \<noteq> None" and "lim \<le> length data"
  shows "attr_loop data lim visit pos s \<noteq> None"
proof (induction "lim - pos" arbitrary: pos s rule: less_induct)
  case less
  show ?case
  proof (cases "pos + 4 \<le> lim")
    case True
    define l where "l = unat (from_be16 (data ! (pos + 2)) (data ! (pos + 3)))"
    have "attr_loop data lim visit (pos + (4 + align4 l)) s' \<noteq> None" for s'
      using True by (intro less) simp
    moreover obtain x where
      "visit (from_be16 (data ! pos) (data ! (pos + 1))) (take l (drop (pos + 4) data)) s = Some x"
      using assms(1) by fastforce
    ultimately show ?thesis
      by (simp only: attr_loop_unfold [OF True assms(2) l_def]) (simp split: sum.splits)
  qed (simp add: attr_loop.simps)
qed

lemma msg_end_bounded: "20 \<le> length d \<Longrightarrow> \<exists>e. msg_end d = Some e \<and> e \<le> length d"
  by (simp add: msg_end_def read_simps)

lemma attr_loop_from_header:
  assumes "20 \<le> length d" and "\<And>t v s. visit t v s \<noteq> None"
  shows "\<exists>e r. msg_end d = Some e \<and> attr_loop d e visit 20 s = Some r"
  using msg_end_bounded [OF assms(1)] attr_loop_total [OF assms(2)] by fastforce

lemma visits_total: "stun_visit t v u \<noteq> None" "realm_visit t v rn \<noteq> None"
  "target_visit target t v u \<noteq> None" "turn_visit t v pd \<noteq> None"
  using parse_mapped_total
  by (auto simp: stun_visit_def realm_visit_def target_visit_def turn_visit_def
      split: prod.splits)

text \<open>C15. No datagram, however malformed, makes one of the four STUN/TURN parsers index outside
  its buffer: each returns a value or an error. Only the Allocate response is read unguarded,
  and it panics exactly on datagrams of fewer than two bytes.\<close>

theorem stun_parsers_never_panic:
  "parse_stun_response d \<noteq> None \<and> parse_turn_error_401 d \<noteq> None
   \<and> parse_stun_attr d target \<noteq> None \<and> parse_turn_data d \<noteq> None
   \<and> (allocate_response d = None \<longleftrightarrow> length d < 2)"
proof -
  have attr: "parse_stun_attr d tg \<noteq> None" for tg
  proof (cases "length d < 20")
    case False
    with attr_loop_from_header [of d "target_visit tg" "()"] visits_total(3)
    show ?thesis by (fastforce simp: parse_stun_attr_def)
  qed (simp add: parse_stun_attr_def)
  have resp: "parse_stun_response d \<noteq> None"
  proof (cases "length d < 20")
    case False
    with attr_loop_from_header [of d stun_visit "()"] visits_total(1)
    show ?thesis by (fastforce simp: parse_stun_response_def read_simps)
  qed (simp add: parse_stun_response_def)
  have e401: "parse_turn_error_401 d \<noteq> None"
  proof (cases "length d < 20")
    case False
    with attr_loop_from_header [of d realm_visit "(None, None)"] visits_total(2)
    show ?thesis by (fastforce simp: parse_turn_error_401_def)
  qed (simp add: parse_turn_error_401_def)
  have turn: "parse_turn_data d \<noteq> None"
  proof (cases "length d < 20")
    case False
    with attr_loop_from_header [of d turn_visit "(None, None)"] visits_total(4)
    show ?thesis by (fastforce simp: parse_turn_data_def read_simps)
  qed (simp add: parse_turn_data_def)
  have "allocate_response d = None \<longleftrightarrow> length d < 2"
    using attr [of "0x0016"] parse_mapped_total(1)
    by (auto simp: allocate_response_def read16_def idx_def split: option.splits)
  with attr resp e401 turn show ?thesis by blast
qed

section \<open>Messages as attribute lists\<close>

definition encode_attrs :: "(u16 \<times> bytes) list \<Rightarrow> bytes" where
  "encode_attrs as = fold (\<lambda>(t, v) buf. append_attr buf t v) as []"

fun visit_all ::
  "(u16 \<Rightarrow> bytes \<Rightarrow> 's \<Rightarrow> ('s + 'r) option) \<Rightarrow> (u16 \<times> bytes) list \<Rightarrow> 's \<Rightarrow> ('s + 'r) option" where
  "visit_all visit [] s = Some (Inl s)"
| "visit_all visit ((t, v) # as) s =
     (case visit t v s of
        None \<Rightarrow> None
      | Some (Inr r) \<Rightarrow> Some (Inr r)
      | Some (Inl s') \<Rightarrow> visit_all visit as s')"

lemma append_attr_prefix: "append_attr buf t v = buf @ append_attr [] t v"
  by (simp add: append_attr_def)

lemma fold_append_attr:
  "fold (\<lambda>(t, v) buf. append_attr buf t v) as buf = buf @ encode_attrs as"
proof (induction as arbitrary: buf)
  case (Cons a as)
  obtain t v where a: "a = (t, v)" by fastforce
  show ?case
    using Cons [of "append_attr buf t v"] Cons [of "append_attr [] t v"]
    by (simp add: a encode_attrs_def append_attr_prefix [of buf])
qed (simp add: encode_attrs_def)

lemma encode_attrs_Cons: "encode_attrs ((t, v) # as) = append_attr [] t v @ encode_attrs as"
  using fold_append_attr [of as "append_attr [] t v"] by (simp add: encode_attrs_def)

lemma encode_attrs_Nil [simp]: "encode_attrs [] = []"
  by (simp add: encode_attrs_def)

lemma encode_attrs_append: "encode_attrs (as @ bs) = encode_attrs as @ encode_attrs bs"
  using fold_append_attr [of bs "encode_attrs as"] by (simp add: encode_attrs_def)

lemma append_attr_encode: "append_attr (encode_attrs as) t v = encode_attrs (as @ [(t, v)])"
  by (simp add: encode_attrs_append encode_attrs_Cons append_attr_prefix [of "encode_attrs as"])

lemma length_append_attr: "length (append_attr [] t v) = 4 + align4 (length v)"
proof -
  define q r where "q = length v div 4" and "r = length v mod 4"
  have "length v = 4 * q + r" "r < 4" by (simp_all add: q_def r_def)
  moreover from this have "r = 0 \<or> r = 1 \<or> r = 2 \<or> r = 3" by linarith
  ultimately show ?thesis by (auto simp: append_attr_def align4_def)
qed

lemma attr_loop_step:
  assumes "length v < 65536"
    and "d = pre @ append_attr [] t v @ post" and "lim = length pre + length (append_attr [] t v) + m"
    and "lim \<le> length d"
  shows "attr_loop d lim visit (length pre) s =
    (case visit t v s of
       None \<Rightarrow> None
     | Some (Inr r) \<Rightarrow> Some (Inr r)
     | Some (Inl s') \<Rightarrow> attr_loop d lim visit (length (pre @ append_attr [] t v)) s')"
proof -
  let ?p = "length pre"
  have d: "d = pre @ (to_be16 t @ to_be16 (of_nat (length v)) @ v @
      replicate ((4 - length v mod 4) mod 4) 0) @ post"
    by (simp add: assms(2) append_attr_def)
  have ty: "from_be16 (d ! ?p) (d ! (?p + 1)) = t"
    by (simp add: d to_be16_def nth_append from_be16_parts)
  have len: "from_be16 (d ! (?p + 2)) (d ! (?p + 3)) = of_nat (length v)"
    by (simp add: d to_be16_def nth_append from_be16_parts)
  have l: "length v = unat (from_be16 (d ! (?p + 2)) (d ! (?p + 3)))"
    using assms(1) by (simp only: len) (simp add: unat_of_nat)
  have "take (length v) (drop (?p + 4) d) = v" "?p + 4 + length v \<le> length d"
    by (simp_all add: d to_be16_def)
  moreover have "?p + 4 \<le> lim" by (simp add: assms(3) length_append_attr)
  ultimately show ?thesis
    by (simp add: attr_loop_unfold [OF _ assms(4) l] ty [unfolded One_nat_def add_Suc_right add_0_right]
        length_append_attr add_ac split: option.splits sum.splits)
qed

lemma attr_loop_encoded:
  assumes "\<forall>(t, v) \<in> set as. length v < 65536" and "d = pre @ encode_attrs as"
  shows "attr_loop d (length d) visit (length pre) s = visit_all visit as s"
  using assms
proof (induction as arbitrary: pre s)
  case Nil
  then show ?case by (simp add: attr_loop.simps)
next
  case (Cons a as)
  obtain t v where a: "a = (t, v)" by fastforce
  have v: "length v < 65536" and d: "d = pre @ append_attr [] t v @ encode_attrs as"
    using Cons.prems by (simp_all add: a encode_attrs_Cons)
  have IH: "attr_loop d (length d) visit (length (pre @ append_attr [] t v)) s' = visit_all visit as s'" for s'
    by (rule Cons.IH) (use Cons.prems in \<open>simp_all add: d\<close>)
  have "length d = length pre + length (append_attr [] t v) + length (encode_attrs as)"
    by (simp add: d)
  from attr_loop_step [OF v d this order_refl, of visit s]
  show ?case by (simp only: a IH visit_all.simps)
qed

section \<open>Reading what is well formed\<close>

lemma stun_header_parts [simp]:
  "length (stun_header ty l txn) = 8 + length txn"
  "take 2 (stun_header ty l txn) = to_be16 ty"
  "drop 4 (stun_header ty l txn) = to_be32 STUN_MAGIC @ txn"
  "read16 (stun_header ty l txn @ attrs) 0 = Some ty"
  "read16 (stun_header ty l txn @ attrs) 2 = Some l"
  "read32 (stun_header ty l txn @ attrs) 4 = Some STUN_MAGIC"
  by (simp_all add: stun_header_def to_be16_def to_be32_def read16_def read32_def idx_def
      from_be16_parts from_be32_parts)

lemma attr_loop_message:
  assumes "length txn = 12" and "\<forall>(t, v) \<in> set as. length v < 65536" and "length (encode_attrs as) < 65536"
    and "d = stun_message ty txn (encode_attrs as)"
  shows "msg_end d = Some (length d) \<and> attr_loop d (length d) visit 20 s = visit_all visit as s"
proof
  show "msg_end d = Some (length d)"
    using assms by (simp add: msg_end_def stun_message_def unat_of_nat)
  show "attr_loop d (length d) visit 20 s = visit_all visit as s"
    using attr_loop_encoded [OF assms(2), of d "stun_header ty (of_nat (length (encode_attrs as))) txn"] assms
    by (simp add: stun_message_def)
qed

lemma visit_all_target: "visit_all (target_visit target) as () =
  Some (case map_of as target of Some v \<Rightarrow> Inr v | None \<Rightarrow> Inl ())"
  by (induction as) (auto simp: target_visit_def split: option.splits)

lemma visit_all_realm: "visit_all realm_visit as (r, n) =
  Some (Inl (case map_of (rev as) 0x0014 of Some v \<Rightarrow> Some v | None \<Rightarrow> r,
             case map_of (rev as) 0x0015 of Some v \<Rightarrow> Some v | None \<Rightarrow> n))"
  by (induction as arbitrary: r n) (auto simp: realm_visit_def map_add_def split: option.splits)

lemma parse_xor_address: "parse_xor_mapped (xor_address port ip) = Some (Inr \<lparr>sa_ip = V4 ip, sa_port = port\<rparr>)"
proof -
  have "parse_xor_mapped ([0, 1] @ to_be16 p @ to_be32 a)
      = Some (Inr \<lparr>sa_ip = V4 (a XOR STUN_MAGIC), sa_port = p XOR magic_port\<rparr>)" for p a
    by (simp add: parse_xor_mapped_def read16_def read32_def idx_def to_be16_def to_be32_def)
  from this [of "port XOR magic_port" "ip XOR STUN_MAGIC"]
  show ?thesis by (simp only: xor_address_def xor.assoc xor_self_eq xor.right_neutral)
qed

definition stun_wellformed :: "bytes \<Rightarrow> (u16 \<times> bytes) list \<Rightarrow> bool" where
  "stun_wellformed txn as \<longleftrightarrow> length txn = 12 \<and> (\<forall>(t, v) \<in> set as. length v < 65536)
     \<and> length (encode_attrs as) < 65536"

text \<open>On a well-formed message (any list of attributes, padded as RFC 5389 has it) the attribute
  parsers are lookups: the first attribute of the wanted type, and for a 401 the last REALM and
  the last NONCE.\<close>

theorem stun_attributes_found:
  assumes "stun_wellformed txn as"
  shows "parse_stun_attr (stun_message ty txn (encode_attrs as)) target = Some (map_of as target)
    \<and> parse_turn_error_401 (stun_message ty txn (encode_attrs as)) =
        Some (case (map_of (rev as) 0x0014, map_of (rev as) 0x0015) of
                (Some rlm, Some nnc) \<Rightarrow> Inr (rlm, nnc) | _ \<Rightarrow> Inl MissingRealmOrNonce)"
proof -
  let ?d = "stun_message ty txn (encode_attrs as)"
  have wf: "length txn = 12" "\<forall>(t, v) \<in> set as. length v < 65536" "length (encode_attrs as) < 65536"
    using assms by (auto simp: stun_wellformed_def)
  have "20 \<le> length ?d" using wf by (simp add: stun_message_def)
  then show ?thesis
    by (simp add: parse_stun_attr_def parse_turn_error_401_def attr_loop_message [OF wf refl]
       visit_all_target visit_all_realm split: option.splits)
qed

lemma stun_attributes_found_witness:
  "parse_stun_attr (stun_message 0x0103 (gen_txn_id 5)
       (encode_attrs [(0x0014, [1, 2, 3]), (0x0015, [4]), (0x0016, xor_address 3478 0x0A000001)])) 0x0016
     = Some (Some (xor_address 3478 0x0A000001))"
proof -
  have h: "stun_wellformed (gen_txn_id 5)
     [(0x0014, [1, 2, 3]), (0x0015, [4]), (0x0016, xor_address 3478 0x0A000001)]"
    by (simp add: stun_wellformed_def gen_txn_id_def encode_attrs_Cons length_append_attr align4_def
        xor_address_def)
  show ?thesis using stun_attributes_found [OF h, of "0x0103" "0x0016"] by simp
qed

lemma send_indication_unwraps:
  assumes "length txn = 12" and "length data < 65516" and "sa_ip peer = V4 ip"
  shows "parse_turn_data (to_be16 0x0017 @ drop 2 (build_turn_send_indication txn peer data))
    = Some (Some (peer, data))"
proof -
  let ?as = "[(0x0012, xor_address (sa_port peer) ip), (0x0013, data)] :: (u16 \<times> bytes) list"
  let ?d = "stun_message 0x0017 txn (encode_attrs ?as)"
  have msg: "to_be16 0x0017 @ drop 2 (build_turn_send_indication txn peer data) = ?d"
    using assms(3) append_attr_prefix [of "append_attr [] 0x0012 (xor_address (sa_port peer) ip)"]
    by (simp add: build_turn_send_indication_def stun_message_def stun_header_def encode_attrs_Cons
       to_be16_def)
  have small: "\<forall>(t, v) \<in> set ?as. length v < 65536" "length (encode_attrs ?as) < 65536"
    using assms(2) by (simp_all add: encode_attrs_Cons length_append_attr align4_def xor_address_def)
  have "peer = \<lparr>sa_ip = V4 ip, sa_port = sa_port peer\<rparr>" using assms(3) by simp
  moreover have "20 \<le> length ?d" using assms(1) by (simp add: stun_message_def)
  moreover have "read16 ?d 0 = Some 0x0017" "read32 ?d 4 = Some STUN_MAGIC"
    by (simp_all add: stun_message_def)
  ultimately show ?thesis
    unfolding msg
    by (simp add: parse_turn_data_def attr_loop_message [OF assms(1) small refl] turn_visit_def parse_xor_address)
qed

text \<open>C14. What the client wraps for an IPv4 peer, its own parser unwraps: a Send indication turned
  into a Data indication (the type field is all that differs) gives back the peer's address and
  the payload.\<close>

theorem turn_relay_roundtrip:
  assumes "length txn = 12" and "length data < 65516" and "sa_ip peer = V4 ip"
  shows "parse_turn_data (to_be16 0x0017 @ drop 2 (build_turn_send_indication txn peer data))
    = Some (Some (peer, data))"
  using assms by (rule send_indication_unwraps)

lemma turn_relay_roundtrip_witness:
  "parse_turn_data (to_be16 0x0017 @ drop 2 (build_turn_send_indication (gen_txn_id 7)
      \<lparr>sa_ip = V4 0xC0A80102, sa_port = 50000\<rparr> [1, 2, 3]))
     = Some (Some (\<lparr>sa_ip = V4 0xC0A80102, sa_port = 50000\<rparr>, [1, 2, 3]))"
proof -
  have "length (gen_txn_id 7) = 12" by (simp add: gen_txn_id_def)
  then show ?thesis by (rule turn_relay_roundtrip) simp_all
qed

text \<open>The check of RFC 5389, section 15.4, for a message whose last attribute is the
  MESSAGE-INTEGRITY: the keyed digest covers everything before it, with the length field as sent.\<close>

definition integrity_ok :: "bytes \<Rightarrow> bytes \<Rightarrow> bool" where
  "integrity_ok key msg \<longleftrightarrow>
     (let n = length msg - 24 in
        24 \<le> length msg \<and>
        drop n msg = to_be16 0x0008 @ to_be16 20 @ hmac_sha1 key (take n msg))"

lemma length_hmac_sha1 [simp]: "length (hmac_sha1 key data) = 20"
  by (simp add: hmac_sha1_def Let_def sha1.digest_length)

lemma authenticated_message:
  assumes "attrs = append_auth buf (stun_header ty 0 txn) ts"
  shows "integrity_ok (md5_key (username ts) (realm ts) (password ts)) (stun_message ty txn attrs)"
proof -
  let ?key = "md5_key (username ts) (realm ts) (password ts)"
  obtain b h where attrs: "attrs = b @ to_be16 0x0008 @ to_be16 20 @ h"
    and h: "h = hmac_sha1 ?key (stun_header ty (of_nat (length b) + 24) txn @ b)"
    using assms by (simp add: append_auth_def Let_def append_attr_def [of _ "0x0008"] stun_header_def)
  have len: "length h = 20" by (simp add: h)
  then have "stun_message ty txn attrs = stun_header ty (of_nat (length b) + 24) txn @ b @ to_be16 0x0008 @ to_be16 20 @ h"
    by (simp add: stun_message_def attrs)
  then show ?thesis by (simp add: integrity_ok_def len h [symmetric])
qed

text \<open>The three authenticated TURN requests carry a MESSAGE-INTEGRITY the server accepts: the
  length field hashed into the digest is the one of the message as sent.\<close>

theorem requests_verify:
  "let key = md5_key (username ts) (realm ts) (password ts) in
   integrity_ok key (allocate_request2 txn ts)
   \<and> integrity_ok key (create_permission_request txn ts peer_ip)
   \<and> integrity_ok key (refresh_request txn ts)"
  by (simp add: Let_def allocate_request2_def create_permission_request_def refresh_request_def
      authenticated_message [OF refl])

end
