(* ===== verification/Wire.thy ===== *)
theory Wire imports Prelude begin

text \<open>
  What the packet formats of the str0m library share. A parser is a function to
  \<open>(string + 'a) option\<close>: \<open>None\<close> is a panic, \<open>Inl e\<close> the error the code returns, \<open>Inr v\<close> the
  parsed value. A writer takes the buffer it overwrites and returns it with the number of
  octets it reports; it panics when the buffer is too short.
\<close>

section \<open>Results\<close>

type_synonym 'a res = "(string + 'a) option"

abbreviation ok :: "'a \<Rightarrow> 'a res" where "ok x \<equiv> Some (Inr x)"

abbreviation err :: "string \<Rightarrow> 'a res" where "err e \<equiv> Some (Inl e)"

definition and_then :: "'a res \<Rightarrow> ('a \<Rightarrow> 'b res) \<Rightarrow> 'b res" where
  "and_then r f = (case r of None \<Rightarrow> None | Some (Inl e) \<Rightarrow> err e | Some (Inr x) \<Rightarrow> f x)"

lemma and_then_simps [simp]:
  "and_then None f = None" "and_then (err e) f = err e" "and_then (ok x) f = f x"
  by (simp_all add: and_then_def)

lemma and_then_None: "and_then r f = None \<longleftrightarrow> r = None \<or> (\<exists>x. r = ok x \<and> f x = None)"
  by (auto simp: and_then_def split: option.splits sum.splits)

lemma and_then_total: "r \<noteq> None \<Longrightarrow> (\<And>x. f x \<noteq> None) \<Longrightarrow> and_then r f \<noteq> None"
  by (auto simp: and_then_None simp del: not_None_eq)

lemma and_then_ok_None [simp]:
  "and_then r (\<lambda>x. ok (g x)) = None \<longleftrightarrow> r = None"
  "(\<exists>y. and_then r (\<lambda>x. ok (g x)) = Some y) \<longleftrightarrow> r \<noteq> None"
  by (cases r; auto simp: and_then_def split: sum.splits)+

lemma and_then_ok: "and_then r f = ok y \<longleftrightarrow> (\<exists>x. r = ok x \<and> f x = ok y)"
  by (auto simp: and_then_def split: option.splits sum.splits)

text \<open>An access that may panic, used where a result is expected.\<close>

definition checked :: "'a option \<Rightarrow> 'a res" where
  "checked x = (case x of None \<Rightarrow> None | Some v \<Rightarrow> ok v)"

lemma checked_simps [simp]: "checked None = None" "checked (Some v) = ok v"
  by (simp_all add: checked_def)

lemma checked_eq [simp]: "checked x = None \<longleftrightarrow> x = None" "checked x = ok v \<longleftrightarrow> x = Some v"
  "checked x \<noteq> err e"
  by (auto simp: checked_def split: option.splits)

section \<open>Reading integers\<close>

text \<open>Reading a field out of a packet that was just written.\<close>

named_theorems wire_simps

definition u16_at :: "bytes \<Rightarrow> nat \<Rightarrow> u16 option" where
  "u16_at buf i = do { a \<leftarrow> idx buf i; b \<leftarrow> idx buf (i + 1); Some (from_be16 a b) }"

definition u32_at :: "bytes \<Rightarrow> nat \<Rightarrow> u32 option" where
  "u32_at buf i = do { a \<leftarrow> idx buf i; b \<leftarrow> idx buf (i + 1); c \<leftarrow> idx buf (i + 2); d \<leftarrow> idx buf (i + 3);
     Some (from_be32 a b c d) }"

definition u64_at :: "bytes \<Rightarrow> nat \<Rightarrow> u64 option" where
  "u64_at buf i = do { hi \<leftarrow> u32_at buf i; lo \<leftarrow> u32_at buf (i + 4);
     Some (push_bit 32 (ucast hi) OR ucast lo) }"

lemma u32_at_append [simp]: "u32_at (xs @ to_be32 v @ ys) (length xs) = Some v"
  by (simp add: u32_at_def idx_def to_be32_def nth_append)

lemma u64_halves [simp]:
  "push_bit 32 (ucast (ucast (drop_bit 32 v) :: u32)) OR ucast (ucast v :: u32) = (v :: u64)"
  by (rule bit_word_eqI) (auto simp: bit_simps)

lemma u16_at_total: "i + 2 \<le> length buf \<Longrightarrow> u16_at buf i \<noteq> None"
  by (simp add: u16_at_def idx_def)

lemma u32_at_total: "i + 4 \<le> length buf \<Longrightarrow> u32_at buf i \<noteq> None"
  by (simp add: u32_at_def idx_def)

lemma u64_at_None: "i + 8 \<le> length buf \<Longrightarrow> u64_at buf i \<noteq> None"
  by (simp add: u64_at_def u32_at_def idx_def)

text \<open>Reading past a field that was just written, and reading the field itself.\<close>

lemma idx_skip [wire_simps]:
  "idx (x # r) 0 = Some x" "0 < n \<Longrightarrow> idx (x # r) n = idx r (n - 1)"
  "2 \<le> n \<Longrightarrow> idx (to_be16 a @ r) n = idx r (n - 2)"
  "4 \<le> n \<Longrightarrow> idx (to_be32 b @ r) n = idx r (n - 4)"
  by (auto simp: idx_def nth_append nth_Cons split: nat.splits)

lemma u16_at_here [simp, wire_simps]: "u16_at (to_be16 v @ r) 0 = Some v" "u16_at (to_be16 v) 0 = Some v"
  by (simp_all add: u16_at_def idx_def to_be16_def)

lemma u32_at_here [simp, wire_simps]: "u32_at (to_be32 v @ r) 0 = Some v" "u32_at (to_be32 v) 0 = Some v"
  by (simp_all add: u32_at_def idx_def to_be32_def)

lemma u64_at_here [simp, wire_simps]: "u64_at (to_be64 v @ r) 0 = Some v" "u64_at (to_be64 v) 0 = Some v"
  by (simp_all add: u64_at_def to_be64_def u32_at_def idx_def to_be32_def)

lemma fields_append_right:
  assumes "length xs \<le> n"
  shows "u16_at (xs @ r) n = u16_at r (n - length xs)" "u32_at (xs @ r) n = u32_at r (n - length xs)"
    "u64_at (xs @ r) n = u64_at r (n - length xs)"
proof -
  obtain k where n: "n = length xs + k" using assms le_Suc_ex by blast
  have i: "idx (xs @ r) (length xs + j) = idx r j" for j
    by (simp add: idx_append_right)
  have u32: "u32_at (xs @ r) (length xs + j) = u32_at r j" for j
    unfolding u32_at_def add.assoc i ..
  show "u16_at (xs @ r) n = u16_at r (n - length xs)"
    unfolding u16_at_def n add.assoc i by simp
  show "u32_at (xs @ r) n = u32_at r (n - length xs)" "u64_at (xs @ r) n = u64_at r (n - length xs)"
    unfolding u64_at_def n add.assoc u32 by simp_all
qed

lemma fields_skip [wire_simps]:
  "0 < n \<Longrightarrow> u16_at (x # r) n = u16_at r (n - 1)" "0 < n \<Longrightarrow> u32_at (x # r) n = u32_at r (n - 1)"
  "2 \<le> n \<Longrightarrow> u16_at (to_be16 a @ r) n = u16_at r (n - 2)"
  "2 \<le> n \<Longrightarrow> u32_at (to_be16 a @ r) n = u32_at r (n - 2)"
  "4 \<le> n \<Longrightarrow> u16_at (to_be32 b @ r) n = u16_at r (n - 4)"
  "4 \<le> n \<Longrightarrow> u32_at (to_be32 b @ r) n = u32_at r (n - 4)"
  "4 \<le> n \<Longrightarrow> u64_at (to_be32 b @ r) n = u64_at r (n - 4)"
  "8 \<le> n \<Longrightarrow> u16_at (to_be64 c @ r) n = u16_at r (n - 8)"
  "8 \<le> n \<Longrightarrow> u32_at (to_be64 c @ r) n = u32_at r (n - 8)"
  using fields_append_right [of "[x]" n r] fields_append_right [of "to_be16 a" n r]
    fields_append_right [of "to_be32 b" n r] fields_append_right [of "to_be64 c" n r]
  by simp_all

section \<open>Word boundaries\<close>

lemma mod4_cases:
  obtains q where "n = 4 * q" | q where "n = 4 * q + 1" | q where "n = 4 * q + 2" | q where "n = 4 * q + (3 :: nat)"
proof -
  have "n = 4 * (n div 4) + n mod 4" "n mod 4 < 4" by simp_all
  then consider "n = 4 * (n div 4) + 0" | "n = 4 * (n div 4) + 1" | "n = 4 * (n div 4) + 2" | "n = 4 * (n div 4) + 3"
    by linarith
  then show ?thesis using that by (metis add.right_neutral)
qed

lemma mod4_shift: "(4 * q) mod 4 = (0 :: nat)" "(4 * q + c) mod 4 = c mod (4 :: nat)" "(c + (4 * q)) mod 4 = c mod 4"
  "(c + (4 * q + d)) mod 4 = (c + d) mod 4"
  by presburger+

lemma div4_shift: "(c + 4 * q) div 4 = c div 4 + (q :: nat)" "(c + (4 * q + d)) div 4 = (c + d) div 4 + q"
  by presburger+

section \<open>Writing into a buffer\<close>

text \<open>The octets of a packet overwrite the start of the buffer.\<close>

definition emit :: "bytes \<Rightarrow> bytes \<Rightarrow> bytes option" where
  "emit bs buf = (if length bs \<le> length buf then Some (bs @ drop (length bs) buf) else None)"

text \<open>\<open>buf[i..i + n].copy_from_slice(xs)\<close>.\<close>

definition copy_in :: "bytes \<Rightarrow> nat \<Rightarrow> bytes \<Rightarrow> bytes option" where
  "copy_in buf i xs =
     (if i + length xs \<le> length buf then Some (take i buf @ xs @ drop (i + length xs) buf) else None)"

lemma copy_in_append: "length ys = length xs \<Longrightarrow> copy_in (pre @ ys @ post) (length pre) xs = Some (pre @ xs @ post)"
  by (simp add: copy_in_def)

section \<open>Repeated entries\<close>

text \<open>
  \<open>for _ in 0..n\<close> with a parser of one entry at the start of the buffer, which then moves on by
  \<open>k\<close> octets.
\<close>

fun read_n :: "nat \<Rightarrow> (bytes \<Rightarrow> 'a res) \<Rightarrow> nat \<Rightarrow> bytes \<Rightarrow> 'a list res" where
  "read_n k f 0 buf = ok []"
| "read_n k f (Suc n) buf =
     and_then (f buf) (\<lambda>x. and_then (checked (slice buf k (length buf))) (\<lambda>rest.
       and_then (read_n k f n rest) (\<lambda>xs. ok (x # xs))))"

lemma read_n_written:
  assumes "\<And>x r. x \<in> set xs \<Longrightarrow> f (enc x @ r) = ok x" and "\<And>x. length (enc x) = k"
  shows "read_n k f (length xs) (concat (map enc xs) @ rest) = ok xs"
  using assms(1)
proof (induction xs)
  case (Cons x xs)
  have "slice (enc x @ concat (map enc xs) @ rest) k (length (enc x @ concat (map enc xs) @ rest))
      = Some (concat (map enc xs) @ rest)"
    using assms(2) by (simp add: slice_def)
  with Cons show ?case by simp
qed simp

lemma read_n_total:
  assumes "\<And>b. k \<le> length b \<Longrightarrow> f b \<noteq> None" and "n * k \<le> length buf"
  shows "read_n k f n buf \<noteq> None"
  using assms(2)
proof (induction n arbitrary: buf)
  case (Suc n)
  then have "k \<le> length buf" and "n * k \<le> length (drop k buf)" by auto
  with assms(1) Suc.IH [of "drop k buf"] show ?case
    by (auto simp: and_then_None slice_def)
qed simp

lemma read_n_length: "read_n k f n buf = ok xs \<Longrightarrow> length xs = n"
  by (induction n arbitrary: buf xs) (auto simp: and_then_ok)

lemma length_concat_const: "(\<And>x. length (enc x) = k) \<Longrightarrow> length (concat (map enc xs)) = length xs * k"
  by (induction xs) auto


end
