(* ===== verification/IceStun.thy ===== *)
theory IceStun imports Net Text Wire begin

text \<open>
  \<open>io/stun.rs\<close> of the patched str0m: the STUN messages of ICE connectivity checks. \<open>None\<close> is a
  panic (an index outside the datagram); \<open>Some (Inl e)\<close> is an error the parser returns. The keyed
  digest and the CRC come from other crates and are arguments.
\<close>

section \<open>Resending\<close>

definition STUN_INITIAL_RTO_MILLIS :: u64 where "STUN_INITIAL_RTO_MILLIS = 250"
definition STUN_MAX_RETRANS :: nat where "STUN_MAX_RETRANS = 9"
definition STUN_MAX_RTO_MILLIS :: u64 where "STUN_MAX_RTO_MILLIS = 3000"
definition STUN_TIMEOUT_MILLIS :: nat where "STUN_TIMEOUT_MILLIS = 18750"

definition stun_resend_delay :: "nat \<Rightarrow> u64" where
  "stun_resend_delay send_count =
     (if send_count = 0 then 0
      else let retrans = min (send_count - 1) STUN_MAX_RETRANS;
               rto = push_bit retrans STUN_INITIAL_RTO_MILLIS
           in min rto STUN_MAX_RTO_MILLIS)"

section \<open>Class and method\<close>

datatype stun_class = Request | Indication | Success | Failure | UnknownClass

datatype stun_method = Binding | UnknownMethod

definition class_from_typ :: "u16 \<Rightarrow> stun_class" where
  "class_from_typ typ =
     (let c = typ AND 0x0110 in
      if c = 0 then Request else if c = 0x0010 then Indication
      else if c = 0x0100 then Success else if c = 0x0110 then Failure else UnknownClass)"

fun class_to_u16 :: "stun_class \<Rightarrow> u16 option" where
  "class_to_u16 Request = Some 0"
| "class_to_u16 Indication = Some 0x0010"
| "class_to_u16 Success = Some 0x0100"
| "class_to_u16 Failure = Some 0x0110"
| "class_to_u16 UnknownClass = None"

definition method_from_typ :: "u16 \<Rightarrow> stun_method" where
  "method_from_typ typ = (if typ AND 0x3EEF = 1 then Binding else UnknownMethod)"

fun method_to_u16 :: "stun_method \<Rightarrow> u16 option" where
  "method_to_u16 Binding = Some 1"
| "method_to_u16 UnknownMethod = None"

section \<open>Attributes\<close>

record stun_attrs =
  a_username :: "bytes option"
  a_message_integrity :: "bytes option"
  a_error_code :: "(u16 \<times> bytes) option"
  a_realm :: "bytes option"
  a_nonce :: "bytes option"
  a_xor_mapped_address :: "sock_addr option"
  a_software :: "bytes option"
  a_fingerprint :: "u32 option"
  a_priority :: "u32 option"
  a_use_candidate :: bool
  a_ice_controlled :: "u64 option"
  a_ice_controlling :: "u64 option"
  a_network_cost :: "(u16 \<times> u16) option"

definition no_attrs :: stun_attrs where
  "no_attrs = \<lparr>a_username = None, a_message_integrity = None, a_error_code = None, a_realm = None,
     a_nonce = None, a_xor_mapped_address = None, a_software = None, a_fingerprint = None,
     a_priority = None, a_use_candidate = False, a_ice_controlled = None, a_ice_controlling = None,
     a_network_cost = None\<rparr>"

definition MAGIC :: bytes where "MAGIC = [0x21, 0x12, 0xA4, 0x42]"

text \<open>The user name is \<open>local:remote\<close>; \<open>find(':')\<close> is the first colon.\<close>

definition split_username :: "stun_attrs \<Rightarrow> (bytes \<times> bytes) option" where
  "split_username attrs = do {
     v \<leftarrow> a_username attrs;
     if 0x3A \<notin> set v then None
     else let i = length (takeWhile (\<lambda>b. b \<noteq> 0x3A) v) in
          if length v \<le> i + 1 then None else Some (take i v, drop (i + 1) v)
   }"

datatype ice_error = BufferTooShort | LenNotMultipleOf4 | LenMismatch | BadMagicCookie
  | BadAttributeLength nat nat | BadIntegrityLength | BadErrorCode | BadErrorClass u16
  | BadPriorityLength | BadUseCandidateLength | BadControlledLength | BadControllingLength
  | StringTooLong u16 nat | MalformedUtf8 u16 | InvalidFamily u8 | NoMessageIntegrity
  | MissingMappedAddress | MissingUsername | MissingPriority | WriteZero

subsection \<open>Addresses\<close>

definition xor_bytes :: "bytes \<Rightarrow> bytes \<Rightarrow> bytes" where
  "xor_bytes xs ys = map2 (XOR) xs ys"

fun ip_octets :: "ip_addr \<Rightarrow> bytes" where
  "ip_octets (V4 a) = to_be32 a"
| "ip_octets (V6 os) = os"

definition encode_xor :: "sock_addr \<Rightarrow> bytes \<Rightarrow> bytes" where
  "encode_xor addr trans_id =
     [0, case sa_ip addr of V4 _ \<Rightarrow> 1 | V6 _ \<Rightarrow> 2] @ to_be16 (sa_port addr XOR 0x2112) @
     xor_bytes (ip_octets (sa_ip addr)) (MAGIC @ trans_id)"

definition decode_xor :: "bytes \<Rightarrow> bytes \<Rightarrow> (ice_error + sock_addr) option" where
  "decode_xor buf trans_id = do {
     b2 \<leftarrow> idx buf 2;
     b3 \<leftarrow> idx buf 3;
     let port = from_be16 b2 b3 XOR 0x2112;
     ip_buf \<leftarrow> slice buf 4 (length buf);
     family \<leftarrow> idx buf 1;
     if family = 1 then do {
       os \<leftarrow> slice ip_buf 0 4;
       (case xor_bytes os MAGIC of
          [a, b, c, d] \<Rightarrow> Some (Inr \<lparr>sa_ip = V4 (from_be32 a b c d), sa_port = port\<rparr>)
        | _ \<Rightarrow> None)
     } else if family = 2 then do {
       os \<leftarrow> slice ip_buf 0 16;
       Some (Inr \<lparr>sa_ip = V6 (xor_bytes os (MAGIC @ trans_id)), sa_port = port\<rparr>)
     } else Some (Inl (InvalidFamily family))
   }"

definition decode_str :: "u16 \<Rightarrow> bytes \<Rightarrow> nat \<Rightarrow> (ice_error + bytes) option" where
  "decode_str typ buf len =
     (if 128 < len then Some (Inl (StringTooLong typ len))
      else do { v \<leftarrow> slice buf 0 len; Some (if utf8_ok v then Inr v else Inl (MalformedUtf8 typ)) })"

subsection \<open>Writing\<close>

text \<open>The padding of the user name is \<open>4 - (len % 4) % 4\<close>: four octets when it is aligned.\<close>

definition username_pad :: "nat \<Rightarrow> nat" where
  "username_pad n = 4 - (n mod 4) mod 4"

definition opt_len :: "('a \<Rightarrow> nat) \<Rightarrow> 'a option \<Rightarrow> nat" where
  "opt_len f x = (case x of None \<Rightarrow> 0 | Some v \<Rightarrow> f v)"

definition padded_len :: "stun_attrs \<Rightarrow> nat" where
  "padded_len attrs =
     opt_len (\<lambda>v. 4 + length v + username_pad (length v)) (a_username attrs)
     + opt_len (\<lambda>_. 4 + 8) (a_ice_controlled attrs)
     + opt_len (\<lambda>_. 4 + 8) (a_ice_controlling attrs)
     + opt_len (\<lambda>_. 4 + 4) (a_priority attrs)
     + opt_len (\<lambda>a. 4 + (case sa_ip a of V4 _ \<Rightarrow> 8 | V6 _ \<Rightarrow> 20)) (a_xor_mapped_address attrs)
     + (if a_use_candidate attrs then 4 else 0)"

definition tlv :: "u16 \<Rightarrow> bytes \<Rightarrow> bytes" where
  "tlv typ v = to_be16 typ @ to_be16 (of_nat (length v)) @ v"

definition opt_bytes :: "('a \<Rightarrow> bytes) \<Rightarrow> 'a option \<Rightarrow> bytes" where
  "opt_bytes f x = (case x of None \<Rightarrow> [] | Some v \<Rightarrow> f v)"

definition attrs_to_bytes :: "stun_attrs \<Rightarrow> bytes \<Rightarrow> bytes" where
  "attrs_to_bytes attrs trans_id =
     opt_bytes (\<lambda>v. tlv 0x0006 v @ replicate (username_pad (length v)) 0) (a_username attrs)
     @ opt_bytes (\<lambda>v. tlv 0x8029 (to_be64 v)) (a_ice_controlled attrs)
     @ opt_bytes (\<lambda>v. tlv 0x802A (to_be64 v)) (a_ice_controlling attrs)
     @ opt_bytes (\<lambda>v. tlv 0x0024 (to_be32 v)) (a_priority attrs)
     @ opt_bytes (\<lambda>a. tlv 0x0020 (encode_xor a trans_id)) (a_xor_mapped_address attrs)
     @ (if a_use_candidate attrs then tlv 0x0025 [] else [])"

subsection \<open>Parsing\<close>

record attrs_state =
  s_attrs :: stun_attrs
  s_integrity_off :: nat
  s_ignore_rest :: bool

definition set_attr :: "(stun_attrs \<Rightarrow> stun_attrs) \<Rightarrow> attrs_state \<Rightarrow> attrs_state" where
  "set_attr f st = st\<lparr>s_attrs := f (s_attrs st)\<rparr>"

definition str_attr ::
  "u16 \<Rightarrow> bytes \<Rightarrow> nat \<Rightarrow> (bytes \<Rightarrow> stun_attrs \<Rightarrow> stun_attrs) \<Rightarrow> attrs_state
     \<Rightarrow> (ice_error + attrs_state) option" where
  "str_attr typ buf len upd st = do {
     rest \<leftarrow> slice buf 4 (length buf);
     r \<leftarrow> decode_str typ rest len;
     Some (case r of Inl e \<Rightarrow> Inl e | Inr v \<Rightarrow> Inr (set_attr (upd v) st))
   }"

definition error_code_attr ::
  "u16 \<Rightarrow> bytes \<Rightarrow> nat \<Rightarrow> attrs_state \<Rightarrow> (ice_error + attrs_state) option" where
  "error_code_attr typ buf len st = do {
     b4 \<leftarrow> idx buf 4;
     if b4 \<noteq> 0 then Some (Inl BadErrorCode)
     else do {
       b5 \<leftarrow> idx buf 5;
       if b5 \<noteq> 0 then Some (Inl BadErrorCode)
       else do {
         b6 \<leftarrow> idx buf 6;
         if b6 AND 0xF8 \<noteq> 0 then Some (Inl BadErrorCode)
         else let class = ucast b6 * 100 :: u16 in
           if class < 300 \<or> 699 < class then Some (Inl (BadErrorClass class))
           else do {
             b7 \<leftarrow> idx buf 7;
             rest \<leftarrow> slice buf 8 (length buf);
             r \<leftarrow> decode_str typ rest (if len < 4 then 2 ^ 64 + len - 4 else len - 4);
             Some (case r of Inl e \<Rightarrow> Inl e
               | Inr v \<Rightarrow> Inr (set_attr (a_error_code_update (\<lambda>_. Some (class + ucast (b7 mod 100), v))) st))
           }
       }
     }
   }"

text \<open>One attribute at the start of \<open>buf\<close>, which is at offset \<open>off\<close> of the attributes.\<close>

definition parse_attr ::
  "bytes \<Rightarrow> u16 \<Rightarrow> nat \<Rightarrow> bytes \<Rightarrow> nat \<Rightarrow> attrs_state \<Rightarrow> (ice_error + attrs_state) option" where
  "parse_attr trans_id typ len buf off st =
     (if typ = 0x0006 then str_attr typ buf len (\<lambda>v. a_username_update (\<lambda>_. Some v)) st
      else if typ = 0x0008 then
        (if len \<noteq> 20 then Some (Inl BadIntegrityLength)
         else do {
           v \<leftarrow> slice buf 4 24;
           Some (Inr (set_attr (a_message_integrity_update (\<lambda>_. Some v)) st
             \<lparr>s_integrity_off := off, s_ignore_rest := True\<rparr>)) })
      else if typ = 0x0009 then error_code_attr typ buf len st
      else if typ = 0x0014 then str_attr typ buf len (\<lambda>v. a_realm_update (\<lambda>_. Some v)) st
      else if typ = 0x0015 then str_attr typ buf len (\<lambda>v. a_nonce_update (\<lambda>_. Some v)) st
      else if typ = 0x0020 then do {
        rest \<leftarrow> slice buf 4 (length buf);
        r \<leftarrow> decode_xor rest trans_id;
        Some (case r of Inl e \<Rightarrow> Inl e
          | Inr a \<Rightarrow> Inr (set_attr (a_xor_mapped_address_update (\<lambda>_. Some a)) st)) }
      else if typ = 0x0022 then str_attr typ buf len (\<lambda>v. a_software_update (\<lambda>_. Some v)) st
      else if typ = 0x0024 then
        (if len \<noteq> 4 then Some (Inl BadPriorityLength)
         else do { v \<leftarrow> u32_at buf 4; Some (Inr (set_attr (a_priority_update (\<lambda>_. Some v)) st)) })
      else if typ = 0x0025 then
        (if len \<noteq> 0 then Some (Inl BadUseCandidateLength)
         else Some (Inr (set_attr (a_use_candidate_update (\<lambda>_. True)) st)))
      else if typ = 0x8028 then
        do { v \<leftarrow> u32_at buf 4; Some (Inr (set_attr (a_fingerprint_update (\<lambda>_. Some v)) st)) }
      else if typ = 0x8029 then
        (if len \<noteq> 8 then Some (Inl BadControlledLength)
         else do { v \<leftarrow> u64_at buf 4; Some (Inr (set_attr (a_ice_controlled_update (\<lambda>_. Some v)) st)) })
      else if typ = 0x802A then
        (if len \<noteq> 8 then Some (Inl BadControllingLength)
         else do { v \<leftarrow> u64_at buf 4; Some (Inr (set_attr (a_ice_controlling_update (\<lambda>_. Some v)) st)) })
      else if typ = 0xC057 then
        (if len \<noteq> 4 then Some (Inr st)
         else do {
           b4 \<leftarrow> idx buf 4; b5 \<leftarrow> idx buf 5; b6 \<leftarrow> idx buf 6; b7 \<leftarrow> idx buf 7;
           Some (Inr (set_attr (a_network_cost_update (\<lambda>_. Some (from_be16 b4 b5, from_be16 b6 b7))) st)) })
      else Some (Inr st))"

text \<open>
  The loop. \<open>buf.len() - 4\<close> does not wrap: the type and length have just been read. An attribute
  after MESSAGE-INTEGRITY is skipped, unless it is the FINGERPRINT.
\<close>

function parse_attrs ::
  "bytes \<Rightarrow> bytes \<Rightarrow> nat \<Rightarrow> attrs_state \<Rightarrow> (ice_error + attrs_state) option" where
  "parse_attrs trans_id buf off st =
     (if buf = [] then Some (Inr st)
      else case (idx buf 0, idx buf 1, idx buf 2, idx buf 3) of
        (Some b0, Some b1, Some b2, Some b3) \<Rightarrow>
          let typ = from_be16 b0 b1; len = unat (from_be16 b2 b3) in
          if length buf - 4 < len then Some (Inl (BadAttributeLength len (length buf - 4)))
          else
            (case (if \<not> s_ignore_rest st \<or> typ = 0x8028 then parse_attr trans_id typ len buf off st
                   else Some (Inr st)) of
               None \<Rightarrow> None
             | Some (Inl e) \<Rightarrow> Some (Inl e)
             | Some (Inr st') \<Rightarrow>
                 let pad_len = len + (4 - len mod 4) mod 4 in
                 (case slice buf (4 + pad_len) (length buf) of
                    None \<Rightarrow> None
                  | Some rest \<Rightarrow> parse_attrs trans_id rest (off + 4 + pad_len) st'))
      | _ \<Rightarrow> None)"
  by pat_completeness auto
termination by (relation "measure (\<lambda>(t, buf, off, st). length buf)") (auto simp: slice_def split: if_splits)

declare parse_attrs.simps [simp del]

section \<open>Messages\<close>

record stun_msg =
  m_method :: stun_method
  m_class :: stun_class
  m_trans_id :: bytes
  m_attrs :: stun_attrs
  m_integrity :: bytes
  m_integrity_len :: u16

definition check_fields :: "stun_msg \<Rightarrow> ice_error + stun_msg" where
  "check_fields m =
     (if m_method m = Binding \<and> m_class m = Success then
        (if a_xor_mapped_address (m_attrs m) = None then Inl MissingMappedAddress else Inr m)
      else if m_method m = Binding \<and> m_class m = Request then
        (if split_username (m_attrs m) = None then Inl MissingUsername
         else if a_priority (m_attrs m) = None then Inl MissingPriority
         else Inr m)
      else Inr m)"

text \<open>
  \<open>buf.len() - 20\<close> wraps on a datagram of fewer than 20 octets and then equals no length field.
\<close>

definition stun_parse :: "bytes \<Rightarrow> (ice_error + stun_msg) option" where
  "stun_parse buf =
     (if length buf < 4 then Some (Inl BufferTooShort)
      else do {
        b0 \<leftarrow> idx buf 0; b1 \<leftarrow> idx buf 1; b2 \<leftarrow> idx buf 2; b3 \<leftarrow> idx buf 3;
        let typ = from_be16 (b0 AND 0x3F) b1;
        let len = from_be16 b2 b3;
        if len AND 3 \<noteq> 0 then Some (Inl LenNotMultipleOf4)
        else if length buf < 20 \<or> unat len \<noteq> length buf - 20 then Some (Inl LenMismatch)
        else do {
          magic \<leftarrow> slice buf 4 8;
          if magic \<noteq> MAGIC then Some (Inl BadMagicCookie)
          else do {
            trans_id \<leftarrow> slice buf 8 20;
            rest \<leftarrow> slice buf 20 (length buf);
            r \<leftarrow> parse_attrs trans_id rest 0
                   \<lparr>s_attrs = no_attrs, s_integrity_off = 0, s_ignore_rest = False\<rparr>;
            (case r of
               Inl e \<Rightarrow> Some (Inl e)
             | Inr st \<Rightarrow>
                 if s_integrity_off st = 0 then Some (Inl NoMessageIntegrity)
                 else do {
                   integrity \<leftarrow> slice buf 0 (s_integrity_off st + 20);
                   Some (check_fields
                     \<lparr>m_method = method_from_typ typ, m_class = class_from_typ typ, m_trans_id = trans_id,
                      m_attrs = s_attrs st, m_integrity = integrity,
                      m_integrity_len = of_nat (s_integrity_off st + 4 + 20)\<rparr>)
                 })
          }
        }
      })"

definition stun_binding_request ::
  "bytes \<Rightarrow> bytes \<Rightarrow> bool \<Rightarrow> u64 \<Rightarrow> u32 \<Rightarrow> bool \<Rightarrow> stun_msg" where
  "stun_binding_request username trans_id controlling control_tie_breaker prio use_candidate =
     \<lparr>m_method = Binding, m_class = Request, m_trans_id = trans_id,
      m_attrs = no_attrs\<lparr>a_username := Some username,
        a_ice_controlling := (if controlling then Some control_tie_breaker else None),
        a_ice_controlled := (if \<not> controlling then Some control_tie_breaker else None),
        a_priority := Some prio, a_use_candidate := use_candidate\<rparr>,
      m_integrity = [], m_integrity_len = 0\<rparr>"

definition stun_reply :: "bytes \<Rightarrow> sock_addr \<Rightarrow> stun_msg" where
  "stun_reply trans_id mapped_address =
     \<lparr>m_method = Binding, m_class = Success, m_trans_id = trans_id,
      m_attrs = no_attrs\<lparr>a_xor_mapped_address := Some mapped_address\<rparr>,
      m_integrity = [], m_integrity_len = 0\<rparr>"

text \<open>\<open>hmac key payload\<close> stands for \<open>sha1_hmac\<close>, which concatenates its payloads.\<close>

definition check_integrity :: "(bytes \<Rightarrow> bytes \<Rightarrow> bytes) \<Rightarrow> stun_msg \<Rightarrow> bytes \<Rightarrow> bool option" where
  "check_integrity hmac m password =
     (case a_message_integrity (m_attrs m) of
        None \<Rightarrow> Some False
      | Some integ \<Rightarrow> do {
          head \<leftarrow> slice (m_integrity m) 0 2;
          tail \<leftarrow> slice (m_integrity m) 4 (length (m_integrity m));
          Some (hmac password (head @ to_be16 (m_integrity_len m) @ tail) = integ)
        })"

text \<open>
  \<open>to_bytes\<close>: everything is first written with placeholders through a cursor, which fails when
  the buffer is too small; then the digest, the length and the CRC are filled in.
\<close>

definition stun_to_bytes ::
  "(bytes \<Rightarrow> bytes \<Rightarrow> bytes) \<Rightarrow> (bytes \<Rightarrow> u32) \<Rightarrow> stun_msg \<Rightarrow> bytes \<Rightarrow> bytes
     \<Rightarrow> (ice_error + bytes \<times> nat) option" where
  "stun_to_bytes hmac crc m password buf = do {
     let attr_len = padded_len (m_attrs m) + 20 + 4 + 4 + 4;
     c \<leftarrow> class_to_u16 (m_class m);
     t \<leftarrow> method_to_u16 (m_method m);
     let written = to_be16 (c OR t) @ to_be16 (of_nat (attr_len - 8)) @ MAGIC @ m_trans_id m
           @ attrs_to_bytes (m_attrs m) (m_trans_id m)
           @ tlv 0x0008 (replicate 20 0) @ tlv 0x8028 (replicate 4 0);
     if length buf < length written then Some (Inl WriteZero)
     else do {
       let buf = written @ drop (length written) buf;
       let integrity_value_offset = 20 + padded_len (m_attrs m) + 4;
       let fingerprint_value_offset = integrity_value_offset + 20 + 4;
       signed \<leftarrow> slice buf 0 (integrity_value_offset - 4);
       buf \<leftarrow> copy_in buf integrity_value_offset (hmac password signed);
       buf \<leftarrow> copy_in buf 2 (to_be16 (of_nat attr_len));
       summed \<leftarrow> slice buf 0 (fingerprint_value_offset - 4);
       buf \<leftarrow> copy_in buf fingerprint_value_offset (to_be32 (crc summed XOR 0x5354554E));
       Some (Inr (buf, 20 + attr_len))
     }
   }"

section \<open>Reading back what was written\<close>

lemma length_tlv [simp]: "length (tlv typ v) = 4 + length v"
  by (simp add: tlv_def)

lemma parse_attrs_tlv:
  assumes "length v < 65536" and "pad = replicate ((4 - length v mod 4) mod 4) 0"
  shows "parse_attrs t (tlv typ v @ pad @ rest) off st =
    (case (if \<not> s_ignore_rest st \<or> typ = 0x8028
           then parse_attr t typ (length v) (tlv typ v @ pad @ rest) off st else Some (Inr st)) of
       None \<Rightarrow> None
     | Some (Inl e) \<Rightarrow> Some (Inl e)
     | Some (Inr st') \<Rightarrow> parse_attrs t rest (off + length (tlv typ v) + length pad) st')"
proof -
  let ?b = "tlv typ v @ pad @ rest"
  have heads: "idx ?b 0 = Some (ucast (drop_bit 8 typ))" "idx ?b 1 = Some (ucast typ)"
    "idx ?b 2 = Some (ucast (drop_bit 8 (of_nat (length v) :: u16)))" "idx ?b 3 = Some (ucast (of_nat (length v) :: u16))"
    by (simp_all add: tlv_def to_be16_def idx_def nth_append)
  have len: "unat (of_nat (length v) :: u16) = length v"
    using assms(1) by (simp add: unat_of_nat)
  have ne: "?b \<noteq> []" by (simp add: tlv_def to_be16_def)
  have fits: "\<not> length ?b - 4 < length v" by simp
  have rest: "slice ?b (4 + (length v + (4 - length v mod 4) mod 4)) (length ?b) = Some rest"
    by (simp add: slice_def assms(2) tlv_def)
  show ?thesis
    by (subst parse_attrs.simps)
      (simp only: ne if_False heads prod.case option.case from_be16_parts Let_def len fits rest,
       simp add: assms(2) add.assoc split: option.splits sum.splits)
qed

lemma parse_attrs_Nil [simp]: "parse_attrs t [] off st = Some (Inr st)"
  by (subst parse_attrs.simps) simp


lemma zero_attr: "replicate 4 0 = tlv 0 []"
  by (simp add: tlv_def to_be16_def numeral_eq_Suc)

lemma parse_attrs_skip4: "parse_attrs t (replicate 4 0 @ rest) off st = parse_attrs t rest (off + 4) st"
  using parse_attrs_tlv [of "[]" "[]" t 0 rest off st] by (simp add: zero_attr parse_attr_def)

definition str_ok :: "bytes \<Rightarrow> bool" where
  "str_ok v \<longleftrightarrow> utf8_ok v \<and> length v \<le> 128"

lemma str_attr_tlv:
  "str_ok v \<Longrightarrow> str_attr typ (tlv typ v @ rest) (length v) upd st = Some (Inr (set_attr (upd v) st))"
  by (simp add: str_attr_def decode_str_def str_ok_def slice_def tlv_def)

lemma tlv_value [simp]:
  "u32_at (tlv typ (to_be32 v) @ rest) 4 = Some v"
  "slice (tlv typ w @ rest) 4 (4 + length w) = Some w"
  using u32_at_append [of "to_be16 typ @ to_be16 (of_nat (length (to_be32 v)))" v rest]
  by (simp_all add: tlv_def slice_def)

lemma u64_at_tlv [simp]: "u64_at (tlv typ (to_be64 v) @ rest) 4 = Some v"
proof -
  have "u32_at (tlv typ (to_be64 v) @ rest) 4 = Some (ucast (drop_bit 32 v))"
    using u32_at_append [of "to_be16 typ @ to_be16 8" "ucast (drop_bit 32 v)" "to_be32 (ucast v) @ rest"]
    by (simp add: tlv_def to_be64_def)
  moreover have "u32_at (tlv typ (to_be64 v) @ rest) 8 = Some (ucast v)"
    using u32_at_append [of "to_be16 typ @ to_be16 8 @ to_be32 (ucast (drop_bit 32 v))" "ucast v" rest]
    by (simp add: tlv_def to_be64_def)
  ultimately show ?thesis by (simp add: u64_at_def)
qed

lemma xor_bytes_Cons [simp]: "xor_bytes (x # xs) (y # ys) = (x XOR y) # xor_bytes xs ys"
  by (simp add: xor_bytes_def)

lemma xor_bytes_Nil [simp]: "xor_bytes [] ys = []"
  by (simp add: xor_bytes_def)

lemma length_xor_bytes [simp]: "length (xor_bytes xs ys) = min (length xs) (length ys)"
  by (simp add: xor_bytes_def)

lemma xor_bytes_twice: "length xs \<le> length ys \<Longrightarrow> xor_bytes (xor_bytes xs ys) ys = xs"
proof (induction xs arbitrary: ys)
  case (Cons x xs)
  then show ?case by (cases ys) (simp_all add: xor.assoc)
qed simp

definition addr_ok :: "sock_addr \<Rightarrow> bool" where
  "addr_ok a \<longleftrightarrow> (case sa_ip a of V4 _ \<Rightarrow> True | V6 os \<Rightarrow> length os = 16)"

lemma decode_encode_xor:
  assumes "addr_ok a" and "length t = 12"
  shows "decode_xor (encode_xor a t @ rest) t = Some (Inr a)"
proof (cases "sa_ip a")
  case (V4 ip)
  have port: "from_be16 (ucast (drop_bit 8 p)) (ucast p) XOR 0x2112 = p XOR 0x2112" for p by simp
  have e: "encode_xor a t = [0, 1, ucast (drop_bit 8 (sa_port a XOR 0x2112)), ucast (sa_port a XOR 0x2112)]
      @ xor_bytes (to_be32 ip) MAGIC"
    by (simp add: encode_xor_def V4 to_be16_def MAGIC_def to_be32_def)
  have o4: "slice (xor_bytes (to_be32 ip) MAGIC @ rest) 0 4 = Some (xor_bytes (to_be32 ip) MAGIC)"
    by (simp add: slice_def MAGIC_def)
  have "xor_bytes (xor_bytes (to_be32 ip) MAGIC) MAGIC = to_be32 ip"
    by (rule xor_bytes_twice) (simp add: MAGIC_def)
  then have restored: "xor_bytes (xor_bytes (to_be32 ip) MAGIC) MAGIC
      = [ucast (drop_bit 24 ip), ucast (drop_bit 16 ip), ucast (drop_bit 8 ip), ucast ip]"
    by (simp only: to_be32_def)
  show ?thesis
    by (simp only: e decode_xor_def append_Cons append_Nil)
      (simp add: idx_def slice_def [of "_ # _"] o4 restored port V4 [symmetric] xor.assoc
        del: drop_bit_xor)
next
  case (V6 os)
  have os: "length os = 16" using assms(1) V6 by (simp add: addr_ok_def)
  have e: "encode_xor a t = [0, 2, ucast (drop_bit 8 (sa_port a XOR 0x2112)), ucast (sa_port a XOR 0x2112)]
      @ xor_bytes os (MAGIC @ t)"
    by (simp add: encode_xor_def V6 to_be16_def)
  have len: "length (MAGIC @ t) = 16" using assms(2) by (simp add: MAGIC_def)
  have o16: "slice (xor_bytes os (MAGIC @ t) @ rest) 0 16 = Some (xor_bytes os (MAGIC @ t))"
    using os len by (simp add: slice_def)
  have restored: "xor_bytes (xor_bytes os (MAGIC @ t)) (MAGIC @ t) = os"
    by (rule xor_bytes_twice) (simp add: os len del: length_append)
  show ?thesis
    by (simp only: e decode_xor_def append_Cons append_Nil)
      (simp add: idx_def slice_def [of "_ # _"] o16 restored V6 [symmetric] xor.assoc del: drop_bit_xor)
qed


lemma set_attr_keeps [simp]:
  "s_ignore_rest (set_attr f st) = s_ignore_rest st" "s_integrity_off (set_attr f st) = s_integrity_off st"
  "s_attrs (set_attr f st) = f (s_attrs st)"
  by (simp_all add: set_attr_def)

lemma username_written:
  assumes "str_ok v" and "\<not> s_ignore_rest st"
  shows "parse_attrs t (tlv 0x0006 v @ replicate (username_pad (length v)) 0 @ rest) off st =
    parse_attrs t rest (off + (4 + length v + username_pad (length v)))
      (set_attr (a_username_update (\<lambda>_. Some v)) st)"
proof -
  let ?st = "set_attr (a_username_update (\<lambda>_. Some v)) st"
  let ?pad = "replicate ((4 - length v mod 4) mod 4) (0 :: u8)"
  have small: "length v < 65536" using assms(1) by (simp add: str_ok_def)
  have step: "parse_attrs t (tlv 0x0006 v @ ?pad @ r) off st = parse_attrs t r (off + (4 + length v + length ?pad)) ?st" for r
    using assms by (simp add: parse_attrs_tlv [OF small refl] parse_attr_def str_attr_tlv add.assoc)
  show ?thesis
  proof (cases "length v mod 4 = 0")
    case True
    with step [of "replicate 4 0 @ rest"] show ?thesis
      by (simp add: username_pad_def parse_attrs_skip4 add.assoc)
  next
    case False
    moreover from this have "4 - length v mod 4 < 4" by simp
    ultimately show ?thesis using step [of rest] by (simp add: username_pad_def)
  qed
qed

lemma other_attrs_written:
  assumes "\<not> s_ignore_rest st"
  shows "parse_attrs t (tlv 0x8029 (to_be64 c) @ rest) off st =
      parse_attrs t rest (off + 12) (set_attr (a_ice_controlled_update (\<lambda>_. Some c)) st)"
    and "parse_attrs t (tlv 0x802A (to_be64 c) @ rest) off st =
      parse_attrs t rest (off + 12) (set_attr (a_ice_controlling_update (\<lambda>_. Some c)) st)"
    and "parse_attrs t (tlv 0x0024 (to_be32 p) @ rest) off st =
      parse_attrs t rest (off + 8) (set_attr (a_priority_update (\<lambda>_. Some p)) st)"
    and "parse_attrs t (tlv 0x0025 [] @ rest) off st =
      parse_attrs t rest (off + 4) (set_attr (a_use_candidate_update (\<lambda>_. True)) st)"
  using assms parse_attrs_tlv [of "to_be64 c" "[]" t _ rest off st]
    parse_attrs_tlv [of "to_be32 p" "[]" t _ rest off st] parse_attrs_tlv [of "[]" "[]" t _ rest off st]
  by (simp_all add: parse_attr_def)

lemma length_encode_xor:
  "addr_ok a \<Longrightarrow> length t = 12 \<Longrightarrow> length (encode_xor a t) = (case sa_ip a of V4 _ \<Rightarrow> 8 | V6 _ \<Rightarrow> 20)"
  by (cases "sa_ip a") (simp_all add: encode_xor_def addr_ok_def MAGIC_def)

lemma address_written:
  assumes "\<not> s_ignore_rest st" and "addr_ok a" and "length t = 12"
  shows "parse_attrs t (tlv 0x0020 (encode_xor a t) @ rest) off st =
    parse_attrs t rest (off + (4 + (case sa_ip a of V4 _ \<Rightarrow> 8 | V6 _ \<Rightarrow> 20)))
      (set_attr (a_xor_mapped_address_update (\<lambda>_. Some a)) st)"
proof -
  have small: "length (encode_xor a t) < 65536" and pad: "[] = replicate ((4 - length (encode_xor a t) mod 4) mod 4) (0 :: u8)"
    using assms(2,3) by (simp_all add: length_encode_xor split: ip_addr.splits)
  have "slice (tlv 0x0020 (encode_xor a t) @ rest) 4 (length (tlv 0x0020 (encode_xor a t) @ rest))
      = Some (encode_xor a t @ rest)"
    by (simp add: slice_def tlv_def)
  then show ?thesis
    using parse_attrs_tlv [OF small pad, of t "0x0020" rest off st] assms
    by (simp add: parse_attr_def decode_encode_xor length_encode_xor)
qed

definition set_opt :: "(('a option \<Rightarrow> 'a option) \<Rightarrow> stun_attrs \<Rightarrow> stun_attrs) \<Rightarrow> 'a option \<Rightarrow> stun_attrs \<Rightarrow> stun_attrs" where
  "set_opt upd x a = (case x of None \<Rightarrow> a | Some v \<Rightarrow> upd (\<lambda>_. Some v) a)"

definition written_attrs :: "stun_attrs \<Rightarrow> stun_attrs \<Rightarrow> stun_attrs" where
  "written_attrs a a0 =
     (if a_use_candidate a then a_use_candidate_update (\<lambda>_. True) else id)
       (set_opt a_xor_mapped_address_update (a_xor_mapped_address a)
         (set_opt a_priority_update (a_priority a)
           (set_opt a_ice_controlling_update (a_ice_controlling a)
             (set_opt a_ice_controlled_update (a_ice_controlled a)
               (set_opt a_username_update (a_username a) a0)))))"

definition sendable :: "stun_attrs \<Rightarrow> bool" where
  "sendable a \<longleftrightarrow> pred_option str_ok (a_username a) \<and> pred_option addr_ok (a_xor_mapped_address a)"

lemma parse_opt:
  assumes "\<And>v r off st. x = Some v \<Longrightarrow> \<not> s_ignore_rest st \<Longrightarrow>
      parse_attrs t (f v @ r) off st = parse_attrs t r (off + n v) (set_attr (upd (\<lambda>_. Some v)) st)"
    and "\<not> s_ignore_rest st"
  shows "parse_attrs t (opt_bytes f x @ r) off st
    = parse_attrs t r (off + opt_len n x) (set_attr (set_opt upd x) st)"
  using assms by (cases x) (simp_all add: opt_bytes_def opt_len_def set_opt_def set_attr_def)

lemma set_attr_twice: "set_attr f (set_attr g st) = set_attr (\<lambda>a. f (g a)) st"
  by (simp add: set_attr_def)

lemma parse_attrs_written:
  assumes "sendable a" and "length t = 12" and st: "\<not> s_ignore_rest st"
  shows "parse_attrs t (attrs_to_bytes a t @ rest) off st =
    parse_attrs t rest (off + padded_len a) (set_attr (written_attrs a) st)"
proof -
  have user: "parse_attrs t (opt_bytes (\<lambda>v. tlv 0x0006 v @ replicate (username_pad (length v)) 0) (a_username a) @ r) off st
      = parse_attrs t r (off + opt_len (\<lambda>v. 4 + length v + username_pad (length v)) (a_username a))
         (set_attr (set_opt a_username_update (a_username a)) st)"
    if "\<not> s_ignore_rest st" for r off st
    by (rule parse_opt [OF _ that], simp only: append.assoc, rule username_written)
      (use assms(1) in \<open>simp_all add: sendable_def\<close>)
  have addr: "parse_attrs t (opt_bytes (\<lambda>a. tlv 0x0020 (encode_xor a t)) (a_xor_mapped_address a) @ r) off st
      = parse_attrs t r (off + opt_len (\<lambda>a. 4 + (case sa_ip a of V4 _ \<Rightarrow> 8 | V6 _ \<Rightarrow> 20)) (a_xor_mapped_address a))
         (set_attr (set_opt a_xor_mapped_address_update (a_xor_mapped_address a)) st)"
    if "\<not> s_ignore_rest st" for r off st
    by (rule parse_opt [OF _ that], rule address_written)
      (use assms(1,2) in \<open>simp_all add: sendable_def\<close>)
  have controlled: "parse_attrs t (opt_bytes (\<lambda>v. tlv 0x8029 (to_be64 v)) x @ r) off st
      = parse_attrs t r (off + opt_len (\<lambda>_. 4 + 8) x) (set_attr (set_opt a_ice_controlled_update x) st)"
    if "\<not> s_ignore_rest st" for r off st x
    by (rule parse_opt [OF _ that]) (simp add: other_attrs_written)
  have controlling: "parse_attrs t (opt_bytes (\<lambda>v. tlv 0x802A (to_be64 v)) x @ r) off st
      = parse_attrs t r (off + opt_len (\<lambda>_. 4 + 8) x) (set_attr (set_opt a_ice_controlling_update x) st)"
    if "\<not> s_ignore_rest st" for r off st x
    by (rule parse_opt [OF _ that]) (simp add: other_attrs_written)
  have prio: "parse_attrs t (opt_bytes (\<lambda>v. tlv 0x0024 (to_be32 v)) x @ r) off st
      = parse_attrs t r (off + opt_len (\<lambda>_. 4 + 4) x) (set_attr (set_opt a_priority_update x) st)"
    if "\<not> s_ignore_rest st" for r off st x
    by (rule parse_opt [OF _ that]) (simp add: other_attrs_written)
  have use: "parse_attrs t ((if b then tlv 0x0025 [] else []) @ r) off st
      = parse_attrs t r (off + (if b then 4 else 0))
          (set_attr (if b then a_use_candidate_update (\<lambda>_. True) else id) st)"
    if "\<not> s_ignore_rest st" for r off st b
    using that by (cases b) (simp_all add: other_attrs_written, simp add: set_attr_def)
  show ?thesis
    by (simp only: attrs_to_bytes_def append.assoc user controlled controlling prio addr use st
        set_attr_keeps not_False_eq_True)
      (simp only: set_attr_twice written_attrs_def [abs_def] padded_len_def add.assoc)
qed


section \<open>Whole messages\<close>

lemma opt_len_bytes: "\<lbrakk>\<And>v. x = Some v \<Longrightarrow> length (f v) = n v\<rbrakk> \<Longrightarrow> length (opt_bytes f x) = opt_len n x"
  by (cases x) (simp_all add: opt_bytes_def opt_len_def)

lemma length_attrs_to_bytes:
  assumes "sendable a" and "length t = 12"
  shows "length (attrs_to_bytes a t) = padded_len a"
proof -
  have "length (opt_bytes (\<lambda>a. tlv 0x0020 (encode_xor a t)) (a_xor_mapped_address a))
      = opt_len (\<lambda>a. 4 + (case sa_ip a of V4 _ \<Rightarrow> 8 | V6 _ \<Rightarrow> 20)) (a_xor_mapped_address a)"
    using assms by (intro opt_len_bytes) (simp add: sendable_def length_encode_xor)
  then show ?thesis
    unfolding attrs_to_bytes_def padded_len_def length_append by (simp add: opt_len_bytes)
qed

lemma padded_len_mod4: "4 dvd padded_len a"
proof -
  have "4 dvd n + username_pad n" for n :: nat
  proof -
    define q r where "q = n div 4" and "r = n mod 4"
    have "n = 4 * q + r" "r < 4" by (simp_all add: q_def r_def)
    then have "n + username_pad n = 4 * (q + 1)" by (simp add: username_pad_def)
    then show ?thesis by simp
  qed
  then have "4 dvd opt_len (\<lambda>v. 4 + length v + username_pad (length v)) (a_username a)"
    by (auto simp: opt_len_def add.assoc split: option.splits)
  moreover have "4 dvd opt_len (\<lambda>a. 4 + (case sa_ip a of V4 _ \<Rightarrow> 8 | V6 _ \<Rightarrow> 20)) (a_xor_mapped_address a)"
    by (auto simp: opt_len_def split: option.splits ip_addr.splits)
  moreover have "4 dvd opt_len (\<lambda>_. 4 + 8) (x :: u64 option)" "4 dvd opt_len (\<lambda>_. 4 + 4) (y :: u32 option)" for x y
    by (auto simp: opt_len_def split: option.splits)
  ultimately show ?thesis unfolding padded_len_def by (intro dvd_add) auto
qed

lemma padded_len_bound:
  assumes "sendable a" shows "padded_len a \<le> 512"
proof -
  have "opt_len (\<lambda>v. 4 + length v + username_pad (length v)) (a_username a) \<le> 200"
    using assms by (auto simp: sendable_def str_ok_def opt_len_def username_pad_def split: option.splits)
  moreover have "opt_len (\<lambda>a. 4 + (case sa_ip a of V4 _ \<Rightarrow> 8 | V6 _ \<Rightarrow> 20)) (a_xor_mapped_address a) \<le> 24"
    by (auto simp: opt_len_def split: option.splits ip_addr.splits)
  moreover have "opt_len (\<lambda>_. 4 + 8) (x :: u64 option) \<le> 12" "opt_len (\<lambda>_. 4 + 4) (y :: u32 option) \<le> 8" for x y
    by (auto simp: opt_len_def split: option.splits)
  from this(1) [of "a_ice_controlled a"] this(1) [of "a_ice_controlling a"] this(2) [of "a_priority a"]
  moreover have "(if a_use_candidate a then 4 else 0) \<le> (4 :: nat)" by simp
  ultimately show ?thesis unfolding padded_len_def by linarith
qed

lemma multiple_of_4: "4 dvd n \<Longrightarrow> (of_nat n :: u16) AND 3 = 0"
proof -
  assume "4 dvd n"
  then obtain k where "n = k * 2 ^ 2" by (auto simp: dvd_def)
  then have "(of_nat n :: u16) = push_bit 2 (of_nat k)" by (simp add: push_bit_eq_mult)
  moreover have "push_bit 2 w AND mask 2 = 0" for w :: u16
    by (rule bit_word_eqI) (auto simp: bit_simps)
  moreover have "mask 2 = (3 :: u16)" by (simp add: mask_eq_exp_minus_1)
  ultimately show ?thesis by metis
qed

definition stun_bytes :: "u16 \<Rightarrow> u16 \<Rightarrow> bytes \<Rightarrow> bytes \<Rightarrow> bytes \<Rightarrow> u32 \<Rightarrow> bytes" where
  "stun_bytes typ len t as h fp =
     to_be16 typ @ to_be16 len @ MAGIC @ t @ as @ tlv 0x0008 h @ tlv 0x8028 (to_be32 fp)"

lemma length_MAGIC [simp]: "length MAGIC = 4"
  by (simp add: MAGIC_def)

lemma stun_to_bytes_layout:
  fixes password :: bytes
  assumes ok: "sendable (m_attrs m)" "length (m_trans_id m) = 12"
    and kind: "class_to_u16 (m_class m) = Some c" "method_to_u16 (m_method m) = Some mt"
    and hmac: "\<And>k d. length (hmac k d) = 20" and room: "52 + padded_len (m_attrs m) \<le> length buf"
  defines "as \<equiv> attrs_to_bytes (m_attrs m) (m_trans_id m)" and "n \<equiv> padded_len (m_attrs m)"
  defines "h \<equiv> hmac password (to_be16 (c OR mt) @ to_be16 (of_nat (n + 24)) @ MAGIC @ m_trans_id m @ as)"
  shows "\<exists>fp. stun_to_bytes hmac crc m password buf =
    Some (Inr (stun_bytes (c OR mt) (of_nat (n + 32)) (m_trans_id m) as h fp @ drop (52 + n) buf, 52 + n))"
proof -
  have as: "length as = n" unfolding as_def n_def by (rule length_attrs_to_bytes [OF ok])
  have h: "length h = 20" by (simp add: h_def hmac)
  let ?t = "m_trans_id m" and ?ct = "c OR mt"
  define head where "head l = to_be16 ?ct @ to_be16 l @ MAGIC @ ?t" for l
  have head: "length (head l) = 20" for l by (simp add: head_def ok)
  let ?post = "drop (52 + n) buf"
  let ?l1 = "of_nat (n + 24) :: u16" and ?l2 = "of_nat (n + 32) :: u16"
  let ?z = "tlv 0x8028 (replicate 4 0)"
  let ?w = "head ?l1 @ as @ tlv 0x0008 (replicate 20 0) @ ?z"
  have w: "length ?w = 52 + n" by (simp add: head as)
  have c1: "copy_in (?w @ ?post) (20 + n + 4) h = Some ((head ?l1 @ as @ tlv 0x0008 h) @ ?z @ ?post)"
    using copy_in_append [of "replicate 20 0" h "head ?l1 @ as @ to_be16 0x0008 @ to_be16 20" "?z @ ?post"]
    by (simp add: head as h tlv_def)
  have c2: "copy_in ((head ?l1 @ as @ tlv 0x0008 h) @ ?z @ ?post) 2 (to_be16 ?l2)
      = Some ((head ?l2 @ as @ tlv 0x0008 h) @ ?z @ ?post)"
    using copy_in_append [of "to_be16 ?l1" "to_be16 ?l2" "to_be16 ?ct" "MAGIC @ ?t @ as @ tlv 0x0008 h @ ?z @ ?post"]
    by (simp add: head_def)
  define fp where "fp = crc (head ?l2 @ as @ tlv 0x0008 h) XOR 0x5354554E"
  have c3: "copy_in ((head ?l2 @ as @ tlv 0x0008 h) @ ?z @ ?post) (20 + n + 4 + 20 + 4) (to_be32 fp)
      = Some ((head ?l2 @ as @ tlv 0x0008 h @ tlv 0x8028 (to_be32 fp)) @ ?post)"
    using copy_in_append [of "replicate 4 0" "to_be32 fp" "head ?l2 @ as @ tlv 0x0008 h @ to_be16 0x8028 @ to_be16 4" ?post]
    by (simp add: head as h tlv_def)
  have s1: "slice (?w @ ?post) 0 (20 + n) = Some (head ?l1 @ as)"
    by (simp add: slice_def head as)
  have s2: "slice ((head ?l2 @ as @ tlv 0x0008 h) @ ?z @ ?post) 0 (20 + n + 4 + 20) = Some (head ?l2 @ as @ tlv 0x0008 h)"
    by (simp add: slice_def head as h)
  have hm: "hmac password (head ?l1 @ as) = h" by (simp add: h_def head_def)
  have eq: "to_be16 ?ct @ to_be16 ?l1 @ MAGIC @ ?t @ as @ tlv 0x0008 (replicate 20 0) @ ?z = ?w"
    by (simp add: head_def)
  have sums: "n + 20 + 4 + 4 + 4 = n + 32" "n + 32 - 8 = n + 24" "20 + n + 4 - 4 = 20 + n"
    "20 + n + 4 + 20 + 4 - 4 = 20 + n + 4 + 20" "20 + (n + 32) = 52 + n"
    by simp_all
  have fits: "\<not> length buf < 52 + n" using room by (simp add: n_def)
  have reassoc: "?w @ ?post = head ?l1 @ as @ tlv 0x0008 (replicate 20 0) @ ?z @ ?post" by simp
  have "stun_to_bytes hmac crc m password buf =
      Some (Inr ((head ?l2 @ as @ tlv 0x0008 h @ tlv 0x8028 (to_be32 fp)) @ ?post, 52 + n))"
    by (simp only: stun_to_bytes_def kind Option.bind.bind_lunit Let_def as_def [symmetric] n_def [symmetric]
        sums eq w fits if_False c1 c2 c3 s1 s2 hm fp_def [symmetric])
  then show ?thesis by (auto simp: stun_bytes_def head_def)
qed


lemma stun_typ_octets:
  assumes "class_to_u16 cl = Some c" and "method_to_u16 me = Some mt"
  shows "class_from_typ (c OR mt) = cl \<and> method_from_typ (c OR mt) = me
    \<and> from_be16 (ucast (drop_bit 8 (c OR mt)) AND 0x3F) (ucast (c OR mt)) = c OR mt"
  using assms by (cases cl; cases me)
    (auto simp: class_from_typ_def method_from_typ_def from_be16_def)

lemma stun_parse_bytes:
  assumes a: "sendable a" "length t = 12" and h: "length h = 20" and n: "n = padded_len a" "0 < n"
    and kind: "class_to_u16 cl = Some c" "method_to_u16 me = Some mt"
  shows "stun_parse (stun_bytes (c OR mt) (of_nat (n + 32)) t (attrs_to_bytes a t) h fp) =
    Some (check_fields \<lparr>m_method = me, m_class = cl, m_trans_id = t,
      m_attrs = (written_attrs a no_attrs)\<lparr>a_message_integrity := Some h, a_fingerprint := Some fp\<rparr>,
      m_integrity = to_be16 (c OR mt) @ to_be16 (of_nat (n + 32)) @ MAGIC @ t @ attrs_to_bytes a t,
      m_integrity_len = of_nat (n + 24)\<rparr>)"
proof -
  define ty where "ty = c OR mt"
  note ty = stun_typ_octets [OF kind, folded ty_def]
  let ?as = "attrs_to_bytes a t" and ?len = "of_nat (n + 32) :: u16"
  let ?d = "stun_bytes (ty) ?len t ?as h fp"
  have as: "length ?as = n" using length_attrs_to_bytes [OF a] n by simp
  have d: "length ?d = n + 52" by (simp add: stun_bytes_def as a h)
  have bound: "n + 32 < 65536" using padded_len_bound [OF a(1)] n by simp
  have unat_len: "unat ?len = n + 32" using bound by (subst unat_of_nat) simp
  have len4: "?len AND 3 = 0" using padded_len_mod4 [of a] n by (intro multiple_of_4) (simp add: dvd_add)
  have octets: "idx ?d 0 = Some (ucast (drop_bit 8 (ty)))" "idx ?d (Suc 0) = Some (ucast (ty))"
    "idx ?d 2 = Some (ucast (drop_bit 8 ?len))" "idx ?d 3 = Some (ucast ?len)"
    by (simp_all add: stun_bytes_def to_be16_def idx_def nth_append del: of_nat_add)
  let ?tail = "tlv 0x0008 h @ tlv 0x8028 (to_be32 fp)"
  have slices: "slice ?d 4 8 = Some MAGIC" "slice ?d 8 20 = Some t" "slice ?d 20 (length ?d) = Some (?as @ ?tail)"
    "slice ?d 0 (n + 20) = Some (to_be16 (ty) @ to_be16 ?len @ MAGIC @ t @ ?as)"
    using a(2) as h by (simp_all add: stun_bytes_def slice_def)
  let ?st = "\<lparr>s_attrs = no_attrs, s_integrity_off = 0, s_ignore_rest = False\<rparr>"
  have mi: "parse_attr t 0x0008 20 (tlv 0x0008 h @ tlv 0x8028 (to_be32 fp)) n st
      = Some (Inr (set_attr (a_message_integrity_update (\<lambda>_. Some h)) st\<lparr>s_integrity_off := n, s_ignore_rest := True\<rparr>))" for st
    using tlv_value(2) [of "0x0008" h "tlv 0x8028 (to_be32 fp)"] h by (simp add: parse_attr_def)
  have "parse_attrs t (?as @ ?tail) 0 ?st = Some (Inr
      \<lparr>s_attrs = (written_attrs a no_attrs)\<lparr>a_message_integrity := Some h, a_fingerprint := Some fp\<rparr>,
       s_integrity_off = n, s_ignore_rest = True\<rparr>)"
    using parse_attrs_written [OF a, of ?st ?tail 0]
      parse_attrs_tlv [of h "[]" t "0x0008" "tlv 0x8028 (to_be32 fp)" n "set_attr (written_attrs a) ?st"]
      parse_attrs_tlv [of "to_be32 fp" "[]" t "0x8028" "[]"] tlv_value(1) [of "0x8028" fp "[]"]
    by (simp add: n(1) [symmetric] h mi) (simp add: parse_attr_def set_attr_def)
  then show ?thesis
    unfolding ty_def [symmetric] using n(2) ty d
    by (simp add: stun_parse_def octets len4 unat_len slices [unfolded d] add.commute [of 20] del: of_nat_add)
      (simp add: add.commute)
qed


definition stun_sendable :: "stun_msg \<Rightarrow> bool" where
  "stun_sendable m \<longleftrightarrow> class_to_u16 (m_class m) \<noteq> None \<and> method_to_u16 (m_method m) \<noteq> None
     \<and> length (m_trans_id m) = 12 \<and> sendable (m_attrs m)
     \<and> written_attrs (m_attrs m) no_attrs = m_attrs m \<and> 0 < padded_len (m_attrs m)
     \<and> check_fields m = Inr m"

text \<open>C13. What \<open>to_bytes\<close> writes, \<open>parse\<close> reads back: the kind of message, the transaction and every
  attribute, the integrity check succeeds under the same password, and the bytes beyond the
  message are untouched. This covers the binding requests and replies str0m sends, with IPv4 and
  IPv6 addresses.\<close>

theorem stun_message_roundtrip:
  assumes "stun_sendable m" and hmac: "\<forall>k d. length (hmac k d) = 20"
    and room: "52 + padded_len (m_attrs m) \<le> length buf"
  shows "\<exists>out n m' mi fp. stun_to_bytes hmac crc m password buf = Some (Inr (out, n))
    \<and> length out = length buf \<and> drop n out = drop n buf \<and> stun_parse (take n out) = Some (Inr m')
    \<and> m_method m' = m_method m \<and> m_class m' = m_class m \<and> m_trans_id m' = m_trans_id m
    \<and> m_attrs m' = (m_attrs m)\<lparr>a_message_integrity := Some mi, a_fingerprint := Some fp\<rparr>
    \<and> check_integrity hmac m' password = Some True"
proof -
  from assms(1) obtain c mt where kind: "class_to_u16 (m_class m) = Some c" "method_to_u16 (m_method m) = Some mt"
    and ok: "sendable (m_attrs m)" "length (m_trans_id m) = 12"
    and only: "written_attrs (m_attrs m) no_attrs = m_attrs m" and pos: "0 < padded_len (m_attrs m)"
    and fields: "check_fields m = Inr m"
    by (auto simp: stun_sendable_def)
  let ?as = "attrs_to_bytes (m_attrs m) (m_trans_id m)" and ?n = "padded_len (m_attrs m)"
  let ?h = "hmac password (to_be16 (c OR mt) @ to_be16 (of_nat (?n + 24)) @ MAGIC @ m_trans_id m @ ?as)"
  obtain fp where out: "stun_to_bytes hmac crc m password buf = Some (Inr
      (stun_bytes (c OR mt) (of_nat (?n + 32)) (m_trans_id m) ?as ?h fp @ drop (52 + ?n) buf, 52 + ?n))"
    using stun_to_bytes_layout [where hmac = hmac, OF ok kind _ room] hmac by blast
  let ?d = "stun_bytes (c OR mt) (of_nat (?n + 32)) (m_trans_id m) ?as ?h fp"
  have len: "length ?d = 52 + ?n"
    using ok length_attrs_to_bytes [OF ok] hmac by (simp add: stun_bytes_def)
  let ?m = "\<lparr>m_method = m_method m, m_class = m_class m, m_trans_id = m_trans_id m,
      m_attrs = (m_attrs m)\<lparr>a_message_integrity := Some ?h, a_fingerprint := Some fp\<rparr>,
      m_integrity = to_be16 (c OR mt) @ to_be16 (of_nat (?n + 32)) @ MAGIC @ m_trans_id m @ ?as,
      m_integrity_len = of_nat (?n + 24)\<rparr>"
  have "check_fields ?m = Inr ?m"
    using fields by (auto simp: check_fields_def split_username_def split: if_splits)
  then have parsed: "stun_parse ?d = Some (Inr ?m)"
    using stun_parse_bytes [OF ok _ refl pos kind, of ?h fp] only hmac by simp
  have "check_integrity hmac ?m password = Some True"
    by (simp add: check_integrity_def slice_def)
  with out len parsed room show ?thesis
    by (intro exI [of _ "?d @ drop (52 + ?n) buf"] exI [of _ "52 + ?n"] exI [of _ ?m] exI [of _ ?h] exI [of _ fp])
      simp
qed

lemma stun_message_roundtrip_witness:
  "\<exists>out n m'. stun_to_bytes (\<lambda>k d. replicate 20 7) (\<lambda>d. 0)
       (stun_binding_request [0x61, 0x3A, 0x62] (replicate 12 9) True 5 100 True) [0x70] (replicate 150 0)
       = Some (Inr (out, n))
    \<and> stun_parse (take n out) = Some (Inr m')
    \<and> check_integrity (\<lambda>k d. replicate 20 7) m' [0x70] = Some True"
proof -
  let ?m = "stun_binding_request [0x61, 0x3A, 0x62] (replicate 12 9) True 5 100 True"
  have s: "stun_sendable ?m"
    by (simp add: stun_sendable_def stun_binding_request_def sendable_def str_ok_def written_attrs_def
        set_opt_def no_attrs_def padded_len_def opt_len_def check_fields_def split_username_def
        utf8_class_def)
  have h: "\<forall>k d :: bytes. length (replicate 20 (7 :: u8)) = 20" by simp
  have r: "52 + padded_len (m_attrs ?m) \<le> length (replicate 150 (0 :: u8))"
    by (simp add: padded_len_def opt_len_def username_pad_def stun_binding_request_def no_attrs_def)
  from stun_message_roundtrip [OF s h r, of "\<lambda>d. 0" "[0x70]"] show ?thesis
    by (elim exE conjE) (intro exI conjI)
qed

text \<open>The padding of the user name is wrong when its length is a multiple of four: \<open>to_bytes\<close>
  then writes four more octets, which a reader sees as an attribute of the reserved type 0.\<close>

theorem aligned_username_writes_extra_attribute:
  "4 dvd length v \<Longrightarrow> attrs_to_bytes (m_attrs (stun_binding_request v t ctl tie prio use)) t =
    tlv 0x0006 v @ tlv 0x0000 [] @
      attrs_to_bytes (m_attrs (stun_binding_request v t ctl tie prio use)\<lparr>a_username := None\<rparr>) t"
  by (simp add: attrs_to_bytes_def stun_binding_request_def opt_bytes_def username_pad_def zero_attr)

lemma aligned_username_writes_extra_attribute_witness:
  "attrs_to_bytes (m_attrs (stun_binding_request [0x61, 0x3A, 0x62, 0x63] [] True 5 100 False)) [] =
    tlv 0x0006 [0x61, 0x3A, 0x62, 0x63] @ tlv 0x0000 [] @ attrs_to_bytes
      (m_attrs (stun_binding_request [0x61, 0x3A, 0x62, 0x63] [] True 5 100 False)\<lparr>a_username := None\<rparr>) []"
proof (rule aligned_username_writes_extra_attribute)
  have "length [0x61 :: u8, 0x3A, 0x62, 0x63] = 4" by simp
  then show "4 dvd length [0x61 :: u8, 0x3A, 0x62, 0x63]" by (simp only: dvd_refl)
qed

section \<open>Which datagrams make the parser panic\<close>

definition short_types :: "u16 set" where
  "short_types = {0x0009, 0x0020, 0x8028}"

lemma str_attr_total: "len \<le> length buf - 4 \<Longrightarrow> 4 \<le> length buf \<Longrightarrow> str_attr typ buf len upd st \<noteq> None"
  by (auto simp: str_attr_def decode_str_def slice_def)

lemma u64_at_total: "12 \<le> length buf \<Longrightarrow> u64_at buf 4 \<noteq> None"
  by (simp add: u64_at_def u32_at_def idx_def)

lemma decode_xor_total:
  assumes "20 \<le> length buf" shows "decode_xor buf t \<noteq> None"
proof -
  have "\<exists>a b c d. xor_bytes os MAGIC = [a, b, c, d]" if "length os = 4" for os
  proof -
    have "length os = Suc (Suc (Suc (Suc 0)))" using that by simp
    then obtain a b c d where "os = [a, b, c, d]" by (auto simp: length_Suc_conv)
    then show ?thesis by (simp add: MAGIC_def)
  qed
  from this [of "take 4 (drop 4 buf)"] assms obtain a b c d where
    "xor_bytes (take 4 (drop 4 buf)) MAGIC = [a, b, c, d]" by auto
  moreover have "16 \<le> length buf - 4" "4 \<le> length buf - 4" using assms by simp_all
  ultimately show ?thesis using assms by (simp add: decode_xor_def idx_def slice_def Let_def)
qed

lemma parse_attr_panics:
  assumes "parse_attr t typ len buf off st = None" and "len \<le> length buf - 4" and "4 \<le> length buf"
  shows "typ \<in> short_types \<and> length buf < 24"
proof -
  have "typ = 0x0009 \<Longrightarrow> length buf < 24"
    using assms by (auto simp: parse_attr_def error_code_attr_def idx_def slice_def decode_str_def Let_def split: if_splits)
  moreover have "length buf < 24" if "typ = 0x0020"
  proof (rule ccontr)
    assume "\<not> length buf < 24"
    then have "20 \<le> length (drop 4 buf)" by simp
    from decode_xor_total [OF this, of t] obtain r where "decode_xor (drop 4 buf) t = Some r" by auto
    with assms that show False by (simp add: parse_attr_def slice_def)
  qed
  moreover have "typ = 0x8028 \<Longrightarrow> length buf < 24"
    using assms by (auto simp: parse_attr_def u32_at_def idx_def split: if_splits)
  moreover have "typ \<in> short_types"
  proof (cases "len = 8")
    case True
    then have "12 \<le> length buf" using assms(2) by linarith
    from u64_at_total [OF this] obtain v where "u64_at buf 4 = Some v" by auto
    then show ?thesis
      using assms(1) str_attr_total [OF assms(2,3)] True
      by (auto simp: parse_attr_def short_types_def simp del: not_None_eq split: if_splits)
  next
    case False
    then show ?thesis
      using assms(1) str_attr_total [OF assms(2,3)] assms(2,3)
      by (auto simp: parse_attr_def short_types_def u32_at_def idx_def slice_def simp del: not_None_eq split: if_splits)
  qed
  ultimately show ?thesis by (auto simp: short_types_def)
qed


lemma padded_4:
  fixes len :: nat
  defines "p \<equiv> len + (4 - len mod 4) mod 4"
  shows "4 dvd p" and "4 dvd n \<Longrightarrow> 4 \<le> n \<Longrightarrow> len \<le> n - 4 \<Longrightarrow> p \<le> n - 4"
proof -
  define q s where "q = len div 4" and "s = len mod 4"
  have len: "len = 4 * q + s" "s < 4" by (simp_all add: q_def s_def)
  then have "s = 0 \<or> s = 1 \<or> s = 2 \<or> s = 3" by linarith
  with len have p: "p = 4 * (if s = 0 then q else q + 1)" by (auto simp: p_def)
  then show "4 dvd p" by simp
  show "p \<le> n - 4" if "4 dvd n" "4 \<le> n" "len \<le> n - 4"
  proof -
    from that(1) obtain k where "n = 4 * k" by (elim dvdE)
    have "q < k" "0 < s \<Longrightarrow> q + 1 < k" using that(2,3) len \<open>n = 4 * k\<close> by linarith+
    then have "p \<le> 4 * (k - 1)" unfolding p by (cases "s = 0") simp_all
    then show ?thesis using \<open>n = 4 * k\<close> by (simp add: right_diff_distrib')
  qed
qed

lemma parse_attrs_unfold:
  assumes "4 \<le> length buf" and "ty = from_be16 (buf ! 0) (buf ! 1)"
    and "len = unat (from_be16 (buf ! 2) (buf ! 3))"
    and "p = len + (4 - len mod 4) mod 4" and "p \<le> length buf - 4"
  shows "parse_attrs t buf off st =
    (case (if \<not> s_ignore_rest st \<or> ty = 0x8028 then parse_attr t ty len buf off st else Some (Inr st)) of
       None \<Rightarrow> None
     | Some (Inl e) \<Rightarrow> Some (Inl e)
     | Some (Inr st') \<Rightarrow> parse_attrs t (drop (4 + p) buf) (off + 4 + p) st')"
proof -
  have "0 < length buf" using assms(1) by linarith
  then have "buf \<noteq> []" by simp
  moreover have "\<not> length buf - 4 < len" using assms(4,5) by simp
  moreover have "idx buf 0 = Some (buf ! 0)" "idx buf 1 = Some (buf ! 1)" "idx buf 2 = Some (buf ! 2)"
    "idx buf 3 = Some (buf ! 3)"
    using assms(1) \<open>0 < length buf\<close> by (simp_all add: idx_def)
  moreover have "slice buf (4 + p) (length buf) = Some (drop (4 + p) buf)"
    using assms(1,5) by (simp add: slice_def)
  ultimately show ?thesis
    by (subst parse_attrs.simps)
      (simp only: assms(2-4) option.case prod.case Let_def if_False)
qed

lemma parse_attrs_panics:
  "parse_attrs t buf off st = None \<Longrightarrow> 4 dvd length buf \<Longrightarrow>
    \<exists>i. i + 4 \<le> length buf \<and> 4 dvd i \<and> length buf < i + 24 \<and> from_be16 (buf ! i) (buf ! (i + 1)) \<in> short_types"
proof (induction "length buf" arbitrary: buf off st rule: less_induct)
  case less
  have "buf \<noteq> []" using less.prems(1) by auto
  with less.prems(2) have four: "4 \<le> length buf" by (metis dvd_imp_le length_greater_0_conv)
  define ty len where "ty = from_be16 (buf ! 0) (buf ! 1)" and "len = unat (from_be16 (buf ! 2) (buf ! 3))"
  define p where "p = len + (4 - len mod 4) mod 4"
  have fits: "len \<le> length buf - 4"
  proof (rule ccontr)
    assume "\<not> len \<le> length buf - 4"
    then have "parse_attrs t buf off st \<noteq> None"
      using four by (subst parse_attrs.simps) (auto simp: idx_def Let_def len_def numeral_eq_Suc)
    with less.prems(1) show False by simp
  qed
  have p: "p \<le> length buf - 4" "4 dvd p"
    unfolding p_def using padded_4(2) [OF less.prems(2) four fits] padded_4(1) by blast+
  note unfold = parse_attrs_unfold [OF four ty_def len_def p_def p(1), of t off st]
  show ?case
  proof (cases "parse_attr t ty len buf off st = None \<and> (\<not> s_ignore_rest st \<or> ty = 0x8028)")
    case True
    then have "ty \<in> short_types \<and> length buf < 24" using parse_attr_panics [OF _ fits four] by blast
    then show ?thesis using four by (intro exI [of _ 0]) (simp add: ty_def)
  next
    case False
    then obtain r where r: "(if \<not> s_ignore_rest st \<or> ty = 0x8028 then parse_attr t ty len buf off st else Some (Inr st)) = Some r"
      by (cases "\<not> s_ignore_rest st \<or> ty = 0x8028") auto
    have "parse_attrs t buf off st = (case r of Inl e \<Rightarrow> Some (Inl e)
        | Inr st' \<Rightarrow> parse_attrs t (drop (4 + p) buf) (off + 4 + p) st')"
      by (simp only: unfold r option.case)
    with less.prems(1) obtain st' where none: "parse_attrs t (drop (4 + p) buf) (off + 4 + p) st' = None"
      by (cases r) simp_all
    have "length (drop (4 + p) buf) < length buf" "4 dvd length (drop (4 + p) buf)"
      using four less.prems(2) p(2) by (simp_all add: dvd_diff_nat dvd_add)
    from less.hyps [OF this(1) none this(2)] obtain i where
      i: "i + 4 \<le> length (drop (4 + p) buf)" "4 dvd i" "length (drop (4 + p) buf) < i + 24"
      "from_be16 (drop (4 + p) buf ! i) (drop (4 + p) buf ! (i + 1)) \<in> short_types" by blast
    have "from_be16 (buf ! (4 + p + i)) (buf ! (4 + p + i + 1)) \<in> short_types"
      using i(1,4) p(1) four by (simp add: add.assoc)
    moreover have "4 + p + i + 4 \<le> length buf" "length buf < 4 + p + i + 24" using i(1,3) p(1) four by simp_all
    ultimately show ?thesis using i(2) p(2) by (intro exI [of _ "4 + p + i"]) (simp add: dvd_add)
  qed
qed


lemma parse_attr_integrity_off:
  "parse_attr t ty len buf off st = Some (Inr st') \<Longrightarrow> s_integrity_off st' = s_integrity_off st \<or> s_integrity_off st' = off"
  by (auto simp: parse_attr_def str_attr_def error_code_attr_def Let_def
      split: if_splits option.splits sum.splits Option.bind_splits)

lemma parse_attrs_integrity_off:
  "parse_attrs t buf off st = Some (Inr st') \<Longrightarrow> 4 dvd length buf \<Longrightarrow>
    s_integrity_off st' = s_integrity_off st \<or> s_integrity_off st' \<le> off + length buf"
proof (induction "length buf" arbitrary: buf off st rule: less_induct)
  case less
  show ?case
  proof (cases "buf = []")
    case True
    with less.prems(1) show ?thesis by simp
  next
    case False
    with less.prems(2) have four: "4 \<le> length buf" by (metis dvd_imp_le length_greater_0_conv)
    define ty len where "ty = from_be16 (buf ! 0) (buf ! 1)" and "len = unat (from_be16 (buf ! 2) (buf ! 3))"
    define p where "p = len + (4 - len mod 4) mod 4"
    have fits: "len \<le> length buf - 4"
    proof (rule ccontr)
      assume "\<not> len \<le> length buf - 4"
      then have "parse_attrs t buf off st \<noteq> Some (Inr st')"
        using four by (subst parse_attrs.simps) (auto simp: idx_def Let_def len_def numeral_eq_Suc)
      with less.prems(1) show False by simp
    qed
    have p: "p \<le> length buf - 4" "4 dvd p"
      unfolding p_def using padded_4(2) [OF less.prems(2) four fits] padded_4(1) by blast+
    define r where "r = (if \<not> s_ignore_rest st \<or> ty = 0x8028 then parse_attr t ty len buf off st else Some (Inr st))"
    note unfold = parse_attrs_unfold [OF four ty_def len_def p_def p(1), of t off st, folded r_def]
    with less.prems(1) obtain st1 where r: "r = Some (Inr st1)"
      and rest: "parse_attrs t (drop (4 + p) buf) (off + 4 + p) st1 = Some (Inr st')"
      by (auto split: option.splits sum.splits)
    have "s_integrity_off st1 = s_integrity_off st \<or> s_integrity_off st1 = off"
      using r parse_attr_integrity_off unfolding r_def by (cases "\<not> s_ignore_rest st \<or> ty = 0x8028") auto
    moreover have "length (drop (4 + p) buf) < length buf" "4 dvd length (drop (4 + p) buf)"
      using four less.prems(2) p(2) by (simp_all add: dvd_diff_nat dvd_add)
    ultimately show ?thesis
      using less.hyps [OF _ rest] p(1) four by fastforce
  qed
qed

text \<open>Parsing can only panic on an attribute at the very end of the datagram: a FINGERPRINT, an
  ERROR-CODE or an XOR-MAPPED-ADDRESS that starts within its last 24 octets. Every other datagram
  gives a message or an error.\<close>

theorem stun_parse_panics_only_at_end:
  assumes "stun_parse d = None"
  shows "\<exists>i. 20 \<le> i \<and> i + 4 \<le> length d \<and> 4 dvd i \<and> length d < i + 24
    \<and> from_be16 (d ! i) (d ! (i + 1)) \<in> short_types"
proof -
  have big: "20 \<le> length d" and len: "unat (from_be16 (d ! 2) (d ! 3)) = length d - 20"
    and low: "from_be16 (d ! 2) (d ! 3) AND 3 = 0"
    using assms by (auto simp: stun_parse_def idx_def Let_def numeral_2_eq_2 numeral_3_eq_3 split: if_splits)
  have "4 dvd length d - 20"
  proof -
    have "unat (from_be16 (d ! 2) (d ! 3)) mod 4 = unat (from_be16 (d ! 2) (d ! 3) AND mask 2)"
      by (simp only: take_bit_eq_mask [symmetric] unsigned_take_bit_eq) (simp add: take_bit_eq_mod)
    moreover have "mask 2 = (3 :: u16)" by (simp add: mask_eq_exp_minus_1)
    ultimately show ?thesis using len low by (simp add: dvd_eq_mod_eq_0)
  qed
  then have rest4: "4 dvd length (drop 20 d)" by simp
  have ne: "d \<noteq> []"
  proof
    assume "d = []"
    with big show False by simp
  qed
  let ?st = "\<lparr>s_attrs = no_attrs, s_integrity_off = 0, s_ignore_rest = False\<rparr>"
  let ?t = "take 12 (drop 8 d)"
  have "parse_attrs ?t (drop 20 d) 0 ?st = None"
  proof (rule ccontr)
    assume "parse_attrs ?t (drop 20 d) 0 ?st \<noteq> None"
    then obtain r where r: "parse_attrs ?t (drop 20 d) 0 ?st = Some r" by auto
    have "stun_parse d \<noteq> None"
    proof (cases r)
      case (Inr st)
      have "s_integrity_off st \<le> length (drop 20 d)"
        using parse_attrs_integrity_off [OF r [unfolded Inr] rest4] by auto
      then have "s_integrity_off st + 20 \<le> length d" using big by simp
      with big r Inr ne show ?thesis
        by (simp add: stun_parse_def idx_def slice_def Let_def)
    qed (use big r ne in \<open>simp add: stun_parse_def idx_def slice_def Let_def\<close>)
    with assms show False by simp
  qed
  from parse_attrs_panics [OF this rest4] obtain i where
    i: "i + 4 \<le> length (drop 20 d)" "4 dvd i" "length (drop 20 d) < i + 24"
      "from_be16 (drop 20 d ! i) (drop 20 d ! (i + 1)) \<in> short_types" by blast
  have "4 dvd 20 + i" using i(2) by (simp add: dvd_add)
  moreover have "from_be16 (d ! (20 + i)) (d ! (20 + i + 1)) \<in> short_types"
    using i(1,4) big by (simp add: add.assoc)
  ultimately show ?thesis using i(1,3) big by (intro exI [of _ "20 + i"]) auto
qed

lemma stun_parse_panics_only_at_end_witness:
  "\<exists>i. 20 \<le> i \<and> i + 4 \<le> (24 :: nat) \<and> 4 dvd i \<and> 24 < i + 24 \<and>
     from_be16 (([0, 1, 0, 4] @ MAGIC @ replicate 12 0 @ [0x80, 0x28, 0, 0]) ! i)
       (([0, 1, 0, 4] @ MAGIC @ replicate 12 0 @ [0x80, 0x28, 0, 0]) ! (i + 1)) \<in> short_types"
proof -
  let ?d = "[0, 1, 0, 4] @ MAGIC @ replicate 12 0 @ [0x80, 0x28, 0, 0] :: bytes"
  have "stun_parse ?d = None" by code_simp
  from stun_parse_panics_only_at_end [OF this] show ?thesis by simp
qed

text \<open>Such a datagram exists for every transaction and message type, needs no password, and is 24
  octets long: a FINGERPRINT attribute of length 0 right after the header makes the parser index
  past the end.\<close>

theorem short_fingerprint_panics:
  assumes "length t = 12"
  shows "stun_parse (to_be16 ty @ to_be16 4 @ MAGIC @ t @ tlv 0x8028 []) = None"
proof -
  let ?d = "to_be16 ty @ to_be16 4 @ MAGIC @ t @ tlv 0x8028 []"
  have fp: "parse_attrs t (tlv 0x8028 []) 0 st = None" for st
    using parse_attrs_tlv [of "[]" "[]" t "0x8028" "[]" 0 st]
    by (simp add: parse_attr_def u32_at_def idx_def)
  have "idx ?d 0 = Some (ucast (drop_bit 8 ty))" "idx ?d (Suc 0) = Some (ucast ty)" "idx ?d 2 = Some 0" "idx ?d 3 = Some 4"
    by (simp_all add: to_be16_def idx_def nth_append)
  moreover have "slice ?d 4 8 = Some MAGIC" "slice ?d 8 20 = Some t" "slice ?d 20 24 = Some (tlv 0x8028 [])"
    using assms by (simp_all add: slice_def)
  moreover have "length ?d = 24" using assms by simp
  ultimately show ?thesis by (simp add: stun_parse_def fp from_be16_def Let_def)
qed

lemma short_fingerprint_panics_witness:
  "stun_parse (to_be16 0x0001 @ to_be16 4 @ MAGIC @ replicate 12 0 @ tlv 0x8028 []) = None"
  by (rule short_fingerprint_panics) simp

section \<open>Retransmission\<close>

text \<open>The delays before each of the retransmissions never exceed three seconds, do not decrease,
  and add up to the timeout of 18.75 seconds the ICE agent uses.\<close>

theorem stun_timeout_is_sum_of_delays:
  "sum_list (map (\<lambda>n. unat (stun_resend_delay n)) [0..<Suc STUN_MAX_RETRANS]) = STUN_TIMEOUT_MILLIS
   \<and> stun_resend_delay n \<le> STUN_MAX_RTO_MILLIS \<and> stun_resend_delay n \<le> stun_resend_delay (Suc n)"
proof (intro conjI)
  show "sum_list (map (\<lambda>n. unat (stun_resend_delay n)) [0..<Suc STUN_MAX_RETRANS]) = STUN_TIMEOUT_MILLIS"
    by code_simp
  show "stun_resend_delay n \<le> STUN_MAX_RTO_MILLIS"
    by (simp add: stun_resend_delay_def Let_def)
  have small: "n \<in> set [0..<11] \<Longrightarrow> stun_resend_delay n \<le> stun_resend_delay (Suc n)"
    by (rule bspec [of "set [0..<11]" "\<lambda>n. stun_resend_delay n \<le> stun_resend_delay (Suc n)"]) code_simp
  show "stun_resend_delay n \<le> stun_resend_delay (Suc n)"
  proof (cases "n < 11")
    case False
    then show ?thesis by (simp add: stun_resend_delay_def STUN_MAX_RETRANS_def)
  qed (use small in simp)
qed

end
