(* ===== verification/Datagram.thy ===== *)
theory Datagram imports IceStun begin

text \<open>
  \<open>io/mod.rs\<close> of the patched str0m: what kind of packet a datagram is, and \<open>Receive::new\<close>, the
  constructor through which the agent hands every datagram to the library.
\<close>

datatype mux_kind = MuxStun | MuxDtls | MuxRtp | MuxRtcp

datatype net_error = StunErr ice_error | UnknownDatagram

datatype datagram = Stun stun_msg | Dtls bytes | Rtp bytes | Rtcp bytes

text \<open>The first byte is read unguarded: \<open>None\<close> on an empty datagram.\<close>

definition multiplex_kind :: "bytes \<Rightarrow> (net_error + mux_kind) option" where
  "multiplex_kind value = do {
     byte0 \<leftarrow> idx value 0;
     let len = length value;
     if byte0 < 2 \<and> 20 \<le> len then Some (Inr MuxStun)
     else if 20 \<le> byte0 \<and> byte0 < 64 then Some (Inr MuxDtls)
     else if 128 \<le> byte0 \<and> byte0 < 192 \<and> 2 < len then do {
       byte1 \<leftarrow> idx value 1;
       let payload_type = byte1 AND 0x7F;
       Some (Inr (if payload_type < 64 then MuxRtp
                  else if 64 \<le> payload_type \<and> payload_type < 96 then MuxRtcp
                  else MuxRtp))
     }
     else Some (Inl UnknownDatagram)
   }"

definition datagram_recv :: "bytes \<Rightarrow> (net_error + datagram) option" where
  "datagram_recv value = do {
     kind \<leftarrow> multiplex_kind value;
     (case kind of
        Inl e \<Rightarrow> Some (Inl e)
      | Inr MuxStun \<Rightarrow> map_option (\<lambda>r. case r of Inl e \<Rightarrow> Inl (StunErr e) | Inr m \<Rightarrow> Inr (Stun m)) (stun_parse value)
      | Inr MuxDtls \<Rightarrow> Some (Inr (Dtls value))
      | Inr MuxRtp \<Rightarrow> Some (Inr (Rtp value))
      | Inr MuxRtcp \<Rightarrow> Some (Inr (Rtcp value)))
   }"

datatype protocol = Udp | Tcp | SslTcp | Tls

record receive =
  r_proto :: protocol
  r_source :: sock_addr
  r_destination :: sock_addr
  r_contents :: datagram

definition receive_new :: "protocol \<Rightarrow> sock_addr \<Rightarrow> sock_addr \<Rightarrow> bytes \<Rightarrow> (net_error + receive) option" where
  "receive_new proto src dst buf = do {
     contents \<leftarrow> datagram_recv buf;
     Some (case contents of
         Inl e \<Rightarrow> Inl e
       | Inr c \<Rightarrow> Inr \<lparr>r_proto = proto, r_source = src, r_destination = dst, r_contents = c\<rparr>)
   }"

text \<open>The demultiplexing of RFC 7983: a datagram's first byte decides its kind, RTCP is told from
  RTP by the second byte, and the other ranges are refused. \<open>Receive::new\<close> panics on the empty
  datagram, which any host may send, and otherwise only where the STUN parser does.\<close>

theorem datagram_kinds:
  "(multiplex_kind d = None \<longleftrightarrow> d = [])
   \<and> (receive_new p src dst d = None \<longleftrightarrow> d = [] \<or> hd d < 2 \<and> 20 \<le> length d \<and> stun_parse d = None)
   \<and> (multiplex_kind d = Some (Inr MuxStun) \<longleftrightarrow> d \<noteq> [] \<and> hd d < 2 \<and> 20 \<le> length d)
   \<and> (multiplex_kind d = Some (Inr MuxDtls) \<longleftrightarrow> d \<noteq> [] \<and> 20 \<le> hd d \<and> hd d < 64)
   \<and> (multiplex_kind d = Some (Inr MuxRtcp) \<longleftrightarrow> 2 < length d \<and> 128 \<le> hd d \<and> hd d < 192
        \<and> 64 \<le> d ! 1 AND 0x7F \<and> d ! 1 AND 0x7F < 96)
   \<and> (multiplex_kind d = Some (Inr MuxRtp) \<longleftrightarrow> 2 < length d \<and> 128 \<le> hd d \<and> hd d < 192
        \<and> \<not> (64 \<le> d ! 1 AND 0x7F \<and> d ! 1 AND 0x7F < 96))"
proof (cases d)
  case (Cons b bs)
  have "b < 2 \<Longrightarrow> \<not> 20 \<le> b" "b < 2 \<Longrightarrow> \<not> 128 \<le> b" "b < 64 \<Longrightarrow> \<not> 128 \<le> b" by (simp_all add: word_le_nat_alt word_less_nat_alt)
  with Cons show ?thesis
    by (auto simp: multiplex_kind_def receive_new_def datagram_recv_def idx_def Let_def
        split: sum.splits mux_kind.splits if_splits Option.bind_splits)
qed (simp add: multiplex_kind_def receive_new_def datagram_recv_def idx_def)

end
