(* ===== verification/Formats.thy ===== *)
theory Formats imports Prelude begin

text \<open>
  Codecs, their parameters and the choice of payload types, \<open>format.rs\<close> of str0m.
\<close>

section \<open>Parameters of a payload type\<close>

datatype codec = Opus | H264 | H265 | Vp8 | Vp9 | Av1 | Rtx | Null | Unknown

record format_params =
  min_p_time :: "u8 option"
  use_inband_fec :: "bool option"
  use_dtx :: "bool option"
  level_asymmetry_allowed :: "bool option"
  packetization_mode :: "u8 option"
  profile_level_id :: "u32 option"
  profile_id :: "u32 option"

definition no_format :: format_params where
  "no_format = \<lparr>min_p_time = None, use_inband_fec = None, use_dtx = None, level_asymmetry_allowed = None,
     packetization_mode = None, profile_level_id = None, profile_id = None\<rparr>"

record codec_spec =
  spec_codec :: codec
  spec_clock :: nat
  channels :: "u8 option"
  spec_format :: format_params

record payload_params =
  pp_pt :: u8
  pp_resend :: "u8 option"
  pp_spec :: codec_spec
  fb_transport_cc :: bool
  fb_nack :: bool
  fb_pli :: bool
  fb_fir :: bool
  fb_remb :: bool
  pp_locked :: bool

definition codec_is_audio :: "codec \<Rightarrow> bool" where
  "codec_is_audio c \<longleftrightarrow> c = Opus"

definition codec_is_video :: "codec \<Rightarrow> bool" where
  "codec_is_video c \<longleftrightarrow> c \<in> {H265, H264, Vp8, Vp9, Av1}"

definition payload_params_new :: "u8 \<Rightarrow> u8 option \<Rightarrow> codec_spec \<Rightarrow> payload_params" where
  "payload_params_new pt resend spec =
     (let is_video = codec_is_video (spec_codec spec) in
      \<lparr>pp_pt = pt, pp_resend = resend, pp_spec = spec, fb_transport_cc = True, fb_nack = is_video, fb_pli = is_video,
       fb_fir = is_video, fb_remb = is_video, pp_locked = False\<rparr>)"

end
