(* ===== verification/Session.thy ===== *)
theory Session imports Stun Datagram Formats begin

text \<open>
  The main loop of \<open>agent/src/webrtc.rs\<close>: \<open>run\<close> after the SDP exchange, with \<open>handle_event\<close>,
  \<open>send_video\<close> and \<open>send_audio\<close>. One iteration is a function of the session's state and of what
  the outside world answers during it: the library's outputs and events, the channels, the
  clock, the socket. The theory also models \<open>describe_h264_nals\<close> and \<open>get_local_ips\<close>. A result
  \<open>Crashed\<close> is a panic of the task.
\<close>

section \<open>State and events\<close>

datatype ice_state = IceNew | IceChecking | IceConnected | IceCompleted | IceDisconnected

text \<open>
  \<open>ChannelOpen\<close> carries whether the channel is there and takes the status message, \<open>ChannelData\<close> whether the
  receiving end of the channel to the HID module, \<open>hid_tx\<close>, is still there when the frame is sent. (A full
  channel makes the loop wait until there is room, which shows in the time only.)
\<close>

datatype rtc_event = Connected | ChannelData bytes bool | IceStateChange ice_state | KeyframeRequest
  | ChannelOpen nat bool | OtherEvent

text \<open>
  The flags shared with the other tasks (\<open>keyframe_flag\<close>, \<open>peer_connected\<close>, \<open>hid_status\<close>), the
  locals of \<open>run\<close>, and what has left it: frames for the HID module, datagrams, data channel
  messages, media handed to the library, packets handed to the library.
\<close>

record sess =
  keyframe_flag :: bool
  peer_connected :: bool
  hid_status :: u8
  ice_connected :: bool
  turn :: "turn_state option"
  relay_addr :: "sock_addr option"
  local_addrs :: "sock_addr list"
  turn_perms :: "ip_addr list"
  turn_refresh_at :: nat
  dc_channel_id :: "nat option"
  video_frame_count :: u64
  video_write_count :: u64
  video_drop_count :: u64
  transmit_count :: u64
  hid_out :: "bytes list"
  wire :: "(sock_addr \<times> bytes) list"
  channel_out :: "(nat \<times> bytes) list"
  media_out :: "(u8 \<times> u32 \<times> bytes) list"
  rtc_in :: "receive list"

definition send_to :: "sock_addr \<Rightarrow> bytes \<Rightarrow> sess \<Rightarrow> sess" where
  "send_to dst data s = s\<lparr>wire := wire s @ [(dst, data)]\<rparr>"

section \<open>Events of the library\<close>

text \<open>\<open>handle_event\<close>: the flag tells the main loop to leave.\<close>

fun handle_event :: "rtc_event \<Rightarrow> sess \<Rightarrow> sess \<times> bool" where
  "handle_event Connected s =
     (s\<lparr>ice_connected := True, peer_connected := True, keyframe_flag := True\<rparr>, False)"
| "handle_event (ChannelData d taken) s = (if taken then s\<lparr>hid_out := hid_out s @ [d]\<rparr> else s, False)"
| "handle_event (IceStateChange st) s =
     (case st of
        IceConnected \<Rightarrow> (s\<lparr>keyframe_flag := True\<rparr>, False)
      | IceCompleted \<Rightarrow> (s\<lparr>keyframe_flag := True\<rparr>, False)
      | IceDisconnected \<Rightarrow>
          if ice_connected s then (s\<lparr>peer_connected := False\<rparr>, True) else (s, False)
      | _ \<Rightarrow> (s, False))"
| "handle_event KeyframeRequest s = (s\<lparr>keyframe_flag := True\<rparr>, False)"
| "handle_event (ChannelOpen ch sent) s = (s, False)"
| "handle_event OtherEvent s = (s, False)"

definition TYPE_HID_STATUS :: u8 where "TYPE_HID_STATUS = 0x11"

definition channel_open :: "nat \<Rightarrow> bool \<Rightarrow> sess \<Rightarrow> sess" where
  "channel_open ch_id sent s =
     (let s = s\<lparr>dc_channel_id := Some ch_id\<rparr> in
      if sent then s\<lparr>channel_out := channel_out s @ [(ch_id, [TYPE_HID_STATUS, hid_status s, 0, 0, 0, 0, 0, 0])]\<rparr>
      else s)"

definition on_event :: "rtc_event \<Rightarrow> sess \<Rightarrow> sess \<times> bool" where
  "on_event e s =
     (let s = (case e of ChannelOpen ch_id sent \<Rightarrow> channel_open ch_id sent s | _ \<Rightarrow> s);
          (s, leave) = handle_event e s
      in if leave then (s\<lparr>peer_connected := False\<rparr>, True) else (s, False))"

text \<open>
  The polling of the library's outputs until it asks to wait. \<open>nanos\<close> is the clock the
  transaction identifier of a Send indication is made of.
\<close>

datatype rtc_output = Timeout nat | PollError | Transmit "128 word" sock_addr sock_addr bytes | EventOut rtc_event

datatype polled = Waiting nat | Leave "string + unit" | Unfinished

definition transmit :: "128 word \<Rightarrow> sock_addr \<Rightarrow> sock_addr \<Rightarrow> bytes \<Rightarrow> sess \<Rightarrow> sess" where
  "transmit nanos src dst contents s =
     (let s = s\<lparr>transmit_count := transmit_count s + 1\<rparr> in
      case (relay_addr s, turn s) of
        (Some raddr, Some ts) \<Rightarrow>
          if src = raddr
          then send_to (turn_addr ts) (build_turn_send_indication (gen_txn_id nanos) dst contents) s
          else send_to dst contents s
      | _ \<Rightarrow> send_to dst contents s)"

fun poll_loop :: "rtc_output list \<Rightarrow> sess \<Rightarrow> sess \<times> polled" where
  "poll_loop [] s = (s, Unfinished)"
| "poll_loop (Timeout t # outs) s = (s, Waiting t)"
| "poll_loop (PollError # outs) s = (s, Leave (Inl ''poll_output''))"
| "poll_loop (Transmit nanos src dst contents # outs) s = poll_loop outs (transmit nanos src dst contents s)"
| "poll_loop (EventOut e # outs) s =
     (let (s, leave) = on_event e s in if leave then (s, Leave (Inr ())) else poll_loop outs s)"

section \<open>Sending media\<close>

text \<open>A writer is the list of payload parameters it offers; \<open>None\<close> when the library has none yet.\<close>

definition is_mode1 :: "payload_params \<Rightarrow> bool" where
  "is_mode1 p \<longleftrightarrow> spec_codec (pp_spec p) = H264 \<and> packetization_mode (spec_format (pp_spec p)) = Some 1"

definition is_h264 :: "payload_params \<Rightarrow> bool" where
  "is_h264 p \<longleftrightarrow> spec_codec (pp_spec p) = H264"

definition choose_video_pt :: "payload_params list \<Rightarrow> u8 option" where
  "choose_video_pt ps =
     map_option pp_pt (case find is_mode1 ps of Some p \<Rightarrow> Some p | None \<Rightarrow> find is_h264 ps)"

definition send_video :: "payload_params list option \<Rightarrow> bool \<Rightarrow> u32 \<Rightarrow> bytes \<Rightarrow> sess \<Rightarrow> sess" where
  "send_video writer write_ok ts data s =
     (case writer of
        None \<Rightarrow> s\<lparr>video_drop_count := video_drop_count s + 1\<rparr>
      | Some ps \<Rightarrow>
          (case choose_video_pt ps of
             None \<Rightarrow> s
           | Some pt \<Rightarrow>
               let s = s\<lparr>video_write_count := video_write_count s + 1\<rparr> in
               if write_ok then s\<lparr>media_out := media_out s @ [(pt, ts, data)]\<rparr> else s))"

definition send_audio :: "payload_params list option \<Rightarrow> bool \<Rightarrow> u32 \<Rightarrow> bytes \<Rightarrow> sess \<Rightarrow> sess" where
  "send_audio writer write_ok ts data s =
     (case writer of
        None \<Rightarrow> s
      | Some [] \<Rightarrow> s
      | Some (p # _) \<Rightarrow> if write_ok then s\<lparr>media_out := media_out s @ [(pp_pt p, ts, data)]\<rparr> else s)"

text \<open>What a broadcast receiver answers.\<close>

datatype recv = Got bytes | Lagged nat | NothingThere

text \<open>One media source in one iteration: the answer, the RTP time stamp computed from the clock in
  floating point, the library's writer and whether the write succeeds.\<close>

record media_in =
  mi_recv :: recv
  mi_ts :: u32
  mi_writer :: "payload_params list option"
  mi_write_ok :: bool

definition media_step :: "media_in \<Rightarrow> media_in \<Rightarrow> sess \<Rightarrow> sess" where
  "media_step video audio s =
     (if ice_connected s then
        (let s = (case mi_recv video of
                    Got frame \<Rightarrow>
                      send_video (mi_writer video) (mi_write_ok video) (mi_ts video) frame
                        (s\<lparr>video_frame_count := video_frame_count s + 1\<rparr>)
                  | _ \<Rightarrow> s)
         in case mi_recv audio of
              Got frame \<Rightarrow> send_audio (mi_writer audio) (mi_write_ok audio) (mi_ts audio) frame s
            | _ \<Rightarrow> s)
      else s)"

section \<open>TURN upkeep\<close>

text \<open>
  \<open>turn_create_permission\<close>: a failed \<open>send_to\<close> is an error; the answer, even an error response
  or none at all, is discarded, so the result is otherwise \<open>Ok\<close>.
\<close>

datatype permission_answer = PermissionSuccess | PermissionError | NoAnswer

definition turn_create_permission ::
  "128 word \<Rightarrow> turn_state \<Rightarrow> ip_addr \<Rightarrow> bool \<Rightarrow> permission_answer \<Rightarrow> sess \<Rightarrow> sess \<times> bool" where
  "turn_create_permission nanos ts peer_ip send_ok answer s =
     (if send_ok
      then (send_to (turn_addr ts) (create_permission_request (gen_txn_id nanos) ts peer_ip) s, True)
      else (s, False))"

text \<open>A remote candidate as \<open>from_sdp_string\<close> reads it; \<open>None\<close> is one that does not parse.\<close>

record cand_in =
  ci_ip :: ip_addr
  ci_nanos :: "128 word"
  ci_send_ok :: bool
  ci_answer :: permission_answer

definition add_candidate :: "cand_in option \<Rightarrow> sess \<Rightarrow> sess" where
  "add_candidate c s =
     (case (c, turn s) of
        (Some c, Some ts) \<Rightarrow>
          if ci_ip c \<notin> set (turn_perms s) then
            (let (s, sent) = turn_create_permission (ci_nanos c) ts (ci_ip c) (ci_send_ok c) (ci_answer c) s
             in if sent then s\<lparr>turn_perms := ci_ip c # turn_perms s\<rparr> else s)
          else s
      | _ \<Rightarrow> s)"

definition turn_refresh :: "128 word \<Rightarrow> bool \<Rightarrow> turn_state \<Rightarrow> sess \<Rightarrow> sess" where
  "turn_refresh nanos send_ok ts s =
     (if send_ok then send_to (turn_addr ts) (refresh_request (gen_txn_id nanos) ts) s else s)"

definition refresh_step :: "nat \<Rightarrow> 128 word \<Rightarrow> bool \<Rightarrow> sess \<Rightarrow> sess" where
  "refresh_step now nanos send_ok s =
     (case turn s of
        Some ts \<Rightarrow>
          if turn_refresh_at s \<le> now
          then (turn_refresh nanos send_ok ts s)\<lparr>turn_refresh_at := now + 240\<rparr>
          else s
      | None \<Rightarrow> s)"

section \<open>The socket\<close>

datatype net_in = Elapsed bool | Received sock_addr bytes | RecvError

text \<open>
  \<open>Inr s\<close> goes on, \<open>Inl None\<close> is a panic, \<open>Inl (Some e)\<close> an error returned by the library's
  \<open>handle_input\<close>, whose success is the flag.
\<close>

definition give_rtc :: "bool \<Rightarrow> receive \<Rightarrow> sess \<Rightarrow> string option + sess" where
  "give_rtc accepted r s =
     (if accepted then Inr (s\<lparr>rtc_in := rtc_in s @ [r]\<rparr>) else Inl (Some ''handle_input''))"

fun try_addrs :: "bool \<Rightarrow> sock_addr \<Rightarrow> bytes \<Rightarrow> sock_addr list \<Rightarrow> sess \<Rightarrow> string option + sess" where
  "try_addrs accepted from pkt [] s = Inr s"
| "try_addrs accepted from pkt (la # las) s =
     (case receive_new Udp from la pkt of
        None \<Rightarrow> Inl None
      | Some (Inr r) \<Rightarrow> give_rtc accepted r s
      | Some (Inl e) \<Rightarrow> try_addrs accepted from pkt las s)"

definition on_packet :: "bool \<Rightarrow> sock_addr \<Rightarrow> bytes \<Rightarrow> sess \<Rightarrow> string option + sess" where
  "on_packet accepted from pkt s =
     (case turn s of
        Some ts \<Rightarrow>
          if from = turn_addr ts then
            (case relay_addr s of
               None \<Rightarrow> Inr s
             | Some raddr \<Rightarrow>
                 (case parse_turn_data pkt of
                    None \<Rightarrow> Inl None
                  | Some None \<Rightarrow> Inr s
                  | Some (Some (peer_addr, data)) \<Rightarrow>
                      (case receive_new Udp peer_addr raddr data of
                         None \<Rightarrow> Inl None
                       | Some (Inl e) \<Rightarrow> Inr s
                       | Some (Inr r) \<Rightarrow> give_rtc accepted r s)))
          else try_addrs accepted from pkt (local_addrs s) s
      | None \<Rightarrow> try_addrs accepted from pkt (local_addrs s) s)"

definition net_step :: "bool \<Rightarrow> net_in \<Rightarrow> sess \<Rightarrow> string option + sess" where
  "net_step accepted n s =
     (case n of
        Elapsed sent \<Rightarrow> if sent then Inr s else Inl (Some ''handle_input'')
      | RecvError \<Rightarrow> Inr s
      | Received from pkt \<Rightarrow> on_packet accepted from pkt s)"

text \<open>How long the loop waits for the socket: what the library asked for, at most five milliseconds.\<close>

definition wait_time :: "nat \<Rightarrow> nat \<Rightarrow> nat" where
  "wait_time timeout now = min (timeout - now) 5"

section \<open>An iteration and the loop\<close>

record iteration =
  it_alive :: bool
  it_cands :: "cand_in option list"
  it_now :: nat
  it_nanos :: "128 word"
  it_refresh_ok :: bool
  it_video :: media_in
  it_audio :: media_in
  it_outputs :: "rtc_output list"
  it_accepted :: bool
  it_net :: net_in

datatype run_end = Live | Finished "string + unit" | Crashed

definition iterate :: "iteration \<Rightarrow> sess \<Rightarrow> sess \<times> run_end" where
  "iterate it s =
     (if \<not> it_alive it then (s, Finished (Inr ()))
      else let s = fold add_candidate (it_cands it) s;
               s = refresh_step (it_now it) (it_nanos it) (it_refresh_ok it) s;
               s = media_step (it_video it) (it_audio it) s;
               (s, p) = poll_loop (it_outputs it) s
           in case p of
                Leave r \<Rightarrow> (s, Finished r)
              | Unfinished \<Rightarrow> (s, Live)
              | Waiting t \<Rightarrow>
                  (case net_step (it_accepted it) (it_net it) s of
                     Inr s \<Rightarrow> (s, Live)
                   | Inl None \<Rightarrow> (s, Crashed)
                   | Inl (Some e) \<Rightarrow> (s, Finished (Inl e))))"

fun run_session :: "iteration list \<Rightarrow> sess \<Rightarrow> sess \<times> run_end" where
  "run_session [] s = (s, Live)"
| "run_session (it # its) s =
     (case iterate it s of (s', Live) \<Rightarrow> run_session its s' | r \<Rightarrow> r)"

section \<open>NAL units of a frame\<close>

text \<open>\<open>describe_h264_nals\<close> as the list of NAL types it prints; the bounds are the code's.\<close>

function nal_types :: "bytes \<Rightarrow> nat \<Rightarrow> u8 list" where
  "nal_types data i =
     (if i < length data then
        (if i + 3 < length data \<and> data ! i = 0 \<and> data ! (i + 1) = 0 then
           (let start = (if data ! (i + 2) = 1 then i + 3
                         else if i + 4 \<le> length data \<and> data ! (i + 2) = 0 \<and> data ! (i + 3) = 1 then i + 4
                         else 0)
            in if start = 0 then nal_types data (i + 1)
               else (if start < length data then [data ! start AND 0x1F] else []) @ nal_types data (start + 1))
         else nal_types data (i + 1))
      else [])"
  by pat_completeness auto
termination by (relation "measure (\<lambda>(d, i). length d - i)") (auto simp: Let_def split: if_splits)

declare nal_types.simps [simp del]

definition nal_name :: "u8 \<Rightarrow> string" where
  "nal_name t = (if t = 1 then ''P-slice'' else if t = 5 then ''IDR'' else if t = 6 then ''SEI''
     else if t = 7 then ''SPS'' else if t = 8 then ''PPS'' else if t = 9 then ''AUD'' else ''other'')"

fun join :: "string \<Rightarrow> string list \<Rightarrow> string" where
  "join sep [] = []"
| "join sep [x] = x"
| "join sep (x # xs) = x @ sep @ join sep xs"

definition describe_h264_nals :: "bytes \<Rightarrow> string" where
  "describe_h264_nals data =
     (let types = map (\<lambda>t. nal_name t @ ''('' @ decimal (unat t) @ '')'') (nal_types data 0)
      in if types = [] then ''none'' else join '', '' types)"

section \<open>Local addresses\<close>

text \<open>
  \<open>str::parse::<Ipv4Addr>\<close>: four octets of one to three digits without leading zeros.
\<close>

definition parse_octet :: "string \<Rightarrow> u32 option" where
  "parse_octet s =
     (if s = [] \<or> 3 < length s \<or> (hd s = CHR ''0'' \<and> length s \<noteq> 1) then None
      else case digits_value 0 s of
             None \<Rightarrow> None
           | Some n \<Rightarrow> if n < 256 then Some (of_nat n) else None)"

definition parse_ipv4 :: "string \<Rightarrow> u32 option" where
  "parse_ipv4 s =
     (case map parse_octet (split_on (CHR ''.'') s) of
        [Some a, Some b, Some c, Some d] \<Rightarrow>
          Some (push_bit 24 a OR push_bit 16 b OR push_bit 8 c OR d)
      | _ \<Rightarrow> None)"

text \<open>
  \<open>get_local_ips\<close>: the address the system would use to reach the outside, if any, then the
  addresses \<open>/proc/net/fib_trie\<close> marks as local. The lines come trimmed.
\<close>

definition usable :: "ip_addr \<Rightarrow> bool" where
  "usable ip \<longleftrightarrow> \<not> is_loopback ip \<and> \<not> is_unspecified ip"

fun trie_line :: "string \<Rightarrow> u32 option \<times> ip_addr list \<Rightarrow> u32 option \<times> ip_addr list" where
  "trie_line line (last_ip, ips) =
     (case strip_prefix ''|-- '' line of
        Some ip_str \<Rightarrow> (parse_ipv4 ip_str, ips)
      | None \<Rightarrow>
          if strip_prefix ''/32 host LOCAL'' line \<noteq> None then
            (case last_ip of
               Some ip \<Rightarrow> (None, if usable (V4 ip) \<and> V4 ip \<notin> set ips then ips @ [V4 ip] else ips)
             | None \<Rightarrow> (None, ips))
          else (last_ip, ips))"

definition get_local_ips :: "ip_addr option \<Rightarrow> string list option \<Rightarrow> ip_addr list" where
  "get_local_ips outgoing trie =
     (let ips = (case outgoing of Some ip \<Rightarrow> if usable ip then [ip] else [] | None \<Rightarrow> [])
      in case trie of
           None \<Rightarrow> ips
         | Some ls \<Rightarrow> snd (fold (trie_line) ls (None, ips)))"

text \<open>The socket addresses packets are tried against: never an empty list.\<close>

definition local_sock_addrs :: "ip_addr list \<Rightarrow> u16 \<Rightarrow> sock_addr list" where
  "local_sock_addrs ips port =
     (if ips = [] then [\<lparr>sa_ip = V4 0x7F000001, sa_port = port\<rparr>]
      else map (\<lambda>ip. \<lparr>sa_ip = ip, sa_port = port\<rparr>) ips)"

section \<open>Which fields a step can change\<close>

lemmas step_defs = handle_event.simps on_event_def channel_open_def transmit_def send_to_def
  send_video_def send_audio_def media_step_def turn_create_permission_def add_candidate_def
  turn_refresh_def refresh_step_def Let_def

lemma add_candidate_keeps:
  "ice_connected (add_candidate c s) = ice_connected s" "peer_connected (add_candidate c s) = peer_connected s"
  "media_out (add_candidate c s) = media_out s" "hid_out (add_candidate c s) = hid_out s"
  "turn (add_candidate c s) = turn s" "relay_addr (add_candidate c s) = relay_addr s"
  "local_addrs (add_candidate c s) = local_addrs s" "rtc_in (add_candidate c s) = rtc_in s"
  by (auto simp: step_defs split: option.splits)

lemma add_candidates_keep:
  "ice_connected (fold add_candidate cs s) = ice_connected s"
  "peer_connected (fold add_candidate cs s) = peer_connected s"
  "media_out (fold add_candidate cs s) = media_out s" "hid_out (fold add_candidate cs s) = hid_out s"
  "turn (fold add_candidate cs s) = turn s" "relay_addr (fold add_candidate cs s) = relay_addr s"
  "local_addrs (fold add_candidate cs s) = local_addrs s" "rtc_in (fold add_candidate cs s) = rtc_in s"
  by (induction cs arbitrary: s) (simp_all add: add_candidate_keeps)

lemma refresh_step_keeps:
  "ice_connected (refresh_step now n sent s) = ice_connected s" "peer_connected (refresh_step now n sent s) = peer_connected s"
  "media_out (refresh_step now n sent s) = media_out s" "hid_out (refresh_step now n sent s) = hid_out s"
  "turn (refresh_step now n sent s) = turn s" "relay_addr (refresh_step now n sent s) = relay_addr s"
  "local_addrs (refresh_step now n sent s) = local_addrs s" "rtc_in (refresh_step now n sent s) = rtc_in s"
  by (auto simp: step_defs split: option.splits)

lemma media_step_keeps:
  "ice_connected (media_step v a s) = ice_connected s" "peer_connected (media_step v a s) = peer_connected s"
  "hid_out (media_step v a s) = hid_out s" "turn (media_step v a s) = turn s"
  "relay_addr (media_step v a s) = relay_addr s" "local_addrs (media_step v a s) = local_addrs s"
  "rtc_in (media_step v a s) = rtc_in s"
  by (auto simp: step_defs split: option.splits list.splits recv.splits)

lemma media_step_idle: "\<not> ice_connected s \<Longrightarrow> media_step v a s = s"
  by (simp add: media_step_def)

lemma transmit_keeps:
  "ice_connected (transmit n src dst c s) = ice_connected s" "peer_connected (transmit n src dst c s) = peer_connected s"
  "media_out (transmit n src dst c s) = media_out s" "hid_out (transmit n src dst c s) = hid_out s"
  "turn (transmit n src dst c s) = turn s" "relay_addr (transmit n src dst c s) = relay_addr s"
  "local_addrs (transmit n src dst c s) = local_addrs s" "rtc_in (transmit n src dst c s) = rtc_in s"
  by (auto simp: step_defs split: option.splits)

lemma on_event_keeps:
  "media_out (fst (on_event e s)) = media_out s" "turn (fst (on_event e s)) = turn s"
  "relay_addr (fst (on_event e s)) = relay_addr s" "local_addrs (fst (on_event e s)) = local_addrs s"
  "rtc_in (fst (on_event e s)) = rtc_in s"
  by (cases e; auto simp: step_defs split: ice_state.splits)+

definition core where
  "core s = (media_out s, turn s, relay_addr s, local_addrs s, rtc_in s)"

lemma poll_loop_core: "core (fst (poll_loop outs s)) = core s"
proof (induction outs arbitrary: s)
  case (Cons out outs)
  show ?case
  proof (cases out)
    case (EventOut e)
    obtain s1 l where "on_event e s = (s1, l)" by fastforce
    then show ?thesis
      using on_event_keeps [of e s] EventOut Cons.IH [of s1] by (cases l) (simp_all add: core_def)
  qed (use Cons.IH in \<open>simp_all add: core_def transmit_keeps\<close>)
qed simp

lemma poll_loop_keeps:
  "media_out (fst (poll_loop outs s)) = media_out s" "turn (fst (poll_loop outs s)) = turn s"
  "relay_addr (fst (poll_loop outs s)) = relay_addr s" "local_addrs (fst (poll_loop outs s)) = local_addrs s"
  "rtc_in (fst (poll_loop outs s)) = rtc_in s"
  using poll_loop_core [of outs s] by (simp_all add: core_def)

lemma try_addrs_keeps:
  "try_addrs sent from pkt las s = Inr s' \<Longrightarrow>
     s' = s \<or> (\<exists>r. s' = s\<lparr>rtc_in := rtc_in s @ [r]\<rparr>)"
  by (induction las) (auto simp: give_rtc_def split: option.splits sum.splits if_splits)

lemma give_rtc_Inr: "give_rtc sent r s = Inr s' \<longleftrightarrow> sent \<and> s' = s\<lparr>rtc_in := rtc_in s @ [r]\<rparr>"
  by (auto simp: give_rtc_def)

lemma on_packet_keeps:
  assumes "on_packet sent from pkt s = Inr s'"
  shows "s' = s \<or> (\<exists>r. s' = s\<lparr>rtc_in := rtc_in s @ [r]\<rparr>)"
proof (cases "\<exists>ts. turn s = Some ts \<and> from = turn_addr ts")
  case True
  then show ?thesis
    using assms by (auto simp: on_packet_def give_rtc_Inr split: option.splits sum.splits)
next
  case False
  then have "try_addrs sent from pkt (local_addrs s) s = Inr s'"
    using assms by (auto simp: on_packet_def split: option.splits)
  then show ?thesis by (rule try_addrs_keeps)
qed

lemma net_step_keeps:
  "net_step sent n s = Inr s' \<Longrightarrow> s' = s \<or> (\<exists>r. s' = s\<lparr>rtc_in := rtc_in s @ [r]\<rparr>)"
  by (cases n) (auto simp: net_step_def dest: on_packet_keeps split: if_splits)

section \<open>No media before the connection\<close>

lemma on_event_connects:
  "e \<noteq> Connected \<Longrightarrow> ice_connected (fst (on_event e s)) = ice_connected s
     \<and> (peer_connected (fst (on_event e s)) \<longrightarrow> peer_connected s)"
  by (cases e) (auto simp: step_defs split: ice_state.splits)

lemma poll_loop_connects:
  "EventOut Connected \<notin> set outs \<Longrightarrow> ice_connected (fst (poll_loop outs s)) = ice_connected s
     \<and> (peer_connected (fst (poll_loop outs s)) \<longrightarrow> peer_connected s)"
proof (induction outs s rule: poll_loop.induct)
  case (5 e outs s)
  have "e \<noteq> Connected" using "5.prems" by auto
  from on_event_connects [OF this, of s] "5.IH" "5.prems" show ?case
    by (cases "on_event e s") auto
qed (simp_all add: transmit_keeps)

lemma iterate_connects:
  assumes "EventOut Connected \<notin> set (it_outputs it)" and "\<not> ice_connected s"
  shows "media_out (fst (iterate it s)) = media_out s \<and> \<not> ice_connected (fst (iterate it s))
    \<and> (peer_connected (fst (iterate it s)) \<longrightarrow> peer_connected s)"
proof (cases "it_alive it")
  case True
  define s1 where "s1 = refresh_step (it_now it) (it_nanos it) (it_refresh_ok it) (fold add_candidate (it_cands it) s)"
  have s1: "media_out s1 = media_out s" "\<not> ice_connected s1" "peer_connected s1 = peer_connected s"
    using assms(2) by (simp_all add: s1_def refresh_step_keeps add_candidates_keep)
  obtain s2 p where poll: "poll_loop (it_outputs it) s1 = (s2, p)" by fastforce
  have s2: "media_out s2 = media_out s" "\<not> ice_connected s2" "peer_connected s2 \<longrightarrow> peer_connected s"
    using poll_loop_keeps(1) [of "it_outputs it" s1] poll_loop_connects [OF assms(1), of s1] poll s1 by simp_all
  have it: "iterate it s = (case p of Leave r \<Rightarrow> (s2, Finished r) | Unfinished \<Rightarrow> (s2, Live)
      | Waiting t \<Rightarrow> (case net_step (it_accepted it) (it_net it) s2 of Inr s \<Rightarrow> (s, Live)
          | Inl None \<Rightarrow> (s2, Crashed) | Inl (Some e) \<Rightarrow> (s2, Finished (Inl e))))"
    using True poll s1(2) by (simp add: iterate_def s1_def [symmetric] media_step_idle Let_def)
  show ?thesis
  proof (cases "\<exists>t s3. p = Waiting t \<and> net_step (it_accepted it) (it_net it) s2 = Inr s3")
    case True
    then obtain t s3 where "p = Waiting t" "net_step (it_accepted it) (it_net it) s2 = Inr s3" by blast
    with it s2 net_step_keeps [OF this(2)] show ?thesis by auto
  next
    case False
    with it s2 show ?thesis by (auto split: polled.splits sum.splits option.splits)
  qed
qed (use assms(2) in \<open>simp add: iterate_def\<close>)

text \<open>C5. No frame is handed to the library, and the agent does not announce a peer, before the
  library has reported \<open>Connected\<close>: a run in which that event never occurs leaves the media
  output as it was, whatever else happens.\<close>

theorem no_media_before_connected:
  assumes "\<forall>it \<in> set its. EventOut Connected \<notin> set (it_outputs it)" and "\<not> ice_connected s"
  shows "media_out (fst (run_session its s)) = media_out s
    \<and> (peer_connected (fst (run_session its s)) \<longrightarrow> peer_connected s)"
  using assms
proof (induction its arbitrary: s)
  case (Cons it its)
  have step: "media_out (fst (iterate it s)) = media_out s \<and> \<not> ice_connected (fst (iterate it s))
      \<and> (peer_connected (fst (iterate it s)) \<longrightarrow> peer_connected s)"
    by (rule iterate_connects) (use Cons.prems in auto)
  obtain s1 r where it: "iterate it s = (s1, r)" by fastforce
  show ?case
  proof (cases r)
    case Live
    with step it Cons.IH [of s1] Cons.prems(1) show ?thesis by auto
  qed (use step it in simp_all)
qed simp

definition sess_start :: "u8 \<Rightarrow> turn_state option \<Rightarrow> sock_addr option \<Rightarrow> sock_addr list \<Rightarrow> nat \<Rightarrow> sess" where
  "sess_start status ts relay addrs now =
     \<lparr>keyframe_flag = False, peer_connected = False, hid_status = status, ice_connected = False, turn = ts,
      relay_addr = relay, local_addrs = addrs, turn_perms = [], turn_refresh_at = now + 240,
      dc_channel_id = None, video_frame_count = 0, video_write_count = 0, video_drop_count = 0,
      transmit_count = 0, hid_out = [], wire = [], channel_out = [], media_out = [], rtc_in = []\<rparr>"

definition silent :: media_in where
  "silent = \<lparr>mi_recv = NothingThere, mi_ts = 0, mi_writer = None, mi_write_ok = False\<rparr>"

definition one_frame :: media_in where
  "one_frame = \<lparr>mi_recv = Got [0, 0, 0, 1, 0x65], mi_ts = 90000,
     mi_writer = Some [payload_params_new 96 None \<lparr>spec_codec = H264, spec_clock = 90000, channels = None,
       spec_format = no_format\<lparr>packetization_mode := Some 1\<rparr>\<rparr>], mi_write_ok = True\<rparr>"

definition one_iteration :: "rtc_output list \<Rightarrow> net_in \<Rightarrow> iteration" where
  "one_iteration outs n = \<lparr>it_alive = True, it_cands = [], it_now = 0, it_nanos = 0, it_refresh_ok = True,
     it_video = one_frame, it_audio = silent, it_outputs = outs, it_accepted = True, it_net = n\<rparr>"

lemma no_media_before_connected_witness:
  "media_out (fst (run_session [one_iteration [EventOut KeyframeRequest, Timeout 5] (Elapsed True)]
     (sess_start 7 None None [] 0))) = []"
proof -
  let ?its = "[one_iteration [EventOut KeyframeRequest, Timeout 5] (Elapsed True)]"
  let ?s = "sess_start 7 None None [] 0"
  have "\<forall>it \<in> set ?its. EventOut Connected \<notin> set (it_outputs it)" "\<not> ice_connected ?s"
    by (simp_all add: one_iteration_def sess_start_def)
  from no_media_before_connected [OF this] show ?thesis by (simp add: sess_start_def)
qed

section \<open>Control frames reach the HID module in order\<close>

text \<open>The frames of the data channel in one polling, each with whether the HID module is there to take it.\<close>

definition channel_data :: "rtc_output list \<Rightarrow> (bytes \<times> bool) list" where
  "channel_data outs = concat (map (\<lambda>out. case out of EventOut (ChannelData d taken) \<Rightarrow> [(d, taken)] | _ \<Rightarrow> [])
     (takeWhile (\<lambda>out. case out of Timeout _ \<Rightarrow> False | PollError \<Rightarrow> False | _ \<Rightarrow> True) outs))"

definition taken_frames :: "(bytes \<times> bool) list \<Rightarrow> bytes list" where
  "taken_frames ds = map fst (filter snd ds)"

lemma taken_frames_simps [simp]: "taken_frames [] = []" "taken_frames (d # ds) = (if snd d then fst d # taken_frames ds else taken_frames ds)"
  "taken_frames (ds @ es) = taken_frames ds @ taken_frames es"
  by (simp_all add: taken_frames_def)

lemma on_event_hid:
  "hid_out (fst (on_event e s)) = hid_out s @ (case e of ChannelData d taken \<Rightarrow> taken_frames [(d, taken)] | _ \<Rightarrow> [])"
  by (cases e) (auto simp: step_defs split: ice_state.splits)

lemma poll_loop_hid:
  "poll_loop outs s = (s', p) \<Longrightarrow> (\<forall>r. p \<noteq> Leave r) \<Longrightarrow> hid_out s' = hid_out s @ taken_frames (channel_data outs)"
proof (induction outs arbitrary: s)
  case (Cons out outs)
  show ?case
  proof (cases out)
    case (EventOut e)
    obtain s1 l where on: "on_event e s = (s1, l)" by fastforce
    with Cons.prems EventOut have "\<not> l" "poll_loop outs s1 = (s', p)" by (auto split: if_splits)
    with Cons.IH [of s1] Cons.prems(2) on_event_hid [of e s] on EventOut show ?thesis
      by (auto simp: channel_data_def split: rtc_event.splits)
  qed (use Cons in \<open>auto simp: channel_data_def transmit_keeps\<close>)
qed (simp add: channel_data_def)

lemma iterate_hid:
  assumes "iterate it s = (s', Live)"
  shows "hid_out s' = hid_out s @ taken_frames (channel_data (it_outputs it))"
proof -
  define s1 where "s1 = media_step (it_video it) (it_audio it)
      (refresh_step (it_now it) (it_nanos it) (it_refresh_ok it) (fold add_candidate (it_cands it) s))"
  obtain s2 p where poll: "poll_loop (it_outputs it) s1 = (s2, p)" by fastforce
  have alive: "it_alive it" using assms by (auto simp: iterate_def split: if_splits)
  with assms poll have end_state: "s' = s2 \<and> p = Unfinished
      \<or> (\<exists>t. p = Waiting t) \<and> net_step (it_accepted it) (it_net it) s2 = Inr s'"
    by (auto simp: iterate_def s1_def [symmetric] Let_def split: polled.splits sum.splits option.splits)
  then have "hid_out s2 = hid_out s1 @ taken_frames (channel_data (it_outputs it))"
    using poll_loop_hid [OF poll] by auto
  moreover have "hid_out s1 = hid_out s"
    by (simp add: s1_def media_step_keeps refresh_step_keeps add_candidates_keep)
  moreover have "hid_out s' = hid_out s2"
    using end_state net_step_keeps [of "it_accepted it" "it_net it" s2 s'] by auto
  ultimately show ?thesis by simp
qed

text \<open>C12. As long as the session lives, what reaches the HID module is exactly the frames of the data channel
  that came while the module was there to take them, each once and in the order of the channel; a frame
  that comes after the module is gone is lost without a word, and the session goes on.
\<close>

theorem channel_data_in_order:
  assumes "run_session its s = (s', Live)"
  shows "hid_out s' = hid_out s @ taken_frames (concat (map (\<lambda>it. channel_data (it_outputs it)) its))"
  using assms
proof (induction its arbitrary: s)
  case (Cons it its)
  obtain s1 r where it: "iterate it s = (s1, r)" by fastforce
  with Cons.prems have r: "r = Live" by (cases r) simp_all
  with Cons.prems it have "run_session its s1 = (s', Live)" by simp
  with Cons.IH [of s1] iterate_hid [of it s s1] it r show ?case by simp
qed simp

lemma channel_data_in_order_witness:
  "hid_out (fst (run_session [one_iteration [EventOut (ChannelData [1, 2] True), EventOut Connected,
       EventOut (ChannelData [3] True), EventOut (ChannelData [4] False), Timeout 5] RecvError] (sess_start 7 None None [] 0)))
     = [[1, 2], [3]]"
proof -
  let ?its = "[one_iteration [EventOut (ChannelData [1, 2] True), EventOut Connected,
       EventOut (ChannelData [3] True), EventOut (ChannelData [4] False), Timeout 5] RecvError]"
  let ?s = "sess_start 7 None None [] 0"
  have "run_session ?its ?s = (fst (run_session ?its ?s), Live)"
    by (simp add: one_iteration_def iterate_def sess_start_def media_step_idle refresh_step_def Let_def
        on_event_def net_step_def)
  from channel_data_in_order [OF this] show ?thesis
    by (simp add: one_iteration_def channel_data_def sess_start_def)
qed

section \<open>The relay\<close>

text \<open>A packet the library sends from the relayed address leaves as one datagram to the TURN
  server that the relay protocol unwraps to the same destination and contents; any other packet
  goes directly to its destination, unchanged.\<close>

theorem transmit_delivers:
  assumes "turn s = Some ts" and "relay_addr s = Some raddr" and "sa_ip dst = V4 ip"
    and "length contents < 65516"
  shows "(\<exists>pkt. wire (transmit nanos raddr dst contents s) = wire s @ [(turn_addr ts, pkt)]
        \<and> parse_turn_data (to_be16 0x0017 @ drop 2 pkt) = Some (Some (dst, contents)))
    \<and> (src \<noteq> raddr \<longrightarrow> wire (transmit nanos src dst contents s) = wire s @ [(dst, contents)])"
proof -
  have "length (gen_txn_id nanos) = 12" by (simp add: gen_txn_id_def)
  from send_indication_unwraps [OF this assms(4,3)] assms(1,2) show ?thesis
    by (simp add: transmit_def send_to_def Let_def)
qed

definition some_turn :: turn_state where
  "some_turn = \<lparr>turn_addr = \<lparr>sa_ip = V4 0x01020304, sa_port = 3478\<rparr>, realm = [0x61], nonce = [0x62],
     username = [0x63], password = [0x64]\<rparr>"

definition some_addr :: "u32 \<Rightarrow> sock_addr" where
  "some_addr ip = \<lparr>sa_ip = V4 ip, sa_port = 50000\<rparr>"

lemma transmit_delivers_witness:
  "\<exists>pkt. wire (transmit 7 (some_addr 5) (some_addr 9) [1, 2] (sess_start 7 (Some some_turn) (Some (some_addr 5)) [] 0))
       = [] @ [(turn_addr some_turn, pkt)]
     \<and> parse_turn_data (to_be16 0x0017 @ drop 2 pkt) = Some (Some (some_addr 9, [1, 2]))"
proof -
  have "turn (sess_start 7 (Some some_turn) (Some (some_addr 5)) [] 0) = Some some_turn"
    "relay_addr (sess_start 7 (Some some_turn) (Some (some_addr 5)) [] 0) = Some (some_addr 5)"
    "sa_ip (some_addr 9) = V4 9" "length ([1, 2] :: bytes) < 65516"
    by (simp_all add: sess_start_def some_addr_def)
  from transmit_delivers [OF this, of 7] show ?thesis by (simp add: sess_start_def)
qed

section \<open>What the socket delivers\<close>

text \<open>A datagram from the TURN server never reaches the library as it is: it is dropped, or the
  payload of a Data indication enters with the peer's address as its source and the relayed
  address as its destination. Any other datagram is offered with the first local address only:
  whether it is accepted does not depend on the destination, so the loop over the other local
  addresses never gets further.\<close>

theorem packets_are_demultiplexed:
  "on_packet sent from pkt s =
    (if \<exists>ts. turn s = Some ts \<and> turn_addr ts = from then
       (case (relay_addr s, parse_turn_data pkt) of
          (None, _) \<Rightarrow> Inr s
        | (Some raddr, Some (Some (peer, data))) \<Rightarrow> try_addrs sent peer data [raddr] s
        | (Some raddr, Some None) \<Rightarrow> Inr s
        | (Some raddr, None) \<Rightarrow> Inl None)
     else try_addrs sent from pkt (take 1 (local_addrs s)) s)"
proof -
  have refused: "try_addrs sent from pkt las s = Inr s" if "receive_new Udp from la pkt = Some (Inl e)" for la las e
    using that by (induction las) (auto simp: receive_new_def split: Option.bind_splits sum.splits)
  have "try_addrs sent from pkt las s = try_addrs sent from pkt (take 1 las) s" for las
    using refused by (cases las) (auto split: option.splits sum.splits)
  then show ?thesis
    by (auto simp: on_packet_def split: option.splits sum.splits)
qed

text \<open>One empty UDP datagram from any host other than the TURN server ends the session: the
  library reads the first byte unguarded and the task panics, whatever the state and however far
  the connection has come.\<close>

theorem empty_datagram_crashes_session:
  assumes "it_alive it" and "it_net it = Received from []" and "local_addrs s = la # las"
    and "\<forall>ts. turn s = Some ts \<longrightarrow> turn_addr ts \<noteq> from"
    and "snd (poll_loop (it_outputs it) (media_step (it_video it) (it_audio it)
      (refresh_step (it_now it) (it_nanos it) (it_refresh_ok it) (fold add_candidate (it_cands it) s))))
      = Waiting t"
  shows "snd (iterate it s) = Crashed"
proof -
  define s1 where "s1 = media_step (it_video it) (it_audio it)
      (refresh_step (it_now it) (it_nanos it) (it_refresh_ok it) (fold add_candidate (it_cands it) s))"
  obtain s2 where poll: "poll_loop (it_outputs it) s1 = (s2, Waiting t)"
    using assms(5) by (cases "poll_loop (it_outputs it) s1") (simp add: s1_def)
  have "turn s2 = turn s" "local_addrs s2 = local_addrs s"
    using poll_loop_keeps [of "it_outputs it" s1] poll
    by (simp_all add: s1_def media_step_keeps refresh_step_keeps add_candidates_keep)
  moreover have "receive_new Udp from la [] = None"
    by (simp add: receive_new_def datagram_recv_def multiplex_kind_def idx_def)
  ultimately have "on_packet (it_accepted it) from [] s2 = Inl None"
    using assms(3,4) by (auto simp: on_packet_def split: option.splits)
  then show ?thesis
    using assms(1,2) poll by (simp add: iterate_def s1_def [symmetric] net_step_def Let_def)
qed

lemma empty_datagram_crashes_session_witness:
  "snd (iterate (one_iteration [EventOut Connected, Timeout 5] (Received (some_addr 99) []))
     (sess_start 7 None None [some_addr 5] 0)) = Crashed"
  by (rule empty_datagram_crashes_session [of _ "some_addr 99" _ "some_addr 5" "[]" 5])
    (simp_all add: one_iteration_def sess_start_def refresh_step_def media_step_idle on_event_def Let_def)

section \<open>Permissions\<close>

text \<open>An error response to CreatePermission is not noticed: whatever the TURN server answers, the
  peer counts as permitted and no candidate with the same address makes the agent ask again.\<close>

theorem refused_permission_is_recorded:
  assumes "turn s = Some ts" and "ci_send_ok c" and "ci_answer c = PermissionError" and "ci_ip c' = ci_ip c"
  shows "ci_ip c \<in> set (turn_perms (add_candidate (Some c) s))
    \<and> wire (add_candidate (Some c') (add_candidate (Some c) s)) = wire (add_candidate (Some c) s)"
  using assms by (auto simp: add_candidate_def turn_create_permission_def send_to_def Let_def)

lemma refused_permission_is_recorded_witness:
  "V4 9 \<in> set (turn_perms (add_candidate
     (Some \<lparr>ci_ip = V4 9, ci_nanos = 0, ci_send_ok = True, ci_answer = PermissionError\<rparr>)
     (sess_start 7 (Some some_turn) None [] 0)))"
proof -
  let ?c = "\<lparr>ci_ip = V4 9, ci_nanos = 0, ci_send_ok = True, ci_answer = PermissionError\<rparr>"
  have "turn (sess_start 7 (Some some_turn) None [] 0) = Some some_turn" "ci_send_ok ?c"
    "ci_answer ?c = PermissionError" "ci_ip ?c = ci_ip ?c"
    by (simp_all add: sess_start_def)
  from refused_permission_is_recorded [OF this] show ?thesis by simp
qed

section \<open>Payload type and local addresses\<close>

text \<open>The video payload type offered for the openh264 stream: the first H.264 one with
  packetization mode 1, else the first H.264 one, and none exactly when no H.264 was negotiated.\<close>

theorem video_payload_type:
  "(choose_video_pt ps = None \<longleftrightarrow> (\<forall>p \<in> set ps. \<not> is_h264 p))
   \<and> (\<forall>p \<in> set ps. is_mode1 p \<longrightarrow> (\<exists>q \<in> set ps. is_mode1 q \<and> choose_video_pt ps = Some (pp_pt q)))
   \<and> (\<forall>pt. choose_video_pt ps = Some pt \<longrightarrow> (\<exists>q \<in> set ps. is_h264 q \<and> pp_pt q = pt))"
proof -
  have sub: "is_mode1 p \<Longrightarrow> is_h264 p" for p by (simp add: is_mode1_def is_h264_def)
  show ?thesis
    using sub by (auto simp: choose_video_pt_def find_None_iff find_Some_iff split: option.splits) (metis nth_mem)+
qed

lemma trie_lines_good:
  assumes "distinct ips" and "\<forall>ip \<in> set ips. usable ip"
  shows "distinct (snd (fold trie_line ls (prev, ips))) \<and> (\<forall>ip \<in> set (snd (fold trie_line ls (prev, ips))). usable ip)"
  using assms
proof (induction ls arbitrary: prev ips)
  case (Cons l ls)
  obtain prev' ips' where l: "trie_line l (prev, ips) = (prev', ips')" by fastforce
  then have "distinct ips' \<and> (\<forall>ip \<in> set ips'. usable ip)"
    using Cons.prems by (auto split: option.splits if_splits)
  with l Cons.IH [of ips' prev'] show ?case by simp
qed simp

text \<open>The host candidates: no address twice, none a loopback or unspecified one; and the list of
  socket addresses that packets are offered with is never empty.\<close>

theorem local_ips_usable:
  "distinct (get_local_ips outgoing trie) \<and> (\<forall>ip \<in> set (get_local_ips outgoing trie). usable ip)
   \<and> local_sock_addrs (get_local_ips outgoing trie) port \<noteq> []"
proof -
  define ips where "ips = (case outgoing of Some ip \<Rightarrow> if usable ip then [ip] else [] | None \<Rightarrow> [])"
  have ips: "distinct ips" "\<forall>ip \<in> set ips. usable ip" by (auto simp: ips_def split: option.splits)
  have "get_local_ips outgoing trie = (case trie of None \<Rightarrow> ips | Some ls \<Rightarrow> snd (fold trie_line ls (None, ips)))"
    by (simp only: get_local_ips_def ips_def [symmetric] Let_def)
  then have "distinct (get_local_ips outgoing trie) \<and> (\<forall>ip \<in> set (get_local_ips outgoing trie). usable ip)"
    using ips trie_lines_good [OF ips, of _ None] by (cases trie) simp_all
  then show ?thesis by (simp add: local_sock_addrs_def)
qed

end
