(* ===== verification/ReportList.thy ===== *)
theory ReportList imports Wire begin

text \<open>
  \<open>rtp/rtcp/list.rs\<close> of the patched str0m: a list of at most 31 reports, kept as an array of 31
  optional entries. The operations are first modelled on the array as the code has them; each is
  then shown to be the operation on the list of the reports, which the packet theories use.
\<close>

section \<open>The array operations\<close>

type_synonym 'a report_array = "'a option list"

definition ra_new :: "'a report_array" where
  "ra_new = replicate 31 None"

definition ra_len :: "'a report_array \<Rightarrow> nat" where
  "ra_len a = length (takeWhile (\<lambda>x. x \<noteq> None) a)"

definition ra_push :: "'a report_array \<Rightarrow> 'a \<Rightarrow> 'a report_array option" where
  "ra_push a v = put a (ra_len a) (Some v)"

definition ra_is_empty :: "'a report_array \<Rightarrow> bool" where
  "ra_is_empty a \<longleftrightarrow> ra_len a = 0"

definition ra_is_full :: "'a report_array \<Rightarrow> bool" where
  "ra_is_full a \<longleftrightarrow> ra_len a = 31"

text \<open>The iterator stops at the first empty entry and after the last one.\<close>

function ra_iter :: "'a report_array \<Rightarrow> nat \<Rightarrow> 'a list" where
  "ra_iter a i =
     (if 30 < i then []
      else case idx a i of Some (Some x) \<Rightarrow> x # ra_iter a (i + 1) | _ \<Rightarrow> [])"
  by pat_completeness auto
termination by (relation "measure (\<lambda>(a, i). 31 - i)") auto

declare ra_iter.simps [simp del]

text \<open>
  \<open>append_all_possible\<close>: the loop takes entries out of \<open>other\<close> while they fit in the words that
  are left; the second loop shifts the remaining ones down.
\<close>

function ra_move ::
  "('a \<Rightarrow> nat) \<Rightarrow> nat \<Rightarrow> nat \<Rightarrow> nat \<Rightarrow> nat \<Rightarrow> 'a report_array \<Rightarrow> 'a report_array
     \<Rightarrow> (nat \<times> 'a report_array \<times> 'a report_array) option" where
  "ra_move sz pos lim i words a b =
     (if lim \<le> i then Some (i, a, b)
      else case idx b i of
        Some (Some item) \<Rightarrow>
          if words < sz item then Some (i, a, b)
          else do {
            a \<leftarrow> put a (pos + i) (Some item);
            b \<leftarrow> put b i None;
            ra_move sz pos lim (i + 1) (words - sz item) a b
          }
      | _ \<Rightarrow> None)"
  by pat_completeness auto
termination by (relation "measure (\<lambda>(sz, pos, lim, i, words, a, b). lim - i)") auto

declare ra_move.simps [simp del]

definition ra_shift :: "nat \<Rightarrow> 'a report_array \<Rightarrow> 'a report_array option" where
  "ra_shift i b = for_each (\<lambda>j b. do { v \<leftarrow> idx b j; b \<leftarrow> put b j None; put b (j - i) v }) [i..<31] b"

definition ra_append_all_possible ::
  "('a \<Rightarrow> nat) \<Rightarrow> 'a report_array \<Rightarrow> 'a report_array \<Rightarrow> nat
     \<Rightarrow> ('a report_array \<times> 'a report_array \<times> nat) option" where
  "ra_append_all_possible sz a b words = do {
     let pos = ra_len a;
     (i, a, b) \<leftarrow> ra_move sz pos (min (31 - pos) (ra_len b)) 0 words a b;
     b \<leftarrow> ra_shift i b;
     Some (a, b, i)
   }"

text \<open>\<open>lists_from_iter\<close>: a new list is begun before every 31st item.\<close>

fun ra_lists_loop :: "nat \<Rightarrow> 'a list \<Rightarrow> 'a report_array \<Rightarrow> 'a report_array list \<Rightarrow> 'a report_array list option" where
  "ra_lists_loop i [] current acc = Some (if ra_is_empty current then acc else acc @ [current])"
| "ra_lists_loop i (x # xs) current acc =
     (let (acc, current) = (if i mod 31 = 0 \<and> i \<noteq> 0 then (acc @ [current], ra_new) else (acc, current))
      in case ra_push current x of None \<Rightarrow> None | Some current \<Rightarrow> ra_lists_loop (i + 1) xs current acc)"

definition ra_lists_from_iter :: "'a list \<Rightarrow> 'a report_array list option" where
  "ra_lists_from_iter xs = ra_lists_loop 0 xs ra_new []"

section \<open>The operations on the list of reports\<close>

definition rl_push :: "'a list \<Rightarrow> 'a \<Rightarrow> 'a list option" where
  "rl_push xs v = (if length xs < 31 then Some (xs @ [v]) else None)"

fun append_all_possible :: "('a \<Rightarrow> nat) \<Rightarrow> 'a list \<Rightarrow> 'a list \<Rightarrow> nat \<Rightarrow> 'a list \<times> 'a list \<times> nat" where
  "append_all_possible sz xs [] words = (xs, [], 0)"
| "append_all_possible sz xs (y # ys) words =
     (if 31 \<le> length xs \<or> words < sz y then (xs, y # ys, 0)
      else let (xs', ys', n) = append_all_possible sz (xs @ [y]) ys (words - sz y) in (xs', ys', n + 1))"

function lists_from_iter :: "'a list \<Rightarrow> 'a list list" where
  "lists_from_iter xs = (if xs = [] then [] else take 31 xs # lists_from_iter (drop 31 xs))"
  by pat_completeness auto
termination by (relation "measure length") auto

declare lists_from_iter.simps [simp del]

section \<open>The arrays represent the lists\<close>

definition rep :: "'a list \<Rightarrow> 'a report_array" where
  "rep xs = map Some xs @ replicate (31 - length xs) None"

lemma rep_Nil [simp]: "rep [] = ra_new"
  by (simp add: rep_def ra_new_def)

lemma ra_len_rep [simp]: "ra_len (rep xs) = length xs"
  by (simp add: ra_len_def rep_def takeWhile_append)

lemma length_rep [simp]: "length xs \<le> 31 \<Longrightarrow> length (rep xs) = 31"
  by (simp add: rep_def)

lemma nth_rep: "i < 31 \<Longrightarrow> length xs \<le> 31 \<Longrightarrow> rep xs ! i = (if i < length xs then Some (xs ! i) else None)"
  by (simp add: rep_def nth_append)

lemma rep_eqI:
  assumes "length a = 31" "length xs \<le> 31"
    and "\<And>i. i < 31 \<Longrightarrow> a ! i = (if i < length xs then Some (xs ! i) else None)"
  shows "a = rep xs"
  using assms by (intro nth_equalityI) (auto simp: nth_rep)

lemma ra_push_rep: "length xs \<le> 31 \<Longrightarrow> ra_push (rep xs) v = map_option rep (rl_push xs v)"
  unfolding ra_push_def rl_push_def put_def
  by (auto intro!: rep_eqI simp: nth_rep nth_list_update nth_append)

lemma ra_iter_rep: "length xs \<le> 31 \<Longrightarrow> ra_iter (rep xs) i = drop i xs"
proof (induction "31 - i" arbitrary: i)
  case 0
  then show ?case by (subst ra_iter.simps) simp
next
  case (Suc n)
  then have i: "i < 31" by simp
  with Suc.prems have v: "idx (rep xs) i = Some (if i < length xs then Some (xs ! i) else None)"
    by (simp add: idx_def nth_rep)
  from Suc have "ra_iter (rep xs) (i + 1) = drop (i + 1) xs" by simp
  with i v show ?case by (subst ra_iter.simps) (simp add: Cons_nth_drop_Suc)
qed

text \<open>The two loops of \<open>append_all_possible\<close>: what is moved, then what is left.\<close>

lemma append_all_possible_split:
  "append_all_possible sz xs ys w = (xs', ys', n) \<Longrightarrow>
     xs' = xs @ take n ys \<and> ys' = drop n ys \<and> n \<le> length ys \<and> (length xs \<le> 31 \<longrightarrow> length xs' \<le> 31)"
  by (induction sz xs ys w arbitrary: xs' n rule: append_all_possible.induct)
    (auto split: if_splits prod.splits)

definition moved :: "nat \<Rightarrow> 'a list \<Rightarrow> 'a report_array" where
  "moved i ys = replicate i None @ map Some (drop i ys) @ replicate (31 - length ys) None"

lemma moved_0 [simp]: "moved 0 ys = rep ys"
  by (simp add: moved_def rep_def)

lemma moved_props:
  assumes "i < length ys" "length ys \<le> 31"
  shows "idx (moved i ys) i = Some (Some (ys ! i))"
    and "put (moved i ys) i None = Some (moved (Suc i) ys)"
proof -
  have d: "drop i ys = ys ! i # drop (Suc i) ys" using assms by (simp add: Cons_nth_drop_Suc)
  let ?r = "map Some (drop (Suc i) ys) @ replicate (31 - length ys) None"
  have m: "moved i ys = replicate i None @ Some (ys ! i) # ?r"
    using d by (simp add: moved_def)
  have m': "moved (Suc i) ys = replicate i None @ None # ?r"
    by (simp add: moved_def replicate_append_same [symmetric])
  show "idx (moved i ys) i = Some (Some (ys ! i))" unfolding m by (simp add: idx_def nth_append)
  show "put (moved i ys) i None = Some (moved (Suc i) ys)"
    unfolding m m' by (simp add: put_def list_update_append)
qed

lemma put_rep:
  "length xs < 31 \<Longrightarrow> put (rep xs) (length xs) (Some v) = Some (rep (xs @ [v]))"
  using ra_push_rep [of xs v] by (simp add: ra_push_def rl_push_def)

lemma ra_move_rep:
  assumes "length xs \<le> 31" "length ys \<le> 31" "i \<le> min (31 - length xs) (length ys)"
    and "append_all_possible sz (xs @ take i ys) (drop i ys) w = (xs', ys', n)"
  shows "ra_move sz (length xs) (min (31 - length xs) (length ys)) i w (rep (xs @ take i ys)) (moved i ys)
       = Some (i + n, rep xs', moved (i + n) ys)"
  using assms(3,4)
proof (induction "length ys - i" arbitrary: i w n)
  case 0
  then show ?case by (subst ra_move.simps) simp
next
  case (Suc k)
  then have i: "i < length ys" by simp
  then have d: "drop i ys = ys ! i # drop (Suc i) ys" by (simp add: Cons_nth_drop_Suc)
  have len: "length (xs @ take i ys) = length xs + i" using i by simp
  show ?case
  proof (cases "31 \<le> length xs + i \<or> w < sz (ys ! i)")
    case True
    with Suc.prems(2) d len have "n = 0" "xs' = xs @ take i ys" by (auto split: if_splits)
    with True i assms(2) show ?thesis
      by (subst ra_move.simps) (auto simp: moved_props(1))
  next
    case False
    have tk: "xs @ take (Suc i) ys = (xs @ take i ys) @ [ys ! i]"
      using i by (simp add: take_Suc_conv_app_nth)
    from Suc.prems(2) d len False tk obtain n' where n': "n = Suc n'"
      and app: "append_all_possible sz (xs @ take (Suc i) ys) (drop (Suc i) ys) (w - sz (ys ! i)) = (xs', ys', n')"
      by (auto split: prod.splits)
    have "put (rep (xs @ take i ys)) (length xs + i) (Some (ys ! i)) = Some (rep (xs @ take (Suc i) ys))"
      using put_rep [of "xs @ take i ys" "ys ! i"] False len tk by simp
    moreover have "ra_move sz (length xs) (min (31 - length xs) (length ys)) (Suc i) (w - sz (ys ! i))
        (rep (xs @ take (Suc i) ys)) (moved (Suc i) ys) = Some (Suc i + n', rep xs', moved (Suc i + n') ys)"
      by (rule Suc.hyps(1) [OF _ _ app]) (use Suc.hyps(2) i False in auto)
    moreover have "\<not> min (31 - length xs) (length ys) \<le> i" using i False by (auto simp: min_def)
    ultimately show ?thesis
      using False i assms(2) by (subst ra_move.simps) (simp add: moved_props n')
  qed
qed

lemma shift_steps:
  assumes "\<And>k. k < i \<Longrightarrow> b ! k = None" "i \<le> m" "m \<le> length b"
  shows "for_each (\<lambda>j b. do { v \<leftarrow> idx b j; b \<leftarrow> put b j None; put b (j - i) v }) [i..<m] b
    = Some (map (\<lambda>k. if k < m - i then b ! (k + i) else if k < m then None else b ! k) [0..<length b])"
  using assms(2,3)
proof (induction m)
  case 0
  then show ?case by (simp add: map_nth)
next
  case (Suc m)
  show ?case
  proof (cases "i \<le> m")
    case False
    with Suc.prems have "i = Suc m" by simp
    moreover have "b = map (\<lambda>k. if k < Suc m then None else b ! k) [0..<length b]"
      using assms(1) \<open>i = Suc m\<close> by (intro nth_equalityI) auto
    ultimately show ?thesis by simp
  next
    case True
    let ?c = "map (\<lambda>k. if k < m - i then b ! (k + i) else if k < m then None else b ! k) [0..<length b]"
    have "(?c[m := None])[m - i := b ! m]
      = map (\<lambda>k. if k < Suc m - i then b ! (k + i) else if k < Suc m then None else b ! k) [0..<length b]"
      using True Suc.prems by (cases "i = 0") (auto intro!: nth_equalityI simp: nth_list_update)
    moreover have "idx ?c m = Some (b ! m)" using True Suc.prems by (auto simp: idx_def)
    moreover have "put ?c m None = Some (?c[m := None])" using Suc.prems by (simp add: put_def)
    moreover have "put (?c[m := None]) (m - i) (b ! m) = Some ((?c[m := None])[m - i := b ! m])"
      using Suc.prems by (simp add: put_def)
    ultimately show ?thesis
      using True Suc.IH Suc.prems by (simp add: for_each_append)
  qed
qed

lemma ra_shift_moved:
  assumes "i \<le> length ys" "length ys \<le> 31"
  shows "ra_shift i (moved i ys) = Some (rep (drop i ys))"
proof -
  let ?b = "moved i ys"
  have len: "length ?b = 31" using assms by (simp add: moved_def)
  have b: "?b ! k = (if k < i then None else if k < length ys then Some (ys ! k) else None)" if "k < 31" for k
    using that assms by (auto simp: moved_def nth_append)
  have "map (\<lambda>k. if k < 31 - i then ?b ! (k + i) else if k < 31 then None else ?b ! k) [0..<31] = rep (drop i ys)"
    using assms by (intro rep_eqI) (auto simp: b add.commute)
  with shift_steps [of i ?b 31] assms len show ?thesis
    by (simp add: ra_shift_def b)
qed

lemma ra_append_rep:
  assumes "length xs \<le> 31" "length ys \<le> 31"
  shows "ra_append_all_possible sz (rep xs) (rep ys) w
    = (case append_all_possible sz xs ys w of (xs', ys', n) \<Rightarrow> Some (rep xs', rep ys', n))"
proof (cases "append_all_possible sz xs ys w")
  case (fields xs' ys' n)
  with ra_move_rep [of xs ys 0 sz w xs' ys' n] assms
  have "ra_move sz (length xs) (min (31 - length xs) (length ys)) 0 w (rep xs) (rep ys)
      = Some (n, rep xs', moved n ys)" by simp
  moreover have "ra_shift n (moved n ys) = Some (rep ys')"
    using append_all_possible_split [OF fields] ra_shift_moved [of n ys] assms by simp
  ultimately show ?thesis by (simp add: ra_append_all_possible_def Let_def fields)
qed

text \<open>\<open>lists_from_iter\<close> cuts the items into full lists and a shorter last one.\<close>

lemma ra_lists_loop_rep:
  assumes "length cur \<le> 31" "i = 31 * k + length cur" "cur = [] \<longrightarrow> i = 0"
  shows "ra_lists_loop i xs (rep cur) acc = Some (acc @ map rep (lists_from_iter (cur @ xs)))"
  using assms
proof (induction xs arbitrary: i cur k acc)
  case Nil
  then show ?case
    by (subst lists_from_iter.simps) (auto simp: ra_is_empty_def lists_from_iter.simps)
next
  case (Cons x xs)
  show ?case
  proof (cases "length cur = 31")
    case True
    then have "lists_from_iter (cur @ x # xs) = cur # lists_from_iter (x # xs)"
      by (subst lists_from_iter.simps) auto
    moreover have "ra_push ra_new x = Some (rep [x])"
      using ra_push_rep [of "[]" x] by (simp add: rl_push_def)
    moreover have "ra_lists_loop (i + 1) xs (rep [x]) (acc @ [rep cur])
        = Some ((acc @ [rep cur]) @ map rep (lists_from_iter ([x] @ xs)))"
      using True Cons.prems by (intro Cons.IH [of "[x]" _ "Suc k"]) auto
    ultimately show ?thesis using True Cons.prems by simp
  next
    case False
    with Cons.prems have "length cur < 31" by simp
    moreover have "\<not> (i mod 31 = 0 \<and> i \<noteq> 0)" using Cons.prems \<open>length cur < 31\<close> by auto
    moreover have "ra_lists_loop (i + 1) xs (rep (cur @ [x])) acc
        = Some (acc @ map rep (lists_from_iter ((cur @ [x]) @ xs)))"
      using \<open>length cur < 31\<close> Cons.prems by (intro Cons.IH [of _ _ k]) auto
    ultimately show ?thesis by (simp only: ra_lists_loop.simps Let_def if_False prod.case)
      (simp add: ra_push_rep rl_push_def)
  qed
qed

lemma ra_lists_from_iter_rep: "ra_lists_from_iter xs = Some (map rep (lists_from_iter xs))"
  using ra_lists_loop_rep [of "[]" 0 0 xs "[]"] by (simp add: ra_lists_from_iter_def)

lemma lists_from_iter_concat: "concat (lists_from_iter xs) = xs"
  by (induction xs rule: lists_from_iter.induct) (subst lists_from_iter.simps, simp)

lemma lists_from_iter_sizes: "l \<in> set (lists_from_iter xs) \<Longrightarrow> 0 < length l \<and> length l \<le> 31"
  by (induction xs rule: lists_from_iter.induct)
    (subst (asm) (2) lists_from_iter.simps, auto split: if_splits)

text \<open>C31. The array of 31 optional entries is the list of its reports: pushing, iterating, merging
  two lists within a word budget (whose shifting loop leaves no hole) and cutting a stream into
  lists commute with the representation, and nothing is lost or reordered by a merge.\<close>

theorem report_list_refines:
  assumes "length xs \<le> 31" and "length ys \<le> 31"
  shows "ra_push (rep xs) v = map_option rep (rl_push xs v)
     \<and> ra_iter (rep xs) 0 = xs
     \<and> ra_append_all_possible sz (rep xs) (rep ys) w
       = (case append_all_possible sz xs ys w of (xs', ys', n) \<Rightarrow> Some (rep xs', rep ys', n))
     \<and> (case append_all_possible sz xs ys w of (xs', ys', n) \<Rightarrow> xs' @ ys' = xs @ ys)
     \<and> ra_lists_from_iter zs = Some (map rep (lists_from_iter zs))
     \<and> concat (lists_from_iter zs) = zs \<and> (\<forall>l \<in> set (lists_from_iter zs). 0 < length l \<and> length l \<le> 31)"
proof -
  have "case append_all_possible sz xs ys w of (xs', ys', n) \<Rightarrow> xs' @ ys' = xs @ ys"
    by (cases "append_all_possible sz xs ys w") (use append_all_possible_split in fastforce)
  then show ?thesis using assms lists_from_iter_sizes [of _ zs]
    by (simp add: ra_push_rep ra_iter_rep ra_append_rep ra_lists_from_iter_rep lists_from_iter_concat)
qed

theorem report_list_refines_witness:
  "ra_append_all_possible (\<lambda>_. 6) (rep [1, 2]) (rep [3, 4 :: nat]) 7 = Some (rep [1, 2, 3], rep [4], 1)
   \<and> ra_push (rep [1, 2 :: nat]) 5 = Some (rep [1, 2, 5])"
  using report_list_refines [of "[1, 2 :: nat]" "[3, 4]" 5 "\<lambda>_. 6" 7 "[]"]
  by (auto simp: rl_push_def)

end
