(* ===== verification/RtcpHeader.thy ===== *)
theory RtcpHeader imports Wire begin

text \<open>
  \<open>rtp/rtcp/header.rs\<close> and \<open>fmt.rs\<close> of the patched str0m: the four octets every RTCP packet
  begins with, and the meaning of the five bit field next to the version.
\<close>

section \<open>The enumerations\<close>

datatype rtcp_type = SenderReportT | ReceiverReportT | SourceDescriptionT | GoodbyeT
  | ApplicationDefinedT | TransportLayerFeedbackT | PayloadSpecificFeedbackT | ExtendedReportT

fun rtcp_type_to_u8 :: "rtcp_type \<Rightarrow> u8" where
  "rtcp_type_to_u8 SenderReportT = 200"
| "rtcp_type_to_u8 ReceiverReportT = 201"
| "rtcp_type_to_u8 SourceDescriptionT = 202"
| "rtcp_type_to_u8 GoodbyeT = 203"
| "rtcp_type_to_u8 ApplicationDefinedT = 204"
| "rtcp_type_to_u8 TransportLayerFeedbackT = 205"
| "rtcp_type_to_u8 PayloadSpecificFeedbackT = 206"
| "rtcp_type_to_u8 ExtendedReportT = 207"

definition rtcp_type_try_from :: "u8 \<Rightarrow> string + rtcp_type" where
  "rtcp_type_try_from v =
     (if v = 200 then Inr SenderReportT else if v = 201 then Inr ReceiverReportT
      else if v = 202 then Inr SourceDescriptionT else if v = 203 then Inr GoodbyeT
      else if v = 204 then Inr ApplicationDefinedT else if v = 205 then Inr TransportLayerFeedbackT
      else if v = 206 then Inr PayloadSpecificFeedbackT else if v = 207 then Inr ExtendedReportT
      else Inl ''Unknown RtcpType'')"

datatype transport_type = NackT | TransportWideT

fun transport_to_u8 :: "transport_type \<Rightarrow> u8" where
  "transport_to_u8 NackT = 1"
| "transport_to_u8 TransportWideT = 15"

definition transport_try_from :: "u8 \<Rightarrow> string + transport_type" where
  "transport_try_from v =
     (if v = 1 then Inr NackT else if v = 15 then Inr TransportWideT else Inl ''Uknown TransportType'')"

datatype payload_type = PictureLossIndicationT | SliceLossIndicationT
  | ReferencePictureSelectionIndicationT | FullIntraRequestT | ApplicationLayerT

fun payload_to_u8 :: "payload_type \<Rightarrow> u8" where
  "payload_to_u8 PictureLossIndicationT = 1"
| "payload_to_u8 SliceLossIndicationT = 2"
| "payload_to_u8 ReferencePictureSelectionIndicationT = 3"
| "payload_to_u8 FullIntraRequestT = 4"
| "payload_to_u8 ApplicationLayerT = 15"

definition payload_try_from :: "u8 \<Rightarrow> string + payload_type" where
  "payload_try_from v =
     (if v = 1 then Inr PictureLossIndicationT else if v = 2 then Inr SliceLossIndicationT
      else if v = 3 then Inr ReferencePictureSelectionIndicationT
      else if v = 4 then Inr FullIntraRequestT else if v = 15 then Inr ApplicationLayerT
      else Inl ''Uknown PayloadType'')"

datatype feedback_type = ReceptionReportCount u8 | SourceCount u8 | Subtype u8
  | TransportFeedback transport_type | PayloadFeedback payload_type | NotUsed

text \<open>\<open>count\<close> panics on the kinds that are no count; \<open>From<FeedbackMessageType>\<close> asserts five bits.\<close>

fun feedback_count :: "feedback_type \<Rightarrow> u8 option" where
  "feedback_count (ReceptionReportCount v) = Some v"
| "feedback_count (SourceCount v) = Some v"
| "feedback_count _ = None"

fun feedback_to_u8 :: "feedback_type \<Rightarrow> u8 option" where
  "feedback_to_u8 (ReceptionReportCount v) = (if v \<le> 31 then Some v else None)"
| "feedback_to_u8 (SourceCount v) = (if v \<le> 31 then Some v else None)"
| "feedback_to_u8 (Subtype v) = (if v \<le> 31 then Some v else None)"
| "feedback_to_u8 (TransportFeedback t) = Some (transport_to_u8 t)"
| "feedback_to_u8 (PayloadFeedback p) = Some (payload_to_u8 p)"
| "feedback_to_u8 NotUsed = Some 0"

section \<open>The header\<close>

definition LEN_HEADER :: nat where "LEN_HEADER = 4"

record rtcp_header =
  h_type :: rtcp_type
  h_feedback :: feedback_type
  h_words_less_one :: u16

definition h_length_words :: "rtcp_header \<Rightarrow> nat" where
  "h_length_words h = unat (h_words_less_one h) + 1"

text \<open>
  \<open>count\<close>: the number of entries the header announces. Its subtractions are those of \<open>usize\<close>,
  which wrap in a release build.
\<close>

definition h_fci_length :: "rtcp_header \<Rightarrow> nat" where
  "h_fci_length h = unat (of_nat (h_length_words h * 4) - of_nat LEN_HEADER - 2 * 4 :: u64)"

definition h_count :: "rtcp_header \<Rightarrow> nat option" where
  "h_count h =
     (case h_type h of
        SenderReportT \<Rightarrow> map_option unat (feedback_count (h_feedback h))
      | ReceiverReportT \<Rightarrow> map_option unat (feedback_count (h_feedback h))
      | SourceDescriptionT \<Rightarrow> map_option unat (feedback_count (h_feedback h))
      | GoodbyeT \<Rightarrow> map_option unat (feedback_count (h_feedback h))
      | ApplicationDefinedT \<Rightarrow> Some 1
      | TransportLayerFeedbackT \<Rightarrow>
          (case h_feedback h of
             TransportFeedback NackT \<Rightarrow> Some (h_fci_length h div 4)
           | TransportFeedback TransportWideT \<Rightarrow> Some 0
           | _ \<Rightarrow> None)
      | PayloadSpecificFeedbackT \<Rightarrow>
          (case h_feedback h of
             PayloadFeedback PictureLossIndicationT \<Rightarrow> Some 1
           | PayloadFeedback FullIntraRequestT \<Rightarrow> Some (h_fci_length h div 8)
           | PayloadFeedback _ \<Rightarrow> Some 0
           | _ \<Rightarrow> None)
      | ExtendedReportT \<Rightarrow> Some 0)"

text \<open>The octets \<open>write_to\<close> puts at the start of the buffer.\<close>

definition header_bytes :: "rtcp_header \<Rightarrow> bytes option" where
  "header_bytes h = do {
     fmt \<leftarrow> feedback_to_u8 (h_feedback h);
     Some ([0x80 OR fmt, rtcp_type_to_u8 (h_type h)] @ to_be16 (h_words_less_one h))
   }"

definition feedback_of :: "rtcp_type \<Rightarrow> u8 \<Rightarrow> string + feedback_type" where
  "feedback_of t fmt =
     (case t of
        SenderReportT \<Rightarrow> Inr (ReceptionReportCount fmt)
      | ReceiverReportT \<Rightarrow> Inr (ReceptionReportCount fmt)
      | SourceDescriptionT \<Rightarrow> Inr (SourceCount fmt)
      | GoodbyeT \<Rightarrow> Inr (SourceCount fmt)
      | ApplicationDefinedT \<Rightarrow> Inr (Subtype fmt)
      | TransportLayerFeedbackT \<Rightarrow> map_sum id TransportFeedback (transport_try_from fmt)
      | PayloadSpecificFeedbackT \<Rightarrow> map_sum id PayloadFeedback (payload_try_from fmt)
      | ExtendedReportT \<Rightarrow> Inr NotUsed)"

definition header_try_from :: "bytes \<Rightarrow> rtcp_header res" where
  "header_try_from buf =
     (if length buf < 4 then err ''Need 4 bytes for RTCP header''
      else do {
        b0 \<leftarrow> idx buf 0;
        let version = drop_bit 6 (b0 AND 0xC0);
        if version \<noteq> 2 then err ''RTCP header version should be 2''
        else do {
          let fmt = b0 AND 0x1F;
          b1 \<leftarrow> idx buf 1;
          (case rtcp_type_try_from b1 of
             Inl e \<Rightarrow> err e
           | Inr t \<Rightarrow>
               (case feedback_of t fmt of
                  Inl e \<Rightarrow> err e
                | Inr fb \<Rightarrow> do {
                    words \<leftarrow> u16_at buf 2;
                    ok \<lparr>h_type = t, h_feedback = fb, h_words_less_one = words\<rparr>
                  }))
        }
      })"

section \<open>Reading a written header\<close>

definition header_ok :: "rtcp_header \<Rightarrow> bool" where
  "header_ok h \<longleftrightarrow> (\<exists>fmt. feedback_to_u8 (h_feedback h) = Some fmt \<and> feedback_of (h_type h) fmt = Inr (h_feedback h))"

lemma rtcp_type_roundtrip [simp]: "rtcp_type_try_from (rtcp_type_to_u8 t) = Inr t"
  by (cases t) (simp_all add: rtcp_type_try_from_def)

text \<open>There are only 32 values of the field.\<close>

lemma u8_le31_cases:
  assumes "(v :: u8) \<le> 31" and "list_all P (map word_of_nat [0..<32])"
  shows "P v"
proof -
  have "unat v < 32" using assms(1) by (simp add: word_le_nat_alt)
  then have "word_of_nat (unat v) \<in> set (map word_of_nat [0..<32] :: u8 list)"
    unfolding set_map by (intro imageI) simp
  moreover have "word_of_nat (unat v) = v" by simp
  ultimately show ?thesis using assms(2) by (force simp: list_all_iff)
qed

lemma first_octet:
  assumes "(fmt :: u8) \<le> 31"
  shows "drop_bit 6 ((0x80 OR fmt) AND 0xC0) = 2" and "(0x80 OR fmt) AND 0x1F = fmt"
    and "(0x80 OR fmt) AND 0x20 = 0"
  by (rule u8_le31_cases [OF assms]; simp add: upt_rec)+

lemma feedback_to_u8_le31: "feedback_to_u8 f = Some v \<Longrightarrow> v \<le> 31"
proof (cases f)
  case (TransportFeedback t)
  then show "feedback_to_u8 f = Some v \<Longrightarrow> v \<le> 31" by (cases t) auto
next
  case (PayloadFeedback p)
  then show "feedback_to_u8 f = Some v \<Longrightarrow> v \<le> 31" by (cases p) auto
qed (auto split: if_splits)

text \<open>A header whose field fits reads back, whatever follows it, and does not look padded.\<close>

lemma header_roundtrip:
  assumes "header_ok h" and "header_bytes h = Some bs"
  shows "length bs = 4" "header_try_from (bs @ rest) = ok h" "(bs @ rest) ! 0 AND 0x20 = 0"
proof -
  from assms obtain fmt where f: "feedback_to_u8 (h_feedback h) = Some fmt"
    "feedback_of (h_type h) fmt = Inr (h_feedback h)"
    and bs: "bs = [0x80 OR fmt, rtcp_type_to_u8 (h_type h)] @ to_be16 (h_words_less_one h)"
    by (auto simp: header_ok_def header_bytes_def bind_eq_Some_conv)
  note oct = first_octet [OF feedback_to_u8_le31 [OF f(1)]]
  show "length bs = 4" "(bs @ rest) ! 0 AND 0x20 = 0" using bs oct(3) by simp_all
  have "\<not> length (bs @ rest) < 4" by (simp add: bs)
  then show "header_try_from (bs @ rest) = ok h"
    unfolding header_try_from_def bs Let_def
    by (simp only: append_Cons append_Nil append_assoc idx_skip(1) Option.bind.bind_lunit oct if_False if_True
        not_True_eq_False rtcp_type_roundtrip f(2) sum.case)
      (simp add: wire_simps f(2))
qed

lemma header_try_from_total: "header_try_from buf \<noteq> None"
  by (auto simp: header_try_from_def idx_def u16_at_def Let_def split: sum.splits)

lemma header_try_from_length: "header_try_from buf = ok h \<Longrightarrow> 4 \<le> length buf"
  by (auto simp: header_try_from_def split: if_splits)

lemma header_bytes_ok: "header_ok h \<Longrightarrow> header_bytes h \<noteq> None"
  by (auto simp: header_ok_def header_bytes_def)

end
