(* ===== verification/RtcpPackets.thy ===== *)
theory RtcpPackets imports RtcpHeader ReportList begin

text \<open>
  The RTCP packets of \<open>rtp/rtcp/nack.rs\<close>, \<open>pli.rs\<close>, \<open>fir.rs\<close>, \<open>rr.rs\<close>, \<open>sr.rs\<close> and \<open>bb.rs\<close> of
  the patched str0m, each with its header, its length in words, its writer and its parser; and
  the interface they share, the trait \<open>RtcpPacket\<close> with the parser that reads it back.
  A clock value (an \<open>Instant\<close>) is kept as the 64 bit NTP time it is exchanged as: the floating
  point conversion to the process clock is not modelled.
\<close>

section \<open>Negative acknowledgements\<close>

record nack_entry =
  ne_pid :: u16
  ne_blp :: u16

record nack =
  n_sender_ssrc :: u32
  n_ssrc :: u32
  n_reports :: "nack_entry list"

definition nack_length_words :: "nack \<Rightarrow> nat" where
  "nack_length_words p = 1 + 2 + length (n_reports p)"

definition nack_header :: "nack \<Rightarrow> rtcp_header" where
  "nack_header p = \<lparr>h_type = TransportLayerFeedbackT, h_feedback = TransportFeedback NackT,
     h_words_less_one = of_nat (nack_length_words p - 1)\<rparr>"

definition nack_entry_bytes :: "nack_entry \<Rightarrow> bytes" where
  "nack_entry_bytes e = to_be16 (ne_pid e) @ to_be16 (ne_blp e)"

definition nack_body :: "nack \<Rightarrow> bytes" where
  "nack_body p = to_be32 (n_sender_ssrc p) @ to_be32 (n_ssrc p) @ concat (map nack_entry_bytes (n_reports p))"

definition nack_write_to :: "nack \<Rightarrow> bytes \<Rightarrow> (bytes \<times> nat) option" where
  "nack_write_to p buf = do {
     hs \<leftarrow> header_bytes (nack_header p);
     buf \<leftarrow> emit (hs @ nack_body p) buf;
     Some (buf, nack_length_words p * 4)
   }"

definition nack_entry_at :: "bytes \<Rightarrow> nack_entry res" where
  "nack_entry_at buf = do { pid \<leftarrow> u16_at buf 0; blp \<leftarrow> u16_at buf 2; ok \<lparr>ne_pid = pid, ne_blp = blp\<rparr> }"

definition nack_try_from :: "bytes \<Rightarrow> nack res" where
  "nack_try_from buf =
     (if length buf < 12 then err ''Nack less than 12 bytes''
      else do {
        sender_ssrc \<leftarrow> u32_at buf 0;
        ssrc \<leftarrow> u32_at buf 4;
        buf \<leftarrow> slice buf 8 (length buf);
        and_then (read_n 4 nack_entry_at (min (length buf div 4) 31) buf) (\<lambda>reports.
          ok \<lparr>n_sender_ssrc = sender_ssrc, n_ssrc = ssrc, n_reports = reports\<rparr>)
      })"

section \<open>Picture loss indications\<close>

record pli =
  pli_sender_ssrc :: u32
  pli_ssrc :: u32

definition pli_length_words :: "pli \<Rightarrow> nat" where
  "pli_length_words p = 3"

definition pli_header :: "pli \<Rightarrow> rtcp_header" where
  "pli_header p = \<lparr>h_type = PayloadSpecificFeedbackT, h_feedback = PayloadFeedback PictureLossIndicationT,
     h_words_less_one = of_nat (pli_length_words p - 1)\<rparr>"

definition pli_body :: "pli \<Rightarrow> bytes" where
  "pli_body p = to_be32 (pli_sender_ssrc p) @ to_be32 (pli_ssrc p)"

definition pli_write_to :: "pli \<Rightarrow> bytes \<Rightarrow> (bytes \<times> nat) option" where
  "pli_write_to p buf = do {
     hs \<leftarrow> header_bytes (pli_header p);
     buf \<leftarrow> emit (hs @ pli_body p) buf;
     Some (buf, 12)
   }"

definition pli_try_from :: "bytes \<Rightarrow> pli res" where
  "pli_try_from buf =
     (if length buf < 8 then err ''Pli less than 8 bytes''
      else do {
        sender_ssrc \<leftarrow> u32_at buf 0;
        ssrc \<leftarrow> u32_at buf 4;
        ok \<lparr>pli_sender_ssrc = sender_ssrc, pli_ssrc = ssrc\<rparr>
      })"

section \<open>Full intra requests\<close>

record fir_entry =
  fe_ssrc :: u32
  fe_seq_no :: u8

record fir =
  fir_sender_ssrc :: u32
  fir_reports :: "fir_entry list"

definition fir_length_words :: "fir \<Rightarrow> nat" where
  "fir_length_words p = 1 + 1 + 1 + length (fir_reports p) * 2"

definition fir_header :: "fir \<Rightarrow> rtcp_header" where
  "fir_header p = \<lparr>h_type = PayloadSpecificFeedbackT, h_feedback = PayloadFeedback FullIntraRequestT,
     h_words_less_one = of_nat (fir_length_words p - 1)\<rparr>"

definition fir_entry_bytes :: "fir_entry \<Rightarrow> bytes" where
  "fir_entry_bytes e = to_be32 (fe_ssrc e) @ [fe_seq_no e, 0, 0, 0]"

definition fir_body :: "fir \<Rightarrow> bytes" where
  "fir_body p = to_be32 (fir_sender_ssrc p)
     @ to_be32 (case fir_reports p of [] \<Rightarrow> 0 | e # _ \<Rightarrow> fe_ssrc e)
     @ concat (map fir_entry_bytes (fir_reports p))"

definition fir_write_to :: "fir \<Rightarrow> bytes \<Rightarrow> (bytes \<times> nat) option" where
  "fir_write_to p buf = do {
     hs \<leftarrow> header_bytes (fir_header p);
     buf \<leftarrow> emit (hs @ fir_body p) buf;
     Some (buf, 4 + 4 + 4 + length (fir_reports p) * 8)
   }"

definition fir_entry_at :: "bytes \<Rightarrow> fir_entry res" where
  "fir_entry_at buf = do { ssrc \<leftarrow> u32_at buf 0; seq_no \<leftarrow> idx buf 4; ok \<lparr>fe_ssrc = ssrc, fe_seq_no = seq_no\<rparr> }"

definition fir_try_from :: "bytes \<Rightarrow> fir res" where
  "fir_try_from buf =
     (if length buf < 16 then err ''Fir less than 16 bytes''
      else do {
        sender_ssrc \<leftarrow> u32_at buf 0;
        buf \<leftarrow> slice buf 8 (length buf);
        and_then (read_n 8 fir_entry_at (min (length buf div 8) 31) buf) (\<lambda>reports.
          ok \<lparr>fir_sender_ssrc = sender_ssrc, fir_reports = reports\<rparr>)
      })"

section \<open>Receiver and sender reports\<close>

record reception_report =
  rp_ssrc :: u32
  rp_fraction_lost :: u8
  rp_packets_lost :: u32
  rp_max_seq :: u32
  rp_jitter :: u32
  rp_last_sr_time :: u32
  rp_last_sr_delay :: u32

text \<open>The fraction overwrites the top octet of the number of packets lost.\<close>

definition reception_bytes :: "reception_report \<Rightarrow> bytes" where
  "reception_bytes r = to_be32 (rp_ssrc r) @ (to_be32 (rp_packets_lost r))[0 := rp_fraction_lost r]
     @ to_be32 (rp_max_seq r) @ to_be32 (rp_jitter r) @ to_be32 (rp_last_sr_time r) @ to_be32 (rp_last_sr_delay r)"

definition reception_try_from :: "bytes \<Rightarrow> reception_report res" where
  "reception_try_from buf =
     (if length buf < 24 then err ''Less than 24 bytes for ReceptionReport''
      else do {
        ssrc \<leftarrow> u32_at buf 0;
        fraction_lost \<leftarrow> idx buf 4;
        b5 \<leftarrow> idx buf 5; b6 \<leftarrow> idx buf 6; b7 \<leftarrow> idx buf 7;
        max_seq \<leftarrow> u32_at buf 8;
        jitter \<leftarrow> u32_at buf 12;
        last_sr_time \<leftarrow> u32_at buf 16;
        last_sr_delay \<leftarrow> u32_at buf 20;
        ok \<lparr>rp_ssrc = ssrc, rp_fraction_lost = fraction_lost, rp_packets_lost = from_be32 0 b5 b6 b7,
            rp_max_seq = max_seq, rp_jitter = jitter, rp_last_sr_time = last_sr_time,
            rp_last_sr_delay = last_sr_delay\<rparr>
      })"

record receiver_report =
  rr_sender_ssrc :: u32
  rr_reports :: "reception_report list"

definition rr_length_words :: "receiver_report \<Rightarrow> nat" where
  "rr_length_words p = 1 + 1 + 6 * length (rr_reports p)"

definition rr_header :: "receiver_report \<Rightarrow> rtcp_header" where
  "rr_header p = \<lparr>h_type = ReceiverReportT, h_feedback = ReceptionReportCount (of_nat (length (rr_reports p))),
     h_words_less_one = of_nat (rr_length_words p - 1)\<rparr>"

definition rr_body :: "receiver_report \<Rightarrow> bytes" where
  "rr_body p = to_be32 (rr_sender_ssrc p) @ concat (map reception_bytes (rr_reports p))"

definition rr_write_to :: "receiver_report \<Rightarrow> bytes \<Rightarrow> (bytes \<times> nat) option" where
  "rr_write_to p buf = do {
     hs \<leftarrow> header_bytes (rr_header p);
     buf \<leftarrow> emit (hs @ rr_body p) buf;
     Some (buf, rr_length_words p * 4)
   }"

definition rr_try_from :: "bytes \<Rightarrow> receiver_report res" where
  "rr_try_from buf =
     (if length buf < 4 then err ''Less than 4 bytes for ReceiverReport''
      else do {
        sender_ssrc \<leftarrow> u32_at buf 0;
        buf \<leftarrow> slice buf 4 (length buf);
        and_then (read_n 24 reception_try_from (min (length buf div 24) 31) buf) (\<lambda>reports.
          ok \<lparr>rr_sender_ssrc = sender_ssrc, rr_reports = reports\<rparr>)
      })"

text \<open>\<open>rtp_time\<close> is the numerator of a \<open>MediaTime\<close>, a signed 64 bit number of which 32 bits are sent.\<close>

record sender_info =
  si_ssrc :: u32
  si_ntp_time :: u64
  si_rtp_time :: u64
  si_packet_count :: u32
  si_octet_count :: u32

definition sender_info_bytes :: "sender_info \<Rightarrow> bytes" where
  "sender_info_bytes i = to_be32 (si_ssrc i) @ to_be64 (si_ntp_time i) @ to_be32 (ucast (si_rtp_time i))
     @ to_be32 (si_packet_count i) @ to_be32 (si_octet_count i)"

definition sender_info_try_from :: "bytes \<Rightarrow> sender_info res" where
  "sender_info_try_from buf =
     (if length buf < 24 then err ''Less than 24 bytes for SenderInfo''
      else do {
        ssrc \<leftarrow> u32_at buf 0;
        ntp_time \<leftarrow> u64_at buf 4;
        rtp_time \<leftarrow> u32_at buf 12;
        packet_count \<leftarrow> u32_at buf 16;
        octet_count \<leftarrow> u32_at buf 20;
        ok \<lparr>si_ssrc = ssrc, si_ntp_time = ntp_time, si_rtp_time = ucast rtp_time,
            si_packet_count = packet_count, si_octet_count = octet_count\<rparr>
      })"

record sender_report =
  sr_sender_info :: sender_info
  sr_reports :: "reception_report list"

definition sr_length_words :: "sender_report \<Rightarrow> nat" where
  "sr_length_words p = 1 + 6 + 6 * length (sr_reports p)"

definition sr_header :: "sender_report \<Rightarrow> rtcp_header" where
  "sr_header p = \<lparr>h_type = SenderReportT, h_feedback = ReceptionReportCount (of_nat (length (sr_reports p))),
     h_words_less_one = of_nat (sr_length_words p - 1)\<rparr>"

definition sr_body :: "sender_report \<Rightarrow> bytes" where
  "sr_body p = sender_info_bytes (sr_sender_info p) @ concat (map reception_bytes (sr_reports p))"

definition sr_write_to :: "sender_report \<Rightarrow> bytes \<Rightarrow> (bytes \<times> nat) option" where
  "sr_write_to p buf = do {
     hs \<leftarrow> header_bytes (sr_header p);
     buf \<leftarrow> emit (hs @ sr_body p) buf;
     Some (buf, sr_length_words p * 4)
   }"

definition sr_try_from :: "bytes \<Rightarrow> sender_report res" where
  "sr_try_from buf =
     and_then (sender_info_try_from buf) (\<lambda>info.
       and_then (checked (slice buf 24 (length buf))) (\<lambda>buf.
         and_then (read_n 24 reception_try_from (min (length buf div 24) 31) buf) (\<lambda>reports.
           ok \<lparr>sr_sender_info = info, sr_reports = reports\<rparr>)))"

section \<open>Goodbyes\<close>

record goodbye = gb_reports :: "u32 list"

definition goodbye_length_words :: "goodbye \<Rightarrow> nat" where
  "goodbye_length_words p = 1 + length (gb_reports p)"

definition goodbye_header :: "goodbye \<Rightarrow> rtcp_header" where
  "goodbye_header p = \<lparr>h_type = GoodbyeT, h_feedback = SourceCount (of_nat (length (gb_reports p))),
     h_words_less_one = of_nat (goodbye_length_words p - 1)\<rparr>"

definition goodbye_body :: "goodbye \<Rightarrow> bytes" where
  "goodbye_body p = concat (map to_be32 (gb_reports p))"

definition goodbye_write_to :: "goodbye \<Rightarrow> bytes \<Rightarrow> (bytes \<times> nat) option" where
  "goodbye_write_to p buf = do {
     hs \<leftarrow> header_bytes (goodbye_header p);
     buf \<leftarrow> emit (hs @ goodbye_body p) buf;
     Some (buf, goodbye_length_words p * 4)
   }"

definition goodbye_try_from :: "nat \<Rightarrow> bytes \<Rightarrow> goodbye res" where
  "goodbye_try_from count buf =
     (if length buf < 4 then err ''Less than 4 bytes for Goodbye''
      else if length buf < count * 4 then err ''Less than count * 4 bytes for Goodbye''
      else and_then (read_n 4 (\<lambda>b. checked (u32_at b 0)) (min count 31) buf) (\<lambda>reports.
        ok \<lparr>gb_reports = reports\<rparr>))"

section \<open>The interface of a packet\<close>

text \<open>
  The trait \<open>RtcpPacket\<close>: a header that announces the length in words, a writer that puts the
  header and the body into the buffer and reports the octets, and a parser of the body. The laws
  hold for the packets of \<open>wf\<close>.
\<close>

locale rtcp_packet =
  fixes header :: "'p \<Rightarrow> rtcp_header" and length_words :: "'p \<Rightarrow> nat" and body :: "'p \<Rightarrow> bytes"
    and write_to :: "'p \<Rightarrow> bytes \<Rightarrow> (bytes \<times> nat) option"
    and try_from :: "rtcp_header \<Rightarrow> bytes \<Rightarrow> 'p res" and wf :: "'p \<Rightarrow> bool"
  assumes header_wf: "wf p \<Longrightarrow> header_ok (header p)"
    and header_words: "wf p \<Longrightarrow> h_length_words (header p) = length_words p"
    and body_words: "wf p \<Longrightarrow> 4 + length (body p) = 4 * length_words p"
    and writes: "wf p \<Longrightarrow> write_to p buf = do {
        hs \<leftarrow> header_bytes (header p); buf \<leftarrow> emit (hs @ body p) buf; Some (buf, 4 * length_words p) }"
    and parses: "wf p \<Longrightarrow> try_from (header p) (body p) = ok p"
begin

lemma written:
  assumes "wf p" and "4 * length_words p \<le> length buf"
  obtains hs where "header_bytes (header p) = Some hs" and "length hs = 4"
    and "write_to p buf = Some (hs @ body p @ drop (4 * length_words p) buf, 4 * length_words p)"
    and "\<And>rest. header_try_from (hs @ rest) = ok (header p)" and "\<And>rest. (hs @ rest) ! 0 AND 0x20 = 0"
proof -
  from header_bytes_ok [OF header_wf [OF assms(1)]] obtain hs where hs: "header_bytes (header p) = Some hs" by auto
  note r = header_roundtrip [OF header_wf [OF assms(1)] hs]
  have len: "length (hs @ body p) = 4 * length_words p" using r(1) body_words [OF assms(1)] by simp
  then have "write_to p buf = Some (hs @ body p @ drop (4 * length_words p) buf, 4 * length_words p)"
    using assms by (simp add: writes hs emit_def)
  with hs r that show ?thesis by blast
qed

lemma too_short: "wf p \<Longrightarrow> length buf < 4 * length_words p \<Longrightarrow> write_to p buf = None"
proof -
  assume p: "wf p" and short: "length buf < 4 * length_words p"
  from header_bytes_ok [OF header_wf [OF p]] obtain hs where hs: "header_bytes (header p) = Some hs" by auto
  have "length (hs @ body p) = 4 * length_words p"
    using header_roundtrip(1) [OF header_wf [OF p] hs] body_words [OF p] by simp
  with short hs show ?thesis by (simp add: writes [OF p] emit_def)
qed

end

section \<open>The packets provide it\<close>

lemma length_entries [simp]:
  "length (nack_entry_bytes e) = 4" "length (fir_entry_bytes f) = 8" "length (reception_bytes r) = 24"
  "length (sender_info_bytes i) = 24"
  by (simp_all add: nack_entry_bytes_def fir_entry_bytes_def reception_bytes_def sender_info_bytes_def)

lemma length_entry_lists [simp]:
  "length (concat (map nack_entry_bytes es)) = length es * 4"
  "length (concat (map fir_entry_bytes fs)) = length fs * 8"
  "length (concat (map reception_bytes rs)) = length rs * 24"
  "length (concat (map to_be32 ss)) = length ss * 4"
  by (rule length_concat_const, simp)+

definition nack_wf :: "nack \<Rightarrow> bool" where
  "nack_wf p \<longleftrightarrow> 0 < length (n_reports p) \<and> length (n_reports p) \<le> 31"

definition fir_wf :: "fir \<Rightarrow> bool" where
  "fir_wf p \<longleftrightarrow> 0 < length (fir_reports p) \<and> length (fir_reports p) \<le> 31"

definition reception_wf :: "reception_report \<Rightarrow> bool" where
  "reception_wf r \<longleftrightarrow> rp_packets_lost r < 2 ^ 24"

definition rr_wf :: "receiver_report \<Rightarrow> bool" where
  "rr_wf p \<longleftrightarrow> length (rr_reports p) \<le> 31 \<and> list_all reception_wf (rr_reports p)"

definition sr_wf :: "sender_report \<Rightarrow> bool" where
  "sr_wf p \<longleftrightarrow> length (sr_reports p) \<le> 31 \<and> list_all reception_wf (sr_reports p)
     \<and> si_rtp_time (sr_sender_info p) < 2 ^ 32"

definition goodbye_wf :: "goodbye \<Rightarrow> bool" where
  "goodbye_wf p \<longleftrightarrow> 0 < length (gb_reports p) \<and> length (gb_reports p) \<le> 31"

lemma nack_entry_at_bytes [simp]: "nack_entry_at (nack_entry_bytes e @ r) = ok e"
  by (simp add: nack_entry_at_def nack_entry_bytes_def wire_simps)

lemma fir_entry_at_bytes [simp]: "fir_entry_at (fir_entry_bytes e @ r) = ok e"
  by (simp add: fir_entry_at_def fir_entry_bytes_def wire_simps)

lemma low_24_bits:
  assumes "(x :: u32) < 2 ^ 24"
  shows "from_be32 0 (ucast (drop_bit 16 x)) (ucast (drop_bit 8 x)) (ucast x) = x"
proof -
  have "drop_bit 24 x = 0"
    using assms by (simp add: word_unat_eq_iff drop_bit_eq_div unat_div_distrib word_less_nat_alt)
  then have "(0 :: u8) = ucast (drop_bit 24 x)" by simp
  then show ?thesis by (metis from_be32_parts)
qed

lemma reception_bytes_parse [simp]: "reception_wf r \<Longrightarrow> reception_try_from (reception_bytes r @ rest) = ok r"
  unfolding reception_try_from_def
  by (simp add: reception_bytes_def reception_wf_def to_be32_def [of "rp_packets_lost r"] wire_simps low_24_bits)

lemma sender_info_parse [simp]:
  assumes "si_rtp_time i < 2 ^ 32"
  shows "sender_info_try_from (sender_info_bytes i @ rest) = ok i"
proof -
  have "ucast (ucast (si_rtp_time i) :: u32) = si_rtp_time i"
    using assms by (simp add: word_unat_eq_iff unsigned_ucast_eq unsigned_take_bit_eq take_bit_nat_eq_self word_less_nat_alt)
  then show ?thesis
    unfolding sender_info_try_from_def by (simp add: sender_info_bytes_def wire_simps)
qed

text \<open>The reports that follow the fixed part are read back, their number being the one of the octets.\<close>

lemma read_entries [simp]:
  "read_n 4 nack_entry_at (length es) (concat (map nack_entry_bytes es)) = ok es"
  "read_n 8 fir_entry_at (length fs) (concat (map fir_entry_bytes fs)) = ok fs"
  "list_all reception_wf rs \<Longrightarrow>
     read_n 24 reception_try_from (length rs) (concat (map reception_bytes rs)) = ok rs"
  "read_n 4 (\<lambda>b. checked (u32_at b 0)) (length ss) (concat (map to_be32 ss)) = ok ss"
  using read_n_written [of es nack_entry_at nack_entry_bytes 4 "[]"]
    read_n_written [of fs fir_entry_at fir_entry_bytes 8 "[]"]
    read_n_written [of rs reception_try_from reception_bytes 24 "[]"]
    read_n_written [of ss "\<lambda>b. checked (u32_at b 0)" to_be32 4 "[]"]
  by (simp_all add: list_all_iff)

lemma small_word [simp]:
  "n < 65536 \<Longrightarrow> unat (of_nat n :: u16) = n" "n \<le> 31 \<Longrightarrow> unat (of_nat n :: u8) = n"
  "n \<le> 31 \<Longrightarrow> (of_nat n :: u8) \<le> 31"
  by (simp_all add: unat_of_nat word_le_nat_alt)

lemma words_less_one:
  "0 < n \<Longrightarrow> n \<le> 65536 \<Longrightarrow> h_length_words \<lparr>h_type = t, h_feedback = f, h_words_less_one = of_nat (n - 1)\<rparr> = n"
  by (cases n) (simp_all add: h_length_words_def unat_of_nat)

interpretation nack: rtcp_packet nack_header nack_length_words nack_body nack_write_to
  "\<lambda>h. nack_try_from" nack_wf
proof
  fix p buf assume p: "nack_wf p"
  then have n: "length (n_reports p) \<le> 31" "n_reports p \<noteq> []" by (auto simp: nack_wf_def)
  show "header_ok (nack_header p)"
    by (simp add: header_ok_def nack_header_def feedback_of_def transport_try_from_def)
  show "h_length_words (nack_header p) = nack_length_words p"
    unfolding nack_header_def by (rule words_less_one) (use n in \<open>simp_all add: nack_length_words_def\<close>)
  show "4 + length (nack_body p) = 4 * nack_length_words p"
    by (simp add: nack_body_def nack_length_words_def)
  show "nack_write_to p buf = do {
      hs \<leftarrow> header_bytes (nack_header p); buf \<leftarrow> emit (hs @ nack_body p) buf; Some (buf, 4 * nack_length_words p) }"
    by (simp add: nack_write_to_def mult.commute)
  have "0 < length (n_reports p)" using n(2) by simp
  then show "nack_try_from (nack_body p) = ok p"
    using n unfolding nack_try_from_def
    by (simp add: nack_body_def wire_simps slice_def)
qed


interpretation pli: rtcp_packet pli_header pli_length_words pli_body pli_write_to "\<lambda>h. pli_try_from" "\<lambda>p. True"
proof
  fix p buf
  show "header_ok (pli_header p)"
    by (simp add: header_ok_def pli_header_def feedback_of_def payload_try_from_def)
  show "h_length_words (pli_header p) = pli_length_words p"
    unfolding pli_header_def by (rule words_less_one) (simp_all add: pli_length_words_def)
  show "4 + length (pli_body p) = 4 * pli_length_words p"
    by (simp add: pli_body_def pli_length_words_def)
  show "pli_write_to p buf = do {
      hs \<leftarrow> header_bytes (pli_header p); buf \<leftarrow> emit (hs @ pli_body p) buf; Some (buf, 4 * pli_length_words p) }"
    by (simp add: pli_write_to_def pli_length_words_def)
  show "pli_try_from (pli_body p) = ok p"
    unfolding pli_try_from_def by (simp add: pli_body_def wire_simps)
qed

interpretation fir: rtcp_packet fir_header fir_length_words fir_body fir_write_to "\<lambda>h. fir_try_from" fir_wf
proof
  fix p buf assume p: "fir_wf p"
  then have n: "length (fir_reports p) \<le> 31" "fir_reports p \<noteq> []" by (auto simp: fir_wf_def)
  show "header_ok (fir_header p)"
    by (simp add: header_ok_def fir_header_def feedback_of_def payload_try_from_def)
  show "h_length_words (fir_header p) = fir_length_words p"
    unfolding fir_header_def by (rule words_less_one) (use n in \<open>simp_all add: fir_length_words_def\<close>)
  show "4 + length (fir_body p) = 4 * fir_length_words p"
    by (simp add: fir_body_def fir_length_words_def)
  show "fir_write_to p buf = do {
      hs \<leftarrow> header_bytes (fir_header p); buf \<leftarrow> emit (hs @ fir_body p) buf; Some (buf, 4 * fir_length_words p) }"
    by (simp add: fir_write_to_def fir_length_words_def algebra_simps)
  have "0 < length (fir_reports p)" using n(2) by simp
  then show "fir_try_from (fir_body p) = ok p"
    using n unfolding fir_try_from_def
    by (simp add: fir_body_def wire_simps slice_def)
qed

interpretation rr: rtcp_packet rr_header rr_length_words rr_body rr_write_to "\<lambda>h. rr_try_from" rr_wf
proof
  fix p buf assume p: "rr_wf p"
  then have n: "length (rr_reports p) \<le> 31" "list_all reception_wf (rr_reports p)" by (auto simp: rr_wf_def)
  show "header_ok (rr_header p)"
    using n by (simp add: header_ok_def rr_header_def feedback_of_def)
  show "h_length_words (rr_header p) = rr_length_words p"
    unfolding rr_header_def by (rule words_less_one) (use n in \<open>simp_all add: rr_length_words_def\<close>)
  show "4 + length (rr_body p) = 4 * rr_length_words p"
    by (simp add: rr_body_def rr_length_words_def)
  show "rr_write_to p buf = do {
      hs \<leftarrow> header_bytes (rr_header p); buf \<leftarrow> emit (hs @ rr_body p) buf; Some (buf, 4 * rr_length_words p) }"
    by (simp add: rr_write_to_def mult.commute)
  show "rr_try_from (rr_body p) = ok p"
    using n unfolding rr_try_from_def
    by (simp add: rr_body_def wire_simps slice_def)
qed

interpretation sr: rtcp_packet sr_header sr_length_words sr_body sr_write_to "\<lambda>h. sr_try_from" sr_wf
proof
  fix p buf assume p: "sr_wf p"
  then have n: "length (sr_reports p) \<le> 31" "list_all reception_wf (sr_reports p)"
    "si_rtp_time (sr_sender_info p) < 2 ^ 32" by (auto simp: sr_wf_def)
  show "header_ok (sr_header p)"
    using n by (simp add: header_ok_def sr_header_def feedback_of_def)
  show "h_length_words (sr_header p) = sr_length_words p"
    unfolding sr_header_def by (rule words_less_one) (use n in \<open>simp_all add: sr_length_words_def\<close>)
  show "4 + length (sr_body p) = 4 * sr_length_words p"
    by (simp add: sr_body_def sr_length_words_def)
  show "sr_write_to p buf = do {
      hs \<leftarrow> header_bytes (sr_header p); buf \<leftarrow> emit (hs @ sr_body p) buf; Some (buf, 4 * sr_length_words p) }"
    by (simp add: sr_write_to_def mult.commute)
  show "sr_try_from (sr_body p) = ok p"
    using n sender_info_parse [OF n(3), of "concat (map reception_bytes (sr_reports p))"]
    unfolding sr_try_from_def by (simp add: sr_body_def slice_def)
qed

interpretation goodbye: rtcp_packet goodbye_header goodbye_length_words goodbye_body goodbye_write_to
  "\<lambda>h b. case h_count h of None \<Rightarrow> None | Some count \<Rightarrow> goodbye_try_from count b" goodbye_wf
proof
  fix p buf assume p: "goodbye_wf p"
  then have n: "length (gb_reports p) \<le> 31" "gb_reports p \<noteq> []" by (auto simp: goodbye_wf_def)
  show "header_ok (goodbye_header p)"
    using n by (simp add: header_ok_def goodbye_header_def feedback_of_def)
  show "h_length_words (goodbye_header p) = goodbye_length_words p"
    unfolding goodbye_header_def by (rule words_less_one) (use n in \<open>simp_all add: goodbye_length_words_def\<close>)
  show "4 + length (goodbye_body p) = 4 * goodbye_length_words p"
    by (simp add: goodbye_body_def goodbye_length_words_def)
  show "goodbye_write_to p buf = do {
      hs \<leftarrow> header_bytes (goodbye_header p); buf \<leftarrow> emit (hs @ goodbye_body p) buf; Some (buf, 4 * goodbye_length_words p) }"
    by (simp add: goodbye_write_to_def mult.commute)
  have "0 < length (gb_reports p)" using n(2) by simp
  moreover have "h_count (goodbye_header p) = Some (length (gb_reports p))"
    using n by (simp add: h_count_def goodbye_header_def)
  ultimately show "(case h_count (goodbye_header p) of None \<Rightarrow> None
      | Some count \<Rightarrow> goodbye_try_from count (goodbye_body p)) = ok p"
    using n unfolding goodbye_try_from_def
    by (simp add: goodbye_body_def min_absorb1)
qed

section \<open>The parsers do not panic\<close>

lemma entry_parsers_total:
  "4 \<le> length b \<Longrightarrow> nack_entry_at b \<noteq> None" "8 \<le> length b \<Longrightarrow> fir_entry_at b \<noteq> None"
  "reception_try_from b \<noteq> None" "sender_info_try_from b \<noteq> None"
  "4 \<le> length b \<Longrightarrow> checked (u32_at b 0) \<noteq> None"
  by (auto simp: nack_entry_at_def fir_entry_at_def reception_try_from_def sender_info_try_from_def
      u16_at_def u32_at_def u64_at_def idx_def)

lemma slice_drop: "k \<le> length b \<Longrightarrow> slice b k (length b) = Some (drop k b)"
  by (simp add: slice_def)

lemma reports_total:
  "read_n 4 nack_entry_at (min (length b div 4) 31) b \<noteq> None"
  "read_n 8 fir_entry_at (min (length b div 8) 31) b \<noteq> None"
  "read_n 24 reception_try_from (min (length b div 24) 31) b \<noteq> None"
  "n * 4 \<le> length b \<Longrightarrow> read_n 4 (\<lambda>b. checked (u32_at b 0)) (min n 31) b \<noteq> None"
  by (rule read_n_total; use entry_parsers_total in \<open>auto simp: min_def\<close>)+

lemma packet_parsers_total:
  "nack_try_from b \<noteq> None" "pli_try_from b \<noteq> None" "fir_try_from b \<noteq> None" "rr_try_from b \<noteq> None"
  "sr_try_from b \<noteq> None" "goodbye_try_from n b \<noteq> None"
proof -
  have u32: "\<exists>v. u32_at b i = Some v" if "i + 4 \<le> length b" for i
    using u32_at_total [OF that] by auto
  show "nack_try_from b \<noteq> None"
  proof (cases "length b < 12")
    case False
    then obtain v w where "u32_at b 0 = Some v" "u32_at b 4 = Some w"
      using u32 [of 0] u32 [of 4] by auto
    with False show ?thesis
      by (simp add: nack_try_from_def slice_drop del: not_None_eq)
        (use reports_total(1) [of "drop 8 b"] in simp)
  qed (simp add: nack_try_from_def)
  show "pli_try_from b \<noteq> None"
    using u32 [of 0] u32 [of 4] by (auto simp: pli_try_from_def)
  show "fir_try_from b \<noteq> None"
    using u32 [of 0] reports_total(2) [of "drop 8 b"]
    by (auto simp: fir_try_from_def slice_drop and_then_None)
  show "rr_try_from b \<noteq> None"
    using u32 [of 0] reports_total(3) [of "drop 4 b"]
    by (auto simp: rr_try_from_def slice_drop and_then_None)
  show "goodbye_try_from n b \<noteq> None"
    using reports_total(4) [of n b] by (auto simp: goodbye_try_from_def and_then_None)
  have "24 \<le> length b" if "sender_info_try_from b = ok i" for i
    using that by (auto simp: sender_info_try_from_def split: if_splits)
  then show "sr_try_from b \<noteq> None"
    using entry_parsers_total(4) reports_total(3) [of "drop 24 b"]
    by (auto simp: sr_try_from_def slice_drop and_then_None and_then_ok)
qed

end
