(* ===== verification/Sdes.thy ===== *)
theory Sdes imports RtcpPackets Text begin

text \<open>
  The source descriptions of \<open>rtp/rtcp/sdes.rs\<close> of the patched str0m. A string is the list of
  its UTF-8 octets. The parser pushes every value onto a list of 31 entries, so a 32nd value is a
  panic; the reported length of a chunk leaves out its terminating octet.
\<close>

section \<open>The items\<close>

datatype sdes_type = END | CNAME | NAME | EMAIL | PHONE | LOC | TOOL | NOTE | PRIV
  | RtpStreamId | RepairedRtpStreamId | UnknownSdes

fun sdes_type_to_u8 :: "sdes_type \<Rightarrow> u8" where
  "sdes_type_to_u8 END = 0"
| "sdes_type_to_u8 CNAME = 1"
| "sdes_type_to_u8 NAME = 2"
| "sdes_type_to_u8 EMAIL = 3"
| "sdes_type_to_u8 PHONE = 4"
| "sdes_type_to_u8 LOC = 5"
| "sdes_type_to_u8 TOOL = 6"
| "sdes_type_to_u8 NOTE = 7"
| "sdes_type_to_u8 PRIV = 8"
| "sdes_type_to_u8 RtpStreamId = 12"
| "sdes_type_to_u8 RepairedRtpStreamId = 13"
| "sdes_type_to_u8 UnknownSdes = 14"

definition sdes_type_from :: "u8 \<Rightarrow> sdes_type" where
  "sdes_type_from v =
     (if v = 0 then END else if v = 1 then CNAME else if v = 2 then NAME else if v = 3 then EMAIL
      else if v = 4 then PHONE else if v = 5 then LOC else if v = 6 then TOOL else if v = 7 then NOTE
      else if v = 8 then PRIV else if v = 12 then RtpStreamId else if v = 13 then RepairedRtpStreamId
      else UnknownSdes)"

record sdes =
  sd_ssrc :: u32
  sd_values :: "(sdes_type \<times> bytes) list"

record descriptions = ds_reports :: "sdes list"

text \<open>\<open>pad_bytes_to_word\<close> of \<open>rtcp/mod.rs\<close>.\<close>

definition pad_bytes_to_word :: "nat \<Rightarrow> nat" where
  "pad_bytes_to_word n = (let pad = 4 - n mod 4 in if pad = 4 then n else n + pad)"

definition values_len :: "(sdes_type \<times> bytes) list \<Rightarrow> nat" where
  "values_len vs = sum_list (map (\<lambda>(t, v). 2 + length v) vs)"

definition sdes_word_size :: "sdes \<Rightarrow> nat" where
  "sdes_word_size s = pad_bytes_to_word (4 + values_len (sd_values s)) div 4"

section \<open>Writing\<close>

definition sdes_value_bytes :: "sdes_type \<times> bytes \<Rightarrow> bytes" where
  "sdes_value_bytes tv = (case tv of (t, v) \<Rightarrow> [sdes_type_to_u8 t, of_nat (length v)] @ v)"

definition sdes_pad :: "nat \<Rightarrow> nat" where
  "sdes_pad tot = (let pad = 4 - tot mod 4 in if pad < 4 then pad else 0)"

definition sdes_bytes :: "sdes \<Rightarrow> bytes" where
  "sdes_bytes s =
     (let body = to_be32 (sd_ssrc s) @ concat (map sdes_value_bytes (sd_values s)) @ [sdes_type_to_u8 END]
      in body @ replicate (sdes_pad (length body)) (sdes_type_to_u8 END))"

definition descriptions_length_words :: "descriptions \<Rightarrow> nat" where
  "descriptions_length_words p = 1 + sum_list (map sdes_word_size (ds_reports p))"

definition descriptions_header :: "descriptions \<Rightarrow> rtcp_header" where
  "descriptions_header p = \<lparr>h_type = SourceDescriptionT, h_feedback = SourceCount (of_nat (length (ds_reports p))),
     h_words_less_one = of_nat (descriptions_length_words p - 1)\<rparr>"

definition descriptions_body :: "descriptions \<Rightarrow> bytes" where
  "descriptions_body p = concat (map sdes_bytes (ds_reports p))"

definition descriptions_write_to :: "descriptions \<Rightarrow> bytes \<Rightarrow> (bytes \<times> nat) option" where
  "descriptions_write_to p buf = do {
     hs \<leftarrow> header_bytes (descriptions_header p);
     buf \<leftarrow> emit (hs @ descriptions_body p) buf;
     Some (buf, 4 + length (descriptions_body p))
   }"

section \<open>Parsing\<close>

text \<open>The loop over the values: \<open>consumed\<close> counts the octets of the values read so far.\<close>

function sdes_loop :: "bytes \<Rightarrow> nat \<Rightarrow> (sdes_type \<times> bytes) list \<Rightarrow> (sdes_type \<times> bytes) list res" where
  "sdes_loop buf consumed vs =
     (case buf of
        b0 # b1 # rest \<Rightarrow>
          let stype = sdes_type_from b0; len = unat b1 in
          if stype = END then
            (let pad = 4 - consumed mod 4 in
             if pad < 4 \<and> length buf < pad then err ''Not enough buf.len() for Sdes padding'' else ok vs)
          else if length buf < 2 + len then err ''Not enough buf.len() for Sdes value''
          else
            (case (if utf8_ok (take len rest) then rl_push vs (stype, take len rest) else Some vs) of
               None \<Rightarrow> None
             | Some vs \<Rightarrow> sdes_loop (drop len rest) (consumed + 2 + len) vs)
      | _ \<Rightarrow> err ''Less than 2 bytes for next Sdes value'')"
  by pat_completeness auto
termination by (relation "measure (\<lambda>(buf, consumed, vs). length buf)") auto

declare sdes_loop.simps [simp del]

definition sdes_try_from :: "bytes \<Rightarrow> sdes res" where
  "sdes_try_from buf =
     (if length buf < 8 then err ''Less than 8 bytes for Sdes''
      else do {
        ssrc \<leftarrow> u32_at buf 0;
        buf \<leftarrow> slice buf 4 (length buf);
        and_then (sdes_loop buf 0 []) (\<lambda>vs. ok \<lparr>sd_ssrc = ssrc, sd_values = vs\<rparr>)
      })"

lemma sdes_word_size_pos [simp]: "0 < sdes_word_size s"
  using mod_less_eq_dividend [of "4 + values_len (sd_values s)" 4]
  by (auto simp: sdes_word_size_def pad_bytes_to_word_def Let_def div_greater_zero_iff)

text \<open>
  \<open>Descriptions::try_from\<close>: chunks until 31 are read or fewer than eight octets are left.
\<close>

function descriptions_loop :: "bytes \<Rightarrow> sdes list \<Rightarrow> sdes list res" where
  "descriptions_loop buf reports =
     (if length reports = 31 \<or> length buf < 8 then ok reports
      else case sdes_try_from buf of
        None \<Rightarrow> None
      | Some (Inl e) \<Rightarrow> err e
      | Some (Inr report) \<Rightarrow>
          (case slice buf (sdes_word_size report * 4) (length buf) of
             None \<Rightarrow> None
           | Some rest \<Rightarrow>
               (case rl_push reports report of
                  None \<Rightarrow> None
                | Some reports \<Rightarrow> descriptions_loop rest reports)))"
  by pat_completeness auto
termination
  by (relation "measure (\<lambda>(buf, reports). length buf)")
    (auto simp: slice_def intro!: diff_less split: if_splits)

declare descriptions_loop.simps [simp del]

definition descriptions_try_from :: "bytes \<Rightarrow> descriptions res" where
  "descriptions_try_from buf = and_then (descriptions_loop buf []) (\<lambda>reports. ok \<lparr>ds_reports = reports\<rparr>)"

section \<open>Chunks and their alignment\<close>

lemma pads:
  "sdes_pad (5 + 4 * q) = 3" "sdes_pad (5 + (4 * q + 1)) = 2" "sdes_pad (5 + (4 * q + 2)) = 1" "sdes_pad (5 + (4 * q + 3)) = 0"
  unfolding sdes_pad_def Let_def mod4_shift by simp_all

lemma padded:
  "pad_bytes_to_word (4 + 4 * q) = 4 + 4 * q" "pad_bytes_to_word (4 + (4 * q + 1)) = 8 + 4 * q"
  "pad_bytes_to_word (4 + (4 * q + 2)) = 8 + 4 * q" "pad_bytes_to_word (4 + (4 * q + 3)) = 8 + 4 * q"
  unfolding pad_bytes_to_word_def Let_def mod4_shift by simp_all

definition value_wf :: "sdes_type \<times> bytes \<Rightarrow> bool" where
  "value_wf tv = (case tv of (t, v) \<Rightarrow> t \<noteq> END \<and> t \<noteq> UnknownSdes \<and> utf8_ok v \<and> length v \<le> 255)"

lemma sdes_type_roundtrip: "t \<noteq> UnknownSdes \<Longrightarrow> sdes_type_from (sdes_type_to_u8 t) = t"
  by (cases t) (simp_all add: sdes_type_from_def)

lemma length_values [simp]: "length (concat (map sdes_value_bytes vs)) = values_len vs"
  by (induction vs) (auto simp: values_len_def sdes_value_bytes_def)

lemma values_len_simps [simp]: "values_len [] = 0" "values_len ((t, v) # vs) = 2 + length v + values_len vs"
  by (simp_all add: values_len_def)

lemma sdes_loop_short: "length buf < 2 \<Longrightarrow> sdes_loop buf k vs = err ''Less than 2 bytes for next Sdes value''"
  by (subst sdes_loop.simps) (auto split: list.splits)

lemma sdes_loop_end:
  "r \<noteq> [] \<Longrightarrow> sdes_loop (0 # r) k vs =
     (if 4 - k mod 4 < 4 \<and> length (0 # r) < 4 - k mod 4
      then err ''Not enough buf.len() for Sdes padding'' else ok vs)"
  by (subst sdes_loop.simps) (auto simp: sdes_type_from_def split: list.splits)

lemma sdes_loop_value:
  assumes "value_wf (t, v)"
  shows "sdes_loop (sdes_value_bytes (t, v) @ r) k vs =
    (if length vs < 31 then sdes_loop r (k + 2 + length v) (vs @ [(t, v)]) else None)"
proof -
  from assms have "unat (of_nat (length v) :: u8) = length v" by (simp add: value_wf_def unat_of_nat)
  moreover from assms have "sdes_type_from (sdes_type_to_u8 t) = t" "t \<noteq> END" "utf8_ok v"
    by (auto simp: value_wf_def intro: sdes_type_roundtrip)
  ultimately show ?thesis
    by (subst sdes_loop.simps) (simp add: sdes_value_bytes_def rl_push_def Let_def)
qed

lemma sdes_loop_values:
  assumes "list_all value_wf vs" and "length acc + length vs \<le> 31"
  shows "sdes_loop (concat (map sdes_value_bytes vs) @ r) k acc = sdes_loop r (k + values_len vs) (acc @ vs)"
  using assms
proof (induction vs arbitrary: acc k)
  case (Cons tv vs)
  obtain t v where tv: "tv = (t, v)" by (cases tv)
  with Cons.prems have "sdes_loop (sdes_value_bytes (t, v) @ concat (map sdes_value_bytes vs) @ r) k acc
      = sdes_loop (concat (map sdes_value_bytes vs) @ r) (k + 2 + length v) (acc @ [(t, v)])"
    by (subst sdes_loop_value) simp_all
  also have "\<dots> = sdes_loop r (k + 2 + length v + values_len vs) ((acc @ [(t, v)]) @ vs)"
    using Cons.prems by (intro Cons.IH) simp_all
  finally show ?case using tv by (simp add: add.assoc)
qed simp

lemma length_sdes_bytes: "length (sdes_bytes s) = (let n = 5 + values_len (sd_values s) in n + sdes_pad n)"
  by (simp add: sdes_bytes_def Let_def add.commute)

lemma sdes_sizes:
  "values_len (sd_values s) mod 4 = 0 \<Longrightarrow> length (sdes_bytes s) = 4 * sdes_word_size s + 4"
  "values_len (sd_values s) mod 4 \<noteq> 0 \<Longrightarrow> length (sdes_bytes s) = 4 * sdes_word_size s"
  unfolding length_sdes_bytes sdes_word_size_def
  by (cases rule: mod4_cases [of "values_len (sd_values s)"];
      simp only: pads padded mod4_shift Let_def; simp add: div4_shift)+

text \<open>What the parser makes of a written chunk and whatever follows it.\<close>

lemma sdes_parse_written:
  assumes "list_all value_wf (sd_values s)" "length (sd_values s) \<le> 31" "sd_values s \<noteq> []"
    and "values_len (sd_values s) mod 4 \<noteq> 3 \<or> rest \<noteq> []"
  shows "sdes_try_from (sdes_bytes s @ rest) = ok s"
proof -
  let ?n = "values_len (sd_values s)"
  let ?vs = "concat (map sdes_value_bytes (sd_values s))"
  define z where "z = replicate (sdes_pad (5 + ?n)) (0 :: u8)"
  have b: "sdes_bytes s = to_be32 (sd_ssrc s) @ ?vs @ 0 # z"
    by (simp add: sdes_bytes_def Let_def z_def add.commute)
  obtain t v vs where "sd_values s = (t, v) # vs" using assms(3) by (metis list.exhaust surj_pair)
  then have two: "2 \<le> ?n" by simp
  have z: "z @ rest \<noteq> [] \<and> \<not> (4 - ?n mod 4 < 4 \<and> length (0 # z @ rest) < 4 - ?n mod 4) \<and> 8 \<le> 5 + ?n + length z + length rest"
  proof -
    have "0 < length rest \<or> ?n mod 4 \<noteq> 3" using assms(4) by auto
    moreover have "length z = sdes_pad (5 + ?n)" by (simp add: z_def)
    moreover have "z @ rest \<noteq> [] \<longleftrightarrow> 0 < length z + length rest" by auto
    ultimately show ?thesis using two
      by (cases rule: mod4_cases [of ?n]) (simp only: pads mod4_shift, simp)+
  qed
  have "sdes_loop (?vs @ 0 # z @ rest) 0 [] = ok (sd_values s)"
    using z sdes_loop_values [OF assms(1), of "[]" "0 # z @ rest" 0] assms(2)
    by (simp add: sdes_loop_end)
  moreover have "\<not> length (sdes_bytes s @ rest) < 8" using z by (simp add: b)
  ultimately show ?thesis
    unfolding sdes_try_from_def by (simp add: b wire_simps slice_def)
qed

text \<open>A chunk is written with one word more than its announced length when its values fill whole
  words, so that writing a report then fails; when they leave room for exactly one terminating
  octet, the parser refuses the chunk at the end of a packet; in the other cases the announced
  length is right and the chunk is read back.\<close>

theorem sdes_alignment:
  assumes "list_all value_wf (sd_values s)" and "length (sd_values s) \<le> 31" and "sd_values s \<noteq> []"
  shows "if values_len (sd_values s) mod 4 = 0
    then length (sdes_bytes s) = 4 * sdes_word_size s + 4 \<and> sdes_try_from (sdes_bytes s) = ok s
    else if values_len (sd_values s) mod 4 = 3
    then length (sdes_bytes s) = 4 * sdes_word_size s
      \<and> sdes_try_from (sdes_bytes s) = err ''Less than 2 bytes for next Sdes value''
    else length (sdes_bytes s) = 4 * sdes_word_size s \<and> sdes_try_from (sdes_bytes s) = ok s"
proof (cases "values_len (sd_values s) mod 4 = 3")
  case True
  let ?n = "values_len (sd_values s)"
  have "(5 + ?n) mod 4 = 0" using True by presburger
  then have b: "sdes_bytes s = to_be32 (sd_ssrc s) @ concat (map sdes_value_bytes (sd_values s)) @ [0]"
    by (simp add: sdes_bytes_def Let_def sdes_pad_def add.commute)
  have "3 \<le> ?n" using True by presburger
  moreover have "sdes_loop (concat (map sdes_value_bytes (sd_values s)) @ [0]) 0 []
      = err ''Less than 2 bytes for next Sdes value''"
    using sdes_loop_values [OF assms(1), of "[]" "[0]" 0] assms(2) by (simp add: sdes_loop_short)
  ultimately have "sdes_try_from (sdes_bytes s) = err ''Less than 2 bytes for next Sdes value''"
    unfolding sdes_try_from_def by (simp add: b wire_simps slice_def)
  with True show ?thesis using sdes_sizes(2) [of s] by simp
next
  case False
  then show ?thesis
    using sdes_parse_written [OF assms, of "[]"] sdes_sizes [of s] by simp
qed

definition cname_chunk :: "bytes \<Rightarrow> sdes" where
  "cname_chunk v = \<lparr>sd_ssrc = 1, sd_values = [(CNAME, v)]\<rparr>"

theorem sdes_alignment_witness:
  "length (sdes_bytes (cname_chunk [97, 98])) = 12 \<and> sdes_word_size (cname_chunk [97, 98]) = 2
   \<and> sdes_try_from (sdes_bytes (cname_chunk [97])) = err ''Less than 2 bytes for next Sdes value''
   \<and> sdes_try_from (sdes_bytes (cname_chunk [97, 98, 99])) = ok (cname_chunk [97, 98, 99])"
proof -
  have u: "utf8_ok [97]" "utf8_ok [97, 98]" "utf8_ok [97, 98, 99]"
    by (rule utf8_ok_ascii; simp)+
  show ?thesis
    using sdes_alignment [of "cname_chunk [97, 98]"] sdes_alignment [of "cname_chunk [97]"]
      sdes_alignment [of "cname_chunk [97, 98, 99]"] u
    by (simp add: cname_chunk_def value_wf_def sdes_word_size_def pad_bytes_to_word_def)
qed

text \<open>A chunk with 32 values, which fits into 70 octets, makes the parser index past the 31
  entries of its list: whatever the values and whatever follows, parsing panics.\<close>

theorem sdes_32_values_panic:
  "sdes_try_from (to_be32 ssrc @ concat (replicate 32 [1, 0]) @ [0, 0] @ rest) = None"
proof -
  have v: "sdes_value_bytes (CNAME, []) = [1, 0]" by (simp add: sdes_value_bytes_def)
  have wf: "value_wf (CNAME, [])" by (simp add: value_wf_def utf8_ok_ascii)
  have "concat (replicate 32 [1, 0]) = concat (map sdes_value_bytes (replicate 31 (CNAME, []))) @ ([1, 0] :: bytes)"
    by (simp add: v numeral_eq_Suc)
  then have "sdes_loop (concat (replicate 32 [1, 0]) @ [0, 0] @ rest) 0 []
    = sdes_loop (sdes_value_bytes (CNAME, []) @ [0, 0] @ rest) (0 + values_len (replicate 31 (CNAME, []))) ([] @ replicate 31 (CNAME, []))"
    using sdes_loop_values [of "replicate 31 (CNAME, [])" "[]" "sdes_value_bytes (CNAME, []) @ [0, 0] @ rest" 0] wf
    by (simp add: v list_all_iff)
  also have "\<dots> = None" by (subst sdes_loop_value [OF wf]) simp
  finally have "sdes_loop (concat (replicate 32 [1, 0]) @ [0, 0] @ rest) 0 [] = None" .
  moreover have "length (concat (replicate 32 [1 :: u8, 0])) = 64"
    by (simp add: length_concat sum_list_replicate)
  ultimately show ?thesis
    unfolding sdes_try_from_def by (simp add: wire_simps slice_def)
qed

section \<open>Whole packets\<close>

text \<open>The packets the library reads back: every chunk leaves room for two or three terminators.\<close>

definition sdes_wf :: "sdes \<Rightarrow> bool" where
  "sdes_wf s \<longleftrightarrow> list_all value_wf (sd_values s) \<and> length (sd_values s) \<le> 31 \<and> sd_values s \<noteq> []
     \<and> values_len (sd_values s) mod 4 \<in> {1, 2}"

definition descriptions_wf :: "descriptions \<Rightarrow> bool" where
  "descriptions_wf p \<longleftrightarrow> list_all sdes_wf (ds_reports p) \<and> length (ds_reports p) \<le> 31
     \<and> descriptions_length_words p \<le> 65536"

lemma sdes_wf_written:
  assumes "sdes_wf s"
  shows "sdes_try_from (sdes_bytes s @ rest) = ok s" "length (sdes_bytes s) = 4 * sdes_word_size s"
    "8 \<le> length (sdes_bytes s)"
proof -
  from assms have wf: "list_all value_wf (sd_values s)" "length (sd_values s) \<le> 31" "sd_values s \<noteq> []"
    and m: "values_len (sd_values s) mod 4 = 1 \<or> values_len (sd_values s) mod 4 = 2"
    by (auto simp: sdes_wf_def)
  show p: "sdes_try_from (sdes_bytes s @ rest) = ok s" for rest
    using m by (intro sdes_parse_written wf) auto
  show "length (sdes_bytes s) = 4 * sdes_word_size s" using m by (intro sdes_sizes(2)) auto
  show "8 \<le> length (sdes_bytes s)"
    using p [of "[]"] by (auto simp: sdes_try_from_def split: if_splits)
qed

lemma descriptions_loop_written:
  "list_all sdes_wf ss \<Longrightarrow> length acc + length ss \<le> 31 \<Longrightarrow>
     descriptions_loop (concat (map sdes_bytes ss)) acc = ok (acc @ ss)"
proof (induction ss arbitrary: acc)
  case Nil
  then show ?case by (subst descriptions_loop.simps) simp
next
  case (Cons s ss)
  then have s: "sdes_wf s" by simp
  note w = sdes_wf_written [OF s]
  have "slice (sdes_bytes s @ concat (map sdes_bytes ss)) (sdes_word_size s * 4)
      (length (sdes_bytes s @ concat (map sdes_bytes ss))) = Some (concat (map sdes_bytes ss))"
    using w(2) by (simp add: slice_def mult.commute)
  moreover have "rl_push acc s = Some (acc @ [s])" using Cons.prems by (simp add: rl_push_def)
  moreover have "descriptions_loop (concat (map sdes_bytes ss)) (acc @ [s]) = ok ((acc @ [s]) @ ss)"
    using Cons.prems by (intro Cons.IH) simp_all
  ultimately show ?case
    using w(1) w(3) Cons.prems by (subst descriptions_loop.simps) simp
qed

lemma length_chunks: "list_all sdes_wf ss \<Longrightarrow> length (concat (map sdes_bytes ss)) = 4 * sum_list (map sdes_word_size ss)"
  by (induction ss) (simp_all add: sdes_wf_written(2))

interpretation descriptions: rtcp_packet descriptions_header descriptions_length_words descriptions_body
  descriptions_write_to "\<lambda>h. descriptions_try_from" descriptions_wf
proof
  fix p buf assume p: "descriptions_wf p"
  then have n: "length (ds_reports p) \<le> 31" "list_all sdes_wf (ds_reports p)" "descriptions_length_words p \<le> 65536"
    by (auto simp: descriptions_wf_def)
  show "header_ok (descriptions_header p)"
    using n by (simp add: header_ok_def descriptions_header_def feedback_of_def)
  show "h_length_words (descriptions_header p) = descriptions_length_words p"
    unfolding descriptions_header_def by (rule words_less_one) (use n in \<open>simp_all add: descriptions_length_words_def\<close>)
  show len: "4 + length (descriptions_body p) = 4 * descriptions_length_words p"
    using length_chunks [OF n(2)] by (simp add: descriptions_body_def descriptions_length_words_def)
  show "descriptions_write_to p buf = do {
      hs \<leftarrow> header_bytes (descriptions_header p); buf \<leftarrow> emit (hs @ descriptions_body p) buf;
      Some (buf, 4 * descriptions_length_words p) }"
    using len by (simp add: descriptions_write_to_def)
  show "descriptions_try_from (descriptions_body p) = ok p"
    using descriptions_loop_written [OF n(2), of "[]"] n(1)
    by (simp add: descriptions_try_from_def descriptions_body_def)
qed

end
