(* ===== verification/ExtendedReports.thy ===== *)
theory ExtendedReports imports RtcpPackets begin

text \<open>
  The extended reports of \<open>rtp/rtcp/xr.rs\<close> of the patched str0m: receiver reference times and the
  delays since them. The writer of a DLRR block advances by four octets per item of twelve and
  announces its length in octets where the parser expects words; the writer is therefore modelled
  on the buffer it overwrites. Clock values are the 64 bit NTP times they are exchanged as.
\<close>

section \<open>Blocks\<close>

record rrtr = rrtr_ntp_time :: u64

record dlrr_item =
  di_ssrc :: u32
  di_last_rr_time :: u32
  di_last_rr_delay :: u32

record dlrr = dlrr_items :: "dlrr_item list"

datatype report_block = RrtrBlock rrtr | DlrrBlock dlrr

record extended_report =
  xr_ssrc :: u32
  xr_blocks :: "report_block list"

definition dlrr_len :: "dlrr \<Rightarrow> nat" where
  "dlrr_len d = 4 + length (dlrr_items d) * 4 * 3"

fun block_len :: "report_block \<Rightarrow> nat" where
  "block_len (RrtrBlock r) = 12"
| "block_len (DlrrBlock d) = dlrr_len d"

definition xr_length_words :: "extended_report \<Rightarrow> nat" where
  "xr_length_words p = 1 + 1 + sum_list (map (\<lambda>b. block_len b div 4) (xr_blocks p))"

definition xr_header :: "extended_report \<Rightarrow> rtcp_header" where
  "xr_header p = \<lparr>h_type = ExtendedReportT, h_feedback = NotUsed,
     h_words_less_one = of_nat (xr_length_words p - 1)\<rparr>"

section \<open>Writing\<close>

text \<open>A block is written at offset \<open>i\<close> of the buffer; the result has the number of octets reported.\<close>

definition rrtr_write_to :: "rrtr \<Rightarrow> nat \<Rightarrow> bytes \<Rightarrow> (bytes \<times> nat) option" where
  "rrtr_write_to r i buf = do {
     buf \<leftarrow> copy_in buf i ([4, 0] @ to_be16 2 @ to_be64 (rrtr_ntp_time r));
     Some (buf, 12)
   }"

fun dlrr_items_write :: "dlrr_item list \<Rightarrow> nat \<Rightarrow> bytes \<Rightarrow> bytes option" where
  "dlrr_items_write [] i buf = Some buf"
| "dlrr_items_write (d # ds) i buf = do {
     buf \<leftarrow> copy_in buf i (to_be32 (di_ssrc d) @ to_be32 (di_last_rr_time d) @ to_be32 (di_last_rr_delay d));
     dlrr_items_write ds (i + 4) buf
   }"

definition dlrr_write_to :: "dlrr \<Rightarrow> nat \<Rightarrow> bytes \<Rightarrow> (bytes \<times> nat) option" where
  "dlrr_write_to d i buf = do {
     buf \<leftarrow> copy_in buf i ([5, 0] @ to_be16 (of_nat (length (dlrr_items d)) * 12));
     buf \<leftarrow> dlrr_items_write (dlrr_items d) (i + 4) buf;
     Some (buf, dlrr_len d)
   }"

fun block_write_to :: "report_block \<Rightarrow> nat \<Rightarrow> bytes \<Rightarrow> (bytes \<times> nat) option" where
  "block_write_to (RrtrBlock r) i buf = rrtr_write_to r i buf"
| "block_write_to (DlrrBlock d) i buf = dlrr_write_to d i buf"

fun blocks_write :: "report_block list \<Rightarrow> nat \<Rightarrow> bytes \<Rightarrow> (bytes \<times> nat) option" where
  "blocks_write [] len buf = Some (buf, len)"
| "blocks_write (b # bs) len buf = do {
     (buf, n) \<leftarrow> block_write_to b len buf;
     blocks_write bs (len + n) buf
   }"

definition xr_write_to :: "extended_report \<Rightarrow> bytes \<Rightarrow> (bytes \<times> nat) option" where
  "xr_write_to p buf = do {
     hs \<leftarrow> header_bytes (xr_header p);
     buf \<leftarrow> emit (hs @ to_be32 (xr_ssrc p)) buf;
     blocks_write (xr_blocks p) 8 buf
   }"

section \<open>Parsing\<close>

definition rrtr_try_from :: "bytes \<Rightarrow> rrtr res" where
  "rrtr_try_from buf = do { ntp_time \<leftarrow> u64_at buf 4; ok \<lparr>rrtr_ntp_time = ntp_time\<rparr> }"

definition dlrr_item_at :: "bytes \<Rightarrow> dlrr_item res" where
  "dlrr_item_at buf = do {
     ssrc \<leftarrow> u32_at buf 0;
     last_rr_time \<leftarrow> u32_at buf 4;
     last_rr_delay \<leftarrow> u32_at buf 8;
     ok \<lparr>di_ssrc = ssrc, di_last_rr_time = last_rr_time, di_last_rr_delay = last_rr_delay\<rparr>
   }"

definition dlrr_try_from :: "bytes \<Rightarrow> dlrr res" where
  "dlrr_try_from buf = do {
     len \<leftarrow> u16_at buf 2;
     let blocks = unat (len div 3);
     buf \<leftarrow> slice buf 4 (length buf);
     and_then (read_n 12 dlrr_item_at blocks buf) (\<lambda>items. ok \<lparr>dlrr_items = items\<rparr>)
   }"

definition block_try_from :: "bytes \<Rightarrow> report_block res" where
  "block_try_from buf =
     (case buf of
        [] \<Rightarrow> err ''not enough data''
      | block_type # _ \<Rightarrow>
          if block_type = 4 then and_then (rrtr_try_from buf) (\<lambda>b. ok (RrtrBlock b))
          else if block_type = 5 then and_then (dlrr_try_from buf) (\<lambda>b. ok (DlrrBlock b))
          else err ''unknown block type'')"

lemma block_len_pos [simp]: "0 < block_len b"
  by (cases b) (simp_all add: dlrr_len_def)

text \<open>Blocks are read until one does not parse, which also ends the loop at the end of the packet.\<close>

function blocks_loop :: "bytes \<Rightarrow> report_block list res" where
  "blocks_loop buf =
     (case block_try_from buf of
        None \<Rightarrow> None
      | Some (Inl e) \<Rightarrow> ok []
      | Some (Inr block) \<Rightarrow>
          (case slice buf (block_len block) (length buf) of
             None \<Rightarrow> None
           | Some rest \<Rightarrow> and_then (blocks_loop rest) (\<lambda>bs. ok (block # bs))))"
  by pat_completeness auto
termination
  by (relation "measure length")
    (auto simp: slice_def block_try_from_def [of "[]"] intro!: diff_less split: if_splits)

declare blocks_loop.simps [simp del]

definition xr_try_from :: "bytes \<Rightarrow> extended_report res" where
  "xr_try_from buf =
     (if length buf < 4 then err ''Less than 4 bytes for ExtendedReport''
      else do {
        ssrc \<leftarrow> u32_at buf 0;
        buf \<leftarrow> slice buf 4 (length buf);
        and_then (blocks_loop buf) (\<lambda>blocks. ok \<lparr>xr_ssrc = ssrc, xr_blocks = blocks\<rparr>)
      })"

section \<open>Reference times are read back\<close>

definition xr_wf :: "extended_report \<Rightarrow> bool" where
  "xr_wf p \<longleftrightarrow> list_all (\<lambda>b. \<exists>r. b = RrtrBlock r) (xr_blocks p) \<and> length (xr_blocks p) \<le> 1000"

fun rrtr_bytes :: "report_block \<Rightarrow> bytes" where
  "rrtr_bytes (RrtrBlock r) = [4, 0] @ to_be16 2 @ to_be64 (rrtr_ntp_time r)"
| "rrtr_bytes (DlrrBlock d) = replicate 12 0"

definition xr_body :: "extended_report \<Rightarrow> bytes" where
  "xr_body p = to_be32 (xr_ssrc p) @ concat (map rrtr_bytes (xr_blocks p))"

lemma length_rrtr_bytes [simp]: "length (rrtr_bytes b) = 12"
  by (cases b) simp_all

lemma length_rrtr_blocks [simp]: "length (concat (map rrtr_bytes bs)) = length bs * 12"
  by (rule length_concat_const) simp

lemma rrtr_parse [simp]: "block_try_from (rrtr_bytes (RrtrBlock r) @ rest) = ok (RrtrBlock r)"
  by (simp add: block_try_from_def rrtr_try_from_def u64_at_def u32_at_def idx_def to_be16_def to_be64_def
      to_be32_def)

lemma blocks_loop_written:
  "list_all (\<lambda>b. \<exists>r. b = RrtrBlock r) bs \<Longrightarrow> blocks_loop (concat (map rrtr_bytes bs)) = ok bs"
proof (induction bs)
  case Nil
  then show ?case by (subst blocks_loop.simps) (simp add: block_try_from_def)
next
  case (Cons b bs)
  then obtain r where b: "b = RrtrBlock r" by auto
  have "slice (rrtr_bytes b @ concat (map rrtr_bytes bs)) 12 (length (rrtr_bytes b @ concat (map rrtr_bytes bs)))
      = Some (concat (map rrtr_bytes bs))" by (simp add: slice_def)
  with Cons b show ?case
    by (subst blocks_loop.simps) (simp del: rrtr_bytes.simps)
qed

lemma blocks_write_rrtr:
  "list_all (\<lambda>b. \<exists>r. b = RrtrBlock r) bs \<Longrightarrow> blocks_write bs (length pre) (pre @ mid)
     = (if length bs * 12 \<le> length mid
        then Some (pre @ concat (map rrtr_bytes bs) @ drop (length bs * 12) mid, length pre + length bs * 12) else None)"
proof (induction bs arbitrary: pre mid)
  case (Cons b bs)
  then obtain r where b: "b = RrtrBlock r" by auto
  show ?case
  proof (cases "12 \<le> length mid")
    case True
    then have "copy_in (pre @ mid) (length pre) (rrtr_bytes b) = Some ((pre @ rrtr_bytes b) @ drop 12 mid)"
      by (simp add: copy_in_def)
    moreover have "blocks_write bs (length (pre @ rrtr_bytes b)) ((pre @ rrtr_bytes b) @ drop 12 mid)
      = (if length bs * 12 \<le> length (drop 12 mid)
         then Some ((pre @ rrtr_bytes b) @ concat (map rrtr_bytes bs) @ drop (length bs * 12) (drop 12 mid),
                    length (pre @ rrtr_bytes b) + length bs * 12) else None)"
      using Cons.prems by (intro Cons.IH) simp
    ultimately show ?thesis using True b
      by (auto simp: rrtr_write_to_def add.commute)
  next
    case False
    then show ?thesis using b by (auto simp: rrtr_write_to_def copy_in_def)
  qed
qed simp

interpretation xr: rtcp_packet xr_header xr_length_words xr_body xr_write_to "\<lambda>h. xr_try_from" xr_wf
proof
  fix p buf assume p: "xr_wf p"
  then have bs: "list_all (\<lambda>b. \<exists>r. b = RrtrBlock r) (xr_blocks p)" and n: "length (xr_blocks p) \<le> 1000"
    by (auto simp: xr_wf_def)
  have "sum_list (map (\<lambda>b. block_len b div 4) bs) = length bs * 3" if "list_all (\<lambda>b. \<exists>r. b = RrtrBlock r) bs" for bs
    using that by (induction bs) auto
  with bs have words: "xr_length_words p = 2 + length (xr_blocks p) * 3" by (simp add: xr_length_words_def)
  show "header_ok (xr_header p)" by (simp add: header_ok_def xr_header_def feedback_of_def)
  show "h_length_words (xr_header p) = xr_length_words p"
    unfolding xr_header_def by (rule words_less_one) (use n words in simp_all)
  show len: "4 + length (xr_body p) = 4 * xr_length_words p" by (simp add: xr_body_def words)
  show "xr_try_from (xr_body p) = ok p"
    unfolding xr_try_from_def using blocks_loop_written [OF bs] by (simp add: xr_body_def wire_simps slice_def)
  obtain hs where hs: "header_bytes (xr_header p) = Some hs" "length hs = 4"
    by (auto simp: header_bytes_def xr_header_def)
  show "xr_write_to p buf = do {
      hs \<leftarrow> header_bytes (xr_header p); buf \<leftarrow> emit (hs @ xr_body p) buf; Some (buf, 4 * xr_length_words p) }"
  proof (cases "8 \<le> length buf")
    case True
    then show ?thesis
      using hs blocks_write_rrtr [OF bs, of "hs @ to_be32 (xr_ssrc p)" "drop 8 buf"] words
      by (auto simp: xr_write_to_def emit_def xr_body_def add.commute mult.commute)
  next
    case False
    then show ?thesis using hs by (simp add: xr_write_to_def emit_def xr_body_def)
  qed
qed

section \<open>What does not survive\<close>

text \<open>A DLRR report is not read back by the parser of the same module: its length is written in
  octets and read as words, so the parser runs past the block it has just been given and panics,
  for every item; and a block cut short panics as well, whatever the report it is part of.\<close>

theorem dlrr_own_output_panics:
  "\<exists>out. xr_write_to \<lparr>xr_ssrc = ssrc, xr_blocks = [DlrrBlock \<lparr>dlrr_items = [d]\<rparr>]\<rparr> (replicate 24 z) = Some (out, 24)
     \<and> length out = 24 \<and> xr_try_from (drop 4 out) = None
     \<and> xr_try_from (to_be32 ssrc @ [4, 0, 0, 2] @ take 7 junk) = None"
proof -
  let ?p = "\<lparr>xr_ssrc = ssrc, xr_blocks = [DlrrBlock \<lparr>dlrr_items = [d]\<rparr>]\<rparr>"
  obtain hs where hs: "header_bytes (xr_header ?p) = Some hs" "length hs = 4"
    by (auto simp: header_bytes_def xr_header_def)
  define item where "item = to_be32 (di_ssrc d) @ to_be32 (di_last_rr_time d) @ to_be32 (di_last_rr_delay d)"
  have li: "length item = 12" by (simp add: item_def)
  define h where "h = [5, 0] @ to_be16 12"
  define out where "out = hs @ to_be32 ssrc @ h @ item"
  have lh: "length h = 4" by (simp add: h_def)
  have "xr_write_to ?p (replicate 24 z) = Some (out, 24)"
    using hs li lh by (simp add: xr_write_to_def emit_def dlrr_write_to_def copy_in_def dlrr_len_def
        item_def [symmetric] h_def [unfolded append_Cons append_Nil, symmetric] out_def)
  moreover have "xr_try_from (drop 4 out) = None"
  proof -
    have u: "u16_at (h @ item) 2 = Some 12" by (simp add: h_def wire_simps)
    have "read_n 12 dlrr_item_at 4 item = None"
      using li by (simp add: item_def numeral_eq_Suc dlrr_item_at_def slice_def u32_at_def idx_def)
    with u lh li have "dlrr_try_from (h @ item) = None"
      by (simp add: dlrr_try_from_def Let_def slice_def)
    then have "block_try_from (h @ item) = None" by (simp add: block_try_from_def h_def)
    then have "blocks_loop (h @ item) = None" by (subst blocks_loop.simps) simp
    then show ?thesis
      unfolding xr_try_from_def using hs by (simp add: out_def wire_simps slice_def)
  qed
  moreover have "xr_try_from (to_be32 ssrc @ [4, 0, 0, 2] @ take 7 junk) = None"
  proof -
    have "u64_at ([4, 0, 0, 2] @ take 7 junk) 4 = None"
      by (auto simp: u64_at_def u32_at_def idx_def bind_eq_None_conv)
    then have "block_try_from ([4, 0, 0, 2] @ take 7 junk) = None"
      by (simp add: block_try_from_def rrtr_try_from_def)
    then have "blocks_loop ([4, 0, 0, 2] @ take 7 junk) = None" by (subst blocks_loop.simps) simp
    then show ?thesis unfolding xr_try_from_def by (simp add: wire_simps slice_def)
  qed
  moreover have "length out = 24" using hs li lh by (simp add: out_def)
  ultimately show ?thesis by blast
qed

end
