(* ===== verification/Remb.thy ===== *)
theory Remb imports RtcpPackets begin

text \<open>
  The receiver's bit rate estimates of \<open>rtp/rtcp/remb.rs\<close> of the patched str0m. A bit rate is a
  32 bit IEEE 754 number, kept as its bit pattern; the float operations of the writer (comparing,
  halving, rounding down) are exact on the patterns they are applied to and are modelled on
  exponent and fraction. The parser indexes the announced number of sources unguarded.
\<close>

section \<open>The packet\<close>

definition BITRATE_MAX :: u32 where "BITRATE_MAX = 0x67FFFFC0"
definition MANTISSA_MAX :: u32 where "MANTISSA_MAX = 0x7FFFFF"
definition REMB_OFFSET :: nat where "REMB_OFFSET = 16"
definition UNIQUE_IDENTIFIER :: bytes where "UNIQUE_IDENTIFIER = [82, 69, 77, 66]"

record remb =
  rb_sender_ssrc :: u32
  rb_ssrc :: u32
  rb_bitrate :: u32
  rb_ssrcs :: "u32 list"

definition remb_length_words :: "remb \<Rightarrow> nat" where
  "remb_length_words p = 1 + REMB_OFFSET div 4 + length (rb_ssrcs p)"

definition remb_header :: "remb \<Rightarrow> rtcp_header" where
  "remb_header p = \<lparr>h_type = PayloadSpecificFeedbackT, h_feedback = PayloadFeedback ApplicationLayerT,
     h_words_less_one = of_nat (remb_length_words p - 1)\<rparr>"

section \<open>Writing\<close>

definition f32_exp :: "u32 \<Rightarrow> nat" where
  "f32_exp b = unat (drop_bit 23 b AND 0xFF)"

definition f32_frac :: "u32 \<Rightarrow> u32" where
  "f32_frac b = b AND MANTISSA_MAX"

definition f32_negative :: "u32 \<Rightarrow> bool" where
  "f32_negative b \<longleftrightarrow> bit b 31"

definition f32_nan :: "u32 \<Rightarrow> bool" where
  "f32_nan b \<longleftrightarrow> f32_exp b = 255 \<and> f32_frac b \<noteq> 0"

text \<open>A NaN fails both comparisons; a negative zero is not below zero, and rounds to zero as well.\<close>

definition remb_clamp :: "u32 \<Rightarrow> u32" where
  "remb_clamp b =
     (if f32_nan b then b
      else if \<not> f32_negative b \<and> BITRATE_MAX \<le> b then BITRATE_MAX
      else if f32_negative b \<and> b \<noteq> 0x80000000 then 0
      else b)"

text \<open>
  \<open>while bitrate >= 2^18\<close>: a positive finite number is at least \<open>2^18\<close> when its biased exponent is
  at least 145, and halving it lowers the exponent by one.
\<close>

function halve_loop :: "nat \<Rightarrow> nat \<Rightarrow> nat \<times> nat" where
  "halve_loop exp e = (if 145 \<le> e then halve_loop (exp + 1) (e - 1) else (exp, e))"
  by pat_completeness auto
termination by (relation "measure snd") auto

declare halve_loop.simps [simp del]

text \<open>\<open>floor\<close> of a number below \<open>2^18\<close> with biased exponent \<open>e\<close>; it is 0 below one.\<close>

definition f32_floor :: "nat \<Rightarrow> u32 \<Rightarrow> u32" where
  "f32_floor e frac = (if e < 127 then 0 else drop_bit (150 - e) (0x800000 OR frac))"

definition remb_parts :: "u32 \<Rightarrow> nat \<times> u32" where
  "remb_parts bitrate =
     (let b = remb_clamp bitrate in
      if f32_nan b \<or> f32_negative b then (0, 0)
      else let (exp, e) = halve_loop 0 (f32_exp b) in (exp, f32_floor e (f32_frac b)))"

definition remb_body :: "remb \<Rightarrow> bytes" where
  "remb_body p =
     (let (exp, mantissa) = remb_parts (rb_bitrate p) in
      to_be32 (rb_sender_ssrc p) @ to_be32 0 @ UNIQUE_IDENTIFIER
      @ [of_nat (length (rb_ssrcs p)), push_bit 2 (of_nat exp) OR ucast (drop_bit 16 mantissa),
         ucast (drop_bit 8 mantissa), ucast mantissa]
      @ concat (map to_be32 (rb_ssrcs p)))"

definition remb_write_to :: "remb \<Rightarrow> bytes \<Rightarrow> (bytes \<times> nat) option" where
  "remb_write_to p buf = do {
     hs \<leftarrow> header_bytes (remb_header p);
     buf \<leftarrow> emit (hs @ remb_body p) buf;
     Some (buf, 4 + REMB_OFFSET + length (rb_ssrcs p) * 4)
   }"

section \<open>Parsing\<close>

text \<open>The normalisation shifts the mantissa until its leading bit is the implicit one.\<close>

partial_function (option) remb_norm :: "nat \<Rightarrow> u32 \<Rightarrow> (nat \<times> u32) option" where
  [code]: "remb_norm exp mantissa =
     (if mantissa AND (MANTISSA_MAX + 1) = 0 then remb_norm (exp - 1) (mantissa * 2) else Some (exp, mantissa))"

definition remb_try_from :: "bytes \<Rightarrow> remb res" where
  "remb_try_from buf =
     (if length buf < 16 then err ''Remb less than 16 bytes''
      else do {
        sender_ssrc \<leftarrow> u32_at buf 0;
        media_ssrc \<leftarrow> u32_at buf 4;
        if media_ssrc \<noteq> 0 then err ''Ssrc must be zero''
        else do {
          ident \<leftarrow> slice buf 8 12;
          if ident \<noteq> UNIQUE_IDENTIFIER then err ''Missing remb identifier''
          else do {
            ssrcs_len \<leftarrow> idx buf 12;
            b17 \<leftarrow> idx buf 13; b18 \<leftarrow> idx buf 14; b19 \<leftarrow> idx buf 15;
            let exp = unat (drop_bit 2 b17) + 127 + 23;
            let mantissa = push_bit 16 (ucast (b17 AND 3)) OR push_bit 8 (ucast b18) OR ucast b19;
            (exp, mantissa) \<leftarrow> (if mantissa \<noteq> 0 then remb_norm exp mantissa else Some (exp, mantissa));
            let bitrate = push_bit 23 (of_nat exp) OR (mantissa AND MANTISSA_MAX);
            rest \<leftarrow> slice buf 16 (length buf);
            and_then (read_n 4 (\<lambda>b. checked (u32_at b 0)) (unat ssrcs_len) rest) (\<lambda>ssrcs.
              ok \<lparr>rb_sender_ssrc = sender_ssrc, rb_ssrc = 0, rb_bitrate = bitrate, rb_ssrcs = ssrcs\<rparr>)
          }
        }
      })"

section \<open>Exponent and mantissa\<close>

lemma halve_loop_eq: "144 \<le> e \<Longrightarrow> halve_loop exp e = (exp + (e - 144), 144)"
  by (induction exp e rule: halve_loop.induct) (subst halve_loop.simps, auto)

lemma leading_bit: "(w :: u32) AND (MANTISSA_MAX + 1) = 0 \<longleftrightarrow> \<not> bit w 23"
proof -
  have "MANTISSA_MAX + 1 = (2 ^ 23 :: u32)" by (simp add: MANTISSA_MAX_def)
  then show ?thesis by (simp only: and_exp_eq_0_iff_not_bit)
qed

lemma bit_twice: "bit ((w :: u32) * 2) j \<longleftrightarrow> 0 < j \<and> j < 32 \<and> bit w (j - 1)"
proof -
  have "w * 2 = push_bit 1 w" by simp
  then show ?thesis by (simp only: bit_push_bit_iff) (auto simp: bit_simps)
qed

lemma remb_norm_step: "\<not> bit w 23 \<Longrightarrow> remb_norm e w = remb_norm (e - 1) (w * 2)"
  by (subst remb_norm.simps) (simp add: leading_bit)

lemma remb_norm_done: "bit w 23 \<Longrightarrow> remb_norm e w = Some (e, w)"
  by (subst remb_norm.simps) (simp add: leading_bit)

lemma remb_norm_shifts:
  assumes "bit w (23 - k)" "\<And>j. 23 - k < j \<Longrightarrow> \<not> bit w j" "k \<le> 23"
  shows "remb_norm e (w :: u32) = Some (e - k, push_bit k w)"
  using assms
proof (induction k arbitrary: w e)
  case 0
  then show ?case by (simp add: remb_norm_done)
next
  case (Suc k)
  have "\<not> bit w 23" using Suc.prems(2) [of 23] Suc.prems(3) by simp
  moreover have "remb_norm (e - 1) (w * 2) = Some (e - 1 - k, push_bit k (w * 2))"
  proof (rule Suc.IH)
    have "23 - k - 1 = 23 - Suc k" by simp
    then show "bit (w * 2) (23 - k)" using Suc.prems(1,3) by (simp add: bit_twice)
    show "\<not> bit (w * 2) j" if "23 - k < j" for j
    proof -
      from that Suc.prems(3) have "23 - Suc k < j - 1" by arith
      then have "\<not> bit w (j - 1)" by (rule Suc.prems(2))
      then show ?thesis by (simp add: bit_twice)
    qed
    show "k \<le> 23" using Suc.prems(3) by simp
  qed
  ultimately show ?case by (simp add: remb_norm_step)
qed

section \<open>What a bit rate becomes\<close>

text \<open>
  A positive bit rate keeps its leading 18 bits, and nothing below one: the number of low bits of the
  pattern that are lost.
\<close>

definition lost_bits :: "u32 \<Rightarrow> nat" where
  "lost_bits b = 150 - min (f32_exp b) 144"

definition remb_quantised :: "u32 \<Rightarrow> u32" where
  "remb_quantised b = push_bit (lost_bits b) (drop_bit (lost_bits b) b)"

definition representable :: "u32 \<Rightarrow> bool" where
  "representable b \<longleftrightarrow> \<not> f32_negative b \<and> 127 \<le> f32_exp b \<and> b < BITRATE_MAX"

lemma representable_exp: "representable b \<Longrightarrow> f32_exp b \<le> 207 \<and> \<not> f32_nan b"
proof -
  assume "representable b"
  then have "b < BITRATE_MAX" by (simp add: representable_def)
  also have "BITRATE_MAX < (0x68000000 :: u32)" by (simp add: BITRATE_MAX_def)
  finally have "b < 0x68000000" .
  then have "unat b div 2 ^ 23 \<le> 207" by (simp add: word_less_nat_alt)
  moreover have "f32_exp b \<le> unat b div 2 ^ 23"
  proof -
    have "drop_bit 23 b AND 0xFF \<le> drop_bit 23 b" by (rule word_and_le2)
    then have "unat (drop_bit 23 b AND 0xFF) \<le> unat (drop_bit 23 b)" by (simp only: word_le_nat_alt)
    then show ?thesis unfolding f32_exp_def
      by (simp only: unat_drop_bit_eq drop_bit_eq_div [of 23 "unat b"])
  qed
  ultimately show ?thesis by (auto simp: f32_nan_def)
qed

lemma remb_parts_eq:
  assumes "representable b"
  shows "remb_parts b = (f32_exp b - 144, drop_bit (lost_bits b) (0x800000 OR f32_frac b))"
proof -
  have c: "remb_clamp b = b" using assms by (auto simp: remb_clamp_def representable_def)
  have h: "halve_loop 0 (f32_exp b) = (f32_exp b - 144, min (f32_exp b) 144)"
  proof (cases "144 \<le> f32_exp b")
    case False
    then show ?thesis by (subst halve_loop.simps) simp
  qed (simp add: halve_loop_eq)
  have f: "f32_floor (min (f32_exp b) 144) frac = drop_bit (lost_bits b) (0x800000 OR frac)" for frac
    using assms by (auto simp: f32_floor_def lost_bits_def representable_def)
  show ?thesis using assms representable_exp [OF assms]
    by (simp add: remb_parts_def c Let_def h f representable_def)
qed

text \<open>The three octets of exponent and mantissa.\<close>

lemma remb_fields:
  assumes "\<And>j. 18 \<le> j \<Longrightarrow> \<not> bit m j" and "n < 64"
  shows "drop_bit 2 (push_bit 2 (of_nat n :: u8) OR ucast (drop_bit 16 (m :: u32))) = of_nat n"
    and "(push_bit 2 (of_nat n :: u8) OR ucast (drop_bit 16 m)) AND 3 = ucast (drop_bit 16 m)"
    and "push_bit 16 (ucast ((push_bit 2 (of_nat n :: u8) OR ucast (drop_bit 16 m)) AND 3) :: u32)
      OR push_bit 8 (ucast (ucast (drop_bit 8 m) :: u8)) OR ucast (ucast m :: u8) = m"
proof -
  have n: "\<not> bit (of_nat n :: u8) j" if "6 \<le> j" for j
  proof -
    have "n < 2 ^ j" using assms(2) power_increasing [of 6 j "2 :: nat"] that by simp
    then have "\<not> bit n j" by (simp add: bit_iff_odd)
    then show ?thesis by (simp only: bit_of_nat_iff) simp
  qed
  show low: "(push_bit 2 (of_nat n :: u8) OR ucast (drop_bit 16 m)) AND 3 = ucast (drop_bit 16 m)"
  proof (rule bit_word_eqI)
    fix j :: nat assume "j < LENGTH(8)"
    have "bit (3 :: u8) j \<longleftrightarrow> j < 2" by (auto simp: bit_simps numeral_eq_Suc bit_Suc less_Suc_eq)
    then show "bit ((push_bit 2 (of_nat n :: u8) OR ucast (drop_bit 16 m)) AND 3) j = bit (ucast (drop_bit 16 m) :: u8) j"
      using assms(1) [of "16 + j"] by (auto simp: bit_simps)
  qed
  show "drop_bit 2 (push_bit 2 (of_nat n :: u8) OR ucast (drop_bit 16 m)) = of_nat n"
  proof (rule bit_word_eqI)
    fix j :: nat assume "j < LENGTH(8)"
    then show "bit (drop_bit 2 (push_bit 2 (of_nat n :: u8) OR ucast (drop_bit 16 m))) j = bit (of_nat n :: u8) j"
      using assms(1) [of "18 + j"] n [of j] by (cases "j < 6") (auto simp: bit_simps)
  qed
  show "push_bit 16 (ucast ((push_bit 2 (of_nat n :: u8) OR ucast (drop_bit 16 m)) AND 3) :: u32)
      OR push_bit 8 (ucast (ucast (drop_bit 8 m) :: u8)) OR ucast (ucast m :: u8) = m"
    unfolding low
  proof (rule bit_word_eqI)
    fix j :: nat assume "j < LENGTH(32)"
    then show "bit (push_bit 16 (ucast (ucast (drop_bit 16 m) :: u8) :: u32)
        OR push_bit 8 (ucast (ucast (drop_bit 8 m) :: u8)) OR ucast (ucast m :: u8)) j = bit m j"
      using assms(1) [of j] by (cases "j < 8"; cases "j < 16"; cases "j < 18") (auto simp: bit_simps)
  qed
qed

lemma bit_mantissa_max: "bit MANTISSA_MAX j \<longleftrightarrow> j < 23"
proof -
  have "MANTISSA_MAX = mask 23" by (simp add: MANTISSA_MAX_def mask_eq_exp_minus_1)
  moreover have "bit (mask 23 :: u32) j \<longleftrightarrow> j < 23" by (auto simp: bit_mask_iff)
  ultimately show ?thesis by (rule ssubst)
qed

lemma bit_significand: "bit (0x800000 OR f32_frac b) j \<longleftrightarrow> j = 23 \<or> j < 23 \<and> bit b j"
proof -
  have "(0x800000 :: u32) = 2 ^ 23" by simp
  then have "bit (0x800000 :: u32) j \<longleftrightarrow> j = 23" by (simp only: bit_exp_iff) auto
  then show ?thesis by (auto simp: f32_frac_def bit_or_iff bit_and_iff bit_mantissa_max)
qed

lemma bit_exponent:
  assumes "representable b"
  shows "bit (of_nat (f32_exp b) :: u32) j \<longleftrightarrow> j < 8 \<and> bit b (23 + j)"
proof -
  have "(of_nat (f32_exp b) :: u32) = drop_bit 23 b AND 0xFF" by (simp add: f32_exp_def)
  moreover have "(0xFF :: u32) = mask 8" by (simp add: mask_eq_exp_minus_1)
  ultimately have "(of_nat (f32_exp b) :: u32) = drop_bit 23 b AND mask 8" by (simp only:)
  then show ?thesis by (simp only: bit_and_iff bit_drop_bit_eq bit_mask_iff o_def) (auto dest: bit_imp_le_length)
qed

lemma remb_reassembled:
  assumes b: "representable b"
  defines "m \<equiv> drop_bit (lost_bits b) (0x800000 OR f32_frac b)"
  shows "m \<noteq> 0"
    and "remb_norm (f32_exp b - 144 + 150) m = Some (f32_exp b, push_bit (lost_bits b) m)"
    and "push_bit 23 (of_nat (f32_exp b)) OR (push_bit (lost_bits b) m AND MANTISSA_MAX) = remb_quantised b"
proof -
  have k: "6 \<le> lost_bits b" "lost_bits b \<le> 23" using b by (auto simp: lost_bits_def representable_def)
  have m: "bit m j \<longleftrightarrow> j = 23 - lost_bits b \<or> lost_bits b + j < 23 \<and> bit b (lost_bits b + j)" for j
    unfolding m_def bit_drop_bit_eq o_def bit_significand using k(2) by auto
  show "m \<noteq> 0" using m [of "23 - lost_bits b"] by auto
  have "remb_norm (f32_exp b - 144 + 150) m = Some (f32_exp b - 144 + 150 - lost_bits b, push_bit (lost_bits b) m)"
    using m k by (intro remb_norm_shifts) auto
  then show "remb_norm (f32_exp b - 144 + 150) m = Some (f32_exp b, push_bit (lost_bits b) m)"
    using b by (auto simp: lost_bits_def representable_def)
  show "push_bit 23 (of_nat (f32_exp b)) OR (push_bit (lost_bits b) m AND MANTISSA_MAX) = remb_quantised b"
  proof (rule bit_word_eqI)
    fix j :: nat assume j: "j < LENGTH(32)"
    have "\<not> bit b 31" using b by (simp add: representable_def f32_negative_def)
    then have top: "bit b j \<longrightarrow> j < 31" using j by (cases "j = 31") auto
    show "bit (push_bit 23 (of_nat (f32_exp b)) OR (push_bit (lost_bits b) m AND MANTISSA_MAX)) j = bit (remb_quantised b) j"
      unfolding bit_or_iff bit_and_iff bit_push_bit_iff bit_exponent [OF b] m bit_mantissa_max remb_quantised_def
        bit_drop_bit_eq o_def
      using j k top by (cases "j < 23") (auto simp: not_less)
  qed
qed

section \<open>The packet read back\<close>

lemma remb_body_eq:
  assumes b: "representable (rb_bitrate p)"
  obtains b17 b18 b19 m where
    "remb_body p = to_be32 (rb_sender_ssrc p) @ to_be32 0 @ UNIQUE_IDENTIFIER @ [of_nat (length (rb_ssrcs p)), b17, b18, b19]
      @ concat (map to_be32 (rb_ssrcs p))"
    "unat (drop_bit 2 b17) = f32_exp (rb_bitrate p) - 144"
    "push_bit 16 (ucast (b17 AND 3)) OR push_bit 8 (ucast b18) OR ucast b19 = m" "m \<noteq> 0"
    "remb_norm (f32_exp (rb_bitrate p) - 144 + 127 + 23) m
      = Some (f32_exp (rb_bitrate p), push_bit (lost_bits (rb_bitrate p)) m)"
    "push_bit 23 (of_nat (f32_exp (rb_bitrate p))) OR (push_bit (lost_bits (rb_bitrate p)) m AND MANTISSA_MAX)
      = remb_quantised (rb_bitrate p)"
proof -
  let ?b = "rb_bitrate p"
  let ?m = "drop_bit (lost_bits ?b) (0x800000 OR f32_frac ?b)"
  let ?n = "f32_exp ?b - 144"
  have n: "?n < 64" using representable_exp [OF b] by auto
  have "6 \<le> lost_bits ?b" by (auto simp: lost_bits_def)
  then have m: "\<not> bit ?m j" if "18 \<le> j" for j
    unfolding bit_drop_bit_eq o_def bit_significand using that by auto
  note f = remb_fields [OF m n]
  have "unat (of_nat ?n :: u8) = ?n" using n by (simp add: unsigned_of_nat take_bit_nat_eq_self)
  then have "unat (drop_bit 2 (push_bit 2 (of_nat ?n :: u8) OR ucast (drop_bit 16 ?m))) = ?n"
    by (simp only: f(1))
  moreover have "remb_body p = to_be32 (rb_sender_ssrc p) @ to_be32 0 @ UNIQUE_IDENTIFIER
      @ [of_nat (length (rb_ssrcs p)), push_bit 2 (of_nat ?n) OR ucast (drop_bit 16 ?m), ucast (drop_bit 8 ?m), ucast ?m]
      @ concat (map to_be32 (rb_ssrcs p))"
    by (simp add: remb_body_def remb_parts_eq [OF b])
  ultimately show ?thesis
    using that [OF _ _ f(3)] remb_reassembled [OF b] by (simp add: add.assoc)
qed

lemma remb_parse_body:
  assumes "representable (rb_bitrate p)" and "length (rb_ssrcs p) \<le> 255"
  shows "remb_try_from (remb_body p) = ok (p\<lparr>rb_ssrc := 0, rb_bitrate := remb_quantised (rb_bitrate p)\<rparr>)"
proof -
  from assms(1) show ?thesis
  proof (rule remb_body_eq)
    fix b17 b18 b19 m
    assume body: "remb_body p = to_be32 (rb_sender_ssrc p) @ to_be32 0 @ UNIQUE_IDENTIFIER
        @ [of_nat (length (rb_ssrcs p)), b17, b18, b19] @ concat (map to_be32 (rb_ssrcs p))"
      and e: "unat (drop_bit 2 b17) = f32_exp (rb_bitrate p) - 144"
      and m: "push_bit 16 (ucast (b17 AND 3)) OR push_bit 8 (ucast b18) OR ucast b19 = m" "m \<noteq> 0"
      and n: "remb_norm (f32_exp (rb_bitrate p) - 144 + 127 + 23) m
        = Some (f32_exp (rb_bitrate p), push_bit (lost_bits (rb_bitrate p)) m)"
      and q: "push_bit 23 (of_nat (f32_exp (rb_bitrate p))) OR (push_bit (lost_bits (rb_bitrate p)) m AND MANTISSA_MAX)
        = remb_quantised (rb_bitrate p)"
    have r: "read_n 4 (\<lambda>b. checked (u32_at b 0)) (length (rb_ssrcs p)) (concat (map to_be32 (rb_ssrcs p))) = ok (rb_ssrcs p)"
      using read_n_written [of "rb_ssrcs p" "\<lambda>b. checked (u32_at b 0)" to_be32 4 "[]"] by simp
    have k: "unat (of_nat (length (rb_ssrcs p)) :: u8) = length (rb_ssrcs p)"
      using assms(2) by (simp add: unsigned_of_nat take_bit_nat_eq_self)
    have n': "remb_norm (150 + (f32_exp (rb_bitrate p) - 144)) m
        = Some (f32_exp (rb_bitrate p), push_bit (lost_bits (rb_bitrate p)) m)"
      using n by (simp add: add.commute)
    show ?thesis
      unfolding remb_try_from_def body
      by (simp add: wire_simps slice_def UNIQUE_IDENTIFIER_def e m n' q r k Let_def del: push_bit_of_nat)
  qed
qed

text \<open>C35. A bit rate of at least 1 bit/s and below the maximum, written into a REMB packet of at most 255 sources, is read
  back as the same number with all but its leading 18 bits cleared, and the sources come back in order; the media
  source is read as 0.
\<close>

theorem remb_bitrate_kept:
  assumes "representable (rb_bitrate p)" and "length (rb_ssrcs p) \<le> 255"
  shows "remb_try_from (remb_body p) = ok (p\<lparr>rb_ssrc := 0, rb_bitrate := remb_quantised (rb_bitrate p)\<rparr>)"
  by (rule remb_parse_body [OF assms])

theorem remb_bitrate_kept_witness:
  "remb_try_from (remb_body \<lparr>rb_sender_ssrc = 1, rb_ssrc = 5, rb_bitrate = 0x4B127B3F, rb_ssrcs = [7, 8]\<rparr>)
    = ok \<lparr>rb_sender_ssrc = 1, rb_ssrc = 0, rb_bitrate = 0x4B127B00, rb_ssrcs = [7, 8]\<rparr>"
proof -
  let ?p = "\<lparr>rb_sender_ssrc = 1, rb_ssrc = 5, rb_bitrate = 0x4B127B3F, rb_ssrcs = [7, 8]\<rparr>"
  have "representable (rb_bitrate ?p)"
    by (simp add: representable_def f32_negative_def f32_exp_def BITRATE_MAX_def bit_iff_odd)
  moreover have "remb_quantised (rb_bitrate ?p) = 0x4B127B00"
    by (simp add: remb_quantised_def lost_bits_def f32_exp_def)
  ultimately show ?thesis using remb_bitrate_kept [of ?p] by simp
qed

definition remb_wf :: "remb \<Rightarrow> bool" where
  "remb_wf p \<longleftrightarrow> rb_ssrc p = 0 \<and> representable (rb_bitrate p) \<and> remb_quantised (rb_bitrate p) = rb_bitrate p
     \<and> length (rb_ssrcs p) \<le> 255"

interpretation remb: rtcp_packet remb_header remb_length_words remb_body remb_write_to "\<lambda>h. remb_try_from" remb_wf
proof
  fix p buf assume p: "remb_wf p"
  then have b: "representable (rb_bitrate p)" and n: "length (rb_ssrcs p) \<le> 255" by (simp_all add: remb_wf_def)
  show "header_ok (remb_header p)"
    by (simp add: header_ok_def remb_header_def feedback_of_def payload_try_from_def)
  show "h_length_words (remb_header p) = remb_length_words p"
    unfolding remb_header_def by (rule words_less_one) (use n in \<open>simp_all add: remb_length_words_def REMB_OFFSET_def\<close>)
  show "4 + length (remb_body p) = 4 * remb_length_words p"
    by (simp add: remb_body_def remb_length_words_def REMB_OFFSET_def UNIQUE_IDENTIFIER_def length_concat_const split: prod.splits)
  show "remb_write_to p buf = do {
      hs \<leftarrow> header_bytes (remb_header p); buf \<leftarrow> emit (hs @ remb_body p) buf; Some (buf, 4 * remb_length_words p) }"
    by (simp add: remb_write_to_def remb_length_words_def REMB_OFFSET_def mult.commute)
  have "p\<lparr>rb_ssrc := 0, rb_bitrate := remb_quantised (rb_bitrate p)\<rparr> = p" using p by (simp add: remb_wf_def)
  then show "remb_try_from (remb_body p) = ok p" using remb_parse_body [OF b n] by simp
qed

section \<open>Where the packet misleads its reader\<close>

text \<open>The zero bit rate, which the writer can express, is read back as \<open>2 ^ 23\<close> bit/s: the exponent bias is
  added and the missing implicit bit of a zero mantissa is not noticed.
\<close>

theorem remb_zero_bitrate:
  "remb_try_from (remb_body \<lparr>rb_sender_ssrc = 1, rb_ssrc = 0, rb_bitrate = 0, rb_ssrcs = []\<rparr>)
     = ok \<lparr>rb_sender_ssrc = 1, rb_ssrc = 0, rb_bitrate = 0x4B000000, rb_ssrcs = []\<rparr>
   \<and> f32_exp 0x4B000000 = 127 + 23 \<and> f32_frac 0x4B000000 = 0"
proof -
  have "halve_loop 0 0 = (0, 0)" by (subst halve_loop.simps) simp
  then have "remb_parts 0 = (0, 0)"
    by (simp add: remb_parts_def remb_clamp_def f32_nan_def f32_negative_def f32_exp_def f32_frac_def BITRATE_MAX_def
        f32_floor_def)
  then show ?thesis
    by (simp add: remb_body_def remb_try_from_def wire_simps slice_def UNIQUE_IDENTIFIER_def Let_def f32_exp_def f32_frac_def
        MANTISSA_MAX_def)
qed

lemma read_ssrcs_short: "length buf < n * 4 \<Longrightarrow> read_n 4 (\<lambda>b. checked (u32_at b 0)) n buf = None"
proof (induction n arbitrary: buf)
  case (Suc n)
  show ?case
  proof (cases "length buf < 4")
    case True
    then have "u32_at buf 0 = None" by (auto simp: u32_at_def idx_def split: Option.bind_splits)
    then show ?thesis by simp
  next
    case False
    then have "length (drop 4 buf) < n * 4" using Suc.prems by simp
    then show ?thesis using Suc.IH [of "drop 4 buf"] False by (auto simp: and_then_None slice_def)
  qed
qed simp

text \<open>A REMB packet that announces more sources than it carries takes the reader down: the octets are indexed
  without a look at the length of the packet.
\<close>

theorem remb_announced_panics:
  assumes "length rest < unat n * 4"
  shows "remb_try_from (to_be32 s @ to_be32 0 @ UNIQUE_IDENTIFIER @ [n, b17, b18, b19] @ rest) = None"
  using read_ssrcs_short [OF assms] unfolding remb_try_from_def
  by (auto simp: wire_simps slice_def UNIQUE_IDENTIFIER_def Let_def split: Option.bind_splits)

theorem remb_announced_panics_witness:
  "remb_try_from (to_be32 1 @ to_be32 0 @ UNIQUE_IDENTIFIER @ [2, 1, 1, 1] @ to_be32 7) = None"
  using remb_announced_panics [of "to_be32 7" 2] by simp

end
