(* ===== verification/SeqNo.thy ===== *)
theory SeqNo imports RtcpPackets begin

text \<open>
  Sequence numbers: \<open>rtp/header.rs\<close> extends the 7 to 32 bit numbers of the wire to 64 bit ones
  by the previous number (the macro \<open>mk_extend\<close>), and \<open>NackEntryIterator\<close> of \<open>rtcp/nack.rs\<close>
  lists the numbers a NACK entry asks for.
\<close>

section \<open>Extension\<close>

text \<open>The roll-over count is an \<open>i64\<close>, a word read with \<open>sint\<close> where its sign is looked at.\<close>

definition extend_id :: "nat \<Rightarrow> u64 option \<Rightarrow> u64 \<Rightarrow> u64" where
  "extend_id bits prev_ext_seq seq =
     (let M = 2 ^ bits; HALF = 2 ^ bits div 2; VAL_MASK = 2 ^ bits - 1; ROC_MASK = drop_bit bits (- 1);
          seq = seq AND VAL_MASK
      in case prev_ext_seq of
           None \<Rightarrow> seq
         | Some prev_index \<Rightarrow>
             (let roc = drop_bit bits prev_index; prev_seq = prev_index AND (M - 1);
                  v = (if prev_seq < HALF then (if HALF + prev_seq < seq then (roc - 1) AND ROC_MASK else roc)
                       else if seq + HALF < prev_seq then (roc + 1) AND ROC_MASK else roc)
              in if sint v < 0 then 0 else v * M + seq))"

definition extend_u16 :: "u64 option \<Rightarrow> u16 \<Rightarrow> u64" where
  "extend_u16 prev seq = extend_id 16 prev (ucast seq)"

definition extend_u32 :: "u64 option \<Rightarrow> u32 \<Rightarrow> u64" where
  "extend_u32 prev seq = extend_id 32 prev (ucast seq)"

text \<open>The same on natural numbers.\<close>

definition extend_roc :: "nat \<Rightarrow> nat \<Rightarrow> nat \<Rightarrow> nat" where
  "extend_roc bits p s =
     (let M = 2 ^ bits; H = 2 ^ (bits - 1); roc = p div M in
      if p mod M < H then (if H + p mod M < s then (if roc = 0 then 2 ^ (64 - bits) - 1 else roc - 1) else roc)
      else if s + H < p mod M then (roc + 1) mod 2 ^ (64 - bits) else roc)"

lemma unat_take_bit_word: "unat (take_bit b (w :: 'a :: len word)) = unat w mod 2 ^ b"
  by (simp only: unsigned_take_bit_eq take_bit_eq_mod [of b "unat w"])

lemma unat_drop_bit_word: "unat (drop_bit b (w :: 'a :: len word)) = unat w div 2 ^ b"
  by (simp only: unat_drop_bit_eq drop_bit_eq_div [of b "unat w"])

lemma and_low_bits: "(w :: u64) AND (2 ^ b - 1) = take_bit b w"
  by (simp only: take_bit_eq_mask mask_eq_exp_minus_1)

lemma drop_all_ones: "drop_bit b (- 1 :: u64) = mask (64 - b)"
  by (rule bit_word_eqI) (auto simp: bit_simps)

lemma unat_pow2: "b < LENGTH('a) \<Longrightarrow> unat (2 ^ b :: 'a :: len word) = 2 ^ b"
proof -
  assume b: "b < LENGTH('a)"
  then have "(2 :: nat) ^ b < 2 ^ LENGTH('a)" by (intro power_strict_increasing) simp_all
  then have "unat (of_nat (2 ^ b) :: 'a word) = 2 ^ b"
    using b by (simp only: unsigned_of_nat) (simp add: take_bit_nat_eq_self)
  then show ?thesis by simp
qed

lemma less_pow2_iff: "k < LENGTH('a) \<Longrightarrow> (v :: 'a :: len word) < 2 ^ k \<longleftrightarrow> take_bit k v = v"
proof -
  assume k: "k < LENGTH('a)"
  have "take_bit k v = v \<longleftrightarrow> unat v mod 2 ^ k = unat v" by (metis unat_take_bit_word unsigned_word_eqI)
  also have "\<dots> \<longleftrightarrow> unat v < 2 ^ k" by (metis mod_less mod_less_divisor zero_less_numeral zero_less_power)
  finally show ?thesis by (simp add: word_less_nat_alt unat_pow2 [OF k])
qed

lemma high_bits: "(v :: 'a :: len word) < 2 ^ k \<Longrightarrow> k < LENGTH('a) \<Longrightarrow> k \<le> j \<Longrightarrow> \<not> bit v j"
  by (metis bit_take_bit_iff leD less_pow2_iff)

lemma less_pow2I: "(\<And>j. k \<le> j \<Longrightarrow> \<not> bit (v :: 'a :: len word) j) \<Longrightarrow> k < LENGTH('a) \<Longrightarrow> v < 2 ^ k"
proof -
  assume v: "\<And>j. k \<le> j \<Longrightarrow> \<not> bit v j" and k: "k < LENGTH('a)"
  have "take_bit k v = v" by (rule bit_word_eqI) (metis bit_take_bit_iff leI v)
  with k show ?thesis by (simp add: less_pow2_iff)
qed

lemma half_pow2: "0 < b \<Longrightarrow> b < 64 \<Longrightarrow> unat (2 ^ b div 2 :: u64) = 2 ^ (b - 1)"
  by (cases b) (simp_all add: unat_div_distrib unat_pow2 del: power_Suc, simp)

lemma unat_sum: "unat (v :: u64) + unat w < 2 ^ 64 \<Longrightarrow> unat (v + w) = unat v + unat w"
  by (subst unat_add_lem [THEN iffD1]) simp_all

lemma not_negative: "unat (v :: u64) < 2 ^ 63 \<Longrightarrow> \<not> sint v < 0"
proof -
  assume "unat v < 2 ^ 63"
  then have "\<not> bit (unat v) 63" by (simp add: bit_iff_odd)
  then show ?thesis by (simp add: sint_uint signed_take_bit_negative_iff bit_unsigned_iff)
qed

lemma roc_steps:
  fixes p :: u64
  assumes b: "0 < b" "b \<le> 32"
  defines "roc \<equiv> drop_bit b p"
  shows "unat roc = unat p div 2 ^ b" "unat roc < 2 ^ (64 - b)"
    "unat ((roc - 1) AND drop_bit b (- 1)) = (if unat roc = 0 then 2 ^ (64 - b) - 1 else unat roc - 1)"
    "unat ((roc + 1) AND drop_bit b (- 1)) = (unat roc + 1) mod 2 ^ (64 - b)"
proof -
  show roc: "unat roc = unat p div 2 ^ b" by (simp only: roc_def unat_drop_bit_word)
  have "2 ^ b * 2 ^ (64 - b) = (2 ^ 64 :: nat)" using b by (simp flip: power_add)
  moreover have "unat p < 2 ^ 64" using unsigned_less [of p] by simp
  ultimately show bound: "unat roc < 2 ^ (64 - b)"
    unfolding roc by (intro less_mult_imp_div_less) (simp add: mult.commute)
  have m: "w AND drop_bit b (- 1) = take_bit (64 - b) w" for w :: u64
    by (simp only: drop_all_ones take_bit_eq_mask)
  have "(2 :: nat) ^ (64 - b) \<le> 2 ^ 63" using b(1) by (intro power_increasing) auto
  then have "unat roc + 1 < 2 ^ 64" using bound by simp
  then have "unat (roc + 1) = unat roc + 1" by (subst unat_sum) simp_all
  then show "unat ((roc + 1) AND drop_bit b (- 1)) = (unat roc + 1) mod 2 ^ (64 - b)"
    by (simp only: m unat_take_bit_word)
  show "unat ((roc - 1) AND drop_bit b (- 1)) = (if unat roc = 0 then 2 ^ (64 - b) - 1 else unat roc - 1)"
  proof (cases "unat roc = 0")
    case True
    then have "roc = 0" by (simp add: unat_eq_0)
    have "unat (mask (64 - b) :: u64) = 2 ^ (64 - b) - 1" using b
      by (simp add: mask_eq_exp_minus_1 unat_minus_one unat_pow2)
    with True \<open>roc = 0\<close> show ?thesis by (simp add: drop_all_ones)
  next
    case False
    then have "roc \<noteq> 0" by auto
    then have "unat (roc - 1) = unat roc - 1" by (rule unat_minus_one)
    with False bound show ?thesis by (simp only: m unat_take_bit_word) simp
  qed
qed

lemma extend_id_unat:
  assumes b: "0 < b" "b \<le> 32"
  shows "unat (extend_id b (Some p) seq) = extend_roc b (unat p) (unat seq mod 2 ^ b) * 2 ^ b + unat seq mod 2 ^ b"
    and "extend_roc b (unat p) (unat seq mod 2 ^ b) < 2 ^ (64 - b)"
proof -
  let ?s = "take_bit b seq" and ?q = "take_bit b p" and ?H = "2 ^ b div 2 :: u64"
  define roc where "roc = drop_bit b p"
  define v where "v = (if ?q < ?H then (if ?H + ?q < ?s then (roc - 1) AND drop_bit b (- 1) else roc)
    else if ?s + ?H < ?q then (roc + 1) AND drop_bit b (- 1) else roc)"
  note st = roc_steps [OF b, of p, folded roc_def]
  have b32: "(2 :: nat) ^ b \<le> 2 ^ 32" using b(2) by (intro power_increasing) auto
  have H: "unat ?H = 2 ^ (b - 1)" "(2 :: nat) ^ (b - 1) \<le> 2 ^ 32"
    using b power_increasing [of "b - 1" 32 "2 :: nat"] by (simp_all add: half_pow2)
  have s: "unat ?s = unat seq mod 2 ^ b" "unat ?q = unat p mod 2 ^ b" by (simp_all add: unat_take_bit_word)
  moreover have "unat seq mod 2 ^ b < 2 ^ b" "unat p mod 2 ^ b < 2 ^ b" by simp_all
  ultimately have small: "unat ?s < 2 ^ 32" "unat ?q < 2 ^ 32" using b32 by linarith+
  have sums: "unat (?H + ?q) = 2 ^ (b - 1) + unat ?q" "unat (?s + ?H) = unat ?s + 2 ^ (b - 1)"
    using H small by (simp_all add: unat_sum)
  have v: "unat v = extend_roc b (unat p) (unat seq mod 2 ^ b)"
    unfolding v_def extend_roc_def Let_def
    by (simp only: if_distrib [of unat] st(3,4) word_less_nat_alt sums H(1) s st(1) cong: if_cong)
  have p64: "(2 :: nat) ^ (64 - b) \<le> 2 ^ 63" using b(1) by (intro power_increasing) auto
  have "unat v < 2 ^ (64 - b)" unfolding v_def using st(2,3,4) by (auto simp: if_distrib [of unat])
  then show roc: "extend_roc b (unat p) (unat seq mod 2 ^ b) < 2 ^ (64 - b)" by (simp add: v)
  have "\<not> sint v < 0" using \<open>unat v < 2 ^ (64 - b)\<close> p64 by (intro not_negative) linarith
  then have e: "extend_id b (Some p) seq = v * 2 ^ b + ?s"
    unfolding extend_id_def Let_def option.case and_low_bits v_def roc_def by simp
  have "Suc (unat v) * 2 ^ b \<le> 2 ^ (64 - b) * 2 ^ b"
    using \<open>unat v < 2 ^ (64 - b)\<close> by (intro mult_le_mono1) simp
  also have "(2 :: nat) ^ (64 - b) * 2 ^ b = 2 ^ 64" using b by (simp flip: power_add)
  finally have top: "unat v * 2 ^ b + 2 ^ b \<le> 2 ^ 64" by simp
  have "unat (v * 2 ^ b) = unat v * 2 ^ b"
  proof -
    have "0 < (2 :: nat) ^ b" by simp
    then have "unat v * 2 ^ b < 2 ^ 64" using top by linarith
    then show ?thesis using b by (subst unat_mult_lem [THEN iffD1]) (simp_all add: unat_pow2)
  qed
  moreover have "unat v * 2 ^ b + unat ?s < 2 ^ 64" using top s(1) by (metis add_less_cancel_left mod_less_divisor order_less_le_trans zero_less_numeral zero_less_power)
  ultimately show "unat (extend_id b (Some p) seq)
      = extend_roc b (unat p) (unat seq mod 2 ^ b) * 2 ^ b + unat seq mod 2 ^ b"
    by (simp add: e unat_sum v s(1))
qed

section \<open>The nearest number\<close>

lemma extend_roc_near:
  assumes b: "0 < b" "b \<le> 32" and p: "2 ^ (b - 1) \<le> p" "p + 2 ^ (b - 1) < 2 ^ 64" and s: "s < 2 ^ b"
  shows "\<bar>int (extend_roc b p s * 2 ^ b + s) - int p\<bar> \<le> 2 ^ (b - 1)"
proof -
  define M H roc ps where "M = (2 :: nat) ^ b" and "H = (2 :: nat) ^ (b - 1)" and "roc = p div M" and "ps = p mod M"
  have MH: "M = 2 * H" using b(1) by (cases b) (simp_all add: M_def H_def)
  have P: "p = roc * M + ps" "ps < M"
    using div_mult_mod_eq [of p M] by (simp_all add: roc_def ps_def M_def)
  have sM: "s < M" using s by (simp add: M_def)
  have e: "extend_roc b p s = (if ps < H then (if H + ps < s then (if roc = 0 then 2 ^ (64 - b) - 1 else roc - 1) else roc)
      else if s + H < ps then (roc + 1) mod 2 ^ (64 - b) else roc)"
    by (simp add: extend_roc_def Let_def M_def H_def roc_def ps_def)
  have "\<bar>int (extend_roc b p s * M + s) - int p\<bar> \<le> int H"
  proof (cases "ps < H")
    case low: True
    show ?thesis
    proof (cases "H + ps < s")
      case True
      have "roc \<noteq> 0" using low p(1) P(1) by (intro notI) (simp add: H_def)
      then have "extend_roc b p s * M + M = roc * M" using True low by (cases roc) (simp_all add: e)
      with True low sM MH P(1) show ?thesis by linarith
    next
      case False
      then have "extend_roc b p s * M = roc * M" using low by (simp add: e)
      with False low sM MH P(1) show ?thesis by linarith
    qed
  next
    case high: False
    show ?thesis
    proof (cases "s + H < ps")
      case True
      have "(roc + 1) * M < 2 ^ 64" using p(2) P MH high by (simp add: H_def)
      also have "(2 :: nat) ^ 64 = 2 ^ (64 - b) * M" using b by (simp add: M_def flip: power_add)
      finally have "roc + 1 < 2 ^ (64 - b)" by (simp only: mult_less_cancel2)
      then have "extend_roc b p s * M = roc * M + M" using True high by (simp add: e)
      with True high sM MH P show ?thesis by linarith
    next
      case False
      then have "extend_roc b p s * M = roc * M" using high by (simp add: e)
      with False high sM MH P show ?thesis by linarith
    qed
  qed
  then show ?thesis by (simp add: M_def H_def)
qed

text \<open>Round the ends of the 64 bits the same is true of numbers that wrap.\<close>

lemma extend_roc_cyclic:
  assumes b: "0 < b" "b \<le> 32" and p: "p < 2 ^ 64" and s: "s < 2 ^ b"
  shows "\<exists>d. \<bar>d\<bar> \<le> 2 ^ (b - 1) \<and> int (extend_roc b p s * 2 ^ b + s) = (int p + d) mod 2 ^ 64"
proof -
  define M H R roc ps where "M = (2 :: nat) ^ b" and "H = (2 :: nat) ^ (b - 1)" and "R = (2 :: nat) ^ (64 - b)"
    and "roc = p div M" and "ps = p mod M"
  have MH: "M = 2 * H" "0 < H" using b(1) by (cases b) (simp_all add: M_def H_def)
  have RM: "R * M = 2 ^ 64" using b by (simp add: M_def R_def flip: power_add)
  have P: "p = roc * M + ps" "ps < M"
    using div_mult_mod_eq [of p M] by (simp_all add: roc_def ps_def M_def)
  have sM: "s < M" using s by (simp add: M_def)
  have "roc * M < R * M" using P p RM by linarith
  then have roc: "roc < R" by (simp only: mult_less_cancel2)
  have top: "k * M + s < 2 ^ 64" if "k < R" for k
  proof -
    have "Suc k * M \<le> R * M" using that by (intro mult_le_mono1) simp
    then show ?thesis using sM RM by simp
  qed
  have e: "extend_roc b p s = (if ps < H then (if H + ps < s then (if roc = 0 then R - 1 else roc - 1) else roc)
      else if s + H < ps then (roc + 1) mod R else roc)"
    by (simp add: extend_roc_def Let_def M_def H_def R_def roc_def ps_def)
  have same: "\<exists>d. \<bar>d\<bar> \<le> int H \<and> int (k * M + s) = (int p + d) mod 2 ^ 64"
    if "k < R" "\<bar>int (k * M + s) - int p\<bar> \<le> int H" for k
  proof (intro exI conjI)
    show "\<bar>int (k * M + s) - int p\<bar> \<le> int H" by (rule that(2))
    have "int (k * M + s) < int (2 ^ 64)" using top [OF that(1)] by (rule of_nat_less_iff [THEN iffD2])
    then show "int (k * M + s) = (int p + (int (k * M + s) - int p)) mod 2 ^ 64" by simp
  qed
  consider (down) "ps < H" "H + ps < s" "roc = 0" | (up) "\<not> ps < H" "s + H < ps" "Suc roc = R"
    | (before) "ps < H" "H + ps < s" "roc \<noteq> 0" | (after) "\<not> ps < H" "s + H < ps" "Suc roc < R"
    | (stay) "extend_roc b p s = roc" "ps < H \<longrightarrow> \<not> H + ps < s" "\<not> ps < H \<longrightarrow> \<not> s + H < ps"
  proof -
    have "Suc roc = R \<or> Suc roc < R" using roc by linarith
    then show ?thesis using that e by (cases "ps < H"; cases "H + ps < s"; cases "s + H < ps"; cases "roc = 0") auto
  qed
  then have "\<exists>d. \<bar>d\<bar> \<le> int H \<and> int (extend_roc b p s * M + s) = (int p + d) mod 2 ^ 64"
  proof cases
    case down
    have "(R - 1) * M = 2 ^ 64 - M" using RM by (simp add: diff_mult_distrib)
    then have "extend_roc b p s * M + s = 2 ^ 64 - M + s" using down by (simp add: e)
    moreover have "M \<le> 2 ^ 64" using RM roc by (cases R) auto
    ultimately have v: "int (extend_roc b p s * M + s) = 2 ^ 64 + (int s - int M)" by (simp add: of_nat_diff)
    have "int s - int M = (int p + (int s - int M - int ps))" using down P(1) by simp
    moreover have "(int s - int M) mod 2 ^ 64 = (2 ^ 64 + (int s - int M)) mod 2 ^ 64" by (simp only: mod_add_self1)
    moreover have "\<dots> = 2 ^ 64 + (int s - int M)" using sM \<open>M \<le> 2 ^ 64\<close> by (intro mod_pos_pos_trivial) auto
    ultimately have "int (extend_roc b p s * M + s) = (int p + (int s - int M - int ps)) mod 2 ^ 64" by (simp only: v)
    then show ?thesis using down sM MH by (intro exI [of _ "int s - int M - int ps"]) auto
  next
    case up
    have "extend_roc b p s = 0" using up by (simp add: e)
    moreover have "int p + (int s + int M - int ps) = 2 ^ 64 + int s"
    proof -
      have "Suc roc * M = 2 ^ 64" using RM up(3) by simp
      then have "int (roc * M) + int M = 2 ^ 64" by (metis add.commute mult_Suc of_nat_add of_nat_numeral of_nat_power)
      then show ?thesis using P(1) by simp
    qed
    moreover have "int s < 2 ^ 64" using top [of 0] roc by simp
    ultimately have "int (extend_roc b p s * M + s) = (int p + (int s + int M - int ps)) mod 2 ^ 64"
      by (simp only: mod_add_self1 mod_pos_pos_trivial)
    then show ?thesis using up P(2) sM MH by (intro exI [of _ "int s + int M - int ps"]) auto
  next
    case before
    then have "extend_roc b p s * M + M = roc * M" by (cases roc) (simp_all add: e)
    then have "\<bar>int (extend_roc b p s * M + s) - int p\<bar> \<le> int H" using before sM MH P by linarith
    then show ?thesis using before roc by (intro same) (simp_all add: e)
  next
    case after
    then have "extend_roc b p s * M = roc * M + M" by (simp add: e)
    then have "\<bar>int (extend_roc b p s * M + s) - int p\<bar> \<le> int H" using after sM MH P by linarith
    then show ?thesis using after by (intro same) (simp_all add: e)
  next
    case stay
    then have "extend_roc b p s * M = roc * M" by simp
    then have "\<bar>int (extend_roc b p s * M + s) - int p\<bar> \<le> int H" using stay(2,3) sM MH P by linarith
    then show ?thesis using stay(1) roc by (intro same) simp_all
  qed
  then show ?thesis by (simp add: M_def H_def)
qed

text \<open>C18. Extending a sequence number of the wire by the previous one. The result always has the bits of the wire and differs
  from the previous number by at most half a cycle, counted round the 64 bits. As long as the previous number is half a
  cycle away from 0 and from \<open>2 ^ 64\<close>, so that nothing wraps there, no number with these bits is nearer to it.
\<close>

theorem extend_id_nearest:
  assumes "0 < b" "b \<le> 32"
  shows "unat (extend_id b (Some p) seq) mod 2 ^ b = unat seq mod 2 ^ b
    \<and> (\<exists>d. \<bar>d\<bar> \<le> 2 ^ (b - 1) \<and> int (unat (extend_id b (Some p) seq)) = (int (unat p) + d) mod 2 ^ 64)
    \<and> (2 ^ (b - 1) \<le> unat p \<longrightarrow> unat p + 2 ^ (b - 1) < 2 ^ 64 \<longrightarrow>
        (\<forall>x. x mod 2 ^ b = unat seq mod 2 ^ b \<longrightarrow>
           \<bar>int (unat (extend_id b (Some p) seq)) - int (unat p)\<bar> \<le> \<bar>int x - int (unat p)\<bar>))"
proof (intro conjI impI allI)
  define s M H v where "s = unat seq mod 2 ^ b" and "M = (2 :: nat) ^ b" and "H = (2 :: nat) ^ (b - 1)"
    and "v = extend_roc b (unat p) s"
  have MH: "M = 2 * H" using assms(1) by (cases b) (simp_all add: M_def H_def)
  have s: "s < M" by (simp add: s_def M_def)
  have r: "unat (extend_id b (Some p) seq) = v * M + s"
    using extend_id_unat(1) [OF assms(1,2)] by (simp add: s_def M_def v_def)
  show "unat (extend_id b (Some p) seq) mod 2 ^ b = unat seq mod 2 ^ b" unfolding r using s by (simp add: s_def M_def)
  have "unat p < 2 ^ 64" using unsigned_less [of p] by simp
  then show "\<exists>d. \<bar>d\<bar> \<le> 2 ^ (b - 1) \<and> int (unat (extend_id b (Some p) seq)) = (int (unat p) + d) mod 2 ^ 64"
    using extend_roc_cyclic [OF assms, of "unat p" s] s unfolding r by (simp add: v_def M_def)
  fix x
  assume p: "2 ^ (b - 1) \<le> unat p" "unat p + 2 ^ (b - 1) < 2 ^ 64" and "x mod 2 ^ b = unat seq mod 2 ^ b"
  then have x: "x mod M = s" by (simp add: M_def s_def)
  have near: "\<bar>int (v * M + s) - int (unat p)\<bar> \<le> int H"
    using extend_roc_near [OF assms p, of s] s by (simp add: v_def M_def H_def)
  obtain k where k: "x = k * M + s" using x div_mult_mod_eq [of x M] by metis
  consider "k = v" | "k < v" | "v < k" by linarith
  then have "\<bar>int (v * M + s) - int (unat p)\<bar> \<le> \<bar>int x - int (unat p)\<bar>"
  proof cases
    case 2
    then have "Suc k * M \<le> v * M" by (intro mult_le_mono1) simp
    then have "int (k * M) + int M \<le> int (v * M)"
      by (metis add.commute mult_Suc of_nat_add of_nat_mono)
    then show ?thesis using k near MH by linarith
  next
    case 3
    then have "Suc v * M \<le> k * M" by (intro mult_le_mono1) simp
    then have "int (v * M) + int M \<le> int (k * M)"
      by (metis add.commute mult_Suc of_nat_add of_nat_mono)
    then show ?thesis using k near MH by linarith
  qed (simp add: k)
  then show "\<bar>int (unat (extend_id b (Some p) seq)) - int (unat p)\<bar> \<le> \<bar>int x - int (unat p)\<bar>" by (simp only: r)
qed

theorem extend_id_nearest_witness:
  "unat (extend_id 16 (Some 131070) 3) mod 2 ^ 16 = 3
    \<and> \<bar>int (unat (extend_id 16 (Some 131070) 3)) - 131070\<bar> \<le> \<bar>int 65539 - 131070\<bar>"
proof -
  have "\<bar>int (unat (extend_id 16 (Some 131070) 3)) - int (unat (131070 :: u64))\<bar>
      \<le> \<bar>int 65539 - int (unat (131070 :: u64))\<bar>"
    by (rule extend_id_nearest [THEN conjunct2, THEN conjunct2, rule_format]) simp_all
  then show ?thesis using extend_id_nearest [THEN conjunct1, of 16 131070 3] by simp
qed

text \<open>A number less than half a cycle ahead of the previous one is found again from its bits.\<close>

lemma extend_forward:
  assumes b: "0 < b" "b \<le> 32" and q: "unat p \<le> q" "q - unat p < 2 ^ (b - 1)" "q < 2 ^ 63" "unat seq mod 2 ^ b = q mod 2 ^ b"
  shows "unat (extend_id b (Some p) seq) = q"
proof -
  define M H R roc ps g where "M = (2 :: nat) ^ b" and "H = (2 :: nat) ^ (b - 1)" and "R = (2 :: nat) ^ (64 - b)"
    and "roc = unat p div M" and "ps = unat p mod M" and "g = q - unat p"
  have MH: "M = 2 * H" "0 < H" using b(1) by (cases b) (simp_all add: M_def H_def)
  have RM: "R * M = 2 ^ 64" using b by (simp add: M_def R_def flip: power_add)
  have P: "unat p = roc * M + ps" "ps < M"
    using div_mult_mod_eq [of "unat p" M] by (simp_all add: roc_def ps_def M_def)
  have Q: "q = roc * M + ps + g" "g < H" using q(1,2) P(1) by (simp_all add: g_def H_def)
  have r: "unat (extend_id b (Some p) seq) = extend_roc b (unat p) (q mod M) * M + q mod M"
    using extend_id_unat(1) [OF b, of p seq] q(4) by (simp add: M_def)
  have e: "extend_roc b (unat p) s = (if ps < H then (if H + ps < s then (if roc = 0 then R - 1 else roc - 1) else roc)
      else if s + H < ps then (roc + 1) mod R else roc)" for s
    by (simp add: extend_roc_def Let_def M_def H_def R_def roc_def ps_def)
  show ?thesis
  proof (cases "ps + g < M")
    case True
    have "q = roc * M + (ps + g)" using Q(1) by simp
    then have "q mod M = ps + g" using True by simp
    then show ?thesis using Q unfolding r by (simp add: e)
  next
    case False
    have "q = (roc + 1) * M + (ps + g - M)" "ps + g - M < M" using Q(1) False P(2) Q(2) MH by simp_all
    then have m: "q mod M = ps + g - M" by (metis mod_less mod_mult_self3)
    have "(roc + 1) * M \<le> q" using \<open>q = (roc + 1) * M + (ps + g - M)\<close> by simp
    moreover have "q < R * M" using q(3) by (simp add: RM)
    ultimately have "(roc + 1) * M < R * M" by linarith
    then have "roc + 1 < R" by (simp only: mult_less_cancel2)
    then have "extend_roc b (unat p) (q mod M) = roc + 1" using False P(2) Q(2) MH(1) unfolding e m by auto
    then show ?thesis using \<open>q = (roc + 1) * M + (ps + g - M)\<close> m by (simp only: r)
  qed
qed

section \<open>NACK entries\<close>

text \<open>
  \<open>NackEntryIterator\<close>: the packet of the entry itself, then those after it whose bit of \<open>blp\<close> is set. The counter
  is the field \<open>self.1\<close>.
\<close>

function nack_scan :: "nack_entry \<Rightarrow> nat \<Rightarrow> (u16 \<times> nat) option" where
  "nack_scan e c =
     (if 17 \<le> c then None
      else if bit (ne_blp e) (c - 1) then Some (ne_pid e + of_nat c, c + 1)
      else nack_scan e (c + 1))"
  by pat_completeness auto
termination by (relation "measure (\<lambda>(e, c). 17 - c)") auto

declare nack_scan.simps [simp del]

definition nack_next :: "nack_entry \<Rightarrow> u64 \<Rightarrow> nat \<Rightarrow> (u64 \<times> nat) option" where
  "nack_next e seq_no c =
     (case (if c = 0 then Some (ne_pid e, 1) else nack_scan e c) of
        None \<Rightarrow> None
      | Some (seq_16, c) \<Rightarrow> Some (extend_u16 (Some seq_no) seq_16, c))"

lemma nack_scan_moves: "nack_scan e c = Some (x, c') \<Longrightarrow> c < c' \<and> c' \<le> 17"
proof (induction e c rule: nack_scan.induct)
  case (1 e c)
  from "1.prems" show ?case
    using "1.IH" by (subst (asm) nack_scan.simps) (fastforce split: if_splits)
qed

lemma nack_next_moves: "nack_next e s c = Some (x, c') \<Longrightarrow> c < c' \<and> c' \<le> 17"
  using nack_scan_moves by (auto simp: nack_next_def split: option.splits if_splits)

function nack_into_iter :: "nack_entry \<Rightarrow> u64 \<Rightarrow> nat \<Rightarrow> u64 list" where
  "nack_into_iter e seq_no c =
     (case nack_next e seq_no c of None \<Rightarrow> [] | Some (x, c') \<Rightarrow> x # nack_into_iter e seq_no c')"
  by pat_completeness auto
termination by (relation "measure (\<lambda>(e, s, c). 18 - c)") (use nack_next_moves in fastforce)+

declare nack_into_iter.simps [simp del]

lemma nack_into_iter_from:
  "0 < c \<Longrightarrow> nack_into_iter e s c
     = map (\<lambda>i. extend_u16 (Some s) (ne_pid e + of_nat i)) (filter (\<lambda>i. bit (ne_blp e) (i - 1)) [c..<17])"
proof (induction "17 - c" arbitrary: c rule: less_induct)
  case less
  show ?case
  proof (cases "17 \<le> c")
    case True
    then show ?thesis using less.prems
      by (subst nack_into_iter.simps) (simp add: nack_next_def nack_scan.simps)
  next
    case False
    have IH: "nack_into_iter e s (c + 1)
        = map (\<lambda>i. extend_u16 (Some s) (ne_pid e + of_nat i)) (filter (\<lambda>i. bit (ne_blp e) (i - 1)) [c + 1..<17])"
      using False by (intro less.hyps) simp_all
    have u: "[c..<17] = c # [c + 1..<17]" using False by (simp add: upt_conv_Cons)
    show ?thesis
    proof (cases "bit (ne_blp e) (c - 1)")
      case True
      then have "nack_next e s c = Some (extend_u16 (Some s) (ne_pid e + of_nat c), c + 1)"
        using False less.prems by (simp add: nack_next_def nack_scan.simps [of e c])
      then show ?thesis using True IH by (subst nack_into_iter.simps) (simp add: u)
    next
      case no: False
      then have "nack_next e s c = nack_next e s (c + 1)"
        using False less.prems by (simp add: nack_next_def nack_scan.simps [of e c])
      then have "nack_into_iter e s c = nack_into_iter e s (c + 1)"
        by (subst (1 2) nack_into_iter.simps) (simp only:)
      then show ?thesis using no IH by (simp add: u)
    qed
  qed
qed

text \<open>A NACK entry asks for the packet it names and for the packets whose bit is set in the mask, the lowest bit
  standing for the packet after the named one.
\<close>

theorem nack_entry_lists:
  "nack_into_iter e s 0 = map (extend_u16 (Some s))
     (ne_pid e # map (\<lambda>i. ne_pid e + of_nat (i + 1)) (filter (bit (ne_blp e)) [0..<16]))"
proof -
  have "[1..<17] = map Suc [0..<16]" by (simp add: map_Suc_upt)
  then have "filter (\<lambda>i. bit (ne_blp e) (i - 1)) [1..<17] = map Suc (filter (bit (ne_blp e)) [0..<16])"
    by (simp add: filter_map o_def)
  then have "nack_into_iter e s 1 = map (\<lambda>i. extend_u16 (Some s) (ne_pid e + of_nat (i + 1))) (filter (bit (ne_blp e)) [0..<16])"
    by (simp add: nack_into_iter_from o_def)
  then show ?thesis by (subst nack_into_iter.simps) (simp add: nack_next_def o_def)
qed

end
