(* ===== verification/Twcc.thy ===== *)
theory Twcc imports SeqNo begin

text \<open>
  The wire format of the transport wide congestion control feedback, \<open>rtp/rtcp/twcc.rs\<close> of the patched
  str0m: which packets of a range arrived (run lengths and status vectors), and when (deltas of 250
  microseconds, small or large).
\<close>

section \<open>Statuses, chunks and deltas\<close>

datatype packet_status = NotReceived | ReceivedSmallDelta | ReceivedLargeOrNegativeDelta | UnknownStatus

fun status_to_u16 :: "packet_status \<Rightarrow> u16" where
  "status_to_u16 NotReceived = 0"
| "status_to_u16 ReceivedSmallDelta = 1"
| "status_to_u16 ReceivedLargeOrNegativeDelta = 2"
| "status_to_u16 UnknownStatus = 3"

definition status_from :: "u8 \<Rightarrow> packet_status" where
  "status_from v = (if v = 0 then NotReceived else if v = 1 then ReceivedSmallDelta
     else if v = 2 then ReceivedLargeOrNegativeDelta else UnknownStatus)"

datatype delta = Small u8 | Large "16 word"

fun delta_bytes :: "delta \<Rightarrow> bytes" where
  "delta_bytes (Small v) = [v]"
| "delta_bytes (Large v) = to_be16 v"

fun delta_byte_len :: "delta \<Rightarrow> nat" where
  "delta_byte_len (Small v) = 1"
| "delta_byte_len (Large v) = 2"

datatype packet_chunk = Run packet_status u16 | VectorSingle u16 u16 | VectorDouble u16 u16

text \<open>The 16 bits of a chunk; the asserts of \<open>write_to\<close> are the \<open>None\<close> branches.\<close>

fun chunk_word :: "packet_chunk \<Rightarrow> u16 option" where
  "chunk_word (Run s n) = (if n \<le> 8192 then Some (push_bit 13 (status_to_u16 s) OR n) else None)"
| "chunk_word (VectorSingle n fill) = (if fill = 14 \<and> n \<le> 16384 then Some (push_bit 15 1 OR n) else None)"
| "chunk_word (VectorDouble n fill) =
     (if fill = 7 \<and> n \<le> 16384 then Some (push_bit 15 1 OR push_bit 14 1 OR n) else None)"

fun max_possible_status_count :: "packet_chunk \<Rightarrow> nat" where
  "max_possible_status_count (Run s n) = unat n"
| "max_possible_status_count (VectorSingle n fill) = 14"
| "max_possible_status_count (VectorDouble n fill) = 7"

definition chunk_from_word :: "u16 \<Rightarrow> packet_chunk" where
  "chunk_from_word x =
     (if 0 < x AND 0x8000 then
        (let n = x AND 0x3FFF in if 0 < x AND 0x4000 then VectorDouble n 7 else VectorSingle n 14)
      else Run (status_from (ucast (drop_bit 13 x))) (x AND 0x1FFF))"

definition chunk_try_from :: "bytes \<Rightarrow> packet_chunk res" where
  "chunk_try_from buf =
     (if length buf < 2 then err ''Less than 2 bytes for PacketChunk''
      else do { x \<leftarrow> u16_at buf 0; ok (chunk_from_word x) })"

section \<open>The packet\<close>

record twcc =
  tw_sender_ssrc :: u32
  tw_ssrc :: u32
  tw_base_seq :: u16
  tw_status_count :: u16
  tw_reference_time :: u32
  tw_feedback_count :: u8
  tw_chunks :: "packet_chunk list"
  tw_delta :: "delta list"

definition chunks_byte_len :: "twcc \<Rightarrow> nat" where
  "chunks_byte_len p = length (tw_chunks p) * 2"

definition deltas_byte_len :: "twcc \<Rightarrow> nat" where
  "deltas_byte_len p = sum_list (map delta_byte_len (tw_delta p))"

text \<open>The assertion of \<open>length_words\<close>, that the padded length is a multiple of four, always holds.\<close>

definition twcc_length_words :: "twcc \<Rightarrow> nat" where
  "twcc_length_words p =
     (let total = chunks_byte_len p + deltas_byte_len p;
          pad = 4 - total mod 4;
          total = (if pad < 4 then total + pad else total)
      in 5 + total div 4)"

definition twcc_header :: "twcc \<Rightarrow> rtcp_header" where
  "twcc_header p = \<lparr>h_type = TransportLayerFeedbackT, h_feedback = TransportFeedback TransportWideT,
     h_words_less_one = of_nat (twcc_length_words p - 1)\<rparr>"

fun chunk_words :: "packet_chunk list \<Rightarrow> bytes option" where
  "chunk_words [] = Some []"
| "chunk_words (c # cs) = do { x \<leftarrow> chunk_word c; xs \<leftarrow> chunk_words cs; Some (to_be16 x @ xs) }"

definition twcc_fields :: "twcc \<Rightarrow> bytes" where
  "twcc_fields p = to_be32 (tw_sender_ssrc p) @ to_be32 (tw_ssrc p) @ to_be16 (tw_base_seq p)
     @ to_be16 (tw_status_count p) @ drop 1 (to_be32 (tw_reference_time p)) @ [tw_feedback_count p]"

definition twcc_body :: "twcc \<Rightarrow> bytes option" where
  "twcc_body p = do {
     cs \<leftarrow> chunk_words (tw_chunks p);
     Some (twcc_fields p @ cs @ concat (map delta_bytes (tw_delta p)))
   }"

text \<open>The last octet of the padding tells its length, and the padding bit of the header is set.\<close>

definition twcc_write_to :: "twcc \<Rightarrow> bytes \<Rightarrow> (bytes \<times> nat) option" where
  "twcc_write_to p buf = do {
     hs \<leftarrow> header_bytes (twcc_header p);
     body \<leftarrow> twcc_body p;
     let total = length hs + length body;
     buf \<leftarrow> emit (hs @ body) buf;
     let pad = 4 - total mod 4;
     if pad < 4 then do {
       buf \<leftarrow> copy_in buf total (replicate (pad - 1) 0 @ [of_nat pad]);
       b0 \<leftarrow> idx buf 0;
       buf \<leftarrow> put buf 0 (b0 OR 0x20);
       Some (buf, total + pad)
     } else Some (buf, total)
   }"

section \<open>Parsing\<close>

text \<open>Chunks are read while packets of the announced number are left.\<close>

function chunks_loop :: "int \<Rightarrow> bytes \<Rightarrow> (packet_chunk list \<times> bytes) res" where
  "chunks_loop todo buf =
     (if todo \<le> 0 then ok ([], buf)
      else case chunk_try_from buf of
        None \<Rightarrow> None
      | Some (Inl e) \<Rightarrow> err e
      | Some (Inr chunk) \<Rightarrow>
          and_then (chunks_loop (todo - int (max_possible_status_count chunk)) (drop 2 buf)) (\<lambda>(cs, rest).
            ok (chunk # cs, rest)))"
  by pat_completeness auto
termination
  by (relation "measure (\<lambda>(todo, buf). length buf)") (auto simp: chunk_try_from_def split: if_splits)

declare chunks_loop.simps [simp del]

definition read_delta_small :: "bytes \<Rightarrow> nat \<Rightarrow> delta list res" where
  "read_delta_small buf n =
     (if length buf < n then err ''Not enough buf for small deltas'' else ok (map Small (take n buf)))"

fun large_deltas :: "nat \<Rightarrow> bytes \<Rightarrow> delta list" where
  "large_deltas (Suc n) (a # b # buf) = Large (from_be16 a b) # large_deltas n buf"
| "large_deltas _ _ = []"

definition read_delta_large :: "bytes \<Rightarrow> nat \<Rightarrow> delta list res" where
  "read_delta_large buf n =
     (if length buf < n * 2 then err ''Not enough buf for large deltas'' else ok (large_deltas n buf))"

definition count_ones :: "u16 \<Rightarrow> nat" where
  "count_ones v = length (filter (bit v) [0..<16])"

text \<open>The symbols of a vector chunk, in the order of the packets.\<close>

definition double_symbols :: "u16 \<Rightarrow> packet_status list" where
  "double_symbols v = map (\<lambda>n. status_from (ucast (drop_bit (12 - n) v AND 3))) [0, 2, 4, 6, 8, 10, 12]"

fun symbol_deltas :: "packet_status list \<Rightarrow> bytes \<Rightarrow> (delta list \<times> bytes) res" where
  "symbol_deltas [] buf = ok ([], buf)"
| "symbol_deltas (ReceivedSmallDelta # ss) buf =
     and_then (read_delta_small buf 1) (\<lambda>ds. and_then (symbol_deltas ss (drop 1 buf)) (\<lambda>(es, rest). ok (ds @ es, rest)))"
| "symbol_deltas (ReceivedLargeOrNegativeDelta # ss) buf =
     and_then (read_delta_large buf 1) (\<lambda>ds. and_then (symbol_deltas ss (drop 2 buf)) (\<lambda>(es, rest). ok (ds @ es, rest)))"
| "symbol_deltas (_ # ss) buf = symbol_deltas ss buf"

text \<open>After a run of large deltas the buffer moves on by the number of deltas, not of octets.\<close>

fun chunk_deltas :: "packet_chunk \<Rightarrow> bytes \<Rightarrow> (delta list \<times> bytes) res" where
  "chunk_deltas (Run ReceivedSmallDelta n) buf =
     and_then (read_delta_small buf (unat n)) (\<lambda>ds. ok (ds, drop (unat n) buf))"
| "chunk_deltas (Run ReceivedLargeOrNegativeDelta n) buf =
     and_then (read_delta_large buf (unat n)) (\<lambda>ds. ok (ds, drop (unat n) buf))"
| "chunk_deltas (Run _ n) buf = ok ([], buf)"
| "chunk_deltas (VectorSingle v _) buf =
     and_then (read_delta_small buf (count_ones v)) (\<lambda>ds. ok (ds, drop (count_ones v) buf))"
| "chunk_deltas (VectorDouble v _) buf = symbol_deltas (double_symbols v) buf"

fun deltas_loop :: "packet_chunk list \<Rightarrow> bytes \<Rightarrow> delta list res" where
  "deltas_loop [] buf = ok []"
| "deltas_loop (c # cs) buf =
     and_then (chunk_deltas c buf) (\<lambda>(ds, rest). and_then (deltas_loop cs rest) (\<lambda>es. ok (ds @ es)))"

definition twcc_try_from :: "bytes \<Rightarrow> twcc res" where
  "twcc_try_from buf =
     (if length buf < 16 then err ''Less than 16 bytes for start of Twcc''
      else do {
        sender_ssrc \<leftarrow> u32_at buf 0;
        ssrc \<leftarrow> u32_at buf 4;
        base_seq \<leftarrow> u16_at buf 8;
        status_count \<leftarrow> u16_at buf 10;
        b12 \<leftarrow> idx buf 12; b13 \<leftarrow> idx buf 13; b14 \<leftarrow> idx buf 14;
        let reference_time = from_be32 0 b12 b13 b14;
        feedback_count \<leftarrow> idx buf 15;
        rest \<leftarrow> slice buf 16 (length buf);
        and_then (chunks_loop (int (unat status_count)) rest) (\<lambda>(chunks, rest).
          and_then (deltas_loop chunks rest) (\<lambda>delta.
            ok \<lparr>tw_sender_ssrc = sender_ssrc, tw_ssrc = ssrc, tw_base_seq = base_seq, tw_status_count = status_count,
                tw_reference_time = reference_time, tw_feedback_count = feedback_count, tw_chunks = chunks, tw_delta = delta\<rparr>))
      })"

section \<open>What a chunk says\<close>

definition single_symbols :: "u16 \<Rightarrow> packet_status list" where
  "single_symbols v = map (\<lambda>i. if bit v (13 - i) then ReceivedSmallDelta else NotReceived) [0..<14]"

fun chunk_symbols :: "packet_chunk \<Rightarrow> packet_status list" where
  "chunk_symbols (Run s n) = replicate (unat n) s"
| "chunk_symbols (VectorSingle v _) = single_symbols v"
| "chunk_symbols (VectorDouble v _) = double_symbols v"

fun received :: "packet_status \<Rightarrow> bool" where
  "received ReceivedSmallDelta = True"
| "received ReceivedLargeOrNegativeDelta = True"
| "received _ = False"

fun delta_status :: "delta \<Rightarrow> packet_status" where
  "delta_status (Small v) = ReceivedSmallDelta"
| "delta_status (Large v) = ReceivedLargeOrNegativeDelta"

fun chunk_ok :: "packet_chunk \<Rightarrow> bool" where
  "chunk_ok (Run s n) = (n < 8192)"
| "chunk_ok (VectorSingle v fill) = (fill = 14 \<and> v < 16384)"
| "chunk_ok (VectorDouble v fill) = (fill = 7 \<and> v < 16384)"

lemma length_chunk_symbols: "length (chunk_symbols c) = max_possible_status_count c"
  by (cases c) (simp_all add: single_symbols_def double_symbols_def)

lemma chunk_bits:
  "bit (0x8000 :: u16) j \<longleftrightarrow> j = 15" "bit (0x4000 :: u16) j \<longleftrightarrow> j = 14"
  "bit (0x3FFF :: u16) j \<longleftrightarrow> j < 14" "bit (0x1FFF :: u16) j \<longleftrightarrow> j < 13"
proof -
  have "(0x8000 :: u16) = 2 ^ 15" "(0x4000 :: u16) = 2 ^ 14" by simp_all
  then show "bit (0x8000 :: u16) j \<longleftrightarrow> j = 15" "bit (0x4000 :: u16) j \<longleftrightarrow> j = 14"
    by (auto simp only: bit_exp_iff) simp_all
  have "(0x3FFF :: u16) = mask 14" "(0x1FFF :: u16) = mask 13" by (simp_all add: mask_eq_exp_minus_1)
  then show "bit (0x3FFF :: u16) j \<longleftrightarrow> j < 14" "bit (0x1FFF :: u16) j \<longleftrightarrow> j < 13"
    by (auto simp only: bit_mask_iff) simp_all
qed

lemma chunk_kind_bits: "0 < x AND (0x8000 :: u16) \<longleftrightarrow> bit x 15" "0 < x AND (0x4000 :: u16) \<longleftrightarrow> bit x 14"
  using and_exp_eq_0_iff_not_bit [of x 15] and_exp_eq_0_iff_not_bit [of x 14]
  by (simp_all add: word_neq_0_conv [symmetric])

lemma bit_status: "bit (status_to_u16 s) j \<Longrightarrow> j < 2"
proof (rule ccontr)
  assume "bit (status_to_u16 s) j" "\<not> j < 2"
  moreover have "status_to_u16 s < 2 ^ 2" by (cases s) simp_all
  ultimately show False using high_bits [of "status_to_u16 s" 2 j] by simp
qed

lemma status_field: "status_from (ucast (drop_bit 13 (push_bit 13 (status_to_u16 s)))) = s"
  by (cases s) (simp_all add: status_from_def)

lemma low_field:
  assumes "\<And>j. k \<le> j \<Longrightarrow> \<not> bit v j" "\<And>j. j < k \<Longrightarrow> \<not> bit hi j" "m = mask k"
  shows "(hi OR v) AND m = (v :: u16)"
proof (rule bit_word_eqI)
  fix j :: nat assume "j < LENGTH(16)"
  then show "bit ((hi OR v) AND m) j = bit v j"
    unfolding assms(3) bit_and_iff bit_or_iff bit_mask_iff
    using assms(1) [of j] assms(2) [of j] by (cases "j < k") auto
qed

lemma field_masks: "0x1FFF = (mask 13 :: u16)" "0x3FFF = (mask 14 :: u16)"
  by (simp_all add: mask_eq_exp_minus_1)

lemma chunk_word_ok:
  assumes "chunk_ok c"
  obtains x where "chunk_word c = Some x" "chunk_from_word x = c"
proof (cases c)
  case (Run s n)
  then have n: "n < 2 ^ 13" "n \<le> 8192" using assms by (simp_all add: less_imp_le)
  let ?x = "push_bit 13 (status_to_u16 s) OR n"
  have hb: "\<not> bit n j" if "13 \<le> j" for j using high_bits [OF n(1) _ that] by simp
  have "\<not> bit ?x 15" using hb [of 15] bit_status [of s 2] by (auto simp: bit_simps)
  moreover have "drop_bit 13 ?x = drop_bit 13 (push_bit 13 (status_to_u16 s))"
    by (rule bit_word_eqI) (auto simp: bit_simps hb)
  moreover have "?x AND 0x1FFF = n"
    by (rule low_field [OF hb _ field_masks(1)]) (auto simp: bit_simps)
  ultimately have "chunk_from_word ?x = c"
    by (simp add: chunk_from_word_def chunk_kind_bits status_field Run del: drop_bit_or)
  with n(2) Run that show ?thesis by simp
next
  case (VectorSingle v fill)
  then have v: "v < 2 ^ 14" "v \<le> 16384" "fill = 14" using assms by (simp_all add: less_imp_le)
  let ?x = "push_bit 15 1 OR v"
  have hb: "\<not> bit v j" if "14 \<le> j" for j using high_bits [OF v(1) _ that] by simp
  have "bit ?x 15" "\<not> bit ?x 14" using hb [of 14] by (auto simp: bit_simps)
  moreover have "?x AND 0x3FFF = v"
    by (rule low_field [OF hb _ field_masks(2)]) (simp_all only: bit_or_iff bit_push_bit_iff, simp_all)
  ultimately have "chunk_from_word ?x = c"
    by (simp add: chunk_from_word_def chunk_kind_bits VectorSingle v(3) Let_def)
  with v VectorSingle that show ?thesis by simp
next
  case (VectorDouble v fill)
  then have v: "v < 2 ^ 14" "v \<le> 16384" "fill = 7" using assms by (simp_all add: less_imp_le)
  let ?x = "(push_bit 15 1 OR push_bit 14 1) OR v"
  have hb: "\<not> bit v j" if "14 \<le> j" for j using high_bits [OF v(1) _ that] by simp
  have "bit ?x 15" "bit ?x 14" by (auto simp: bit_simps)
  moreover have "?x AND 0x3FFF = v"
    by (rule low_field [OF hb _ field_masks(2)]) (simp_all only: bit_or_iff bit_push_bit_iff, simp_all)
  ultimately have "chunk_from_word ?x = c"
    by (simp add: chunk_from_word_def chunk_kind_bits VectorDouble v(3) Let_def)
  moreover have "chunk_word c = Some ?x"
    unfolding VectorDouble chunk_word.simps or.assoc using v by simp
  ultimately show ?thesis using that by blast
qed

section \<open>Round trip\<close>

text \<open>The chunks that account for the announced number of packets, and no more.\<close>

fun accounts :: "int \<Rightarrow> packet_chunk list \<Rightarrow> bool" where
  "accounts todo [] \<longleftrightarrow> todo \<le> 0"
| "accounts todo (c # cs) \<longleftrightarrow> 0 < todo \<and> accounts (todo - int (max_possible_status_count c)) cs"

lemma chunks_loop_written:
  "list_all chunk_ok cs \<Longrightarrow> accounts todo cs \<Longrightarrow>
     \<exists>bs. chunk_words cs = Some bs \<and> length bs = length cs * 2 \<and> chunks_loop todo (bs @ rest) = ok (cs, rest)"
proof (induction cs arbitrary: todo)
  case (Cons c cs)
  from Cons.prems have c: "chunk_ok c" and todo: "0 < todo" by simp_all
  obtain x where x: "chunk_word c = Some x" "chunk_from_word x = c" using chunk_word_ok [OF c] .
  obtain bs where bs: "chunk_words cs = Some bs" "length bs = length cs * 2"
    "chunks_loop (todo - int (max_possible_status_count c)) (bs @ rest) = ok (cs, rest)"
    using Cons by auto
  have "chunk_try_from (to_be16 x @ bs @ rest) = ok c" by (simp add: chunk_try_from_def x(2))
  then have "chunks_loop todo ((to_be16 x @ bs) @ rest) = ok (c # cs, rest)"
    using todo bs(3) by (subst chunks_loop.simps) simp
  with x(1) bs(1,2) show ?case by simp
qed (simp add: chunks_loop.simps)

lemma small_deltas_written:
  "list_all (\<lambda>d. delta_status d = ReceivedSmallDelta) ds \<Longrightarrow>
     length (concat (map delta_bytes ds)) = length ds \<and> map Small (concat (map delta_bytes ds)) = ds"
proof (induction ds)
  case (Cons d ds)
  then show ?case by (cases d) auto
qed simp

lemma large_deltas_written:
  "list_all (\<lambda>d. delta_status d = ReceivedLargeOrNegativeDelta) ds \<Longrightarrow>
     length (concat (map delta_bytes ds)) = length ds * 2
     \<and> large_deltas (length ds) (concat (map delta_bytes ds) @ rest) = ds"
proof (induction ds)
  case (Cons d ds)
  then show ?case by (cases d) (auto simp: to_be16_def)
qed simp

lemma read_small_written:
  assumes "list_all (\<lambda>d. delta_status d = ReceivedSmallDelta) ds" "n = length ds"
  shows "read_delta_small (concat (map delta_bytes ds) @ rest) n = ok ds"
    "drop n (concat (map delta_bytes ds) @ rest) = rest"
  using small_deltas_written [OF assms(1)] assms(2) by (simp_all add: read_delta_small_def)

lemma read_large_written:
  assumes "list_all (\<lambda>d. delta_status d = ReceivedLargeOrNegativeDelta) ds" "n = length ds"
  shows "read_delta_large (concat (map delta_bytes ds) @ rest) n = ok ds"
  using large_deltas_written [OF assms(1)] assms(2) by (simp add: read_delta_large_def)

lemma symbol_deltas_written:
  "map delta_status ds = filter received ss \<Longrightarrow> symbol_deltas ss (concat (map delta_bytes ds) @ rest) = ok (ds, rest)"
proof (induction ss arbitrary: ds)
  case (Cons s ss)
  show ?case
  proof (cases s)
    case ReceivedSmallDelta
    with Cons.prems obtain d es where d: "ds = d # es" "delta_status d = ReceivedSmallDelta"
      "map delta_status es = filter received ss" by (cases ds) auto
    from d(2) obtain v where "d = Small v" by (cases d) auto
    then show ?thesis
      using Cons.IH [OF d(3)] ReceivedSmallDelta d(1) by (simp add: read_delta_small_def)
  next
    case ReceivedLargeOrNegativeDelta
    with Cons.prems obtain d es where d: "ds = d # es" "delta_status d = ReceivedLargeOrNegativeDelta"
      "map delta_status es = filter received ss" by (cases ds) auto
    from d(2) obtain v where "d = Large v" by (cases d) auto
    then show ?thesis
      using Cons.IH [OF d(3)] ReceivedLargeOrNegativeDelta d(1)
      by (simp add: read_delta_large_def to_be16_def numeral_2_eq_2)
  qed (use Cons in simp_all)
qed simp

lemma count_ones_symbols:
  assumes "v < 16384" shows "count_ones v = length (filter received (single_symbols v))"
proof -
  have "v < 2 ^ 14" using assms by simp
  then have "\<not> bit v 14" "\<not> bit v 15" using high_bits [of v 14] by simp_all
  moreover have "[0..<16] = [0..<14] @ [14, 15]" by (simp add: upt_rec)
  ultimately have "count_ones v = length (filter (bit v) [0..<14])" by (simp add: count_ones_def)
  also have "\<dots> = length (filter (bit v) (rev [0..<14]))" by (simp only: rev_filter [symmetric] length_rev)
  also have "rev [0..<14] = map (\<lambda>i. 13 - i) [0..<14]" by (simp add: upt_rec)
  also have "length (filter (bit v) (map (\<lambda>i. 13 - i) [0..<14])) = length (filter received (single_symbols v))"
    unfolding single_symbols_def filter_map length_map by (rule arg_cong [of _ _ length], rule filter_cong) auto
  finally show ?thesis .
qed

lemma received_run: "filter received (replicate n s) = (if received s then replicate n s else [])"
  by (induction n) auto

lemma single_received: "s \<in> set (filter received (single_symbols v)) \<Longrightarrow> s = ReceivedSmallDelta"
  by (auto simp: single_symbols_def split: if_splits)

lemma all_of_status:
  assumes "map delta_status ds = ss" "\<And>s. s \<in> set ss \<Longrightarrow> s = x"
  shows "list_all (\<lambda>d. delta_status d = x) ds"
  using assms by (auto simp: list_all_iff)

fun large_run :: "packet_chunk \<Rightarrow> bool" where
  "large_run (Run ReceivedLargeOrNegativeDelta n) \<longleftrightarrow> n \<noteq> 0"
| "large_run _ \<longleftrightarrow> False"

lemma chunk_deltas_written:
  assumes "chunk_ok c" and m: "map delta_status ds = filter received (chunk_symbols c)"
  shows "\<exists>r. chunk_deltas c (concat (map delta_bytes ds) @ rest) = ok (ds, r) \<and> (\<not> large_run c \<longrightarrow> r = rest)"
proof (cases c)
  case (Run s n)
  show ?thesis
  proof (cases s)
    case ReceivedSmallDelta
    then have "map delta_status ds = replicate (unat n) ReceivedSmallDelta" using m Run by (simp add: received_run)
    then have "list_all (\<lambda>d. delta_status d = ReceivedSmallDelta) ds" "unat n = length ds"
      by (auto intro!: all_of_status dest: arg_cong [of _ _ length])
    then show ?thesis using Run ReceivedSmallDelta read_small_written by simp
  next
    case ReceivedLargeOrNegativeDelta
    then have "map delta_status ds = replicate (unat n) ReceivedLargeOrNegativeDelta" using m Run by (simp add: received_run)
    then have "list_all (\<lambda>d. delta_status d = ReceivedLargeOrNegativeDelta) ds" "unat n = length ds"
      by (auto intro!: all_of_status dest: arg_cong [of _ _ length])
    then show ?thesis using Run ReceivedLargeOrNegativeDelta read_large_written by (auto simp: unat_eq_0)
  qed (use m Run in \<open>simp_all add: received_run\<close>)
next
  case (VectorSingle v fill)
  then have "list_all (\<lambda>d. delta_status d = ReceivedSmallDelta) ds"
    using m single_received by (intro all_of_status [OF m]) auto
  moreover have "count_ones v = length ds"
    using m assms(1) VectorSingle by (auto simp: count_ones_symbols dest: arg_cong [of _ _ length])
  ultimately show ?thesis using VectorSingle read_small_written by simp
next
  case (VectorDouble v fill)
  then show ?thesis using symbol_deltas_written [of ds "double_symbols v" rest] m by simp
qed

text \<open>A run of large deltas is the last chunk that has any.\<close>

fun large_runs_last :: "packet_chunk list \<Rightarrow> bool" where
  "large_runs_last [] \<longleftrightarrow> True"
| "large_runs_last (c # cs) \<longleftrightarrow>
     (large_run c \<longrightarrow> filter received (concat (map chunk_symbols cs)) = []) \<and> large_runs_last cs"

lemma deltas_loop_nothing:
  assumes "list_all chunk_ok cs" "filter received (concat (map chunk_symbols cs)) = []"
  shows "deltas_loop cs buf = ok []"
  using assms
proof (induction cs arbitrary: buf)
  case (Cons c cs)
  then have "filter received (chunk_symbols c) = []" "\<not> large_run c"
    by (cases c rule: large_run.cases; auto simp: received_run unat_eq_0 split: if_splits)+
  then have "chunk_deltas c buf = ok ([], buf)" using chunk_deltas_written [of c "[]" buf] Cons.prems by simp
  with Cons show ?case by simp
qed simp

lemma deltas_loop_written:
  assumes "list_all chunk_ok cs" "large_runs_last cs" "map delta_status ds = filter received (concat (map chunk_symbols cs))"
  shows "deltas_loop cs (concat (map delta_bytes ds)) = ok ds"
  using assms
proof (induction cs arbitrary: ds)
  case (Cons c cs)
  define ks where "ks = take (length (filter received (chunk_symbols c))) ds"
  define es where "es = drop (length (filter received (chunk_symbols c))) ds"
  have "ds = ks @ es" by (simp add: ks_def es_def)
  have ks: "map delta_status ks = filter received (chunk_symbols c)"
    and es: "map delta_status es = filter received (concat (map chunk_symbols cs))"
    using Cons.prems(3) by (simp_all add: ks_def es_def take_map [symmetric] drop_map [symmetric])
  obtain r where r: "chunk_deltas c (concat (map delta_bytes ks) @ concat (map delta_bytes es)) = ok (ks, r)"
    "\<not> large_run c \<longrightarrow> r = concat (map delta_bytes es)"
    using chunk_deltas_written [OF _ ks] Cons.prems(1) by fastforce
  have "deltas_loop cs r = ok es"
  proof (cases "large_run c")
    case True
    then have "filter received (concat (map chunk_symbols cs)) = []" using Cons.prems(2) by simp
    then show ?thesis using deltas_loop_nothing [of cs r] Cons.prems(1) es by simp
  next
    case False
    with r Cons.IH [of es] Cons.prems es show ?thesis by simp
  qed
  with r \<open>ds = ks @ es\<close> show ?case by simp
qed simp

text \<open>
  A feedback as the format has it: chunks of their widths that account for the announced number of packets, a reference
  time of 24 bits, and a delta of the right size for each packet received.
\<close>

definition twcc_wf :: "twcc \<Rightarrow> bool" where
  "twcc_wf p \<longleftrightarrow> list_all chunk_ok (tw_chunks p) \<and> accounts (int (unat (tw_status_count p))) (tw_chunks p)
     \<and> tw_reference_time p < 2 ^ 24
     \<and> map delta_status (tw_delta p) = filter received (concat (map chunk_symbols (tw_chunks p)))"

lemma reference_time_octets:
  assumes "t < 2 ^ 24"
  shows "\<exists>a b c. drop 1 (to_be32 t) = [a, b, c] \<and> from_be32 0 a b c = t"
proof -
  have "\<not> bit t j" if "24 \<le> j" for j using high_bits [OF assms _ that] by simp
  then have "ucast (drop_bit 24 t) = (0 :: u8)" by (intro bit_word_eqI) (simp add: bit_simps)
  then show ?thesis using from_be32_parts [of t] by (simp add: to_be32_def)
qed

lemma twcc_body_parses:
  assumes "twcc_wf p" "large_runs_last (tw_chunks p)"
  obtains body where "twcc_body p = Some body" "twcc_try_from body = ok p"
    "length body = 16 + chunks_byte_len p + deltas_byte_len p"
proof -
  from assms have w: "list_all chunk_ok (tw_chunks p)" "accounts (int (unat (tw_status_count p))) (tw_chunks p)"
    "large_runs_last (tw_chunks p)" "tw_reference_time p < 2 ^ 24"
    "map delta_status (tw_delta p) = filter received (concat (map chunk_symbols (tw_chunks p)))"
    by (simp_all add: twcc_wf_def)
  let ?ds = "concat (map delta_bytes (tw_delta p))"
  obtain bs where bs: "chunk_words (tw_chunks p) = Some bs" "length bs = length (tw_chunks p) * 2"
    "chunks_loop (int (unat (tw_status_count p))) (bs @ ?ds) = ok (tw_chunks p, ?ds)"
    using chunks_loop_written [OF w(1,2)] by blast
  obtain a b c where t: "drop 1 (to_be32 (tw_reference_time p)) = [a, b, c]"
    "from_be32 0 a b c = tw_reference_time p"
    using reference_time_octets [OF w(4)] by blast
  let ?body = "twcc_fields p @ bs @ ?ds"
  have "twcc_try_from ?body = ok p"
    unfolding twcc_try_from_def twcc_fields_def t(1)
    using bs(3) deltas_loop_written [OF w(1,3,5)] t(2) by (simp add: wire_simps slice_def)
  moreover have "length ?ds = deltas_byte_len p"
  proof -
    have "length (delta_bytes d) = delta_byte_len d" for d by (cases d) simp_all
    then show ?thesis by (simp add: deltas_byte_len_def length_concat o_def)
  qed
  ultimately show ?thesis
    using that [of ?body] bs(1,2) by (simp add: twcc_body_def twcc_fields_def chunks_byte_len_def t(1))
qed

lemma twcc_padded_words:
  assumes "length body = 16 + chunks_byte_len t + deltas_byte_len t"
  shows "4 * twcc_length_words t = 4 + length body + (if length body mod 4 = 0 then 0 else 4 - length body mod 4)"
proof -
  have "4 * twcc_length_words t = 20 + n + (if n mod 4 = 0 then 0 else 4 - n mod 4)"
    if "n = chunks_byte_len t + deltas_byte_len t" for n
    unfolding twcc_length_words_def Let_def that [symmetric]
    by (cases rule: mod4_cases [of n]) (simp_all only: mod4_shift, simp_all)
  moreover have "(16 + n) mod 4 = n mod 4" for n :: nat by presburger
  ultimately show ?thesis using assms by (simp add: add.assoc)
qed

text \<open>C17. A well-formed congestion control feedback is written into its announced length and parsed back unchanged,
  provided that no delta follows a run of large ones: behind such a run the parser stands at the wrong place
  (\<open>large_run_misread\<close> below), though the format allows it.
\<close>

theorem twcc_body_roundtrip:
  assumes "twcc_wf p" and "large_runs_last (tw_chunks p)"
  shows "\<exists>body. twcc_body p = Some body \<and> twcc_try_from body = ok p
    \<and> 4 * twcc_length_words p = 4 + length body + (if length body mod 4 = 0 then 0 else 4 - length body mod 4)"
  using twcc_body_parses [OF assms] twcc_padded_words by blast

definition small_feedback :: twcc where
  "small_feedback = \<lparr>tw_sender_ssrc = 1, tw_ssrc = 0, tw_base_seq = 82, tw_status_count = 16, tw_reference_time = 25,
     tw_feedback_count = 17, tw_chunks = [Run ReceivedSmallDelta 3, VectorSingle 0x2001 14],
     tw_delta = [Small 0x7c, Small 0x93, Small 0x84, Small 1, Small 2]\<rparr>"

lemma small_feedback_wf: "twcc_wf small_feedback" "large_runs_last (tw_chunks small_feedback)"
proof -
  have "single_symbols 0x2001 = ReceivedSmallDelta # replicate 12 NotReceived @ [ReceivedSmallDelta]"
    by code_simp
  moreover have "replicate 3 x = [x, x, x]" "replicate 12 y = [y, y, y, y, y, y, y, y, y, y, y, y]" for x y :: packet_status
    by (simp_all add: numeral_eq_Suc)
  ultimately show "twcc_wf small_feedback" "large_runs_last (tw_chunks small_feedback)"
    by (simp_all add: twcc_wf_def small_feedback_def)
qed

theorem twcc_body_roundtrip_witness:
  "\<exists>body. twcc_body small_feedback = Some body \<and> twcc_try_from body = ok small_feedback
    \<and> 4 * twcc_length_words small_feedback = 4 + length body + (if length body mod 4 = 0 then 0 else 4 - length body mod 4)"
  by (rule twcc_body_roundtrip) (rule small_feedback_wf)+

section \<open>The parser does not panic\<close>

lemma chunks_loop_total: "chunks_loop todo buf \<noteq> None"
proof (induction todo buf rule: chunks_loop.induct)
  case (1 todo buf)
  have "chunk_try_from buf \<noteq> None" using u16_at_total [of 0 buf] by (auto simp: chunk_try_from_def)
  with 1 show ?case
    by (subst chunks_loop.simps) (auto simp: and_then_None simp del: not_None_eq split: option.splits sum.splits)
qed

lemma read_deltas_total [simp]: "read_delta_small buf n \<noteq> None" "read_delta_large buf n \<noteq> None"
  by (simp_all add: read_delta_small_def read_delta_large_def)

lemma symbol_deltas_total: "symbol_deltas ss buf \<noteq> None"
  by (induction ss buf rule: symbol_deltas.induct) (auto simp: and_then_None simp del: not_None_eq)

lemma chunk_deltas_total: "chunk_deltas c buf \<noteq> None"
  using symbol_deltas_total
  by (cases "(c, buf)" rule: chunk_deltas.cases) (auto simp: and_then_None simp del: not_None_eq)

lemma deltas_loop_total: "deltas_loop cs buf \<noteq> None"
  by (induction cs arbitrary: buf) (auto simp: and_then_None chunk_deltas_total simp del: not_None_eq)

lemma twcc_try_from_total: "twcc_try_from buf \<noteq> None"
proof (cases "length buf < 16")
  case False
  then obtain v w x y where "u32_at buf 0 = Some v" "u32_at buf 4 = Some w" "u16_at buf 8 = Some x" "u16_at buf 10 = Some y"
    using u32_at_total [of 0 buf] u32_at_total [of 4 buf] u16_at_total [of 8 buf] u16_at_total [of 10 buf] by auto
  moreover have "idx buf i \<noteq> None" if "i < 16" for i using False that by (simp add: idx_def)
  ultimately show ?thesis using False
    by (auto simp: twcc_try_from_def slice_drop and_then_None chunks_loop_total deltas_loop_total Let_def idx_def
        simp del: not_None_eq)
qed (simp add: twcc_try_from_def)

section \<open>What does not survive\<close>

definition large_run_feedback :: twcc where
  "large_run_feedback = \<lparr>tw_sender_ssrc = 1, tw_ssrc = 2, tw_base_seq = 3, tw_status_count = 3, tw_reference_time = 4,
     tw_feedback_count = 5, tw_chunks = [Run ReceivedLargeOrNegativeDelta 2, Run ReceivedSmallDelta 1],
     tw_delta = [Large 300, Large 301, Small 7]\<rparr>"

text \<open>After a run of more than one large delta the parser continues in the middle of that run: a feedback with two
  large deltas and then a small one, which the library writes itself, is read back with a wrong third delta.
\<close>

theorem large_run_misread:
  "\<exists>body. twcc_body large_run_feedback = Some body
    \<and> twcc_try_from body = ok (large_run_feedback\<lparr>tw_delta := [Large 300, Large 301, Small 1]\<rparr>)"
proof -
  have "twcc_body large_run_feedback
      = Some [0, 0, 0, 1, 0, 0, 0, 2, 0, 3, 0, 3, 0, 0, 4, 5, 0x40, 2, 0x20, 1, 1, 44, 1, 45, 7]"
    by (simp add: twcc_body_def twcc_fields_def large_run_feedback_def to_be32_def to_be16_def)
  moreover have low: "(16386 :: u8) = 2" "(8193 :: u8) = 1" by simp_all
  have "chunks_loop 3 [0x40, 2, 0x20, 1, 1, 44, 1, 45, 7]
      = ok ([Run ReceivedLargeOrNegativeDelta 2, Run ReceivedSmallDelta 1], [1, 44, 1, 45, 7])"
    using chunks_loop_written [of "[Run ReceivedLargeOrNegativeDelta 2, Run ReceivedSmallDelta 1]" 3 "[1, 44, 1, 45, 7]"]
    by (simp add: to_be16_def low)
  moreover have "deltas_loop [Run ReceivedLargeOrNegativeDelta 2, Run ReceivedSmallDelta 1] [1, 44, 1, 45, 7]
      = ok [Large 300, Large 301, Small 1]"
  proof -
    have "read_delta_large [1, 44, 1, 45, 7] 2 = ok [Large 300, Large 301]"
    proof -
      have "large_deltas (Suc (Suc 0)) [1, 44, 1, 45, 7] = [Large 300, Large 301]" by (simp add: from_be16_def)
      then show ?thesis by (simp add: read_delta_large_def flip: numeral_2_eq_2)
    qed
    then show ?thesis by (simp add: read_delta_small_def)
  qed
  moreover have "from_be32 0 0 0 1 = 1" "from_be32 0 0 0 2 = 2" "from_be32 0 0 0 4 = 4" "from_be16 0 3 = 3"
    by (simp_all add: from_be32_def from_be16_def)
  ultimately show ?thesis
    unfolding twcc_try_from_def large_run_feedback_def
    by (simp add: u32_at_def u16_at_def idx_def slice_def)
qed

text \<open>The chunk builder fills a run up to 8192 packets, one more than 13 bits hold: such a run of packets not
  received is written as an empty run of received ones.
\<close>

theorem full_run_misread:
  "\<exists>x. chunk_word (Run NotReceived 8192) = Some x \<and> chunk_from_word x = Run ReceivedSmallDelta 0"
  by (simp add: chunk_from_word_def status_from_def)

end
