(* ===== verification/Rtcp.thy ===== *)
theory Rtcp imports ReportList Sdes ExtendedReports Remb Twcc begin

text \<open>
  Compound RTCP packets: the \<open>Rtcp\<close> enum of \<open>rtp/rtcp/mod.rs\<close> of the patched str0m, the dispatch
  to the packet types, merging and packing of the queued feedback, and the loops that write and read
  a datagram.
\<close>

section \<open>The packets\<close>

datatype rtcp =
    SenderReport sender_report | ReceiverReport receiver_report | ExtendedReport extended_report
  | SourceDescription descriptions | Goodbye goodbye | Nack nack | Pli pli | Fir fir | Twcc twcc | Remb remb

fun rtcp_header_of :: "rtcp \<Rightarrow> rtcp_header" where
  "rtcp_header_of (SenderReport v) = sr_header v"
| "rtcp_header_of (ReceiverReport v) = rr_header v"
| "rtcp_header_of (ExtendedReport v) = xr_header v"
| "rtcp_header_of (SourceDescription v) = descriptions_header v"
| "rtcp_header_of (Goodbye v) = goodbye_header v"
| "rtcp_header_of (Nack v) = nack_header v"
| "rtcp_header_of (Pli v) = pli_header v"
| "rtcp_header_of (Fir v) = fir_header v"
| "rtcp_header_of (Twcc v) = twcc_header v"
| "rtcp_header_of (Remb v) = remb_header v"

fun rtcp_length_words :: "rtcp \<Rightarrow> nat" where
  "rtcp_length_words (SenderReport v) = sr_length_words v"
| "rtcp_length_words (ReceiverReport v) = rr_length_words v"
| "rtcp_length_words (ExtendedReport v) = xr_length_words v"
| "rtcp_length_words (SourceDescription v) = descriptions_length_words v"
| "rtcp_length_words (Goodbye v) = goodbye_length_words v"
| "rtcp_length_words (Nack v) = nack_length_words v"
| "rtcp_length_words (Pli v) = pli_length_words v"
| "rtcp_length_words (Fir v) = fir_length_words v"
| "rtcp_length_words (Twcc v) = twcc_length_words v"
| "rtcp_length_words (Remb v) = remb_length_words v"

fun rtcp_write_to :: "rtcp \<Rightarrow> bytes \<Rightarrow> (bytes \<times> nat) option" where
  "rtcp_write_to (SenderReport v) = sr_write_to v"
| "rtcp_write_to (ReceiverReport v) = rr_write_to v"
| "rtcp_write_to (ExtendedReport v) = xr_write_to v"
| "rtcp_write_to (SourceDescription v) = descriptions_write_to v"
| "rtcp_write_to (Goodbye v) = goodbye_write_to v"
| "rtcp_write_to (Nack v) = nack_write_to v"
| "rtcp_write_to (Pli v) = pli_write_to v"
| "rtcp_write_to (Fir v) = fir_write_to v"
| "rtcp_write_to (Twcc v) = twcc_write_to v"
| "rtcp_write_to (Remb v) = remb_write_to v"

definition as_packet :: "('a \<Rightarrow> rtcp) \<Rightarrow> 'a res \<Rightarrow> rtcp res" where
  "as_packet C r = and_then r (\<lambda>v. ok (C v))"

text \<open>The match on the header; an error of the REMB parser is not passed on.\<close>

definition rtcp_parse :: "rtcp_header \<Rightarrow> bytes \<Rightarrow> rtcp res" where
  "rtcp_parse h buf =
     (case h_type h of
        SenderReportT \<Rightarrow> as_packet SenderReport (sr_try_from buf)
      | ReceiverReportT \<Rightarrow> as_packet ReceiverReport (rr_try_from buf)
      | SourceDescriptionT \<Rightarrow> as_packet SourceDescription (descriptions_try_from buf)
      | GoodbyeT \<Rightarrow> (case h_count h of None \<Rightarrow> None | Some count \<Rightarrow> as_packet Goodbye (goodbye_try_from count buf))
      | ApplicationDefinedT \<Rightarrow> err ''Ignore RTCP type: ApplicationDefined''
      | TransportLayerFeedbackT \<Rightarrow>
          (case h_feedback h of
             TransportFeedback NackT \<Rightarrow> as_packet Nack (nack_try_from buf)
           | TransportFeedback TransportWideT \<Rightarrow> as_packet Twcc (twcc_try_from buf)
           | _ \<Rightarrow> err ''Expected TransportFeedback in FeedbackMessageType'')
      | PayloadSpecificFeedbackT \<Rightarrow>
          (case h_feedback h of
             PayloadFeedback PictureLossIndicationT \<Rightarrow> as_packet Pli (pli_try_from buf)
           | PayloadFeedback SliceLossIndicationT \<Rightarrow> err ''Ignore PayloadType type: SLI''
           | PayloadFeedback ReferencePictureSelectionIndicationT \<Rightarrow> err ''Ignore PayloadType type: RPSI''
           | PayloadFeedback FullIntraRequestT \<Rightarrow> as_packet Fir (fir_try_from buf)
           | PayloadFeedback ApplicationLayerT \<Rightarrow>
               (case remb_try_from buf of
                  None \<Rightarrow> None
                | Some (Inr remb) \<Rightarrow> ok (Remb remb)
                | Some (Inl e) \<Rightarrow> err ''Ignore PayloadType: ApplicationLayer'')
           | _ \<Rightarrow> err ''Expected PayloadFeedback in FeedbackMessageType'')
      | ExtendedReportT \<Rightarrow> as_packet ExtendedReport (xr_try_from buf))"

definition rtcp_try_from :: "bytes \<Rightarrow> rtcp res" where
  "rtcp_try_from buf = and_then (header_try_from buf) (\<lambda>header.
     case slice buf 4 (length buf) of None \<Rightarrow> None | Some buf \<Rightarrow> rtcp_parse header buf)"

section \<open>Reading a datagram\<close>

fun understood :: "string + rtcp \<Rightarrow> rtcp option" where
  "understood (Inl e) = None"
| "understood (Inr p) = Some p"

text \<open>
  One turn of the loop: \<open>Some None\<close> leaves it, otherwise the packet, if it was understood, and the octets it took.
\<close>

definition read_step :: "bytes \<Rightarrow> (rtcp option \<times> nat) option option" where
  "read_step buf =
     (case header_try_from buf of
        None \<Rightarrow> None
      | Some (Inl e) \<Rightarrow> Some None
      | Some (Inr header) \<Rightarrow> do {
          b0 \<leftarrow> idx buf 0;
          let has_padding = 0 < b0 AND 0x20;
          let full_length = h_length_words header * 4;
          if length buf < full_length then Some None
          else do {
            pad \<leftarrow> (if has_padding then map_option unat (idx buf (full_length - 1)) else Some 0);
            if full_length < pad then Some None
            else do {
              b \<leftarrow> slice buf 0 (full_length - pad);
              v \<leftarrow> rtcp_try_from b;
              Some (Some (understood v, full_length))
            }
          }
        })"

lemma read_step_length: "read_step buf = Some (Some (v, n)) \<Longrightarrow> 0 < n \<and> n \<le> length buf"
  by (auto simp: read_step_def h_length_words_def bind_eq_Some_conv Let_def split: option.splits sum.splits if_splits)

function read_packet :: "bytes \<Rightarrow> rtcp list \<Rightarrow> rtcp list option" where
  "read_packet buf feedback =
     (if buf = [] then Some feedback
      else case read_step buf of
        None \<Rightarrow> None
      | Some None \<Rightarrow> Some feedback
      | Some (Some (v, full_length)) \<Rightarrow>
          read_packet (drop full_length buf) (case v of None \<Rightarrow> feedback | Some p \<Rightarrow> feedback @ [p]))"
  by pat_completeness auto
termination by (relation "measure (\<lambda>(buf, fb). length buf)") (auto dest!: read_step_length)

declare read_packet.simps [simp del]

section \<open>Merging\<close>

definition merge_reports :: "('a \<Rightarrow> nat) \<Rightarrow> 'a list \<Rightarrow> 'a list \<Rightarrow> nat \<Rightarrow> 'a list \<times> 'a list \<times> bool" where
  "merge_reports sz xs ys words_left = (case append_all_possible sz xs ys words_left of (xs, ys, n) \<Rightarrow> (xs, ys, 0 < n))"

fun merge_rtcp :: "rtcp \<Rightarrow> rtcp \<Rightarrow> nat \<Rightarrow> rtcp \<times> rtcp \<times> bool" where
  "merge_rtcp (SenderReport sr) (ReceiverReport rr) w =
     (case merge_reports (\<lambda>_. 6) (sr_reports sr) (rr_reports rr) w of (xs, ys, m) \<Rightarrow>
        (SenderReport (sr\<lparr>sr_reports := xs\<rparr>), ReceiverReport (rr\<lparr>rr_reports := ys\<rparr>), m))"
| "merge_rtcp (ReceiverReport r1) (ReceiverReport r2) w =
     (case merge_reports (\<lambda>_. 6) (rr_reports r1) (rr_reports r2) w of (xs, ys, m) \<Rightarrow>
        (ReceiverReport (r1\<lparr>rr_reports := xs\<rparr>), ReceiverReport (r2\<lparr>rr_reports := ys\<rparr>), m))"
| "merge_rtcp (SourceDescription s1) (SourceDescription s2) w =
     (case merge_reports sdes_word_size (ds_reports s1) (ds_reports s2) w of (xs, ys, m) \<Rightarrow>
        (SourceDescription (s1\<lparr>ds_reports := xs\<rparr>), SourceDescription (s2\<lparr>ds_reports := ys\<rparr>), m))"
| "merge_rtcp (Goodbye g1) (Goodbye g2) w =
     (case merge_reports (\<lambda>_. 1) (gb_reports g1) (gb_reports g2) w of (xs, ys, m) \<Rightarrow>
        (Goodbye (g1\<lparr>gb_reports := xs\<rparr>), Goodbye (g2\<lparr>gb_reports := ys\<rparr>), m))"
| "merge_rtcp (Nack n1) (Nack n2) w =
     (if n_ssrc n1 = n_ssrc n2 then
        (case merge_reports (\<lambda>_. 1) (n_reports n1) (n_reports n2) w of (xs, ys, m) \<Rightarrow>
           (Nack (n1\<lparr>n_reports := xs\<rparr>), Nack (n2\<lparr>n_reports := ys\<rparr>), m))
      else (Nack n1, Nack n2, False))"
| "merge_rtcp (Fir f1) (Fir f2) w =
     (case merge_reports (\<lambda>_. 2) (fir_reports f1) (fir_reports f2) w of (xs, ys, m) \<Rightarrow>
        (Fir (f1\<lparr>fir_reports := xs\<rparr>), Fir (f2\<lparr>fir_reports := ys\<rparr>), m))"
| "merge_rtcp a b w = (a, b, False)"

fun rtcp_is_full :: "rtcp \<Rightarrow> bool" where
  "rtcp_is_full (SenderReport v) \<longleftrightarrow> length (sr_reports v) = 31"
| "rtcp_is_full (ReceiverReport v) \<longleftrightarrow> length (rr_reports v) = 31"
| "rtcp_is_full (SourceDescription v) \<longleftrightarrow> length (ds_reports v) = 31"
| "rtcp_is_full (Goodbye v) \<longleftrightarrow> length (gb_reports v) = 31"
| "rtcp_is_full (Nack v) \<longleftrightarrow> length (n_reports v) = 31"
| "rtcp_is_full (Fir v) \<longleftrightarrow> length (fir_reports v) = 31"
| "rtcp_is_full _ \<longleftrightarrow> True"

fun rtcp_is_empty :: "rtcp \<Rightarrow> bool" where
  "rtcp_is_empty (ReceiverReport v) \<longleftrightarrow> rr_reports v = []"
| "rtcp_is_empty (ExtendedReport v) \<longleftrightarrow> xr_blocks v = []"
| "rtcp_is_empty (SourceDescription v) \<longleftrightarrow> ds_reports v = []"
| "rtcp_is_empty (Goodbye v) \<longleftrightarrow> gb_reports v = []"
| "rtcp_is_empty (Nack v) \<longleftrightarrow> n_reports v = []"
| "rtcp_is_empty (Fir v) \<longleftrightarrow> fir_reports v = []"
| "rtcp_is_empty _ \<longleftrightarrow> False"

fun order_no :: "rtcp \<Rightarrow> nat" where
  "order_no (SenderReport _) = 0"
| "order_no (ReceiverReport _) = 1"
| "order_no (SourceDescription _) = 2"
| "order_no (Nack _) = 3"
| "order_no (Pli _) = 4"
| "order_no (Fir _) = 5"
| "order_no (Twcc _) = 6"
| "order_no (Remb _) = 7"
| "order_no (ExtendedReport _) = 10"
| "order_no (Goodbye _) = 11"

section \<open>Packing\<close>

text \<open>
  The inner loop of \<open>pack\<close>: what follows the packet at \<open>i\<close> is merged into it. The flags tell whether anything
  moved and whether the outer loop is to be left.
\<close>

fun pack_into :: "rtcp \<Rightarrow> rtcp list \<Rightarrow> nat \<Rightarrow> rtcp \<times> rtcp list \<times> bool \<times> bool" where
  "pack_into a [] w = (a, [], False, False)"
| "pack_into a (b # bs) w =
     (if rtcp_is_full a \<or> rtcp_is_empty a then (a, b # bs, False, False)
      else if w < rtcp_length_words a then (a, b # bs, False, True)
      else (let (a, b, did_merge) = merge_rtcp a b (w - rtcp_length_words a);
                (a, bs, any_change, leave) = pack_into a bs w
            in (a, b # bs, did_merge \<or> any_change, leave)))"

fun rtcp_reports :: "rtcp \<Rightarrow> nat" where
  "rtcp_reports (SenderReport v) = length (sr_reports v)"
| "rtcp_reports (ReceiverReport v) = length (rr_reports v)"
| "rtcp_reports (SourceDescription v) = length (ds_reports v)"
| "rtcp_reports (Goodbye v) = length (gb_reports v)"
| "rtcp_reports (Nack v) = length (n_reports v)"
| "rtcp_reports (Fir v) = length (fir_reports v)"
| "rtcp_reports _ = 0"

lemma merge_reports_split:
  "merge_reports sz xs ys w = (xs', ys', m) \<Longrightarrow>
     \<exists>n. n \<le> length ys \<and> xs' = xs @ take n ys \<and> ys' = drop n ys \<and> (m \<longleftrightarrow> 0 < n) \<and> (length xs \<le> 31 \<longrightarrow> length xs' \<le> 31)"
  by (auto simp: merge_reports_def split: prod.splits dest!: append_all_possible_split)

lemma merge_rtcp_moves:
  "merge_rtcp a b w = (a', b', m) \<Longrightarrow> rtcp_reports b' \<le> rtcp_reports b \<and> (m \<longrightarrow> rtcp_reports b' < rtcp_reports b)
     \<and> (\<not> m \<longrightarrow> a' = a \<and> b' = b)"
  by (cases "(a, b, w)" rule: merge_rtcp.cases)
    (auto split: prod.splits if_splits dest!: merge_reports_split)

lemma pack_into_moves:
  "pack_into a bs w = (a', bs', c, l) \<Longrightarrow> length bs' = length bs
     \<and> sum_list (map rtcp_reports bs') \<le> sum_list (map rtcp_reports bs)
     \<and> (c \<longrightarrow> sum_list (map rtcp_reports bs') < sum_list (map rtcp_reports bs))
     \<and> (\<not> c \<longrightarrow> a' = a \<and> bs' = bs)"
proof (induction a bs w arbitrary: a' bs' c l rule: pack_into.induct)
  case (2 a b bs w)
  show ?case
  proof (cases "rtcp_is_full a \<or> rtcp_is_empty a \<or> w < rtcp_length_words a")
    case False
    obtain a1 b1 m where m: "merge_rtcp a b (w - rtcp_length_words a) = (a1, b1, m)" by (metis prod_cases3)
    obtain a2 bs2 c2 l2 where p: "pack_into a1 bs w = (a2, bs2, c2, l2)" by (metis prod_cases4)
    note IH = "2.IH" [OF _ _ m [symmetric] refl refl p]
    have e: "(a', bs', c, l) = (a2, b1 # bs2, m \<or> c2, l2)" using False m p "2.prems" by simp
    with IH False merge_rtcp_moves [OF m] show ?thesis by auto
  qed (use "2.prems" in \<open>auto split: if_splits\<close>)
qed simp

function pack_loop :: "nat \<Rightarrow> rtcp list \<Rightarrow> nat \<Rightarrow> rtcp list" where
  "pack_loop i feedback word_capacity =
     (if length feedback \<le> i + 1 then feedback
      else if word_capacity < rtcp_length_words (feedback ! i) then feedback
      else (case pack_into (feedback ! i) (drop (i + 1) feedback) word_capacity of
              (fb_a, pack_from, any_change, leave) \<Rightarrow>
                (let feedback' = take i feedback @ fb_a # pack_from in
                 if leave then feedback'
                 else if any_change then pack_loop i feedback' word_capacity
                 else pack_loop (i + 1) feedback' (word_capacity - rtcp_length_words fb_a))))"
  by pat_completeness auto
termination
proof (relation "measures [\<lambda>(i, fb, w). length fb - i, \<lambda>(i, fb, w). sum_list (map rtcp_reports (drop (i + 1) fb))]")
qed (auto dest!: pack_into_moves [OF sym])

declare pack_loop.simps [simp del]

definition pack :: "rtcp list \<Rightarrow> nat \<Rightarrow> rtcp list" where
  "pack feedback word_capacity =
     (if length feedback < 2 then feedback
      else filter (\<lambda>f. \<not> rtcp_is_empty f) (pack_loop 0 (sort_key order_no feedback) word_capacity))"

section \<open>Writing a datagram\<close>

text \<open>The queue left, the buffer, the packets written and the offset; writing another length than announced panics.\<close>

fun write_loop :: "rtcp list \<Rightarrow> bytes \<Rightarrow> nat \<Rightarrow> rtcp list \<Rightarrow> (rtcp list \<times> bytes \<times> rtcp list \<times> nat) option" where
  "write_loop [] buf offset out = Some ([], buf, out, offset)"
| "write_loop (fb # feedback) buf offset out =
     (let item_len = rtcp_length_words fb * 4 in
      if length buf - offset < item_len then Some (fb # feedback, buf, out, offset)
      else do {
        (sub, written) \<leftarrow> rtcp_write_to fb (drop offset buf);
        if written \<noteq> item_len then None
        else write_loop feedback (take offset buf @ sub) (offset + item_len) (out @ [fb])
      })"

definition write_packet :: "rtcp list \<Rightarrow> bytes \<Rightarrow> (rtcp list \<times> bytes \<times> rtcp list \<times> nat) option" where
  "write_packet feedback buf =
     (if feedback = [] then Some ([], buf, [], 0) else write_loop (pack feedback (length buf div 4)) buf 0 [])"

end
