(* ===== verification/Compound.thy ===== *)
theory Compound imports Rtcp "HOL-Library.Multiset" begin

text \<open>
  What the queue of feedback is worth: packing loses no report and keeps the order of the packet types, and
  what is written into a datagram is what the reader finds there.
\<close>

section \<open>Packing loses nothing\<close>

text \<open>The single reports of a packet, each with what identifies its subject.\<close>

datatype item = SenderItem sender_info | ReceptionItem reception_report | BlockItem u32 report_block | SdesItem sdes
  | ByeItem u32 | NackItem u32 nack_entry | PliItem pli | FirItem fir_entry | TwccItem twcc | RembItem remb

fun items :: "rtcp \<Rightarrow> item list" where
  "items (SenderReport v) = SenderItem (sr_sender_info v) # map ReceptionItem (sr_reports v)"
| "items (ReceiverReport v) = map ReceptionItem (rr_reports v)"
| "items (ExtendedReport v) = map (BlockItem (xr_ssrc v)) (xr_blocks v)"
| "items (SourceDescription v) = map SdesItem (ds_reports v)"
| "items (Goodbye v) = map ByeItem (gb_reports v)"
| "items (Nack v) = map (NackItem (n_ssrc v)) (n_reports v)"
| "items (Pli v) = [PliItem v]"
| "items (Fir v) = map FirItem (fir_reports v)"
| "items (Twcc v) = [TwccItem v]"
| "items (Remb v) = [RembItem v]"

definition all_items :: "rtcp list \<Rightarrow> item multiset" where
  "all_items fb = mset (concat (map items fb))"

lemma all_items_simps [simp]:
  "all_items [] = {#}" "all_items (p # fb) = mset (items p) + all_items fb" "all_items (fb @ gb) = all_items fb + all_items gb"
  by (simp_all add: all_items_def)

lemma mset_take_drop:
  "image_mset f (mset (drop n ys)) + image_mset f (mset (take n ys)) = image_mset f (mset ys)"
  by (metis append_take_drop_id image_mset_union mset_append union_commute)

lemma merge_rtcp_items:
  "merge_rtcp a b w = (a', b', m) \<Longrightarrow> mset (items a') + mset (items b') = mset (items a) + mset (items b)
     \<and> order_no a' = order_no a \<and> order_no b' = order_no b"
  by (cases "(a, b, w)" rule: merge_rtcp.cases)
    (auto split: prod.splits if_splits dest!: merge_reports_split simp: ac_simps mset_take_drop)

lemma pack_into_items:
  "pack_into a bs w = (a', bs', c, l) \<Longrightarrow> mset (items a') + all_items bs' = mset (items a) + all_items bs
     \<and> order_no a' = order_no a \<and> map order_no bs' = map order_no bs"
proof (induction a bs w arbitrary: a' bs' c l rule: pack_into.induct)
  case (2 a b bs w)
  show ?case
  proof (cases "rtcp_is_full a \<or> rtcp_is_empty a \<or> w < rtcp_length_words a")
    case False
    obtain a1 b1 m where m: "merge_rtcp a b (w - rtcp_length_words a) = (a1, b1, m)" by (metis prod_cases3)
    obtain a2 bs2 c2 l2 where p: "pack_into a1 bs w = (a2, bs2, c2, l2)" by (metis prod_cases4)
    note IH = "2.IH" [OF _ _ m [symmetric] refl refl p]
    have "(a', bs', c, l) = (a2, b1 # bs2, m \<or> c2, l2)" using False m p "2.prems" by simp
    moreover have "mset (items a2) + (mset (items b1) + all_items bs2) = mset (items a) + (mset (items b) + all_items bs)"
      (is "?x2 + (?y1 + ?z2) = ?x + (?y + ?z)")
    proof -
      have "?x2 + (?y1 + ?z2) = (?x2 + ?z2) + ?y1" by (simp add: ac_simps)
      also have "?x2 + ?z2 = mset (items a1) + ?z" using IH False by simp
      also have "mset (items a1) + ?z + ?y1 = (mset (items a1) + ?y1) + ?z" by (simp add: ac_simps)
      also have "mset (items a1) + ?y1 = ?x + ?y" using merge_rtcp_items [OF m] by simp
      finally show ?thesis by (simp add: ac_simps)
    qed
    ultimately show ?thesis using IH False merge_rtcp_items [OF m] by simp
  qed (use "2.prems" in \<open>auto split: if_splits\<close>)
qed simp

lemma pack_loop_items:
  "all_items (pack_loop i fb w) = all_items fb \<and> map order_no (pack_loop i fb w) = map order_no fb"
proof (induction i fb w rule: pack_loop.induct)
  case (1 i fb w)
  show ?case
  proof (cases "length fb \<le> i + 1 \<or> w < rtcp_length_words (fb ! i)")
    case True
    then show ?thesis by (subst (1 2) pack_loop.simps) auto
  next
    case False
    obtain a bs c l where p: "pack_into (fb ! i) (drop (i + 1) fb) w = (a, bs, c, l)" by (metis prod_cases4)
    define fb' where "fb' = take i fb @ a # bs"
    have fb: "fb = take i fb @ fb ! i # drop (i + 1) fb" using False by (simp add: id_take_nth_drop)
    have "all_items fb' = all_items fb \<and> map order_no fb' = map order_no fb"
      unfolding fb'_def using pack_into_items [OF p] by (subst (2 4) fb) simp
    moreover have "pack_loop i fb w = (if l then fb' else if c then pack_loop i fb' w
        else pack_loop (i + 1) fb' (w - rtcp_length_words a))"
      using False p by (subst pack_loop.simps) (simp add: fb'_def)
    ultimately show ?thesis
      using "1.IH" [OF _ _ p [symmetric] refl refl refl] False by (auto simp: fb'_def)
  qed
qed

lemma empty_items: "rtcp_is_empty p \<Longrightarrow> items p = []"
  by (cases p) auto

lemma all_items_filter: "all_items (filter (\<lambda>p. \<not> rtcp_is_empty p) fb) = all_items fb"
  by (induction fb) (auto simp: empty_items)

lemma all_items_mset: "mset fb = mset gb \<Longrightarrow> all_items fb = all_items gb"
proof -
  have "all_items fb = sum_mset (image_mset (\<lambda>p. mset (items p)) (mset fb))" for fb
    by (induction fb) simp_all
  then show "mset fb = mset gb \<Longrightarrow> all_items fb = all_items gb" by simp
qed

lemma pack_items: "all_items (pack fb w) = all_items fb"
  using pack_loop_items [of 0 "sort_key order_no fb" w] all_items_mset [of "sort_key order_no fb" fb]
  by (simp add: pack_def all_items_filter)

text \<open>C16. Packing the queue loses no report, invents none and duplicates none, whatever the capacity; and the packets come
  in the order the SRTCP encryption needs: sender and receiver reports first, goodbyes last.
\<close>

theorem pack_keeps_reports:
  "all_items (pack fb w) = all_items fb \<and> sorted (map order_no (pack fb w))"
proof
  show "all_items (pack fb w) = all_items fb" by (rule pack_items)
  show "sorted (map order_no (pack fb w))"
  proof (cases "length fb < 2")
    case True
    then have "length fb = 0 \<or> length fb = 1" by linarith
    then show ?thesis by (auto simp: pack_def length_Suc_conv)
  next
    case False
    have "sorted (map order_no (pack_loop 0 (sort_key order_no fb) w))"
      using pack_loop_items [of 0 "sort_key order_no fb" w] by simp
    then show ?thesis using False by (simp add: pack_def sorted_filter)
  qed
qed

section \<open>One packet in a datagram\<close>

text \<open>
  What it means that a packet travels: it is written over the start of the buffer with its announced length, and the
  reader, whatever follows, takes exactly these octets for it.
\<close>

definition travels :: "rtcp \<Rightarrow> bytes \<Rightarrow> bool" where
  "travels p buf \<longleftrightarrow> (\<exists>pb. length pb = 4 * rtcp_length_words p
     \<and> rtcp_write_to p buf = Some (pb @ drop (4 * rtcp_length_words p) buf, 4 * rtcp_length_words p)
     \<and> (\<forall>rest. read_step (pb @ rest) = Some (Some (Some p, 4 * rtcp_length_words p))))"

lemma read_step_unpadded:
  assumes "\<And>rest. header_try_from (hs @ rest) = ok h" "\<And>rest. (hs @ rest) ! 0 AND 0x20 = 0" "length hs = 4"
    and "4 * h_length_words h = 4 + length body" "rtcp_parse h body = ok p"
  shows "read_step (hs @ body @ rest) = Some (Some (Some p, 4 + length body))"
proof -
  have "rtcp_try_from (hs @ body) = ok p"
    using assms(1) [of body] assms(3,5) by (simp add: rtcp_try_from_def slice_def)
  moreover have "idx (hs @ body @ rest) 0 = Some ((hs @ body @ rest) ! 0)" using assms(3) by (simp add: idx_def)
  moreover have "slice (hs @ body @ rest) 0 (h_length_words h * 4) = Some (hs @ body)"
    using assms(3,4) by (simp add: slice_def mult.commute)
  ultimately show ?thesis
    using assms(1) [of "body @ rest"] assms(2) [of "body @ rest"] assms(3,4)
    by (simp add: read_step_def Let_def mult.commute)
qed

context rtcp_packet begin

lemma packet_travels:
  assumes "wf p" "4 * length_words p \<le> length buf" "rtcp_parse (header p) (body p) = ok q"
  shows "\<exists>pb. length pb = 4 * length_words p
     \<and> write_to p buf = Some (pb @ drop (4 * length_words p) buf, 4 * length_words p)
     \<and> (\<forall>rest. read_step (pb @ rest) = Some (Some (Some q, 4 * length_words p)))"
proof -
  obtain hs where hs: "header_bytes (header p) = Some hs" "length hs = 4"
    "write_to p buf = Some (hs @ body p @ drop (4 * length_words p) buf, 4 * length_words p)"
    "\<And>rest. header_try_from (hs @ rest) = ok (header p)" "\<And>rest. (hs @ rest) ! 0 AND 0x20 = 0"
    using written [OF assms(1,2)] by blast
  have "read_step ((hs @ body p) @ rest) = Some (Some (Some q, 4 * length_words p))" for rest
    using read_step_unpadded [OF hs(4,5,2), of "body p" q rest] assms(3) header_words [OF assms(1)] body_words [OF assms(1)]
    by simp
  moreover have "length (hs @ body p) = 4 * length_words p" using hs(2) body_words [OF assms(1)] by simp
  ultimately show ?thesis using hs(3) by (intro exI [of _ "hs @ body p"]) simp
qed

end

text \<open>The padding bit does not disturb the header.\<close>

lemma padding_bit:
  "header_try_from ((b OR 0x20) # rest) = header_try_from (b # rest)" "0 < (b OR 0x20 :: u8) AND 0x20"
proof -
  have "(b OR 0x20) AND 0xC0 = b AND 0xC0" "(b OR 0x20) AND 0x1F = b AND 0x1F"
    by (simp_all add: bit.conj_disj_distrib2)
  then show "header_try_from ((b OR 0x20) # rest) = header_try_from (b # rest)"
    by (simp add: header_try_from_def wire_simps idx_def split: sum.splits)
  have "(b OR 0x20) AND 0x20 = (0x20 :: u8)" by (rule bit_word_eqI) (auto simp: bit_simps)
  then show "0 < (b OR 0x20 :: u8) AND 0x20" by simp
qed

lemma read_step_padded:
  assumes h: "\<And>rest. header_try_from ((b # t) @ rest) = ok h" "length t = 3"
    and len: "h_length_words h * 4 = 4 + length body + n" "0 < n" "n < 256" and p: "rtcp_parse h body = ok p"
  shows "read_step (((b OR 0x20) # t @ body @ replicate (n - 1) 0 @ [of_nat n]) @ rest)
    = Some (Some (Some p, 4 + length body + n))"
proof -
  let ?hs = "(b OR 0x20) # t" and ?zeros = "replicate (n - 1) 0 :: bytes"
  define buf where "buf = ((b OR 0x20) # t @ body @ ?zeros @ [of_nat n]) @ rest"
  have h': "header_try_from (?hs @ r) = ok h" for r
    using h(1) [of r] by (simp only: padding_bit(1) append_Cons)
  have buf: "buf = (?hs @ body) @ (?zeros @ of_nat n # rest)" "buf = (?hs @ body @ ?zeros) @ (of_nat n # rest)"
    "length (?hs @ body) = 4 + length body" "length (?hs @ body @ ?zeros) = 3 + length body + n"
    using h(2) len(2) by (simp_all add: buf_def)
  have "rtcp_try_from (?hs @ body) = ok p"
    using h' [of body] p h(2) by (simp add: rtcp_try_from_def slice_def)
  moreover have "slice buf 0 (h_length_words h * 4 - n) = Some (?hs @ body)"
  proof -
    have "take (4 + length body) buf = ?hs @ body" using buf(1,3) by (metis append_eq_conv_conj)
    moreover have "4 + length body \<le> length buf" unfolding buf(1) using buf(3) by simp
    ultimately show ?thesis unfolding slice_def len(1) by simp
  qed
  moreover have "idx buf (h_length_words h * 4 - 1) = Some (of_nat n)"
  proof -
    have "h_length_words h * 4 - 1 = 3 + length body + n" using len(1) by simp
    then show ?thesis unfolding buf(2) buf(4) [symmetric] by (simp only: idx_append_right order_refl diff_self_eq_0 idx_skip(1))
  qed
  moreover have "unat (of_nat n :: u8) = n" using len(3) by (simp add: unsigned_of_nat take_bit_nat_eq_self)
  moreover have "idx buf 0 = Some (b OR 0x20)" by (simp add: idx_def buf_def)
  moreover have "header_try_from buf = ok h" unfolding buf(1) append_assoc by (rule h')
  moreover have "\<not> length buf < h_length_words h * 4" "\<not> h_length_words h * 4 < n"
    using len(1,2) h(2) by (simp_all add: buf_def)
  ultimately have "read_step buf = Some (Some (Some p, h_length_words h * 4))"
    using padding_bit(2) [of b] by (simp add: read_step_def Let_def)
  then show ?thesis by (simp only: buf_def len(1))
qed

lemma twcc_write_padded:
  assumes hs: "header_bytes (twcc_header t) = Some (b # r)" "length r = 3" and body: "twcc_body t = Some body"
    and n: "n = 4 - length body mod 4" "n < 4" and buf: "4 + length body + n \<le> length buf"
  shows "twcc_write_to t buf = Some (((b OR 0x20) # r @ body @ replicate (n - 1) 0 @ [of_nat n]) @ drop (4 + length body + n) buf,
    4 + length body + n)"
proof -
  let ?total = "4 + length body" and ?pad = "replicate (n - 1) 0 @ [of_nat n] :: bytes"
  define ys where "ys = take n (drop ?total buf)"
  define post where "post = drop (?total + n) buf"
  have "0 < n" using n(1) by simp
  have d: "drop ?total buf = ys @ post" "length ys = length ?pad"
    using buf \<open>0 < n\<close> by (simp_all add: ys_def post_def add.commute flip: drop_drop)
  have tot: "length (b # r) + length body = ?total" "?total mod 4 = length body mod 4" using hs(2) by simp_all
  have e: "emit ((b # r) @ body) buf = Some (((b # r) @ body) @ ys @ post)"
    using buf hs(2) d(1) by (simp add: emit_def)
  have c: "copy_in (((b # r) @ body) @ ys @ post) ?total ?pad = Some (((b # r) @ body) @ ?pad @ post)"
    using copy_in_append [OF d(2), of "(b # r) @ body" post] hs(2) by simp
  show ?thesis
    unfolding twcc_write_to_def hs(1) body Option.bind.bind_lunit Let_def tot e c n(1) [symmetric]
    using n(2) c by (simp add: idx_def put_def post_def)
qed

lemma twcc_travels:
  assumes wf: "twcc_wf t" "large_runs_last (tw_chunks t)" and w: "twcc_length_words t \<le> 65536" and buf: "4 * twcc_length_words t \<le> length buf"
  shows "travels (Twcc t) buf"
proof -
  obtain body where body: "twcc_body t = Some body" "twcc_try_from body = ok t"
    and len: "length body = 16 + chunks_byte_len t + deltas_byte_len t"
    using twcc_body_parses [OF wf] by blast
  note words = twcc_padded_words [OF len]
  have ok: "header_ok (twcc_header t)"
    by (simp add: header_ok_def twcc_header_def feedback_of_def transport_try_from_def)
  have hw: "h_length_words (twcc_header t) = twcc_length_words t"
    unfolding twcc_header_def by (rule words_less_one) (use w words in simp_all)
  obtain hs where hs: "header_bytes (twcc_header t) = Some hs" using header_bytes_ok [OF ok] by auto
  note hr = header_roundtrip [OF ok hs]
  obtain b r where br: "hs = b # r" "length r = 3" using hr(1) by (cases hs) auto
  have parse: "rtcp_parse (twcc_header t) body = ok (Twcc t)"
    by (simp add: rtcp_parse_def twcc_header_def as_packet_def body(2))
  show ?thesis
  proof (cases "length body mod 4 = 0")
    case True
    then have "4 * twcc_length_words t = 4 + length body" "(4 + length body) mod 4 = 0" using words by presburger+
    moreover from this have "read_step ((hs @ body) @ rest) = Some (Some (Some (Twcc t), 4 + length body))" for rest
      using read_step_unpadded [OF hr(2,3,1), of body "Twcc t" rest] hw parse by simp
    moreover have "twcc_write_to t buf = Some ((hs @ body) @ drop (4 + length body) buf, 4 + length body)"
      using buf calculation(1,2) hr(1) by (simp add: twcc_write_to_def hs body(1) emit_def Let_def)
    ultimately show ?thesis unfolding travels_def using hr(1) by (intro exI [of _ "hs @ body"]) simp
  next
    case False
    define n where "n = 4 - length body mod 4"
    let ?pb = "(b OR 0x20) # r @ body @ replicate (n - 1) 0 @ [of_nat n]"
    have n: "0 < n" "n < 4" using False by (simp_all add: n_def)
    have len': "4 * twcc_length_words t = 4 + length body + n" using words False by (simp add: n_def)
    have "read_step (?pb @ rest) = Some (Some (Some (Twcc t), 4 + length body + n))" for rest
      using read_step_padded [OF _ br(2), of b "twcc_header t" body n "Twcc t" rest] hr(2) hw len' parse n br(1)
      by (simp add: mult.commute)
    moreover have "twcc_write_to t buf = Some (?pb @ drop (4 + length body + n) buf, 4 + length body + n)"
      by (rule twcc_write_padded [OF _ br(2) body(1) n_def n(2)]) (use hs br(1) buf len' in simp_all)
    ultimately show ?thesis unfolding travels_def using len' br(2) n by (intro exI [of _ ?pb]) simp
  qed
qed

section \<open>Every kind of packet travels\<close>

text \<open>
  The packets the library can transport: those of each kind that its parser reads back as they were written. A list may
  be emptied by merging.
\<close>

fun sendable :: "rtcp \<Rightarrow> bool" where
  "sendable (SenderReport v) \<longleftrightarrow> sr_wf v"
| "sendable (ReceiverReport v) \<longleftrightarrow> rr_wf v"
| "sendable (ExtendedReport v) \<longleftrightarrow> xr_wf v"
| "sendable (SourceDescription v) \<longleftrightarrow> list_all sdes_wf (ds_reports v) \<and> length (ds_reports v) \<le> 31"
| "sendable (Goodbye v) \<longleftrightarrow> length (gb_reports v) \<le> 31"
| "sendable (Nack v) \<longleftrightarrow> length (n_reports v) \<le> 31"
| "sendable (Pli v) \<longleftrightarrow> True"
| "sendable (Fir v) \<longleftrightarrow> length (fir_reports v) \<le> 31"
| "sendable (Twcc v) \<longleftrightarrow> twcc_wf v \<and> large_runs_last (tw_chunks v)"
| "sendable (Remb v) \<longleftrightarrow> remb_wf v"

lemmas dispatch = rtcp_parse_def as_packet_def sr_header_def rr_header_def xr_header_def descriptions_header_def
  goodbye_header_def nack_header_def pli_header_def fir_header_def remb_header_def

lemma sendable_travels:
  assumes "sendable p" "\<not> rtcp_is_empty p" "4 * rtcp_length_words p \<le> length buf" "length buf \<le> 262144"
  shows "travels p buf"
proof (cases p)
  case (SenderReport v)
  then show ?thesis using sr.packet_travels [of v buf "SenderReport v"] sr.parses [of v] assms
    by (simp add: travels_def dispatch)
next
  case (ReceiverReport v)
  then show ?thesis using rr.packet_travels [of v buf "ReceiverReport v"] rr.parses [of v] assms
    by (simp add: travels_def dispatch)
next
  case (ExtendedReport v)
  then show ?thesis using xr.packet_travels [of v buf "ExtendedReport v"] xr.parses [of v] assms
    by (simp add: travels_def dispatch)
next
  case (SourceDescription v)
  then have "descriptions_wf v" using assms by (simp add: descriptions_wf_def)
  then show ?thesis
    using descriptions.packet_travels [of v buf "SourceDescription v"] descriptions.parses [of v] assms SourceDescription
    by (simp add: travels_def dispatch)
next
  case (Goodbye v)
  then have wf: "goodbye_wf v" using assms by (simp add: goodbye_wf_def)
  then have "rtcp_parse (goodbye_header v) (goodbye_body v) = ok (Goodbye v)"
    using goodbye.parses [OF wf] by (auto simp: dispatch split: option.splits)
  then show ?thesis using goodbye.packet_travels [OF wf, of buf "Goodbye v"] assms Goodbye by (simp add: travels_def)
next
  case (Nack v)
  then have "nack_wf v" using assms by (simp add: nack_wf_def)
  then show ?thesis using nack.packet_travels [of v buf "Nack v"] nack.parses [of v] assms Nack
    by (simp add: travels_def dispatch)
next
  case (Pli v)
  then show ?thesis using pli.packet_travels [of v buf "Pli v"] pli.parses [of v] assms
    by (simp add: travels_def dispatch)
next
  case (Fir v)
  then have "fir_wf v" using assms by (simp add: fir_wf_def)
  then show ?thesis using fir.packet_travels [of v buf "Fir v"] fir.parses [of v] assms Fir
    by (simp add: travels_def dispatch)
next
  case (Twcc v)
  then show ?thesis using twcc_travels [of v buf] assms by simp
next
  case (Remb v)
  then show ?thesis using remb.packet_travels [of v buf "Remb v"] remb.parses [of v] assms
    by (simp add: travels_def dispatch)
qed

lemma list_all_take_drop: "list_all P ys \<Longrightarrow> list_all P (take n ys) \<and> list_all P (drop n ys)"
  by (metis append_take_drop_id list_all_append)

lemma merge_rtcp_sendable:
  "merge_rtcp a b w = (a', b', m) \<Longrightarrow> sendable a \<Longrightarrow> sendable b \<Longrightarrow> sendable a' \<and> sendable b'"
  by (cases "(a, b, w)" rule: merge_rtcp.cases)
    (auto split: prod.splits if_splits dest!: merge_reports_split simp: sr_wf_def rr_wf_def list_all_take_drop)

lemma pack_into_sendable:
  "pack_into a bs w = (a', bs', c, l) \<Longrightarrow> sendable a \<Longrightarrow> list_all sendable bs \<Longrightarrow> sendable a' \<and> list_all sendable bs'"
proof (induction a bs w arbitrary: a' bs' c l rule: pack_into.induct)
  case (2 a b bs w)
  show ?case
  proof (cases "rtcp_is_full a \<or> rtcp_is_empty a \<or> w < rtcp_length_words a")
    case False
    obtain a1 b1 m where m: "merge_rtcp a b (w - rtcp_length_words a) = (a1, b1, m)" by (metis prod_cases3)
    obtain a2 bs2 c2 l2 where p: "pack_into a1 bs w = (a2, bs2, c2, l2)" by (metis prod_cases4)
    have e: "(a', bs', c, l) = (a2, b1 # bs2, m \<or> c2, l2)" using False m p "2.prems"(1) by simp
    have "sendable a1 \<and> sendable b1" using merge_rtcp_sendable [OF m] "2.prems"(2,3) by simp
    with "2.IH" [OF _ _ m [symmetric] refl refl p] False "2.prems"(3) e show ?thesis by auto
  qed (use "2.prems" in \<open>auto split: if_splits\<close>)
qed simp

lemma pack_loop_sendable: "list_all sendable fb \<Longrightarrow> list_all sendable (pack_loop i fb w)"
proof (induction i fb w rule: pack_loop.induct)
  case (1 i fb w)
  show ?case
  proof (cases "length fb \<le> i + 1 \<or> w < rtcp_length_words (fb ! i)")
    case True
    then show ?thesis using "1.prems" by (subst pack_loop.simps) auto
  next
    case False
    obtain a bs c l where p: "pack_into (fb ! i) (drop (i + 1) fb) w = (a, bs, c, l)" by (metis prod_cases4)
    define fb' where "fb' = take i fb @ a # bs"
    have "list_all sendable (take i fb)" "list_all sendable (drop (i + 1) fb)"
      using list_all_take_drop "1.prems" by blast+
    moreover have "sendable (fb ! i)" using False "1.prems" by (auto simp: list_all_length)
    ultimately have "list_all sendable fb'" unfolding fb'_def using pack_into_sendable [OF p] by simp
    moreover have "pack_loop i fb w = (if l then fb' else if c then pack_loop i fb' w
        else pack_loop (i + 1) fb' (w - rtcp_length_words a))"
      using False p by (subst pack_loop.simps) (simp add: fb'_def)
    ultimately show ?thesis
      using "1.IH" [OF _ _ p [symmetric] refl refl refl] False by (auto simp: fb'_def)
  qed
qed

lemma pack_sendable:
  assumes "list_all (\<lambda>p. sendable p \<and> \<not> rtcp_is_empty p) fb"
  shows "list_all (\<lambda>p. sendable p \<and> \<not> rtcp_is_empty p) (pack fb w)"
proof (cases "length fb < 2")
  case False
  have "list_all sendable (pack_loop 0 (sort_key order_no fb) w)"
    using assms by (intro pack_loop_sendable) (auto simp: list_all_iff)
  then show ?thesis using False by (auto simp: pack_def list_all_iff)
qed (use assms in \<open>simp add: pack_def\<close>)

section \<open>A datagram of feedback\<close>

lemma write_loop_reads:
  assumes "list_all (\<lambda>p. sendable p \<and> \<not> rtcp_is_empty p) fb" "length (pre @ rest) \<le> 262144"
  shows "\<exists>left bs rest' outs. write_loop fb (pre @ rest) (length pre) out
      = Some (left, pre @ bs @ rest', out @ outs, length pre + length bs)
    \<and> length bs + length rest' = length rest \<and> fb = outs @ left
    \<and> (\<forall>acc more. read_packet (bs @ more) acc = read_packet more (acc @ outs))"
  using assms
proof (induction fb arbitrary: pre rest out)
  case Nil
  show ?case by (intro exI [of _ "[]"] exI [of _ rest]) simp
next
  case (Cons p fb)
  let ?n = "rtcp_length_words p * 4"
  show ?case
  proof (cases "length rest < ?n")
    case True
    then show ?thesis by (intro exI [of _ "p # fb"] exI [of _ "[]"] exI [of _ rest]) simp
  next
    case False
    have "travels p rest" using Cons.prems False by (intro sendable_travels) auto
    then obtain pb where pb: "length pb = ?n" "rtcp_write_to p rest = Some (pb @ drop ?n rest, ?n)"
      "\<And>more. read_step (pb @ more) = Some (Some (Some p, ?n))"
      unfolding travels_def by (auto simp: mult.commute)
    obtain left bs rest' outs where IH: "write_loop fb ((pre @ pb) @ drop ?n rest) (length (pre @ pb)) (out @ [p])
        = Some (left, (pre @ pb) @ bs @ rest', (out @ [p]) @ outs, length (pre @ pb) + length bs)"
      "length bs + length rest' = length (drop ?n rest)" "fb = outs @ left"
      "\<And>acc more. read_packet (bs @ more) acc = read_packet more (acc @ outs)"
      using Cons.IH [of "pre @ pb" "drop ?n rest" "out @ [p]"] Cons.prems False pb(1) by auto
    have "write_loop (p # fb) (pre @ rest) (length pre) out
        = Some (left, pre @ (pb @ bs) @ rest', out @ (p # outs), length pre + length (pb @ bs))"
      using False pb(1,2) IH(1) by (simp add: Let_def add.assoc)
    moreover have "read_packet ((pb @ bs) @ more) acc = read_packet more (acc @ (p # outs))" for acc more
    proof -
      have "0 < length pb" using read_step_length [OF pb(3) [of "[]"]] pb(1) by simp
      then have "read_packet (pb @ bs @ more) acc = read_packet (bs @ more) (acc @ [p])"
        using pb(1) pb(3) [of "bs @ more"] by (subst read_packet.simps) auto
      then show ?thesis by (simp add: IH(4))
    qed
    ultimately show ?thesis using False pb(1) IH(2,3)
      by (intro exI [of _ left] exI [of _ "pb @ bs"] exI [of _ rest'] exI [of _ "p # outs"]) simp
  qed
qed

text \<open>C3. Feedback that can be transported gets through: writing does not panic and stays in the buffer, the reader finds exactly
  the packets written, in order, and these together with what is left in the queue are all the reports queued. What
  can be transported is \<open>sendable\<close>: it leaves out packets without reports, source descriptions whose values do not leave
  one or two octets of the last word, DLRR blocks, congestion control feedback with a delta behind a run of large ones,
  bit rates that are not kept exactly, and lists of more than 31 reports; the buffer has at most 262144 octets. How
  the code fails on what is left out show the theorems of \<open>Sdes\<close>, \<open>ExtendedReports\<close>, \<open>Twcc\<close> and \<open>Remb\<close>.
\<close>

theorem feedback_gets_through:
  assumes "list_all (\<lambda>p. sendable p \<and> \<not> rtcp_is_empty p) fb" and "length buf \<le> 262144"
  shows "\<exists>left buf' out n. write_packet fb buf = Some (left, buf', out, n) \<and> n \<le> length buf \<and> length buf' = length buf
    \<and> read_packet (take n buf') [] = Some out \<and> all_items out + all_items left = all_items fb"
proof (cases "fb = []")
  case True
  then show ?thesis by (simp add: write_packet_def read_packet.simps)
next
  case False
  obtain left bs rest' outs where w: "write_loop (pack fb (length buf div 4)) ([] @ buf) (length ([] :: bytes)) []
      = Some (left, [] @ bs @ rest', [] @ outs, length ([] :: bytes) + length bs)"
    "length bs + length rest' = length buf" "pack fb (length buf div 4) = outs @ left"
    "\<And>acc more. read_packet (bs @ more) acc = read_packet more (acc @ outs)"
    using write_loop_reads [OF pack_sendable [OF assms(1)], of "[]" buf "length buf div 4" "[]"] assms(2) by auto
  have "read_packet bs [] = Some outs" using w(4) [of "[]" "[]"] by (simp add: read_packet.simps)
  moreover have "all_items outs + all_items left = all_items fb"
    using pack_items [of fb "length buf div 4"] by (simp add: w(3))
  ultimately show ?thesis using False w(1,2) by (simp add: write_packet_def)
qed

theorem feedback_gets_through_witness:
  "\<exists>left buf' out n. write_packet
       [Nack \<lparr>n_sender_ssrc = 1, n_ssrc = 2, n_reports = [\<lparr>ne_pid = 3, ne_blp = 4\<rparr>]\<rparr>, Pli \<lparr>pli_sender_ssrc = 1, pli_ssrc = 9\<rparr>,
        Nack \<lparr>n_sender_ssrc = 1, n_ssrc = 2, n_reports = [\<lparr>ne_pid = 30, ne_blp = 0\<rparr>]\<rparr>] (replicate 40 0)
      = Some (left, buf', out, n) \<and> n \<le> 40 \<and> length buf' = 40 \<and> read_packet (take n buf') [] = Some out
    \<and> all_items out + all_items left = {#NackItem 2 \<lparr>ne_pid = 3, ne_blp = 4\<rparr>, PliItem \<lparr>pli_sender_ssrc = 1, pli_ssrc = 9\<rparr>,
        NackItem 2 \<lparr>ne_pid = 30, ne_blp = 0\<rparr>#}"
proof -
  let ?fb = "[Nack \<lparr>n_sender_ssrc = 1, n_ssrc = 2, n_reports = [\<lparr>ne_pid = 3, ne_blp = 4\<rparr>]\<rparr>, Pli \<lparr>pli_sender_ssrc = 1, pli_ssrc = 9\<rparr>,
        Nack \<lparr>n_sender_ssrc = 1, n_ssrc = 2, n_reports = [\<lparr>ne_pid = 30, ne_blp = 0\<rparr>]\<rparr>]"
  have items: "all_items ?fb = {#NackItem 2 \<lparr>ne_pid = 3, ne_blp = 4\<rparr>, PliItem \<lparr>pli_sender_ssrc = 1, pli_ssrc = 9\<rparr>,
        NackItem 2 \<lparr>ne_pid = 30, ne_blp = 0\<rparr>#}" by simp
  have "list_all (\<lambda>p. sendable p \<and> \<not> rtcp_is_empty p) ?fb" "length (replicate 40 0 :: bytes) \<le> 262144" by simp_all
  from feedback_gets_through [OF this] show ?thesis unfolding items length_replicate .
qed

section \<open>Panics\<close>

lemma header_feedback: "header_try_from buf = ok h \<Longrightarrow> \<exists>fmt. feedback_of (h_type h) fmt = Inr (h_feedback h)"
  by (auto simp: header_try_from_def Let_def split: if_split_asm Option.bind_split_asm sum.split_asm)

lemma goodbye_has_count: "header_try_from buf = ok h \<Longrightarrow> h_type h = GoodbyeT \<Longrightarrow> h_count h \<noteq> None"
  using header_feedback [of buf h] by (auto simp: feedback_of_def h_count_def dest: sym)

lemma as_packet_None [simp]: "as_packet C r = None \<longleftrightarrow> r = None"
  by (simp add: as_packet_def)

text \<open>C32. Reading one packet can only panic in a source description, an extended report or a REMB packet; all the other
  parsers stay inside the buffer, whatever the octets.
\<close>

theorem rtcp_panics_confined:
  assumes "rtcp_try_from buf = None"
  shows "\<exists>h. header_try_from buf = ok h
    \<and> (h_type h = SourceDescriptionT \<or> h_type h = ExtendedReportT \<or> h_feedback h = PayloadFeedback ApplicationLayerT)"
proof -
  obtain h where h: "header_try_from buf = ok h" and p: "slice buf 4 (length buf) = None \<or> rtcp_parse h (drop 4 buf) = None"
    using assms header_try_from_total [of buf]
    by (auto simp: rtcp_try_from_def and_then_None slice_def simp del: not_None_eq split: if_splits)
  have "slice buf 4 (length buf) \<noteq> None" using header_try_from_length [OF h] by (simp add: slice_def)
  with p have "rtcp_parse h (drop 4 buf) = None" by simp
  then show ?thesis
    using h goodbye_has_count [OF h] packet_parsers_total twcc_try_from_total
    by (auto simp: rtcp_parse_def simp del: not_None_eq
        split: rtcp_type.splits feedback_type.splits transport_type.splits payload_type.splits option.splits)
qed

theorem rtcp_panics_confined_witness:
  "rtcp_try_from [0x80, 207, 0, 2, 0, 0, 0, 1, 4, 0, 0, 2] = None \<and>
    (\<exists>h. header_try_from [0x80, 207, 0, 2, 0, 0, 0, 1, 4, 0, 0, 2] = ok h
      \<and> (h_type h = SourceDescriptionT \<or> h_type h = ExtendedReportT \<or> h_feedback h = PayloadFeedback ApplicationLayerT))"
proof -
  have e: "rtcp_try_from [0x80, 207, 0, 2, 0, 0, 0, 1, 4, 0, 0, 2] = None" by code_simp
  show ?thesis using rtcp_panics_confined [OF e] e by blast
qed

text \<open>A source description whose values fill whole words, such as a single CNAME of two octets, makes the writer panic
  at its own assertion: it writes one word more than it announced.
\<close>

theorem aligned_sdes_panics:
  assumes "values_len (sd_values s) mod 4 = 0" and "4 + 4 * sdes_word_size s \<le> length buf"
  shows "write_packet [SourceDescription \<lparr>ds_reports = [s]\<rparr>] buf = None"
  using sdes_sizes(1) [OF assms(1)] assms(2)
  by (auto simp: write_packet_def pack_def Let_def descriptions_length_words_def descriptions_write_to_def
      descriptions_body_def bind_eq_Some_conv split: Option.bind_splits)

theorem aligned_sdes_panics_witness:
  "write_packet [SourceDescription \<lparr>ds_reports = [\<lparr>sd_ssrc = 1, sd_values = [(CNAME, [65, 66])]\<rparr>]\<rparr>] (replicate 100 0) = None"
  by (rule aligned_sdes_panics) (simp_all add: values_len_def sdes_word_size_def pad_bytes_to_word_def)

section \<open>One source at a time\<close>

text \<open>\<open>RtcpFb\<close>: the feedback as the session hands it to the streams.\<close>

datatype rtcp_fb = FbSenderInfo sender_info | FbReception reception_report | FbDlrrItem dlrr_item | FbRrtr rrtr u32
  | FbSdes sdes | FbGoodbye u32 | FbNack u32 "nack_entry list" | FbPli u32 | FbFir fir_entry | FbTwcc twcc | FbRemb remb

fun block_fb :: "u32 \<Rightarrow> report_block \<Rightarrow> rtcp_fb list" where
  "block_fb ssrc (RrtrBlock b) = [FbRrtr b ssrc]"
| "block_fb ssrc (DlrrBlock v) = map FbDlrrItem (dlrr_items v)"

fun packet_fb :: "rtcp \<Rightarrow> rtcp_fb list" where
  "packet_fb (SenderReport v) = FbSenderInfo (sr_sender_info v) # map FbReception (sr_reports v)"
| "packet_fb (ReceiverReport v) = map FbReception (rr_reports v)"
| "packet_fb (ExtendedReport v) = concat (map (block_fb (xr_ssrc v)) (xr_blocks v))"
| "packet_fb (SourceDescription v) = map FbSdes (ds_reports v)"
| "packet_fb (Goodbye v) = map FbGoodbye (gb_reports v)"
| "packet_fb (Nack v) = [FbNack (n_ssrc v) (n_reports v)]"
| "packet_fb (Pli v) = [FbPli (pli_ssrc v)]"
| "packet_fb (Fir v) = map FbFir (fir_reports v)"
| "packet_fb (Twcc v) = [FbTwcc v]"
| "packet_fb (Remb v) = [FbRemb v]"

definition from_rtcp :: "rtcp list \<Rightarrow> rtcp_fb list" where
  "from_rtcp t = concat (map packet_fb t)"

fun is_for_rx :: "rtcp_fb \<Rightarrow> bool" where
  "is_for_rx (FbSenderInfo _) = True"
| "is_for_rx (FbSdes _) = True"
| "is_for_rx (FbGoodbye _) = True"
| "is_for_rx (FbDlrrItem _) = True"
| "is_for_rx _ = False"

fun fb_ssrc :: "rtcp_fb \<Rightarrow> u32" where
  "fb_ssrc (FbSenderInfo v) = si_ssrc v"
| "fb_ssrc (FbReception v) = rp_ssrc v"
| "fb_ssrc (FbDlrrItem v) = di_ssrc v"
| "fb_ssrc (FbRrtr _ ssrc) = ssrc"
| "fb_ssrc (FbSdes v) = sd_ssrc v"
| "fb_ssrc (FbGoodbye v) = v"
| "fb_ssrc (FbNack v _) = v"
| "fb_ssrc (FbPli v) = v"
| "fb_ssrc (FbFir v) = fe_ssrc v"
| "fb_ssrc (FbTwcc v) = tw_ssrc v"
| "fb_ssrc (FbRemb v) = (case rb_ssrcs v of ssrc # _ \<Rightarrow> ssrc | [] \<Rightarrow> rb_ssrc v)"

text \<open>What a packet tells the streams, a NACK entry by entry, depends on its reports only.\<close>

fun fb_parts :: "rtcp_fb \<Rightarrow> rtcp_fb list" where
  "fb_parts (FbNack ssrc rs) = map (\<lambda>r. FbNack ssrc [r]) rs"
| "fb_parts fb = [fb]"

definition told :: "rtcp_fb list \<Rightarrow> rtcp_fb multiset" where
  "told fbs = mset (concat (map fb_parts fbs))"

fun item_fb :: "item \<Rightarrow> rtcp_fb list" where
  "item_fb (SenderItem v) = [FbSenderInfo v]"
| "item_fb (ReceptionItem v) = [FbReception v]"
| "item_fb (BlockItem ssrc b) = block_fb ssrc b"
| "item_fb (SdesItem v) = [FbSdes v]"
| "item_fb (ByeItem v) = [FbGoodbye v]"
| "item_fb (NackItem ssrc e) = [FbNack ssrc [e]]"
| "item_fb (PliItem v) = [FbPli (pli_ssrc v)]"
| "item_fb (FirItem v) = [FbFir v]"
| "item_fb (TwccItem v) = [FbTwcc v]"
| "item_fb (RembItem v) = [FbRemb v]"

lemma fb_parts_map: "(\<And>x. fb_parts (C x) = [C x]) \<Longrightarrow> concat (map fb_parts (map C xs)) = map C xs"
  by (induction xs) auto

lemma block_parts: "concat (map fb_parts (concat (map (block_fb s) bs))) = concat (map (block_fb s) bs)"
proof (induction bs)
  case (Cons b bs)
  then show ?case by (cases b) (simp_all add: fb_parts_map [of FbDlrrItem] del: map_map)
qed simp

lemma told_packet: "told (packet_fb p) = mset (concat (map item_fb (items p)))"
  by (cases p) (auto simp: told_def block_parts o_def concat_map_singleton)

lemma told_from_rtcp: "told (from_rtcp fb) = sum_mset (image_mset (\<lambda>i. mset (item_fb i)) (all_items fb))"
proof -
  have items: "mset (concat (map item_fb is)) = sum_mset (image_mset (\<lambda>i. mset (item_fb i)) (mset is))" for "is"
    by (induction "is") simp_all
  show ?thesis
  proof (induction fb)
    case (Cons p fb)
    have "told (from_rtcp (p # fb)) = told (packet_fb p) + told (from_rtcp fb)" by (simp add: told_def from_rtcp_def)
    with Cons show ?case by (simp add: told_packet items)
  qed (simp add: told_def from_rtcp_def)
qed

text \<open>Packing is invisible to the streams: the feedback from the packed queue tells every stream exactly what the
  unpacked queue would have told it.
\<close>

theorem packing_invisible:
  "told (from_rtcp (pack fb w)) = told (from_rtcp fb)"
  by (simp add: told_from_rtcp pack_items)

end
