(* ===== verification/TwccReport.thy ===== *)
theory TwccReport imports Twcc begin

text \<open>
  What the sender makes of a congestion control feedback: the iterator over the reported packets and the
  register of sent packets, \<open>TwccIter\<close> and \<open>TwccSendRegister\<close> of \<open>rtp/rtcp/twcc.rs\<close>. An instant is a
  number of microseconds; subtracting from an instant is taken to succeed.
\<close>

section \<open>The iterator\<close>

datatype 'a yielded = Panicked | Exhausted | Yield 'a

record twcc_iter =
  ti_base_seq :: u64
  ti_time_base :: int
  ti_index :: nat
  ti_chunks :: "packet_chunk list"
  ti_delta :: "delta list"

definition twcc_into_iter :: "twcc \<Rightarrow> int \<Rightarrow> u64 \<Rightarrow> twcc_iter" where
  "twcc_into_iter p time_zero extend_from =
     \<lparr>ti_base_seq = extend_u16 (Some extend_from) (tw_base_seq p),
      ti_time_base = time_zero + 1000 * (int (unat (tw_reference_time p)) * 64),
      ti_index = 0, ti_chunks = tw_chunks p, ti_delta = tw_delta p\<rparr>"

fun run_status :: "packet_status \<Rightarrow> packet_status" where
  "run_status UnknownStatus = NotReceived"
| "run_status s = s"

text \<open>The status at the index and the number of packets of the chunk; an index beyond the vector is a shift overflow.\<close>

fun status_at :: "packet_chunk \<Rightarrow> nat \<Rightarrow> (packet_status \<times> u16) option" where
  "status_at (Run s n) i = Some (run_status s, n)"
| "status_at (VectorSingle v n) i =
     (if 13 < i then None else Some (if bit v (13 - i) then ReceivedSmallDelta else NotReceived, n))"
| "status_at (VectorDouble v n) i =
     (if 6 < i then None else Some (status_from (ucast (drop_bit (12 - i * 2) v AND 3)), n))"

fun delta_micros :: "delta \<Rightarrow> int" where
  "delta_micros (Small v) = 250 * int (unat v)"
| "delta_micros (Large v) = 250 * sint v"

text \<open>The instant of a packet and the deltas left.\<close>

fun instant_of :: "packet_status \<Rightarrow> int \<Rightarrow> delta list \<Rightarrow> (int option \<times> delta list) yielded" where
  "instant_of NotReceived t ds = Yield (None, ds)"
| "instant_of ReceivedSmallDelta t (Small v # ds) = Yield (Some (t + delta_micros (Small v)), ds)"
| "instant_of ReceivedSmallDelta t (Large v # ds) = Panicked"
| "instant_of ReceivedLargeOrNegativeDelta t (Small v # ds) = Panicked"
| "instant_of ReceivedLargeOrNegativeDelta t (Large v # ds) = Yield (Some (t + delta_micros (Large v)), ds)"
| "instant_of UnknownStatus t ds = Panicked"
| "instant_of _ t [] = Exhausted"

type_synonym report_item = "u64 \<times> packet_status \<times> int option"

definition twcc_next :: "twcc_iter \<Rightarrow> (report_item \<times> twcc_iter) yielded" where
  "twcc_next st =
     (case ti_chunks st of
        [] \<Rightarrow> Exhausted
      | head # chunks \<Rightarrow>
          (case status_at head (ti_index st) of
             None \<Rightarrow> Panicked
           | Some (status, amount) \<Rightarrow>
               (case instant_of status (ti_time_base st) (ti_delta st) of
                  Panicked \<Rightarrow> Panicked
                | Exhausted \<Rightarrow> Exhausted
                | Yield (instant, delta) \<Rightarrow>
                    (let time_base = (case instant of Some t \<Rightarrow> t | None \<Rightarrow> ti_time_base st);
                         seq = ti_base_seq st + of_nat (ti_index st);
                         st = st\<lparr>ti_time_base := time_base, ti_delta := delta, ti_index := ti_index st + 1\<rparr>;
                         st = (if ti_index st = unat amount
                               then st\<lparr>ti_chunks := chunks, ti_base_seq := seq + 1, ti_index := 0\<rparr> else st)
                     in Yield ((seq, status, instant), st)))))"

text \<open>The first items, at most as many as asked for.\<close>

fun twcc_items :: "nat \<Rightarrow> twcc_iter \<Rightarrow> report_item list option" where
  "twcc_items 0 st = Some []"
| "twcc_items (Suc n) st =
     (case twcc_next st of
        Panicked \<Rightarrow> None
      | Exhausted \<Rightarrow> Some []
      | Yield (item, st) \<Rightarrow> map_option (\<lambda>items. item # items) (twcc_items n st))"

section \<open>What it yields\<close>

text \<open>
  The items of consecutive packets with the statuses given, each received one at its delta after the one before; the
  packet of the first status has the number \<open>seq\<close>.
\<close>

fun report_of :: "u64 \<Rightarrow> int \<Rightarrow> packet_status list \<Rightarrow> delta list \<Rightarrow> report_item list" where
  "report_of seq t (s # ss) ds =
     (if received s then (case ds of d # ds \<Rightarrow> (seq, s, Some (t + delta_micros d)) # report_of (seq + 1) (t + delta_micros d) ss ds
                          | [] \<Rightarrow> [])
      else (seq, s, None) # report_of (seq + 1) t ss ds)"
| "report_of seq t [] ds = []"

lemma report_of_seqs: "map delta_status ds = filter received ss \<Longrightarrow> map fst (report_of q t ss ds) = map (\<lambda>i. q + of_nat i) [0..<length ss]"
proof (induction ss arbitrary: q t ds)
  case (Cons s ss)
  have u: "[0..<length (s # ss)] = 0 # map Suc [0..<length ss]" by (simp add: upt_conv_Cons map_Suc_upt del: upt_Suc)
  show ?case
  proof (cases "received s")
    case True
    then obtain d ds' where "ds = d # ds'" "map delta_status ds' = filter received ss" using Cons.prems by (cases ds) auto
    then show ?thesis using Cons.IH [of ds' "q + 1" "t + delta_micros d"] True u by (simp add: o_def add.assoc del: upt_Suc)
  next
    case False
    then show ?thesis using Cons.IH [of ds "q + 1" t] Cons.prems u by (simp add: o_def add.assoc del: upt_Suc)
  qed
qed simp

lemma report_of_take: "report_of q t (take n ss) ds = take n (report_of q t ss ds)"
proof (induction q t ss ds arbitrary: n rule: report_of.induct)
  case (1 q t s ss ds)
  then show ?case by (cases n) (auto split: list.splits)
qed simp

fun statuses :: "packet_chunk \<Rightarrow> packet_status list" where
  "statuses (Run s n) = replicate (unat n) (run_status s)"
| "statuses c = chunk_symbols c"

text \<open>A chunk the iterator understands: not empty, full, and without the reserved symbol.\<close>

fun iterable :: "packet_chunk \<Rightarrow> bool" where
  "iterable (Run s n) \<longleftrightarrow> n \<noteq> 0"
| "iterable (VectorSingle v n) \<longleftrightarrow> n = 14"
| "iterable (VectorDouble v n) \<longleftrightarrow> n = 7 \<and> UnknownStatus \<notin> set (double_symbols v)"

lemma length_statuses: "length (statuses c) = max_possible_status_count c"
  using length_chunk_symbols [of c] by (cases c) simp_all

lemma status_at_iterable:
  assumes "iterable c" "i < length (statuses c)"
  shows "\<exists>n. status_at c i = Some (statuses c ! i, n) \<and> unat n = length (statuses c)"
    and "statuses c ! i \<noteq> UnknownStatus"
proof -
  have "\<exists>n. status_at c i = Some (statuses c ! i, n) \<and> unat n = length (statuses c) \<and> statuses c ! i \<noteq> UnknownStatus"
  proof (cases c)
    case (Run s n)
    then show ?thesis using assms(2) by (cases s) simp_all
  next
    case (VectorSingle v n)
    then show ?thesis using assms by (simp add: single_symbols_def)
  next
    case (VectorDouble v n)
    then have i: "i < 7" using assms(2) by (simp add: double_symbols_def)
    then have "i \<in> {0, 1, 2, 3, 4, 5, 6}" by auto
    then have "double_symbols v ! i = status_from (ucast (drop_bit (12 - i * 2) v AND 3))"
      by (auto simp: double_symbols_def)
    moreover have "double_symbols v ! i \<in> set (double_symbols v)"
      using i by (intro nth_mem) (simp add: double_symbols_def)
    ultimately show ?thesis using i VectorDouble assms by (auto simp: double_symbols_def)
  qed
  then show "\<exists>n. status_at c i = Some (statuses c ! i, n) \<and> unat n = length (statuses c)"
    "statuses c ! i \<noteq> UnknownStatus" by auto
qed

lemma instant_of_matching:
  assumes "s \<noteq> UnknownStatus" "map delta_status ds = filter received (s # ss)"
  shows "\<not> received s \<Longrightarrow> instant_of s t ds = Yield (None, ds)"
    and "received s \<Longrightarrow> \<exists>d ds'. ds = d # ds' \<and> instant_of s t ds = Yield (Some (t + delta_micros d), ds')
      \<and> map delta_status ds' = filter received ss"
proof -
  show "instant_of s t ds = Yield (None, ds)" if "\<not> received s" using that assms(1) by (cases s) auto
  show "\<exists>d ds'. ds = d # ds' \<and> instant_of s t ds = Yield (Some (t + delta_micros d), ds')
      \<and> map delta_status ds' = filter received ss" if "received s"
  proof -
    from that assms(2) obtain d ds' where d: "ds = d # ds'" "delta_status d = s" "map delta_status ds' = filter received ss"
      by (cases ds) auto
    then show ?thesis using that by (cases d; cases s) auto
  qed
qed

abbreviation iter_at :: "u64 \<Rightarrow> int \<Rightarrow> nat \<Rightarrow> packet_chunk list \<Rightarrow> delta list \<Rightarrow> twcc_iter" where
  "iter_at b t i cs ds \<equiv> \<lparr>ti_base_seq = b, ti_time_base = t, ti_index = i, ti_chunks = cs, ti_delta = ds\<rparr>"

lemma twcc_next_step:
  assumes c: "iterable c" "i < length (statuses c)" and m: "map delta_status ds = filter received (statuses c ! i # ss)"
  obtains inst t' ds' where
    "twcc_next (iter_at b t i (c # cs) ds) = Yield ((b + of_nat i, statuses c ! i, inst),
       if i + 1 = length (statuses c) then iter_at (b + of_nat i + 1) t' 0 cs ds' else iter_at b t' (i + 1) (c # cs) ds')"
    "map delta_status ds' = filter received ss"
    "\<And>q. report_of q t (statuses c ! i # ss) ds = (q, statuses c ! i, inst) # report_of (q + 1) t' ss ds'"
proof -
  let ?s = "statuses c ! i"
  obtain n where n: "status_at c i = Some (?s, n)" "unat n = length (statuses c)"
    using status_at_iterable(1) [OF c] by blast
  note im = instant_of_matching [OF status_at_iterable(2) [OF c] m, of t]
  show ?thesis
  proof (cases "received ?s")
    case True
    then obtain d ds' where d: "ds = d # ds'" "instant_of ?s t ds = Yield (Some (t + delta_micros d), ds')"
      "map delta_status ds' = filter received ss" using im(2) by blast
    show ?thesis
      by (rule that [of "Some (t + delta_micros d)" "t + delta_micros d" ds'])
        (use d n True in \<open>simp_all add: twcc_next_def Let_def add.commute\<close>)
  next
    case False
    show ?thesis
      by (rule that [of None t ds]) (use im(1) [OF False] n False m in \<open>simp_all add: twcc_next_def Let_def add.commute\<close>)
  qed
qed

lemma statuses_nonempty: "iterable c \<Longrightarrow> 0 < length (statuses c)"
  by (cases c) (simp_all add: single_symbols_def double_symbols_def unat_gt_0)

lemma twcc_items_spec:
  assumes "list_all iterable (c # cs)" "i < length (statuses c)"
    and "map delta_status ds = filter received (drop i (statuses c) @ concat (map statuses cs))"
  shows "twcc_items (length (drop i (statuses c) @ concat (map statuses cs)) + k) (iter_at b t i (c # cs) ds)
    = Some (report_of (b + of_nat i) t (drop i (statuses c) @ concat (map statuses cs)) ds)"
  using assms
proof (induction "length (drop i (statuses c) @ concat (map statuses cs))" arbitrary: i c cs ds b t)
  case 0
  then show ?case by simp
next
  case (Suc m)
  let ?ss = "drop (i + 1) (statuses c) @ concat (map statuses cs)"
  have c: "iterable c" and cs: "list_all iterable cs" using Suc.prems(1) by simp_all
  have ss: "drop i (statuses c) @ concat (map statuses cs) = statuses c ! i # ?ss"
    using Suc.prems(2) by (simp add: Cons_nth_drop_Suc)
  then have len: "m = length ?ss" using Suc.hyps(2) by simp
  obtain inst t' ds' where st:
    "twcc_next (iter_at b t i (c # cs) ds) = Yield ((b + of_nat i, statuses c ! i, inst),
       if i + 1 = length (statuses c) then iter_at (b + of_nat i + 1) t' 0 cs ds' else iter_at b t' (i + 1) (c # cs) ds')"
    "map delta_status ds' = filter received ?ss"
    "\<And>q. report_of q t (statuses c ! i # ?ss) ds = (q, statuses c ! i, inst) # report_of (q + 1) t' ?ss ds'"
    using twcc_next_step [OF c Suc.prems(2)] Suc.prems(3) unfolding ss by blast
  have rest: "twcc_items (length ?ss + k)
      (if i + 1 = length (statuses c) then iter_at (b + of_nat i + 1) t' 0 cs ds' else iter_at b t' (i + 1) (c # cs) ds')
    = Some (report_of (b + of_nat i + 1) t' ?ss ds')"
  proof (cases "i + 1 = length (statuses c)")
    case False
    then have "i + 1 < length (statuses c)" using Suc.prems(2) by simp
    from Suc.hyps(1) [OF len Suc.prems(1) this st(2), of "b" t'] False show ?thesis by (simp add: ac_simps)
  next
    case True
    show ?thesis
    proof (cases cs)
      case Nil
      then show ?thesis using True by (cases k) (simp_all add: twcc_next_def)
    next
      case (Cons c2 cs2)
      have "m = length (drop 0 (statuses c2) @ concat (map statuses cs2))" using len True Cons by simp
      from Suc.hyps(1) [OF this, of ds' "b + of_nat i + 1" t'] cs st(2) True Cons statuses_nonempty [of c2]
      show ?thesis by simp
    qed
  qed
  show ?case unfolding ss using st(1,3) rest by simp
qed

lemma twcc_iterates:
  assumes "list_all iterable (tw_chunks p)"
    and "map delta_status (tw_delta p) = filter received (concat (map statuses (tw_chunks p)))"
  shows "twcc_items (length (concat (map statuses (tw_chunks p))) + k) (twcc_into_iter p time_zero extend_from)
    = Some (report_of (extend_u16 (Some extend_from) (tw_base_seq p)) (time_zero + 64000 * int (unat (tw_reference_time p)))
        (concat (map statuses (tw_chunks p))) (tw_delta p))"
proof (cases "tw_chunks p")
  case Nil
  then show ?thesis by (cases k) (simp_all add: twcc_into_iter_def twcc_next_def)
next
  case (Cons c cs)
  then show ?thesis
    using twcc_items_spec [of c cs 0 "tw_delta p" k] assms(1,2) statuses_nonempty [of c]
    by (simp add: twcc_into_iter_def)
qed

section \<open>Parsed feedback has its deltas\<close>

lemma chunk_from_word_ok: "chunk_ok (chunk_from_word x)"
proof -
  have "x AND 0x3FFF < 2 ^ 14" "x AND 0x1FFF < 2 ^ 13"
    unfolding field_masks take_bit_eq_mask [symmetric]
    using less_pow2_iff [of 14 "take_bit 14 x"] less_pow2_iff [of 13 "take_bit 13 x"] by simp_all
  then show ?thesis by (simp add: chunk_from_word_def Let_def)
qed

lemma chunks_loop_ok: "chunks_loop todo buf = ok (cs, rest) \<Longrightarrow> list_all chunk_ok cs"
proof (induction todo buf arbitrary: cs rest rule: chunks_loop.induct)
  case (1 todo buf)
  show ?case
  proof (cases "todo \<le> 0")
    case False
    then obtain c ds where c: "chunk_try_from buf = ok c"
      "chunks_loop (todo - int (max_possible_status_count c)) (drop 2 buf) = ok (ds, rest)" "cs = c # ds"
      using "1.prems" by (subst (asm) chunks_loop.simps) (auto simp: and_then_ok split: option.splits sum.splits)
    moreover have "chunk_ok c"
      using c(1) by (auto simp: chunk_try_from_def bind_eq_Some_conv chunk_from_word_ok split: if_splits)
    ultimately show ?thesis using "1.IH" [OF False c(1) refl c(2)] by simp
  qed (use "1.prems" in \<open>simp add: chunks_loop.simps\<close>)
qed

lemma large_deltas_status: "2 * n \<le> length buf \<Longrightarrow> map delta_status (large_deltas n buf) = replicate n ReceivedLargeOrNegativeDelta"
  by (induction n buf rule: large_deltas.induct) auto

lemma symbol_deltas_status: "symbol_deltas ss buf = ok (ds, r) \<Longrightarrow> map delta_status ds = filter received ss"
  by (induction ss buf arbitrary: ds r rule: symbol_deltas.induct)
    (auto simp: and_then_ok read_delta_small_def read_delta_large_def take_Suc_conv_app_nth large_deltas_status
      split: if_splits)

lemma single_filter: "filter received (single_symbols v) = replicate (length (filter received (single_symbols v))) ReceivedSmallDelta"
  by (rule replicate_length_same [symmetric]) (use single_received in blast)

lemma small_deltas_status: "read_delta_small buf n = ok ds \<Longrightarrow> map delta_status ds = replicate n ReceivedSmallDelta"
  by (auto simp: read_delta_small_def o_def map_replicate_const split: if_splits)

lemma chunk_deltas_status:
  assumes "chunk_ok c" "chunk_deltas c buf = ok (ds, r)"
  shows "map delta_status ds = filter received (chunk_symbols c)"
proof (cases c)
  case (Run s n)
  then show ?thesis using assms(2)
    by (cases s) (auto simp: and_then_ok received_run small_deltas_status read_delta_large_def large_deltas_status split: if_splits)
next
  case (VectorSingle v n)
  then have "read_delta_small buf (count_ones v) = ok ds" using assms(2) by (auto simp: and_then_ok)
  then show ?thesis
    using VectorSingle assms(1) single_filter [of v] by (simp add: small_deltas_status count_ones_symbols)
next
  case (VectorDouble v n)
  then show ?thesis using assms(2) by (simp add: symbol_deltas_status)
qed

lemma deltas_loop_status:
  "list_all chunk_ok cs \<Longrightarrow> deltas_loop cs buf = ok ds \<Longrightarrow> map delta_status ds = filter received (concat (map chunk_symbols cs))"
  by (induction cs arbitrary: buf ds) (auto simp: and_then_ok chunk_deltas_status)

lemma received_statuses: "filter received (concat (map statuses cs)) = filter received (concat (map chunk_symbols cs))"
proof (induction cs)
  case (Cons c cs)
  have "filter received (statuses c) = filter received (chunk_symbols c)"
  proof (cases c)
    case (Run s n)
    then show ?thesis by (cases s) (simp_all add: received_run)
  qed simp_all
  with Cons show ?case by simp
qed simp

lemma parsed_status:
  assumes "twcc_try_from buf = ok p"
  shows "map delta_status (tw_delta p) = filter received (concat (map statuses (tw_chunks p)))"
proof -
  obtain rest1 rest2 where "chunks_loop (int (unat (tw_status_count p))) rest1 = ok (tw_chunks p, rest2)"
    "deltas_loop (tw_chunks p) rest2 = ok (tw_delta p)"
    using assms by (auto simp: twcc_try_from_def Let_def and_then_ok bind_eq_Some_conv split: if_splits)
  then show ?thesis using chunks_loop_ok deltas_loop_status received_statuses by metis
qed

text \<open>The iterator over a parsed feedback yields consecutive packets with their statuses and, for each one received,
  the instant its delta says, and then ends; it does not panic, provided no chunk is empty or has the reserved symbol.
\<close>

theorem parsed_feedback_iterates:
  assumes "twcc_try_from buf = ok p" and "list_all iterable (tw_chunks p)"
  shows "twcc_items (length (concat (map statuses (tw_chunks p))) + k) (twcc_into_iter p time_zero extend_from)
    = Some (report_of (extend_u16 (Some extend_from) (tw_base_seq p)) (time_zero + 64000 * int (unat (tw_reference_time p)))
        (concat (map statuses (tw_chunks p))) (tw_delta p))"
  by (rule twcc_iterates [OF assms(2) parsed_status [OF assms(1)]])

theorem parsed_feedback_iterates_witness:
  "\<exists>body. twcc_try_from body = ok small_feedback
    \<and> twcc_items (length (concat (map statuses (tw_chunks small_feedback))) + 5) (twcc_into_iter small_feedback 7 0)
      = Some (report_of (extend_u16 (Some 0) 82) (7 + 64000 * 25)
          (concat (map statuses (tw_chunks small_feedback))) (tw_delta small_feedback))"
proof -
  obtain body where body: "twcc_try_from body = ok small_feedback" using twcc_body_parses [OF small_feedback_wf] .
  have "list_all iterable (tw_chunks small_feedback)" by (simp add: small_feedback_def)
  with parsed_feedback_iterates [OF body, of 5 7 0] body show ?thesis by (auto simp: small_feedback_def)
qed

section \<open>Feedback that panics the sender\<close>

definition hostile_feedback :: "packet_chunk list \<Rightarrow> delta list \<Rightarrow> twcc" where
  "hostile_feedback cs ds = \<lparr>tw_sender_ssrc = 1, tw_ssrc = 2, tw_base_seq = 3, tw_status_count = 1, tw_reference_time = 4,
     tw_feedback_count = 5, tw_chunks = cs, tw_delta = ds\<rparr>"

text \<open>A peer can panic the sender with a status vector that has the reserved symbol: the parser lets it through,
  and the iterator declares it unreachable.
\<close>

theorem reserved_symbol_panics:
  "\<exists>buf p. twcc_try_from buf = ok p \<and> (\<forall>time_zero extend_from. twcc_next (twcc_into_iter p time_zero extend_from) = Panicked)"
proof -
  let ?p = "hostile_feedback [VectorDouble 0x3000 7] []"
  have "double_symbols 0x3000 = [UnknownStatus, NotReceived, NotReceived, NotReceived, NotReceived, NotReceived, NotReceived]"
    by code_simp
  then have "twcc_wf ?p" "large_runs_last (tw_chunks ?p)" by (simp_all add: twcc_wf_def hostile_feedback_def)
  then obtain buf where "twcc_try_from buf = ok ?p" by (rule twcc_body_parses)
  moreover have "status_at (VectorDouble 0x3000 7) 0 = Some (UnknownStatus, 7)" by code_simp
  then have "twcc_next (twcc_into_iter ?p t e) = Panicked" for t e
    by (simp add: twcc_next_def twcc_into_iter_def hostile_feedback_def)
  ultimately show ?thesis by blast
qed

text \<open>Nor does the parser object to an empty run: an empty run of small deltas before a large one makes the iterator
  take the large delta for a small one, and panic.
\<close>

theorem empty_run_panics:
  "\<exists>buf p. twcc_try_from buf = ok p \<and> tw_chunks p = [Run ReceivedSmallDelta 0, Run ReceivedLargeOrNegativeDelta 1]
    \<and> (\<forall>time_zero extend_from. twcc_next (twcc_into_iter p time_zero extend_from) = Panicked)"
proof -
  let ?p = "hostile_feedback [Run ReceivedSmallDelta 0, Run ReceivedLargeOrNegativeDelta 1] [Large 5]"
  have "twcc_wf ?p" "large_runs_last (tw_chunks ?p)" by (simp_all add: twcc_wf_def hostile_feedback_def)
  then obtain buf where "twcc_try_from buf = ok ?p" by (rule twcc_body_parses)
  moreover have "twcc_next (twcc_into_iter ?p t e) = Panicked" for t e
    by (simp add: twcc_next_def twcc_into_iter_def hostile_feedback_def)
  moreover have "tw_chunks ?p = [Run ReceivedSmallDelta 0, Run ReceivedLargeOrNegativeDelta 1]"
    by (simp add: hostile_feedback_def)
  ultimately show ?thesis by blast
qed

end
