(* ===== verification/TwccSend.thy ===== *)
theory TwccSend imports TwccReport begin

text \<open>
  The register of sent packets, \<open>TwccSendRegister\<close> of \<open>rtp/rtcp/twcc.rs\<close>: packets are registered with
  consecutive numbers, and a feedback fills in when the peer received them.
\<close>

section \<open>The register\<close>

record send_record =
  ts_seq :: u64
  ts_local_send_time :: int
  ts_size :: u16
  ts_recv_report :: "(int \<times> int option) option"

record send_register =
  sg_keep :: nat
  sg_queue :: "send_record list"
  sg_time_zero :: "int option"
  sg_last_registered :: u64

definition send_register_new :: "nat \<Rightarrow> send_register" where
  "send_register_new keep = \<lparr>sg_keep = keep, sg_queue = [], sg_time_zero = None, sg_last_registered = 0\<rparr>"

definition register_seq :: "u64 \<Rightarrow> int \<Rightarrow> nat \<Rightarrow> send_register \<Rightarrow> send_register" where
  "register_seq seq now len reg =
     (let queue = sg_queue reg @ [\<lparr>ts_seq = seq, ts_local_send_time = now, ts_size = of_nat len, ts_recv_report = None\<rparr>]
      in reg\<lparr>sg_last_registered := seq, sg_queue := drop (length queue - sg_keep reg) queue\<rparr>)"

section \<open>Applying a feedback\<close>

text \<open>\<open>skip_while\<close> on the iterator, up to the first packet that may still be registered; \<open>None\<close> is a loop without end.\<close>

partial_function (option) skip_items :: "u64 \<Rightarrow> twcc_iter \<Rightarrow> (report_item \<times> twcc_iter) yielded option" where
  [code]: "skip_items head st =
     (case twcc_next st of
        Panicked \<Rightarrow> Some Panicked
      | Exhausted \<Rightarrow> Some Exhausted
      | Yield (item, st') \<Rightarrow> if fst item < head then skip_items head st' else Some (Yield (item, st')))"

definition received_at :: "int \<Rightarrow> int option \<Rightarrow> send_record \<Rightarrow> send_record" where
  "received_at now instant r = r\<lparr>ts_recv_report := Some (now, instant)\<rparr>"

text \<open>The loop over the zipped iterators: the report is advanced first, and a mismatch panics after the loop.\<close>

fun zip_update :: "int \<Rightarrow> twcc_iter \<Rightarrow> send_record list \<Rightarrow> u64 \<Rightarrow> (send_record list \<times> u64) yielded" where
  "zip_update now st [] last_seq_no = (case twcc_next st of Panicked \<Rightarrow> Panicked | _ \<Rightarrow> Yield ([], last_seq_no))"
| "zip_update now st (r # rs) last_seq_no =
     (case twcc_next st of
        Panicked \<Rightarrow> Panicked
      | Exhausted \<Rightarrow> Yield (r # rs, last_seq_no)
      | Yield ((seq, status, instant), st') \<Rightarrow>
          if ts_seq r \<noteq> seq then Panicked
          else (case zip_update now st' rs seq of
                  Yield (rs', l) \<Rightarrow> Yield (received_at now instant r # rs', l)
                | _ \<Rightarrow> Panicked))"

definition apply_report :: "twcc \<Rightarrow> int \<Rightarrow> send_register \<Rightarrow> (send_register \<times> (u64 \<times> u64) option) yielded option" where
  "apply_report p now reg =
     (let time_zero = (case sg_time_zero reg of None \<Rightarrow> now | Some t \<Rightarrow> t);
          reg = reg\<lparr>sg_time_zero := Some time_zero\<rparr> in
      case sg_queue reg of
        [] \<Rightarrow> Some (Yield (reg, None))
      | front # _ \<Rightarrow> do {
          y \<leftarrow> skip_items (ts_seq front) (twcc_into_iter p time_zero (sg_last_registered reg));
          Some (case y of
            Panicked \<Rightarrow> Panicked
          | Exhausted \<Rightarrow> Yield (reg, None)
          | Yield ((first_seq_no, status, instant), st) \<Rightarrow>
              (let older = takeWhile (\<lambda>r. ts_seq r < first_seq_no) (sg_queue reg) in
               case dropWhile (\<lambda>r. ts_seq r < first_seq_no) (sg_queue reg) of
                 [] \<Rightarrow> Yield (reg, None)
               | first_record # newer \<Rightarrow>
                   if ts_seq first_record \<noteq> first_seq_no then Yield (reg, None)
                   else (case zip_update now st newer first_seq_no of
                           Yield (newer, last_seq_no) \<Rightarrow>
                             Yield (reg\<lparr>sg_queue := older @ received_at now instant first_record # newer\<rparr>,
                                    Some (first_seq_no, last_seq_no))
                         | _ \<Rightarrow> Panicked)))
        })"

section \<open>Consecutive numbers\<close>

fun consec :: "u64 \<Rightarrow> u64 list \<Rightarrow> bool" where
  "consec q [] \<longleftrightarrow> True"
| "consec q (x # xs) \<longleftrightarrow> x = q \<and> consec (q + 1) xs"

lemma consec_above:
  "consec q xs \<Longrightarrow> unat q + length xs \<le> 2 ^ 64 \<Longrightarrow> x \<in> set xs \<Longrightarrow> q \<le> x"
proof (induction q xs rule: consec.induct)
  case (2 q y xs)
  show ?case
  proof (cases "x = y")
    case False
    then have x: "x \<in> set xs" and xs: "xs \<noteq> []" using "2.prems"(3) by auto
    have "unat q + 1 < 2 ^ 64" using "2.prems"(2) xs by (cases xs) auto
    then have q: "unat (q + 1) = unat q + 1" by (subst unat_sum) simp_all
    then have "q + 1 \<le> x" using "2.IH" x "2.prems" by simp
    then show ?thesis using q by (simp add: word_le_nat_alt)
  qed (use "2.prems" in simp)
qed simp

lemma consec_dropWhile: "consec q xs \<Longrightarrow> consec (max q h) (dropWhile (\<lambda>x. x < h) xs)"
proof (induction q xs rule: consec.induct)
  case (2 q x xs)
  show ?case
  proof (cases "q < h")
    case True
    then have "q + 1 \<le> h" "q \<le> h" by (auto intro: inc_le)
    with 2 True show ?thesis by (simp add: max_def split: if_splits)
  qed (use "2.prems" in \<open>simp add: max_def\<close>)
qed simp

lemma u64_bound: "unat (v :: u64) < 2 ^ 64"
  using unsigned_less [of v, where 'a = nat] by simp

lemma consec_dropWhile_bound:
  "consec q xs \<Longrightarrow> unat q + length xs \<le> 2 ^ 64 \<Longrightarrow> unat (max q h) + length (dropWhile (\<lambda>x. x < h) xs) \<le> 2 ^ 64"
proof (induction q xs rule: consec.induct)
  case (1 q)
  show ?case using u64_bound [of "max q h"] by simp
next
  case (2 q x xs)
  show ?case
  proof (cases "q < h")
    case True
    then have "q + 1 \<le> h" "q \<le> h" by (auto intro: inc_le)
    moreover have "unat q + 1 < 2 ^ 64" using True u64_bound [of h] by (simp add: word_less_nat_alt)
    then have "unat (q + 1) = unat q + 1" by (subst unat_sum) simp_all
    ultimately show ?thesis using 2 True by (simp add: max_def split: if_splits)
  qed (use "2.prems" in \<open>simp add: max_def\<close>)
qed

lemma consec_append: "consec q (xs @ ys) \<longleftrightarrow> consec q xs \<and> consec (q + of_nat (length xs)) ys"
  by (induction xs arbitrary: q) (simp_all add: add.assoc)

lemma consec_report: "consec q (map fst (report_of q t ss ds))"
  by (induction q t ss ds rule: report_of.induct) (auto split: list.splits)

section \<open>Applying a feedback is a pointwise update\<close>

text \<open>What a report, as a list, says about one record.\<close>

definition told_by :: "int \<Rightarrow> report_item list \<Rightarrow> send_record \<Rightarrow> send_record" where
  "told_by now its r = (case map_of its (ts_seq r) of None \<Rightarrow> r | Some (_, instant) \<Rightarrow> received_at now instant r)"

fun yields :: "twcc_iter \<Rightarrow> report_item list \<Rightarrow> bool" where
  "yields st [] \<longleftrightarrow> twcc_next st = Exhausted"
| "yields st (it # its) \<longleftrightarrow> (\<exists>st'. twcc_next st = Yield (it, st') \<and> yields st' its)"

lemma yields_items: "twcc_items (Suc (length its)) st = Some its \<Longrightarrow> yields st its"
proof (induction its arbitrary: st)
  case Nil
  then show ?case by (auto split: yielded.splits prod.splits)
next
  case (Cons it its)
  from Cons.prems have "twcc_items (Suc (Suc (length its))) st = Some (it # its)" by simp
  then obtain st' where "twcc_next st = Yield (it, st')" "twcc_items (Suc (length its)) st' = Some its"
    by (subst (asm) twcc_items.simps) (auto split: yielded.splits prod.splits simp del: twcc_items.simps)
  with Cons.IH show ?case by simp
qed

lemma skip_items_yields:
  "yields st its \<Longrightarrow>
     (case dropWhile (\<lambda>it. fst it < h) its of
        [] \<Rightarrow> skip_items h st = Some Exhausted
      | it # rest \<Rightarrow> \<exists>st'. skip_items h st = Some (Yield (it, st')) \<and> yields st' rest)"
proof (induction its arbitrary: st)
  case Nil
  then show ?case by (subst skip_items.simps) simp
next
  case (Cons it its)
  then obtain st' where st: "twcc_next st = Yield (it, st')" "yields st' its" by auto
  have "skip_items h st = (if fst it < h then skip_items h st' else Some (Yield (it, st')))"
    by (subst skip_items.simps) (simp add: st(1))
  then have "skip_items h st = skip_items h st'" if "fst it < h" using that by simp
  then show ?case
  proof (cases "fst it < h")
    case True
    then show ?thesis unfolding \<open>fst it < h \<Longrightarrow> skip_items h st = skip_items h st'\<close> [OF True]
      using Cons.IH [OF st(2)] by simp
  next
    case False
    then show ?thesis using st by (simp add: skip_items.simps [of h st])
  qed
qed

lemma told_by_append: "ts_seq r \<notin> fst ` set xs \<Longrightarrow> told_by now (xs @ ys) r = told_by now ys r"
  by (simp add: told_by_def map_add_def map_of_append dom_map_of_conv_image_fst [symmetric] domIff split: option.splits)

lemma told_by_other: "ts_seq r \<notin> fst ` set its \<Longrightarrow> told_by now its r = r"
  using told_by_append [of r its now "[]"] by (simp add: told_by_def)

lemma zip_update_consec:
  assumes "yields st its" "consec q (map fst its)" "consec q (map ts_seq rs)"
    and "unat q + length its \<le> 2 ^ 64" "unat q + length rs \<le> 2 ^ 64"
  shows "\<exists>l. zip_update now st rs last_seq_no = Yield (map (told_by now its) rs, l)"
  using assms
proof (induction rs arbitrary: st its q last_seq_no)
  case Nil
  then show ?case by (cases its) (auto split: prod.splits)
next
  case (Cons r rs)
  show ?case
  proof (cases its)
    case Nil
    then show ?thesis using Cons.prems(1) by (simp add: told_by_def)
  next
    case c: (Cons it its')
    obtain s x i where it: "it = (s, x, i)" by (metis prod_cases3)
    from Cons.prems c it obtain st' where st': "twcc_next st = Yield ((q, x, i), st')" "yields st' its'"
      and eq: "s = q" "ts_seq r = q" and rest: "consec (q + 1) (map fst its')" "consec (q + 1) (map ts_seq rs)" by auto
    show ?thesis
    proof (cases "rs = []")
      case True
      then show ?thesis using st' eq it c by (cases its') (auto simp: told_by_def split: prod.splits)
    next
      case False
      then have "unat q + 1 < 2 ^ 64" using Cons.prems(5) by (cases rs) auto
      then have q: "unat (q + 1) = unat q + 1" by (subst unat_sum) simp_all
      then obtain l where l: "zip_update now st' rs q = Yield (map (told_by now its') rs, l)"
        using Cons.IH [OF st'(2) rest, of q] Cons.prems(4,5) c by auto
      have "ts_seq r' \<noteq> q" if "r' \<in> set rs" for r'
        using consec_above [OF rest(2), of "ts_seq r'"] q that Cons.prems(5) by (auto simp: word_le_nat_alt)
      then have "map (told_by now its) rs = map (told_by now its') rs"
        using c it eq by (auto simp: told_by_def)
      moreover have "told_by now its r = received_at now i r" using c it eq by (simp add: told_by_def)
      ultimately show ?thesis using st'(1) eq l by simp
    qed
  qed
qed

lemma dropWhile_map_fst: "map fst (dropWhile (\<lambda>it. fst it < h) its) = dropWhile (\<lambda>x. x < h) (map fst its)"
  by (simp add: dropWhile_map o_def)

lemma apply_report_yields:
  fixes its :: "report_item list"
  defines "tz reg now \<equiv> (case sg_time_zero reg of None \<Rightarrow> now | Some t \<Rightarrow> t)"
  assumes y: "yields (twcc_into_iter p (tz reg now) (sg_last_registered reg)) its"
    and its: "consec b (map fst its)" "unat b + length its \<le> 2 ^ 64"
    and queue: "consec s0 (map ts_seq (sg_queue reg))" "unat s0 + length (sg_queue reg) \<le> 2 ^ 64"
  shows "\<exists>range. apply_report p now reg
    = Some (Yield (reg\<lparr>sg_time_zero := Some (tz reg now), sg_queue := map (told_by now its) (sg_queue reg)\<rparr>, range))"
proof (cases "sg_queue reg")
  case Nil
  then show ?thesis by (simp add: apply_report_def Let_def tz_def)
next
  case (Cons front more)
  let ?reg = "reg\<lparr>sg_time_zero := Some (tz reg now)\<rparr>" and ?queue = "sg_queue reg"
  have s0: "ts_seq front = s0" using queue(1) Cons by simp
  have in_queue: "s0 \<le> ts_seq r" if "r \<in> set ?queue" for r
    using consec_above [OF queue(1)] queue(2) that by auto
  define skipped relevant where "skipped = takeWhile (\<lambda>it. fst it < s0) its" and "relevant = dropWhile (\<lambda>it. fst it < s0) its"
  have split: "its = skipped @ relevant" by (simp add: skipped_def relevant_def)
  have unskipped: "told_by now its r = told_by now relevant r" if "r \<in> set ?queue" for r
  proof -
    have "ts_seq r \<notin> fst ` set skipped"
      using in_queue [OF that] unfolding skipped_def by (auto dest!: set_takeWhileD)
    then show ?thesis unfolding split by (rule told_by_append)
  qed
  have rel: "consec (max b s0) (map fst relevant)"
    unfolding relevant_def dropWhile_map_fst by (rule consec_dropWhile [OF its(1)])
  show ?thesis
  proof (cases relevant)
    case Nil
    then have "skip_items s0 (twcc_into_iter p (tz reg now) (sg_last_registered reg)) = Some Exhausted"
      using skip_items_yields [OF y, of s0] by (simp add: relevant_def [symmetric])
    moreover have "map (told_by now its) ?queue = ?queue"
      using unskipped Nil by (intro map_idI) (simp add: told_by_def)
    ultimately show ?thesis using Cons s0 by (simp add: apply_report_def Let_def tz_def [symmetric])
  next
    case rc: (Cons it rest)
    obtain first x i where it: "it = (first, x, i)" by (metis prod_cases3)
    obtain st where st: "skip_items s0 (twcc_into_iter p (tz reg now) (sg_last_registered reg)) = Some (Yield (it, st))"
      "yields st rest"
      using skip_items_yields [OF y, of s0] rc by (auto simp: relevant_def [symmetric])
    have first: "first = max b s0" "s0 \<le> first" and crest: "consec (first + 1) (map fst rest)"
      using rel rc it by auto
    define older newer where "older = takeWhile (\<lambda>r. ts_seq r < first) ?queue"
      and "newer = dropWhile (\<lambda>r. ts_seq r < first) ?queue"
    have q: "?queue = older @ newer" by (simp add: older_def newer_def)
    have len: "length relevant \<le> length its" "length newer \<le> length ?queue"
      by (simp_all add: relevant_def newer_def length_dropWhile_le)
    have bound_rel: "unat first + length relevant \<le> 2 ^ 64"
      using consec_dropWhile_bound [OF its(1), of s0] its(2) unfolding dropWhile_map_fst [symmetric] first(1)
      by (simp add: relevant_def)
    have new: "consec (max s0 first) (map ts_seq newer)" "unat (max s0 first) + length newer \<le> 2 ^ 64"
      using consec_dropWhile [OF queue(1), of first] consec_dropWhile_bound [OF queue(1), of first] queue(2)
      by (simp_all add: newer_def dropWhile_map o_def)
    have mx: "max s0 first = first" using first(2) by (simp add: max_def)
    have untold: "told_by now its r = r" if "r \<in> set older" for r
    proof -
      have "ts_seq r < first" using that unfolding older_def by (auto dest!: set_takeWhileD)
      moreover have "first \<le> t" if "t \<in> fst ` set relevant" for t
        using consec_above [of first "map fst relevant" t] rel first(1) bound_rel that by simp
      ultimately have "ts_seq r \<notin> fst ` set relevant" by fastforce
      then show ?thesis using unskipped [of r] that q by (simp add: told_by_other)
    qed
    show ?thesis
    proof (cases newer)
      case Nil
      then have "map (told_by now its) ?queue = ?queue" using untold q by (intro map_idI) simp
      then show ?thesis using Cons s0 st(1) it Nil
        by (simp add: apply_report_def Let_def tz_def [symmetric] newer_def)
    next
      case nc: (Cons r rs)
      have r: "ts_seq r = first" using new(1) nc mx by simp
      obtain l where l: "zip_update now st rs first = Yield (map (told_by now rest) rs, l)"
      proof (cases "rs = []")
        case True
        then show ?thesis using that st(2) by (cases rest) (auto split: prod.splits)
      next
        case False
        have "unat first + 1 < 2 ^ 64" using new(2) nc mx False by (cases rs) auto
        then have n: "unat (first + 1) = unat first + 1" by (subst unat_sum) simp_all
        then show ?thesis
          using zip_update_consec [OF st(2) crest, of rs now first] new mx nc bound_rel rc that by auto
      qed
      have ne: "ts_seq r' \<noteq> first" if "r' \<in> set rs" for r'
      proof -
        have "unat first + 1 < 2 ^ 64" using new(2) nc mx that by (cases rs) auto
        then have n: "unat (first + 1) = unat first + 1" by (subst unat_sum) simp_all
        then have "first + 1 \<le> ts_seq r'"
          using consec_above [of "first + 1" "map ts_seq rs" "ts_seq r'"] new mx nc that by auto
        with n show ?thesis by (auto simp: word_le_nat_alt)
      qed
      have "told_by now relevant r = received_at now i r" using rc it r by (simp add: told_by_def)
      moreover have "map (told_by now relevant) rs = map (told_by now rest) rs"
        using rc it ne by (auto simp: told_by_def)
      ultimately have "map (told_by now its) ?queue = older @ received_at now i r # map (told_by now rest) rs"
        using untold unskipped q nc by (simp add: map_idI)
      then show ?thesis using Cons s0 st(1) it r l nc
        by (simp add: apply_report_def Let_def tz_def [symmetric] newer_def older_def)
    qed
  qed
qed

lemma length_report_of:
  "map delta_status ds = filter received ss \<Longrightarrow> length (report_of q t ss ds) = length ss"
  by (induction q t ss ds rule: report_of.induct) (auto split: list.splits)

text \<open>
  What a feedback reports: the announced number of packets from \<open>b\<close> on. The iterator does not stop there but goes on
  through the last chunk; what it finds there are the packets beyond the report.
\<close>

definition all_symbols :: "twcc \<Rightarrow> packet_status list" where
  "all_symbols p = concat (map statuses (tw_chunks p))"

definition reported :: "twcc \<Rightarrow> u64 \<Rightarrow> int \<Rightarrow> report_item list" where
  "reported p b zero = report_of b (zero + 64000 * int (unat (tw_reference_time p)))
     (take (unat (tw_status_count p)) (all_symbols p)) (tw_delta p)"

definition past_report :: "twcc \<Rightarrow> u64 \<Rightarrow> int \<Rightarrow> report_item list" where
  "past_report p b zero = drop (unat (tw_status_count p))
     (report_of b (zero + 64000 * int (unat (tw_reference_time p))) (all_symbols p) (tw_delta p))"

lemma reported_and_past: "reported p b zero @ past_report p b zero
   = report_of b (zero + 64000 * int (unat (tw_reference_time p))) (all_symbols p) (tw_delta p)"
  by (simp only: reported_def past_report_def report_of_take append_take_drop_id)

lemma chunks_loop_enough: "chunks_loop todo buf = ok (cs, rest) \<Longrightarrow> todo \<le> int (length (concat (map statuses cs)))"
proof (induction todo buf arbitrary: cs rest rule: chunks_loop.induct)
  case (1 todo buf)
  show ?case
  proof (cases "todo \<le> 0")
    case False
    then obtain c ds where c: "chunk_try_from buf = ok c"
      "chunks_loop (todo - int (max_possible_status_count c)) (drop 2 buf) = ok (ds, rest)" "cs = c # ds"
      using "1.prems" by (subst (asm) chunks_loop.simps) (auto simp: and_then_ok split: option.splits sum.splits)
    show ?thesis using "1.IH" [OF False c(1) refl c(2)] by (simp add: c(3) length_statuses)
  qed (simp add: order_trans [of todo 0])
qed

lemma parsed_enough: "twcc_try_from buf = ok p \<Longrightarrow> unat (tw_status_count p) \<le> length (all_symbols p)"
proof -
  assume "twcc_try_from buf = ok p"
  then obtain rest1 rest2 where "chunks_loop (int (unat (tw_status_count p))) rest1 = ok (tw_chunks p, rest2)"
    by (auto simp: twcc_try_from_def Let_def and_then_ok bind_eq_Some_conv split: if_splits)
  from chunks_loop_enough [OF this] show ?thesis by (simp only: all_symbols_def of_nat_le_iff)
qed

lemma told_seqs:
  assumes "twcc_try_from buf = ok p"
  shows "map fst (reported p b zero) = map (\<lambda>i. b + of_nat i) [0..<unat (tw_status_count p)]"
    and "map fst (past_report p b zero) = map (\<lambda>i. b + of_nat i) [unat (tw_status_count p)..<length (all_symbols p)]"
proof -
  have all: "map fst (report_of b t (all_symbols p) (tw_delta p)) = map (\<lambda>i. b + of_nat i) [0..<length (all_symbols p)]" for t
    using report_of_seqs [OF parsed_status [OF assms]] by (simp add: all_symbols_def)
  show "map fst (reported p b zero) = map (\<lambda>i. b + of_nat i) [0..<unat (tw_status_count p)]"
    using parsed_enough [OF assms] by (simp add: reported_def report_of_take take_map [symmetric] all) (simp add: take_map)
  show "map fst (past_report p b zero) = map (\<lambda>i. b + of_nat i) [unat (tw_status_count p)..<length (all_symbols p)]"
    by (simp add: past_report_def drop_map [symmetric] all) (simp add: drop_map)
qed

text \<open>C6. Applying a feedback to a register of consecutive packets updates every packet the feedback reports with the
  time it was received, or that it was not. It does not stop at the announced number: the symbols that fill up the
  last chunk are applied to the packets beyond the report as well. No other packet is changed. It does not panic and
  always returns. This holds for a feedback without an empty run and without a reserved symbol, once the first feedback
  has set the time zero, and while the numbers do not wrap around at 64 bits.
\<close>

theorem apply_report_pointwise:
  assumes "twcc_try_from buf = ok p" and "list_all iterable (tw_chunks p)"
    and "sg_time_zero reg = Some zero" and "b = extend_u16 (Some (sg_last_registered reg)) (tw_base_seq p)"
    and "unat b + length (all_symbols p) \<le> 2 ^ 64"
    and "consec s0 (map ts_seq (sg_queue reg))" and "unat s0 + length (sg_queue reg) \<le> 2 ^ 64"
  shows "(\<exists>range. apply_report p now reg = Some (Yield (reg\<lparr>sg_queue := map (told_by now (reported p b zero @ past_report p b zero))
      (sg_queue reg)\<rparr>, range)))
    \<and> map fst (reported p b zero) = map (\<lambda>i. b + of_nat i) [0..<unat (tw_status_count p)]
    \<and> map fst (past_report p b zero) = map (\<lambda>i. b + of_nat i) [unat (tw_status_count p)..<length (all_symbols p)]"
proof -
  let ?its = "reported p b zero @ past_report p b zero"
  have its: "?its = report_of b (zero + 64000 * int (unat (tw_reference_time p))) (all_symbols p) (tw_delta p)"
    by (rule reported_and_past)
  have status: "map delta_status (tw_delta p) = filter received (all_symbols p)"
    using parsed_status [OF assms(1)] by (simp add: all_symbols_def)
  have len: "length ?its = length (all_symbols p)" unfolding its by (rule length_report_of [OF status])
  have "twcc_items (Suc (length ?its)) (twcc_into_iter p zero (sg_last_registered reg)) = Some ?its"
  proof -
    have "twcc_items (Suc (length (all_symbols p))) (twcc_into_iter p zero (sg_last_registered reg))
        = Some (report_of b (zero + 64000 * int (unat (tw_reference_time p))) (all_symbols p) (tw_delta p))"
      using twcc_iterates [OF assms(2) parsed_status [OF assms(1)], of 1 zero "sg_last_registered reg"]
      unfolding assms(4) [symmetric] all_symbols_def [symmetric] by (simp only: Suc_eq_plus1)
    then show ?thesis unfolding len unfolding its .
  qed
  then have "yields (twcc_into_iter p zero (sg_last_registered reg)) ?its" by (rule yields_items)
  moreover have tz: "(case sg_time_zero reg of None \<Rightarrow> now | Some t \<Rightarrow> t) = zero" by (simp add: assms(3))
  moreover have "consec b (map fst ?its)" unfolding its by (rule consec_report)
  ultimately have "\<exists>range. apply_report p now reg
      = Some (Yield (reg\<lparr>sg_time_zero := Some zero, sg_queue := map (told_by now ?its) (sg_queue reg)\<rparr>, range))"
    using apply_report_yields [where reg = reg and now = now and p = p and its = ?its and b = b and ?s0.0 = s0]
      assms(5,6,7) unfolding tz len by blast
  moreover have "reg\<lparr>sg_time_zero := Some zero, sg_queue := q\<rparr> = reg\<lparr>sg_queue := q\<rparr>" for q
    by (simp add: assms(3) [symmetric])
  ultimately have "\<exists>range. apply_report p now reg = Some (Yield (reg\<lparr>sg_queue := map (told_by now ?its) (sg_queue reg)\<rparr>, range))" by simp
  then show ?thesis by (intro conjI told_seqs [OF assms(1)])
qed

text \<open>The register of the packets sent with the numbers 82 to 84, and the feedback on all three.\<close>

definition some_register :: send_register where
  "some_register = \<lparr>sg_keep = 10, sg_queue = map (\<lambda>n. \<lparr>ts_seq = n, ts_local_send_time = 0, ts_size = 100, ts_recv_report = None\<rparr>)
     [82, 83, 84], sg_time_zero = Some 7, sg_last_registered = 84\<rparr>"

theorem apply_report_pointwise_witness:
  "\<exists>range. apply_report small_feedback 9 some_register = Some (Yield (some_register\<lparr>sg_queue := map (told_by 9
      (reported small_feedback 82 7 @ past_report small_feedback 82 7)) (sg_queue some_register)\<rparr>, range))
    \<and> map fst (past_report small_feedback 82 7) = [98]"
proof -
  obtain body where body: "twcc_try_from body = ok small_feedback" using twcc_body_parses [OF small_feedback_wf] .
  have i: "list_all iterable (tw_chunks small_feedback)" by (simp add: small_feedback_def)
  have b: "82 = extend_u16 (Some (sg_last_registered some_register)) (tw_base_seq small_feedback)"
    by (simp add: extend_u16_def extend_id_def some_register_def small_feedback_def Let_def)
  have l: "length (all_symbols small_feedback) = 17"
    by (simp add: all_symbols_def small_feedback_def single_symbols_def)
  have z: "sg_time_zero some_register = Some 7" "unat (82 :: u64) + length (all_symbols small_feedback) \<le> 2 ^ 64"
    "consec 82 (map ts_seq (sg_queue some_register))" "unat (82 :: u64) + length (sg_queue some_register) \<le> 2 ^ 64"
    by (simp_all add: some_register_def l)
  note told = apply_report_pointwise [OF body i z(1) b z(2-4)]
  have "unat (tw_status_count small_feedback) = 16" by (simp add: small_feedback_def)
  then have "map fst (past_report small_feedback 82 7) = [98]" using told unfolding l by simp
  moreover obtain range where "apply_report small_feedback 9 some_register = Some (Yield (some_register\<lparr>sg_queue := map (told_by 9
      (reported small_feedback 82 7 @ past_report small_feedback 82 7)) (sg_queue some_register)\<rparr>, range))"
    using told [of 9] by (elim conjE exE)
  ultimately show ?thesis by (intro exI conjI)
qed

section \<open>Registering keeps the numbers consecutive\<close>

definition register_all :: "(u64 \<times> int \<times> nat) list \<Rightarrow> send_register \<Rightarrow> send_register" where
  "register_all = fold (\<lambda>(seq, now, len). register_seq seq now len)"

lemma consec_drop: "consec q xs \<Longrightarrow> consec (q + of_nat (min n (length xs))) (drop n xs)"
proof (induction xs arbitrary: q n)
  case (Cons x xs)
  show ?case
  proof (cases n)
    case (Suc m)
    then show ?thesis using Cons.IH [of "q + 1" m] Cons.prems by (simp add: add.assoc)
  qed (use Cons.prems in simp)
qed simp

lemma register_seq_consec:
  assumes "consec s0 (map ts_seq (sg_queue reg))" and "seq = s0 + of_nat (length (sg_queue reg))"
  shows "\<exists>s. consec s (map ts_seq (sg_queue (register_seq seq now len reg)))
     \<and> s + of_nat (length (sg_queue (register_seq seq now len reg))) = seq + 1
     \<and> length (sg_queue (register_seq seq now len reg)) = min (sg_keep reg) (length (sg_queue reg) + 1)"
proof -
  let ?queue = "sg_queue reg @ [\<lparr>ts_seq = seq, ts_local_send_time = now, ts_size = of_nat len, ts_recv_report = None\<rparr>]"
  define n where "n = length ?queue - sg_keep reg"
  have q: "sg_queue (register_seq seq now len reg) = drop n ?queue"
    by (simp add: register_seq_def Let_def n_def)
  have c: "consec s0 (map ts_seq ?queue)" using assms by (simp add: consec_append)
  have n: "n \<le> length ?queue" by (simp add: n_def)
  have "consec (s0 + of_nat n) (drop n (map ts_seq ?queue))" using consec_drop [OF c, of n] n by (simp add: min_def)
  moreover have "s0 + of_nat n + of_nat (length (drop n ?queue)) = seq + 1"
  proof -
    have "of_nat n + of_nat (length (drop n ?queue)) = (of_nat (length ?queue) :: u64)"
      using n by (simp only: length_drop of_nat_add [symmetric] le_add_diff_inverse)
    then show ?thesis by (simp only: add.assoc assms(2)) simp
  qed
  moreover have "length (drop n ?queue) = min (sg_keep reg) (length (sg_queue reg) + 1)"
  proof -
    have "a - (a - k) = min k a" for a k :: nat by simp
    then show ?thesis unfolding length_drop n_def by simp
  qed
  ultimately show ?thesis unfolding q by (metis drop_map)
qed

lemma register_all_consec:
  "consec s0 (map ts_seq (sg_queue reg)) \<Longrightarrow> seq = s0 + of_nat (length (sg_queue reg)) \<Longrightarrow> consec seq (map fst ps) \<Longrightarrow>
     length (sg_queue reg) \<le> sg_keep reg \<Longrightarrow>
     \<exists>s. consec s (map ts_seq (sg_queue (register_all ps reg)))
       \<and> s + of_nat (length (sg_queue (register_all ps reg))) = seq + of_nat (length ps)
       \<and> length (sg_queue (register_all ps reg)) = min (sg_keep reg) (length (sg_queue reg) + length ps)"
proof (induction ps arbitrary: reg s0 seq)
  case Nil
  then show ?case by (auto simp: register_all_def min_def)
next
  case (Cons p ps)
  obtain x now len where p: "p = (x, now, len)" by (metis prod_cases3)
  let ?reg = "register_seq seq now len reg"
  have x: "x = seq" "consec (seq + 1) (map fst ps)" using Cons.prems(3) p by simp_all
  obtain s where s: "consec s (map ts_seq (sg_queue ?reg))" "s + of_nat (length (sg_queue ?reg)) = seq + 1"
    "length (sg_queue ?reg) = min (sg_keep reg) (length (sg_queue reg) + 1)"
    using register_seq_consec [OF Cons.prems(1,2)] by blast
  have k: "sg_keep ?reg = sg_keep reg" by (simp add: register_seq_def Let_def)
  have "register_all (p # ps) reg = register_all ps ?reg" by (simp add: register_all_def p x(1))
  moreover have "min (sg_keep reg) (min (sg_keep reg) (length (sg_queue reg) + 1) + length ps)
      = min (sg_keep reg) (length (sg_queue reg) + length (p # ps))" by auto
  ultimately show ?case
    using Cons.IH [OF s(1) s(2) [symmetric] x(2)] s(3) k by (simp add: ac_simps)
qed

text \<open>However many packets are registered with consecutive numbers, the register holds the last of them, as many as it
  is to keep, with consecutive numbers: what applying a feedback relies on.
\<close>

theorem registered_consecutive:
  assumes "consec seq (map fst ps)"
  shows "\<exists>s. consec s (map ts_seq (sg_queue (register_all ps (send_register_new keep))))
    \<and> s + of_nat (length (sg_queue (register_all ps (send_register_new keep)))) = seq + of_nat (length ps)
    \<and> length (sg_queue (register_all ps (send_register_new keep))) = min keep (length ps)"
  using register_all_consec [of seq "send_register_new keep" seq ps] assms by (simp add: send_register_new_def)

theorem registered_consecutive_witness:
  "\<exists>s. consec s (map ts_seq (sg_queue (register_all [(5, 0, 10), (6, 1, 10), (7, 2, 10)] (send_register_new 2))))
    \<and> s + of_nat (length (sg_queue (register_all [(5, 0, 10), (6, 1, 10), (7, 2, 10)] (send_register_new 2)))) = 8
    \<and> length (sg_queue (register_all [(5, 0, 10), (6, 1, 10), (7, 2, 10)] (send_register_new 2))) = 2"
proof -
  let ?ps = "[(5, 0, 10), (6, 1, 10), (7, 2, 10)] :: (u64 \<times> int \<times> nat) list"
  have c: "consec 5 (map fst ?ps)" and e: "5 + of_nat (length ?ps) = (8 :: u64)" "min 2 (length ?ps) = 2" by simp_all
  from registered_consecutive [OF c, of 2] show ?thesis unfolding e .
qed

end
