(* ===== verification/TwccRecv.thy ===== *)
theory TwccRecv imports TwccSend "HOL-Library.Signed_Division" begin

text \<open>
  What the receiver reports: the register of received packets and the building of a congestion control
  feedback, \<open>TwccRecvRegister\<close>, \<open>ChunkInterim\<close> and the chunk builder of \<open>rtp/rtcp/twcc.rs\<close>. An instant
  is a number of nanoseconds here; the difference of two instants saturates at 0. Additions and
  subtractions on words wrap, as in a release build; a panic is \<open>None\<close>.
\<close>

section \<open>Interims\<close>

datatype chunk_interim = Missing u16 | Received packet_status "16 word"

fun interim_status :: "chunk_interim \<Rightarrow> packet_status" where
  "interim_status (Missing _) = NotReceived"
| "interim_status (Received s _) = s"

text \<open>The delta of a received packet; another status is declared unreachable.\<close>

fun interim_delta :: "chunk_interim \<Rightarrow> delta option option" where
  "interim_delta (Missing _) = Some None"
| "interim_delta (Received ReceivedSmallDelta d) = Some (Some (Small (ucast d)))"
| "interim_delta (Received ReceivedLargeOrNegativeDelta d) = Some (Some (Large d))"
| "interim_delta (Received _ d) = None"

fun interim_consume :: "chunk_interim \<Rightarrow> u16 \<Rightarrow> (chunk_interim \<times> bool) option" where
  "interim_consume (Missing c) n = Some (Missing (c - n), c - n = 0)"
| "interim_consume (Received s d) n = (if n \<le> 1 then Some (Received s d, n = 1) else None)"

section \<open>Filling a chunk\<close>

fun chunk_free :: "packet_chunk \<Rightarrow> u16" where
  "chunk_free (Run _ n) = 8192 - n"
| "chunk_free (VectorSingle _ filled) = 14 - filled"
| "chunk_free (VectorDouble _ filled) = 7 - filled"

fun must_be_full :: "packet_chunk \<Rightarrow> bool" where
  "must_be_full (Run _ _) = False"
| "must_be_full _ = True"

fun can_append_status :: "packet_chunk \<Rightarrow> packet_status \<Rightarrow> bool" where
  "can_append_status (Run s _) status = (s = status)"
| "can_append_status (VectorSingle _ _) status = (status \<noteq> ReceivedLargeOrNegativeDelta)"
| "can_append_status (VectorDouble _ _) status = True"

fun chunk_append :: "packet_chunk \<Rightarrow> chunk_interim \<Rightarrow> packet_chunk \<times> u16" where
  "chunk_append (Run s n) (Missing c) =
     (if s \<noteq> NotReceived then (Run s n, 0) else let m = min (8192 - n) c in (Run s (n + m), m))"
| "chunk_append (Run s n) (Received s2 _) =
     (if s \<noteq> s2 then (Run s n, 0) else let m = min (8192 - n) 1 in (Run s (n + m), m))"
| "chunk_append (VectorSingle n f) (Missing c) =
     (let m = min (14 - f) c in (VectorSingle (push_bit (unat m) n) (f + m), m))"
| "chunk_append (VectorSingle n f) (Received s2 _) =
     (if s2 = ReceivedLargeOrNegativeDelta then (VectorSingle n f, 0)
      else let m = min (14 - f) 1 in (if m = 1 then VectorSingle (push_bit 1 n OR 1) (f + 1) else VectorSingle n f, m))"
| "chunk_append (VectorDouble n f) (Missing c) =
     (let m = min (7 - f) c in (VectorDouble (push_bit (unat (m * 2)) n) (f + m), m))"
| "chunk_append (VectorDouble n f) (Received s2 _) =
     (let m = min (7 - f) 1
      in (if m = 1 then VectorDouble (push_bit 2 n OR status_to_u16 s2) (f + 1) else VectorDouble n f, m))"

text \<open>How many packets a chunk can take. The flag tells that the interims were exhausted.\<close>

fun fill_from :: "packet_chunk \<Rightarrow> chunk_interim list \<Rightarrow> packet_chunk \<times> bool" where
  "fill_from c [] = (c, True)"
| "fill_from c (i # is) =
     (if chunk_free c = 0 \<or> \<not> can_append_status c (interim_status i) then (c, False)
      else fill_from (fst (chunk_append c i)) is)"

definition append_max :: "packet_chunk \<Rightarrow> chunk_interim list \<Rightarrow> u16" where
  "append_max c is =
     (let (to_fill, reached_end) = fill_from c is
      in if must_be_full to_fill \<and> 0 < chunk_free to_fill \<and> \<not> reached_end then 0
         else chunk_free c - chunk_free to_fill)"

section \<open>The register\<close>

record receiption =
  rc_seq :: u64
  rc_time :: int

record receive_window =
  rw_base_seq :: "u64 option"
  rw_max_seq :: "u64 option"
  rw_expected_prior :: u64
  rw_received :: u64
  rw_received_prior :: u64

record recv_register =
  tr_keep_reported :: nat
  tr_queue :: "receiption list"
  tr_report_from :: nat
  tr_interims :: "chunk_interim list"
  tr_time_start :: "int option"
  tr_generated_reports :: u64
  tr_receive_window :: receive_window

definition recv_register_new :: "nat \<Rightarrow> recv_register" where
  "recv_register_new keep_reported = \<lparr>tr_keep_reported = keep_reported, tr_queue = [], tr_report_from = 0, tr_interims = [],
     tr_time_start = None, tr_generated_reports = 0,
     tr_receive_window = \<lparr>rw_base_seq = None, rw_max_seq = None, rw_expected_prior = 0, rw_received = 0, rw_received_prior = 0\<rparr>\<rparr>"

definition recv_max_seq :: "recv_register \<Rightarrow> u64" where
  "recv_max_seq r = (case tr_queue r of [] \<Rightarrow> 0 | q # qs \<Rightarrow> rc_seq (List.last (q # qs)))"

definition record_seq :: "u64 \<Rightarrow> receive_window \<Rightarrow> receive_window" where
  "record_seq seq w = w\<lparr>
     rw_base_seq := (case rw_base_seq w of None \<Rightarrow> Some seq | Some b \<Rightarrow> Some b),
     rw_received := rw_received w + 1,
     rw_max_seq := Some (case rw_max_seq w of None \<Rightarrow> seq | Some m \<Rightarrow> max m seq)\<rparr>"

text \<open>
  The binary search of the standard library on a queue that is sorted by number: the place of the number, or
  the place where it belongs.
\<close>

definition binary_search_by_key :: "('a \<Rightarrow> u64) \<Rightarrow> u64 \<Rightarrow> 'a list \<Rightarrow> nat + nat" where
  "binary_search_by_key key x q =
     (let i = length (takeWhile (\<lambda>r. key r < x) q)
      in if i < length q \<and> key (q ! i) = x then Inr i else Inl i)"

definition since :: "int \<Rightarrow> int \<Rightarrow> int" where
  "since later earlier = max 0 (later - earlier)"

definition update_seq :: "u64 \<Rightarrow> int \<Rightarrow> recv_register \<Rightarrow> recv_register" where
  "update_seq seq time r =
     (let r = r\<lparr>tr_receive_window := record_seq seq (tr_receive_window r)\<rparr>
      in case binary_search_by_key rc_seq seq (tr_queue r) of
           Inr _ \<Rightarrow> r
         | Inl i \<Rightarrow>
             if (case tr_time_start r of Some time_start \<Rightarrow> 8192000000 \<le> since time_start time | None \<Rightarrow> False) then r
             else r\<lparr>tr_queue := take i (tr_queue r) @ \<lparr>rc_seq = seq, rc_time = time\<rparr> # drop i (tr_queue r),
                    tr_report_from := (if i < tr_report_from r then i else tr_report_from r)\<rparr>)"

definition has_unreported :: "recv_register \<Rightarrow> bool" where
  "has_unreported r \<longleftrightarrow> tr_report_from r < length (tr_queue r)"

text \<open>The loss since the last call, as packets lost and packets expected; the code divides the two as \<open>f32\<close>.\<close>

definition recv_loss :: "recv_register \<Rightarrow> recv_register \<times> (u64 \<times> u64) option" where
  "recv_loss r =
     (let w = tr_receive_window r in
      case (rw_max_seq w, rw_base_seq w) of
        (Some max_seq, Some base_seq) \<Rightarrow>
          (let expected = max_seq - base_seq + 1;
               expected_interval = expected - rw_expected_prior w;
               received_interval = rw_received w - rw_received_prior w;
               lost_interval = (if received_interval \<le> expected_interval then expected_interval - received_interval else 0)
           in (r\<lparr>tr_receive_window := w\<lparr>rw_expected_prior := expected, rw_received_prior := rw_received w\<rparr>\<rparr>,
               if expected_interval \<noteq> 0 then Some (lost_interval, expected_interval) else None))
      | _ \<Rightarrow> (r, None))"

section \<open>Building the interims\<close>

function missing_interims :: "u64 \<Rightarrow> chunk_interim list" where
  "missing_interims todo =
     (if todo = 0 then [] else let n = min todo 8192 in Missing (ucast n) # missing_interims (todo - n))"
  by pat_completeness auto
termination
proof (relation "measure unat", goal_cases)
  case (2 todo n)
  then have "0 < n" "n \<le> todo" by (auto simp: min_def word_neq_0_conv)
  then show ?case by (simp add: word_le_nat_alt word_less_nat_alt unat_sub)
qed simp

declare missing_interims.simps [simp del]

text \<open>The difference in microseconds, cut to an \<open>i32\<close>.\<close>

definition diff_micros :: "int \<Rightarrow> int \<Rightarrow> int" where
  "diff_micros time prev =
     (if time < prev then sint (- (word_of_int (since prev time div 1000) :: 32 word))
      else sint (word_of_int (since time prev div 1000) :: 32 word))"

text \<open>The interim of a received packet: \<open>Some None\<close> when the difference does not fit, \<open>None\<close> when an assertion fails.\<close>

definition time_interim :: "int \<Rightarrow> chunk_interim option option" where
  "time_interim diff_time =
     (if diff_time < - 8192000 \<or> 8191750 < diff_time then Some None
      else if diff_time < 0 \<or> 63750 < diff_time then
        (let t = diff_time sdiv 250
         in if - 32765 \<le> t \<and> t \<le> 32767 then Some (Some (Received ReceivedLargeOrNegativeDelta (word_of_int t))) else None)
      else
        (let t = diff_time sdiv 250
         in if 0 \<le> t \<and> t \<le> 255 then Some (Some (Received ReceivedSmallDelta (word_of_int t))) else None))"

fun build_interims :: "receiption list \<Rightarrow> u64 \<Rightarrow> int \<Rightarrow> chunk_interim list option" where
  "build_interims [] prev_seq prev_time = Some []"
| "build_interims (r # rs) prev_seq prev_time =
     (let diff_seq = rc_seq r - prev_seq;
          missing = (if 1 < diff_seq then missing_interims (diff_seq - 1) else [])
      in case time_interim (diff_micros (rc_time r) prev_time) of
           None \<Rightarrow> None
         | Some None \<Rightarrow> Some missing
         | Some (Some i) \<Rightarrow> do {
             is \<leftarrow> build_interims rs (rc_seq r) (rc_time r);
             Some (missing @ i # is)
           })"

section \<open>Building a report\<close>

text \<open>The chunk that fits the most packets, and how many.\<close>

definition choose_chunk :: "chunk_interim list \<Rightarrow> nat \<Rightarrow> packet_chunk \<times> u16" where
  "choose_chunk is bytes_left =
     (let first_status = (case is of i # _ \<Rightarrow> interim_status i | [] \<Rightarrow> NotReceived);
          c_run = Run first_status 0; c_single = VectorSingle 0 0; c_double = VectorDouble 0 0;
          max_run = append_max c_run is; max_single = append_max c_single is; max_double = append_max c_double is;
          m = max (max max_run max_single) max_double
      in if m = max_run then (c_run, max_run)
         else if m = max_single \<and> 19 \<le> bytes_left then (c_single, max_single)
         else if m = max_double \<and> 19 \<le> bytes_left then (c_double, max_double)
         else (c_run, max_run))"

record building =
  bd_interims :: "chunk_interim list"
  bd_bytes_left :: nat
  bd_report_from :: nat
  bd_twcc :: twcc

text \<open>The loop that moves interims into the chunk.\<close>

fun fill_chunk :: "packet_chunk \<Rightarrow> u16 \<Rightarrow> chunk_interim list \<Rightarrow> nat \<Rightarrow> nat \<Rightarrow> twcc \<Rightarrow> (packet_chunk \<times> building) option" where
  "fill_chunk chunk todo [] bytes_left report_from p =
     Some (chunk, \<lparr>bd_interims = [], bd_bytes_left = bytes_left, bd_report_from = report_from, bd_twcc = p\<rparr>)"
| "fill_chunk chunk todo (i # is) bytes_left report_from p =
     (if bytes_left < 7 \<or> todo = 0 then
        Some (chunk, \<lparr>bd_interims = i # is, bd_bytes_left = bytes_left, bd_report_from = report_from, bd_twcc = p\<rparr>)
      else
        (let (chunk, appended) = chunk_append chunk i;
             todo = todo - appended;
             p = p\<lparr>tw_status_count := tw_status_count p + appended\<rparr>
         in if appended = 0 then None
            else case interim_consume i appended of
                None \<Rightarrow> None
              | Some (i, False) \<Rightarrow>
                  if todo \<noteq> 0 then None
                  else Some (chunk, \<lparr>bd_interims = i # is, bd_bytes_left = bytes_left, bd_report_from = report_from, bd_twcc = p\<rparr>)
              | Some (i, True) \<Rightarrow>
                  (let report_from = (case i of Received _ _ \<Rightarrow> report_from + 1 | Missing _ \<Rightarrow> report_from)
                   in case interim_delta i of
                        None \<Rightarrow> None
                      | Some None \<Rightarrow> fill_chunk chunk todo is bytes_left report_from p
                      | Some (Some d) \<Rightarrow>
                          if bytes_left < delta_byte_len d then None
                          else fill_chunk chunk todo is (bytes_left - delta_byte_len d) report_from
                                 (p\<lparr>tw_delta := tw_delta p @ [d]\<rparr>))))"

lemma fill_chunk_bytes: "fill_chunk c todo is n k p = Some (c', b) \<Longrightarrow> bd_bytes_left b \<le> n"
  by (induction c todo "is" n k p arbitrary: c' b rule: fill_chunk.induct)
    (fastforce simp: Let_def split: if_splits prod.splits option.splits bool.splits)+

text \<open>The loop over the chunks; \<open>write_report\<close> is one round of it.\<close>

definition pad_chunk :: "packet_chunk \<Rightarrow> chunk_interim list \<Rightarrow> packet_chunk option" where
  "pad_chunk chunk is =
     (let free = chunk_free chunk
      in if must_be_full chunk \<and> 0 < free then (if is = [] then Some (fst (chunk_append chunk (Missing free))) else None)
         else Some chunk)"

function report_loop :: "building \<Rightarrow> building option" where
  "report_loop b =
     (if bd_interims b = [] \<or> bd_bytes_left b < 7 then Some b
      else (let (chunk, todo) = choose_chunk (bd_interims b) (bd_bytes_left b)
            in case fill_chunk chunk todo (bd_interims b) (bd_bytes_left b) (bd_report_from b) (bd_twcc b) of
                 None \<Rightarrow> None
               | Some (chunk, b) \<Rightarrow>
                   (case pad_chunk chunk (bd_interims b) of
                      None \<Rightarrow> None
                    | Some chunk \<Rightarrow>
                        if bd_bytes_left b < 2 then None
                        else report_loop (b\<lparr>bd_bytes_left := bd_bytes_left b - 2,
                               bd_twcc := (bd_twcc b)\<lparr>tw_chunks := tw_chunks (bd_twcc b) @ [chunk]\<rparr>\<rparr>))))"
  by pat_completeness auto
termination
  by (relation "measure bd_bytes_left") (auto dest!: fill_chunk_bytes [OF sym] fill_chunk_bytes)

declare report_loop.simps [simp del]

text \<open>Reported packets beyond those to keep leave the queue.\<close>

definition clean_up :: "recv_register \<Rightarrow> recv_register" where
  "clean_up r =
     (if tr_keep_reported r < tr_report_from r then
        (let to_remove = tr_report_from r - tr_keep_reported r
         in r\<lparr>tr_queue := drop to_remove (tr_queue r), tr_report_from := tr_report_from r - to_remove\<rparr>)
      else r)"

lemma clean_up_simps [simp]:
  "tr_report_from (clean_up r) = min (tr_report_from r) (tr_keep_reported r)"
  "tr_queue (clean_up r) = drop (tr_report_from r - tr_keep_reported r) (tr_queue r)"
  "tr_time_start (clean_up r) = tr_time_start r" "tr_keep_reported (clean_up r) = tr_keep_reported r"
  by (auto simp: clean_up_def Let_def min_def)

text \<open>\<open>max_byte_size - 20\<close> is taken to panic when it underflows; the session passes 1050.\<close>

definition build_report :: "nat \<Rightarrow> recv_register \<Rightarrow> (recv_register \<times> twcc option) option" where
  "build_report max_byte_size r =
     (if 10000 < max_byte_size then Some (r, None)
      else if length (tr_queue r) \<le> tr_report_from r then Some (r, None)
      else
        (let first = tr_queue r ! tr_report_from r;
             time_start = (case tr_time_start r of None \<Rightarrow> rc_time first | Some t \<Rightarrow> t);
             r = r\<lparr>tr_time_start := Some time_start\<rparr>;
             first_time_rel = since (rc_time first) time_start;
             reference_time = ucast ((word_of_int (first_time_rel div 1000) :: u64) div 64000) :: u32;
             p = \<lparr>tw_sender_ssrc = 0, tw_ssrc = 0, tw_base_seq = ucast (rc_seq first), tw_status_count = 0,
                  tw_reference_time = reference_time, tw_feedback_count = ucast (tr_generated_reports r),
                  tw_chunks = [], tw_delta = []\<rparr>;
             base_time = time_start + int (unat reference_time) * 64000 * 1000
         in do {
           is \<leftarrow> build_interims (drop (tr_report_from r) (tr_queue r)) (rc_seq first) base_time;
           if max_byte_size < 20 then None
           else do {
             b \<leftarrow> report_loop \<lparr>bd_interims = is, bd_bytes_left = max_byte_size - 20, bd_report_from = tr_report_from r, bd_twcc = p\<rparr>;
             let r = r\<lparr>tr_interims := bd_interims b, tr_report_from := bd_report_from b\<rparr>;
             if tw_chunks (bd_twcc b) = [] then Some (r, None)
             else
               Some (clean_up (r\<lparr>tr_generated_reports := tr_generated_reports r + 1\<rparr>), Some (bd_twcc b))
           }
         }))"

section \<open>What the builder writes\<close>

text \<open>The statuses an interim stands for, and those a partly filled chunk holds.\<close>

fun expand :: "chunk_interim \<Rightarrow> packet_status list" where
  "expand (Missing c) = replicate (unat c) NotReceived"
| "expand (Received s _) = [s]"

fun filled :: "packet_chunk \<Rightarrow> packet_status list" where
  "filled (Run s n) = replicate (unat n) s"
| "filled (VectorSingle v f) = map (\<lambda>i. if bit v (unat f - 1 - i) then ReceivedSmallDelta else NotReceived) [0..<unat f]"
| "filled (VectorDouble v f) = map (\<lambda>i. status_from (ucast (drop_bit (2 * (unat f - 1 - i)) v AND 3))) [0..<unat f]"

fun fillable :: "packet_chunk \<Rightarrow> bool" where
  "fillable (Run s n) \<longleftrightarrow> n \<le> 8192"
| "fillable (VectorSingle v f) \<longleftrightarrow> f \<le> 14 \<and> (\<forall>j. unat f \<le> j \<longrightarrow> \<not> bit v j)"
| "fillable (VectorDouble v f) \<longleftrightarrow> f \<le> 7 \<and> (\<forall>j. 2 * unat f \<le> j \<longrightarrow> \<not> bit v j)"

fun interim_ok :: "chunk_interim \<Rightarrow> bool" where
  "interim_ok (Missing c) \<longleftrightarrow> c \<noteq> 0"
| "interim_ok (Received s d) \<longleftrightarrow> received s"

lemma length_expand: "interim_ok i \<Longrightarrow> 0 < length (expand i)"
  by (cases i) (auto simp: unat_gt_0)

fun capacity :: "packet_chunk \<Rightarrow> nat" where
  "capacity (Run s n) = 8192"
| "capacity (VectorSingle v f) = 14"
| "capacity (VectorDouble v f) = 7"

lemma unat_free: "fillable c \<Longrightarrow> unat (chunk_free c) + length (filled c) = capacity c"
proof (cases c)
  case (Run s n)
  assume "fillable c"
  then have "n \<le> 8192" using Run by simp
  then show ?thesis by (simp add: Run unat_sub word_le_nat_alt)
next
  case (VectorSingle v f)
  assume "fillable c"
  then have "f \<le> 14" using VectorSingle by simp
  then show ?thesis by (simp add: VectorSingle unat_sub word_le_nat_alt)
next
  case (VectorDouble v f)
  assume "fillable c"
  then have "f \<le> 7" using VectorDouble by simp
  then show ?thesis by (simp add: VectorDouble unat_sub word_le_nat_alt)
qed

lemma map_upt_append: "map f [0..<m + n] = map f [0..<m] @ map (\<lambda>i. f (m + i)) [0..<n]"
proof -
  have "[m..<m + n] = map (\<lambda>i. i + m) [0..<n]" using map_add_upt [of m n] by (simp add: add.commute)
  moreover have "[0..<m + n] = [0..<m] @ [m..<m + n]" by (rule upt_add_eq_append) simp
  ultimately show ?thesis by (simp add: o_def add.commute)
qed

lemma unat_min: "unat (min a b) = min (unat a) (unat (b :: 'a::len word))"
  by (simp add: min_def word_le_nat_alt)

lemma unat_add_small: "unat a + unat b < 2 ^ LENGTH('a) \<Longrightarrow> unat (a + b) = unat a + unat (b :: 'a::len word)"
  by (simp add: unat_word_ariths)

lemma append_run:
  assumes n: "n \<le> 8192" and c: "chunk_append (Run s n) i = (c', m)" and s: "s = interim_status i"
  shows "unat m = min (8192 - unat n) (length (expand i))" "c' = Run s (n + m)" "unat (n + m) = unat n + unat m"
proof -
  have f: "unat (8192 - n) = 8192 - unat n" using n by (simp add: unat_sub word_le_nat_alt)
  show u: "unat m = min (8192 - unat n) (length (expand i))"
    using c s by (cases i) (auto simp: Let_def unat_min f)
  show "c' = Run s (n + m)" using c s by (cases i) (auto simp: Let_def)
  have "unat n \<le> 8192" using n by (simp add: word_le_nat_alt)
  with u have "unat n + unat m \<le> 8192" by linarith
  then show "unat (n + m) = unat n + unat m" by (intro unat_add_small) simp
qed

lemma append_single_missing:
  assumes "fillable (VectorSingle v f)" "chunk_append (VectorSingle v f) (Missing c) = (c', m)"
  shows "unat m = min (14 - unat f) (unat c)" "fillable c'"
    "filled c' = filled (VectorSingle v f) @ replicate (unat m) NotReceived"
proof -
  have f: "f \<le> 14" "unat f \<le> 14" and v: "\<not> bit v j" if "unat f \<le> j" for j
    using assms(1) that by (auto simp: word_le_nat_alt)
  note f = f [OF order_refl]
  have m: "m = min (14 - f) c" and c': "c' = VectorSingle (push_bit (unat m) v) (f + m)"
    using assms(2) by (auto simp: Let_def)
  show um: "unat m = min (14 - unat f) (unat c)" using f by (simp add: m unat_min unat_sub word_le_nat_alt)
  then have "unat f + unat m \<le> 14" using f by linarith
  moreover from this have "unat (f + m) = unat f + unat m" by (intro unat_add_small) simp
  ultimately have u: "unat (f + m) = unat f + unat m" "unat f + unat m \<le> 14" by simp_all
  show "fillable c'" using u v by (auto simp: c' word_le_nat_alt bit_simps)
  have "map (\<lambda>i. if bit (push_bit (unat m) v) (unat f + unat m - 1 - i) then ReceivedSmallDelta else NotReceived) [0..<unat f]
    = filled (VectorSingle v f)"
    using u by (auto simp: bit_simps)
  moreover have "map (\<lambda>i. if bit (push_bit (unat m) v) (unat f + unat m - 1 - (unat f + i)) then ReceivedSmallDelta else NotReceived)
      [0..<unat m] = replicate (unat m) NotReceived"
    by (intro nth_equalityI) (auto simp: bit_simps)
  ultimately show "filled c' = filled (VectorSingle v f) @ replicate (unat m) NotReceived"
    unfolding c' filled.simps(2) [of _ "f + m"] u(1) map_upt_append by simp
qed

lemma append_single_received:
  assumes "fillable (VectorSingle v f)" "chunk_append (VectorSingle v f) (Received ReceivedSmallDelta d) = (c', m)"
    and "f \<noteq> 14"
  shows "m = 1" "fillable c'" "filled c' = filled (VectorSingle v f) @ [ReceivedSmallDelta]"
proof -
  have f: "f \<le> 14" "unat f \<le> 14" and v: "\<not> bit v j" if "unat f \<le> j" for j
    using assms(1) that by (auto simp: word_le_nat_alt)
  note f = f [OF order_refl]
  have "f < 14" using f(1) assms(3) by simp
  then have f14: "unat f < 14" by (simp add: word_less_nat_alt)
  then have "unat (14 - f) = 14 - unat f" using f by (simp add: unat_sub word_le_nat_alt)
  then have m: "min (14 - f) 1 = 1" using f14 by (simp add: word_unat_eq_iff unat_min)
  define w where "w = push_bit 1 v OR 1"
  have w: "bit w j \<longleftrightarrow> j = 0 \<or> 0 < j \<and> j < 16 \<and> bit v (j - 1)" for j
    unfolding w_def bit_or_iff bit_push_bit_iff bit_1_iff by auto
  have m1: "m = 1" and c': "c' = VectorSingle w (f + 1)"
    using assms(2) m by (auto simp: Let_def w_def)
  show "m = 1" by (rule m1)
  have u: "unat (f + 1) = unat f + 1" using f14 by (simp add: unat_word_ariths)
  show "fillable c'" using u v f14 by (auto simp: c' word_le_nat_alt w)
  have "map (\<lambda>i. if bit w (unat f + 1 - 1 - i) then ReceivedSmallDelta else NotReceived) [0..<unat f]
    = filled (VectorSingle v f)"
    using f14 by (auto simp: w)
  moreover have "map (\<lambda>i. if bit w (unat f + 1 - 1 - (unat f + i)) then ReceivedSmallDelta else NotReceived)
      [0..<1] = [ReceivedSmallDelta]"
    by (auto simp: w)
  ultimately show "filled c' = filled (VectorSingle v f) @ [ReceivedSmallDelta]"
    unfolding c' filled.simps(2) [of _ "f + 1"] u(1) map_upt_append by simp
qed

lemma two_bits_eqI: "(bit v 0 = bit w 0) \<Longrightarrow> (bit v 1 = bit w 1) \<Longrightarrow> v AND 3 = w AND (3 :: u16)"
proof (rule bit_word_eqI)
  fix j :: nat assume "bit v 0 = bit w 0" "bit v 1 = bit w 1" "j < LENGTH(16)"
  moreover have "bit (3 :: u16) j \<longleftrightarrow> j = 0 \<or> j = 1"
  proof -
    have "(3 :: u16) = mask 2" by (simp add: mask_eq_exp_minus_1)
    then show ?thesis by (auto simp only: bit_mask_iff) auto
  qed
  ultimately show "bit (v AND 3) j = bit (w AND 3) j" by (auto simp: bit_and_iff)
qed

lemma append_double_missing:
  assumes "fillable (VectorDouble v f)" "chunk_append (VectorDouble v f) (Missing c) = (c', m)"
  shows "unat m = min (7 - unat f) (unat c)" "fillable c'"
    "filled c' = filled (VectorDouble v f) @ replicate (unat m) NotReceived"
proof -
  have f: "f \<le> 7" "unat f \<le> 7" and v: "\<not> bit v j" if "2 * unat f \<le> j" for j
    using assms(1) that by (auto simp: word_le_nat_alt)
  note f = f [OF order_refl]
  have m: "m = min (7 - f) c" and c': "c' = VectorDouble (push_bit (unat (m * 2)) v) (f + m)"
    using assms(2) by (auto simp: Let_def)
  show um: "unat m = min (7 - unat f) (unat c)" using f by (simp add: m unat_min unat_sub word_le_nat_alt)
  then have "unat f + unat m \<le> 7" using f by linarith
  moreover from this have "unat (f + m) = unat f + unat m" by (intro unat_add_small) simp
  moreover have "unat (m * 2) = 2 * unat m" using calculation(1) by (simp add: unat_word_ariths)
  ultimately have u: "unat (f + m) = unat f + unat m" "unat f + unat m \<le> 7" "unat (m * 2) = 2 * unat m" by simp_all
  show "fillable c'" using u v by (auto simp: c' word_le_nat_alt bit_simps)
  have "drop_bit (2 * (unat f + unat m - 1 - i)) (push_bit (2 * unat m) v) AND 3 = drop_bit (2 * (unat f - 1 - i)) v AND 3"
    if "i < unat f" for i
  proof -
    from that obtain k where k: "unat f = Suc (i + k)" by (auto dest: less_imp_Suc_add)
    then have "unat f + unat m - 1 - i = k + unat m" "unat f - 1 - i = k" by simp_all
    then show ?thesis using k u by (intro two_bits_eqI) (auto simp only:, auto simp: bit_simps)
  qed
  then have "map (\<lambda>i. status_from (ucast (drop_bit (2 * (unat f + unat m - 1 - i)) (push_bit (2 * unat m) v) AND 3))) [0..<unat f]
    = filled (VectorDouble v f)"
    by auto
  moreover have "drop_bit (2 * (unat f + unat m - 1 - (unat f + i))) (push_bit (2 * unat m) v) AND 3 = 0 AND 3"
    if "i < unat m" for i
    using that u by (intro two_bits_eqI) (auto simp: bit_simps)
  then have "map (\<lambda>i. status_from (ucast (drop_bit (2 * (unat f + unat m - 1 - (unat f + i))) (push_bit (2 * unat m) v) AND 3)))
      [0..<unat m] = replicate (unat m) NotReceived"
    by (intro nth_equalityI) (auto simp: status_from_def)
  ultimately show "filled c' = filled (VectorDouble v f) @ replicate (unat m) NotReceived"
    unfolding c' filled.simps(3) [of _ "f + m"] u(1,3) map_upt_append by simp
qed

lemma append_double_received:
  assumes "fillable (VectorDouble v f)" "chunk_append (VectorDouble v f) (Received s d) = (c', m)"
    and "f \<noteq> 7"
  shows "m = 1" "fillable c'" "filled c' = filled (VectorDouble v f) @ [s]"
proof -
  have f: "f \<le> 7" "unat f \<le> 7" and v: "\<not> bit v j" if "2 * unat f \<le> j" for j
    using assms(1) that by (auto simp: word_le_nat_alt)
  note f = f [OF order_refl]
  have "f < 7" using f(1) assms(3) by simp
  then have f7: "unat f < 7" by (simp add: word_less_nat_alt)
  have "unat (7 - f) = 7 - unat f" using f by (simp add: unat_sub word_le_nat_alt)
  then have m: "min (7 - f) 1 = 1" using f7 by (simp add: word_unat_eq_iff unat_min)
  let ?v = "push_bit 2 v OR status_to_u16 s"
  have m1: "m = 1" and c': "c' = VectorDouble ?v (f + 1)"
    using assms(2) m by (auto simp: Let_def)
  show "m = 1" by (rule m1)
  have u: "unat (f + 1) = unat f + 1" using f7 by (simp add: unat_word_ariths)
  have s: "\<not> bit (status_to_u16 s) j" if "2 \<le> j" for j using bit_status [of s j] that by auto
  show "fillable c'" using u v f7 s by (auto simp: c' word_le_nat_alt bit_simps)
  have "drop_bit (2 * (unat f + 1 - 1 - i)) ?v AND 3 = drop_bit (2 * (unat f - 1 - i)) v AND 3"
    if "i < unat f" for i
  proof -
    from that obtain k where k: "unat f = Suc (i + k)" by (auto dest: less_imp_Suc_add)
    then have "unat f + 1 - 1 - i = Suc k" "unat f - 1 - i = k" by simp_all
    then show ?thesis using k f7 s by (intro two_bits_eqI) (auto simp only:, auto simp: bit_simps)
  qed
  then have "map (\<lambda>i. status_from (ucast (drop_bit (2 * (unat f + 1 - 1 - i)) ?v AND 3))) [0..<unat f]
    = filled (VectorDouble v f)"
    by auto
  moreover have "?v AND 3 = status_to_u16 s AND 3" by (intro two_bits_eqI) (auto simp: bit_simps)
  moreover have "status_from (ucast (status_to_u16 s AND 3)) = s" by (cases s) (simp_all add: status_from_def)
  ultimately show "filled c' = filled (VectorDouble v f) @ [s]"
    unfolding c' filled.simps(3) [of _ "f + 1"] u(1) map_upt_append by simp
qed

lemma append_spec:
  assumes "fillable c" "interim_ok i" "chunk_free c \<noteq> 0" "can_append_status c (interim_status i)" "chunk_append c i = (c', m)"
  shows "fillable c' \<and> unat m = min (unat (chunk_free c)) (length (expand i)) \<and> filled c' = filled c @ take (unat m) (expand i)
    \<and> must_be_full c' = must_be_full c \<and> can_append_status c' = can_append_status c \<and> capacity c' = capacity c"
proof (cases c)
  case (Run s n)
  have n: "n \<le> 8192" and s: "s = interim_status i" using assms(1,4) Run by simp_all
  note r = append_run [OF n _ s, of c' m]
  have "unat n \<le> 8192" using n by (simp add: word_le_nat_alt)
  moreover have u: "unat (8192 - n) = 8192 - unat n" using n by (simp add: unat_sub word_le_nat_alt)
  ultimately have "n + m \<le> 8192" using r(1,3) assms(5) Run by (simp add: word_le_nat_alt)
  moreover have "expand i = replicate (length (expand i)) s" using s by (cases i) simp_all
  then have "take (unat m) (expand i) = replicate (unat m) s"
    using r(1) assms(5) Run by (metis min.cobounded2 take_replicate min.absorb1)
  ultimately show ?thesis using r assms(5) Run u by (auto simp: replicate_add fun_eq_iff)
next
  case (VectorSingle v f)
  then have f: "f \<le> 14" "f \<noteq> 14" using assms(1,3) by auto
  then have u: "unat (14 - f) = 14 - unat f" by (simp add: unat_sub word_le_nat_alt)
  show ?thesis
  proof (cases i)
    case (Missing k)
    note a = append_single_missing [of v f k c' m]
    have "c' = VectorSingle (push_bit (unat m) v) (f + m)" using assms(5) Missing VectorSingle by (auto simp: Let_def)
    with a show ?thesis using assms VectorSingle Missing u by (auto simp: fun_eq_iff)
  next
    case (Received s d)
    then have s: "s = ReceivedSmallDelta" using assms(2,4) VectorSingle by (cases s) auto
    note a = append_single_received [of v f d c' m]
    have "\<exists>w g. c' = VectorSingle w g" using assms(5) Received VectorSingle by (auto simp: Let_def split: if_splits)
    moreover have "0 < 14 - unat f" using f by (metis u assms(3) VectorSingle chunk_free.simps(2) unat_gt_0)
    ultimately show ?thesis using a assms VectorSingle Received s f u by (auto simp: fun_eq_iff)
  qed
next
  case (VectorDouble v f)
  then have f: "f \<le> 7" "f \<noteq> 7" using assms(1,3) by auto
  then have u: "unat (7 - f) = 7 - unat f" by (simp add: unat_sub word_le_nat_alt)
  show ?thesis
  proof (cases i)
    case (Missing k)
    note a = append_double_missing [of v f k c' m]
    have "\<exists>w g. c' = VectorDouble w g" using assms(5) Missing VectorDouble by (auto simp: Let_def)
    with a show ?thesis using assms VectorDouble Missing u by (auto simp: fun_eq_iff)
  next
    case (Received s d)
    note a = append_double_received [of v f s d c' m]
    have "\<exists>w g. c' = VectorDouble w g" using assms(5) Received VectorDouble by (auto simp: Let_def split: if_splits)
    moreover have "0 < 7 - unat f" using f by (metis u assms(3) VectorDouble chunk_free.simps(3) unat_gt_0)
    ultimately show ?thesis using a assms VectorDouble Received f u by (auto simp: fun_eq_iff)
  qed
qed

abbreviation packets :: "chunk_interim list \<Rightarrow> packet_status list" where
  "packets is \<equiv> concat (map expand is)"

text \<open>A number of packets that splits no interim.\<close>

definition boundary :: "nat \<Rightarrow> chunk_interim list \<Rightarrow> bool" where
  "boundary k is \<longleftrightarrow> (\<exists>ps qs. is = ps @ qs \<and> k = length (packets ps))"

lemma boundary_0 [simp]: "boundary 0 is"
  unfolding boundary_def by (rule exI [of _ "[]"]) simp

lemma boundary_Cons: "boundary k is \<Longrightarrow> boundary (length (expand i) + k) (i # is)"
  unfolding boundary_def by (metis append_Cons concat.simps(2) length_append list.simps(9))

lemma boundary_ConsE:
  assumes "boundary k (i # is)" "k \<noteq> 0"
  obtains l where "k = length (expand i) + l" "boundary l is"
proof -
  from assms(1) obtain ps qs where ps: "i # is = ps @ qs" "k = length (packets ps)" unfolding boundary_def by blast
  with assms(2) obtain ps' where "ps = i # ps'" by (cases ps) auto
  with ps that [of "length (packets ps')"] show ?thesis by (auto simp: boundary_def)
qed

lemma expand_status: "s \<in> set (expand i) \<Longrightarrow> s = interim_status i"
  by (cases i) auto

lemma fill_from_spec:
  assumes "fillable c" "list_all interim_ok is" "fill_from c is = (t, e)"
  shows "\<exists>k. fillable t \<and> filled t = filled c @ take k (packets is) \<and> k \<le> length (packets is)
    \<and> list_all (can_append_status c) (take k (packets is)) \<and> must_be_full t = must_be_full c \<and> capacity t = capacity c
    \<and> (e \<longrightarrow> k = length (packets is) \<or> chunk_free t = 0) \<and> (boundary k is \<or> chunk_free t = 0)"
  using assms
proof (induction "is" arbitrary: c)
  case Nil
  then show ?case by simp
next
  case (Cons i "is")
  show ?case
  proof (cases "chunk_free c = 0 \<or> \<not> can_append_status c (interim_status i)")
    case True
    then show ?thesis using Cons.prems by (intro exI [of _ 0]) simp
  next
    case False
    obtain c' m where c': "chunk_append c i = (c', m)" by fastforce
    note a = append_spec [OF Cons.prems(1) _ _ _ c']
    from Cons.prems(2) False have a: "fillable c'" "unat m = min (unat (chunk_free c)) (length (expand i))"
      "filled c' = filled c @ take (unat m) (expand i)" "must_be_full c' = must_be_full c"
      "can_append_status c' = can_append_status c" "capacity c' = capacity c" using a by simp_all
    obtain k where k: "fillable t" "filled t = filled c' @ take k (packets is)" "k \<le> length (packets is)"
      "list_all (can_append_status c') (take k (packets is))" "must_be_full t = must_be_full c'" "capacity t = capacity c'"
      "e \<longrightarrow> k = length (packets is) \<or> chunk_free t = 0" "boundary k is \<or> chunk_free t = 0"
      using Cons.IH [OF a(1)] Cons.prems False c' by auto
    have st: "list_all (can_append_status c) (expand i)"
      using False expand_status by (auto simp: list_all_iff)
    show ?thesis
    proof (cases "unat m = length (expand i)")
      case True
      then show ?thesis using a k st by (intro exI [of _ "length (expand i) + k"]) (auto dest: boundary_Cons)
    next
      case False
      then have m: "unat m < length (expand i)" "unat m = unat (chunk_free c)" using a(2) by linarith+
      have "unat (chunk_free c') = 0"
        using unat_free [OF a(1)] unat_free [OF Cons.prems(1)] a(3,6) m by simp
      then have "unat (chunk_free t) + k = 0"
        using unat_free [OF a(1)] unat_free [OF k(1)] k(2,3,6) by simp
      then show ?thesis using a k st m by (intro exI [of _ "unat m"]) (auto simp: list_all_iff dest: in_set_takeD simp: unat_eq_0)
    qed
  qed
qed

lemma append_max_spec:
  assumes "fillable c" "list_all interim_ok is" "filled c = []"
  shows "unat (append_max c is) \<le> length (packets is)" "unat (append_max c is) \<le> capacity c"
    "list_all (can_append_status c) (take (unat (append_max c is)) (packets is))"
    "must_be_full c \<Longrightarrow> append_max c is \<noteq> 0 \<Longrightarrow> unat (append_max c is) = capacity c \<or> unat (append_max c is) = length (packets is)"
    "boundary (unat (append_max c is)) is \<or> unat (append_max c is) = capacity c"
proof -
  obtain t e where t: "fill_from c is = (t, e)" by fastforce
  obtain k where k: "fillable t" "filled t = filled c @ take k (packets is)" "k \<le> length (packets is)"
    "list_all (can_append_status c) (take k (packets is))" "must_be_full t = must_be_full c" "capacity t = capacity c"
    "e \<longrightarrow> k = length (packets is) \<or> chunk_free t = 0" "boundary k is \<or> chunk_free t = 0"
    using fill_from_spec [OF assms(1,2) t] by blast
  have f: "unat (chunk_free c) = capacity c" "unat (chunk_free t) + k = capacity c"
    using unat_free [OF assms(1)] unat_free [OF k(1)] assms(3) k(2,3,6) by simp_all
  then have "chunk_free t \<le> chunk_free c" by (simp add: word_le_nat_alt)
  then have d: "unat (chunk_free c - chunk_free t) = k" using f by (simp add: unat_sub)
  show "unat (append_max c is) \<le> length (packets is)" "unat (append_max c is) \<le> capacity c"
    "list_all (can_append_status c) (take (unat (append_max c is)) (packets is))"
    using k(3,4) d f by (simp_all add: append_max_def t)
  show "boundary (unat (append_max c is)) is \<or> unat (append_max c is) = capacity c"
    using k(8) d f by (auto simp: append_max_def t)
  show "unat (append_max c is) = capacity c \<or> unat (append_max c is) = length (packets is)"
    if "must_be_full c" "append_max c is \<noteq> 0"
    using that k(5,7) d f unat_gt_0 [of "chunk_free t"] by (auto simp: append_max_def t word_gt_0 split: if_splits)
qed
fun interim_deltas :: "chunk_interim \<Rightarrow> delta list" where
  "interim_deltas (Received ReceivedSmallDelta d) = [Small (ucast d)]"
| "interim_deltas (Received ReceivedLargeOrNegativeDelta d) = [Large d]"
| "interim_deltas _ = []"

abbreviation deltas :: "chunk_interim list \<Rightarrow> delta list" where
  "deltas is \<equiv> concat (map interim_deltas is)"

lemma interim_deltas_status: "interim_ok i \<Longrightarrow> map delta_status (interim_deltas i) = filter received (expand i)"
  by (cases i rule: interim_deltas.cases) auto

lemma choose_chunk_spec:
  assumes "list_all interim_ok is" "is \<noteq> []" "choose_chunk is n = (c, m)"
  shows "fillable c" "filled c = []" "unat m \<le> length (packets is)" "unat m \<le> unat (chunk_free c)" "m \<noteq> 0"
    "list_all (can_append_status c) (take (unat m) (packets is))"
    "must_be_full c \<Longrightarrow> 19 \<le> n" "must_be_full c \<Longrightarrow> unat m = capacity c \<or> unat m = length (packets is)"
    "boundary (unat m) is \<or> m = chunk_free c"
proof -
  obtain i js where js: "is = i # js" using assms(2) by (cases "is") auto
  then have i: "interim_ok i" using assms(1) by simp
  define s where "s = interim_status i"
  let ?r = "Run s 0" and ?s = "VectorSingle 0 0" and ?d = "VectorDouble 0 0"
  have fillable: "fillable ?r" "fillable ?s" "fillable ?d" "filled ?r = []" "filled ?s = []" "filled ?d = []" by simp_all
  note ar = append_max_spec [OF fillable(1) assms(1) fillable(4)] and as = append_max_spec [OF fillable(2) assms(1) fillable(5)]
    and ad = append_max_spec [OF fillable(3) assms(1) fillable(6)]
  have "append_max ?r is \<noteq> 0"
  proof -
    obtain c' k where c': "chunk_append ?r i = (c', k)" by fastforce
    have a: "fillable c'" "unat k = min 8192 (length (expand i))" "filled c' = take (unat k) (expand i)" "capacity c' = 8192" "must_be_full c' = False"
      using append_spec [OF fillable(1) i _ _ c'] s_def by simp_all
    obtain t e where t: "fill_from c' js = (t, e)" by fastforce
    have "\<exists>l. fillable t \<and> filled t = filled c' @ take l (packets js) \<and> must_be_full t = must_be_full c' \<and> capacity t = capacity c'"
      using fill_from_spec [OF a(1) _ t] assms(1) js by auto
    then obtain l where l: "fillable t" "filled t = filled c' @ take l (packets js)" "must_be_full t = must_be_full c'" "capacity t = capacity c'"
      by blast
    have "0 < length (filled t)" using a(2,3) l(2) length_expand [OF i] by simp
    then have "unat (chunk_free t) < 8192" using unat_free [OF l(1)] a(4) l(4) by linarith
    then have "chunk_free t \<noteq> 8192" by auto
    moreover have "fill_from ?r is = (t, e)" using js c' t s_def by simp
    ultimately show ?thesis using l(3) a(5) by (simp add: append_max_def)
  qed
  moreover have "max (max (append_max ?r is) (append_max ?s is)) (append_max ?d is) \<noteq> 0"
    using calculation by (metis max.cobounded1 max.coboundedI1 word_le_0_iff)
  moreover have "c = ?r \<and> m = append_max ?r is \<or> c = ?s \<and> m = append_max ?s is \<and> m \<noteq> 0 \<and> 19 \<le> n \<or> c = ?d \<and> m = append_max ?d is \<and> m \<noteq> 0 \<and> 19 \<le> n"
    using assms(3) calculation(2) by (auto simp: choose_chunk_def js s_def Let_def split: if_splits)
  ultimately consider "c = ?r" "m = append_max ?r is" "m \<noteq> 0" | "c = ?s" "m = append_max ?s is" "m \<noteq> 0" "19 \<le> n"
    | "c = ?d" "m = append_max ?d is" "m \<noteq> 0" "19 \<le> n" by metis
  note cases = this
  show "fillable c" "filled c = []" "m \<noteq> 0" by (cases rule: cases; simp)+
  then show "unat m \<le> unat (chunk_free c)" using ar(2) as(2) ad(2) by (cases rule: cases) simp_all
  show "unat m \<le> length (packets is)" "list_all (can_append_status c) (take (unat m) (packets is))"
    using ar(1,3) as(1,3) ad(1,3) by (cases rule: cases; simp)+
  show "boundary (unat m) is \<or> m = chunk_free c"
    using ar(5) as(5) ad(5) by (cases rule: cases) (auto simp: word_unat_eq_iff)
  show "19 \<le> n" if "must_be_full c" using that by (cases rule: cases) simp_all
  show "unat m = capacity c \<or> unat m = length (packets is)" if "must_be_full c"
    using that as(4) ad(4) by (cases rule: cases) auto
qed

text \<open>A step of the builder: the packets consumed, in the chunk and in the deltas.\<close>

lemma consume_spec:
  assumes "interim_ok i" "interim_consume i m = Some (j, full)" "unat m \<le> length (expand i)" "m \<noteq> 0"
  shows "full \<longleftrightarrow> unat m = length (expand i)" "\<not> full \<Longrightarrow> interim_ok j \<and> expand j = drop (unat m) (expand i) \<and> interim_deltas i = [] \<and> interim_deltas j = []
     \<and> filter received (take (unat m) (expand i)) = []"
    "full \<Longrightarrow> interim_delta j = (case interim_deltas i of [] \<Rightarrow> Some None | d # _ \<Rightarrow> Some (Some d))"
    "full \<Longrightarrow> (case j of Received _ _ \<Rightarrow> True | Missing _ \<Rightarrow> False) \<longleftrightarrow> interim_deltas i \<noteq> []"
proof -
  have "(full \<longleftrightarrow> unat m = length (expand i)) \<and> (\<not> full \<longrightarrow> interim_ok j \<and> expand j = drop (unat m) (expand i) \<and> interim_deltas i = []
      \<and> interim_deltas j = [] \<and> filter received (take (unat m) (expand i)) = [])
    \<and> (full \<longrightarrow> interim_delta j = (case interim_deltas i of [] \<Rightarrow> Some None | d # _ \<Rightarrow> Some (Some d))
      \<and> ((case j of Received _ _ \<Rightarrow> True | Missing _ \<Rightarrow> False) \<longleftrightarrow> interim_deltas i \<noteq> []))"
  proof (cases i)
    case (Missing c)
    then have "m \<le> c" using assms(3) by (simp add: word_le_nat_alt)
    moreover have "c - m = 0 \<longleftrightarrow> unat m = unat c" by (auto simp: word_unat_eq_iff [symmetric])
    ultimately show ?thesis using Missing assms(2) by (auto simp: unat_sub)
  next
    case (Received s d)
    then have "unat m \<le> 1" using assms(3) by simp
    moreover have "unat m \<noteq> 0" using assms(4) by (simp add: unat_eq_0)
    ultimately have "unat m = unat (1 :: u16)" by simp
    then have "m = 1" using word_unat_eq_iff by blast
    then show ?thesis using Received assms by (cases s) (auto split: if_splits)
  qed
  then show "full \<longleftrightarrow> unat m = length (expand i)" "\<not> full \<Longrightarrow> interim_ok j \<and> expand j = drop (unat m) (expand i) \<and> interim_deltas i = [] \<and> interim_deltas j = []
     \<and> filter received (take (unat m) (expand i)) = []"
    "full \<Longrightarrow> interim_delta j = (case interim_deltas i of [] \<Rightarrow> Some None | d # _ \<Rightarrow> Some (Some d))"
    "full \<Longrightarrow> (case j of Received _ _ \<Rightarrow> True | Missing _ \<Rightarrow> False) \<longleftrightarrow> interim_deltas i \<noteq> []"
    by blast+
qed

lemma fill_chunk_spec:
  assumes "fillable c" "list_all interim_ok is" "unat todo \<le> length (packets is)" "todo \<le> chunk_free c"
    "list_all (can_append_status c) (take (unat todo) (packets is))" "boundary (unat todo) is \<or> todo = chunk_free c"
  shows "\<exists>c' b j ds. fill_chunk c todo is n k p = Some (c', b) \<and> j \<le> unat todo
    \<and> fillable c' \<and> filled c' = filled c @ take j (packets is) \<and> must_be_full c' = must_be_full c \<and> capacity c' = capacity c
    \<and> list_all interim_ok (bd_interims b) \<and> packets (bd_interims b) = drop j (packets is)
    \<and> deltas is = ds @ deltas (bd_interims b) \<and> map delta_status ds = filter received (take j (packets is))
    \<and> bd_report_from b = k + length ds \<and> bd_bytes_left b + sum_list (map delta_byte_len ds) = n
    \<and> bd_twcc b = p\<lparr>tw_status_count := tw_status_count p + of_nat j, tw_delta := tw_delta p @ ds\<rparr>
    \<and> (j < unat todo \<longrightarrow> bd_bytes_left b < 7) \<and> (todo \<noteq> 0 \<and> 7 \<le> n \<longrightarrow> 0 < j) \<and> (7 \<le> n \<longrightarrow> 5 \<le> bd_bytes_left b)"
  using assms
proof (induction "is" arbitrary: c todo n k p)
  case Nil
  then show ?case by (intro exI [of _ c] exI) (auto simp: unat_eq_0)
next
  case (Cons i "is")
  show ?case
  proof (cases "n < 7 \<or> todo = 0")
    case True
    then show ?thesis using Cons.prems by (intro exI [of _ c] exI [of _ 0] exI) auto
  next
    case False
    have n7: "7 \<le> n" using False by simp
    have t: "unat todo \<noteq> 0" "chunk_free c \<noteq> 0" using False Cons.prems(4) by (auto simp: unat_eq_0)
    have i: "interim_ok i" "list_all interim_ok is" using Cons.prems(2) by simp_all
    have "can_append_status c (interim_status i)"
    proof -
      obtain x xs where "expand i = x # xs" using length_expand [OF i(1)] by (cases "expand i") auto
      moreover from this have "x = interim_status i" using expand_status [of x i] by simp
      ultimately show ?thesis using Cons.prems(5) t(1) by (cases "unat todo") auto
    qed
    moreover obtain c1 m where c1: "chunk_append c i = (c1, m)" by fastforce
    ultimately have a: "fillable c1" "unat m = min (unat (chunk_free c)) (length (expand i))"
      "filled c1 = filled c @ take (unat m) (expand i)" "must_be_full c1 = must_be_full c"
      "can_append_status c1 = can_append_status c" "capacity c1 = capacity c"
      using append_spec [OF Cons.prems(1) i(1) t(2) _ c1] by simp_all
    have "0 < unat (chunk_free c)" using t(2) by (simp add: unat_gt_0)
    then have "0 < unat m" using a(2) length_expand [OF i(1)] by linarith
    then have m0: "m \<noteq> 0" by auto
    have free1: "unat (chunk_free c1) + unat m = unat (chunk_free c)"
      using unat_free [OF a(1)] unat_free [OF Cons.prems(1)] a(2,3,6) by simp
    have mt: "unat m \<le> unat todo"
    proof (cases "todo = chunk_free c")
      case False
      then obtain l where "unat todo = length (expand i) + l" using Cons.prems(6) t(1) boundary_ConsE by blast
      then show ?thesis using a(2) by simp
    qed (use a(2) in simp)
    then have todo1: "unat (todo - m) = unat todo - unat m" by (simp add: unat_sub word_le_nat_alt)
    obtain j full where j: "interim_consume i m = Some (j, full)"
    proof (cases i)
      case (Received s d)
      then have "unat m \<le> unat (1 :: u16)" using a(2) by simp
      then show ?thesis using that Received by (simp add: word_le_nat_alt)
    qed (use that in simp)
    note cs = consume_spec [OF i(1) j _ m0]
    let ?p = "p\<lparr>tw_status_count := tw_status_count p + m\<rparr>"
    show ?thesis
    proof (cases full)
      case True
      then have ml: "unat m = length (expand i)" using cs(1) a(2) by simp
      define ds where "ds = interim_deltas i"
      have ds: "ds = [] \<or> (\<exists>d. ds = [d])" by (cases i rule: interim_deltas.cases) (simp_all add: ds_def)
      have len: "sum_list (map delta_byte_len ds) \<le> 2"
      proof -
        have "delta_byte_len d \<le> 2" for d by (cases d) simp_all
        then show ?thesis using ds by auto
      qed
      let ?n = "n - sum_list (map delta_byte_len ds)" and ?q = "?p\<lparr>tw_delta := tw_delta ?p @ ds\<rparr>"
      have step: "fill_chunk c todo (i # is) n k p = fill_chunk c1 (todo - m) is ?n (k + length ds) ?q"
        using ds cs(3,4) a(2) True False j c1 m0 len
        by (auto simp: Let_def ds_def split: chunk_interim.splits option.splits if_splits)
      have "boundary (unat (todo - m)) is \<or> todo - m = chunk_free c1"
      proof (cases "todo = chunk_free c")
        case True
        then have "unat (todo - m) = unat (chunk_free c1)" using todo1 free1 by simp
        then show ?thesis by (simp add: word_unat_eq_iff)
      next
        case False
        then obtain l where "unat todo = length (expand i) + l" "boundary l is" using Cons.prems(6) t(1) boundary_ConsE by blast
        then show ?thesis using todo1 ml by simp
      qed
      moreover have "list_all (can_append_status c1) (take (unat (todo - m)) (packets is))"
        using Cons.prems(5) a(5) ml mt todo1 by (simp add: take_add)
      moreover have "todo - m \<le> chunk_free c1"
        using todo1 free1 Cons.prems(4) by (simp add: word_le_nat_alt)
      moreover have "unat (todo - m) \<le> length (packets is)" using todo1 ml Cons.prems(3) by simp
      ultimately obtain c' b j' ds' where r: "fill_chunk c1 (todo - m) is ?n (k + length ds) ?q = Some (c', b)"
        "j' \<le> unat (todo - m)" "fillable c'" "filled c' = filled c1 @ take j' (packets is)" "must_be_full c' = must_be_full c1"
        "capacity c' = capacity c1" "list_all interim_ok (bd_interims b)" "packets (bd_interims b) = drop j' (packets is)"
        "deltas is = ds' @ deltas (bd_interims b)" "map delta_status ds' = filter received (take j' (packets is))"
        "bd_report_from b = k + length ds + length ds'" "bd_bytes_left b + sum_list (map delta_byte_len ds') = ?n"
        "bd_twcc b = ?q\<lparr>tw_status_count := tw_status_count ?q + of_nat j', tw_delta := tw_delta ?q @ ds'\<rparr>"
        "j' < unat (todo - m) \<longrightarrow> bd_bytes_left b < 7" "7 \<le> ?n \<longrightarrow> 5 \<le> bd_bytes_left b"
        using Cons.IH [OF a(1) i(2), of "todo - m" ?n "k + length ds" ?q] by blast
      have "of_nat (unat m + j') = m + (of_nat j' :: u16)" by simp
      moreover have "5 \<le> bd_bytes_left b"
      proof (cases "7 \<le> ?n")
        case False
        then have "fill_chunk c1 (todo - m) is ?n (k + length ds) ?q = Some (c', b) \<Longrightarrow> bd_bytes_left b = ?n"
          by (cases "is") (auto split: if_splits)
        then show ?thesis using r(1) len n7 by linarith
      qed (use r in simp)
      ultimately show ?thesis
        using r step a ml mt todo1 len False interim_deltas_status [OF i(1)] length_expand [OF i(1)]
        by (intro exI [of _ c'] exI [of _ b] exI [of _ "unat m + j'"] exI [of _ "ds @ ds'"]) (auto simp: ds_def add.assoc)
    next
      case False
      then have ml: "unat m < length (expand i)" using cs(1) a(2) by simp
      then have mf: "unat m = unat (chunk_free c)" using a(2) by simp
      then have "unat m = unat todo" using mt Cons.prems(4) by (simp add: word_le_nat_alt)
      then have tm: "todo = m" by (simp add: word_unat_eq_iff)
      have c: "interim_ok j" "expand j = drop (unat m) (expand i)" "interim_deltas i = []" "interim_deltas j = []"
        "filter received (take (unat m) (expand i)) = []" using cs(2) False a(2) by simp_all
      have "fill_chunk c todo (i # is) n k p
        = Some (c1, \<lparr>bd_interims = j # is, bd_bytes_left = n, bd_report_from = k, bd_twcc = ?p\<rparr>)"
        using False j c1 m0 tm \<open>\<not> (n < 7 \<or> todo = 0)\<close> by (simp add: Let_def)
      moreover have "unat m - length (expand i) = 0" "unat m \<noteq> 0" using ml m0 by (simp_all add: unat_eq_0)
      ultimately show ?thesis using a(1,3-6) c tm i(2) \<open>\<not> (n < 7 \<or> todo = 0)\<close> t(1)
        by (intro exI [of _ c1] exI [of _ "\<lparr>bd_interims = j # is, bd_bytes_left = n, bd_report_from = k, bd_twcc = ?p\<rparr>"]
            exI [of _ "unat m"] exI [of _ "[]"]) (auto simp del: fill_chunk.simps)
    qed
  qed
qed

definition done_chunk :: "packet_chunk \<Rightarrow> bool" where
  "done_chunk c \<longleftrightarrow> fillable c \<and> (must_be_full c \<longrightarrow> chunk_free c = 0)"

lemma done_vector:
  "done_chunk (VectorSingle v f) \<Longrightarrow> f = 14 \<and> v < 16384" "done_chunk (VectorDouble v f) \<Longrightarrow> f = 7 \<and> v < 16384"
proof -
  have small: "v < 16384" if "\<And>j. 14 \<le> j \<Longrightarrow> \<not> bit v j" for v :: u16
    using less_pow2I [of 14 v] that by simp
  show "f = 14 \<and> v < 16384" if "done_chunk (VectorSingle v f)"
    using that small [of v] by (auto simp: done_chunk_def)
  show "f = 7 \<and> v < 16384" if "done_chunk (VectorDouble v f)"
    using that small [of v] by (auto simp: done_chunk_def)
qed

lemma done_symbols: "done_chunk c \<Longrightarrow> chunk_symbols c = filled c"
proof (cases c)
  case (VectorDouble v f)
  moreover assume "done_chunk c"
  ultimately have "f = 7" using done_vector by blast
  moreover have "[0..<7] = [0, 1, 2, 3, 4, 5, 6]" by (simp add: upt_rec)
  ultimately show ?thesis using VectorDouble by (simp add: double_symbols_def)
qed (auto simp: single_symbols_def dest!: done_vector)

lemma done_statuses: "done_chunk c \<Longrightarrow> UnknownStatus \<notin> set (filled c) \<Longrightarrow> statuses c = filled c"
proof (cases c)
  case (Run s n)
  moreover assume "UnknownStatus \<notin> set (filled c)"
  ultimately show ?thesis by (cases s) (auto simp: unat_eq_0)
qed (metis done_symbols statuses.simps(2,3))+

lemma done_iterable: "done_chunk c \<Longrightarrow> filled c \<noteq> [] \<Longrightarrow> UnknownStatus \<notin> set (filled c) \<Longrightarrow> iterable c"
  using done_symbols [of c] by (cases c) (auto simp: unat_eq_0 dest!: done_vector)

lemma done_chunk_ok: "done_chunk c \<Longrightarrow> chunk_ok c \<or> (\<exists>s. c = Run s 8192)"
proof (cases c)
  case (Run s n)
  moreover assume "done_chunk c"
  ultimately have "n < 8192 \<or> n = 8192" by (auto simp: done_chunk_def)
  then show ?thesis using Run by auto
qed (auto dest: done_vector)

lemma pad_chunk_spec:
  assumes "fillable c" "pad_chunk c is = Some c'"
  obtains r where "done_chunk c'" "filled c' = filled c @ replicate r NotReceived" "r \<noteq> 0 \<Longrightarrow> is = []" "r + length (filled c) < 14 + length (filled c) \<or> filled c = []"
proof (cases "must_be_full c \<and> 0 < chunk_free c")
  case False
  then have "done_chunk c" "c' = c" using assms by (auto simp: done_chunk_def pad_chunk_def word_gt_0)
  then show ?thesis using that [of 0] by simp
next
  case True
  then have "is": "is = []" and c': "c' = fst (chunk_append c (Missing (chunk_free c)))"
    using assms(2) by (auto simp: pad_chunk_def split: if_splits)
  have free: "chunk_free c \<noteq> 0" using True by auto
  obtain m where a: "chunk_append c (Missing (chunk_free c)) = (c', m)" using c' by (metis prod.collapse)
  have "can_append_status c NotReceived" using True by (cases c) auto
  then have s: "fillable c'" "unat m = unat (chunk_free c)" "filled c' = filled c @ take (unat m) (replicate (unat (chunk_free c)) NotReceived)"
    "capacity c' = capacity c" "must_be_full c' = must_be_full c"
    using append_spec [OF assms(1) _ free _ a] free by simp_all
  have "capacity c \<le> 14" using True by (cases c) simp_all
  then have "unat (chunk_free c) < 14 \<or> filled c = []" using unat_free [OF assms(1)] by (cases "filled c") auto
  moreover have "unat (chunk_free c') = 0" using unat_free [OF s(1)] unat_free [OF assms(1)] s(2-4) by simp
  then have "done_chunk c'" using s(1) by (simp add: done_chunk_def unat_eq_0)
  ultimately show ?thesis using that [of "unat (chunk_free c)"] s "is" by auto
qed

text \<open>What the loop has written when it is done: packets taken in order, and padding only at the end.\<close>

definition wrote :: "building \<Rightarrow> building \<Rightarrow> nat \<Rightarrow> nat \<Rightarrow> packet_chunk list \<Rightarrow> delta list \<Rightarrow> bool" where
  "wrote b b' j r cs ds \<longleftrightarrow> j \<le> length (packets (bd_interims b))
    \<and> concat (map chunk_symbols cs) = take j (packets (bd_interims b)) @ replicate r NotReceived
    \<and> list_all done_chunk cs \<and> list_all (\<lambda>c. filled c \<noteq> []) cs \<and> (r \<noteq> 0 \<longrightarrow> bd_interims b' = []) \<and> r < 14 \<and> accounts (int j) cs
    \<and> list_all interim_ok (bd_interims b') \<and> packets (bd_interims b') = drop j (packets (bd_interims b))
    \<and> deltas (bd_interims b) = ds @ deltas (bd_interims b') \<and> map delta_status ds = filter received (take j (packets (bd_interims b)))
    \<and> bd_report_from b' = bd_report_from b + length ds
    \<and> bd_twcc b' = (bd_twcc b)\<lparr>tw_status_count := tw_status_count (bd_twcc b) + of_nat j,
        tw_chunks := tw_chunks (bd_twcc b) @ cs, tw_delta := tw_delta (bd_twcc b) @ ds\<rparr>"

lemma packets_nonempty: "list_all interim_ok is \<Longrightarrow> is \<noteq> [] \<Longrightarrow> packets is \<noteq> []"
  using length_expand by (cases "is") auto

lemma report_loop_spec:
  assumes "report_loop b = Some b'" "list_all interim_ok (bd_interims b)"
  shows "\<exists>j r cs ds. wrote b b' j r cs ds"
  using assms
proof (induction b rule: report_loop.induct)
  case (1 b)
  show ?case
  proof (cases "bd_interims b = [] \<or> bd_bytes_left b < 7")
    case True
    then have "b' = b" using "1.prems"(1) by (subst (asm) report_loop.simps) (auto split: if_splits)
    then have "wrote b b' 0 0 [] []" using "1.prems"(2) by (simp add: wrote_def)
    then show ?thesis by blast
  next
    case False
    obtain c todo where c: "choose_chunk (bd_interims b) (bd_bytes_left b) = (c, todo)" by fastforce
    note ch = choose_chunk_spec [OF "1.prems"(2) _ c]
    obtain c1 b1 j ds where f: "fill_chunk c todo (bd_interims b) (bd_bytes_left b) (bd_report_from b) (bd_twcc b) = Some (c1, b1)"
      "j \<le> unat todo" "fillable c1" "filled c1 = filled c @ take j (packets (bd_interims b))"
      "list_all interim_ok (bd_interims b1)" "packets (bd_interims b1) = drop j (packets (bd_interims b))"
      "deltas (bd_interims b) = ds @ deltas (bd_interims b1)" "map delta_status ds = filter received (take j (packets (bd_interims b)))"
      "bd_report_from b1 = bd_report_from b + length ds"
      "bd_twcc b1 = (bd_twcc b)\<lparr>tw_status_count := tw_status_count (bd_twcc b) + of_nat j, tw_delta := tw_delta (bd_twcc b) @ ds\<rparr>"
      "0 < j" "5 \<le> bd_bytes_left b1"
      using fill_chunk_spec [OF ch(1) "1.prems"(2) ch(3) _ ch(6), of "bd_bytes_left b" "bd_report_from b" "bd_twcc b"]
        ch(4,5,9) False by (auto simp: word_le_nat_alt)
    obtain c2 where c2: "pad_chunk c1 (bd_interims b1) = Some c2"
      using "1.prems"(1) False c f(1) by (subst (asm) report_loop.simps) (auto split: option.splits)
    let ?b2 = "b1\<lparr>bd_bytes_left := bd_bytes_left b1 - 2, bd_twcc := (bd_twcc b1)\<lparr>tw_chunks := tw_chunks (bd_twcc b1) @ [c2]\<rparr>\<rparr>"
    have rl: "report_loop ?b2 = Some b'"
      using "1.prems"(1) False c f(1,12) c2 by (subst (asm) report_loop.simps) (auto split: option.splits if_splits)
    obtain j' r cs ds' where w: "wrote ?b2 b' j' r cs ds'"
      using "1.IH" [OF False c [symmetric] refl f(1) _ c2] f(5,12) rl by auto
    have c1: "filled c1 = take j (packets (bd_interims b))" using f(4) ch(2) False by simp
    have jl: "j \<le> length (packets (bd_interims b))" using f(2) ch(3) False by linarith
    then have "0 < length (filled c1)" using c1 f(11) by simp
    then have "filled c1 \<noteq> []" by auto
    then obtain r1 where r1: "done_chunk c2" "filled c2 = filled c1 @ replicate r1 NotReceived" "r1 \<noteq> 0 \<Longrightarrow> bd_interims b1 = []" "r1 < 14"
      using pad_chunk_spec [OF f(3) c2] by (metis add_less_cancel_right)
    show ?thesis
    proof (cases "r1 = 0")
      case True
      have "int (j + j') - int (max_possible_status_count c2) = int j'"
        using r1(1,2) True c1 jl by (simp add: length_chunk_symbols [symmetric] done_symbols)
      then have "wrote b b' (j + j') r (c2 # cs) (ds @ ds')"
        using w f(5-11) r1(1,2) True c1 jl \<open>filled c1 \<noteq> []\<close>
        by (auto simp: wrote_def done_symbols take_add add.assoc add.commute [of j'])
      then show ?thesis by blast
    next
      case False
      then have e: "bd_interims b1 = []" by (rule r1(3))
      then have "b' = ?b2" using rl by (subst (asm) report_loop.simps) simp
      moreover have "j = length (packets (bd_interims b))" using f(6) e jl by simp
      moreover have "int j - int (max_possible_status_count c2) \<le> 0"
        using r1(1,2) c1 jl by (simp add: length_chunk_symbols [symmetric] done_symbols)
      ultimately have "wrote b b' j r1 [c2] ds"
        using f r1 c1 e \<open>filled c1 \<noteq> []\<close> by (auto simp: wrote_def done_symbols)
      then show ?thesis by blast
    qed
  qed
qed

end
