(* ===== verification/TwccDelivery.thy ===== *)
theory TwccDelivery imports TwccRecv begin

text \<open>
  The way of a congestion control feedback from the receiver's register to the iterator of the sender: what
  the sender is told agrees with what was received, packet by packet, and the instants are off by less than a
  quarter of a millisecond for each packet of the report.
\<close>

section \<open>One packet\<close>

lemma diff_micros_cases:
  assumes "\<bar>time - prev\<bar> < 2147483648000"
  shows "diff_micros time prev = (if time < prev then - ((prev - time) div 1000) else (time - prev) div 1000)"
proof -
  define x y where "x = (prev - time) div 1000" and "y = (time - prev) div 1000"
  have xy: "time < prev \<Longrightarrow> 0 \<le> x \<and> x < 2147483648" "\<not> time < prev \<Longrightarrow> 0 \<le> y \<and> y < 2147483648"
    using assms unfolding x_def y_def by linarith+
  have cut: "sint (word_of_int z :: 32 word) = z" if "- 2147483648 \<le> z" "z < 2147483648" for z
    using that by (simp add: sint_sbintrunc' signed_take_bit_int_eq_self)
  have "- (word_of_int x :: 32 word) = word_of_int (- x)" by simp
  then have "diff_micros time prev = (if time < prev then sint (word_of_int (- x) :: 32 word) else sint (word_of_int y :: 32 word))"
    unfolding diff_micros_def since_def x_def y_def by (simp only: max_def) auto
  then show ?thesis using xy cut [of "- x"] cut [of y] by (auto simp: x_def y_def)
qed

lemma quarter_truncated:
  assumes "\<bar>time - prev\<bar> < 2147483648000"
  shows "\<bar>1000 * (250 * (diff_micros time prev sdiv 250)) - (time - prev)\<bar> < 250000"
proof (cases "time < prev")
  case True
  define x where "x = (prev - time) div 1000"
  have "0 \<le> x" using True by (simp add: x_def)
  then have "- x sdiv 250 = - (x div 250)"
    by (cases "x = 0") (simp_all add: signed_divide_int_def sgn_if)
  then have "diff_micros time prev sdiv 250 = - (x div 250)"
    using diff_micros_cases [OF assms] True by (simp add: x_def)
  then show ?thesis using True unfolding x_def by linarith
next
  case False
  define x where "x = (time - prev) div 1000"
  have "0 \<le> x" using False by (simp add: x_def)
  then have "x sdiv 250 = x div 250"
    by (cases "x = 0") (simp_all add: signed_divide_int_def sgn_if)
  then have "diff_micros time prev sdiv 250 = x div 250"
    using diff_micros_cases [OF assms] False by (simp add: x_def)
  then show ?thesis using False unfolding x_def by linarith
qed

lemma time_interim_spec:
  assumes "time_interim x = Some (Some i)"
  obtains s d e where "i = Received s d" "received s" "interim_deltas i = [e]" "delta_status e = s"
    "delta_micros e = 250 * (x sdiv 250)"
proof (cases "x < 0 \<or> 63750 < x")
  case True
  then have t: "- 32765 \<le> x sdiv 250" "x sdiv 250 \<le> 32767" and i: "i = Received ReceivedLargeOrNegativeDelta (word_of_int (x sdiv 250))"
    using assms by (auto simp: time_interim_def Let_def split: if_splits)
  have "sint (word_of_int (x sdiv 250) :: 16 word) = x sdiv 250"
    using t by (simp add: sint_sbintrunc' signed_take_bit_int_eq_self)
  then show ?thesis using that i by simp
next
  case False
  then have t: "0 \<le> x sdiv 250" "x sdiv 250 \<le> 255" and i: "i = Received ReceivedSmallDelta (word_of_int (x sdiv 250))"
    using assms by (auto simp: time_interim_def Let_def split: if_splits)
  have "int (unat (ucast (word_of_int (x sdiv 250) :: 16 word) :: u8)) = x sdiv 250"
    using t by (simp add: unsigned_ucast_eq unsigned_of_int take_bit_int_eq_self)
  then show ?thesis using that i by simp
qed

section \<open>What the interims say\<close>

lemma missing_interims_spec: "list_all interim_ok (missing_interims n) \<and> packets (missing_interims n) = replicate (unat n) NotReceived
    \<and> deltas (missing_interims n) = []"
proof (induction n rule: missing_interims.induct)
  case (1 n)
  show ?case
  proof (cases "n = 0")
    case False
    define m where "m = min n 8192"
    have m: "m \<noteq> 0" "m \<le> n" "m \<le> 8192" using False by (auto simp: m_def min_def)
    have um: "unat (ucast m :: u16) = unat m"
    proof -
      have "unat m \<le> 8192" using m(3) by (simp add: word_le_nat_alt)
      then show ?thesis by (simp add: unsigned_ucast_eq take_bit_nat_eq_self)
    qed
    then have "(ucast m :: u16) \<noteq> 0" using m(1) by (metis unat_eq_0)
    moreover have "unat (n - m) + unat m = unat n" using m(2) by (simp add: unat_sub word_le_nat_alt)
    then have "replicate (unat n) NotReceived = replicate (unat m) NotReceived @ replicate (unat (n - m)) NotReceived"
      by (simp add: replicate_add [symmetric] add.commute)
    ultimately show ?thesis
      using 1 [OF False m_def] False um by (subst (1 2 3) missing_interims.simps) (simp add: Let_def m_def [symmetric])
  qed (simp add: missing_interims.simps)
qed

fun spaced :: "int \<Rightarrow> receiption list \<Rightarrow> bool" where
  "spaced prev [] \<longleftrightarrow> True"
| "spaced prev (r # rs) \<longleftrightarrow> \<bar>rc_time r - prev\<bar> < 2147483648000 \<and> spaced (rc_time r) rs"

lemma report_of_missing: "report_of q t (replicate n NotReceived @ ss) ds
    = map (\<lambda>k. (q + of_nat k, NotReceived, None)) [0..<n] @ report_of (q + of_nat n) t ss ds"
proof (induction n arbitrary: q)
  case (Suc n)
  have "[0..<Suc n] = 0 # map Suc [0..<n]" by (simp add: upt_conv_Cons map_Suc_upt del: upt_Suc)
  then show ?case using Suc by (simp add: add.assoc o_def del: upt_Suc)
qed simp

text \<open>An item tells the truth: a packet not received, or one received at about that instant.\<close>

definition item_right :: "receiption list \<Rightarrow> (u64 \<Rightarrow> int) \<Rightarrow> int \<Rightarrow> int \<Rightarrow> report_item \<Rightarrow> bool" where
  "item_right rs margin t0 b0 item =
     (case item of (seq, status, inst) \<Rightarrow>
        case inst of
          None \<Rightarrow> seq \<notin> rc_seq ` set rs
        | Some t \<Rightarrow> \<exists>r\<in>set rs. rc_seq r = seq \<and> \<bar>1000 * (t - t0) - (rc_time r - b0)\<bar> \<le> margin seq)"

lemma report_of_received:
  "received s \<Longrightarrow> report_of q t (s # ss) (d # ds) = (q, s, Some (t + delta_micros d)) # report_of (q + 1) (t + delta_micros d) ss ds"
  by simp

lemma gap_unat:
  assumes "p < (q :: u64)"
  shows "unat (q - p) = unat q - unat p" "unat p < unat q"
  using assms by (simp_all add: word_less_nat_alt unat_sub less_imp_le)

lemma missing_gap:
  assumes "p < (q :: u64)"
  shows "(if 1 < q - p then missing_interims (q - p - 1) else []) = missing_interims (q - p - 1)"
    and "unat (q - p - 1) = unat q - unat p - 1" and "p + 1 + of_nat (unat (q - p - 1)) = q"
    and "k < unat (q - p - 1) \<Longrightarrow> p < p + 1 + of_nat k \<and> p + 1 + of_nat k < q"
proof -
  have d: "0 < unat (q - p)" "unat (q - p) = unat q - unat p" "unat p < unat q" using gap_unat [OF assms] by linarith+
  then have n0: "q - p \<noteq> 0" by auto
  then have "1 \<le> q - p" by (simp add: word_le_nat_alt Suc_le_eq unat_gt_0)
  then show u: "unat (q - p - 1) = unat q - unat p - 1" using d by (simp add: unat_sub)
  show "(if 1 < q - p then missing_interims (q - p - 1) else []) = missing_interims (q - p - 1)"
  proof (cases "1 < q - p")
    case False
    with \<open>1 \<le> q - p\<close> have "q - p = 1" by simp
    then show ?thesis by (simp add: missing_interims.simps)
  qed simp
  show "p + 1 + of_nat (unat (q - p - 1)) = q" by simp
  show "p < p + 1 + of_nat k \<and> p + 1 + of_nat k < q" if "k < unat (q - p - 1)"
  proof -
    have k: "unat p + 1 + k < unat q" using that u by linarith
    moreover have "unat q < 2 ^ 64" using unsigned_less [of q] by simp
    ultimately have "unat (of_nat (unat p + 1 + k) :: u64) = unat p + 1 + k"
      by (subst unsigned_of_nat, simp only: of_nat_id, intro take_bit_nat_eq_self) simp
    moreover have "of_nat (unat p + 1 + k) = p + 1 + of_nat k" by simp
    ultimately have "unat (p + 1 + of_nat k) = unat p + 1 + k" by metis
    then show ?thesis using k by (simp add: word_less_nat_alt)
  qed
qed

lemma near_step:
  fixes a b d t E :: int
  assumes "\<bar>1000 * d - (b - a)\<bar> < 250000" "\<bar>1000 * (t - t0) - (a - b0)\<bar> \<le> E"
  shows "\<bar>1000 * (t + d - t0) - (b - b0)\<bar> \<le> E + 250000"
proof -
  have "1000 * (t + d - t0) - (b - b0) = (1000 * d - (b - a)) + (1000 * (t - t0) - (a - b0))" by simp
  then show ?thesis using assms abs_triangle_ineq [of "1000 * d - (b - a)" "1000 * (t - t0) - (a - b0)"] by linarith
qed

lemma items_right:
  assumes "build_interims rs p pt = Some is" "sorted_wrt (<) (p # map rc_seq rs)" "spaced pt rs"
    and "\<bar>1000 * (t - t0) - (pt - b0)\<bar> \<le> E"
  shows "list_all interim_ok is \<and> (\<forall>item\<in>set (report_of (p + 1) t (packets is) (deltas is)).
    p < fst item \<and> item_right rs (\<lambda>q. E + 250000 * int (unat (q - p))) t0 b0 item)"
  using assms
proof (induction rs p pt arbitrary: "is" t E rule: build_interims.induct)
  case (2 r rs p pt)
  have pr: "p < rc_seq r" and lt: "\<And>x. x \<in> set rs \<Longrightarrow> rc_seq r < rc_seq x" and sw: "sorted_wrt (<) (rc_seq r # map rc_seq rs)"
    using "2.prems"(2) by auto
  note gap = missing_gap [OF pr]
  define n where "n = rc_seq r - p - 1"
  have ms: "list_all interim_ok (missing_interims n)" "packets (missing_interims n) = replicate (unat n) NotReceived"
    "deltas (missing_interims n) = []" using missing_interims_spec [of n] by simp_all
  have before: "p < fst item \<and> item_right (r # rs) (\<lambda>q. E + 250000 * int (unat (q - p))) t0 b0 item"
    if "item \<in> set (map (\<lambda>k. (p + 1 + of_nat k, NotReceived, None)) [0..<unat n])" for item
  proof -
    from that obtain k where k: "k < unat n" "item = (p + 1 + of_nat k, NotReceived, None)" by auto
    have "p < p + 1 + of_nat k" "p + 1 + of_nat k < rc_seq r" using gap(4) k(1) by (simp_all add: n_def)
    moreover have "p + 1 + of_nat k \<notin> rc_seq ` set (r # rs)"
      using calculation(2) by (auto dest!: lt)
    ultimately show ?thesis using k(2) by (simp add: item_right_def)
  qed
  show ?case
  proof (cases "time_interim (diff_micros (rc_time r) pt)")
    case (Some o1)
    show ?thesis
    proof (cases o1)
      case None
      then have "is = missing_interims n" using "2.prems"(1) Some gap(1) by (simp add: n_def Let_def)
      moreover from this have "report_of (p + 1) t (packets is) (deltas is) = map (\<lambda>k. (p + 1 + of_nat k, NotReceived, None)) [0..<unat n]"
        by (simp only: ms(2,3)) (use report_of_missing [of "p + 1" t "unat n" "[]" "[]"] in simp)
      ultimately show ?thesis using ms(1) before by metis
    next
      case (Some i)
      then have ti: "time_interim (diff_micros (rc_time r) pt) = Some (Some i)" using \<open>time_interim _ = Some o1\<close> by simp
      then obtain js where js: "build_interims rs (rc_seq r) (rc_time r) = Some js" "is = missing_interims n @ i # js"
        using "2.prems"(1) gap(1) by (auto simp: n_def Let_def bind_eq_Some_conv)
      obtain s d e where i: "i = Received s d" "received s" "interim_deltas i = [e]" "delta_status e = s"
        "delta_micros e = 250 * (diff_micros (rc_time r) pt sdiv 250)"
        using time_interim_spec [OF ti] .
      define t' where "t' = t + delta_micros e"
      have sp: "\<bar>rc_time r - pt\<bar> < 2147483648000" "spaced (rc_time r) rs" using "2.prems"(3) by simp_all
      have near: "\<bar>1000 * (t' - t0) - (rc_time r - b0)\<bar> \<le> E + 250000"
        using near_step [OF quarter_truncated [OF sp(1)] "2.prems"(4)] unfolding t'_def i(5) .
      have IH: "list_all interim_ok js" "\<And>item. item \<in> set (report_of (rc_seq r + 1) t' (packets js) (deltas js)) \<Longrightarrow>
          rc_seq r < fst item \<and> item_right rs (\<lambda>q. E + 250000 + 250000 * int (unat (q - rc_seq r))) t0 b0 item"
        using "2.IH" [OF refl refl ti refl js(1) sw sp(2) near] by blast+
      have pk: "packets is = replicate (unat n) NotReceived @ s # packets js" using ms(2) js(2) i(1) by simp
      have dl: "deltas is = e # deltas js" unfolding js(2) map_append concat_append ms(3) using i(1,3) by simp
      have rep: "report_of (p + 1) t (packets is) (deltas is) = map (\<lambda>k. (p + 1 + of_nat k, NotReceived, None)) [0..<unat n]
          @ (rc_seq r, s, Some t') # report_of (rc_seq r + 1) t' (packets js) (deltas js)"
        unfolding pk dl report_of_missing using gap(3) i(2) by (simp add: n_def t'_def)
      have pos: "1 \<le> int (unat (rc_seq r - p))" using gap_unat [OF pr] by linarith
      have here: "p < rc_seq r \<and> item_right (r # rs) (\<lambda>q. E + 250000 * int (unat (q - p))) t0 b0 (rc_seq r, s, Some t')"
        using near pos pr by (auto simp: item_right_def intro!: bexI [of _ r])
      have after: "p < fst item \<and> item_right (r # rs) (\<lambda>q. E + 250000 * int (unat (q - p))) t0 b0 item"
        if "item \<in> set (report_of (rc_seq r + 1) t' (packets js) (deltas js))" for item
      proof -
        obtain q s1 inst where item: "item = (q, s1, inst)" by (cases item) auto
        have q: "rc_seq r < q" "item_right rs (\<lambda>q. E + 250000 + 250000 * int (unat (q - rc_seq r))) t0 b0 (q, s1, inst)"
          using IH(2) [OF that] item by auto
        have "p < q" using pr q(1) by simp
        then have "int (unat (q - rc_seq r)) + 1 \<le> int (unat (q - p))"
          using gap_unat [OF q(1)] gap_unat [OF pr] gap_unat [of p q] by linarith
        then have "E + 250000 + 250000 * int (unat (q - rc_seq r)) \<le> E + 250000 * int (unat (q - p))" by linarith
        then show ?thesis using q \<open>p < q\<close> item by (cases inst) (fastforce simp: item_right_def)+
      qed
      have "list_all interim_ok is" using ms(1) IH(1) i(1,2) js(2) by simp
      then show ?thesis unfolding rep set_append list.set using before here after by force
    qed
  qed (use "2.prems"(1) in \<open>simp add: Let_def\<close>)
qed simp

lemma received_seqs:
  assumes "build_interims rs p pt = Some is" "sorted_wrt (<) (p # map rc_seq rs)"
  shows "map fst (filter (received \<circ> fst \<circ> snd) (report_of (p + 1) t (packets is) (deltas is)))
    = map rc_seq (take (length (deltas is)) rs) \<and> length (deltas is) \<le> length rs"
  using assms
proof (induction rs p pt arbitrary: "is" t rule: build_interims.induct)
  case (2 r rs p pt)
  have pr: "p < rc_seq r" and sw: "sorted_wrt (<) (rc_seq r # map rc_seq rs)" using "2.prems"(2) by auto
  note gap = missing_gap [OF pr]
  define n where "n = rc_seq r - p - 1"
  have ms: "packets (missing_interims n) = replicate (unat n) NotReceived" "deltas (missing_interims n) = []"
    using missing_interims_spec [of n] by simp_all
  have none: "filter (received \<circ> fst \<circ> snd) (map (\<lambda>k. (q + of_nat k, NotReceived, None)) ks) = []" for q :: u64 and ks
    by (induction ks) auto
  show ?case
  proof (cases "time_interim (diff_micros (rc_time r) pt)")
    case (Some o1)
    show ?thesis
    proof (cases o1)
      case None
      then have "is = missing_interims n" using "2.prems"(1) Some gap(1) by (simp add: n_def Let_def)
      then show ?thesis using report_of_missing [of "p + 1" t "unat n" "[]" "[]"] none by (simp only: ms) simp
    next
      case (Some i)
      then have ti: "time_interim (diff_micros (rc_time r) pt) = Some (Some i)" using \<open>time_interim _ = Some o1\<close> by simp
      then obtain js where js: "build_interims rs (rc_seq r) (rc_time r) = Some js" "is = missing_interims n @ i # js"
        using "2.prems"(1) gap(1) by (auto simp: n_def Let_def bind_eq_Some_conv)
      obtain s d e where i: "i = Received s d" "received s" "interim_deltas i = [e]" using time_interim_spec [OF ti] .
      have pk: "packets is = replicate (unat n) NotReceived @ s # packets js" using ms(1) js(2) i(1) by simp
      have dl: "deltas is = e # deltas js" unfolding js(2) map_append concat_append ms(2) using i(1,3) by simp
      show ?thesis
        unfolding pk dl report_of_missing filter_append none
        using 2(1) [OF refl refl ti refl js(1) sw, of "t + delta_micros e"] gap(3) i(2) by (simp add: n_def o_def)
    qed
  qed (use "2.prems"(1) in \<open>simp add: Let_def\<close>)
qed simp

text \<open>The queue from its first unreported packet, which gives the report its base.\<close>

lemma first_interim:
  assumes "build_interims (r # rs) (rc_seq r) pt = Some is"
  obtains "is = []" | i js where "time_interim (diff_micros (rc_time r) pt) = Some (Some i)"
    "build_interims rs (rc_seq r) (rc_time r) = Some js" "is = i # js"
  using assms by (auto simp: Let_def bind_eq_Some_conv split: option.splits)

lemma report_right:
  assumes "build_interims (r # rs) (rc_seq r) b0 = Some is" "sorted_wrt (<) (map rc_seq (r # rs))" "spaced b0 (r # rs)"
  shows "list_all interim_ok is" "item \<in> set (report_of (rc_seq r) t (packets is) (deltas is)) \<Longrightarrow>
      item_right (r # rs) (\<lambda>q. 250000 * (int (unat (q - rc_seq r)) + 1)) t b0 item"
    "map fst (filter (received \<circ> fst \<circ> snd) (report_of (rc_seq r) t (packets is) (deltas is)))
      = map rc_seq (take (length (deltas is)) (r # rs))" "length (deltas is) \<le> length (r # rs)"
proof -
  have sw: "sorted_wrt (<) (rc_seq r # map rc_seq rs)" using assms(2) by simp
  have sp: "\<bar>rc_time r - b0\<bar> < 2147483648000" "spaced (rc_time r) rs" using assms(3) by simp_all
  have "list_all interim_ok is \<and> (item \<in> set (report_of (rc_seq r) t (packets is) (deltas is)) \<longrightarrow>
      item_right (r # rs) (\<lambda>q. 250000 * (int (unat (q - rc_seq r)) + 1)) t b0 item)
    \<and> map fst (filter (received \<circ> fst \<circ> snd) (report_of (rc_seq r) t (packets is) (deltas is)))
      = map rc_seq (take (length (deltas is)) (r # rs)) \<and> length (deltas is) \<le> length (r # rs)"
    using assms(1)
  proof (cases rule: first_interim)
    case (2 i js)
    obtain s d e where i: "i = Received s d" "received s" "interim_deltas i = [e]" "delta_status e = s"
      "delta_micros e = 250 * (diff_micros (rc_time r) b0 sdiv 250)"
      using time_interim_spec [OF 2(1)] .
    define t' where "t' = t + delta_micros e"
    have near: "\<bar>1000 * (t' - t) - (rc_time r - b0)\<bar> \<le> 250000"
      using quarter_truncated [OF sp(1)] by (simp add: t'_def i(5))
    have rep: "report_of (rc_seq r) t (packets is) (deltas is)
        = (rc_seq r, s, Some t') # report_of (rc_seq r + 1) t' (packets js) (deltas js)"
      using 2(3) i by (simp add: t'_def)
    have margin: "250000 + 250000 * int (unat (q - rc_seq r)) = 250000 * (int (unat (q - rc_seq r)) + 1)" for q by simp
    have "item_right (r # rs) (\<lambda>q. 250000 * (int (unat (q - rc_seq r)) + 1)) t b0 (rc_seq r, s, Some t')"
      using near by (simp add: item_right_def)
    moreover have "item_right (r # rs) (\<lambda>q. 250000 * (int (unat (q - rc_seq r)) + 1)) t b0 item"
      if "item \<in> set (report_of (rc_seq r + 1) t' (packets js) (deltas js))" for item
    proof -
      have "rc_seq r < fst item" "item_right rs (\<lambda>q. 250000 + 250000 * int (unat (q - rc_seq r))) t b0 item"
        using items_right [OF 2(2) sw sp(2) near] that by blast+
      then show ?thesis unfolding margin by (cases item) (auto simp: item_right_def split: option.splits)
    qed
    moreover have "list_all interim_ok is"
      using items_right [OF 2(2) sw sp(2) near] 2(3) i(1,2) by simp
    moreover have "map fst (filter (received \<circ> fst \<circ> snd) (report_of (rc_seq r) t (packets is) (deltas is)))
      = map rc_seq (take (length (deltas is)) (r # rs)) \<and> length (deltas is) \<le> length (r # rs)"
      unfolding rep using received_seqs [OF 2(2) sw, of t'] 2(3) i(2,3) by simp
    ultimately show ?thesis unfolding rep by auto
  qed simp
  then show "list_all interim_ok is" "item \<in> set (report_of (rc_seq r) t (packets is) (deltas is)) \<Longrightarrow>
      item_right (r # rs) (\<lambda>q. 250000 * (int (unat (q - rc_seq r)) + 1)) t b0 item"
    "map fst (filter (received \<circ> fst \<circ> snd) (report_of (rc_seq r) t (packets is) (deltas is)))
      = map rc_seq (take (length (deltas is)) (r # rs))" "length (deltas is) \<le> length (r # rs)"
    by blast+
qed

lemma report_of_append:
  assumes "map delta_status ds = filter received xs"
  shows "\<exists>t'. report_of q t (xs @ ys) (ds @ es) = report_of q t xs ds @ report_of (q + of_nat (length xs)) t' ys es"
    and "length (report_of q t xs ds) = length xs"
proof -
  have "length (report_of q t xs ds) = length xs
    \<and> (\<exists>t'. report_of q t (xs @ ys) (ds @ es) = report_of q t xs ds @ report_of (q + of_nat (length xs)) t' ys es)"
    using assms
  proof (induction xs arbitrary: q t ds)
    case (Cons x xs)
    show ?case
    proof (cases "received x")
      case True
      then obtain d ds' where d: "ds = d # ds'" "map delta_status ds' = filter received xs" using Cons.prems by (cases ds) auto
      then show ?thesis using Cons.IH [OF d(2), of "q + 1" "t + delta_micros d"] True by (auto simp: add.assoc)
    next
      case False
      then show ?thesis using Cons.IH [of ds "q + 1" t] Cons.prems by (auto simp: add.assoc)
    qed
  qed auto
  then show "\<exists>t'. report_of q t (xs @ ys) (ds @ es) = report_of q t xs ds @ report_of (q + of_nat (length xs)) t' ys es"
    "length (report_of q t xs ds) = length xs" by blast+
qed

section \<open>A report\<close>

text \<open>What \<open>build_report\<close> does when it returns a report.\<close>

definition report_start :: "u64 \<Rightarrow> u32 \<Rightarrow> recv_register \<Rightarrow> twcc" where
  "report_start base reference reg = \<lparr>tw_sender_ssrc = 0, tw_ssrc = 0, tw_base_seq = ucast base, tw_status_count = 0,
     tw_reference_time = reference, tw_feedback_count = ucast (tr_generated_reports reg), tw_chunks = [], tw_delta = []\<rparr>"

lemma build_report_cases:
  assumes "build_report n reg = Some (reg', Some p)"
  obtains r rs z reference js b where "drop (tr_report_from reg) (tr_queue reg) = r # rs"
    "z = (case tr_time_start reg of None \<Rightarrow> rc_time r | Some t \<Rightarrow> t)" "tr_time_start reg' = Some z" "20 \<le> n"
    "build_interims (r # rs) (rc_seq r) (z + int (unat reference) * 64000 * 1000) = Some js"
    "report_loop \<lparr>bd_interims = js, bd_bytes_left = n - 20, bd_report_from = tr_report_from reg,
       bd_twcc = report_start (rc_seq r) reference reg\<rparr> = Some b"
    "bd_twcc b = p" "tr_keep_reported reg' = tr_keep_reported reg"
    "tr_report_from reg' = min (bd_report_from b) (tr_keep_reported reg)"
    "tr_queue reg' = drop (bd_report_from b - tr_keep_reported reg) (tr_queue reg)"
    "reference = ucast ((word_of_int (since (rc_time r) z div 1000) :: u64) div 64000)"
proof -
  have len: "tr_report_from reg < length (tr_queue reg)"
    using assms by (auto simp: build_report_def Let_def split: if_splits)
  define r rs where "r = tr_queue reg ! tr_report_from reg" and "rs = drop (Suc (tr_report_from reg)) (tr_queue reg)"
  have q: "drop (tr_report_from reg) (tr_queue reg) = r # rs" using len by (simp add: r_def rs_def Cons_nth_drop_Suc)
  define z where "z = (case tr_time_start reg of None \<Rightarrow> rc_time r | Some t \<Rightarrow> t)"
  define reference :: u32 where "reference = ucast ((word_of_int (since (rc_time r) z div 1000) :: u64) div 64000)"
  have "\<exists>js b. build_interims (drop (tr_report_from reg) (tr_queue reg)) (rc_seq r) (z + int (unat reference) * 64000 * 1000) = Some js \<and> 20 \<le> n
    \<and> report_loop \<lparr>bd_interims = js, bd_bytes_left = n - 20, bd_report_from = tr_report_from reg,
       bd_twcc = report_start (rc_seq r) reference reg\<rparr> = Some b
    \<and> bd_twcc b = p \<and> tr_time_start reg' = Some z \<and> tr_keep_reported reg' = tr_keep_reported reg
    \<and> tr_report_from reg' = min (bd_report_from b) (tr_keep_reported reg)
    \<and> tr_queue reg' = drop (bd_report_from b - tr_keep_reported reg) (tr_queue reg)"
    using assms len unfolding build_report_def r_def [symmetric] Let_def
    by (auto simp: bind_eq_Some_conv report_start_def z_def [symmetric] reference_def [symmetric] split: if_splits)
  then show ?thesis unfolding q using that [OF q z_def _ _ _ _ _ _ _ _ reference_def] by blast
qed

section \<open>The register over time\<close>

text \<open>Packets arrive and reports are built in any order.\<close>

inductive receiving :: "nat \<Rightarrow> recv_register \<Rightarrow> bool" for keep where
  start: "receiving keep (recv_register_new keep)"
| arrives: "receiving keep reg \<Longrightarrow> receiving keep (update_seq seq time reg)"
| reports: "receiving keep reg \<Longrightarrow> build_report n reg = Some (reg', p) \<Longrightarrow> receiving keep reg'"

definition recv_inv :: "nat \<Rightarrow> recv_register \<Rightarrow> bool" where
  "recv_inv keep reg \<longleftrightarrow> sorted_wrt (<) (map rc_seq (tr_queue reg)) \<and> tr_report_from reg \<le> length (tr_queue reg)
     \<and> tr_keep_reported reg = keep"

lemma interims_ok: "build_interims rs p pt = Some js \<Longrightarrow> list_all interim_ok js"
proof (induction rs p pt arbitrary: js rule: build_interims.induct)
  case (2 r rs p pt)
  define ms where "ms = (if 1 < rc_seq r - p then missing_interims (rc_seq r - p - 1) else [])"
  have ms: "list_all interim_ok ms" using missing_interims_spec by (simp add: ms_def)
  show ?case
  proof (cases "time_interim (diff_micros (rc_time r) pt)")
    case None
    then show ?thesis using "2.prems" by (simp add: Let_def)
  next
    case (Some o1)
    show ?thesis
    proof (cases o1)
      case None
      then have "js = ms" using "2.prems" Some by (simp add: Let_def ms_def)
      then show ?thesis using ms by simp
    next
      case (Some i)
      then have ti: "time_interim (diff_micros (rc_time r) pt) = Some (Some i)" using \<open>time_interim _ = Some o1\<close> by simp
      then obtain js' where js': "build_interims rs (rc_seq r) (rc_time r) = Some js'" "js = ms @ i # js'"
        using "2.prems" by (auto simp: Let_def bind_eq_Some_conv ms_def)
      obtain s d where "i = Received s d" "received s" using time_interim_spec [OF ti] by metis
      then show ?thesis using "2.IH" [OF refl refl ti refl js'(1)] js'(2) ms by simp
    qed
  qed
qed simp

lemma first_sorted: "sorted_wrt (<) (map rc_seq q) \<Longrightarrow> drop k q = r # rs \<Longrightarrow> sorted_wrt (<) (rc_seq r # map rc_seq rs)"
  by (metis drop_map list.simps(9) sorted_wrt_drop)

lemma first_received_seqs:
  assumes "build_interims (r # rs) (rc_seq r) b0 = Some js" "sorted_wrt (<) (rc_seq r # map rc_seq rs)"
  shows "length (deltas js) \<le> length (r # rs)"
    "map fst (filter (received \<circ> fst \<circ> snd) (report_of (rc_seq r) t (packets js) (deltas js)))
      = map rc_seq (take (length (deltas js)) (r # rs))"
proof -
  have "length (deltas js) \<le> length (r # rs)
    \<and> map fst (filter (received \<circ> fst \<circ> snd) (report_of (rc_seq r) t (packets js) (deltas js)))
      = map rc_seq (take (length (deltas js)) (r # rs))"
    using assms(1)
  proof (cases rule: first_interim)
    case (2 i js')
    obtain s d e where "i = Received s d" "received s" "interim_deltas i = [e]" using time_interim_spec [OF 2(1)] .
    then show ?thesis using received_seqs [OF 2(2) assms(2), of "t + delta_micros e"] 2(3) by (simp add: o_def)
  qed simp
  then show "length (deltas js) \<le> length (r # rs)"
    "map fst (filter (received \<circ> fst \<circ> snd) (report_of (rc_seq r) t (packets js) (deltas js)))
      = map rc_seq (take (length (deltas js)) (r # rs))" by blast+
qed

lemma update_inv: "recv_inv keep reg \<Longrightarrow> recv_inv keep (update_seq seq time reg)"
proof -
  assume inv: "recv_inv keep reg"
  let ?q = "tr_queue reg"
  define i where "i = length (takeWhile (\<lambda>r. rc_seq r < seq) ?q)"
  have sorted: "sorted_wrt (<) (map rc_seq (take i ?q @ \<lparr>rc_seq = seq, rc_time = time\<rparr> # drop i ?q))" if new: "\<not> (i < length ?q \<and> rc_seq (?q ! i) = seq)"
  proof -
    have s: "sorted_wrt (<) (map rc_seq ?q)" using inv by (simp add: recv_inv_def)
    have tk: "take i ?q = takeWhile (\<lambda>r. rc_seq r < seq) ?q" unfolding i_def by (rule takeWhile_eq_take [symmetric])
    have dr: "drop i ?q = dropWhile (\<lambda>r. rc_seq r < seq) ?q" unfolding i_def by (rule dropWhile_eq_drop [symmetric])
    have below: "rc_seq x < seq" if "x \<in> set (take i ?q)" for x using that unfolding tk by (auto dest: set_takeWhileD)
    have above: "seq < rc_seq x" if "x \<in> set (drop i ?q)" for x
    proof -
      obtain y ys where y: "drop i ?q = y # ys" using \<open>x \<in> _\<close> by (cases "drop i ?q") auto
      then have "i < length ?q" "?q ! i = y" by (metis drop_all leI list.distinct(1)) (metis nth_via_drop y)
      then have "rc_seq y \<noteq> seq" using new by simp
      moreover have "\<not> rc_seq y < seq" using y unfolding dr by (metis hd_dropWhile list.discI list.sel(1))
      ultimately have "seq < rc_seq y" by simp
      moreover have "x = y \<or> rc_seq y < rc_seq x" using that y first_sorted [OF s y] by auto
      ultimately show ?thesis by auto
    qed
    have "sorted_wrt (<) (map rc_seq (take i ?q))" "sorted_wrt (<) (map rc_seq (drop i ?q))"
      using s by (metis sorted_wrt_take take_map) (metis s sorted_wrt_drop drop_map)
    then show ?thesis using below above by (fastforce simp: sorted_wrt_append)
  qed
  have "i \<le> length ?q" by (simp add: i_def length_takeWhile_le)
  then show ?thesis using inv sorted
    by (auto simp: update_seq_def recv_inv_def binary_search_by_key_def i_def [symmetric] Let_def split: sum.splits option.splits if_splits)
qed

lemma report_inv:
  assumes "recv_inv keep reg" "build_report n reg = Some (reg', p)"
  shows "recv_inv keep reg'"
proof (cases "10000 < n \<or> length (tr_queue reg) \<le> tr_report_from reg")
  case True
  then have "reg' = reg" using assms(2) by (auto simp: build_report_def split: if_splits)
  then show ?thesis using assms(1) by simp
next
  case False
  define r rs where "r = tr_queue reg ! tr_report_from reg" and "rs = drop (Suc (tr_report_from reg)) (tr_queue reg)"
  have q: "drop (tr_report_from reg) (tr_queue reg) = r # rs" using False by (simp add: r_def rs_def Cons_nth_drop_Suc)
  obtain b0 js b0' b where b: "build_interims (drop (tr_report_from reg) (tr_queue reg)) (rc_seq r) b0 = Some js"
    "report_loop b0' = Some b" "bd_interims b0' = js" "bd_report_from b0' = tr_report_from reg"
    "tr_queue reg' = tr_queue reg \<and> tr_report_from reg' = bd_report_from b
      \<or> tr_queue reg' = drop (bd_report_from b - tr_keep_reported reg) (tr_queue reg) \<and> tr_report_from reg' = min (bd_report_from b) (tr_keep_reported reg)"
    "tr_keep_reported reg' = tr_keep_reported reg"
    using assms(2) False unfolding build_report_def r_def [symmetric] Let_def
    by (auto simp: bind_eq_Some_conv split: if_splits)
  have s: "sorted_wrt (<) (rc_seq r # map rc_seq rs)" using first_sorted [OF _ q] assms(1) by (simp add: recv_inv_def)
  have js: "build_interims (r # rs) (rc_seq r) b0 = Some js" using b(1) q by simp
  obtain j k cs ds where w: "wrote b0' b j k cs ds"
    using report_loop_spec [OF b(2)] interims_ok [OF js] b(3) by blast
  have "length ds \<le> length (deltas js)" using w b(3) by (auto simp: wrote_def)
  also have "\<dots> \<le> length (r # rs)" by (rule first_received_seqs(1) [OF js s])
  also have "length (r # rs) = length (tr_queue reg) - tr_report_from reg" using q by (metis length_drop)
  finally have "bd_report_from b \<le> length (tr_queue reg)" using w b(4) False unfolding wrote_def by linarith
  then show ?thesis using assms(1) b(5,6) by (auto simp: recv_inv_def drop_map [symmetric] sorted_wrt_drop)
qed

lemma receiving_inv: "receiving keep reg \<Longrightarrow> recv_inv keep reg"
proof (induction rule: receiving.induct)
  case start
  show ?case by (simp add: recv_inv_def recv_register_new_def)
qed (auto intro: update_inv report_inv)

text \<open>C20. In every state the receiver's register can reach, its queue is strictly sorted by number, so that no packet is
  in it twice, and the index of the first unreported packet lies inside the queue or at its end.
\<close>

theorem receiver_invariant:
  assumes "receiving keep reg"
  shows "sorted_wrt (<) (map rc_seq (tr_queue reg)) \<and> tr_report_from reg \<le> length (tr_queue reg)"
  using receiving_inv [OF assms] by (simp add: recv_inv_def)

section \<open>From the register to the sender\<close>

lemma packets_known: "list_all interim_ok js \<Longrightarrow> UnknownStatus \<notin> set (packets js)"
proof (induction js)
  case (Cons i js)
  then show ?case by (cases i) auto
qed simp

text \<open>What a report stands for, before it is written.\<close>

lemma built_report:
  assumes inv: "recv_inv keep reg" and built: "build_report n reg = Some (reg', Some p)"
  obtains r rs z b0 js j k ds where "drop (tr_report_from reg) (tr_queue reg) = r # rs" "tr_time_start reg' = Some z"
    "b0 = z + int (unat (tw_reference_time p)) * 64000 * 1000" "build_interims (r # rs) (rc_seq r) b0 = Some js"
    "sorted_wrt (<) (map rc_seq (r # rs))" "j \<le> length (packets js)" "k < 14"
    "concat (map chunk_symbols (tw_chunks p)) = take j (packets js) @ replicate k NotReceived"
    "list_all done_chunk (tw_chunks p)" "list_all (\<lambda>c. filled c \<noteq> []) (tw_chunks p)" "accounts (int j) (tw_chunks p)"
    "\<exists>es. deltas js = tw_delta p @ es" "map delta_status (tw_delta p) = filter received (take j (packets js))"
    "tw_base_seq p = ucast (rc_seq r)" "tw_status_count p = of_nat j"
    "drop (tr_report_from reg') (tr_queue reg') = drop (length (tw_delta p)) (r # rs)"
proof -
  obtain r rs z reference js b where b: "drop (tr_report_from reg) (tr_queue reg) = r # rs" "tr_time_start reg' = Some z"
    "build_interims (r # rs) (rc_seq r) (z + int (unat reference) * 64000 * 1000) = Some js"
    "report_loop \<lparr>bd_interims = js, bd_bytes_left = n - 20, bd_report_from = tr_report_from reg,
       bd_twcc = report_start (rc_seq r) reference reg\<rparr> = Some b"
    "bd_twcc b = p" "tr_report_from reg' = min (bd_report_from b) (tr_keep_reported reg)"
    "tr_queue reg' = drop (bd_report_from b - tr_keep_reported reg) (tr_queue reg)"
    using build_report_cases [OF built] by metis
  obtain j k cs ds where w: "wrote \<lparr>bd_interims = js, bd_bytes_left = n - 20, bd_report_from = tr_report_from reg,
       bd_twcc = report_start (rc_seq r) reference reg\<rparr> b j k cs ds"
    using report_loop_spec [OF b(4)] interims_ok [OF b(3)] by auto
  then have p: "tw_chunks p = cs" "tw_delta p = ds" "tw_status_count p = of_nat j" "tw_reference_time p = reference"
    "tw_base_seq p = ucast (rc_seq r)" using b(5) by (auto simp: wrote_def report_start_def)
  have "bd_report_from b = tr_report_from reg + length ds" using w by (simp add: wrote_def)
  then have "drop (tr_report_from reg') (tr_queue reg') = drop (length ds) (drop (tr_report_from reg) (tr_queue reg))"
    using b(6,7) by (simp add: add.commute min_def)
  then show ?thesis
    using that [of r rs z _ js j k] b(1-3) w p first_sorted [OF _ b(1)] inv by (auto simp: wrote_def recv_inv_def)
qed

lemma report_of_heard:
  "map delta_status ds = filter received ss \<Longrightarrow> length (filter (received \<circ> fst \<circ> snd) (report_of q t ss ds)) = length ds"
proof (induction ss arbitrary: q t ds)
  case (Cons s ss)
  then show ?case by (cases ds; cases "received s") auto
qed simp

text \<open>The statuses of a report of finished chunks, and what the iterator makes of them.\<close>

definition padding_items :: "u64 \<Rightarrow> nat \<Rightarrow> nat \<Rightarrow> (u64 \<times> packet_status \<times> int option) list" where
  "padding_items base j k = map (\<lambda>i. (base + of_nat j + of_nat i, NotReceived, None)) [0..<k]"

lemma done_chunks_iterate:
  assumes "build_interims q s b0 = Some js" "list_all done_chunk cs" "list_all (\<lambda>c. filled c \<noteq> []) cs"
    "concat (map chunk_symbols cs) = take j (packets js) @ replicate k NotReceived"
  shows "list_all iterable cs" "concat (map statuses cs) = take j (packets js) @ replicate k NotReceived"
proof -
  have known: "UnknownStatus \<notin> set (concat (map chunk_symbols cs))"
    using packets_known [OF interims_ok [OF assms(1)]] unfolding assms(4) by (auto dest: in_set_takeD)
  have st: "statuses c = chunk_symbols c \<and> iterable c" if "c \<in> set cs" for c
  proof -
    have "done_chunk c" "filled c \<noteq> []" using assms(2,3) that by (auto simp: list_all_iff)
    moreover have "UnknownStatus \<notin> set (filled c)" using known that done_symbols [OF calculation(1)] by auto
    ultimately show ?thesis using done_statuses [of c] done_iterable [of c] done_symbols [of c] by simp
  qed
  then show "list_all iterable cs" by (simp add: list_all_iff)
  show "concat (map statuses cs) = take j (packets js) @ replicate k NotReceived"
    using st assms(4) by (simp cong: map_cong)
qed

lemma told_items:
  fixes p sent and time_zero :: int
  defines "t \<equiv> time_zero + 64000 * int (unat (tw_reference_time p))" and "base \<equiv> extend_u16 (Some sent) (tw_base_seq p)"
  assumes "build_interims q s b0 = Some js" "list_all done_chunk (tw_chunks p)" "list_all (\<lambda>c. filled c \<noteq> []) (tw_chunks p)"
    "concat (map chunk_symbols (tw_chunks p)) = take j (packets js) @ replicate k NotReceived" "j \<le> length (packets js)" "k < 14"
    "map delta_status (tw_delta p) = filter received (take j (packets js))"
  shows "twcc_items (j + 13 + m) (twcc_into_iter p time_zero sent)
      = Some (report_of base t (take j (packets js)) (tw_delta p) @ padding_items base j k)"
    and "map fst (report_of base t (take j (packets js)) (tw_delta p) @ padding_items base j k) = map (\<lambda>i. base + of_nat i) [0..<j + k]"
proof -
  note st = done_chunks_iterate [OF assms(3-6)]
  have ds: "map delta_status (tw_delta p) = filter received (take j (packets js) @ replicate k NotReceived)"
    using assms(9) by (simp add: received_run)
  have split: "report_of base t (take j (packets js) @ replicate k NotReceived) (tw_delta p)
      = report_of base t (take j (packets js)) (tw_delta p) @ padding_items base j k"
    using report_of_append(1) [OF assms(9), of base t "replicate k NotReceived" "[]"] assms(7)
      report_of_missing [of "base + of_nat j" _ k "[]" "[]"] by (auto simp: padding_items_def)
  have len: "j + 13 + m = length (concat (map statuses (tw_chunks p))) + (13 - k + m)"
    unfolding st(2) using assms(7,8) by simp
  show "twcc_items (j + 13 + m) (twcc_into_iter p time_zero sent)
      = Some (report_of base t (take j (packets js)) (tw_delta p) @ padding_items base j k)"
    unfolding base_def t_def len split [unfolded base_def t_def, symmetric] st(2) [symmetric]
    by (rule twcc_iterates) (use st ds in \<open>simp_all add: list_all_iff\<close>)
  have "length (take j (packets js) @ replicate k NotReceived) = j + k" using assms(7) by simp
  then show "map fst (report_of base t (take j (packets js)) (tw_delta p) @ padding_items base j k) = map (\<lambda>i. base + of_nat i) [0..<j + k]"
    using report_of_seqs [OF ds, of base t] unfolding split by metis
qed

lemma told_right:
  fixes t :: int
  assumes "build_interims (r # rs) (rc_seq r) b0 = Some js" "sorted_wrt (<) (map rc_seq (r # rs))" "spaced b0 (r # rs)"
    "map delta_status ds = filter received (take j (packets js))" "deltas js = ds @ es" "b0 - 1000 * t = z - 1000 * t0"
  shows "list_all (item_right (r # rs) (\<lambda>q. 250000 * (int (unat (q - rc_seq r)) + 1)) t0 z) (report_of (rc_seq r) t (take j (packets js)) ds)"
    and "map fst (filter (received \<circ> fst \<circ> snd) (report_of (rc_seq r) t (take j (packets js)) ds)) = map rc_seq (take (length ds) (r # rs))"
proof -
  let ?told = "report_of (rc_seq r) t (take j (packets js)) ds"
  obtain rest where rest: "report_of (rc_seq r) t (packets js) (deltas js) = ?told @ rest"
    using report_of_append(1) [OF assms(4), of "rc_seq r" t "drop j (packets js)" es] assms(5) by auto
  have "item_right (r # rs) (\<lambda>q. 250000 * (int (unat (q - rc_seq r)) + 1)) t0 z item" if "item \<in> set ?told" for item
  proof -
    have "item \<in> set (report_of (rc_seq r) t (packets js) (deltas js))" using that by (simp add: rest)
    from report_right(2) [OF assms(1,2) _ this]
    have "item_right (r # rs) (\<lambda>q. 250000 * (int (unat (q - rc_seq r)) + 1)) t b0 item" using assms(3) by simp
    moreover have shift: "1000 * (x - t) - (y - b0) = 1000 * (x - t0) - (y - z)" for x y using assms(6) by simp
    ultimately show ?thesis unfolding item_right_def shift by blast
  qed
  then show "list_all (item_right (r # rs) (\<lambda>q. 250000 * (int (unat (q - rc_seq r)) + 1)) t0 z) ?told" unfolding list_all_iff by blast
  have all: "map fst (filter (received \<circ> fst \<circ> snd) (?told @ rest)) = map rc_seq (take (length (deltas js)) (r # rs))"
    using first_received_seqs(2) [OF assms(1), of t] assms(2) unfolding rest [symmetric] by simp
  have "length (filter (received \<circ> fst \<circ> snd) ?told) = length ds" by (rule report_of_heard [OF assms(4)])
  then show "map fst (filter (received \<circ> fst \<circ> snd) ?told) = map rc_seq (take (length ds) (r # rs))"
    using arg_cong [OF all, of "take (length ds)"] assms(5) by (simp add: take_map [symmetric])
qed

text \<open>C2. What the receiver reports is what the sender is told: the feedback built from any reachable register is written
  and parsed back, and the iterator yields the announced number of packets, consecutively from the first unreported
  one. A packet it calls received was received, at an instant that is off by at most a quarter of a millisecond for
  each packet of the report so far; a packet it calls missing is not in the queue. After them come at most 13 packets
  of padding, which the sender is told as not received as well. The packets told are the first unreported ones, and the
  register goes on behind them. This holds for reports the format can carry and the parser reads right: no run of 8192
  packets (\<open>chunk_ok\<close>), no delta behind a run of large ones (\<open>large_runs_last\<close>), less than 65536 symbols, a reference
  time of 24 bits, arrivals less than 35 minutes apart (\<open>spaced\<close>); and for a sender whose own last number is near
  enough to extend the base number right (\<open>near\<close>).
\<close>

theorem report_reaches_sender:
  assumes "receiving keep reg" and built: "build_report n reg = Some (reg', Some p)" and z: "tr_time_start reg' = Some z"
    and unreported: "unreported = drop (tr_report_from reg) (tr_queue reg)"
    and spaced: "spaced (z + int (unat (tw_reference_time p)) * 64000 * 1000) unreported"
    and wire: "list_all chunk_ok (tw_chunks p)" "large_runs_last (tw_chunks p)" "tw_reference_time p < 2 ^ 24"
      "length (concat (map chunk_symbols (tw_chunks p))) < 65536"
    and near: "extend_u16 (Some sent) (tw_base_seq p) = base" "base = rc_seq (hd unreported)"
  shows "\<exists>body told padding. twcc_body p = Some body \<and> twcc_try_from body = ok p
    \<and> twcc_items (unat (tw_status_count p) + 13 + m) (twcc_into_iter p time_zero sent) = Some (told @ padding)
    \<and> length told = unat (tw_status_count p) \<and> length padding < 14
    \<and> map fst (told @ padding) = map (\<lambda>i. base + of_nat i) [0..<length (told @ padding)]
    \<and> list_all (item_right unreported (\<lambda>q. 250000 * (int (unat (q - base)) + 1)) time_zero z) told
    \<and> list_all (\<lambda>(_, s, inst). s = NotReceived \<and> inst = None) padding
    \<and> map fst (filter (received \<circ> fst \<circ> snd) told) = map rc_seq (take (length (tw_delta p)) unreported)
    \<and> drop (tr_report_from reg') (tr_queue reg') = drop (length (tw_delta p)) unreported"
proof -
  obtain r rs z' b0 js j k es where b: "drop (tr_report_from reg) (tr_queue reg) = r # rs" "tr_time_start reg' = Some z'"
    "b0 = z' + int (unat (tw_reference_time p)) * 64000 * 1000" "build_interims (r # rs) (rc_seq r) b0 = Some js"
    "sorted_wrt (<) (map rc_seq (r # rs))" "j \<le> length (packets js)" "k < 14"
    "concat (map chunk_symbols (tw_chunks p)) = take j (packets js) @ replicate k NotReceived"
    "list_all done_chunk (tw_chunks p)" "list_all (\<lambda>c. filled c \<noteq> []) (tw_chunks p)" "accounts (int j) (tw_chunks p)"
    "deltas js = tw_delta p @ es" "map delta_status (tw_delta p) = filter received (take j (packets js))"
    "tw_base_seq p = ucast (rc_seq r)" "tw_status_count p = of_nat j"
    "drop (tr_report_from reg') (tr_queue reg') = drop (length (tw_delta p)) (r # rs)"
    by (rule built_report [OF receiving_inv [OF assms(1)] built]) (elim exE, rule that)
  have un: "unreported = r # rs" and base: "base = rc_seq r" and z': "z' = z" using unreported b(1,2) z near(2) by simp_all
  have j: "unat (tw_status_count p) = j"
    using wire(4) b(8) b(6,15) by (simp add: unsigned_of_nat take_bit_nat_eq_self)
  have ds: "map delta_status (tw_delta p) = filter received (take j (packets js) @ replicate k NotReceived)"
    using b(13) by (simp add: received_run)
  have wf: "twcc_wf p" using wire(1,3) b(8,11) j ds by (simp add: twcc_wf_def)
  obtain body where body: "twcc_body p = Some body" "twcc_try_from body = ok p" using twcc_body_parses [OF wf wire(2)] .
  define told where "told = report_of base (time_zero + 64000 * int (unat (tw_reference_time p))) (take j (packets js)) (tw_delta p)"
  note items = told_items [OF b(4,9,10,8,6,7,13), where sent = sent and time_zero = time_zero, unfolded near(1), folded told_def]
  have sp: "spaced b0 (r # rs)" and sh: "b0 - 1000 * (time_zero + 64000 * int (unat (tw_reference_time p))) = z - 1000 * time_zero"
    using spaced un b(3) z' by simp_all
  note right = told_right [OF b(4,5) sp b(13,12) sh, folded base, folded un, folded told_def]
  have told_len: "length told = j" unfolding told_def report_of_append(2) [OF b(13)] using b(6) by simp
  have pad: "length (padding_items base j k) = k" "list_all (\<lambda>(_, s, inst). s = NotReceived \<and> inst = None) (padding_items base j k)"
    by (simp_all add: padding_items_def list_all_iff)
  have seqs: "map fst (told @ padding_items base j k) = map (\<lambda>i. base + of_nat i) [0..<length (told @ padding_items base j k)]"
    using items(2) told_len pad(1) by simp
  have rest: "drop (tr_report_from reg') (tr_queue reg') = drop (length (tw_delta p)) unreported" using b(16) un by simp
  have short: "length (padding_items base j k) < 14" using pad(1) b(7) by simp
  show ?thesis
    unfolding j by (intro exI conjI) (rule body(1) body(2) items(1) told_len short seqs right(1) pad(2) right(2) rest)+
qed

definition some_receiver :: recv_register where
  "some_receiver = update_seq 13 43000000 (update_seq 11 12000000 (update_seq 10 0 (recv_register_new 100)))"

definition some_report :: twcc where
  "some_report = \<lparr>tw_sender_ssrc = 0, tw_ssrc = 0, tw_base_seq = 10, tw_status_count = 4, tw_reference_time = 0,
     tw_feedback_count = 0, tw_chunks = [VectorSingle 13312 14], tw_delta = [Small 0, Small 48, Small 124]\<rparr>"

definition reported_receiver :: recv_register where
  "reported_receiver = some_receiver\<lparr>tr_report_from := 3, tr_time_start := Some 0, tr_generated_reports := 1\<rparr>"

lemma some_receiver_reports: "build_report 1050 some_receiver = Some (reported_receiver, Some some_report)"
  by code_simp

lemma some_receiver_reachable: "receiving 100 some_receiver"
  unfolding some_receiver_def by (intro receiving.intros)

theorem report_reaches_sender_witness:
  "\<exists>body told padding. twcc_body some_report = Some body \<and> twcc_try_from body = ok some_report
    \<and> twcc_items (unat (tw_status_count some_report) + 13 + 7) (twcc_into_iter some_report 5000 9) = Some (told @ padding)
    \<and> length told = unat (tw_status_count some_report) \<and> length padding < 14
    \<and> map fst (told @ padding) = map (\<lambda>i. 10 + of_nat i) [0..<length (told @ padding)]
    \<and> list_all (item_right (tr_queue some_receiver) (\<lambda>q. 250000 * (int (unat (q - 10)) + 1)) 5000 0) told
    \<and> list_all (\<lambda>(_, s, inst). s = NotReceived \<and> inst = None) padding
    \<and> map fst (filter (received \<circ> fst \<circ> snd) told) = map rc_seq (take (length (tw_delta some_report)) (tr_queue some_receiver))
    \<and> drop (tr_report_from reported_receiver) (tr_queue reported_receiver) = drop (length (tw_delta some_report)) (tr_queue some_receiver)"
proof (rule report_reaches_sender [OF some_receiver_reachable some_receiver_reports])
  show "tr_time_start reported_receiver = Some 0" by (simp add: reported_receiver_def)
  show "tr_queue some_receiver = drop (tr_report_from some_receiver) (tr_queue some_receiver)" by code_simp
  show "spaced (0 + int (unat (tw_reference_time some_report)) * 64000 * 1000) (tr_queue some_receiver)" by code_simp
  show "list_all chunk_ok (tw_chunks some_report)" "large_runs_last (tw_chunks some_report)" "tw_reference_time some_report < 2 ^ 24"
    by (simp_all add: some_report_def)
  have "length (concat (map chunk_symbols (tw_chunks some_report))) = 14" by code_simp
  then show "length (concat (map chunk_symbols (tw_chunks some_report))) < 65536" by simp
  show "extend_u16 (Some 9) (tw_base_seq some_report) = 10" by code_simp
  show "10 = rc_seq (hd (tr_queue some_receiver))" by code_simp
qed

theorem receiver_invariant_witness:
  "sorted_wrt (<) (map rc_seq (tr_queue some_receiver)) \<and> tr_report_from some_receiver \<le> length (tr_queue some_receiver)"
  by (rule receiver_invariant [OF some_receiver_reachable])

section \<open>When a report is complete\<close>

lemma bytes_of_deltas: "sum_list (map delta_byte_len ds) \<le> 2 * length ds"
proof (induction ds)
  case (Cons d ds)
  then show ?case by (cases d) simp_all
qed simp

lemma report_loop_complete:
  assumes "list_all interim_ok (bd_interims b)" "4 * length (packets (bd_interims b)) + 19 \<le> bd_bytes_left b"
  shows "\<exists>b'. report_loop b = Some b' \<and> bd_interims b' = [] \<and> (bd_interims b \<noteq> [] \<longrightarrow> tw_chunks (bd_twcc b') \<noteq> [])"
  using assms
proof (induction b rule: report_loop.induct)
  case (1 b)
  show ?case
  proof (cases "bd_interims b = []")
    case True
    then show ?thesis by (simp add: report_loop.simps)
  next
    case False
    have n: "\<not> (bd_interims b = [] \<or> bd_bytes_left b < 7)" using False "1.prems"(2) by simp
    obtain c todo where c: "choose_chunk (bd_interims b) (bd_bytes_left b) = (c, todo)" by fastforce
    note ch = choose_chunk_spec [OF "1.prems"(1) False c]
    obtain c1 b1 j ds where f: "fill_chunk c todo (bd_interims b) (bd_bytes_left b) (bd_report_from b) (bd_twcc b) = Some (c1, b1)"
      "j \<le> unat todo" "fillable c1" "filled c1 = filled c @ take j (packets (bd_interims b))" "must_be_full c1 = must_be_full c"
      "capacity c1 = capacity c" "list_all interim_ok (bd_interims b1)" "packets (bd_interims b1) = drop j (packets (bd_interims b))"
      "map delta_status ds = filter received (take j (packets (bd_interims b)))"
      "bd_bytes_left b1 + sum_list (map delta_byte_len ds) = bd_bytes_left b"
      "j < unat todo \<longrightarrow> bd_bytes_left b1 < 7" "0 < j"
      using fill_chunk_spec [OF ch(1) "1.prems"(1) ch(3) _ ch(6,9), of "bd_bytes_left b" "bd_report_from b" "bd_twcc b"] ch(4,5) n
      by (auto simp: word_le_nat_alt)
    have jl: "j \<le> length (packets (bd_interims b))" using f(2) ch(3) by linarith
    have "length ds = length (filter received (take j (packets (bd_interims b))))" using arg_cong [OF f(9), of length] by simp
    also have "\<dots> \<le> j" by (rule order_trans [OF length_filter_le]) simp
    finally have "sum_list (map delta_byte_len ds) \<le> 2 * j" using bytes_of_deltas [of ds] by linarith
    then have left: "4 * (length (packets (bd_interims b)) - j) + 19 + 2 \<le> bd_bytes_left b1"
      using f(10,12) "1.prems"(2) jl by linarith
    then have jt: "j = unat todo" using f(2,11) by linarith
    have "pad_chunk c1 (bd_interims b1) \<noteq> None"
    proof (cases "must_be_full c1 \<and> 0 < chunk_free c1")
      case True
      then have "unat (chunk_free c1) \<noteq> 0" by (auto simp: unat_eq_0)
      then have "length (filled c1) < capacity c1" using unat_free [OF f(3)] by linarith
      then have "unat todo \<noteq> capacity c" using f(4,6) ch(2) jt jl by simp
      then have "packets (bd_interims b1) = []" using ch(8) True f(5,8) jt by simp
      then have "bd_interims b1 = []" using packets_nonempty [OF f(7)] by blast
      then show ?thesis by (simp add: pad_chunk_def Let_def)
    qed (simp add: pad_chunk_def Let_def)
    then obtain c2 where c2: "pad_chunk c1 (bd_interims b1) = Some c2" by blast
    let ?b2 = "b1\<lparr>bd_bytes_left := bd_bytes_left b1 - 2, bd_twcc := (bd_twcc b1)\<lparr>tw_chunks := tw_chunks (bd_twcc b1) @ [c2]\<rparr>\<rparr>"
    have step: "report_loop b = report_loop ?b2" using n c f(1) c2 left by (subst report_loop.simps) simp
    have "\<exists>b'. report_loop ?b2 = Some b' \<and> bd_interims b' = [] \<and> (bd_interims ?b2 \<noteq> [] \<longrightarrow> tw_chunks (bd_twcc b') \<noteq> [])"
      using "1.IH" [OF n c [symmetric] refl f(1) _ c2] f(7,8) left by simp
    then obtain b' where b': "report_loop ?b2 = Some b'" "bd_interims b' = []" "bd_interims ?b2 \<noteq> [] \<longrightarrow> tw_chunks (bd_twcc b') \<noteq> []" by blast
    have "tw_chunks (bd_twcc b') \<noteq> []"
    proof (cases "bd_interims b1 = []")
      case True
      then have "b' = ?b2" using b'(1) by (subst (asm) report_loop.simps) simp
      then show ?thesis by simp
    qed (use b'(3) in simp)
    then show ?thesis using step b' by simp
  qed
qed

text \<open>Packets near in time to the one before them.\<close>

fun in_reach :: "int \<Rightarrow> receiption list \<Rightarrow> bool" where
  "in_reach prev [] \<longleftrightarrow> True"
| "in_reach prev (r # rs) \<longleftrightarrow> \<bar>rc_time r - prev\<bar> \<le> 8191000000 \<and> in_reach (rc_time r) rs"

lemma time_interim_reached:
  assumes "\<bar>time - prev\<bar> \<le> 8191000000"
  shows "\<exists>i. time_interim (diff_micros time prev) = Some (Some i)"
proof -
  have near: "\<bar>time - prev\<bar> < 2147483648000" using assms by linarith
  have d: "- 8191000 \<le> diff_micros time prev" "diff_micros time prev \<le> 8191000"
    using assms unfolding diff_micros_cases [OF near] by auto
  define x where "x = diff_micros time prev"
  have "x sdiv 250 = (if x < 0 then - (- x div 250) else x div 250)"
    by (auto simp: signed_divide_int_def sgn_if)
  then have t: "- 32764 \<le> x sdiv 250" "x sdiv 250 \<le> 32764" "0 \<le> x \<Longrightarrow> x \<le> 63750 \<Longrightarrow> 0 \<le> x sdiv 250 \<and> x sdiv 250 \<le> 255"
    using d unfolding x_def by (auto split: if_splits)
  show ?thesis using d t unfolding x_def [symmetric] by (auto simp: time_interim_def Let_def)
qed

lemma build_interims_reached:
  assumes "in_reach pt rs" "sorted_wrt (<) (p # map rc_seq rs)"
  shows "\<exists>js. build_interims rs p pt = Some js \<and> length (packets js) = unat (rc_seq (List.last (\<lparr>rc_seq = p, rc_time = pt\<rparr> # rs))) - unat p
    \<and> length (deltas js) = length rs"
  using assms
proof (induction rs p pt rule: build_interims.induct)
  case (2 r rs p pt)
  have pr: "p < rc_seq r" and sw: "sorted_wrt (<) (rc_seq r # map rc_seq rs)" using "2.prems"(2) by auto
  note gap = missing_gap [OF pr]
  define n where "n = rc_seq r - p - 1"
  have ms: "packets (missing_interims n) = replicate (unat n) NotReceived" "deltas (missing_interims n) = []"
    using missing_interims_spec [of n] by simp_all
  have reach: "\<bar>rc_time r - pt\<bar> \<le> 8191000000" "in_reach (rc_time r) rs" using "2.prems"(1) by simp_all
  obtain i where i: "time_interim (diff_micros (rc_time r) pt) = Some (Some i)" using time_interim_reached [OF reach(1)] by blast
  obtain s d e where sd: "i = Received s d" "interim_deltas i = [e]" using time_interim_spec [OF i] by metis
  obtain js where js: "build_interims rs (rc_seq r) (rc_time r) = Some js"
    "length (packets js) = unat (rc_seq (List.last (\<lparr>rc_seq = rc_seq r, rc_time = rc_time r\<rparr> # rs))) - unat (rc_seq r)"
    "length (deltas js) = length rs"
    using "2.IH" [OF refl refl i refl reach(2) sw] by blast
  have l: "unat (rc_seq r) \<le> unat (rc_seq (List.last (\<lparr>rc_seq = rc_seq r, rc_time = rc_time r\<rparr> # rs)))"
    "rc_seq (List.last (\<lparr>rc_seq = p, rc_time = pt\<rparr> # r # rs)) = rc_seq (List.last (\<lparr>rc_seq = rc_seq r, rc_time = rc_time r\<rparr> # rs))"
    using sw by (cases "rs = []"; auto simp: word_less_nat_alt less_imp_le)+
  have b: "build_interims (r # rs) p pt = Some (missing_interims n @ i # js)"
    using i js(1) gap(1) by (simp add: n_def Let_def)
  have "length (packets (missing_interims n @ i # js)) = unat n + 1 + length (packets js)"
    unfolding map_append concat_append ms(1) using sd(1) by simp
  also have "\<dots> = unat (rc_seq (List.last (\<lparr>rc_seq = p, rc_time = pt\<rparr> # r # rs))) - unat p"
    using gap_unat(2) [OF pr] gap(2) js(2) l(1) unfolding n_def l(2) by linarith
  finally have "length (packets (missing_interims n @ i # js)) = unat (rc_seq (List.last (\<lparr>rc_seq = p, rc_time = pt\<rparr> # r # rs))) - unat p" .
  moreover have "length (deltas (missing_interims n @ i # js)) = length (r # rs)"
    unfolding map_append concat_append ms(2) using sd(2) js(3) by simp
  ultimately show ?case unfolding b by blast
qed simp

lemma reference_exact:
  assumes "0 \<le> d" "d < 2 ^ 50"
  shows "int (unat (ucast ((word_of_int (d div 1000) :: u64) div 64000) :: u32)) = d div 64000000"
proof -
  define x where "x = d div 1000"
  have x: "0 \<le> x" "x < 2 ^ 41" using assms unfolding x_def by auto
  have "uint (word_of_int x :: u64) = x" using x by (simp add: unsigned_of_int take_bit_int_eq_self)
  then have "uint ((word_of_int x :: u64) div 64000) = x div 64000" by (simp add: uint_div)
  moreover have "0 \<le> x div 64000" "x div 64000 < 2 ^ 32" using x by auto
  ultimately have "uint (ucast ((word_of_int x :: u64) div 64000) :: u32) = x div 64000"
    by (simp add: unsigned_ucast_eq take_bit_int_eq_self)
  moreover have "x div 64000 = d div 64000000" unfolding x_def by (simp add: zdiv_zmult2_eq [symmetric])
  ultimately show ?thesis by (simp add: x_def)
qed

text \<open>C28. A report is complete when its span is small: with at least 4 octets for each sequence number from the first
  unreported packet to the last one and 39 more, and no packet more than 8.191 seconds from the one before it,
  building does not panic, returns a report, and leaves nothing unreported.
\<close>

theorem small_span_is_reported:
  assumes "receiving keep reg" and unreported: "drop (tr_report_from reg) (tr_queue reg) = r # rs"
    and n: "4 * (unat (rc_seq (List.last (r # rs))) - unat (rc_seq r) + 1) + 39 \<le> n" "n \<le> 10000"
    and start: "z = (case tr_time_start reg of None \<Rightarrow> rc_time r | Some t \<Rightarrow> t)" "z \<le> rc_time r" "rc_time r < z + 2 ^ 50"
    and reach: "in_reach (rc_time r) rs"
  shows "\<exists>reg' p. build_report n reg = Some (reg', Some p) \<and> \<not> has_unreported reg'"
proof -
  have inv: "recv_inv keep reg" by (rule receiving_inv [OF assms(1)])
  have s: "sorted_wrt (<) (rc_seq r # map rc_seq rs)" using first_sorted [OF _ unreported] inv by (simp add: recv_inv_def)
  have len: "tr_report_from reg < length (tr_queue reg)" and r: "tr_queue reg ! tr_report_from reg = r"
    using unreported by (metis drop_all leI list.distinct(1), metis nth_via_drop)
  define reference :: u32 where "reference = ucast ((word_of_int (since (rc_time r) z div 1000) :: u64) div 64000)"
  define b0 where "b0 = z + int (unat reference) * 64000 * 1000"
  have "int (unat reference) = (rc_time r - z) div 64000000"
    using reference_exact [of "rc_time r - z"] start(2,3) by (simp add: reference_def since_def)
  then have "\<bar>rc_time r - b0\<bar> \<le> 8191000000" unfolding b0_def by linarith
  then obtain i where i: "time_interim (diff_micros (rc_time r) b0) = Some (Some i)" using time_interim_reached by blast
  obtain x d e where sd: "i = Received x d" "interim_deltas i = [e]" using time_interim_spec [OF i] by metis
  obtain js where js: "build_interims rs (rc_seq r) (rc_time r) = Some js"
    "length (packets js) = unat (rc_seq (List.last (\<lparr>rc_seq = rc_seq r, rc_time = rc_time r\<rparr> # rs))) - unat (rc_seq r)"
    "length (deltas js) = length rs"
    using build_interims_reached [OF reach s] by blast
  have bi: "build_interims (drop (tr_report_from reg) (tr_queue reg)) (rc_seq r) b0 = Some (i # js)"
    using i js(1) unreported by (simp add: Let_def)
  define b where "b = \<lparr>bd_interims = i # js, bd_bytes_left = n - 20, bd_report_from = tr_report_from reg,
     bd_twcc = report_start (rc_seq r) reference reg\<rparr>"
  have lastr: "rc_seq (List.last (\<lparr>rc_seq = rc_seq r, rc_time = rc_time r\<rparr> # rs)) = rc_seq (List.last (r # rs))"
    by (cases rs) simp_all
  have "4 * length (packets (i # js)) + 19 \<le> n - 20" using n(1) js(2) sd(1) unfolding lastr by simp
  then obtain b' where b': "report_loop b = Some b'" "bd_interims b' = []" "tw_chunks (bd_twcc b') \<noteq> []"
    using report_loop_complete [of b] interims_ok [OF bi] by (auto simp: b_def)
  obtain j k cs ds where w: "wrote b b' j k cs ds"
    using report_loop_spec [OF b'(1)] interims_ok [OF bi] by (auto simp: b_def)
  then have moved: "bd_report_from b' = tr_report_from reg + length ds" and "deltas (i # js) = ds"
    using b'(2) by (simp_all add: wrote_def b_def)
  then have "length ds = length (r # rs)" using sd(2) js(3) by auto
  also have "\<dots> = length (tr_queue reg) - tr_report_from reg" using unreported by (metis length_drop)
  finally have all: "bd_report_from b' = length (tr_queue reg)" using moved len by simp
  let ?r = "reg\<lparr>tr_time_start := Some z, tr_interims := bd_interims b', tr_report_from := bd_report_from b',
      tr_generated_reports := tr_generated_reports reg + 1\<rparr>"
  have "build_report n reg = Some (clean_up ?r, Some (bd_twcc b'))"
    using n len bi b'(1,3) unfolding build_report_def Let_def r b_def report_start_def b0_def reference_def start(1)
    by (simp add: bind_eq_Some_conv)
  moreover have "\<not> has_unreported (clean_up ?r)" using all by (auto simp: has_unreported_def)
  ultimately show ?thesis by blast
qed

theorem small_span_is_reported_witness:
  "\<exists>reg' p. build_report 1050 some_receiver = Some (reg', Some p) \<and> \<not> has_unreported reg'"
proof (rule small_span_is_reported [OF some_receiver_reachable])
  show "drop (tr_report_from some_receiver) (tr_queue some_receiver) = \<lparr>rc_seq = 10, rc_time = 0\<rparr> #
      [\<lparr>rc_seq = 11, rc_time = 12000000\<rparr>, \<lparr>rc_seq = 13, rc_time = 43000000\<rparr>]" by code_simp
  show "0 = (case tr_time_start some_receiver of None \<Rightarrow> rc_time \<lparr>rc_seq = 10, rc_time = 0\<rparr> | Some t \<Rightarrow> t)" by code_simp
qed simp_all

section \<open>Where the register fails\<close>

text \<open>A packet that arrives 8.1917 seconds after its successor was reported is accepted by the register, and panics the
  next report at an assertion: the delta back to the successor fits 16 bits, but not the range asserted.
\<close>

theorem late_packet_panics:
  "\<exists>reg p. build_report 1050 (update_seq 2 0 (recv_register_new 1000)) = Some (reg, Some p)
    \<and> build_report 1050 (update_seq 1 8191700000 reg) = None"
proof -
  have "(case build_report 1050 (update_seq 2 0 (recv_register_new 1000)) of
       Some (reg, Some p) \<Rightarrow> build_report 1050 (update_seq 1 8191700000 reg) = None | _ \<Rightarrow> False)" by code_simp
  then show ?thesis by (auto simp del: not_None_eq split: option.splits prod.splits)
qed

text \<open>A report padded to a whole chunk speaks of packets that it does not cover: after packets 1 and 3 the sender is
  told that packets 4 to 14, which it may not even have sent, were not received.
\<close>

theorem padding_told_as_lost:
  "\<exists>reg p. build_report 1050 (update_seq 3 0 (update_seq 1 0 (recv_register_new 1000))) = Some (reg, Some p)
    \<and> tw_status_count p = 3
    \<and> twcc_items 20 (twcc_into_iter p 0 0) = Some ([(1, ReceivedSmallDelta, Some 0), (2, NotReceived, None), (3, ReceivedSmallDelta, Some 0)]
        @ map (\<lambda>q. (q, NotReceived, None)) [4, 5, 6, 7, 8, 9, 10, 11, 12, 13, 14])"
proof -
  have "(case build_report 1050 (update_seq 3 0 (update_seq 1 0 (recv_register_new 1000))) of
       Some (reg, Some p) \<Rightarrow> tw_status_count p = 3
         \<and> twcc_items 20 (twcc_into_iter p 0 0) = Some ([(1, ReceivedSmallDelta, Some 0), (2, NotReceived, None), (3, ReceivedSmallDelta, Some 0)]
             @ map (\<lambda>q. (q, NotReceived, None)) [4, 5, 6, 7, 8, 9, 10, 11, 12, 13, 14])
     | _ \<Rightarrow> False)" by code_simp
  then show ?thesis by (auto simp del: not_None_eq split: option.splits prod.splits)
qed

text \<open>The rounding errors of the deltas add up: packets 200 microseconds apart are all reported at the instant of the
  first one.
\<close>

theorem close_packets_collapse:
  "\<exists>reg p. build_report 1050 (update_seq 4 600000 (update_seq 3 400000 (update_seq 2 200000 (update_seq 1 0 (recv_register_new 1000))))) = Some (reg, Some p)
    \<and> tw_delta p = [Small 0, Small 0, Small 0, Small 0]"
proof -
  have "(case build_report 1050 (update_seq 4 600000 (update_seq 3 400000 (update_seq 2 200000 (update_seq 1 0 (recv_register_new 1000))))) of
       Some (reg, Some p) \<Rightarrow> tw_delta p = [Small 0, Small 0, Small 0, Small 0] | _ \<Rightarrow> False)" by code_simp
  then show ?thesis by (auto simp del: not_None_eq split: option.splits prod.splits)
qed

text \<open>When the first packet reported is more than 8.192 seconds younger than its successor in the queue, the register
  never reports again: it keeps an unreported packet for which every further call returns nothing and changes nothing.
\<close>

theorem register_gets_stuck:
  "\<exists>reg. receiving 1000 reg \<and> has_unreported reg
    \<and> map_option (\<lambda>(r, p). (tr_queue r, tr_report_from r, p)) (build_report 1050 reg) = Some (tr_queue reg, tr_report_from reg, None)"
proof -
  define reg where "reg = update_seq 1 9000000000 (update_seq 2 0 (recv_register_new 1000))"
  have "case build_report 1050 reg of
       Some (r, _) \<Rightarrow> has_unreported r \<and> map_option (\<lambda>(r, p). (tr_queue r, tr_report_from r, p)) (build_report 1050 r) = Some (tr_queue r, tr_report_from r, None)
     | None \<Rightarrow> False" unfolding reg_def by code_simp
  moreover have "receiving 1000 reg" unfolding reg_def by (intro receiving.intros)
  ultimately show ?thesis by (auto split: option.splits prod.splits intro: receiving.reports)
qed

text \<open>With 19 octets left, a vector of 13 received packets and a missing one is begun, but its last symbol finds fewer
  than 7 octets and is left out; the assertion that only the end of the queue leaves a vector unfilled then panics.
\<close>

theorem unfilled_vector_panics:
  "\<exists>reg. receiving 1000 reg \<and> build_report 39 reg = None"
proof -
  define reg where "reg = fold (\<lambda>seq. update_seq seq 0) [1, 2, 3, 4, 5, 6, 7, 8, 9, 10, 11, 12, 13, 15] (recv_register_new 1000)"
  have "receiving 1000 reg" unfolding reg_def by (simp only: fold_simps id_apply) (intro receiving.intros)
  moreover have "build_report 39 reg = None" unfolding reg_def by code_simp
  ultimately show ?thesis by blast
qed

end
