(* ===== verification/TwccQuery.thy ===== *)
theory TwccQuery imports TwccDelivery begin

text \<open>
  What the session asks the registers of \<open>rtp/rtcp/twcc.rs\<close>: the loss seen by the receiver and by the sender,
  the record of a packet, and the records of a range.
\<close>

section \<open>Loss at the receiver\<close>

definition arrive :: "u64 list \<Rightarrow> recv_register \<Rightarrow> recv_register" where
  "arrive seqs reg = fold (\<lambda>seq. update_seq seq 0) seqs reg"

lemma update_window: "tr_receive_window (update_seq seq time reg) = record_seq seq (tr_receive_window reg)"
  by (simp add: update_seq_def Let_def split: sum.splits option.splits)

lemma arrive_window:
  assumes "rw_base_seq w = Some b" "rw_max_seq w = Some m"
  shows "rw_base_seq (fold record_seq seqs w) = Some b \<and> rw_max_seq (fold record_seq seqs w) = Some (fold max seqs m)
    \<and> rw_received (fold record_seq seqs w) = rw_received w + of_nat (length seqs)
    \<and> rw_expected_prior (fold record_seq seqs w) = rw_expected_prior w \<and> rw_received_prior (fold record_seq seqs w) = rw_received_prior w"
  using assms by (induction seqs arbitrary: w m) (simp_all add: record_seq_def max.commute)

lemma arrive_fold: "tr_receive_window (arrive seqs reg) = fold record_seq seqs (tr_receive_window reg)"
  unfolding arrive_def by (induction seqs arbitrary: reg) (simp_all add: update_window)

text \<open>The loss at the receiver: after the packets \<open>seqs\<close> have arrived in a fresh register, the first of them the
  lowest, the packets expected are those from the first number to the highest, and the packets lost are those that
  did not arrive; asking again at once gives nothing.
\<close>

theorem receiver_loss_counts:
  assumes "seqs = q # rest" "m = fold max rest q" "length seqs \<le> unat (m - q + 1)"
  shows "\<exists>reg. recv_loss (arrive seqs (recv_register_new keep)) = (reg, Some (m - q + 1 - of_nat (length seqs), m - q + 1))
    \<and> snd (recv_loss reg) = None"
proof -
  define w where "w = tr_receive_window (arrive seqs (recv_register_new keep))"
  have w: "rw_base_seq w = Some q" "rw_max_seq w = Some m" "rw_received w = of_nat (length seqs)"
    "rw_expected_prior w = 0" "rw_received_prior w = 0"
    using arrive_window [of "record_seq q (tr_receive_window (recv_register_new keep))" q q rest] assms(1,2)
    by (simp_all add: w_def arrive_fold record_seq_def recv_register_new_def add.commute)
  have "unat (of_nat (length seqs) :: u64) = length seqs"
    using assms(3) u64_bound [of "m - q + 1"] by (simp add: unsigned_of_nat take_bit_nat_eq_self)
  then have le: "of_nat (length seqs) \<le> m - q + 1" using assms(3) by (simp add: word_le_nat_alt)
  have "0 < unat (m - q + 1)" using assms(1,3) by (cases "unat (m - q + 1)") auto
  then have "m - q + 1 \<noteq> 0" by auto
  then show ?thesis using w le by (simp add: recv_loss_def w_def [symmetric] Let_def)
qed

theorem receiver_loss_counts_witness:
  "\<exists>reg. recv_loss (arrive [5, 9, 7] (recv_register_new 10)) = (reg, Some (9 - 5 + 1 - of_nat 3, 9 - 5 + 1))
    \<and> snd (recv_loss reg) = None"
  using receiver_loss_counts [of "[5, 9, 7]" 5 "[9, 7]" 9 10] by simp

section \<open>Records of sent packets\<close>

definition send_record_of :: "u64 \<Rightarrow> send_register \<Rightarrow> send_record option" where
  "send_record_of seq reg =
     (case binary_search_by_key ts_seq seq (sg_queue reg) of Inr i \<Rightarrow> Some (sg_queue reg ! i) | Inl _ \<Rightarrow> None)"

text \<open>Packets lost and packets reported among those sent lately, from the newest back; the code divides the two as \<open>f32\<close>.\<close>

definition send_loss :: "int \<Rightarrow> int \<Rightarrow> send_register \<Rightarrow> (nat \<times> nat) option" where
  "send_loss duration now reg =
     (let lower_bound = now - duration;
          packets = takeWhile (\<lambda>s. lower_bound \<le> ts_local_send_time s)
            (filter (\<lambda>s. ts_recv_report s \<noteq> None) (rev (sg_queue reg)));
          (total, lost) = fold (\<lambda>s (total, lost). (total + 1, lost +
            (case ts_recv_report s of Some (_, remote_recv_time) \<Rightarrow> if remote_recv_time = None then 1 else 0 | None \<Rightarrow> 1))) packets (0, 0)
      in if total = 0 then None else Some (lost, total))"

text \<open>The iterator over the records of a range; an index behind the queue or a record with another number panics.\<close>

function records_from :: "send_record list \<Rightarrow> u64 \<times> u64 \<Rightarrow> u64 \<Rightarrow> nat \<Rightarrow> send_record list option" where
  "records_from queue (first, final) current i =
     (if final < current \<or> current < first then Some []
      else if i < length queue then
        (if current \<noteq> ts_seq (queue ! i) then None
         else map_option ((#) (queue ! i)) (records_from queue (first, final) (current + 1) (i + 1)))
      else None)"
  by pat_completeness auto
termination by (relation "measure (\<lambda>(queue, _, _, i). length queue - i)") auto

declare records_from.simps [simp del]

definition send_records :: "u64 \<times> u64 \<Rightarrow> send_register \<Rightarrow> send_record list option option" where
  "send_records rg reg =
     (case binary_search_by_key ts_seq (fst rg) (sg_queue reg) of
        Inl _ \<Rightarrow> Some None
      | Inr i \<Rightarrow> map_option Some (records_from (sg_queue reg) rg (fst rg) i))"

lemma consec_nth: "consec q xs \<Longrightarrow> i < length xs \<Longrightarrow> xs ! i = q + of_nat i"
  by (induction q xs arbitrary: i rule: consec.induct) (auto simp: nth_Cons add.assoc split: nat.splits)

lemma numbered_unat:
  assumes "unat q + n \<le> 2 ^ 64" "i < n"
  shows "unat (q + of_nat i :: u64) = unat q + i"
proof -
  have "unat (of_nat i :: u64) = i" using assms by (simp add: unsigned_of_nat take_bit_nat_eq_self)
  then show ?thesis using assms by (subst unat_sum) simp_all
qed

lemma search_consec:
  assumes "consec q (map ts_seq rs)" "unat q + length rs \<le> 2 ^ 64" "i < length rs"
  shows "binary_search_by_key ts_seq (q + of_nat i) rs = Inr i"
proof -
  have nth: "ts_seq (rs ! j) = q + of_nat j" if "j < length rs" for j using consec_nth [OF assms(1), of j] that by simp
  have "takeWhile (\<lambda>r. ts_seq r < q + of_nat i) rs = take i rs"
  proof (rule takeWhile_eq_take_P_nth)
    show "ts_seq (rs ! j) < q + of_nat i" if "j < i" "j < length rs" for j
      using that nth numbered_unat [OF assms(2), of j] numbered_unat [OF assms(2,3)] by (simp add: word_less_nat_alt)
    show "\<not> ts_seq (rs ! i) < q + of_nat i" using nth [OF assms(3)] by simp
  qed
  then show ?thesis using nth [OF assms(3)] assms(3) by (simp add: binary_search_by_key_def)
qed

lemma records_from_consec:
  assumes q: "consec q (map ts_seq rs)" "unat q + length rs < 2 ^ 64" and "c \<le> Suc j" "i \<le> c" "j < length rs"
  shows "records_from rs (q + of_nat i, q + of_nat j) (q + of_nat c) c = Some (take (Suc j - c) (drop c rs))"
  using assms(3,4)
proof (induction "Suc j - c" arbitrary: c)
  case 0
  then have c: "c = Suc j" by simp
  have bound: "unat q + Suc (length rs) \<le> 2 ^ 64" using q(2) by simp
  then have "q + of_nat j < q + of_nat c"
    using numbered_unat [OF bound, of j] numbered_unat [OF bound, of c] assms(5) c by (simp add: word_less_nat_alt)
  then show ?case using c by (simp add: records_from.simps)
next
  case (Suc n)
  then have c: "c \<le> j" by simp
  have bound: "unat q + length rs \<le> 2 ^ 64" using q(2) by simp
  have "\<not> q + of_nat j < q + of_nat c" "\<not> q + of_nat c < q + of_nat i"
    using numbered_unat [OF bound, of j] numbered_unat [OF bound, of c] numbered_unat [OF bound, of i] assms(5) c Suc.prems
    by (simp_all add: word_less_nat_alt)
  moreover have "ts_seq (rs ! c) = q + of_nat c" using consec_nth [OF q(1), of c] c assms(5) by simp
  moreover have "records_from rs (q + of_nat i, q + of_nat j) (q + of_nat c + 1) (c + 1) = Some (take (j - c) (drop (Suc c) rs))"
    using Suc.hyps(1) [of "Suc c"] Suc.hyps(2) Suc.prems c by (simp add: ac_simps)
  moreover have "take (Suc j - c) (drop c rs) = rs ! c # take (j - c) (drop (Suc c) rs)"
    using c assms(5) by (simp add: Suc_diff_le Cons_nth_drop_Suc [symmetric])
  ultimately show ?case using c assms(5) by (subst records_from.simps) simp
qed

text \<open>The records of a range of registered packets are found by their numbers and listed in order, without a panic.\<close>

theorem send_records_lists_range:
  assumes "consec q (map ts_seq (sg_queue reg))" "unat q + length (sg_queue reg) < 2 ^ 64" "i \<le> j" "j < length (sg_queue reg)"
  shows "send_records (q + of_nat i, q + of_nat j) reg = Some (Some (take (Suc j - i) (drop i (sg_queue reg))))
    \<and> send_record_of (q + of_nat i) reg = Some (sg_queue reg ! i)"
  using search_consec [OF assms(1), of i] records_from_consec [OF assms(1,2), of i j i] assms(2-)
  by (simp add: send_records_def send_record_of_def)

theorem send_records_lists_range_witness:
  "send_records (82 + of_nat 1, 82 + of_nat 2) some_register = Some (Some (take (Suc 2 - 1) (drop 1 (sg_queue some_register))))
    \<and> send_record_of (82 + of_nat 1) some_register = Some (sg_queue some_register ! 1)"
  by (rule send_records_lists_range) (simp_all add: some_register_def)

end
