(* ===== verification/Payload.thy ===== *)
theory Payload imports Wire begin

text \<open>
  What the payload formats of \<open>packet/\<close> of str0m share: the errors, the extra information about a frame,
  the bit reader, all of \<open>packet/mod.rs\<close>, and the cutting of a frame into fragments that every packetizer
  does in its own loop.
\<close>

section \<open>Errors and extra information\<close>

datatype packet_error = ErrShortPacket | ErrTooManySpatialLayers | ErrTooManyPDiff | ErrH265CorruptedPacket
  | ErrInvalidH265PacketType | StapASizeLargerThanBuffer nat nat | NaluTypeIsNotHandled u8 | ErrVP9CorruptedPacket

record vp8_extra =
  discardable :: bool
  sync :: bool
  layer_index :: u8
  picture_id :: "u64 option"
  tl0_picture_id :: "u64 option"
  is_keyframe :: bool

text \<open>The three arrays of a VP9 frame have one place for each spatial layer.\<close>

record vp9_extra =
  layers_scheme :: "nat option list"
  v9_tid :: "u8 option"
  layers_widths :: "u16 option list"
  layers_heights :: "u16 option list"
  v9_tl0_picture_id :: "u8 option"
  pid :: u16
  v9_is_keyframe :: bool

datatype codec_extra = NoExtra | Vp8Extra vp8_extra | Vp9Extra vp9_extra | H264Extra bool

text \<open>
  A depacketizer appends to the frame and rewrites the extra information; its state and what it has
  written stay when it returns an error.
\<close>

type_synonym 'd depacked = "('d \<times> bytes \<times> codec_extra \<times> (packet_error + unit)) option"

section \<open>The bit reader\<close>

text \<open>A slice and a place in bits.\<close>

type_synonym reader = "bytes \<times> nat"

definition remaining :: "reader \<Rightarrow> nat" where
  "remaining r = length (fst r) * 8 - snd r"

definition get_u8 :: "reader \<Rightarrow> (u8 \<times> reader) option" where
  "get_u8 r =
     (if remaining r < 8 then None
      else
        (let offs = snd r div 8; shift = snd r mod 8;
             n = (if 0 < shift then push_bit shift (fst r ! offs) OR drop_bit (8 - shift) (fst r ! (offs + 1)) else fst r ! offs)
         in Some (n, (fst r, snd r + 8))))"

definition get_u16 :: "reader \<Rightarrow> (u16 \<times> reader) option" where
  "get_u16 r =
     (if remaining r < 16 then None
      else do { (a, r) \<leftarrow> get_u8 r; (b, r) \<leftarrow> get_u8 r; Some (from_be16 a b, r) })"

text \<open>Read octet by octet the reader is the rest of the slice.\<close>

lemma get_u8_at: "get_u8 (p @ b # bs, 8 * length p) = Some (b, ((p @ [b]) @ bs, 8 * length (p @ [b])))"
  by (simp add: get_u8_def remaining_def)

lemma get_u8_end: "length p \<le> n \<Longrightarrow> get_u8 (p, 8 * n) = None"
  by (simp add: get_u8_def remaining_def)

lemma get_u8_octet: "get_u8 (p, 8 * n) = (if n < length p then Some (p ! n, (p, 8 * Suc n)) else None)"
  by (auto simp: get_u8_def remaining_def)

lemma remaining_octet: "remaining (p, 8 * n) = 8 * (length p - n)"
  by (simp add: remaining_def right_diff_distrib')

lemma get_u16_octet:
  "get_u16 (p, 8 * n) = (if n + 1 < length p then Some (from_be16 (p ! n) (p ! Suc n), (p, 8 * (n + 2))) else None)"
proof -
  have "remaining (p, 8 * n) < 16 \<longleftrightarrow> \<not> n + 1 < length p" by (auto simp: remaining_octet)
  moreover have "get_u8 (p, 8 + 8 * n) = (if Suc n < length p then Some (p ! Suc n, (p, 16 + 8 * n)) else None)"
    using get_u8_octet [of p "Suc n"] by simp
  ultimately show ?thesis by (simp add: get_u16_def get_u8_octet)
qed

section \<open>Steps that may fail\<close>

text \<open>A step of a parser changes its own state and returns an error or goes on.\<close>

type_synonym ('s, 'a) parsed = "'s \<times> (packet_error + 'a)"

definition on_ok :: "('s, 'a) parsed \<Rightarrow> ('s \<Rightarrow> 'a \<Rightarrow> ('s, 'b) parsed) \<Rightarrow> ('s, 'b) parsed" where
  "on_ok r f = (case r of (s, Inl e) \<Rightarrow> (s, Inl e) | (s, Inr a) \<Rightarrow> f s a)"

lemma on_ok_simps [simp]: "on_ok (s, Inl e) f = (s, Inl e)" "on_ok (s, Inr a) f = f s a"
  by (simp_all add: on_ok_def)

lemma on_ok_Inr: "on_ok r f = (s, Inr b) \<longleftrightarrow> (\<exists>s' a. r = (s', Inr a) \<and> f s' a = (s, Inr b))"
  by (auto simp: on_ok_def split: prod.splits sum.splits)

text \<open>One octet, or the error of a short packet.\<close>

definition octet :: "'s \<Rightarrow> reader \<Rightarrow> ('s, u8 \<times> reader) parsed" where
  "octet s r = (s, case get_u8 r of None \<Rightarrow> Inl ErrShortPacket | Some x \<Rightarrow> Inr x)"

lemma octet_at: "octet s (p, 8 * n) = (s, if n < length p then Inr (p ! n, (p, 8 * Suc n)) else Inl ErrShortPacket)"
  by (simp add: octet_def get_u8_octet)

section \<open>Cutting a frame\<close>

text \<open>Every packetizer cuts a frame into fragments of a given size and a shorter last one.\<close>

locale cutting =
  fixes cut :: "nat \<Rightarrow> bytes \<Rightarrow> bytes list"
  assumes cut_Nil: "cut m [] = []"
    and cut_step: "0 < m \<Longrightarrow> xs \<noteq> [] \<Longrightarrow> cut m xs = take m xs # cut m (drop m xs)"
begin

lemma cut_induct [consumes 1, case_names Nil step]:
  assumes "0 < m" "0 < m \<Longrightarrow> P []" "\<And>xs. 0 < m \<Longrightarrow> xs \<noteq> [] \<Longrightarrow> P (drop m xs) \<Longrightarrow> P xs"
  shows "P xs"
proof (induction "length xs" arbitrary: xs rule: less_induct)
  case less
  show ?case
  proof (cases "xs = []")
    case False
    then show ?thesis using less [of "drop m xs"] assms by simp
  qed (use assms in simp)
qed

lemma cut_joins: "0 < m \<Longrightarrow> concat (cut m xs) = xs"
proof (induction xs rule: cut_induct)
  case (step xs)
  then show ?case by (simp add: cut_step [OF step(1,2)])
qed (simp add: cut_Nil)

lemma cut_sizes: "0 < m \<Longrightarrow> f \<in> set (cut m xs) \<Longrightarrow> f \<noteq> [] \<and> length f \<le> m"
proof (induction xs rule: cut_induct)
  case (step xs)
  then show ?case by (auto simp: cut_step [OF step(1,2)])
qed (simp add: cut_Nil)

lemma cut_empty: "0 < m \<Longrightarrow> cut m xs = [] \<longleftrightarrow> xs = []"
  by (cases "xs = []") (simp_all add: cut_Nil cut_step)

lemma cut_count: "0 < m \<Longrightarrow> length (cut m xs) = (length xs + m - 1) div m"
proof (induction xs rule: cut_induct)
  case (step xs)
  obtain k where k: "length xs = Suc k" using step(2) by (cases xs) auto
  show ?case
  proof (cases "length xs \<le> m")
    case True
    then have "(Suc k + m - 1) div m = 1" "(m - 1) div m = 0" using step(1) k by (simp_all add: div_add_self2)
    then show ?thesis using True step(3) k by (simp add: cut_step [OF step(1,2)])
  next
    case False
    then have "length xs - m + m - 1 = k" using k by simp
    then show ?thesis using step(1,3) False k by (simp add: cut_step [OF step(1,2)] div_add_self2)
  qed
qed (simp add: cut_Nil)

lemma cut_full: "0 < m \<Longrightarrow> f \<in> set (butlast (cut m xs)) \<Longrightarrow> length f = m"
proof (induction xs rule: cut_induct)
  case (step xs)
  note c = cut_step [OF step(1,2)]
  show ?case
  proof (cases "drop m xs = []")
    case True
    have "cut m xs = [take m xs]" unfolding c True cut_Nil ..
    then show ?thesis using step(4) by simp
  next
    case False
    then have "cut m (drop m xs) \<noteq> []" "m \<le> length xs" using cut_empty [OF step(1)] by auto
    then show ?thesis using step(3,4) unfolding c by (auto split: if_splits)
  qed
qed (simp add: cut_Nil)

text \<open>The fragments are determined by the law.\<close>

lemma cut_nth: "0 < m \<Longrightarrow> i < length (cut m xs) \<Longrightarrow> cut m xs ! i = take m (drop (i * m) xs)"
proof (induction xs arbitrary: i rule: cut_induct)
  case (step xs)
  note c = cut_step [OF step(1,2)]
  show ?case
  proof (cases i)
    case (Suc j)
    then have "j < length (cut m (drop m xs))" using step(4) unfolding c by simp
    then show ?thesis using step(3) Suc unfolding c by (simp add: add.commute)
  qed (simp add: c)
qed (simp add: cut_Nil)

end

text \<open>The cutting itself.\<close>

function fragments :: "nat \<Rightarrow> bytes \<Rightarrow> bytes list" where
  "fragments m xs = (if xs = [] \<or> m = 0 then [] else take m xs # fragments m (drop m xs))"
  by pat_completeness auto
termination by (relation "measure (\<lambda>(_, xs). length xs)") auto

declare fragments.simps [simp del]

interpretation fragments: cutting fragments
  by unfold_locales (simp_all add: fragments.simps)

section \<open>Reading packet after packet\<close>

fun depack_all :: "('d \<Rightarrow> bytes \<Rightarrow> bytes \<Rightarrow> codec_extra \<Rightarrow> 'd depacked) \<Rightarrow> 'd \<Rightarrow> bytes list \<Rightarrow> bytes \<Rightarrow> codec_extra \<Rightarrow> 'd depacked" where
  "depack_all d st [] out extra = Some (st, out, extra, Inr ())"
| "depack_all d st (p # ps) out extra =
     (case d st p out extra of
        Some (st, out, extra, Inr _) \<Rightarrow> depack_all d st ps out extra
      | r \<Rightarrow> r)"

lemma depack_all_append:
  "depack_all d st ps out extra = Some (st', out', extra', Inr ()) \<Longrightarrow>
     depack_all d st (ps @ qs) out extra = depack_all d st' qs out' extra'"
proof (induction ps arbitrary: st out extra)
  case (Cons p ps)
  obtain st1 out1 extra1 u where p: "d st p out extra = Some (st1, out1, extra1, Inr u)"
    using Cons.prems by (cases "d st p out extra") (auto split: sum.splits)
  then show ?case using Cons.IH [of st1 out1 extra1] Cons.prems by simp
qed simp

section \<open>Where a parser stands\<close>

text \<open>A stage hands on the reader and an index into the packet; they agree when each octet read is counted.\<close>

definition stands :: "bytes \<Rightarrow> reader \<times> nat \<Rightarrow> bool" where
  "stands packet at \<longleftrightarrow> fst at = (packet, 8 * snd at) \<and> snd at \<le> length packet"

lemma octet_0: "octet s (p, 0) = (s, if p \<noteq> [] then Inr (hd p, (p, 8)) else Inl ErrShortPacket)"
  using octet_at [of s p 0] by (cases p) simp_all

lemma octet_next: "octet s (p, 8 + 8 * n) = (s, if Suc n < length p then Inr (p ! Suc n, (p, 16 + 8 * n)) else Inl ErrShortPacket)"
  using octet_at [of s p "Suc n"] by simp

lemma octet_stands: "stands packet at \<Longrightarrow>
    octet s (fst at) = (s, if snd at < length packet then Inr (packet ! snd at, (packet, 8 * Suc (snd at))) else Inl ErrShortPacket)"
  by (simp add: stands_def octet_at)

text \<open>
  A sound stage keeps \<open>A\<close> of its state, fails only with an error of \<open>E\<close>, and when it goes on, stands where it says
  it does, in a state of \<open>P\<close>.
\<close>

definition sound :: "('s \<Rightarrow> bool) \<Rightarrow> packet_error set \<Rightarrow> ('s \<Rightarrow> bool) \<Rightarrow> bytes \<Rightarrow> ('s, reader \<times> nat) parsed \<Rightarrow> bool" where
  "sound A E P packet r = (A (fst r) \<and> (case snd r of Inl e \<Rightarrow> e \<in> E | Inr at \<Rightarrow> stands packet at \<and> P (fst r)))"

lemma sound_simps [simp]:
  "sound A E P p (s, Inl e) \<longleftrightarrow> A s \<and> e \<in> E" "sound A E P p (s, Inr at) \<longleftrightarrow> A s \<and> stands p at \<and> P s"
  by (simp_all add: sound_def)

lemma sound_on_ok:
  "sound A E P p r \<Longrightarrow> (\<And>s at. A s \<Longrightarrow> P s \<Longrightarrow> stands p at \<Longrightarrow> sound A E Q p (f s at)) \<Longrightarrow> sound A E Q p (on_ok r f)"
  by (cases r; cases "snd r") auto

lemma sound_octet:
  assumes "stands p at" "A s" "ErrShortPacket \<in> E"
    "\<And>b at'. stands p at' \<Longrightarrow> snd at' = snd at + 1 \<Longrightarrow> sound A E P p (f s (b, fst at'))"
  shows "sound A E P p (on_ok (octet s (fst at)) f)"
proof (cases "snd at < length p")
  case True
  then have "stands p ((p, 8 * Suc (snd at)), snd at + 1)" by (simp add: stands_def)
  then show ?thesis using assms(4) [of "((p, 8 * Suc (snd at)), snd at + 1)"] True by (simp add: octet_stands [OF assms(1)])
qed (use assms in \<open>simp add: octet_stands [OF assms(1)]\<close>)

lemma stands_0 [simp]: "stands p ((p, 0), 0)"
  by (simp add: stands_def)

lemma stands_eq: "stands p at \<Longrightarrow> stands p (fst at, snd at)"
  by simp

text \<open>The bit that announces another octet.\<close>

lemma bit_0x80: "bit (0x80 :: u8) j \<longleftrightarrow> j = 7"
proof -
  have "(0x80 :: u8) = push_bit 7 1" by simp
  then show ?thesis by (auto simp only: bit_push_bit_iff bit_1_iff) auto
qed

lemma or_0x80: "((x :: u8) OR 0x80) AND 0x80 = 0x80"
  by (rule bit_word_eqI; unfold bit_and_iff bit_or_iff bit_0x80; auto)

end
