(* ===== verification/AudioPayload.thy ===== *)
theory AudioPayload imports Payload begin

text \<open>
  The formats that only cut: \<open>packet/opus.rs\<close>, \<open>packet/g7xx.rs\<close> and \<open>packet/null.rs\<close> of str0m.
\<close>

section \<open>Opus\<close>

text \<open>
  The loop moves on by a whole \<open>mtu\<close>, also behind the last fragment. The code's loop has no second condition;
  \<open>opus_packetize\<close> has refused an \<open>mtu\<close> of 0 before, and \<open>0 < mtu\<close> is part of the guard here so that the recursion ends
  for every argument. The same holds for \<open>g7xx_loop\<close> below.
\<close>

function opus_loop :: "nat \<Rightarrow> bytes \<Rightarrow> nat \<Rightarrow> bytes list option" where
  "opus_loop mtu payload cur =
     (if \<not> (cur < length payload \<and> 0 < mtu) then Some []
      else do { f \<leftarrow> slice payload cur (cur + min mtu (length payload - cur));
                fs \<leftarrow> opus_loop mtu payload (cur + mtu); Some (f # fs) })"
  by pat_completeness auto
termination by (relation "measure (\<lambda>(_, payload, cur). length payload - cur)") auto

declare opus_loop.simps [simp del]

definition opus_packetize :: "nat \<Rightarrow> bytes \<Rightarrow> bytes list option" where
  "opus_packetize mtu payload = (if payload = [] \<or> mtu = 0 then Some [] else opus_loop mtu payload 0)"

definition opus_depacketize :: "bytes \<Rightarrow> bytes \<Rightarrow> bytes" where
  "opus_depacketize packet out = (if packet \<noteq> [] then out @ packet else out)"

section \<open>G.711 and G.722\<close>

function g7xx_loop :: "nat \<Rightarrow> bytes \<Rightarrow> nat \<Rightarrow> nat \<Rightarrow> bytes list option" where
  "g7xx_loop mtu payload data_remaining data_index =
     (if \<not> (0 < data_remaining \<and> 0 < mtu) then Some []
      else
        (let current_fragment_size = min mtu data_remaining in
         do { f \<leftarrow> slice payload data_index (data_index + current_fragment_size);
              fs \<leftarrow> g7xx_loop mtu payload (data_remaining - current_fragment_size) (data_index + current_fragment_size);
              Some (f # fs) }))"
  by pat_completeness auto
termination by (relation "measure (\<lambda>(_, _, data_remaining, _). data_remaining)") auto

declare g7xx_loop.simps [simp del]

definition g7xx_packetize :: "nat \<Rightarrow> bytes \<Rightarrow> bytes list option" where
  "g7xx_packetize mtu payload = (if payload = [] \<or> mtu = 0 then Some [] else g7xx_loop mtu payload (length payload) 0)"

section \<open>No format\<close>

definition null_packetize :: "nat \<Rightarrow> bytes \<Rightarrow> bytes list option" where
  "null_packetize mtu b = Some [b]"

definition null_depacketize :: "bytes \<Rightarrow> bytes \<Rightarrow> bytes" where
  "null_depacketize packet out = out @ packet"

section \<open>Both loops cut\<close>

fun pieces :: "bytes list option \<Rightarrow> bytes list" where
  "pieces None = []"
| "pieces (Some fs) = fs"

lemma take_min: "take (min m (length xs)) xs = take m xs"
  by (simp add: min_def)

lemma minus_min: "n - min m n = n - (m :: nat)"
  by simp

lemma opus_loop_at: "0 < m \<Longrightarrow> opus_loop m (pre @ xs) (length pre) = opus_loop m xs 0 \<and> opus_loop m xs 0 \<noteq> None"
proof (induction "length xs" arbitrary: pre xs rule: less_induct)
  case less
  show ?case
  proof (cases "xs = []")
    case True
    then show ?thesis by (simp add: opus_loop.simps)
  next
    case False
    let ?f = "take m xs" and ?r = "drop m xs"
    have ih: "opus_loop m (p @ ?r) (length p) = opus_loop m ?r 0 \<and> opus_loop m ?r 0 \<noteq> None" for p
      using less.hyps [of "drop m xs"] less.prems False by simp
    have at: "opus_loop m (p @ xs) (length p + m) = opus_loop m ?r 0" for p
    proof (cases "m \<le> length xs")
      case True
      then show ?thesis using ih [of "p @ ?f"] by (simp add: append_assoc)
    next
      case False
      then show ?thesis using less.prems by (simp add: opus_loop.simps)
    qed
    have "slice (p @ xs) (length p) (length p + min m (length xs)) = Some ?f" for p
      by (simp add: slice_def take_min)
    then have step: "opus_loop m (p @ xs) (length p) = do { fs \<leftarrow> opus_loop m ?r 0; Some (?f # fs) }" for p
      using False less.prems at [of p] by (subst opus_loop.simps) simp
    show ?thesis using step [of pre] step [of "[]"] ih [of "[]"] by auto
  qed
qed

lemma g7xx_loop_at:
  "0 < m \<Longrightarrow> g7xx_loop m (pre @ xs) (length xs) (length pre) = g7xx_loop m xs (length xs) 0 \<and> g7xx_loop m xs (length xs) 0 \<noteq> None"
proof (induction "length xs" arbitrary: pre xs rule: less_induct)
  case less
  show ?case
  proof (cases "xs = []")
    case True
    then show ?thesis by (simp add: g7xx_loop.simps)
  next
    case False
    let ?f = "take m xs" and ?r = "drop m xs"
    have ih: "g7xx_loop m (p @ ?r) (length ?r) (length p) = g7xx_loop m ?r (length ?r) 0 \<and> g7xx_loop m ?r (length ?r) 0 \<noteq> None" for p
      using less.hyps [of "drop m xs"] less.prems False by simp
    have at: "g7xx_loop m (p @ xs) (length xs - min m (length xs)) (length p + min m (length xs)) = g7xx_loop m ?r (length ?r) 0" for p
      using ih [of "p @ ?f"] by (simp add: min.commute minus_min)
    have "slice (p @ xs) (length p) (length p + min m (length xs)) = Some ?f" for p
      by (simp add: slice_def take_min)
    then have step: "g7xx_loop m (p @ xs) (length xs) (length p) = do { fs \<leftarrow> g7xx_loop m ?r (length ?r) 0; Some (?f # fs) }" for p
      using False less.prems at [of p] by (subst g7xx_loop.simps) (simp add: Let_def)
    show ?thesis using step [of pre] step [of "[]"] ih [of "[]"] by auto
  qed
qed

text \<open>Where the loops stand, the next fragment and the rest of the frame are all that matters.\<close>

lemma opus_loop_step:
  assumes "0 < m" "xs \<noteq> []"
  shows "opus_loop m xs 0 = do { fs \<leftarrow> opus_loop m (drop m xs) 0; Some (take m xs # fs) }"
proof (cases "m \<le> length xs")
  case True
  then have "opus_loop m xs m = opus_loop m (drop m xs) 0" using opus_loop_at [OF assms(1), of "take m xs" "drop m xs"] by simp
  then show ?thesis using assms True by (subst opus_loop.simps) (simp add: slice_def)
next
  case False
  then show ?thesis using assms by (subst opus_loop.simps) (simp add: slice_def opus_loop.simps)
qed

lemma g7xx_loop_step:
  assumes "0 < m" "xs \<noteq> []"
  shows "g7xx_loop m xs (length xs) 0 = do { fs \<leftarrow> g7xx_loop m (drop m xs) (length (drop m xs)) 0; Some (take m xs # fs) }"
proof -
  have "g7xx_loop m xs (length xs - min m (length xs)) (min m (length xs)) = g7xx_loop m (drop m xs) (length (drop m xs)) 0"
    using g7xx_loop_at [OF assms(1), of "take m xs" "drop m xs"] by (simp add: min.commute minus_min)
  then show ?thesis using assms by (subst g7xx_loop.simps) (simp add: Let_def slice_def take_min)
qed

interpretation opus: cutting "\<lambda>m xs. pieces (opus_packetize m xs)"
proof
  fix m :: nat and xs :: bytes assume m: "0 < m" "xs \<noteq> []"
  obtain fs where "opus_loop m (drop m xs) 0 = Some fs" using opus_loop_at [OF m(1), of "[]" "drop m xs"] by auto
  moreover have "opus_packetize m (drop m xs) = opus_loop m (drop m xs) 0"
    using m by (cases "drop m xs = []") (simp_all add: opus_packetize_def opus_loop.simps)
  ultimately show "pieces (opus_packetize m xs) = take m xs # pieces (opus_packetize m (drop m xs))"
    using opus_loop_step [OF m] m by (simp add: opus_packetize_def)
qed (simp add: opus_packetize_def)

interpretation g7xx: cutting "\<lambda>m xs. pieces (g7xx_packetize m xs)"
proof
  fix m :: nat and xs :: bytes assume m: "0 < m" "xs \<noteq> []"
  obtain fs where "g7xx_loop m (drop m xs) (length (drop m xs)) 0 = Some fs" using g7xx_loop_at [OF m(1), of "[]" "drop m xs"] by auto
  moreover have "g7xx_packetize m (drop m xs) = g7xx_loop m (drop m xs) (length (drop m xs)) 0"
    using m by (cases "drop m xs = []") (simp_all add: g7xx_packetize_def g7xx_loop.simps)
  ultimately show "pieces (g7xx_packetize m xs) = take m xs # pieces (g7xx_packetize m (drop m xs))"
    using g7xx_loop_step [OF m] m by (simp add: g7xx_packetize_def)
qed (simp add: g7xx_packetize_def)

lemma opus_packetize_total: "opus_packetize m xs \<noteq> None"
  using opus_loop_at [of m "[]" xs] by (cases "m = 0") (auto simp: opus_packetize_def)

lemma opus_depacketize_all: "fold opus_depacketize fs out = out @ concat fs"
  by (induction fs arbitrary: out) (simp_all add: opus_depacketize_def)

text \<open>
  An Opus frame is cut without a panic into fragments that fit, all but the last of the full size, as many
  as needed, and the fragments read one after the other give the frame.
\<close>

theorem opus_roundtrip:
  assumes "0 < mtu"
  shows "\<exists>fs. opus_packetize mtu frame = Some fs \<and> fold opus_depacketize fs [] = frame
    \<and> list_all (\<lambda>f. length f = mtu) (butlast fs) \<and> list_all (\<lambda>f. length f \<le> mtu) fs
    \<and> length fs = (length frame + mtu - 1) div mtu"
proof -
  obtain fs where fs: "opus_packetize mtu frame = Some fs" using opus_packetize_total by blast
  show ?thesis
    using opus.cut_joins [OF assms, of frame] opus.cut_full [OF assms, of _ frame] opus.cut_sizes [OF assms, of _ frame]
      opus.cut_count [OF assms, of frame]
    by (simp add: fs opus_depacketize_all list_all_iff)
qed

lemma opus_roundtrip_witness:
  "\<exists>fs. opus_packetize 2 [1, 2, 3] = Some fs \<and> fold opus_depacketize fs [] = [1, 2, 3] \<and> length fs = 2"
  using opus_roundtrip [of 2 "[1, 2, 3]"] by auto

text \<open>The two loops cut alike.\<close>

lemma opus_is_g7xx: "0 < m \<Longrightarrow> pieces (opus_packetize m xs) = pieces (g7xx_packetize m xs)"
  by (rule nth_equalityI) (simp_all add: opus.cut_count g7xx.cut_count opus.cut_nth g7xx.cut_nth)

end
