(* ===== verification/H264.thy ===== *)
theory H264 imports Payload begin

text \<open>
  The H.264 payload format, \<open>packet/h264.rs\<close> of the patched str0m: a byte stream of NAL units between start
  codes is cut into RTP payloads (single units, parameter sets in a STAP-A, fragments as FU-A) and put
  together again. \<open>None\<close> is a panic.
\<close>

section \<open>Cutting the stream\<close>

definition NALU_TYPE_BITMASK :: u8 where "NALU_TYPE_BITMASK = 0x1F"

definition NALU_REF_IDC_BITMASK :: u8 where "NALU_REF_IDC_BITMASK = 0x60"

definition ANNEXB_NALUSTART_CODE :: bytes where "ANNEXB_NALUSTART_CODE = [0, 0, 0, 1]"

text \<open>The scan for a start code: two or more zeros and a one. The result is its place and its length.\<close>

fun scan :: "bytes \<Rightarrow> nat \<Rightarrow> nat \<Rightarrow> (nat \<times> nat) option" where
  "scan [] i zero_count = None"
| "scan (b # bs) i zero_count =
     (if b = 0 then scan bs (i + 1) (zero_count + 1)
      else if b = 1 \<and> 2 \<le> zero_count then Some (i - zero_count, zero_count + 1)
      else scan bs (i + 1) 0)"

text \<open>\<open>(-1, -1)\<close> is \<open>None\<close> inside.\<close>

definition next_ind :: "bytes \<Rightarrow> nat \<Rightarrow> (nat \<times> nat) option option" where
  "next_ind nalu start =
     (if length nalu < start then None
      else Some (map_option (\<lambda>(i, n). (start + i, n)) (scan (drop start nalu) 0 0)))"

record h264_packetizer =
  sps_nalu :: "bytes option"
  pps_nalu :: "bytes option"

text \<open>The fragments of a unit; \<open>fresh\<close> says that no fragment has been written yet.\<close>

function fua_loop :: "nat \<Rightarrow> u8 \<Rightarrow> u8 \<Rightarrow> bool \<Rightarrow> bytes \<Rightarrow> bytes list" where
  "fua_loop max_fragment_size nalu_ref_idc nalu_type fresh rest =
     (if rest = [] \<or> max_fragment_size = 0 then []
      else
        (let size = min max_fragment_size (length rest);
             b1 = (if fresh then nalu_type OR push_bit 7 1 else if length rest - size = 0 then nalu_type OR push_bit 6 1 else nalu_type)
         in ((28 OR nalu_ref_idc) # b1 # take size rest) # fua_loop max_fragment_size nalu_ref_idc nalu_type False (drop size rest)))"
  by pat_completeness auto
termination by (relation "measure (\<lambda>(_, _, _, _, rest). length rest)") auto

declare fua_loop.simps [simp del]

definition stap_a :: "bytes \<Rightarrow> bytes \<Rightarrow> bytes" where
  "stap_a sps pps = [0x78] @ to_be16 (of_nat (length sps)) @ sps @ to_be16 (of_nat (length pps)) @ pps"

definition emit_nalu :: "h264_packetizer \<Rightarrow> bytes \<Rightarrow> nat \<Rightarrow> bytes list \<Rightarrow> h264_packetizer \<times> bytes list" where
  "emit_nalu st nalu mtu payloads =
     (case nalu of
        [] \<Rightarrow> (st, payloads)
      | b # data \<Rightarrow>
          (let nalu_type = b AND NALU_TYPE_BITMASK; nalu_ref_idc = b AND NALU_REF_IDC_BITMASK in
           if nalu_type = 9 \<or> nalu_type = 12 then (st, payloads)
           else if nalu_type = 7 then (st\<lparr>sps_nalu := Some nalu\<rparr>, payloads)
           else if nalu_type = 8 then (st\<lparr>pps_nalu := Some nalu\<rparr>, payloads)
           else
             (let (st, payloads) =
                (case (sps_nalu st, pps_nalu st) of
                   (Some sps, Some pps) \<Rightarrow>
                     (\<lparr>sps_nalu = None, pps_nalu = None\<rparr>,
                      if length (stap_a sps pps) \<le> mtu then payloads @ [stap_a sps pps] else payloads)
                 | _ \<Rightarrow> (st, payloads))
              in if length nalu \<le> mtu then (st, payloads @ [nalu])
                 else (st, payloads @ fua_loop (mtu - 2) nalu_ref_idc nalu_type True data))))"

text \<open>The loop over the units; a place and a length of the last start code are carried along.\<close>

lemma scan_range: "scan bs i z = Some (j, n) \<Longrightarrow> z \<le> i \<Longrightarrow> j + n \<le> i + length bs \<and> i < j + n"
  by (induction bs i z rule: scan.induct) (fastforce split: if_splits)+

function packetize_loop :: "bytes \<Rightarrow> nat \<Rightarrow> nat \<Rightarrow> h264_packetizer \<Rightarrow> bytes list \<Rightarrow> (h264_packetizer \<times> bytes list) option" where
  "packetize_loop payload mtu prev_start st payloads =
     (case next_ind payload prev_start of
        None \<Rightarrow> None
      | Some None \<Rightarrow> Some (emit_nalu st (drop prev_start payload) mtu payloads)
      | Some (Some (next_start, next_len)) \<Rightarrow>
          (case slice payload prev_start next_start of
             None \<Rightarrow> None
           | Some nalu \<Rightarrow> (let (st, payloads) = emit_nalu st nalu mtu payloads
               in packetize_loop payload mtu (next_start + next_len) st payloads)))"
  by pat_completeness auto
termination
  by (relation "measure (\<lambda>(payload, _, prev_start, _). length payload - prev_start)")
    (auto simp: next_ind_def split: if_splits dest!: scan_range)

declare packetize_loop.simps [simp del]

definition h264_packetize :: "h264_packetizer \<Rightarrow> nat \<Rightarrow> bytes \<Rightarrow> (h264_packetizer \<times> bytes list) option" where
  "h264_packetize st mtu payload =
     (if payload = [] \<or> mtu = 0 then Some (st, [])
      else case next_ind payload 0 of
        None \<Rightarrow> None
      | Some None \<Rightarrow> Some (emit_nalu st payload mtu [])
      | Some (Some (next_start, next_len)) \<Rightarrow> packetize_loop payload mtu (next_start + next_len) st [])"

section \<open>Putting it together\<close>

record h264_depacketizer =
  is_avc :: bool
  fua_buffer :: "bytes option"

text \<open>The key frame flag of the extra information, when it is of this codec.\<close>

definition keyframe :: "u8 \<Rightarrow> codec_extra \<Rightarrow> codec_extra" where
  "keyframe t extra = H264Extra (t = 5 \<or> (case extra of H264Extra k \<Rightarrow> k | _ \<Rightarrow> False))"

definition nalu_start :: "bool \<Rightarrow> nat \<Rightarrow> bytes" where
  "nalu_start avc n = (if avc then to_be32 (of_nat n) else ANNEXB_NALUSTART_CODE)"

function stap_loop :: "bool \<Rightarrow> bytes \<Rightarrow> nat \<Rightarrow> bytes \<Rightarrow> codec_extra \<Rightarrow> (bytes \<times> codec_extra \<times> (packet_error + unit)) option" where
  "stap_loop avc packet curr_offset out extra =
     (if \<not> curr_offset + 1 < length packet then Some (out, extra, Inr ())
      else
        (let nalu_size = unat (from_be16 (packet ! curr_offset) (packet ! (curr_offset + 1)));
             curr_offset = curr_offset + 2
         in if length packet < curr_offset + nalu_size
            then Some (out, extra, Inl (StapASizeLargerThanBuffer nalu_size (length packet - curr_offset)))
            else case idx packet curr_offset of
                None \<Rightarrow> None
              | Some b0 \<Rightarrow>
                  stap_loop avc packet (curr_offset + nalu_size)
                    (out @ nalu_start avc nalu_size @ take nalu_size (drop curr_offset packet))
                    (keyframe (b0 AND NALU_TYPE_BITMASK) extra)))"
  by pat_completeness auto
termination by (relation "measure (\<lambda>(_, packet, curr_offset, _, _). length packet - curr_offset)") auto

declare stap_loop.simps [simp del]

definition h264_depacketize ::
    "h264_depacketizer \<Rightarrow> bytes \<Rightarrow> bytes \<Rightarrow> codec_extra \<Rightarrow> h264_depacketizer depacked" where
  "h264_depacketize st packet out extra =
     (case packet of
        [] \<Rightarrow> Some (st, out, extra, Inl ErrShortPacket)
      | b0 # rest \<Rightarrow>
          (let nalu_type = b0 AND NALU_TYPE_BITMASK in
           if 1 \<le> nalu_type \<and> nalu_type \<le> 23 then
             Some (st, out @ nalu_start (is_avc st) (length packet) @ packet, keyframe nalu_type extra, Inr ())
           else if nalu_type = 24 then
             map_option (\<lambda>(out, extra, r). (st, out, extra, r)) (stap_loop (is_avc st) packet 1 out extra)
           else if nalu_type = 28 then
             (case rest of
                [] \<Rightarrow> Some (st, out, extra, Inl ErrShortPacket)
              | b1 # data \<Rightarrow>
                  (let buffer = (case fua_buffer st of None \<Rightarrow> [] | Some buf \<Rightarrow> buf) @ data in
                   if b1 AND 0x40 \<noteq> 0 then
                     (let fragmented_nalu_type = b1 AND NALU_TYPE_BITMASK
                      in Some (st\<lparr>fua_buffer := None\<rparr>,
                               out @ nalu_start (is_avc st) (length buffer + 1)
                                 @ [b0 AND NALU_REF_IDC_BITMASK OR fragmented_nalu_type] @ buffer,
                               keyframe fragmented_nalu_type extra, Inr ()))
                   else Some (st\<lparr>fua_buffer := Some buffer\<rparr>, out, extra, Inr ())))
           else Some (st, out, extra, Inl (NaluTypeIsNotHandled nalu_type))))"

definition h264_is_partition_head :: "bytes \<Rightarrow> bool" where
  "h264_is_partition_head packet =
     (case packet of
        b0 # b1 # _ \<Rightarrow>
          if b0 AND NALU_TYPE_BITMASK = 28 \<or> b0 AND NALU_TYPE_BITMASK = 29 then b1 AND 0x80 \<noteq> 0 else True
      | _ \<Rightarrow> False)"

section \<open>Units of a stream\<close>

text \<open>A unit that ends in no zero and has no start code inside, and a stream of such units behind start codes.\<close>

definition clean_nalu :: "bytes \<Rightarrow> bool" where
  "clean_nalu n \<longleftrightarrow> n \<noteq> [] \<and> List.last n \<noteq> 0 \<and> scan n 0 0 = None"

definition stream :: "(nat \<times> bytes) list \<Rightarrow> bytes" where
  "stream units = concat (map (\<lambda>(z, n). replicate z 0 @ 1 # n) units)"

lemma scan_clean_append:
  "scan n i z = None \<Longrightarrow> n \<noteq> [] \<Longrightarrow> List.last n \<noteq> 0 \<Longrightarrow> scan (n @ xs) i z = scan xs (i + length n) 0"
proof (induction n arbitrary: i z)
  case (Cons b n)
  then show ?case by (cases "n = []") (auto split: if_splits)
qed simp

lemma scan_zeros: "scan (replicate k 0 @ xs) i z = scan xs (i + k) (z + k)"
  by (induction k arbitrary: i z) (simp_all add: add.commute)

lemma scan_code: "2 \<le> k \<Longrightarrow> scan (replicate k 0 @ 1 # xs) i 0 = Some (i, k + 1)"
  by (simp add: scan_zeros)

lemma scan_unit: "clean_nalu n \<Longrightarrow> 2 \<le> k \<Longrightarrow> scan (n @ replicate k 0 @ 1 # xs) 0 0 = Some (length n, k + 1)"
  using scan_clean_append [of n 0 0 "replicate k 0 @ 1 # xs"] by (simp add: clean_nalu_def scan_code)

fun emit_all :: "h264_packetizer \<Rightarrow> nat \<Rightarrow> bytes list \<Rightarrow> bytes list \<Rightarrow> h264_packetizer \<times> bytes list" where
  "emit_all st mtu [] payloads = (st, payloads)"
| "emit_all st mtu (n # ns) payloads = (let (st, payloads) = emit_nalu st n mtu payloads in emit_all st mtu ns payloads)"

lemma packetize_units:
  assumes "list_all (\<lambda>(z, n). 2 \<le> z \<and> clean_nalu n) units" "clean_nalu n"
  shows "packetize_loop (pre @ n @ stream units) mtu (length pre) st payloads = Some (emit_all st mtu (n # map snd units) payloads)"
  using assms
proof (induction units arbitrary: pre n st payloads)
  case Nil
  then show ?case by (subst packetize_loop.simps) (simp add: next_ind_def stream_def clean_nalu_def Let_def split: prod.splits)
next
  case (Cons u units)
  obtain z m where u: "u = (z, m)" by (cases u) auto
  with Cons.prems have z: "2 \<le> z" "clean_nalu m" and us: "list_all (\<lambda>(z, n). 2 \<le> z \<and> clean_nalu n) units" by simp_all
  have s: "stream (u # units) = replicate z 0 @ 1 # m @ stream units" by (simp add: stream_def u)
  obtain st' ps where e: "emit_nalu st n mtu payloads = (st', ps)" by fastforce
  have n: "next_ind (pre @ n @ stream (u # units)) (length pre) = Some (Some (length pre + length n, z + 1))"
    using scan_unit [OF Cons.prems(2) z(1)] by (simp add: next_ind_def s)
  have sl: "slice (pre @ n @ stream (u # units)) (length pre) (length pre + length n) = Some n" by (rule slice_middle)
  have "packetize_loop (pre @ n @ stream (u # units)) mtu (length pre) st payloads
    = packetize_loop (pre @ n @ stream (u # units)) mtu (length pre + length n + (z + 1)) st' ps"
    using n sl e by (subst packetize_loop.simps) simp
  also have "\<dots> = Some (emit_all st' mtu (m # map snd units) ps)"
  proof -
    have "(pre @ n @ replicate z 0 @ [1]) @ m @ stream units = pre @ n @ stream (u # units)"
      "length (pre @ n @ replicate z 0 @ [1]) = length pre + length n + (z + 1)" by (simp_all add: s)
    then show ?thesis using Cons.IH [OF us z(2), of "pre @ n @ replicate z 0 @ [1]" st' ps] by metis
  qed
  finally show ?case using e by (simp add: u)
qed

lemma packetize_stream:
  assumes "list_all (\<lambda>(z, n). 2 \<le> z \<and> clean_nalu n) units" "units \<noteq> []" "mtu \<noteq> 0"
  shows "h264_packetize st mtu (stream units) = Some (emit_all st mtu (map snd units) [])"
proof -
  obtain z n us where u: "units = (z, n) # us" using assms(2) by (cases units) auto
  with assms(1) have z: "2 \<le> z" "clean_nalu n" "list_all (\<lambda>(z, n). 2 \<le> z \<and> clean_nalu n) us" by simp_all
  have s: "stream units = replicate z 0 @ 1 # n @ stream us" by (simp add: stream_def u)
  have "next_ind (stream units) 0 = Some (Some (0, z + 1))" using z(1) by (simp add: next_ind_def s scan_code)
  moreover have "packetize_loop ((replicate z 0 @ [1]) @ n @ stream us) mtu (length (replicate z 0 @ [1] :: bytes)) st []
    = Some (emit_all st mtu (n # map snd us) [])" by (rule packetize_units [OF z(3,2)])
  moreover have "(replicate z 0 @ [1]) @ n @ stream us = stream units" "stream units \<noteq> []" by (simp_all add: s)
  ultimately show ?thesis using assms(3) by (simp add: h264_packetize_def u)
qed

section \<open>Sizes\<close>

lemma fua_loop_fits: "p \<in> set (fua_loop m r t f rest) \<Longrightarrow> length p \<le> m + 2"
proof (induction m r t f rest rule: fua_loop.induct)
  case (1 m r t f rest)
  show ?case
  proof (cases "rest = [] \<or> m = 0")
    case False
    then show ?thesis using 1 by (subst (asm) (2) fua_loop.simps) (auto simp: Let_def)
  qed (use 1 in \<open>simp add: fua_loop.simps\<close>)
qed

lemma fua_loop_0 [simp]: "fua_loop 0 r t f rest = []"
  by (simp add: fua_loop.simps)

lemma emit_fits:
  assumes "emit_nalu st n mtu ps = (st', ps')" "\<forall>p\<in>set ps. length p \<le> mtu"
  shows "\<forall>p\<in>set ps'. length p \<le> mtu"
proof -
  have fua: "length p \<le> mtu" if "p \<in> set (fua_loop (mtu - 2) r t f rest)" for p r t f rest
    using fua_loop_fits [OF that] that by (cases "mtu \<le> 2") auto
  show ?thesis using assms fua
    by (auto simp: emit_nalu_def Let_def split: list.splits option.splits if_splits)
qed

lemma emit_all_fits: "emit_all st mtu ns ps = (st', ps') \<Longrightarrow> \<forall>p\<in>set ps. length p \<le> mtu \<Longrightarrow> \<forall>p\<in>set ps'. length p \<le> mtu"
proof (induction ns arbitrary: st ps)
  case (Cons n ns)
  obtain st1 ps1 where "emit_nalu st n mtu ps = (st1, ps1)" by fastforce
  then show ?case using Cons emit_fits by (metis emit_all.simps(2) case_prod_conv Let_def)
qed simp

section \<open>One unit there and back\<close>

definition nalu_type :: "bytes \<Rightarrow> u8" where "nalu_type n = hd n AND NALU_TYPE_BITMASK"

text \<open>A unit that may travel: a type of its own, and the forbidden bit clear.\<close>

definition plain_nalu :: "bytes \<Rightarrow> bool" where
  "plain_nalu n \<longleftrightarrow> n \<noteq> [] \<and> 1 \<le> nalu_type n \<and> nalu_type n \<le> 23 \<and> \<not> bit (hd n) 7"

definition written :: "bool \<Rightarrow> bytes \<Rightarrow> bytes" where
  "written avc n = nalu_start avc (length n) @ n"

lemma type_bits: "bit (x AND NALU_TYPE_BITMASK) j \<longleftrightarrow> bit x j \<and> j < 5" "bit (x AND NALU_REF_IDC_BITMASK) j \<longleftrightarrow> bit x j \<and> (j = 5 \<or> j = 6)"
proof -
  have m: "NALU_TYPE_BITMASK = mask 5" by (simp add: NALU_TYPE_BITMASK_def mask_eq_exp_minus_1)
  show "bit (x AND NALU_TYPE_BITMASK) j \<longleftrightarrow> bit x j \<and> j < 5"
    unfolding m bit_and_iff bit_mask_iff by auto
  have m2: "NALU_REF_IDC_BITMASK = push_bit 5 (mask 2)" by (simp add: NALU_REF_IDC_BITMASK_def mask_eq_exp_minus_1)
  show "bit (x AND NALU_REF_IDC_BITMASK) j \<longleftrightarrow> bit x j \<and> (j = 5 \<or> j = 6)"
    unfolding m2 bit_and_iff bit_push_bit_iff bit_mask_iff by (auto dest: bit_imp_le_length)
qed

lemma bit_28: "bit (28 :: u8) j \<longleftrightarrow> j = 2 \<or> j = 3 \<or> j = 4"
proof -
  have "(28 :: u8) = push_bit 2 (mask 3)" by (simp add: mask_eq_exp_minus_1)
  then show ?thesis by (auto simp only: bit_push_bit_iff bit_mask_iff) auto
qed

lemma fu_indicator:
  "(28 OR (x AND NALU_REF_IDC_BITMASK)) AND NALU_TYPE_BITMASK = 28"
  "(28 OR (x AND NALU_REF_IDC_BITMASK)) AND NALU_REF_IDC_BITMASK = x AND NALU_REF_IDC_BITMASK"
  by (rule bit_word_eqI; unfold bit_or_iff type_bits bit_28; auto)+

lemma fu_header:
  "((x AND NALU_TYPE_BITMASK) OR 0x40) AND NALU_TYPE_BITMASK = x AND NALU_TYPE_BITMASK"
  "((x AND NALU_TYPE_BITMASK) OR 0x40) AND 0x40 \<noteq> 0"
  "((x AND NALU_TYPE_BITMASK) OR 0x80) AND 0x40 = 0" "(x AND NALU_TYPE_BITMASK) AND 0x40 = 0"
proof -
  have "(0x40 :: u8) = push_bit 6 1" "(0x80 :: u8) = push_bit 7 1" by simp_all
  then have b: "bit (0x40 :: u8) j \<longleftrightarrow> j = 6" "bit (0x80 :: u8) j \<longleftrightarrow> j = 7" for j
    by (auto simp only: bit_push_bit_iff bit_1_iff) auto
  show "((x AND NALU_TYPE_BITMASK) OR 0x40) AND NALU_TYPE_BITMASK = x AND NALU_TYPE_BITMASK"
    by (rule bit_word_eqI; unfold bit_or_iff type_bits b; auto)
  have "bit (((x AND NALU_TYPE_BITMASK) OR 0x40) AND 0x40) 6" unfolding bit_and_iff bit_or_iff b by simp
  moreover have "\<not> bit (0 :: u8) 6" by simp
  ultimately show "((x AND NALU_TYPE_BITMASK) OR 0x40) AND 0x40 \<noteq> 0" by metis
  show "((x AND NALU_TYPE_BITMASK) OR 0x80) AND 0x40 = 0" "(x AND NALU_TYPE_BITMASK) AND 0x40 = 0"
    by (rule bit_word_eqI; unfold bit_and_iff [of _ "0x40"] bit_or_iff type_bits b; auto)+
qed

lemma nalu_header: "\<not> bit x 7 \<Longrightarrow> (x AND NALU_REF_IDC_BITMASK) OR (x AND NALU_TYPE_BITMASK) = x"
proof (rule bit_word_eqI)
  fix j :: nat assume "\<not> bit x 7" "j < LENGTH(8)"
  moreover from this have "j < 5 \<or> j = 5 \<or> j = 6 \<or> j = 7" by auto
  ultimately show "bit ((x AND NALU_REF_IDC_BITMASK) OR (x AND NALU_TYPE_BITMASK)) j = bit x j"
    unfolding bit_or_iff type_bits by auto
qed

text \<open>The middle fragments only fill the buffer; the last one completes the unit.\<close>

lemma fua_tail:
  assumes "rest \<noteq> []" "0 < m" "\<not> bit b 7"
  shows "depack_all h264_depacketize \<lparr>is_avc = avc, fua_buffer = Some buf\<rparr> (fua_loop m (b AND NALU_REF_IDC_BITMASK) (b AND NALU_TYPE_BITMASK) False rest) out extra
    = Some (\<lparr>is_avc = avc, fua_buffer = None\<rparr>, out @ written avc (b # buf @ rest), keyframe (b AND NALU_TYPE_BITMASK) extra, Inr ())"
  using assms(1)
proof (induction "length rest" arbitrary: rest buf rule: less_induct)
  case less
  define size where "size = min m (length rest)"
  have head: "1 \<le> (28 :: u8) \<and> (28 :: u8) \<le> 23 \<longleftrightarrow> False" "(28 :: u8) \<noteq> 24" by simp_all
  show ?case
  proof (cases "length rest - size = 0")
    case True
    then have t: "take size rest = rest" "drop size rest = []" by simp_all
    then show ?thesis using less.prems assms(2,3) True
      by (subst fua_loop.simps) (simp add: Let_def size_def [symmetric] fua_loop.simps [of m _ _ False "[]"]
          h264_depacketize_def fu_indicator fu_header nalu_header head written_def)
  next
    case False
    then have d: "drop size rest \<noteq> []" "length (drop size rest) < length rest" using less.prems assms(2) by (auto simp: size_def)
    note ih = less.hyps [OF d(2,1), of "buf @ take size rest"]
    show ?thesis using less.prems assms(2) False ih
      by (subst fua_loop.simps) (simp add: Let_def size_def [symmetric] h264_depacketize_def fu_indicator fu_header head)
  qed
qed

lemma fua_unit:
  assumes "m < length data" "0 < m" "\<not> bit b 7"
  shows "depack_all h264_depacketize \<lparr>is_avc = avc, fua_buffer = None\<rparr> (fua_loop m (b AND NALU_REF_IDC_BITMASK) (b AND NALU_TYPE_BITMASK) True data) out extra
    = Some (\<lparr>is_avc = avc, fua_buffer = None\<rparr>, out @ written avc (b # data), keyframe (b AND NALU_TYPE_BITMASK) extra, Inr ())"
proof -
  have head: "1 \<le> (28 :: u8) \<and> (28 :: u8) \<le> 23 \<longleftrightarrow> False" "(28 :: u8) \<noteq> 24" by simp_all
  have "drop m data \<noteq> []" "min m (length data) = m" "data \<noteq> []" using assms(1) by auto
  then show ?thesis
    using fua_tail [OF _ assms(2,3), of "drop m data" avc "take m data" out extra] assms(2)
    by (subst fua_loop.simps) (simp add: Let_def h264_depacketize_def fu_indicator fu_header head)
qed

lemma single_unit:
  "plain_nalu n \<Longrightarrow> h264_depacketize st n out extra = Some (st, out @ written (is_avc st) n, keyframe (nalu_type n) extra, Inr ())"
  by (cases n) (simp_all add: h264_depacketize_def plain_nalu_def nalu_type_def written_def Let_def)

lemma stap_entry:
  assumes "n \<noteq> []" "length n < 65536"
  shows "stap_loop avc (pre @ to_be16 (of_nat (length n)) @ n @ rest) (length pre) out extra
    = stap_loop avc (pre @ to_be16 (of_nat (length n)) @ n @ rest) (length (pre @ to_be16 (of_nat (length n)) @ n))
        (out @ written avc n) (keyframe (nalu_type n) extra)"
proof -
  let ?p = "pre @ to_be16 (of_nat (length n)) @ n @ rest"
  have "unat (of_nat (length n) :: u16) = length n" using assms(2) by (simp add: unsigned_of_nat take_bit_nat_eq_self)
  then have size: "unat (from_be16 (?p ! length pre) (?p ! (length pre + 1))) = length n"
    by (simp add: nth_append to_be16_def)
  have "idx ?p (length pre + 2) = Some (hd n)" using assms(1) by (cases n) (simp_all add: idx_def nth_append)
  moreover have "take (length n) (drop (length pre + 2) ?p) = n" by simp
  ultimately show ?thesis
    using assms(1) by (subst stap_loop.simps, subst size) (simp add: Let_def written_def nalu_type_def add.assoc)
qed

lemma stap_unit:
  assumes "sps \<noteq> []" "pps \<noteq> []" "length sps < 65536" "length pps < 65536"
  shows "h264_depacketize st (stap_a sps pps) out extra
    = Some (st, out @ written (is_avc st) sps @ written (is_avc st) pps, keyframe (nalu_type pps) (keyframe (nalu_type sps) extra), Inr ())"
proof -
  let ?a = "[0x78] @ to_be16 (of_nat (length sps)) @ sps" and ?b = "to_be16 (of_nat (length pps)) @ pps"
  have ab: "stap_a sps pps = [0x78] @ to_be16 (of_nat (length sps)) @ sps @ ?b" "stap_a sps pps = ?a @ to_be16 (of_nat (length pps)) @ pps @ []"
    by (simp_all add: stap_a_def)
  have "stap_loop avc (stap_a sps pps) 1 out extra
      = stap_loop avc (stap_a sps pps) (length ?a) (out @ written avc sps) (keyframe (nalu_type sps) extra)" for avc
    using stap_entry [OF assms(1,3), of avc "[0x78]" ?b out extra] unfolding ab(1) [symmetric] by simp
  also have "\<dots> avc = stap_loop avc (stap_a sps pps) (length (?a @ ?b)) ((out @ written avc sps) @ written avc pps)
      (keyframe (nalu_type pps) (keyframe (nalu_type sps) extra))" for avc
    using stap_entry [OF assms(2,4), of avc ?a "[]" "out @ written avc sps" "keyframe (nalu_type sps) extra"]
    unfolding ab(2) [symmetric] by simp
  finally have "stap_loop avc (stap_a sps pps) 1 out extra
      = Some (out @ written avc sps @ written avc pps, keyframe (nalu_type pps) (keyframe (nalu_type sps) extra), Inr ())" for avc
    by (subst (asm) stap_loop.simps) (simp add: stap_a_def)
  moreover have "(0x78 :: u8) AND NALU_TYPE_BITMASK = 24" by (simp add: NALU_TYPE_BITMASK_def)
  ultimately show ?thesis by (simp add: h264_depacketize_def stap_a_def Let_def)
qed

section \<open>A stream there and back\<close>

text \<open>
  What a receiver is to get: no delimiters and no filler, and the parameter sets held back until the next
  slice, in front of which they travel together - or not at all, when the pair of them does not fit.
\<close>

fun delivered :: "nat \<Rightarrow> bytes option \<Rightarrow> bytes option \<Rightarrow> bytes list \<Rightarrow> bytes list" where
  "delivered mtu sps pps [] = []"
| "delivered mtu sps pps (n # ns) =
     (if nalu_type n = 9 \<or> nalu_type n = 12 then delivered mtu sps pps ns
      else if nalu_type n = 7 then delivered mtu (Some n) pps ns
      else if nalu_type n = 8 then delivered mtu sps (Some n) ns
      else case (sps, pps) of
          (Some s, Some p) \<Rightarrow> (if length s + length p + 5 \<le> mtu then [s, p] else []) @ n # delivered mtu None None ns
        | _ \<Rightarrow> n # delivered mtu sps pps ns)"

definition sees :: "bytes list \<Rightarrow> codec_extra \<Rightarrow> codec_extra" where
  "sees ns extra = fold (\<lambda>n. keyframe (nalu_type n)) ns extra"

lemma sees_simps [simp]: "sees [] e = e" "sees (n # ns) e = sees ns (keyframe (nalu_type n) e)" "sees (ns @ ms) e = sees ms (sees ns e)"
  by (simp_all add: sees_def)

abbreviation receives :: "bool \<Rightarrow> bytes list \<Rightarrow> bytes list \<Rightarrow> bool" where
  "receives avc qs ns \<equiv> \<forall>out extra. depack_all h264_depacketize \<lparr>is_avc = avc, fua_buffer = None\<rparr> qs out extra
     = Some (\<lparr>is_avc = avc, fua_buffer = None\<rparr>, out @ concat (map (written avc) ns), sees ns extra, Inr ())"

lemma receives_append:
  assumes "receives avc qs ns" "receives avc rs ms"
  shows "receives avc (qs @ rs) (ns @ ms)"
proof (intro allI)
  fix out extra
  let ?st = "\<lparr>is_avc = avc, fua_buffer = None\<rparr>"
  have "depack_all h264_depacketize ?st (qs @ rs) out extra
      = depack_all h264_depacketize ?st rs (out @ concat (map (written avc) ns)) (sees ns extra)"
    using assms(1) by (intro depack_all_append) blast
  also have "\<dots> = Some (?st, (out @ concat (map (written avc) ns)) @ concat (map (written avc) ms), sees ms (sees ns extra), Inr ())"
    using assms(2) by blast
  finally show "depack_all h264_depacketize ?st (qs @ rs) out extra
      = Some (?st, out @ concat (map (written avc) (ns @ ms)), sees (ns @ ms) extra, Inr ())" by simp
qed

lemma receives_Nil: "receives avc [] []"
  by simp

text \<open>The payloads of one slice, whole or in fragments.\<close>

definition slice_payloads :: "nat \<Rightarrow> bytes \<Rightarrow> bytes list" where
  "slice_payloads mtu n = (if length n \<le> mtu then [n]
     else fua_loop (mtu - 2) (hd n AND NALU_REF_IDC_BITMASK) (nalu_type n) True (tl n))"

lemma receives_slice: "plain_nalu n \<Longrightarrow> 3 \<le> mtu \<Longrightarrow> receives avc (slice_payloads mtu n) [n]"
proof (intro allI)
  fix out extra assume n: "plain_nalu n" "3 \<le> mtu"
  then obtain b data where b: "n = b # data" "\<not> bit b 7" by (cases n) (auto simp: plain_nalu_def)
  show "depack_all h264_depacketize \<lparr>is_avc = avc, fua_buffer = None\<rparr> (slice_payloads mtu n) out extra
     = Some (\<lparr>is_avc = avc, fua_buffer = None\<rparr>, out @ concat (map (written avc) [n]), sees [n] extra, Inr ())"
    using single_unit [OF n(1)] fua_unit [of "mtu - 2" data b avc out extra] b n(2)
    by (cases "length n \<le> mtu") (simp_all add: slice_payloads_def nalu_type_def)
qed

lemma receives_sets:
  assumes "plain_nalu s" "plain_nalu p" "length s + length p + 5 \<le> mtu" "mtu < 65536"
  shows "receives avc [stap_a s p] [s, p]"
  using assms stap_unit [of s p] by (simp add: plain_nalu_def)

lemma length_stap_a: "length (stap_a s p) = length s + length p + 5"
  by (simp add: stap_a_def to_be16_def)

lemma emit_slice:
  assumes "plain_nalu n" "nalu_type n \<notin> {7, 8, 9, 12}"
  shows "emit_nalu st n mtu ps =
     (case (sps_nalu st, pps_nalu st) of
        (Some s, Some p) \<Rightarrow> (\<lparr>sps_nalu = None, pps_nalu = None\<rparr>,
           ps @ (if length s + length p + 5 \<le> mtu then [stap_a s p] else []) @ slice_payloads mtu n)
      | _ \<Rightarrow> (st, ps @ slice_payloads mtu n))"
  using assms
  by (cases n; cases "sps_nalu st"; cases "pps_nalu st")
    (simp_all add: emit_nalu_def plain_nalu_def nalu_type_def slice_payloads_def length_stap_a)

definition held :: "bytes option \<Rightarrow> bool" where
  "held u = (case u of None \<Rightarrow> True | Some n \<Rightarrow> plain_nalu n)"

lemma emit_all_received:
  assumes "list_all plain_nalu ns" "held (sps_nalu st)" "held (pps_nalu st)" "3 \<le> mtu" "mtu < 65536"
  shows "\<exists>st' qs. emit_all st mtu ns ps = (st', ps @ qs) \<and> receives avc qs (delivered mtu (sps_nalu st) (pps_nalu st) ns)"
  using assms(1-3)
proof (induction ns arbitrary: st ps)
  case (Cons n ns)
  then have n: "plain_nalu n" by simp
  then obtain b data where nb: "n = b # data" by (cases n) (auto simp: plain_nalu_def)
  show ?case
  proof (cases "nalu_type n \<in> {7, 8, 9, 12}")
    case True
    then obtain st1 where e: "emit_nalu st n mtu ps = (st1, ps)" "held (sps_nalu st1)" "held (pps_nalu st1)"
      "delivered mtu (sps_nalu st) (pps_nalu st) (n # ns) = delivered mtu (sps_nalu st1) (pps_nalu st1) ns"
      using Cons.prems n by (fastforce simp: emit_nalu_def nb nalu_type_def held_def)
    then show ?thesis using Cons.IH [of st1 ps] Cons.prems(1) by simp
  next
    case False
    note em = emit_slice [OF n False, of st mtu ps] and sl = receives_slice [OF n assms(4), of avc]
    show ?thesis
    proof (cases "\<exists>s p. sps_nalu st = Some s \<and> pps_nalu st = Some p")
      case True
      then obtain s p where sp: "sps_nalu st = Some s" "pps_nalu st = Some p" by blast
      define front where "front = (if length s + length p + 5 \<le> mtu then [stap_a s p] else [])"
      have fr: "receives avc front (if length s + length p + 5 \<le> mtu then [s, p] else [])"
        using receives_sets [of s p mtu avc] Cons.prems(2,3) assms(5) by (simp add: front_def sp held_def)
      obtain st' qs where ih: "emit_all \<lparr>sps_nalu = None, pps_nalu = None\<rparr> mtu ns (ps @ front @ slice_payloads mtu n)
          = (st', (ps @ front @ slice_payloads mtu n) @ qs)" "receives avc qs (delivered mtu None None ns)"
        using Cons.IH [of "\<lparr>sps_nalu = None, pps_nalu = None\<rparr>"] Cons.prems(1) by (fastforce simp: held_def)
      have "emit_all st mtu (n # ns) ps = (st', ps @ (front @ slice_payloads mtu n @ qs))"
        using em ih(1) by (simp add: sp front_def)
      moreover have "receives avc (front @ slice_payloads mtu n @ qs) (delivered mtu (sps_nalu st) (pps_nalu st) (n # ns))"
        using receives_append [OF fr receives_append [OF sl ih(2)]] False by (simp add: sp)
      ultimately show ?thesis by blast
    next
      case none: False
      obtain st' qs where ih: "emit_all st mtu ns (ps @ slice_payloads mtu n) = (st', (ps @ slice_payloads mtu n) @ qs)"
        "receives avc qs (delivered mtu (sps_nalu st) (pps_nalu st) ns)"
        using Cons.IH [of st] Cons.prems by fastforce
      have "emit_all st mtu (n # ns) ps = (st', ps @ (slice_payloads mtu n @ qs))"
        using em ih(1) none by (auto split: option.splits)
      moreover have "receives avc (slice_payloads mtu n @ qs) (delivered mtu (sps_nalu st) (pps_nalu st) (n # ns))"
        using receives_append [OF sl ih(2)] False none by (auto split: option.splits)
      ultimately show ?thesis by blast
    qed
  qed
qed simp

lemma sees_keyframe: "sees ns e = (if ns = [] then e else H264Extra (e = H264Extra True \<or> 5 \<in> nalu_type ` set ns))"
  by (induction ns arbitrary: e) (auto simp: keyframe_def split: codec_extra.splits if_splits)

lemma packetize_loop_fits:
  assumes "prev \<le> length payload" "\<forall>q\<in>set ps. length q \<le> mtu"
  shows "\<exists>st' qs. packetize_loop payload mtu prev st ps = Some (st', qs) \<and> (\<forall>q\<in>set qs. length q \<le> mtu)"
  using assms
proof (induction "length payload - prev" arbitrary: prev st ps rule: less_induct)
  case less
  show ?case
  proof (cases "scan (drop prev payload) 0 0")
    case None
    obtain st' qs where "emit_nalu st (drop prev payload) mtu ps = (st', qs)" by fastforce
    then show ?thesis using None less.prems emit_fits [OF _ less.prems(2)]
      by (subst packetize_loop.simps) (simp add: next_ind_def)
  next
    case (Some p)
    obtain j k where p: "p = (j, k)" by (cases p)
    then have jk: "j + k \<le> length payload - prev" "0 < j + k" using Some scan_range [of "drop prev payload" 0 0 j k] by auto
    obtain st1 ps1 where e: "emit_nalu st (take j (drop prev payload)) mtu ps = (st1, ps1)" by fastforce
    have "slice payload prev (prev + j) = Some (take j (drop prev payload))" using jk less.prems(1) by (simp add: slice_def)
    then have "packetize_loop payload mtu prev st ps = packetize_loop payload mtu (prev + j + k) st1 ps1"
      using Some p e less.prems(1) by (subst packetize_loop.simps) (simp add: next_ind_def)
    moreover have "length payload - (prev + j + k) < length payload - prev" "prev + j + k \<le> length payload" using jk less.prems(1) by auto
    ultimately show ?thesis using less.hyps [OF _ _ emit_fits [OF e less.prems(2)], of "prev + j + k"] by simp
  qed
qed

lemma h264_packetize_fits:
  "\<exists>st' qs. h264_packetize st mtu payload = Some (st', qs) \<and> list_all (\<lambda>q. length q \<le> mtu) qs"
proof (cases "payload = [] \<or> mtu = 0")
  case False
  show ?thesis
  proof (cases "scan payload 0 0")
    case None
    obtain st' qs where "emit_nalu st payload mtu [] = (st', qs)" by fastforce
    then show ?thesis using None False emit_fits [of st payload mtu "[]" st' qs]
      by (simp add: h264_packetize_def next_ind_def list_all_iff)
  next
    case (Some p)
    obtain j k where p: "p = (j, k)" by (cases p)
    then have "j + k \<le> length payload" using Some scan_range [of payload 0 0 j k] by auto
    then show ?thesis using Some p False packetize_loop_fits [of "j + k" payload "[]" mtu st]
      by (simp add: h264_packetize_def next_ind_def list_all_iff)
  qed
qed (simp add: h264_packetize_def)

text \<open>C7. A stream of whole units, cut into payloads and put together again, gives the units it is to deliver, in
  order, each behind its own start code or length; the flag says whether one of them starts a new picture sequence. No
  payload is longer than \<open>mtu\<close>, a number from 3 to 65535.
\<close>

theorem h264_roundtrip:
  assumes "list_all (\<lambda>(z, n). 2 \<le> z \<and> clean_nalu n \<and> plain_nalu n) units" "units \<noteq> []" "3 \<le> mtu" "mtu < 65536"
    "ns = delivered mtu None None (map snd units)"
  shows "\<exists>st' qs. h264_packetize \<lparr>sps_nalu = None, pps_nalu = None\<rparr> mtu (stream units) = Some (st', qs)
    \<and> list_all (\<lambda>q. length q \<le> mtu) qs
    \<and> depack_all h264_depacketize \<lparr>is_avc = avc, fua_buffer = None\<rparr> qs [] NoExtra
      = Some (\<lparr>is_avc = avc, fua_buffer = None\<rparr>, concat (map (written avc) ns),
          if ns = [] then NoExtra else H264Extra (5 \<in> nalu_type ` set ns), Inr ())"
proof -
  have c: "list_all (\<lambda>(z, n). 2 \<le> z \<and> clean_nalu n) units" "list_all plain_nalu (map snd units)"
    using assms(1) by (auto simp: list_all_iff)
  have "\<exists>st' qs. h264_packetize \<lparr>sps_nalu = None, pps_nalu = None\<rparr> mtu (stream units) = Some (st', qs)
    \<and> depack_all h264_depacketize \<lparr>is_avc = avc, fua_buffer = None\<rparr> qs [] NoExtra
      = Some (\<lparr>is_avc = avc, fua_buffer = None\<rparr>, concat (map (written avc) ns),
          if ns = [] then NoExtra else H264Extra (5 \<in> nalu_type ` set ns), Inr ())"
    using packetize_stream [OF c(1) assms(2), of mtu] assms(3,5)
      emit_all_received [OF c(2), of "\<lparr>sps_nalu = None, pps_nalu = None\<rparr>" mtu "[]" avc, OF _ _ assms(3,4)]
    by (fastforce simp: held_def sees_keyframe)
  then show ?thesis using h264_packetize_fits [of "\<lparr>sps_nalu = None, pps_nalu = None\<rparr>" mtu "stream units"] by auto
qed

lemma h264_roundtrip_witness:
  "\<exists>st' qs. h264_packetize \<lparr>sps_nalu = None, pps_nalu = None\<rparr> 9 (stream [(3, [0x67, 1]), (3, [0x68, 2]), (2, [0x65, 0, 1, 0, 0, 3, 0, 2, 2, 2, 4])]) = Some (st', qs)
    \<and> list_all (\<lambda>q. length q \<le> 9) qs
    \<and> depack_all h264_depacketize \<lparr>is_avc = False, fua_buffer = None\<rparr> qs [] NoExtra
      = Some (\<lparr>is_avc = False, fua_buffer = None\<rparr>, [0, 0, 0, 1, 0x67, 1, 0, 0, 0, 1, 0x68, 2, 0, 0, 0, 1, 0x65, 0, 1, 0, 0, 3, 0, 2, 2, 2, 4],
          H264Extra True, Inr ())"
proof -
  let ?u = "[(3, [0x67, 1]), (3, [0x68, 2]), (2, [0x65, 0, 1, 0, 0, 3, 0, 2, 2, 2, 4])] :: (nat \<times> bytes) list"
  have "list_all (\<lambda>(z, n). 2 \<le> z \<and> clean_nalu n \<and> plain_nalu n) ?u"
    by code_simp
  moreover have "delivered 9 None None (map snd ?u) = map snd ?u" by code_simp
  moreover have "concat (map (written False) (map snd ?u)) = [0, 0, 0, 1, 0x67, 1, 0, 0, 0, 1, 0x68, 2, 0, 0, 0, 1, 0x65, 0, 1, 0, 0, 3, 0, 2, 2, 2, 4]"
    "5 \<in> nalu_type ` set (map snd ?u)" by code_simp+
  ultimately show ?thesis using h264_roundtrip [of ?u 9 "map snd ?u" False] by simp
qed

text \<open>
  An aggregation packet that ends in an entry of no bytes panics, whatever well-formed entries stand before it:
  the type of the missing unit is read behind the end of the packet.
\<close>

theorem h264_empty_entry_panics:
  assumes "list_all (\<lambda>n. n \<noteq> [] \<and> length n < 65536) units"
  shows "h264_depacketize st ([0x78] @ concat (map (\<lambda>n. to_be16 (of_nat (length n)) @ n) units) @ [0, 0]) out extra = None"
proof -
  have "stap_loop avc (pre @ concat (map (\<lambda>n. to_be16 (of_nat (length n)) @ n) units) @ [0, 0]) (length pre) out extra = None" for avc pre
    using assms
  proof (induction units arbitrary: pre out extra)
    case Nil
    have "unat (from_be16 ((pre @ [0, 0]) ! length pre) ((pre @ [0, 0]) ! (length pre + 1))) = 0"
      by (simp add: nth_append from_be16_def)
    then show ?case by (subst stap_loop.simps) (simp add: Let_def idx_def)
  next
    case (Cons n units)
    let ?tl = "concat (map (\<lambda>n. to_be16 (of_nat (length n)) @ n) units) @ [0, 0]"
    have "stap_loop avc ((pre @ to_be16 (of_nat (length n)) @ n) @ ?tl) (length (pre @ to_be16 (of_nat (length n)) @ n)) out extra = None" for out extra
      using Cons.IH [of "pre @ to_be16 (of_nat (length n)) @ n"] Cons.prems by simp
    then show ?case using stap_entry [of n avc pre ?tl] Cons.prems by simp
  qed
  from this [of _ "[0x78]"] show ?thesis
    by (simp add: h264_depacketize_def NALU_TYPE_BITMASK_def Let_def)
qed

lemma h264_empty_entry_panics_witness:
  "h264_depacketize \<lparr>is_avc = False, fua_buffer = None\<rparr> [0x78, 0, 2, 0x67, 1, 0, 0] [] NoExtra = None"
  using h264_empty_entry_panics [of "[[0x67, 1]]" "\<lparr>is_avc = False, fua_buffer = None\<rparr>" "[]" NoExtra]
  by (simp add: to_be16_def)

end
