(* ===== verification/Vp8.thy ===== *)
theory Vp8 imports Payload SeqNo begin

text \<open>
  The VP8 payload format, \<open>packet/vp8.rs\<close> of the patched str0m: a frame behind a payload descriptor of one
  to four octets, and the depacketizer, whose fields stay from packet to packet.
\<close>

section \<open>Cutting a frame\<close>

definition VP8_HEADER_SIZE :: nat where "VP8_HEADER_SIZE = 1"

record vp8_packetizer =
  enable_picture_id :: bool
  pk_picture_id :: u16

definition using_header_size :: "vp8_packetizer \<Rightarrow> nat" where
  "using_header_size st =
     (if enable_picture_id st then
        if pk_picture_id st = 0 \<or> pk_picture_id st < 128 then VP8_HEADER_SIZE + 2 else VP8_HEADER_SIZE + 3
      else VP8_HEADER_SIZE)"

text \<open>The four octets of the descriptor; only the first \<open>using_header_size\<close> of them are sent.\<close>

definition vp8_header :: "vp8_packetizer \<Rightarrow> bool \<Rightarrow> bytes" where
  "vp8_header st first =
     (let b0 = (if first then 0x10 else 0);
          p = pk_picture_id st;
          buf = (if enable_picture_id st then
                   if using_header_size st = VP8_HEADER_SIZE + 2 then [b0 OR 0x80, 0x80, ucast (p AND 0x7F), 0]
                   else if using_header_size st = VP8_HEADER_SIZE + 3
                   then [b0 OR 0x80, 0x80, 0x80 OR ucast (drop_bit 8 p AND 0x7F), ucast (p AND 0xFF)]
                   else [b0, 0, 0, 0]
                 else [b0, 0, 0, 0])
      in take (using_header_size st) buf)"

function vp8_loop :: "vp8_packetizer \<Rightarrow> nat \<Rightarrow> bytes \<Rightarrow> nat \<Rightarrow> nat \<Rightarrow> bool \<Rightarrow> bytes list option" where
  "vp8_loop st max_fragment_size payload data_remaining data_index first =
     (if \<not> (0 < data_remaining \<and> 0 < max_fragment_size) then Some []
      else
        (let current_fragment_size = min max_fragment_size data_remaining in
         do { f \<leftarrow> slice payload data_index (data_index + current_fragment_size);
              fs \<leftarrow> vp8_loop st max_fragment_size payload (data_remaining - current_fragment_size)
                (data_index + current_fragment_size) False;
              Some ((vp8_header st first @ f) # fs) }))"
  by pat_completeness auto
termination by (relation "measure (\<lambda>(_, _, _, data_remaining, _). data_remaining)") auto

declare vp8_loop.simps [simp del]

definition vp8_packetize :: "vp8_packetizer \<Rightarrow> nat \<Rightarrow> bytes \<Rightarrow> (vp8_packetizer \<times> bytes list) option" where
  "vp8_packetize st mtu payload =
     (if payload = [] \<or> mtu = 0 then Some (st, [])
      else if mtu \<le> using_header_size st then Some (st, [])
      else do { payloads \<leftarrow> vp8_loop st (mtu - using_header_size st) payload (length payload) 0 True;
                Some (st\<lparr>pk_picture_id := (pk_picture_id st + 1) AND 0x7FFF\<rparr>, payloads) })"

section \<open>Reading a packet\<close>

record vp8_depacketizer =
  dx :: u8
  dn :: u8
  ds :: u8
  dpid :: u8
  di :: u8
  dl :: u8
  dt :: u8
  dk :: u8
  d_picture_id :: u16
  extended_pid :: "u64 option"
  tl0_pic_idx :: u8
  extended_tl0_pic_idx :: "u64 option"
  tid :: u8
  dy :: u8
  key_idx :: u8
  dp :: u8

definition vp8_depacketizer_new :: vp8_depacketizer where
  "vp8_depacketizer_new = \<lparr>dx = 0, dn = 0, ds = 0, dpid = 0, di = 0, dl = 0, dt = 0, dk = 0, d_picture_id = 0,
     extended_pid = None, tl0_pic_idx = 0, extended_tl0_pic_idx = None, tid = 0, dy = 0, key_idx = 0, dp = 0\<rparr>"

definition extend_u15 :: "u64 option \<Rightarrow> u16 \<Rightarrow> u64" where
  "extend_u15 prev seq = extend_id 15 prev (ucast seq)"

definition extend_u7 :: "u64 option \<Rightarrow> u8 \<Rightarrow> u64" where
  "extend_u7 prev seq = extend_id 7 prev (ucast seq)"

definition extend_u8 :: "u64 option \<Rightarrow> u8 \<Rightarrow> u64" where
  "extend_u8 prev seq = extend_id 8 prev (ucast seq)"

text \<open>The stages of the descriptor: the reader and the index of the payload go with them.\<close>

definition vp8_required :: "vp8_depacketizer \<Rightarrow> reader \<Rightarrow> (vp8_depacketizer, reader \<times> nat) parsed" where
  "vp8_required st rd = on_ok (octet st rd) (\<lambda>st (b, rd).
     (st\<lparr>dx := drop_bit 7 (b AND 0x80), dn := drop_bit 5 (b AND 0x20), ds := drop_bit 4 (b AND 0x10), dpid := b AND 0x07\<rparr>, Inr (rd, 1)))"

definition vp8_extension :: "vp8_depacketizer \<Rightarrow> reader \<times> nat \<Rightarrow> (vp8_depacketizer, reader \<times> nat) parsed" where
  "vp8_extension st at =
     (if dx st = 1 then on_ok (octet st (fst at)) (\<lambda>st (b, rd).
        (st\<lparr>di := drop_bit 7 (b AND 0x80), dl := drop_bit 6 (b AND 0x40), dt := drop_bit 5 (b AND 0x20), dk := drop_bit 4 (b AND 0x10)\<rparr>,
         Inr (rd, snd at + 1)))
      else (st, Inr at))"

definition vp8_picture_id :: "vp8_depacketizer \<Rightarrow> reader \<times> nat \<Rightarrow> (vp8_depacketizer, reader \<times> nat) parsed" where
  "vp8_picture_id st at =
     (if di st = 1 then on_ok (octet st (fst at)) (\<lambda>st (b, rd).
        if 0 < b AND 0x80 then on_ok (octet st rd) (\<lambda>st (x, rd).
          (let p = push_bit 8 (ucast (b AND 0x7F)) OR ucast x in
           (st\<lparr>d_picture_id := p, extended_pid := Some (extend_u15 (extended_pid st) p)\<rparr>, Inr (rd, snd at + 2))))
        else (st\<lparr>d_picture_id := ucast b, extended_pid := Some (extend_u7 (extended_pid st) b)\<rparr>, Inr (rd, snd at + 1)))
      else (st, Inr at))"

definition vp8_tl0 :: "vp8_depacketizer \<Rightarrow> reader \<times> nat \<Rightarrow> (vp8_depacketizer, reader \<times> nat) parsed" where
  "vp8_tl0 st at =
     (if dl st = 1 then on_ok (octet st (fst at)) (\<lambda>st (b, rd).
        (st\<lparr>tl0_pic_idx := b, extended_tl0_pic_idx := Some (extend_u8 (extended_tl0_pic_idx st) b)\<rparr>, Inr (rd, snd at + 1)))
      else (st, Inr at))"

definition vp8_tid_key :: "vp8_depacketizer \<Rightarrow> reader \<times> nat \<Rightarrow> (vp8_depacketizer, reader \<times> nat) parsed" where
  "vp8_tid_key st at =
     (if dt st = 1 \<or> dk st = 1 then on_ok (octet st (fst at)) (\<lambda>st (b, rd).
        (let st = (if dt st = 1 then st\<lparr>tid := drop_bit 6 b, dy := drop_bit 5 b AND 0x1\<rparr> else st);
             st = (if dk st = 1 then st\<lparr>key_idx := b AND 0x1F\<rparr> else st)
         in (st, Inr (rd, snd at + 1))))
      else (st, Inr at))"

definition not_at_end :: "nat \<Rightarrow> vp8_depacketizer \<Rightarrow> reader \<times> nat \<Rightarrow> (vp8_depacketizer, reader \<times> nat) parsed" where
  "not_at_end payload_len st at = (st, if payload_len \<le> snd at then Inl ErrShortPacket else Inr at)"

definition vp8_descriptor :: "vp8_depacketizer \<Rightarrow> bytes \<Rightarrow> (vp8_depacketizer, reader \<times> nat) parsed" where
  "vp8_descriptor st packet =
     (let n = length packet in
      on_ok (vp8_required st (packet, 0)) (\<lambda>st at.
      on_ok (vp8_extension st at) (\<lambda>st at.
      on_ok (vp8_picture_id st at) (\<lambda>st at.
      on_ok (not_at_end n st at) (\<lambda>st at.
      on_ok (vp8_tl0 st at) (\<lambda>st at.
      on_ok (not_at_end n st at) (\<lambda>st at.
      on_ok (vp8_tid_key st at) (\<lambda>st at.
      not_at_end n st at))))))))"

definition vp8_info :: "vp8_depacketizer \<Rightarrow> codec_extra \<Rightarrow> codec_extra" where
  "vp8_info st extra = Vp8Extra
     \<lparr>discardable = (dn st = 1), sync = (dy st = 1), layer_index = tid st,
      picture_id = (if di st = 1 then extended_pid st else None),
      tl0_picture_id = (if dl st = 1 then extended_tl0_pic_idx st else None),
      is_keyframe = (case extra of Vp8Extra e \<Rightarrow> is_keyframe e \<or> dp st = 0 | _ \<Rightarrow> dp st = 0)\<rparr>"

definition vp8_depacketize :: "vp8_depacketizer \<Rightarrow> bytes \<Rightarrow> bytes \<Rightarrow> codec_extra \<Rightarrow> vp8_depacketizer depacked" where
  "vp8_depacketize st packet out extra =
     (if length packet < 4 then Some (st, out, extra, Inl ErrShortPacket)
      else case vp8_descriptor st packet of
          (st, Inl e) \<Rightarrow> Some (st, out, extra, Inl e)
        | (st, Inr (rd, payload_index)) \<Rightarrow>
            do { data \<leftarrow> slice packet payload_index (length packet);
                 let out = out @ data;
                 Some (if ds st = 1 \<and> dpid st = 0 then
                     (case get_u8 rd of
                        None \<Rightarrow> (st, out, extra, Inl ErrShortPacket)
                      | Some (b, _) \<Rightarrow> (let st = st\<lparr>dp := b AND 1\<rparr> in (st, out, vp8_info st extra, Inr ())))
                   else (let st = st\<lparr>dp := 1\<rparr> in (st, out, vp8_info st extra, Inr ()))) })"

definition vp8_is_partition_head :: "bytes \<Rightarrow> bool" where
  "vp8_is_partition_head payload = (case payload of [] \<Rightarrow> False | b # _ \<Rightarrow> b AND 0x10 \<noteq> 0)"

section \<open>What is read\<close>

lemmas vp8_stages = vp8_required_def vp8_extension_def vp8_picture_id_def vp8_tl0_def vp8_tid_key_def not_at_end_def

abbreviation vp8_sound :: "bytes \<Rightarrow> (vp8_depacketizer, reader \<times> nat) parsed \<Rightarrow> bool" where
  "vp8_sound \<equiv> sound (\<lambda>_. True) {ErrShortPacket} (\<lambda>_. True)"

lemma sound_stages:
  "vp8_sound p (vp8_required st (p, 0))"
  "stands p at \<Longrightarrow> vp8_sound p (vp8_extension st at)"
  "stands p at \<Longrightarrow> vp8_sound p (vp8_picture_id st at)"
  "stands p at \<Longrightarrow> vp8_sound p (vp8_tl0 st at)"
  "stands p at \<Longrightarrow> vp8_sound p (vp8_tid_key st at)"
  "stands p at \<Longrightarrow> vp8_sound p (not_at_end n st at)"
proof -
  show "vp8_sound p (vp8_required st (p, 0))" by (cases p) (simp_all add: vp8_required_def octet_0 stands_def)
  assume at: "stands p at"
  note o = octet_stands [OF at]
  show "vp8_sound p (vp8_extension st at)" using at by (simp add: vp8_extension_def o, simp add: stands_def)
  show "vp8_sound p (vp8_picture_id st at)" using at by (simp add: vp8_picture_id_def o octet_next, simp add: stands_def octet_next Let_def)
  show "vp8_sound p (vp8_tl0 st at)" using at by (simp add: vp8_tl0_def o, simp add: stands_def)
  show "vp8_sound p (vp8_tid_key st at)" using at by (simp add: vp8_tid_key_def o Let_def, simp add: stands_def)
  show "vp8_sound p (not_at_end n st at)" using at by (simp add: not_at_end_def)
qed

lemma sound_descriptor: "vp8_sound packet (vp8_descriptor st packet)"
  unfolding vp8_descriptor_def Let_def by (intro sound_on_ok [where P = "\<lambda>_. True"] sound_stages)

lemma descriptor_inside: "vp8_descriptor st packet = (st', Inr at) \<Longrightarrow> snd at < length packet"
  unfolding vp8_descriptor_def Let_def on_ok_Inr by (auto simp: not_at_end_def split: if_splits)

text \<open>
  Whatever arrives and whatever the fields hold, the VP8 depacketizer does not panic, and a packet it accepts
  adds a rest of itself, which is not empty, to the frame.
\<close>

theorem vp8_depacketize_total:
  "\<exists>st' data extra' r. vp8_depacketize st packet out extra = Some (st', out @ data, extra', r)
     \<and> (\<exists>hdr. packet = hdr @ data) \<and> (case r of Inl e \<Rightarrow> e = ErrShortPacket | Inr _ \<Rightarrow> data \<noteq> [])"
proof (cases "length packet < 4")
  case False
  obtain st' r where d: "vp8_descriptor st packet = (st', r)" by fastforce
  show ?thesis
  proof (cases r)
    case (Inl e)
    then show ?thesis using d False sound_descriptor [of packet st] by (simp add: vp8_depacketize_def)
  next
    case (Inr at)
    obtain rd n where at: "at = (rd, n)" by fastforce
    then have n: "rd = (packet, 8 * n)" "n < length packet"
      using sound_descriptor [of packet st] descriptor_inside [of st packet st' at] d Inr by (simp_all add: stands_def)
    have sl: "slice packet n (length packet) = Some (drop n packet)" using n by (simp add: slice_def)
    have "\<exists>hdr. packet = hdr @ drop n packet" by (metis append_take_drop_id)
    then show ?thesis using d Inr at False n sl by (simp add: vp8_depacketize_def get_u8_octet Let_def)
  qed
qed (simp add: vp8_depacketize_def)

section \<open>A frame there and back\<close>

text \<open>
  A state of the depacketizer that reads the packets of a packetizer: with the picture id the flags come with
  each packet, without it they must not have been left behind by an earlier packet.
\<close>

definition fresh :: "vp8_depacketizer \<Rightarrow> bool" where
  "fresh st \<longleftrightarrow> di st = 0 \<and> dl st = 0 \<and> dt st = 0 \<and> dk st = 0"

definition readable :: "vp8_packetizer \<Rightarrow> vp8_depacketizer \<Rightarrow> bool" where
  "readable pk st \<longleftrightarrow> enable_picture_id pk \<or> fresh st"

definition key_so_far :: "codec_extra \<Rightarrow> bool" where
  "key_so_far extra = (case extra of Vp8Extra e \<Rightarrow> is_keyframe e | _ \<Rightarrow> False)"

definition tells :: "vp8_packetizer \<Rightarrow> bool \<Rightarrow> codec_extra \<Rightarrow> bool" where
  "tells pk key extra = (case extra of Vp8Extra e \<Rightarrow> is_keyframe e = key \<and> (picture_id e = None \<longleftrightarrow> \<not> enable_picture_id pk) | _ \<Rightarrow> False)"

lemma tells_key: "tells pk key extra \<Longrightarrow> key_so_far extra = key"
  by (auto simp: tells_def key_so_far_def split: codec_extra.splits)

text \<open>The first octet, without and with the extension.\<close>

lemma vp8_octets:
  "drop_bit 7 ((0x10 :: u8) AND 0x80) = 0" "drop_bit 4 ((0x10 :: u8) AND 0x10) = 1" "(0x10 :: u8) AND 0x07 = 0" "drop_bit 5 ((0x10 :: u8) AND 0x20) = 0"
  "drop_bit 7 ((0x90 :: u8) AND 0x80) = 1" "drop_bit 4 ((0x90 :: u8) AND 0x10) = 1" "(0x90 :: u8) AND 0x07 = 0" "drop_bit 5 ((0x90 :: u8) AND 0x20) = 0"
  "drop_bit 7 ((0x80 :: u8) AND 0x80) = 1" "drop_bit 4 ((0x80 :: u8) AND 0x10) = 0" "(0x80 :: u8) AND 0x07 = 0" "drop_bit 5 ((0x80 :: u8) AND 0x20) = 0"
  "drop_bit 6 ((0x80 :: u8) AND 0x40) = 0"
  "(0x10 :: u8) OR 0x80 = 0x90"
  by simp_all

lemma vp8_plain_descriptor:
  assumes "fresh st" "data \<noteq> []" "b0 \<in> {0x10, 0}"
  shows "vp8_descriptor st (b0 # data)
    = (st\<lparr>dx := 0, dn := 0, ds := if b0 = 0x10 then 1 else 0, dpid := 0\<rparr>, Inr ((b0 # data, 8), 1))"
  using assms
  by (auto simp: vp8_descriptor_def Let_def vp8_stages octet_0 fresh_def vp8_octets)

definition id_octets :: "u16 \<Rightarrow> bytes" where
  "id_octets p = (if p = 0 \<or> p < 128 then [ucast (p AND 0x7F)] else [0x80 OR ucast (drop_bit 8 p AND 0x7F), ucast (p AND 0xFF)])"

lemma vp8_header_cases:
  "vp8_header pk first = (if enable_picture_id pk then [if first then 0x90 else 0x80, 0x80] @ id_octets (pk_picture_id pk)
     else [if first then 0x10 else 0])"
  by (simp add: vp8_header_def using_header_size_def VP8_HEADER_SIZE_def id_octets_def Let_def)

lemma length_vp8_header: "length (vp8_header pk first) = using_header_size pk"
  by (simp add: vp8_header_cases using_header_size_def VP8_HEADER_SIZE_def id_octets_def)

lemma id_octet_bits: "(ucast (p AND 0x7F :: u16) :: u8) AND 0x80 = 0" "(0x80 OR (x :: u8)) AND 0x80 = 0x80"
proof -
  have m: "(0x7F :: u16) = mask 7" by (simp add: mask_eq_exp_minus_1)
  show "(ucast (p AND 0x7F :: u16) :: u8) AND 0x80 = 0"
    by (rule bit_word_eqI; unfold bit_and_iff bit_0x80 bit_unsigned_iff m bit_mask_iff; auto)
  show "(0x80 OR x) AND 0x80 = 0x80"
    by (rule bit_word_eqI; unfold bit_and_iff bit_or_iff bit_0x80; auto)
qed

lemma vp8_id_descriptor:
  assumes "data \<noteq> []" "b0 \<in> {0x90, 0x80}"
  shows "\<exists>st'. vp8_descriptor st (b0 # 0x80 # id_octets p @ data)
    = (st', Inr ((b0 # 0x80 # id_octets p @ data, 8 * (2 + length (id_octets p))), 2 + length (id_octets p)))
    \<and> ds st' = (if b0 = 0x90 then 1 else 0) \<and> dpid st' = 0 \<and> di st' = 1 \<and> extended_pid st' \<noteq> None"
proof -
  let ?p = "b0 # 0x80 # id_octets p @ data"
  have flags: "drop_bit 7 (b0 AND 0x80) = 1" "drop_bit 4 (b0 AND 0x10) = (if b0 = 0x90 then 1 else 0)" "b0 AND 0x07 = 0"
    using assms(2) by auto
  have o: "octet s (?p, 8) = (s, Inr (0x80, (?p, 16)))" for s :: vp8_depacketizer using octet_at [of s ?p 1] by simp
  obtain st1 where r: "vp8_required st (?p, 0) = (st1, Inr ((?p, 8), 1))" "dx st1 = 1"
      "ds st1 = (if b0 = 0x90 then 1 else 0)" "dpid st1 = 0"
    using flags by (auto simp: vp8_required_def octet_0)
  obtain st2 where e: "vp8_extension st1 ((?p, 8), 1) = (st2, Inr ((?p, 16), 2))" "di st2 = 1" "dl st2 = 0" "dt st2 = 0" "dk st2 = 0"
      "ds st2 = (if b0 = 0x90 then 1 else 0)" "dpid st2 = 0"
    using r(2-) o by (simp add: vp8_extension_def)
  obtain st3 where i: "vp8_picture_id st2 ((?p, 16), 2) = (st3, Inr ((?p, 8 * (2 + length (id_octets p))), 2 + length (id_octets p)))"
      "di st3 = 1" "dl st3 = 0" "dt st3 = 0" "dk st3 = 0" "ds st3 = (if b0 = 0x90 then 1 else 0)" "dpid st3 = 0" "extended_pid st3 \<noteq> None"
  proof (cases "p = 0 \<or> p < 128")
    case True
    then have io: "id_octets p = [ucast (p AND 0x7F)]" by (simp add: id_octets_def)
    have o2: "octet s (?p, 16) = (s, Inr (ucast (p AND 0x7F), (?p, 24)))" for s :: vp8_depacketizer using octet_at [of s ?p 2] by (simp add: io)
    show ?thesis using that e(2-) by (simp add: vp8_picture_id_def o2 io [symmetric] id_octet_bits) (simp add: io)
  next
    case False
    then have io: "id_octets p = [0x80 OR ucast (drop_bit 8 p AND 0x7F), ucast (p AND 0xFF)]" by (simp add: id_octets_def)
    have o2: "octet s (?p, 16) = (s, Inr (0x80 OR ucast (drop_bit 8 p AND 0x7F), (?p, 24)))" for s :: vp8_depacketizer using octet_at [of s ?p 2] by (simp add: io)
    have o3: "octet s (?p, 24) = (s, Inr (ucast (p AND 0xFF), (?p, 32)))" for s :: vp8_depacketizer using octet_at [of s ?p 3] by (simp add: io)
    show ?thesis using that e(2-) by (simp add: vp8_picture_id_def o2 o3 id_octet_bits Let_def) (simp add: io)
  qed
  have n: "2 + length (id_octets p) < length ?p" using assms(1) by simp
  show ?thesis
    using r(1) e(1) i n by (simp add: vp8_descriptor_def Let_def not_at_end_def vp8_tl0_def vp8_tid_key_def)
qed

lemma vp8_packet_read:
  assumes "readable pk st" "data \<noteq> []" "4 \<le> using_header_size pk + length data"
  shows "\<exists>st' extra'. vp8_depacketize st (vp8_header pk first @ data) out extra = Some (st', out @ data, extra', Inr ())
    \<and> readable pk st' \<and> tells pk (key_so_far extra \<or> first \<and> hd data AND 1 = 0) extra'"
proof -
  let ?p = "vp8_header pk first @ data" and ?n = "using_header_size pk"
  obtain d ds' where data: "data = d # ds'" using assms(2) by (cases data) auto
  have l: "\<not> length ?p < 4" using assms(3) by (simp add: length_vp8_header)
  obtain st1 where d: "vp8_descriptor st ?p = (st1, Inr ((?p, 8 * ?n), ?n))" "ds st1 = (if first then 1 else 0)" "dpid st1 = 0"
    "readable pk st1" "di st1 = (if enable_picture_id pk then 1 else 0)" "enable_picture_id pk \<Longrightarrow> extended_pid st1 \<noteq> None"
  proof (cases "enable_picture_id pk")
    case True
    have n: "?n = 2 + length (id_octets (pk_picture_id pk))"
      using True by (simp add: using_header_size_def VP8_HEADER_SIZE_def id_octets_def)
    have p: "?p = (if first then 0x90 else 0x80) # 0x80 # id_octets (pk_picture_id pk) @ data" using True by (simp add: vp8_header_cases)
    have b: "(if first then 0x90 else 0x80) \<in> {0x90, 0x80 :: u8}" by simp
    show ?thesis
      using that vp8_id_descriptor [OF assms(2) b, of st "pk_picture_id pk"] True
      unfolding n p by (auto simp: readable_def)
  next
    case False
    then have f: "fresh st" "?n = 1" using assms(1) by (simp_all add: readable_def using_header_size_def VP8_HEADER_SIZE_def)
    have p: "?p = (if first then 0x10 else 0) # data" using False by (simp add: vp8_header_cases)
    have b: "(if first then 0x10 else 0) \<in> {0x10, 0 :: u8}" by simp
    show ?thesis
      using that vp8_plain_descriptor [OF f(1) assms(2) b] False f
      unfolding p by (auto simp: readable_def fresh_def)
  qed
  have g: "get_u8 (?p, 8 * ?n) = Some (d, (?p, 8 * Suc ?n))" using get_u8_octet [of ?p ?n] data by (simp add: nth_append length_vp8_header)
  have sl: "slice ?p ?n (length ?p) = Some data" by (simp add: slice_def length_vp8_header)
  show ?thesis
    using d l g sl data by (auto simp: vp8_depacketize_def Let_def tells_def key_so_far_def vp8_info_def readable_def fresh_def
        split: codec_extra.splits)
qed

text \<open>The loop puts a header in front of each fragment.\<close>

definition vp8_packets :: "vp8_packetizer \<Rightarrow> bool \<Rightarrow> bytes list \<Rightarrow> bytes list" where
  "vp8_packets pk first fs = (case fs of [] \<Rightarrow> [] | f # fs \<Rightarrow> (vp8_header pk first @ f) # map ((@) (vp8_header pk False)) fs)"

lemma vp8_loop_fragments:
  assumes "0 < m"
  shows "vp8_loop pk m (pre @ xs) (length xs) (length pre) first = Some (vp8_packets pk first (fragments m xs))"
proof (induction "length xs" arbitrary: pre xs first rule: less_induct)
  case less
  show ?case
  proof (cases "xs = []")
    case True
    then show ?thesis by (simp add: vp8_loop.simps vp8_packets_def fragments.cut_Nil)
  next
    case False
    let ?f = "take m xs" and ?r = "drop m xs"
    have sl: "slice (pre @ xs) (length pre) (length pre + min m (length xs)) = Some ?f" by (cases "m \<le> length xs") (simp_all add: slice_def)
    have "vp8_loop pk m ((pre @ ?f) @ ?r) (length ?r) (length (pre @ ?f)) False = Some (vp8_packets pk False (fragments m ?r))"
      using False assms by (intro less.hyps) simp
    moreover have "(pre @ ?f) @ ?r = pre @ xs" "length (pre @ ?f) = length pre + min m (length xs)" "length ?r = length xs - min m (length xs)"
      by (simp_all add: min.commute)
    ultimately have rest: "vp8_loop pk m (pre @ xs) (length xs - min m (length xs)) (length pre + min m (length xs)) False
      = Some (vp8_packets pk False (fragments m ?r))" by metis
    have "vp8_packets pk False fs = map ((@) (vp8_header pk False)) fs" for fs by (cases fs) (simp_all add: vp8_packets_def)
    then show ?thesis
      using False assms fragments.cut_step [OF assms False]
      by (subst vp8_loop.simps) (simp add: Let_def sl rest vp8_packets_def [of _ _ "_ # _"])
  qed
qed

lemma vp8_packets_read:
  assumes "readable pk st" "list_all (\<lambda>f. f \<noteq> [] \<and> 4 \<le> using_header_size pk + length f) fs"
  shows "\<exists>st' extra'. depack_all vp8_depacketize st (map ((@) (vp8_header pk False)) fs) out extra = Some (st', out @ concat fs, extra', Inr ())
    \<and> readable pk st' \<and> (fs \<noteq> [] \<longrightarrow> tells pk (key_so_far extra) extra') \<and> (fs = [] \<longrightarrow> extra' = extra)"
  using assms
proof (induction fs arbitrary: st out extra)
  case (Cons f fs)
  obtain st1 extra1 where p: "vp8_depacketize st (vp8_header pk False @ f) out extra = Some (st1, out @ f, extra1, Inr ())"
    "readable pk st1" "tells pk (key_so_far extra) extra1"
    using vp8_packet_read [of pk st f False out extra] Cons.prems by auto
  show ?case using Cons.IH [OF p(2), of "out @ f" extra1] Cons.prems p(1,3) tells_key [OF p(3)]
    by (cases "fs = []") auto
qed simp

text \<open>The shortest fragment is the last one.\<close>

lemma fragment_sizes:
  assumes "0 < m" "xs \<noteq> []" "f \<in> set (fragments m xs)"
  shows "f \<noteq> []" "length f = m \<or> length f = length xs mod m"
proof -
  show "f \<noteq> []" using fragments.cut_sizes [OF assms(1,3)] by simp
  show "length f = m \<or> length f = length xs mod m"
    using assms(1,3)
  proof (induction xs rule: fragments.cut_induct)
    case (step ys)
    then have "f = take m ys \<or> f \<in> set (fragments m (drop m ys))" using fragments.cut_step [OF step(1,2)] by auto
    then show ?case
    proof
      assume "f = take m ys"
      then show ?thesis by (cases "m \<le> length ys") simp_all
    next
      assume f: "f \<in> set (fragments m (drop m ys))"
      then have "m \<le> length ys" by (cases "m \<le> length ys") (simp_all add: fragments.cut_Nil)
      then show ?thesis using step(3) f by (simp add: le_mod_geq)
    qed
  qed (simp add: fragments.cut_Nil)
qed

lemma vp8_frame:
  assumes "frame \<noteq> []" "using_header_size pk < mtu" "readable pk st"
    "enable_picture_id pk \<or> 4 \<le> mtu \<and> length frame mod (mtu - 1) \<notin> {1, 2}"
  shows "\<exists>ps st' extra. vp8_packetize pk mtu frame = Some (pk\<lparr>pk_picture_id := (pk_picture_id pk + 1) AND 0x7FFF\<rparr>, ps)
    \<and> ps = vp8_packets pk True (fragments (mtu - using_header_size pk) frame)
    \<and> depack_all vp8_depacketize st ps [] NoExtra = Some (st', frame, extra, Inr ())
    \<and> tells pk (hd frame AND 1 = 0) extra \<and> readable pk st' \<and> list_all (\<lambda>p. length p \<le> mtu) ps"
proof -
  let ?m = "mtu - using_header_size pk"
  have m: "0 < ?m" using assms(2) by simp
  obtain f fs where fr: "fragments ?m frame = f # fs" "f = take ?m frame" using fragments.cut_step [OF m assms(1)] by simp
  have sizes: "list_all (\<lambda>f. f \<noteq> [] \<and> 4 \<le> using_header_size pk + length f) (f # fs)"
  proof (unfold list_all_iff, intro ballI conjI)
    fix g assume g: "g \<in> set (f # fs)"
    show ne: "g \<noteq> []" using fragment_sizes(1) [OF m assms(1)] g fr by simp
    have "length g = ?m \<or> length g = length frame mod ?m" using fragment_sizes(2) [OF m assms(1)] g fr by simp
    then show "4 \<le> using_header_size pk + length g"
      using ne assms(4) by (cases g) (auto simp: using_header_size_def VP8_HEADER_SIZE_def split: if_splits)
  qed
  have p: "vp8_packetize pk mtu frame = Some (pk\<lparr>pk_picture_id := (pk_picture_id pk + 1) AND 0x7FFF\<rparr>, vp8_packets pk True (f # fs))"
    using vp8_loop_fragments [OF m, of pk "[]" frame True] assms(1,2) fr(1) by (simp add: vp8_packetize_def)
  obtain st1 extra1 where h: "vp8_depacketize st (vp8_header pk True @ f) [] NoExtra = Some (st1, f, extra1, Inr ())"
    "readable pk st1" "tells pk (hd frame AND 1 = 0) extra1"
    using vp8_packet_read [OF assms(3), of f True "[]" NoExtra] sizes fr(2) m assms(1) by (auto simp: key_so_far_def)
  obtain st2 extra2 where t: "depack_all vp8_depacketize st1 (map ((@) (vp8_header pk False)) fs) f extra1 = Some (st2, f @ concat fs, extra2, Inr ())"
    "readable pk st2" "tells pk (hd frame AND 1 = 0) extra2"
    using vp8_packets_read [OF h(2), of fs f extra1] sizes h(3) tells_key [OF h(3)] by (cases "fs = []") auto
  have j: "f @ concat fs = frame" using fragments.cut_joins [OF m, of frame] fr(1) by simp
  have b: "list_all (\<lambda>p. length p \<le> mtu) (vp8_packets pk True (f # fs))"
    using fragments.cut_sizes [OF m, of _ frame] fr(1) assms(2) by (fastforce simp: list_all_iff vp8_packets_def length_vp8_header)
  show ?thesis
    using p h(1) t j b fr(1) by (auto simp: vp8_packets_def)
qed

text \<open>C29. A frame that is cut into VP8 packets is put together again, with the key frame flag of its first octet, and the
  packets have at most \<open>mtu\<close> octets. With picture ids this holds whatever came before; without them, as the library uses
  it, the last packet must not be left with one or two octets - the depacketizer refuses it, see \<open>vp8_short_tail_refused\<close> -
  and no flags may be left in the depacketizer by packets of another sender (\<open>readable\<close>).
\<close>

theorem vp8_roundtrip:
  assumes "frame \<noteq> []" "using_header_size pk < mtu" "readable pk st"
    "enable_picture_id pk \<or> 4 \<le> mtu \<and> length frame mod (mtu - 1) \<notin> {1, 2}"
  shows "\<exists>pk' ps st' extra. vp8_packetize pk mtu frame = Some (pk', ps)
    \<and> depack_all vp8_depacketize st ps [] NoExtra = Some (st', frame, extra, Inr ())
    \<and> tells pk (hd frame AND 1 = 0) extra \<and> readable pk' st' \<and> list_all (\<lambda>p. length p \<le> mtu) ps"
  using vp8_frame [OF assms] by (auto simp: readable_def)

lemma vp8_roundtrip_witness:
  "\<exists>pk' ps st' extra. vp8_packetize \<lparr>enable_picture_id = False, pk_picture_id = 0\<rparr> 5 [0x90, 1, 2, 3, 4, 5, 6, 7] = Some (pk', ps)
    \<and> depack_all vp8_depacketize vp8_depacketizer_new ps [] NoExtra = Some (st', [0x90, 1, 2, 3, 4, 5, 6, 7], extra, Inr ())"
proof -
  have "readable \<lparr>enable_picture_id = False, pk_picture_id = 0\<rparr> vp8_depacketizer_new"
    "using_header_size \<lparr>enable_picture_id = False, pk_picture_id = 0\<rparr> = 1"
    by (simp_all add: readable_def fresh_def vp8_depacketizer_new_def using_header_size_def VP8_HEADER_SIZE_def)
  then show ?thesis
    using vp8_roundtrip [of "[0x90, 1, 2, 3, 4, 5, 6, 7]" "\<lparr>enable_picture_id = False, pk_picture_id = 0\<rparr>" 5 vp8_depacketizer_new]
    by auto
qed

lemma last_fragment:
  assumes "0 < m" "length xs mod m \<noteq> 0"
  shows "length (List.last (fragments m xs)) = length xs mod m"
  using assms
proof (induction xs rule: fragments.cut_induct)
  case (step ys)
  note c = fragments.cut_step [OF step(1,2)]
  show ?case
  proof (cases "m \<le> length ys \<and> drop m ys \<noteq> []")
    case True
    then show ?thesis using step(3,4) fragments.cut_empty [OF step(1), of "drop m ys"] unfolding c by (simp add: le_mod_geq)
  next
    case False
    moreover have "length ys \<noteq> m" using step(4) by auto
    ultimately have "length ys < m" "drop m ys = []" by (cases "m \<le> length ys"; simp)+
    then show ?thesis unfolding c by (simp add: fragments.cut_Nil)
  qed
qed simp

text \<open>
  The library refuses its own packets: a frame whose length leaves one or two octets for the last packet is
  written in full, and the depacketizer, which wants four octets in each packet, returns an error on the last one.
\<close>

theorem vp8_short_tail_refused:
  assumes "4 \<le> mtu" "length frame mod (mtu - 1) \<in> {1, 2}" "\<not> enable_picture_id pk"
  shows "\<exists>pk' ps p. vp8_packetize pk mtu frame = Some (pk', ps @ [p])
    \<and> (\<forall>st out extra. vp8_depacketize st p out extra = Some (st, out, extra, Inl ErrShortPacket))"
proof -
  have h: "using_header_size pk = 1" using assms(3) by (simp add: using_header_size_def VP8_HEADER_SIZE_def)
  have m: "0 < mtu - 1" using assms(1) by simp
  have ne: "frame \<noteq> []" using assms(2) by (cases frame) auto
  note last = last_fragment [OF m]
  obtain f fs where fr: "fragments (mtu - 1) frame = f # fs" using fragments.cut_step [OF m ne] by simp
  have "vp8_packetize pk mtu frame = Some (pk\<lparr>pk_picture_id := (pk_picture_id pk + 1) AND 0x7FFF\<rparr>, vp8_packets pk True (f # fs))"
    using vp8_loop_fragments [OF m, of pk "[]" frame True] ne fr assms(1) by (simp add: vp8_packetize_def h)
  moreover obtain ps b where pb: "vp8_packets pk True (f # fs) = ps @ [b # List.last (f # fs)]"
    using assms(3) by (cases fs rule: rev_cases) (auto simp: vp8_packets_def vp8_header_cases)
  moreover have "length (b # List.last (f # fs)) < 4" using last [of frame] assms(2) unfolding fr by auto
  ultimately show ?thesis by (force simp: vp8_depacketize_def)
qed

lemma vp8_short_tail_refused_witness:
  "\<exists>pk' ps p. vp8_packetize \<lparr>enable_picture_id = False, pk_picture_id = 0\<rparr> 5 [0x90, 1, 2, 3, 4] = Some (pk', ps @ [p])"
  using vp8_short_tail_refused [of 5 "[0x90, 1, 2, 3, 4]" "\<lparr>enable_picture_id = False, pk_picture_id = 0\<rparr>"]
  by auto

text \<open>
  The flags of an extension outlive their packet: after a packet with a picture id, a packet without an
  extension has the first octet of its frame read as a picture id, and the frame loses it.
\<close>

theorem vp8_flags_outlive_packet:
  "\<exists>st extra. vp8_depacketize vp8_depacketizer_new [0x90, 0x80, 0x05, 0x90, 1] [] NoExtra = Some (st, [0x90, 1], extra, Inr ())
    \<and> (\<exists>st' extra'. vp8_depacketize st [0x10, 0x10, 2, 3] [] NoExtra = Some (st', [2, 3], extra', Inr ()))
    \<and> (\<exists>st' extra'. vp8_depacketize vp8_depacketizer_new [0x10, 0x10, 2, 3] [] NoExtra = Some (st', [0x10, 2, 3], extra', Inr ()))"
  by (simp add: vp8_depacketize_def vp8_descriptor_def vp8_stages octet_def get_u8_def remaining_def vp8_depacketizer_new_def
      slice_def Let_def extend_u7_def)

end
