(* ===== verification/Vp9.thy ===== *)
theory Vp9 imports Payload begin

text \<open>
  The VP9 payload format, \<open>packet/vp9.rs\<close> of the patched str0m: the packetizer of the flexible mode with a
  15 bit picture id, and the depacketizer with layers, reference indices and the scalability structure.
\<close>

section \<open>Cutting a frame\<close>

definition VP9HEADER_SIZE :: nat where "VP9HEADER_SIZE = 3"

definition MAX_SPATIAL_LAYERS :: nat where "MAX_SPATIAL_LAYERS = 3"

definition MAX_VP9REF_PICS :: nat where "MAX_VP9REF_PICS = 3"

record vp9_packetizer =
  v9_picture_id :: u16
  initialized :: bool

definition vp9_header :: "u16 \<Rightarrow> bool \<Rightarrow> bool \<Rightarrow> bytes" where
  "vp9_header p first final =
     [0x90 OR (if first then 0x08 else 0) OR (if final then 0x04 else 0), ucast (drop_bit 8 p) OR 0x80, ucast (p AND 0xFF)]"

text \<open>
  The loop of the code ends when nothing remains; that a fragment has a positive size, which \<open>packetize\<close> has seen to,
  is part of the guard so that the recursion ends for every argument.
\<close>

function vp9_loop :: "u16 \<Rightarrow> nat \<Rightarrow> bytes \<Rightarrow> nat \<Rightarrow> nat \<Rightarrow> bytes list option" where
  "vp9_loop p max_fragment_size payload data_remaining data_index =
     (if \<not> (0 < data_remaining \<and> 0 < max_fragment_size) then Some []
      else
        (let current_fragment_size = min max_fragment_size data_remaining in
         do { f \<leftarrow> slice payload data_index (data_index + current_fragment_size);
              fs \<leftarrow> vp9_loop p max_fragment_size payload (data_remaining - current_fragment_size) (data_index + current_fragment_size);
              Some ((vp9_header p (data_index = 0) (data_remaining = current_fragment_size) @ f) # fs) }))"
  by pat_completeness auto
termination by (relation "measure (\<lambda>(_, _, _, data_remaining, _). data_remaining)") auto

declare vp9_loop.simps [simp del]

text \<open>The first picture id is random, \<open>rng\<close>.\<close>

definition vp9_packetize :: "u16 \<Rightarrow> vp9_packetizer \<Rightarrow> nat \<Rightarrow> bytes \<Rightarrow> (vp9_packetizer \<times> bytes list) option" where
  "vp9_packetize rng st mtu payload =
     (if payload = [] \<or> mtu = 0 then Some (st, [])
      else
        (let st = (if \<not> initialized st then \<lparr>v9_picture_id = rng AND 0x7FFF, initialized = True\<rparr> else st) in
         if mtu \<le> VP9HEADER_SIZE then Some (st, [])
         else do { payloads \<leftarrow> vp9_loop (v9_picture_id st) (mtu - VP9HEADER_SIZE) payload (length payload) 0;
                   Some (st\<lparr>v9_picture_id := (v9_picture_id st + 1) AND 0x7FFF\<rparr>, payloads) }))"

section \<open>Reading a packet\<close>

record vp9_depacketizer =
  fi :: bool
  fp :: bool
  fl :: bool
  ff :: bool
  fb :: bool
  fe :: bool
  fv :: bool
  fz :: bool
  p9_id :: u16
  p9_tid :: u8
  pu :: bool
  sid :: u8
  pd :: bool
  pdiff :: "u8 list"
  tl0picidx :: u8
  ns :: u8
  py :: bool
  pg :: bool
  ng :: u8
  width :: "u16 option list"
  height :: "u16 option list"
  pgtid :: "u8 list"
  pgu :: "bool list"
  pgpdiff :: "u8 list list"

definition vp9_depacketizer_new :: vp9_depacketizer where
  "vp9_depacketizer_new = \<lparr>fi = False, fp = False, fl = False, ff = False, fb = False, fe = False, fv = False, fz = False,
     p9_id = 0, p9_tid = 0, pu = False, sid = 0, pd = False, pdiff = [], tl0picidx = 0, ns = 0, py = False, pg = False, ng = 0,
     width = replicate MAX_SPATIAL_LAYERS None, height = replicate MAX_SPATIAL_LAYERS None, pgtid = [], pgu = [], pgpdiff = []\<rparr>"

type_synonym v9 = "(vp9_depacketizer, reader \<times> nat) parsed"

text \<open>A step that looks at what remains before it reads.\<close>

definition if_any :: "vp9_depacketizer \<Rightarrow> reader \<Rightarrow> (vp9_depacketizer, 'a) parsed \<Rightarrow> (vp9_depacketizer, 'a) parsed" where
  "if_any st rd r = (if remaining rd = 0 then (st, Inl ErrShortPacket) else r)"

definition parse_picture_id :: "vp9_depacketizer \<Rightarrow> reader \<times> nat \<Rightarrow> v9" where
  "parse_picture_id st at = if_any st (fst at) (on_ok (octet st (fst at)) (\<lambda>st (b, rd).
     if b AND 0x80 \<noteq> 0 then if_any st rd (on_ok (octet st rd) (\<lambda>st (x, rd).
       (st\<lparr>p9_id := push_bit 8 (ucast (b AND 0x7F)) OR ucast x\<rparr>, Inr (rd, snd at + 2))))
     else (st\<lparr>p9_id := ucast (b AND 0x7F)\<rparr>, Inr (rd, snd at + 1))))"

definition parse_layer_info_common :: "vp9_depacketizer \<Rightarrow> reader \<times> nat \<Rightarrow> v9" where
  "parse_layer_info_common st at = if_any st (fst at) (on_ok (octet st (fst at)) (\<lambda>st (b, rd).
     (let s = drop_bit 1 b AND 0x7 in
      (st\<lparr>p9_tid := drop_bit 5 b, pu := (b AND 0x10 \<noteq> 0), sid := s, pd := (b AND 0x01 \<noteq> 0)\<rparr>,
       if MAX_SPATIAL_LAYERS \<le> unat s then Inl ErrTooManySpatialLayers else Inr (rd, snd at + 1)))))"

definition parse_layer_info_non_flexible_mode :: "vp9_depacketizer \<Rightarrow> reader \<times> nat \<Rightarrow> v9" where
  "parse_layer_info_non_flexible_mode st at = if_any st (fst at) (on_ok (octet st (fst at)) (\<lambda>st (b, rd).
     (st\<lparr>tl0picidx := b\<rparr>, Inr (rd, snd at + 1))))"

definition parse_layer_info :: "vp9_depacketizer \<Rightarrow> reader \<times> nat \<Rightarrow> v9" where
  "parse_layer_info st at = on_ok (parse_layer_info_common st at) (\<lambda>st at.
     if ff st then (st, Inr at) else parse_layer_info_non_flexible_mode st at)"

lemma get_u8_remaining: "get_u8 r = Some (b, r') \<Longrightarrow> remaining r' < remaining r"
  by (auto simp: get_u8_def remaining_def Let_def split: if_splits)

function ref_loop :: "vp9_depacketizer \<Rightarrow> reader \<times> nat \<Rightarrow> v9" where
  "ref_loop st at =
     (if remaining (fst at) = 0 then (st, Inl ErrShortPacket)
      else case get_u8 (fst at) of
          None \<Rightarrow> (st, Inl ErrShortPacket)
        | Some (b, rd) \<Rightarrow>
            (let st = st\<lparr>pdiff := pdiff st @ [drop_bit 1 b]\<rparr> in
             if MAX_VP9REF_PICS \<le> length (pdiff st) then (st, Inl ErrTooManyPDiff)
             else if b AND 0x1 \<noteq> 0 then ref_loop st (rd, snd at + 1)
             else (st, Inr (rd, snd at + 1))))"
  by pat_completeness auto
termination by (relation "measure (\<lambda>(_, at). remaining (fst at))") (auto dest: get_u8_remaining)

declare ref_loop.simps [simp del]

definition parse_ref_indices :: "vp9_depacketizer \<Rightarrow> reader \<times> nat \<Rightarrow> v9" where
  "parse_ref_indices st at = ref_loop st at"

text \<open>
  A stage that indexes an array may panic, which is \<open>None\<close>; a next stage follows when it did not and there was no error.
\<close>

definition on_some :: "('s, 'a) parsed option \<Rightarrow> ('s \<Rightarrow> 'a \<Rightarrow> ('s, 'b) parsed option) \<Rightarrow> ('s, 'b) parsed option" where
  "on_some r f = (case r of None \<Rightarrow> None | Some (st, Inl e) \<Rightarrow> Some (st, Inl e) | Some (st, Inr a) \<Rightarrow> f st a)"

text \<open>The resolutions of \<open>n\<close> layers from layer \<open>i\<close> on.\<close>

fun size_loop :: "nat \<Rightarrow> nat \<Rightarrow> vp9_depacketizer \<Rightarrow> reader \<Rightarrow> (vp9_depacketizer, reader) parsed option" where
  "size_loop 0 i st rd = Some (st, Inr rd)"
| "size_loop (Suc n) i st rd =
     (case get_u16 rd of
        None \<Rightarrow> Some (st, Inl ErrShortPacket)
      | Some (w, rd) \<Rightarrow>
          (case put (width st) i (Some w) of
             None \<Rightarrow> None
           | Some ws \<Rightarrow>
               (let st = st\<lparr>width := ws\<rparr> in
                case get_u16 rd of
                  None \<Rightarrow> Some (st, Inl ErrShortPacket)
                | Some (h, rd) \<Rightarrow>
                    (case put (height st) i (Some h) of
                       None \<Rightarrow> None
                     | Some hs \<Rightarrow> size_loop n (i + 1) (st\<lparr>height := hs\<rparr>) rd))))"

text \<open>The \<open>r\<close> reference indices of a picture of the group, and the pictures; \<open>i\<close> counts from 0 in each packet.\<close>

fun pdiff_loop :: "nat \<Rightarrow> nat \<Rightarrow> vp9_depacketizer \<Rightarrow> reader \<times> nat \<Rightarrow> v9 option" where
  "pdiff_loop 0 i st at = Some (st, Inr at)"
| "pdiff_loop (Suc r) i st at = on_some (Some (octet st (fst at))) (\<lambda>st (b, rd).
     (case idx (pgpdiff st) i of
        None \<Rightarrow> None
      | Some xs \<Rightarrow> pdiff_loop r i (st\<lparr>pgpdiff := (pgpdiff st)[i := xs @ [b]]\<rparr>) (rd, snd at + 1)))"

fun group_loop :: "nat \<Rightarrow> nat \<Rightarrow> vp9_depacketizer \<Rightarrow> reader \<times> nat \<Rightarrow> v9 option" where
  "group_loop 0 i st at = Some (st, Inr at)"
| "group_loop (Suc n) i st at =
     (if remaining (fst at) = 0 then Some (st, Inl ErrShortPacket)
      else on_some (Some (octet st (fst at))) (\<lambda>st (b, rd).
     (let st = st\<lparr>pgtid := pgtid st @ [drop_bit 5 b], pgu := pgu st @ [b AND 0x10 \<noteq> 0]\<rparr>;
          r = unat (drop_bit 2 b AND 0x3)
      in if remaining rd < r then Some (st, Inl ErrShortPacket)
         else on_some (pdiff_loop r i (st\<lparr>pgpdiff := pgpdiff st @ [[]]\<rparr>) (rd, snd at + 1)) (group_loop n (i + 1)))))"

definition parse_ssdata :: "vp9_depacketizer \<Rightarrow> reader \<times> nat \<Rightarrow> v9 option" where
  "parse_ssdata st at =
     (if remaining (fst at) = 0 then Some (st, Inl ErrShortPacket)
      else on_some (Some (octet st (fst at))) (\<lambda>st (b, rd).
     (let st = st\<lparr>ns := drop_bit 5 b, py := (b AND 0x10 \<noteq> 0), pg := (drop_bit 1 b AND 0x7 \<noteq> 0), ng := 0\<rparr>;
          n = unat (ns st + 1)
      in if MAX_SPATIAL_LAYERS \<le> n then Some (st, Inl ErrVP9CorruptedPacket)
         else on_some (if py st then
                 if remaining rd < 4 * n then Some (st, Inl ErrShortPacket)
                 else on_some (size_loop n 0 st rd) (\<lambda>st rd. Some (st, Inr (rd, snd at + 1 + 4 * n)))
               else Some (st, Inr (rd, snd at + 1))) (\<lambda>st at.
              on_some (Some (if pg st then if_any st (fst at) (on_ok (octet st (fst at)) (\<lambda>st (b, rd). (st\<lparr>ng := b\<rparr>, Inr (rd, snd at + 1))))
                else (st, Inr at))) (\<lambda>st at.
              group_loop (unat (ng st)) 0 st at)))))"

definition vp9_flags :: "u8 \<Rightarrow> vp9_depacketizer \<Rightarrow> vp9_depacketizer" where
  "vp9_flags b st = st\<lparr>fi := (b AND 0x80 \<noteq> 0), fp := (b AND 0x40 \<noteq> 0), fl := (b AND 0x20 \<noteq> 0), ff := (b AND 0x10 \<noteq> 0),
     fb := (b AND 0x08 \<noteq> 0), fe := (b AND 0x04 \<noteq> 0), fv := (b AND 0x02 \<noteq> 0), fz := (b AND 0x01 \<noteq> 0)\<rparr>"

definition vp9_descriptor :: "vp9_depacketizer \<Rightarrow> bytes \<Rightarrow> v9 option" where
  "vp9_descriptor st packet =
     on_some (Some (on_ok (octet st (packet, 0)) (\<lambda>st (b, rd).
       (let st = vp9_flags b st in
        on_ok (if fi st then parse_picture_id st (rd, 1) else (st, Inr (rd, 1))) (\<lambda>st at.
        on_ok (if fl st then parse_layer_info st at else (st, Inr at)) (\<lambda>st at.
        if ff st \<and> fp st then parse_ref_indices st at else (st, Inr at)))))))
     (\<lambda>st at. if fv st then parse_ssdata st at else Some (st, Inr at))"

definition vp9_extra_default :: vp9_extra where
  "vp9_extra_default = \<lparr>layers_scheme = replicate MAX_SPATIAL_LAYERS None, v9_tid = None,
     layers_widths = replicate MAX_SPATIAL_LAYERS None, layers_heights = replicate MAX_SPATIAL_LAYERS None,
     v9_tl0_picture_id = None, pid = 0, v9_is_keyframe = False\<rparr>"

definition update_layers :: "vp9_depacketizer \<Rightarrow> vp9_extra \<Rightarrow> nat \<Rightarrow> nat \<Rightarrow> (packet_error + vp9_extra) option" where
  "update_layers st e out_len new_stop =
     (if fl st then do {
        stop \<leftarrow> idx (layers_scheme e) (unat (sid st));
        if stop \<noteq> None \<and> stop \<noteq> Some out_len then Some (Inl ErrVP9CorruptedPacket)
        else do {
          scheme \<leftarrow> put (layers_scheme e) (unat (sid st)) (Some new_stop);
          let e = e\<lparr>layers_scheme := scheme, v9_tid := Some (p9_tid st)\<rparr>;
          Some (Inr (if \<not> ff st then e\<lparr>v9_tl0_picture_id := Some (tl0picidx st)\<rparr> else e)) } }
      else Some (Inr e))"

definition update_extra :: "vp9_depacketizer \<Rightarrow> codec_extra \<Rightarrow> nat \<Rightarrow> nat \<Rightarrow> nat \<Rightarrow> (packet_error + codec_extra) option" where
  "update_extra st extra out_len packet_len payload_index =
     (let e = (case extra of Vp9Extra e \<Rightarrow> e | _ \<Rightarrow> vp9_extra_default) in
      if packet_len < payload_index then None
      else do { r \<leftarrow> update_layers st e out_len (out_len + packet_len - payload_index);
        Some (case r of Inl err' \<Rightarrow> Inl err'
          | Inr e \<Rightarrow> Inr (Vp9Extra (e\<lparr>pid := p9_id st, layers_widths := width st, layers_heights := height st,
              v9_is_keyframe := (v9_is_keyframe e \<or> \<not> fp st \<and> (sid st = 0 \<or> \<not> fl st) \<and> fb st)\<rparr>))) })"

definition vp9_depacketize :: "vp9_depacketizer \<Rightarrow> bytes \<Rightarrow> bytes \<Rightarrow> codec_extra \<Rightarrow> vp9_depacketizer depacked" where
  "vp9_depacketize st packet out extra =
     (if packet = [] then Some (st, out, extra, Inl ErrShortPacket)
      else case vp9_descriptor st packet of
          None \<Rightarrow> None
        | Some (st, Inl e) \<Rightarrow> Some (st, out, extra, Inl e)
        | Some (st, Inr (rd, payload_index)) \<Rightarrow>
            do { r \<leftarrow> update_extra st extra (length out) (length packet) payload_index;
                 case r of
                   Inl e \<Rightarrow> Some (st, out, extra, Inl e)
                 | Inr extra \<Rightarrow> do { data \<leftarrow> slice packet payload_index (length packet); Some (st, out @ data, extra, Inr ()) } })"

definition vp9_is_partition_head :: "bytes \<Rightarrow> bool" where
  "vp9_is_partition_head payload = (case payload of [] \<Rightarrow> False | b # _ \<Rightarrow> b AND 0x08 \<noteq> 0)"

section \<open>What is read\<close>

text \<open>The arrays keep their size; a layer that was read is one of the three.\<close>

definition shaped :: "vp9_depacketizer \<Rightarrow> bool" where
  "shaped st \<longleftrightarrow> length (width st) = MAX_SPATIAL_LAYERS \<and> length (height st) = MAX_SPATIAL_LAYERS"

definition layer_ok :: "vp9_depacketizer \<Rightarrow> bool" where
  "layer_ok st \<longleftrightarrow> (fl st \<longrightarrow> unat (sid st) < MAX_SPATIAL_LAYERS)"

definition vp9_errors :: "packet_error set" where
  "vp9_errors = {ErrShortPacket, ErrTooManySpatialLayers, ErrTooManyPDiff, ErrVP9CorruptedPacket}"

lemma vp9_errors_mem [simp]: "ErrShortPacket \<in> vp9_errors" "ErrTooManySpatialLayers \<in> vp9_errors" "ErrTooManyPDiff \<in> vp9_errors"
  "ErrVP9CorruptedPacket \<in> vp9_errors"
  by (simp_all add: vp9_errors_def)

abbreviation vp9_sound :: "(vp9_depacketizer \<Rightarrow> bool) \<Rightarrow> bytes \<Rightarrow> v9 \<Rightarrow> bool" where
  "vp9_sound P \<equiv> sound shaped vp9_errors P"

lemma shaped_update [simp]:
  "shaped (st\<lparr>p9_id := a\<rparr>) = shaped st" "shaped (st\<lparr>tl0picidx := b\<rparr>) = shaped st" "shaped (st\<lparr>pdiff := c\<rparr>) = shaped st"
  "shaped (st\<lparr>pgpdiff := d\<rparr>) = shaped st" "shaped (st\<lparr>ng := e\<rparr>) = shaped st" "shaped (st\<lparr>width := (width st)[i := x]\<rparr>) = shaped st"
  "shaped (st\<lparr>height := (height st)[i := x]\<rparr>) = shaped st" "shaped (st\<lparr>pgtid := f, pgu := g\<rparr>) = shaped st"
  "shaped (st\<lparr>p9_tid := h, pu := k, sid := l, pd := m\<rparr>) = shaped st" "shaped (st\<lparr>ns := n, py := q, pg := r, ng := s\<rparr>) = shaped st"
  "shaped (vp9_flags o' st) = shaped st"
  by (simp_all add: shaped_def vp9_flags_def)

lemma layer_ok_update [simp]:
  "layer_ok (st\<lparr>tl0picidx := b\<rparr>) = layer_ok st" "layer_ok (st\<lparr>pdiff := c\<rparr>) = layer_ok st"
  "layer_ok (st\<lparr>pgpdiff := d\<rparr>) = layer_ok st" "layer_ok (st\<lparr>ng := e\<rparr>) = layer_ok st" "layer_ok (st\<lparr>width := w\<rparr>) = layer_ok st"
  "layer_ok (st\<lparr>height := w\<rparr>) = layer_ok st" "layer_ok (st\<lparr>pgtid := f, pgu := g\<rparr>) = layer_ok st"
  "layer_ok (st\<lparr>ns := n, py := q, pg := r, ng := s\<rparr>) = layer_ok st"
  by (simp_all add: layer_ok_def)

lemmas vp9_octet = sound_octet [where A = shaped and E = vp9_errors, OF _ _ vp9_errors_mem(1)]

lemma sound_if_any: "shaped st \<Longrightarrow> vp9_sound P p r \<Longrightarrow> vp9_sound P p (if_any st rd r)"
  by (simp add: if_any_def)

lemma sound_picture_id: "shaped st \<Longrightarrow> stands p at \<Longrightarrow> vp9_sound (\<lambda>_. True) p (parse_picture_id st at)"
  unfolding parse_picture_id_def
  by (intro sound_if_any sound_octet; simp) (auto intro!: sound_if_any simp: octet_next stands_def)

lemma sound_layer_info: "shaped st \<Longrightarrow> stands p at \<Longrightarrow> vp9_sound layer_ok p (parse_layer_info st at)"
proof -
  assume st: "shaped st" and at: "stands p at"
  have "vp9_sound layer_ok p (parse_layer_info_common st at)"
    unfolding parse_layer_info_common_def
    by (intro sound_if_any sound_octet) (use st at in \<open>auto simp: Let_def layer_ok_def stands_def\<close>)
  moreover have "vp9_sound layer_ok p (parse_layer_info_non_flexible_mode st at)" if "shaped st" "layer_ok st" "stands p at" for st at
    unfolding parse_layer_info_non_flexible_mode_def
    by (intro sound_if_any sound_octet) (use that in \<open>auto simp: stands_def\<close>)
  ultimately show ?thesis unfolding parse_layer_info_def by (intro sound_on_ok [where P = layer_ok]) auto
qed

lemma sound_ref_loop: "shaped st \<Longrightarrow> layer_ok st \<Longrightarrow> stands p at \<Longrightarrow> vp9_sound layer_ok p (ref_loop st at)"
proof (induction st at rule: ref_loop.induct)
  case (1 st at)
  obtain n where at: "at = ((p, 8 * n), n)" "n \<le> length p" using 1(4) by (cases at) (auto simp: stands_def)
  show ?case
  proof (cases "n < length p")
    case True
    have g: "get_u8 (fst at) = Some (p ! n, (p, 8 * Suc n))" using True by (simp add: at get_u8_octet)
    have r: "remaining (fst at) \<noteq> 0" using True by (simp add: at remaining_octet)
    have s: "stands p ((p, 8 * Suc n), n + 1)" using True by (simp add: stands_def)
    show ?thesis
      using 1(1) [OF r g] 1(2,3) r g s by (subst ref_loop.simps) (simp add: Let_def at)
  qed (use 1(2) at in \<open>simp add: ref_loop.simps remaining_octet\<close>)
qed

text \<open>A stage that does not panic and is sound.\<close>

definition vp9_fine :: "(vp9_depacketizer \<Rightarrow> bool) \<Rightarrow> bytes \<Rightarrow> v9 option \<Rightarrow> bool" where
  "vp9_fine P p r \<longleftrightarrow> (\<exists>x. r = Some x \<and> vp9_sound P p x)"

lemma on_some_simps [simp]:
  "on_some None f = None" "on_some (Some (st, Inl e)) f = Some (st, Inl e)" "on_some (Some (st, Inr a)) f = f st a"
  by (simp_all add: on_some_def)

lemma fine_Some [simp]: "vp9_fine P p (Some x) = vp9_sound P p x"
  by (simp add: vp9_fine_def)

lemma fine_on_some:
  assumes "vp9_fine P p r" "\<And>s at. shaped s \<Longrightarrow> P s \<Longrightarrow> stands p at \<Longrightarrow> vp9_fine Q p (f s at)"
  shows "vp9_fine Q p (on_some r f)"
proof -
  obtain s x where r: "r = Some (s, x)" "vp9_sound P p (s, x)" using assms(1) by (auto simp: vp9_fine_def)
  show ?thesis using r assms(2) by (cases x) simp_all
qed

lemma fine_octet:
  assumes "stands p at" "shaped s" "\<And>b at'. stands p at' \<Longrightarrow> snd at' = snd at + 1 \<Longrightarrow> vp9_fine P p (f s (b, fst at'))"
  shows "vp9_fine P p (on_some (Some (octet s (fst at))) f)"
proof (cases "snd at < length p")
  case True
  then have "stands p ((p, 8 * Suc (snd at)), snd at + 1)" by (simp add: stands_def)
  then show ?thesis using assms(3) [of "((p, 8 * Suc (snd at)), snd at + 1)"] True by (simp add: octet_stands [OF assms(1)])
qed (use assms in \<open>simp add: octet_stands [OF assms(1)]\<close>)

text \<open>The resolutions are read into the arrays of three as long as there are no more than three layers.\<close>

lemma fine_size_loop:
  "shaped st \<Longrightarrow> layer_ok st \<Longrightarrow> k \<le> length p \<Longrightarrow> i + n \<le> MAX_SPATIAL_LAYERS \<Longrightarrow>
     \<exists>st' r. size_loop n i st (p, 8 * k) = Some (st', r) \<and> shaped st' \<and> layer_ok st'
       \<and> (case r of Inl e \<Rightarrow> e \<in> vp9_errors | Inr rd \<Rightarrow> rd = (p, 8 * (k + 4 * n)) \<and> k + 4 * n \<le> length p)"
proof (induction n arbitrary: i st k)
  case (Suc n)
  have nx: "get_u16 (p, 16 + 8 * k) = (if k + 3 < length p then Some (from_be16 (p ! (k + 2)) (p ! (k + 3)), (p, 32 + 8 * k)) else None)"
    using get_u16_octet [of p "k + 2"] by (simp add: eval_nat_numeral)
  have i: "i < length (width st)" "i < length (height st)" using Suc.prems(1,4) by (simp_all add: shaped_def)
  show ?case
  proof (cases "k + 3 < length p")
    case True
    define st2 where "st2 = st\<lparr>width := (width st)[i := Some (from_be16 (p ! k) (p ! Suc k))],
        height := (height st)[i := Some (from_be16 (p ! (k + 2)) (p ! (k + 3)))]\<rparr>"
    have e: "32 + 8 * k = 8 * (k + 4)" by simp
    have step: "size_loop (Suc n) i st (p, 8 * k) = size_loop n (i + 1) st2 (p, 8 * (k + 4))"
      using True i by (simp add: get_u16_octet nx Let_def st2_def e put_def)
    have s2: "shaped st2" "layer_ok st2" using Suc.prems(1,2) by (simp_all add: st2_def shaped_def layer_ok_def)
    have k: "k + 4 \<le> length p" "i + 1 + n \<le> MAX_SPATIAL_LAYERS" "k + 4 + 4 * n = k + 4 * Suc n" using True Suc.prems(4) by simp_all
    show ?thesis using Suc.IH [OF s2 k(1,2)] unfolding step k(3) .
  next
    case False
    then show ?thesis using Suc.prems i by (auto simp: get_u16_octet nx Let_def put_def)
  qed
qed (auto simp: stands_def)

text \<open>The lists of the pictures of a group: there is one for each picture read in this packet.\<close>

definition pictures_ok :: "nat \<Rightarrow> vp9_depacketizer \<Rightarrow> bool" where
  "pictures_ok i st \<longleftrightarrow> layer_ok st \<and> i \<le> length (pgpdiff st)"

lemma fine_pdiff_loop:
  "shaped st \<Longrightarrow> pictures_ok (Suc i) st \<Longrightarrow> stands p at \<Longrightarrow> vp9_fine (pictures_ok (Suc i)) p (pdiff_loop r i st at)"
proof (induction r arbitrary: st at)
  case (Suc r)
  show ?case unfolding pdiff_loop.simps
  proof (rule fine_octet [OF Suc.prems(3,1)])
    fix b at' assume "stands p at'" "snd at' = snd at + 1"
    then have at': "stands p (fst at', snd at + 1)" by (simp add: stands_def)
    have "idx (pgpdiff st) i = Some (pgpdiff st ! i)" using Suc.prems(2) by (simp add: pictures_ok_def idx_def)
    moreover have "vp9_fine (pictures_ok (Suc i)) p (pdiff_loop r i (st\<lparr>pgpdiff := (pgpdiff st)[i := pgpdiff st ! i @ [b]]\<rparr>) (fst at', snd at + 1))"
      using Suc.prems by (intro Suc.IH [OF _ _ at']) (simp_all add: pictures_ok_def)
    ultimately show "vp9_fine (pictures_ok (Suc i)) p (case (b, fst at') of (b, rd) \<Rightarrow> (case idx (pgpdiff st) i of None \<Rightarrow> None
        | Some xs \<Rightarrow> pdiff_loop r i (st\<lparr>pgpdiff := (pgpdiff st)[i := xs @ [b]]\<rparr>) (rd, snd at + 1)))" by simp
  qed
qed simp

lemma fine_group_loop:
  "shaped st \<Longrightarrow> pictures_ok i st \<Longrightarrow> stands p at \<Longrightarrow> vp9_fine layer_ok p (group_loop n i st at)"
proof (induction n arbitrary: i st at)
  case (Suc n)
  have body: "vp9_fine layer_ok p (on_some (Some (octet st (fst at))) (\<lambda>st (b, rd).
     (let st = st\<lparr>pgtid := pgtid st @ [drop_bit 5 b], pgu := pgu st @ [b AND 0x10 \<noteq> 0]\<rparr>;
          r = unat (drop_bit 2 b AND 0x3)
      in if remaining rd < r then Some (st, Inl ErrShortPacket)
         else on_some (pdiff_loop r i (st\<lparr>pgpdiff := pgpdiff st @ [[]]\<rparr>) (rd, snd at + 1)) (group_loop n (i + 1)))))"
  proof (rule fine_octet [OF Suc.prems(3,1)])
    fix b at' assume "stands p at'" "snd at' = snd at + 1"
    then have at': "stands p (fst at', snd at + 1)" by (simp add: stands_def)
    let ?st = "st\<lparr>pgtid := pgtid st @ [drop_bit 5 b], pgu := pgu st @ [b AND 0x10 \<noteq> 0]\<rparr>"
    have "vp9_fine layer_ok p (on_some (pdiff_loop r i (?st\<lparr>pgpdiff := pgpdiff st @ [[]]\<rparr>) (fst at', snd at + 1)) (group_loop n (i + 1)))" for r
      using Suc.prems by (intro fine_on_some [OF fine_pdiff_loop [OF _ _ at']] Suc.IH) (simp_all add: pictures_ok_def)
    then show "vp9_fine layer_ok p (case (b, fst at') of (b, rd) \<Rightarrow>
     (let st = st\<lparr>pgtid := pgtid st @ [drop_bit 5 b], pgu := pgu st @ [b AND 0x10 \<noteq> 0]\<rparr>;
          r = unat (drop_bit 2 b AND 0x3)
      in if remaining rd < r then Some (st, Inl ErrShortPacket)
         else on_some (pdiff_loop r i (st\<lparr>pgpdiff := pgpdiff st @ [[]]\<rparr>) (rd, snd at + 1)) (group_loop n (i + 1))))"
      using Suc.prems(1) by (simp add: Let_def)
  qed
  then show ?case using Suc.prems(1) by simp
qed (simp add: pictures_ok_def)

lemma fine_ssdata: "shaped st \<Longrightarrow> layer_ok st \<Longrightarrow> stands p at \<Longrightarrow> vp9_fine layer_ok p (parse_ssdata st at)"
proof (cases "remaining (fst at) = 0")
  case False
  assume st: "shaped st" "layer_ok st" and at: "stands p at"
  have "vp9_fine layer_ok p (on_some (Some (octet st (fst at))) (\<lambda>st (b, rd).
     (let st = st\<lparr>ns := drop_bit 5 b, py := (b AND 0x10 \<noteq> 0), pg := (drop_bit 1 b AND 0x7 \<noteq> 0), ng := 0\<rparr>;
          n = unat (ns st + 1)
      in if MAX_SPATIAL_LAYERS \<le> n then Some (st, Inl ErrVP9CorruptedPacket)
         else on_some (if py st then
                 if remaining rd < 4 * n then Some (st, Inl ErrShortPacket)
                 else on_some (size_loop n 0 st rd) (\<lambda>st rd. Some (st, Inr (rd, snd at + 1 + 4 * n)))
               else Some (st, Inr (rd, snd at + 1))) (\<lambda>st at.
              on_some (Some (if pg st then if_any st (fst at) (on_ok (octet st (fst at)) (\<lambda>st (b, rd). (st\<lparr>ng := b\<rparr>, Inr (rd, snd at + 1))))
                else (st, Inr at))) (\<lambda>st at.
              group_loop (unat (ng st)) 0 st at)))))" (is "vp9_fine _ _ (on_some _ ?f)")
  proof (rule fine_octet [OF at st(1)])
    fix b at' assume at': "stands p at'" "snd at' = snd at + 1"
    define st1 where "st1 = st\<lparr>ns := drop_bit 5 b, py := (b AND 0x10 \<noteq> 0), pg := (drop_bit 1 b AND 0x7 \<noteq> 0), ng := 0\<rparr>"
    define n where "n = unat (ns st1 + 1)"
    have s1: "shaped st1" "layer_ok st1" using st by (simp_all add: st1_def shaped_def layer_ok_def)
    have rd: "fst at' = (p, 8 * (snd at + 1))" "snd at + 1 \<le> length p" using at' by (simp_all add: stands_def)
    have sizes: "vp9_fine layer_ok p (on_some (size_loop n 0 st1 (fst at')) (\<lambda>st rd. Some (st, Inr (rd, snd at + 1 + 4 * n))))"
      if n3: "n < MAX_SPATIAL_LAYERS"
    proof -
      have "0 + n \<le> MAX_SPATIAL_LAYERS" using n3 by simp
      from fine_size_loop [OF s1 rd(2) this] obtain st2 r where "size_loop n 0 st1 (fst at') = Some (st2, r)" "shaped st2" "layer_ok st2"
          "case r of Inl e \<Rightarrow> e \<in> vp9_errors | Inr rd \<Rightarrow> rd = (p, 8 * (snd at + 1 + 4 * n)) \<and> snd at + 1 + 4 * n \<le> length p"
        unfolding rd(1) by blast
      then show ?thesis by (cases r) (auto simp: stands_def)
    qed
    have group: "vp9_fine layer_ok p (on_some (Some (if pg st then if_any st (fst at) (on_ok (octet st (fst at)) (\<lambda>st (b, rd). (st\<lparr>ng := b\<rparr>, Inr (rd, snd at + 1))))
        else (st, Inr at))) (\<lambda>st at. group_loop (unat (ng st)) 0 st at))"
      if g: "shaped st" "layer_ok st" "stands p at" for st at
    proof (rule fine_on_some [where P = layer_ok])
      have "vp9_sound layer_ok p (on_ok (octet st (fst at)) (\<lambda>st (b, rd). (st\<lparr>ng := b\<rparr>, Inr (rd, snd at + 1))))"
        by (rule vp9_octet [OF g(3,1)]) (use g in \<open>auto simp: stands_def\<close>)
      then show "vp9_fine layer_ok p (Some (if pg st then if_any st (fst at) (on_ok (octet st (fst at)) (\<lambda>st (b, rd). (st\<lparr>ng := b\<rparr>, Inr (rd, snd at + 1))))
          else (st, Inr at)))" using g sound_if_any by simp
    qed (intro fine_group_loop; simp add: pictures_ok_def)
    have first: "vp9_fine layer_ok p (if py st1 then
          if remaining (fst at') < 4 * n then Some (st1, Inl ErrShortPacket)
          else on_some (size_loop n 0 st1 (fst at')) (\<lambda>st rd. Some (st, Inr (rd, snd at + 1 + 4 * n)))
        else Some (st1, Inr (fst at', snd at + 1)))" if "n < MAX_SPATIAL_LAYERS"
      using s1 sizes [OF that] at' by (simp add: stands_def)
    show "vp9_fine layer_ok p (?f st (b, fst at'))"
      unfolding prod.case Let_def st1_def [symmetric] n_def [symmetric]
    proof (cases "MAX_SPATIAL_LAYERS \<le> n")
      case True
      then show "vp9_fine layer_ok p (if MAX_SPATIAL_LAYERS \<le> n then Some (st1, Inl ErrVP9CorruptedPacket)
        else on_some (if py st1 then
                 if remaining (fst at') < 4 * n then Some (st1, Inl ErrShortPacket)
                 else on_some (size_loop n 0 st1 (fst at')) (\<lambda>st rd. Some (st, Inr (rd, snd at + 1 + 4 * n)))
               else Some (st1, Inr (fst at', snd at + 1))) (\<lambda>st at.
              on_some (Some (if pg st then if_any st (fst at) (on_ok (octet st (fst at)) (\<lambda>st (b, rd). (st\<lparr>ng := b\<rparr>, Inr (rd, snd at + 1))))
                else (st, Inr at))) (\<lambda>st at.
              group_loop (unat (ng st)) 0 st at)))" using s1(1) by simp
    next
      case False
      then have "n < MAX_SPATIAL_LAYERS" by simp
      from fine_on_some [OF first [OF this] group]
      show "vp9_fine layer_ok p (if MAX_SPATIAL_LAYERS \<le> n then Some (st1, Inl ErrVP9CorruptedPacket)
        else on_some (if py st1 then
                 if remaining (fst at') < 4 * n then Some (st1, Inl ErrShortPacket)
                 else on_some (size_loop n 0 st1 (fst at')) (\<lambda>st rd. Some (st, Inr (rd, snd at + 1 + 4 * n)))
               else Some (st1, Inr (fst at', snd at + 1))) (\<lambda>st at.
              on_some (Some (if pg st then if_any st (fst at) (on_ok (octet st (fst at)) (\<lambda>st (b, rd). (st\<lparr>ng := b\<rparr>, Inr (rd, snd at + 1))))
                else (st, Inr at))) (\<lambda>st at.
              group_loop (unat (ng st)) 0 st at)))" using False by (simp only: if_False)
    qed
  qed
  then show ?thesis using False by (simp add: parse_ssdata_def)
qed (simp add: parse_ssdata_def)

lemma vp9_fine_descriptor: "packet \<noteq> [] \<Longrightarrow> shaped st \<Longrightarrow> vp9_fine layer_ok packet (vp9_descriptor st packet)"
proof -
  assume p: "packet \<noteq> []" and st: "shaped st"
  define st1 where "st1 = vp9_flags (hd packet) st"
  have s1: "shaped st1" and at: "stands packet ((packet, 8), 1)" using st p by (cases packet; simp add: st1_def stands_def)+
  have refs: "vp9_sound layer_ok packet (if ff st \<and> fp st then parse_ref_indices st at else (st, Inr at))"
    if "shaped st" "layer_ok st" "stands packet at" for st at
    using that sound_ref_loop by (auto simp: parse_ref_indices_def)
  have ss: "vp9_fine layer_ok packet (if fv st then parse_ssdata st at else Some (st, Inr at))"
    if "shaped st" "layer_ok st" "stands packet at" for st at
    using that fine_ssdata by auto
  have li: "vp9_sound layer_ok packet (if fl st then parse_layer_info st at else (st, Inr at))"
    if "shaped st" "stands packet at" for st at
    using that sound_layer_info by (auto simp: layer_ok_def)
  have pi: "vp9_sound (\<lambda>_. True) packet (if fi st1 then parse_picture_id st1 ((packet, 8), 1) else (st1, Inr ((packet, 8), 1)))"
    using sound_picture_id [OF s1 at] s1 at by simp
  have "vp9_sound layer_ok packet (on_ok (if fi st1 then parse_picture_id st1 ((packet, 8), 1) else (st1, Inr ((packet, 8), 1)))
      (\<lambda>st at. on_ok (if fl st then parse_layer_info st at else (st, Inr at))
      (\<lambda>st at. if ff st \<and> fp st then parse_ref_indices st at else (st, Inr at))))"
    by (intro sound_on_ok [OF pi] sound_on_ok [where P = layer_ok] li refs)
  then have "vp9_fine layer_ok packet (Some (on_ok (octet st (packet, 0)) (\<lambda>st (b, rd).
       (let st = vp9_flags b st in
        on_ok (if fi st then parse_picture_id st (rd, 1) else (st, Inr (rd, 1))) (\<lambda>st at.
        on_ok (if fl st then parse_layer_info st at else (st, Inr at)) (\<lambda>st at.
        if ff st \<and> fp st then parse_ref_indices st at else (st, Inr at)))))))"
    by (simp only: octet_0 p if_True simp_thms on_ok_simps prod.case Let_def st1_def [symmetric] fine_Some)
  then show ?thesis unfolding vp9_descriptor_def by (rule fine_on_some) (rule ss)
qed

text \<open>C34. Whatever arrives, the VP9 depacketizer does not panic - its arrays of three layers are never indexed outside -
  and a packet it accepts adds a rest of itself to the frame.
\<close>

theorem vp9_depacketize_total:
  assumes "shaped st" "case extra of Vp9Extra e \<Rightarrow> length (layers_scheme e) = MAX_SPATIAL_LAYERS | _ \<Rightarrow> True"
  shows "\<exists>st' data extra' r hdr. vp9_depacketize st packet out extra = Some (st', out @ data, extra', r) \<and> packet = hdr @ data
    \<and> shaped st' \<and> (case extra' of Vp9Extra e \<Rightarrow> length (layers_scheme e) = MAX_SPATIAL_LAYERS | _ \<Rightarrow> True)"
proof (cases "packet = []")
  case False
  obtain st1 r where d: "vp9_descriptor st packet = Some (st1, r)" and s: "vp9_sound layer_ok packet (st1, r)"
    using vp9_fine_descriptor [OF False assms(1)] by (auto simp: vp9_fine_def)
  show ?thesis
  proof (cases r)
    case (Inl e)
    then show ?thesis using d False s assms(2) by (simp add: vp9_depacketize_def)
  next
    case (Inr at)
    obtain rd n where at: "at = (rd, n)" by fastforce
    then have n: "n \<le> length packet" "shaped st1" "layer_ok st1" using s Inr by (auto simp: stands_def)
    define e where "e = (case extra of Vp9Extra e \<Rightarrow> e | _ \<Rightarrow> vp9_extra_default)"
    have l: "length (layers_scheme e) = MAX_SPATIAL_LAYERS"
      using assms(2) by (auto simp: e_def vp9_extra_default_def split: codec_extra.splits)
    obtain r1 where u: "update_layers st1 e (length out) (length out + length packet - n) = Some r1"
      "\<And>e'. r1 = Inr e' \<Longrightarrow> length (layers_scheme e') = MAX_SPATIAL_LAYERS"
    proof (cases "fl st1")
      case True
      then have "idx (layers_scheme e) (unat (sid st1)) = Some (layers_scheme e ! unat (sid st1))"
        "put (layers_scheme e) (unat (sid st1)) v = Some ((layers_scheme e)[unat (sid st1) := v])" for v
        using l n(3) by (simp_all add: layer_ok_def idx_def put_def)
      then show ?thesis using that l True
        by (cases "layers_scheme e ! unat (sid st1) \<in> {None, Some (length out)}") (auto simp: update_layers_def Let_def)
    qed (use that l in \<open>simp add: update_layers_def\<close>)
    have sl: "slice packet n (length packet) = Some (drop n packet)" using n(1) by (simp add: slice_def)
    have h: "\<exists>hdr. packet = hdr @ drop n packet" by (metis append_take_drop_id)
    show ?thesis
      using d Inr at False n u assms(2) sl h
      by (cases r1) (auto simp: vp9_depacketize_def update_extra_def e_def [symmetric])
  qed
qed (use assms in \<open>simp add: vp9_depacketize_def\<close>)

section \<open>A frame there and back\<close>

fun vp9_packets :: "u16 \<Rightarrow> bool \<Rightarrow> bytes list \<Rightarrow> bytes list" where
  "vp9_packets p first [] = []"
| "vp9_packets p first (f # fs) = (vp9_header p first (fs = []) @ f) # vp9_packets p False fs"

lemma vp9_loop_fragments:
  assumes "0 < m"
  shows "vp9_loop p m (pre @ xs) (length xs) (length pre) = Some (vp9_packets p (pre = []) (fragments m xs))"
proof (induction "length xs" arbitrary: pre xs rule: less_induct)
  case less
  show ?case
  proof (cases "xs = []")
    case True
    then show ?thesis by (simp add: vp9_loop.simps fragments.cut_Nil)
  next
    case False
    let ?f = "take m xs" and ?r = "drop m xs"
    have sl: "slice (pre @ xs) (length pre) (length pre + min m (length xs)) = Some ?f" by (cases "m \<le> length xs") (simp_all add: slice_def)
    have "?f \<noteq> []" using False assms by simp
    moreover have "vp9_loop p m ((pre @ ?f) @ ?r) (length ?r) (length (pre @ ?f)) = Some (vp9_packets p (pre @ ?f = []) (fragments m ?r))"
      using False assms by (intro less.hyps) simp
    moreover have "(pre @ ?f) @ ?r = pre @ xs" "length (pre @ ?f) = length pre + min m (length xs)" "length ?r = length xs - min m (length xs)"
      by (simp_all add: min.commute)
    ultimately have rest: "vp9_loop p m (pre @ xs) (length xs - min m (length xs)) (length pre + min m (length xs))
      = Some (vp9_packets p False (fragments m ?r))" by (metis append_is_Nil_conv)
    have "fragments m ?r = [] \<longleftrightarrow> length xs = min m (length xs)" using fragments.cut_empty [OF assms, of ?r] by auto
    then show ?thesis
      using False assms fragments.cut_step [OF assms False]
      by (subst vp9_loop.simps) (simp add: Let_def sl rest)
  qed
qed

lemma vp9_depacketize_total_witness:
  "\<exists>st' data extra' r hdr. vp9_depacketize vp9_depacketizer_new [0xFF, 1, 2] [] NoExtra = Some (st', [] @ data, extra', r)
    \<and> [0xFF, 1, 2] = hdr @ data"
  using vp9_depacketize_total [of vp9_depacketizer_new NoExtra "[0xFF, 1, 2]" "[]"]
  by (auto simp: shaped_def vp9_depacketizer_new_def MAX_SPATIAL_LAYERS_def MAX_VP9REF_PICS_def)

lemma id_15: "push_bit 8 (ucast (((ucast (drop_bit 8 p) :: u8) OR 0x80) AND 0x7F)) OR ucast (ucast (p AND 0xFF) :: u8) = (p :: u16) AND 0x7FFF"
proof -
  have m: "(0x7F :: u8) = mask 7" "(0xFF :: u16) = mask 8" "(0x7FFF :: u16) = mask 15" by (simp_all add: mask_eq_exp_minus_1)
  have "push_bit 8 (ucast (((ucast (drop_bit 8 p) :: u8) OR c) AND mask 7)) OR ucast (ucast (p AND mask 8) :: u8) = p AND mask 15"
    if "\<And>j. bit c j \<longleftrightarrow> j = 7" for c
    by (rule bit_word_eqI) (auto simp: bit_simps that)
  from this [OF bit_0x80] show ?thesis by (simp only: m)
qed

lemma vp9_octets:
  "(0x90 OR (if a then 0x08 else 0) OR (if c then 0x04 else 0) :: u8) AND 0x80 \<noteq> 0" "(0x90 OR (if a then 0x08 else 0) OR (if c then 0x04 else 0) :: u8) AND 0x40 = 0"
  "(0x90 OR (if a then 0x08 else 0) OR (if c then 0x04 else 0) :: u8) AND 0x20 = 0" "(0x90 OR (if a then 0x08 else 0) OR (if c then 0x04 else 0) :: u8) AND 0x10 \<noteq> 0"
  "(0x90 OR (if a then 0x08 else 0) OR (if c then 0x04 else 0) :: u8) AND 0x08 \<noteq> 0 \<longleftrightarrow> a" "(0x90 OR (if a then 0x08 else 0) OR (if c then 0x04 else 0) :: u8) AND 0x02 = 0"
  by simp_all

definition told :: "u16 \<Rightarrow> bool \<Rightarrow> codec_extra \<Rightarrow> bool" where
  "told p key extra = (case extra of Vp9Extra e \<Rightarrow> pid e = p AND 0x7FFF \<and> v9_is_keyframe e = key | _ \<Rightarrow> False)"

definition v9_key_so_far :: "codec_extra \<Rightarrow> bool" where
  "v9_key_so_far extra = (case extra of Vp9Extra e \<Rightarrow> v9_is_keyframe e | _ \<Rightarrow> False)"

lemma vp9_packet_read:
  "\<exists>st' extra'. vp9_depacketize st (vp9_header p first final @ data) out extra = Some (st', out @ data, extra', Inr ())
    \<and> told p (v9_key_so_far extra \<or> first) extra'"
proof -
  let ?b0 = "0x90 OR (if first then 0x08 else 0) OR (if final then 0x04 else 0) :: u8"
  let ?p = "vp9_header p first final @ data"
  define st1 where "st1 = vp9_flags ?b0 st"
  have f: "fi st1" "\<not> fp st1" "\<not> fl st1" "\<not> fv st1" "fb st1 \<longleftrightarrow> first" using vp9_octets [of first final] by (simp_all add: st1_def vp9_flags_def)
  have p: "?p = [?b0, ucast (drop_bit 8 p) OR 0x80, ucast (p AND 0xFF)] @ data" by (simp add: vp9_header_def)
  have o: "octet s (?p, 0) = (s, Inr (?b0, (?p, 8)))" "octet s (?p, 8) = (s, Inr (ucast (drop_bit 8 p) OR 0x80, (?p, 16)))"
    "octet s (?p, 16) = (s, Inr (ucast (p AND 0xFF), (?p, 24)))" for s :: vp9_depacketizer
    using octet_at [of s ?p 0] octet_at [of s ?p 1] octet_at [of s ?p 2] by (simp_all add: p)
  have r: "remaining (?p, 8) \<noteq> 0" "remaining (?p, 16) \<noteq> 0" by (simp_all add: remaining_def p)
  have x: "((ucast (drop_bit 8 p) :: u8) OR 0x80) AND 0x80 \<noteq> 0" by (simp add: or_0x80)
  have "parse_picture_id st1 ((?p, 8), 1) = (st1\<lparr>p9_id := p AND 0x7FFF\<rparr>, Inr ((?p, 24), 3))"
    using x by (simp add: parse_picture_id_def if_any_def r o id_15 [simplified])
  then have d: "vp9_descriptor st ?p = Some (st1\<lparr>p9_id := p AND 0x7FFF\<rparr>, Inr ((?p, 24), 3))"
    using f by (simp add: vp9_descriptor_def o st1_def [symmetric] Let_def)
  have sl: "slice ?p 3 (length ?p) = Some data" by (simp add: slice_def p)
  have l: "\<not> length ?p < 3" "?p \<noteq> []" by (simp_all add: p)
  show ?thesis
    using f sl l by (auto simp: vp9_depacketize_def d update_extra_def update_layers_def told_def v9_key_so_far_def
        vp9_extra_default_def Let_def split: codec_extra.splits)
qed

lemma vp9_packets_read:
  "\<exists>st' extra'. depack_all vp9_depacketize st (vp9_packets p first fs) out extra = Some (st', out @ concat fs, extra', Inr ())
    \<and> (fs \<noteq> [] \<longrightarrow> told p (v9_key_so_far extra \<or> first) extra')"
proof (induction fs arbitrary: st out extra first)
  case (Cons f fs)
  obtain st1 extra1 where p: "vp9_depacketize st (vp9_header p first (fs = []) @ f) out extra = Some (st1, out @ f, extra1, Inr ())"
    "told p (v9_key_so_far extra \<or> first) extra1"
    using vp9_packet_read by blast
  have k: "v9_key_so_far extra1 \<longleftrightarrow> v9_key_so_far extra \<or> first"
    using p(2) by (auto simp: told_def v9_key_so_far_def split: codec_extra.splits)
  show ?case using Cons.IH [of st1 False "out @ f" extra1] p by (cases "fs = []") (auto simp: k)
qed simp

text \<open>
  A frame cut into VP9 packets is put together again by any state of the depacketizer, with its picture id; and
  every frame is told to be a key frame, since the packetizer never marks one as predicted.
\<close>

theorem vp9_roundtrip:
  assumes "frame \<noteq> []" "3 < mtu" "p = (if initialized pk then v9_picture_id pk else rng AND 0x7FFF)"
  shows "\<exists>ps st' e. vp9_packetize rng pk mtu frame = Some (\<lparr>v9_picture_id = (p + 1) AND 0x7FFF, initialized = True\<rparr>, ps)
    \<and> depack_all vp9_depacketize st ps [] NoExtra = Some (st', frame, Vp9Extra e, Inr ())
    \<and> pid e = p AND 0x7FFF \<and> v9_is_keyframe e \<and> list_all (\<lambda>q. length q \<le> mtu) ps"
proof -
  have m: "0 < mtu - 3" using assms(2) by simp
  obtain f fs where fr: "fragments (mtu - 3) frame = f # fs" using fragments.cut_step [OF m assms(1)] by simp
  have p: "vp9_packetize rng pk mtu frame = Some (\<lparr>v9_picture_id = (p + 1) AND 0x7FFF, initialized = True\<rparr>, vp9_packets p True (f # fs))"
    using vp9_loop_fragments [OF m, of p "[]" frame] fr assms by (cases pk) (auto simp: vp9_packetize_def VP9HEADER_SIZE_def Let_def)
  have j: "concat (f # fs) = frame" using fragments.cut_joins [OF m, of frame] fr by simp
  obtain st' extra where d: "depack_all vp9_depacketize st (vp9_packets p True (f # fs)) [] NoExtra = Some (st', frame, extra, Inr ())"
    "told p True extra"
    using vp9_packets_read [of st p True "f # fs" "[]" NoExtra] j by auto
  have "list_all (\<lambda>q. length q \<le> mtu) (vp9_packets p b gs)" if "list_all (\<lambda>g. length g \<le> mtu - 3) gs" for b gs
    using that assms(2) by (induction gs arbitrary: b) (auto simp: vp9_header_def)
  then have b: "list_all (\<lambda>q. length q \<le> mtu) (vp9_packets p True (f # fs))"
    using fragments.cut_sizes [OF m, of _ frame] fr by (metis list_all_iff)
  show ?thesis using p d b by (auto simp: told_def split: codec_extra.splits)
qed

lemma vp9_roundtrip_witness:
  "\<exists>ps st' e. vp9_packetize 7 \<lparr>v9_picture_id = 0, initialized = False\<rparr> 5 [1, 2, 3, 4, 5] = Some (\<lparr>v9_picture_id = 8, initialized = True\<rparr>, ps)
    \<and> depack_all vp9_depacketize vp9_depacketizer_new ps [] NoExtra = Some (st', [1, 2, 3, 4, 5], Vp9Extra e, Inr ())
    \<and> pid e = 7 \<and> v9_is_keyframe e"
  using vp9_roundtrip [of "[1, 2, 3, 4, 5]" 5 7 "\<lparr>v9_picture_id = 0, initialized = False\<rparr>" 7 vp9_depacketizer_new] by auto

section \<open>What is refused\<close>

text \<open>Every stage but the reference indices leaves the list of them and the two flags alone.\<close>

definition kept :: "vp9_depacketizer \<Rightarrow> u8 list \<times> bool \<times> bool" where
  "kept st = (pdiff st, ff st, fp st)"

lemma kept_updates [simp]:
  "kept (st\<lparr>p9_id := x0\<rparr>) = kept st"
  "kept (st\<lparr>p9_tid := x1\<rparr>) = kept st"
  "kept (st\<lparr>pu := x2\<rparr>) = kept st"
  "kept (st\<lparr>sid := x3\<rparr>) = kept st"
  "kept (st\<lparr>pd := x4\<rparr>) = kept st"
  "kept (st\<lparr>tl0picidx := x5\<rparr>) = kept st"
  "kept (st\<lparr>ns := x6\<rparr>) = kept st"
  "kept (st\<lparr>py := x7\<rparr>) = kept st"
  "kept (st\<lparr>pg := x8\<rparr>) = kept st"
  "kept (st\<lparr>ng := x9\<rparr>) = kept st"
  "kept (st\<lparr>width := x10\<rparr>) = kept st"
  "kept (st\<lparr>height := x11\<rparr>) = kept st"
  "kept (st\<lparr>pgtid := x12\<rparr>) = kept st"
  "kept (st\<lparr>pgu := x13\<rparr>) = kept st"
  "kept (st\<lparr>pgpdiff := x14\<rparr>) = kept st"
  by (simp_all add: kept_def)

lemma on_ok_kept: "kept (fst r) = d \<Longrightarrow> (\<And>s a. kept s = d \<Longrightarrow> kept (fst (f s a)) = d) \<Longrightarrow> kept (fst (on_ok r f)) = d"
  by (cases r; cases "snd r") auto

lemma octet_kept [simp]: "kept (fst (octet st rd)) = kept st"
  by (simp add: octet_def)

lemma if_any_kept: "kept st = d \<Longrightarrow> kept (fst r) = d \<Longrightarrow> kept (fst (if_any st rd r)) = d"
  by (simp add: if_any_def)

text \<open>A stage that may panic keeps them when it does not.\<close>

definition keeps :: "u8 list \<times> bool \<times> bool \<Rightarrow> (vp9_depacketizer, 'a) parsed option \<Rightarrow> bool" where
  "keeps d r \<longleftrightarrow> (\<forall>x. r = Some x \<longrightarrow> kept (fst x) = d)"

lemma keeps_simps [simp]: "keeps d None" "keeps d (Some x) \<longleftrightarrow> kept (fst x) = d"
  by (auto simp: keeps_def)

lemma keeps_on_some:
  assumes "keeps d r" "\<And>s a. kept s = d \<Longrightarrow> keeps d (f s a)"
  shows "keeps d (on_some r f)"
proof (cases r)
  case (Some x)
  obtain s v where "x = (s, v)" by (cases x)
  then show ?thesis using Some assms by (cases v) auto
qed simp

lemma keeps_if: "(c \<Longrightarrow> keeps d x) \<Longrightarrow> (\<not> c \<Longrightarrow> keeps d y) \<Longrightarrow> keeps d (if c then x else y)"
  by simp

lemma size_loop_keeps: "kept st = d \<Longrightarrow> keeps d (size_loop n i st rd)"
  by (induction n arbitrary: i st rd) (simp_all add: Let_def split: option.splits)

lemma pdiff_loop_keeps: "kept st = d \<Longrightarrow> keeps d (pdiff_loop r i st at)"
proof (induction r arbitrary: st at)
  case (Suc r)
  then show ?case unfolding pdiff_loop.simps by (intro keeps_on_some) (auto split: option.splits)
qed simp

lemma group_loop_keeps: "kept st = d \<Longrightarrow> keeps d (group_loop n i st at)"
proof (induction n arbitrary: i st at)
  case (Suc n)
  have "keeps d (on_some (pdiff_loop r i (s\<lparr>pgtid := t, pgu := u, pgpdiff := q\<rparr>) at) (group_loop n (i + 1)))" if "kept s = d" for s r t u q at
    by (rule keeps_on_some [OF pdiff_loop_keeps Suc.IH]) (use that in simp_all)
  then show ?case
    using Suc.prems unfolding group_loop.simps
    by (cases "remaining (fst at) = 0") (auto simp: Let_def intro!: keeps_on_some)
qed simp

lemma stages_kept:
  "kept (fst (parse_picture_id st at)) = kept st" "kept (fst (parse_layer_info st at)) = kept st"
proof -
  show "kept (fst (parse_picture_id st at)) = kept st"
    unfolding parse_picture_id_def by (intro if_any_kept on_ok_kept) (auto intro!: if_any_kept on_ok_kept)
  show "kept (fst (parse_layer_info st at)) = kept st"
    unfolding parse_layer_info_def parse_layer_info_common_def parse_layer_info_non_flexible_mode_def
    by (intro if_any_kept on_ok_kept) (auto simp: Let_def intro!: if_any_kept on_ok_kept)
qed

lemma ssdata_keeps: "kept st = d \<Longrightarrow> keeps d (parse_ssdata st at)"
proof -
  assume st: "kept st = d"
  have pictures: "keeps d (on_some (Some (if pg s then if_any s (fst at) (on_ok (octet s (fst at)) (\<lambda>st (b, rd). (st\<lparr>ng := b\<rparr>, Inr (rd, snd at + 1))))
      else (s, Inr at))) (\<lambda>st at. group_loop (unat (ng st)) 0 st at))" if "kept s = d" for s at
    by (rule keeps_on_some [OF _ group_loop_keeps]) (use that in \<open>auto intro!: if_any_kept on_ok_kept\<close>)
  have sizes: "keeps d (on_some (size_loop n 0 s rd) (\<lambda>st rd. Some (st, Inr (rd, k))))" if "kept s = d" for n s rd k
    by (rule keeps_on_some [OF size_loop_keeps]) (use that in simp_all)
  show ?thesis unfolding parse_ssdata_def
  proof (intro keeps_if keeps_on_some [where r = "Some (octet st (fst at))"])
    fix s and a :: "u8 \<times> reader" assume s: "kept s = d"
    obtain b rd where a: "a = (b, rd)" by (cases a) auto
    show "keeps d (case a of (b, rd) \<Rightarrow>
     (let st = s\<lparr>ns := drop_bit 5 b, py := (b AND 0x10 \<noteq> 0), pg := (drop_bit 1 b AND 0x7 \<noteq> 0), ng := 0\<rparr>;
          n = unat (ns st + 1)
      in if MAX_SPATIAL_LAYERS \<le> n then Some (st, Inl ErrVP9CorruptedPacket)
         else on_some (if py st then
                 if remaining rd < 4 * n then Some (st, Inl ErrShortPacket)
                 else on_some (size_loop n 0 st rd) (\<lambda>st rd. Some (st, Inr (rd, snd at + 1 + 4 * n)))
               else Some (st, Inr (rd, snd at + 1))) (\<lambda>st at.
              on_some (Some (if pg st then if_any st (fst at) (on_ok (octet st (fst at)) (\<lambda>st (b, rd). (st\<lparr>ng := b\<rparr>, Inr (rd, snd at + 1))))
                else (st, Inr at))) (\<lambda>st at. group_loop (unat (ng st)) 0 st at))))"
      unfolding a prod.case Let_def
      by (intro keeps_if keeps_on_some [OF _ pictures] sizes) (simp_all add: s)
  qed (simp_all add: st)
qed

lemma ref_loop_pdiff:
  "length (pdiff st) \<le> length (pdiff (fst (ref_loop st at)))"
  "snd (ref_loop st at) = Inr at' \<Longrightarrow> length (pdiff st) < length (pdiff (fst (ref_loop st at))) \<and> length (pdiff (fst (ref_loop st at))) < MAX_VP9REF_PICS"
proof (induction st at rule: ref_loop.induct)
  case (1 st at)
  {
    case 1
    show ?case using "1.IH"(1) by (subst ref_loop.simps) (fastforce simp: Let_def split: option.splits)
  next
    case 2
    then show ?case using "1.IH"(2) by (subst (asm) ref_loop.simps, subst (1 2) ref_loop.simps) (fastforce simp: Let_def split: option.splits if_splits)
  }
qed

definition predicted :: "bytes \<Rightarrow> bool" where
  "predicted packet \<longleftrightarrow> packet \<noteq> [] \<and> hd packet AND 0x10 \<noteq> 0 \<and> hd packet AND 0x40 \<noteq> 0"

lemma descriptor_pdiff:
  assumes "packet \<noteq> []" "vp9_descriptor st packet = Some (st', r)"
  shows "length (pdiff st) \<le> length (pdiff st')"
    and "predicted packet \<Longrightarrow> r = Inr at \<Longrightarrow> length (pdiff st) < length (pdiff st') \<and> length (pdiff st') < MAX_VP9REF_PICS"
proof -
  define st1 where "st1 = vp9_flags (hd packet) st"
  have p1: "pdiff st1 = pdiff st" by (simp add: st1_def vp9_flags_def)
  have fl: "predicted packet \<Longrightarrow> ff st1 \<and> fp st1" using assms(1) by (auto simp: st1_def vp9_flags_def predicted_def)
  define a where "a = on_ok (if fi st1 then parse_picture_id st1 ((packet, 8), 1) else (st1, Inr ((packet, 8), 1)))
      (\<lambda>st at. if fl st then parse_layer_info st at else (st, Inr at))"
  define b where "b = on_ok a (\<lambda>st at. if ff st \<and> fp st then parse_ref_indices st at else (st, Inr at))"
  have d: "vp9_descriptor st packet = on_some (Some b) (\<lambda>st at. if fv st then parse_ssdata st at else Some (st, Inr at))"
  proof -
    have assoc: "on_ok (on_ok x f) g = on_ok x (\<lambda>s v. on_ok (f s v) g)" for x :: v9 and f :: "vp9_depacketizer \<Rightarrow> reader \<times> nat \<Rightarrow> v9" and g :: "vp9_depacketizer \<Rightarrow> reader \<times> nat \<Rightarrow> v9"
      by (cases x; cases "snd x") auto
    show ?thesis
      by (simp only: vp9_descriptor_def octet_0 assms(1) if_True simp_thms on_ok_simps prod.case Let_def st1_def [symmetric] a_def b_def assoc)
  qed
  have ka: "kept (fst a) = kept st1"
    unfolding a_def by (rule on_ok_kept) (auto simp: stages_kept)
  then have a: "pdiff (fst a) = pdiff st" by (simp add: kept_def p1)
  have b: "length (pdiff st) \<le> length (pdiff (fst b))"
    using a unfolding b_def parse_ref_indices_def
    by (cases a; cases "snd a") (auto simp: on_ok_def intro!: order_trans [OF _ ref_loop_pdiff(1)])
  have keep: "pdiff st' = pdiff (fst b)"
  proof -
    have "keeps (kept (fst b)) (vp9_descriptor st packet)" unfolding d
      by (rule keeps_on_some) (auto intro!: ssdata_keeps)
    then show ?thesis using assms(2) by (simp add: kept_def)
  qed
  show "length (pdiff st) \<le> length (pdiff st')" using b keep assms(2) by simp
  assume pr: "predicted packet" and r: "r = Inr at"
  obtain s2 at2 where b2: "b = (s2, Inr at2)" using assms(2) r unfolding d by (cases b; cases "snd b") auto
  obtain s1 at1 where a2: "a = (s1, Inr at1)" using b2 unfolding b_def by (cases a; cases "snd a") auto
  have same: "ff s1 = ff st1 \<and> fp s1 = fp st1"
    using ka a2 by (simp add: kept_def)
  show "length (pdiff st) < length (pdiff st') \<and> length (pdiff st') < MAX_VP9REF_PICS"
    using ref_loop_pdiff(2) [of s1 at1 at2] b2 a2 a same fl [OF pr] keep assms(2) by (auto simp: b_def parse_ref_indices_def)
qed

text \<open>A stream in which each packet is read for itself, errors skipped: the packets that were accepted.\<close>

fun vp9_accepted :: "vp9_depacketizer \<Rightarrow> bytes list \<Rightarrow> bytes list" where
  "vp9_accepted st [] = []"
| "vp9_accepted st (p # ps) =
     (case vp9_depacketize st p [] NoExtra of
        None \<Rightarrow> []
      | Some (st, _, _, Inl _) \<Rightarrow> vp9_accepted st ps
      | Some (st, _, _, Inr _) \<Rightarrow> p # vp9_accepted st ps)"

lemma depacketize_pdiff:
  assumes "vp9_depacketize st p out extra = Some (st', out', extra', r)"
  shows "length (pdiff st) \<le> length (pdiff st')"
    and "r = Inr u \<Longrightarrow> predicted p \<Longrightarrow> length (pdiff st) < length (pdiff st') \<and> length (pdiff st') < MAX_VP9REF_PICS"
proof -
  have origin: "(p = [] \<and> st' = st \<and> r = Inl ErrShortPacket)
      \<or> (\<exists>r1. p \<noteq> [] \<and> vp9_descriptor st p = Some (st', r1) \<and> (r = Inr u \<longrightarrow> (\<exists>at. r1 = Inr at)))"
    using assms by (auto simp: vp9_depacketize_def split: sum.splits if_splits bind_splits option.splits)
  show "length (pdiff st) \<le> length (pdiff st')"
    using origin descriptor_pdiff(1) [of p st st'] by auto
  assume "r = Inr u" "predicted p"
  then show "length (pdiff st) < length (pdiff st') \<and> length (pdiff st') < MAX_VP9REF_PICS"
    using origin descriptor_pdiff(2) [of p st st'] by auto
qed

lemma vp9_predictions_bounded:
  "length (filter predicted (vp9_accepted st ps)) \<le> MAX_VP9REF_PICS - 1 - length (pdiff st)"
proof (induction ps arbitrary: st)
  case (Cons p ps)
  show ?case
  proof (cases "vp9_depacketize st p [] NoExtra")
    case (Some q)
    obtain st1 o1 x1 r1 where q: "q = (st1, o1, x1, r1)" by (cases q)
    note d = depacketize_pdiff [OF Some [unfolded q]]
    show ?thesis
    proof (cases r1)
      case (Inl e)
      then show ?thesis using Some q Cons.IH [of st1] d(1) by simp
    next
      case (Inr u)
      then show ?thesis using Some q Cons.IH [of st1] d by (cases "predicted p") auto
    qed
  qed simp
qed simp

text \<open>
  The reference indices of all packets pile up in one list that is never emptied: of a whole stream in flexible
  mode at most two predicted packets are accepted, every later one is refused.
\<close>

theorem vp9_predictions_dry_up:
  "length (filter predicted (vp9_accepted vp9_depacketizer_new ps)) \<le> 2"
  using vp9_predictions_bounded [of vp9_depacketizer_new ps] by (simp add: vp9_depacketizer_new_def MAX_VP9REF_PICS_def)

text \<open>Three packets that predict from the picture before: the third is refused.\<close>

lemma vp9_third_prediction:
  "vp9_accepted vp9_depacketizer_new [[0x58, 0x02, 1], [0x58, 0x02, 2], [0x58, 0x02, 3]] = [[0x58, 0x02, 1], [0x58, 0x02, 2]]"
  by code_simp

text \<open>
  A scalability structure that announces three spatial layers is refused, though the arrays have room for three.
\<close>

theorem vp9_three_layers_refused:
  assumes "drop_bit 5 b = 2"
  shows "\<exists>st'. vp9_depacketize st (0x0A # b # rest) out extra = Some (st', out, extra, Inl ErrVP9CorruptedPacket)"
proof -
  have o: "octet s (0x0A # b # rest, 0) = (s, Inr (0x0A, (0x0A # b # rest, 8)))"
    "octet s (0x0A # b # rest, 8) = (s, Inr (b, (0x0A # b # rest, 16)))" for s :: vp9_depacketizer
    using octet_at [of s "0x0A # b # rest" 0] octet_at [of s "0x0A # b # rest" 1] by simp_all
  have r: "remaining (0x0A # b # rest, 8) \<noteq> 0" by (simp add: remaining_def)
  have n: "unat (drop_bit 5 b + 1) = 3" by (simp add: assms)
  show ?thesis
    by (simp add: vp9_depacketize_def vp9_descriptor_def o vp9_flags_def parse_ssdata_def if_any_def r Let_def n MAX_SPATIAL_LAYERS_def)
qed

lemma vp9_three_layers_refused_witness:
  "\<exists>st'. vp9_depacketize vp9_depacketizer_new (0x0A # 0x58 # [1, 64, 0, 180]) [] NoExtra = Some (st', [], NoExtra, Inl ErrVP9CorruptedPacket)"
proof -
  have "drop_bit 5 (0x58 :: u8) = 2" by simp
  from vp9_three_layers_refused [OF this] show ?thesis .
qed

end
