(* ===== verification/H265.thy ===== *)
theory H265 imports Payload begin

text \<open>
  The H.265 depacketizer, \<open>packet/h265.rs\<close> of the patched str0m: the four kinds of packets of RFC 7798, their
  headers, and the temporal scalability information of a PACI packet. The accessors that only return a field are
  the fields themselves.
\<close>

section \<open>Headers\<close>

type_synonym h265_nalu_header = u16

definition hdr_f :: "h265_nalu_header \<Rightarrow> bool" where
  "hdr_f h \<longleftrightarrow> drop_bit 15 h \<noteq> 0"

definition hdr_nalu_type :: "h265_nalu_header \<Rightarrow> u8" where
  "hdr_nalu_type h = ucast (drop_bit 9 (h AND push_bit 8 0x7E))"

definition is_type_vcl_unit :: "h265_nalu_header \<Rightarrow> bool" where
  "is_type_vcl_unit h \<longleftrightarrow> hdr_nalu_type h AND 0x20 = 0"

definition hdr_layer_id :: "h265_nalu_header \<Rightarrow> u8" where
  "hdr_layer_id h = ucast (drop_bit 3 (h AND (push_bit 8 1 OR 0xF8)))"

definition hdr_tid :: "h265_nalu_header \<Rightarrow> u8" where
  "hdr_tid h = ucast (h AND 0x07)"

definition is_aggregation_packet :: "h265_nalu_header \<Rightarrow> bool" where
  "is_aggregation_packet h \<longleftrightarrow> hdr_nalu_type h = 48"

definition is_fragmentation_unit :: "h265_nalu_header \<Rightarrow> bool" where
  "is_fragmentation_unit h \<longleftrightarrow> hdr_nalu_type h = 49"

definition is_paci_packet :: "h265_nalu_header \<Rightarrow> bool" where
  "is_paci_packet h \<longleftrightarrow> hdr_nalu_type h = 50"

type_synonym h265_fu_header = u8

definition fu_s :: "h265_fu_header \<Rightarrow> bool" where
  "fu_s h \<longleftrightarrow> drop_bit 7 (h AND 0x80) \<noteq> 0"

definition fu_e :: "h265_fu_header \<Rightarrow> bool" where
  "fu_e h \<longleftrightarrow> drop_bit 6 (h AND 0x40) \<noteq> 0"

definition fu_type :: "h265_fu_header \<Rightarrow> u8" where
  "fu_type h = h AND 0x3F"

section \<open>The packets\<close>

record h265_single =
  sn_header :: h265_nalu_header
  sn_donl :: "u16 option"
  sn_payload :: bytes

record agg_first =
  af_donl :: "u16 option"
  af_unit :: bytes

record agg_unit =
  au_dond :: "u8 option"
  au_unit :: bytes

record h265_aggregation =
  first_unit :: agg_first
  other_units :: "agg_unit list"

record h265_fragment =
  fu_payload_header :: h265_nalu_header
  fu_header :: h265_fu_header
  fu_donl :: "u16 option"
  fu_payload :: bytes

record h265_paci =
  pc_header :: h265_nalu_header
  paci_header_fields :: u16
  phes :: bytes
  pc_payload :: bytes

datatype h265_payload = SingleNALUnit h265_single | FragmentationUnit h265_fragment | Aggregation h265_aggregation | Paci h265_paci

text \<open>The first two octets, with the checks that all packets share; \<open>n\<close> is the size of the whole header.\<close>

definition h265_open :: "nat \<Rightarrow> (h265_nalu_header \<Rightarrow> bool) \<Rightarrow> bytes \<Rightarrow> packet_error + h265_nalu_header" where
  "h265_open n kind payload =
     (if length payload \<le> n then Inl ErrShortPacket
      else let h = from_be16 (payload ! 0) (payload ! 1) in
        if hdr_f h then Inl ErrH265CorruptedPacket
        else if \<not> kind h then Inl ErrInvalidH265PacketType
        else Inr h)"

text \<open>A decoding order number in front of what follows; \<open>m\<close> octets must be left behind it.\<close>

definition h265_donl :: "bool \<Rightarrow> nat \<Rightarrow> bytes \<Rightarrow> packet_error + (u16 option \<times> bytes)" where
  "h265_donl wanted m payload =
     (if wanted then
        if length payload < 2 + m then Inl ErrShortPacket
        else Inr (Some (from_be16 (payload ! 0) (payload ! 1)), drop 2 payload)
      else Inr (None, payload))"

definition single_depacketize :: "bool \<Rightarrow> bytes \<Rightarrow> packet_error + h265_single" where
  "single_depacketize might_need_donl payload =
     (case h265_open 2 (\<lambda>h. \<not> (is_fragmentation_unit h \<or> is_paci_packet h \<or> is_aggregation_packet h)) payload of
        Inl e \<Rightarrow> Inl e
      | Inr h \<Rightarrow> (case h265_donl might_need_donl 1 (drop 2 payload) of
            Inl e \<Rightarrow> Inl e
          | Inr (donl, payload) \<Rightarrow> Inr \<lparr>sn_header = h, sn_donl = donl, sn_payload = payload\<rparr>))"

text \<open>A size and as many octets; \<open>None\<close> when they are not there.\<close>

definition sized :: "bytes \<Rightarrow> (bytes \<times> bytes) option" where
  "sized payload =
     (if length payload < 2 then None
      else
        (let size = unat (from_be16 (payload ! 0) (payload ! 1)); payload = drop 2 payload
         in if length payload < size then None else Some (take size payload, drop size payload)))"

lemma sized_shorter: "sized payload = Some (u, rest) \<Longrightarrow> length rest < length payload"
  by (auto simp: sized_def Let_def split: if_splits)

text \<open>With \<open>might_need_donl\<close> the code looks at the first octet only behind the test that there is one, which comes first here too.\<close>

function agg_loop :: "bool \<Rightarrow> bytes \<Rightarrow> agg_unit list" where
  "agg_loop might_need_donl payload =
     (if might_need_donl \<and> payload = [] then []
      else
        (let dond = (if might_need_donl then Some (hd payload) else None);
             payload = (if might_need_donl then tl payload else payload)
         in case sized payload of
              None \<Rightarrow> []
            | Some (u, rest) \<Rightarrow> \<lparr>au_dond = dond, au_unit = u\<rparr> # agg_loop might_need_donl rest))"
  by pat_completeness auto
termination
proof (relation "measure (\<lambda>(_, payload). length payload)")
  fix b :: bool and payload x xa :: bytes and xb and u rest :: bytes
  show "((b, rest), b, payload) \<in> measure (\<lambda>(_, payload). length payload)"
    if "xa = (if b then tl payload else payload)" "sized xa = Some xb" "(u, rest) = xb"
    using that sized_shorter [of xa u rest] by (cases b) auto
qed auto

declare agg_loop.simps [simp del]

definition aggregation_depacketize :: "bool \<Rightarrow> bytes \<Rightarrow> packet_error + h265_aggregation" where
  "aggregation_depacketize might_need_donl payload =
     (case h265_open 2 is_aggregation_packet payload of
        Inl e \<Rightarrow> Inl e
      | Inr _ \<Rightarrow> (case h265_donl might_need_donl 0 (drop 2 payload) of
            Inl e \<Rightarrow> Inl e
          | Inr (donl, payload) \<Rightarrow> (case sized payload of
                None \<Rightarrow> Inl ErrShortPacket
              | Some (u, rest) \<Rightarrow>
                  (let units = agg_loop might_need_donl rest in
                   if units = [] then Inl ErrShortPacket
                   else Inr \<lparr>first_unit = \<lparr>af_donl = donl, af_unit = u\<rparr>, other_units = units\<rparr>))))"

definition fragment_depacketize :: "bool \<Rightarrow> bytes \<Rightarrow> packet_error + h265_fragment" where
  "fragment_depacketize might_need_donl payload =
     (case h265_open 3 is_fragmentation_unit payload of
        Inl e \<Rightarrow> Inl e
      | Inr h \<Rightarrow> (let fh = payload ! 2 in
          case h265_donl (fu_s fh \<and> might_need_donl) 1 (drop 3 payload) of
            Inl e \<Rightarrow> Inl e
          | Inr (donl, payload) \<Rightarrow> Inr \<lparr>fu_payload_header = h, fu_header = fh, fu_donl = donl, fu_payload = payload\<rparr>))"

definition phs_size :: "u16 \<Rightarrow> u8" where
  "phs_size w = ucast (drop_bit 4 (w AND (push_bit 8 1 OR 0xF0)))"

definition paci_f0 :: "u16 \<Rightarrow> bool" where
  "paci_f0 w \<longleftrightarrow> w AND 0x08 \<noteq> 0"

definition paci_depacketize :: "bytes \<Rightarrow> packet_error + h265_paci" where
  "paci_depacketize payload =
     (case h265_open 4 is_paci_packet payload of
        Inl e \<Rightarrow> Inl e
      | Inr h \<Rightarrow>
          (let w = from_be16 (payload ! 2) (payload ! 3); payload = drop 4 payload; n = unat (phs_size w)
           in if length payload < n + 1 then Inl ErrShortPacket
              else Inr \<lparr>pc_header = h, paci_header_fields = w, phes = (if 0 < n then take n payload else []), pc_payload = drop n payload\<rparr>))"

section \<open>Temporal scalability\<close>

type_synonym h265_tsci = u32

definition paci_tsci :: "h265_paci \<Rightarrow> h265_tsci option option" where
  "paci_tsci p =
     (if \<not> paci_f0 (paci_header_fields p) \<or> phs_size (paci_header_fields p) < 3 then Some None
      else do { a \<leftarrow> idx (phes p) 0; b \<leftarrow> idx (phes p) 1; c \<leftarrow> idx (phes p) 0;
                Some (Some (push_bit 16 (ucast a) OR push_bit 8 (ucast b) OR ucast c)) })"

definition tsci_tl0picidx :: "h265_tsci \<Rightarrow> u8" where
  "tsci_tl0picidx t = ucast (drop_bit 8 (drop_bit 16 (t AND 0xFFFF0000) AND 0xFF00))"

definition tsci_irap_pic_id :: "h265_tsci \<Rightarrow> u8" where
  "tsci_irap_pic_id t = ucast (drop_bit 16 (t AND 0xFFFF0000) AND 0x00FF)"

definition tsci_s :: "h265_tsci \<Rightarrow> bool" where
  "tsci_s t \<longleftrightarrow> drop_bit 8 (t AND 0xFF00) AND 0x80 \<noteq> 0"

definition tsci_e :: "h265_tsci \<Rightarrow> bool" where
  "tsci_e t \<longleftrightarrow> drop_bit 8 (t AND 0xFF00) AND 0x40 \<noteq> 0"

definition tsci_res :: "h265_tsci \<Rightarrow> u8" where
  "tsci_res t = ucast (drop_bit 8 (t AND 0xFF00) AND 0x3F)"

section \<open>The depacketizer\<close>

record h265_depacketizer =
  h265_state :: h265_payload
  might_need_donl :: bool

definition h265_parse :: "bool \<Rightarrow> h265_nalu_header \<Rightarrow> bytes \<Rightarrow> packet_error + h265_payload" where
  "h265_parse donl header packet =
     (if is_paci_packet header then map_sum id Paci (paci_depacketize packet)
      else if is_fragmentation_unit header then map_sum id FragmentationUnit (fragment_depacketize donl packet)
      else if is_aggregation_packet header then map_sum id Aggregation (aggregation_depacketize donl packet)
      else map_sum id SingleNALUnit (single_depacketize donl packet))"

definition h265_depacketize :: "h265_depacketizer \<Rightarrow> bytes \<Rightarrow> bytes \<Rightarrow> codec_extra \<Rightarrow> h265_depacketizer depacked" where
  "h265_depacketize st packet out extra = Some
     (if length packet \<le> 2 then (st, out, extra, Inl ErrShortPacket)
      else let header = from_be16 (packet ! 0) (packet ! 1) in
        if hdr_f header then (st, out, extra, Inl ErrH265CorruptedPacket)
        else case h265_parse (might_need_donl st) header packet of
            Inl e \<Rightarrow> (st, out, extra, Inl e)
          | Inr p \<Rightarrow> (st\<lparr>h265_state := p\<rparr>, out @ packet, extra, Inr ()))"

section \<open>Aggregation\<close>

text \<open>An aggregation packet as it is written: a header, the order numbers when they are used, sizes and units.\<close>

definition write_unit :: "bytes \<Rightarrow> bytes" where
  "write_unit u = to_be16 (of_nat (length u)) @ u"

definition write_other :: "agg_unit \<Rightarrow> bytes" where
  "write_other u = (case au_dond u of None \<Rightarrow> [] | Some d \<Rightarrow> [d]) @ write_unit (au_unit u)"

definition write_aggregation :: "h265_nalu_header \<Rightarrow> h265_aggregation \<Rightarrow> bytes" where
  "write_aggregation h p = to_be16 h @ (case af_donl (first_unit p) of None \<Rightarrow> [] | Some d \<Rightarrow> to_be16 d)
     @ write_unit (af_unit (first_unit p)) @ concat (map write_other (other_units p))"

lemma sized_written: "length u < 65536 \<Longrightarrow> sized (write_unit u @ rest) = Some (u, rest)"
proof -
  assume u: "length u < 65536"
  have "unat (of_nat (length u) :: u16) = length u" using u by (simp add: unsigned_of_nat take_bit_nat_eq_self)
  then show ?thesis by (simp add: sized_def write_unit_def Let_def to_be16_def)
qed

definition order_numbers :: "bool \<Rightarrow> h265_aggregation \<Rightarrow> bool" where
  "order_numbers donl p \<longleftrightarrow> (af_donl (first_unit p) \<noteq> None) = donl \<and> list_all (\<lambda>u. (au_dond u \<noteq> None) = donl) (other_units p)"

definition units_fit :: "h265_aggregation \<Rightarrow> bool" where
  "units_fit p \<longleftrightarrow> length (af_unit (first_unit p)) < 65536 \<and> list_all (\<lambda>u. length (au_unit u) < 65536) (other_units p)"

lemma agg_loop_written:
  "list_all (\<lambda>u. (au_dond u \<noteq> None) = donl) us \<Longrightarrow> list_all (\<lambda>u. length (au_unit u) < 65536) us \<Longrightarrow>
     agg_loop donl (concat (map write_other us)) = us"
proof (induction us)
  case (Cons u us)
  have w: "concat (map write_other (u # us)) = (case au_dond u of None \<Rightarrow> [] | Some d \<Rightarrow> [d]) @ write_unit (au_unit u) @ concat (map write_other us)"
    by (simp add: write_other_def)
  have s: "sized (write_unit (au_unit u) @ concat (map write_other us)) = Some (au_unit u, concat (map write_other us))"
    using Cons.prems by (simp add: sized_written)
  show ?case using Cons.prems s Cons.IH unfolding w by (subst agg_loop.simps) (cases u; cases donl; auto)
next
  case Nil
  show ?case by (subst agg_loop.simps) (simp add: sized_def)
qed

text \<open>C36. An aggregation packet of two or more units, with or without decoding order numbers, is parsed into the units
  it was written from.
\<close>

theorem h265_aggregation_roundtrip:
  assumes "\<not> hdr_f h" "is_aggregation_packet h" "order_numbers donl p" "units_fit p" "other_units p \<noteq> []"
  shows "h265_depacketize \<lparr>h265_state = q, might_need_donl = donl\<rparr> (write_aggregation h p) out extra
    = Some (\<lparr>h265_state = Aggregation p, might_need_donl = donl\<rparr>, out @ write_aggregation h p, extra, Inr ())"
proof -
  let ?r = "concat (map write_other (other_units p))"
  let ?tl = "(case af_donl (first_unit p) of None \<Rightarrow> [] | Some d \<Rightarrow> to_be16 d) @ write_unit (af_unit (first_unit p)) @ ?r"
  have w: "write_aggregation h p = to_be16 h @ ?tl" by (simp add: write_aggregation_def)
  have l: "\<not> length (write_aggregation h p) \<le> 2" by (simp add: w write_unit_def to_be16_def)
  have hd: "from_be16 (write_aggregation h p ! 0) (write_aggregation h p ! 1) = h" by (simp add: w nth_append to_be16_def)
  have dr: "drop 2 (write_aggregation h p) = ?tl" by (simp add: w to_be16_def)
  have "h265_donl donl 0 ?tl = Inr (af_donl (first_unit p), write_unit (af_unit (first_unit p)) @ ?r)"
    using assms(3) by (cases "af_donl (first_unit p)") (auto simp: h265_donl_def order_numbers_def to_be16_def)
  moreover have "sized (write_unit (af_unit (first_unit p)) @ ?r) = Some (af_unit (first_unit p), ?r)"
    using assms(4) by (simp add: sized_written units_fit_def)
  moreover have "agg_loop donl ?r = other_units p"
    using assms(3,4) by (intro agg_loop_written) (simp_all add: order_numbers_def units_fit_def)
  ultimately have "aggregation_depacketize donl (write_aggregation h p) = Inr p"
    using assms(1,2,5) l hd dr by (simp add: aggregation_depacketize_def h265_open_def Let_def)
  moreover have "\<not> is_paci_packet h" "\<not> is_fragmentation_unit h"
    using assms(2) by (simp_all add: is_aggregation_packet_def is_paci_packet_def is_fragmentation_unit_def)
  ultimately have "h265_parse donl h (write_aggregation h p) = Inr (Aggregation p)"
    using assms(2) by (simp add: h265_parse_def)
  then show ?thesis using l hd assms(1) by (simp add: h265_depacketize_def Let_def)
qed

lemma h265_aggregation_roundtrip_witness:
  "\<exists>p. h265_depacketize \<lparr>h265_state = SingleNALUnit \<lparr>sn_header = 0, sn_donl = None, sn_payload = []\<rparr>, might_need_donl = True\<rparr>
      [0x60, 1, 0, 7, 0, 1, 9, 5, 0, 2, 8, 8] [] NoExtra
    = Some (\<lparr>h265_state = Aggregation p, might_need_donl = True\<rparr>, [0x60, 1, 0, 7, 0, 1, 9, 5, 0, 2, 8, 8], NoExtra, Inr ())"
proof -
  let ?p = "\<lparr>first_unit = \<lparr>af_donl = Some 7, af_unit = [9]\<rparr>, other_units = [\<lparr>au_dond = Some 5, au_unit = [8, 8]\<rparr>]\<rparr>"
  have "\<not> hdr_f 0x6001" "is_aggregation_packet 0x6001" "order_numbers True ?p" by code_simp+
  moreover have "units_fit ?p" by (simp add: units_fit_def)
  moreover have "write_aggregation 0x6001 ?p = [0x60, 1, 0, 7, 0, 1, 9, 5, 0, 2, 8, 8]"
    by (simp add: write_aggregation_def write_other_def write_unit_def to_be16_def)
  ultimately show ?thesis using h265_aggregation_roundtrip [of "0x6001" True ?p "SingleNALUnit \<lparr>sn_header = 0, sn_donl = None, sn_payload = []\<rparr>" "[]" NoExtra]
    by (intro exI [of _ ?p]) simp
qed

text \<open>
  A packet is accepted as a whole or not at all: what an accepted packet adds to the frame is the packet itself,
  headers included, and a refused one changes nothing. There is no panic.
\<close>

theorem h265_all_or_nothing:
  "\<exists>st' r. h265_depacketize st packet out extra = Some (st', if r = Inr () then out @ packet else out, extra, r)
     \<and> might_need_donl st' = might_need_donl st \<and> (r \<noteq> Inr () \<longrightarrow> st' = st)
     \<and> r \<in> {Inr (), Inl ErrShortPacket, Inl ErrH265CorruptedPacket, Inl ErrInvalidH265PacketType}"
proof -
  have o: "h265_open n k p = Inl e \<Longrightarrow> e \<in> {ErrShortPacket, ErrH265CorruptedPacket, ErrInvalidH265PacketType}" for n k p e
    by (auto simp: h265_open_def Let_def split: if_splits)
  have d: "h265_donl b m p = Inl e \<Longrightarrow> e = ErrShortPacket" for b m p e by (auto simp: h265_donl_def split: if_splits)
  have "h265_parse b h packet = Inl e \<Longrightarrow> e \<in> {ErrShortPacket, ErrH265CorruptedPacket, ErrInvalidH265PacketType}" for b h e
    by (auto simp: h265_parse_def paci_depacketize_def fragment_depacketize_def aggregation_depacketize_def single_depacketize_def Let_def
        split: if_splits sum.splits option.splits prod.splits dest!: o d)
  then show ?thesis
    by (cases "h265_parse (might_need_donl st) (from_be16 (packet ! 0) (packet ! 1)) packet")
      (fastforce simp: h265_depacketize_def Let_def)+
qed

text \<open>
  The temporal scalability information of a PACI packet is read at the wrong octets: the index of the base layer
  picture is always 0, the IRAP picture id is the first octet of the extension instead of the second, the flags are
  those of the second instead of the third.
\<close>

theorem h265_tsci_shifted:
  assumes "paci_depacketize packet = Inr p" "paci_tsci p = Some (Some t)"
  shows "tsci_tl0picidx t = 0 \<and> tsci_irap_pic_id t = phes p ! 0 \<and> tsci_res t = phes p ! 1 AND 0x3F
    \<and> phes p ! 0 = packet ! 4 \<and> phes p ! 1 = packet ! 5"
proof -
  have n: "3 \<le> phs_size (paci_header_fields p)" using assms(2) by (auto simp: paci_tsci_def split: if_splits)
  then have n': "3 \<le> unat (phs_size (paci_header_fields p))" by (simp add: word_le_nat_alt)
  have ph: "phes p = take (unat (phs_size (paci_header_fields p))) (drop 4 packet)" "unat (phs_size (paci_header_fields p)) < length packet - 4"
    using assms(1) n' by (auto simp: paci_depacketize_def Let_def split: sum.splits if_splits)
  have t: "t = push_bit 16 (ucast (phes p ! 0)) OR push_bit 8 (ucast (phes p ! 1)) OR ucast (phes p ! 0)"
    using assms(2) by (auto simp: paci_tsci_def idx_def split: if_splits bind_splits)
  have m: "(0xFFFF0000 :: u32) = push_bit 16 (mask 16)" "(0xFF00 :: u32) = push_bit 8 (mask 8)" "(0x00FF :: u32) = mask 8"
    "(0x3F :: u32) = mask 6" "(0x3F :: u8) = mask 6" by (simp_all add: mask_eq_exp_minus_1)
  have "tsci_tl0picidx t = 0" unfolding tsci_tl0picidx_def t m by (rule bit_word_eqI) (auto simp: bit_simps)
  moreover have "tsci_irap_pic_id t = phes p ! 0" unfolding tsci_irap_pic_id_def t m by (rule bit_word_eqI) (auto simp: bit_simps)
  moreover have "tsci_res t = phes p ! 1 AND 0x3F" unfolding tsci_res_def t m by (rule bit_word_eqI) (auto simp: bit_simps)
  moreover have "phes p ! 0 = packet ! 4" "phes p ! 1 = packet ! 5" using ph n' by (simp_all add: add.commute)
  ultimately show ?thesis by blast
qed

lemma h265_tsci_shifted_witness:
  "\<exists>p t. paci_depacketize [0x64, 1, 0x40, 0x38, 9, 8, 0xC0, 7] = Inr p \<and> paci_tsci p = Some (Some t)
     \<and> tsci_tl0picidx t = 0 \<and> tsci_irap_pic_id t = 9"
proof -
  let ?p = "\<lparr>pc_header = 0x6401, paci_header_fields = 0x4038, phes = [9, 8, 0xC0], pc_payload = [7]\<rparr>"
  have "paci_depacketize [0x64, 1, 0x40, 0x38, 9, 8, 0xC0, 7] = Inr ?p" by code_simp
  moreover have "paci_tsci ?p = Some (Some 0x90809)" by code_simp
  ultimately show ?thesis using h265_tsci_shifted [of "[0x64, 1, 0x40, 0x38, 9, 8, 0xC0, 7]" ?p "0x90809"] by simp
qed

end
