(* ===== verification/MTime.thy ===== *)
theory MTime imports Prelude "HOL-Library.Signed_Division" begin

text \<open>
  Media time, \<open>rtp/mtime.rs\<close> of str0m: a 64 bit count over a frequency. Times of two frequencies are compared and
  added at the higher one, after a conversion that truncates. The conversions from and to floating point seconds
  are left out.
\<close>

section \<open>Times\<close>

text \<open>The count is the value of an \<open>i64\<close>, the frequency that of a non-zero \<open>u32\<close>.\<close>

record media_time =
  numer :: int
  denom :: nat

definition as_i64 :: "int \<Rightarrow> int" where
  "as_i64 x = (x + 2 ^ 63) mod 2 ^ 64 - 2 ^ 63"

definition i64_ok :: "int \<Rightarrow> bool" where
  "i64_ok x \<longleftrightarrow> - (2 ^ 63) \<le> x \<and> x < 2 ^ 63"

definition MICROS :: nat where "MICROS = 1000000"

definition frequency_new :: "nat \<Rightarrow> nat option" where
  "frequency_new v = (if v = 0 then None else Some v)"

definition from_micros :: "int \<Rightarrow> media_time" where
  "from_micros v = \<lparr>numer = v, denom = MICROS\<rparr>"

definition is_zero :: "media_time \<Rightarrow> bool" where
  "is_zero t \<longleftrightarrow> numer t = 0"

definition mt_abs :: "media_time \<Rightarrow> media_time" where
  "mt_abs t = (if numer t < 0 then t\<lparr>numer := as_i64 (- numer t)\<rparr> else t)"

definition rebase :: "media_time \<Rightarrow> nat \<Rightarrow> media_time" where
  "rebase t d = (if d = denom t then t else \<lparr>numer = as_i64 ((numer t * int d) sdiv int (denom t)), denom = d\<rparr>)"

definition same_base :: "media_time \<Rightarrow> media_time \<Rightarrow> media_time \<times> media_time" where
  "same_base t0 t1 = (let m = max (denom t0) (denom t1) in (rebase t0 m, rebase t1 m))"

definition mt_eq :: "media_time \<Rightarrow> media_time \<Rightarrow> bool" where
  "mt_eq a b = (let (t0, t1) = same_base a b in numer t0 = numer t1)"

datatype ordering = Less | Equal | Greater

definition mt_cmp :: "media_time \<Rightarrow> media_time \<Rightarrow> ordering" where
  "mt_cmp a b = (let (t0, t1) = same_base a b in
     if mt_eq t0 t1 then Equal else if numer t0 < numer t1 then Less else Greater)"

text \<open>\<open>Ord::max\<close> keeps the second of two equal ones.\<close>

definition mt_max :: "media_time \<Rightarrow> media_time \<Rightarrow> media_time" where
  "mt_max a b = (if mt_cmp a b = Greater then a else b)"

definition mt_sub :: "media_time \<Rightarrow> media_time \<Rightarrow> media_time" where
  "mt_sub a b = (let (t0, t1) = same_base a b in \<lparr>numer = as_i64 (numer t0 - numer t1), denom = denom t0\<rparr>)"

definition mt_add :: "media_time \<Rightarrow> media_time \<Rightarrow> media_time" where
  "mt_add a b = (let (t0, t1) = same_base a b in \<lparr>numer = as_i64 (numer t0 + numer t1), denom = denom t0\<rparr>)"

text \<open>A duration in microseconds, or the error of a negative number.\<close>

definition duration_of :: "media_time \<Rightarrow> nat option" where
  "duration_of t = (let n = numer (rebase t MICROS) in if n < 0 then None else Some (nat n))"

definition of_duration :: "nat \<Rightarrow> media_time" where
  "of_duration micros = \<lparr>numer = as_i64 (int micros), denom = MICROS\<rparr>"

text \<open>An instant, in microseconds, and a time; \<open>None\<close> is a panic, of the \<open>unwrap\<close> or of the instant.\<close>

definition instant_back :: "nat \<Rightarrow> nat \<Rightarrow> nat option" where
  "instant_back now d = (if now < d then None else Some (now - d))"

definition instant_sub :: "nat \<Rightarrow> media_time \<Rightarrow> nat option" where
  "instant_sub now t =
     (if numer t < 0 then do { d \<leftarrow> duration_of (mt_abs t); Some (now + d) }
      else do { d \<leftarrow> duration_of t; instant_back now d })"

definition instant_add :: "nat \<Rightarrow> media_time \<Rightarrow> nat option" where
  "instant_add now t =
     (if numer t < 0 then do { d \<leftarrow> duration_of (mt_abs t); instant_back now d }
      else do { d \<leftarrow> duration_of t; Some (now + d) })"

section \<open>Conversion\<close>

lemma as_i64_ok [simp]: "i64_ok x \<Longrightarrow> as_i64 x = x"
  by (simp add: as_i64_def i64_ok_def)

lemma as_i64_range: "i64_ok (as_i64 x)"
  by (simp add: as_i64_def i64_ok_def pos_mod_bound)

lemma rebase_denom [simp]: "denom (rebase t d) = d"
  by (simp add: rebase_def)

lemma rebase_same [simp]: "rebase t (denom t) = t"
  by (simp add: rebase_def)

lemma sdiv_nonneg: "0 \<le> a \<Longrightarrow> 0 < b \<Longrightarrow> (a :: int) sdiv b = a div b"
  by (cases "a = 0") (simp_all add: signed_divide_int_def sgn_if)

lemma sdiv_minus: "(- a :: int) sdiv b = - (a sdiv b)"
  by (simp add: signed_divide_int_def)

lemma sdiv_exact: "0 < b \<Longrightarrow> (a * b :: int) sdiv b = a"
  by (cases "a = 0") (auto simp: signed_divide_int_def abs_mult sgn_mult mult_sgn_abs abs_of_pos sgn_mult_abs)

text \<open>
  Converting to a multiple of the frequency keeps the time, and converting back gives it again, as long as the
  count fits in 64 bits.
\<close>

theorem rebase_roundtrip:
  assumes "0 < denom t" "0 < k" "i64_ok (numer t)" "i64_ok (numer t * int k)"
  shows "rebase t (k * denom t) = \<lparr>numer = numer t * int k, denom = k * denom t\<rparr> \<and> rebase (rebase t (k * denom t)) (denom t) = t"
proof -
  have up: "rebase t (k * denom t) = \<lparr>numer = numer t * int k, denom = k * denom t\<rparr>"
  proof (cases "k = 1")
    case False
    have "numer t * int (k * denom t) sdiv int (denom t) = numer t * int k"
      using sdiv_exact [of "int (denom t)" "numer t * int k"] assms(1) by (simp add: mult.assoc)
    then show ?thesis using False assms(1,4) by (simp add: rebase_def)
  qed simp
  moreover have "rebase \<lparr>numer = numer t * int k, denom = k * denom t\<rparr> (denom t) = t"
  proof (cases "k = 1")
    case False
    have "numer t * int k * int (denom t) sdiv int (k * denom t) = numer t"
      using sdiv_exact [of "int (k * denom t)" "numer t"] assms(1,2) by (simp add: mult.assoc)
    then show ?thesis using False assms(1,3) by (cases t) (simp add: rebase_def)
  qed (cases t, simp add: rebase_def)
  ultimately show ?thesis by simp
qed

lemma rebase_roundtrip_witness:
  "rebase \<lparr>numer = - 7, denom = 1000\<rparr> 90000 = \<lparr>numer = - 630, denom = 90000\<rparr>
     \<and> rebase (rebase \<lparr>numer = - 7, denom = 1000\<rparr> 90000) 1000 = \<lparr>numer = - 7, denom = 1000\<rparr>"
  proof -
  let ?t = "\<lparr>numer = - 7, denom = 1000\<rparr>"
  have "rebase ?t (90 * denom ?t) = \<lparr>numer = numer ?t * int 90, denom = 90 * denom ?t\<rparr> \<and> rebase (rebase ?t (90 * denom ?t)) (denom ?t) = ?t"
    by (rule rebase_roundtrip) (simp_all add: i64_ok_def)
  then show ?thesis by auto
qed

text \<open>
  Among times of one frequency the comparison is that of the counts: equality is the identity, the order is the
  order of the integers, and the greater one is kept.
\<close>

theorem media_time_order:
  assumes "denom a = denom b"
  shows "(mt_eq a b \<longleftrightarrow> a = b) \<and> mt_cmp a b = (if numer a < numer b then Less else if numer a = numer b then Equal else Greater)
    \<and> numer (mt_max a b) = max (numer a) (numer b)"
  using assms by (cases a; cases b) (auto simp: mt_eq_def mt_cmp_def mt_max_def same_base_def rebase_def)

lemma media_time_order_witness:
  "mt_cmp \<lparr>numer = 3, denom = 90000\<rparr> \<lparr>numer = 5, denom = 90000\<rparr> = Less"
  using media_time_order [of "\<lparr>numer = 3, denom = 90000\<rparr>" "\<lparr>numer = 5, denom = 90000\<rparr>"] by simp

text \<open>
  Across frequencies the equality is not transitive, though the type claims to be \<open>Eq\<close>: a third of a second
  equals 33 hundredths and 3333 ten-thousandths, which differ.
\<close>

theorem media_time_eq_not_transitive:
  "mt_eq \<lparr>numer = 33, denom = 100\<rparr> \<lparr>numer = 1, denom = 3\<rparr> \<and> mt_eq \<lparr>numer = 1, denom = 3\<rparr> \<lparr>numer = 3333, denom = 10000\<rparr>
     \<and> mt_cmp \<lparr>numer = 33, denom = 100\<rparr> \<lparr>numer = 3333, denom = 10000\<rparr> = Less"
  by (simp add: mt_eq_def mt_cmp_def same_base_def rebase_def signed_divide_int_def as_i64_def)

text \<open>
  Going on by a time and back by the same time leads to the instant again, for positive and negative times
  whose microseconds fit.
\<close>

theorem instant_add_sub:
  assumes "0 < denom t" "\<bar>numer t\<bar> * 1000000 < 2 ^ 63" "instant_add now t = Some later"
  shows "instant_sub later t = Some now"
proof -
  define d where "d = \<bar>numer t\<bar> * int MICROS sdiv int (denom t)"
  have le: "0 \<le> d" "d \<le> \<bar>numer t\<bar> * int MICROS"
    using assms(1) zdiv_mono2 [of "\<bar>numer t\<bar> * int MICROS" 1 "int (denom t)"]
    by (simp_all add: d_def sdiv_nonneg pos_imp_zdiv_nonneg_iff MICROS_def)
  have ok: "i64_ok d" using le assms(2) by (simp add: i64_ok_def MICROS_def)
  have abs: "numer (mt_abs t) = \<bar>numer t\<bar>" "denom (mt_abs t) = denom t"
    using assms(2) by (auto simp: mt_abs_def i64_ok_def)
  have "duration_of (mt_abs t) = Some (nat d)"
  proof (cases "MICROS = denom t")
    case True
    then have "d = \<bar>numer t\<bar>" using assms(1) by (simp add: d_def sdiv_exact)
    then show ?thesis using True abs by (simp add: duration_of_def rebase_def)
  next
    case False
    then show ?thesis using abs ok le(1) by (simp add: duration_of_def rebase_def Let_def d_def)
  qed
  moreover have "0 \<le> numer t \<Longrightarrow> mt_abs t = t" by (simp add: mt_abs_def)
  ultimately show ?thesis
    using assms(3) by (cases "numer t < 0") (auto simp: instant_add_def instant_sub_def instant_back_def split: if_splits)
qed

lemma instant_add_sub_witness: "instant_sub 1066 \<lparr>numer = 6, denom = 90000\<rparr> = Some 1000"
proof -
  have "instant_add 1000 \<lparr>numer = 6, denom = 90000\<rparr> = Some 1066"
    by (simp add: instant_add_def duration_of_def rebase_def MICROS_def signed_divide_int_def as_i64_def)
  then show ?thesis using instant_add_sub [of "\<lparr>numer = 6, denom = 90000\<rparr>" 1000 1066] by simp
qed

end
