(* ===== verification/Codecs.thy ===== *)
theory Codecs imports Formats AudioPayload H264 Vp8 Vp9 H265 MTime begin

text \<open>
  The choice of the payload format, \<open>packet/mod.rs\<close> of str0m: the enumerations of packetizers and depacketizers, how
  a codec picks them, and the calls they pass on. The variant for user supplied formats is left out, nothing in the
  library or the agent makes one.
\<close>

datatype codec_packetizer = PkG711 | PkG722 | PkH264 h264_packetizer | PkOpus | PkVp8 vp8_packetizer | PkVp9 vp9_packetizer | PkNull

datatype codec_depacketizer = DpH264 h264_depacketizer | DpH265 h265_depacketizer | DpOpus | DpVp8 vp8_depacketizer
  | DpVp9 vp9_depacketizer | DpNull

definition packetizer_of :: "codec \<Rightarrow> codec_packetizer option" where
  "packetizer_of c =
     (case c of
        Opus \<Rightarrow> Some PkOpus
      | H264 \<Rightarrow> Some (PkH264 \<lparr>sps_nalu = None, pps_nalu = None\<rparr>)
      | Vp8 \<Rightarrow> Some (PkVp8 \<lparr>enable_picture_id = False, pk_picture_id = 0\<rparr>)
      | Vp9 \<Rightarrow> Some (PkVp9 \<lparr>v9_picture_id = 0, initialized = False\<rparr>)
      | Null \<Rightarrow> Some PkNull
      | _ \<Rightarrow> None)"

definition depacketizer_of :: "codec \<Rightarrow> codec_depacketizer option" where
  "depacketizer_of c =
     (case c of
        Opus \<Rightarrow> Some DpOpus
      | H264 \<Rightarrow> Some (DpH264 \<lparr>is_avc = False, fua_buffer = None\<rparr>)
      | H265 \<Rightarrow> Some (DpH265 \<lparr>h265_state = SingleNALUnit \<lparr>sn_header = 0, sn_donl = None, sn_payload = []\<rparr>, might_need_donl = False\<rparr>)
      | Vp8 \<Rightarrow> Some (DpVp8 vp8_depacketizer_new)
      | Vp9 \<Rightarrow> Some (DpVp9 vp9_depacketizer_new)
      | Null \<Rightarrow> Some DpNull
      | _ \<Rightarrow> None)"

definition codec_packetize :: "u16 \<Rightarrow> codec_packetizer \<Rightarrow> nat \<Rightarrow> bytes \<Rightarrow> (codec_packetizer \<times> bytes list) option" where
  "codec_packetize rng pk mtu b =
     (case pk of
        PkG711 \<Rightarrow> map_option (Pair PkG711) (g7xx_packetize mtu b)
      | PkG722 \<Rightarrow> map_option (Pair PkG722) (g7xx_packetize mtu b)
      | PkH264 v \<Rightarrow> map_option (\<lambda>(v, ps). (PkH264 v, ps)) (h264_packetize v mtu b)
      | PkOpus \<Rightarrow> map_option (Pair PkOpus) (opus_packetize mtu b)
      | PkVp8 v \<Rightarrow> map_option (\<lambda>(v, ps). (PkVp8 v, ps)) (vp8_packetize v mtu b)
      | PkVp9 v \<Rightarrow> map_option (\<lambda>(v, ps). (PkVp9 v, ps)) (vp9_packetize rng v mtu b)
      | PkNull \<Rightarrow> map_option (Pair PkNull) (null_packetize mtu b))"

text \<open>The marker bit of a packet; the null format panics here.\<close>

definition codec_is_marker :: "codec_packetizer \<Rightarrow> bool \<Rightarrow> bool option" where
  "codec_is_marker pk final =
     (case pk of
        PkG711 \<Rightarrow> Some False | PkG722 \<Rightarrow> Some False | PkOpus \<Rightarrow> Some False
      | PkH264 _ \<Rightarrow> Some final | PkVp8 _ \<Rightarrow> Some final | PkVp9 _ \<Rightarrow> Some final
      | PkNull \<Rightarrow> None)"

definition into :: "('a \<Rightarrow> 'b) \<Rightarrow> 'a depacked \<Rightarrow> 'b depacked" where
  "into f r = map_option (\<lambda>(st, out, extra, r). (f st, out, extra, r)) r"

definition codec_depacketize :: "codec_depacketizer \<Rightarrow> bytes \<Rightarrow> bytes \<Rightarrow> codec_extra \<Rightarrow> codec_depacketizer depacked" where
  "codec_depacketize dec packet out extra =
     (case dec of
        DpH264 v \<Rightarrow> into DpH264 (h264_depacketize v packet out extra)
      | DpH265 v \<Rightarrow> into DpH265 (h265_depacketize v packet out extra)
      | DpOpus \<Rightarrow> Some (DpOpus, opus_depacketize packet out, extra, Inr ())
      | DpVp8 v \<Rightarrow> into DpVp8 (vp8_depacketize v packet out extra)
      | DpVp9 v \<Rightarrow> into DpVp9 (vp9_depacketize v packet out extra)
      | DpNull \<Rightarrow> Some (DpNull, null_depacketize packet out, extra, Inr ()))"

definition codec_is_head :: "codec_depacketizer \<Rightarrow> bytes \<Rightarrow> bool" where
  "codec_is_head dec packet =
     (case dec of
        DpH264 _ \<Rightarrow> h264_is_partition_head packet
      | DpH265 _ \<Rightarrow> True
      | DpOpus \<Rightarrow> True
      | DpVp8 _ \<Rightarrow> vp8_is_partition_head packet
      | DpVp9 _ \<Rightarrow> vp9_is_partition_head packet
      | DpNull \<Rightarrow> True)"

definition codec_is_tail :: "codec_depacketizer \<Rightarrow> bool \<Rightarrow> bool" where
  "codec_is_tail dec marker =
     (case dec of DpH264 _ \<Rightarrow> marker | DpH265 _ \<Rightarrow> marker | DpOpus \<Rightarrow> True | DpVp8 _ \<Rightarrow> marker | DpVp9 _ \<Rightarrow> marker | DpNull \<Rightarrow> True)"

section \<open>Sending a sample\<close>

text \<open>
  What \<open>Payloader::push_sample\<close> of \<open>packet/payload.rs\<close> writes to the stream: the fragments in order, each with the
  next sequence number, all with the time of the sample at the clock rate of the codec.
\<close>

record rtp_write =
  w_seq :: u64
  w_time :: u32
  w_marker :: bool
  w_nackable :: bool
  w_data :: bytes

fun write_chunks :: "codec_packetizer \<Rightarrow> bool \<Rightarrow> u32 \<Rightarrow> u64 \<Rightarrow> bytes list \<Rightarrow> rtp_write list option" where
  "write_chunks pk is_audio t seq [] = Some []"
| "write_chunks pk is_audio t seq (d # rest) = do {
     m \<leftarrow> codec_is_marker pk (rest = []);
     ws \<leftarrow> write_chunks pk is_audio t (seq + 1) rest;
     Some (\<lparr>w_seq = seq, w_time = t, w_marker = m, w_nackable = (\<not> is_audio), w_data = d\<rparr> # ws) }"

definition push_sample :: "u16 \<Rightarrow> codec_packetizer \<Rightarrow> nat \<Rightarrow> bool \<Rightarrow> nat \<Rightarrow> media_time \<Rightarrow> bytes \<Rightarrow> u64 \<Rightarrow> (codec_packetizer \<times> rtp_write list \<times> u64) option" where
  "push_sample rng pk mtu is_audio clock_rate rtp_time data seq = do {
     (pk, chunks) \<leftarrow> codec_packetize rng pk mtu data;
     ws \<leftarrow> write_chunks pk is_audio (of_int (numer (rebase rtp_time clock_rate))) seq chunks;
     Some (pk, ws, seq + of_nat (length chunks)) }"

section \<open>Every packetizer\<close>

lemma g7xx_packetize_total: "g7xx_packetize m xs \<noteq> None"
  using g7xx_loop_at [of m "[]" xs] by (cases "m = 0") (auto simp: g7xx_packetize_def)

lemma opus_payloads_fit: "\<exists>fs. opus_packetize mtu frame = Some fs \<and> list_all (\<lambda>p. length p \<le> mtu) fs"
proof (cases "mtu = 0")
  case False
  obtain fs where "opus_packetize mtu frame = Some fs" using opus_packetize_total by blast
  then show ?thesis using opus.cut_sizes [of mtu _ frame] False by (simp add: list_all_iff)
qed (simp add: opus_packetize_def)

lemma g7xx_payloads_fit: "\<exists>fs. g7xx_packetize mtu frame = Some fs \<and> list_all (\<lambda>p. length p \<le> mtu) fs"
proof (cases "mtu = 0")
  case False
  obtain fs where "g7xx_packetize mtu frame = Some fs" using g7xx_packetize_total by blast
  then show ?thesis using g7xx.cut_sizes [of mtu _ frame] False by (simp add: list_all_iff)
qed (simp add: g7xx_packetize_def)

lemma vp8_payloads_fit: "\<exists>pk' ps. vp8_packetize pk mtu frame = Some (pk', ps) \<and> list_all (\<lambda>p. length p \<le> mtu) ps"
proof (cases "frame = [] \<or> mtu \<le> using_header_size pk")
  case False
  then have m: "0 < mtu - using_header_size pk" by simp
  obtain f fs where fr: "fragments (mtu - using_header_size pk) frame = f # fs" using fragments.cut_step [OF m] False by blast
  have "list_all (\<lambda>p. length p \<le> mtu) (vp8_packets pk True (f # fs))"
    using fragments.cut_sizes [OF m, of _ frame] fr m by (fastforce simp: list_all_iff vp8_packets_def length_vp8_header)
  then show ?thesis
    using vp8_loop_fragments [OF m, of pk "[]" frame True] False fr by (auto simp: vp8_packetize_def)
qed (auto simp: vp8_packetize_def)

lemma vp9_payloads_fit: "\<exists>pk' ps. vp9_packetize rng pk mtu frame = Some (pk', ps) \<and> list_all (\<lambda>p. length p \<le> mtu) ps"
proof (cases "frame = [] \<or> mtu \<le> 3")
  case False
  then have m: "0 < mtu - 3" by simp
  have "list_all (\<lambda>q. length q \<le> mtu) (vp9_packets p b gs)" if "list_all (\<lambda>g. length g \<le> mtu - 3) gs" for p b gs
    using that m by (induction gs arbitrary: b) (auto simp: vp9_header_def)
  then have "list_all (\<lambda>q. length q \<le> mtu) (vp9_packets p True (fragments (mtu - 3) frame))" for p
    using fragments.cut_sizes [OF m, of _ frame] by (metis list_all_iff)
  then show ?thesis
    using vp9_loop_fragments [OF m, of _ "[]" frame] False by (auto simp: vp9_packetize_def Let_def VP9HEADER_SIZE_def)
qed (auto simp: vp9_packetize_def Let_def VP9HEADER_SIZE_def)

text \<open>C19. Whatever the codec, its state, the frame and the size allowed, no packetizer panics, and but for the null format
  of RTP mode, which does not cut, every payload fits.
\<close>

theorem codec_payloads_fit:
  "\<exists>pk' ps. codec_packetize rng pk mtu frame = Some (pk', ps) \<and> (pk = PkNull \<or> list_all (\<lambda>p. length p \<le> mtu) ps)"
proof -
  note o = opus_payloads_fit [of mtu frame] and g = g7xx_payloads_fit [of mtu frame]
  show ?thesis
  proof (cases pk)
    case (PkH264 v)
    then show ?thesis using h264_packetize_fits [of v mtu frame] by (auto simp: codec_packetize_def)
  next
    case (PkVp8 v)
    then show ?thesis using vp8_payloads_fit [of v mtu frame] by (auto simp: codec_packetize_def)
  next
    case (PkVp9 v)
    then show ?thesis using vp9_payloads_fit [of rng v mtu frame] by (auto simp: codec_packetize_def)
  qed (use o g in \<open>auto simp: codec_packetize_def null_packetize_def\<close>)
qed

end
