(* ===== verification/Contiguity.thy ===== *)
theory Contiguity imports Payload begin

text \<open>
  Whether a frame may be handed on and follows the one before, by the picture ids of VP8 and VP9:
  \<open>packet/contiguity.rs\<close>, \<open>contiguity_vp8.rs\<close> and \<open>contiguity_vp9.rs\<close> of str0m.
\<close>

record frame_contiguity =
  last_picture_id :: "u64 option"
  last_tl0_picture_id :: "u64 option"

text \<open>The two results: the frame may be emitted, and it is contiguous.\<close>

definition next_frame :: "frame_contiguity \<Rightarrow> u64 option \<Rightarrow> u64 option \<Rightarrow> u64 option \<Rightarrow> bool \<Rightarrow> frame_contiguity \<times> bool \<times> bool" where
  "next_frame st pid' tl0' layer contiguous_seq =
     (case (pid', tl0') of
        (Some p, Some tl0) \<Rightarrow>
          (case (last_tl0_picture_id st, last_picture_id st) of
             (Some last_tl0, Some last_p) \<Rightarrow>
               if p \<le> last_p then (st, False, True)
               else if layer = Some 0
               then (\<lparr>last_picture_id = Some p, last_tl0_picture_id = Some tl0\<rparr>, True, tl0 = last_tl0 + 1)
               else
                 (let go = (tl0 = last_tl0 \<and> p = last_p + 1)
                  in (if go then st\<lparr>last_picture_id := Some p\<rparr> else st, go, True))
           | _ \<Rightarrow> (\<lparr>last_picture_id = Some p, last_tl0_picture_id = Some tl0\<rparr>, True, True))
      | _ \<Rightarrow> (st, True, contiguous_seq))"

record vp8_contiguity =
  v8_last_tl0 :: "u64 option"
  v8_last_pid :: "u64 option"

definition vp8_check :: "vp8_contiguity \<Rightarrow> vp8_extra \<Rightarrow> bool \<Rightarrow> vp8_contiguity \<times> bool \<times> bool" where
  "vp8_check st e contiguous_seq =
     (let (f, r) = next_frame \<lparr>last_picture_id = v8_last_pid st, last_tl0_picture_id = v8_last_tl0 st\<rparr>
          (picture_id e) (tl0_picture_id e) (Some (ucast (layer_index e))) contiguous_seq
      in (\<lparr>v8_last_tl0 = last_tl0_picture_id f, v8_last_pid = last_picture_id f\<rparr>, r))"

record vp9_contiguity =
  v9_last_tl0 :: "u8 option"
  v9_last_pid :: "u16 option"

text \<open>\<open>try_into\<close> gives nothing for a number that does not fit.\<close>

definition narrow8 :: "u64 \<Rightarrow> u8 option" where
  "narrow8 v = (if v < 256 then Some (ucast v) else None)"

definition narrow16 :: "u64 \<Rightarrow> u16 option" where
  "narrow16 v = (if v < 65536 then Some (ucast v) else None)"

definition vp9_check :: "vp9_contiguity \<Rightarrow> vp9_extra \<Rightarrow> bool \<Rightarrow> vp9_contiguity \<times> bool \<times> bool" where
  "vp9_check st e contiguous_seq =
     (let (f, r) = next_frame \<lparr>last_picture_id = map_option ucast (v9_last_pid st), last_tl0_picture_id = map_option ucast (v9_last_tl0 st)\<rparr>
          (Some (ucast (pid e))) (map_option ucast (v9_tl0_picture_id e)) (map_option ucast (v9_tid e)) contiguous_seq
      in (\<lparr>v9_last_tl0 = Option.bind (last_tl0_picture_id f) narrow8, v9_last_pid = Option.bind (last_picture_id f) narrow16\<rparr>, r))"

datatype contiguity = CVp8 vp8_contiguity | CVp9 vp9_contiguity | CNone

definition contiguity_check :: "contiguity \<Rightarrow> codec_extra \<Rightarrow> bool \<Rightarrow> contiguity \<times> bool \<times> bool" where
  "contiguity_check c extra contiguous_seq =
     (case (c, extra) of
        (CVp8 st, Vp8Extra e) \<Rightarrow> (let (st, r) = vp8_check st e contiguous_seq in (CVp8 st, r))
      | (CVp9 st, Vp9Extra e) \<Rightarrow> (let (st, r) = vp9_check st e contiguous_seq in (CVp9 st, r))
      | _ \<Rightarrow> (c, True, contiguous_seq))"

section \<open>What is emitted\<close>

text \<open>The picture ids of the frames let through.\<close>

fun let_through :: "frame_contiguity \<Rightarrow> (u64 \<times> u64 \<times> u64 option) list \<Rightarrow> u64 list" where
  "let_through st [] = []"
| "let_through st ((p, tl0, layer) # fs) =
     (let (st, go, _) = next_frame st (Some p) (Some tl0) layer True
      in (if go then p # let_through st fs else let_through st fs))"

definition beyond :: "frame_contiguity \<Rightarrow> u64 \<Rightarrow> bool" where
  "beyond st p \<longleftrightarrow> (case (last_tl0_picture_id st, last_picture_id st) of (Some _, Some q) \<Rightarrow> q < p | _ \<Rightarrow> True)"

lemma next_frame_cases:
  assumes "next_frame st (Some p) (Some tl0) layer c = (st', go, cg)"
  shows "if go then beyond st p \<and> last_picture_id st' = Some p \<and> last_tl0_picture_id st' \<noteq> None else st' = st"
  using assms by (auto simp: next_frame_def beyond_def Let_def split: option.splits if_splits)

lemma let_through_beyond: "\<forall>q\<in>set (let_through st fs). beyond st q"
proof (induction fs arbitrary: st)
  case (Cons f fs)
  obtain p tl0 layer where f: "f = (p, tl0, layer)" by (cases f)
  obtain st' go cg where n: "next_frame st (Some p) (Some tl0) layer True = (st', go, cg)" by (cases "next_frame st (Some p) (Some tl0) layer True")
  note c = next_frame_cases [OF n]
  show ?case
  proof (cases go)
    case True
    have "beyond st q" if "beyond st' q" for q
      using that c True by (auto simp: beyond_def split: option.splits)
    then show ?thesis using Cons.IH [of st'] c True by (auto simp: f n)
  next
    case False
    then show ?thesis using Cons.IH [of st'] c by (simp add: f n)
  qed
qed simp

text \<open>C30. Frames that carry both picture ids are emitted in the order of their ids: whatever frames come, the ids of
  those let through grow strictly.
\<close>

theorem frames_let_through_in_order: "sorted_wrt (<) (let_through st fs)"
proof (induction fs arbitrary: st)
  case (Cons f fs)
  obtain p tl0 layer where f: "f = (p, tl0, layer)" by (cases f)
  obtain st' go cg where n: "next_frame st (Some p) (Some tl0) layer True = (st', go, cg)" by (cases "next_frame st (Some p) (Some tl0) layer True")
  have "go \<Longrightarrow> q \<in> set (let_through st' fs) \<Longrightarrow> p < q" for q
    using next_frame_cases [OF n] let_through_beyond [of st' fs] by (auto simp: beyond_def split: option.splits)
  then show ?case using Cons.IH by (auto simp: f n)
qed simp

text \<open>
  A VP9 stream with layers stops for ever when its picture id wraps around: after the last id of 15 bits every
  later frame is held to be an old one, and the state that says so does not change.
\<close>

theorem vp9_wrap_stops_stream:
  assumes "v9_last_pid st = Some 0x7FFF" "v9_last_tl0 st = Some t" "pid e \<le> 0x7FFF" "v9_tl0_picture_id e \<noteq> None"
  shows "vp9_check st e c = (st, False, True)"
proof -
  have le: "(ucast (pid e) :: u64) \<le> 0x7FFF"
  proof -
    have "unat (pid e) \<le> 0x7FFF" using assms(3) by (simp add: word_le_nat_alt)
    then show ?thesis by (simp add: word_le_nat_alt unsigned_ucast_eq take_bit_nat_eq_self)
  qed
  have t: "narrow8 (ucast t) = Some t"
  proof -
    have "unat t < 256" using unsigned_less [of t] by simp
    moreover have "ucast (ucast t :: u64) = t" by (rule bit_word_eqI) (simp add: bit_simps)
    ultimately show ?thesis by (simp add: narrow8_def word_less_nat_alt unsigned_ucast_eq take_bit_nat_eq_self)
  qed
  show ?thesis using assms le t by (cases st) (auto simp: vp9_check_def next_frame_def narrow16_def)
qed

lemma vp9_wrap_stops_stream_witness:
  "vp9_check \<lparr>v9_last_tl0 = Some 5, v9_last_pid = Some 0x7FFF\<rparr> \<lparr>layers_scheme = [None, None, None], v9_tid = Some 0,
     layers_widths = [None, None, None], layers_heights = [None, None, None], v9_tl0_picture_id = Some 6, pid = 0, v9_is_keyframe = True\<rparr> True
   = (\<lparr>v9_last_tl0 = Some 5, v9_last_pid = Some 0x7FFF\<rparr>, False, True)"
  using vp9_wrap_stops_stream [of "\<lparr>v9_last_tl0 = Some 5, v9_last_pid = Some 0x7FFF\<rparr>" 5 "\<lparr>layers_scheme = [None, None, None], v9_tid = Some 0,
     layers_widths = [None, None, None], layers_heights = [None, None, None], v9_tl0_picture_id = Some 6, pid = 0, v9_is_keyframe = True\<rparr>" True]
  by simp

end
