(* ===== verification/RxBuffer.thy ===== *)
theory RxBuffer imports Codecs Contiguity MTime begin

text \<open>
  The reordering buffer of the receiver, \<open>packet/buffer_rx.rs\<close> of str0m: packets are kept sorted by sequence number,
  runs of them that make up a frame are found, depacketized and handed on in order, waiting for lost packets up to
  a number of frames.
\<close>

section \<open>State\<close>

text \<open>Of the header only the marker is looked at; the rest travels with the packet.\<close>

record 'h rtp_meta =
  received :: nat
  meta_time :: media_time
  seq_no :: u64
  marker :: bool
  rest_of_header :: 'h

record 'h depacketized =
  dep_time :: media_time
  contiguous :: bool
  dep_meta :: "'h rtp_meta list"
  dep_data :: bytes
  dep_extra :: codec_extra

record 'h rx_entry =
  meta :: "'h rtp_meta"
  entry_data :: bytes
  head :: bool
  tail :: bool

record 'h rx_buffer =
  hold_back :: nat
  depack :: codec_depacketizer
  queue :: "'h rx_entry list"
  segments :: "(nat \<times> nat) list"
  last_emitted :: "(u64 \<times> codec_extra) option"
  max_time :: "media_time option"
  depack_cache :: "((nat \<times> nat) \<times> 'h depacketized) option"
  contiguity :: contiguity

definition rx_buffer_new :: "codec_depacketizer \<Rightarrow> nat \<Rightarrow> 'h rx_buffer" where
  "rx_buffer_new dec hold = \<lparr>hold_back = hold, depack = dec, queue = [], segments = [], last_emitted = None, max_time = None,
     depack_cache = None,
     contiguity = (case dec of
         DpVp8 _ \<Rightarrow> CVp8 \<lparr>v8_last_tl0 = None, v8_last_pid = None\<rparr>
       | DpVp9 _ \<Rightarrow> CVp9 \<lparr>v9_last_tl0 = None, v9_last_pid = None\<rparr>
       | _ \<Rightarrow> CNone)\<rparr>"

abbreviation seq_of :: "'h rx_entry \<Rightarrow> u64" where "seq_of e \<equiv> seq_no (meta e)"

section \<open>Pushing a packet\<close>

text \<open>The place of the binary search in the sorted queue.\<close>

definition insertion_point :: "'h rx_entry list \<Rightarrow> u64 \<Rightarrow> nat" where
  "insertion_point q s = length (takeWhile (\<lambda>e. seq_of e < s) q)"

definition rx_push :: "'h rx_buffer \<Rightarrow> 'h rtp_meta \<Rightarrow> bytes \<Rightarrow> 'h rx_buffer" where
  "rx_push b m data =
     (if (case last_emitted b of Some (l, _) \<Rightarrow> seq_no m \<le> l \<and> 0 < hold_back b | None \<Rightarrow> False) then b
      else
        (let b = b\<lparr>max_time := Some (case max_time b of Some t \<Rightarrow> mt_max t (meta_time m) | None \<Rightarrow> meta_time m)\<rparr>
         in if \<exists>e\<in>set (queue b). seq_of e = seq_no m then b
            else
              (let i = insertion_point (queue b) (seq_no m);
                   e = \<lparr>meta = m, entry_data = data, head = codec_is_head (depack b) data, tail = codec_is_tail (depack b) (marker m)\<rparr>
               in b\<lparr>queue := take i (queue b) @ e # drop i (queue b)\<rparr>)))"

section \<open>Finding frames\<close>

definition sat_i64 :: "int \<Rightarrow> int" where
  "sat_i64 x = max (- (2 ^ 63)) (min (2 ^ 63 - 1) x)"

record seg_start =
  start_index :: nat
  start_time :: media_time
  start_offset :: int

text \<open>One entry of the queue: the segments found so far, and the start of the one that is open.\<close>

definition segment_step :: "(nat \<times> nat) list \<times> seg_start option \<Rightarrow> nat \<times> 'h rx_entry \<Rightarrow> (nat \<times> nat) list \<times> seg_start option" where
  "segment_step acc ie =
     (let (segs, start) = acc; (i, e) = ie;
          iseq = sint (seq_of e);
          is_expected_seq = (map_option (\<lambda>s. sat_i64 (start_offset s + int i)) start = Some iseq);
          is_same_timestamp = (case start of Some s \<Rightarrow> mt_eq (start_time s) (meta_time (meta e)) | None \<Rightarrow> False);
          (segs, start) = (case start of
              Some s \<Rightarrow> if is_expected_seq \<and> \<not> is_same_timestamp then (segs @ [(start_index s, i - 1)], None) else (segs, start)
            | None \<Rightarrow> (segs, start));
          start = (if \<not> is_expected_seq \<or> \<not> is_same_timestamp then None else start);
          start = (if start = None \<and> head e
                   then Some \<lparr>start_index = i, start_time = meta_time (meta e), start_offset = sat_i64 (iseq - int i)\<rparr> else start)
      in case start of
           Some s \<Rightarrow> if tail e then (segs @ [(start_index s, i)], None) else (segs, start)
         | None \<Rightarrow> (segs, start))"

definition update_segments :: "'h rx_buffer \<Rightarrow> 'h rx_buffer" where
  "update_segments b = b\<lparr>segments := fst (foldl segment_step ([], None) (enumerate 0 (queue b)))\<rparr>"

definition is_next :: "u64 \<Rightarrow> u64 \<Rightarrow> bool" where
  "is_next a b \<longleftrightarrow> a < b \<and> b - a = 1"

definition is_padding :: "'h rx_entry \<Rightarrow> bool" where
  "is_padding e \<longleftrightarrow> entry_data e = [] \<and> \<not> head e \<and> \<not> tail e"

fun following_loop :: "u64 \<Rightarrow> 'h rx_entry list \<Rightarrow> u64 \<Rightarrow> bool" where
  "following_loop s [] next' = is_next s next'"
| "following_loop s (e # es) next' = (is_next s (seq_of e) \<and> is_padding e \<and> following_loop (seq_of e) es next')"

definition is_following_last :: "'h rx_buffer \<Rightarrow> nat \<Rightarrow> bool option" where
  "is_following_last b start =
     (case last_emitted b of
        None \<Rightarrow> Some True
      | Some (l, _) \<Rightarrow> do { e \<leftarrow> idx (queue b) start; Some (following_loop l (take start (queue b)) (seq_of e)) })"

section \<open>Taking a frame\<close>

text \<open>The cache is emptied by looking into it.\<close>

definition rx_depacketize :: "'h rx_buffer \<Rightarrow> nat \<Rightarrow> nat \<Rightarrow> ('h rx_buffer \<times> (packet_error + 'h depacketized)) option" where
  "rx_depacketize b start stop =
     (let c = depack_cache b; b = b\<lparr>depack_cache := None\<rparr> in
      case (case c of Some (r, d) \<Rightarrow> if r = (start, stop) then Some d else None | None \<Rightarrow> None) of
        Some d \<Rightarrow> Some (b, Inr d)
      | None \<Rightarrow> do {
          e \<leftarrow> idx (queue b) start;
          range \<leftarrow> slice (queue b) start (stop + 1);
          (dec, data, extra, r) \<leftarrow> depack_all codec_depacketize (depack b) (map entry_data range) [] NoExtra;
          let b = b\<lparr>depack := dec\<rparr>;
          Some (b, case r of Inl er \<Rightarrow> Inl er
            | Inr _ \<Rightarrow> Inr \<lparr>dep_time = meta_time (meta e), contiguous = True, dep_meta = map meta range, dep_data = data, dep_extra = extra\<rparr>) })"

definition rx_pop :: "'h rx_buffer \<Rightarrow> ('h rx_buffer \<times> (packet_error + 'h depacketized) option) option" where
  "rx_pop b =
     (let b = update_segments b in
      case segments b of
        [] \<Rightarrow> Some (b, None)
      | (start, stop) # _ \<Rightarrow> do {
          l \<leftarrow> idx (queue b) stop;
          let seq = seq_of l;
          (b, r) \<leftarrow> rx_depacketize b start stop;
          case r of
            Inl er \<Rightarrow> Some (b\<lparr>last_emitted := Some (seq, NoExtra), queue := drop (stop + 1) (queue b)\<rparr>, Some (Inl er))
          | Inr dep \<Rightarrow> do {
              contiguous_seq \<leftarrow> is_following_last b start;
              if \<not> contiguous_seq \<and> \<not> hold_back b \<le> length (segments b)
              then Some (b\<lparr>depack_cache := Some ((start, stop), dep)\<rparr>, None)
              else
                (let (c, can_emit, contiguous_codec) = contiguity_check (contiguity b) (dep_extra dep) contiguous_seq;
                     dep = dep\<lparr>contiguous := contiguous_codec\<rparr>;
                     b = b\<lparr>contiguity := c, queue := drop (stop + 1) (queue b)\<rparr>
                 in if \<not> can_emit then Some (b, None)
                    else Some (b\<lparr>last_emitted := Some (seq, dep_extra dep)\<rparr>, Some (Inr dep))) } })"

section \<open>Runs\<close>

datatype 'h rx_event = Push "'h rtp_meta" bytes | Pop

fun rx_run :: "'h rx_buffer \<Rightarrow> 'h rx_event list \<Rightarrow> ('h rx_buffer \<times> (packet_error + 'h depacketized) list) option" where
  "rx_run b [] = Some (b, [])"
| "rx_run b (Push m data # evs) = rx_run (rx_push b m data) evs"
| "rx_run b (Pop # evs) = do {
     (b, r) \<leftarrow> rx_pop b;
     (b, rs) \<leftarrow> rx_run b evs;
     Some (b, (case r of None \<Rightarrow> rs | Some d \<Rightarrow> d # rs)) }"

lemma rx_run_append: "rx_run b (evs @ fs) = do { (b, rs) \<leftarrow> rx_run b evs; (b, ss) \<leftarrow> rx_run b fs; Some (b, rs @ ss) }"
proof (induction b evs rule: rx_run.induct)
  case (3 b evs)
  then show ?case
    by (cases "rx_pop b") (auto split: option.splits bind_splits)
qed (auto split: bind_splits)

text \<open>
  The queue is strictly sorted, and unless packets are handed on as they come, nothing in it is as old as what was
  emitted last.
\<close>

definition ordered :: "'h rx_entry list \<Rightarrow> (u64 \<times> codec_extra) option \<Rightarrow> nat \<Rightarrow> bool" where
  "ordered q emitted hold \<longleftrightarrow> sorted_wrt (\<lambda>x y. seq_of x < seq_of y) q
     \<and> (\<forall>l x. 0 < hold \<longrightarrow> emitted = Some (l, x) \<longrightarrow> (\<forall>e\<in>set q. l < seq_of e))"

definition rx_ok :: "'h rx_buffer \<Rightarrow> bool" where
  "rx_ok b \<longleftrightarrow> ordered (queue b) (last_emitted b) (hold_back b)"

lemma sorted_around:
  assumes "sorted_wrt (\<lambda>x y. seq_of x < seq_of y) xs" "sorted_wrt (\<lambda>x y. seq_of x < seq_of y) ys"
    "\<forall>x\<in>set xs. seq_of x < seq_of e" "\<forall>y\<in>set ys. seq_of e < seq_of y"
  shows "sorted_wrt (\<lambda>x y. seq_of x < seq_of y) (xs @ e # ys)"
  using assms by (auto simp: sorted_wrt_append intro: less_trans)

lemma insertion_sorted:
  assumes "sorted_wrt (\<lambda>x y. seq_of x < seq_of y) q" "\<forall>x\<in>set q. seq_of x \<noteq> seq_of e"
  shows "sorted_wrt (\<lambda>x y. seq_of x < seq_of y) (take (insertion_point q (seq_of e)) q @ e # drop (insertion_point q (seq_of e)) q)"
proof -
  have t: "take (insertion_point q (seq_of e)) q = takeWhile (\<lambda>x. seq_of x < seq_of e) q"
    "drop (insertion_point q (seq_of e)) q = dropWhile (\<lambda>x. seq_of x < seq_of e) q"
    by (simp_all add: insertion_point_def takeWhile_eq_take [symmetric] dropWhile_eq_drop [symmetric])
  have q: "q = takeWhile (\<lambda>x. seq_of x < seq_of e) q @ dropWhile (\<lambda>x. seq_of x < seq_of e) q" by simp
  have small: "\<forall>x\<in>set (takeWhile (\<lambda>x. seq_of x < seq_of e) q). seq_of x < seq_of e" by (auto dest: set_takeWhileD)
  have big: "\<forall>x\<in>set (dropWhile (\<lambda>x. seq_of x < seq_of e) q). seq_of e < seq_of x"
  proof (cases "dropWhile (\<lambda>x. seq_of x < seq_of e) q")
    case (Cons y ys)
    have "\<not> seq_of y < seq_of e" using Cons by (metis hd_dropWhile list.distinct(1) list.sel(1))
    moreover have "y \<in> set q" using Cons by (metis list.set_intros(1) set_dropWhileD)
    ultimately have "seq_of e < seq_of y" using assms(2) by force
    moreover have "\<forall>z\<in>set ys. seq_of y < seq_of z" using assms(1) by (subst (asm) q) (simp add: Cons sorted_wrt_append)
    ultimately show ?thesis by (auto simp: Cons)
  next
    case Nil
    show ?thesis unfolding Nil by simp
  qed
  have "sorted_wrt (\<lambda>x y. seq_of x < seq_of y) (takeWhile (\<lambda>x. seq_of x < seq_of e) q @ dropWhile (\<lambda>x. seq_of x < seq_of e) q)"
    using assms(1) by simp
  then have "sorted_wrt (\<lambda>x y. seq_of x < seq_of y) (takeWhile (\<lambda>x. seq_of x < seq_of e) q)"
    "sorted_wrt (\<lambda>x y. seq_of x < seq_of y) (dropWhile (\<lambda>x. seq_of x < seq_of e) q)"
    unfolding sorted_wrt_append by blast+
  then show ?thesis unfolding t using small big by (rule sorted_around)
qed

lemma set_insertion: "set (take i q @ e # drop i q) = insert e (set q)"
  by (metis append_take_drop_id list.set(2) set_append Un_insert_right)

definition too_old :: "'h rx_buffer \<Rightarrow> u64 \<Rightarrow> bool" where
  "too_old b s = (case last_emitted b of Some (l, _) \<Rightarrow> s \<le> l \<and> 0 < hold_back b | None \<Rightarrow> False)"

lemma rx_push_simps:
  "queue (rx_push b m data) =
     (if too_old b (seq_no m) \<or> (\<exists>e\<in>set (queue b). seq_of e = seq_no m) then queue b
      else take (insertion_point (queue b) (seq_no m)) (queue b)
        @ \<lparr>meta = m, entry_data = data, head = codec_is_head (depack b) data, tail = codec_is_tail (depack b) (marker m)\<rparr>
        # drop (insertion_point (queue b) (seq_no m)) (queue b))"
  "last_emitted (rx_push b m data) = last_emitted b" "hold_back (rx_push b m data) = hold_back b"
  "depack (rx_push b m data) = depack b" "depack_cache (rx_push b m data) = depack_cache b" "contiguity (rx_push b m data) = contiguity b"
  by (simp_all add: rx_push_def too_old_def Let_def)

lemma rx_push_ok: "rx_ok b \<Longrightarrow> rx_ok (rx_push b m data)"
proof -
  assume ok: "rx_ok b"
  let ?e = "\<lparr>meta = m, entry_data = data, head = codec_is_head (depack b) data, tail = codec_is_tail (depack b) (marker m)\<rparr>"
  let ?q = "take (insertion_point (queue b) (seq_no m)) (queue b) @ ?e # drop (insertion_point (queue b) (seq_no m)) (queue b)"
  show ?thesis
  proof (cases "too_old b (seq_no m) \<or> (\<exists>e\<in>set (queue b). seq_of e = seq_no m)")
    case False
    have "sorted_wrt (\<lambda>x y. seq_of x < seq_of y) ?q"
      using insertion_sorted [of "queue b" ?e] ok False by (simp add: rx_ok_def ordered_def)
    moreover have "l < seq_of e" if "0 < hold_back b" "last_emitted b = Some (l, x)" "e \<in> set ?q" for l x e
      using that ok False unfolding set_insertion by (auto simp: rx_ok_def ordered_def too_old_def)
    ultimately show ?thesis unfolding rx_ok_def ordered_def rx_push_simps using False by simp
  qed (use ok in \<open>simp add: rx_ok_def rx_push_simps\<close>)
qed

lemma sorted_drop_beyond:
  assumes "sorted_wrt (\<lambda>x y. seq_of x < seq_of y) q" "stop < length q" "e \<in> set (drop (stop + 1) q)"
  shows "seq_of (q ! stop) < seq_of e"
proof -
  obtain j where "j < length q - (stop + 1)" "e = q ! (stop + 1 + j)" using assms(3) by (auto simp: in_set_conv_nth)
  then show ?thesis using assms(1) by (auto simp: sorted_wrt_iff_nth_less)
qed

lemma rx_depacketize_queue:
  "rx_depacketize b start stop = Some (b', r) \<Longrightarrow>
     queue b' = queue b \<and> last_emitted b' = last_emitted b \<and> hold_back b' = hold_back b \<and> segments b' = segments b
     \<and> contiguity b' = contiguity b \<and> depack_cache b' = None"
  by (auto simp: rx_depacketize_def Let_def split: option.splits bind_splits if_splits)

text \<open>What taking a frame does to the queue.\<close>

lemma rx_pop_queue:
  assumes "rx_pop b = Some (b', r)"
  shows "hold_back b' = hold_back b
    \<and> (queue b' = queue b \<and> last_emitted b' = last_emitted b
       \<or> (\<exists>stop < length (queue b). queue b' = drop (stop + 1) (queue b)
           \<and> (last_emitted b' = last_emitted b \<or> (\<exists>x. last_emitted b' = Some (seq_of (queue b ! stop), x)))))"
proof -
  let ?b = "update_segments b"
  have q: "queue ?b = queue b" "last_emitted ?b = last_emitted b" "hold_back ?b = hold_back b" by (simp_all add: update_segments_def)
  show ?thesis
  proof (cases "segments ?b")
    case Nil
    then show ?thesis using assms q by (auto simp: rx_pop_def Let_def)
  next
    case (Cons s ss)
    obtain start stop where s: "s = (start, stop)" by (cases s)
    obtain b1 r1 where l: "stop < length (queue b)" and d: "rx_depacketize ?b start stop = Some (b1, r1)"
      using assms Cons s q by (auto simp: rx_pop_def Let_def idx_eq_Some_iff split: bind_splits)
    have b1: "queue b1 = queue b" "last_emitted b1 = last_emitted b" "hold_back b1 = hold_back b"
      using rx_depacketize_queue [OF d] q by simp_all
    have i: "idx (queue ?b) stop = Some (queue b ! stop)" using l by (simp add: idx_def q)
    show ?thesis
    proof (cases r1)
      case (Inl e)
      then show ?thesis using assms Cons s i d l b1 by (fastforce simp: rx_pop_def Let_def)
    next
      case (Inr dep)
      then show ?thesis using assms Cons s i d l b1
        by (fastforce simp: rx_pop_def Let_def split: bind_splits if_splits prod.splits)
    qed
  qed
qed

lemma rx_pop_ok:
  assumes "rx_ok b" "rx_pop b = Some (b', r)"
  shows "rx_ok b'"
proof -
  note p = rx_pop_queue [OF assms(2)]
  show ?thesis
  proof (cases "queue b' = queue b \<and> last_emitted b' = last_emitted b")
    case False
    then obtain stop where stop: "stop < length (queue b)" "queue b' = drop (stop + 1) (queue b)"
      "last_emitted b' = last_emitted b \<or> (\<exists>x. last_emitted b' = Some (seq_of (queue b ! stop), x))"
      using p by blast
    have "sorted_wrt (\<lambda>x y. seq_of x < seq_of y) (queue b')" using assms(1) stop(2) by (simp add: rx_ok_def ordered_def sorted_wrt_drop)
    moreover have "\<forall>e\<in>set (queue b'). seq_of (queue b ! stop) < seq_of e"
      using sorted_drop_beyond [of "queue b" stop] assms(1) stop(1,2) by (simp add: rx_ok_def ordered_def)
    moreover have "\<forall>e\<in>set (queue b'). e \<in> set (queue b)" using stop(2) by (auto dest: in_set_dropD)
    ultimately show ?thesis using assms(1) stop(3) conjunct1 [OF p] unfolding rx_ok_def ordered_def
      by (elim disjE exE) auto
  qed (use assms p in \<open>simp add: rx_ok_def\<close>)
qed

lemma rx_run_ok: "rx_ok b0 \<Longrightarrow> rx_run b0 evs = Some (b, rs) \<Longrightarrow> rx_ok b"
proof (induction b0 evs arbitrary: rs rule: rx_run.induct)
  case (2 b0 m data evs)
  then show ?case using rx_push_ok by fastforce
next
  case (3 b0 evs)
  then show ?case using rx_pop_ok by (fastforce split: bind_splits)
qed simp

text \<open>C10. Whatever is pushed, in whatever order and however often frames are taken, the queue stays strictly sorted by
  sequence number and, unless packets are to be handed on as they come, never holds a packet that is not newer
  than what was emitted last.
\<close>

theorem rx_buffer_invariant:
  assumes "rx_run (rx_buffer_new dec hold) evs = Some (b, rs)"
  shows "rx_ok b"
  using rx_run_ok [OF _ assms] by (simp add: rx_ok_def ordered_def rx_buffer_new_def)

lemma rx_buffer_invariant_witness:
  "\<exists>b rs. rx_run (rx_buffer_new DpOpus 3) [] = Some (b :: unit rx_buffer, rs) \<and> rx_ok b"
  using rx_buffer_invariant [of DpOpus 3 "[]"] by simp

section \<open>What the segments are\<close>

abbreviation time_of :: "'h rx_entry \<Rightarrow> media_time" where "time_of e \<equiv> meta_time (meta e)"

definition num :: "'h rx_entry \<Rightarrow> nat" where
  "num e = unat (seq_of e)"

lemma sint_num: "num e < 2 ^ 63 \<Longrightarrow> sint (seq_of e) = int (num e)"
proof -
  assume w: "num e < 2 ^ 63"
  have u: "uint (seq_of e) = int (num e)" by (simp add: num_def)
  have "int (num e) < 2 ^ 63" using w by simp
  then have "signed_take_bit 63 (uint (seq_of e)) = uint (seq_of e)"
    unfolding u by (intro signed_take_bit_int_eq_self) simp_all
  then show ?thesis by (simp add: sint_uint num_def)
qed

text \<open>
  A frame in the queue: it starts with a head, and up to its end the sequence numbers go on by one and the time is
  the one it started with.
\<close>

definition frame_at :: "'h rx_entry list \<Rightarrow> nat \<Rightarrow> nat \<Rightarrow> bool" where
  "frame_at q a b \<longleftrightarrow> a \<le> b \<and> b < length q \<and> head (q ! a)
     \<and> (\<forall>k\<in>{a..b}. num (q ! k) = num (q ! a) + (k - a) \<and> mt_eq (time_of (q ! a)) (time_of (q ! k)))"

text \<open>Sequence numbers start from 16 bit ones, so they stay far below the saturation of the offsets.\<close>

definition small_seqs :: "'h rx_entry list \<Rightarrow> bool" where
  "small_seqs q \<longleftrightarrow> length q < 2 ^ 61 \<and> (\<forall>e\<in>set q. num e < 2 ^ 62)"

lemma sat_small: "- (2 ^ 63) \<le> x \<Longrightarrow> x < 2 ^ 63 \<Longrightarrow> sat_i64 x = x"
  by (simp add: sat_i64_def)

lemma mt_eq_refl [simp]: "mt_eq t t"
  by (simp add: mt_eq_def same_base_def)

text \<open>What holds after the first \<open>n\<close> entries.\<close>

definition open_frame :: "'h rx_entry list \<Rightarrow> nat \<Rightarrow> seg_start \<Rightarrow> bool" where
  "open_frame q n s \<longleftrightarrow> start_index s < n \<and> frame_at q (start_index s) (n - 1) \<and> start_time s = time_of (q ! start_index s)
     \<and> start_offset s = int (num (q ! start_index s)) - int (start_index s)"

definition seg_inv :: "'h rx_entry list \<Rightarrow> nat \<Rightarrow> (nat \<times> nat) list \<times> seg_start option \<Rightarrow> bool" where
  "seg_inv q n acc \<longleftrightarrow> list_all (\<lambda>(a, b). frame_at q a b \<and> b < n) (fst acc) \<and> sorted_wrt (\<lambda>(a, b) (c, d). b < c) (fst acc)
     \<and> (case snd acc of Some s \<Rightarrow> open_frame q n s \<and> list_all (\<lambda>(a, b). b < start_index s) (fst acc) | None \<Rightarrow> True)"

lemma frame_extend:
  assumes "frame_at q a b" "Suc b < length q" "num (q ! Suc b) = num (q ! a) + (Suc b - a)"
    "mt_eq (time_of (q ! a)) (time_of (q ! Suc b))"
  shows "frame_at q a (Suc b)"
  unfolding frame_at_def
proof (intro conjI ballI)
  fix k assume "k \<in> {a..Suc b}"
  then have "k \<in> {a..b} \<or> k = Suc b" by auto
  then show "num (q ! k) = num (q ! a) + (k - a)" "mt_eq (time_of (q ! a)) (time_of (q ! k))"
    using assms unfolding frame_at_def by blast+
next
  show "a \<le> Suc b" "head (q ! a)" using assms(1) unfolding frame_at_def by linarith+
qed (rule assms(2))

lemma frame_single: "a < length q \<Longrightarrow> head (q ! a) \<Longrightarrow> frame_at q a a"
  by (simp add: frame_at_def)

lemma frame_bounds: "frame_at q a b \<Longrightarrow> a \<le> b" "frame_at q a b \<Longrightarrow> b < length q"
  unfolding frame_at_def by blast+

text \<open>One step of the loop, over the numbers themselves.\<close>

definition goes_on :: "'h rx_entry list \<Rightarrow> nat \<Rightarrow> nat \<Rightarrow> bool" where
  "goes_on q a k \<longleftrightarrow> num (q ! k) = num (q ! a) + (k - a) \<and> mt_eq (time_of (q ! a)) (time_of (q ! k))"

definition begin_at :: "'h rx_entry list \<Rightarrow> nat \<Rightarrow> (nat \<times> nat) list \<Rightarrow> (nat \<times> nat) list \<times> seg_start option" where
  "begin_at q n segs = (if head (q ! n) then if tail (q ! n) then (segs @ [(n, n)], None)
       else (segs, Some \<lparr>start_index = n, start_time = time_of (q ! n), start_offset = int (num (q ! n)) - int n\<rparr>)
     else (segs, None))"

lemma entry_small:
  assumes "small_seqs q" "n < length q"
  shows "sint (seq_of (q ! n)) = int (num (q ! n))" "int (num (q ! n)) < 2 ^ 62" "int n < 2 ^ 61"
    "sat_i64 (int (num (q ! n)) - int n) = int (num (q ! n)) - int n"
proof -
  have seq2: "num (q ! n) < 2 ^ 62" using assms(1,2) nth_mem unfolding small_seqs_def by blast
  show seq: "sint (seq_of (q ! n)) = int (num (q ! n))" "int (num (q ! n)) < 2 ^ 62"
    using sint_num [OF less_trans [OF seq2]] seq2 by simp_all
  have "n < 2 ^ 61" using assms(1,2) unfolding small_seqs_def by linarith
  then show n: "int n < 2 ^ 61" by simp
  show "sat_i64 (int (num (q ! n)) - int n) = int (num (q ! n)) - int n"
    using seq(2) n by (intro sat_small; simp; linarith?)
qed

lemma segment_step_None:
  assumes "small_seqs q" "n < length q"
  shows "segment_step (segs, None) (n, q ! n) = begin_at q n segs"
  unfolding segment_step_def begin_at_def prod.case Let_def entry_small(1,4) [OF assms] by simp

lemma segment_step_Some:
  assumes "small_seqs q" "n < length q" "open_frame q n s"
  shows "segment_step (segs, Some s) (n, q ! n) =
    (if goes_on q (start_index s) n then if tail (q ! n) then (segs @ [(start_index s, n)], None) else (segs, Some s)
     else begin_at q n (if num (q ! n) = num (q ! start_index s) + (n - start_index s) then segs @ [(start_index s, n - 1)] else segs))"
proof -
  have a: "start_index s < n" "start_time s = time_of (q ! start_index s)"
    "start_offset s = int (num (q ! start_index s)) - int (start_index s)" using assms(3) by (simp_all add: open_frame_def)
  note e = entry_small [OF assms(1,2)]
  have "int (num (q ! start_index s)) < 2 ^ 62" using a(1) assms(2) by (intro entry_small(2) [OF assms(1)]) simp
  then have ex: "sat_i64 (start_offset s + int n) = int (num (q ! start_index s) + (n - start_index s))"
    using a(1) e(3) unfolding a(3) by (subst sat_small) (linarith | simp add: of_nat_diff)+
  define expected where "expected \<longleftrightarrow> num (q ! n) = num (q ! start_index s) + (n - start_index s)"
  define same where "same \<longleftrightarrow> mt_eq (time_of (q ! start_index s)) (time_of (q ! n))"
  have cond: "(map_option (\<lambda>s. sat_i64 (start_offset s + int n)) (Some s) = Some (int (num (q ! n)))) = expected"
    unfolding expected_def by (simp only: option.map option.inject ex of_nat_eq_iff eq_commute)
  have "segment_step (segs, Some s) (n, q ! n) =
    (let (segs, start) = (if expected \<and> \<not> same then (segs @ [(start_index s, n - 1)], None) else (segs, Some s));
         start = (if \<not> expected \<or> \<not> same then None else start);
         start = (if start = None \<and> head (q ! n)
                  then Some \<lparr>start_index = n, start_time = time_of (q ! n), start_offset = int (num (q ! n)) - int n\<rparr> else start)
     in case start of
          Some s \<Rightarrow> if tail (q ! n) then (segs @ [(start_index s, n)], None) else (segs, start)
        | None \<Rightarrow> (segs, start))"
    unfolding segment_step_def Let_def prod.case option.case a(2) same_def [symmetric] e(1) cond e(4) ..
  also have "\<dots> = (if expected \<and> same then if tail (q ! n) then (segs @ [(start_index s, n)], None) else (segs, Some s)
     else begin_at q n (if expected then segs @ [(start_index s, n - 1)] else segs))"
    by (cases expected; cases same) (auto simp: begin_at_def)
  finally show ?thesis by (simp add: goes_on_def expected_def same_def)
qed

lemma seg_inv_step:
  assumes "small_seqs q" "n < length q" "seg_inv q n acc"
  shows "seg_inv q (Suc n) (segment_step acc (n, q ! n))"
proof -
  obtain segs start where acc: "acc = (segs, start)" by (cases acc)
  have newstart: "seg_inv q (Suc n) (begin_at q n segs)"
    if "list_all (\<lambda>(a, b). frame_at q a b \<and> b < n) segs" "sorted_wrt (\<lambda>(a, b) (c, d). b < c) segs" for segs
    using that assms(2) frame_single [of n q] by (auto simp: begin_at_def seg_inv_def open_frame_def list_all_iff sorted_wrt_append)
  have old: "list_all (\<lambda>(a, b). frame_at q a b \<and> b < n) segs" "sorted_wrt (\<lambda>(a, b) (c, d). b < c) segs"
    using assms(3) by (auto simp: seg_inv_def acc list_all_iff)
  show ?thesis
  proof (cases start)
    case None
    then show ?thesis using newstart [OF old] by (simp add: acc segment_step_None [OF assms(1,2)])
  next
    case (Some s)
    then have s: "open_frame q n s" "list_all (\<lambda>(a, b). b < start_index s) segs" using assms(3) by (simp_all add: seg_inv_def acc)
    have a: "start_index s < n" "frame_at q (start_index s) (n - 1)" using s(1) by (simp_all add: open_frame_def)
    have closed: "list_all (\<lambda>(a, b). frame_at q a b \<and> b < n) (segs @ [(start_index s, n - 1)])"
        "sorted_wrt (\<lambda>(a, b) (c, d). b < c) (segs @ [(start_index s, n - 1)])"
      using old s a by (auto simp: list_all_iff sorted_wrt_append)
    show ?thesis
    proof (cases "goes_on q (start_index s) n")
      case True
      then have "frame_at q (start_index s) n"
        using frame_extend [of q "start_index s" "n - 1"] a assms(2) by (simp add: goes_on_def)
      moreover have "open_frame q (Suc n) s" using s(1) calculation by (simp add: open_frame_def)
      moreover have "list_all (\<lambda>(a, b). frame_at q a b \<and> b < Suc n) segs" using old by (auto simp: list_all_iff)
      ultimately show ?thesis using old(2) s a(1) True
        by (auto simp: acc Some segment_step_Some [OF assms(1,2) s(1)] seg_inv_def list_all_iff sorted_wrt_append)
    next
      case False
      then show ?thesis using newstart [OF old] newstart [OF closed] by (simp add: acc Some segment_step_Some [OF assms(1,2) s(1)])
    qed
  qed
qed

lemma seg_inv_all: "small_seqs q \<Longrightarrow> n \<le> length q \<Longrightarrow> seg_inv q n (foldl segment_step ([], None) (enumerate 0 (take n q)))"
proof (induction n)
  case (Suc n)
  have "enumerate 0 (take (Suc n) q) = enumerate 0 (take n q) @ [(n, q ! n)]"
    using Suc.prems(2) by (simp add: take_Suc_conv_app_nth enumerate_append_eq)
  then show ?case using seg_inv_step [OF Suc.prems(1), of n] Suc by simp
qed (simp add: seg_inv_def)

text \<open>
  Which frames there are: a run starts at a head that no run before it reaches, and goes on while the numbers follow each
  other, the time is that of the head and no tail has come. It is a frame when it ends at a tail, or when the packet
  with the next number is there and has another time.
\<close>

definition frame_run :: "'h rx_entry list \<Rightarrow> nat \<Rightarrow> nat \<Rightarrow> bool" where
  "frame_run q a z \<longleftrightarrow> frame_at q a z \<and> (\<forall>k\<in>{a..<z}. \<not> tail (q ! k))"

function starts_frame :: "'h rx_entry list \<Rightarrow> nat \<Rightarrow> bool" where
  "starts_frame q a \<longleftrightarrow> a < length q \<and> head (q ! a) \<and> \<not> (\<exists>a'\<in>{0..<a}. starts_frame q a' \<and> frame_run q a' a)"
  by pat_completeness auto
termination by (relation "measure snd") auto

declare starts_frame.simps [simp del]

definition ends_frame :: "'h rx_entry list \<Rightarrow> nat \<Rightarrow> nat \<Rightarrow> nat \<Rightarrow> bool" where
  "ends_frame q n a z \<longleftrightarrow> z < n \<and> (tail (q ! z) \<or> Suc z < n \<and> num (q ! Suc z) = num (q ! z) + 1
     \<and> \<not> mt_eq (time_of (q ! a)) (time_of (q ! Suc z)))"

definition open_run :: "'h rx_entry list \<Rightarrow> nat \<Rightarrow> nat \<Rightarrow> bool" where
  "open_run q n a \<longleftrightarrow> a < n \<and> starts_frame q a \<and> frame_run q a (n - 1) \<and> \<not> tail (q ! (n - 1))"

definition seg_exact :: "'h rx_entry list \<Rightarrow> nat \<Rightarrow> (nat \<times> nat) list \<times> seg_start option \<Rightarrow> bool" where
  "seg_exact q n acc \<longleftrightarrow> (\<forall>a z. (a, z) \<in> set (fst acc) \<longleftrightarrow> starts_frame q a \<and> frame_run q a z \<and> ends_frame q n a z)
     \<and> (\<forall>a. open_run q n a \<longleftrightarrow> (\<exists>s. snd acc = Some s \<and> start_index s = a))"

lemma frame_at_part:
  assumes "frame_at q a z" "a \<le> y" "y \<le> z"
  shows "frame_at q a y"
proof -
  have "{a..y} \<subseteq> {a..z}" using assms(3) by auto
  moreover have "y < length q" using assms(3) frame_bounds(2) [OF assms(1)] by linarith
  ultimately show ?thesis using assms(1,2) unfolding frame_at_def by blast
qed

lemma frame_at_end: "frame_at q a z \<Longrightarrow> goes_on q a z"
  unfolding frame_at_def goes_on_def by (meson atLeastAtMost_iff order_refl)

lemma frame_run_part: "frame_run q a z \<Longrightarrow> a \<le> y \<Longrightarrow> y \<le> z \<Longrightarrow> frame_run q a y"
  unfolding frame_run_def using frame_at_part [of q a z y] by (meson atLeastLessThan_iff order_less_le_trans)

lemma frame_run_single: "a < length q \<Longrightarrow> frame_run q a a \<longleftrightarrow> head (q ! a)"
  by (auto simp: frame_run_def frame_at_def)

lemma frame_run_Suc:
  assumes "a \<le> n" "Suc n < length q"
  shows "frame_run q a (Suc n) \<longleftrightarrow> frame_run q a n \<and> \<not> tail (q ! n) \<and> goes_on q a (Suc n)"
proof
  assume "frame_run q a (Suc n)"
  then show "frame_run q a n \<and> \<not> tail (q ! n) \<and> goes_on q a (Suc n)"
    using assms frame_run_part [of q a "Suc n" n] frame_at_end [of q a "Suc n"] unfolding frame_run_def
    by (meson atLeastLessThan_iff le_SucI lessI order_refl)
next
  assume "frame_run q a n \<and> \<not> tail (q ! n) \<and> goes_on q a (Suc n)"
  then show "frame_run q a (Suc n)"
    using assms frame_extend [of q a n] by (auto simp: frame_run_def goes_on_def less_Suc_eq)
qed

lemma open_run_unique: "open_run q n a \<Longrightarrow> open_run q n a' \<Longrightarrow> a = a'"
proof (induction a a' rule: linorder_wlog)
  case (le a a')
  show ?case
  proof (rule ccontr)
    assume "a \<noteq> a'"
    then have "a < a'" "frame_run q a a'" using le frame_run_part [of q a "n - 1" a'] by (auto simp: open_run_def)
    then show False using le(2,3) starts_frame.simps [of q a'] by (auto simp: open_run_def)
  qed
qed auto

lemma starts_at:
  assumes "n < length q"
  shows "starts_frame q n \<longleftrightarrow> head (q ! n) \<and> \<not> (\<exists>a. open_run q n a \<and> goes_on q a n)"
proof -
  have "frame_run q a n \<longleftrightarrow> frame_run q a (n - 1) \<and> \<not> tail (q ! (n - 1)) \<and> goes_on q a n" if "a < n" for a
    using frame_run_Suc [of a "n - 1" q] that assms by (cases n) simp_all
  then have "(\<exists>a\<in>{0..<n}. starts_frame q a \<and> frame_run q a n) \<longleftrightarrow> (\<exists>a. open_run q n a \<and> goes_on q a n)"
    by (auto simp: open_run_def)
  then show ?thesis using assms by (subst starts_frame.simps) simp
qed

lemma open_run_Suc:
  assumes "n < length q"
  shows "open_run q (Suc n) a \<longleftrightarrow> \<not> tail (q ! n) \<and> (open_run q n a \<and> goes_on q a n \<or> a = n \<and> starts_frame q n)"
proof (cases "a < n")
  case True
  then show ?thesis using frame_run_Suc [of a "n - 1" q] assms by (cases n) (auto simp: open_run_def)
next
  case False
  then show ?thesis using assms frame_run_single [of n q] starts_at [OF assms] by (auto simp: open_run_def less_Suc_eq)
qed

text \<open>The frames that end with entry \<open>n\<close>, or are found to have ended before it.\<close>

lemma ends_Suc:
  assumes "n < length q"
  shows "starts_frame q a \<and> frame_run q a z \<and> ends_frame q (Suc n) a z \<longleftrightarrow>
    starts_frame q a \<and> frame_run q a z \<and> ends_frame q n a z
    \<or> open_run q n a \<and> Suc z = n \<and> num (q ! n) = num (q ! z) + 1 \<and> \<not> mt_eq (time_of (q ! a)) (time_of (q ! n))
    \<or> z = n \<and> tail (q ! n) \<and> (open_run q n a \<and> goes_on q a n \<or> a = n \<and> starts_frame q n)"
proof (cases "z < n")
  case True
  have "a \<le> z" if "frame_run q a z" using that frame_bounds by (auto simp: frame_run_def)
  then show ?thesis
    using True by (cases "Suc z = n") (auto simp: ends_frame_def open_run_def)
next
  case False
  show ?thesis
  proof (cases "z = n")
    case True
    have "starts_frame q a \<and> frame_run q a n \<longleftrightarrow> open_run q n a \<and> goes_on q a n \<or> a = n \<and> starts_frame q n"
    proof (cases "a < n")
      case True
      then show ?thesis using frame_run_Suc [of a "n - 1" q] assms by (cases n) (auto simp: open_run_def)
    next
      case False
      have "a \<le> n" if "frame_run q a n" using that frame_bounds by (auto simp: frame_run_def)
      then show ?thesis using False assms frame_run_single [of n q] starts_at [OF assms] by (auto simp: open_run_def)
    qed
    then show ?thesis using True by (auto simp: ends_frame_def open_run_def)
  qed (use False in \<open>auto simp: ends_frame_def open_run_def\<close>)
qed

lemma seg_exact_begin:
  assumes "n < length q" "\<not> (\<exists>a. open_run q n a \<and> goes_on q a n)"
    "\<forall>a z. (a, z) \<in> set segs \<longleftrightarrow> starts_frame q a \<and> frame_run q a z \<and> ends_frame q n a z
       \<or> open_run q n a \<and> Suc z = n \<and> num (q ! n) = num (q ! z) + 1 \<and> \<not> mt_eq (time_of (q ! a)) (time_of (q ! n))"
  shows "seg_exact q (Suc n) (begin_at q n segs)"
proof -
  have "starts_frame q n \<longleftrightarrow> head (q ! n)" using assms(2) starts_at [OF assms(1)] by blast
  then have o: "open_run q (Suc n) a \<longleftrightarrow> a = n \<and> head (q ! n) \<and> \<not> tail (q ! n)"
    and e: "starts_frame q a \<and> frame_run q a z \<and> ends_frame q (Suc n) a z \<longleftrightarrow>
        (a, z) \<in> set segs \<or> a = n \<and> z = n \<and> head (q ! n) \<and> tail (q ! n)" for a z
    using assms(2,3) open_run_Suc [OF assms(1)] ends_Suc [OF assms(1)] by blast+
  show ?thesis unfolding seg_exact_def o e by (auto simp: begin_at_def)
qed

lemma seg_exact_step:
  assumes "small_seqs q" "n < length q" "seg_inv q n acc" "seg_exact q n acc"
  shows "seg_exact q (Suc n) (segment_step acc (n, q ! n))"
proof -
  obtain segs start where acc: "acc = (segs, start)" by (cases acc)
  have segs: "(a, z) \<in> set segs \<longleftrightarrow> starts_frame q a \<and> frame_run q a z \<and> ends_frame q n a z" for a z
    using assms(4) by (simp add: seg_exact_def acc)
  show ?thesis
  proof (cases start)
    case None
    then have "\<not> open_run q n a" for a using assms(4) by (simp add: seg_exact_def acc)
    then show ?thesis using seg_exact_begin [OF assms(2), of segs] segs by (simp add: acc None segment_step_None [OF assms(1,2)])
  next
    case (Some s)
    then have s: "open_frame q n s" using assms(3) by (simp add: seg_inv_def acc)
    define m where "m = start_index s"
    have m: "open_run q n a \<longleftrightarrow> a = m" for a using assms(4) by (auto simp: seg_exact_def acc Some m_def)
    have mn: "m < n" using m [of m] by (simp add: open_run_def)
    show ?thesis
    proof (cases "goes_on q m n")
      case True
      then have "\<not> starts_frame q n" using m starts_at [OF assms(2)] by blast
      then have o: "open_run q (Suc n) a \<longleftrightarrow> a = m \<and> \<not> tail (q ! n)" for a using True m open_run_Suc [OF assms(2)] by blast
      have same: "mt_eq (time_of (q ! m)) (time_of (q ! n))" using True by (simp add: goes_on_def)
      have e: "starts_frame q a \<and> frame_run q a z \<and> ends_frame q (Suc n) a z \<longleftrightarrow> (a, z) \<in> set segs \<or> a = m \<and> z = n \<and> tail (q ! n)" for a z
        using ends_Suc [OF assms(2), of a z] segs [of a z] m [of a] \<open>\<not> starts_frame q n\<close> True same by (cases "a = m") auto
      show ?thesis unfolding seg_exact_def o e
        using True by (auto simp: acc Some segment_step_Some [OF assms(1,2) s] m_def [symmetric])
    next
      case False
      have "frame_at q m (n - 1)" using m [of m] by (simp add: open_run_def frame_run_def)
      from frame_at_end [OF this] have "num (q ! (n - 1)) = num (q ! m) + (n - 1 - m)" by (simp add: goes_on_def)
      then have nx: "num (q ! n) = num (q ! (n - 1)) + 1 \<longleftrightarrow> num (q ! n) = num (q ! m) + (n - m)" using mn by auto
      let ?segs = "if num (q ! n) = num (q ! m) + (n - m) then segs @ [(m, n - 1)] else segs"
      have "\<forall>a z. (a, z) \<in> set ?segs \<longleftrightarrow> starts_frame q a \<and> frame_run q a z \<and> ends_frame q n a z
          \<or> open_run q n a \<and> Suc z = n \<and> num (q ! n) = num (q ! z) + 1 \<and> \<not> mt_eq (time_of (q ! a)) (time_of (q ! n))"
        using segs m nx mn False by (auto simp: goes_on_def)
      moreover have "\<not> (\<exists>a. open_run q n a \<and> goes_on q a n)" using False by (simp add: m)
      moreover have "segment_step acc (n, q ! n) = begin_at q n ?segs"
        using False by (simp add: acc Some segment_step_Some [OF assms(1,2) s] m_def [symmetric])
      ultimately show ?thesis using seg_exact_begin [OF assms(2)] by metis
    qed
  qed
qed

lemma seg_exact_all: "small_seqs q \<Longrightarrow> n \<le> length q \<Longrightarrow> seg_exact q n (foldl segment_step ([], None) (enumerate 0 (take n q)))"
proof (induction n)
  case (Suc n)
  have "enumerate 0 (take (Suc n) q) = enumerate 0 (take n q) @ [(n, q ! n)]"
    using Suc.prems(2) by (simp add: take_Suc_conv_app_nth enumerate_append_eq)
  then show ?case using seg_exact_step [OF Suc.prems(1), of n] seg_inv_all [OF Suc.prems(1), of n] Suc by simp
qed (simp add: seg_exact_def ends_frame_def open_run_def)

text \<open>C9. The segments of a queue are exactly the frames in it that are whole: the runs that start at a head no earlier run
  reaches, follow number after number with one time and no tail on the way, and end at a tail or where the next number
  has another time. They are listed from front to back and do not overlap. (Numbers are below \<open>2 ^ 62\<close>; those of a
  stream begin with 16 bits.)
\<close>

theorem segments_are_frames:
  assumes "small_seqs (queue b)"
  shows "set (segments (update_segments b))
      = {(a, z). starts_frame (queue b) a \<and> frame_run (queue b) a z \<and> ends_frame (queue b) (length (queue b)) a z}
    \<and> sorted_wrt (\<lambda>(a, z) (a', z'). z < a') (segments (update_segments b))"
  using seg_inv_all [OF assms, of "length (queue b)"] seg_exact_all [OF assms, of "length (queue b)"]
  by (auto simp: update_segments_def seg_inv_def seg_exact_def)

lemma segments_are_frames_witness:
  "let q = [\<lparr>meta = \<lparr>received = 0, meta_time = \<lparr>numer = 5, denom = 90000\<rparr>, seq_no = 7, marker = True, rest_of_header = ()\<rparr>, entry_data = [1], head = True, tail = True\<rparr>];
       b = (rx_buffer_new DpOpus 3)\<lparr>queue := q\<rparr>
   in segments (update_segments b) = [(0, 0)] \<and> starts_frame q 0 \<and> frame_run q 0 0 \<and> ends_frame q 1 0 0"
proof -
  let ?q = "[\<lparr>meta = \<lparr>received = 0, meta_time = \<lparr>numer = 5, denom = 90000\<rparr>, seq_no = 7, marker = True, rest_of_header = ()\<rparr>, entry_data = [1], head = True, tail = True\<rparr>]"
  let ?b = "(rx_buffer_new DpOpus 3)\<lparr>queue := ?q\<rparr>"
  have "segments (update_segments ?b) = [(0, 0)]" by (simp add: update_segments_def segment_step_def Let_def)
  moreover from this have "(0, 0) \<in> set (segments (update_segments ?b))" by simp
  moreover have "small_seqs (queue ?b)" by (simp add: small_seqs_def num_def)
  ultimately have "(0, 0) \<in> {(a, z). starts_frame (queue ?b) a \<and> frame_run (queue ?b) a z \<and> ends_frame (queue ?b) (length (queue ?b)) a z}"
    using segments_are_frames [of ?b, THEN conjunct1] by blast
  then show ?thesis using \<open>segments (update_segments ?b) = [(0, 0)]\<close> by simp
qed

lemma rx_depacketize_None:
  assumes "rx_depacketize b start stop = None" "start \<le> stop" "stop < length (queue b)"
  shows "\<exists>ps. set ps \<subseteq> entry_data ` set (queue b) \<and> depack_all codec_depacketize (depack b) ps [] NoExtra = None"
proof -
  let ?range = "take (stop + 1 - start) (drop start (queue b))"
  have sl: "slice (queue b) start (stop + 1) = Some ?range" "idx (queue b) start = Some (queue b ! start)"
    using assms(2,3) by (simp_all add: slice_def idx_def)
  have "depack_all codec_depacketize (depack b) (map entry_data ?range) [] NoExtra = None"
    using assms(1) sl
    by (cases "depack_all codec_depacketize (depack b) (map entry_data ?range) [] NoExtra")
      (auto simp: rx_depacketize_def Let_def split: option.splits if_splits)
  moreover have "set (map entry_data ?range) \<subseteq> entry_data ` set (queue b)" by (auto dest: in_set_takeD in_set_dropD)
  ultimately show ?thesis by blast
qed

text \<open>C33. Taking a frame panics only when the depacketizer itself does on packets of the queue.\<close>

theorem rx_pop_panics_only_in_depacketizer:
  assumes "small_seqs (queue b)" "rx_pop b = None"
  shows "\<exists>ps. set ps \<subseteq> entry_data ` set (queue b) \<and> depack_all codec_depacketize (depack b) ps [] NoExtra = None"
proof -
  let ?b = "update_segments b"
  have q: "queue ?b = queue b" "depack ?b = depack b" by (simp_all add: update_segments_def)
  obtain start stop ss where s: "segments ?b = (start, stop) # ss"
    using assms(2) by (cases "segments ?b") (auto simp: rx_pop_def Let_def)
  have "frame_at (queue b) start stop"
    using seg_inv_all [OF assms(1), of "length (queue b)"] s by (auto simp: update_segments_def seg_inv_def)
  note fr = frame_bounds [OF this]
  show ?thesis
  proof (cases "rx_depacketize ?b start stop")
    case None
    then show ?thesis using rx_depacketize_None [of ?b start stop] fr q by simp
  next
    case (Some br)
    obtain b1 r where br: "br = (b1, r)" by (cases br)
    note same = rx_depacketize_queue [OF Some [unfolded br]]
    have "is_following_last b1 start \<noteq> None"
      using fr same q by (auto simp: is_following_last_def idx_def split: option.splits)
    then show ?thesis
      using assms(2) s Some br fr q
      by (auto simp: rx_pop_def Let_def idx_def split: sum.splits bind_splits if_splits prod.splits)
  qed
qed

lemma rx_pop_panics_only_in_depacketizer_witness:
  "let q = [\<lparr>meta = \<lparr>received = 0, meta_time = \<lparr>numer = 5, denom = 90000\<rparr>, seq_no = 7, marker = True, rest_of_header = ()\<rparr>, entry_data = [0x78, 0, 0], head = True, tail = True\<rparr>];
       b = (rx_buffer_new (DpH264 \<lparr>is_avc = False, fua_buffer = None\<rparr>) 3)\<lparr>queue := q\<rparr>
   in rx_pop b = None \<and> (\<exists>ps. set ps \<subseteq> {[0x78, 0, 0]} \<and> depack_all codec_depacketize (depack b) ps [] NoExtra = None)"
proof -
  let ?q = "[\<lparr>meta = \<lparr>received = 0, meta_time = \<lparr>numer = 5, denom = 90000\<rparr>, seq_no = 7, marker = True, rest_of_header = ()\<rparr>, entry_data = [0x78, 0, 0], head = True, tail = True\<rparr>]"
  let ?b = "(rx_buffer_new (DpH264 \<lparr>is_avc = False, fua_buffer = None\<rparr>) 3)\<lparr>queue := ?q\<rparr>"
  have h: "h264_depacketize \<lparr>is_avc = False, fua_buffer = None\<rparr> [0x78, 0, 0] [] NoExtra = None"
    by (simp add: h264_depacketize_def NALU_TYPE_BITMASK_def Let_def stap_loop.simps idx_def from_be16_def)
  have "rx_pop ?b = None"
    by (simp add: rx_pop_def update_segments_def segment_step_def Let_def idx_def slice_def rx_depacketize_def rx_buffer_new_def
        codec_depacketize_def into_def h)
  moreover have "small_seqs (queue ?b)" by (simp add: small_seqs_def num_def)
  ultimately show ?thesis using rx_pop_panics_only_in_depacketizer [of ?b] by simp
qed

section \<open>The cache\<close>

text \<open>One packet of a stream whose packets are frames of their own.\<close>

definition pkt :: "nat \<Rightarrow> unit rtp_meta" where
  "pkt n = \<lparr>received = 0, meta_time = \<lparr>numer = int n * 960, denom = 48000\<rparr>, seq_no = of_nat n, marker = False, rest_of_header = ()\<rparr>"

text \<open>
  The cache of a depacketized frame is keyed by positions in the queue, and a late packet shifts them: of the
  Opus packets 1, 3, 2, taken after each arrival, the contents of the third are handed on twice and those of the
  second never, though nothing was lost.
\<close>

theorem cache_repeats_frame:
  "map_option (\<lambda>(b, ds). (map (map_sum id (\<lambda>d. (dep_data d, contiguous d))) ds, queue b))
     (rx_run (rx_buffer_new DpOpus 15) [Push (pkt 1) [11], Pop, Push (pkt 3) [33], Pop, Push (pkt 2) [22], Pop, Pop, Pop])
   = Some ([Inr ([11], True), Inr ([33], True), Inr ([33], True)], [])"
  by (simp add: pkt_def rx_buffer_new_def rx_push_def rx_pop_def update_segments_def segment_step_def Let_def idx_def slice_def rx_depacketize_def
      codec_depacketize_def opus_depacketize_def codec_is_head_def codec_is_tail_def insertion_point_def is_following_last_def is_next_def
      contiguity_check_def sat_i64_def mt_eq_def same_base_def rebase_def mt_max_def mt_cmp_def word_le_nat_alt)

end
