(* ===== verification/NackRegister.thy ===== *)
theory NackRegister imports SeqNo RtcpPackets ReportList begin

text \<open>
  The register of received packets that decides which ones are asked for again, \<open>streams/register_nack.rs\<close> of str0m.
  Extended sequence numbers are natural numbers; the few additions of the code that could pass 2^64 need a packet
  numbered that high.
\<close>

section \<open>State\<close>

definition MAX_MISORDER :: nat where "MAX_MISORDER = 100"

definition MAX_NACKS :: nat where "MAX_NACKS = 5"

definition NACK_BUFFER_SIZE :: nat where "NACK_BUFFER_SIZE = MAX_MISORDER + 1"

record nack_status =
  ns_received :: bool
  nack_count :: nat

record nack_register =
  nr_packets :: "nack_status list"
  nr_active :: "(nat \<times> nat) option"

definition status_new :: nack_status where
  "status_new = \<lparr>ns_received = False, nack_count = 0\<rparr>"

definition needs_nack :: "nack_status \<Rightarrow> bool" where
  "needs_nack p \<longleftrightarrow> \<not> ns_received p \<and> nack_count p < MAX_NACKS"

definition nack_register_new :: nack_register where
  "nack_register_new = \<lparr>nr_packets = replicate NACK_BUFFER_SIZE status_new, nr_active = None\<rparr>"

definition as_index :: "nack_register \<Rightarrow> nat \<Rightarrow> nat" where
  "as_index reg s = s mod length (nr_packets reg)"

definition at_seq :: "nack_register \<Rightarrow> nat \<Rightarrow> nack_status" where
  "at_seq reg s = nr_packets reg ! as_index reg s"

definition change_at :: "nat \<Rightarrow> (nack_status \<Rightarrow> nack_status) \<Rightarrow> nack_register \<Rightarrow> nack_register" where
  "change_at s f reg = reg\<lparr>nr_packets := (nr_packets reg)[as_index reg s := f (at_seq reg s)]\<rparr>"

definition mark_received :: "nack_status \<Rightarrow> nack_status" where
  "mark_received p = p\<lparr>ns_received := True\<rparr>"

definition count_nack :: "nack_status \<Rightarrow> nack_status" where
  "count_nack p = p\<lparr>nack_count := nack_count p + 1\<rparr>"

section \<open>A packet arrives\<close>

function first_gap :: "nack_register \<Rightarrow> nat \<Rightarrow> nat \<Rightarrow> nat \<Rightarrow> nat" where
  "first_gap reg seq stop start =
     (if start < stop then
        if \<not> ns_received (at_seq reg start) \<and> start \<noteq> seq then start else first_gap reg seq stop (start + 1)
      else start)"
  by pat_completeness auto
termination by (relation "measure (\<lambda>(_, _, stop, start). stop - start)") auto

declare first_gap.simps [simp del]

text \<open>The loop that clears what leaves the window stops after one more than the whole buffer.\<close>

definition clear_range :: "nat \<Rightarrow> nat \<Rightarrow> nack_register \<Rightarrow> nack_register" where
  "clear_range a b reg = fold (\<lambda>s. change_at s (\<lambda>_. status_new)) [a..<min b (a + length (nr_packets reg) + 2)] reg"

definition nr_update :: "nack_register \<Rightarrow> nat \<Rightarrow> nack_register \<times> bool" where
  "nr_update reg seq =
     (case nr_active reg of
        None \<Rightarrow> (change_at seq mark_received (reg\<lparr>nr_active := Some (seq, seq)\<rparr>), True)
      | Some (start, stop) \<Rightarrow>
          if seq < start then (reg, False)
          else
            (let new = (\<not> ns_received (at_seq reg seq) \<or> stop < seq);
                 stop' = max stop seq;
                 start' = first_gap reg seq stop' (max start (stop' - MAX_MISORDER));
                 reg = clear_range start start' reg;
                 reg = (if start' \<le> seq \<and> seq \<le> stop' then change_at seq mark_received reg else reg)
             in (reg\<lparr>nr_active := Some (start', stop')\<rparr>, new)))"

definition nr_max_seq :: "nack_register \<Rightarrow> nat option" where
  "nr_max_seq reg = map_option snd (nr_active reg)"

section \<open>Asking again\<close>

fun mask_loop :: "nack_register \<Rightarrow> nat \<Rightarrow> nat list \<Rightarrow> u16 \<Rightarrow> nack_register \<times> u16" where
  "mask_loop reg i [] blp = (reg, blp)"
| "mask_loop reg i (s # ss) blp =
     (if needs_nack (at_seq reg s) then mask_loop (change_at s count_nack reg) (i + 1) ss (blp OR push_bit i 1)
      else mask_loop reg (i + 1) ss blp)"

text \<open>One call of the iterator, with the number it goes on from. The code adds one more to it at the end.\<close>

definition nack_iter_next :: "nack_register \<Rightarrow> nat \<Rightarrow> nat \<Rightarrow> (nack_register \<times> nat \<times> nack_entry) option" where
  "nack_iter_next reg from_seq stop =
     (case find (\<lambda>s. needs_nack (at_seq reg s)) [from_seq..<stop + 1] of
        None \<Rightarrow> None
      | Some n \<Rightarrow>
          (let reg = change_at n count_nack reg;
               ss = take 16 [n + 1..<stop];
               (reg, blp) = mask_loop reg 0 ss 0
           in Some (reg, n + 1 + length ss + 1, \<lparr>ne_pid = of_nat (n mod 65536), ne_blp = blp\<rparr>)))"

lemma find_upt:
  assumes "find P [a..<b] = Some n"
  shows "a \<le> n \<and> n < b \<and> P n \<and> (\<forall>s. a \<le> s \<and> s < n \<longrightarrow> \<not> P s)"
proof -
  obtain i where i: "i < b - a" "P ([a..<b] ! i)" "n = [a..<b] ! i" "\<forall>j<i. \<not> P ([a..<b] ! j)"
    using assms unfolding find_Some_iff by auto
  then have n: "n = a + i" by simp
  have "\<not> P s" if "a \<le> s" "s < n" for s
  proof -
    have "s - a < i" "[a..<b] ! (s - a) = s" using that i(1) n by auto
    then show ?thesis using i(4) by metis
  qed
  then show ?thesis using i n by auto
qed

lemma nack_iter_next_moves: "nack_iter_next reg a b = Some (reg', a', e) \<Longrightarrow> a < a' \<and> a \<le> b"
  by (auto simp: nack_iter_next_def Let_def dest!: find_upt split: option.splits prod.splits simp del: upt_Suc)

function nack_entries :: "nack_register \<Rightarrow> nat \<Rightarrow> nat \<Rightarrow> nack_register \<times> nack_entry list" where
  "nack_entries reg from_seq stop =
     (case nack_iter_next reg from_seq stop of
        None \<Rightarrow> (reg, [])
      | Some (reg, from_seq, e) \<Rightarrow> (let (reg, es) = nack_entries reg from_seq stop in (reg, e # es)))"
  by pat_completeness auto
termination
  by (relation "measure (\<lambda>(_, from_seq, stop). stop + 1 - from_seq)") (auto dest!: nack_iter_next_moves)

declare nack_entries.simps [simp del]

definition nack_reports :: "nack_register \<Rightarrow> nack_register \<times> nack list option" where
  "nack_reports reg =
     (case nr_active reg of
        None \<Rightarrow> (reg, None)
      | Some (start, stop) \<Rightarrow>
          (case find (\<lambda>s. needs_nack (at_seq reg s)) [start..<stop + 1] of
             None \<Rightarrow> (reg, None)
           | Some n \<Rightarrow>
               (let (reg, es) = nack_entries reg n stop in
                (reg, Some (map (\<lambda>r. \<lparr>n_sender_ssrc = 0, n_ssrc = 0, n_reports = r\<rparr>) (lists_from_iter es))))))"

section \<open>The window\<close>

text \<open>
  What the register knows, given the numbers \<open>seen\<close> so far and how often \<open>c\<close> each one was asked for: the window is at
  most the buffer, ends at the greatest number and starts at a missing one; the place of each of its numbers says
  whether it was seen and how often it was asked for, and nothing is left in the places outside.
\<close>

definition covers :: "nat \<Rightarrow> nat \<Rightarrow> nat \<Rightarrow> bool" where
  "covers a b i \<longleftrightarrow> (\<exists>s. a \<le> s \<and> s \<le> b \<and> s mod NACK_BUFFER_SIZE = i)"

definition status_of :: "nat set \<Rightarrow> (nat \<Rightarrow> nat) \<Rightarrow> nat \<Rightarrow> nack_status" where
  "status_of seen c s = \<lparr>ns_received = (s \<in> seen), nack_count = c s\<rparr>"

definition knows :: "nat set \<Rightarrow> (nat \<Rightarrow> nat) \<Rightarrow> nack_register \<Rightarrow> bool" where
  "knows seen c reg \<longleftrightarrow> length (nr_packets reg) = NACK_BUFFER_SIZE \<and> (\<forall>s. c s \<le> MAX_NACKS)
     \<and> (case nr_active reg of
          None \<Rightarrow> seen = {} \<and> (\<forall>s. c s = 0) \<and> nr_packets reg = replicate NACK_BUFFER_SIZE status_new
        | Some (start, stop) \<Rightarrow> start \<le> stop \<and> stop - start \<le> MAX_MISORDER \<and> stop \<in> seen \<and> (\<forall>s\<in>seen. s \<le> stop)
            \<and> (\<forall>s. stop < s \<longrightarrow> c s = 0)
            \<and> (\<forall>s. start \<le> s \<and> s \<le> stop \<longrightarrow> at_seq reg s = status_of seen c s)
            \<and> (start < stop \<longrightarrow> start \<notin> seen)
            \<and> (\<forall>i<NACK_BUFFER_SIZE. \<not> covers start stop i \<longrightarrow> nr_packets reg ! i = status_new))"

lemma status_simps [simp]:
  "ns_received (mark_received p)" "\<not> ns_received status_new" "ns_received (count_nack p) = ns_received p"
  "nack_count (count_nack p) = nack_count p + 1"
  by (simp_all add: mark_received_def status_new_def count_nack_def)

lemma first_gap_step:
  "start < stop \<Longrightarrow> ns_received (at_seq reg start) \<or> start = seq \<Longrightarrow> first_gap reg seq stop start = first_gap reg seq stop (start + 1)"
  by (subst first_gap.simps) auto

lemma first_gap_stops:
  "\<not> start < stop \<or> (\<not> ns_received (at_seq reg start) \<and> start \<noteq> seq) \<Longrightarrow> first_gap reg seq stop start = start"
  by (subst first_gap.simps) auto

lemma first_gap_spec:
  "start \<le> stop \<Longrightarrow> start \<le> first_gap reg seq stop start \<and> first_gap reg seq stop start \<le> stop
     \<and> (first_gap reg seq stop start < stop \<longrightarrow> \<not> ns_received (at_seq reg (first_gap reg seq stop start)) \<and> first_gap reg seq stop start \<noteq> seq)"
proof (induction reg seq stop start rule: first_gap.induct)
  case (1 reg seq stop start)
  show ?case
  proof (cases "start < stop \<and> (ns_received (at_seq reg start) \<or> start = seq)")
    case True
    then have "first_gap reg seq stop start = first_gap reg seq stop (start + 1)" by (blast intro: first_gap_step)
    then show ?thesis using 1 True by auto
  next
    case False
    then have "first_gap reg seq stop start = start" by (blast intro: first_gap_stops)
    then show ?thesis using False "1.prems" by auto
  qed
qed

lemma length_change_at [simp]: "length (nr_packets (change_at s f reg)) = length (nr_packets reg)"
  by (simp add: change_at_def)

lemma active_change_at [simp]: "nr_active (change_at s f reg) = nr_active reg"
  by (simp add: change_at_def)

lemma clear_all:
  assumes "length (nr_packets reg) = n" "0 < n"
  shows "length (nr_packets (fold (\<lambda>s. change_at s (\<lambda>_. status_new)) ss reg)) = n
    \<and> (\<forall>i<n. nr_packets (fold (\<lambda>s. change_at s (\<lambda>_. status_new)) ss reg) ! i
         = (if \<exists>s\<in>set ss. s mod n = i then status_new else nr_packets reg ! i))"
  using assms
proof (induction ss arbitrary: reg)
  case (Cons s ss)
  have "length (nr_packets (change_at s (\<lambda>_. status_new) reg)) = n" using Cons.prems by simp
  note IH = Cons.IH [OF this Cons.prems(2)]
  have "nr_packets (change_at s (\<lambda>_. status_new) reg) ! i = (if s mod n = i then status_new else nr_packets reg ! i)" if "i < n" for i
    using that Cons.prems by (simp add: change_at_def as_index_def nth_list_update)
  then show ?case using IH by auto
qed simp

text \<open>Stopping the clearing early does not matter: by then every place has been cleared.\<close>

lemma clear_range_at:
  assumes "length (nr_packets reg) = n" "0 < n" "i < n"
  shows "nr_packets (clear_range a b reg) ! i = (if \<exists>s. a \<le> s \<and> s < b \<and> s mod n = i then status_new else nr_packets reg ! i)"
proof -
  have "(\<exists>s. a \<le> s \<and> s < min b (a + n + 2) \<and> s mod n = i) \<longleftrightarrow> (\<exists>s. a \<le> s \<and> s < b \<and> s mod n = i)"
  proof
    assume "\<exists>s. a \<le> s \<and> s < b \<and> s mod n = i"
    then obtain s where s: "a \<le> s" "s < b" "s mod n = i" by blast
    let ?t = "a + (s - a) mod n"
    have "?t mod n = i" using s(1,3) by (metis le_add_diff_inverse mod_add_right_eq)
    moreover have "?t \<le> s" using s(1) mod_less_eq_dividend [of "s - a" n] by linarith
    moreover have "(s - a) mod n < n" using assms(2) by simp
    ultimately show "\<exists>s. a \<le> s \<and> s < min b (a + n + 2) \<and> s mod n = i" using s(2) by (intro exI [of _ ?t]) simp
  qed auto
  then show ?thesis using clear_all [OF assms(1,2), of "[a..<min b (a + length (nr_packets reg) + 2)]"] assms(1,3)
    by (auto simp: clear_range_def)
qed

lemma length_clear_range: "length (nr_packets reg) = n \<Longrightarrow> 0 < n \<Longrightarrow> length (nr_packets (clear_range a b reg)) = n"
  using clear_all [of reg n] by (simp add: clear_range_def)

lemma mod_apart: "s mod n = t mod n \<Longrightarrow> s < t \<Longrightarrow> s + n \<le> (t :: nat)"
proof -
  assume "s mod n = t mod n" "s < t"
  then have "n dvd t - s" "0 < t - s" using mod_eq_dvd_iff_nat [of s t n] by simp_all
  then have "n \<le> t - s" by (rule dvd_imp_le)
  then show ?thesis using \<open>s < t\<close> by linarith
qed

lemma buffer_size: "NACK_BUFFER_SIZE = 101" and max_misorder: "MAX_MISORDER = 100"
  by (simp_all add: NACK_BUFFER_SIZE_def MAX_MISORDER_def)

lemma change_at_nth:
  "length (nr_packets reg) = NACK_BUFFER_SIZE \<Longrightarrow> i < NACK_BUFFER_SIZE \<Longrightarrow>
     nr_packets (change_at s f reg) ! i = (if s mod NACK_BUFFER_SIZE = i then f (nr_packets reg ! i) else nr_packets reg ! i)"
  by (auto simp: change_at_def as_index_def at_seq_def nth_list_update)

lemma at_seq_nth: "length (nr_packets reg) = NACK_BUFFER_SIZE \<Longrightarrow> at_seq reg s = nr_packets reg ! (s mod NACK_BUFFER_SIZE)"
  by (simp add: at_seq_def as_index_def)

text \<open>An update inside or behind the window, seen place by place.\<close>

lemma moved_window:
  assumes k: "knows seen c reg" "nr_active reg = Some (start, stop)" "start \<le> seq"
  defines "stop' \<equiv> max stop seq"
  defines "start' \<equiv> first_gap reg seq stop' (max start (stop' - MAX_MISORDER))"
  shows "start \<le> start'" "start' \<le> stop'" "stop' - start' \<le> MAX_MISORDER"
    "start' < stop' \<Longrightarrow> start' \<notin> insert seq seen"
    "\<And>i. i < NACK_BUFFER_SIZE \<Longrightarrow> nr_packets (clear_range start start' reg) ! i
       = (if covers start' stop i then nr_packets reg ! i else status_new)"
proof -
  have K: "length (nr_packets reg) = NACK_BUFFER_SIZE" "start \<le> stop" "stop - start \<le> MAX_MISORDER" "\<And>s. s \<in> seen \<Longrightarrow> s \<le> stop"
      "\<And>s. start \<le> s \<Longrightarrow> s \<le> stop \<Longrightarrow> at_seq reg s = status_of seen c s"
      "\<And>i. i < NACK_BUFFER_SIZE \<Longrightarrow> \<not> covers start stop i \<Longrightarrow> nr_packets reg ! i = status_new"
    using k by (auto simp: knows_def)
  have "max start (stop' - MAX_MISORDER) \<le> stop'" using K(2) by (simp add: stop'_def)
  note g = first_gap_spec [OF this, of reg seq, folded start'_def]
  show ge: "start \<le> start'" and le: "start' \<le> stop'" using g by simp_all
  show "stop' - start' \<le> MAX_MISORDER" using g by linarith
  show "start' \<notin> insert seq seen" if "start' < stop'"
    using g that K(4,5) ge by (cases "start' \<le> stop") (auto simp: status_of_def)
  show "nr_packets (clear_range start start' reg) ! i
       = (if covers start' stop i then nr_packets reg ! i else status_new)"
    if i: "i < NACK_BUFFER_SIZE" for i
  proof -
    have one: "\<not> (\<exists>s. start \<le> s \<and> s < start' \<and> s mod NACK_BUFFER_SIZE = i)" if c: "covers start' stop i"
    proof
      obtain t where t: "start' \<le> t" "t \<le> stop" "t mod NACK_BUFFER_SIZE = i" using c by (auto simp: covers_def)
      assume "\<exists>s. start \<le> s \<and> s < start' \<and> s mod NACK_BUFFER_SIZE = i"
      then obtain s where "start \<le> s" "s < start'" "s mod NACK_BUFFER_SIZE = i" by blast
      then show False using mod_apart [of s NACK_BUFFER_SIZE t] t K(3) unfolding buffer_size max_misorder by linarith
    qed
    have two: "nr_packets reg ! i = status_new"
      if "\<not> covers start' stop i" "\<not> (\<exists>s. start \<le> s \<and> s < start' \<and> s mod NACK_BUFFER_SIZE = i)"
    proof (rule K(6) [OF i])
      show "\<not> covers start stop i" using that unfolding covers_def by (metis not_le)
    qed
    have "0 < NACK_BUFFER_SIZE" by (simp add: buffer_size)
    note at = clear_range_at [OF K(1) this i, of start start']
    show ?thesis
    proof (cases "covers start' stop i")
      case True
      show ?thesis unfolding at using one [OF True] True by auto
    next
      case False
      show ?thesis unfolding at using two [OF False] False by auto
    qed
  qed
qed

text \<open>The places of the new window: what they said before, or nothing for new numbers, and the mark of the packet.\<close>

lemma window_marked:
  assumes places: "\<And>i. i < NACK_BUFFER_SIZE \<Longrightarrow> P2 ! i = (if start' \<le> seq \<and> seq mod NACK_BUFFER_SIZE = i then mark_received else id)
      (if covers start' stop i then P ! i else status_new)"
    and short: "max stop seq - start' \<le> MAX_MISORDER"
  shows "start' \<le> s \<Longrightarrow> s \<le> max stop seq \<Longrightarrow>
      P2 ! (s mod NACK_BUFFER_SIZE) = (if s = seq then mark_received else id) (if s \<le> stop then P ! (s mod NACK_BUFFER_SIZE) else status_new)"
    and "i < NACK_BUFFER_SIZE \<Longrightarrow> \<not> covers start' (max stop seq) i \<Longrightarrow> P2 ! i = status_new"
proof -
  have apart: "s = t" if "start' \<le> s" "s \<le> max stop seq" "start' \<le> t" "t \<le> max stop seq" "s mod NACK_BUFFER_SIZE = t mod NACK_BUFFER_SIZE" for s t
    using that short mod_apart [of s NACK_BUFFER_SIZE t] mod_apart [of t NACK_BUFFER_SIZE s]
    unfolding buffer_size max_misorder by linarith
  show "P2 ! (s mod NACK_BUFFER_SIZE) = (if s = seq then mark_received else id) (if s \<le> stop then P ! (s mod NACK_BUFFER_SIZE) else status_new)"
    if s: "start' \<le> s" "s \<le> max stop seq"
  proof -
    have "s mod NACK_BUFFER_SIZE < NACK_BUFFER_SIZE" by (simp add: buffer_size)
    moreover have "(start' \<le> seq \<and> seq mod NACK_BUFFER_SIZE = s mod NACK_BUFFER_SIZE) = (s = seq)"
      using apart [OF s, of seq] s(1) by auto
    moreover have "covers start' stop (s mod NACK_BUFFER_SIZE) = (s \<le> stop)"
      using apart [OF s] s(1) unfolding covers_def by (metis le_trans max.cobounded1)
    ultimately show ?thesis using places by simp
  qed
  show "P2 ! i = status_new" if i: "i < NACK_BUFFER_SIZE" "\<not> covers start' (max stop seq) i"
  proof -
    have "\<not> (start' \<le> seq \<and> seq mod NACK_BUFFER_SIZE = i)" using i(2) by (auto simp: covers_def)
    moreover have "\<not> covers start' stop i" using i(2) unfolding covers_def by (metis le_trans max.cobounded1)
    ultimately show ?thesis using places [OF i(1)] by auto
  qed
qed

lemma update_knows:
  assumes k: "knows seen c reg"
  shows "knows (insert seq seen) c (fst (nr_update reg seq))"
proof (cases "nr_active reg")
  case None
  have n: "length (nr_packets reg) = NACK_BUFFER_SIZE" "seen = {}" "nr_packets reg = replicate NACK_BUFFER_SIZE status_new"
      "\<forall>s. c s = 0" using k None by (auto simp: knows_def)
  have "0 < NACK_BUFFER_SIZE" by (simp add: buffer_size)
  then show ?thesis using None n
    by (auto simp: nr_update_def knows_def at_seq_nth change_at_nth covers_def status_of_def mark_received_def status_new_def)
next
  case (Some w)
  obtain start stop where w: "w = (start, stop)" by (cases w)
  note a = Some [unfolded w]
  show ?thesis
  proof (cases "seq < start")
    case True
    then show ?thesis using k a by (auto simp: nr_update_def knows_def status_of_def)
  next
    case False
    define start' where "start' = first_gap reg seq (max stop seq) (max start (max stop seq - MAX_MISORDER))"
    define reg1 where "reg1 = clear_range start start' reg"
    note m = moved_window [OF k a, of seq, folded start'_def reg1_def, OF False [unfolded not_less]]
    have K: "length (nr_packets reg) = NACK_BUFFER_SIZE" "stop \<in> seen" "\<And>s. s \<in> seen \<Longrightarrow> s \<le> stop" "\<forall>s. c s \<le> MAX_NACKS"
        "\<And>s. start \<le> s \<Longrightarrow> s \<le> stop \<Longrightarrow> nr_packets reg ! (s mod NACK_BUFFER_SIZE) = status_of seen c s" "\<And>s. stop < s \<Longrightarrow> c s = 0"
      using k a by (auto simp: knows_def at_seq_nth)
    have len: "length (nr_packets reg1) = NACK_BUFFER_SIZE"
      unfolding reg1_def using K(1) by (rule length_clear_range) (simp add: buffer_size)
    define reg2 where "reg2 = (if start' \<le> seq \<and> seq \<le> max stop seq then change_at seq mark_received reg1 else reg1)"
    have fst: "fst (nr_update reg seq) = reg2\<lparr>nr_active := Some (start', max stop seq)\<rparr>"
      using a False by (simp add: nr_update_def Let_def start'_def reg1_def reg2_def)
    have places: "nr_packets reg2 ! i = (if start' \<le> seq \<and> seq mod NACK_BUFFER_SIZE = i then mark_received else id)
        (if covers start' stop i then nr_packets reg ! i else status_new)" if "i < NACK_BUFFER_SIZE" for i
      using change_at_nth [OF len that] m(5) [OF that] by (auto simp: reg2_def)
    note new = window_marked [where P = "nr_packets reg" and ?P2.0 = "nr_packets reg2", OF places m(3), simplified]
    have "nr_packets reg2 ! (s mod NACK_BUFFER_SIZE) = status_of (insert seq seen) c s" if s: "start' \<le> s" "s \<le> max stop seq" for s
      using new(1) [OF s] K(3,5,6) [of s] m(1) s(1) by (auto simp: status_of_def mark_received_def status_new_def)
    moreover have "length (nr_packets reg2) = NACK_BUFFER_SIZE" using len by (simp add: reg2_def)
    ultimately show ?thesis
      unfolding fst knows_def using m(2,3,4) K(2,3,4,6) new(2)
      by (auto simp: at_seq_nth max_def split: if_splits dest: order_trans)
  qed
qed


section \<open>What is asked for\<close>

definition ask :: "nat list \<Rightarrow> nack_register \<Rightarrow> nack_register" where
  "ask ss reg = fold (\<lambda>s. change_at s count_nack) ss reg"

definition in_window :: "nat \<Rightarrow> nat \<Rightarrow> nat list \<Rightarrow> bool" where
  "in_window a b ss \<longleftrightarrow> (\<forall>s\<in>set ss. a \<le> s \<and> s \<le> b)"

lemma ask_simps [simp]: "ask [] reg = reg" "ask (s # ss) reg = ask ss (change_at s count_nack reg)"
    "ask (ss @ ts) reg = ask ts (ask ss reg)" "length (nr_packets (ask ss reg)) = length (nr_packets reg)"
    "nr_active (ask ss reg) = nr_active reg"
proof -
  show "length (nr_packets (ask ss reg)) = length (nr_packets reg)" "nr_active (ask ss reg) = nr_active reg"
    by (induction ss arbitrary: reg) (simp_all add: ask_def)
qed (simp_all add: ask_def)

lemma window_apart: "a \<le> s \<Longrightarrow> s \<le> b \<Longrightarrow> a \<le> t \<Longrightarrow> t \<le> b \<Longrightarrow> b - a \<le> MAX_MISORDER \<Longrightarrow>
    s mod NACK_BUFFER_SIZE = t mod NACK_BUFFER_SIZE \<longleftrightarrow> s = t"
  using mod_apart [of s NACK_BUFFER_SIZE t] mod_apart [of t NACK_BUFFER_SIZE s]
  by (cases s t rule: linorder_cases) (auto simp: buffer_size max_misorder)

lemma at_change:
  "length (nr_packets reg) = NACK_BUFFER_SIZE \<Longrightarrow>
     at_seq (change_at t f reg) s = (if t mod NACK_BUFFER_SIZE = s mod NACK_BUFFER_SIZE then f (at_seq reg s) else at_seq reg s)"
  by (simp add: at_seq_nth change_at_nth buffer_size)

lemma at_ask:
  assumes "length (nr_packets reg) = NACK_BUFFER_SIZE" "b - a \<le> MAX_MISORDER" "in_window a b ss" "a \<le> s" "s \<le> b" "distinct ss"
  shows "at_seq (ask ss reg) s = (if s \<in> set ss then count_nack (at_seq reg s) else at_seq reg s)"
  using assms
proof (induction ss arbitrary: reg)
  case (Cons t ss)
  have "t mod NACK_BUFFER_SIZE = s mod NACK_BUFFER_SIZE \<longleftrightarrow> t = s"
    using Cons.prems by (intro window_apart [of a t b]) (auto simp: in_window_def)
  then have "at_seq (change_at t count_nack reg) s = (if t = s then count_nack (at_seq reg s) else at_seq reg s)"
    using at_change [OF Cons.prems(1)] by simp
  moreover have "at_seq (ask ss (change_at t count_nack reg)) s
      = (if s \<in> set ss then count_nack (at_seq (change_at t count_nack reg) s) else at_seq (change_at t count_nack reg) s)"
    using Cons by (simp add: in_window_def)
  ultimately show ?case using Cons.prems(6) by auto
qed simp

lemma ask_outside:
  assumes "length (nr_packets reg) = NACK_BUFFER_SIZE" "in_window a b ss" "i < NACK_BUFFER_SIZE" "\<not> covers a b i"
  shows "nr_packets (ask ss reg) ! i = nr_packets reg ! i"
  using assms
proof (induction ss arbitrary: reg)
  case (Cons t ss)
  have "t mod NACK_BUFFER_SIZE \<noteq> i" using Cons.prems by (auto simp: in_window_def covers_def)
  then show ?case using Cons change_at_nth [OF Cons.prems(1,3)] by (simp add: in_window_def)
qed simp

text \<open>The mask of an entry has the bits of the packets that need to be asked for.\<close>

lemma mask_loop_asks:
  assumes "length (nr_packets reg) = NACK_BUFFER_SIZE" "b - a \<le> MAX_MISORDER" "in_window a b ss" "distinct ss" "i + length ss \<le> 16"
  defines "need \<equiv> filter (\<lambda>s. needs_nack (at_seq reg s)) ss"
  shows "fst (mask_loop reg i ss blp) = ask need reg
    \<and> (\<forall>k. bit (snd (mask_loop reg i ss blp)) k = (bit blp k \<or> (\<exists>j<length ss. k = i + j \<and> needs_nack (at_seq reg (ss ! j)))))"
  using assms(1-5) unfolding need_def
proof (induction ss arbitrary: reg i blp)
  case (Cons s ss)
  have w: "in_window a b ss" "distinct ss" "a \<le> s" "s \<le> b" "s \<notin> set ss" "Suc i + length ss \<le> 16"
    using Cons.prems by (auto simp: in_window_def)
  have same: "at_seq (change_at s count_nack reg) t = at_seq reg t" if "t \<in> set ss" for t
    using at_ask [OF Cons.prems(1,2), of "[s]" t] that w by (auto simp: in_window_def)
  have *: "bit (blp OR push_bit i 1) k = (bit blp k \<or> k = i)" for k :: nat and blp :: u16
    using w(6) by (auto simp: bit_simps)
  note IH = Cons.IH [OF _ Cons.prems(2) w(1,2,6)]
  show ?case
  proof (cases "needs_nack (at_seq reg s)")
    case True
    have f: "filter (\<lambda>t. needs_nack (at_seq (change_at s count_nack reg) t)) ss = filter (\<lambda>t. needs_nack (at_seq reg t)) ss"
      using same by (auto intro: filter_cong)
    have n: "needs_nack (at_seq (change_at s count_nack reg) (ss ! j)) = needs_nack (at_seq reg (ss ! j))" if "j < length ss" for j
      using same that by simp
    have "(\<exists>j<length ss. k = Suc i + j \<and> needs_nack (at_seq (change_at s count_nack reg) (ss ! j)))
        = (\<exists>j<length ss. k = Suc i + j \<and> needs_nack (at_seq reg (ss ! j)))" for k
      using n by blast
    then show ?thesis using IH [of "change_at s count_nack reg" "blp OR push_bit i 1"] Cons.prems(1) True f
      by (auto simp only: length_change_at mask_loop.simps if_True filter.simps ask_simps * Ex_less_Suc2 list.size
          nth_Cons_0 nth_Cons_Suc add_0_right add_Suc_right add_Suc One_nat_def add.right_neutral)
  next
    case False
    then show ?thesis using IH [of reg blp] Cons.prems(1)
      by (auto simp only: mask_loop.simps if_False filter.simps ask_simps Ex_less_Suc2 list.size
          nth_Cons_0 nth_Cons_Suc add_0_right add_Suc_right add_Suc One_nat_def add.right_neutral)
  qed
qed simp


text \<open>The packets an entry names, as they are on the wire.\<close>

definition names :: "nack_entry \<Rightarrow> u16 list" where
  "names e = ne_pid e # map (\<lambda>i. ne_pid e + of_nat (i + 1)) (filter (bit (ne_blp e)) [0..<16])"

lemma filter_nths: "filter P xs = map (nth xs) (filter (\<lambda>i. P (xs ! i)) [0..<length xs])"
proof -
  have "filter P xs = filter P (map (nth xs) [0..<length xs])" by (simp only: map_nth)
  then show ?thesis by (simp add: filter_map o_def)
qed

lemma of_nat_u16: "(of_nat (n mod 65536) :: u16) = of_nat n"
  by (simp add: word_of_nat_eq_iff take_bit_eq_mod)

lemma entry_names:
  assumes "length (nr_packets reg) = NACK_BUFFER_SIZE" "b - a \<le> MAX_MISORDER" "a \<le> start"
    "nack_iter_next reg start b = Some (reg', start', e)"
  shows "\<exists>asked. names e = map of_nat asked \<and> reg' = ask asked reg \<and> sorted_wrt (<) asked \<and> asked \<noteq> []
    \<and> find (\<lambda>s. needs_nack (at_seq reg s)) [start..<b + 1] = Some (hd asked)
    \<and> (\<forall>s\<in>set asked. start \<le> s \<and> s \<le> b \<and> s < start' \<and> needs_nack (at_seq reg s))"
proof -
  let ?need = "\<lambda>s. needs_nack (at_seq reg s)"
  obtain n where n: "find ?need [start..<b + 1] = Some n" using assms(4) by (auto simp: nack_iter_next_def split: option.splits)
  define reg1 ss where "reg1 = change_at n count_nack reg" and "ss = take 16 [n + 1..<b]"
  have f: "start \<le> n" "n \<le> b" "?need n" using find_upt [OF n] by auto
  have w: "in_window a b ss" "distinct ss" "n \<notin> set ss"
    using f assms(3) by (auto simp: in_window_def ss_def distinct_take dest: in_set_takeD)
  have len: "length (nr_packets reg1) = NACK_BUFFER_SIZE" using assms(1) by (simp add: reg1_def)
  have same: "needs_nack (at_seq reg1 s) = ?need s" if "s \<in> set ss" for s
    using at_ask [OF assms(1,2), of "[n]" s] w that f assms(3) by (auto simp: in_window_def reg1_def)
  define asked where "asked = n # filter ?need ss"
  have fs: "filter (\<lambda>s. needs_nack (at_seq reg1 s)) ss = filter ?need ss" using same by (auto intro: filter_cong)
  obtain reg2 blp where m: "mask_loop reg1 0 ss 0 = (reg2, blp)" by (cases "mask_loop reg1 0 ss 0")
  have "length ss \<le> 16" by (simp add: ss_def)
  then have loop: "reg2 = ask (filter ?need ss) reg1" "\<And>k. bit blp k = (\<exists>j<length ss. k = j \<and> needs_nack (at_seq reg1 (ss ! j)))"
    using mask_loop_asks [OF len assms(2) w(1,2), of 0 0] m fs by simp_all
  have r: "reg' = ask asked reg" "start' = n + 1 + length ss + 1" "e = \<lparr>ne_pid = of_nat (n mod 65536), ne_blp = blp\<rparr>"
  proof -
    have "nack_iter_next reg start b = Some (reg2, n + 1 + length ss + 1, \<lparr>ne_pid = of_nat (n mod 65536), ne_blp = blp\<rparr>)"
      unfolding nack_iter_next_def n option.case Let_def reg1_def [symmetric] ss_def [symmetric] m prod.case by (rule refl)
    then show "reg' = ask asked reg" "start' = n + 1 + length ss + 1" "e = \<lparr>ne_pid = of_nat (n mod 65536), ne_blp = blp\<rparr>"
      using assms(4) loop(1) by (simp_all add: asked_def reg1_def)
  qed
  have nth: "ss ! i = n + 1 + i" if "i < length ss" for i
    using that by (auto simp: ss_def)
  have "filter (bit blp) [0..<16] = filter (bit blp) ([0..<length ss] @ [length ss..<16])"
    using \<open>length ss \<le> 16\<close> upt_add_eq_append [of 0 "length ss" "16 - length ss"] by simp
  then have "filter (bit blp) [0..<16] = filter (bit blp) [0..<length ss]" using loop(2) by simp
  also have "\<dots> = filter (\<lambda>i. ?need (ss ! i)) [0..<length ss]" using loop(2) same by (auto intro: filter_cong)
  finally have bits: "filter (bit blp) [0..<16] = filter (\<lambda>i. ?need (ss ! i)) [0..<length ss]" .
  have nm: "names e = map of_nat asked"
    using nth by (auto simp: names_def r(3) asked_def bits of_nat_u16 filter_nths [of ?need ss])
  have so: "sorted_wrt (<) asked"
    using f by (auto simp: asked_def ss_def intro: sorted_wrt_filter sorted_wrt_take dest: in_set_takeD)
  have al: "\<forall>s\<in>set asked. start \<le> s \<and> s \<le> b \<and> s < start' \<and> ?need s"
  proof
    fix s
    assume "s \<in> set asked"
    then consider "s = n" | i where "i < length ss" "s = ss ! i" "?need s" by (auto simp: asked_def in_set_conv_nth)
    then show "start \<le> s \<and> s \<le> b \<and> s < start' \<and> ?need s"
    proof cases
      case 2
      then show ?thesis using nth [of i] f by (auto simp: r(2) ss_def)
    qed (use f in \<open>simp add: r(2)\<close>)
  qed
  have "asked \<noteq> []" "find ?need [start..<b + 1] = Some (hd asked)" unfolding n asked_def by simp_all
  then show ?thesis using nm so al r(1) by blast
qed


lemma find_snoc: "\<not> P b \<Longrightarrow> find P (xs @ [b]) = find P xs"
  by (induction xs) auto

lemma entries_names:
  assumes "length (nr_packets reg) = NACK_BUFFER_SIZE" "b - a \<le> MAX_MISORDER" "a \<le> start" "nack_entries reg start b = (reg', es)"
  shows "\<exists>asked. concat (map names es) = map of_nat asked \<and> reg' = ask asked reg \<and> sorted_wrt (<) asked
    \<and> (\<forall>s\<in>set asked. start \<le> s \<and> s \<le> b \<and> needs_nack (at_seq reg s))
    \<and> find (\<lambda>s. needs_nack (at_seq reg s)) [start..<b + 1] = (case asked of [] \<Rightarrow> None | n # _ \<Rightarrow> Some n)"
  using assms
proof (induction reg start b arbitrary: reg' es rule: nack_entries.induct)
  case (1 reg start b)
  show ?case
  proof (cases "nack_iter_next reg start b")
    case None
    then have "find (\<lambda>s. needs_nack (at_seq reg s)) [start..<b + 1] = None"
      by (auto simp: nack_iter_next_def Let_def simp del: upt_Suc split: option.splits prod.splits)
    moreover have "reg' = reg" "es = []" using "1.prems"(4) None by (simp_all add: nack_entries.simps [of reg])
    ultimately show ?thesis by (intro exI [of _ "[]"]) simp
  next
    case (Some r)
    obtain reg1 start1 e where r: "r = (reg1, start1, e)" by (cases r)
    note s = Some [unfolded r]
    obtain first where f: "names e = map of_nat first" "reg1 = ask first reg" "sorted_wrt (<) first" "first \<noteq> []"
        "find (\<lambda>s. needs_nack (at_seq reg s)) [start..<b + 1] = Some (hd first)"
        "\<forall>s\<in>set first. start \<le> s \<and> s \<le> b \<and> s < start1 \<and> needs_nack (at_seq reg s)"
      using entry_names [OF "1.prems"(1-3) s] by blast
    have len: "length (nr_packets reg1) = NACK_BUFFER_SIZE" using "1.prems"(1) f(2) by simp
    have start1: "start < start1" using nack_iter_next_moves [OF s] by simp
    obtain es1 where es: "nack_entries reg1 start1 b = (reg', es1)" "es = e # es1"
      using "1.prems"(4) s by (cases "nack_entries reg1 start1 b") (simp add: nack_entries.simps [of reg])
    have "a \<le> start1" using "1.prems"(3) start1 by simp
    note IH = "1.IH" [OF s refl refl len "1.prems"(2) this es(1)]
    then obtain later where l: "concat (map names es1) = map of_nat later" "reg' = ask later reg1" "sorted_wrt (<) later"
        "\<forall>s\<in>set later. start1 \<le> s \<and> s \<le> b \<and> needs_nack (at_seq reg1 s)" by blast
    have w: "in_window a b first" "distinct first"
      using f(3,6) "1.prems"(3) by (auto simp: in_window_def strict_sorted_iff)
    have later: "start1 \<le> s \<and> s \<le> b \<and> needs_nack (at_seq reg s)" if s: "s \<in> set later" for s
    proof -
      have "start1 \<le> s" "s \<le> b" using l(4) s by auto
      moreover have "s \<notin> set first" using f(6) \<open>start1 \<le> s\<close> by fastforce
      ultimately have "start1 \<le> s" "s \<le> b" "s \<notin> set first" by auto
      then show ?thesis using at_ask [OF "1.prems"(1,2) w(1), of s] w(2) l(4) f(2) s \<open>a \<le> start1\<close> by auto
    qed
    show ?thesis
    proof (intro exI [of _ "first @ later"] conjI)
      show "concat (map names es) = map of_nat (first @ later)" using f(1) l(1) es(2) by simp
      show "reg' = ask (first @ later) reg" using f(2) l(2) by simp
      show "sorted_wrt (<) (first @ later)" using f(3,6) l(3) later by (fastforce simp: sorted_wrt_append)
      show "\<forall>s\<in>set (first @ later). start \<le> s \<and> s \<le> b \<and> needs_nack (at_seq reg s)" using f(6) later start1 by fastforce
      show "find (\<lambda>s. needs_nack (at_seq reg s)) [start..<b + 1] = (case first @ later of [] \<Rightarrow> None | n # _ \<Rightarrow> Some n)"
        using f(4,5) by (cases first) simp_all
    qed
  qed
qed

lemma concat_lists_from_iter: "concat (lists_from_iter xs) = xs"
proof (induction xs rule: lists_from_iter.induct)
  case (1 xs)
  then show ?case by (subst lists_from_iter.simps) simp
qed

lemma concat_map_concat: "concat (map (\<lambda>xs. concat (map f xs)) xss) = concat (map f (concat xss))"
  by (induction xss) auto

lemma nack_reports_names:
  assumes k: "knows seen c reg" "nack_reports reg = (reg', r)" "nr_active reg = Some (start, stop)"
  shows "\<exists>asked. concat (map (\<lambda>n. concat (map names (n_reports n))) (case r of None \<Rightarrow> [] | Some ns \<Rightarrow> ns)) = map of_nat asked
    \<and> reg' = ask asked reg \<and> sorted_wrt (<) asked
    \<and> (\<forall>s\<in>set asked. start \<le> s \<and> s < stop \<and> s \<notin> seen \<and> c s < MAX_NACKS)
    \<and> find (\<lambda>s. s \<notin> seen \<and> c s < MAX_NACKS) [start..<stop] = (case asked of [] \<Rightarrow> None | n # _ \<Rightarrow> Some n)"
proof -
  have K: "length (nr_packets reg) = NACK_BUFFER_SIZE" "stop - start \<le> MAX_MISORDER" "stop \<in> seen" "start \<le> stop"
      "\<And>s. start \<le> s \<Longrightarrow> s \<le> stop \<Longrightarrow> at_seq reg s = status_of seen c s"
    using k by (auto simp: knows_def)
  have need: "needs_nack (at_seq reg s) = (s \<notin> seen \<and> c s < MAX_NACKS)" if "start \<le> s" "s \<le> stop" for s
    using K(5) [OF that] by (simp add: needs_nack_def status_of_def)
  have "find (\<lambda>s. needs_nack (at_seq reg s)) [start..<stop + 1] = find (\<lambda>s. s \<notin> seen \<and> c s < MAX_NACKS) [start..<stop + 1]"
    using need by (intro find_cong) auto
  also have "\<dots> = find (\<lambda>s. s \<notin> seen \<and> c s < MAX_NACKS) [start..<stop]"
    using K(3,4) by (simp add: find_snoc)
  finally have find: "find (\<lambda>s. needs_nack (at_seq reg s)) [start..<stop + 1] = find (\<lambda>s. s \<notin> seen \<and> c s < MAX_NACKS) [start..<stop]" .
  show ?thesis
  proof (cases "find (\<lambda>s. needs_nack (at_seq reg s)) [start..<stop + 1]")
    case None
    then show ?thesis using k(2,3) find by (intro exI [of _ "[]"]) (simp add: nack_reports_def)
  next
    case (Some n)
    have n: "start \<le> n" using find_upt [OF Some] by simp
    obtain reg1 es where e: "nack_entries reg n stop = (reg1, es)" by (cases "nack_entries reg n stop")
    obtain asked where a: "concat (map names es) = map of_nat asked" "reg1 = ask asked reg" "sorted_wrt (<) asked"
        "\<forall>s\<in>set asked. n \<le> s \<and> s \<le> stop \<and> needs_nack (at_seq reg s)"
        "find (\<lambda>s. needs_nack (at_seq reg s)) [n..<stop + 1] = (case asked of [] \<Rightarrow> None | n # _ \<Rightarrow> Some n)"
      using entries_names [OF K(1,2) n e] by blast
    have "[n..<stop + 1] = n # [n + 1..<stop + 1]" using find_upt [OF Some] by (simp add: upt_conv_Cons del: upt_Suc)
    then have "hd asked = n" "asked \<noteq> []" using a(5) find_upt [OF Some] by (auto split: list.splits)
    moreover have "\<forall>s\<in>set asked. start \<le> s \<and> s < stop \<and> s \<notin> seen \<and> c s < MAX_NACKS"
      using a(4) need n K(3) by (metis le_neq_implies_less order_trans)
    moreover have "reg' = reg1" "r = Some (map (\<lambda>r. \<lparr>n_sender_ssrc = 0, n_ssrc = 0, n_reports = r\<rparr>) (lists_from_iter es))"
      using k(2,3) Some e by (simp_all add: nack_reports_def)
    moreover have "concat (map (\<lambda>es. concat (map names es)) (lists_from_iter es)) = concat (map names es)"
      by (simp only: concat_map_concat concat_lists_from_iter)
    ultimately show ?thesis using a find Some
      by (intro exI [of _ asked]) (auto simp: o_def split: list.splits)
  qed
qed


lemma count_distinct: "distinct ss \<Longrightarrow> count_list ss t = (if t \<in> set ss then 1 else 0)"
  by (induction ss) auto

lemma ask_knows:
  assumes k: "knows seen c reg" "nr_active reg = Some (start, stop)"
    and s: "distinct ss" "\<forall>s\<in>set ss. start \<le> s \<and> s \<le> stop \<and> c s < MAX_NACKS"
  shows "knows seen (\<lambda>s. c s + count_list ss s) (ask ss reg)"
proof -
  have K: "length (nr_packets reg) = NACK_BUFFER_SIZE" "stop - start \<le> MAX_MISORDER" using k by (auto simp: knows_def)
  have w: "in_window start stop ss" using s(2) by (auto simp: in_window_def)
  have c: "count_list ss t = (if t \<in> set ss then 1 else 0)" for t using s(1) by (rule count_distinct)
  have "at_seq (ask ss reg) t = status_of seen (\<lambda>s. c s + count_list ss s) t" if "start \<le> t" "t \<le> stop" for t
    using at_ask [OF K w that s(1)] k that by (auto simp: knows_def status_of_def count_nack_def c)
  moreover have "nr_packets (ask ss reg) ! i = status_new" if "i < NACK_BUFFER_SIZE" "\<not> covers start stop i" for i
    using ask_outside [OF K(1) w that] k that by (auto simp: knows_def)
  moreover have "c t + count_list ss t \<le> MAX_NACKS" for t using k(1) s(2) by (auto simp: knows_def c)
  moreover have "c t + count_list ss t = 0" if "stop < t" for t using that k s(2) by (fastforce simp: knows_def c)
  ultimately show ?thesis using k by (simp add: knows_def)
qed

section \<open>Runs\<close>

datatype nr_event = Arrived nat | AskAgain

definition some_nacks :: "nack list option \<Rightarrow> nack list" where
  "some_nacks r = (case r of None \<Rightarrow> [] | Some ns \<Rightarrow> ns)"

fun nr_run :: "nack_register \<Rightarrow> nr_event list \<Rightarrow> nack_register \<times> nack list list" where
  "nr_run reg [] = (reg, [])"
| "nr_run reg (Arrived s # evs) = nr_run (fst (nr_update reg s)) evs"
| "nr_run reg (AskAgain # evs) =
     (let (reg, r) = nack_reports reg; (reg, rs) = nr_run reg evs in (reg, some_nacks r # rs))"

definition arrived :: "nr_event list \<Rightarrow> nat set" where
  "arrived evs = {s. Arrived s \<in> set evs}"

definition on_wire :: "nack list \<Rightarrow> u16 list" where
  "on_wire ns = concat (map (\<lambda>n. concat (map names (n_reports n))) ns)"

lemma arrived_simps [simp]: "arrived [] = {}" "arrived (Arrived s # evs) = insert s (arrived evs)" "arrived (AskAgain # evs) = arrived evs"
  by (auto simp: arrived_def)

text \<open>
  The wire has 16 bits of a number. What a report asks for lies less than a cycle below the end of the window, so the
  bits and the window say which packet is meant.
\<close>

definition number_of :: "nat \<Rightarrow> u16 \<Rightarrow> nat" where
  "number_of stop w = stop - nat ((int stop - int (unat w)) mod 65536)"

definition numbers_asked :: "nack_register \<Rightarrow> nack list \<Rightarrow> nat list" where
  "numbers_asked reg ns = (case nr_active reg of None \<Rightarrow> [] | Some (start, stop) \<Rightarrow> map (number_of stop) (on_wire ns))"

text \<open>All the numbers the reports of a run asked for, in order.\<close>

fun asked_so_far :: "nack_register \<Rightarrow> nr_event list \<Rightarrow> nat list" where
  "asked_so_far reg [] = []"
| "asked_so_far reg (Arrived s # evs) = asked_so_far (fst (nr_update reg s)) evs"
| "asked_so_far reg (AskAgain # evs) =
     (let (reg', r) = nack_reports reg in numbers_asked reg (some_nacks r) @ asked_so_far reg' evs)"

lemma number_of_nat: "s \<le> stop \<Longrightarrow> stop - s < 65536 \<Longrightarrow> number_of stop (of_nat s) = s"
proof -
  assume s: "s \<le> stop" "stop - s < 65536"
  have "unat (of_nat s :: u16) = s mod 65536" by (simp add: unsigned_of_nat take_bit_eq_mod)
  then have "(int stop - int (unat (of_nat s :: u16))) mod 65536 = (int stop - int s) mod 65536"
    by (simp add: zmod_int mod_diff_right_eq)
  also have "\<dots> = int (stop - s)" using s by (simp add: of_nat_diff)
  finally show ?thesis using s by (simp add: number_of_def)
qed

lemma reports_know:
  assumes "knows seen c reg" "nack_reports reg = (reg', r)"
  shows "knows seen (\<lambda>s. c s + count_list (numbers_asked reg (some_nacks r)) s) reg'"
    and "nr_active reg = Some (start, stop) \<Longrightarrow> sorted_wrt (<) (numbers_asked reg (some_nacks r))
      \<and> on_wire (some_nacks r) = map of_nat (numbers_asked reg (some_nacks r))
      \<and> (\<forall>s\<in>set (numbers_asked reg (some_nacks r)). start \<le> s \<and> s < stop \<and> s \<notin> seen \<and> c s < MAX_NACKS)
      \<and> find (\<lambda>s. s \<notin> seen \<and> c s < MAX_NACKS) [start..<stop] = (case numbers_asked reg (some_nacks r) of [] \<Rightarrow> None | n # _ \<Rightarrow> Some n)"
proof -
  have one: "knows seen (\<lambda>s. c s + count_list (numbers_asked reg (some_nacks r)) s) reg' \<and> sorted_wrt (<) (numbers_asked reg (some_nacks r))
      \<and> on_wire (some_nacks r) = map of_nat (numbers_asked reg (some_nacks r))
      \<and> (\<forall>s\<in>set (numbers_asked reg (some_nacks r)). start \<le> s \<and> s < stop \<and> s \<notin> seen \<and> c s < MAX_NACKS)
      \<and> find (\<lambda>s. s \<notin> seen \<and> c s < MAX_NACKS) [start..<stop] = (case numbers_asked reg (some_nacks r) of [] \<Rightarrow> None | n # _ \<Rightarrow> Some n)"
    if w: "nr_active reg = Some (start, stop)" for start stop
  proof -
    obtain asked where a: "on_wire (some_nacks r) = map of_nat asked" "reg' = ask asked reg" "sorted_wrt (<) asked"
        "\<forall>s\<in>set asked. start \<le> s \<and> s < stop \<and> s \<notin> seen \<and> c s < MAX_NACKS"
        "find (\<lambda>s. s \<notin> seen \<and> c s < MAX_NACKS) [start..<stop] = (case asked of [] \<Rightarrow> None | n # _ \<Rightarrow> Some n)"
      using nack_reports_names [OF assms w] unfolding on_wire_def some_nacks_def by blast
    have "stop - start \<le> 100" using assms(1) w by (simp add: knows_def max_misorder)
    then have "map (number_of stop \<circ> of_nat) asked = asked" using a(4) by (intro map_idI) (auto intro!: number_of_nat)
    then have "numbers_asked reg (some_nacks r) = asked" by (simp add: numbers_asked_def w a(1))
    moreover have "knows seen (\<lambda>s. c s + count_list asked s) (ask asked reg)"
      using a(3,4) by (intro ask_knows [OF assms(1) w]) (auto simp: strict_sorted_iff)
    ultimately show ?thesis using a by simp
  qed
  then show "nr_active reg = Some (start, stop) \<Longrightarrow> sorted_wrt (<) (numbers_asked reg (some_nacks r))
      \<and> on_wire (some_nacks r) = map of_nat (numbers_asked reg (some_nacks r))
      \<and> (\<forall>s\<in>set (numbers_asked reg (some_nacks r)). start \<le> s \<and> s < stop \<and> s \<notin> seen \<and> c s < MAX_NACKS)
      \<and> find (\<lambda>s. s \<notin> seen \<and> c s < MAX_NACKS) [start..<stop] = (case numbers_asked reg (some_nacks r) of [] \<Rightarrow> None | n # _ \<Rightarrow> Some n)"
    by blast
  show "knows seen (\<lambda>s. c s + count_list (numbers_asked reg (some_nacks r)) s) reg'"
  proof (cases "nr_active reg")
    case None
    then have "reg' = reg" "numbers_asked reg (some_nacks r) = []" using assms(2) by (simp_all add: nack_reports_def numbers_asked_def)
    then show ?thesis using assms(1) by simp
  next
    case (Some w)
    then show ?thesis using one by (cases w) blast
  qed
qed

lemma run_knows:
  "knows seen c reg \<Longrightarrow> knows (arrived evs \<union> seen) (\<lambda>s. c s + count_list (asked_so_far reg evs) s) (fst (nr_run reg evs))"
proof (induction reg evs arbitrary: seen c rule: nr_run.induct)
  case (2 reg s evs)
  then show ?case using "2.IH" [OF update_knows [OF "2.prems"(1), of s]] by simp
next
  case (3 reg evs)
  obtain reg1 r where r: "nack_reports reg = (reg1, r)" by (cases "nack_reports reg")
  show ?case using "3.IH" [OF r [symmetric] refl reports_know(1) [OF "3.prems" r]] r
    by (simp add: count_list_append add.assoc case_prod_beta)
qed simp

lemma new_knows: "knows {} (\<lambda>_. 0) nack_register_new"
  by (simp add: knows_def nack_register_new_def)

text \<open>C21. Whatever packets arrive and whenever reports are made: the window of the register ends at the greatest number that has
  arrived and reaches back at most a hundred. The next report names, in ascending order and none twice, only packets of
  the window that have not arrived and that all the reports before have asked for fewer than five times in total, and
  it begins with the first packet of the window of which this is true; it is empty only when there is none.
\<close>

theorem nacks_name_missing:
  assumes "nr_active (fst (nr_run nack_register_new evs)) = Some (start, stop)"
  defines "reg \<equiv> fst (nr_run nack_register_new evs)"
  defines "report \<equiv> some_nacks (snd (nack_reports reg))"
  defines "before \<equiv> count_list (asked_so_far nack_register_new evs)"
  shows "stop \<in> arrived evs \<and> (\<forall>s\<in>arrived evs. s \<le> stop) \<and> stop - start \<le> 100
    \<and> on_wire report = map of_nat (numbers_asked reg report) \<and> sorted_wrt (<) (numbers_asked reg report)
    \<and> (\<forall>s\<in>set (numbers_asked reg report). start \<le> s \<and> s < stop \<and> s \<notin> arrived evs \<and> before s < 5)
    \<and> find (\<lambda>s. s \<notin> arrived evs \<and> before s < 5) [start..<stop]
        = (case numbers_asked reg report of [] \<Rightarrow> None | n # _ \<Rightarrow> Some n)"
proof -
  have k: "knows (arrived evs) before reg" using run_knows [OF new_knows, of evs] by (simp add: reg_def before_def)
  obtain reg' r where r: "nack_reports reg = (reg', r)" by (cases "nack_reports reg")
  have "stop \<in> arrived evs" "\<forall>s\<in>arrived evs. s \<le> stop" "stop - start \<le> 100"
    using k assms(1) by (auto simp: knows_def max_misorder reg_def)
  moreover have "report = some_nacks r" by (simp add: report_def r)
  moreover note reports_know(2) [OF k r assms(1) [folded reg_def], unfolded MAX_NACKS_def]
  ultimately show ?thesis by simp
qed

lemma nacks_name_missing_witness:
  "numbers_asked (fst (nr_run nack_register_new [Arrived 7, Arrived 9]))
     (some_nacks (snd (nack_reports (fst (nr_run nack_register_new [Arrived 7, Arrived 9]))))) = [8]"
proof -
  let ?asked = "numbers_asked (fst (nr_run nack_register_new [Arrived 7, Arrived 9]))
     (some_nacks (snd (nack_reports (fst (nr_run nack_register_new [Arrived 7, Arrived 9])))))"
  have "nr_active (fst (nr_run nack_register_new [Arrived 7, Arrived 9])) = Some (8, 9)" by code_simp
  note n = nacks_name_missing [OF this]
  have "find (\<lambda>s. s \<notin> arrived [Arrived 7, Arrived 9] \<and> count_list (asked_so_far nack_register_new [Arrived 7, Arrived 9]) s < 5) [8..<9] = Some 8"
    by (simp add: upt_conv_Cons)
  then obtain rest where r: "?asked = 8 # rest" using n by (auto split: list.splits)
  have "\<forall>s\<in>set ?asked. s < 9" "sorted_wrt (<) ?asked" using n by blast+
  then show ?thesis unfolding r by (cases rest) auto
qed

text \<open>
  Of many missing packets every eighteenth is left out: an entry names a packet and some of the sixteen that follow,
  but the search for the next entry begins behind the seventeenth.
\<close>

theorem eighteenth_left_out:
  assumes "nack_iter_next reg a b = Some (reg', a', e)" "find (\<lambda>s. needs_nack (at_seq reg s)) [a..<b + 1] = Some n" "n + 17 < b"
  shows "set (names e) \<subseteq> of_nat ` {n..n + 16} \<and> a' = n + 18"
proof -
  obtain reg1 blp where m: "mask_loop (change_at n count_nack reg) 0 (take 16 [n + 1..<b]) 0 = (reg1, blp)" by fastforce
  have "nack_iter_next reg a b = Some (reg1, n + 1 + length (take 16 [n + 1..<b]) + 1, \<lparr>ne_pid = of_nat (n mod 65536), ne_blp = blp\<rparr>)"
    unfolding nack_iter_next_def assms(2) option.case Let_def m prod.case by (rule refl)
  then have r: "a' = n + 18" "ne_pid e = of_nat n" using assms(1,3) by (auto simp: of_nat_u16)
  have "x \<in> of_nat ` {n..n + 16}" if x: "x \<in> set (names e)" for x
  proof -
    consider "x = of_nat n" | i where "i < 16" "x = of_nat n + of_nat (i + 1)" using x r(2) by (auto simp: names_def)
    then show ?thesis
    proof cases
      case 2
      then show ?thesis by (intro image_eqI [of _ _ "n + (i + 1)"]) simp_all
    qed simp
  qed
  then show ?thesis using r(1) by blast
qed

lemma eighteenth_left_out_witness:
  "\<exists>reg' e. nack_iter_next nack_register_new 1 30 = Some (reg', 19, e) \<and> set (names e) \<subseteq> of_nat ` {1..17}"
proof -
  have f: "find (\<lambda>s. needs_nack (at_seq nack_register_new s)) [1..<30 + 1] = Some 1"
    by (simp add: upt_conv_Cons at_seq_def as_index_def nack_register_new_def needs_nack_def status_new_def buffer_size MAX_NACKS_def
        del: upt_Suc)
  then have "nack_iter_next nack_register_new 1 30 \<noteq> None"
    unfolding nack_iter_next_def f option.case Let_def by (simp split: prod.split)
  then obtain reg' a' e where "nack_iter_next nack_register_new 1 30 = Some (reg', a', e)" by auto
  then show ?thesis using eighteenth_left_out [OF _ f] by fastforce
qed

text \<open>
  After a jump of more than the window the marks of old packets are taken for those of new ones: after 10, 12, 13 and
  213 have arrived the packets 113 and 114 count as received and no report asks for them.
\<close>

theorem stale_marks_hide_loss:
  "nr_active (fst (nr_run nack_register_new [Arrived 10, Arrived 12, Arrived 13, Arrived 213])) = Some (115, 213)
   \<and> nr_active (fst (nr_run nack_register_new [Arrived 10, Arrived 213])) = Some (113, 213)"
  by code_simp

end
