(* ===== verification/StreamRx.thy ===== *)
theory StreamRx imports NackRegister MTime begin

text \<open>
  The receiving side of a stream, \<open>streams/receive.rs\<close> of str0m: how a packet of the wire gets its extended number and
  its media time, and when the stream counts as paused. The register is the one for lost packets, \<open>NackRegister\<close>; the
  fields that only identify the stream, its statistics and the jitter, which nothing here reads, are left out, as are
  the reports the stream writes.
\<close>

section \<open>State\<close>

record stream_rx =
  rx_register :: "nack_register option"
  rx_register_rtx :: "nack_register option"
  rx_last_time :: "media_time option"
  rx_reset_roc :: "u64 option"
  pause_threshold :: nat
  check_paused_at :: "nat option"
  rx_paused :: bool
  need_paused_event :: bool

text \<open>Instants and durations are in nanoseconds.\<close>

definition stream_rx_new :: stream_rx where
  "stream_rx_new = \<lparr>rx_register = None, rx_register_rtx = None, rx_last_time = None, rx_reset_roc = None,
     pause_threshold = 1500 * 1000000, check_paused_at = None, rx_paused = True, need_paused_event = False\<rparr>"

definition set_pause_threshold :: "stream_rx \<Rightarrow> nat \<Rightarrow> stream_rx" where
  "set_pause_threshold st t = st\<lparr>pause_threshold := t\<rparr>"

section \<open>Operations\<close>

text \<open>\<open>StreamRx::update\<close>: the number of the packet, its time, and whether it is new to its register.\<close>

definition stream_update :: "stream_rx \<Rightarrow> nat \<Rightarrow> u16 \<Rightarrow> u32 \<Rightarrow> nat \<Rightarrow> bool \<Rightarrow> stream_rx \<times> u64 \<times> media_time \<times> bool" where
  "stream_update st now header_seq header_time clock_rate is_repair =
     (let st = (if rx_paused st then st\<lparr>rx_paused := False, need_paused_event := True\<rparr> else st);
          st = st\<lparr>check_paused_at := Some (now + pause_threshold st)\<rparr>;
          register = (case (if is_repair then rx_register_rtx st else rx_register st) of Some r \<Rightarrow> r | None \<Rightarrow> nack_register_new);
          reset_seq_no = (if is_repair then None else map_option (\<lambda>roc. push_bit 16 roc OR ucast header_seq) (rx_reset_roc st));
          st = (if is_repair then st else st\<lparr>rx_reset_roc := None\<rparr>);
          seq_no = (case reset_seq_no of Some s \<Rightarrow> s
                    | None \<Rightarrow> extend_u16 (map_option of_nat (nr_max_seq register)) header_seq);
          (register, is_new) = nr_update register (unat seq_no);
          st = (if is_repair then st\<lparr>rx_register_rtx := Some register\<rparr> else st\<lparr>rx_register := Some register\<rparr>);
          previous_time = map_option (\<lambda>t. of_int (numer t)) (rx_last_time st);
          time = \<lparr>numer = sint (extend_u32 previous_time header_time), denom = clock_rate\<rparr>;
          st = (if is_repair then st else st\<lparr>rx_last_time := Some time\<rparr>)
      in (st, seq_no, time, is_new))"

definition stream_reset_roc :: "stream_rx \<Rightarrow> u64 \<Rightarrow> stream_rx" where
  "stream_reset_roc st roc = st\<lparr>rx_register := None, rx_register_rtx := None, rx_reset_roc := Some roc\<rparr>"

definition stream_timeout :: "stream_rx \<Rightarrow> nat \<Rightarrow> stream_rx" where
  "stream_timeout st now =
     (case check_paused_at st of
        None \<Rightarrow> st
      | Some at \<Rightarrow> if now < at then st else st\<lparr>check_paused_at := None, rx_paused := True, need_paused_event := True\<rparr>)"

text \<open>\<open>poll_paused\<close>: whether the stream is paused, if that is still to be told.\<close>

definition stream_poll_paused :: "stream_rx \<Rightarrow> stream_rx \<times> bool option" where
  "stream_poll_paused st = (if \<not> need_paused_event st then (st, None) else (st\<lparr>need_paused_event := False\<rparr>, Some (rx_paused st)))"

section \<open>Packets in order\<close>

text \<open>
  The receiver has the packets up to number \<open>n\<close>, exclusive, the last of them with \<open>t\<close> ticks on the clock of the sender;
  its own clock is behind by \<open>K\<close> ticks.
\<close>

definition listens :: "nat \<Rightarrow> int \<Rightarrow> int option \<Rightarrow> stream_rx \<Rightarrow> bool" where
  "listens n K prev st \<longleftrightarrow> rx_reset_roc st = None
     \<and> (case prev of
          None \<Rightarrow> rx_register st = None \<and> rx_last_time st = None \<and> n < 65536
        | Some t \<Rightarrow> (\<exists>reg start d. rx_register st = Some reg \<and> nr_active reg = Some (start, n - 1) \<and> start \<le> n - 1 \<and> 0 < n
            \<and> rx_last_time st = Some \<lparr>numer = t - K, denom = d\<rparr>))"

definition on_clock :: "int \<Rightarrow> int option \<Rightarrow> int \<Rightarrow> bool" where
  "on_clock K prev T \<longleftrightarrow> K mod 2 ^ 32 = 0 \<and> 0 \<le> T - K \<and> T - K < 2 ^ 62
     \<and> (case prev of None \<Rightarrow> T - K < 2 ^ 32 | Some t \<Rightarrow> 0 \<le> t - K \<and> t \<le> T \<and> T - t < 2 ^ 31)"

lemma register_next:
  assumes "nr_active reg = Some (start, n - 1)" "start \<le> n - 1" "0 < n"
  shows "\<exists>reg' start'. nr_update reg n = (reg', True) \<and> nr_active reg' = Some (start', n) \<and> start' \<le> n"
proof -
  have "max start (n - MAX_MISORDER) \<le> n" using assms(2) by simp
  from first_gap_spec [OF this, of reg n] show ?thesis
    using assms by (simp add: nr_update_def Let_def)
qed

lemma register_first: "\<exists>reg'. nr_update nack_register_new n = (reg', True) \<and> nr_active reg' = Some (n, n)"
  by (simp add: nr_update_def nack_register_new_def)

lemma u64_small: "n < 2 ^ 63 \<Longrightarrow> unat (of_nat n :: u64) = n"
  by (simp add: unsigned_of_nat take_bit_nat_eq_self)

lemma u64_of_unat: "unat w = n \<Longrightarrow> (w :: u64) = of_nat n"
  by auto

lemma unat_wider: "unat (ucast (s :: u16) :: u64) = unat s" "unat (ucast (v :: u32) :: u64) = unat v"
proof -
  have "unat s < 2 ^ 16" by (rule order_less_le_trans, rule unsigned_less) simp
  moreover have "unat v < 2 ^ 32" by (rule order_less_le_trans, rule unsigned_less) simp
  ultimately show "unat (ucast s :: u64) = unat s" "unat (ucast v :: u64) = unat v"
    by (simp_all add: unsigned_ucast_eq take_bit_nat_eq_self)
qed

lemma sint_small: "0 \<le> x \<Longrightarrow> x < 2 ^ 62 \<Longrightarrow> sint (of_int x :: u64) = x"
  by (simp only: signed_of_int) (simp add: signed_take_bit_int_eq_self)

lemma extend_first: "extend_id b None seq = take_bit b seq"
  by (simp add: extend_id_def Let_def and_low_bits)

lemma next_number:
  assumes "0 < n" "n < 2 ^ 61" "unat (s :: u16) = n mod 65536"
  shows "extend_u16 (Some (of_nat (n - 1))) s = of_nat n"
proof -
  have "unat (of_nat (n - 1) :: u64) = n - 1" using assms(2) by (intro u64_small) simp
  moreover have "unat (ucast s :: u64) = n mod 65536" using assms(3) by (simp add: unat_wider)
  ultimately have "unat (extend_id 16 (Some (of_nat (n - 1))) (ucast s)) = n"
    using assms(1,2) by (intro extend_forward) simp_all
  then show ?thesis by (simp add: extend_u16_def u64_of_unat)
qed

lemma first_number: "n < 65536 \<Longrightarrow> unat (s :: u16) = n mod 65536 \<Longrightarrow> extend_u16 None s = of_nat n"
  by (intro u64_of_unat) (simp add: extend_u16_def extend_first unat_take_bit_word unat_wider)

lemma timestamp_bits: "int (unat (of_int T :: u32)) = T mod 2 ^ 32"
  by (simp add: unsigned_of_int take_bit_eq_mod)

lemma on_clock_bits:
  assumes "on_clock K prev T"
  shows "unat (ucast (of_int T :: u32) :: u64) = nat (T - K) mod 2 ^ 32"
proof -
  have "(T - K) mod 2 ^ 32 = T mod 2 ^ 32" using assms by (simp add: on_clock_def mod_diff_eq [of T _ K, symmetric])
  then have "int (nat (T - K) mod 2 ^ 32) = T mod 2 ^ 32" using assms by (simp add: on_clock_def zmod_int)
  then have "nat (T - K) mod 2 ^ 32 = unat (of_int T :: u32)" using timestamp_bits [of T] by linarith
  then show ?thesis by (simp add: unat_wider)
qed

lemma next_time:
  assumes "on_clock K prev T"
  shows "sint (extend_u32 (map_option (\<lambda>t. of_int (t - K)) prev) (of_int T)) = T - K"
proof -
  have "unat (extend_u32 (map_option (\<lambda>t. of_int (t - K)) prev) (of_int T)) = nat (T - K)"
  proof (cases prev)
    case None
    then show ?thesis using assms on_clock_bits [OF assms]
      by (simp add: extend_u32_def extend_first unat_take_bit_word on_clock_def nat_less_iff)
  next
    case (Some t)
    have t: "0 \<le> t - K" "t \<le> T" "T - t < 2 ^ 31" "T - K < 2 ^ 62" "0 \<le> T - K" using assms Some by (simp_all add: on_clock_def)
    have "unat (of_int (t - K) :: u64) = nat (t - K)"
      using t u64_small [of "nat (t - K)"] by simp
    then have "unat (extend_id 32 (Some (of_int (t - K))) (ucast (of_int T :: u32))) = nat (T - K)"
      using t on_clock_bits [OF assms] by (intro extend_forward) (simp_all add: nat_le_iff)
    then show ?thesis by (simp add: extend_u32_def Some)
  qed
  then have e: "extend_u32 (map_option (\<lambda>t. of_int (t - K)) prev) (of_int T) = of_nat (nat (T - K))" by (rule u64_of_unat)
  have "0 \<le> T - K" "T - K < 2 ^ 62" using assms by (simp_all add: on_clock_def)
  then show ?thesis unfolding e using sint_small [of "T - K"] by simp
qed

lemma update_in_order:
  assumes l: "listens n K prev st" and c: "on_clock K prev T" and n: "n < 2 ^ 61" "n' mod 65536 = n mod 65536"
  shows "\<exists>st'. stream_update st now (ucast (of_nat n' :: u64)) (of_int T) rate False = (st', of_nat n, \<lparr>numer = T - K, denom = rate\<rparr>, True)
    \<and> listens (n + 1) K (Some T) st'"
proof -
  have s: "unat (ucast (of_nat n' :: u64) :: u16) = n mod 65536"
  proof -
    have "(n' mod 2 ^ 64) mod 65536 = n' mod 65536" by (intro mod_mod_cancel) simp
    then show ?thesis using n(2) by (simp add: unsigned_ucast_eq unsigned_of_nat take_bit_eq_mod)
  qed
  show ?thesis
  proof (cases prev)
    case None
    then have st: "rx_reset_roc st = None" "rx_register st = None" "rx_last_time st = None" "n < 65536"
      using l by (auto simp: listens_def)
    obtain reg' where "nr_update nack_register_new n = (reg', True)" "nr_active reg' = Some (n, n)"
      using register_first by blast
    then show ?thesis
      using st next_time [OF c] n(1) first_number [OF st(4) s]
      by (simp add: stream_update_def Let_def None listens_def nr_max_seq_def nack_register_new_def u64_small)
  next
    case (Some t)
    then obtain reg start d where st: "rx_reset_roc st = None" "rx_register st = Some reg" "rx_last_time st = Some \<lparr>numer = t - K, denom = d\<rparr>"
        and r: "nr_active reg = Some (start, n - 1)" "start \<le> n - 1" "0 < n"
      using l by (auto simp: listens_def)
    obtain reg' start' where "nr_update reg n = (reg', True)" "nr_active reg' = Some (start', n)" "start' \<le> n"
      using register_next [OF r] by blast
    then show ?thesis
      using st next_time [OF c] n(1) next_number [OF r(3) n(1) s] r(1)
      by (simp add: stream_update_def Let_def Some listens_def nr_max_seq_def u64_small)
  qed
qed

end
