(* ===== verification/RxDelivery.thy ===== *)
theory RxDelivery imports RxBuffer StreamRx begin

text \<open>
  What the reordering buffer promises for packets that arrive in order: each frame is handed on when its last packet
  is there, once, whole and in order; and with that the way of a VP8 frame from the packetizer of the sender, over the
  numbers and times the receiver works out for its packets, to the receiver's application.
\<close>

section \<open>Packets in order\<close>

text \<open>The packets of one frame: numbers from \<open>n\<close> on, one time, a head in front and a tail only at the end.\<close>

definition frame_packets :: "codec_depacketizer \<Rightarrow> nat \<Rightarrow> media_time \<Rightarrow> ('h rtp_meta \<times> bytes) list \<Rightarrow> bool" where
  "frame_packets dec n t ps \<longleftrightarrow> ps \<noteq> [] \<and> n + length ps < 2 ^ 61
     \<and> (\<forall>i<length ps. seq_no (fst (ps ! i)) = of_nat (n + i) \<and> meta_time (fst (ps ! i)) = t
          \<and> codec_is_tail dec (marker (fst (ps ! i))) = (i = length ps - 1))
     \<and> codec_is_head dec (snd (hd ps))"

text \<open>A buffer that waits for packet \<open>n\<close> and holds nothing.\<close>

definition waits_for :: "nat \<Rightarrow> 'h rx_buffer \<Rightarrow> bool" where
  "waits_for n b \<longleftrightarrow> queue b = [] \<and> depack_cache b = None
     \<and> (case last_emitted b of None \<Rightarrow> True | Some (l, _) \<Rightarrow> 0 < n \<and> l = of_nat (n - 1))"

definition arrivals :: "('h rtp_meta \<times> bytes) list \<Rightarrow> 'h rx_event list" where
  "arrivals ps = concat (map (\<lambda>(m, d). [Push m d, Pop]) ps)"

definition entry :: "codec_depacketizer \<Rightarrow> 'h rtp_meta \<times> bytes \<Rightarrow> 'h rx_entry" where
  "entry dec p = \<lparr>meta = fst p, entry_data = snd p, head = codec_is_head dec (snd p), tail = codec_is_tail dec (marker (fst p))\<rparr>"

lemma entry_simps [simp]:
  "meta (entry dec p) = fst p" "entry_data (entry dec p) = snd p" "head (entry dec p) = codec_is_head dec (snd p)"
  "tail (entry dec p) = codec_is_tail dec (marker (fst p))"
  by (simp_all add: entry_def)

lemma of_nat_u64: "k < 2 ^ 62 \<Longrightarrow> unat (of_nat k :: u64) = k"
proof -
  assume "k < 2 ^ 62"
  then have "k < 2 ^ 64" by simp
  then show ?thesis by (simp add: unsigned_of_nat take_bit_nat_eq_self)
qed

lemma of_nat_u64_less: "a < 2 ^ 62 \<Longrightarrow> b < 2 ^ 62 \<Longrightarrow> (of_nat a :: u64) < of_nat b \<longleftrightarrow> a < b"
  by (simp add: word_less_nat_alt of_nat_u64)

lemma of_nat_is_next: "0 < n \<Longrightarrow> n < 2 ^ 62 \<Longrightarrow> is_next (of_nat (n - 1)) (of_nat n)"
proof -
  assume n: "0 < n" "n < 2 ^ 62"
  have "(of_nat (n - 1) :: u64) < of_nat n" using n by (subst of_nat_u64_less) auto
  moreover have "(of_nat n :: u64) - of_nat (n - 1) = 1" using n(1) by (simp add: of_nat_diff)
  ultimately show ?thesis by (simp add: is_next_def)
qed

text \<open>What the frame looks like while it arrives.\<close>

definition came :: "codec_depacketizer \<Rightarrow> ('h rtp_meta \<times> bytes) list \<Rightarrow> nat \<Rightarrow> 'h rx_buffer \<Rightarrow> 'h rx_buffer \<Rightarrow> bool" where
  "came dec ps j b b' \<longleftrightarrow> queue b' = map (entry dec) (take j ps) \<and> last_emitted b' = last_emitted b \<and> hold_back b' = hold_back b
     \<and> depack b' = depack b \<and> depack_cache b' = depack_cache b \<and> contiguity b' = contiguity b"

lemma push_next:
  assumes "frame_packets dec n t ps" "waits_for n b" "dec = depack b" "came dec ps j b b1" "j < length ps"
  shows "came dec ps (Suc j) b (rx_push b1 (fst (ps ! j)) (snd (ps ! j)))"
proof -
  have seqs: "i < length ps \<Longrightarrow> seq_no (fst (ps ! i)) = of_nat (n + i)" for i using assms(1) by (simp add: frame_packets_def)
  have small: "i < length ps \<Longrightarrow> n + i < 2 ^ 62" for i using assms(1) by (simp add: frame_packets_def)
  have q: "queue b1 = map (entry dec) (take j ps)" using assms(4) by (simp add: came_def)
  have before: "seq_of e < of_nat (n + j)" if e: "e \<in> set (queue b1)" for e
  proof -
    obtain i where i: "i < j" "e = entry dec (ps ! i)" using e assms(5) by (auto simp: q in_set_conv_nth)
    have "seq_of e = of_nat (n + i)" using i assms(5) seqs [of i] by simp
    moreover have "(of_nat (n + i) :: u64) < of_nat (n + j)" using i(1) assms(5) small by (subst of_nat_u64_less) auto
    ultimately show ?thesis by simp
  qed
  have ip: "insertion_point (queue b1) (of_nat (n + j)) = length (queue b1)"
    using before by (simp add: insertion_point_def takeWhile_eq_all_conv [THEN iffD2])
  have "\<not> too_old b1 (of_nat (n + j))"
  proof -
    have "\<not> (of_nat (n + j) :: u64) \<le> of_nat (n - 1)" if "0 < n"
      using that small [OF assms(5)] of_nat_u64_less [of "n - 1" "n + j"] by (simp add: not_le)
    then show ?thesis using assms(2,4) by (auto simp: too_old_def waits_for_def came_def split: option.splits)
  qed
  moreover have "\<not> (\<exists>e\<in>set (queue b1). seq_of e = of_nat (n + j))" using before by force
  ultimately have "queue (rx_push b1 (fst (ps ! j)) (snd (ps ! j))) = queue b1 @ [entry (depack b1) (ps ! j)]"
    using seqs [OF assms(5)] ip by (simp add: rx_push_simps entry_def)
  then show ?thesis
    using assms(3,4,5) q by (simp add: came_def rx_push_simps take_Suc_conv_app_nth)
qed

lemma segments_open:
  assumes "frame_packets dec n t ps" "0 < j" "j < length ps"
  shows "foldl segment_step ([], None) (enumerate 0 (map (entry dec) (take j ps)))
    = ([], Some \<lparr>start_index = 0, start_time = t, start_offset = int n\<rparr>)"
  using assms(2,3)
proof (induction j)
  case (Suc j)
  let ?e = "entry dec (ps ! j)"
  have small: "n + j < 2 ^ 61" using assms(1) Suc.prems by (simp add: frame_packets_def)
  have m: "seq_of ?e = of_nat (n + j)" "time_of ?e = t" "\<not> tail ?e"
    using assms(1) Suc.prems by (simp_all add: frame_packets_def)
  have s: "sint (seq_of ?e) = int n + int j"
  proof -
    have "num ?e = n + j" using small unfolding num_def m(1) by (intro of_nat_u64) simp
    then show ?thesis using sint_num [of ?e] small by simp
  qed
  have sat: "sat_i64 (int n + int j) = int n + int j" "sat_i64 (int n) = int n"
    using small by (intro sat_small; simp; linarith?)+
  have e: "enumerate 0 (map (entry dec) (take (Suc j) ps)) = enumerate 0 (map (entry dec) (take j ps)) @ [(j, ?e)]"
    using Suc.prems by (simp add: take_Suc_conv_app_nth enumerate_append_eq)
  show ?case
  proof (cases "j = 0")
    case True
    have "head ?e" using assms(1) Suc.prems True by (cases ps) (simp_all add: frame_packets_def)
    then show ?thesis unfolding e using True m(2,3) s sat by (simp add: segment_step_def Let_def)
  next
    case False
    then show ?thesis unfolding e using Suc.IH Suc.prems m(2,3) s sat by (simp add: segment_step_def Let_def)
  qed
qed simp

lemma segments_closed:
  assumes "frame_packets dec n t ps"
  shows "fst (foldl segment_step ([], None) (enumerate 0 (map (entry dec) ps))) = [(0, length ps - 1)]"
proof -
  define j where "j = length ps - 1"
  have j: "j < length ps" "Suc j = length ps" using assms by (cases ps; simp add: frame_packets_def j_def)+
  let ?e = "entry dec (ps ! j)"
  have small: "n + j < 2 ^ 61" using assms j(2) by (simp add: frame_packets_def)
  have m: "seq_of ?e = of_nat (n + j)" "time_of ?e = t" "tail ?e"
    using assms j by (simp_all add: frame_packets_def j_def)
  have s: "sint (seq_of ?e) = int n + int j"
  proof -
    have "num ?e = n + j" using small unfolding num_def m(1) by (intro of_nat_u64) simp
    then show ?thesis using sint_num [of ?e] small by simp
  qed
  have sat: "sat_i64 (int n + int j) = int n + int j" using small by (intro sat_small; simp; linarith?)
  have e: "enumerate 0 (map (entry dec) ps) = enumerate 0 (map (entry dec) (take j ps)) @ [(j, ?e)]"
  proof -
    have "enumerate 0 (map (entry dec) (take (Suc j) ps)) = enumerate 0 (map (entry dec) (take j ps)) @ [(j, ?e)]"
      using j(1) by (simp add: take_Suc_conv_app_nth enumerate_append_eq)
    then show ?thesis by (simp add: j(2))
  qed
  show ?thesis
  proof (cases "j = 0")
    case True
    have "head ?e" using assms True by (cases ps) (simp_all add: frame_packets_def)
    then show ?thesis unfolding e j_def [symmetric] using True m(2,3) by (simp add: segment_step_def Let_def)
  next
    case False
    then show ?thesis
      unfolding e j_def [symmetric] foldl_append using segments_open [OF assms _ j(1)] m(2,3) s sat by (simp add: segment_step_def Let_def)
  qed
qed

text \<open>While the frame arrives nothing is taken; with its last packet it is taken whole.\<close>

lemma pop_early:
  assumes "frame_packets dec n t ps" "came dec ps j b b1" "0 < j" "j < length ps"
  shows "\<exists>b2. rx_pop b1 = Some (b2, None) \<and> came dec ps j b b2"
proof -
  have "segments (update_segments b1) = []"
    using assms(2) segments_open [OF assms(1,3,4)] by (simp add: update_segments_def came_def)
  then show ?thesis using assms(2) by (simp add: rx_pop_def came_def update_segments_def)
qed

lemma pop_whole:
  assumes "frame_packets dec n t ps" "waits_for n b" "came dec ps (length ps) b b1" "dec = depack b" "contiguity_check (contiguity b) extra True = (c, True, True)"
    "depack_all codec_depacketize dec (map snd ps) [] NoExtra = Some (dec', data, extra, Inr ())"
  shows "\<exists>b2. rx_pop b1 = Some (b2, Some (Inr \<lparr>dep_time = t, contiguous = True, dep_meta = map fst ps, dep_data = data, dep_extra = extra\<rparr>))
    \<and> waits_for (n + length ps) b2 \<and> depack b2 = dec' \<and> contiguity b2 = c \<and> hold_back b2 = hold_back b"
proof -
  define j where "j = length ps - 1"
  let ?q = "map (entry dec) ps"
  have ne: "ps \<noteq> []" "Suc j = length ps" "j < length ps" using assms(1) by (cases ps; simp add: frame_packets_def j_def)+
  have b1: "queue b1 = ?q" "depack_cache b1 = None" "last_emitted b1 = last_emitted b" "depack b1 = dec" "contiguity b1 = contiguity b" "hold_back b1 = hold_back b"
    using assms(2-5) by (simp_all add: came_def waits_for_def)
  let ?b = "update_segments b1"
  have seg: "segments ?b = [(0, j)]" using segments_closed [OF assms(1)] by (simp add: update_segments_def b1 j_def)
  have q: "queue ?b = ?q" "depack_cache ?b = None" "last_emitted ?b = last_emitted b" "depack ?b = dec" "contiguity ?b = contiguity b" "hold_back ?b = hold_back b"
    by (simp_all add: update_segments_def b1)
  have at: "idx ?q j = Some (entry dec (ps ! j))" "idx ?q 0 = Some (entry dec (hd ps))" "slice ?q 0 (Suc j) = Some ?q" "drop (Suc j) ?q = []"
    using ne by (simp_all add: idx_def slice_def hd_conv_nth)
  have meta0: "time_of (entry dec (hd ps)) = t" "seq_of (entry dec (hd ps)) = of_nat n" "seq_of (entry dec (ps ! j)) = of_nat (n + j)"
    using assms(1) ne by (auto simp: frame_packets_def hd_conv_nth)
  have depack: "rx_depacketize ?b 0 j = Some (?b\<lparr>depack := dec'\<rparr>,
      Inr \<lparr>dep_time = t, contiguous = True, dep_meta = map fst ps, dep_data = data, dep_extra = extra\<rparr>)"
  proof -
    have "?b\<lparr>depack_cache := None\<rparr> = ?b" using q(2) by (metis rx_buffer.surjective rx_buffer.update_convs(7) rx_buffer.select_convs(7))
    then show ?thesis using at assms(6) meta0 q by (simp add: rx_depacketize_def Let_def comp_def)
  qed
  have "is_following_last (?b\<lparr>depack := dec'\<rparr>) 0 = Some True"
  proof (cases "last_emitted b")
    case (Some lx)
    then obtain l x where lx: "last_emitted b = Some (l, x)" "0 < n" "l = of_nat (n - 1)"
      using assms(2) by (cases lx) (auto simp: waits_for_def)
    have "n < 2 ^ 62" using assms(1) by (simp add: frame_packets_def)
    then have "is_next l (of_nat n)" using of_nat_is_next [OF lx(2)] lx(3) by simp
    then show ?thesis using lx q at meta0 by (simp add: is_following_last_def)
  qed (simp add: is_following_last_def q)
  moreover have "last_emitted b2 = Some (of_nat (n + j), extra) \<Longrightarrow> queue b2 = [] \<Longrightarrow> depack_cache b2 = None \<Longrightarrow> waits_for (n + length ps) b2"
    for b2 :: "'a rx_buffer"
    unfolding ne(2) [symmetric] by (simp add: waits_for_def)
  ultimately show ?thesis
    using seg q at depack meta0 by (simp add: rx_pop_def Let_def assms(5))
qed

lemma arrivals_early:
  assumes "frame_packets (depack b) n t ps" "waits_for n b" "j < length ps"
  shows "\<exists>b1. rx_run b (arrivals (take j ps)) = Some (b1, []) \<and> came (depack b) ps j b b1"
  using assms(3)
proof (induction j)
  case 0
  then show ?case using assms(2) by (simp add: arrivals_def came_def waits_for_def)
next
  case (Suc j)
  then obtain b1 where b1: "rx_run b (arrivals (take j ps)) = Some (b1, [])" "came (depack b) ps j b b1" by auto
  let ?b = "rx_push b1 (fst (ps ! j)) (snd (ps ! j))"
  have "came (depack b) ps (Suc j) b ?b" using push_next [OF assms(1,2) refl b1(2)] Suc.prems by simp
  then obtain b2 where b2: "rx_pop ?b = Some (b2, None)" "came (depack b) ps (Suc j) b b2"
    using pop_early [OF assms(1)] Suc.prems by blast
  have "arrivals (take (Suc j) ps) = arrivals (take j ps) @ [Push (fst (ps ! j)) (snd (ps ! j)), Pop]"
    using Suc.prems by (simp add: arrivals_def take_Suc_conv_app_nth case_prod_beta)
  then show ?case using b1(1) b2 by (simp add: rx_run_append)
qed

lemma frame_delivered:
  assumes "frame_packets (depack b) n t ps" "waits_for n b" "contiguity_check (contiguity b) extra True = (c, True, True)"
    "depack_all codec_depacketize (depack b) (map snd ps) [] NoExtra = Some (dec', data, extra, Inr ())"
  shows "\<exists>b'. rx_run b (arrivals ps)
      = Some (b', [Inr \<lparr>dep_time = t, contiguous = True, dep_meta = map fst ps, dep_data = data, dep_extra = extra\<rparr>])
    \<and> waits_for (n + length ps) b' \<and> depack b' = dec' \<and> contiguity b' = c \<and> hold_back b' = hold_back b"
proof -
  define j where "j = length ps - 1"
  have j: "j < length ps" "Suc j = length ps" using assms(1) by (cases ps; simp add: frame_packets_def j_def)+
  obtain b1 where b1: "rx_run b (arrivals (take j ps)) = Some (b1, [])" "came (depack b) ps j b b1"
    using arrivals_early [OF assms(1,2) j(1)] by blast
  let ?b = "rx_push b1 (fst (ps ! j)) (snd (ps ! j))"
  have "came (depack b) ps (length ps) b ?b" using push_next [OF assms(1,2) refl b1(2) j(1)] j(2) by simp
  note p = pop_whole [OF assms(1,2) this refl assms(3,4)]
  have "arrivals (take (Suc j) ps) = arrivals (take j ps) @ [Push (fst (ps ! j)) (snd (ps ! j)), Pop]"
    using j(1) by (simp add: arrivals_def take_Suc_conv_app_nth case_prod_beta)
  then have "arrivals ps = arrivals (take j ps) @ [Push (fst (ps ! j)) (snd (ps ! j)), Pop]" by (simp add: j(2))
  then show ?thesis using b1(1) p by (auto simp: rx_run_append)
qed

section \<open>A VP8 stream from end to end\<close>

lemma write_chunks_nth:
  "write_chunks pk is_audio t seq cs = Some ws \<Longrightarrow> length ws = length cs \<and> (\<forall>i<length cs. w_seq (ws ! i) = seq + of_nat i
     \<and> w_data (ws ! i) = cs ! i \<and> w_time (ws ! i) = t \<and> codec_is_marker pk (i = length cs - 1) = Some (w_marker (ws ! i)))"
proof (induction pk is_audio t seq cs arbitrary: ws rule: write_chunks.induct)
  case (2 pk is_audio t seq c cs)
  obtain m us where m: "codec_is_marker pk (cs = []) = Some m" "write_chunks pk is_audio t (seq + 1) cs = Some us"
      "ws = \<lparr>w_seq = seq, w_time = t, w_marker = m, w_nackable = (\<not> is_audio), w_data = c\<rparr> # us"
    using "2.prems" by (auto split: bind_splits)
  note IH = "2.IH" [OF m(1,2)]
  have "w_seq (ws ! i) = seq + of_nat i \<and> w_data (ws ! i) = (c # cs) ! i \<and> w_time (ws ! i) = t
      \<and> codec_is_marker pk (i = length (c # cs) - 1) = Some (w_marker (ws ! i))" if i: "i < length (c # cs)" for i
  proof (cases i)
    case 0
    then show ?thesis using m(1,3) by simp
  next
    case (Suc j)
    then have j: "j < length cs" "(Suc j = length cs) = (j = length cs - 1)" using i by auto
    have "seq + 1 + of_nat j = seq + of_nat (Suc j)" by simp
    then show ?thesis using Suc IH j m(3) by simp
  qed
  then show ?case using IH m(3) by simp
qed simp

text \<open>
  What the receiver makes of the packets written: from the 16 bits of the number and the 32 of the time it extends
  both, and with the marker and the payload hands them to the buffer, as \<open>Media::depayload\<close> does. When a packet arrives
  and what else its header says is given beside it.
\<close>

fun take_in :: "nat \<Rightarrow> stream_rx \<Rightarrow> (rtp_write \<times> nat \<times> 'h) list \<Rightarrow> stream_rx \<times> ('h rtp_meta \<times> bytes) list" where
  "take_in rate st [] = (st, [])"
| "take_in rate st ((w, now, h) # xs) =
     (let (st, seq, time, is_new) = stream_update st now (ucast (w_seq w)) (w_time w) rate False;
          (st, ps) = take_in rate st xs
      in (st, (\<lparr>received = now, meta_time = time, seq_no = seq, marker = w_marker w, rest_of_header = h\<rparr>, w_data w) # ps))"

lemma take_in_append:
  "take_in rate st (xs @ ys) = (let (st, ps) = take_in rate st xs; (st, qs) = take_in rate st ys in (st, ps @ qs))"
proof (induction rate st xs rule: take_in.induct)
  case (2 rate st w now h xs)
  obtain st1 seq time is_new where u: "stream_update st now (ucast (w_seq w)) (w_time w) rate False = (st1, seq, time, is_new)"
    by (metis prod_cases4)
  show ?case using "2.IH" [OF u [symmetric] refl refl] by (simp add: u case_prod_beta Let_def)
qed (simp add: case_prod_beta Let_def)

definition carried :: "nat \<Rightarrow> media_time \<Rightarrow> rtp_write list \<Rightarrow> ('h rtp_meta \<times> bytes) list \<Rightarrow> bool" where
  "carried n t ws ps \<longleftrightarrow> length ps = length ws \<and> (\<forall>i<length ps. seq_no (fst (ps ! i)) = of_nat (n + i)
     \<and> marker (fst (ps ! i)) = w_marker (ws ! i) \<and> snd (ps ! i) = w_data (ws ! i) \<and> meta_time (fst (ps ! i)) = t)"

text \<open>The packets of a frame all get its time, and numbers that follow each other.\<close>

lemma take_in_frame:
  assumes "listens n K prev st" "on_clock K prev T" "n + length xs < 2 ^ 61" "n' mod 65536 = n mod 65536" "xs \<noteq> []"
    "\<forall>i<length xs. w_seq (fst (xs ! i)) = of_nat (n' + i) \<and> w_time (fst (xs ! i)) = of_int T"
  shows "\<exists>st' ps. take_in rate st xs = (st', ps) \<and> carried n \<lparr>numer = T - K, denom = rate\<rparr> (map fst xs) ps
    \<and> listens (n + length xs) K (Some T) st'"
  using assms
proof (induction xs arbitrary: n n' prev st)
  case (Cons x xs)
  obtain w now h where x: "x = (w, now, h)" by (cases x) auto
  have w: "w_seq w = of_nat n'" "w_time w = of_int T" using Cons.prems(6) x by fastforce+
  obtain st1 where u: "stream_update st now (ucast (w_seq w)) (w_time w) rate False = (st1, of_nat n, \<lparr>numer = T - K, denom = rate\<rparr>, True)"
      "listens (n + 1) K (Some T) st1"
    using update_in_order [OF Cons.prems(1,2) _ Cons.prems(4), of now rate] Cons.prems(3) by (auto simp: w)
  show ?case
  proof (cases "xs = []")
    case True
    then show ?thesis using u by (simp add: x carried_def)
  next
    case False
    have c: "on_clock K (Some T) T" using Cons.prems(2) by (simp add: on_clock_def)
    have m: "(n' + 1) mod 65536 = (n + 1) mod 65536" using Cons.prems(4) by (metis mod_add_left_eq)
    have r: "w_seq (fst (xs ! i)) = of_nat (n' + 1 + i) \<and> w_time (fst (xs ! i)) = of_int T" if "i < length xs" for i
      using Cons.prems(6) [rule_format, of "Suc i"] that by simp
    obtain st' ps where t: "take_in rate st1 xs = (st', ps)" "carried (n + 1) \<lparr>numer = T - K, denom = rate\<rparr> (map fst xs) ps"
        "listens (n + 1 + length xs) K (Some T) st'"
      using Cons.IH [OF u(2) c _ m False] r Cons.prems(3) by auto
    let ?p = "(\<lparr>received = now, meta_time = \<lparr>numer = T - K, denom = rate\<rparr>, seq_no = of_nat n, marker = w_marker w, rest_of_header = h\<rparr>, w_data w)"
    have "carried n \<lparr>numer = T - K, denom = rate\<rparr> (map fst (x # xs)) (?p # ps)"
      using t(2) by (auto simp: carried_def x nth_Cons split: nat.splits)
    then show ?thesis using u t(1,3) by (simp add: x)
  qed
qed simp

lemma carried_frame_packets:
  assumes "write_chunks pk is_audio time seq cs = Some ws" "carried n t ws ps" "cs \<noteq> []" "n + length cs < 2 ^ 61"
    "\<forall>final. codec_is_marker pk final = Some final" "\<forall>m. codec_is_tail dec m = m" "codec_is_head dec (hd cs)"
  shows "frame_packets dec n t ps" "map snd ps = cs"
proof -
  note w = write_chunks_nth [OF assms(1)] and c = assms(2) [unfolded carried_def]
  show cs: "map snd ps = cs" using w c by (auto intro: nth_equalityI)
  have l: "length ps = length cs" "ps \<noteq> []" using w c assms(3) by auto
  have "hd cs = snd (hd ps)" using l(2) by (simp add: cs [symmetric] hd_map)
  then show "frame_packets dec n t ps" using w c l assms(4-7) by (simp add: frame_packets_def)
qed

text \<open>A sender without picture ids, and a receiver that waits for its next packet.\<close>

definition plain_sender :: "nat \<Rightarrow> codec_packetizer \<Rightarrow> bool" where
  "plain_sender mtu pk \<longleftrightarrow> 4 \<le> mtu \<and> (case pk of PkVp8 v \<Rightarrow> \<not> enable_picture_id v | _ \<Rightarrow> False)"

definition vp8_receiver :: "nat \<Rightarrow> 'h rx_buffer \<Rightarrow> bool" where
  "vp8_receiver n b \<longleftrightarrow> waits_for n b \<and> (case depack b of DpVp8 st \<Rightarrow> fresh st | _ \<Rightarrow> False)"

lemma depack_all_vp8: "depack_all codec_depacketize (DpVp8 st) ps out extra = into DpVp8 (depack_all vp8_depacketize st ps out extra)"
proof (induction ps arbitrary: st out extra)
  case (Cons p ps)
  have step: "codec_depacketize (DpVp8 st) p out extra = into DpVp8 (vp8_depacketize st p out extra)" by (simp add: codec_depacketize_def)
  show ?case
    by (cases "vp8_depacketize st p out extra") (auto simp: step into_def Cons.IH split: sum.splits)
qed (simp add: into_def)

lemma plain_contiguity:
  "tells v k extra \<Longrightarrow> \<not> enable_picture_id v \<Longrightarrow> \<exists>c. contiguity_check ct extra True = (c, True, True)"
  by (auto simp: tells_def contiguity_check_def vp8_check_def next_frame_def split: codec_extra.splits contiguity.splits)

lemma vp8_frame_travels:
  assumes "plain_sender mtu pk" "vp8_receiver n b" "frame \<noteq> []" "length frame mod (mtu - 1) \<notin> {1, 2}"
    "push_sample rng pk mtu is_audio rate time frame first = Some (pk', ws, seq)" "carried n t ws ps" "n + length ws < 2 ^ 61"
  shows "plain_sender mtu pk'
    \<and> (\<exists>b' d. rx_run b (arrivals ps) = Some (b', [Inr d]) \<and> dep_data d = frame \<and> dep_time d = t \<and> contiguous d
         \<and> vp8_receiver (n + length ps) b')"
proof -
  obtain v where v: "pk = PkVp8 v" "\<not> enable_picture_id v" "4 \<le> mtu"
    using assms(1) by (auto simp: plain_sender_def split: codec_packetizer.splits)
  obtain st where st: "depack b = DpVp8 st" "fresh st" "waits_for n b"
    using assms(2) by (auto simp: vp8_receiver_def split: codec_depacketizer.splits)
  have h: "using_header_size v < mtu" "readable v st" using v st by (simp_all add: using_header_size_def VP8_HEADER_SIZE_def readable_def)
  have m: "0 < mtu - using_header_size v" using h(1) by simp
  obtain cs st' extra where p: "vp8_packetize v mtu frame = Some (v\<lparr>pk_picture_id := (pk_picture_id v + 1) AND 0x7FFF\<rparr>, cs)"
      "cs = vp8_packets v True (fragments (mtu - using_header_size v) frame)"
      "depack_all vp8_depacketize st cs [] NoExtra = Some (st', frame, extra, Inr ())"
      "tells v (hd frame AND 1 = 0) extra" "readable v st'"
    using vp8_frame [OF assms(3) h] v(3) assms(4) by blast
  have pk': "pk' = PkVp8 (v\<lparr>pk_picture_id := (pk_picture_id v + 1) AND 0x7FFF\<rparr>)" and ws: "\<exists>tm. write_chunks pk' is_audio tm first cs = Some ws"
    using assms(5) p(1) by (auto simp: push_sample_def codec_packetize_def v(1) split: bind_splits)
  have cs: "cs \<noteq> []" "codec_is_head (DpVp8 st) (hd cs)"
    using fragments.cut_step [OF m assms(3)] v(2)
    by (auto simp: p(2) vp8_packets_def codec_is_head_def vp8_is_partition_head_def vp8_header_def using_header_size_def VP8_HEADER_SIZE_def)
  obtain tm where tm: "write_chunks pk' is_audio tm first cs = Some ws" using ws by blast
  have len: "length ws = length cs" "length ps = length cs" using write_chunks_nth [OF tm] assms(6) by (auto simp: carried_def)
  have fp: "frame_packets (DpVp8 st) n t ps" "map snd ps = cs"
    using carried_frame_packets [OF tm assms(6) cs(1) _ _ _ cs(2)] assms(7) len by (simp_all add: pk' codec_is_marker_def codec_is_tail_def)
  have d: "depack_all codec_depacketize (depack b) (map snd ps) [] NoExtra = Some (DpVp8 st', frame, extra, Inr ())"
    using p(3) by (simp add: st(1) fp(2) depack_all_vp8 into_def)
  obtain c where c: "contiguity_check (contiguity b) extra True = (c, True, True)"
    using plain_contiguity p(4) v(2) by blast
  have fp': "frame_packets (depack b) n t ps" using fp(1) st(1) by simp
  show ?thesis
    using frame_delivered [OF fp' st(3) c d] p(5) v len
    by (force simp: plain_sender_def vp8_receiver_def readable_def pk')
qed

text \<open>The frames of a stream, pushed one after the other: the packets of each.\<close>

fun push_samples :: "u16 \<Rightarrow> codec_packetizer \<Rightarrow> nat \<Rightarrow> bool \<Rightarrow> nat \<Rightarrow> (media_time \<times> bytes) list \<Rightarrow> u64 \<Rightarrow> rtp_write list list option" where
  "push_samples rng pk mtu is_audio rate [] seq = Some []"
| "push_samples rng pk mtu is_audio rate ((time, frame) # fs) seq = do {
     (pk, ws, seq) \<leftarrow> push_sample rng pk mtu is_audio rate time frame seq;
     wss \<leftarrow> push_samples rng pk mtu is_audio rate fs seq;
     Some (ws # wss) }"

text \<open>What is written for a sample has the numbers that follow and one time, the sample's at the clock rate.\<close>

lemma push_sample_writes:
  assumes "plain_sender mtu pk" "push_sample rng pk mtu is_audio rate time frame seq = Some (pk', ws, seq')" "frame \<noteq> []"
    "length frame mod (mtu - 1) \<notin> {1, 2}"
  shows "ws \<noteq> [] \<and> seq' = seq + of_nat (length ws) \<and> (\<forall>i<length ws. w_seq (ws ! i) = seq + of_nat i
    \<and> w_time (ws ! i) = of_int (numer (rebase time rate)))"
proof -
  obtain chunks where c: "codec_packetize rng pk mtu frame = Some (pk', chunks)" "seq' = seq + of_nat (length chunks)"
      "write_chunks pk' is_audio (of_int (numer (rebase time rate))) seq chunks = Some ws"
    using assms(2) by (auto simp: push_sample_def split: bind_splits)
  obtain v where v: "pk = PkVp8 v" "\<not> enable_picture_id v" "4 \<le> mtu"
    using assms(1) by (auto simp: plain_sender_def split: codec_packetizer.splits)
  have m: "0 < mtu - using_header_size v" "using_header_size v < mtu" using v(2,3) by (simp_all add: using_header_size_def VP8_HEADER_SIZE_def)
  have "readable v vp8_depacketizer_new" by (simp add: readable_def fresh_def vp8_depacketizer_new_def)
  then have "vp8_packetize v mtu frame = Some (v\<lparr>pk_picture_id := (pk_picture_id v + 1) AND 0x7FFF\<rparr>,
      vp8_packets v True (fragments (mtu - using_header_size v) frame))"
    using vp8_frame [OF assms(3) m(2)] v(3) assms(4) by blast
  moreover obtain f fs where "fragments (mtu - using_header_size v) frame = f # fs" using fragments.cut_step [OF m(1) assms(3)] by blast
  ultimately have "chunks \<noteq> []" using c(1) by (auto simp: codec_packetize_def v(1) vp8_packets_def)
  then show ?thesis using write_chunks_nth [OF c(3)] c(2) by auto
qed

text \<open>
  The time of a sample on the clock of the codec, and when the times of a stream can be told apart by 32 bits: none goes
  back, and none is half a turn of the timestamp, thirteen hours at 90 kHz, after the one before.
\<close>

definition tick :: "nat \<Rightarrow> media_time \<times> bytes \<Rightarrow> int" where
  "tick rate f = numer (rebase (fst f) rate)"

definition paced :: "nat \<Rightarrow> (media_time \<times> bytes) list \<Rightarrow> bool" where
  "paced rate fs \<longleftrightarrow> (\<forall>f\<in>set fs. \<bar>tick rate f\<bar> < 2 ^ 60)
     \<and> successively (\<lambda>f g. tick rate f \<le> tick rate g \<and> tick rate g - tick rate f < 2 ^ 31) fs"

text \<open>
  The frame is handed on whole, as following the one before, with its time at the clock rate; the receiver does not
  know the turns \<open>K\<close> of the timestamp before the first packet.
\<close>

definition whole :: "nat \<Rightarrow> int \<Rightarrow> media_time \<times> bytes \<Rightarrow> 'h depacketized \<Rightarrow> bool" where
  "whole rate K f d \<longleftrightarrow> dep_time d = \<lparr>numer = tick rate f - K, denom = rate\<rparr> \<and> dep_data d = snd f \<and> contiguous d"

lemma stream_travels:
  assumes "plain_sender mtu pk" "vp8_receiver n b" "listens n K prev st"
    "\<forall>(t, f)\<in>set fs. f \<noteq> [] \<and> length f mod (mtu - 1) \<notin> {1, 2}"
    "fs \<noteq> [] \<Longrightarrow> on_clock K prev (tick rate (hd fs))" "\<forall>f\<in>set fs. tick rate f - K < 2 ^ 62" "paced rate fs"
    "push_samples rng pk mtu is_audio rate fs (of_nat n') = Some wss" "map fst xs = concat wss"
    "n + length xs < 2 ^ 61" "n' mod 65536 = n mod 65536"
  shows "\<exists>b' ds. rx_run b (arrivals (snd (take_in rate st xs))) = Some (b', map Inr ds) \<and> list_all2 (whole rate K) fs ds"
  using assms
proof (induction fs arbitrary: pk n n' b prev st wss xs)
  case Nil
  then show ?case by (simp add: arrivals_def)
next
  case (Cons f fs)
  obtain t frame where f: "f = (t, frame)" by (cases f)
  obtain pk' ws seq wss' where p: "push_sample rng pk mtu is_audio rate t frame (of_nat n') = Some (pk', ws, seq)"
      "push_samples rng pk' mtu is_audio rate fs seq = Some wss'" "wss = ws # wss'"
    using Cons.prems(8) by (auto simp: f split: bind_splits)
  have fr: "frame \<noteq> []" "length frame mod (mtu - 1) \<notin> {1, 2}" using Cons.prems(4) by (auto simp: f)
  define T where "T = tick rate f"
  have wr: "ws \<noteq> []" "seq = of_nat (n' + length ws)" "\<forall>i<length ws. w_seq (ws ! i) = of_nat (n' + i) \<and> w_time (ws ! i) = of_int T"
    using push_sample_writes [OF Cons.prems(1) p(1) fr] by (auto simp: T_def tick_def f)
  have "map fst xs = ws @ concat wss'" using Cons.prems(9) by (simp add: p(3))
  then obtain us vs where x: "xs = us @ vs" "map fst us = ws" "map fst vs = concat wss'" by (auto simp: map_eq_append_conv)
  have len: "length us = length ws" "us \<noteq> []" using x(2) wr(1) by auto
  have c: "on_clock K prev T" using Cons.prems(5) by (simp add: T_def)
  have us: "\<forall>i<length us. w_seq (fst (us ! i)) = of_nat (n' + i) \<and> w_time (fst (us ! i)) = of_int T"
    using wr(3) x(2) len(1) by (metis nth_map)
  have n: "n + length us < 2 ^ 61" "n + length us + length vs < 2 ^ 61" using Cons.prems(10) x(1) by simp_all
  obtain st1 ps where ti: "take_in rate st us = (st1, ps)" "carried n \<lparr>numer = T - K, denom = rate\<rparr> ws ps" "listens (n + length us) K (Some T) st1"
    using take_in_frame [OF Cons.prems(3) c n(1) Cons.prems(11) len(2) us, of rate] x(2) by auto
  have lps: "length ps = length us" using ti(2) len(1) by (simp add: carried_def)
  obtain b1 d where one: "plain_sender mtu pk'" "rx_run b (arrivals ps) = Some (b1, [Inr d])"
      "dep_data d = frame" "dep_time d = \<lparr>numer = T - K, denom = rate\<rparr>" "contiguous d" "vp8_receiver (n + length us) b1"
    using vp8_frame_travels [OF Cons.prems(1,2) fr p(1) ti(2)] n(1) len(1) lps by auto
  have p2: "push_samples rng pk' mtu is_audio rate fs (of_nat (n' + length us)) = Some wss'" using p(2) wr(2) len(1) by simp
  have c2: "on_clock K (Some T) (tick rate (hd fs))" if "fs \<noteq> []"
    using that c Cons.prems(6,7) by (cases fs) (auto simp: on_clock_def paced_def T_def successively_Cons)
  have paced: "paced rate fs" using Cons.prems(7) by (auto simp: paced_def successively_Cons)
  have m: "(n' + length us) mod 65536 = (n + length us) mod 65536" using Cons.prems(11) by (metis mod_add_left_eq)
  obtain b' ds where rest: "rx_run b1 (arrivals (snd (take_in rate st1 vs))) = Some (b', map Inr ds)" "list_all2 (whole rate K) fs ds"
    using Cons.IH [OF one(1,6) ti(3) _ c2 _ paced p2 x(3) n(2) m] Cons.prems(4,6) by auto
  have "arrivals (snd (take_in rate st xs)) = arrivals ps @ arrivals (snd (take_in rate st1 vs))"
    by (simp add: x(1) take_in_append ti(1) arrivals_def case_prod_beta Let_def)
  then have "rx_run b (arrivals (snd (take_in rate st xs))) = Some (b', map Inr (d # ds))" using one(2) rest(1) by (simp add: rx_run_append)
  moreover have "list_all2 (whole rate K) (f # fs) (d # ds)" using rest(2) one(3-5) by (simp add: whole_def f T_def)
  ultimately show ?case by blast
qed

text \<open>C1. A VP8 stream without picture ids gets through to a new receiver. The frames are not empty, none of them leaves one or two
  octets for its last packet (the receiver refuses such a packet), and their times are paced as above. Then, when the
  packets arrive in the order in which they were written and the receiver looks for a frame after each of them, exactly
  the frames that were pushed are handed on: whole, in order, each said to follow the one before, and each with the time
  it was pushed with on the clock of the codec, less one and the same number of turns of the 32 bit timestamp. The
  receiver works out times and numbers from the 32 and 16 bits in the headers.
\<close>

theorem vp8_stream_delivered:
  fixes xs :: "(rtp_write \<times> nat \<times> 'h) list"
  assumes "plain_sender mtu pk" "\<forall>(t, f)\<in>set fs. f \<noteq> [] \<and> length f mod (mtu - 1) \<notin> {1, 2}" "paced rate fs"
    "push_samples rng pk mtu is_audio rate fs (of_nat n) = Some wss" "map fst xs = concat wss" "length xs < 2 ^ 60"
  shows "\<exists>b' ds K. rx_run (rx_buffer_new (DpVp8 vp8_depacketizer_new) hold) (arrivals (snd (take_in rate stream_rx_new xs)))
      = Some (b', map Inr ds) \<and> K mod 2 ^ 32 = 0 \<and> list_all2 (whole rate K) fs ds"
proof -
  define T K where "T = tick rate (hd fs)" and "K = T - T mod 2 ^ 32"
  have K: "K mod 2 ^ 32 = 0" "0 \<le> T - K" "T - K < 2 ^ 32" by (simp_all add: K_def)
  have r: "vp8_receiver (n mod 65536) (rx_buffer_new (DpVp8 vp8_depacketizer_new) hold :: 'h rx_buffer)"
    by (simp add: vp8_receiver_def waits_for_def rx_buffer_new_def fresh_def vp8_depacketizer_new_def)
  have l: "listens (n mod 65536) K None stream_rx_new" by (simp add: listens_def stream_rx_new_def)
  have c: "on_clock K None (tick rate (hd fs))" if "fs \<noteq> []" using K by (simp add: on_clock_def T_def)
  have b: "tick rate f - K < 2 ^ 62" if "f \<in> set fs" for f
  proof -
    have "\<bar>tick rate f\<bar> < 2 ^ 60" "\<bar>T\<bar> < 2 ^ 60" using assms(3) that by (cases fs; force simp: paced_def T_def)+
    then have "tick rate f < 2 ^ 60" "- (2 ^ 60) < T" by (simp_all add: abs_less_iff)
    then show ?thesis using K(2,3) by simp
  qed
  have "n mod 65536 + length xs < 65536 + 2 ^ 60" using assms(6) by (intro add_strict_mono) simp_all
  then have s: "n mod 65536 + length xs < 2 ^ 61" by simp
  have "\<exists>b' ds. rx_run (rx_buffer_new (DpVp8 vp8_depacketizer_new) hold) (arrivals (snd (take_in rate stream_rx_new xs)))
      = Some (b', map Inr ds) \<and> list_all2 (whole rate K) fs ds"
  proof (rule stream_travels [OF assms(1) r l assms(2) _ _ assms(3-5) s])
    show "\<forall>f\<in>set fs. tick rate f - K < 2 ^ 62" using b by blast
  qed (simp_all add: c)
  then obtain b' ds where d: "rx_run (rx_buffer_new (DpVp8 vp8_depacketizer_new) hold) (arrivals (snd (take_in rate stream_rx_new xs)))
      = Some (b', map Inr ds)" "list_all2 (whole rate K) fs ds" by (elim exE conjE)
  show ?thesis by (rule exI [of _ b'], rule exI [of _ ds], rule exI [of _ K], intro conjI d K(1))
qed

text \<open>
  Two frames of eight and four octets, in packets of at most five, the second 3000 ticks after the first and after the
  32 bits of the timestamp have turned.
\<close>

definition two_frames :: "(media_time \<times> bytes) list" where
  "two_frames = [(\<lparr>numer = 4294967000, denom = 90000\<rparr>, [1, 2, 3, 4, 5, 6, 7, 8]), (\<lparr>numer = 4294970000, denom = 90000\<rparr>, [8, 7, 6, 5])]"

definition two_written :: "rtp_write list list" where
  "two_written = [[\<lparr>w_seq = 65535, w_time = 4294967000, w_marker = False, w_nackable = True, w_data = [0x10, 1, 2, 3, 4]\<rparr>,
                   \<lparr>w_seq = 65536, w_time = 4294967000, w_marker = True, w_nackable = True, w_data = [0, 5, 6, 7, 8]\<rparr>],
                  [\<lparr>w_seq = 65537, w_time = 2704, w_marker = True, w_nackable = True, w_data = [0x10, 8, 7, 6, 5]\<rparr>]]"

lemma two_frames_pushed:
  "push_samples 0 (PkVp8 \<lparr>enable_picture_id = False, pk_picture_id = 0\<rparr>) 5 False 90000 two_frames (of_nat 65535) = Some two_written"
  by (simp add: two_frames_def two_written_def push_sample_def codec_packetize_def vp8_packetize_def vp8_loop.simps using_header_size_def
      VP8_HEADER_SIZE_def vp8_header_def slice_def rebase_def codec_is_marker_def min_def)

lemma vp8_stream_delivered_witness:
  "\<exists>b' ds K. rx_run (rx_buffer_new (DpVp8 vp8_depacketizer_new) 0)
      (arrivals (snd (take_in 90000 stream_rx_new (map (\<lambda>w. (w, 0, ())) (concat two_written))))) = Some (b', map Inr ds)
    \<and> K mod 2 ^ 32 = 0 \<and> list_all2 (whole 90000 K) two_frames ds"
proof -
  have "plain_sender 5 (PkVp8 \<lparr>enable_picture_id = False, pk_picture_id = 0\<rparr>)" by (simp add: plain_sender_def)
  moreover have "paced 90000 two_frames" by (simp add: paced_def two_frames_def tick_def rebase_def)
  ultimately show ?thesis
    using vp8_stream_delivered [OF _ _ _ two_frames_pushed, of "map (\<lambda>w. (w, 0, ())) (concat two_written)" 0]
    by (simp add: two_frames_def two_written_def comp_def)
qed

end
