(* ===== verification/H264Profile.thy ===== *)
theory H264Profile imports Prelude begin

text \<open>
  Profiles and levels of H.264, \<open>packet/h264_profile.rs\<close> of str0m, and the bit patterns they are told by,
  \<open>util/bit_pattern.rs\<close>.
\<close>

section \<open>Bit patterns\<close>

record bit_pattern =
  bp_mask :: u8
  bp_value :: u8

definition pattern_matches :: "bit_pattern \<Rightarrow> u8 \<Rightarrow> bool" where
  "pattern_matches p v \<longleftrightarrow> (v XOR bp_value p) AND bp_mask p = 0"

text \<open>One bit of the mask and of the value, from the character at \<open>7 - i\<close>; another character panics.\<close>

definition bit_to_mask_bit :: "string \<Rightarrow> nat \<Rightarrow> u8 option" where
  "bit_to_mask_bit pattern i = do { c \<leftarrow> idx pattern (7 - i);
     if c = CHR ''1'' \<or> c = CHR ''0'' then Some (push_bit i 1) else if c = CHR ''x'' then Some (push_bit i 0) else None }"

definition bit_to_value_bit :: "string \<Rightarrow> nat \<Rightarrow> u8 option" where
  "bit_to_value_bit pattern i = do { c \<leftarrow> idx pattern (7 - i);
     if c = CHR ''1'' then Some (push_bit i 1) else if c = CHR ''x'' \<or> c = CHR ''0'' then Some (push_bit i 0) else None }"

fun or_bits :: "(nat \<Rightarrow> u8 option) \<Rightarrow> nat \<Rightarrow> u8 option" where
  "or_bits f 0 = Some 0"
| "or_bits f (Suc i) = do { b \<leftarrow> f i; bs \<leftarrow> or_bits f i; Some (b OR bs) }"

definition bit_pattern_new :: "string \<Rightarrow> bit_pattern option" where
  "bit_pattern_new pattern = do {
     mask \<leftarrow> or_bits (bit_to_mask_bit pattern) 8;
     value \<leftarrow> or_bits (bit_to_value_bit pattern) 8;
     Some \<lparr>bp_mask = mask, bp_value = value\<rparr> }"

text \<open>What a pattern says of an octet, character by character from the top bit.\<close>

definition says :: "string \<Rightarrow> u8 \<Rightarrow> bool" where
  "says pattern v \<longleftrightarrow> (\<forall>i<8. case pattern ! (7 - i) of c \<Rightarrow> c = CHR ''x'' \<or> (c = CHR ''1'') = bit v i)"

lemma or_bits_bits:
  assumes "or_bits f n = Some w" "\<And>i x. f i = Some x \<Longrightarrow> x = (if g i then push_bit i 1 else 0)" "n \<le> 8"
  shows "bit w k \<longleftrightarrow> k < n \<and> g k"
  using assms(1,3)
proof (induction n arbitrary: w)
  case (Suc n)
  obtain b bs where b: "f n = Some b" "or_bits f n = Some bs" "w = b OR bs" using Suc.prems(1) by (auto split: bind_splits)
  have "bit b k \<longleftrightarrow> k = n \<and> g n" using assms(2) [OF b(1)] Suc.prems(2) by (auto simp: bit_simps)
  moreover have "bit bs k \<longleftrightarrow> k < n \<and> g k" using Suc.IH [OF b(2)] Suc.prems(2) by simp
  ultimately show ?case by (auto simp: b(3) bit_or_iff less_Suc_eq)
qed simp

lemma or_bits_total: "(\<And>i. i < n \<Longrightarrow> f i \<noteq> None) \<Longrightarrow> or_bits f n \<noteq> None"
  by (induction n) (auto split: bind_splits)

lemma pattern_panics: "length p = 8 \<Longrightarrow> set p \<subseteq> {CHR ''0'', CHR ''1'', CHR ''x''} \<Longrightarrow> bit_pattern_new p \<noteq> None"
proof -
  assume p: "length p = 8" "set p \<subseteq> {CHR ''0'', CHR ''1'', CHR ''x''}"
  have c: "p ! (7 - i) \<in> {CHR ''0'', CHR ''1'', CHR ''x''}" for i
  proof -
    have "p ! (7 - i) \<in> set p" using p(1) by simp
    then show ?thesis using p(2) by blast
  qed
  have "or_bits (bit_to_mask_bit p) 8 \<noteq> None" "or_bits (bit_to_value_bit p) 8 \<noteq> None"
    by (rule or_bits_total; use p(1) c in \<open>force simp: bit_to_mask_bit_def bit_to_value_bit_def idx_def\<close>)+
  then show ?thesis by (auto simp: bit_pattern_new_def split: bind_splits)
qed

text \<open>A pattern of eight characters matches the octets that have its ones and zeros where it has them.\<close>

theorem bit_pattern_says:
  assumes "bit_pattern_new p = Some bp"
  shows "pattern_matches bp v \<longleftrightarrow> says p v"
proof -
  have m: "bit (bp_mask bp) k \<longleftrightarrow> k < 8 \<and> p ! (7 - k) \<noteq> CHR ''x''" for k
    by (rule or_bits_bits [where f = "bit_to_mask_bit p"])
       (use assms in \<open>auto simp: bit_pattern_new_def bit_to_mask_bit_def idx_def split: bind_splits if_splits\<close>)
  have w: "bit (bp_value bp) k \<longleftrightarrow> k < 8 \<and> p ! (7 - k) = CHR ''1''" for k
    by (rule or_bits_bits [where f = "bit_to_value_bit p"])
       (use assms in \<open>auto simp: bit_pattern_new_def bit_to_value_bit_def idx_def split: bind_splits if_splits\<close>)
  have "pattern_matches bp v \<longleftrightarrow> (\<forall>k<8. \<not> (bit v k \<noteq> bit (bp_value bp) k \<and> bit (bp_mask bp) k))"
    by (auto simp: pattern_matches_def bit_eq_iff bit_simps dest: bit_imp_le_length)
  then show ?thesis by (auto simp: says_def m w)
qed

lemma bit_pattern_says_witness: "\<exists>bp. bit_pattern_new ''1x0x1x01'' = Some bp \<and> pattern_matches bp 0b11011001 = says ''1x0x1x01'' 0b11011001"
proof -
  have "bit_pattern_new ''1x0x1x01'' \<noteq> None" by (rule pattern_panics) auto
  then show ?thesis using bit_pattern_says by blast
qed

section \<open>Profiles\<close>

datatype h264_profile = Baseline | ConstrainedBaseline | MainProfile | Extended | High | High10 | High422 | High444Predictive
  | High10Intra | High422Intra | High444Intra | CAVLC444Intra

datatype profile_idc = X2C | X42 | X4D | X58 | X64 | X6E | X7A | XF4

definition profile_idc_of :: "u8 \<Rightarrow> profile_idc option" where
  "profile_idc_of v =
     (if v = 44 then Some X2C else if v = 66 then Some X42 else if v = 77 then Some X4D else if v = 88 then Some X58
      else if v = 100 then Some X64 else if v = 110 then Some X6E else if v = 122 then Some X7A
      else if v = 244 then Some XF4 else None)"

datatype level_idc = Level1B | Level1 | Level1_1 | Level1_2 | Level1_3 | Level2 | Level2_1 | Level2_2 | Level3 | Level3_1 | Level3_2
  | Level4 | Level4_1 | Level4_2 | Level5 | Level5_1 | Level5_2

definition level_idc_of :: "u8 \<Rightarrow> level_idc option" where
  "level_idc_of v = map_of [(0, Level1B), (10, Level1), (11, Level1_1), (12, Level1_2), (13, Level1_3), (20, Level2),
     (21, Level2_1), (22, Level2_2), (30, Level3), (31, Level3_1), (32, Level3_2), (40, Level4), (41, Level4_1),
     (42, Level4_2), (50, Level5), (51, Level5_1), (52, Level5_2)] v"

record profile_level =
  profile :: h264_profile
  level :: level_idc

definition FALLBACK :: profile_level where
  "FALLBACK = \<lparr>profile = Baseline, level = Level3_1\<rparr>"

definition PROFILES :: "(h264_profile \<times> profile_idc \<times> string) list" where
  "PROFILES =
     [(ConstrainedBaseline, X42, ''x1xx0000''), (ConstrainedBaseline, X4D, ''1xxx0000''), (ConstrainedBaseline, X58, ''11xx0000''),
      (Baseline, X42, ''x0xx0000''), (Baseline, X58, ''10xx0000''), (MainProfile, X4D, ''0x0x0000''), (Extended, X58, ''00xx0000''),
      (High, X64, ''00000000''), (High10, X6E, ''00000000''), (High422, X7A, ''00000000''), (High444Predictive, XF4, ''00000000''),
      (High10Intra, X6E, ''00010000''), (High422Intra, X7A, ''00010000''), (High444Intra, XF4, ''00010000''),
      (CAVLC444Intra, X2C, ''00010000'')]"

text \<open>The patterns are compiled; one that does not compile would not build.\<close>

definition row_matches :: "profile_idc \<Rightarrow> u8 \<Rightarrow> h264_profile \<times> profile_idc \<times> string \<Rightarrow> bool" where
  "row_matches idc iop row \<longleftrightarrow> fst (snd row) = idc
     \<and> (case bit_pattern_new (snd (snd row)) of Some bp \<Rightarrow> pattern_matches bp iop | None \<Rightarrow> False)"

definition profile_level_new :: "profile_idc \<Rightarrow> u8 \<Rightarrow> level_idc \<Rightarrow> profile_level option" where
  "profile_level_new idc iop lev =
     map_option (\<lambda>row. \<lparr>profile = fst row, level = lev\<rparr>) (find (row_matches idc iop) PROFILES)"

definition CONSTRAINT_SET3_FLAG :: u8 where "CONSTRAINT_SET3_FLAG = 0x10"

definition profile_level_of :: "u32 \<Rightarrow> profile_level option" where
  "profile_level_of value =
     (let octets = to_be32 value in
      do { idc \<leftarrow> profile_idc_of (octets ! 1);
           let iop = octets ! 2;
           lev \<leftarrow> level_idc_of (octets ! 3);
           let lev = (if idc \<in> {X42, X4D, X58} \<and> lev = Level1
                      then if iop AND CONSTRAINT_SET3_FLAG \<noteq> 0 then Level1B else Level1 else lev);
           profile_level_new idc iop lev })"

text \<open>A row matches when its text says so.\<close>

lemma row_says: "row \<in> set PROFILES \<Longrightarrow> row_matches idc iop row \<longleftrightarrow> fst (snd row) = idc \<and> says (snd (snd row)) iop"
proof -
  assume r: "row \<in> set PROFILES"
  have "length (snd (snd row)) = 8" "set (snd (snd row)) \<subseteq> {CHR ''0'', CHR ''1'', CHR ''x''}"
    using r by (auto simp: PROFILES_def)
  then obtain bp where "bit_pattern_new (snd (snd row)) = Some bp" using pattern_panics by blast
  then show ?thesis using bit_pattern_says by (simp add: row_matches_def)
qed

lemma all_below_8: "(\<forall>i<8. P i) \<longleftrightarrow> P 0 \<and> P 1 \<and> P 2 \<and> P 3 \<and> P 4 \<and> P 5 \<and> P 6 \<and> P (7 :: nat)"
  by (simp add: numeral_eq_Suc All_less_Suc conj_ac)

lemma says_bits:
  "says [c7, c6, c5, c4, c3, c2, c1, c0] v \<longleftrightarrow>
     (c0 = CHR ''x'' \<or> (c0 = CHR ''1'') = bit v 0) \<and> (c1 = CHR ''x'' \<or> (c1 = CHR ''1'') = bit v 1)
   \<and> (c2 = CHR ''x'' \<or> (c2 = CHR ''1'') = bit v 2) \<and> (c3 = CHR ''x'' \<or> (c3 = CHR ''1'') = bit v 3)
   \<and> (c4 = CHR ''x'' \<or> (c4 = CHR ''1'') = bit v 4) \<and> (c5 = CHR ''x'' \<or> (c5 = CHR ''1'') = bit v 5)
   \<and> (c6 = CHR ''x'' \<or> (c6 = CHR ''1'') = bit v 6) \<and> (c7 = CHR ''x'' \<or> (c7 = CHR ''1'') = bit v 7)"
  unfolding says_def all_below_8 by simp

text \<open>
  The table of profiles is unambiguous: two rows that match the same octets name one profile, so the profile found
  is the one of every row that matches and the order of the rows does not matter.
\<close>

theorem profiles_unambiguous:
  assumes "row \<in> set PROFILES" "row_matches idc iop row"
  shows "profile_level_new idc iop lev = Some \<lparr>profile = fst row, level = lev\<rparr>"
proof -
  have same: "fst r = fst row" if "r \<in> set PROFILES" "row_matches idc iop r" for r
    using that assms row_says [OF that(1), of idc iop] row_says [OF assms(1), of idc iop]
    unfolding PROFILES_def by (auto simp: says_bits)
  obtain r where r: "find (row_matches idc iop) PROFILES = Some r"
    using assms find_None_iff [of "row_matches idc iop" PROFILES] by (metis option.exhaust)
  then have "r \<in> set PROFILES" "row_matches idc iop r" by (auto simp: find_Some_iff)
  then show ?thesis using r same by (simp add: profile_level_new_def)
qed

lemma profiles_unambiguous_witness: "profile_level_new X42 0xE0 Level3_1 = Some \<lparr>profile = ConstrainedBaseline, level = Level3_1\<rparr>"
proof -
  have r: "(ConstrainedBaseline, X42, ''x1xx0000'') \<in> set PROFILES" by (simp add: PROFILES_def)
  have "says ''x1xx0000'' 0xE0" unfolding says_bits by simp
  then have "row_matches X42 0xE0 (ConstrainedBaseline, X42, ''x1xx0000'')" using row_says [OF r] by simp
  from profiles_unambiguous [OF r this, of Level3_1] show ?thesis by simp
qed

text \<open>
  Level 1b is told by a level of 11 with the third constraint flag, but the code looks for 10: a stream of level 1b
  is taken for level 1.1, and one of level 1 with the flag for 1b.
\<close>

theorem level_1b_misread:
  "map_option level (profile_level_of 0x42100B) = Some Level1_1 \<and> map_option level (profile_level_of 0x42100A) = Some Level1B"
  by code_simp

end
