(* ===== verification/CodecConfig.thy ===== *)
theory CodecConfig imports Formats H264Profile "HOL-Library.Option_ord" begin

text \<open>
  The codecs of a session and how their payload types are matched with those of the remote side: \<open>CodecConfig\<close> and the
  matching part of \<open>PayloadParams\<close> in \<open>format.rs\<close> of str0m. \<open>None\<close> is a panic where the code asserts.
\<close>

section \<open>Scores\<close>

definition differ :: "'a option \<Rightarrow> 'a option \<Rightarrow> bool" where
  "differ a b \<longleftrightarrow> (a \<noteq> None \<or> b \<noteq> None) \<and> a \<noteq> b"

definition match_opus_score :: "codec_spec \<Rightarrow> codec_spec \<Rightarrow> nat" where
  "match_opus_score c0 c1 =
     (let score = 100;
          score = (if differ (min_p_time (spec_format c0)) (min_p_time (spec_format c1)) then score - 1 else score);
          score = (if differ (use_inband_fec (spec_format c0)) (use_inband_fec (spec_format c1)) then score - 2 else score)
      in if differ (use_dtx (spec_format c0)) (use_dtx (spec_format c1)) then score - 4 else score)"

definition unwrap_or :: "'a \<Rightarrow> 'a option \<Rightarrow> 'a" where
  "unwrap_or d x = (case x of None \<Rightarrow> d | Some v \<Rightarrow> v)"

definition match_vp9_score :: "codec_spec \<Rightarrow> codec_spec \<Rightarrow> nat option" where
  "match_vp9_score c0 c1 =
     (if unwrap_or 0 (profile_id (spec_format c0)) \<noteq> unwrap_or 0 (profile_id (spec_format c1)) then None else Some 100)"

definition h264_profile_level :: "codec_spec \<Rightarrow> profile_level option" where
  "h264_profile_level c = (case profile_level_id (spec_format c) of None \<Rightarrow> Some FALLBACK | Some l \<Rightarrow> profile_level_of l)"

definition match_h264_score :: "codec_spec \<Rightarrow> codec_spec \<Rightarrow> nat option" where
  "match_h264_score c0 c1 =
     (if unwrap_or 0 (packetization_mode (spec_format c0)) \<noteq> unwrap_or 0 (packetization_mode (spec_format c1)) then None
      else do { l0 \<leftarrow> h264_profile_level c0; l1 \<leftarrow> h264_profile_level c1; if l0 \<noteq> l1 then None else Some 100 })"

definition match_score :: "payload_params \<Rightarrow> payload_params \<Rightarrow> nat option" where
  "match_score p q =
     (let c0 = pp_spec p; c1 = pp_spec q in
      if c0 = c1 then Some 100
      else if spec_codec c0 \<noteq> spec_codec c1 \<or> spec_codec c0 = Unknown \<and> spec_codec c1 = Unknown then None
      else if spec_clock c0 \<noteq> spec_clock c1 then None
      else if channels c0 \<noteq> channels c1 then None
      else if codec_is_audio (spec_codec c0) \<and> spec_codec c0 = Opus then Some (match_opus_score c0 c1)
      else if spec_codec c0 = H264 then match_h264_score c0 c1
      else if spec_codec c0 = Vp9 then match_vp9_score c0 c1
      else None)"

text \<open>\<open>Iterator::max_by_key\<close> gives the last of the greatest.\<close>

fun max_by_key :: "('a \<Rightarrow> 'k :: linorder) \<Rightarrow> 'a list \<Rightarrow> 'a option" where
  "max_by_key k [] = None"
| "max_by_key k (x # xs) = (case max_by_key k xs of None \<Rightarrow> Some x | Some y \<Rightarrow> Some (if k x \<le> k y then y else x))"

section \<open>Payload types that are taken\<close>

definition claim_once :: "bool list \<Rightarrow> u8 \<Rightarrow> bool list option" where
  "claim_once claimed pt = do { c \<leftarrow> idx claimed (unat pt); if c then None else put claimed (unat pt) True }"

definition is_claimed :: "bool list \<Rightarrow> u8 \<Rightarrow> bool option" where
  "is_claimed claimed pt = idx claimed (unat pt)"

definition PREFERED_RANGES :: "nat list" where
  "PREFERED_RANGES = [96..<128] @ [80..<96] @ [77..<79] @ [35..<72]"

definition find_unclaimed :: "bool list \<Rightarrow> u8 option" where
  "find_unclaimed claimed = map_option of_nat (find (\<lambda>i. \<not> claimed ! i) PREFERED_RANGES)"

section \<open>Negotiation\<close>

datatype direction = SendOnly | RecvOnly | SendRecv | Inactive

definition sdp_is_receiving :: "direction \<Rightarrow> bool" where
  "sdp_is_receiving d \<longleftrightarrow> d \<in> {RecvOnly, SendRecv, Inactive}"

definition claim_params :: "payload_params \<Rightarrow> bool list \<Rightarrow> bool list option" where
  "claim_params p claimed = do {
     claimed \<leftarrow> claim_once claimed (pp_pt p);
     case pp_resend p of None \<Rightarrow> Some claimed | Some rtx \<Rightarrow> claim_once claimed rtx }"

text \<open>The remote parameters that fit best; a locked entry only warns when they changed.\<close>

definition update_param :: "payload_params list \<Rightarrow> payload_params \<Rightarrow> bool list \<Rightarrow> (payload_params \<times> bool list) option" where
  "update_param remote_pts p claimed =
     (case max_by_key snd (List.map_filter (\<lambda>r. map_option (Pair r) (match_score p r)) remote_pts) of
        None \<Rightarrow> Some (p, claimed)
      | Some (first, _) \<Rightarrow>
          if pp_locked p then Some (p, claimed)
          else (let p = p\<lparr>pp_pt := pp_pt first, pp_resend := pp_resend first, pp_locked := True\<rparr> in
                map_option (Pair p) (claim_params p claimed)))"

definition new_pt :: "u8 \<Rightarrow> bool list \<Rightarrow> (u8 \<times> bool list) option" where
  "new_pt pt claimed = do {
     c \<leftarrow> is_claimed claimed pt;
     if c then do { pt \<leftarrow> find_unclaimed claimed; claimed \<leftarrow> claim_once claimed pt; Some (pt, claimed) }
     else Some (pt, claimed) }"

definition reassign :: "payload_params \<Rightarrow> bool list \<Rightarrow> (payload_params \<times> bool list) option" where
  "reassign p claimed =
     (if pp_locked p then Some (p, claimed)
      else do {
        (pt, claimed) \<leftarrow> new_pt (pp_pt p) claimed;
        let p = p\<lparr>pp_pt := pt\<rparr>;
        case pp_resend p of
          None \<Rightarrow> Some (p, claimed)
        | Some rtx \<Rightarrow> do { (rtx, claimed) \<leftarrow> new_pt rtx claimed; Some (p\<lparr>pp_resend := Some rtx\<rparr>, claimed) } })"

fun each :: "('a \<Rightarrow> 's \<Rightarrow> ('a \<times> 's) option) \<Rightarrow> 'a list \<Rightarrow> 's \<Rightarrow> ('a list \<times> 's) option" where
  "each f [] s = Some ([], s)"
| "each f (x # xs) s = do { (y, s) \<leftarrow> f x s; (ys, s) \<leftarrow> each f xs s; Some (y # ys, s) }"

definition claim_locked :: "payload_params \<Rightarrow> bool list \<Rightarrow> (payload_params \<times> bool list) option" where
  "claim_locked p claimed = (if \<not> pp_locked p then Some (p, claimed) else map_option (Pair p) (claim_params p claimed))"

definition update_params :: "payload_params list \<Rightarrow> payload_params list \<Rightarrow> payload_params list option" where
  "update_params params remote_params = do {
     (_, claimed) \<leftarrow> each claim_locked params (replicate 128 False);
     (params, claimed) \<leftarrow> each (update_param remote_params) params claimed;
     (params, _) \<leftarrow> each reassign params claimed;
     Some params }"

definition match_params :: "payload_params list \<Rightarrow> payload_params \<Rightarrow> payload_params option" where
  "match_params ours q = do { c \<leftarrow> max_by_key (\<lambda>p. match_score p q) ours; _ \<leftarrow> match_score c q; Some c }"

definition sdp_match_remote :: "payload_params list \<Rightarrow> payload_params \<Rightarrow> direction \<Rightarrow> u8 option" where
  "sdp_match_remote ours q remote_dir = do {
     our_params \<leftarrow> match_params ours q;
     Some (if sdp_is_receiving remote_dir then pp_pt q else pp_pt our_params) }"

definition has_pt :: "payload_params list \<Rightarrow> u8 \<Rightarrow> bool" where
  "has_pt ours pt \<longleftrightarrow> (\<exists>p\<in>set ours. pp_pt p = pt)"

section \<open>The default configuration\<close>

definition add_config :: "u8 \<Rightarrow> u8 option \<Rightarrow> codec \<Rightarrow> nat \<Rightarrow> u8 option \<Rightarrow> format_params \<Rightarrow> payload_params list \<Rightarrow> payload_params list" where
  "add_config pt resend c rate ch fmt params =
     params @ [payload_params_new pt resend \<lparr>spec_codec = c, spec_clock = rate, channels = ch, spec_format = fmt\<rparr>]"

definition without :: "codec \<Rightarrow> payload_params list \<Rightarrow> payload_params list" where
  "without c params = filter (\<lambda>p. spec_codec (pp_spec p) \<noteq> c) params"

definition add_h264 :: "u8 \<Rightarrow> u8 option \<Rightarrow> bool \<Rightarrow> u32 \<Rightarrow> payload_params list \<Rightarrow> payload_params list" where
  "add_h264 pt resend mode level_id = add_config pt resend H264 90000 None
     (no_format\<lparr>level_asymmetry_allowed := Some True, packetization_mode := Some (if mode then 1 else 0), profile_level_id := Some level_id\<rparr>)"

definition enable_opus :: "bool \<Rightarrow> payload_params list \<Rightarrow> payload_params list" where
  "enable_opus enabled params =
     (if \<not> enabled then without Opus params
      else add_config 111 None Opus 48000 (Some 2) (no_format\<lparr>min_p_time := Some 10, use_inband_fec := Some True\<rparr>) (without Opus params))"

definition enable_vp8 :: "bool \<Rightarrow> payload_params list \<Rightarrow> payload_params list" where
  "enable_vp8 enabled params =
     (if \<not> enabled then without Vp8 params else add_config 96 (Some 97) Vp8 90000 None no_format (without Vp8 params))"

definition H264_PARAMS :: "(u8 \<times> u8 \<times> bool \<times> u32) list" where
  "H264_PARAMS = [(127, 121, True, 0x42001f), (125, 107, False, 0x42001f), (108, 109, True, 0x42e01f), (124, 120, False, 0x42e01f),
     (123, 119, True, 0x4d001f), (35, 36, False, 0x4d001f), (114, 115, True, 0x64001f)]"

definition enable_h264 :: "bool \<Rightarrow> payload_params list \<Rightarrow> payload_params list" where
  "enable_h264 enabled params =
     (if \<not> enabled then without H264 params
      else fold (\<lambda>(pt, rtx, mode, level_id). add_h264 pt (Some rtx) mode level_id) H264_PARAMS (without H264 params))"

definition enable_vp9 :: "bool \<Rightarrow> payload_params list \<Rightarrow> payload_params list" where
  "enable_vp9 enabled params =
     (if \<not> enabled then without Vp9 params
      else add_config 100 (Some 101) Vp9 90000 None (no_format\<lparr>profile_id := Some 2\<rparr>)
             (add_config 98 (Some 99) Vp9 90000 None (no_format\<lparr>profile_id := Some 0\<rparr>) (without Vp9 params)))"

definition new_with_defaults :: "payload_params list" where
  "new_with_defaults = enable_vp9 True (enable_h264 True (enable_vp8 True (enable_opus True [])))"

section \<open>Scores do not depend on the side\<close>

lemma differ_commute: "differ a b = differ b a"
  by (auto simp: differ_def)

text \<open>Matching is symmetric: two sides that compare their parameters come to the same score.\<close>

theorem match_score_symmetric: "match_score p q = match_score q p"
proof -
  have o: "match_opus_score c d = match_opus_score d c" for c d
    unfolding match_opus_score_def
    using differ_commute [of "min_p_time (spec_format c)" "min_p_time (spec_format d)"]
      differ_commute [of "use_inband_fec (spec_format c)" "use_inband_fec (spec_format d)"]
      differ_commute [of "use_dtx (spec_format c)" "use_dtx (spec_format d)"] by simp
  have h: "match_h264_score c d = match_h264_score d c" for c d
    unfolding match_h264_score_def by (cases "h264_profile_level c"; cases "h264_profile_level d") auto
  have v: "match_vp9_score c d = match_vp9_score d c" for c d
    unfolding match_vp9_score_def by auto
  show ?thesis
    unfolding match_score_def Let_def using o [of "pp_spec p" "pp_spec q"] h [of "pp_spec p" "pp_spec q"] v [of "pp_spec p" "pp_spec q"]
    by auto
qed

lemma max_by_key_None [simp]: "max_by_key k xs = None \<longleftrightarrow> xs = []"
  by (cases xs) (auto split: option.splits)

lemma max_by_key_mem: "max_by_key k xs = Some x \<Longrightarrow> x \<in> set xs \<and> (\<forall>y\<in>set xs. k y \<le> k x)"
proof (induction xs arbitrary: x)
  case (Cons a xs)
  show ?case
  proof (cases "max_by_key k xs")
    case None
    then show ?thesis using Cons.prems by simp
  next
    case (Some y)
    note IH = Cons.IH [OF Some]
    have x: "x = (if k a \<le> k y then y else a)" using Cons.prems Some by simp
    show ?thesis
    proof (cases "k a \<le> k y")
      case True
      then show ?thesis using IH x by simp
    next
      case False
      then have "\<forall>z\<in>set xs. k z \<le> k a" using IH by (meson le_cases order_trans)
      then show ?thesis using x False by simp
    qed
  qed
qed simp

text \<open>
  The payload type chosen for remote parameters is the remote one when the remote side receives, and else that of
  an own entry that matches them at least as well as every other; there is one exactly when some own entry matches.
\<close>

theorem sdp_match_remote_best:
  "(sdp_match_remote ours q dir = None \<longleftrightarrow> (\<forall>p\<in>set ours. match_score p q = None))
   \<and> (\<forall>pt. sdp_match_remote ours q dir = Some pt \<and> \<not> sdp_is_receiving dir \<longrightarrow>
        (\<exists>p\<in>set ours. pp_pt p = pt \<and> match_score p q \<noteq> None \<and> (\<forall>p'\<in>set ours. match_score p' q \<le> match_score p q)))
   \<and> (\<forall>pt. sdp_match_remote ours q dir = Some pt \<and> sdp_is_receiving dir \<longrightarrow> pt = pp_pt q)"
proof (cases "max_by_key (\<lambda>p. match_score p q) ours")
  case None
  then show ?thesis by (simp add: sdp_match_remote_def match_params_def)
next
  case (Some c)
  note m = max_by_key_mem [OF Some]
  show ?thesis
  proof (cases "match_score c q")
    case None
    then have "\<forall>p\<in>set ours. match_score p q = None" using m by (metis less_eq_option_None_is_None)
    then show ?thesis using None Some by (simp add: sdp_match_remote_def match_params_def)
  next
    case Some': (Some s)
    have "sdp_match_remote ours q dir = Some (if sdp_is_receiving dir then pp_pt q else pp_pt c)"
      by (simp add: sdp_match_remote_def match_params_def Some Some')
    moreover have "\<exists>p\<in>set ours. match_score p q \<noteq> None" using m Some' by auto
    ultimately show ?thesis using m Some' by fastforce
  qed
qed

section \<open>Payload types after a negotiation\<close>

definition pts :: "payload_params \<Rightarrow> u8 list" where
  "pts p = pp_pt p # (case pp_resend p of None \<Rightarrow> [] | Some r \<Rightarrow> [r])"

definition locked_pts :: "payload_params list \<Rightarrow> u8 list" where
  "locked_pts ps = concat (map pts (filter pp_locked ps))"

definition claims :: "bool list \<Rightarrow> u8 set" where
  "claims c = {pt. unat pt < length c \<and> c ! unat pt}"

lemma locked_pts_simps [simp]:
  "locked_pts [] = []" "locked_pts (p # ps) = (if pp_locked p then pts p else []) @ locked_pts ps"
  by (simp_all add: locked_pts_def)

lemma claim_once_claims: "claim_once c pt = Some c' \<Longrightarrow> pt \<notin> claims c \<and> claims c' = insert pt (claims c)"
  by (auto simp: claim_once_def claims_def idx_def put_def nth_list_update word_unat_eq_iff split: if_splits bind_splits)

lemma claim_params_claims:
  "claim_params p c = Some c' \<Longrightarrow> distinct (pts p) \<and> set (pts p) \<inter> claims c = {} \<and> claims c' = claims c \<union> set (pts p)"
  by (cases "pp_resend p") (auto simp: claim_params_def pts_def dest!: claim_once_claims split: bind_splits)

lemma claim_locked_claims:
  "each claim_locked ps c = Some (ps', c') \<Longrightarrow> ps' = ps \<and> distinct (locked_pts ps) \<and> claims c' = claims c \<union> set (locked_pts ps)
     \<and> set (locked_pts ps) \<inter> claims c = {}"
proof (induction ps arbitrary: c ps' c')
  case (Cons p ps)
  obtain c1 q qs where c1: "claim_locked p c = Some (q, c1)" "each claim_locked ps c1 = Some (qs, c')" "ps' = q # qs"
    using Cons.prems by (auto split: bind_splits)
  have "q = p \<and> (if pp_locked p then distinct (pts p) \<and> set (pts p) \<inter> claims c = {} \<and> claims c1 = claims c \<union> set (pts p) else c1 = c)"
    using c1(1) claim_params_claims by (auto simp: claim_locked_def split: if_splits)
  then show ?case using Cons.IH [OF c1(2)] c1(3) by (auto split: if_splits)
qed simp

text \<open>What one step of the second pass does.\<close>

definition matched :: "payload_params list \<Rightarrow> payload_params \<Rightarrow> payload_params \<Rightarrow> bool" where
  "matched remote p p' \<longleftrightarrow> pp_spec p' = pp_spec p
     \<and> (if pp_locked p \<or> (\<forall>r\<in>set remote. match_score p r = None) then p' = p
        else pp_locked p' \<and> (\<exists>r\<in>set remote. match_score p r \<noteq> None \<and> (\<forall>r'\<in>set remote. match_score p r' \<le> match_score p r)
               \<and> pp_pt p' = pp_pt r \<and> pp_resend p' = pp_resend r))"

lemma map_filter_score:
  "set (List.map_filter (\<lambda>r. map_option (Pair r) (match_score p r)) rs) = {(r, s). r \<in> set rs \<and> match_score p r = Some s}"
  by (induction rs) (auto simp: List.map_filter_simps split: option.splits)

lemma update_param_claims:
  assumes "update_param rs p c = Some (p', c')"
  shows "matched rs p p'
    \<and> (if pp_locked p \<or> \<not> pp_locked p' then p' = p \<and> c' = c
       else distinct (pts p') \<and> set (pts p') \<inter> claims c = {} \<and> claims c' = claims c \<union> set (pts p'))"
proof -
  let ?l = "List.map_filter (\<lambda>r. map_option (Pair r) (match_score p r)) rs"
  show ?thesis
  proof (cases "max_by_key snd ?l")
    case None
    then have "\<forall>r\<in>set rs. match_score p r = None" using map_filter_score [of p rs] by (auto split: option.splits)
    then show ?thesis using assms None by (auto simp: update_param_def matched_def)
  next
    case (Some rs1)
    then obtain r s where r: "max_by_key snd ?l = Some (r, s)" by (cases rs1) auto
    have best: "r \<in> set rs" "match_score p r = Some s" "\<forall>r'\<in>set rs. match_score p r' \<le> match_score p r"
    proof -
      show 1: "r \<in> set rs" "match_score p r = Some s" using max_by_key_mem [OF r] unfolding map_filter_score by auto
      show "\<forall>r'\<in>set rs. match_score p r' \<le> match_score p r"
      proof
        fix r' assume r': "r' \<in> set rs"
        show "match_score p r' \<le> match_score p r"
          using max_by_key_mem [OF r] r' 1 unfolding map_filter_score by (cases "match_score p r'") force+
      qed
    qed
    show ?thesis
    proof (cases "pp_locked p")
      case True
      then show ?thesis using assms r by (auto simp: update_param_def matched_def)
    next
      case False
      let ?p = "p\<lparr>pp_pt := pp_pt r, pp_resend := pp_resend r, pp_locked := True\<rparr>"
      have "claim_params ?p c = Some c'" "p' = ?p" using assms r False by (auto simp: update_param_def Let_def)
      moreover have "matched rs p ?p" using best False by (auto simp: matched_def)
      ultimately show ?thesis using claim_params_claims [of ?p c c'] False by (auto simp: pts_def)
    qed
  qed
qed


lemma update_pass:
  "each (update_param rs) ps c = Some (ps', c') \<Longrightarrow> set (locked_pts ps) \<subseteq> claims c \<Longrightarrow> distinct (locked_pts ps) \<Longrightarrow>
     distinct (locked_pts ps') \<and> claims c \<union> set (locked_pts ps') \<subseteq> claims c' \<and> set (locked_pts ps') \<subseteq> set (locked_pts ps) \<union> - claims c
     \<and> list_all2 (matched rs) ps ps'"
proof (induction ps arbitrary: c ps' c')
  case (Cons p ps)
  obtain q c1 qs where q: "update_param rs p c = Some (q, c1)" "each (update_param rs) ps c1 = Some (qs, c')" "ps' = q # qs"
    using Cons.prems(1) by (auto split: bind_splits)
  note u = update_param_claims [OF q(1)]
  have sub: "claims c \<subseteq> claims c1" using u by (auto split: if_splits)
  then have "set (locked_pts ps) \<subseteq> claims c1" "distinct (locked_pts ps)" using Cons.prems(2,3) by (auto split: if_splits)
  note IH = Cons.IH [OF q(2) this]
  show ?case
  proof (cases "pp_locked p \<or> \<not> pp_locked q")
    case True
    then have "q = p" "c1 = c" using u by auto
    then show ?thesis using IH u Cons.prems(2,3) by (auto simp: q(3) split: if_splits)
  next
    case False
    then have n: "pp_locked q" "\<not> pp_locked p" "distinct (pts q)" "set (pts q) \<inter> claims c = {}" "claims c1 = claims c \<union> set (pts q)"
      using u by auto
    have i: "distinct (locked_pts qs)" "claims c1 \<union> set (locked_pts qs) \<subseteq> claims c'"
      "set (locked_pts qs) \<subseteq> set (locked_pts ps) \<union> - claims c1" "list_all2 (matched rs) ps qs" using IH by auto
    have l: "locked_pts ps' = pts q @ locked_pts qs" "locked_pts (p # ps) = locked_pts ps" using n(1,2) by (simp_all add: q(3))
    have "set (pts q) \<inter> set (locked_pts qs) = {}" using i(3) n(4,5) Cons.prems(2) unfolding l by blast
    moreover have "claims c \<union> set (pts q @ locked_pts qs) \<subseteq> claims c'" using i(2) n(5) by auto
    moreover have "set (pts q @ locked_pts qs) \<subseteq> set (locked_pts ps) \<union> - claims c" using i(3) n(4,5) by auto
    ultimately show ?thesis unfolding l using i(1,4) n(3) u by (simp add: q(3))
  qed
qed simp

lemma new_pt_claims: "new_pt pt c = Some (pt', c') \<Longrightarrow> pt' \<notin> claims c \<and> claims c \<subseteq> claims c'"
  by (auto simp: new_pt_def is_claimed_def claims_def idx_def dest!: claim_once_claims split: bind_splits if_splits)

definition same_but_pts :: "payload_params \<Rightarrow> payload_params \<Rightarrow> bool" where
  "same_but_pts p p' \<longleftrightarrow> pp_spec p' = pp_spec p \<and> pp_locked p' = pp_locked p \<and> (pp_locked p \<longrightarrow> p' = p)"

lemma reassign_claims:
  "reassign p c = Some (p', c') \<Longrightarrow> same_but_pts p p' \<and> claims c \<subseteq> claims c' \<and> (\<not> pp_locked p \<longrightarrow> set (pts p') \<inter> claims c = {})"
  by (auto simp: reassign_def same_but_pts_def pts_def Let_def dest!: new_pt_claims split: bind_splits if_splits option.splits) blast+

lemma reassign_pass:
  "each reassign ps c = Some (ps', c') \<Longrightarrow> L \<subseteq> claims c \<Longrightarrow>
     list_all2 same_but_pts ps ps' \<and> (\<forall>p\<in>set ps'. \<not> pp_locked p \<longrightarrow> set (pts p) \<inter> L = {})"
proof (induction ps arbitrary: c ps')
  case (Cons p ps)
  obtain q c1 qs where q: "reassign p c = Some (q, c1)" "each reassign ps c1 = Some (qs, c')" "ps' = q # qs"
    using Cons.prems(1) by (auto split: bind_splits)
  note r = reassign_claims [OF q(1)]
  have "L \<subseteq> claims c1" using r Cons.prems(2) by auto
  note IH = Cons.IH [OF q(2) this]
  then show ?case using r Cons.prems(2) by (auto simp: q(3) same_but_pts_def)
qed simp

lemma same_but_pts_locked: "list_all2 same_but_pts ps ps' \<Longrightarrow> locked_pts ps' = locked_pts ps"
  by (induction rule: list_all2_induct) (auto simp: same_but_pts_def)

lemma matched_then_moved: "matched rs p q \<Longrightarrow> same_but_pts q r \<Longrightarrow> pp_spec r = pp_spec p
    \<and> (pp_locked r \<longleftrightarrow> pp_locked p \<or> (\<exists>x\<in>set rs. match_score p x \<noteq> None)) \<and> (pp_locked p \<longrightarrow> r = p)
    \<and> (pp_locked r \<and> \<not> pp_locked p \<longrightarrow> (\<exists>x\<in>set rs. match_score p x \<noteq> None \<and> (\<forall>y\<in>set rs. match_score p y \<le> match_score p x)
         \<and> pp_pt r = pp_pt x \<and> pp_resend r = pp_resend x))"
  unfolding matched_def same_but_pts_def by (cases "pp_locked p \<or> (\<forall>r\<in>set rs. match_score p r = None)") auto

text \<open>C27. After a negotiation that does not panic the payload types that are settled, those of resends included, are all
  different, and no open entry uses one of them. An entry is settled exactly when it was or when some remote
  parameters match it, it then has the payload types of those that match best, and settled entries do not change.
\<close>

theorem update_params_settles:
  assumes "update_params ps rs = Some ps'"
  shows "distinct (locked_pts ps') \<and> (\<forall>p\<in>set ps'. \<not> pp_locked p \<longrightarrow> set (pts p) \<inter> set (locked_pts ps') = {})
    \<and> list_all2 (\<lambda>p p'. pp_spec p' = pp_spec p \<and> (pp_locked p' \<longleftrightarrow> pp_locked p \<or> (\<exists>r\<in>set rs. match_score p r \<noteq> None))
         \<and> (pp_locked p \<longrightarrow> p' = p)
         \<and> (pp_locked p' \<and> \<not> pp_locked p \<longrightarrow> (\<exists>r\<in>set rs. match_score p r \<noteq> None \<and> (\<forall>r'\<in>set rs. match_score p r' \<le> match_score p r)
              \<and> pp_pt p' = pp_pt r \<and> pp_resend p' = pp_resend r))) ps ps'"
proof -
  obtain ps0 c0 ps1 c1 c2 where u: "each claim_locked ps (replicate 128 False) = Some (ps0, c0)"
      "each (update_param rs) ps c0 = Some (ps1, c1)" "each reassign ps1 c1 = Some (ps', c2)"
    using assms by (auto simp: update_params_def split: bind_splits)
  note a = claim_locked_claims [OF u(1)]
  have b: "distinct (locked_pts ps1)" "set (locked_pts ps1) \<subseteq> claims c1" "list_all2 (matched rs) ps ps1"
    using update_pass [OF u(2)] a by auto
  note r = reassign_pass [OF u(3) b(2)]
  have l: "locked_pts ps' = locked_pts ps1" using same_but_pts_locked r by blast
  show ?thesis
    unfolding l
  proof (intro conjI)
    show "list_all2 (\<lambda>p p'. pp_spec p' = pp_spec p \<and> (pp_locked p' \<longleftrightarrow> pp_locked p \<or> (\<exists>r\<in>set rs. match_score p r \<noteq> None))
         \<and> (pp_locked p \<longrightarrow> p' = p)
         \<and> (pp_locked p' \<and> \<not> pp_locked p \<longrightarrow> (\<exists>r\<in>set rs. match_score p r \<noteq> None \<and> (\<forall>r'\<in>set rs. match_score p r' \<le> match_score p r)
              \<and> pp_pt p' = pp_pt r \<and> pp_resend p' = pp_resend r))) ps ps'"
      by (rule list_all2_trans [OF _ b(3) conjunct1 [OF r]]) (erule (1) matched_then_moved)
  qed (use b(1) r in auto)
qed

definition h264_at :: "u8 \<Rightarrow> payload_params" where
  "h264_at pt = hd (add_h264 pt None True 0x42001f [])"

definition vp8_at :: "u8 \<Rightarrow> payload_params" where
  "vp8_at pt = hd (add_config pt None Vp8 90000 None no_format [])"

definition vp9_at :: "u8 \<Rightarrow> payload_params" where
  "vp9_at pt = hd (add_config pt None Vp9 90000 None (no_format\<lparr>profile_id := Some 0\<rparr>) [])"

lemmas config_defs = add_config_def add_h264_def no_format_def payload_params_new_def codec_is_video_def codec_is_audio_def
  h264_at_def vp8_at_def vp9_at_def

lemmas pass_defs = update_params_def claim_locked_def update_param_def reassign_def new_pt_def is_claimed_def claim_params_def
  claim_once_def idx_def put_def

lemma first_choice: "\<not> c ! 96 \<Longrightarrow> find_unclaimed c = Some 96"
  by (simp add: find_unclaimed_def PREFERED_RANGES_def upt_conv_Cons)

lemma some_scores:
  "match_score (vp8_at a) (vp8_at b) = Some 100" "match_score (vp9_at a) (vp9_at b) = Some 100" "match_score (h264_at a) (h264_at b) = Some 100"
  "match_score (vp8_at a) (h264_at b) = None" "match_score (vp9_at a) (h264_at b) = None"
  "match_score (vp8_at a) (vp9_at b) = None" "match_score (vp9_at a) (vp8_at b) = None"
  by (simp_all add: match_score_def config_defs)

lemma some_entries [simp]:
  "pp_pt (vp8_at a) = a" "pp_pt (vp9_at a) = a" "pp_pt (h264_at a) = a"
  "pp_resend (vp8_at a) = None" "pp_resend (vp9_at a) = None" "pp_resend (h264_at a) = None"
  "\<not> pp_locked (vp8_at a)" "\<not> pp_locked (vp9_at a)" "\<not> pp_locked (h264_at a)"
  "(vp8_at a)\<lparr>pp_pt := b\<rparr> = vp8_at b" "(vp9_at a)\<lparr>pp_pt := b\<rparr> = vp9_at b" "(h264_at a)\<lparr>pp_pt := b\<rparr> = h264_at b"
  by (simp_all add: config_defs)

text \<open>
  Two open entries can end up with one payload type: of the default VP8 (96), H.264 (127) and VP9 (98), when the
  remote side has H.264 as 98, VP8 keeps 96, which nobody has claimed, and VP9 is moved to the first free type, 96.
\<close>

theorem reassigned_onto_another:
  "update_params [vp8_at 96, h264_at 127, vp9_at 98] [h264_at 98]
     = Some [vp8_at 96, (h264_at 98)\<lparr>pp_resend := None, pp_locked := True\<rparr>, vp9_at 96]"
  by (simp add: pass_defs List.map_filter_simps some_scores first_choice Let_def)

text \<open>
  Remote parameters with one payload type for two codecs, or with a payload type of eight bits, panic the
  negotiation.
\<close>

theorem remote_payload_types_panic:
  "update_params [vp8_at 96, vp9_at 98] [vp8_at 100, vp9_at 100] = None
   \<and> update_params [vp8_at 96] [vp8_at 200] = None"
  by (simp add: pass_defs List.map_filter_simps some_scores Let_def)

lemma update_params_settles_witness:
  "distinct (locked_pts [vp8_at 96, (h264_at 98)\<lparr>pp_resend := None, pp_locked := True\<rparr>, vp9_at 96])"
  using update_params_settles [of "[vp8_at 96, h264_at 127, vp9_at 98]" "[h264_at 98]"
    "[vp8_at 96, (h264_at 98)\<lparr>pp_resend := None, pp_locked := True\<rparr>, vp9_at 96]"]
  by (simp add: pass_defs List.map_filter_simps some_scores first_choice Let_def)

lemma sdp_match_remote_best_witness: "sdp_match_remote [vp8_at 96] (vp8_at 100) SendRecv = Some 100"
  using sdp_match_remote_best [of "[vp8_at 96]" "vp8_at 100" SendRecv] by (auto simp: some_scores sdp_is_receiving_def)

end
