(* ===== verification/FormatText.thy ===== *)
theory FormatText imports Formats Text begin

text \<open>
  Format parameters as text: \<open>FormatParams::parse_line\<close> and its display in \<open>format.rs\<close>, and \<open>FormatParam\<close> of
  \<open>sdp/data.rs\<close>. Of the white space that \<open>trim\<close> removes only that of ASCII is modelled.
\<close>

section \<open>Hexadecimal numbers\<close>

definition hex_char :: "nat \<Rightarrow> char" where
  "hex_char d = (if d < 10 then char_of (48 + d) else char_of (87 + d))"

definition hex_digit :: "char \<Rightarrow> nat option" where
  "hex_digit c = (let k = (of_char c :: nat) in
     if 48 \<le> k \<and> k \<le> 57 then Some (k - 48) else if 97 \<le> k \<and> k \<le> 102 then Some (k - 87)
     else if 65 \<le> k \<and> k \<le> 70 then Some (k - 55) else None)"

fun hex :: "nat \<Rightarrow> string" where
  "hex n = (if n < 16 then [hex_char n] else hex (n div 16) @ [hex_char (n mod 16)])"

declare hex.simps [simp del]

fun hex_value :: "nat \<Rightarrow> string \<Rightarrow> nat option" where
  "hex_value acc [] = Some acc"
| "hex_value acc (c # cs) = (case hex_digit c of None \<Rightarrow> None | Some d \<Rightarrow> hex_value (acc * 16 + d) cs)"

definition parse_hex_u32 :: "string \<Rightarrow> u32 option" where
  "parse_hex_u32 s =
     (let t = (case s of c # cs \<Rightarrow> if c = CHR ''+'' then cs else s | [] \<Rightarrow> s)
      in if t = [] then None
         else (case hex_value 0 t of None \<Rightarrow> None | Some n \<Rightarrow> if n < 2 ^ 32 then Some (of_nat n) else None))"

text \<open>\<open>{:06x}\<close>\<close>

definition hex6 :: "nat \<Rightarrow> string" where
  "hex6 n = replicate (6 - length (hex n)) (CHR ''0'') @ hex n"

definition parse_u8 :: "string \<Rightarrow> u8 option" where
  "parse_u8 s = (case parse_u32 s of None \<Rightarrow> None | Some v \<Rightarrow> if v < 256 then Some (ucast v) else None)"

section \<open>One parameter\<close>

datatype format_param = MinPTime u8 | UseInbandFec bool | UseDtx bool | LevelAsymmetryAllowed bool | PacketizationMode u8
  | ProfileLevelId u32 | ProfileId u32 | Apt u8 | UnknownParam

definition known :: "('a \<Rightarrow> format_param) \<Rightarrow> 'a option \<Rightarrow> format_param" where
  "known f x = (case x of None \<Rightarrow> UnknownParam | Some v \<Rightarrow> f v)"

definition param_parse :: "string \<Rightarrow> string \<Rightarrow> format_param" where
  "param_parse k v =
     (if k = ''minptime'' then known MinPTime (parse_u8 v)
      else if k = ''useinbandfec'' then UseInbandFec (v = ''1'')
      else if k = ''usedtx'' then UseDtx (v = ''1'')
      else if k = ''level-asymmetry-allowed'' then LevelAsymmetryAllowed (v = ''1'')
      else if k = ''packetization-mode'' then known PacketizationMode (parse_u8 v)
      else if k = ''profile-level-id'' then known ProfileLevelId (case parse_hex_u32 v of Some n \<Rightarrow> Some n | None \<Rightarrow> parse_u32 v)
      else if k = ''profile-id'' then known ProfileId (parse_u32 v)
      else if k = ''apt'' then known Apt (parse_u8 v)
      else UnknownParam)"

definition bit_text :: "bool \<Rightarrow> string" where
  "bit_text b = (if b then ''1'' else ''0'')"

definition param_show :: "format_param \<Rightarrow> string" where
  "param_show p =
     (case p of
        MinPTime v \<Rightarrow> ''minptime='' @ decimal (unat v)
      | UseInbandFec v \<Rightarrow> ''useinbandfec='' @ bit_text v
      | UseDtx v \<Rightarrow> ''usedtx='' @ bit_text v
      | LevelAsymmetryAllowed v \<Rightarrow> ''level-asymmetry-allowed='' @ bit_text v
      | PacketizationMode v \<Rightarrow> ''packetization-mode='' @ decimal (unat v)
      | ProfileLevelId v \<Rightarrow> ''profile-level-id='' @ hex6 (unat v)
      | ProfileId v \<Rightarrow> ''profile-id='' @ decimal (unat v)
      | Apt v \<Rightarrow> ''apt='' @ decimal (unat v)
      | UnknownParam \<Rightarrow> [])"

section \<open>A line\<close>

definition white :: "char \<Rightarrow> bool" where
  "white c \<longleftrightarrow> c \<in> {CHR '' '', CHR 0x09, CHR 0x0A, CHR 0x0B, CHR 0x0C, CHR 0x0D}"

definition trim :: "string \<Rightarrow> string" where
  "trim s = rev (dropWhile white (rev (dropWhile white s)))"

definition key_val :: "string \<Rightarrow> (string \<times> string) option" where
  "key_val pair = (case split_on CHR ''='' pair of k # v # _ \<Rightarrow> Some (trim k, trim v) | _ \<Rightarrow> None)"

definition set_param :: "format_param \<Rightarrow> format_params \<Rightarrow> format_params" where
  "set_param p fp =
     (case p of
        MinPTime v \<Rightarrow> fp\<lparr>min_p_time := Some v\<rparr>
      | UseInbandFec v \<Rightarrow> fp\<lparr>use_inband_fec := Some v\<rparr>
      | UseDtx v \<Rightarrow> fp\<lparr>use_dtx := Some v\<rparr>
      | LevelAsymmetryAllowed v \<Rightarrow> fp\<lparr>level_asymmetry_allowed := Some v\<rparr>
      | PacketizationMode v \<Rightarrow> fp\<lparr>packetization_mode := Some v\<rparr>
      | ProfileLevelId v \<Rightarrow> fp\<lparr>profile_level_id := Some v\<rparr>
      | ProfileId v \<Rightarrow> fp\<lparr>profile_id := Some v\<rparr>
      | Apt v \<Rightarrow> fp
      | UnknownParam \<Rightarrow> fp)"

definition parse_line :: "string \<Rightarrow> format_params" where
  "parse_line line = fold (\<lambda>(k, v). set_param (param_parse k v)) (List.map_filter key_val (split_on CHR '';'' line)) no_format"

definition opt :: "('a \<Rightarrow> format_param) \<Rightarrow> 'a option \<Rightarrow> format_param list" where
  "opt f x = (case x of None \<Rightarrow> [] | Some v \<Rightarrow> [f v])"

definition to_format_param :: "format_params \<Rightarrow> format_param list" where
  "to_format_param fp = opt MinPTime (min_p_time fp) @ opt UseInbandFec (use_inband_fec fp) @ opt UseDtx (use_dtx fp)
     @ opt LevelAsymmetryAllowed (level_asymmetry_allowed fp) @ opt PacketizationMode (packetization_mode fp)
     @ opt ProfileLevelId (profile_level_id fp) @ opt ProfileId (profile_id fp)"

fun join_with :: "string \<Rightarrow> string list \<Rightarrow> string" where
  "join_with sep [] = []"
| "join_with sep [x] = x"
| "join_with sep (x # xs) = x @ sep @ join_with sep xs"

definition format_show :: "format_params \<Rightarrow> string" where
  "format_show fp = join_with '';'' (map param_show (to_format_param fp))"

section \<open>Numbers there and back\<close>

lemma hex_digit_char: "d < 16 \<Longrightarrow> hex_digit (hex_char d) = Some d"
  by (auto simp: hex_digit_def hex_char_def of_char_of Let_def)

lemma hex_value_append:
  "hex_value acc (xs @ ys) = (case hex_value acc xs of None \<Rightarrow> None | Some a \<Rightarrow> hex_value a ys)"
  by (induction xs arbitrary: acc) (auto split: option.splits)

lemma hex_value_hex: "hex_value 0 (hex n) = Some n"
proof (induction n rule: hex.induct)
  case (1 n)
  then show ?case by (subst hex.simps) (auto simp: hex_value_append hex_digit_char)
qed

lemma hex_nonempty [simp]: "hex n \<noteq> []"
  by (subst hex.simps) simp

lemma hex_value_zeros: "hex_value 0 (replicate k (CHR ''0'') @ s) = hex_value 0 s"
  by (induction k) (auto simp: hex_digit_def)

lemma hex6_value: "hex_value 0 (hex6 n) = Some n"
  by (simp add: hex6_def hex_value_zeros hex_value_hex)

lemma hex_value_chars: "hex_value a s = Some n \<Longrightarrow> c \<in> set s \<Longrightarrow> hex_digit c \<noteq> None"
  by (induction s arbitrary: a) (auto split: option.splits)

lemma hex6_chars: "c \<in> set (hex6 n) \<Longrightarrow> hex_digit c \<noteq> None"
  using hex_value_chars [OF hex6_value] .

lemma parse_hex6 [simp]: "parse_hex_u32 (hex6 (unat x)) = Some x"
proof -
  obtain c cs where h: "hex6 (unat x) = c # cs" by (cases "hex6 (unat x)") (auto simp: hex6_def)
  then have "c \<noteq> CHR ''+''" using hex6_chars [of c "unat x"] by (auto simp: hex_digit_def)
  moreover have "unat x < 2 ^ 32" using unsigned_less [of x] by simp
  ultimately show ?thesis using hex6_value [of "unat x"] by (simp add: parse_hex_u32_def h)
qed

lemma parse_u8_decimal [simp]: "parse_u8 (decimal (unat x)) = Some x" for x :: u8
proof -
  have "unat x < 256" using unsigned_less [of x] by simp
  then have u: "unat x = unat (ucast x :: u32)" by (simp add: unsigned_ucast_eq take_bit_nat_eq_self)
  have "(ucast x :: u32) < 256" unfolding word_less_nat_alt u [symmetric] using unsigned_less [of x] by simp
  moreover have "ucast (ucast x :: u32) = x" by (rule bit_word_eqI) (simp add: bit_simps)
  ultimately show ?thesis unfolding parse_u8_def u parse_u32_decimal by simp
qed

section \<open>Lines there and back\<close>

definition plain :: "string \<Rightarrow> bool" where
  "plain s \<longleftrightarrow> (\<forall>c\<in>set s. c \<noteq> CHR '';'' \<and> c \<noteq> CHR ''='' \<and> \<not> white c)"

lemma plain_append [simp]: "plain (s @ t) \<longleftrightarrow> plain s \<and> plain t" and plain_Nil [simp]: "plain []"
  by (auto simp: plain_def)

lemma plain_decimal [simp]: "plain (decimal n)"
  using decimal_chars [of _ n] by (fastforce simp: plain_def white_def char_digit_def)

lemma plain_hex6 [simp]: "plain (hex6 n)"
  using hex6_chars [of _ n] by (fastforce simp: plain_def white_def hex_digit_def)

lemma plain_bit_text [simp]: "plain (bit_text b)"
  by (simp add: bit_text_def plain_def white_def)

lemma trim_plain [simp]: "plain s \<Longrightarrow> trim s = s"
proof -
  assume s: "plain s"
  have w: "\<not> white c" if "c \<in> set s" for c using s that unfolding plain_def by blast
  have "dropWhile white s = s" "dropWhile white (rev s) = rev s"
    unfolding dropWhile_eq_self_iff using w [of "hd s"] w [of "hd (rev s)"] hd_in_set [of s] hd_in_set [of "rev s"] by auto
  then show ?thesis by (simp add: trim_def)
qed

lemma key_val_shown: "plain k \<Longrightarrow> plain v \<Longrightarrow> key_val (k @ ''='' @ v) = Some (k, v)"
proof -
  assume kv: "plain k" "plain v"
  then have n: "CHR ''='' \<notin> set k" "CHR ''='' \<notin> set v" unfolding plain_def by blast+
  have "split_on CHR ''='' (k @ CHR ''='' # v) = [k, v]" unfolding split_on_sep [OF n(1)] split_on_plain [OF n(2)] ..
  then show ?thesis using kv by (simp add: key_val_def)
qed

text \<open>The keys are plain, and what is shown is read back.\<close>

lemma plain_keys:
  "plain ''minptime''" "plain ''useinbandfec''" "plain ''usedtx''" "plain ''level-asymmetry-allowed''" "plain ''packetization-mode''"
  "plain ''profile-level-id''" "plain ''profile-id''"
  by (simp_all add: plain_def white_def)

lemma bit_text_one: "(bit_text b = ''1'') = b"
  by (simp add: bit_text_def)

lemma shown_read:
  assumes "p \<noteq> UnknownParam" "\<And>v. p \<noteq> Apt v"
  obtains k v where "param_show p = k @ ''='' @ v" "plain k" "plain v" "param_parse k v = p"
proof (cases p)
  case (MinPTime v)
  show ?thesis by (rule that [of "''minptime''" "decimal (unat v)"]) (simp_all add: MinPTime param_show_def param_parse_def known_def plain_keys)
next
  case (UseInbandFec v)
  show ?thesis by (rule that [of "''useinbandfec''" "bit_text v"]) (simp_all add: UseInbandFec param_show_def param_parse_def bit_text_one plain_keys)
next
  case (UseDtx v)
  show ?thesis by (rule that [of "''usedtx''" "bit_text v"]) (simp_all add: UseDtx param_show_def param_parse_def bit_text_one plain_keys)
next
  case (LevelAsymmetryAllowed v)
  show ?thesis by (rule that [of "''level-asymmetry-allowed''" "bit_text v"])
      (simp_all add: LevelAsymmetryAllowed param_show_def param_parse_def bit_text_one plain_keys)
next
  case (PacketizationMode v)
  show ?thesis by (rule that [of "''packetization-mode''" "decimal (unat v)"])
      (simp_all add: PacketizationMode param_show_def param_parse_def known_def plain_keys)
next
  case (ProfileLevelId v)
  show ?thesis by (rule that [of "''profile-level-id''" "hex6 (unat v)"])
      (simp_all add: ProfileLevelId param_show_def param_parse_def known_def plain_keys)
next
  case (ProfileId v)
  show ?thesis by (rule that [of "''profile-id''" "decimal (unat v)"]) (simp_all add: ProfileId param_show_def param_parse_def known_def plain_keys)
qed (use assms in auto)

lemma split_join: "xs \<noteq> [] \<Longrightarrow> (\<And>x. x \<in> set xs \<Longrightarrow> c \<notin> set x) \<Longrightarrow> split_on c (join_with [c] xs) = xs"
  by (induction "[c]" xs rule: join_with.induct) (simp_all add: split_on_plain split_on_sep)

definition told_param :: "format_param \<Rightarrow> bool" where
  "told_param p \<longleftrightarrow> p \<noteq> UnknownParam \<and> (\<forall>v. p \<noteq> Apt v)"

lemma shown_one:
  assumes "told_param p"
  shows "CHR '';'' \<notin> set (param_show p) \<and> map_option (\<lambda>(k, v). param_parse k v) (key_val (param_show p)) = Some p"
proof -
  obtain k v where p: "param_show p = k @ ''='' @ v" "plain k" "plain v" "param_parse k v = p"
    using shown_read [of p] assms by (auto simp: told_param_def)
  then show ?thesis using key_val_shown [OF p(2,3)] by (auto simp: plain_def)
qed

lemma parse_shown:
  "list_all told_param ps \<Longrightarrow> parse_line (join_with '';'' (map param_show ps)) = fold set_param ps no_format"
proof -
  assume t: "list_all told_param ps"
  have f: "fold (\<lambda>(k, v). set_param (param_parse k v)) (List.map_filter key_val (map param_show ps)) fp = fold set_param ps fp" for fp
    using t
  proof (induction ps arbitrary: fp)
    case (Cons p ps)
    then obtain k v where "key_val (param_show p) = Some (k, v)" "param_parse k v = p" using shown_one [of p] by auto
    then show ?case using Cons by (simp add: List.map_filter_simps)
  qed (simp add: List.map_filter_simps)
  show ?thesis
  proof (cases "ps = []")
    case False
    then show ?thesis using f t shown_one by (subst parse_line_def, subst split_join) (auto simp: list_all_iff)
  qed (simp add: parse_line_def key_val_def List.map_filter_simps)
qed

text \<open>The format parameters written into a line of the session description are read back from it, whatever they are.\<close>

theorem format_line_roundtrip: "parse_line (format_show fp) = fp"
proof -
  have "list_all told_param (to_format_param fp)"
    by (simp add: to_format_param_def opt_def told_param_def split: option.split)
  moreover have "fold set_param (to_format_param fp) no_format = fp"
    by (cases fp) (simp add: to_format_param_def opt_def set_param_def no_format_def split: option.split)
  ultimately show ?thesis by (simp add: format_show_def parse_shown)
qed

end
