(* ===== verification/SendQueue.thy ===== *)
theory SendQueue imports Prelude begin

text \<open>
  The queue of packets waiting to be sent and its account of queueing times, \<open>streams/send_queue.rs\<close> of str0m.
  Instants and durations are numbers of nanoseconds; a packet not yet stamped (\<open>not_happening\<close>) has no time.
  \<open>None\<close> is a panic: a failed assertion, a duration or a size below zero, or an instant before another.
\<close>

section \<open>State\<close>

record 'p queued =
  packet :: 'p
  payload_len :: nat
  stamp :: "nat option"

record total_queue =
  unsent_count :: nat
  unsent_size :: nat
  queue_time :: nat
  tq_last :: "nat option"

record 'p send_queue =
  sq_queue :: "'p queued list"
  total :: total_queue
  sq_last_emitted :: "nat option"

datatype queue_priority = Media | Padding | Empty

record queue_snapshot =
  created_at :: nat
  snap_size :: nat
  packet_count :: nat
  total_queue_time_origin :: nat
  snap_last_emitted :: "nat option"
  first_unsent :: "nat option"
  priority :: queue_priority

definition total_new :: total_queue where
  "total_new = \<lparr>unsent_count = 0, unsent_size = 0, queue_time = 0, tq_last = None\<rparr>"

definition send_queue_new :: "'p send_queue" where
  "send_queue_new = \<lparr>sq_queue = [], total = total_new, sq_last_emitted = None\<rparr>"

definition minus_checked :: "nat \<Rightarrow> nat \<Rightarrow> nat option" where
  "minus_checked a b = (if a < b then None else Some (a - b))"

section \<open>The account\<close>

definition move_time_forward :: "total_queue \<Rightarrow> nat \<Rightarrow> total_queue option" where
  "move_time_forward t now =
     (case tq_last t of
        Some l \<Rightarrow>
          if unsent_count t = 0 then None
          else do { from_last \<leftarrow> minus_checked now l; Some (t\<lparr>queue_time := queue_time t + from_last * (unsent_count t mod 2 ^ 32), tq_last := Some now\<rparr>) }
      | None \<Rightarrow> if unsent_count t = 0 \<and> unsent_size t = 0 \<and> queue_time t = 0 then Some t else None)"

definition increase :: "total_queue \<Rightarrow> nat \<Rightarrow> nat \<Rightarrow> total_queue option" where
  "increase t now n = do {
     t \<leftarrow> move_time_forward t now;
     Some (t\<lparr>unsent_count := unsent_count t + 1, unsent_size := unsent_size t + n, tq_last := Some now\<rparr>) }"

definition decrease :: "total_queue \<Rightarrow> nat \<Rightarrow> nat \<Rightarrow> nat \<Rightarrow> total_queue option" where
  "decrease t now n waited = do {
     t \<leftarrow> move_time_forward t now;
     c \<leftarrow> minus_checked (unsent_count t) 1;
     s \<leftarrow> minus_checked (unsent_size t) n;
     q \<leftarrow> minus_checked (queue_time t) waited;
     let t = t\<lparr>unsent_count := c, unsent_size := s, queue_time := q\<rparr>;
     if c = 0 then if s = 0 then Some (t\<lparr>queue_time := 0, tq_last := None\<rparr>) else None else Some t }"

section \<open>The queue\<close>

definition sq_push :: "'p send_queue \<Rightarrow> 'p \<Rightarrow> nat \<Rightarrow> 'p send_queue" where
  "sq_push q p n = q\<lparr>sq_queue := sq_queue q @ [\<lparr>packet = p, payload_len = n, stamp = None\<rparr>]\<rparr>"

text \<open>From the end to the first packet that is stamped.\<close>

fun stamp_loop :: "nat \<Rightarrow> 'p queued list \<Rightarrow> total_queue \<Rightarrow> ('p queued list \<times> total_queue) option" where
  "stamp_loop now [] t = Some ([], t)"
| "stamp_loop now (p # ps) t =
     (if stamp p \<noteq> None then Some (p # ps, t)
      else do { t \<leftarrow> increase t now (payload_len p); (ps, t) \<leftarrow> stamp_loop now ps t; Some (p\<lparr>stamp := Some now\<rparr> # ps, t) })"

definition sq_handle_timeout :: "'p send_queue \<Rightarrow> nat \<Rightarrow> 'p send_queue option" where
  "sq_handle_timeout q now = do {
     (r, t) \<leftarrow> stamp_loop now (rev (sq_queue q)) (total q);
     Some (q\<lparr>sq_queue := rev r, total := t\<rparr>) }"

definition need_timeout :: "'p send_queue \<Rightarrow> bool" where
  "need_timeout q \<longleftrightarrow> (\<exists>p\<in>set (sq_queue q). stamp p = None)"

definition sq_peek :: "'p send_queue \<Rightarrow> 'p queued option" where
  "sq_peek q = (case sq_queue q of [] \<Rightarrow> None | p # _ \<Rightarrow> if stamp p = None then None else Some p)"

definition sq_pop :: "'p send_queue \<Rightarrow> nat \<Rightarrow> ('p send_queue \<times> 'p queued option) option" where
  "sq_pop q now =
     (case sq_peek q of
        None \<Rightarrow> Some (q, None)
      | Some p \<Rightarrow> do {
          ts \<leftarrow> stamp p;
          waited \<leftarrow> minus_checked now ts;
          t \<leftarrow> decrease (total q) now (payload_len p) waited;
          Some (q\<lparr>sq_queue := tl (sq_queue q), total := t, sq_last_emitted := Some now\<rparr>, Some p) })"

definition sq_is_empty :: "'p send_queue \<Rightarrow> bool" where
  "sq_is_empty q \<longleftrightarrow> sq_queue q = []"

definition sq_last :: "'p send_queue \<Rightarrow> 'p queued option" where
  "sq_last q = (if sq_queue q = [] then None else Some (List.last (sq_queue q)))"

definition sq_snapshot :: "'p send_queue \<Rightarrow> nat \<Rightarrow> ('p send_queue \<times> queue_snapshot) option" where
  "sq_snapshot q now = do {
     t \<leftarrow> move_time_forward (total q) now;
     Some (q\<lparr>total := t\<rparr>, \<lparr>created_at = now, snap_size = unsent_size t, packet_count = unsent_count t mod 2 ^ 32,
       total_queue_time_origin = queue_time t, snap_last_emitted = sq_last_emitted q,
       first_unsent = Option.bind (find (\<lambda>p. stamp p \<noteq> None) (sq_queue q)) stamp,
       priority = (if 0 < unsent_count t then Media else Empty)\<rparr>) }"

definition sq_clear :: "'p send_queue \<Rightarrow> 'p send_queue" where
  "sq_clear q = \<lparr>sq_queue = [], total = total_new, sq_last_emitted = None\<rparr>"

section \<open>Runs\<close>

datatype 'p sq_event = SqPush 'p nat | SqTimeout nat | SqPop nat | SqSnapshot nat | SqClear

datatype 'p sq_answer = Popped "'p queued option" | Snapped queue_snapshot

definition sq_step :: "'p send_queue \<Rightarrow> 'p sq_event \<Rightarrow> ('p send_queue \<times> 'p sq_answer list) option" where
  "sq_step q ev =
     (case ev of
        SqPush p n \<Rightarrow> Some (sq_push q p n, [])
      | SqTimeout now \<Rightarrow> map_option (\<lambda>q. (q, [])) (sq_handle_timeout q now)
      | SqPop now \<Rightarrow> map_option (\<lambda>(q, p). (q, [Popped p])) (sq_pop q now)
      | SqSnapshot now \<Rightarrow> map_option (\<lambda>(q, s). (q, [Snapped s])) (sq_snapshot q now)
      | SqClear \<Rightarrow> Some (sq_clear q, []))"

fun sq_run :: "'p send_queue \<Rightarrow> 'p sq_event list \<Rightarrow> ('p send_queue \<times> 'p sq_answer list) option" where
  "sq_run q [] = Some (q, [])"
| "sq_run q (ev # evs) = do { (q, as) \<leftarrow> sq_step q ev; (q, bs) \<leftarrow> sq_run q evs; Some (q, as @ bs) }"

section \<open>What the account says\<close>

text \<open>
  The same queue without an account: what a snapshot tells is computed from the packets themselves.
\<close>

type_synonym 'p plain_queue = "'p queued list \<times> nat option"

definition stamped :: "'p queued list \<Rightarrow> 'p queued list" where
  "stamped ps = filter (\<lambda>p. stamp p \<noteq> None) ps"

definition has_waited :: "nat \<Rightarrow> 'p queued list \<Rightarrow> nat" where
  "has_waited now ps = sum_list (map (\<lambda>p. now - the (stamp p)) ps)"

definition plain_snapshot :: "nat \<Rightarrow> 'p plain_queue \<Rightarrow> queue_snapshot" where
  "plain_snapshot now q =
     (let ps = stamped (fst q) in
      \<lparr>created_at = now, snap_size = sum_list (map payload_len ps), packet_count = length ps, total_queue_time_origin = has_waited now ps,
       snap_last_emitted = snd q, first_unsent = (case ps of [] \<Rightarrow> None | p # _ \<Rightarrow> stamp p), priority = (if ps = [] then Empty else Media)\<rparr>)"

definition put_stamp :: "nat \<Rightarrow> 'p queued \<Rightarrow> 'p queued" where
  "put_stamp now p = (if stamp p = None then p\<lparr>stamp := Some now\<rparr> else p)"

definition plain_step :: "'p plain_queue \<Rightarrow> 'p sq_event \<Rightarrow> 'p plain_queue \<times> 'p sq_answer list" where
  "plain_step q ev =
     (case ev of
        SqPush p n \<Rightarrow> ((fst q @ [\<lparr>packet = p, payload_len = n, stamp = None\<rparr>], snd q), [])
      | SqTimeout now \<Rightarrow> ((map (put_stamp now) (fst q), snd q), [])
      | SqPop now \<Rightarrow> (case fst q of
            [] \<Rightarrow> (q, [Popped None])
          | p # ps \<Rightarrow> if stamp p = None then (q, [Popped None]) else ((ps, Some now), [Popped (Some p)]))
      | SqSnapshot now \<Rightarrow> (q, [Snapped (plain_snapshot now q)])
      | SqClear \<Rightarrow> (([], None), []))"

fun plain_run :: "'p plain_queue \<Rightarrow> 'p sq_event list \<Rightarrow> 'p plain_queue \<times> 'p sq_answer list" where
  "plain_run q [] = (q, [])"
| "plain_run q (ev # evs) = (let (q, as) = plain_step q ev; (q, bs) = plain_run q evs in (q, as @ bs))"

text \<open>The account of packets stamped no later than \<open>l\<close>, brought forward to \<open>l\<close>.\<close>

definition account :: "'p queued list \<Rightarrow> nat \<Rightarrow> total_queue" where
  "account ps l = \<lparr>unsent_count = length ps, unsent_size = sum_list (map payload_len ps), queue_time = has_waited l ps,
     tq_last = (if ps = [] then None else Some l)\<rparr>"

definition by_then :: "nat \<Rightarrow> 'p queued list \<Rightarrow> bool" where
  "by_then l ps \<longleftrightarrow> list_all (\<lambda>p. \<exists>t\<le>l. stamp p = Some t) ps"

definition accounted :: "nat \<Rightarrow> 'p send_queue \<Rightarrow> 'p plain_queue \<Rightarrow> bool" where
  "accounted now q a \<longleftrightarrow> a = (sq_queue q, sq_last_emitted q) \<and> (\<exists>S U l. sq_queue q = S @ U \<and> l \<le> now \<and> by_then l S
     \<and> list_all (\<lambda>p. stamp p = None) U \<and> total q = account S l)"

lemma accounted_cases:
  assumes "accounted l q a" "l \<le> now"
  obtains S U m where "sq_queue q = S @ U" "m \<le> now" "by_then m S" "list_all (\<lambda>p. stamp p = None) U" "total q = account S m"
    "a = (sq_queue q, sq_last_emitted q)"
proof -
  obtain S U m where "sq_queue q = S @ U" "m \<le> l" "by_then m S" "list_all (\<lambda>p. stamp p = None) U" "total q = account S m"
    "a = (sq_queue q, sq_last_emitted q)" using assms(1) unfolding accounted_def by blast
  then show thesis using that le_trans [OF _ assms(2)] by blast
qed

lemma accountedI:
  "sq_queue q = S @ U \<Longrightarrow> l \<le> now \<Longrightarrow> by_then l S \<Longrightarrow> list_all (\<lambda>p. stamp p = None) U \<Longrightarrow> total q = account S l \<Longrightarrow>
     a = (sq_queue q, sq_last_emitted q) \<Longrightarrow> accounted now q a"
  unfolding accounted_def by blast

lemma by_then_mono: "by_then l ps \<Longrightarrow> l \<le> m \<Longrightarrow> by_then m ps"
  by (fastforce simp: by_then_def list_all_iff)

lemma by_then_simps [simp]: "by_then l []" "by_then l (p # ps) \<longleftrightarrow> (\<exists>t\<le>l. stamp p = Some t) \<and> by_then l ps" "by_then l (ps @ qs) \<longleftrightarrow> by_then l ps \<and> by_then l qs"
  by (auto simp: by_then_def)

lemma has_waited_later: "by_then l ps \<Longrightarrow> l \<le> now \<Longrightarrow> has_waited now ps = has_waited l ps + (now - l) * length ps"
  by (induction ps) (auto simp: has_waited_def)

lemma move_account:
  assumes "by_then l ps" "l \<le> now" "length ps < 2 ^ 32"
  shows "move_time_forward (account ps l) now = Some (account ps now)"
proof (cases "ps = []")
  case False
  have "length ps mod 2 ^ 32 = length ps" using assms(3) by simp
  moreover have "0 < length ps" using False by simp
  ultimately show ?thesis
    using assms(2) has_waited_later [OF assms(1,2)] False
    unfolding move_time_forward_def account_def minus_checked_def by simp
qed (simp add: move_time_forward_def account_def has_waited_def)

lemma increase_account:
  assumes "by_then l ps" "l \<le> now" "length ps < 2 ^ 32"
  shows "increase (account ps l) now n = Some (account (\<lparr>packet = p, payload_len = n, stamp = Some now\<rparr> # ps) now)"
  using move_account [OF assms] by (simp add: increase_def) (simp add: account_def has_waited_def)

lemma stamp_loop_account:
  assumes "by_then l A" "list_all (\<lambda>p. stamp p = None) U" "l \<le> now" "length (U @ A) < 2 ^ 32" "R = [] \<or> stamp (hd R) \<noteq> None"
  shows "by_then (if U = [] then l else now) (map (put_stamp now) U @ A)
    \<and> stamp_loop now (U @ R) (account A l)
      = Some (map (put_stamp now) U @ R, account (map (put_stamp now) U @ A) (if U = [] then l else now))"
  using assms
proof (induction U arbitrary: A l)
  case Nil
  then show ?case by (cases R) auto
next
  case (Cons p U)
  let ?p = "\<lparr>packet = packet p, payload_len = payload_len p, stamp = Some now\<rparr>"
  have sp: "stamp p = None" "p\<lparr>stamp := Some now\<rparr> = ?p" "put_stamp now p = ?p" using Cons.prems(2) by (cases p; simp add: put_stamp_def)+
  have inc: "increase (account A l) now (payload_len p) = Some (account (?p # A) now)"
    using increase_account [of l A now] Cons.prems by simp
  have "by_then now (?p # A)" using by_then_mono [OF Cons.prems(1,3)] by simp
  note IH = Cons.IH [OF this _ _ _ Cons.prems(5)]
  have "account (map (put_stamp now) U @ ?p # A) now = account (?p # map (put_stamp now) U @ A) now"
    by (simp add: account_def has_waited_def)
  then show ?case using IH Cons.prems(2,4) sp inc by (auto split: if_splits)
qed

lemma put_stamp_stamped: "by_then l S \<Longrightarrow> map (put_stamp now) S = S"
  by (induction S) (auto simp: put_stamp_def)

lemma timeout_accounted:
  assumes "accounted l q a" "l \<le> now" "length (sq_queue q) < 2 ^ 32"
  shows "\<exists>q'. sq_handle_timeout q now = Some q' \<and> accounted now q' (map (put_stamp now) (fst a), snd a)"
proof -
  obtain S U m where q: "sq_queue q = S @ U" "m \<le> now" "by_then m S" "list_all (\<lambda>p. stamp p = None) U" "total q = account S m"
    and a: "a = (sq_queue q, sq_last_emitted q)"
    by (rule accounted_cases [OF assms(1,2)])
  have r: "rev S = [] \<or> stamp (hd (rev S)) \<noteq> None" using q(3) by (cases S rule: rev_cases) auto
  have u: "list_all (\<lambda>p. stamp p = None) (rev U)" "length (rev U @ S) < 2 ^ 32" using q(1,4) assms(3) by (simp_all add: list_all_iff)
  let ?m = "if U = [] then m else now"
  note l = stamp_loop_account [OF q(3) u(1) q(2) u(2) r]
  have acc: "account (map (put_stamp now) (rev U) @ S) k = account (S @ map (put_stamp now) U) k" for k
    by (simp add: account_def has_waited_def rev_map [symmetric] sum_list_rev flip: rev_map)
  have "sq_handle_timeout q now = Some (q\<lparr>sq_queue := S @ map (put_stamp now) U, total := account (S @ map (put_stamp now) U) ?m\<rparr>)"
    using l by (simp add: sq_handle_timeout_def q(1,5) acc rev_map)
  moreover have "by_then ?m (S @ map (put_stamp now) U)"
    using conjunct1 [OF l] by (auto simp: by_then_def list_all_iff)
  moreover have "map (put_stamp now) (fst a) = S @ map (put_stamp now) U"
    unfolding a q(1) by (simp add: put_stamp_stamped [OF q(3)])
  moreover have "?m \<le> now" using q(2) by simp
  ultimately show ?thesis
    by (intro exI conjI) (assumption, rule accountedI [of _ "S @ map (put_stamp now) U" "[]" ?m], auto simp: a)
qed

lemma pop_accounted:
  assumes "accounted l q a" "l \<le> now" "length (sq_queue q) < 2 ^ 32"
  shows "\<exists>q' p. sq_pop q now = Some (q', p) \<and> plain_step a (SqPop now) = ((sq_queue q', sq_last_emitted q'), [Popped p])
    \<and> accounted now q' (sq_queue q', sq_last_emitted q')"
proof -
  obtain S U m where q: "sq_queue q = S @ U" "m \<le> now" "by_then m S" "list_all (\<lambda>p. stamp p = None) U" "total q = account S m"
    and a: "a = (sq_queue q, sq_last_emitted q)"
    by (rule accounted_cases [OF assms(1,2)])
  show ?thesis
  proof (cases S)
    case Nil
    then have "sq_peek q = None" using q(1,4) by (cases U) (simp_all add: sq_peek_def)
    then have "sq_pop q now = Some (q, None)" by (simp add: sq_pop_def)
    moreover have "plain_step a (SqPop now) = (a, [Popped None])" using q(1,4) Nil by (cases U) (simp_all add: plain_step_def a)
    moreover have "accounted now q a" using assms(1,2) by (auto simp: accounted_def intro: le_trans)
    ultimately show ?thesis by (simp add: a)
  next
    case (Cons p S')
    then obtain t where t: "stamp p = Some t" "t \<le> m" using q(3) by auto
    have len: "length S < 2 ^ 32" using assms(3) q(1) by simp
    have dec: "decrease (account S m) now (payload_len p) (now - t) = Some (account S' now)"
      unfolding decrease_def move_account [OF q(3,2) len] using t Cons
      by (cases "S' = []") (auto simp: account_def minus_checked_def has_waited_def)
    let ?q = "q\<lparr>sq_queue := S' @ U, total := account S' now, sq_last_emitted := Some now\<rparr>"
    have "sq_pop q now = Some (?q, Some p)" using t q(1,2,5) Cons dec by (simp add: sq_pop_def sq_peek_def minus_checked_def)
    moreover have "plain_step a (SqPop now) = ((S' @ U, Some now), [Popped (Some p)])" using q(1) Cons t by (simp add: plain_step_def a)
    moreover have "accounted now ?q (S' @ U, Some now)"
      using q(2-4) Cons by_then_mono [of m S' now] by (auto simp: accounted_def)
    ultimately show ?thesis by force
  qed
qed

lemma snapshot_accounted:
  assumes "accounted l q a" "l \<le> now" "length (sq_queue q) < 2 ^ 32"
  shows "\<exists>q'. sq_snapshot q now = Some (q', plain_snapshot now a) \<and> accounted now q' a"
proof -
  obtain S U m where q: "sq_queue q = S @ U" "m \<le> now" "by_then m S" "list_all (\<lambda>p. stamp p = None) U" "total q = account S m"
    and a: "a = (sq_queue q, sq_last_emitted q)"
    by (rule accounted_cases [OF assms(1,2)])
  have len: "length S < 2 ^ 32" using assms(3) q(1) by simp
  have st: "stamped (sq_queue q) = S"
  proof -
    have "filter (\<lambda>p. stamp p \<noteq> None) S = S" using q(3) by (induction S) auto
    moreover have "filter (\<lambda>p. stamp p \<noteq> None) U = []" using q(4) by (induction U) auto
    ultimately show ?thesis by (simp add: stamped_def q(1))
  qed
  have f: "Option.bind (find (\<lambda>p. stamp p \<noteq> None) (sq_queue q)) stamp = (case S of [] \<Rightarrow> None | p # _ \<Rightarrow> stamp p)"
  proof (cases S)
    case Nil
    then have "find (\<lambda>p. stamp p \<noteq> None) (sq_queue q) = None" using q(1,4) by (simp only: find_None_iff) (auto simp: list_all_iff)
    then show ?thesis unfolding Nil by simp
  qed (use q(1,3) in auto)
  have "sq_snapshot q now = Some (q\<lparr>total := account S now\<rparr>, plain_snapshot now a)"
    unfolding sq_snapshot_def q(5) move_account [OF q(3,2) len] f a plain_snapshot_def Let_def fst_conv snd_conv st
    using len by (simp add: account_def)
  moreover have "accounted now (q\<lparr>total := account S now\<rparr>) a"
    using q by_then_mono [OF q(3,2)] by (auto simp: accounted_def a)
  ultimately show ?thesis by blast
qed

lemma push_accounted:
  "accounted l q a \<Longrightarrow> accounted l (sq_push q p n) (fst a @ [\<lparr>packet = p, payload_len = n, stamp = None\<rparr>], snd a)"
proof -
  assume a: "accounted l q a"
  obtain S U m where q: "sq_queue q = S @ U" "m \<le> l" "by_then m S" "list_all (\<lambda>p. stamp p = None) U" "total q = account S m"
    "a = (sq_queue q, sq_last_emitted q)"
    by (rule accounted_cases [OF a order_refl])
  let ?U = "U @ [\<lparr>packet = p, payload_len = n, stamp = None\<rparr>]"
  have "sq_queue (sq_push q p n) = S @ ?U" "total (sq_push q p n) = account S m" "list_all (\<lambda>p. stamp p = None) ?U"
    using q by (simp_all add: sq_push_def)
  moreover have "sq_last_emitted (sq_push q p n) = sq_last_emitted q" by (simp add: sq_push_def)
  ultimately show ?thesis using q(1,2,3,6) by (intro accountedI [of _ S ?U m]) simp_all
qed

lemma new_accounted: "accounted 0 send_queue_new ([], None)"
  by (auto simp: accounted_def send_queue_new_def account_def total_new_def has_waited_def intro!: exI [of _ "[]"])

lemma clear_accounted: "accounted l (sq_clear q) ([], None)"
  by (auto simp: accounted_def sq_clear_def account_def total_new_def has_waited_def intro!: exI [of _ "[]"])

definition sq_time :: "'p sq_event \<Rightarrow> nat list" where
  "sq_time ev = (case ev of SqTimeout now \<Rightarrow> [now] | SqPop now \<Rightarrow> [now] | SqSnapshot now \<Rightarrow> [now] | _ \<Rightarrow> [])"

definition sq_pushes :: "'p sq_event list \<Rightarrow> nat" where
  "sq_pushes evs = length (filter (\<lambda>ev. case ev of SqPush _ _ \<Rightarrow> True | _ \<Rightarrow> False) evs)"

lemma sq_pushes_Cons: "sq_pushes (ev # evs) = (case ev of SqPush _ _ \<Rightarrow> 1 | _ \<Rightarrow> 0) + sq_pushes evs"
  by (simp add: sq_pushes_def split: sq_event.split)

text \<open>One event: the account is kept and the answer is that of the plain queue.\<close>

lemma step_accounted:
  assumes "accounted l q a" "list_all ((\<le>) l) (sq_time ev)" "length (sq_queue q) < 2 ^ 32"
  shows "\<exists>q' as a'. sq_step q ev = Some (q', as) \<and> plain_step a ev = (a', as)
    \<and> accounted (case sq_time ev of [] \<Rightarrow> l | now # _ \<Rightarrow> now) q' a' \<and> length (sq_queue q') \<le> length (sq_queue q) + (case ev of SqPush _ _ \<Rightarrow> 1 | _ \<Rightarrow> 0)"
proof -
  have len: "accounted k r b \<Longrightarrow> length (sq_queue r) = length (fst b)" for k r and b :: "'a plain_queue" by (auto simp: accounted_def)
  show ?thesis
  proof (cases ev)
    case (SqPush p n)
    then show ?thesis using push_accounted [OF assms(1)] by (simp add: sq_step_def plain_step_def sq_time_def) (simp add: sq_push_def)
  next
    case (SqTimeout now)
    then obtain q' where "sq_handle_timeout q now = Some q'" "accounted now q' (map (put_stamp now) (fst a), snd a)"
      using timeout_accounted [OF assms(1) _ assms(3), of now] assms(2) by (auto simp: sq_time_def)
    then show ?thesis using len [OF assms(1)] len [of now q'] SqTimeout by (simp add: sq_step_def plain_step_def sq_time_def)
  next
    case (SqPop now)
    then obtain q' p where p: "sq_pop q now = Some (q', p)" "plain_step a (SqPop now) = ((sq_queue q', sq_last_emitted q'), [Popped p])"
        "accounted now q' (sq_queue q', sq_last_emitted q')"
      using pop_accounted [OF assms(1) _ assms(3), of now] assms(2) by (auto simp: sq_time_def)
    have "length (sq_queue q') \<le> length (fst a)"
      using p(2) by (auto simp: plain_step_def split: list.splits if_splits)
    then show ?thesis using p len [OF assms(1)] SqPop by (simp add: sq_step_def sq_time_def)
  next
    case (SqSnapshot now)
    then obtain q' where "sq_snapshot q now = Some (q', plain_snapshot now a)" "accounted now q' a"
      using snapshot_accounted [OF assms(1) _ assms(3), of now] assms(2) by (auto simp: sq_time_def)
    then show ?thesis using len [OF assms(1)] len [of now q'] SqSnapshot by (simp add: sq_step_def plain_step_def sq_time_def)
  next
    case SqClear
    then show ?thesis using clear_accounted [of l q] by (simp add: sq_step_def plain_step_def sq_time_def) (simp add: sq_clear_def)
  qed
qed

lemma run_accounted:
  "accounted l q a \<Longrightarrow> sorted (l # concat (map sq_time evs)) \<Longrightarrow> length (sq_queue q) + sq_pushes evs < 2 ^ 32 \<Longrightarrow>
     \<exists>q'. sq_run q evs = Some (q', snd (plain_run a evs)) \<and> fst (plain_run a evs) = (sq_queue q', sq_last_emitted q')"
proof (induction evs arbitrary: q a l)
  case Nil
  then show ?case by (auto simp: accounted_def)
next
  case (Cons ev evs)
  let ?l = "case sq_time ev of [] \<Rightarrow> l | now # _ \<Rightarrow> now"
  have t: "list_all ((\<le>) l) (sq_time ev)" "sorted (?l # concat (map sq_time evs))"
  proof -
    have s: "sorted (l # (sq_time ev @ concat (map sq_time evs)))" using Cons.prems(2) by simp
    then show "list_all ((\<le>) l) (sq_time ev)" by (simp add: list_all_iff)
    show "sorted (?l # concat (map sq_time evs))" using s by (cases "sq_time ev") (auto simp: sorted_append)
  qed
  obtain q1 as a1 where s: "sq_step q ev = Some (q1, as)" "plain_step a ev = (a1, as)" "accounted ?l q1 a1"
      "length (sq_queue q1) \<le> length (sq_queue q) + (case ev of SqPush _ _ \<Rightarrow> 1 | _ \<Rightarrow> 0)"
  proof -
    have "length (sq_queue q) < 2 ^ 32" using Cons.prems(3) by linarith
    from step_accounted [OF Cons.prems(1) t(1) this] show thesis using that by blast
  qed
  have "length (sq_queue q1) + sq_pushes evs < 2 ^ 32" using s(4) Cons.prems(3) unfolding sq_pushes_Cons by linarith
  from Cons.IH [OF s(3) t(2) this] show ?case using s(1,2) by (auto simp: split_beta)
qed

text \<open>C37. The account of the send queue is exact and never panics: as long as time does not run backwards, and with fewer
  than 2^32 packets pushed, every pop and every snapshot answers as a queue without an account does that adds up the
  sizes and the waiting times of its stamped packets each time.
\<close>

theorem send_queue_refines:
  assumes "sorted (concat (map sq_time evs))" "sq_pushes evs < 2 ^ 32"
  shows "\<exists>q'. sq_run send_queue_new evs = Some (q', snd (plain_run ([], None) evs))"
proof -
  have t: "sorted (0 # concat (map sq_time evs))" using assms(1) by simp
  have "length (sq_queue (send_queue_new :: 'a send_queue)) + sq_pushes evs < 2 ^ 32" using assms(2) by (simp add: send_queue_new_def)
  from run_accounted [OF new_accounted t this] show ?thesis by blast
qed

lemma send_queue_refines_witness:
  "\<exists>q'. sq_run send_queue_new [SqPush (7 :: nat) 100, SqTimeout 5, SqPush 8 50, SqSnapshot 9, SqTimeout 10, SqPop 12, SqSnapshot 20]
     = Some (q', [Snapped \<lparr>created_at = 9, snap_size = 100, packet_count = 1, total_queue_time_origin = 4, snap_last_emitted = None,
           first_unsent = Some 5, priority = Media\<rparr>,
         Popped (Some \<lparr>packet = 7, payload_len = 100, stamp = Some 5\<rparr>),
         Snapped \<lparr>created_at = 20, snap_size = 50, packet_count = 1, total_queue_time_origin = 10, snap_last_emitted = Some 12,
           first_unsent = Some 10, priority = Media\<rparr>])"
  using send_queue_refines [of "[SqPush (7 :: nat) 100, SqTimeout 5, SqPush 8 50, SqSnapshot 9, SqTimeout 10, SqPop 12, SqSnapshot 20]"]
  by (simp add: sq_time_def sq_pushes_def plain_step_def plain_snapshot_def stamped_def has_waited_def put_stamp_def)

end
