(* ===== verification/Pacer.thy ===== *)
theory Pacer imports SendQueue "HOL-Library.AList" "HOL-Library.Option_ord" begin

text \<open>
  Which stream sends next: the snapshots of queues and the pacer that does not pace, \<open>packet/pacer.rs\<close> of str0m, and
  the state of a stream's queues, \<open>StreamTx::queue_state\<close> in \<open>streams/send.rs\<close>. The agent does not ask for bandwidth
  estimation, so the session takes this pacer. \<open>None\<close> is a panic as in the send queue; a map from streams to instants
  is an association list.
\<close>

section \<open>Snapshots\<close>

text \<open>The derived order of the priorities: the earlier in the enumeration, the smaller.\<close>

instantiation queue_priority :: linorder
begin

fun queue_rank :: "queue_priority \<Rightarrow> nat" where
  "queue_rank Media = 0"
| "queue_rank Padding = 1"
| "queue_rank Empty = 2"

definition less_eq_queue_priority :: "queue_priority \<Rightarrow> queue_priority \<Rightarrow> bool" where
  "less_eq_queue_priority a b \<longleftrightarrow> queue_rank a \<le> queue_rank b"

definition less_queue_priority :: "queue_priority \<Rightarrow> queue_priority \<Rightarrow> bool" where
  "less_queue_priority a b \<longleftrightarrow> queue_rank a < queue_rank b"

instance
proof
  fix a b :: queue_priority
  show "a \<le> b \<Longrightarrow> b \<le> a \<Longrightarrow> a = b" by (cases a; cases b; simp add: less_eq_queue_priority_def)
qed (auto simp: less_eq_queue_priority_def less_queue_priority_def)

end

lemma priority_order [simp]: "Media \<le> p" "p \<le> Empty" "\<not> Padding \<le> Media" "\<not> Empty \<le> Media" "\<not> Empty \<le> Padding"
  by (cases p; simp add: less_eq_queue_priority_def)+

definition update_priority :: "queue_priority \<Rightarrow> queue_snapshot \<Rightarrow> queue_snapshot" where
  "update_priority p s = s\<lparr>priority := (if 0 < packet_count s then p else Empty)\<rparr>"

text \<open>The instant that never comes is a parameter.\<close>

definition snapshot_default :: "nat \<Rightarrow> queue_snapshot" where
  "snapshot_default never = \<lparr>created_at = never, snap_size = 0, packet_count = 0, total_queue_time_origin = 0, snap_last_emitted = None,
     first_unsent = None, priority = Empty\<rparr>"

definition has_ever_sent :: "queue_snapshot \<Rightarrow> bool" where
  "has_ever_sent s \<longleftrightarrow> snap_last_emitted s \<noteq> None"

definition snapshot_merge :: "queue_snapshot \<Rightarrow> queue_snapshot \<Rightarrow> queue_snapshot" where
  "snapshot_merge a b =
     \<lparr>created_at = min (created_at a) (created_at b), snap_size = snap_size a + snap_size b,
      packet_count = (packet_count a + packet_count b) mod 2 ^ 32,
      total_queue_time_origin = total_queue_time_origin a + total_queue_time_origin b,
      snap_last_emitted = max (snap_last_emitted a) (snap_last_emitted b),
      first_unsent = (case (first_unsent a, first_unsent b) of
          (None, None) \<Rightarrow> None | (None, Some v) \<Rightarrow> Some v | (Some v, None) \<Rightarrow> Some v | (Some v, Some w) \<Rightarrow> Some (min v w)),
      priority = min (priority a) (priority b)\<rparr>"

text \<open>A duration between instants is not negative but 0.\<close>

definition total_queue_time :: "queue_snapshot \<Rightarrow> nat \<Rightarrow> nat" where
  "total_queue_time s now = total_queue_time_origin s + packet_count s * (now - created_at s)"

section \<open>The state of a stream's queues\<close>

record 'm queue_state =
  q_mid :: 'm
  unpaced :: bool
  use_for_padding :: bool
  snapshot :: queue_snapshot

record resend =
  resend_seq :: nat
  queued_at :: nat
  resend_size :: nat

text \<open>What \<open>StreamTx\<close> has to be sent: the queue, the packets to be sent again, and octets of padding.\<close>

record ('m, 'p) stream_queues =
  tx_mid :: 'm
  tx_unpaced :: "bool option"
  tx_padding_enabled :: bool
  send_queue_of :: "'p send_queue"
  resends :: "resend list"
  padding :: nat

definition add_resend :: "nat \<Rightarrow> resend \<Rightarrow> queue_snapshot \<Rightarrow> queue_snapshot" where
  "add_resend now r s =
     s\<lparr>total_queue_time_origin := total_queue_time_origin s + (now - queued_at r), snap_size := snap_size s + resend_size r,
       packet_count := (packet_count s + 1) mod 2 ^ 32,
       first_unsent := (case first_unsent s of None \<Rightarrow> Some (queued_at r) | Some i \<Rightarrow> Some (min i (queued_at r)))\<rparr>"

definition queue_state_resend :: "nat \<Rightarrow> ('m, 'p) stream_queues \<Rightarrow> nat \<Rightarrow> queue_snapshot option" where
  "queue_state_resend never t now =
     (if resends t = [] then None
      else Some (update_priority Media ((fold (add_resend now) (resends t) (snapshot_default never))\<lparr>created_at := now\<rparr>)))"

definition AVERAGE_PADDING_PACKET_SIZE :: nat where "AVERAGE_PADDING_PACKET_SIZE = 800"

definition FAKE_PADDING_DURATION_MILLIS :: nat where "FAKE_PADDING_DURATION_MILLIS = 5"

definition queue_state_padding :: "nat \<Rightarrow> ('m, 'p) stream_queues \<Rightarrow> nat \<Rightarrow> queue_snapshot option" where
  "queue_state_padding never t now =
     (if padding t = 0 then None
      else
        (let fake_packets = padding t div AVERAGE_PADDING_PACKET_SIZE;
             fake_millis = fake_packets * FAKE_PADDING_DURATION_MILLIS
         in Some ((snapshot_default never)\<lparr>created_at := now, snap_size := padding t, packet_count := fake_packets mod 2 ^ 32,
              total_queue_time_origin := fake_millis * 1000000, priority := Padding\<rparr>)))"

definition merge_if :: "queue_snapshot \<Rightarrow> queue_snapshot option \<Rightarrow> queue_snapshot" where
  "merge_if s m = (case m of None \<Rightarrow> s | Some s' \<Rightarrow> snapshot_merge s s')"

definition queue_state_of :: "nat \<Rightarrow> ('m, 'p) stream_queues \<Rightarrow> nat \<Rightarrow> (('m, 'p) stream_queues \<times> 'm queue_state) option" where
  "queue_state_of never t now = do {
     (q, s) \<leftarrow> sq_snapshot (send_queue_of t) now;
     let s = merge_if s (queue_state_resend never t now);
     let s = merge_if s (queue_state_padding never t now);
     Some (t\<lparr>send_queue_of := q\<rparr>,
       \<lparr>q_mid = tx_mid t, unpaced = (case tx_unpaced t of None \<Rightarrow> True | Some b \<Rightarrow> b), use_for_padding = tx_padding_enabled t,
        snapshot = s\<rparr>) }"

section \<open>The pacer\<close>

record 'm null_pacer =
  last_sends :: "('m \<times> nat) list"
  queue_states :: "'m queue_state list"
  need_immediate_timeout :: bool

definition null_pacer_new :: "'m null_pacer" where
  "null_pacer_new = \<lparr>last_sends = [], queue_states = [], need_immediate_timeout = False\<rparr>"

definition null_poll_timeout :: "'m null_pacer \<Rightarrow> nat option" where
  "null_poll_timeout p =
     (if need_immediate_timeout p then (case map snd (last_sends p) of [] \<Rightarrow> None | t # ts \<Rightarrow> Some (fold min ts t)) else None)"

definition null_handle_timeout :: "'m null_pacer \<Rightarrow> nat \<Rightarrow> 'm queue_state list \<Rightarrow> 'm null_pacer" where
  "null_handle_timeout p now qs = p\<lparr>need_immediate_timeout := False, queue_states := qs\<rparr>"

definition null_poll_queue :: "'m null_pacer \<Rightarrow> 'm null_pacer \<times> 'm option" where
  "null_poll_queue p =
     (let non_empty = filter (\<lambda>q. 0 < packet_count (snapshot q)) (queue_states p) in
      if non_empty = [] then (p, None)
      else (p\<lparr>need_immediate_timeout := True\<rparr>, Some (q_mid (arg_min_list (\<lambda>q. map_of (last_sends p) (q_mid q)) non_empty))))"

definition null_register_send :: "'m null_pacer \<Rightarrow> nat \<Rightarrow> nat \<Rightarrow> 'm \<Rightarrow> 'm null_pacer" where
  "null_register_send p now packet_size from_mid = p\<lparr>last_sends := AList.update from_mid now (last_sends p)\<rparr>"

text \<open>A packet is sent as \<open>Session::poll_packet\<close> does; the states are those told before, at the instant of the poll.\<close>

definition pacer_round :: "'m null_pacer \<Rightarrow> nat \<Rightarrow> 'm queue_state list \<Rightarrow> 'm null_pacer \<times> 'm option" where
  "pacer_round p now qs =
     (let (p, m) = null_poll_queue (null_handle_timeout p now qs) in
      (case m of None \<Rightarrow> p | Some m \<Rightarrow> null_register_send p now 0 m, m))"

fun pacer_rounds :: "'m null_pacer \<Rightarrow> (nat \<times> 'm queue_state list) list \<Rightarrow> 'm null_pacer \<times> 'm option list" where
  "pacer_rounds p [] = (p, [])"
| "pacer_rounds p ((now, qs) # rs) =
     (let (p, m) = pacer_round p now qs; (p, ms) = pacer_rounds p rs in (p, m # ms))"

definition last_send :: "'m null_pacer \<Rightarrow> 'm \<Rightarrow> nat option" where
  "last_send p m = map_of (last_sends p) m"

definition sends :: "'m \<Rightarrow> 'm queue_state list \<Rightarrow> bool" where
  "sends m qs \<longleftrightarrow> (\<exists>q\<in>set qs. q_mid q = m \<and> 0 < packet_count (snapshot q))"

lemma round_picks:
  assumes "sends m qs" "pacer_round p now qs = (p', k)"
  shows "\<exists>j. k = Some j \<and> sends j qs \<and> last_send p j \<le> last_send p m \<and> last_send p' = (last_send p)(j \<mapsto> now)"
proof -
  let ?ne = "filter (\<lambda>q. 0 < packet_count (snapshot q)) qs"
  let ?key = "\<lambda>q. map_of (last_sends p) (q_mid q)"
  let ?q = "arg_min_list ?key ?ne"
  obtain q where q: "q \<in> set ?ne" "q_mid q = m" using assms(1) by (auto simp: sends_def)
  have ne: "?ne \<noteq> []" using q(1) by (metis empty_iff list.set(1))
  have "null_poll_queue (null_handle_timeout p now qs)
      = (p\<lparr>need_immediate_timeout := True, queue_states := qs\<rparr>, Some (q_mid ?q))"
    using ne by (simp add: null_poll_queue_def null_handle_timeout_def Let_def)
  then have "k = Some (q_mid ?q)" "last_send p' = (last_send p)(q_mid ?q \<mapsto> now)"
    using assms(2) by (auto simp: pacer_round_def null_register_send_def last_send_def update_conv)
  moreover have "?q \<in> set ?ne" using ne by (rule arg_min_list_in)
  moreover have "?key ?q \<le> ?key q"
    using f_arg_min_list_f [OF ne, of ?key] Min_le [of "?key ` set ?ne" "?key q"] q(1) by (metis finite_imageI finite_set imageI)
  ultimately show ?thesis using q(2) by (auto simp: sends_def last_send_def)
qed

lemma rounds_apart:
  assumes "pacer_rounds p rs = (p', ms)" "sorted_wrt (<) (map fst rs)" "\<forall>r\<in>set rs. sends m (snd r)" "Some m \<notin> set ms"
    "\<forall>k t. last_send p k = Some t \<longrightarrow> (\<forall>r\<in>set rs. t < fst r)"
  shows "\<exists>ks. ms = map Some ks \<and> length ks = length rs \<and> distinct ks \<and> (\<forall>k\<in>set ks. last_send p k \<le> last_send p m \<and> (\<exists>r\<in>set rs. sends k (snd r)))"
  using assms
proof (induction p rs arbitrary: p' ms rule: pacer_rounds.induct)
  case (1 p)
  then show ?case by simp
next
  case (2 p now qs rs)
  obtain p1 k where r: "pacer_round p now qs = (p1, k)" by (cases "pacer_round p now qs")
  obtain ms1 where rs: "pacer_rounds p1 rs = (p', ms1)" "ms = k # ms1"
    using "2.prems"(1) r by (cases "pacer_rounds p1 rs") simp
  obtain j where j: "k = Some j" "sends j qs" "last_send p j \<le> last_send p m" "last_send p1 = (last_send p)(j \<mapsto> now)"
    using round_picks [OF _ r] "2.prems"(3) by auto
  have jm: "j \<noteq> m" using "2.prems"(4) rs(2) j(1) by auto
  have "\<forall>k t. last_send p1 k = Some t \<longrightarrow> (\<forall>r\<in>set rs. t < fst r)"
    using "2.prems"(2,5) j(4) by auto
  then obtain ks where ks: "ms1 = map Some ks" "length ks = length rs" "distinct ks"
      "\<forall>k\<in>set ks. last_send p1 k \<le> last_send p1 m \<and> (\<exists>r\<in>set rs. sends k (snd r))"
    using "2.IH" [OF r [symmetric] refl rs(1)] "2.prems"(2,3,4) rs(2) by auto
  have late: "last_send p m < Some now" using "2.prems"(5) by (cases "last_send p m") auto
  have "j \<notin> set ks"
  proof
    assume "j \<in> set ks"
    then have "Some now \<le> last_send p m" using ks(4) j(4) jm by auto
    then show False using late by simp
  qed
  moreover have "last_send p i \<le> last_send p m" if "i \<in> set ks" for i
    using ks(4) that j(4) jm \<open>j \<notin> set ks\<close> by (metis fun_upd_other)
  ultimately show ?case using ks j rs(2) by (intro exI [of _ "j # ks"]) auto
qed

text \<open>C24. No queue starves: if a queue has packets in each of some rounds at increasing instants, and there are no more streams
  than rounds, it is polled in one of them.
\<close>

theorem no_queue_starves:
  assumes "pacer_rounds p rs = (p', ms)" "sorted_wrt (<) (map fst rs)" "\<forall>k t. last_send p k = Some t \<longrightarrow> (\<forall>r\<in>set rs. t < fst r)"
    "\<forall>r\<in>set rs. sends m (snd r)" "finite M" "card M \<le> length rs" "\<forall>r\<in>set rs. \<forall>q\<in>set (snd r). q_mid q \<in> M" "rs \<noteq> []"
  shows "Some m \<in> set ms"
proof (rule ccontr)
  assume no: "Some m \<notin> set ms"
  obtain ks where ks: "ms = map Some ks" "length ks = length rs" "distinct ks" "\<forall>k\<in>set ks. \<exists>r\<in>set rs. sends k (snd r)"
    using rounds_apart [OF assms(1,2,4) no assms(3)] by auto
  have "m \<in> M" using assms(4,7,8) by (cases rs) (auto simp: sends_def)
  moreover have "set ks \<subseteq> M - {m}" using ks(1,4) no assms(7) by (force simp: sends_def)
  ultimately have "card (set ks) < card M" using assms(5) by (intro psubset_card_mono) auto
  then show False using ks(2,3) assms(6) by (simp add: distinct_card)
qed

lemma no_queue_starves_witness:
  "\<exists>a b. Some 2 \<in> set (snd (pacer_rounds null_pacer_new [(5, [a, b]), (6, [b, a])])) \<and> q_mid a = 1 \<and> q_mid b = (2 :: nat)"
proof -
  let ?q = "\<lambda>m :: nat. \<lparr>q_mid = m, unpaced = True, use_for_padding = False, snapshot = (snapshot_default 0)\<lparr>packet_count := 3\<rparr>\<rparr>"
  let ?rs = "[(5, [?q 1, ?q 2]), (6, [?q 2, ?q 1])]"
  have "pacer_rounds null_pacer_new ?rs = (fst (pacer_rounds null_pacer_new ?rs), snd (pacer_rounds null_pacer_new ?rs))"
    by (simp only: prod.collapse)
  then have "Some 2 \<in> set (snd (pacer_rounds null_pacer_new ?rs))"
    by (rule no_queue_starves [where M = "{1, 2}"]) (auto simp: null_pacer_new_def last_send_def sends_def snapshot_default_def)
  then show ?thesis by (intro exI [of _ "?q 1"] exI [of _ "?q 2"]) simp
qed

lemma first_of_equals:
  "last_send p (q_mid a) = Some t \<Longrightarrow> \<forall>q\<in>set qs. last_send p (q_mid q) = Some t \<Longrightarrow> 0 < packet_count (snapshot a) \<Longrightarrow>
     snd (pacer_rounds p (replicate n (t, a # qs))) = replicate n (Some (q_mid a))"
proof (induction n arbitrary: p)
  case (Suc n)
  let ?key = "\<lambda>q. map_of (last_sends p) (q_mid q)"
  let ?ne = "filter (\<lambda>q. 0 < packet_count (snapshot q)) qs"
  have "arg_min_list ?key (a # ?ne) = a"
  proof (cases ?ne)
    case (Cons b bs)
    then have "arg_min_list ?key ?ne \<in> set ?ne" by (intro arg_min_list_in) simp
    then have "?key (arg_min_list ?key ?ne) = Some t" using Suc.prems(2) by (simp add: last_send_def)
    then show ?thesis using Cons Suc.prems(1) by (simp add: last_send_def Let_def)
  qed simp
  then have "pacer_round p t (a # qs) = (null_register_send (p\<lparr>queue_states := a # qs, need_immediate_timeout := True\<rparr>) t 0 (q_mid a), Some (q_mid a))"
    using Suc.prems(3) by (simp add: pacer_round_def null_poll_queue_def null_handle_timeout_def Let_def)
  moreover have "last_send (null_register_send (p\<lparr>queue_states := a # qs, need_immediate_timeout := True\<rparr>) t 0 (q_mid a)) = last_send p"
    using Suc.prems(1) by (auto simp: null_register_send_def last_send_def update_conv)
  ultimately show ?case using Suc by (simp add: split_beta)
qed simp

text \<open>
  Within one instant the turns are not taken: the instant of the last packet is all the pacer compares, and after one packet
  of each stream the first stream is polled for as long as it has packets.
\<close>

theorem burst_not_round_robin:
  assumes "0 < packet_count (snapshot a)" "0 < packet_count (snapshot b)" "q_mid a \<noteq> q_mid b"
  shows "snd (pacer_rounds null_pacer_new (replicate (n + 2) (t, [a, b]))) = Some (q_mid a) # Some (q_mid b) # replicate n (Some (q_mid a))"
proof -
  obtain p1 p2 where r: "pacer_round null_pacer_new t [a, b] = (p1, Some (q_mid a))" "pacer_round p1 t [a, b] = (p2, Some (q_mid b))"
      "last_send p2 (q_mid a) = Some t" "last_send p2 (q_mid b) = Some t"
    using assms by (auto simp: pacer_round_def null_poll_queue_def null_handle_timeout_def null_register_send_def null_pacer_new_def last_send_def
        Let_def update_conv)
  have "snd (pacer_rounds p2 (replicate n (t, [a, b]))) = replicate n (Some (q_mid a))"
    using r(3,4) assms(1) by (intro first_of_equals) auto
  then show ?thesis using r(1,2) by (simp add: split_beta)
qed

lemma burst_not_round_robin_witness:
  "\<exists>a b :: nat queue_state. snd (pacer_rounds null_pacer_new (replicate (5 + 2) (9, [a, b]))) = Some 1 # Some 2 # replicate 5 (Some 1)"
proof -
  let ?q = "\<lambda>m :: nat. \<lparr>q_mid = m, unpaced = True, use_for_padding = False, snapshot = (snapshot_default 0)\<lparr>packet_count := 3\<rparr>\<rparr>"
  show ?thesis
    using burst_not_round_robin [of "?q 1" "?q 2" 5 9] by (intro exI [of _ "?q 1"] exI [of _ "?q 2"]) (simp add: snapshot_default_def)
qed

section \<open>What the states say\<close>

lemma run_keeps_account:
  "accounted l q a \<Longrightarrow> sorted (l # concat (map sq_time evs) @ [now]) \<Longrightarrow> length (sq_queue q) + sq_pushes evs < 2 ^ 32 \<Longrightarrow>
     sq_run q evs = Some (q', as) \<Longrightarrow> \<exists>k a'. k \<le> now \<and> accounted k q' a' \<and> length (sq_queue q') \<le> length (sq_queue q) + sq_pushes evs"
proof (induction evs arbitrary: q a l as)
  case (Cons ev evs)
  let ?l = "case sq_time ev of [] \<Rightarrow> l | now # _ \<Rightarrow> now"
  have t: "list_all ((\<le>) l) (sq_time ev)" "sorted (?l # concat (map sq_time evs) @ [now])"
  proof -
    have s: "sorted (l # (sq_time ev @ concat (map sq_time evs) @ [now]))" using Cons.prems(2) by simp
    then show "list_all ((\<le>) l) (sq_time ev)" by (simp add: list_all_iff)
    show "sorted (?l # concat (map sq_time evs) @ [now])" using s by (cases "sq_time ev") (auto simp: sorted_append)
  qed
  have "length (sq_queue q) < 2 ^ 32" using Cons.prems(3) by linarith
  from step_accounted [OF Cons.prems(1) t(1) this] obtain q1 bs a1 where s: "sq_step q ev = Some (q1, bs)" "accounted ?l q1 a1"
      "length (sq_queue q1) \<le> length (sq_queue q) + (case ev of SqPush _ _ \<Rightarrow> 1 | _ \<Rightarrow> 0)" by blast
  have n: "length (sq_queue q1) + sq_pushes evs \<le> length (sq_queue q) + sq_pushes (ev # evs)" using s(3) unfolding sq_pushes_Cons by linarith
  obtain cs where "sq_run q1 evs = Some (q', cs)" using Cons.prems(4) s(1) by (auto split: bind_splits)
  from Cons.IH [OF s(2) t(2) _ this] n Cons.prems(3) show ?case by fastforce
qed auto

lemma fold_add_resend:
  assumes "packet_count s + length rs < 2 ^ 32" "s' = fold (add_resend now) rs s"
  shows "packet_count s' = packet_count s + length rs" "snap_size s' = snap_size s + sum_list (map resend_size rs)"
    "total_queue_time_origin s' = total_queue_time_origin s + sum_list (map (\<lambda>r. now - queued_at r) rs)"
proof -
  have "packet_count s' = packet_count s + length rs \<and> snap_size s' = snap_size s + sum_list (map resend_size rs)
      \<and> total_queue_time_origin s' = total_queue_time_origin s + sum_list (map (\<lambda>r. now - queued_at r) rs)"
    using assms by (induction rs arbitrary: s) (auto simp: add_resend_def)
  then show "packet_count s' = packet_count s + length rs" "snap_size s' = snap_size s + sum_list (map resend_size rs)"
    "total_queue_time_origin s' = total_queue_time_origin s + sum_list (map (\<lambda>r. now - queued_at r) rs)" by simp_all
qed

lemma waits_later:
  "list_all (\<lambda>x. f x \<le> (now :: nat)) xs \<Longrightarrow> now \<le> later \<Longrightarrow>
     sum_list (map (\<lambda>x. later - f x) xs) = sum_list (map (\<lambda>x. now - f x) xs) + length xs * (later - now)"
  by (induction xs) auto

lemma merged_resends:
  assumes "created_at s = now" "packet_count s + length (resends t) < 2 ^ 32" "s' = merge_if s (queue_state_resend never t now)"
  shows "created_at s' = now" "packet_count s' = packet_count s + length (resends t)"
    "snap_size s' = snap_size s + sum_list (map resend_size (resends t))"
    "total_queue_time_origin s' = total_queue_time_origin s + sum_list (map (\<lambda>r. now - queued_at r) (resends t))"
    "priority s' = (if resends t = [] then priority s else Media)"
proof -
  let ?r = "fold (add_resend now) (resends t) (snapshot_default never)"
  have d: "packet_count (snapshot_default never) + length (resends t) < 2 ^ 32" using assms(2) by (simp add: snapshot_default_def)
  note f = fold_add_resend [OF d refl, where now = now]
  have "min p Media = Media" for p by (simp add: min_def) (metis antisym priority_order(1))
  then show "created_at s' = now" "packet_count s' = packet_count s + length (resends t)"
    "snap_size s' = snap_size s + sum_list (map resend_size (resends t))"
    "total_queue_time_origin s' = total_queue_time_origin s + sum_list (map (\<lambda>r. now - queued_at r) (resends t))"
    "priority s' = (if resends t = [] then priority s else Media)"
    using assms f by (auto simp: merge_if_def queue_state_resend_def snapshot_merge_def update_priority_def snapshot_default_def)
qed

lemma merged_padding:
  assumes "created_at s = now" "packet_count s + padding t div 800 < 2 ^ 32" "s' = merge_if s (queue_state_padding never t now)"
  shows "created_at s' = now" "packet_count s' = packet_count s + padding t div 800" "snap_size s' = snap_size s + padding t"
    "total_queue_time_origin s' = total_queue_time_origin s + padding t div 800 * 5000000"
    "priority s' = (if padding t = 0 then priority s else min (priority s) Padding)"
  using assms by (auto simp: merge_if_def queue_state_padding_def snapshot_merge_def snapshot_default_def Let_def
      AVERAGE_PADDING_PACKET_SIZE_def FAKE_PADDING_DURATION_MILLIS_def)

lemma stamped_by_then: "accounted k q a \<Longrightarrow> list_all (\<lambda>p. the (stamp p) \<le> k) (stamped (sq_queue q))"
  by (fastforce simp: accounted_def stamped_def by_then_def list_all_iff)

text \<open>C38. The state of a stream's queues adds up what waits: whatever was done with the send queue, as long as time does not run
  backwards and fewer than 2^32 packets wait, the state tells the octets and the packets of the send queue, the
  packets to be sent again and the padding together, and the time they will have waited at any later instant.
\<close>

theorem queue_state_adds_up:
  assumes "sq_run send_queue_new evs = Some (send_queue_of t, as)" "sorted (concat (map sq_time evs) @ [now])"
    "sq_pushes evs + length (resends t) + padding t div 800 < 2 ^ 32" "\<forall>r\<in>set (resends t). queued_at r \<le> now" "now \<le> later"
  defines "waiting \<equiv> stamped (sq_queue (send_queue_of t))" and "fake \<equiv> padding t div 800"
  shows "\<exists>t' s. queue_state_of never t now = Some (t', s)
    \<and> snap_size (snapshot s) = sum_list (map payload_len waiting) + sum_list (map resend_size (resends t)) + padding t
    \<and> packet_count (snapshot s) = length waiting + length (resends t) + fake
    \<and> total_queue_time (snapshot s) later
        = sum_list (map (\<lambda>p. later - the (stamp p)) waiting) + sum_list (map (\<lambda>r. later - queued_at r) (resends t)) + fake * 5000000 + fake * (later - now)
    \<and> priority (snapshot s) = (if waiting \<noteq> [] \<or> resends t \<noteq> [] then Media else if padding t \<noteq> 0 then Padding else Empty)"
proof -
  obtain k a where k: "k \<le> now" "accounted k (send_queue_of t) a" "length (sq_queue (send_queue_of t)) \<le> sq_pushes evs"
    using run_keeps_account [OF new_accounted _ _ assms(1), of now] assms(2,3) by (auto simp: send_queue_new_def)
  have "length (sq_queue (send_queue_of t)) < 2 ^ 32" using k(3) assms(3) by linarith
  from snapshot_accounted [OF k(2,1) this] obtain q where q: "sq_snapshot (send_queue_of t) now = Some (q, plain_snapshot now a)" by blast
  have w: "fst a = sq_queue (send_queue_of t)" using k(2) by (auto simp: accounted_def)
  let ?s = "merge_if (plain_snapshot now a) (queue_state_resend never t now)"
  have pl: "created_at (plain_snapshot now a) = now" "packet_count (plain_snapshot now a) = length waiting"
      "snap_size (plain_snapshot now a) = sum_list (map payload_len waiting)" "priority (plain_snapshot now a) = (if waiting = [] then Empty else Media)"
      "total_queue_time_origin (plain_snapshot now a) = sum_list (map (\<lambda>p. now - the (stamp p)) waiting)"
    by (simp_all add: plain_snapshot_def w waiting_def Let_def has_waited_def)
  have n: "length waiting \<le> sq_pushes evs"
    unfolding waiting_def stamped_def using k(3) length_filter_le le_trans by blast
  then have le: "packet_count (plain_snapshot now a) + length (resends t) < 2 ^ 32"
    and le': "length waiting + length (resends t) + padding t div 800 < 2 ^ 32" using assms(3) pl(2) by linarith+
  note r = merged_resends [OF pl(1) le refl, where never = never, unfolded pl]
  let ?s' = "merge_if ?s (queue_state_padding never t now)"
  have "packet_count ?s + padding t div 800 < 2 ^ 32" unfolding r by (rule le')
  note m = merged_padding [OF r(1) this refl, where never = never, unfolded r]
  have by_now: "list_all (\<lambda>p. the (stamp p) \<le> now) waiting"
    using stamped_by_then [OF k(2)] k(1) by (fastforce simp: waiting_def list_all_iff)
  have later: "sum_list (map (\<lambda>p. later - the (stamp p)) waiting) = sum_list (map (\<lambda>p. now - the (stamp p)) waiting) + length waiting * (later - now)"
      "sum_list (map (\<lambda>r. later - queued_at r) (resends t)) = sum_list (map (\<lambda>r. now - queued_at r) (resends t)) + length (resends t) * (later - now)"
    using by_now assms(4,5) by (auto intro!: waits_later simp: list_all_iff)
  have "total_queue_time ?s' later
      = sum_list (map (\<lambda>p. later - the (stamp p)) waiting) + sum_list (map (\<lambda>r. later - queued_at r) (resends t)) + fake * 5000000 + fake * (later - now)"
    unfolding total_queue_time_def m later fake_def by (simp add: algebra_simps)
  moreover have "priority ?s' = (if waiting \<noteq> [] \<or> resends t \<noteq> [] then Media else if padding t \<noteq> 0 then Padding else Empty)"
    unfolding m by (auto simp: min_def)
  moreover have "queue_state_of never t now = Some (t\<lparr>send_queue_of := q\<rparr>,
      \<lparr>q_mid = tx_mid t, unpaced = (case tx_unpaced t of None \<Rightarrow> True | Some b \<Rightarrow> b), use_for_padding = tx_padding_enabled t, snapshot = ?s'\<rparr>)"
    unfolding queue_state_of_def q by (simp add: Let_def)
  ultimately show ?thesis using m(2,3) by (auto simp: fake_def)
qed

lemma queue_state_adds_up_witness:
  "\<exists>t' s. queue_state_of 0 \<lparr>tx_mid = 7 :: nat, tx_unpaced = None, tx_padding_enabled = True,
       send_queue_of = fst (the (sq_run send_queue_new [SqPush () 100, SqTimeout 5])),
       resends = [\<lparr>resend_seq = 3, queued_at = 6, resend_size = 50\<rparr>], padding = 1000\<rparr> 10 = Some (t', s)
     \<and> snap_size (snapshot s) = 1150 \<and> packet_count (snapshot s) = 3 \<and> total_queue_time (snapshot s) 20 = 5000039 \<and> priority (snapshot s) = Media"
proof -
  let ?evs = "[SqPush () 100, SqTimeout 5]"
  let ?q = "\<lparr>sq_queue = [\<lparr>packet = (), payload_len = 100, stamp = Some 5\<rparr>],
    total = \<lparr>unsent_count = 1, unsent_size = 100, queue_time = 0, tq_last = Some 5\<rparr>, sq_last_emitted = None\<rparr>"
  let ?t = "\<lparr>tx_mid = 7 :: nat, tx_unpaced = None, tx_padding_enabled = True, send_queue_of = ?q,
    resends = [\<lparr>resend_seq = 3, queued_at = 6, resend_size = 50\<rparr>], padding = 1000\<rparr>"
  have run: "sq_run send_queue_new ?evs = Some (?q, [])" by code_simp
  then have "sq_run send_queue_new ?evs = Some (send_queue_of ?t, [])" by simp
  from queue_state_adds_up [OF this, of 10 20 0] show ?thesis
    unfolding run option.sel fst_conv by (auto simp: sq_time_def sq_pushes_def stamped_def)
qed

end
