(* ===== verification/RtxCache.thy ===== *)
theory RtxCache imports Prelude begin

text \<open>
  The cache of sent packets that answers requests to send one again, \<open>streams/rtx_cache.rs\<close> and the buffer below it,
  \<open>streams/rtx_cache_buf.rs\<close> of str0m. Instants are nanoseconds since the beginning of time, positions are natural numbers;
  the sequence number that stands for none is \<open>None\<close>. A result \<open>None\<close> of storing is a panic.
\<close>

section \<open>The buffer\<close>

record 'a buf_entry =
  be_position :: nat
  be_timestamp :: nat
  be_value :: 'a

record 'a evicting_buffer =
  eb_buf :: "'a buf_entry option list"
  max_age :: nat
  max_size :: nat
  last_position :: "nat option"
  next_evict :: "nat option"
  last_timeout :: nat

definition evicting_new :: "nat \<Rightarrow> nat \<Rightarrow> nat \<Rightarrow> 'a evicting_buffer" where
  "evicting_new initial_size age size_limit =
     \<lparr>eb_buf = replicate initial_size None, max_age = age, max_size = size_limit, last_position = None, next_evict = None, last_timeout = 0\<rparr>"

definition index_for_position :: "'a evicting_buffer \<Rightarrow> nat \<Rightarrow> nat" where
  "index_for_position b p = p mod length (eb_buf b)"

definition is_inert :: "'a evicting_buffer \<Rightarrow> bool" where
  "is_inert b \<longleftrightarrow> eb_buf b = [] \<or> max_age b = 0"

definition put_entry :: "'a buf_entry \<Rightarrow> 'a evicting_buffer \<Rightarrow> 'a evicting_buffer" where
  "put_entry e b = b\<lparr>eb_buf := (eb_buf b)[index_for_position b (be_position e) := Some e]\<rparr>"

definition grown_size :: "'a evicting_buffer \<Rightarrow> nat" where
  "grown_size b = max (min (max_size b) (length (eb_buf b) * 133 div 100)) (length (eb_buf b) + 1)"

definition eb_grow :: "'a evicting_buffer \<Rightarrow> 'a evicting_buffer" where
  "eb_grow b =
     (if max_size b \<le> length (eb_buf b) then b
      else fold put_entry (List.map_filter id (eb_buf b)) (b\<lparr>eb_buf := replicate (grown_size b) None\<rparr>))"

definition eb_push :: "nat \<Rightarrow> nat \<Rightarrow> 'a \<Rightarrow> 'a evicting_buffer \<Rightarrow> 'a evicting_buffer" where
  "eb_push p t v b =
     (if is_inert b then b
      else if t < last_timeout b then b
      else
        (let b = (if next_evict b = None then b\<lparr>next_evict := Some p\<rparr> else b) in
         if p < the (next_evict b) then b
         else
           (let b = (case eb_buf b ! index_for_position b p of
                       None \<Rightarrow> b
                     | Some e \<Rightarrow> if be_position e \<noteq> p then eb_grow b else b)
            in put_entry \<lparr>be_position = p, be_timestamp = t, be_value = v\<rparr> (b\<lparr>last_position := Some p\<rparr>))))"

definition eb_get :: "'a evicting_buffer \<Rightarrow> nat \<Rightarrow> 'a option" where
  "eb_get b p =
     (if is_inert b then None
      else case eb_buf b ! (p mod length (eb_buf b)) of
             None \<Rightarrow> None
           | Some e \<Rightarrow> if be_position e = p then Some (be_value e) else None)"

text \<open>The loop goes once around the buffer at most.\<close>

fun evict_loop :: "nat \<Rightarrow> nat \<Rightarrow> nat \<Rightarrow> 'a evicting_buffer \<Rightarrow> 'a evicting_buffer \<times> nat" where
  "evict_loop now 0 p b = (b, p)"
| "evict_loop now (Suc n) p b =
     (case eb_buf b ! index_for_position b p of
        None \<Rightarrow> evict_loop now n (p + 1) b
      | Some e \<Rightarrow>
          if max_age b < now - be_timestamp e
          then evict_loop now n (p + 1) (b\<lparr>eb_buf := (eb_buf b)[index_for_position b p := None]\<rparr>)
          else (b, p))"

definition eb_evict :: "nat \<Rightarrow> 'a evicting_buffer \<Rightarrow> 'a evicting_buffer" where
  "eb_evict now b =
     (case next_evict b of
        None \<Rightarrow> b
      | Some start \<Rightarrow> (let (b, p) = evict_loop now (length (eb_buf b)) start b in b\<lparr>next_evict := Some p\<rparr>))"

definition maybe_evict :: "nat \<Rightarrow> 'a evicting_buffer \<Rightarrow> 'a evicting_buffer" where
  "maybe_evict now b =
     (if is_inert b then b else if now < last_timeout b then b else eb_evict now (b\<lparr>last_timeout := now\<rparr>))"

definition eb_contains :: "'a evicting_buffer \<Rightarrow> nat \<Rightarrow> bool" where
  "eb_contains b p \<longleftrightarrow> \<not> is_inert b \<and> eb_buf b ! index_for_position b p \<noteq> None"

definition eb_last_position :: "'a evicting_buffer \<Rightarrow> nat option" where
  "eb_last_position b = (if is_inert b then None else last_position b)"

definition eb_last :: "'a evicting_buffer \<Rightarrow> 'a option" where
  "eb_last b = (if is_inert b then None else do { p \<leftarrow> last_position b; eb_get b p })"

definition eb_clear :: "'a evicting_buffer \<Rightarrow> 'a evicting_buffer" where
  "eb_clear b = b\<lparr>eb_buf := map (\<lambda>_. None) (eb_buf b), last_position := None, next_evict := None, last_timeout := 0\<rparr>"

section \<open>The cache\<close>

definition RTX_CACHE_SIZE_QUANTIZER :: nat where "RTX_CACHE_SIZE_QUANTIZER = 25"

definition RTX_CACHE_QUANTIZE_SLOTS :: nat where "RTX_CACHE_QUANTIZE_SLOTS = 2000 div RTX_CACHE_SIZE_QUANTIZER"

record sent_packet =
  sp_seq_no :: nat
  sp_payload :: bytes
  nackable :: bool

record rtx_cache =
  packet_by_seq_no :: "sent_packet evicting_buffer"
  seq_no_by_quantized_size :: "nat option list"

definition rtx_cache_new :: "nat \<Rightarrow> nat \<Rightarrow> rtx_cache" where
  "rtx_cache_new max_packet_count max_packet_age =
     \<lparr>packet_by_seq_no = evicting_new 10 max_packet_age max_packet_count,
      seq_no_by_quantized_size = replicate RTX_CACHE_QUANTIZE_SLOTS None\<rparr>"

definition cache_sent_packet :: "rtx_cache \<Rightarrow> sent_packet \<Rightarrow> nat \<Rightarrow> rtx_cache option" where
  "cache_sent_packet c p now =
     (if \<not> nackable p then None
      else do {
        slots \<leftarrow> put (seq_no_by_quantized_size c) (length (sp_payload p) div RTX_CACHE_SIZE_QUANTIZER) (Some (sp_seq_no p));
        Some \<lparr>packet_by_seq_no = maybe_evict now (eb_push (sp_seq_no p) now p (packet_by_seq_no c)), seq_no_by_quantized_size = slots\<rparr> })"

definition last_cached_seq_no :: "rtx_cache \<Rightarrow> nat option" where
  "last_cached_seq_no c = eb_last_position (packet_by_seq_no c)"

definition get_cached_packet_by_seq_no :: "rtx_cache \<Rightarrow> nat \<Rightarrow> sent_packet option" where
  "get_cached_packet_by_seq_no c s = eb_get (packet_by_seq_no c) s"

text \<open>The outer \<open>None\<close> is a panic.\<close>

definition get_cached_packet_smaller_than :: "rtx_cache \<Rightarrow> nat \<Rightarrow> sent_packet option option" where
  "get_cached_packet_smaller_than c n = do {
     slots \<leftarrow> slice (seq_no_by_quantized_size c) 0 (n div RTX_CACHE_SIZE_QUANTIZER);
     Some (do {
       s \<leftarrow> find (eb_contains (packet_by_seq_no c)) (List.map_filter id (rev slots));
       get_cached_packet_by_seq_no c s }) }"

definition rtx_last_packet :: "rtx_cache \<Rightarrow> bytes option" where
  "rtx_last_packet c = map_option sp_payload (eb_last (packet_by_seq_no c))"

definition rtx_clear :: "rtx_cache \<Rightarrow> rtx_cache" where
  "rtx_clear c = \<lparr>packet_by_seq_no = eb_clear (packet_by_seq_no c), seq_no_by_quantized_size = replicate RTX_CACHE_QUANTIZE_SLOTS None\<rparr>"

fun cache_all :: "rtx_cache \<Rightarrow> (sent_packet \<times> nat) list \<Rightarrow> rtx_cache option" where
  "cache_all c [] = Some c"
| "cache_all c ((p, now) # ps) = do { c \<leftarrow> cache_sent_packet c p now; cache_all c ps }"

section \<open>What is kept\<close>

text \<open>
  The buffer while consecutive packets are stored, the last at \<open>hi\<close>: each entry is in its place, less than the length of the
  buffer behind the last, and one of those stored (\<open>what\<close> tells them).
\<close>

definition in_place :: "(nat \<Rightarrow> 'a buf_entry option) \<Rightarrow> nat \<Rightarrow> 'a evicting_buffer \<Rightarrow> bool" where
  "in_place what hi b \<longleftrightarrow> 0 < length (eb_buf b) \<and>
     (\<forall>i<length (eb_buf b). \<forall>e. eb_buf b ! i = Some e \<longrightarrow>
        be_position e mod length (eb_buf b) = i \<and> be_position e \<le> hi \<and> hi < be_position e + length (eb_buf b) \<and> what (be_position e) = Some e)"

definition holds :: "'a evicting_buffer \<Rightarrow> 'a buf_entry \<Rightarrow> bool" where
  "holds b e \<longleftrightarrow> eb_buf b ! (be_position e mod length (eb_buf b)) = Some e"

lemma put_entry_nth:
  "0 < length (eb_buf b) \<Longrightarrow> i < length (eb_buf b) \<Longrightarrow>
     eb_buf (put_entry e b) ! i = (if i = be_position e mod length (eb_buf b) then Some e else eb_buf b ! i)"
  by (auto simp: put_entry_def index_for_position_def nth_list_update)

lemma put_entry_fields [simp]:
  "length (eb_buf (put_entry e b)) = length (eb_buf b)" "max_age (put_entry e b) = max_age b" "max_size (put_entry e b) = max_size b"
  "next_evict (put_entry e b) = next_evict b" "last_timeout (put_entry e b) = last_timeout b" "last_position (put_entry e b) = last_position b"
  by (simp_all add: put_entry_def)

lemma fold_put_fields:
  "length (eb_buf (fold put_entry es b)) = length (eb_buf b) \<and> max_age (fold put_entry es b) = max_age b \<and> max_size (fold put_entry es b) = max_size b
   \<and> next_evict (fold put_entry es b) = next_evict b \<and> last_timeout (fold put_entry es b) = last_timeout b"
  by (induction es arbitrary: b) simp_all

lemma fold_put_nth:
  assumes "0 < n" "length (eb_buf b) = n" "i < n"
  shows "(\<exists>e\<in>set es. be_position e mod n = i \<and> eb_buf (fold put_entry es b) ! i = Some e)
    \<or> (\<forall>e\<in>set es. be_position e mod n \<noteq> i) \<and> eb_buf (fold put_entry es b) ! i = eb_buf b ! i"
  using assms
proof (induction es arbitrary: b)
  case (Cons e es)
  then show ?case using Cons.IH [of "put_entry e b"] by (auto simp: put_entry_nth)
qed simp

text \<open>Positions less than \<open>n\<close> apart are in different places.\<close>

lemma mod_near: "a mod n = b mod n \<Longrightarrow> a \<le> hi \<Longrightarrow> b \<le> hi \<Longrightarrow> hi < a + n \<Longrightarrow> hi < b + n \<Longrightarrow> a = (b :: nat)"
proof -
  assume m: "a mod n = b mod n" and h: "a \<le> hi" "b \<le> hi" "hi < a + n" "hi < b + n"
  have "x = y" if "x \<le> y" "x mod n = y mod n" "y < x + n" for x y :: nat
  proof -
    have "n dvd y - x" using that(1,2) by (metis mod_eq_dvd_iff_nat)
    moreover have "y - x < n" using that(1,3) by linarith
    ultimately show ?thesis using that(1) by (metis dvd_imp_le gr0I leD diff_is_0_eq le_antisym)
  qed
  then show ?thesis using m h by (cases "a \<le> b") (metis le_less_trans nat_le_linear)+
qed

lemma set_those_there: "e \<in> set (List.map_filter id xs) \<longleftrightarrow> Some e \<in> set xs"
  by (induction xs) (auto simp: List.map_filter_simps split: option.split)

lemma grow_keeps:
  assumes "in_place what hi b" "max_size b > length (eb_buf b)"
  shows "in_place what hi (eb_grow b)" "length (eb_buf b) < length (eb_buf (eb_grow b))" "holds b e \<Longrightarrow> holds (eb_grow b) e"
    "holds (eb_grow b) e \<Longrightarrow> holds b e" "max_age (eb_grow b) = max_age b" "max_size (eb_grow b) = max_size b" "next_evict (eb_grow b) = next_evict b" "last_timeout (eb_grow b) = last_timeout b"
proof -
  let ?n = "grown_size b"
  let ?es = "List.map_filter id (eb_buf b)"
  let ?b = "b\<lparr>eb_buf := replicate ?n None\<rparr>"
  have n: "length (eb_buf b) < ?n" by (simp add: grown_size_def)
  have g: "eb_grow b = fold put_entry ?es ?b" using assms(2) by (simp add: eb_grow_def)
  note f = fold_put_fields [of ?es ?b]
  have es: "be_position e \<le> hi \<and> hi < be_position e + length (eb_buf b) \<and> what (be_position e) = Some e" if m: "e \<in> set ?es" for e
  proof -
    obtain i where "i < length (eb_buf b)" "eb_buf b ! i = Some e" using m set_those_there [of e "eb_buf b"] in_set_conv_nth [of "Some e" "eb_buf b"] by blast
    then show ?thesis using assms(1) unfolding in_place_def by blast
  qed
  have at: "(\<exists>e\<in>set ?es. be_position e mod ?n = i \<and> eb_buf (eb_grow b) ! i = Some e)
      \<or> (\<forall>e\<in>set ?es. be_position e mod ?n \<noteq> i) \<and> eb_buf (eb_grow b) ! i = None" if "i < ?n" for i
    using fold_put_nth [of ?n ?b i ?es] that n unfolding g by auto
  have l: "length (eb_buf (eb_grow b)) = ?n" using f by (simp add: g)
  show "length (eb_buf b) < length (eb_buf (eb_grow b))" using n l by simp
  show "in_place what hi (eb_grow b)" unfolding in_place_def l using n at es by (fastforce simp: le_less_trans)
  show "holds (eb_grow b) e" if h: "holds b e"
  proof -
    have "0 < length (eb_buf b)" using assms(1) by (simp add: in_place_def)
    then have "be_position e mod length (eb_buf b) < length (eb_buf b)" by simp
    then have e: "e \<in> set ?es" using h unfolding holds_def set_those_there by (metis nth_mem)
    have i: "be_position e mod ?n < ?n" using n by simp
    obtain e' where e': "e' \<in> set ?es" "be_position e' mod ?n = be_position e mod ?n" "eb_buf (eb_grow b) ! (be_position e mod ?n) = Some e'"
      using at [OF i] e by auto
    have "be_position e' = be_position e"
      using mod_near [OF e'(2), of hi] es [OF e] es [OF e'(1)] n by linarith
    then have "e' = e" using es [OF e] es [OF e'(1)] by simp
    then show ?thesis using e'(3) by (simp add: holds_def l)
  qed
  show "holds b e" if h: "holds (eb_grow b) e"
  proof -
    have "be_position e mod ?n < ?n" using n by simp
    from at [OF this] have "Some e \<in> set (eb_buf b)" using h by (auto simp: holds_def l set_those_there)
    then obtain i where "i < length (eb_buf b)" "eb_buf b ! i = Some e" by (auto simp: in_set_conv_nth)
    then show ?thesis using assms(1) by (auto simp: in_place_def holds_def)
  qed
  show "max_age (eb_grow b) = max_age b" "max_size (eb_grow b) = max_size b" "next_evict (eb_grow b) = next_evict b" "last_timeout (eb_grow b) = last_timeout b"
    using f by (simp_all add: g)
qed

lemma push_keeps:
  fixes p t v b
  defines "e \<equiv> \<lparr>be_position = p, be_timestamp = t, be_value = v\<rparr>" and "b' \<equiv> eb_push p t v b"
  assumes k: "in_place what hi b" and p: "hi \<le> p" "p \<le> hi + 1" and b: "\<not> is_inert b" "last_timeout b \<le> t" "case next_evict b of None \<Rightarrow> True | Some s \<Rightarrow> s \<le> p"
  shows "in_place (what(p \<mapsto> e)) p b'" "holds b' e" "holds b e' \<Longrightarrow> be_position e' \<noteq> p \<Longrightarrow> p - be_position e' < max_size b \<Longrightarrow> holds b' e'"
    "max_age b' = max_age b" "max_size b' = max_size b" "last_timeout b' = last_timeout b"
    "next_evict b' = Some (case next_evict b of None \<Rightarrow> p | Some s \<Rightarrow> s)"
proof -
  define b1 where "b1 = (if next_evict b = None then b\<lparr>next_evict := Some p\<rparr> else b)"
  let ?n = "length (eb_buf b)"
  have b1: "eb_buf b1 = eb_buf b" "max_age b1 = max_age b" "max_size b1 = max_size b" "last_timeout b1 = last_timeout b"
      "next_evict b1 = Some (case next_evict b of None \<Rightarrow> p | Some s \<Rightarrow> s)"
    by (auto simp: b1_def split: option.split)
  have k1: "in_place what hi b1" using k by (simp add: in_place_def b1)
  have h1: "holds b1 x = holds b x" for x by (simp add: holds_def b1)
  define b2 where "b2 = (case eb_buf b1 ! index_for_position b1 p of None \<Rightarrow> b1 | Some x \<Rightarrow> if be_position x \<noteq> p then eb_grow b1 else b1)"
  have n: "0 < ?n" using k by (simp add: in_place_def)
  have b': "b' = put_entry e (b2\<lparr>last_position := Some p\<rparr>)"
    using b by (simp add: b'_def eb_push_def b2_def [symmetric] b1_def [symmetric] e_def Let_def b1(5) split: option.splits)
  have other: "be_position x + ?n = p \<and> eb_buf b ! (p mod ?n) = Some x" if "holds b x" "be_position x mod ?n = p mod ?n" "be_position x \<noteq> p" for x
  proof -
    have x: "be_position x \<le> hi" "hi < be_position x + ?n" "eb_buf b ! (p mod ?n) = Some x"
      using k that n by (auto simp: in_place_def holds_def dest!: spec [of _ "p mod ?n"])
    then have "be_position x + ?n = p \<or> p < be_position x + ?n" using p by linarith
    then show ?thesis using mod_near [OF that(2), of p] x p that(3) by linarith
  qed
  have b2: "in_place what hi b2 \<and> (\<forall>x. holds b2 x = holds b x) \<and> max_age b2 = max_age b \<and> max_size b2 = max_size b
      \<and> last_timeout b2 = last_timeout b \<and> next_evict b2 = next_evict b1"
    using grow_keeps [OF k1] k1 b1 h1
    by (cases "max_size b \<le> ?n") (auto simp: b2_def eb_grow_def split: option.split)
  have n2: "0 < length (eb_buf b2)" using b2 by (simp add: in_place_def)
  have grown: "?n < length (eb_buf b2) \<or> length (eb_buf b2) = ?n \<and> (max_size b \<le> ?n \<or> (\<forall>x. eb_buf b ! (p mod ?n) = Some x \<longrightarrow> be_position x = p))"
    using grow_keeps(2) [OF k1] b1 unfolding b2_def index_for_position_def
    by (cases "max_size b \<le> ?n") (auto simp: eb_grow_def split: option.split)
  have bound: "be_position x \<le> hi \<and> hi < be_position x + ?n" if "holds b x" for x
    using k that n by (auto simp: in_place_def holds_def dest!: spec [of _ "be_position x mod ?n"])
  have near: "be_position x mod length (eb_buf b2) \<noteq> p mod length (eb_buf b2) \<and> p < be_position x + length (eb_buf b2)
      \<or> max_size b \<le> p - be_position x \<and> be_position x mod length (eb_buf b2) = p mod length (eb_buf b2)" if x: "holds b x" "be_position x \<noteq> p" for x
  proof (cases "?n < length (eb_buf b2)")
    case True
    then have "p < be_position x + length (eb_buf b2)" using bound [OF x(1)] p by linarith
    then show ?thesis using mod_near [of "be_position x" _ p p] bound [OF x(1)] p x(2) n2 by fastforce
  next
    case False
    then have l: "length (eb_buf b2) = ?n" using grown by blast
    show ?thesis
    proof (cases "be_position x mod ?n = p mod ?n")
      case True
      then show ?thesis using other [OF x(1) True x(2)] grown False x(2) l by auto
    next
      case False
      then have "p \<noteq> be_position x + ?n" by auto
      then have "p < be_position x + ?n" using bound [OF x(1)] p by linarith
      then show ?thesis using False l by simp
    qed
  qed
  have at: "eb_buf b' ! i = (if i = p mod length (eb_buf b2) then Some e else eb_buf b2 ! i)" if "i < length (eb_buf b2)" for i
    using put_entry_nth [of "b2\<lparr>last_position := Some p\<rparr>" i e] that n2 unfolding b' by (simp add: e_def)
  have l': "length (eb_buf b') = length (eb_buf b2)" by (simp add: b')
  show "holds b' e" using at [of "p mod length (eb_buf b2)"] n2 by (simp add: holds_def l' e_def)
  show "in_place (what(p \<mapsto> e)) p b'"
    unfolding in_place_def l'
  proof (intro conjI allI impI n2)
    fix i x assume i: "i < length (eb_buf b2)" "eb_buf b' ! i = Some x"
    have "be_position x mod length (eb_buf b2) = i \<and> be_position x \<le> p \<and> p < be_position x + length (eb_buf b2) \<and> (what(p \<mapsto> e)) (be_position x) = Some x"
    proof (cases "i = p mod length (eb_buf b2)")
      case True
      then have "x = e" using at [OF i(1)] i(2) by simp
      then show ?thesis using True n2 by (simp add: e_def)
    next
      case False
      then have x: "eb_buf b2 ! i = Some x" using at [OF i(1)] i(2) by simp
      then have ip: "be_position x mod length (eb_buf b2) = i" "be_position x \<le> hi" "what (be_position x) = Some x"
        using conjunct1 [OF b2] i(1) unfolding in_place_def by blast+
      have "holds b2 x" using x ip(1) by (simp add: holds_def)
      then have "holds b x" using b2 by blast
      moreover have "be_position x \<noteq> p" using ip(1) False by auto
      ultimately show ?thesis using near [of x] ip False p(1) by auto
    qed
    then show "be_position x mod length (eb_buf b2) = i" "be_position x \<le> p" "p < be_position x + length (eb_buf b2)" "(what(p \<mapsto> e)) (be_position x) = Some x"
      by simp_all
  qed
  show "holds b' e'" if "holds b e'" "be_position e' \<noteq> p" "p - be_position e' < max_size b"
    using near [OF that(1,2)] that b2 at [of "be_position e' mod length (eb_buf b2)"] n2 by (simp add: holds_def l')
  show "max_age b' = max_age b" "max_size b' = max_size b" "last_timeout b' = last_timeout b"
    "next_evict b' = Some (case next_evict b of None \<Rightarrow> p | Some s \<Rightarrow> s)"
    using b2 b1 by (simp_all add: b')
qed

lemma evict_loop_keeps:
  "evict_loop now n p b = (b', q) \<Longrightarrow> in_place what hi b \<Longrightarrow>
     in_place what hi b' \<and> (\<forall>e. holds b e \<and> now - be_timestamp e \<le> max_age b \<longrightarrow> holds b' e) \<and> length (eb_buf b') = length (eb_buf b)
     \<and> max_age b' = max_age b \<and> max_size b' = max_size b \<and> last_timeout b' = last_timeout b \<and> p \<le> q \<and> q \<le> p + n
     \<and> (holds b h \<and> now - be_timestamp h \<le> max_age b \<and> p \<le> be_position h \<longrightarrow> q \<le> be_position h)"
proof (induction now n p b rule: evict_loop.induct)
  case (1 now p b)
  then show ?case by simp
next
  case (2 now n p b)
  let ?i = "index_for_position b p"
  have i: "?i < length (eb_buf b)" using "2.prems"(2) by (simp add: index_for_position_def in_place_def)
  show ?case
  proof (cases "eb_buf b ! ?i")
    case None
    then have r: "evict_loop now n (p + 1) b = (b', q)" using "2.prems"(1) by simp
    have "p \<noteq> be_position h" if "holds b h" using that None by (auto simp: holds_def index_for_position_def)
    then show ?thesis using "2.IH"(1) [OF None r "2.prems"(2)] by fastforce
  next
    case (Some e)
    show ?thesis
    proof (cases "max_age b < now - be_timestamp e")
      case True
      let ?b = "b\<lparr>eb_buf := (eb_buf b)[?i := None]\<rparr>"
      have r: "evict_loop now n (p + 1) ?b = (b', q)" using "2.prems"(1) Some True by simp
      have "in_place what hi ?b" using "2.prems"(2) i by (auto simp: in_place_def nth_list_update split: if_splits)
      note IH = "2.IH"(2) [OF Some True r this]
      have stay: "holds ?b x" if "holds b x" "now - be_timestamp x \<le> max_age b" for x
      proof -
        have "be_position x mod length (eb_buf b) \<noteq> ?i" using that Some True by (auto simp: holds_def)
        then show ?thesis using that(1) by (simp add: holds_def)
      qed
      moreover have "p \<noteq> be_position h" if "holds b h" "now - be_timestamp h \<le> max_age b"
        using that Some True by (auto simp: holds_def index_for_position_def)
      ultimately show ?thesis using IH by fastforce
    qed (use "2.prems" Some in auto)
  qed
qed

lemma in_place_next: "in_place what hi (b\<lparr>next_evict := x\<rparr>) = in_place what hi b"
  by (simp add: in_place_def)

definition packet_entry :: "nat \<Rightarrow> sent_packet \<times> nat \<Rightarrow> sent_packet buf_entry" where
  "packet_entry s pt = \<lparr>be_position = s, be_timestamp = snd pt, be_value = fst pt\<rparr>"

lemma packet_entry_simps [simp]: "be_position (packet_entry s pt) = s" "be_timestamp (packet_entry s pt) = snd pt" "be_value (packet_entry s pt) = fst pt"
  by (simp_all add: packet_entry_def)

text \<open>Packets below \<open>s\<close> have been cached, the last at \<open>hi\<close> and no later than \<open>t\<close>; \<open>sent\<close> tells them.\<close>

definition cache_inv :: "(nat \<rightharpoonup> sent_packet \<times> nat) \<Rightarrow> nat \<Rightarrow> nat \<Rightarrow> nat \<Rightarrow> rtx_cache \<Rightarrow> bool" where
  "cache_inv sent hi s t c \<longleftrightarrow>
     hi \<le> s \<and> s \<le> hi + 1 \<and> in_place (\<lambda>x. map_option (packet_entry x) (sent x)) hi (packet_by_seq_no c) \<and> \<not> is_inert (packet_by_seq_no c)
     \<and> last_timeout (packet_by_seq_no c) \<le> t \<and> (case next_evict (packet_by_seq_no c) of None \<Rightarrow> True | Some x \<Rightarrow> x \<le> s)
     \<and> (\<forall>x\<in>dom sent. x < s) \<and> (\<forall>x y. sent x = Some y \<longrightarrow> sp_seq_no (fst y) = x)
     \<and> (\<forall>q x. q < length (seq_no_by_quantized_size c) \<and> seq_no_by_quantized_size c ! q = Some x \<longrightarrow>
          (\<exists>y. sent x = Some y \<and> length (sp_payload (fst y)) div RTX_CACHE_SIZE_QUANTIZER = q))"

lemma cache_step:
  assumes "cache_sent_packet c p now = Some c'" "cache_inv sent hi s t c" "sp_seq_no p = s" "t \<le> now"
  shows "cache_inv (sent(s \<mapsto> (p, now))) s (s + 1) now c'" "holds (packet_by_seq_no c') (packet_entry s (p, now))"
    "holds (packet_by_seq_no c) e \<Longrightarrow> be_position e < s \<Longrightarrow> s - be_position e < max_size (packet_by_seq_no c) \<Longrightarrow>
       now - be_timestamp e \<le> max_age (packet_by_seq_no c) \<Longrightarrow> holds (packet_by_seq_no c') e"
    "max_size (packet_by_seq_no c') = max_size (packet_by_seq_no c)" "max_age (packet_by_seq_no c') = max_age (packet_by_seq_no c)"
proof -
  let ?b = "packet_by_seq_no c"
  let ?e = "packet_entry s (p, now)"
  let ?what = "\<lambda>x. map_option (packet_entry x) (sent x)"
  define b1 where "b1 = eb_push s now p ?b"
  note I = assms(2) [unfolded cache_inv_def]
  have P: "in_place ?what hi ?b" "hi \<le> s" "s \<le> hi + 1" "\<not> is_inert ?b" "last_timeout ?b \<le> now"
      "case next_evict ?b of None \<Rightarrow> True | Some x \<Rightarrow> x \<le> s" using I assms(4) by auto
  have e: "\<lparr>be_position = s, be_timestamp = now, be_value = p\<rparr> = ?e" by (simp add: packet_entry_def)
  note push = push_keeps [OF P, where v = p, folded b1_def, unfolded e]
  have w: "?what(s \<mapsto> ?e) = (\<lambda>x. map_option (packet_entry x) ((sent(s \<mapsto> (p, now))) x))" by auto
  obtain st where st: "next_evict b1 = Some st" "st \<le> s" using push(7) P(6) by (cases "next_evict ?b") auto
  have inert: "\<not> is_inert b1" using push(1,4) P(4) by (auto simp: is_inert_def in_place_def)
  define b2 where "b2 = b1\<lparr>last_timeout := now\<rparr>"
  have b2: "eb_buf b2 = eb_buf b1" "max_age b2 = max_age ?b" "max_size b2 = max_size ?b" "last_timeout b2 = now" "next_evict b2 = Some st"
    using push(4,5) st by (simp_all add: b2_def)
  obtain b3 q where l: "evict_loop now (length (eb_buf b2)) st b2 = (b3, q)" by (cases "evict_loop now (length (eb_buf b2)) st b2")
  have ip2: "in_place (?what(s \<mapsto> ?e)) s b2" using push(1) by (simp add: in_place_def b2)
  have h2: "holds b2 x = holds b1 x" for x by (simp add: holds_def b2)
  note ev = evict_loop_keeps [OF l ip2, of ?e]
  have m: "maybe_evict now b1 = b3\<lparr>next_evict := Some q\<rparr>"
    using inert push(6) P(5) b2(5) l by (simp add: maybe_evict_def eb_evict_def b2_def [symmetric])
  obtain slots where c': "c' = \<lparr>packet_by_seq_no = b3\<lparr>next_evict := Some q\<rparr>, seq_no_by_quantized_size = slots\<rparr>"
      "put (seq_no_by_quantized_size c) (length (sp_payload p) div RTX_CACHE_SIZE_QUANTIZER) (Some s) = Some slots"
    using assms(1,3) m by (auto simp: cache_sent_packet_def b1_def split: if_splits bind_splits)
  have h3: "holds (packet_by_seq_no c') x = holds b3 x" for x by (simp add: c'(1) holds_def)
  have "now - be_timestamp ?e \<le> max_age b2" by simp
  then have held: "holds b3 ?e" "q \<le> s" using ev push(2) st(2) by (simp_all add: h2)
  show "holds (packet_by_seq_no c') ?e" using held h3 by simp
  show "holds (packet_by_seq_no c') e" if "holds ?b e" "be_position e < s" "s - be_position e < max_size ?b" "now - be_timestamp e \<le> max_age ?b"
    using push(3) [OF that(1) _ that(3)] that(2,4) ev by (auto simp: h2 h3 b2)
  show "max_size (packet_by_seq_no c') = max_size ?b" "max_age (packet_by_seq_no c') = max_age ?b" using ev b2 by (simp_all add: c'(1))
  show "cache_inv (sent(s \<mapsto> (p, now))) s (s + 1) now c'"
    unfolding cache_inv_def
  proof (intro conjI)
    show "in_place (\<lambda>x. map_option (packet_entry x) ((sent(s \<mapsto> (p, now))) x)) s (packet_by_seq_no c')"
      unfolding w [symmetric] c'(1) rtx_cache.simps in_place_next using ev by blast
    show "\<not> is_inert (packet_by_seq_no c')" using inert ev b2 push(4) by (auto simp: is_inert_def c'(1))
    show "\<forall>q x. q < length (seq_no_by_quantized_size c') \<and> seq_no_by_quantized_size c' ! q = Some x \<longrightarrow>
        (\<exists>y. (sent(s \<mapsto> (p, now))) x = Some y \<and> length (sp_payload (fst y)) div RTX_CACHE_SIZE_QUANTIZER = q)"
    proof (intro allI impI, elim conjE)
      fix q x assume q: "q < length (seq_no_by_quantized_size c')" "seq_no_by_quantized_size c' ! q = Some x"
      have sl: "length slots = length (seq_no_by_quantized_size c)" using put_length [OF c'(2)] .
      show "\<exists>y. (sent(s \<mapsto> (p, now))) x = Some y \<and> length (sp_payload (fst y)) div RTX_CACHE_SIZE_QUANTIZER = q"
      proof (cases "q = length (sp_payload p) div RTX_CACHE_SIZE_QUANTIZER")
        case True
        then have "x = s" using q c' sl by (auto simp: put_def split: if_splits)
        then show ?thesis using True by auto
      next
        case False
        then have "seq_no_by_quantized_size c ! q = Some x" "q < length (seq_no_by_quantized_size c)"
          using q c' sl by (auto simp: put_def split: if_splits)
        then obtain y where y: "sent x = Some y" "length (sp_payload (fst y)) div RTX_CACHE_SIZE_QUANTIZER = q" using I by blast
        then have "x \<noteq> s" using I by auto
        then show ?thesis using y by auto
      qed
    qed
    have "\<forall>x\<in>dom sent. x < s" "\<forall>x y. sent x = Some y \<longrightarrow> sp_seq_no (fst y) = x" using I by blast+
    then show "\<forall>x\<in>dom (sent(s \<mapsto> (p, now))). x < s + 1" "\<forall>x y. (sent(s \<mapsto> (p, now))) x = Some y \<longrightarrow> sp_seq_no (fst y) = x"
      using assms(3) by (auto simp: less_Suc_eq)
    show "last_timeout (packet_by_seq_no c') \<le> now" using ev b2(4) by (simp add: c'(1))
    show "case next_evict (packet_by_seq_no c') of None \<Rightarrow> True | Some x \<Rightarrow> x \<le> s + 1" using held(2) by (simp add: c'(1))
  qed simp_all
qed

lemma cache_all_keeps:
  "cache_all c ps = Some c' \<Longrightarrow> cache_inv sent hi s t c \<Longrightarrow> sorted (t # map snd ps) \<Longrightarrow> \<forall>k<length ps. sp_seq_no (fst (ps ! k)) = s + k \<Longrightarrow> ps \<noteq> [] \<Longrightarrow>
     (\<exists>sent'. cache_inv sent' (s + length ps - 1) (s + length ps) (snd (last ps)) c' \<and> (\<forall>x y. sent' x = Some y \<longrightarrow> sent x = Some y \<or> y \<in> set ps))
     \<and> max_size (packet_by_seq_no c') = max_size (packet_by_seq_no c) \<and> max_age (packet_by_seq_no c') = max_age (packet_by_seq_no c)
     \<and> (\<forall>e. (holds (packet_by_seq_no c) e \<and> be_position e < s \<or> (\<exists>k<length ps. e = packet_entry (s + k) (ps ! k)))
          \<and> (s + length ps - 1 - be_position e < max_size (packet_by_seq_no c) \<or> be_position e = s + length ps - 1)
          \<and> snd (last ps) - be_timestamp e \<le> max_age (packet_by_seq_no c) \<longrightarrow> holds (packet_by_seq_no c') e)"
proof (induction ps arbitrary: c sent hi s t)
  case (Cons pt ps)
  obtain p now where pt: "pt = (p, now)" by (cases pt)
  obtain c1 where c1: "cache_sent_packet c p now = Some c1" "cache_all c1 ps = Some c'" using Cons.prems(1) pt by (auto split: bind_splits)
  have sp: "sp_seq_no p = s" "t \<le> now" using Cons.prems(3,4) pt by auto
  note st = cache_step [OF c1(1) Cons.prems(2) sp]
  show ?case
  proof (cases "ps = []")
    case True
    then have c': "c' = c1" using c1(2) by simp
    have "\<exists>sent'. cache_inv sent' (s + length (pt # ps) - 1) (s + length (pt # ps)) (snd (last (pt # ps))) c'
        \<and> (\<forall>x y. sent' x = Some y \<longrightarrow> sent x = Some y \<or> y \<in> set (pt # ps))"
      using st(1) True c' pt by (intro exI [of _ "sent(s \<mapsto> (p, now))"]) auto
    moreover have "holds (packet_by_seq_no c') e"
      if "holds (packet_by_seq_no c) e \<and> be_position e < s \<or> (\<exists>k<length (pt # ps). e = packet_entry (s + k) ((pt # ps) ! k))"
        "s + length (pt # ps) - 1 - be_position e < max_size (packet_by_seq_no c) \<or> be_position e = s + length (pt # ps) - 1"
        "snd (last (pt # ps)) - be_timestamp e \<le> max_age (packet_by_seq_no c)" for e
      using that st(2) st(3) [of e] True c' pt by auto
    ultimately show ?thesis using st(4,5) c' by blast
  next
    case False
    have seqs: "\<forall>k<length ps. sp_seq_no (fst (ps ! k)) = s + 1 + k" using Cons.prems(4) by (metis Suc_less_eq add_Suc_shift length_Cons nth_Cons_Suc plus_1_eq_Suc add.assoc)
    have sorted: "sorted (now # map snd ps)" using Cons.prems(3) pt by simp
    note IH = Cons.IH [OF c1(2) st(1) sorted seqs False]
    have l: "s + 1 + length ps - 1 = s + length (pt # ps) - 1" "s + 1 + length ps = s + length (pt # ps)" "last (pt # ps) = last ps" using False by simp_all
    have late: "now \<le> snd (last ps)" using sorted False by (cases ps rule: rev_cases) (auto simp: sorted_append)
    obtain sent' where sent': "cache_inv sent' (s + length (pt # ps) - 1) (s + length (pt # ps)) (snd (last ps)) c'"
        "\<forall>x y. sent' x = Some y \<longrightarrow> (sent(s \<mapsto> (p, now))) x = Some y \<or> y \<in> set ps" using IH unfolding l by blast
    have "\<forall>x y. sent' x = Some y \<longrightarrow> sent x = Some y \<or> y \<in> set (pt # ps)" using sent'(2) pt by (auto split: if_splits)
    moreover have "holds (packet_by_seq_no c') e"
      if e: "holds (packet_by_seq_no c) e \<and> be_position e < s \<or> (\<exists>k<length (pt # ps). e = packet_entry (s + k) ((pt # ps) ! k))"
        "s + length (pt # ps) - 1 - be_position e < max_size (packet_by_seq_no c) \<or> be_position e = s + length (pt # ps) - 1"
        "snd (last ps) - be_timestamp e \<le> max_age (packet_by_seq_no c)" for e
    proof -
      have "holds (packet_by_seq_no c1) e \<and> be_position e < s + 1 \<or> (\<exists>k<length ps. e = packet_entry (s + 1 + k) (ps ! k))"
      proof (cases "holds (packet_by_seq_no c) e \<and> be_position e < s")
        case True
        moreover have "0 < length ps" using False by simp
        ultimately have "s - be_position e < max_size (packet_by_seq_no c)" "now - be_timestamp e \<le> max_age (packet_by_seq_no c)"
          using e(2,3) late by simp_all
        then show ?thesis using st(3) [of e] True by simp
      next
        case False
        then obtain k where k: "k < length (pt # ps)" "e = packet_entry (s + k) ((pt # ps) ! k)" using e(1) by blast
        then show ?thesis using st(2) pt by (cases k) auto
      qed
      then show ?thesis using IH e(2,3) st(4,5) unfolding l by auto
    qed
    ultimately show ?thesis using sent'(1) IH st(4,5) l(3) by auto
  qed
qed simp

lemma new_cache_inv: "0 < age \<Longrightarrow> cache_inv (\<lambda>_. None) s s 0 (rtx_cache_new n age)"
  by (simp add: cache_inv_def rtx_cache_new_def evicting_new_def in_place_def is_inert_def)

lemma got_was_sent:
  assumes "cache_inv sent hi s t c" "get_cached_packet_by_seq_no c x = Some p"
  shows "\<exists>y. sent x = Some y \<and> p = fst y"
proof -
  let ?b = "packet_by_seq_no c"
  have ip: "in_place (\<lambda>x. map_option (packet_entry x) (sent x)) hi ?b" using assms(1) by (simp add: cache_inv_def)
  then have i: "x mod length (eb_buf ?b) < length (eb_buf ?b)" by (simp add: in_place_def)
  obtain e where e: "eb_buf ?b ! (x mod length (eb_buf ?b)) = Some e" "be_position e = x" "be_value e = p"
    using assms(2) by (auto simp: get_cached_packet_by_seq_no_def eb_get_def split: if_splits option.splits)
  then have "map_option (packet_entry x) (sent x) = Some e" using ip i unfolding in_place_def by blast
  then show ?thesis using e(3) by auto
qed

text \<open>C22. The cache answers right: of consecutive packets, every one that is no older than the age and is among the last as many as
  the cache may hold is found by its number; what is found by a number is the packet sent with it; and a packet found for
  a size is smaller than that.
\<close>

theorem rtx_cache_answers:
  assumes "cache_all (rtx_cache_new n age) ps = Some c" "0 < age" "ps \<noteq> []" "\<forall>k<length ps. sp_seq_no (fst (ps ! k)) = s + k" "sorted (map snd ps)"
  shows "(\<forall>k<length ps. (length ps - 1 - k < n \<or> k = length ps - 1) \<and> snd (last ps) - snd (ps ! k) \<le> age
            \<longrightarrow> get_cached_packet_by_seq_no c (s + k) = Some (fst (ps ! k)))
    \<and> (\<forall>x p. get_cached_packet_by_seq_no c x = Some p \<longrightarrow> sp_seq_no p = x \<and> p \<in> fst ` set ps)
    \<and> (\<forall>m p. get_cached_packet_smaller_than c m = Some (Some p) \<longrightarrow> length (sp_payload p) < m \<and> p \<in> fst ` set ps)"
proof -
  let ?c = "rtx_cache_new n age"
  have "sorted (0 # map snd ps)" using assms(5) by simp
  note k = cache_all_keeps [OF assms(1) new_cache_inv [OF assms(2)] this assms(4,3)]
  obtain sent where sent: "cache_inv sent (s + length ps - 1) (s + length ps) (snd (last ps)) c" "\<forall>x y. sent x = Some y \<longrightarrow> y \<in> set ps" using k by auto
  have lim: "max_size (packet_by_seq_no ?c) = n" "max_age (packet_by_seq_no ?c) = age" by (simp_all add: rtx_cache_new_def evicting_new_def)
  have inert: "\<not> is_inert (packet_by_seq_no c)" using sent(1) by (simp add: cache_inv_def)
  have got: "sp_seq_no p = x \<and> p \<in> fst ` set ps" if g: "get_cached_packet_by_seq_no c x = Some p" for x p
  proof -
    obtain y where y: "sent x = Some y" "p = fst y" using got_was_sent [OF sent(1) g] by blast
    moreover have "sp_seq_no (fst y) = x" using sent(1) y(1) unfolding cache_inv_def by blast
    moreover have "y \<in> set ps" using sent(2) y(1) by blast
    ultimately show ?thesis by simp
  qed
  have "get_cached_packet_by_seq_no c (s + k) = Some (fst (ps ! k))"
    if "k < length ps" "length ps - 1 - k < n \<or> k = length ps - 1" "snd (last ps) - snd (ps ! k) \<le> age" for k
  proof -
    have "holds (packet_by_seq_no c) (packet_entry (s + k) (ps ! k))"
      using k that unfolding lim by auto
    then show ?thesis using inert by (simp add: holds_def get_cached_packet_by_seq_no_def eb_get_def)
  qed
  moreover have "length (sp_payload p) < m \<and> p \<in> fst ` set ps" if h: "get_cached_packet_smaller_than c m = Some (Some p)" for m p
  proof -
    obtain slots x where x: "slice (seq_no_by_quantized_size c) 0 (m div RTX_CACHE_SIZE_QUANTIZER) = Some slots"
        "find (eb_contains (packet_by_seq_no c)) (List.map_filter id (rev slots)) = Some x" "get_cached_packet_by_seq_no c x = Some p"
      using h by (auto simp: get_cached_packet_smaller_than_def split: bind_splits)
    have "x \<in> set (List.map_filter id (rev slots))" using x(2) by (metis find_Some_iff nth_mem)
    then have "Some x \<in> set slots" by (simp add: set_those_there)
    then obtain q where q: "q < m div RTX_CACHE_SIZE_QUANTIZER" "q < length (seq_no_by_quantized_size c)" "seq_no_by_quantized_size c ! q = Some x"
      using x(1) by (auto simp: slice_def in_set_conv_nth split: if_splits)
    obtain y where y: "sent x = Some y" "length (sp_payload (fst y)) div RTX_CACHE_SIZE_QUANTIZER = q"
      using sent(1) q unfolding cache_inv_def by blast
    have "p = fst y" using got_was_sent [OF sent(1) x(3)] y(1) by simp
    then have "length (sp_payload p) div 25 < m div 25" using y(2) q(1) by (simp add: RTX_CACHE_SIZE_QUANTIZER_def)
    then have "length (sp_payload p) < m" by (metis div_le_mono not_le)
    then show ?thesis using got [OF x(3)] by simp
  qed
  ultimately show ?thesis using got by blast
qed

lemma rtx_cache_answers_witness:
  "\<exists>c. cache_all (rtx_cache_new 100 3000) [(\<lparr>sp_seq_no = 7, sp_payload = replicate 30 1, nackable = True\<rparr>, 10),
        (\<lparr>sp_seq_no = 8, sp_payload = [2], nackable = True\<rparr>, 20)] = Some c
     \<and> get_cached_packet_by_seq_no c 7 = Some \<lparr>sp_seq_no = 7, sp_payload = replicate 30 1, nackable = True\<rparr>"
proof -
  let ?ps = "[(\<lparr>sp_seq_no = 7, sp_payload = replicate 30 1, nackable = True\<rparr>, 10), (\<lparr>sp_seq_no = 8, sp_payload = [2], nackable = True\<rparr>, 20)]"
  have "\<exists>c. cache_all (rtx_cache_new 100 3000) ?ps = Some c"
    by (simp add: cache_sent_packet_def put_def rtx_cache_new_def RTX_CACHE_SIZE_QUANTIZER_def RTX_CACHE_QUANTIZE_SLOTS_def)
  then obtain c where c: "cache_all (rtx_cache_new 100 3000) ?ps = Some c" by blast
  have "\<forall>k<length ?ps. sp_seq_no (fst (?ps ! k)) = 7 + k" by (auto simp: less_Suc_eq)
  from rtx_cache_answers [OF c _ _ this] have "get_cached_packet_by_seq_no c (7 + 0) = Some (fst (?ps ! 0))" by fastforce
  then show ?thesis using c by (intro exI [of _ c]) simp
qed

text \<open>
  A packet that would do for padding is not found if a greater one has been overwritten: its place is taken, so it passes for
  cached, but it is not there. Here the cache holds ten packets; the first has 80 octets, the second 30, the others 150.
\<close>

theorem smaller_packet_missed:
  "Option.bind (cache_all (rtx_cache_new 1 3000)
      (map (\<lambda>k. (\<lparr>sp_seq_no = k, sp_payload = replicate (if k = 0 then 80 else if k = 1 then 30 else 150) 0, nackable = True\<rparr>, k)) [0..<11]))
     (\<lambda>c. Some (get_cached_packet_smaller_than c 100, map_option sp_seq_no (get_cached_packet_by_seq_no c 1))) = Some (Some None, Some 1)"
  by code_simp

end
