(* ===== verification/RtpExt.thy ===== *)
theory RtpExt imports MTime Text Wire begin

text \<open>
  The header extensions of RTP packets, \<open>rtp/ext.rs\<close> of str0m, with the identifiers of media and streams they carry
  (\<open>rtp/id.rs\<close>) and the conversion of instants to the time of day (\<open>util/time_tricks.rs\<close>). An instant is a number of
  nanoseconds since the beginning of time of the process, negative before it; the time of day of that beginning is a parameter. Extensions
  of the user are left out: a URI that is not known has no extension.
\<close>

section \<open>Identifiers\<close>

text \<open>An identifier is an array of a fixed length: letters, digits and underscores, padded with spaces.\<close>

definition alphanumeric :: "u8 \<Rightarrow> bool" where
  "alphanumeric b \<longleftrightarrow> (let n = unat b in 48 \<le> n \<and> n \<le> 57 \<or> 65 \<le> n \<and> n \<le> 90 \<or> 97 \<le> n \<and> n \<le> 122)"

definition clean_octet :: "u8 \<Rightarrow> u8" where
  "clean_octet b = (if alphanumeric b then b else 95)"

text \<open>The characters of a string that is UTF-8, by their first octets.\<close>

definition first_octets :: "bytes \<Rightarrow> bytes" where
  "first_octets s = filter (\<lambda>b. b AND 0xC0 \<noteq> 0x80) s"

definition id_from :: "nat \<Rightarrow> bytes \<Rightarrow> bytes" where
  "id_from n s = (let v = take n (map clean_octet (first_octets s)) in v @ replicate (n - length v) 32)"

text \<open>The text of an identifier; only spaces can be at its ends.\<close>

definition id_text :: "bytes \<Rightarrow> bytes" where
  "id_text a = rev (dropWhile (\<lambda>b. b = 32) (rev (dropWhile (\<lambda>b. b = 32) a)))"

section \<open>Extensions\<close>

datatype extension = AbsoluteSendTime | AudioLevel | TransmissionTimeOffset | VideoOrientation | TransportSequenceNumber
  | PlayoutDelay | VideoContentType | VideoTiming | RtpStreamId | RepairedRtpStreamId | RtpMid | FrameMarking | ColorSpace

definition EXT_URI :: "(extension \<times> string) list" where
  "EXT_URI =
     [(AbsoluteSendTime, ''http://www.webrtc.org/experiments/rtp-hdrext/abs-send-time''),
      (AudioLevel, ''urn:ietf:params:rtp-hdrext:ssrc-audio-level''),
      (TransmissionTimeOffset, ''urn:ietf:params:rtp-hdrext:toffset''),
      (VideoOrientation, ''urn:3gpp:video-orientation''),
      (TransportSequenceNumber, ''http://www.ietf.org/id/draft-holmer-rmcat-transport-wide-cc-extensions-01''),
      (PlayoutDelay, ''http://www.webrtc.org/experiments/rtp-hdrext/playout-delay''),
      (VideoContentType, ''http://www.webrtc.org/experiments/rtp-hdrext/video-content-type''),
      (VideoTiming, ''http://www.webrtc.org/experiments/rtp-hdrext/video-timing''),
      (RtpStreamId, ''urn:ietf:params:rtp-hdrext:sdes:rtp-stream-id''),
      (RepairedRtpStreamId, ''urn:ietf:params:rtp-hdrext:sdes:repaired-rtp-stream-id''),
      (RtpMid, ''urn:ietf:params:rtp-hdrext:sdes:mid''),
      (FrameMarking, ''http://tools.ietf.org/html/draft-ietf-avtext-framemarking-07''),
      (ColorSpace, ''http://www.webrtc.org/experiments/rtp-hdrext/color-space'')]"

definition from_sdp_uri :: "string \<Rightarrow> extension option" where
  "from_sdp_uri uri = map_option fst (find (\<lambda>(_, spec). spec = uri) EXT_URI)"

definition as_uri :: "extension \<Rightarrow> string" where
  "as_uri e = (case find (\<lambda>(t, _). t = e) EXT_URI of Some (_, spec) \<Rightarrow> spec | None \<Rightarrow> ''unknown'')"

definition ext_is_audio :: "extension \<Rightarrow> bool" where
  "ext_is_audio e \<longleftrightarrow> e \<in> {RtpStreamId, RepairedRtpStreamId, RtpMid, AbsoluteSendTime, AudioLevel, TransportSequenceNumber,
     TransmissionTimeOffset, PlayoutDelay}"

definition ext_is_video :: "extension \<Rightarrow> bool" where
  "ext_is_video e \<longleftrightarrow> e \<in> {RtpStreamId, RepairedRtpStreamId, RtpMid, AbsoluteSendTime, VideoOrientation, TransportSequenceNumber,
     TransmissionTimeOffset, PlayoutDelay, VideoContentType, VideoTiming, FrameMarking, ColorSpace}"

datatype orientation = Deg0 | Deg90 | Deg180 | Deg270

definition orientation_from :: "u8 \<Rightarrow> orientation" where
  "orientation_from v = (if v = 1 then Deg270 else if v = 2 then Deg180 else if v = 3 then Deg90 else Deg0)"

definition orientation_code :: "orientation \<Rightarrow> u8" where
  "orientation_code r = (case r of Deg0 \<Rightarrow> 0 | Deg90 \<Rightarrow> 3 | Deg180 \<Rightarrow> 2 | Deg270 \<Rightarrow> 1)"

record video_timing =
  vt_flags :: u8
  encode_start :: u16
  encode_finish :: u16
  packetize_complete :: u16
  last_left_pacer :: u16

text \<open>The values of a packet; the audio level is an \<open>i8\<close>.\<close>

record ext_values =
  audio_level :: "u8 option"
  voice_activity :: "bool option"
  video_orientation :: "orientation option"
  video_content_type :: "u8 option"
  tx_time_offs :: "u32 option"
  abs_send_time :: "int option"
  transport_cc :: "u16 option"
  play_delay_min :: "media_time option"
  play_delay_max :: "media_time option"
  video_timing :: "video_timing option"
  ev_rid :: "bytes option"
  ev_rid_repair :: "bytes option"
  ev_mid :: "bytes option"
  frame_mark :: "u32 option"

definition no_values :: ext_values where
  "no_values = \<lparr>audio_level = None, voice_activity = None, video_orientation = None, video_content_type = None,
     tx_time_offs = None, abs_send_time = None, transport_cc = None, play_delay_min = None, play_delay_max = None,
     video_timing = None, ev_rid = None, ev_rid_repair = None, ev_mid = None, frame_mark = None\<rparr>"

section \<open>Values as octets\<close>

definition to_unix_duration :: "nat \<Rightarrow> int \<Rightarrow> nat" where
  "to_unix_duration beginning t = beginning + nat t"

definition FIXED_POINT_6_18 :: nat where "FIXED_POINT_6_18 = 2 ^ 18"

definition HUNDREDTHS :: nat where "HUNDREDTHS = 100"

text \<open>A duration in nanoseconds loses what is below a microsecond.\<close>

definition send_time_24 :: "nat \<Rightarrow> int \<Rightarrow> u32" where
  "send_time_24 beginning t = word_of_int (numer (rebase (of_duration (to_unix_duration beginning t div 1000)) FIXED_POINT_6_18))"

definition delay_12 :: "media_time \<Rightarrow> u32" where
  "delay_12 t = word_of_int (numer (rebase t HUNDREDTHS)) AND 0xfff"

text \<open>The octets of an extension, or \<open>None\<close> when the packet has no value for it.\<close>

definition ext_write :: "nat \<Rightarrow> extension \<Rightarrow> ext_values \<Rightarrow> bytes option" where
  "ext_write beginning e ev =
     (case e of
        AbsoluteSendTime \<Rightarrow> do { t \<leftarrow> abs_send_time ev; Some (tl (to_be32 (send_time_24 beginning t))) }
      | AudioLevel \<Rightarrow> do { v1 \<leftarrow> audio_level ev; v2 \<leftarrow> voice_activity ev; Some [(if v2 then 0x80 else 0) OR - (0x7f AND v1)] }
      | TransmissionTimeOffset \<Rightarrow> do { v \<leftarrow> tx_time_offs ev; Some (to_be32 v) }
      | VideoOrientation \<Rightarrow> do { v \<leftarrow> video_orientation ev; Some [orientation_code v] }
      | TransportSequenceNumber \<Rightarrow> do { v \<leftarrow> transport_cc ev; Some (to_be16 v) }
      | PlayoutDelay \<Rightarrow> do {
          v1 \<leftarrow> play_delay_min ev;
          v2 \<leftarrow> play_delay_max ev;
          let lo = delay_12 v1; hi = delay_12 v2 in
          Some [ucast (drop_bit 4 lo), ucast (push_bit 4 lo) OR ucast (drop_bit 8 hi), ucast hi] }
      | VideoContentType \<Rightarrow> do { v \<leftarrow> video_content_type ev; Some [v] }
      | VideoTiming \<Rightarrow> do {
          v \<leftarrow> video_timing ev;
          Some ([vt_flags v] @ to_be16 (encode_start v) @ to_be16 (encode_finish v) @ to_be16 (packetize_complete v)
                @ to_be16 (last_left_pacer v) @ to_be16 0 @ to_be16 0) }
      | RtpStreamId \<Rightarrow> do { v \<leftarrow> ev_rid ev; Some (id_text v) }
      | RepairedRtpStreamId \<Rightarrow> do { v \<leftarrow> ev_rid_repair ev; Some (id_text v) }
      | RtpMid \<Rightarrow> do { v \<leftarrow> ev_mid ev; Some (id_text v) }
      | FrameMarking \<Rightarrow> do { v \<leftarrow> frame_mark ev; Some (to_be32 v) }
      | ColorSpace \<Rightarrow> None)"

text \<open>The offset from a minute and four seconds that a send time tells, in nanoseconds.\<close>

definition relative_send_time :: "u32 \<Rightarrow> nat" where
  "relative_send_time time_24 = 1000 * nat (numer (rebase \<lparr>numer = int (unat time_24), denom = FIXED_POINT_6_18\<rparr> MICROS))"

text \<open>
  What an extension of a received packet adds to its values; nothing when it is too short. \<open>None\<close> is a panic, an octet
  that is not there.
\<close>

definition ext_parse :: "extension \<Rightarrow> bytes \<Rightarrow> ext_values \<Rightarrow> ext_values option" where
  "ext_parse e buf ev =
     (case e of
        AbsoluteSendTime \<Rightarrow>
          if length buf < 3 then Some ev
          else do {
            b0 \<leftarrow> idx buf 0; b1 \<leftarrow> idx buf 1; b2 \<leftarrow> idx buf 2;
            Some (ev\<lparr>abs_send_time := Some (int (relative_send_time (from_be32 0 b0 b1 b2)))\<rparr>) }
      | AudioLevel \<Rightarrow>
          if buf = [] then Some ev
          else do {
            b0 \<leftarrow> idx buf 0;
            Some (ev\<lparr>audio_level := Some (- (0x7f AND b0)), voice_activity := Some (0 < b0 AND 0x80)\<rparr>) }
      | TransmissionTimeOffset \<Rightarrow>
          if length buf < 4 then Some ev else do { v \<leftarrow> u32_at buf 0; Some (ev\<lparr>tx_time_offs := Some v\<rparr>) }
      | VideoOrientation \<Rightarrow>
          if buf = [] then Some ev
          else do { b0 \<leftarrow> idx buf 0; Some (ev\<lparr>video_orientation := Some (orientation_from (b0 AND 3))\<rparr>) }
      | TransportSequenceNumber \<Rightarrow>
          if length buf < 2 then Some ev else do { v \<leftarrow> u16_at buf 0; Some (ev\<lparr>transport_cc := Some v\<rparr>) }
      | PlayoutDelay \<Rightarrow>
          if length buf < 3 then Some ev
          else do {
            b0 \<leftarrow> idx buf 0; b1 \<leftarrow> idx buf 1; b2 \<leftarrow> idx buf 2;
            let lo = push_bit 4 (ucast b0) OR drop_bit 4 (ucast b1) :: u32;
                hi = push_bit 8 (ucast (b1 AND 0xf)) OR ucast b2 :: u32 in
            Some (ev\<lparr>play_delay_min := Some \<lparr>numer = int (unat lo), denom = HUNDREDTHS\<rparr>,
                     play_delay_max := Some \<lparr>numer = int (unat hi), denom = HUNDREDTHS\<rparr>\<rparr>) }
      | VideoContentType \<Rightarrow>
          if buf = [] then Some ev else do { b0 \<leftarrow> idx buf 0; Some (ev\<lparr>video_content_type := Some b0\<rparr>) }
      | VideoTiming \<Rightarrow>
          if length buf < 9 then Some ev
          else do {
            b0 \<leftarrow> idx buf 0; t1 \<leftarrow> u16_at buf 1; t3 \<leftarrow> u16_at buf 3; t5 \<leftarrow> u16_at buf 5; t7 \<leftarrow> u16_at buf 7;
            Some (ev\<lparr>video_timing := Some \<lparr>vt_flags = b0, encode_start = t1, encode_finish = t3,
                 packetize_complete = t5, last_left_pacer = t7\<rparr>\<rparr>) }
      | RtpStreamId \<Rightarrow> Some (if utf8_ok buf then ev\<lparr>ev_rid := Some (id_from 8 buf)\<rparr> else ev)
      | RepairedRtpStreamId \<Rightarrow> Some (if utf8_ok buf then ev\<lparr>ev_rid_repair := Some (id_from 8 buf)\<rparr> else ev)
      | RtpMid \<Rightarrow> Some (if utf8_ok buf then ev\<lparr>ev_mid := Some (id_from 16 buf)\<rparr> else ev)
      | FrameMarking \<Rightarrow>
          if length buf < 4 then Some ev else do { v \<leftarrow> u32_at buf 0; Some (ev\<lparr>frame_mark := Some v\<rparr>) }
      | ColorSpace \<Rightarrow> Some ev)"


section \<open>The mapping of numbers\<close>

definition MAX_ID :: nat where "MAX_ID = 16"

definition MAX_ID_ONE_BYTE_FORM :: nat where "MAX_ID_ONE_BYTE_FORM = 14"

record map_entry =
  me_ext :: extension
  me_locked :: bool

text \<open>Sixteen slots; the first is that of number 1.\<close>

type_synonym ext_map = "map_entry option list"

definition ext_map_empty :: ext_map where
  "ext_map_empty = replicate MAX_ID None"

definition ext_set :: "nat \<Rightarrow> extension \<Rightarrow> ext_map \<Rightarrow> ext_map" where
  "ext_set i e m = (if i < 1 \<or> MAX_ID < i then m else m[i - 1 := Some \<lparr>me_ext = e, me_locked = False\<rparr>])"

definition ext_map_standard :: ext_map where
  "ext_map_standard = ext_set 13 VideoOrientation (ext_set 11 RepairedRtpStreamId (ext_set 10 RtpStreamId (ext_set 4 RtpMid
     (ext_set 3 TransportSequenceNumber (ext_set 2 AbsoluteSendTime (ext_set 1 AudioLevel ext_map_empty))))))"

definition ext_lookup :: "ext_map \<Rightarrow> nat \<Rightarrow> extension option option" where
  "ext_lookup m i = (if 1 \<le> i \<and> i \<le> MAX_ID then map_option (map_option me_ext) (idx m (i - 1)) else Some None)"

fun slot_of :: "extension \<Rightarrow> ext_map \<Rightarrow> nat option" where
  "slot_of e [] = None"
| "slot_of e (x # xs) = (if map_option me_ext x = Some e then Some 0 else map_option Suc (slot_of e xs))"

definition ext_id_of :: "ext_map \<Rightarrow> extension \<Rightarrow> nat option" where
  "ext_id_of m e = map_option Suc (slot_of e m)"

definition ext_iter :: "ext_map \<Rightarrow> (nat \<times> extension) list" where
  "ext_iter m = List.map_filter (\<lambda>(i, x). map_option (\<lambda>x. (i, me_ext x)) x) (enumerate 1 m)"

definition cloned_with_type :: "bool \<Rightarrow> ext_map \<Rightarrow> ext_map" where
  "cloned_with_type audio m =
     fold (\<lambda>(i, e). ext_set i e) (filter (\<lambda>(_, e). if audio then ext_is_audio e else ext_is_video e) (ext_iter m)) ext_map_empty"

definition swap_slots :: "nat \<Rightarrow> nat \<Rightarrow> 'a list \<Rightarrow> 'a list" where
  "swap_slots i j xs = xs[i := xs ! j, j := xs ! i]"

definition ext_swap :: "nat \<times> extension \<Rightarrow> ext_map \<Rightarrow> ext_map" where
  "ext_swap ie m =
     (let (i, e) = ie in
      if i < 1 \<or> MAX_ID < i then m
      else case slot_of e m of
             None \<Rightarrow> m
           | Some old \<Rightarrow>
               (case m ! old of
                  None \<Rightarrow> m
                | Some entry \<Rightarrow>
                    if i - 1 \<noteq> old \<and> me_locked entry then m
                    else (let m = m[old := Some (entry\<lparr>me_locked := True\<rparr>)]
                          in if i - 1 = old then m else swap_slots old (i - 1) m)))"

definition ext_remap :: "(nat \<times> extension) list \<Rightarrow> ext_map \<Rightarrow> ext_map" where
  "ext_remap remote m = fold ext_swap remote m"

section \<open>All extensions of a packet\<close>

datatype ext_form = OneByte | TwoByte

definition form_octets :: "ext_form \<Rightarrow> bytes" where
  "form_octets f = to_be16 (case f of OneByte \<Rightarrow> 0xBEDE | TwoByte \<Rightarrow> 0x1000)"

definition form_parse :: "u8 \<Rightarrow> u8 \<Rightarrow> ext_form option" where
  "form_parse a b =
     (let v = from_be16 a b
      in if v = 0xBEDE then Some OneByte else if v AND 0xFFF0 = 0x1000 then Some TwoByte else None)"

definition ext_form_of :: "ext_map \<Rightarrow> ext_form" where
  "ext_form_of m = (if \<exists>(i, e)\<in>set (ext_iter m). MAX_ID_ONE_BYTE_FORM < i then TwoByte else OneByte)"

text \<open>The number and the length of an extension, or a panic of the assertions.\<close>

definition ext_header :: "ext_form \<Rightarrow> nat \<Rightarrow> nat \<Rightarrow> bytes option" where
  "ext_header f i n =
     (case f of
        OneByte \<Rightarrow> if n \<le> 16 \<and> 0 < n then Some [push_bit 4 (of_nat i) OR of_nat (n - 1)] else None
      | TwoByte \<Rightarrow> Some [of_nat i, of_nat n])"

fun exts_write :: "nat \<Rightarrow> ext_form \<Rightarrow> ext_values \<Rightarrow> nat \<Rightarrow> ext_map \<Rightarrow> bytes option" where
  "exts_write beginning f ev i [] = Some []"
| "exts_write beginning f ev i (x # xs) = do {
     bs \<leftarrow> (case x of
             None \<Rightarrow> Some []
           | Some v \<Rightarrow>
               (case ext_write beginning (me_ext v) ev of
                  None \<Rightarrow> Some []
                | Some buf \<Rightarrow> do { h \<leftarrow> ext_header f (i + 1) (length buf); Some (h @ buf) }));
     rest \<leftarrow> exts_write beginning f ev (i + 1) xs;
     Some (bs @ rest) }"

text \<open>
  The number and the length of the next extension and what follows, or nothing when the rest is to be ignored; the outer
  \<open>None\<close> is a panic.
\<close>

definition ext_next :: "ext_form \<Rightarrow> bytes \<Rightarrow> (nat \<times> nat \<times> bytes) option option" where
  "ext_next f buf =
     (case f of
        OneByte \<Rightarrow> do {
          b0 \<leftarrow> idx buf 0;
          rest \<leftarrow> slice buf 1 (length buf);
          let i = unat (drop_bit 4 b0); n = unat (b0 AND 0xf) + 1 in
          Some (if i = 15 then None else Some (i, n, rest)) }
      | TwoByte \<Rightarrow>
          if length buf < 2 then Some None
          else do {
            b0 \<leftarrow> idx buf 0; b1 \<leftarrow> idx buf 1;
            rest \<leftarrow> slice buf 2 (length buf);
            Some (Some (unat b0, unat b1, rest)) })"

lemma ext_next_shorter: "buf \<noteq> [] \<Longrightarrow> ext_next f buf = Some (Some (i, n, rest)) \<Longrightarrow> length rest < length buf"
  by (auto simp: ext_next_def Let_def dest!: slice_length split: ext_form.splits if_splits Option.bind_splits)

function exts_parse :: "ext_map \<Rightarrow> ext_form \<Rightarrow> bytes \<Rightarrow> ext_values \<Rightarrow> ext_values option" where
  "exts_parse m f buf ev =
     (if buf = [] then Some ev
      else if idx buf 0 = Some 0 then (case slice buf 1 (length buf) of None \<Rightarrow> None | Some rest \<Rightarrow> exts_parse m f rest ev)
      else case ext_next f buf of
             None \<Rightarrow> None
           | Some None \<Rightarrow> Some ev
           | Some (Some (i, n, rest)) \<Rightarrow>
               if length rest < n then Some ev
               else case (do { e \<leftarrow> ext_lookup m i; ext_buf \<leftarrow> slice rest 0 n;
                               (case e of None \<Rightarrow> Some ev | Some e \<Rightarrow> ext_parse e ext_buf ev) }) of
                      None \<Rightarrow> None
                    | Some ev \<Rightarrow> (case slice rest n (length rest) of None \<Rightarrow> None | Some rest \<Rightarrow> exts_parse m f rest ev))"
  by pat_completeness auto
termination
  by (relation "measure (\<lambda>(_, _, buf, _). length buf)") 
    (auto simp: idx_def dest!: slice_length split: if_splits dest: ext_next_shorter)

declare exts_parse.simps [simp del]


section \<open>No octets panic the reader\<close>

lemma ext_parse_total: "ext_parse e buf ev \<noteq> None"
  by (cases e) (auto simp: ext_parse_def idx_def u16_at_def u32_at_def Let_def)

lemma ext_next_total: "buf \<noteq> [] \<Longrightarrow> ext_next f buf \<noteq> None"
  by (cases f) (auto simp: ext_next_def idx_def slice_def Let_def Suc_le_eq)

lemma ext_lookup_total: "length m = MAX_ID \<Longrightarrow> ext_lookup m i \<noteq> None"
  by (auto simp: ext_lookup_def idx_def)

lemma exts_parse_total: "length m = MAX_ID \<Longrightarrow> exts_parse m f buf ev \<noteq> None"
proof (induction m f buf ev rule: exts_parse.induct)
  case (1 m f buf ev)
  note m = "1.prems"
  show ?case
  proof (cases "buf = [] \<or> idx buf 0 = Some 0")
    case True
    then show ?thesis using "1.IH"(1) m by (subst exts_parse.simps) (auto simp: idx_def slice_def Suc_le_eq split: if_splits)
  next
    case False
    then obtain r where r: "ext_next f buf = Some r" using ext_next_total by blast
    show ?thesis
    proof (cases r)
      case None
      then show ?thesis using False r by (subst exts_parse.simps) simp
    next
      case (Some p)
      obtain i n rest where p: "p = (i, n, rest)" by (cases p)
      show ?thesis
      proof (cases "length rest < n")
        case True
        then show ?thesis using False r Some p by (subst exts_parse.simps) simp
      next
        case fits: False
        obtain e where e: "ext_lookup m i = Some e" using ext_lookup_total [OF m] by blast
        have sl: "slice rest 0 n = Some (take n rest)" "slice rest n (length rest) = Some (drop n rest)"
          using fits by (simp_all add: slice_def)
        obtain ev' where v: "(case e of None \<Rightarrow> Some ev | Some e \<Rightarrow> ext_parse e (take n rest) ev) = Some ev'"
          using ext_parse_total [of "the e" "take n rest" ev] by (cases e) auto
        have l: "ext_lookup m i \<bind> (\<lambda>e. slice rest 0 n \<bind> (\<lambda>ext_buf. case e of None \<Rightarrow> Some ev | Some e \<Rightarrow> ext_parse e ext_buf ev)) = Some ev'"
          using v by (simp add: e sl(1))
        have r': "ext_next f buf = Some (Some (i, n, rest))" by (simp add: r Some p)
        have "exts_parse m f (drop n rest) ev' \<noteq> None"
          using False by (intro "1.IH"(2) [OF _ _ r' refl refl refl fits l sl(2) m]) auto
        moreover have "exts_parse m f buf ev = exts_parse m f (drop n rest) ev'"
          using False fits by (subst exts_parse.simps) (simp add: r' l sl(2))
        ultimately show ?thesis by simp
      qed
    qed
  qed
qed

section \<open>One extension there and back\<close>

definition clean_id :: "nat \<Rightarrow> bytes \<Rightarrow> bool" where
  "clean_id n a \<longleftrightarrow> (\<exists>w. w \<noteq> [] \<and> length w \<le> n \<and> (\<forall>b\<in>set w. alphanumeric b \<or> b = 95) \<and> a = w @ replicate (n - length w) 32)"

text \<open>
  Which values arrive as they were sent: levels from 0 down to -127 with voice unless the level is 0, delays in
  hundredths that fit twelve bits, identifiers that are clean and not empty.
\<close>

definition hundredths_12 :: "media_time \<Rightarrow> bool" where
  "hundredths_12 t \<longleftrightarrow> denom t = HUNDREDTHS \<and> 0 \<le> numer t \<and> numer t < 4096"

definition faithful :: "ext_values \<Rightarrow> bool" where
  "faithful ev \<longleftrightarrow>
     (\<forall>l v. audio_level ev = Some l \<longrightarrow> voice_activity ev = Some v \<longrightarrow> (l = 0 \<or> 0x80 < l) \<and> (v \<or> l = 0))
     \<and> (\<forall>t. play_delay_min ev = Some t \<longrightarrow> hundredths_12 t) \<and> (\<forall>t. play_delay_max ev = Some t \<longrightarrow> hundredths_12 t)
     \<and> (\<forall>a. ev_rid ev = Some a \<longrightarrow> clean_id 8 a) \<and> (\<forall>a. ev_rid_repair ev = Some a \<longrightarrow> clean_id 8 a)
     \<and> (\<forall>a. ev_mid ev = Some a \<longrightarrow> clean_id 16 a)"

text \<open>What a receiver adds to its values for an extension that the sender writes.\<close>

definition heard :: "nat \<Rightarrow> extension \<Rightarrow> ext_values \<Rightarrow> ext_values \<Rightarrow> ext_values" where
  "heard beginning e ev acc =
     (case e of
        AbsoluteSendTime \<Rightarrow>
          (case abs_send_time ev of None \<Rightarrow> acc
           | Some t \<Rightarrow> acc\<lparr>abs_send_time := Some (int (relative_send_time (take_bit 24 (send_time_24 beginning t))))\<rparr>)
      | AudioLevel \<Rightarrow>
          if audio_level ev = None \<or> voice_activity ev = None then acc
          else acc\<lparr>audio_level := audio_level ev, voice_activity := voice_activity ev\<rparr>
      | TransmissionTimeOffset \<Rightarrow> if tx_time_offs ev = None then acc else acc\<lparr>tx_time_offs := tx_time_offs ev\<rparr>
      | VideoOrientation \<Rightarrow> if video_orientation ev = None then acc else acc\<lparr>video_orientation := video_orientation ev\<rparr>
      | TransportSequenceNumber \<Rightarrow> if transport_cc ev = None then acc else acc\<lparr>transport_cc := transport_cc ev\<rparr>
      | PlayoutDelay \<Rightarrow>
          if play_delay_min ev = None \<or> play_delay_max ev = None then acc
          else acc\<lparr>play_delay_min := play_delay_min ev, play_delay_max := play_delay_max ev\<rparr>
      | VideoContentType \<Rightarrow> if video_content_type ev = None then acc else acc\<lparr>video_content_type := video_content_type ev\<rparr>
      | VideoTiming \<Rightarrow> if video_timing ev = None then acc else acc\<lparr>video_timing := video_timing ev\<rparr>
      | RtpStreamId \<Rightarrow> if ev_rid ev = None then acc else acc\<lparr>ev_rid := ev_rid ev\<rparr>
      | RepairedRtpStreamId \<Rightarrow> if ev_rid_repair ev = None then acc else acc\<lparr>ev_rid_repair := ev_rid_repair ev\<rparr>
      | RtpMid \<Rightarrow> if ev_mid ev = None then acc else acc\<lparr>ev_mid := ev_mid ev\<rparr>
      | FrameMarking \<Rightarrow> if frame_mark ev = None then acc else acc\<lparr>frame_mark := frame_mark ev\<rparr>
      | ColorSpace \<Rightarrow> acc)"

lemma alphanumeric_ascii: "alphanumeric b \<or> b = 95 \<Longrightarrow> unat b \<le> 127 \<and> b \<noteq> 32"
  by (auto simp: alphanumeric_def Let_def)

lemma ascii_first: "unat (b :: u8) \<le> 127 \<Longrightarrow> b AND 0xC0 \<noteq> 0x80"
proof
  assume b: "unat b \<le> 127" and c: "b AND 0xC0 = 0x80"
  have "bit (b AND 0xC0) 7" unfolding c by simp
  then have "bit b 7" by (simp add: bit_and_iff)
  then have "bit (unat b) 7" by (simp add: bit_unsigned_iff)
  then show False using b by (simp add: bit_iff_odd)
qed

lemma dropWhile_none: "(\<forall>x\<in>set xs. \<not> P x) \<Longrightarrow> dropWhile P xs = xs"
  by (cases xs) auto

lemma dropWhile_replicate: "P x \<Longrightarrow> dropWhile P (replicate n x @ xs) = dropWhile P xs"
  by (induction n) auto

lemma clean_id_text:
  assumes "clean_id n a"
  shows "\<exists>w. id_text a = w \<and> id_from n w = a \<and> utf8_ok w \<and> 0 < length w \<and> length w \<le> n"
proof -
  obtain w where w: "w \<noteq> []" "length w \<le> n" "\<forall>b\<in>set w. alphanumeric b \<or> b = 95" "a = w @ replicate (n - length w) 32"
    using assms by (auto simp: clean_id_def)
  have s: "\<forall>b\<in>set w. b \<noteq> 32" "\<forall>b\<in>set w. unat b \<le> 127" using w(3) alphanumeric_ascii by blast+
  obtain b v where "w = b # v" using w(1) by (cases w) auto
  then have "dropWhile (\<lambda>b. b = 32) a = a" using s(1) w(4) by simp
  then have t: "id_text a = w"
    using s(1) by (simp add: id_text_def w(4) dropWhile_replicate dropWhile_none)
  have "first_octets w = w" using s(2) ascii_first by (simp add: first_octets_def)
  moreover have "map clean_octet w = w" using w(3) by (intro map_idI) (auto simp: clean_octet_def)
  ultimately have "id_from n w = a" using w(2,4) by (simp add: id_from_def Let_def)
  then show ?thesis using t utf8_ok_ascii s(2) w(1,2) by auto
qed


lemma low7: "0x7f AND (b :: u8) = take_bit 7 b"
proof -
  have "(0x7f :: u8) = mask 7" by (simp add: mask_eq_exp_minus_1)
  then show ?thesis by (simp only: take_bit_eq_mask and.commute)
qed

lemma bit_top: "bit (0x80 :: u8) n \<longleftrightarrow> n = 7"
proof -
  have "(0x80 :: u8) = push_bit 7 1" by simp
  then show ?thesis by (simp only: bit_push_bit_iff bit_1_iff) auto
qed

lemma top7: "(0 < (b :: u8) AND 0x80) = bit b 7"
proof -
  have "b AND 0x80 = (if bit b 7 then 0x80 else 0)"
  proof (cases "bit b 7")
    case True
    then have "b AND 0x80 = 0x80" by (intro bit_word_eqI) (simp only: bit_and_iff bit_top, blast)
    then show ?thesis using True by simp
  next
    case False
    then have "b AND 0x80 = 0" by (intro bit_word_eqI) (simp only: bit_and_iff bit_top bit_0_eq bot_apply bot_bool_def, blast)
    then show ?thesis using False by simp
  qed
  then show ?thesis by simp
qed

lemma unat_take7: "unat (take_bit 7 (b :: u8)) = unat b mod 128"
  by (subst unsigned_take_bit_eq) (simp add: take_bit_eq_mod [of 7 "unat b"])

lemma unat_minus8: "x \<noteq> 0 \<Longrightarrow> unat (- x :: u8) = 256 - unat x"
proof -
  assume "x \<noteq> 0"
  then have "0 < unat x" by (simp add: unat_gt_0)
  then show ?thesis using unat_sub_if' [of 0 x] by simp
qed

lemma level_kept:
  assumes "l = 0 \<or> 0x80 < l" "v \<or> l = 0"
  defines "b \<equiv> (if v then 0x80 else 0) OR - (0x7f AND l) :: u8"
  shows "- (0x7f AND b) = l" "(0 < b AND 0x80) = v"
proof -
  have "- (0x7f AND b) = l \<and> bit b 7 = v"
  proof (cases "l = 0")
    case True
    have "take_bit 7 (0x80 :: u8) = 0" by simp
    then show ?thesis using True by (auto simp: b_def low7)
  next
    case False
    then have l: "128 < unat l" "unat l < 256" "v" using assms(1,2) unsigned_less [of l] by (auto simp: word_less_nat_alt)
    define x y where "x = take_bit 7 l" and "y = - x"
    have x: "unat x = unat l - 128" using l(1,2) by (simp add: x_def unat_take7 le_mod_geq)
    then have "x \<noteq> 0" using l by auto
    then have y: "unat y = 384 - unat l" using x l by (simp add: y_def unat_minus8)
    then have "unat y div 128 = 1" using l by (intro div_nat_eqI) auto
    then have "bit (unat y) 7" by (simp add: bit_iff_odd)
    then have top: "bit y 7" by (simp add: bit_unsigned_iff)
    have "0x80 OR y = y" using top by (intro bit_word_eqI) (simp only: bit_or_iff bit_top, blast)
    then have b: "b = y" using l(3) by (simp add: b_def low7 x_def y_def)
    have z: "unat (take_bit 7 y) = 256 - unat l" using y l by (simp add: unat_take7 le_mod_geq)
    then have "take_bit 7 y \<noteq> 0" using l by auto
    then have "unat (- take_bit 7 y) = unat l" using z l by (simp add: unat_minus8)
    then show ?thesis using top l(3) by (simp add: b low7 word_unat_eq_iff)
  qed
  then show "- (0x7f AND b) = l" "(0 < b AND 0x80) = v" by (simp_all add: top7)
qed

lemma delay_12_take: "delay_12 t = take_bit 12 (word_of_int (numer (rebase t HUNDREDTHS)))"
proof -
  have "(0xfff :: u32) = mask 12" by (simp add: mask_eq_exp_minus_1)
  then show ?thesis by (simp only: delay_12_def take_bit_eq_mask)
qed

lemma delay_12_bits: "12 \<le> j \<Longrightarrow> \<not> bit (delay_12 t) j"
  unfolding delay_12_take by (simp only: bit_take_bit_iff) simp

lemma delay_12_value: "hundredths_12 t \<Longrightarrow> \<lparr>numer = int (unat (delay_12 t)), denom = HUNDREDTHS\<rparr> = t"
proof -
  assume h: "hundredths_12 t"
  then have "rebase t HUNDREDTHS = t" by (metis hundredths_12_def rebase_same)
  then have "uint (delay_12 t) = take_bit 12 (take_bit 32 (numer t))"
    unfolding delay_12_take unsigned_take_bit_eq uint_word_of_int by (simp add: take_bit_eq_mod [of 32])
  also have "\<dots> = numer t" using h by (simp add: hundredths_12_def take_bit_int_eq_self)
  finally have "int (unat (delay_12 t)) = numer t" by simp
  then show ?thesis using h by (cases t) (simp add: hundredths_12_def)
qed

lemma delays_packed:
  fixes lo hi :: u32
  assumes "\<And>j. 12 \<le> j \<Longrightarrow> \<not> bit lo j" "\<And>j. 12 \<le> j \<Longrightarrow> \<not> bit hi j"
  shows "push_bit 4 (ucast (ucast (drop_bit 4 lo) :: u8)) OR drop_bit 4 (ucast (ucast (push_bit 4 lo) OR ucast (drop_bit 8 hi) :: u8)) = lo"
    "push_bit 8 (ucast ((ucast (push_bit 4 lo) OR ucast (drop_bit 8 hi) :: u8) AND 0xf)) OR ucast (ucast hi :: u8) = hi"
proof -
  have f: "(0xf :: u8) = mask 4" by (simp add: mask_eq_exp_minus_1)
  have a: "\<not> bit lo j" "\<not> bit hi j" if "12 \<le> j" for j using that assms by blast+
  show "push_bit 4 (ucast (ucast (drop_bit 4 lo) :: u8)) OR drop_bit 4 (ucast (ucast (push_bit 4 lo) OR ucast (drop_bit 8 hi) :: u8)) = lo"
    by (rule bit_word_eqI) (auto simp: bit_simps a not_less intro: ccontr dest: a)
  show "push_bit 8 (ucast ((ucast (push_bit 4 lo) OR ucast (drop_bit 8 hi) :: u8) AND 0xf)) OR ucast (ucast hi :: u8) = hi"
    unfolding f by (rule bit_word_eqI) (auto simp: bit_simps a not_less intro: ccontr dest: a)
qed


lemma three_octets: "from_be32 0 (tl (to_be32 x) ! 0) (tl (to_be32 x) ! 1) (tl (to_be32 x) ! 2) = take_bit 24 x"
proof (rule bit_word_eqI)
  fix n assume "n < LENGTH(32)"
  then have "n < 32" by simp
  then show "bit (from_be32 0 (tl (to_be32 x) ! 0) (tl (to_be32 x) ! 1) (tl (to_be32 x) ! 2)) n = bit (take_bit 24 x) n"
    by (cases rule: octet_cases) (auto simp: from_be32_def to_be32_def bit_simps)
qed

text \<open>An extension that the sender writes is at most sixteen octets, and the receiver reads the values out of it.\<close>

lemma ext_parse_write:
  assumes "ext_write beginning e ev = Some buf" "faithful ev"
  shows "ext_parse e buf acc = Some (heard beginning e ev acc)" "0 < length buf" "length buf \<le> 16"
proof -
  have f: "\<And>l v. audio_level ev = Some l \<Longrightarrow> voice_activity ev = Some v \<Longrightarrow> (l = 0 \<or> 0x80 < l) \<and> (v \<or> l = 0)"
    "\<And>t. play_delay_min ev = Some t \<Longrightarrow> hundredths_12 t" "\<And>t. play_delay_max ev = Some t \<Longrightarrow> hundredths_12 t"
    "\<And>a. ev_rid ev = Some a \<Longrightarrow> clean_id 8 a" "\<And>a. ev_rid_repair ev = Some a \<Longrightarrow> clean_id 8 a"
    "\<And>a. ev_mid ev = Some a \<Longrightarrow> clean_id 16 a"
    using assms(2) by (simp_all add: faithful_def)
  have "ext_parse e buf acc = Some (heard beginning e ev acc) \<and> 0 < length buf \<and> length buf \<le> 16"
  proof (cases e)
    case AbsoluteSendTime
    then obtain t where "abs_send_time ev = Some t" "buf = tl (to_be32 (send_time_24 beginning t))"
      using assms(1) by (auto simp: ext_write_def split: bind_splits)
    then show ?thesis using AbsoluteSendTime three_octets [of "send_time_24 beginning t"]
      by (simp add: ext_parse_def heard_def idx_def del: nth_tl)
  next
    case AudioLevel
    then obtain l v where l: "audio_level ev = Some l" "voice_activity ev = Some v" "buf = [(if v then 0x80 else 0) OR - (0x7f AND l)]"
      using assms(1) by (auto simp: ext_write_def split: bind_splits)
    show ?thesis using AudioLevel l level_kept [of l v] f(1) [OF l(1,2)] by (simp add: ext_parse_def heard_def idx_def)
  next
    case PlayoutDelay
    then obtain v1 v2 where v: "play_delay_min ev = Some v1" "play_delay_max ev = Some v2"
        "buf = [ucast (drop_bit 4 (delay_12 v1)), ucast (push_bit 4 (delay_12 v1)) OR ucast (drop_bit 8 (delay_12 v2)), ucast (delay_12 v2)]"
      using assms(1) by (auto simp: ext_write_def Let_def split: bind_splits)
    show ?thesis using PlayoutDelay v delays_packed [of "delay_12 v1" "delay_12 v2"] delay_12_bits
        delay_12_value [OF f(2) [OF v(1)]] delay_12_value [OF f(3) [OF v(2)]]
      by (simp only: ext_parse_def heard_def idx_def extension.case Let_def nth_Cons_0 nth_Cons_Suc One_nat_def numeral_2_eq_2 list.size) simp
  next
    case VideoTiming
    then obtain v where v: "video_timing ev = Some v" "buf = [vt_flags v] @ to_be16 (encode_start v) @ to_be16 (encode_finish v)
        @ to_be16 (packetize_complete v) @ to_be16 (last_left_pacer v) @ to_be16 0 @ to_be16 0"
      using assms(1) by (auto simp: ext_write_def split: bind_splits)
    have "u16_at buf 1 = Some (encode_start v)" "u16_at buf 3 = Some (encode_finish v)" "u16_at buf 5 = Some (packetize_complete v)"
        "u16_at buf 7 = Some (last_left_pacer v)"
      unfolding v(2) by (simp_all add: u16_at_def idx_def to_be16_def)
    then show ?thesis using VideoTiming v by (simp add: ext_parse_def heard_def idx_def)
  next
    case RtpStreamId
    then obtain a where "ev_rid ev = Some a" "buf = id_text a" using assms(1) by (auto simp: ext_write_def split: bind_splits)
    then show ?thesis using RtpStreamId clean_id_text [OF f(4)] by (auto simp: ext_parse_def heard_def)
  next
    case RepairedRtpStreamId
    then obtain a where "ev_rid_repair ev = Some a" "buf = id_text a" using assms(1) by (auto simp: ext_write_def split: bind_splits)
    then show ?thesis using RepairedRtpStreamId clean_id_text [OF f(5)] by (auto simp: ext_parse_def heard_def)
  next
    case RtpMid
    then obtain a where "ev_mid ev = Some a" "buf = id_text a" using assms(1) by (auto simp: ext_write_def split: bind_splits)
    then show ?thesis using RtpMid clean_id_text [OF f(6)] by (auto simp: ext_parse_def heard_def)
  next
    case VideoOrientation
    then obtain r where "video_orientation ev = Some r" "buf = [orientation_code r]" using assms(1) by (auto simp: ext_write_def split: bind_splits)
    then show ?thesis using VideoOrientation
      by (cases r) (simp_all add: ext_parse_def heard_def idx_def orientation_code_def orientation_from_def)
  next
    case TransmissionTimeOffset
    then obtain v where "tx_time_offs ev = Some v" "buf = to_be32 v" using assms(1) by (auto simp: ext_write_def split: bind_splits)
    then show ?thesis using TransmissionTimeOffset u32_at_append [of "[]" v "[]"] by (simp add: ext_parse_def heard_def)
  next
    case FrameMarking
    then obtain v where "frame_mark ev = Some v" "buf = to_be32 v" using assms(1) by (auto simp: ext_write_def split: bind_splits)
    then show ?thesis using FrameMarking u32_at_append [of "[]" v "[]"] by (simp add: ext_parse_def heard_def)
  next
    case TransportSequenceNumber
    then obtain v where "transport_cc ev = Some v" "buf = to_be16 v" using assms(1) by (auto simp: ext_write_def split: bind_splits)
    then show ?thesis using TransportSequenceNumber from_be16_to_be16 [of v] by (simp add: ext_parse_def heard_def u16_at_def idx_def)
  next
    case VideoContentType
    then obtain v where "video_content_type ev = Some v" "buf = [v]" using assms(1) by (auto simp: ext_write_def split: bind_splits)
    then show ?thesis using VideoContentType by (simp add: ext_parse_def heard_def idx_def)
  qed (use assms(1) in \<open>simp add: ext_write_def\<close>)
  then show "ext_parse e buf acc = Some (heard beginning e ev acc)" "0 < length buf" "length buf \<le> 16" by simp_all
qed

lemma heard_nothing: "ext_write beginning e ev = None \<Longrightarrow> heard beginning e ev acc = acc"
  by (cases e; simp only: ext_write_def heard_def Let_def extension.case Option.bind_eq_None_conv option.distinct simp_thms; auto)


section \<open>All of them there and back\<close>

lemma small_bits: "unat (w :: u8) < 2 ^ m \<Longrightarrow> m \<le> j \<Longrightarrow> \<not> bit w j"
proof
  assume w: "unat w < 2 ^ m" "m \<le> j" and "bit w j"
  then have "bit (unat w) j" by (simp add: bit_unsigned_iff)
  moreover have "(2 :: nat) ^ m \<le> 2 ^ j" using w(2) by (intro power_increasing) simp_all
  ultimately show False using w(1) by (simp add: bit_iff_odd)
qed

lemma nibble_bits: "k < 16 \<Longrightarrow> 4 \<le> j \<Longrightarrow> \<not> bit (of_nat k :: u8) j"
  by (rule small_bits [of _ 4]) (simp_all add: unsigned_of_nat take_bit_nat_eq_self)

lemma nibbles:
  assumes "i < 16" "k < 16"
  shows "unat (drop_bit 4 (push_bit 4 (of_nat i) OR of_nat k :: u8)) = i" "unat ((push_bit 4 (of_nat i) OR of_nat k :: u8) AND 0xf) = k"
proof -
  have "drop_bit 4 (push_bit 4 (of_nat i) OR of_nat k :: u8) = of_nat i"
    using nibble_bits [OF assms(1)] nibble_bits [OF assms(2)]
    by (intro bit_word_eqI) (auto simp: bit_or_iff bit_drop_bit_eq bit_push_bit_iff not_less intro: ccontr)
  then show "unat (drop_bit 4 (push_bit 4 (of_nat i) OR of_nat k :: u8)) = i" using assms(1)
    by (simp add: unsigned_of_nat take_bit_nat_eq_self)
  have f: "(0xf :: u8) = mask 4" by (simp add: mask_eq_exp_minus_1)
  have "(push_bit 4 (of_nat i) OR of_nat k :: u8) AND 0xf = of_nat k"
    unfolding f using nibble_bits [OF assms(2)]
    by (intro bit_word_eqI) (auto simp: bit_or_iff bit_and_iff bit_mask_iff bit_push_bit_iff simp flip: not_le)
  then show "unat ((push_bit 4 (of_nat i) OR of_nat k :: u8) AND 0xf) = k" using assms(2)
    by (simp add: unsigned_of_nat take_bit_nat_eq_self)
qed

lemma ext_header_read:
  assumes "ext_header f i n = Some h" "1 \<le> i" "i \<le> MAX_ID" "f = OneByte \<longrightarrow> i \<le> MAX_ID_ONE_BYTE_FORM" "n \<le> 16"
  shows "h \<noteq> [] \<and> hd h \<noteq> 0 \<and> ext_next f (h @ rest) = Some (Some (i, n, rest))"
proof (cases f)
  case OneByte
  then have n: "0 < n" "h = [push_bit 4 (of_nat i) OR of_nat (n - 1)]" "i \<le> 14"
    using assms by (auto simp: ext_header_def MAX_ID_ONE_BYTE_FORM_def split: if_splits)
  have b: "unat (drop_bit 4 (hd h)) = i" "unat (hd h AND 0xf) = n - 1" using nibbles [of i "n - 1"] n assms(5) by simp_all
  then have "hd h \<noteq> 0" using assms(2) by (metis drop_bit_of_0 not_one_le_zero unat_0)
  then show ?thesis using OneByte n(1,2,3) b by (auto simp: ext_next_def Let_def idx_def slice_def)
next
  case TwoByte
  then have h: "h = [of_nat i, of_nat n]" using assms(1) by (simp add: ext_header_def)
  have "unat (of_nat i :: u8) = i" "unat (of_nat n :: u8) = n" using assms(3,5)
    by (simp_all add: MAX_ID_def unsigned_of_nat take_bit_nat_eq_self)
  moreover from this have "(of_nat i :: u8) \<noteq> 0" using assms(2) by auto
  ultimately show ?thesis using TwoByte h by (simp add: ext_next_def idx_def slice_def)
qed

lemma parse_padding: "exts_parse m f (replicate k 0) ev = Some ev"
  by (induction k) (subst exts_parse.simps, simp add: idx_def slice_def)+

lemma parse_one:
  assumes "h \<noteq> []" "hd h \<noteq> 0" "ext_next f (h @ buf @ rest) = Some (Some (i, length buf, buf @ rest))"
    "ext_lookup m i = Some (Some e)" "ext_parse e buf ev = Some ev'"
  shows "exts_parse m f (h @ buf @ rest) ev = exts_parse m f rest ev'"
proof -
  have "idx (h @ buf @ rest) 0 \<noteq> Some 0" using assms(1,2) by (cases h) (auto simp: idx_def)
  moreover have "slice (buf @ rest) 0 (length buf) = Some buf" "slice (buf @ rest) (length buf) (length (buf @ rest)) = Some rest"
    by (simp_all add: slice_def)
  ultimately show ?thesis using assms by (subst exts_parse.simps) simp
qed

definition heard_all :: "nat \<Rightarrow> ext_values \<Rightarrow> ext_map \<Rightarrow> ext_values \<Rightarrow> ext_values" where
  "heard_all beginning ev m acc = fold (\<lambda>x. case x of None \<Rightarrow> id | Some v \<Rightarrow> heard beginning (me_ext v) ev) m acc"

lemma exts_parse_write:
  assumes "faithful ev" "exts_write beginning f ev i xs = Some out" "\<And>k. k < length xs \<Longrightarrow> xs ! k = m ! (i + k)" "i + length xs \<le> MAX_ID"
    "\<And>k. k < length xs \<Longrightarrow> xs ! k \<noteq> None \<Longrightarrow> f = OneByte \<Longrightarrow> i + k + 1 \<le> MAX_ID_ONE_BYTE_FORM" "length m = MAX_ID"
  shows "exts_parse m f (out @ replicate n 0) acc = Some (heard_all beginning ev xs acc)"
  using assms(2-)
proof (induction xs arbitrary: i out acc)
  case Nil
  then show ?case by (simp add: heard_all_def parse_padding)
next
  case (Cons x xs)
  obtain bs rest where r: "exts_write beginning f ev (i + 1) xs = Some rest" "out = bs @ rest"
      "(case x of None \<Rightarrow> Some [] | Some v \<Rightarrow> (case ext_write beginning (me_ext v) ev of None \<Rightarrow> Some []
        | Some buf \<Rightarrow> do { h \<leftarrow> ext_header f (i + 1) (length buf); Some (h @ buf) })) = Some bs"
    using Cons.prems(1) by (auto split: bind_splits)
  have IH: "exts_parse m f (rest @ replicate n 0) acc' = Some (heard_all beginning ev xs acc')" for acc'
  proof (rule Cons.IH [OF r(1)])
    show "xs ! k = m ! (i + 1 + k)" if "k < length xs" for k using Cons.prems(2) [of "Suc k"] that by simp
    show "i + 1 + length xs \<le> MAX_ID" using Cons.prems(3) by simp
    show "i + 1 + k + 1 \<le> MAX_ID_ONE_BYTE_FORM" if "k < length xs" "xs ! k \<noteq> None" "f = OneByte" for k
      using Cons.prems(4) [of "Suc k"] that by simp
    show "length m = MAX_ID" by (rule Cons.prems(5))
  qed
  have m: "x = m ! i" using Cons.prems(2) [of 0] by simp
  show ?case
  proof (cases "\<exists>v buf. x = Some v \<and> ext_write beginning (me_ext v) ev = Some buf")
    case True
    then obtain v buf where v: "x = Some v" "ext_write beginning (me_ext v) ev = Some buf" by blast
    then obtain h where h: "ext_header f (i + 1) (length buf) = Some h" "bs = h @ buf" using r(3) by (auto split: bind_splits)
    have "i + 1 \<le> MAX_ID" "f = OneByte \<longrightarrow> i + 1 \<le> MAX_ID_ONE_BYTE_FORM" using Cons.prems(3) Cons.prems(4) [of 0] v(1) by auto
    then have "h \<noteq> [] \<and> hd h \<noteq> 0 \<and> ext_next f (h @ buf @ rest @ replicate n 0) = Some (Some (i + 1, length buf, buf @ rest @ replicate n 0))"
      using ext_header_read [OF h(1)] ext_parse_write(3) [OF v(2) assms(1)] by auto
    moreover have "ext_lookup m (i + 1) = Some (Some (me_ext v))"
      using v(1) m Cons.prems(5) \<open>i + 1 \<le> MAX_ID\<close> by (simp add: ext_lookup_def idx_def)
    ultimately have "exts_parse m f (out @ replicate n 0) acc = exts_parse m f (rest @ replicate n 0) (heard beginning (me_ext v) ev acc)"
      using parse_one [of h f buf "rest @ replicate n 0" "i + 1" m "me_ext v" acc] r(2) h(2) ext_parse_write(1) [OF v(2) assms(1)] by simp
    then show ?thesis using IH v(1) by (simp add: heard_all_def)
  next
    case False
    then have "bs = []" "(case x of None \<Rightarrow> id | Some v \<Rightarrow> heard beginning (me_ext v) ev) acc = acc"
      using r(3) heard_nothing by (auto split: option.splits)
    then show ?thesis using IH r(2) by (simp add: heard_all_def)
  qed
qed


section \<open>Send times\<close>

text \<open>
  The send time of a packet is told as an offset of less than 64 seconds; the receiver takes the latest instant with
  that offset that has passed. \<open>None\<close> is the failed assertion.
\<close>

definition update_absolute_send_time :: "nat \<Rightarrow> int \<Rightarrow> ext_values \<Rightarrow> ext_values option" where
  "update_absolute_send_time beginning now ev =
     (case abs_send_time ev of
        None \<Rightarrow> Some ev
      | Some v \<Rightarrow>
          if 64000000000 < v then None
          else
            (let now_since_epoch = to_unix_duration beginning now;
                 closest_64 = now_since_epoch - now_since_epoch div 1000 mod 64000000 * 1000;
                 since_beginning = closest_64 - beginning;
                 offset = int since_beginning;
                 offset = (if now < offset + v then offset - 64000000000 else offset)
             in Some (ev\<lparr>abs_send_time := Some (offset + v)\<rparr>)))"

lemma send_time_24_value:
  assumes "u = to_unix_duration beginning t" "u < 2 ^ 63"
  shows "unat (take_bit 24 (send_time_24 beginning t)) = (u div 1000 * 2 ^ 18 div 1000000) mod 2 ^ 24"
proof -
  define m where "m = u div 1000"
  define x where "x = m * 262144 div 1000000"
  have m: "m < 2 ^ 63" "x \<le> m" using assms(2) by (simp_all add: m_def x_def)
  have "(int m * 262144) sdiv 1000000 = int x" by (simp add: sdiv_nonneg x_def zdiv_int)
  then have "numer (rebase (of_duration m) FIXED_POINT_6_18) = int x"
    using m by (simp add: of_duration_def rebase_def FIXED_POINT_6_18_def MICROS_def i64_ok_def)
  then have "send_time_24 beginning t = of_nat x" using assms(1) by (simp add: send_time_24_def m_def)
  then have "unat (take_bit 24 (send_time_24 beginning t)) = take_bit 24 (take_bit 32 x)"
    by (simp only: unsigned_take_bit_eq unsigned_of_nat) simp
  also have "\<dots> = x mod 2 ^ 24" by (simp add: take_bit_eq_mod [of 24])
  finally show ?thesis by (simp add: x_def m_def)
qed

lemma relative_send_time_value: "relative_send_time x = 1000 * (unat x * 1000000 div 2 ^ 18)"
proof -
  have "unat x < 2 ^ 32" using unsigned_less [of x] by simp
  then have b: "i64_ok (int (unat x * 1000000 div 2 ^ 18))" by (simp add: i64_ok_def)
  have "(int (unat x) * 1000000) sdiv 262144 = int (unat x * 1000000 div 2 ^ 18)" by (simp add: sdiv_nonneg zdiv_int)
  then have "numer (rebase \<lparr>numer = int (unat x), denom = FIXED_POINT_6_18\<rparr> MICROS) = int (unat x * 1000000 div 2 ^ 18)"
    using b by (simp add: rebase_def FIXED_POINT_6_18_def MICROS_def)
  then show ?thesis by (simp add: relative_send_time_def)
qed

lemma quotient_bounds: "0 < d \<Longrightarrow> x div d * d \<le> x \<and> x < x div d * d + (d :: nat)"
  using dividend_less_div_times [of d x] div_times_less_eq_dividend [of x d] by simp

text \<open>The offset that is told, in microseconds: the send time modulo 64 seconds, less than five microseconds early.\<close>

lemma told_offset:
  assumes "x = m * 2 ^ 18 div (1000000 :: nat)"
  shows "\<exists>m' k. m' \<le> m \<and> m \<le> m' + 4 \<and> m' = (x mod 2 ^ 24) * 1000000 div 2 ^ 18 + 64000000 * k \<and> (x mod 2 ^ 24) * 1000000 div 2 ^ 18 < 64000000"
proof -
  define m' where "m' = x * 1000000 div 2 ^ 18"
  have "x * 1000000 \<le> m * 2 ^ 18" "m * 2 ^ 18 < x * 1000000 + 1000000" unfolding assms using quotient_bounds [of 1000000 "m * 2 ^ 18"] by auto
  moreover have "m' * 2 ^ 18 \<le> x * 1000000" "x * 1000000 < m' * 2 ^ 18 + 2 ^ 18" unfolding m'_def using quotient_bounds [of "2 ^ 18" "x * 1000000"] by auto
  ultimately have "m' \<le> m" "m \<le> m' + 4" by simp_all
  moreover have "x * 1000000 = (x mod 2 ^ 24) * 1000000 + x div 2 ^ 24 * 64000000 * 2 ^ 18"
  proof -
    have "x = x div 16777216 * 16777216 + x mod 16777216" by simp
    then have "x * 1000000 = x mod 16777216 * 1000000 + 16777216000000 * (x div 16777216)" by linarith
    then show ?thesis by simp
  qed
  then have "m' = (x mod 2 ^ 24) * 1000000 div 2 ^ 18 + 64000000 * (x div 2 ^ 24)"
    using div_mult_self1 [of "2 ^ 18" "(x mod 2 ^ 24) * 1000000" "x div 2 ^ 24 * 64000000"] unfolding m'_def by (simp only:) simp
  moreover have "(x mod 2 ^ 24) * 1000000 div 2 ^ 18 < 64000000" by (simp add: div_less_iff_less_mult)
  ultimately show ?thesis by blast
qed

text \<open>The receiver's part in microseconds: \<open>s\<close> of the \<open>q\<close>th interval have passed, and the offset told is \<open>t\<close>.\<close>

lemma latest_offset:
  fixes s q t k m' a rest :: nat and here now arrived base :: int
  assumes "a = q * 64000000 + s" "s < 64000000" "t < 64000000" "m' = t + 64000000 * k" "m' \<le> a" "a < m' + 64000000"
    "arrived = int a * 1000 + int rest" "arrived = here + now" "base = arrived - int s * 1000"
  shows "here + ((if now < base - here + int (1000 * t) then base - here - 64000000000 else base - here) + int (1000 * t)) = int m' * 1000 + int rest"
proof -
  have late: "now < base - here + int (1000 * t) \<longleftrightarrow> s < t" using assms(8,9) by simp
  have "if s < t then q = k + 1 else q = k" using assms(1-6) by (cases "s < t"; simp only: if_True if_False; linarith)
  then have q: "int q = (if s < t then int k + 1 else int k)" by simp
  have i: "int a = int q * 64000000 + int s" "int m' = int t + 64000000 * int k" "int (1000 * t) = 1000 * int t"
    using assms(1,4) by simp_all
  show ?thesis
  proof (cases "s < t")
    case True
    then have "int q = int k + 1" using q by simp
    then show ?thesis unfolding late using True i assms(7-9) by simp
  next
    case False
    then have "int q = int k" using q by simp
    then show ?thesis unfolding late using False i assms(7-9) by simp
  qed
qed

text \<open>C39. The send time survives the trip: if a packet arrives less than 64 seconds after it was sent, and the process of
  the receiver began before the current interval of 64 seconds, the receiver works out the time of day at which it
  was sent, at most five microseconds too early or one too late.
\<close>

theorem send_time_recovered:
  assumes "ext_write there AbsoluteSendTime ev = Some buf" "abs_send_time ev = Some t" "sent = to_unix_duration there t"
    "arrived = to_unix_duration here now" "0 \<le> now" "sent \<le> arrived" "arrived + 5000 \<le> sent + 64000000000" "arrived < 2 ^ 63"
    "here \<le> arrived - arrived div 1000 mod 64000000 * 1000"
  shows "\<exists>r. map_option abs_send_time (Option.bind (ext_parse AbsoluteSendTime buf no_values) (update_absolute_send_time here now)) = Some (Some r)
    \<and> int sent - 5000 \<le> int here + r \<and> int here + r \<le> int sent + 1000"
proof -
  define m a where "m = sent div 1000" and "a = arrived div 1000"
  define o64 where "o64 = (m * 2 ^ 18 div 1000000) mod 2 ^ 24 * 1000000 div (2 ^ 18 :: nat)"
  obtain m' k where o: "m' \<le> m" "m \<le> m' + 4" "m' = o64 + 64000000 * k" "o64 < 64000000"
    using told_offset [OF refl, of m] by (auto simp: o64_def)
  have "faithful (no_values\<lparr>abs_send_time := Some t\<rparr>)" by (simp add: faithful_def no_values_def)
  moreover have "ext_write there AbsoluteSendTime (no_values\<lparr>abs_send_time := Some t\<rparr>) = Some buf" using assms(1,2) by (simp add: ext_write_def)
  ultimately have "ext_parse AbsoluteSendTime buf no_values
      = Some (no_values\<lparr>abs_send_time := Some (int (relative_send_time (take_bit 24 (send_time_24 there t))))\<rparr>)"
    using ext_parse_write(1) by (fastforce simp: heard_def)
  moreover have "relative_send_time (take_bit 24 (send_time_24 there t)) = 1000 * o64"
    using assms(6,8) by (simp add: relative_send_time_value send_time_24_value [OF assms(3)] o64_def m_def)
  ultimately have p: "ext_parse AbsoluteSendTime buf no_values = Some (no_values\<lparr>abs_send_time := Some (int (1000 * o64))\<rparr>)" by simp
  define base where "base = arrived - a mod 64000000 * 1000"
  have now: "int arrived = int here + now" using assms(4,5) by (simp add: to_unix_duration_def)
  have le: "a * 1000 \<le> arrived" using quotient_bounds [of 1000 arrived] by (simp add: a_def)
  moreover have "a mod 64000000 \<le> a" by simp
  ultimately have base: "int base = int arrived - int (a mod 64000000) * 1000" "here \<le> base"
    using assms(9) by (simp_all add: base_def a_def of_nat_diff)
  define r where "r = (if now < int base - int here + int (1000 * o64) then int base - int here - 64000000000 else int base - int here) + int (1000 * o64)"
  have "map_option abs_send_time (Option.bind (ext_parse AbsoluteSendTime buf no_values) (update_absolute_send_time here now)) = Some (Some r)"
    using o(4) p base(2) by (simp add: update_absolute_send_time_def Let_def r_def base_def a_def assms(4) [symmetric] of_nat_diff)
  moreover have "int here + r = int m' * 1000 + int (arrived - a * 1000)"
    unfolding r_def
  proof (rule latest_offset [where a = a and q = "a div 64000000" and s = "a mod 64000000" and k = k and arrived = "int arrived"])
    have "m \<le> a" using assms(6) by (simp add: m_def a_def div_le_mono)
    then show "m' \<le> a" using o(1) by simp
    show "a < m' + 64000000"
      using assms(7) o(2) quotient_bounds [of 1000 sent] quotient_bounds [of 1000 arrived] by (simp add: m_def a_def)
    show "int arrived = int a * 1000 + int (arrived - a * 1000)" using le by simp
  qed (use o now base in simp_all)
  moreover have "int sent - 5000 \<le> int m' * 1000 + int (arrived - a * 1000)" "int m' * 1000 + int (arrived - a * 1000) \<le> int sent + 1000"
    using o(1,2) quotient_bounds [of 1000 sent] quotient_bounds [of 1000 arrived] by (simp_all add: m_def a_def of_nat_diff)
  ultimately show ?thesis by auto
qed

lemma send_time_recovered_witness:
  "\<exists>buf r. ext_write 1000 AbsoluteSendTime (no_values\<lparr>abs_send_time := Some 70000000000\<rparr>) = Some buf
    \<and> map_option abs_send_time (Option.bind (ext_parse AbsoluteSendTime buf no_values) (update_absolute_send_time 2000 70000001000)) = Some (Some r)
    \<and> 69999994000 \<le> r \<and> r \<le> 70000000000"
proof -
  let ?ev = "no_values\<lparr>abs_send_time := Some 70000000000\<rparr>"
  obtain buf where b: "ext_write 1000 AbsoluteSendTime ?ev = Some buf" by (simp add: ext_write_def)
  obtain r where "map_option abs_send_time (Option.bind (ext_parse AbsoluteSendTime buf no_values) (update_absolute_send_time 2000 70000001000)) = Some (Some r)"
      "int 70000001000 - 5000 \<le> int 2000 + r" "int 2000 + r \<le> int 70000001000 + 1000"
    using send_time_recovered [OF b, of 70000000000 70000001000 70000003000 2000 70000001000]
    by (auto simp: to_unix_duration_def)
  then show ?thesis using b by (intro exI [of _ buf] exI [of _ r]) simp
qed

text \<open>
  Silence is heard as voice: a packet that says that there is no voice, at any level but 0, arrives saying there is.
  Here -30.
\<close>

theorem silence_heard_as_voice:
  "map_option (\<lambda>ev. (audio_level ev, voice_activity ev))
     (Option.bind (ext_write 0 AudioLevel (no_values\<lparr>audio_level := Some (- 30), voice_activity := Some False\<rparr>))
        (\<lambda>buf. ext_parse AudioLevel buf no_values)) = Some (Some (- 30), Some True)"
  by code_simp

end
