(* ===== verification/RtpHeader.thy ===== *)
theory RtpHeader imports RtpExt begin

text \<open>
  The header of RTP packets, their padding and the original number in resent ones, \<open>rtp/header.rs\<close> of str0m.
  \<open>None\<close> is a panic.
\<close>

section \<open>State\<close>

record rtp_header =
  hd_version :: u8
  has_padding :: bool
  has_extension :: bool
  rtp_marker :: bool
  payload_type :: u8
  sequence_number :: u16
  rtp_timestamp :: u32
  rtp_ssrc :: u32
  ext_vals :: ext_values
  header_len :: nat

section \<open>Writing\<close>

definition first_octet :: "rtp_header \<Rightarrow> u8" where
  "first_octet h = 0x80 OR (if has_padding h then push_bit 5 1 else 0) OR (if has_extension h then push_bit 4 1 else 0)"

text \<open>The extension header is always written. The octets written are returned; the buffer of a datagram holds them.\<close>

definition header_write :: "nat \<Rightarrow> rtp_header \<Rightarrow> ext_map \<Rightarrow> bytes option" where
  "header_write beginning h m =
     (if \<not> payload_type h \<le> 127 then None
      else do {
        let f = ext_form_of m;
        exts \<leftarrow> exts_write beginning f (ext_vals h) 0 m;
        let pad = 4 - length exts mod 4;
        let exts = (if pad < 4 then exts @ replicate pad 0 else exts);
        Some ([first_octet h, (payload_type h AND 0x7F) OR (if rtp_marker h then push_bit 7 1 else 0)]
          @ to_be16 (sequence_number h) @ to_be32 (rtp_timestamp h) @ to_be32 (rtp_ssrc h)
          @ form_octets f @ to_be16 (of_nat (length exts div 4)) @ exts) })"

section \<open>Padding\<close>

definition MAX_BLANK_PADDING_PAYLOAD_SIZE :: nat where "MAX_BLANK_PADDING_PAYLOAD_SIZE = 240"

definition SRTP_BLOCK_SIZE :: nat where "SRTP_BLOCK_SIZE = 16"

definition do_pad :: "bytes \<Rightarrow> nat \<Rightarrow> nat \<Rightarrow> bytes option" where
  "do_pad buf start pad =
     (if 255 < pad then None
      else do {
        b0 \<leftarrow> idx buf 0;
        buf \<leftarrow> put buf 0 (b0 OR 0x20);
        buf \<leftarrow> for_each (\<lambda>i buf. put buf (start + i) 0) [0..<pad] buf;
        put buf (start + pad - 1) (of_nat pad) })"

definition pad_packet :: "bytes \<Rightarrow> nat \<Rightarrow> nat \<Rightarrow> nat \<Rightarrow> (bytes \<times> nat) option" where
  "pad_packet buf hlen body_len block_size =
     (let pad_len = block_size - body_len mod block_size
      in if block_size = 0 then None
         else if pad_len = block_size then Some (buf, 0)
         else map_option (\<lambda>buf. (buf, pad_len)) (do_pad buf (hlen + body_len) pad_len))"

definition create_padding_packet :: "bytes \<Rightarrow> nat \<Rightarrow> nat \<Rightarrow> nat \<Rightarrow> (bytes \<times> nat) option" where
  "create_padding_packet buf hlen pad_len block_size =
     (if pad_len = 0 then Some (buf, 0)
      else if block_size = 0 then None
      else (let rounded_len = min (if pad_len mod block_size = 0 then pad_len else (pad_len div block_size + 1) * block_size)
                  MAX_BLANK_PADDING_PAYLOAD_SIZE
            in map_option (\<lambda>buf. (buf, rounded_len)) (do_pad buf hlen rounded_len)))"

text \<open>Here \<open>None\<close> is a refusal: more padding is claimed than there are octets.\<close>

definition unpad_payload :: "bytes \<Rightarrow> bytes option" where
  "unpad_payload buf =
     (if buf = [] then Some buf
      else if length buf < unat (last buf) then None else Some (take (length buf - unat (last buf)) buf))"

section \<open>Reading\<close>

text \<open>One of the contributing sources; the code reads them at the wrong place, but does not use them.\<close>

definition csrc_at :: "bytes \<Rightarrow> nat \<Rightarrow> u32 option" where
  "csrc_at buf i = do { a \<leftarrow> idx buf i; b \<leftarrow> idx buf (i + 1); c \<leftarrow> idx buf (i + 2); d \<leftarrow> idx buf (i + 3); Some (from_be32 a b c d) }"

text \<open>A panic is the outer \<open>None\<close>; a header that is refused is \<open>Some None\<close>.\<close>

definition parse_exts :: "ext_map \<Rightarrow> bytes \<Rightarrow> (bytes \<times> ext_values) option option" where
  "parse_exts m buf =
     (if length buf < 4 then Some None
      else do {
        b0 \<leftarrow> idx buf 0;
        b1 \<leftarrow> idx buf 1;
        case form_parse b0 b1 of
          None \<Rightarrow> Some None
        | Some f \<Rightarrow> do {
            ext_words \<leftarrow> u16_at buf 2;
            let ext_len = unat ext_words * 4;
            buf \<leftarrow> slice buf 4 (length buf);
            if length buf < ext_len then Some None
            else do {
              ext_buf \<leftarrow> slice buf 0 ext_len;
              exts \<leftarrow> exts_parse m f ext_buf no_values;
              rest \<leftarrow> slice buf ext_len (length buf);
              Some (Some (rest, exts)) } } })"

definition header_parse :: "ext_map \<Rightarrow> bytes \<Rightarrow> rtp_header option option" where
  "header_parse m packet =
     (if length packet < 12 then Some None
      else do {
        b0 \<leftarrow> idx packet 0;
        let version = drop_bit 6 (b0 AND 0xC0);
        if version \<noteq> 2 then Some None
        else do {
          b1 \<leftarrow> idx packet 1;
          seq \<leftarrow> u16_at packet 2;
          time \<leftarrow> u32_at packet 4;
          ssrc \<leftarrow> u32_at packet 8;
          buf \<leftarrow> slice packet 12 (length packet);
          let csrc_count = unat (b0 AND 0x0F);
          if length buf < 4 * csrc_count then Some None
          else do {
            _ \<leftarrow> for_each (\<lambda>i _. csrc_at buf i) [0..<csrc_count] 0;
            buf \<leftarrow> slice buf (4 * csrc_count) (length buf);
            r \<leftarrow> (if \<not> 0 < b0 AND 0x10 then Some (Some (buf, no_values)) else parse_exts m buf);
            case r of
              None \<Rightarrow> Some None
            | Some (rest, exts) \<Rightarrow>
                Some (Some \<lparr>hd_version = version, has_padding = (0 < b0 AND 0x20), has_extension = (0 < b0 AND 0x10),
                  rtp_marker = (0 < b1 AND 0x80), payload_type = b1 AND 0x7F, sequence_number = seq,
                  rtp_timestamp = time, rtp_ssrc = ssrc, ext_vals = exts, header_len = length packet - length rest\<rparr>) } } })"

text \<open>The number of a resent packet in front of its payload; 0 and no octet when there is none.\<close>

definition read_original :: "bytes \<Rightarrow> (u16 \<times> nat) option" where
  "read_original buf = (if length buf < 2 then Some (0, 0) else do { v \<leftarrow> u16_at buf 0; Some (v, 2) })"

definition write_original :: "nat \<Rightarrow> bytes" where
  "write_original seq_no = to_be16 (of_nat seq_no)"

section \<open>No packet panics the reader\<close>

lemma for_each_total: "(\<And>i b. i \<in> set is \<Longrightarrow> f i b \<noteq> None) \<Longrightarrow> for_each f is b \<noteq> None"
proof (induction "is" arbitrary: b)
  case (Cons i "is")
  obtain b' where "f i b = Some b'" using Cons.prems [of i b] by auto
  then show ?case using Cons by simp
qed simp

lemma parse_exts_total: "length m = MAX_ID \<Longrightarrow> parse_exts m buf \<noteq> None"
proof -
  assume m: "length m = MAX_ID"
  show ?thesis
  proof (cases "length buf < 4")
    case False
    have "\<exists>w. u16_at buf 2 = Some w" using False u16_at_total [of 2 buf] by auto
    then obtain w where w: "u16_at buf 2 = Some w" ..
    have "0 < length buf" "1 < length buf" using False by linarith+
    then show ?thesis using False w exts_parse_total [OF m]
      by (simp add: parse_exts_def idx_def slice_def Let_def bind_eq_None_conv del: not_None_eq split: option.split)
  qed (simp add: parse_exts_def)
qed

text \<open>C26. Whatever octets arrive, the reader of the RTP header indexes none outside the packet, nor does the reader of the
  number in a resent packet. (The mapping of extensions is the array of sixteen that the code keeps.)
\<close>

theorem header_parse_never_panics:
  assumes "length m = MAX_ID"
  shows "header_parse m packet \<noteq> None \<and> read_original packet \<noteq> None"
proof (cases "length packet < 12")
  case False
  have "for_each (\<lambda>i _. csrc_at buf i) [0..<n] 0 \<noteq> None" if "4 * n \<le> length buf" for buf n
    using that by (intro for_each_total) (auto simp: csrc_at_def idx_def)
  then have c: "\<exists>r. for_each (\<lambda>i _. csrc_at buf i) [0..<n] 0 = Some r" if "4 * n \<le> length buf" for buf n
    using that by blast
  have e: "\<exists>r. parse_exts m buf = Some r" for buf using parse_exts_total [OF assms] by blast
  have "\<exists>v. u16_at packet 2 = Some v" "\<exists>v. u32_at packet 4 = Some v" "\<exists>v. u32_at packet 8 = Some v"
    using False u16_at_total [of 2 packet] u32_at_total [of 4 packet] u32_at_total [of 8 packet] by auto
  then obtain s t u where r: "u16_at packet 2 = Some s" "u32_at packet 4 = Some t" "u32_at packet 8 = Some u" by blast
  have b: "idx packet 0 = Some (packet ! 0)" "idx packet 1 = Some (packet ! 1)" "slice packet 12 (length packet) = Some (drop 12 packet)"
    using False by (auto simp: idx_def slice_def)
  define n where "n = unat (packet ! 0 AND 0x0F)"
  have "header_parse m packet \<noteq> None"
  proof (cases "length (drop 12 packet) < 4 * n")
    case True
    then show ?thesis using False r b by (simp add: header_parse_def n_def Let_def)
  next
    case fits: False
    obtain x where x: "for_each (\<lambda>i _. csrc_at (drop 12 packet) i) [0..<n] 0 = Some x" using c [of n "drop 12 packet"] fits by auto
    have "slice (drop 12 packet) (4 * n) (length (drop 12 packet)) = Some (drop (4 * n) (drop 12 packet))"
      using fits by (simp add: slice_def)
    moreover obtain y where "(if \<not> 0 < packet ! 0 AND 0x10 then Some (Some (drop (4 * n) (drop 12 packet), no_values))
        else parse_exts m (drop (4 * n) (drop 12 packet))) = Some y"
      using e by fastforce
    ultimately show ?thesis
      using False r b fits x unfolding header_parse_def n_def [symmetric] by (cases y) (auto simp: n_def [symmetric] Let_def simp del: drop_drop)
  qed
  moreover have "read_original packet \<noteq> None" using u16_at_total [of 0 packet] False by (auto simp: read_original_def)
  ultimately show ?thesis ..
next
  case True
  then show ?thesis using u16_at_total [of 0 packet] by (auto simp: header_parse_def read_original_def)
qed

lemma header_parse_never_panics_witness: "header_parse ext_map_standard [0x90, 96, 0, 1, 0, 0, 0, 2, 0, 0, 0, 3, 0xBE, 0xDE, 0, 1, 0x10] \<noteq> None"
proof -
  have "length ext_map_standard = MAX_ID" by code_simp
  then show ?thesis using header_parse_never_panics by blast
qed

section \<open>There and back\<close>

lemma first_octet_fields:
  "drop_bit 6 (first_octet h AND 0xC0) = 2" "(0 < first_octet h AND 0x20) = has_padding h"
  "(0 < first_octet h AND 0x10) = has_extension h" "first_octet h AND 0x0F = 0"
  by (cases "has_padding h"; cases "has_extension h"; simp add: first_octet_def)+

lemma second_octet_fields:
  assumes "pt \<le> (127 :: u8)"
  shows "((pt AND 0x7F) OR (if mk then push_bit 7 1 else 0)) AND 0x7F = pt" "(0 < ((pt AND 0x7F) OR (if mk then push_bit 7 1 else 0)) AND 0x80) = mk"
proof -
  have "unat pt < 2 ^ 7" using assms by (simp add: word_le_nat_alt)
  then have b: "\<not> bit pt j" if "7 \<le> j" for j using that small_bits by blast
  have m: "(0x7F :: u8) = mask 7" by (simp add: mask_eq_exp_minus_1)
  have top: "(push_bit 7 1 :: u8) = 0x80" by simp
  have "((pt AND 0x7F) OR (if mk then 0x80 else 0)) AND 0x7F = pt" unfolding m
  proof (rule bit_word_eqI)
    fix n
    show "bit (((pt AND mask 7) OR (if mk then 0x80 else 0)) AND mask 7) n = bit pt n"
      using b [of n] by (cases mk; simp only: if_True if_False bit_and_iff bit_or_iff bit_mask_iff bit_top bit_0_eq bot_apply bot_bool_def; cases "n < 7"; auto)
  qed
  then show "((pt AND 0x7F) OR (if mk then push_bit 7 1 else 0)) AND 0x7F = pt" unfolding top .
  have "\<not> bit (pt AND 0x7F) 7" unfolding m by (simp only: bit_and_iff bit_mask_iff) simp
  then show "(0 < ((pt AND 0x7F) OR (if mk then push_bit 7 1 else 0)) AND 0x80) = mk"
    unfolding top top7 by (cases mk) (simp_all only: if_True if_False bit_or_iff bit_top or.right_neutral simp_thms)
qed

lemma ext_header_length: "ext_header f i n = Some h \<Longrightarrow> length h \<le> 2"
  by (auto simp: ext_header_def split: ext_form.splits if_splits)

lemma exts_write_length: "faithful ev \<Longrightarrow> exts_write beginning f ev i xs = Some out \<Longrightarrow> length out \<le> 18 * length xs"
proof (induction xs arbitrary: i out)
  case (Cons x xs)
  obtain bs rest where r: "exts_write beginning f ev (i + 1) xs = Some rest" "out = bs @ rest"
      "(case x of None \<Rightarrow> Some [] | Some v \<Rightarrow> (case ext_write beginning (me_ext v) ev of None \<Rightarrow> Some []
        | Some buf \<Rightarrow> do { h \<leftarrow> ext_header f (i + 1) (length buf); Some (h @ buf) })) = Some bs"
    using Cons.prems(2) by (auto split: bind_splits)
  have "length bs \<le> 18"
    using r(3) ext_header_length ext_parse_write(3) [OF _ Cons.prems(1)] by (fastforce split: option.splits bind_splits)
  then show ?case using Cons.IH [OF Cons.prems(1) r(1)] r(2) by simp
qed simp

lemma one_byte_numbers: "ext_form_of m = OneByte \<Longrightarrow> k < length m \<Longrightarrow> m ! k \<noteq> None \<Longrightarrow> k + 1 \<le> MAX_ID_ONE_BYTE_FORM"
proof -
  assume f: "ext_form_of m = OneByte" and k: "k < length m" "m ! k \<noteq> None"
  then obtain v where v: "m ! k = Some v" by auto
  have "(k + 1, m ! k) \<in> set (enumerate 1 m)" using k(1) by (auto simp: in_set_enumerate_eq)
  then have "(k + 1, me_ext v) \<in> set (ext_iter m)" using v
    by (force simp: ext_iter_def List.map_filter_def image_iff)
  then show ?thesis using f by (fastforce simp: ext_form_of_def split: if_splits)
qed

lemma form_parse_octets: "form_parse (form_octets f ! 0) (form_octets f ! 1) = Some f"
  by (cases f) (simp_all only: form_octets_def ext_form.case form_parse_def Let_def from_be16_to_be16, simp_all)

lemma parse_exts_written:
  assumes "length exts mod 4 = 0" "length exts div 4 < 65536" "exts_parse m f exts no_values = Some ev"
  shows "parse_exts m (form_octets f @ to_be16 (of_nat (length exts div 4)) @ exts @ payload) = Some (Some (payload, ev))"
proof -
  define buf where "buf = form_octets f @ to_be16 (of_nat (length exts div 4)) @ exts @ payload"
  have l: "length (form_octets f) = 2" by (simp add: form_octets_def)
  have "idx buf 0 = Some (form_octets f ! 0)" "idx buf 1 = Some (form_octets f ! 1)" using l by (simp_all add: buf_def idx_def nth_append)
  moreover note form_parse_octets [of f]
  moreover have "u16_at buf 2 = Some (of_nat (length exts div 4))" using l by (simp add: buf_def u16_at_def idx_def nth_append to_be16_def)
  moreover have "unat (of_nat (length exts div 4) :: u16) * 4 = length exts"
    using assms(1,2) by (simp add: unsigned_of_nat take_bit_nat_eq_self mod_0_imp_dvd)
  moreover have "slice buf 4 (length buf) = Some (exts @ payload)" using l by (simp add: buf_def slice_def)
  moreover have "slice (exts @ payload) 0 (length exts) = Some exts" "slice (exts @ payload) (length exts) (length (exts @ payload)) = Some payload"
    by (simp_all add: slice_def)
  moreover have "\<not> length buf < 4" using l by (simp add: buf_def)
  ultimately show ?thesis unfolding buf_def [symmetric] using assms(3) by (simp add: parse_exts_def)
qed

text \<open>C11. What the header writer writes, the reader reads back, whatever payload follows: all fields, and of the extension
  values those that the mapping has numbers for; of the send time come back the 24 bits of the wire (\<open>heard\<close>). This holds
  for version 2 and headers said to have extensions, and for values that keep their meaning (\<open>faithful\<close>): the audio
  level is 0 or negative, and if it is negative the voice flag is set (otherwise see \<open>silence_heard_as_voice\<close>); delays
  are hundredths of a second of twelve bits, and identifiers are clean.
\<close>

theorem rtp_header_roundtrip:
  assumes "header_write beginning h m = Some out" "faithful (ext_vals h)" "length m = MAX_ID" "hd_version h = 2" "has_extension h"
  shows "header_parse m (out @ payload)
    = Some (Some (h\<lparr>ext_vals := heard_all beginning (ext_vals h) m no_values, header_len := length out\<rparr>))"
proof -
  define f where "f = ext_form_of m"
  obtain exts0 where e0: "exts_write beginning f (ext_vals h) 0 m = Some exts0"
    using assms(1) by (auto simp: header_write_def f_def Let_def split: if_splits bind_splits)
  define pad where "pad = (if 4 - length exts0 mod 4 < 4 then 4 - length exts0 mod 4 else 0)"
  define exts where "exts = exts0 @ replicate pad 0"
  define b1 where "b1 = (payload_type h AND 0x7F) OR (if rtp_marker h then push_bit 7 1 else 0)"
  have pt: "payload_type h \<le> 127" using assms(1) by (auto simp: header_write_def split: if_splits)
  have out: "out = [first_octet h, b1] @ to_be16 (sequence_number h) @ to_be32 (rtp_timestamp h) @ to_be32 (rtp_ssrc h)
      @ form_octets f @ to_be16 (of_nat (length exts div 4)) @ exts"
    using assms(1) e0 pt by (auto simp: header_write_def Let_def b1_def exts_def pad_def f_def split: if_splits)
  have "length exts0 \<le> 18 * 16" using exts_write_length [OF assms(2) e0] assms(3) by (simp add: MAX_ID_def)
  moreover have "(length exts0 + pad) mod 4 = 0" unfolding pad_def by presburger
  moreover have "pad < 4" by (simp add: pad_def)
  ultimately have len: "length exts mod 4 = 0" "length exts div 4 < 65536" by (simp_all add: exts_def)
  have ev: "exts_parse m f exts no_values = Some (heard_all beginning (ext_vals h) m no_values)"
    unfolding exts_def using assms(3) one_byte_numbers [of m]
    by (intro exts_parse_write [OF assms(2) e0]) (auto simp: f_def)
  note fields = first_octet_fields [of h] second_octet_fields [OF pt, of "rtp_marker h", folded b1_def]
  define rest where "rest = form_octets f @ to_be16 (of_nat (length exts div 4)) @ exts @ payload"
  define packet where "packet = out @ payload"
  have split: "packet = [first_octet h, b1] @ to_be16 (sequence_number h) @ to_be32 (rtp_timestamp h) @ to_be32 (rtp_ssrc h) @ rest"
    by (simp add: packet_def rest_def out)
  have n: "idx packet 0 = Some (first_octet h)" "idx packet 1 = Some b1" "\<not> length packet < 12"
      "u16_at packet 2 = Some (sequence_number h)" "u32_at packet 4 = Some (rtp_timestamp h)" "u32_at packet 8 = Some (rtp_ssrc h)"
      "slice packet 12 (length packet) = Some rest"
    by (simp_all add: split idx_def u16_at_def u32_at_def to_be16_def to_be32_def slice_def)
  have "slice rest 0 (length rest) = Some rest" by (simp add: slice_def)
  moreover have "parse_exts m rest = Some (Some (payload, heard_all beginning (ext_vals h) m no_values))"
    unfolding rest_def by (rule parse_exts_written [OF len ev])
  ultimately show ?thesis
    unfolding packet_def [symmetric] using n fields assms(4,5) by (simp add: header_parse_def packet_def)
qed

lemma rtp_header_roundtrip_witness:
  "\<exists>out. header_write 0 \<lparr>hd_version = 2, has_padding = False, has_extension = True, rtp_marker = True, payload_type = 96,
        sequence_number = 47000, rtp_timestamp = 1, rtp_ssrc = 2, ext_vals = no_values\<lparr>transport_cc := Some 7\<rparr>, header_len = 16\<rparr> ext_map_standard = Some out
    \<and> map_option (map_option (\<lambda>h. (rtp_marker h, transport_cc (ext_vals h)))) (header_parse ext_map_standard (out @ [1, 2, 3])) = Some (Some (True, Some 7))"
proof -
  let ?h = "\<lparr>hd_version = 2, has_padding = False, has_extension = True, rtp_marker = True, payload_type = 96,
        sequence_number = 47000, rtp_timestamp = 1, rtp_ssrc = 2, ext_vals = no_values\<lparr>transport_cc := Some 7\<rparr>, header_len = 16\<rparr>"
  have "header_write 0 ?h ext_map_standard \<noteq> None" by code_simp
  then obtain out where o: "header_write 0 ?h ext_map_standard = Some out" by auto
  have "faithful (ext_vals ?h)" by (simp add: faithful_def no_values_def)
  moreover have "length ext_map_standard = MAX_ID" by code_simp
  ultimately have "header_parse ext_map_standard (out @ [1, 2, 3])
      = Some (Some (?h\<lparr>ext_vals := heard_all 0 (ext_vals ?h) ext_map_standard no_values, header_len := length out\<rparr>))"
    by (intro rtp_header_roundtrip [OF o]) simp_all
  moreover have "transport_cc (heard_all 0 (ext_vals ?h) ext_map_standard no_values) = Some 7" by code_simp
  ultimately show ?thesis using o by simp
qed

section \<open>Padding\<close>

lemma zeros_put:
  "length hs = i \<Longrightarrow> n \<le> length rest \<Longrightarrow>
     for_each (\<lambda>k buf. put buf (i + k) 0) [0..<n] (hs @ rest) = Some (hs @ replicate n 0 @ drop n rest)"
proof (induction n)
  case (Suc n)
  have "for_each (\<lambda>k buf. put buf (i + k) 0) [0..<Suc n] (hs @ rest) = put (hs @ replicate n 0 @ drop n rest) (i + n) 0"
    using Suc by (simp add: for_each_append split: option.split)
  also have "\<dots> = Some (hs @ replicate n 0 @ 0 # drop (Suc n) rest)"
    using Suc.prems by (simp add: put_def list_update_append Cons_nth_drop_Suc [symmetric])
  finally show ?case by (simp add: replicate_app_Cons_same)
qed simp

lemma do_pad_effect:
  assumes "0 < n" "n \<le> 255" "n \<le> length spare"
  shows "do_pad ((b0 # hs) @ body @ spare) (length (b0 # hs) + length body) n
    = Some ((b0 OR 0x20) # hs @ body @ replicate (n - 1) 0 @ [of_nat n] @ drop n spare)"
proof -
  obtain k where n: "n = Suc k" using assms(1) by (cases n) auto
  have "for_each (\<lambda>i buf. put buf (length ((b0 OR 0x20) # hs @ body) + i) 0) [0..<n] (((b0 OR 0x20) # hs @ body) @ spare)
      = Some (((b0 OR 0x20) # hs @ body) @ replicate n 0 @ drop n spare)"
    by (rule zeros_put) (use assms in simp_all)
  moreover have "put (((b0 OR 0x20) # hs @ body) @ replicate n 0 @ drop n spare) (length (b0 # hs) + length body + n - 1) (of_nat n)
      = Some (((b0 OR 0x20) # hs @ body) @ replicate (n - 1) 0 @ [of_nat n] @ drop n spare)"
    by (simp add: put_def n list_update_append nth_append flip: replicate_append_same)
  ultimately show ?thesis using assms by (simp add: do_pad_def idx_def put_def)
qed

text \<open>
  Padding a packet to whole blocks keeps its body: the padded body is whole blocks, and the reader, who takes
  padding off exactly when the bit of the header is set, gets the body again.
\<close>

theorem padding_roundtrip:
  assumes "1 \<le> block_size" "block_size \<le> 255" "block_size \<le> length spare" "\<not> bit b0 5"
    "pad_packet ((b0 # hs) @ body @ spare) (length (b0 # hs)) (length body) block_size = Some (buf, n)"
  shows "(length body + n) mod block_size = 0 \<and> n < block_size \<and> take (length hs) (tl buf) = hs
    \<and> (let data = take (length body + n) (drop (length (b0 # hs)) buf)
       in (if bit (hd buf) 5 then unpad_payload data else Some data) = Some body)"
proof (cases "length body mod block_size = 0")
  case True
  then have "buf = (b0 # hs) @ body @ spare" "n = 0" using assms(1,5) by (simp_all add: pad_packet_def split: if_splits)
  then show ?thesis using True assms(1,4) by simp
next
  case False
  define k where "k = block_size - length body mod block_size"
  have "length body mod block_size < block_size" using assms(1) by simp
  moreover have "length body = length body div block_size * block_size + length body mod block_size" by simp
  ultimately have "length body + k = (length body div block_size + 1) * block_size" unfolding k_def add_mult_distrib by linarith
  then have "(length body + k) mod block_size = 0" by simp
  then have k: "0 < k" "k < block_size" "(length body + k) mod block_size = 0"
    using False \<open>length body mod block_size < block_size\<close> by (simp_all add: k_def)
  have "do_pad ((b0 # hs) @ body @ spare) (length (b0 # hs) + length body) k
      = Some ((b0 OR 0x20) # hs @ body @ replicate (k - 1) 0 @ [of_nat k] @ drop k spare)"
    by (rule do_pad_effect) (use k(1,2) assms(2,3) in simp_all)
  then have b: "buf = (b0 OR 0x20) # hs @ body @ replicate (k - 1) 0 @ [of_nat k] @ drop k spare" "n = k"
    using assms(5) k(2) by (auto simp: pad_packet_def Let_def k_def [symmetric])
  have "(0x20 :: u8) = push_bit 5 1" by simp
  then have "bit (0x20 :: u8) 5" by (simp only: bit_push_bit_iff) simp
  then have "bit (hd buf) 5" by (simp add: b(1) bit_or_iff)
  moreover have "take (length body + k) (drop (length (b0 # hs)) buf) = body @ replicate (k - 1) 0 @ [of_nat k]"
    using k(1) by (simp add: b(1))
  moreover have "unat (of_nat k :: u8) = k" using k(2) assms(2) by (simp add: unsigned_of_nat take_bit_nat_eq_self)
  ultimately show ?thesis using k b by (simp add: unpad_payload_def)
qed

lemma padding_roundtrip_witness:
  "pad_packet ([0x80, 96] @ [1, 2, 3] @ replicate 8 0) 2 3 4 = Some ([0xA0, 96, 1, 2, 3, 1] @ replicate 7 0, 1)
   \<and> unpad_payload [1, 2, 3, 1] = Some [1, 2, 3]"
proof -
  have p: "pad_packet ((0x80 # [96]) @ [1, 2, 3] @ replicate 8 0) (length (0x80 # [96 :: u8])) (length [1, 2, 3 :: u8]) 4
      = Some ([0xA0, 96, 1, 2, 3, 1] @ replicate 7 0, 1)" by code_simp
  have "\<not> bit (0x80 :: u8) 5" by code_simp
  moreover have "bit (hd ([0xA0, 96, 1, 2, 3, 1] @ replicate 7 0) :: u8) 5" by code_simp
  ultimately have "unpad_payload (take (length [1, 2, 3 :: u8] + 1) (drop 2 ([0xA0, 96, 1, 2, 3, 1] @ replicate 7 0))) = Some [1, 2, 3]"
    using padding_roundtrip [OF _ _ _ _ p] by (simp add: Let_def)
  moreover have "pad_packet ([0x80, 96] @ [1, 2, 3] @ replicate 8 0) 2 3 4 = Some ([0xA0, 96, 1, 2, 3, 1] @ replicate 7 0, 1)" by code_simp
  ultimately show ?thesis by simp
qed

end
