(* ===== verification/ExtMap.thy ===== *)
theory ExtMap imports RtpExt "HOL-Library.Multiset" begin

text \<open>
  The numbers of the header extensions and their negotiation, \<open>ExtensionMap\<close> of \<open>rtp/ext.rs\<close>: what remapping keeps and
  what it gives up.
\<close>

section \<open>The negotiated numbers\<close>

definition exts_of :: "ext_map \<Rightarrow> extension option list" where
  "exts_of m = map (map_option me_ext) m"

text \<open>No extension has two numbers.\<close>

definition one_number :: "ext_map \<Rightarrow> bool" where
  "one_number m \<longleftrightarrow> length m = MAX_ID \<and> (\<forall>e. count (mset (exts_of m)) (Some e) \<le> 1)"

lemma count_once: "count (mset xs) x \<le> 1 \<Longrightarrow> i < length xs \<Longrightarrow> j < length xs \<Longrightarrow> xs ! i = x \<Longrightarrow> xs ! j = x \<Longrightarrow> i = j"
proof -
  have "count (mset xs) x \<le> 1 \<longrightarrow> (\<forall>i j. i < length xs \<and> j < length xs \<and> xs ! i = x \<and> xs ! j = x \<longrightarrow> i = j)"
  proof (induction xs)
    case (Cons y ys)
    have "x \<notin> set ys" if "x = y" "count (mset (y # ys)) x \<le> 1" using that by (simp add: count_eq_zero_iff)
    then show ?case using Cons by (auto simp: nth_Cons split: nat.splits)
  qed simp
  then show "count (mset xs) x \<le> 1 \<Longrightarrow> i < length xs \<Longrightarrow> j < length xs \<Longrightarrow> xs ! i = x \<Longrightarrow> xs ! j = x \<Longrightarrow> i = j" by blast
qed

lemma slot_of_Some: "slot_of e m = Some k \<Longrightarrow> k < length m \<and> map_option me_ext (m ! k) = Some e"
  by (induction m arbitrary: k) (auto split: if_splits)

lemma slot_of_None: "slot_of e m = None \<longleftrightarrow> Some e \<notin> set (exts_of m)"
proof (induction m)
  case (Cons x m)
  then show ?case by (cases x) (auto simp: exts_of_def)
qed (simp add: exts_of_def)

lemma length_swap_slots [simp]: "length (swap_slots i j xs) = length xs"
  by (simp add: swap_slots_def)

lemma swap_slots_nth: "i < length xs \<Longrightarrow> j < length xs \<Longrightarrow> k < length xs \<Longrightarrow>
    swap_slots i j xs ! k = (if k = j then xs ! i else if k = i then xs ! j else xs ! k)"
  by (auto simp: swap_slots_def nth_list_update)

lemma swap_slots_mset: "i < length xs \<Longrightarrow> j < length xs \<Longrightarrow> mset (swap_slots i j xs) = mset xs"
  unfolding swap_slots_def by (rule mset_swap)

text \<open>One step: the entry is locked and, unless it was locked elsewhere before, changes places with that of its new number.\<close>

lemma ext_swap_cases:
  assumes "length m = MAX_ID" "1 \<le> i" "i \<le> MAX_ID" "slot_of e m = Some old" "m ! old = Some entry" "i - 1 = old \<or> \<not> me_locked entry"
  shows "ext_swap (i, e) m = swap_slots old (i - 1) (m[old := Some (entry\<lparr>me_locked := True\<rparr>)])"
proof -
  have "old < length m" using slot_of_Some [OF assms(4)] by simp
  then have "swap_slots old old (m[old := x]) = m[old := x]" for x by (simp add: swap_slots_def)
  then show ?thesis using assms by (auto simp: ext_swap_def Let_def)
qed

lemma ext_swap_exts:
  assumes "one_number m"
  shows "one_number (ext_swap ie m) \<and> mset (exts_of (ext_swap ie m)) = mset (exts_of m)"
proof -
  obtain i e where ie: "ie = (i, e)" by (cases ie)
  show ?thesis
  proof (cases "ext_swap ie m = m")
    case False
    then obtain old entry where s: "1 \<le> i" "i \<le> MAX_ID" "slot_of e m = Some old" "m ! old = Some entry" "i - 1 = old \<or> \<not> me_locked entry"
      unfolding ie ext_swap_def Let_def by (auto split: if_splits option.splits)
    have len: "length m = MAX_ID" using assms by (simp add: one_number_def)
    note l = slot_of_Some [OF s(3)]
    define m1 where "m1 = m[old := Some (entry\<lparr>me_locked := True\<rparr>)]"
    have sw: "ext_swap ie m = swap_slots old (i - 1) m1" unfolding ie m1_def by (rule ext_swap_cases [OF len s])
    have e1: "exts_of m1 = exts_of m" using l s(4) by (auto simp: exts_of_def m1_def map_update list_update_same_conv)
    have "i - 1 < length m1" "old < length m1" "length m1 = MAX_ID" using s(1,2) len l by (auto simp: m1_def)
    moreover have "exts_of (swap_slots old (i - 1) m1) = swap_slots old (i - 1) (exts_of m1)"
      using calculation by (simp add: exts_of_def swap_slots_def map_update)
    ultimately have "mset (exts_of (ext_swap ie m)) = mset (exts_of m)"
      unfolding sw using e1 swap_slots_mset [of old "exts_of m" "i - 1"] l s(1,2) len by (simp add: exts_of_def)
    then show ?thesis using assms \<open>length m1 = MAX_ID\<close> by (simp add: one_number_def sw)
  qed (use assms in simp)
qed

text \<open>Numbers, extensions and locks of a first negotiation: what was asked for so far is in its place, and only that is locked.\<close>

definition settled :: "(nat \<times> extension) list \<Rightarrow> ext_map \<Rightarrow> bool" where
  "settled told m \<longleftrightarrow> (\<forall>(i, e)\<in>set told. Some e \<in> set (exts_of m) \<longrightarrow> m ! (i - 1) = Some \<lparr>me_ext = e, me_locked = True\<rparr>)
     \<and> (\<forall>k v. k < length m \<and> m ! k = Some v \<and> me_locked v \<longrightarrow> me_ext v \<in> snd ` set told)"

lemma same_slot:
  "one_number m \<Longrightarrow> i < length m \<Longrightarrow> j < length m \<Longrightarrow> m ! i = Some v \<Longrightarrow> m ! j = Some w \<Longrightarrow> me_ext v = me_ext w \<Longrightarrow> i = j"
  using count_once [of "exts_of m" "Some (me_ext v)" i j] by (simp add: one_number_def exts_of_def)

lemma swap_settles:
  assumes "one_number m" "settled told m" "1 \<le> i" "i \<le> MAX_ID" "i \<notin> fst ` set told" "e \<notin> snd ` set told"
    "\<forall>(j, _)\<in>set told. 1 \<le> j \<and> j \<le> MAX_ID"
  shows "settled ((i, e) # told) (ext_swap (i, e) m)"
proof (cases "slot_of e m")
  case None
  then have "ext_swap (i, e) m = m" by (simp add: ext_swap_def)
  moreover have "Some e \<notin> set (exts_of m)" using None slot_of_None by blast
  ultimately show ?thesis using assms(2) by (auto simp: settled_def)
next
  case (Some old)
  have len: "length m = MAX_ID" using assms(1) by (simp add: one_number_def)
  obtain v where v: "old < length m" "m ! old = Some v" "me_ext v = e" using slot_of_Some [OF Some] by auto
  have free: "\<not> me_locked v" using assms(2,6) v by (auto simp: settled_def)
  let ?v = "v\<lparr>me_locked := True\<rparr>"
  have sw: "ext_swap (i, e) m = swap_slots old (i - 1) (m[old := Some ?v])"
    using ext_swap_cases [OF len assms(3,4) Some v(2)] free by blast
  have at: "ext_swap (i, e) m ! k = (if k = i - 1 then Some ?v else if k = old then m ! (i - 1) else m ! k)" if "k < length m" for k
    using that v(1) assms(3,4) len unfolding sw by (auto simp: swap_slots_nth nth_list_update)
  have in_exts: "Some x \<in> set (exts_of (ext_swap (i, e) m)) \<longleftrightarrow> Some x \<in> set (exts_of m)" for x
    using conjunct2 [OF ext_swap_exts [OF assms(1), of "(i, e)"]] by (metis set_mset_mset)
  have new: "ext_swap (i, e) m ! (i - 1) = Some \<lparr>me_ext = e, me_locked = True\<rparr>"
    using at [of "i - 1"] assms(3,4) len v(3) by (cases v) simp
  have old_ones: "ext_swap (i, e) m ! (j - 1) = Some \<lparr>me_ext = x, me_locked = True\<rparr>" if "(j, x) \<in> set told" "Some x \<in> set (exts_of m)" for j x
  proof -
    have j: "1 \<le> j" "j \<le> MAX_ID" "j \<noteq> i" "x \<noteq> e" using that(1) assms(5-7) by force+
    have m: "m ! (j - 1) = Some \<lparr>me_ext = x, me_locked = True\<rparr>" using assms(2) that by (auto simp: settled_def)
    then have "j - 1 \<noteq> old" using v(2,3) j(4) by auto
    moreover have "j - 1 \<noteq> i - 1" using j(1,3) assms(3) by linarith
    ultimately show ?thesis using at [of "j - 1"] j(1,2) len m by simp
  qed
  have locks: "me_ext w \<in> snd ` set ((i, e) # told)" if w: "k < length m" "ext_swap (i, e) m ! k = Some w" "me_locked w" for k w
  proof (cases "k = i - 1")
    case True
    then show ?thesis using at [OF w(1)] w(2) v(3) by auto
  next
    case False
    have "i - 1 < length m" using assms(3,4) len by linarith
    then have "\<exists>k'<length m. m ! k' = Some w" using False at [OF w(1)] w(1,2) by (cases "k = old") auto
    then show ?thesis using assms(2) w(3) by (auto simp: settled_def)
  qed
  have "length (ext_swap (i, e) m) = length m" unfolding sw by simp
  then show ?thesis using new old_ones locks in_exts by (auto simp: settled_def)
qed

lemma remap_settles:
  "one_number m \<Longrightarrow> settled told m \<Longrightarrow> distinct (map fst (told @ remote)) \<Longrightarrow> distinct (map snd (told @ remote)) \<Longrightarrow>
     \<forall>(j, _)\<in>set (told @ remote). 1 \<le> j \<and> j \<le> MAX_ID \<Longrightarrow>
     one_number (ext_remap remote m) \<and> mset (exts_of (ext_remap remote m)) = mset (exts_of m) \<and> settled (rev remote @ told) (ext_remap remote m)"
proof (induction remote arbitrary: told m)
  case Nil
  then show ?case by (simp add: ext_remap_def)
next
  case (Cons ie remote)
  obtain i e where ie: "ie = (i, e)" by (cases ie)
  have "settled (ie # told) (ext_swap ie m)"
    unfolding ie using Cons.prems by (intro swap_settles) (auto simp: ie)
  moreover note ext_swap_exts [OF Cons.prems(1), of ie]
  moreover have "distinct (map fst ((ie # told) @ remote))" "distinct (map snd ((ie # told) @ remote))"
      "\<forall>(j, _)\<in>set ((ie # told) @ remote). 1 \<le> j \<and> j \<le> MAX_ID" using Cons.prems(3-5) by auto
  ultimately show ?case using Cons.IH [of "ext_swap ie m" "ie # told"] by (simp add: ext_remap_def)
qed

lemma slot_of_at:
  assumes "one_number m" "k < length m" "m ! k = Some v"
  shows "slot_of (me_ext v) m = Some k"
proof -
  have "Some (me_ext v) \<in> set (exts_of m)" using assms(2,3) by (force simp: exts_of_def in_set_conv_nth)
  then obtain j where j: "slot_of (me_ext v) m = Some j" using slot_of_None [of "me_ext v" m] by auto
  then obtain w where "j < length m" "m ! j = Some w" "me_ext w = me_ext v" using slot_of_Some [OF j] by auto
  then show ?thesis using j same_slot [OF assms(1) _ assms(2) _ assms(3)] by simp
qed

text \<open>C25. A first negotiation gives every extension that both sides know the number of the remote side, keeps all extensions of the
  mapping, and leaves none with two numbers.
\<close>

theorem remap_adopts_remote:
  assumes "one_number m" "\<forall>v. Some v \<in> set m \<longrightarrow> \<not> me_locked v" "distinct (map fst remote)" "distinct (map snd remote)"
    "\<forall>(i, _)\<in>set remote. 1 \<le> i \<and> i \<le> MAX_ID"
  shows "one_number (ext_remap remote m) \<and> mset (exts_of (ext_remap remote m)) = mset (exts_of m)
    \<and> (\<forall>(i, e)\<in>set remote. ext_id_of m e \<noteq> None \<longrightarrow> ext_id_of (ext_remap remote m) e = Some i)"
proof -
  have "settled [] m" using assms(2) by (auto simp: settled_def in_set_conv_nth)
  then have r: "one_number (ext_remap remote m)" "mset (exts_of (ext_remap remote m)) = mset (exts_of m)" "settled (rev remote) (ext_remap remote m)"
    using remap_settles [of m "[]" remote] assms by auto
  have "ext_id_of (ext_remap remote m) e = Some i" if "(i, e) \<in> set remote" "ext_id_of m e \<noteq> None" for i e
  proof -
    have "Some e \<in> set (exts_of m)" using that(2) slot_of_None by (auto simp: ext_id_of_def)
    then have "Some e \<in> set (exts_of (ext_remap remote m))" using r(2) by (metis set_mset_mset)
    then have "ext_remap remote m ! (i - 1) = Some \<lparr>me_ext = e, me_locked = True\<rparr>" using r(3) that(1) by (auto simp: settled_def)
    moreover have "1 \<le> i" "i - 1 < length (ext_remap remote m)" using assms(5) that(1) r(1) by (auto simp: one_number_def)
    ultimately show ?thesis using slot_of_at [OF r(1), of "i - 1"] by (simp add: ext_id_of_def)
  qed
  then show ?thesis using r(1,2) by auto
qed

lemma remap_adopts_remote_witness:
  "ext_id_of (ext_remap [(4, TransportSequenceNumber), (3, RtpMid), (7, ColorSpace)] ext_map_standard) TransportSequenceNumber = Some 4"
proof -
  have "one_number ext_map_standard"
    unfolding one_number_def by (intro conjI allI; code_simp?) (simp add: exts_of_def ext_map_standard_def ext_set_def ext_map_empty_def MAX_ID_def numeral_eq_Suc)
  moreover have "\<forall>v. Some v \<in> set ext_map_standard \<longrightarrow> \<not> me_locked v"
    by (auto simp: ext_map_standard_def ext_set_def ext_map_empty_def MAX_ID_def numeral_eq_Suc)
  moreover have "ext_id_of ext_map_standard TransportSequenceNumber \<noteq> None" by code_simp
  ultimately show ?thesis
    using remap_adopts_remote [of ext_map_standard "[(4, TransportSequenceNumber), (3, RtpMid), (7, ColorSpace)]"] by (auto simp: MAX_ID_def)
qed

text \<open>
  A number that was settled by an earlier negotiation can be lost: if the remote side later gives it to an extension that is not
  settled yet, the two change places.
\<close>

theorem locked_number_lost:
  "let m = ext_remap [(3, TransportSequenceNumber)] ext_map_standard
   in m ! 2 = Some \<lparr>me_ext = TransportSequenceNumber, me_locked = True\<rparr> \<and> ext_id_of (ext_remap [(3, AudioLevel)] m) TransportSequenceNumber = Some 1"
  by code_simp

end
