(* ===== verification/Dcep.thy ===== *)
theory Dcep imports Wire Text begin

unbundle bit_operations_syntax

text \<open>
  The messages that open a data channel (RFC 8832), \<open>sctp/dcep.rs\<close> of str0m, and the configuration of a channel they
  carry, \<open>ChannelConfig\<close> of \<open>sctp/mod.rs\<close>. The octets of a reliability type are those of the \<open>sctp-proto\<close> package: the
  two conversions \<open>rel_code\<close> and \<open>rel_from\<close> are parameters, and \<open>rel_codes\<close> says what is relied on.
\<close>

section \<open>Messages\<close>

datatype reliability_type = Reliable | Rexmit | Timed

record dcep_open =
  d_unordered :: bool
  d_channel_type :: reliability_type
  d_priority :: u16
  d_reliability :: u32
  d_label :: bytes
  d_protocol :: bytes

definition dcep_open_from :: "(u8 \<Rightarrow> reliability_type) \<Rightarrow> bytes \<Rightarrow> dcep_open res" where
  "dcep_open_from rel_from buf =
     (if length buf < 12 then err ''DcepOpenTooSmall''
      else do {
        b0 \<leftarrow> idx buf 0;
        if b0 \<noteq> 3 then err ''DcepIncorrectMessageType''
        else do {
          b1 \<leftarrow> idx buf 1;
          priority \<leftarrow> u16_at buf 2;
          reliability_parameter \<leftarrow> u32_at buf 4;
          l \<leftarrow> u16_at buf 8;
          p \<leftarrow> u16_at buf 10;
          let len_label = unat l;
          let len_proto = unat p;
          if length buf < 12 + len_label + len_proto then err ''DcepOpenTooSmall''
          else do {
            label \<leftarrow> slice buf 12 (12 + len_label);
            if \<not> utf8_ok label then err ''DcepBadUtf8''
            else do {
              protocol \<leftarrow> slice buf (12 + len_label) (12 + len_label + len_proto);
              if \<not> utf8_ok protocol then err ''DcepBadUtf8''
              else ok \<lparr>d_unordered = (0 < b1 AND 0x80), d_channel_type = rel_from (b1 AND 0x7F), d_priority = priority,
                     d_reliability = reliability_parameter, d_label = label, d_protocol = protocol\<rparr> } } } })"

definition dcep_open_octets :: "(reliability_type \<Rightarrow> u8) \<Rightarrow> dcep_open \<Rightarrow> bytes" where
  "dcep_open_octets rel_code d =
     [3, rel_code (d_channel_type d) OR (if d_unordered d then 0x80 else 0)]
       @ to_be16 (d_priority d) @ to_be32 (d_reliability d)
       @ to_be16 (of_nat (length (d_label d))) @ to_be16 (of_nat (length (d_protocol d))) @ d_label d @ d_protocol d"

definition dcep_open_marshal :: "(reliability_type \<Rightarrow> u8) \<Rightarrow> dcep_open \<Rightarrow> bytes \<Rightarrow> (bytes \<times> nat) option" where
  "dcep_open_marshal rel_code d buf = do {
     buf \<leftarrow> emit (dcep_open_octets rel_code d) buf;
     Some (buf, 12 + length (d_label d) + length (d_protocol d)) }"

definition dcep_ack_from :: "bytes \<Rightarrow> unit res" where
  "dcep_ack_from buf =
     (if buf = [] then err ''DcepOpenTooSmall''
      else do { b0 \<leftarrow> idx buf 0; if b0 \<noteq> 2 then err ''DcepIncorrectMessageType'' else ok () })"

definition dcep_ack_marshal :: "bytes \<Rightarrow> (bytes \<times> nat) option" where
  "dcep_ack_marshal buf = do { buf \<leftarrow> put buf 0 2; Some (buf, 1) }"

section \<open>Configurations\<close>

datatype reliability = ReliableSetting | MaxPacketLifetime u16 | MaxRetransmits u16

record channel_config =
  cc_label :: bytes
  cc_ordered :: bool
  cc_reliability :: reliability
  cc_negotiated :: "u16 option"
  cc_protocol :: bytes

definition reliability_params :: "reliability \<Rightarrow> reliability_type \<times> u32" where
  "reliability_params r =
     (case r of ReliableSetting \<Rightarrow> (Reliable, 0) | MaxPacketLifetime l \<Rightarrow> (Timed, ucast l) | MaxRetransmits n \<Rightarrow> (Rexmit, ucast n))"

definition reliability_of :: "reliability_type \<times> u32 \<Rightarrow> reliability" where
  "reliability_of rp =
     (case rp of (Reliable, p) \<Rightarrow> ReliableSetting | (Rexmit, p) \<Rightarrow> MaxRetransmits (ucast p) | (Timed, p) \<Rightarrow> MaxPacketLifetime (ucast p))"

definition dcep_of_config :: "channel_config \<Rightarrow> dcep_open" where
  "dcep_of_config c =
     (let (t, p) = reliability_params (cc_reliability c)
      in \<lparr>d_unordered = (\<not> cc_ordered c), d_channel_type = t, d_priority = 0, d_reliability = p, d_label = cc_label c,
          d_protocol = cc_protocol c\<rparr>)"

definition config_of_dcep :: "dcep_open \<Rightarrow> channel_config" where
  "config_of_dcep d =
     \<lparr>cc_label = d_label d, cc_ordered = (\<not> d_unordered d), cc_reliability = reliability_of (d_channel_type d, d_reliability d),
      cc_negotiated = None, cc_protocol = d_protocol d\<rparr>"

section \<open>There and back\<close>

definition rel_codes :: "(reliability_type \<Rightarrow> u8) \<Rightarrow> (u8 \<Rightarrow> reliability_type) \<Rightarrow> bool" where
  "rel_codes rel_code rel_from \<longleftrightarrow> (\<forall>r. rel_from (rel_code r) = r \<and> rel_code r AND 0x80 = 0)"

lemma octet_7_bits: "c AND 0x80 = (0 :: u8) \<Longrightarrow> (c OR x) AND 0x7F = c OR (x AND 0x7F)"
proof -
  assume c: "c AND 0x80 = 0"
  have "c AND 0x7F = c AND (0x7F OR 0x80)" using c by (simp only: bit.conj_disj_distrib) simp
  also have "(0x7F OR 0x80 :: u8) = - 1" by simp
  finally have "c AND 0x7F = c" by simp
  then show ?thesis by (simp only: bit.conj_disj_distrib2)
qed

lemma flag_octet:
  assumes "c AND 0x80 = (0 :: u8)"
  shows "(0 < (c OR (if b then 0x80 else 0)) AND 0x80) = b" "(c OR (if b then 0x80 else 0)) AND 0x7F = c"
proof -
  show "(0 < (c OR (if b then 0x80 else 0)) AND 0x80) = b" using assms by (cases b) (simp_all add: bit.conj_disj_distrib2)
  show "(c OR (if b then 0x80 else 0)) AND 0x7F = c" using octet_7_bits [OF assms, of "if b then 0x80 else 0"] by (cases b) simp_all
qed

lemma unat_len16: "n < 65536 \<Longrightarrow> unat (of_nat n :: u16) = n"
  by (simp add: unsigned_of_nat take_bit_nat_eq_self)

lemma slices_append:
  "length h = n \<Longrightarrow> slice (h @ a @ b @ c) n (n + length a) = Some a"
  "length h = n \<Longrightarrow> slice (h @ a @ b @ c) (n + length a) (n + length a + length b) = Some b"
  using slice_middle [of h a "b @ c"] slice_middle [of "h @ a" b c] by simp_all

lemma dcep_open_read_back:
  assumes "rel_codes rel_code rel_from" "length (d_label d) < 65536" "length (d_protocol d) < 65536" "utf8_ok (d_label d)" "utf8_ok (d_protocol d)"
  shows "dcep_open_from rel_from (dcep_open_octets rel_code d @ rest) = ok d"
proof -
  let ?b1 = "rel_code (d_channel_type d) OR (if d_unordered d then 0x80 else 0)"
  let ?h = "[3, ?b1] @ to_be16 (d_priority d) @ to_be32 (d_reliability d)
       @ to_be16 (of_nat (length (d_label d))) @ to_be16 (of_nat (length (d_protocol d)))"
  define buf where "buf = ?h @ d_label d @ d_protocol d @ rest"
  have buf: "dcep_open_octets rel_code d @ rest = buf" by (simp add: dcep_open_octets_def buf_def)
  have h: "length ?h = 12" by simp
  have f: "idx buf 0 = Some 3" "idx buf 1 = Some ?b1" "u16_at buf 2 = Some (d_priority d)" "u32_at buf 4 = Some (d_reliability d)"
      "u16_at buf 8 = Some (of_nat (length (d_label d)))" "u16_at buf 10 = Some (of_nat (length (d_protocol d)))"
    by (simp_all add: buf_def wire_simps)
  have s: "slice buf 12 (12 + length (d_label d)) = Some (d_label d)"
      "slice buf (12 + length (d_label d)) (12 + length (d_label d) + length (d_protocol d)) = Some (d_protocol d)"
    unfolding buf_def by (rule slices_append [OF h])+
  have l: "\<not> length buf < 12" "\<not> length buf < 12 + length (d_label d) + length (d_protocol d)" by (simp_all add: buf_def)
  have c: "rel_code (d_channel_type d) AND 0x80 = 0" "rel_from (rel_code (d_channel_type d)) = d_channel_type d"
    using assms(1) by (simp_all add: rel_codes_def)
  show ?thesis
    unfolding buf dcep_open_from_def f flag_octet [OF c(1)]
    using l s assms(4,5) c(2) by (simp add: unat_len16 [OF assms(2)] unat_len16 [OF assms(3)] Let_def flag_octet [OF c(1)])
qed

lemma narrowed_again: "ucast (ucast (v :: u16) :: u32) = v"
  by (rule bit_word_eqI) (simp add: bit_simps)

lemma reliability_there_and_back: "reliability_of (reliability_params r) = r"
  by (cases r) (simp_all add: reliability_of_def reliability_params_def narrowed_again)

lemma config_there_and_back: "cc_negotiated c = None \<Longrightarrow> config_of_dcep (dcep_of_config c) = c"
  using reliability_there_and_back [of "cc_reliability c"]
  by (cases c) (simp add: config_of_dcep_def dcep_of_config_def split_beta)

text \<open>No octets panic the readers.\<close>

lemma dcep_open_from_total: "dcep_open_from rel_from buf \<noteq> None"
proof (cases "length buf < 12")
  case False
  then have "idx buf 0 \<noteq> None" "idx buf 1 \<noteq> None" "u16_at buf 2 \<noteq> None" "u32_at buf 4 \<noteq> None" "u16_at buf 8 \<noteq> None" "u16_at buf 10 \<noteq> None"
    using u16_at_total [of 2 buf] u16_at_total [of 8 buf] u16_at_total [of 10 buf] u32_at_total [of 4 buf] by (auto simp: idx_def)
  then obtain b0 b1 p r l q where "idx buf 0 = Some b0" "idx buf 1 = Some b1" "u16_at buf 2 = Some p" "u32_at buf 4 = Some r"
      "u16_at buf 8 = Some l" "u16_at buf 10 = Some q" by blast
  moreover have "buf \<noteq> []" using False by auto
  ultimately show ?thesis using False by (simp add: dcep_open_from_def Let_def slice_def)
qed (simp add: dcep_open_from_def)

lemma dcep_ack_from_total: "dcep_ack_from buf \<noteq> None"
  by (cases buf) (simp_all add: dcep_ack_from_def idx_def)

end
