(* ===== verification/Channels.thy ===== *)
theory Channels imports Dcep begin

text \<open>
  Data channels, \<open>sctp/mod.rs\<close> of str0m: the entries of \<open>RtcSctp\<close>, how they are opened, closed and polled. The association
  and its endpoint are those of the \<open>sctp-proto\<close> package: what they answer is an input of each operation, given for
  every stream. \<open>None\<close> is a panic.
\<close>

section \<open>State\<close>

datatype sctp_state = Uninited | AwaitRemoteAssociation | AwaitAssociationEstablished | Established

datatype entry_state = AwaitOpen | AwaitConfig | AwaitDcepAck | OpenState | ClosedState

record stream_entry =
  se_config :: "channel_config option"
  se_state :: entry_state
  se_id :: u16
  se_do_close :: bool

record rtc_sctp =
  sc_state :: sctp_state
  sc_assoc :: bool
  sc_entries :: "stream_entry list"
  sc_pushed_back :: "bytes list option"
  sc_client :: bool

datatype sctp_event = Transmit "bytes list" | ChannelOpen u16 bytes | ChannelClose u16 | ChannelData u16 bool bytes

definition sctp_new :: rtc_sctp where
  "sctp_new = \<lparr>sc_state = Uninited, sc_assoc = False, sc_entries = [], sc_pushed_back = None, sc_client = False\<rparr>"

definition propagate_endpoint_to_assoc :: "sctp_state \<Rightarrow> bool" where
  "propagate_endpoint_to_assoc s \<longleftrightarrow> s = AwaitAssociationEstablished \<or> s = Established"

section \<open>What the association answers\<close>

datatype ppi = PpiDcep | PpiString | PpiBinary | PpiStringEmpty | PpiBinaryEmpty | PpiUnknown

datatype open_answer = Opened | AlreadyExists | OpenFailed

datatype chunk_answer = NoChunk | ReadFailed | Chunk ppi bytes

record answers =
  a_open :: open_answer
  a_stream :: bool
  a_reliability :: "bool \<Rightarrow> reliability_type \<Rightarrow> u32 \<Rightarrow> bool"
  a_written :: "ppi \<Rightarrow> bytes \<Rightarrow> nat option"
  a_read :: chunk_answer

datatype assoc_event = Connected | ReadableWritable u16 | FinishedStopped u16 | OtherEvent

text \<open>For one round of polling: a packet to transmit, the events until there is none, and the answers for each stream.\<close>

record world =
  w_transmit :: "bytes list option"
  w_events :: "assoc_event list"
  w_answers :: "u16 \<Rightarrow> answers"

type_synonym writes = "(u16 \<times> ppi \<times> bytes) list"

section \<open>Entries\<close>

definition entry_for :: "u16 \<Rightarrow> entry_state \<Rightarrow> stream_entry list \<Rightarrow> stream_entry list" where
  "entry_for i initial es =
     (if \<exists>e\<in>set es. se_id e = i then es
      else es @ [\<lparr>se_config = None, se_state = initial, se_id = i, se_do_close = False\<rparr>])"

fun with_entry :: "u16 \<Rightarrow> (stream_entry \<Rightarrow> stream_entry option) \<Rightarrow> stream_entry list \<Rightarrow> stream_entry list option" where
  "with_entry i f [] = Some []"
| "with_entry i f (e # es) =
     (if se_id e = i then do { e \<leftarrow> f e; Some (e # es) } else do { es \<leftarrow> with_entry i f es; Some (e # es) })"

definition to_close :: "stream_entry \<Rightarrow> stream_entry" where
  "to_close e = e\<lparr>se_do_close := True\<rparr>"

fun close_entry :: "u16 \<Rightarrow> stream_entry list \<Rightarrow> stream_entry list" where
  "close_entry i [] = []"
| "close_entry i (e # es) = (if se_id e = i then to_close e # es else e # close_entry i es)"

definition configure_reliability :: "stream_entry \<Rightarrow> answers \<Rightarrow> (stream_entry \<times> bool) option" where
  "configure_reliability e a =
     (case se_config e of
        None \<Rightarrow> None
      | Some c \<Rightarrow>
          (let d = dcep_of_config c
           in if a_reliability a (d_unordered d) (d_channel_type d) (d_reliability d) then Some (e, True) else Some (to_close e, False)))"

definition open_entry :: "bool \<Rightarrow> channel_config \<Rightarrow> answers \<Rightarrow> stream_entry \<Rightarrow> stream_entry option" where
  "open_entry has_assoc config a e =
     (let in_band = (cc_negotiated config = None) in
      if se_config e \<noteq> None then Some (to_close e)
      else
        (let e = e\<lparr>se_config := Some config\<rparr> in
         if se_state e = AwaitConfig then
           if in_band then Some (to_close e)
           else if \<not> has_assoc \<or> \<not> a_stream a then None
           else do {
             (e, configured) \<leftarrow> configure_reliability e a;
             Some (if configured then e\<lparr>se_state := OpenState\<rparr> else e) }
         else Some e))"

definition open_stream :: "rtc_sctp \<Rightarrow> u16 \<Rightarrow> channel_config \<Rightarrow> answers \<Rightarrow> rtc_sctp option" where
  "open_stream st i config a = do {
     es \<leftarrow> with_entry i (open_entry (sc_assoc st) config a) (entry_for i AwaitOpen (sc_entries st));
     Some (st\<lparr>sc_entries := es\<rparr>) }"

definition close_stream :: "rtc_sctp \<Rightarrow> u16 \<Rightarrow> rtc_sctp" where
  "close_stream st i = st\<lparr>sc_entries := close_entry i (sc_entries st)\<rparr>"

definition is_open :: "rtc_sctp \<Rightarrow> u16 \<Rightarrow> bool" where
  "is_open st i \<longleftrightarrow> sc_state st = Established \<and>
     (case find (\<lambda>e. se_id e = i) (sc_entries st) of None \<Rightarrow> False | Some e \<Rightarrow> se_state e = OpenState)"

definition ppi_for :: "bool \<Rightarrow> bytes \<Rightarrow> ppi" where
  "ppi_for binary buf =
     (if binary then if buf = [] then PpiBinaryEmpty else PpiBinary else if buf = [] then PpiStringEmpty else PpiString)"

text \<open>The octets the association takes, or an error.\<close>

definition sctp_write :: "rtc_sctp \<Rightarrow> u16 \<Rightarrow> bool \<Rightarrow> bytes \<Rightarrow> answers \<Rightarrow> (nat \<times> writes) res" where
  "sctp_write st i binary buf a =
     (if sc_state st \<noteq> Established \<or> \<not> sc_assoc st then err ''WriteBeforeEstablished''
      else case find (\<lambda>e. se_id e = i) (sc_entries st) of
             None \<Rightarrow> None
           | Some e \<Rightarrow>
               if se_state e \<noteq> OpenState then err ''WriteBeforeEstablished''
               else if \<not> a_stream a then err ''Proto''
               else (case a_written a (ppi_for binary buf) buf of
                       None \<Rightarrow> err ''Proto''
                     | Some n \<Rightarrow> ok (n, [(i, ppi_for binary buf, buf)])))"

section \<open>The association\<close>

definition sctp_init :: "rtc_sctp \<Rightarrow> bool \<Rightarrow> rtc_sctp option" where
  "sctp_init st client =
     (if sc_state st \<noteq> Uninited then None
      else if client then Some (st\<lparr>sc_client := client, sc_assoc := True, sc_state := AwaitAssociationEstablished\<rparr>)
      else Some (st\<lparr>sc_client := client, sc_state := AwaitRemoteAssociation\<rparr>))"

datatype datagram_event = NewAssociation | AssociationEvent

definition sctp_handle_input :: "rtc_sctp \<Rightarrow> datagram_event option \<Rightarrow> rtc_sctp option" where
  "sctp_handle_input st r =
     (case r of
        None \<Rightarrow> Some st
      | Some NewAssociation \<Rightarrow> Some (st\<lparr>sc_assoc := True, sc_state := AwaitAssociationEstablished\<rparr>)
      | Some AssociationEvent \<Rightarrow> if sc_assoc st then Some st else None)"

definition sctp_handle_timeout :: "rtc_sctp \<Rightarrow> rtc_sctp" where
  "sctp_handle_timeout st =
     (if sc_state st = Uninited then st else st\<lparr>sc_entries := filter (\<lambda>e. se_state e \<noteq> ClosedState) (sc_entries st)\<rparr>)"

definition push_back_transmit :: "rtc_sctp \<Rightarrow> bytes list \<Rightarrow> rtc_sctp option" where
  "push_back_transmit st data = (if sc_pushed_back st \<noteq> None then None else Some (st\<lparr>sc_pushed_back := Some data\<rparr>))"

section \<open>Polling\<close>

text \<open>Returning, going on with the next entry, or starting over.\<close>

datatype poll_out = GoOn | StartOver | Emit sctp_event

definition ppi_adjust_buf :: "bytes \<Rightarrow> ppi \<Rightarrow> bytes" where
  "ppi_adjust_buf buf p = (if p = PpiStringEmpty \<or> p = PpiBinaryEmpty then [] else buf)"

definition stream_read_data :: "chunk_answer \<Rightarrow> string + (bytes \<times> ppi) option" where
  "stream_read_data c =
     (case c of
        NoChunk \<Rightarrow> Inr None
      | ReadFailed \<Rightarrow> Inl ''Proto''
      | Chunk p buf \<Rightarrow>
          (case p of
             PpiUnknown \<Rightarrow> Inl ''Unknown PayloadProtocolIdentifier''
           | PpiStringEmpty \<Rightarrow> Inr (Some ([], p))
           | PpiBinaryEmpty \<Rightarrow> Inr (Some ([], p))
           | _ \<Rightarrow> Inr (Some (buf, p))))"

definition write_dcep :: "answers \<Rightarrow> bytes \<Rightarrow> unit option" where
  "write_dcep a buf = (if a_written a PpiDcep buf = Some (length buf) then Some () else None)"

text \<open>An entry that is to be opened.\<close>

definition out_of_band :: "stream_entry \<Rightarrow> (stream_entry \<times> writes \<times> poll_out) option" where
  "out_of_band e = do {
     c \<leftarrow> se_config e;
     if cc_negotiated c = None then None
     else Some (e\<lparr>se_state := OpenState\<rparr>, [], Emit (ChannelOpen (se_id e) (cc_label c))) }"

definition want_open :: "(reliability_type \<Rightarrow> u8) \<Rightarrow> stream_entry \<Rightarrow> answers \<Rightarrow> (stream_entry \<times> writes \<times> poll_out) option" where
  "want_open rel_code e a =
     (case a_open a of
        Opened \<Rightarrow> do {
          (e, configured) \<leftarrow> configure_reliability e a;
          if \<not> configured then Some (e, [], GoOn)
          else do {
            c \<leftarrow> se_config e;
            if cc_negotiated c = None then do {
              (buf, n) \<leftarrow> dcep_open_marshal rel_code (dcep_of_config c) (replicate 1500 0);
              let buf = take n buf;
              _ \<leftarrow> write_dcep a buf;
              Some (e\<lparr>se_state := AwaitDcepAck\<rparr>, [(se_id e, PpiDcep, buf)], StartOver) }
            else out_of_band e } }
      | AlreadyExists \<Rightarrow> do {
          c \<leftarrow> se_config e;
          if cc_negotiated c = None then Some (to_close e, [], GoOn) else out_of_band e }
      | OpenFailed \<Rightarrow> Some (to_close e, [], GoOn))"

text \<open>An entry that a DCEP message has arrived for.\<close>

definition dcep_arrived :: "(u8 \<Rightarrow> reliability_type) \<Rightarrow> stream_entry \<Rightarrow> answers \<Rightarrow> bytes \<Rightarrow> (stream_entry \<times> writes \<times> poll_out) option" where
  "dcep_arrived rel_from e a buf =
     (case se_state e of
        AwaitConfig \<Rightarrow> do {
          r \<leftarrow> dcep_open_from rel_from buf;
          case r of
            Inl _ \<Rightarrow> Some (to_close e, [], GoOn)
          | Inr d \<Rightarrow> do {
              let e = (if se_config e = None then e\<lparr>se_config := Some (config_of_dcep d)\<rparr> else e);
              (obuf, _) \<leftarrow> dcep_ack_marshal [0];
              _ \<leftarrow> write_dcep a obuf;
              Some (e\<lparr>se_state := OpenState\<rparr>, [(se_id e, PpiDcep, obuf)], Emit (ChannelOpen (se_id e) (d_label d))) } }
      | AwaitDcepAck \<Rightarrow> do {
          r \<leftarrow> dcep_ack_from buf;
          case r of
            Inl _ \<Rightarrow> Some (to_close e, [], GoOn)
          | Inr _ \<Rightarrow> do {
              c \<leftarrow> se_config e;
              Some (e\<lparr>se_state := OpenState\<rparr>, [], Emit (ChannelOpen (se_id e) (cc_label c))) } }
      | _ \<Rightarrow> Some (to_close e, [], GoOn))"

definition entry_step :: "(reliability_type \<Rightarrow> u8) \<Rightarrow> (u8 \<Rightarrow> reliability_type) \<Rightarrow> stream_entry \<Rightarrow> answers \<Rightarrow> (stream_entry \<times> writes \<times> poll_out) option" where
  "entry_step rel_code rel_from e a =
     (if se_state e = AwaitOpen then want_open rel_code e a
      else if se_do_close e \<and> se_state e \<noteq> ClosedState then Some (e\<lparr>se_state := ClosedState\<rparr>, [], Emit (ChannelClose (se_id e)))
      else if \<not> a_stream a then Some (to_close e, [], GoOn)
      else case stream_read_data (a_read a) of
             Inl _ \<Rightarrow> Some (to_close e, [], GoOn)
           | Inr None \<Rightarrow> Some (e, [], GoOn)
           | Inr (Some (buf, p)) \<Rightarrow>
               if p \<noteq> PpiDcep then
                 Some (e, [], Emit (ChannelData (se_id e) (p = PpiBinary \<or> p = PpiBinaryEmpty) (ppi_adjust_buf buf p)))
               else dcep_arrived rel_from e a buf)"

fun poll_entries :: "(reliability_type \<Rightarrow> u8) \<Rightarrow> (u8 \<Rightarrow> reliability_type) \<Rightarrow> (u16 \<Rightarrow> answers) \<Rightarrow> stream_entry list \<Rightarrow>
    (stream_entry list \<times> writes \<times> poll_out) option" where
  "poll_entries rel_code rel_from ans [] = Some ([], [], GoOn)"
| "poll_entries rel_code rel_from ans (e # es) = do {
     (e, ws, out) \<leftarrow> entry_step rel_code rel_from e (ans (se_id e));
     if out = GoOn then do {
       (es, ws', out) \<leftarrow> poll_entries rel_code rel_from ans es;
       Some (e # es, ws @ ws', out) }
     else Some (e # es, ws, out) }"

fun poll_events :: "rtc_sctp \<Rightarrow> assoc_event list \<Rightarrow> rtc_sctp \<times> bool" where
  "poll_events st [] = (st, False)"
| "poll_events st (Connected # evs) = (st\<lparr>sc_state := Established\<rparr>, True)"
| "poll_events st (ReadableWritable i # evs) = poll_events (st\<lparr>sc_entries := entry_for i AwaitConfig (sc_entries st)\<rparr>) evs"
| "poll_events st (FinishedStopped i # evs) =
     poll_events (st\<lparr>sc_entries := close_entry i (entry_for i AwaitConfig (sc_entries st))\<rparr>) evs"
| "poll_events st (OtherEvent # evs) = poll_events st evs"

text \<open>One round of \<open>do_poll\<close>; \<open>StartOver\<close> is its call of itself.\<close>

definition poll_round :: "(reliability_type \<Rightarrow> u8) \<Rightarrow> (u8 \<Rightarrow> reliability_type) \<Rightarrow> rtc_sctp \<Rightarrow> world \<Rightarrow> (rtc_sctp \<times> writes \<times> poll_out) option" where
  "poll_round rel_code rel_from st w =
     (if sc_state st = Uninited then Some (st, [], GoOn)
      else case sc_pushed_back st of
        Some t \<Rightarrow> Some (st\<lparr>sc_pushed_back := None\<rparr>, [], Emit (Transmit t))
      | None \<Rightarrow>
        (case w_transmit w of
           Some t \<Rightarrow> Some (st, [], Emit (Transmit t))
         | None \<Rightarrow>
             if \<not> propagate_endpoint_to_assoc (sc_state st) \<or> \<not> sc_assoc st then Some (st, [], GoOn)
             else
               (let (st, connected) = poll_events st (w_events w) in
                if connected then Some (st, [], StartOver)
                else if sc_state st \<noteq> Established then Some (st, [], GoOn)
                else do {
                  (es, ws, out) \<leftarrow> poll_entries rel_code rel_from (w_answers w) (sc_entries st);
                  Some (st\<lparr>sc_entries := es\<rparr>, ws, out) })))"

section \<open>What every entry keeps\<close>

text \<open>Numbers are different, and what is to be opened or is open has a configuration.\<close>

definition configured :: "stream_entry \<Rightarrow> bool" where
  "configured e \<longleftrightarrow> (se_state e = AwaitOpen \<or> se_state e = AwaitDcepAck \<or> se_state e = OpenState \<longrightarrow> se_config e \<noteq> None)"

definition channels_ok :: "rtc_sctp \<Rightarrow> bool" where
  "channels_ok st \<longleftrightarrow> distinct (map se_id (sc_entries st)) \<and> list_all configured (sc_entries st)"

lemma entry_for_ids: "set (map se_id (entry_for i s es)) = insert i (set (map se_id es))"
  by (auto simp: entry_for_def)

lemma entry_for_distinct: "distinct (map se_id es) \<Longrightarrow> distinct (map se_id (entry_for i s es))"
  by (auto simp: entry_for_def)

lemma close_entry_ids [simp]: "map se_id (close_entry i es) = map se_id es"
  by (induction es) (simp_all add: to_close_def)

lemma configured_to_close [simp]: "configured (to_close e) = configured e"
  by (simp add: configured_def to_close_def)

lemma close_entry_configured [simp]: "list_all configured (close_entry i es) = list_all configured es"
  by (induction es) simp_all

lemma entry_for_configured: "list_all configured es \<Longrightarrow> list_all configured (entry_for i AwaitConfig es)"
  by (simp add: entry_for_def configured_def)

lemma with_entry_ids: "(\<And>e e'. f e = Some e' \<Longrightarrow> se_id e' = se_id e) \<Longrightarrow> with_entry i f es = Some es' \<Longrightarrow> map se_id es' = map se_id es"
  by (induction es arbitrary: es') (auto split: if_splits bind_splits)

lemma open_entry_keeps:
  assumes "open_entry x config a e = Some e'"
  shows "se_id e' = se_id e" "configured e'" "se_state e' = se_state e \<or> se_state e = AwaitConfig \<and> se_state e' = OpenState"
  using assms
  by (auto simp: open_entry_def configure_reliability_def configured_def to_close_def Let_def split: if_splits bind_splits option.splits)

lemma marshal_1500:
  "12 + length (d_label d) + length (d_protocol d) \<le> 1500 \<Longrightarrow>
     \<exists>buf. dcep_open_marshal rel_code d (replicate 1500 0) = Some (buf, 12 + length (d_label d) + length (d_protocol d))
       \<and> take (12 + length (d_label d) + length (d_protocol d)) buf = dcep_open_octets rel_code d"
proof -
  have "length (dcep_open_octets rel_code d) = 12 + length (d_label d) + length (d_protocol d)" by (simp add: dcep_open_octets_def)
  then show "12 + length (d_label d) + length (d_protocol d) \<le> 1500 \<Longrightarrow> ?thesis" by (simp add: dcep_open_marshal_def emit_def)
qed

lemma want_open_keeps:
  assumes "want_open rel_code e a = Some (e', ws, out)" "se_state e = AwaitOpen" "configured e"
  shows "se_id e' = se_id e" "configured e'"
    "out = Emit ev \<Longrightarrow> (\<exists>l. ev = ChannelOpen (se_id e) l) \<and> se_state e' = OpenState"
  using assms
  by (auto simp: want_open_def out_of_band_def configure_reliability_def configured_def to_close_def Let_def
      split: open_answer.splits option.splits if_splits bind_splits)

lemma dcep_arrived_keeps:
  assumes "dcep_arrived rel_from e a buf = Some (e', ws, out)" "configured e"
  shows "se_id e' = se_id e" "configured e'"
    "out = Emit ev \<Longrightarrow> (\<exists>l. ev = ChannelOpen (se_id e) l) \<and> se_state e \<noteq> OpenState \<and> se_state e' = OpenState"
    "se_state e = OpenState \<Longrightarrow> se_state e' = OpenState"
  using assms
  by (auto simp: dcep_arrived_def configured_def to_close_def Let_def
      split: entry_state.splits option.splits sum.splits if_splits bind_splits)

lemma entry_step_keeps:
  assumes "entry_step rel_code rel_from e a = Some (e', ws, out)" "configured e"
  shows "se_id e' = se_id e" "configured e'"
    "out = Emit (ChannelOpen i l) \<Longrightarrow> i = se_id e \<and> se_state e \<noteq> OpenState \<and> se_state e' = OpenState"
    "se_state e = OpenState \<Longrightarrow> se_state e' = OpenState \<or> out = Emit (ChannelClose (se_id e))"
proof -
  show "se_id e' = se_id e" "configured e'"
    using assms want_open_keeps(1,2) [of rel_code e a e' ws out] dcep_arrived_keeps(1,2) [of rel_from e a _ e' ws out]
    by (auto simp: entry_step_def configured_def to_close_def split: if_splits sum.splits option.splits)
  show "out = Emit (ChannelOpen i l) \<Longrightarrow> i = se_id e \<and> se_state e \<noteq> OpenState \<and> se_state e' = OpenState"
    using assms want_open_keeps(3) [of rel_code e a e' ws out "ChannelOpen i l"] dcep_arrived_keeps(3) [of rel_from e a _ e' ws out "ChannelOpen i l"]
    by (auto simp: entry_step_def split: if_splits sum.splits option.splits)
  show "se_state e = OpenState \<Longrightarrow> se_state e' = OpenState \<or> out = Emit (ChannelClose (se_id e))"
    using assms dcep_arrived_keeps(4) [of rel_from e a _ e' ws out]
    by (auto simp: entry_step_def to_close_def split: if_splits sum.splits option.splits)
qed

definition entry_with :: "u16 \<Rightarrow> (entry_state \<Rightarrow> bool) \<Rightarrow> stream_entry list \<Rightarrow> bool" where
  "entry_with i P es \<longleftrightarrow> (\<exists>e\<in>set es. se_id e = i \<and> P (se_state e))"

lemma entry_with_Cons [simp]: "entry_with i P (e # es) \<longleftrightarrow> se_id e = i \<and> P (se_state e) \<or> entry_with i P es"
  by (auto simp: entry_with_def)

lemma entry_with_Nil [simp]: "\<not> entry_with i P []"
  by (simp add: entry_with_def)

lemma poll_entries_keeps:
  assumes "poll_entries rel_code rel_from ans es = Some (es', ws, out)" "list_all configured es"
  shows "map se_id es' = map se_id es \<and> list_all configured es'
    \<and> (out = Emit (ChannelOpen i l) \<longrightarrow> entry_with i (\<lambda>s. s \<noteq> OpenState) es \<and> entry_with i (\<lambda>s. s = OpenState) es')
    \<and> (entry_with j (\<lambda>s. s = OpenState) es \<longrightarrow> entry_with j (\<lambda>s. s = OpenState) es' \<or> out = Emit (ChannelClose j))"
  using assms
proof (induction es arbitrary: es' ws out)
  case (Cons e es)
  obtain e1 ws1 out1 where s: "entry_step rel_code rel_from e (ans (se_id e)) = Some (e1, ws1, out1)"
    using Cons.prems(1) by (auto split: bind_splits)
  note k = entry_step_keeps [OF s] and c = Cons.prems(2)
  show ?case
  proof (cases "out1 = GoOn")
    case True
    obtain es1 ws2 where r: "poll_entries rel_code rel_from ans es = Some (es1, ws2, out)" "es' = e1 # es1"
      using Cons.prems(1) s True by (auto split: bind_splits)
    show ?thesis using Cons.IH [OF r(1)] k c True by (auto simp: r(2))
  next
    case False
    then have "es' = e1 # es" "out = out1" using Cons.prems(1) s by auto
    then show ?thesis using k c by auto
  qed
qed auto

lemma poll_events_keeps:
  assumes "poll_events st evs = (st', again)" "channels_ok st"
  shows "channels_ok st' \<and> (entry_with j (\<lambda>s. s = OpenState) (sc_entries st) \<longrightarrow> entry_with j (\<lambda>s. s = OpenState) (sc_entries st'))
    \<and> set (map se_config (sc_entries st')) \<subseteq> insert None (set (map se_config (sc_entries st)))"
  using assms
proof (induction st evs rule: poll_events.induct)
  case (3 st i evs)
  moreover have "channels_ok (st\<lparr>sc_entries := entry_for i AwaitConfig (sc_entries st)\<rparr>)"
    using "3.prems"(2) by (simp add: channels_ok_def entry_for_distinct entry_for_configured)
  ultimately show ?case by (auto simp: entry_for_def entry_with_def split: if_splits)
next
  case (4 st i evs)
  have cl: "se_config ` set (close_entry i es) = se_config ` set es" "entry_with j P (close_entry i es) = entry_with j P es" for P es
    by (induction es) (auto simp: to_close_def)
  have "channels_ok (st\<lparr>sc_entries := close_entry i (entry_for i AwaitConfig (sc_entries st))\<rparr>)"
    using "4.prems"(2) by (simp add: channels_ok_def entry_for_distinct entry_for_configured)
  then show ?case using 4 by (auto simp: cl) (auto simp: entry_for_def entry_with_def split: if_splits)
qed (auto simp: channels_ok_def)

section \<open>Runs\<close>

datatype sctp_op = OpInit bool | OpInput "datagram_event option" | OpTimeout | OpPushBack "bytes list" | OpOpen u16 channel_config answers
  | OpClose u16 | OpPoll world

definition emitted :: "poll_out \<Rightarrow> sctp_event list" where
  "emitted out = (case out of Emit ev \<Rightarrow> [ev] | _ \<Rightarrow> [])"

definition sctp_op :: "(reliability_type \<Rightarrow> u8) \<Rightarrow> (u8 \<Rightarrow> reliability_type) \<Rightarrow> rtc_sctp \<Rightarrow> sctp_op \<Rightarrow> (rtc_sctp \<times> sctp_event list) option" where
  "sctp_op rel_code rel_from st op =
     (case op of
        OpInit client \<Rightarrow> map_option (\<lambda>st. (st, [])) (sctp_init st client)
      | OpInput r \<Rightarrow> map_option (\<lambda>st. (st, [])) (sctp_handle_input st r)
      | OpTimeout \<Rightarrow> Some (sctp_handle_timeout st, [])
      | OpPushBack t \<Rightarrow> map_option (\<lambda>st. (st, [])) (push_back_transmit st t)
      | OpOpen i c a \<Rightarrow> map_option (\<lambda>st. (st, [])) (open_stream st i c a)
      | OpClose i \<Rightarrow> Some (close_stream st i, [])
      | OpPoll w \<Rightarrow> map_option (\<lambda>(st, _, out). (st, emitted out)) (poll_round rel_code rel_from st w))"

fun sctp_run :: "(reliability_type \<Rightarrow> u8) \<Rightarrow> (u8 \<Rightarrow> reliability_type) \<Rightarrow> rtc_sctp \<Rightarrow> sctp_op list \<Rightarrow> (rtc_sctp \<times> sctp_event list) option" where
  "sctp_run rel_code rel_from st [] = Some (st, [])"
| "sctp_run rel_code rel_from st (op # ops) = do {
     (st, evs) \<leftarrow> sctp_op rel_code rel_from st op;
     (st, evs') \<leftarrow> sctp_run rel_code rel_from st ops;
     Some (st, evs @ evs') }"

abbreviation open_in :: "u16 \<Rightarrow> rtc_sctp \<Rightarrow> bool" where
  "open_in i st \<equiv> entry_with i (\<lambda>s. s = OpenState) (sc_entries st)"

lemma open_entry_in: "with_entry i (open_entry x c a) es = Some es' \<Longrightarrow> list_all configured (filter (\<lambda>e. se_id e \<noteq> i) es) \<Longrightarrow> distinct (map se_id es) \<Longrightarrow>
    map se_id es' = map se_id es \<and> list_all configured es' \<and> (entry_with j (\<lambda>s. s = OpenState) es \<longrightarrow> entry_with j (\<lambda>s. s = OpenState) es')"
proof (induction es arbitrary: es')
  case (Cons e es)
  show ?case
  proof (cases "se_id e = i")
    case True
    then obtain e' where e: "open_entry x c a e = Some e'" "es' = e' # es" using Cons.prems(1) by (auto split: bind_splits)
    have "filter (\<lambda>e. se_id e \<noteq> i) es = es" using Cons.prems(3) True by (intro filter_True) (metis (mono_tags) distinct.simps(2) image_eqI list.set_map list.simps(9))
    then show ?thesis using open_entry_keeps [OF e(1)] Cons.prems(2) e(2) True by auto
  next
    case False
    then show ?thesis using Cons by (auto split: bind_splits)
  qed
qed simp

lemma open_stream_keeps:
  assumes "open_stream st i c a = Some st'" "channels_ok st"
  shows "channels_ok st' \<and> (open_in j st \<longrightarrow> open_in j st')"
proof -
  let ?es = "entry_for i AwaitOpen (sc_entries st)"
  obtain es where es: "with_entry i (open_entry (sc_assoc st) c a) ?es = Some es" "st' = st\<lparr>sc_entries := es\<rparr>"
    using assms(1) by (auto simp: open_stream_def split: bind_splits)
  have "distinct (map se_id ?es)" using assms(2) by (simp add: channels_ok_def entry_for_distinct)
  moreover have "list_all configured (filter (\<lambda>e. se_id e \<noteq> i) ?es)" using assms(2) by (auto simp: channels_ok_def entry_for_def list_all_iff)
  moreover have "open_in j st \<longrightarrow> entry_with j (\<lambda>s. s = OpenState) ?es" by (auto simp: entry_for_def entry_with_def)
  ultimately show ?thesis using open_entry_in [OF es(1), of j] es(2) by (simp add: channels_ok_def)
qed

lemma close_stream_keeps: "channels_ok st \<Longrightarrow> channels_ok (close_stream st i) \<and> open_in j (close_stream st i) = open_in j st"
proof -
  have "entry_with j P (close_entry i es) = entry_with j P es" for P es by (induction es) (auto simp: to_close_def)
  then show "channels_ok st \<Longrightarrow> ?thesis" by (simp add: close_stream_def channels_ok_def)
qed

lemma poll_round_keeps:
  assumes "poll_round rel_code rel_from st w = Some (st', ws, out)" "channels_ok st"
  shows "channels_ok st' \<and> (out = Emit (ChannelOpen i l) \<longrightarrow> \<not> open_in i st \<and> open_in i st')
    \<and> (open_in j st \<longrightarrow> open_in j st' \<or> out = Emit (ChannelClose j))"
proof (cases "\<exists>es. poll_events st (w_events w) = (st', False) \<and> False \<or>
    (\<exists>st1. poll_events st (w_events w) = (st1, False) \<and> poll_entries rel_code rel_from (w_answers w) (sc_entries st1) = Some (es, ws, out) \<and> st' = st1\<lparr>sc_entries := es\<rparr>)")
  case True
  then obtain st1 es where s: "poll_events st (w_events w) = (st1, False)"
      "poll_entries rel_code rel_from (w_answers w) (sc_entries st1) = Some (es, ws, out)" "st' = st1\<lparr>sc_entries := es\<rparr>" by blast
  have ev: "channels_ok st1" "open_in k st \<longrightarrow> open_in k st1" for k using poll_events_keeps [OF s(1) assms(2)] by auto
  have c: "list_all configured (sc_entries st1)" "distinct (map se_id (sc_entries st1))" using ev(1) by (simp_all add: channels_ok_def)
  note p = poll_entries_keeps [OF s(2) c(1)]
  have "\<not> (entry_with i (\<lambda>s. s \<noteq> OpenState) (sc_entries st1) \<and> open_in i st1)"
    using c(2) by (auto simp: entry_with_def distinct_map inj_on_def)
  then show ?thesis using p [of i l j] ev c s(3) by (auto simp: channels_ok_def)
next
  case False
  then have "(\<exists>evs again. poll_events st evs = (st', again)) \<and> (\<forall>ev. out = Emit ev \<longrightarrow> (\<exists>t. ev = Transmit t)) \<or> sc_entries st' = sc_entries st \<and> (\<forall>ev. out = Emit ev \<longrightarrow> (\<exists>t. ev = Transmit t))"
    using assms(1) by (auto simp: poll_round_def Let_def split: if_splits option.splits prod.splits bind_splits)
  then show ?thesis using poll_events_keeps assms(2) by (fastforce simp: channels_ok_def)
qed

section \<open>What the application is told\<close>

definition about :: "u16 \<Rightarrow> sctp_event \<Rightarrow> bool" where
  "about i ev \<longleftrightarrow> (case ev of ChannelOpen j _ \<Rightarrow> j = i | ChannelClose j \<Rightarrow> j = i | _ \<Rightarrow> False)"

text \<open>The last the application heard of the channel is that it is open.\<close>

definition told_open :: "u16 \<Rightarrow> sctp_event list \<Rightarrow> bool" where
  "told_open i evs \<longleftrightarrow> (case last_such (about i) evs of Some (ChannelOpen _ _) \<Rightarrow> True | _ \<Rightarrow> False)"

definition opens_apart :: "sctp_event list \<Rightarrow> bool" where
  "opens_apart evs \<longleftrightarrow> (\<forall>xs i l ys l' zs. evs = xs @ [ChannelOpen i l] @ ys @ [ChannelOpen i l'] @ zs \<longrightarrow> ChannelClose i \<in> set ys)"

lemma told_open_snoc: "told_open i (evs @ [ev]) = (if about i ev then (case ev of ChannelOpen _ _ \<Rightarrow> True | _ \<Rightarrow> False) else told_open i evs)"
  by (simp add: told_open_def)

lemma told_open_since: "ChannelClose i \<notin> set ys \<Longrightarrow> told_open i (xs @ [ChannelOpen i l] @ ys)"
proof (induction ys rule: rev_induct)
  case Nil
  then show ?case by (simp add: told_open_snoc about_def)
next
  case (snoc y ys)
  have "about i y \<Longrightarrow> \<exists>l. y = ChannelOpen i l" using snoc.prems by (auto simp: about_def split: sctp_event.splits)
  then show ?case using snoc told_open_snoc [of i "xs @ [ChannelOpen i l] @ ys" y] by auto
qed

lemma opens_apart_snoc:
  assumes "opens_apart evs" "\<And>i l. ev = ChannelOpen i l \<Longrightarrow> \<not> told_open i evs"
  shows "opens_apart (evs @ [ev])"
  unfolding opens_apart_def
proof (intro allI impI)
  fix xs i l ys l' zs
  assume d: "evs @ [ev] = xs @ [ChannelOpen i l] @ ys @ [ChannelOpen i l'] @ zs"
  show "ChannelClose i \<in> set ys"
  proof (cases zs rule: rev_cases)
    case Nil
    then have "evs = xs @ [ChannelOpen i l] @ ys" "ev = ChannelOpen i l'" using d by auto
    then show ?thesis using assms(2) told_open_since by metis
  next
    case (snoc zs' z)
    then have "evs = xs @ [ChannelOpen i l] @ ys @ [ChannelOpen i l'] @ zs'" using d by auto
    then show ?thesis using assms(1) unfolding opens_apart_def by blast
  qed
qed

text \<open>What has been told so far agrees with the entries.\<close>

definition in_step :: "rtc_sctp \<Rightarrow> sctp_event list \<Rightarrow> bool" where
  "in_step st evs \<longleftrightarrow> channels_ok st \<and> opens_apart evs \<and> (\<forall>i. told_open i evs \<longrightarrow> open_in i st)"

lemma in_step_quiet: "in_step st evs \<Longrightarrow> channels_ok st' \<Longrightarrow> (\<And>i. open_in i st \<Longrightarrow> open_in i st') \<Longrightarrow> in_step st' evs"
  by (auto simp: in_step_def)

lemma op_in_step:
  assumes "sctp_op rel_code rel_from st op = Some (st', evs')" "in_step st evs"
  shows "in_step st' (evs @ evs')"
proof -
  have ok: "channels_ok st" using assms(2) by (simp add: in_step_def)
  consider (quiet) "evs' = []" "channels_ok st'" "\<And>i. open_in i st \<Longrightarrow> open_in i st'"
    | (poll) w ws out where "poll_round rel_code rel_from st w = Some (st', ws, out)" "evs' = emitted out"
  proof (cases op)
    case (OpInit c)
    then show thesis using assms(1) ok by (intro quiet) (auto simp: sctp_op_def sctp_init_def channels_ok_def split: if_splits)
  next
    case (OpInput r)
    then show thesis using assms(1) ok
      by (intro quiet) (auto simp: sctp_op_def sctp_handle_input_def channels_ok_def split: if_splits option.splits datagram_event.splits)
  next
    case OpTimeout
    have "distinct (map se_id (filter P es))" if "distinct (map se_id es)" for P es using that by (rule distinct_map_filter)
    then show thesis using assms(1) ok OpTimeout
      by (intro quiet) (auto simp: sctp_op_def sctp_handle_timeout_def channels_ok_def list_all_iff entry_with_def split: if_splits)
  next
    case (OpPushBack t)
    then show thesis using assms(1) ok by (intro quiet) (auto simp: sctp_op_def push_back_transmit_def channels_ok_def split: if_splits)
  next
    case (OpOpen i c a)
    then show thesis using assms(1) open_stream_keeps [OF _ ok] by (intro quiet) (auto simp: sctp_op_def)
  next
    case (OpClose i)
    then show thesis using assms(1) close_stream_keeps [OF ok] by (intro quiet) (auto simp: sctp_op_def)
  next
    case (OpPoll w)
    then show thesis using assms(1) that(2) by (auto simp: sctp_op_def)
  qed
  then show ?thesis
  proof cases
    case quiet
    then show ?thesis using in_step_quiet [OF assms(2)] by simp
  next
    case poll
    note k = poll_round_keeps [OF poll(1) ok]
    show ?thesis
    proof (cases out)
      case (Emit ev)
      have t: "told_open i evs \<Longrightarrow> open_in i st" for i using assms(2) by (simp add: in_step_def)
      have "opens_apart (evs @ [ev])"
        using assms(2) k t by (intro opens_apart_snoc) (auto simp: in_step_def Emit)
      moreover have "open_in i st'" if "told_open i (evs @ [ev])" for i
        using that k [of i _ i] t [of i] Emit by (auto simp: told_open_snoc about_def split: if_splits sctp_event.splits)
      ultimately show ?thesis using k Emit poll(2) by (auto simp: in_step_def emitted_def)
    qed (use in_step_quiet [OF assms(2)] k poll(2) in \<open>auto simp: emitted_def\<close>)
  qed
qed

lemma run_in_step: "sctp_run rel_code rel_from st ops = Some (st', evs') \<Longrightarrow> in_step st evs \<Longrightarrow> in_step st' (evs @ evs')"
proof (induction ops arbitrary: st evs evs')
  case (Cons op ops)
  obtain st1 es1 es2 where "sctp_op rel_code rel_from st op = Some (st1, es1)" "sctp_run rel_code rel_from st1 ops = Some (st', es2)" "evs' = es1 @ es2"
    using Cons.prems(1) by (auto split: bind_splits)
  then show ?case using Cons.IH [of st1 es2 "evs @ es1"] op_in_step [OF _ Cons.prems(2)] by simp
qed simp

lemma new_in_step: "in_step sctp_new []"
  by (simp add: in_step_def channels_ok_def sctp_new_def opens_apart_def told_open_def)

lemma find_open:
  "entry_with i (\<lambda>s. s = OpenState) es \<Longrightarrow> distinct (map se_id es) \<Longrightarrow> \<exists>e. find (\<lambda>e. se_id e = i) es = Some e \<and> se_state e = OpenState"
  by (induction es) (auto simp: entry_with_def)

text \<open>C23. Whatever the association answers and in whatever order channels are opened, closed and polled: between two messages that a
  channel is open the application is told that it was closed, and a channel it was last told to be open is one.
\<close>

theorem channel_opens_alternate:
  assumes "sctp_run rel_code rel_from sctp_new ops = Some (st, evs)"
  shows "(\<forall>xs i l ys l' zs. evs = xs @ [ChannelOpen i l] @ ys @ [ChannelOpen i l'] @ zs \<longrightarrow> ChannelClose i \<in> set ys)
    \<and> (\<forall>i. told_open i evs \<longrightarrow> sc_state st = Established \<longrightarrow> is_open st i)"
proof -
  have s: "in_step st evs" using run_in_step [OF assms new_in_step] by simp
  have "is_open st i" if "told_open i evs" "sc_state st = Established" for i
  proof -
    have "open_in i st" "distinct (map se_id (sc_entries st))" using s that(1) by (auto simp: in_step_def channels_ok_def)
    then have "\<exists>e. find (\<lambda>e. se_id e = i) (sc_entries st) = Some e \<and> se_state e = OpenState"
      by (rule find_open)
    then show ?thesis using that(2) by (auto simp: is_open_def)
  qed
  then show ?thesis using s unfolding in_step_def opens_apart_def by blast
qed

definition all_yes :: "chunk_answer \<Rightarrow> answers" where
  "all_yes r = \<lparr>a_open = Opened, a_stream = True, a_reliability = (\<lambda>_ _ _. True), a_written = (\<lambda>_ buf. Some (length buf)), a_read = r\<rparr>"

definition round_of :: "assoc_event list \<Rightarrow> chunk_answer \<Rightarrow> world" where
  "round_of evs r = \<lparr>w_transmit = None, w_events = evs, w_answers = (\<lambda>_. all_yes r)\<rparr>"

lemma channel_opens_alternate_witness:
  "\<exists>st evs. sctp_run (\<lambda>_. 0) (\<lambda>_. Reliable) sctp_new
      [OpInit True, OpPoll (round_of [Connected] NoChunk),
       OpOpen 3 \<lparr>cc_label = [], cc_ordered = True, cc_reliability = ReliableSetting, cc_negotiated = Some 3, cc_protocol = []\<rparr> (all_yes NoChunk),
       OpPoll (round_of [] NoChunk)] = Some (st, evs) \<and> evs = [ChannelOpen 3 []] \<and> is_open st 3"
proof -
  let ?ops = "[OpInit True, OpPoll (round_of [Connected] NoChunk),
       OpOpen 3 \<lparr>cc_label = [], cc_ordered = True, cc_reliability = ReliableSetting, cc_negotiated = Some 3, cc_protocol = []\<rparr> (all_yes NoChunk),
       OpPoll (round_of [] NoChunk)]"
  obtain st where st: "sctp_run (\<lambda>_. 0) (\<lambda>_. Reliable) sctp_new ?ops = Some (st, [ChannelOpen 3 []])" "sc_state st = Established"
    by (simp add: sctp_op_def sctp_init_def sctp_new_def poll_round_def propagate_endpoint_to_assoc_def round_of_def open_stream_def
        entry_for_def open_entry_def Let_def entry_step_def want_open_def all_yes_def configure_reliability_def out_of_band_def emitted_def)
  have "told_open 3 [ChannelOpen 3 []]" by (simp add: told_open_def last_such_def about_def)
  then have "is_open st 3" using channel_opens_alternate [OF st(1)] st(2) by blast
  then show ?thesis using st(1) by blast
qed

section \<open>Opening a channel with the remote side\<close>

text \<open>C8. Two peers agree on a channel: when one opens a channel in-band, what it writes is understood by the other, which is told of a
  channel with that label and keeps the same configuration; its acknowledgement tells the first that the channel is open;
  and then what is written on one side is told on the other. The label and the protocol must fit the buffer.
\<close>

theorem channel_handshake:
  assumes "rel_codes rel_code rel_from" "cc_negotiated c = None" "utf8_ok (cc_label c)" "utf8_ok (cc_protocol c)"
    "12 + length (cc_label c) + length (cc_protocol c) \<le> 1500"
  defines "st \<equiv> sctp_new\<lparr>sc_state := Established, sc_assoc := True\<rparr>"
  shows "\<exists>a0 a1 a2 b1 hello ack. open_stream st i c (all_yes NoChunk) = Some a0
    \<and> poll_round rel_code rel_from a0 (round_of [] NoChunk) = Some (a1, [(i, PpiDcep, hello)], StartOver)
    \<and> poll_round rel_code rel_from st (round_of [ReadableWritable i] (Chunk PpiDcep hello)) = Some (b1, [(i, PpiDcep, ack)], Emit (ChannelOpen i (cc_label c)))
    \<and> poll_round rel_code rel_from a1 (round_of [] (Chunk PpiDcep ack)) = Some (a2, [], Emit (ChannelOpen i (cc_label c)))
    \<and> is_open a2 i \<and> is_open b1 i \<and> map se_config (sc_entries b1) = [Some c]
    \<and> (\<forall>binary buf. sctp_write a2 i binary buf (all_yes NoChunk) = ok (length buf, [(i, ppi_for binary buf, buf)])
        \<and> poll_round rel_code rel_from b1 (round_of [] (Chunk (ppi_for binary buf) buf)) = Some (b1, [], Emit (ChannelData i binary buf)))"
proof -
  let ?d = "dcep_of_config c"
  have d: "d_label ?d = cc_label c" "d_protocol ?d = cc_protocol c" by (simp_all add: dcep_of_config_def split_beta)
  obtain buf where m: "dcep_open_marshal rel_code ?d (replicate 1500 0) = Some (buf, 12 + length (cc_label c) + length (cc_protocol c))"
      "take (12 + length (cc_label c) + length (cc_protocol c)) buf = dcep_open_octets rel_code ?d"
    using marshal_1500 [of ?d rel_code] assms(5) unfolding d by blast
  define e0 where "e0 = \<lparr>se_config = Some c, se_state = AwaitOpen, se_id = i, se_do_close = False\<rparr>"
  have r: "dcep_open_from rel_from (dcep_open_octets rel_code ?d) = ok ?d"
    using dcep_open_read_back [OF assms(1), of ?d "[]"] assms(3-5) by (simp add: d)
  define a0 where "a0 = st\<lparr>sc_entries := [e0]\<rparr>"
  define a1 where "a1 = st\<lparr>sc_entries := [e0\<lparr>se_state := AwaitDcepAck\<rparr>]\<rparr>"
  define a2 where "a2 = st\<lparr>sc_entries := [e0\<lparr>se_state := OpenState\<rparr>]\<rparr>"
  have 1: "open_stream st i c (all_yes NoChunk) = Some a0"
    by (simp add: open_stream_def entry_for_def open_entry_def st_def sctp_new_def a0_def e0_def Let_def)
  have p: "poll_round rel_code rel_from (st\<lparr>sc_entries := [e]\<rparr>) (round_of [] x)
      = map_option (\<lambda>(e, ws, out). (st\<lparr>sc_entries := [e]\<rparr>, ws, out)) (entry_step rel_code rel_from e (all_yes x))" for e x
    by (auto simp: poll_round_def round_of_def st_def sctp_new_def propagate_endpoint_to_assoc_def Let_def bind_eq_Some_conv split: bind_splits)
  have 2: "poll_round rel_code rel_from a0 (round_of [] NoChunk) = Some (a1, [(i, PpiDcep, dcep_open_octets rel_code ?d)], StartOver)"
    unfolding a0_def p using m assms(2)
    by (simp add: entry_step_def want_open_def e0_def all_yes_def configure_reliability_def Let_def write_dcep_def a1_def)
  have 3: "poll_round rel_code rel_from st (round_of [ReadableWritable i] (Chunk PpiDcep (dcep_open_octets rel_code ?d)))
      = Some (a2, [(i, PpiDcep, [2])], Emit (ChannelOpen i (cc_label c)))"
    using r config_there_and_back [OF assms(2)]
    by (simp add: poll_round_def round_of_def st_def sctp_new_def propagate_endpoint_to_assoc_def Let_def entry_for_def entry_step_def
        all_yes_def stream_read_data_def dcep_arrived_def dcep_ack_marshal_def put_def write_dcep_def d a2_def e0_def)
  have 4: "poll_round rel_code rel_from a1 (round_of [] (Chunk PpiDcep [2])) = Some (a2, [], Emit (ChannelOpen i (cc_label c)))"
    unfolding a1_def p by (simp add: entry_step_def e0_def all_yes_def stream_read_data_def dcep_arrived_def dcep_ack_from_def idx_def a2_def)
  have 5: "is_open a2 i" by (simp add: is_open_def a2_def e0_def st_def)
  have 6: "sctp_write a2 i binary xs (all_yes NoChunk) = ok (length xs, [(i, ppi_for binary xs, xs)])" for binary xs
    by (simp add: sctp_write_def a2_def e0_def st_def all_yes_def)
  have 7: "poll_round rel_code rel_from a2 (round_of [] (Chunk (ppi_for binary xs) xs)) = Some (a2, [], Emit (ChannelData i binary xs))" for binary xs
    unfolding a2_def p by (simp add: entry_step_def e0_def all_yes_def stream_read_data_def ppi_for_def ppi_adjust_buf_def)
  have 8: "map se_config (sc_entries a2) = [Some c]" by (simp add: a2_def e0_def)
  show ?thesis
    by (rule exI [of _ a0], rule exI [of _ a1], rule exI [of _ a2], rule exI [of _ a2], rule exI [of _ "dcep_open_octets rel_code ?d"],
        rule exI [of _ "[2]"], intro conjI allI) (rule 1 2 3 4 5 6 7 8)+
qed

lemma channel_handshake_witness:
  "\<exists>st a1 hello. open_stream (sctp_new\<lparr>sc_state := Established, sc_assoc := True\<rparr>) 5
        \<lparr>cc_label = [104, 105, 100], cc_ordered = True, cc_reliability = MaxRetransmits 3, cc_negotiated = None, cc_protocol = []\<rparr> (all_yes NoChunk) = Some st
    \<and> poll_round (\<lambda>r. case r of Reliable \<Rightarrow> 0 | Rexmit \<Rightarrow> 1 | Timed \<Rightarrow> 2) (\<lambda>v. if v = 1 then Rexmit else if v = 2 then Timed else Reliable)
        st (round_of [] NoChunk) = Some (a1, [(5, PpiDcep, hello)], StartOver)"
proof -
  let ?c = "\<lparr>cc_label = [104, 105, 100], cc_ordered = True, cc_reliability = MaxRetransmits 3, cc_negotiated = None, cc_protocol = []\<rparr>"
  have "rel_codes (\<lambda>r. case r of Reliable \<Rightarrow> 0 | Rexmit \<Rightarrow> 1 | Timed \<Rightarrow> 2) (\<lambda>v. if v = 1 then Rexmit else if v = 2 then Timed else Reliable)"
    by (auto simp: rel_codes_def split: reliability_type.split)
  moreover have "utf8_ok (cc_label ?c)" by (intro utf8_ok_ascii) simp
  ultimately show ?thesis using channel_handshake [of _ _ ?c 5] by fastforce
qed

section \<open>What can go wrong\<close>

lemma entry_step_total:
  assumes "configured e" "\<And>c. se_config e = Some c \<Longrightarrow> 12 + length (cc_label c) + length (cc_protocol c) \<le> 1500"
    "\<And>buf. a_written a PpiDcep buf = Some (length buf)"
  shows "entry_step rel_code rel_from e a \<noteq> None"
proof -
  have w: "write_dcep a buf = Some ()" for buf using assms(3) by (simp add: write_dcep_def)
  have "want_open rel_code e a \<noteq> None" if o: "se_state e = AwaitOpen"
  proof -
    obtain c where c: "se_config e = Some c" using assms(1) o by (auto simp: configured_def)
    have "\<exists>buf n. dcep_open_marshal rel_code (dcep_of_config c) (replicate 1500 0) = Some (buf, n)"
      using marshal_1500 [of "dcep_of_config c" rel_code] assms(2) [OF c] by (fastforce simp: dcep_of_config_def split_beta)
    then show ?thesis by (auto simp: want_open_def configure_reliability_def c Let_def out_of_band_def w split: open_answer.split)
  qed
  moreover have "dcep_arrived rel_from e a buf \<noteq> None" for buf
  proof -
    obtain r r' where "dcep_open_from rel_from buf = Some r" "dcep_ack_from buf = Some r'"
      using dcep_open_from_total [of rel_from buf] dcep_ack_from_total [of buf] by blast
    then show ?thesis using assms(1)
      by (auto simp: dcep_arrived_def configured_def dcep_ack_marshal_def put_def w Let_def split: entry_state.split sum.split)
  qed
  ultimately show ?thesis by (auto simp: entry_step_def split: sum.split option.split)
qed

lemma poll_entries_total:
  "list_all configured es \<Longrightarrow> (\<And>c. Some c \<in> se_config ` set es \<Longrightarrow> 12 + length (cc_label c) + length (cc_protocol c) \<le> 1500) \<Longrightarrow>
     (\<And>i buf. a_written (ans i) PpiDcep buf = Some (length buf)) \<Longrightarrow> poll_entries rel_code rel_from ans es \<noteq> None"
proof (induction es)
  case (Cons e es)
  have "entry_step rel_code rel_from e (ans (se_id e)) \<noteq> None"
    using Cons.prems by (intro entry_step_total) auto
  moreover have "poll_entries rel_code rel_from ans es \<noteq> None" using Cons by auto
  ultimately show ?case by (auto split: prod.split)
qed simp

text \<open>
  Polling panics only if the association does not take a whole message of the opening protocol, or a channel's label and
  protocol do not fit a buffer of 1500 octets.
\<close>

theorem channel_panics_confined:
  assumes "sctp_run rel_code rel_from sctp_new ops = Some (st, evs)" "poll_round rel_code rel_from st w = None"
  shows "(\<exists>i buf. a_written (w_answers w i) PpiDcep buf \<noteq> Some (length buf))
    \<or> (\<exists>c. Some c \<in> set (map se_config (sc_entries st)) \<and> 1500 < 12 + length (cc_label c) + length (cc_protocol c))"
proof (rule ccontr)
  assume no: "\<not> ?thesis"
  have ok: "channels_ok st" using run_in_step [OF assms(1) new_in_step] by (simp add: in_step_def)
  obtain st1 again where s: "poll_events st (w_events w) = (st1, again)" by (cases "poll_events st (w_events w)")
  note k = poll_events_keeps [OF s ok]
  have "poll_entries rel_code rel_from (w_answers w) (sc_entries st1) \<noteq> None"
  proof (rule poll_entries_total)
    show "list_all configured (sc_entries st1)" using k by (simp add: channels_ok_def)
    show "12 + length (cc_label c) + length (cc_protocol c) \<le> 1500" if "Some c \<in> se_config ` set (sc_entries st1)" for c
      using k no that by (fastforce simp: not_less)
  qed (use no in blast)
  then show False using assms(2) s by (auto simp: poll_round_def Let_def split: if_splits option.splits)
qed

text \<open>
  A channel that could not be opened is never closed: the entry waits to be opened, and is tried again and again; closing it does
  not help, and the application is told nothing.
\<close>

theorem failed_open_never_closes:
  assumes "sc_state st = Established" "sc_assoc st" "sc_pushed_back st = None" "sc_entries st = [e]" "se_state e = AwaitOpen"
    "se_config e = Some c" "cc_negotiated c = None" "w_transmit w = None" "w_events w = []" "a_open (w_answers w (se_id e)) = AlreadyExists"
  shows "\<exists>st' e'. sctp_run rel_code rel_from st (OpClose (se_id e) # replicate n (OpPoll w)) = Some (st', []) \<and> sc_entries st' = [e'] \<and> se_state e' = AwaitOpen"
proof -
  have "\<exists>st' e'. sctp_run rel_code rel_from st (replicate n (OpPoll w)) = Some (st', []) \<and> sc_entries st' = [e'] \<and> se_state e' = AwaitOpen"
    if "sc_state st = Established" "sc_assoc st" "sc_pushed_back st = None" "sc_entries st = [e]" "se_state e = AwaitOpen"
      "se_config e = Some c" "se_id e = i" "a_open (w_answers w i) = AlreadyExists" for st e i
    using that
  proof (induction n arbitrary: st e)
    case (Suc n)
    have "sctp_op rel_code rel_from st (OpPoll w) = Some (st\<lparr>sc_entries := [to_close e]\<rparr>, [])"
      using Suc.prems assms(7-9)
      by (simp add: sctp_op_def poll_round_def propagate_endpoint_to_assoc_def entry_step_def want_open_def emitted_def)
    moreover have "\<exists>st' e'. sctp_run rel_code rel_from (st\<lparr>sc_entries := [to_close e]\<rparr>) (replicate n (OpPoll w)) = Some (st', [])
        \<and> sc_entries st' = [e'] \<and> se_state e' = AwaitOpen"
      using Suc.prems by (intro Suc.IH [of _ "to_close e"]) (simp_all add: to_close_def)
    ultimately show ?case by auto
  qed simp
  from this [of "close_stream st (se_id e)" "to_close e" "se_id e"] show ?thesis
    using assms by (simp add: sctp_op_def close_stream_def) (simp add: to_close_def)
qed

text \<open>Data is handed on before a channel is open, and after the application was told that it is closed.\<close>

theorem data_out_of_turn:
  "map_option snd (sctp_run rel_code rel_from sctp_new
     [OpInit True, OpPoll (round_of [Connected] NoChunk), OpPoll (round_of [ReadableWritable 1] (Chunk PpiBinary [7])),
      OpClose 1, OpPoll (round_of [] NoChunk), OpPoll (round_of [] (Chunk PpiBinary [8]))])
   = Some [ChannelData 1 True [7], ChannelClose 1, ChannelData 1 True [8]]"
  by (simp add: sctp_op_def sctp_init_def sctp_new_def poll_round_def propagate_endpoint_to_assoc_def round_of_def entry_for_def
      entry_step_def all_yes_def stream_read_data_def ppi_adjust_buf_def emitted_def close_stream_def to_close_def)

end
