(* ===== verification/Spec2Isabelle.thy ===== *)
theory Spec2Isabelle imports Hid VideoCtl Audio Signal Supervisor Session Compound TwccQuery RxDelivery CodecConfig FormatText Pacer NackRegister RtxCache RtpHeader ExtMap Channels begin

text \<open>
  This library models Any-KVM, a remote keyboard, screen and mouse: an agent in Rust (\<open>agent/src\<close>) captures the screen and
  the sound of a machine, sends them over WebRTC to a browser and plays the browser's keyboard and mouse events on the
  machine. WebRTC is the vendored and patched library str0m (\<open>agent/patches/str0m-0.5.1/src\<close>, below \<open>str0m\<close>).

  \<^bold>\<open>How the program is put together.\<close> \<open>main.rs\<close> starts one capture thread for video and one for audio, a thread for the HID
  device and the signalling task, and joins them by channels: encoded frames go through a bridge task to a broadcast
  channel, key and mouse frames through a queue to the HID thread. The signalling client waits for a browser; for each
  one, \<open>webrtc.rs\<close> runs a session: it opens a UDP socket, asks STUN and TURN servers for addresses, answers the
  browser's offer, and then loops over the RTC engine of str0m, the socket and the channels. str0m cuts frames into RTP
  packets (a payload format per codec), queues them, puts received ones into order, and exchanges RTCP packets about
  what arrived. Those parts of str0m are modelled here that keep state or translate between octets and values.

  \<^bold>\<open>What the theories hold.\<close> Definitions have the names of the source, in its order; an
  \<open>option\<close> result without other meaning is a panic, and \<open>Inl\<close> is an error that is returned.

  \<^item> Foundations. \<open>Prelude\<close>: machine integers, octet strings, slices and indexing that panics, and the locale \<open>stepper\<close> for
    operations that keep an invariant. \<open>Text\<close>: decimal numbers and the string operations of the standard library.
    \<open>Net\<close>: socket addresses. \<open>Wire\<close>: parsers that panic, fail or succeed.
  \<^item> The agent. \<open>Hid\<close> (\<open>hid.rs\<close>): control frames become USB gadget reports or CH9329 serial packets; the gadget
    mode refines a specification over the history of frames. \<open>YuvConv\<close> and \<open>VideoCtl\<close> (\<open>video.rs\<close>): pixel
    conversion, and the capture loops with their commands and fallbacks. \<open>Audio\<close> (\<open>audio.rs\<close>): reading, encoding,
    sending. \<open>Signal\<close> (\<open>signal_client.rs\<close>): one WebSocket session as a function of its inputs, and the reconnecting
    loop. \<open>Backoff\<close>: the locale of growing delays that \<open>Signal\<close> and \<open>Supervisor\<close> interpret. \<open>Supervisor\<close>
    (\<open>main.rs\<close>): the bridge under every schedule, and the loop that starts sessions anew. \<open>Session\<close> (\<open>webrtc.rs\<close>,
    \<open>run\<close> after the answer): the state is a record; events of the engine, media, the timer of TURN and packets of the
    socket are inputs of one iteration, what goes to the socket, to the engine and to the channels is its output.
    \<open>Stun\<close> and \<open>Digest\<close> (\<open>webrtc.rs\<close>): the agent's own STUN and TURN messages, MD5, SHA-1 and HMAC, each digest equal to
    its standard's block function folded over the padded message (locale \<open>block_digest\<close>).
  \<^item> Datagrams of str0m. \<open>IceStun\<close> (\<open>io/stun.rs\<close>): the messages of connectivity checks. \<open>Datagram\<close> (\<open>io/mod.rs\<close>): what
    kind of packet a datagram is. \<open>SeqNo\<close> (\<open>rtp/header.rs\<close>): extension of truncated numbers. \<open>RtpHeader\<close> (the rest of
    \<open>header.rs\<close>): the header of RTP packets and their padding. \<open>RtpExt\<close> (\<open>rtp/ext.rs\<close>): its extensions as octets, their
    registry, and the send time a receiver makes of 24 bits; \<open>ExtMap\<close>: how their numbers are negotiated.
  \<^item> RTCP of str0m (\<open>rtp/rtcp\<close>). \<open>ReportList\<close> (\<open>list.rs\<close>), \<open>RtcpHeader\<close> (\<open>header.rs\<close>, \<open>fmt.rs\<close>), \<open>RtcpPackets\<close>
    (\<open>nack.rs\<close>, \<open>pli.rs\<close>, \<open>fir.rs\<close>, \<open>rr.rs\<close>, \<open>sr.rs\<close>, \<open>bb.rs\<close>, and the locale \<open>rtcp_packet\<close> with what every packet type promises:
    its length in words, and that it is read as it was written), \<open>Sdes\<close>, \<open>ExtendedReports\<close>, \<open>Remb\<close>; \<open>Rtcp\<close> and
    \<open>Compound\<close> (\<open>mod.rs\<close>): packing, writing and reading compound packets. Transport wide congestion control
    (\<open>twcc.rs\<close>): \<open>Twcc\<close> its octets, \<open>TwccRecv\<close> the receiver's register and the building of a feedback, \<open>TwccReport\<close> the
    iterator over one, \<open>TwccSend\<close> the sender's register, \<open>TwccDelivery\<close> the way from the one to the other, \<open>TwccQuery\<close>
    losses and intervals.
  \<^item> Media of str0m (\<open>packet\<close>). \<open>Payload\<close>: what the formats share, and the locale \<open>cutting\<close> (pieces that fit and
    make up the whole), which \<open>Payload\<close> and \<open>AudioPayload\<close> interpret. \<open>AudioPayload\<close>, \<open>H264\<close>, \<open>H265\<close>, \<open>Vp8\<close>, \<open>Vp9\<close>: the
    formats; \<open>Codecs\<close>: the choice among them and the writing of samples. \<open>Contiguity\<close>: which frames may be handed
    on. \<open>MTime\<close> (\<open>rtp/mtime.rs\<close>): media times. \<open>RxBuffer\<close> (\<open>buffer_rx.rs\<close>): the reordering buffer. \<open>StreamRx\<close>
    (\<open>streams/receive.rs\<close>): how a received packet gets its extended number and its time. \<open>RxDelivery\<close>: what these
    promise together for packets in order. \<open>SendQueue\<close> and \<open>NackRegister\<close> (\<open>streams\<close>): packets to be sent, and packets to be asked
    for again. \<open>RtxCache\<close> (\<open>rtx_cache.rs\<close>, \<open>rtx_cache_buf.rs\<close>): the packets that can be sent again. \<open>Pacer\<close> (\<open>pacer.rs\<close>, and
    \<open>queue_state\<close> in \<open>streams/send.rs\<close>): what waits in a stream, and which stream sends next.
  \<^item> Data channels of str0m (\<open>sctp\<close>). \<open>Dcep\<close> (\<open>dcep.rs\<close>): the messages that open a channel. \<open>Channels\<close> (\<open>mod.rs\<close>): the
    entries of channels as a state machine; the answers of the SCTP association are inputs of each round of polling.
  \<^item> Negotiation of str0m. \<open>Formats\<close> and \<open>CodecConfig\<close> (\<open>format.rs\<close>): codecs, payload types and their settling against
    a remote description; \<open>H264Profile\<close>: profiles and levels; \<open>FormatText\<close>: format parameters as text.

  \<^bold>\<open>What the lemmas show.\<close> For every packet format: what is written is read back, under a well-formedness of the value
  that is stated (\<open>nack_wf\<close>, \<open>twcc_wf\<close>, \<open>xr_wf\<close> and so on), and which inputs can panic a parser. For every component with
  state: an invariant that holds in all runs (\<open>rx_ok\<close>, \<open>recv_inv\<close>, \<open>knows\<close>, \<open>accounted\<close>, \<open>reports_ok\<close>), and, where there is
  a simpler account of what it promises, a refinement (\<open>gadget_agrees\<close>, \<open>rep\<close>, \<open>plain_run\<close>, \<open>told_by\<close>). Across
  components: a VP8 stream pushed by a sender comes out of the receiver's buffer frame by frame, numbers and times
  worked out from the 16 and 32 bits of the headers; RTCP feedback queued
  by one side is found by the other; a congestion control report tells the sender what arrived and when; what a stream
  tells the pacer agrees with its send queue. A theorem that holds for some inputs only says which: where the code
  fails on the others, as on VP8 frames that leave one or two octets for the last packet, or on feedback with a delta
  behind a run of large ones, a theorem beside it shows how. Some theorems show faults of the code by a run: they state
  what the code does, not what it should do.

  \<^bold>\<open>Bounds and conventions.\<close> Release builds wrap, and the agent's release profile aborts at a panic: arithmetic on words
  wraps, a subtraction of \<open>usize\<close> that would go below zero is counted as a panic, and so is one of instants except where a
  theory says that it yields 0, as it does today. Sequence numbers
  that the code extends to 64 bits are naturals where nothing near 2^64 can be reached. Instants are nanoseconds at the
  receiver and microseconds in the iterator over a feedback. Loops are structural recursion on what they consume or
  recursion with a decreasing measure, so no fuel bounds them; the endless loops (session, capture, bridge,
  signalling) take their inputs as a list, and a property of all lists is one of all prefixes of a run. A compound RTCP
  packet is written into 1050 octets as \<open>session.rs\<close> does, but the properties hold for every size. Binary searches are
  modelled by the place they find in a sorted list. A single precision bit rate is given by its exponent and
  fraction.

  \<^bold>\<open>Parameters.\<close> Code outside the repository is an argument of the definitions that use it or a list of its answers: the
  JPEG and Opus decoders and encoders, ALSA and V4L2, the HID devices, WebSocket and JSON, OpenSSL's HMAC in \<open>IceStun\<close>, and
  for the session the RTC engine's outputs. The header of an RTP packet beyond its marker is a type parameter of
  the reordering buffer.

  \<^bold>\<open>What is not modelled.\<close> SRTP, DTLS and the SCTP association (OpenSSL and the \<open>sctp-proto\<close> package); bandwidth estimation, jitter, loss quotients
  and the pacer's leaky bucket (floating point); the state machine of the ICE agent; the grammar of SDP (a parser
  combinator package) beyond format parameters; the reports and statistics of streams, and the engine that composes these parts; user supplied
  payload formats and header extensions; the signalling server (Go), the browser client (JavaScript), scripts.
\<close>

end
